(* ===== verification/Prelude.thy ===== *)
theory Prelude
  imports Complex_Main
begin

text \<open>
  Shared vocabulary of the development: the C++ comparisons and \<open>std::min\<close>/\<open>std::max\<close> as
  functions on any ordered type (so that a definition written with them can be read both over
  IEEE doubles, which is the code, and over an exact linear order), reads and writes of a
  \<open>std::vector\<close> by index, and the list lemmas the components share.
\<close>

named_theorems code_defs \<open>definitions of the model that proofs unfold by default\<close>
named_theorems list_facts \<open>facts on indexed lists shared by the components\<close>

section \<open>C++ comparisons\<close>

text \<open>
  \<open>a == b\<close> on doubles is not HOL equality: it is false on a NaN and identifies the two zeros.
  Both \<open>a \<le> b\<close> and \<open>b \<le> a\<close> hold exactly when C++ answers true, and on a linear order this is
  ordinary equality.
\<close>

definition feq :: "'a::ord \<Rightarrow> 'a \<Rightarrow> bool" where
  "feq a b \<longleftrightarrow> a \<le> b \<and> b \<le> a"

definition cmax :: "'a::ord \<Rightarrow> 'a \<Rightarrow> 'a" where
  "cmax a b = (if a < b then b else a)"

definition cmin :: "'a::ord \<Rightarrow> 'a \<Rightarrow> 'a" where
  "cmin a b = (if b < a then b else a)"

lemma feq_order [simp]: "feq a b \<longleftrightarrow> a = (b::'a::order)"
  by (auto simp: feq_def)

lemma cmax_linorder [simp]: "cmax a b = max a (b::'a::linorder)"
  by (auto simp: cmax_def max_def)

lemma cmin_linorder [simp]: "cmin a b = min a (b::'a::linorder)"
  by (auto simp: cmin_def min_def)

section \<open>Vectors\<close>

text \<open>
  \<open>xs[i] op= v\<close> on a vector. Every caller indexes inside the vector; outside it the C++ is
  undefined and \<open>list_update\<close> leaves the list alone, so no lemma below is about that case.
\<close>

definition modify_at :: "nat \<Rightarrow> ('a \<Rightarrow> 'a) \<Rightarrow> 'a list \<Rightarrow> 'a list" where
  "modify_at i f xs = xs[i := f (xs ! i)]"

lemma length_modify_at [simp]: "length (modify_at i f xs) = length xs"
  by (simp add: modify_at_def)

lemma nth_modify_at [list_facts]:
  "i < length xs \<Longrightarrow> modify_at i f xs ! j = (if j = i then f (xs ! i) else xs ! j)"
  by (simp add: modify_at_def)

lemma set_list_update_iff [list_facts]:
  "i < length xs \<Longrightarrow> x \<in> set (xs[i := v]) \<Longrightarrow> x = v \<or> x \<in> set xs"
  by (metis insert_iff set_update_subset_insert subsetD)

text \<open>Erase and insert at a position, as \<open>std::vector\<close> does.\<close>

definition erase_at :: "nat \<Rightarrow> 'a list \<Rightarrow> 'a list" where
  "erase_at i xs = take i xs @ drop (Suc i) xs"

definition insert_at :: "nat \<Rightarrow> 'a \<Rightarrow> 'a list \<Rightarrow> 'a list" where
  "insert_at i x xs = take i xs @ x # drop i xs"

lemma length_erase_at [simp]: "i < length xs \<Longrightarrow> length (erase_at i xs) = length xs - 1"
  by (simp add: erase_at_def)

lemma length_insert_at [simp]: "length (insert_at i x xs) = Suc (length xs)"
  by (simp add: insert_at_def)

lemma set_erase_at: "set (erase_at i xs) \<subseteq> set xs"
  by (auto simp: erase_at_def dest: in_set_takeD in_set_dropD)

lemma set_insert_at [simp]: "set (insert_at i x xs) = insert x (set xs)"
  by (auto simp: insert_at_def dest: in_set_takeD in_set_dropD)
     (metis Un_iff append_take_drop_id set_append)

lemma erase_at_Cons_Suc [simp]: "erase_at (Suc i) (x # xs) = x # erase_at i xs"
  by (simp add: erase_at_def)

lemma erase_at_Cons_0 [simp]: "erase_at 0 (x # xs) = xs"
  by (simp add: erase_at_def)

lemma sorted_wrt_erase_at: "sorted_wrt P xs \<Longrightarrow> sorted_wrt P (erase_at i xs)"
  by (metis (no_types, lifting) append_take_drop_id drop_drop erase_at_def plus_1_eq_Suc
      sorted_wrt_append in_set_dropD)

lemma distinct_map_erase_at: "distinct (map f xs) \<Longrightarrow> distinct (map f (erase_at i xs))"
proof (induction xs arbitrary: i)
  case Nil
  then show ?case by (simp add: erase_at_def)
next
  case (Cons x xs)
  then show ?case
    using set_erase_at[of "i - 1" xs] by (cases i) auto
qed

text \<open>The position of the first element of a list that satisfies a test.\<close>

fun find_index :: "('a \<Rightarrow> bool) \<Rightarrow> 'a list \<Rightarrow> nat option" where
  "find_index P [] = None"
| "find_index P (x # xs) = (if P x then Some 0 else map_option Suc (find_index P xs))"

lemma find_index_Some:
  "find_index P xs = Some i \<Longrightarrow> i < length xs \<and> P (xs ! i) \<and> (\<forall>j < i. \<not> P (xs ! j))"
proof (induction xs arbitrary: i)
  case (Cons x xs)
  show ?case
  proof (cases "P x")
    case False
    with Cons.prems obtain k where k: "find_index P xs = Some k" "i = Suc k" by auto
    from Cons.IH[OF k(1)] False k(2) show ?thesis
      by (auto simp: nth_Cons split: nat.splits)
  qed (use Cons.prems in auto)
qed simp

lemma find_index_None [simp]: "find_index P xs = None \<longleftrightarrow> (\<forall>x \<in> set xs. \<not> P x)"
  by (induction xs) auto

lemma length_filter_key: "distinct (map f xs) \<Longrightarrow> length (filter (\<lambda>e. f e = i) xs) \<le> 1"
proof (induction xs)
  case (Cons x xs)
  show ?case
  proof (cases "f x = i")
    case True
    from Cons.prems have "f x \<notin> f ` set xs" by simp
    with True have "filter (\<lambda>e. f e = i) xs = []" by (auto simp: filter_empty_conv image_iff)
    then show ?thesis by simp
  qed (use Cons in simp)
qed simp

section \<open>Stores that may forget\<close>

text \<open>
  A container of bounded size that is offered elements one at a time and may drop some: what it holds
  afterwards was held before or is the element offered. Whatever holds of every element ever offered
  then holds of every element held, which is all a client may rely on.
\<close>

locale forgetful_store =
  fixes ok :: "'s \<Rightarrow> bool" and held :: "'s \<Rightarrow> 'k set" and key :: "'x \<Rightarrow> 'k" and offer :: "'x \<Rightarrow> 's \<Rightarrow> 's"
  assumes offer_ok: "ok s \<Longrightarrow> ok (offer x s)"
    and offer_held: "ok s \<Longrightarrow> held (offer x s) \<subseteq> insert (key x) (held s)"
begin

lemma offers_ok: "ok s \<Longrightarrow> ok (fold offer xs s)"
  by (induction xs arbitrary: s) (auto intro: offer_ok)

lemma offers_held: "ok s \<Longrightarrow> held (fold offer xs s) \<subseteq> key ` set xs \<union> held s"
proof (induction xs arbitrary: s)
  case (Cons x xs)
  from Cons.IH[OF offer_ok[OF Cons.prems, of x]] offer_held[OF Cons.prems, of x] show ?case by auto
qed simp

lemma offers_valid:
  "ok s \<Longrightarrow> (\<forall>k \<in> held s. valid k) \<Longrightarrow> (\<forall>x \<in> set xs. valid (key x)) \<Longrightarrow> k \<in> held (fold offer xs s) \<Longrightarrow> valid k"
  using offers_held by fastforce

end

end
