(* ===== verification/Doubles.thy ===== *)
theory Doubles
  imports Prelude "HOL-Library.Log_Nat"
begin

text \<open>
  The C++ type \<open>double\<close>: IEEE 754 binary64 with round-to-nearest, ties to even, which is what
  the build computes with (SSE2 or better, no excess precision and no contraction assumed).
  A finite nonzero value is the rational number it stands for; the two zeros, the infinities
  and NaN are constructors of their own. Every operation is the exact operation on the rational
  values followed by one rounding, as the standard defines it, so the definitions compute.
\<close>

section \<open>Values\<close>

datatype double = NaN | PInf | NInf | MZero | Fin rat

primrec val :: "double \<Rightarrow> rat" where
  "val NaN = 0"
| "val PInf = 0"
| "val NInf = 0"
| "val MZero = 0"
| "val (Fin q) = q"

fun isnan :: "double \<Rightarrow> bool" where
  "isnan NaN = True"
| "isnan _ = False"

fun isinf :: "double \<Rightarrow> bool" where
  "isinf PInf = True"
| "isinf NInf = True"
| "isinf _ = False"

fun isfinite :: "double \<Rightarrow> bool" where
  "isfinite (Fin _) = True"
| "isfinite MZero = True"
| "isfinite _ = False"

text \<open>The sign bit; a NaN's sign is never observed by the code.\<close>

fun signbit :: "double \<Rightarrow> bool" where
  "signbit NInf = True"
| "signbit MZero = True"
| "signbit (Fin q) = (q < 0)"
| "signbit _ = False"

lemma isfinite_cases: "isfinite x \<longleftrightarrow> x = MZero \<or> (\<exists>q. x = Fin q)"
  by (cases x) auto

lemma isfinite_iff: "isfinite x \<longleftrightarrow> \<not> isnan x \<and> \<not> isinf x"
  by (cases x) auto

section \<open>Rounding\<close>

text \<open>The binary exponent of a positive rational, from the bit lengths of its two halves.\<close>

definition flog2 :: "rat \<Rightarrow> int" where
  "flog2 q = (let (a, b) = quotient_of q;
                  k = int (floorlog 2 (nat a)) - int (floorlog 2 (nat b))
              in if 2 powi k \<le> q then k else k - 1)"

text \<open>The exponent of the last place: 52 below the leading bit, and -1074 for subnormals.\<close>

definition grid :: "rat \<Rightarrow> int" where
  "grid q = max (flog2 \<bar>q\<bar> - 52) (- 1074)"

definition round_half_even :: "rat \<Rightarrow> int" where
  "round_half_even x = (let f = \<lfloor>x\<rfloor>; d = x - of_int f in
     if d < 1 / 2 then f else if 1 / 2 < d then f + 1 else if even f then f else f + 1)"

definition round_rat :: "rat \<Rightarrow> rat" where
  "round_rat q = (if q = 0 then 0
     else of_int (round_half_even (q / 2 powi grid q)) * 2 powi grid q)"

definition rnd :: "rat \<Rightarrow> double" where
  "rnd q = (let r = round_rat q in
     if 2 ^ 1024 \<le> r then PInf
     else if r \<le> - (2 ^ 1024) then NInf
     else if r = 0 \<and> q < 0 then MZero
     else Fin r)"

section \<open>Operations\<close>

definition inf_of :: "bool \<Rightarrow> double" where
  "inf_of s = (if s then NInf else PInf)"

definition zero_of :: "bool \<Rightarrow> double" where
  "zero_of s = (if s then MZero else Fin 0)"

definition dneg :: "double \<Rightarrow> double" where
  "dneg x = (case x of NaN \<Rightarrow> NaN | PInf \<Rightarrow> NInf | NInf \<Rightarrow> PInf | MZero \<Rightarrow> Fin 0
     | Fin q \<Rightarrow> if q = 0 then MZero else Fin (- q))"

definition dadd :: "double \<Rightarrow> double \<Rightarrow> double" where
  "dadd x y =
     (if isnan x \<or> isnan y \<or> (x = PInf \<and> y = NInf) \<or> (x = NInf \<and> y = PInf) then NaN
      else if isinf x then x
      else if isinf y then y
      else if x = MZero \<and> y = MZero then MZero
      else rnd (val x + val y))"

definition dmul :: "double \<Rightarrow> double \<Rightarrow> double" where
  "dmul x y =
     (let s = (signbit x \<noteq> signbit y) in
      if isnan x \<or> isnan y \<or> (isinf x \<and> isfinite y \<and> val y = 0)
         \<or> (isfinite x \<and> val x = 0 \<and> isinf y) then NaN
      else if isinf x \<or> isinf y then inf_of s
      else if val x * val y = 0 then zero_of s
      else rnd (val x * val y))"

definition ddiv :: "double \<Rightarrow> double \<Rightarrow> double" where
  "ddiv x y =
     (let s = (signbit x \<noteq> signbit y) in
      if isnan x \<or> isnan y \<or> (isinf x \<and> isinf y)
         \<or> (isfinite x \<and> isfinite y \<and> val x = 0 \<and> val y = 0) then NaN
      else if isinf x \<or> (isfinite y \<and> val y = 0) then inf_of s
      else if isinf y \<or> val x = 0 then zero_of s
      else rnd (val x / val y))"

definition dabs :: "double \<Rightarrow> double" where
  "dabs x = (case x of NaN \<Rightarrow> NaN | PInf \<Rightarrow> PInf | NInf \<Rightarrow> PInf | MZero \<Rightarrow> Fin 0
     | Fin q \<Rightarrow> Fin \<bar>q\<bar>)"

definition dless :: "double \<Rightarrow> double \<Rightarrow> bool" where
  "dless x y \<longleftrightarrow> \<not> isnan x \<and> \<not> isnan y \<and>
     (x = NInf \<and> y \<noteq> NInf \<or> x \<noteq> PInf \<and> y = PInf \<or>
      isfinite x \<and> isfinite y \<and> val x < val y)"

definition dleq :: "double \<Rightarrow> double \<Rightarrow> bool" where
  "dleq x y \<longleftrightarrow> \<not> isnan x \<and> \<not> isnan y \<and>
     (x = NInf \<or> y = PInf \<or> isfinite x \<and> isfinite y \<and> val x \<le> val y)"

text \<open>A decimal literal of the source is rounded once, by the compiler.\<close>

definition lit :: "rat \<Rightarrow> double" where
  "lit q = rnd q"

text \<open>\<open>std::numeric_limits<double>::max()\<close>.\<close>

definition dbl_max :: double where
  "dbl_max = Fin ((2 ^ 53 - 1) * 2 ^ 971)"

text \<open>\<open>std::floor\<close>, \<open>std::ceil\<close> and \<open>std::round\<close> (halves away from zero); a zero result keeps
  the sign of the argument.\<close>

definition int_result :: "double \<Rightarrow> int \<Rightarrow> double" where
  "int_result x n = (if n = 0 then zero_of (signbit x) else Fin (of_int n))"

definition dfloor :: "double \<Rightarrow> double" where
  "dfloor x = (if isfinite x then int_result x \<lfloor>val x\<rfloor> else x)"

definition dceil :: "double \<Rightarrow> double" where
  "dceil x = (if isfinite x then int_result x \<lceil>val x\<rceil> else x)"

definition round_away :: "rat \<Rightarrow> int" where
  "round_away q = (if q < 0 then - \<lfloor>1 / 2 - q\<rfloor> else \<lfloor>q + 1 / 2\<rfloor>)"

definition dround :: "double \<Rightarrow> double" where
  "dround x = (if isfinite x then int_result x (round_away (val x)) else x)"

section \<open>The syntactic classes\<close>

text \<open>The source's operators are then written as in the source. No algebraic class is claimed:
  addition does not associate, and a NaN is related to nothing.\<close>

instantiation double :: "{zero, one, plus, minus, uminus, times, inverse, abs, ord}"
begin

definition zero_double :: double where "0 = Fin 0"
definition one_double :: double where "1 = Fin 1"
definition plus_double :: "double \<Rightarrow> double \<Rightarrow> double" where "x + y = dadd x y"
definition uminus_double :: "double \<Rightarrow> double" where "- x = dneg x"
definition minus_double :: "double \<Rightarrow> double \<Rightarrow> double" where "x - y = dadd x (dneg y)"
definition times_double :: "double \<Rightarrow> double \<Rightarrow> double" where "x * y = dmul x y"
definition divide_double :: "double \<Rightarrow> double \<Rightarrow> double" where "x div y = ddiv x y"
definition inverse_double :: "double \<Rightarrow> double" where "inverse x = ddiv (Fin 1) x"
definition abs_double :: "double \<Rightarrow> double" where "\<bar>x\<bar> = dabs x"
definition less_double :: "double \<Rightarrow> double \<Rightarrow> bool" where "x < y \<longleftrightarrow> dless x y"
definition less_eq_double :: "double \<Rightarrow> double \<Rightarrow> bool" where "x \<le> y \<longleftrightarrow> dleq x y"

instance ..

end

lemmas double_defs [code_defs] = zero_double_def one_double_def plus_double_def uminus_double_def
  minus_double_def times_double_def divide_double_def inverse_double_def abs_double_def
  less_double_def less_eq_double_def

section \<open>Comparisons\<close>

lemma dless_simps [simp]:
  "\<not> NaN < x" "\<not> x < NaN" "Fin a < Fin b \<longleftrightarrow> a < b" "Fin a < MZero \<longleftrightarrow> a < 0"
  "MZero < Fin a \<longleftrightarrow> 0 < a" "\<not> PInf < x" "\<not> x < NInf" "Fin a < PInf" "NInf < Fin a"
  "MZero < PInf" "NInf < MZero" "NInf < PInf" "\<not> MZero < MZero"
  by (auto simp: less_double_def dless_def)

lemma dleq_simps [simp]:
  "\<not> NaN \<le> x" "\<not> x \<le> NaN" "Fin a \<le> Fin b \<longleftrightarrow> a \<le> b" "Fin a \<le> MZero \<longleftrightarrow> a \<le> 0"
  "MZero \<le> Fin a \<longleftrightarrow> 0 \<le> a" "x \<le> PInf \<longleftrightarrow> \<not> isnan x" "NInf \<le> x \<longleftrightarrow> \<not> isnan x"
  "\<not> Fin a \<le> NInf" "\<not> PInf \<le> Fin a" "\<not> MZero \<le> NInf" "\<not> PInf \<le> MZero"
  "\<not> PInf \<le> NInf" "MZero \<le> MZero"
  by (auto simp: less_eq_double_def dleq_def)

lemma dleq_refl [simp]: "x \<le> x \<longleftrightarrow> \<not> isnan (x :: double)"
  by (cases x) auto

lemma dless_le_not_le: "x < y \<longleftrightarrow> x \<le> y \<and> \<not> y \<le> (x :: double)"
  by (cases x; cases y) auto

lemma dleq_trans: "x \<le> y \<Longrightarrow> y \<le> z \<Longrightarrow> x \<le> (z :: double)"
  by (cases x; cases y; cases z) auto

lemma dless_leq_trans: "x < y \<Longrightarrow> y \<le> z \<Longrightarrow> x < (z :: double)"
  by (cases x; cases y; cases z) auto

lemma dleq_less_trans: "x \<le> y \<Longrightarrow> y < z \<Longrightarrow> x < (z :: double)"
  by (cases x; cases y; cases z) auto

lemma dless_trans: "x < y \<Longrightarrow> y < z \<Longrightarrow> x < (z :: double)"
  by (cases x; cases y; cases z) auto

lemma dless_imp_leq: "x < y \<Longrightarrow> x \<le> (y :: double)"
  by (cases x; cases y) auto

lemma dless_irrefl [simp]: "\<not> x < (x :: double)"
  by (cases x) auto

text \<open>Away from NaN the order is total: the one place where it is not is what the code's
  negated comparisons are written for.\<close>

lemma not_dless: "\<not> isnan x \<Longrightarrow> \<not> isnan y \<Longrightarrow> \<not> x < y \<longleftrightarrow> y \<le> (x :: double)"
  by (cases x; cases y) auto

lemma dless_not_nan: "x < y \<Longrightarrow> \<not> isnan x \<and> \<not> isnan (y :: double)"
  by (cases x; cases y) auto

lemma dleq_not_nan: "x \<le> y \<Longrightarrow> \<not> isnan x \<and> \<not> isnan (y :: double)"
  by (cases x; cases y) auto

lemma dless_finite: "isfinite x \<Longrightarrow> isfinite y \<Longrightarrow> x < y \<longleftrightarrow> val x < val y"
  by (cases x; cases y) auto

lemma dleq_finite: "isfinite x \<Longrightarrow> isfinite y \<Longrightarrow> x \<le> y \<longleftrightarrow> val x \<le> val y"
  by (cases x; cases y) auto

lemma feq_nan [simp]: "\<not> feq NaN x" "\<not> feq x NaN"
  by (auto simp: feq_def)

lemma feq_refl_double [simp]: "feq x x \<longleftrightarrow> \<not> isnan (x :: double)"
  by (simp add: feq_def)

section \<open>Rounding to an integer, ties to even\<close>

lemma round_half_even_of_int [simp]: "round_half_even (of_int n) = n"
  by (simp add: round_half_even_def)

lemma round_half_even_bounds:
  "of_int (round_half_even x) - 1 / 2 \<le> x \<and> x \<le> of_int (round_half_even x) + 1 / 2"
  unfolding round_half_even_def Let_def by (auto; linarith)

lemma round_half_even_mono:
  assumes "x \<le> y"
  shows "round_half_even x \<le> round_half_even y"
proof (cases "\<lfloor>x\<rfloor> = \<lfloor>y\<rfloor>")
  case True
  with assms show ?thesis unfolding round_half_even_def Let_def by auto
next
  case False
  with floor_mono[OF assms] have "\<lfloor>x\<rfloor> + 1 \<le> \<lfloor>y\<rfloor>" by simp
  moreover have "round_half_even x \<le> \<lfloor>x\<rfloor> + 1" "\<lfloor>y\<rfloor> \<le> round_half_even y"
    unfolding round_half_even_def Let_def by auto
  ultimately show ?thesis by linarith
qed

lemma round_half_even_minus: "round_half_even (- x) = - round_half_even x"
proof (cases "x = of_int \<lfloor>x\<rfloor>")
  case True
  then have "round_half_even (- x) = round_half_even (of_int (- \<lfloor>x\<rfloor>))" by simp
  also have "\<dots> = - round_half_even x"
    using True round_half_even_of_int by metis
  finally show ?thesis .
next
  case False
  then have "\<lceil>x\<rceil> = \<lfloor>x\<rfloor> + 1" by (simp add: ceiling_altdef)
  then have fl: "\<lfloor>- x\<rfloor> = - \<lfloor>x\<rfloor> - 1" by (simp add: floor_minus)
  have d: "- x - of_int (- \<lfloor>x\<rfloor> - 1) = 1 - (x - of_int \<lfloor>x\<rfloor>)" by simp
  show ?thesis
    unfolding round_half_even_def Let_def fl d by (simp split: if_splits)
qed

lemma round_half_even_nonneg: "0 \<le> x \<Longrightarrow> 0 \<le> round_half_even x"
  using round_half_even_mono[of 0 x] round_half_even_of_int[of 0] by simp

section \<open>The binary exponent\<close>

lemma powi2_pos [simp]: "0 < (2 :: rat) powi k"
  by (simp add: zero_less_power_int)

lemma powi2_mono: "i \<le> j \<Longrightarrow> (2 :: rat) powi i \<le> 2 powi j"
  by (rule power_int_increasing) auto

lemma powi2_less_cancel: "(2 :: rat) powi i < 2 powi j \<Longrightarrow> i < j"
  using powi2_mono[of j i] by (meson leD not_le)

lemma powi2_add: "(2 :: rat) powi (i + j) = 2 powi i * 2 powi j"
  by (simp add: power_int_add)

lemma powi2_nat: "(2 :: rat) powi (int n) = 2 ^ n"
  by (simp add: power_int_def)

lemma bitlen_bounds:
  assumes "0 < (a :: int)"
  shows "(2 :: rat) powi (int (floorlog 2 (nat a)) - 1) \<le> of_int a"
    and "of_int a < (2 :: rat) powi int (floorlog 2 (nat a))"
proof -
  let ?n = "floorlog 2 (nat a)"
  have pos: "0 < nat a" using assms by simp
  have b: "2 ^ (?n - 1) \<le> nat a" "nat a < 2 ^ ?n"
    using floorlog_bounds[of "nat a" 2] pos by auto
  have n: "0 < ?n" using pos by (simp add: floorlog_def)
  have "(2 :: int) ^ (?n - 1) \<le> a" using b(1) assms by (simp add: le_nat_iff)
  then have "(of_int (2 ^ (?n - 1)) :: rat) \<le> of_int a" by (simp only: of_int_le_iff)
  moreover have "(2 :: rat) powi (int ?n - 1) = 2 ^ (?n - 1)"
    using n powi2_nat[of "?n - 1"] by (simp add: of_nat_diff)
  ultimately show "(2 :: rat) powi (int ?n - 1) \<le> of_int a" by simp
  have "a < 2 ^ ?n" using b(2) assms by (simp add: nat_less_iff)
  then have "(of_int a :: rat) < of_int (2 ^ ?n)" by (simp only: of_int_less_iff)
  then show "of_int a < (2 :: rat) powi int ?n" by (simp add: powi2_nat)
qed

lemma flog2_bounds:
  assumes "0 < q"
  shows "2 powi flog2 q \<le> q" and "q < 2 powi (flog2 q + 1)"
proof -
  obtain a b where ab: "quotient_of q = (a, b)" by force
  have b: "0 < b" using quotient_of_denom_pos[OF ab] .
  have q: "q = of_int a / of_int b" using quotient_of_div[OF ab] .
  with assms b have a: "0 < a"
    by (metis of_int_0_less_iff zero_less_divide_iff of_int_pos order_less_asym)
  define k where "k = int (floorlog 2 (nat a)) - int (floorlog 2 (nat b))"
  let ?l = "floorlog 2 (nat a)" and ?m = "floorlog 2 (nat b)"
  have up: "q < 2 powi (k + 1)"
  proof -
    have "of_int a < (2 :: rat) powi int ?l" by (rule bitlen_bounds(2)[OF a])
    also have "\<dots> = 2 powi (k + 1) * 2 powi (int ?m - 1)"
      by (subst powi2_add[symmetric]) (simp add: k_def)
    also have "\<dots> \<le> 2 powi (k + 1) * of_int b"
      using bitlen_bounds(1)[OF b] by (intro mult_left_mono) (auto simp: less_imp_le)
    finally show ?thesis using b q by (simp add: divide_less_eq)
  qed
  have lo: "2 powi (k - 1) < q"
  proof -
    have "2 powi (k - 1) * of_int b < 2 powi (k - 1) * (2 powi int ?m :: rat)"
      using bitlen_bounds(2)[OF b] by (intro mult_strict_left_mono) auto
    also have "\<dots> = 2 powi (int ?l - 1)"
      by (subst powi2_add[symmetric]) (simp add: k_def)
    also have "\<dots> \<le> of_int a" by (rule bitlen_bounds(1)[OF a])
    finally show ?thesis using b q by (simp add: less_divide_eq)
  qed
  have f: "flog2 q = (if 2 powi k \<le> q then k else k - 1)"
    by (simp add: flog2_def ab k_def Let_def)
  show "2 powi flog2 q \<le> q" "q < 2 powi (flog2 q + 1)"
    using up lo by (auto simp: f)
qed

lemma flog2_unique:
  assumes "2 powi k \<le> q" "q < 2 powi (k + 1)"
  shows "flog2 q = k"
proof -
  have pos: "0 < q" using assms(1) powi2_pos[of k] by linarith
  have a: "2 powi flog2 q < (2 :: rat) powi (k + 1)"
    using flog2_bounds(1)[OF pos] assms(2) by linarith
  have b: "2 powi k < (2 :: rat) powi (flog2 q + 1)"
    using flog2_bounds(2)[OF pos] assms(1) by linarith
  show ?thesis using powi2_less_cancel[OF a] powi2_less_cancel[OF b] by linarith
qed

lemma flog2_mono:
  assumes "0 < p" "p \<le> q"
  shows "flog2 p \<le> flog2 q"
proof -
  have "2 powi flog2 p < (2 :: rat) powi (flog2 q + 1)"
    using flog2_bounds(1)[of p] flog2_bounds(2)[of q] assms by linarith
  from powi2_less_cancel[OF this] show ?thesis by linarith
qed


section \<open>The rounding function\<close>

lemma grid_ge: "- 1074 \<le> grid q" and grid_ge_flog2: "flog2 \<bar>q\<bar> - 52 \<le> grid q"
  by (auto simp: grid_def)

lemma grid_minus [simp]: "grid (- q) = grid q"
  by (simp add: grid_def)

lemma round_rat_0 [simp]: "round_rat 0 = 0"
  by (simp add: round_rat_def)

lemma round_rat_minus: "round_rat (- q) = - round_rat q"
  using round_half_even_minus[of "q / 2 powi grid q"] by (simp add: round_rat_def)

lemma round_rat_nonneg: "0 \<le> q \<Longrightarrow> 0 \<le> round_rat q"
  by (simp add: round_rat_def round_half_even_nonneg less_imp_le)

text \<open>A rational with at most 53 significant bits, not below the subnormal grid, is a double.\<close>

lemma round_rat_exact_less:
  assumes q: "q = of_int m * 2 powi e" and m: "\<bar>m\<bar> < 2 ^ 53" and e: "- 1074 \<le> e"
  shows "round_rat q = q"
proof (cases "m = 0")
  case False
  then have q0: "0 < \<bar>q\<bar>" using q by simp
  have absq: "\<bar>q\<bar> = of_int \<bar>m\<bar> * 2 powi e" using q by (simp add: abs_mult less_imp_le)
  have "(of_int \<bar>m\<bar> :: rat) < of_int (2 ^ 53)" using m by (simp only: of_int_less_iff)
  then have "\<bar>q\<bar> < 2 powi 53 * 2 powi e"
    unfolding absq by (intro mult_strict_right_mono) (auto simp: power_int_def)
  then have "2 powi flog2 \<bar>q\<bar> < (2 :: rat) powi (53 + e)"
    using flog2_bounds(1)[OF q0] by (simp add: powi2_add)
  from powi2_less_cancel[OF this] e have g: "grid q \<le> e" by (simp add: grid_def)
  define k where "k = grid q"
  have "2 powi e = 2 ^ nat (e - k) * (2 :: rat) powi k"
    using g powi2_add[of "e - k" k] powi2_nat[of "nat (e - k)"] by (simp add: k_def)
  then have "q / 2 powi k = of_int (m * 2 ^ nat (e - k))"
    by (simp add: q)
  then have "q / 2 powi grid q = of_int (m * 2 ^ nat (e - grid q))"
    by (simp only: k_def)
  then have "of_int (round_half_even (q / 2 powi grid q)) = q / 2 powi grid q"
    by (simp only: round_half_even_of_int)
  then show ?thesis by (simp add: round_rat_def)
qed (use q in simp)

lemma round_rat_exact:
  assumes q: "q = of_int m * 2 powi e" and m: "\<bar>m\<bar> \<le> 2 ^ 53" and e: "- 1074 \<le> e"
  shows "round_rat q = q"
proof (cases "\<bar>m\<bar> < 2 ^ 53")
  case True
  show ?thesis by (rule round_rat_exact_less[OF q True e])
next
  case False
  with m have "m = sgn m * 2 ^ 53" by (metis abs_mult_sgn antisym_conv1 mult.commute not_le)
  then have "q = of_int (sgn m * 2 ^ 52) * 2 powi (e + 1)"
    using q powi2_add[of e 1] by simp
  then show ?thesis
    by (rule round_rat_exact_less) (use e in \<open>auto simp: abs_mult sgn_if\<close>)
qed

lemma round_rat_pow2: "- 1074 \<le> k \<Longrightarrow> round_rat (2 powi k) = 2 powi k"
  by (rule round_rat_exact[of _ 1]) auto

lemma round_rat_mono_pos:
  assumes p: "0 < p" and pq: "p \<le> q"
  shows "round_rat p \<le> round_rat q"
proof -
  have q: "0 < q" using p pq by simp
  have lg: "flog2 p \<le> flog2 q" using flog2_mono[OF p pq] .
  then have gg: "grid p \<le> grid q" using p q by (simp add: grid_def)
  show ?thesis
  proof (cases "grid p = grid q")
    case True
    have "p / 2 powi grid q \<le> q / 2 powi grid q"
      using pq by (simp add: divide_right_mono less_imp_le)
    then show ?thesis
      using True p q by (simp add: round_rat_def round_half_even_mono mult_right_mono less_imp_le)
  next
    case False
    let ?k = "flog2 q"
    from False gg have gq: "grid q = ?k - 52" and gp: "grid p < grid q" and
      lt: "flog2 p + 1 \<le> ?k"
      using p q by (auto simp: grid_def)
    have kp: "(2 :: rat) powi ?k / 2 powi g = of_int (2 ^ nat (?k - g))" if "g \<le> ?k" for g
      using that powi2_add[of "?k - g" g] powi2_nat[of "nat (?k - g)"] by simp
    have "p \<le> 2 powi ?k"
      using flog2_bounds(2)[OF p] powi2_mono[OF lt] by linarith
    then have "p / 2 powi grid p \<le> 2 powi ?k / 2 powi grid p"
      by (simp add: divide_right_mono less_imp_le)
    also have "\<dots> = of_int (2 ^ nat (?k - grid p))" using gp gq by (intro kp) simp
    finally have a: "round_half_even (p / 2 powi grid p) \<le> 2 ^ nat (?k - grid p)"
      using round_half_even_mono round_half_even_of_int by metis
    have "of_int (2 ^ nat (?k - grid q)) = (2 :: rat) powi ?k / 2 powi grid q"
      using gq by (intro kp[symmetric]) simp
    also have "\<dots> \<le> q / 2 powi grid q"
      using flog2_bounds(1)[OF q] by (simp add: divide_right_mono less_imp_le)
    finally have b: "2 ^ nat (?k - grid q) \<le> round_half_even (q / 2 powi grid q)"
      using round_half_even_mono round_half_even_of_int by metis
    have "round_rat p \<le> of_int (2 ^ nat (?k - grid p)) * 2 powi grid p"
      using p a by (simp only: round_rat_def) (simp add: mult_right_mono less_imp_le
          del: of_int_power of_int_numeral)
    also have "\<dots> = 2 powi ?k" using kp[of "grid p"] gp gq by (simp add: divide_eq_eq)
    also have "\<dots> = of_int (2 ^ nat (?k - grid q)) * 2 powi grid q"
      using kp[of "grid q"] gq by (simp add: divide_eq_eq)
    also have "\<dots> \<le> round_rat q"
      using q b by (simp only: round_rat_def) (simp add: mult_right_mono less_imp_le
          del: of_int_power of_int_numeral)
    finally show ?thesis .
  qed
qed

lemma round_rat_mono: "p \<le> q \<Longrightarrow> round_rat p \<le> round_rat q"
proof (cases "0 < p")
  case False
  assume pq: "p \<le> q"
  show ?thesis
  proof (cases "0 \<le> q")
    case True
    have "0 \<le> round_rat (- p)" using False by (intro round_rat_nonneg) simp
    then show ?thesis using round_rat_nonneg[OF True] by (simp add: round_rat_minus)
  next
    case False
    then show ?thesis
      using round_rat_mono_pos[of "- q" "- p"] pq by (simp add: round_rat_minus)
  qed
qed (rule round_rat_mono_pos)

section \<open>Rounded results\<close>

lemma rnd_not_nan [simp]: "\<not> isnan (rnd q)"
  by (simp add: rnd_def Let_def)

lemma rnd_0 [simp]: "rnd 0 = Fin 0"
  by (simp add: rnd_def)

lemma rnd_exact: "round_rat q = q \<Longrightarrow> \<bar>q\<bar> < 2 ^ 1024 \<Longrightarrow> rnd q = Fin q"
  by (auto simp: rnd_def Let_def)

lemma rnd_dyadic:
  "q = of_int m * 2 powi e \<Longrightarrow> \<bar>m\<bar> \<le> 2 ^ 53 \<Longrightarrow> - 1074 \<le> e \<Longrightarrow> \<bar>q\<bar> < 2 ^ 1024 \<Longrightarrow> rnd q = Fin q"
  by (rule rnd_exact[OF round_rat_exact])

lemma rnd_of_int:
  assumes "\<bar>n\<bar> \<le> 2 ^ 53"
  shows "rnd (of_int n) = Fin (of_int n)"
proof (rule rnd_dyadic[of _ n 0])
  have "\<bar>of_int n :: rat\<bar> \<le> of_int (2 ^ 53)" using assms by (metis of_int_abs of_int_le_iff)
  then show "\<bar>of_int n :: rat\<bar> < 2 ^ 1024" by (simp add: le_less_trans)
qed (use assms in auto)

lemma rnd_half_int:
  assumes "\<bar>n\<bar> \<le> 2 ^ 53"
  shows "rnd (of_int n / 2) = Fin (of_int n / 2)"
proof (rule rnd_dyadic)
  show "of_int n / 2 = of_int n * (2 :: rat) powi (- 1)"
    by (simp add: power_int_def)
  have "\<bar>of_int n :: rat\<bar> \<le> of_int (2 ^ 53)" using assms by (metis of_int_abs of_int_le_iff)
  then show "\<bar>of_int n / 2 :: rat\<bar> < 2 ^ 1024" by (simp add: le_less_trans)
  show "\<bar>n\<bar> \<le> 2 ^ 53" by (rule assms)
qed simp

lemma rnd_mono: "p \<le> q \<Longrightarrow> rnd p \<le> rnd q"
  using round_rat_mono[of p q] by (auto simp: rnd_def Let_def)

lemma rnd_nonneg: "0 \<le> q \<Longrightarrow> 0 \<le> rnd q"
  using rnd_mono[of 0 q] by (simp add: zero_double_def)

lemma rnd_nonpos: "q \<le> 0 \<Longrightarrow> rnd q \<le> 0"
  using rnd_mono[of q 0] by (simp add: zero_double_def)

section \<open>Arithmetic of finite values\<close>

lemma zero_less_eqs [simp]:
  "0 < Fin q \<longleftrightarrow> 0 < q" "0 \<le> Fin q \<longleftrightarrow> 0 \<le> q" "Fin q < 0 \<longleftrightarrow> q < 0" "Fin q \<le> 0 \<longleftrightarrow> q \<le> 0"
  "(0 :: double) \<le> MZero" "MZero \<le> 0" "(0 :: double) < PInf" "NInf < (0 :: double)"
  "\<not> 0 < MZero" "\<not> MZero < 0" "\<not> 0 < NInf" "\<not> 0 \<le> NInf" "\<not> PInf < 0" "\<not> PInf \<le> 0"
  by (simp_all add: zero_double_def)

lemma isfinite_0 [simp]: "isfinite 0" and isfinite_1 [simp]: "isfinite 1"
  and isnan_0 [simp]: "\<not> isnan 0" and isnan_1 [simp]: "\<not> isnan 1"
  and val_0 [simp]: "val 0 = 0" and val_1 [simp]: "val 1 = 1"
  by (simp_all add: zero_double_def one_double_def)

lemma feq_Fin [simp]: "feq (Fin a) (Fin b) \<longleftrightarrow> a = b"
  by (auto simp: feq_def)

lemma feq_finite: "isfinite x \<Longrightarrow> isfinite y \<Longrightarrow> feq x y \<longleftrightarrow> val x = val y"
  by (auto simp: feq_def dleq_finite)

lemma dneg_simps [simp]:
  "- NaN = NaN" "- PInf = NInf" "- NInf = PInf" "- MZero = Fin 0"
  "- Fin q = (if q = 0 then MZero else Fin (- q))"
  by (simp_all add: uminus_double_def dneg_def)

lemma isfinite_uminus [simp]: "isfinite (- x) \<longleftrightarrow> isfinite x"
  and isnan_uminus [simp]: "isnan (- x) \<longleftrightarrow> isnan x"
  and isinf_uminus [simp]: "isinf (- x) \<longleftrightarrow> isinf (x :: double)"
  by (cases x; simp)+

lemma val_uminus [simp]: "val (- x) = - val x"
  by (cases x) auto

lemma dabs_simps [simp]:
  "\<bar>NaN\<bar> = NaN" "\<bar>PInf\<bar> = PInf" "\<bar>NInf\<bar> = PInf" "\<bar>MZero\<bar> = Fin 0" "\<bar>Fin q\<bar> = Fin \<bar>q\<bar>"
  by (simp_all add: abs_double_def dabs_def)

lemma isfinite_abs [simp]: "isfinite \<bar>x\<bar> \<longleftrightarrow> isfinite x"
  and isnan_abs [simp]: "isnan \<bar>x\<bar> \<longleftrightarrow> isnan (x :: double)"
  by (cases x; simp)+

lemma val_abs [simp]: "val \<bar>x\<bar> = \<bar>val x\<bar>"
  by (cases x) auto

lemma abs_nonneg_double: "0 \<le> \<bar>x\<bar> \<longleftrightarrow> \<not> isnan (x :: double)"
  by (cases x) auto

lemma plus_finite:
  assumes "isfinite x" "isfinite y"
  shows "x + y = (if x = MZero \<and> y = MZero then MZero else rnd (val x + val y))"
  using assms by (cases x; cases y) (auto simp: plus_double_def dadd_def)

lemma minus_eq_plus_uminus: "x - y = x + - (y :: double)"
  by (simp add: minus_double_def plus_double_def uminus_double_def)

lemma plus_Fin [simp]: "Fin a + Fin b = rnd (a + b)"
  by (simp add: plus_double_def dadd_def)

lemma minus_Fin [simp]: "Fin a - Fin b = rnd (a - b)"
  by (auto simp: minus_double_def dadd_def dneg_def)

lemma times_Fin [simp]: "a * b \<noteq> 0 \<Longrightarrow> Fin a * Fin b = rnd (a * b)"
  by (auto simp: times_double_def dmul_def)

lemma divide_Fin [simp]: "a \<noteq> 0 \<Longrightarrow> b \<noteq> 0 \<Longrightarrow> Fin a / Fin b = rnd (a / b)"
  by (auto simp: divide_double_def ddiv_def)

lemma plus_nan [simp]: "NaN + x = NaN" "x + NaN = NaN"
  by (simp_all add: plus_double_def dadd_def)

lemma plus_inf [simp]:
  "isfinite x \<Longrightarrow> PInf + x = PInf" "isfinite x \<Longrightarrow> x + PInf = PInf"
  "isfinite x \<Longrightarrow> NInf + x = NInf" "isfinite x \<Longrightarrow> x + NInf = NInf"
  by (cases x; simp add: plus_double_def dadd_def)+

text \<open>Adding the same finite number keeps the order, up to the common rounding.\<close>

lemma plus_right_mono:
  assumes "x \<le> y" "isfinite c"
  shows "x + c \<le> y + (c :: double)"
proof -
  have r: "rnd (val x + val c) \<le> rnd (val y + val c)" if "isfinite x" "isfinite y"
    using assms that by (intro rnd_mono) (simp add: dleq_finite)
  have z: "MZero \<le> rnd q" if "0 \<le> q" for q
    using rnd_nonneg[OF that] by (cases "rnd q") auto
  have z': "rnd q \<le> MZero" if "q \<le> 0" for q
    using rnd_nonpos[OF that] by (cases "rnd q") auto
  show ?thesis
    using assms r z z'
    by (cases x; cases y; cases c) (auto simp: plus_double_def dadd_def)
qed

lemma rnd_numeral [simp]:
  "numeral k \<le> (2 ^ 53 :: int) \<Longrightarrow> rnd (numeral k) = Fin (numeral k)"
  "numeral k \<le> (2 ^ 53 :: int) \<Longrightarrow> rnd (- numeral k) = Fin (- numeral k)"
  using rnd_of_int[of "numeral k"] rnd_of_int[of "- numeral k"] by simp_all

lemma rnd_one [simp]: "rnd 1 = Fin 1" and rnd_minus_one [simp]: "rnd (- 1) = Fin (- 1)"
  using rnd_of_int[of 1] rnd_of_int[of "- 1"] by simp_all

text \<open>The value of a literal that is not a double: name its binary exponent and the integer
  nearest to its scaled value.\<close>

lemma round_half_even_near: "\<bar>x - of_int n\<bar> < 1 / 2 \<Longrightarrow> round_half_even x = n"
proof -
  assume near: "\<bar>x - of_int n\<bar> < 1 / 2"
  have "of_int (round_half_even x) - of_int n < (1 :: rat)"
    "of_int n - of_int (round_half_even x) < (1 :: rat)"
    using round_half_even_bounds[of x] near by linarith+
  then have "round_half_even x - n < 1" "n - round_half_even x < 1"
    by (metis of_int_diff of_int_less_1_iff)+
  then show ?thesis by simp
qed

lemma rnd_eval:
  assumes k: "2 powi k \<le> q" "q < 2 powi (k + 1)"
    and g: "g = max (k - 52) (- 1074)"
    and n: "\<bar>q / 2 powi g - of_int n\<bar> < 1 / 2"
    and r: "0 \<le> n" "of_int n * 2 powi g < (2 :: rat) ^ 1024"
  shows "rnd q = Fin (of_int n * 2 powi g)"
proof -
  have q: "0 < q" using k(1) powi2_pos[of k] by linarith
  have "grid q = g" using flog2_unique[OF k] q g by (simp add: grid_def)
  then have "round_rat q = of_int n * 2 powi g"
    using round_half_even_near[OF n] q by (simp add: round_rat_def)
  moreover have "\<not> of_int n * 2 powi g \<le> - ((2 :: rat) ^ 1024)"
  proof -
    have "- ((2 :: rat) ^ 1024) < 0" by simp
    also have "0 \<le> of_int n * (2 :: rat) powi g" using r(1) by (simp add: less_imp_le)
    finally show ?thesis by (simp only: not_le)
  qed
  ultimately show ?thesis using r(2) q by (simp only: rnd_def Let_def) simp
qed

end
