(* ===== verification/Types.thy ===== *)
theory Types
  imports Doubles "HOL-Library.Word"
begin

text \<open>
  \<open>include/sankhya/types.hpp\<close>: the index type and the guards that keep an entry count inside
  it, and the treatment of infinite bounds. \<open>Index\<close> is a 32-bit two's-complement word and
  \<open>std::size_t\<close> a 64-bit one, so the guards are stated on the machine's own arithmetic.
\<close>

section \<open>Index arithmetic\<close>

type_synonym index = "32 word"
type_synonym size_t = "64 word"

definition kMaxNonzeros :: index where
  "kMaxNonzeros = 2147483647"

definition size_max :: size_t where
  "size_max = - 1"

definition nonzero_count_fits :: "size_t \<Rightarrow> bool" where
  "nonzero_count_fits count \<longleftrightarrow> count \<le> ucast kMaxNonzeros"

definition index_sum_overflows :: "index \<Rightarrow> index \<Rightarrow> bool" where
  "index_sum_overflows a b \<longleftrightarrow> a <s 0 \<or> b <s 0 \<or> kMaxNonzeros - a <s b"

definition index_product_overflows :: "index \<Rightarrow> index \<Rightarrow> bool" where
  "index_product_overflows a b =
     (if a <s 0 \<or> b <s 0 then True
      else if a = 0 \<or> b = 0 then False
      else kMaxNonzeros div b <s a)"

definition dense_square_exceeds :: "index \<Rightarrow> size_t \<Rightarrow> size_t \<Rightarrow> bool" where
  "dense_square_exceeds n element_bytes budget_bytes =
     (if n \<le>s 0 then False
      else
        let un = ucast n :: size_t in
        if size_max div un < un then True
        else
          let entries = un * un in
          if element_bytes \<noteq> 0 \<and> size_max div element_bytes < entries then True
          else budget_bytes < entries * element_bytes)"

section \<open>Infinite bounds\<close>

definition kInfinity :: double where
  "kInfinity = PInf"

definition kMpsInfinity :: double where
  "kMpsInfinity = lit (10 ^ 30)"

definition is_infinite :: "double \<Rightarrow> bool" where
  "is_infinite v \<longleftrightarrow> isinf v \<or> kMpsInfinity \<le> \<bar>v\<bar>"

definition is_finite_bound :: "double \<Rightarrow> bool" where
  "is_finite_bound v \<longleftrightarrow> \<not> is_infinite v"

definition normalize_infinity :: "double \<Rightarrow> double" where
  "normalize_infinity v =
     (if \<not> is_infinite v then v else if 0 < v then kInfinity else - kInfinity)"

definition normalize_zero :: "double \<Rightarrow> double" where
  "normalize_zero v = (if feq v 0 then 0 else v)"

section \<open>The guards are exact\<close>

lemma sint_nonneg: "\<not> a <s 0 \<Longrightarrow> sint a = uint (a :: index) \<and> uint a < 2147483648"
proof -
  assume "\<not> a <s 0"
  then have n: "0 \<le> sint a" by (simp add: word_sless_alt)
  have l: "sint a < 2147483648" using sint_lt[of a] by simp
  with n have "uint a = sint a" by (simp add: uint_sint take_bit_int_eq_self)
  with l show ?thesis by simp
qed

lemma sless_nonneg:
  "\<not> a <s 0 \<Longrightarrow> \<not> b <s 0 \<Longrightarrow> a <s b \<longleftrightarrow> uint a < uint (b :: index)"
  using sint_nonneg[of a] sint_nonneg[of b] by (simp add: word_sless_alt)

lemma small_not_neg: "uint (x :: index) < 2147483648 \<Longrightarrow> \<not> x <s 0"
proof -
  assume u: "uint x < 2147483648"
  have "(- 2147483648 :: int) \<le> uint x" using uint_ge_0[of x] by linarith
  with u have "sint x = uint x"
    by (simp add: sint_uint signed_take_bit_int_eq_self)
  then show ?thesis by (simp add: word_sless_alt)
qed

lemma uint_kMax [simp]: "uint kMaxNonzeros = 2147483647"
  by (simp add: kMaxNonzeros_def)

lemma sle_zero: "x \<le>s (0 :: index) \<longleftrightarrow> x <s 0 \<or> uint x = 0"
proof (cases "x <s 0")
  case False
  from sint_nonneg[OF this] show ?thesis
    using False uint_ge_0[of x] unfolding word_sle_eq word_sless_alt by auto
qed (auto simp: word_sle_eq word_sless_alt)

text \<open>
  The sum guard says exactly that the sum leaves the range of \<open>Index\<close>: it is silent only on
  two counts whose mathematical sum is at most the limit, and forming that sum cannot wrap.
\<close>

theorem index_sum_guard_exact:
  "\<not> index_sum_overflows a b \<longleftrightarrow>
     0 \<le> sint a \<and> 0 \<le> sint b \<and> sint a + sint b \<le> 2147483647"
proof (cases "a <s 0 \<or> b <s 0")
  case True
  then show ?thesis by (auto simp: index_sum_overflows_def word_sless_alt)
next
  case False
  then have ab: "sint a = uint a" "sint b = uint b" "uint a < 2147483648"
    using sint_nonneg by auto
  have d: "uint (kMaxNonzeros - a) = 2147483647 - uint a"
    using ab(3) uint_minus_simple_alt[of a kMaxNonzeros] by (simp add: word_le_def)
  have n: "\<not> (kMaxNonzeros - a) <s 0"
    by (rule small_not_neg) (use uint_ge_0[of a] in \<open>unfold d, linarith\<close>)
  show ?thesis
    using False ab n by (auto simp: index_sum_overflows_def sless_nonneg d)
qed

lemma div_less_pos:
  assumes b: "(0 :: int) < b"
  shows "m div b < a \<longleftrightarrow> m < a * b"
proof
  assume "m div b < a"
  then have "(m div b + 1) * b \<le> a * b" using b by (intro mult_right_mono) auto
  moreover have "m < (m div b + 1) * b"
    using pos_mod_bound[OF b, of m] div_mult_mod_eq[of m b] unfolding distrib_right by linarith
  ultimately show "m < a * b" by linarith
next
  assume l: "m < a * b"
  show "m div b < a"
  proof (rule ccontr)
    assume "\<not> m div b < a"
    then have "a * b \<le> m div b * b" using b by (intro mult_right_mono) auto
    also have "\<dots> \<le> m" using pos_mod_sign[OF b, of m] div_mult_mod_eq[of m b] by linarith
    finally show False using l by simp
  qed
qed

lemma index_product_guard_exact:
  "\<not> index_product_overflows a b \<longleftrightarrow>
     0 \<le> sint a \<and> 0 \<le> sint b \<and> sint a * sint b \<le> 2147483647"
proof (cases "a <s 0 \<or> b <s 0")
  case True
  then show ?thesis by (auto simp: index_product_overflows_def word_sless_alt)
next
  case False
  then have ab: "sint a = uint a" "sint b = uint b"
    using sint_nonneg by auto
  show ?thesis
  proof (cases "b = 0")
    case b: False
    then have b0: "0 < uint b" using uint_ge_0[of b] by (simp add: less_le uint_0_iff)
    have d: "uint (kMaxNonzeros div b) = 2147483647 div uint b"
      by (simp add: uint_div_distrib)
    have "\<not> 2147483647 < 2147483647 div uint b"
      using b0 div_less_pos[of "uint b" 2147483647 2147483648] by linarith
    then have n: "\<not> (kMaxNonzeros div b) <s 0"
      by (intro small_not_neg) (simp add: d)
    show ?thesis
      using False ab n b b0
      by (auto simp: index_product_overflows_def sless_nonneg d div_less_pos)
  qed (use False ab in \<open>auto simp: index_product_overflows_def\<close>)
qed

text \<open>
  The budget test on a dense square block is exact although it is computed in 64-bit
  words: it answers true exactly when the true number of bytes exceeds the budget, however
  large the element size, and no intermediate product wraps unnoticed.
\<close>

theorem dense_square_guard_exact:
  "dense_square_exceeds n element_bytes budget \<longleftrightarrow>
     0 < sint n \<and> uint budget < sint n * sint n * uint element_bytes"
proof (cases "n \<le>s 0")
  case True
  then show ?thesis by (auto simp: dense_square_exceeds_def word_sle_eq)
next
  case False
  then have n: "sint n = uint n" "uint n < 2147483648" "0 < uint n" and sn: "0 < sint n"
  proof -
    from False have "0 < sint n" by (simp add: word_sle_eq)
    then show "0 < sint n" .
    then have "\<not> n <s 0" by (simp add: word_sless_alt)
    from sint_nonneg[OF this] \<open>0 < sint n\<close>
    show "sint n = uint n" "uint n < 2147483648" "0 < uint n" by auto
  qed
  let ?un = "ucast n :: size_t"
  have un: "uint ?un = uint n" by (simp add: uint_up_ucast is_up)
  have mx: "uint size_max = 18446744073709551615" 
    by (simp add: size_max_def unsigned_minus_1_eq_mask mask_eq_exp_minus_1)
  have sq: "uint n * uint n < 2147483648 * 2147483648"
    using n(2,3) by (intro mult_strict_mono) auto
  have sqw: "uint (?un * ?un) = uint n * uint n"
    using sq by (simp add: uint_word_ariths un)
  have first: "\<not> size_max div ?un < ?un"
    using n sq by (simp add: word_less_def uint_div_distrib un mx div_less_pos)
  have second: "size_max div element_bytes < ?un * ?un \<longleftrightarrow>
      18446744073709551615 < uint n * uint n * uint element_bytes" if "element_bytes \<noteq> 0"
  proof -
    have "0 < uint element_bytes"
      using that uint_ge_0[of element_bytes] by (simp add: less_le uint_0_iff)
    then show ?thesis
      by (simp add: word_less_def uint_div_distrib sqw mx div_less_pos)
  qed
  have small: "uint budget < 18446744073709551616" using uint_lt2p[of budget] by simp
  show ?thesis
  proof (cases "element_bytes \<noteq> 0 \<and> size_max div element_bytes < ?un * ?un")
    case True
    then show ?thesis
      using False n sn second small first by (auto simp: dense_square_exceeds_def Let_def)
  next
    case F: False
    then have "uint n * uint n * uint element_bytes < 18446744073709551616"
      using second by (cases "element_bytes = 0") auto
    then have "uint (?un * ?un * element_bytes) = uint n * uint n * uint element_bytes"
      by (simp add: uint_word_ariths(3)[of "?un * ?un"] sqw)
    then show ?thesis
      using False F n sn first
      by (auto simp: dense_square_exceeds_def Let_def word_less_def[of budget])
  qed
qed

section \<open>Bounds\<close>

lemma kMpsInfinity_value: "kMpsInfinity = Fin 1000000000000000019884624838656"
proof -
  have "rnd (10 ^ 30) = Fin (of_int 7105427357601002 * 2 powi 47)"
    by (rule rnd_eval[of 99]) (simp_all add: power_int_def)
  then show ?thesis by (simp add: kMpsInfinity_def lit_def power_int_def)
qed

lemma is_infinite_simps [simp]:
  "is_infinite PInf" "is_infinite NInf" "\<not> is_infinite NaN" "\<not> is_infinite MZero"
  "is_infinite (Fin q) \<longleftrightarrow> 1000000000000000019884624838656 \<le> \<bar>q\<bar>"
  by (simp_all add: is_infinite_def kMpsInfinity_value)

lemma finite_bound_cases: "is_finite_bound v \<Longrightarrow> isnan v \<or> isfinite v"
  by (cases v) (auto simp: is_finite_bound_def)

text \<open>
  Normalising leaves only true infinities, NaN and numbers of magnitude below the MPS threshold,
  never changes a sign, and does nothing the second time.
\<close>

lemma normalize_infinity_normal:
  "is_infinite (normalize_infinity v) \<longleftrightarrow> normalize_infinity v \<in> {PInf, NInf}"
  by (cases v) (auto simp: normalize_infinity_def kInfinity_def)

lemma normalize_infinity_idem: "normalize_infinity (normalize_infinity v) = normalize_infinity v"
  by (cases v) (auto simp: normalize_infinity_def kInfinity_def)

lemma normalize_infinity_less:
  "v < 0 \<longleftrightarrow> normalize_infinity v < 0" "0 < v \<longleftrightarrow> 0 < normalize_infinity v"
  by (cases v; auto simp: normalize_infinity_def kInfinity_def)+

lemma normalize_zero_not_minus: "normalize_zero v \<noteq> MZero"
  by (cases v) (auto simp: normalize_zero_def zero_double_def feq_def)

lemma normalize_zero_eq: "feq (normalize_zero v) v \<longleftrightarrow> \<not> isnan v"
  by (cases v) (auto simp: normalize_zero_def zero_double_def feq_def)

end
