(* ===== verification/Sparse.thy ===== *)
theory Sparse
  imports Types "HOL-Library.Multiset"
begin

text \<open>
  \<open>include/sankhya/sparse.hpp\<close> and \<open>src/la/sparse.cpp\<close>: the triplet-to-CSC build, the
  transpose and the kernels. Every definition is polymorphic in the scalar and uses only the
  operators the source uses, so at type \<open>double\<close> it is the code, NaN and rounding included,
  and at an ordered field it is the same algorithm in exact arithmetic, which is where a matrix
  identity can be stated. Indices are natural numbers; that they stay inside \<open>Index\<close> is what the
  nonzero limit enforces.

  \<open>std::sort\<close> is not stable, so the order in which duplicates are summed is not determined by
  the source: the sort is a parameter of \<open>finalize\<close>, constrained by \<open>is_sort\<close> to what the standard
  promises.
\<close>

section \<open>The container\<close>

record 'a sparse_matrix =
  nrows :: nat
  ncols :: nat
  frozen :: bool
  nonzero_limit :: nat
  overflowed :: bool
  column_starts :: "nat list"
  row_indices :: "nat list"
  vals :: "'a list"
  build_rows :: "nat list"
  build_cols :: "nat list"
  build_values :: "'a list"

definition index_max :: nat where
  "index_max = 2147483647"

definition empty_sparse :: "'a sparse_matrix" where
  "empty_sparse = \<lparr>nrows = 0, ncols = 0, frozen = False, nonzero_limit = index_max,
     overflowed = False, column_starts = [], row_indices = [], vals = [], build_rows = [],
     build_cols = [], build_values = []\<rparr>"

definition reset :: "nat \<Rightarrow> nat \<Rightarrow> 'a sparse_matrix \<Rightarrow> 'a sparse_matrix" where
  "reset nr nc m = m\<lparr>nrows := nr, ncols := nc, frozen := False, overflowed := False,
     column_starts := [], row_indices := [], vals := [],
     build_rows := [], build_cols := [], build_values := []\<rparr>"

definition set_nonzero_limit :: "int \<Rightarrow> 'a sparse_matrix \<Rightarrow> 'a sparse_matrix" where
  "set_nonzero_limit limit m = m\<lparr>nonzero_limit :=
     (if limit < 0 then 0 else if int index_max < limit then index_max else nat limit)\<rparr>"

definition add_entry :: "nat \<Rightarrow> nat \<Rightarrow> 'a \<Rightarrow> 'a sparse_matrix \<Rightarrow> 'a sparse_matrix" where
  "add_entry row col value m =
     (if nonzero_limit m \<le> length (build_values m) then m\<lparr>overflowed := True\<rparr>
      else m\<lparr>build_rows := build_rows m @ [row], build_cols := build_cols m @ [col],
             build_values := build_values m @ [value]\<rparr>)"

definition num_nonzeros :: "'a sparse_matrix \<Rightarrow> nat" where
  "num_nonzeros m = (if frozen m then length (vals m) else length (build_values m))"

definition segment :: "nat \<Rightarrow> nat \<Rightarrow> 'b list \<Rightarrow> 'b list" where
  "segment b e xs = take (e - b) (drop b xs)"

text \<open>A column view, as the list of its (row, value) entries.\<close>

definition column :: "'a sparse_matrix \<Rightarrow> nat \<Rightarrow> (nat \<times> 'a) list" where
  "column m j = (let b = column_starts m ! j; e = column_starts m ! Suc j in
     zip (segment b e (row_indices m)) (segment b e (vals m)))"

section \<open>Counting sort\<close>

text \<open>The two passes shared by \<open>finalize\<close> and \<open>transpose\<close>: count the keys, turn the counts into
  starts by a prefix sum, then drop each item into the next free slot of its key.\<close>

definition count_keys :: "nat \<Rightarrow> nat list \<Rightarrow> nat list" where
  "count_keys n keys = fold (\<lambda>k. modify_at (Suc k) Suc) keys (replicate (Suc n) 0)"

definition prefix_sum :: "nat \<Rightarrow> nat list \<Rightarrow> nat list" where
  "prefix_sum n starts = fold (\<lambda>j s. modify_at (Suc j) (\<lambda>v. v + s ! j) s) [0..<n] starts"

definition starts_of :: "nat \<Rightarrow> nat list \<Rightarrow> nat list" where
  "starts_of n keys = prefix_sum n (count_keys n keys)"

fun place :: "nat \<times> 'b \<Rightarrow> nat list \<times> 'b list \<Rightarrow> nat list \<times> 'b list" where
  "place (k, x) (nxt, arr) = (modify_at k Suc nxt, arr[nxt ! k := x])"

definition place_all :: "nat list \<Rightarrow> 'b \<Rightarrow> (nat \<times> 'b) list \<Rightarrow> 'b list" where
  "place_all starts blank items =
     snd (fold place items (butlast starts, replicate (length items) blank))"

section \<open>finalize, unfreeze, transpose\<close>

definition is_sort :: "((nat \<Rightarrow> nat) \<Rightarrow> nat list \<Rightarrow> nat list) \<Rightarrow> bool" where
  "is_sort srt \<longleftrightarrow> (\<forall>key xs. mset (srt key xs) = mset xs \<and> sorted (map key (srt key xs)))"

text \<open>One column of pass 3: runs of equal rows are summed, and a sum that is negligible is
  dropped. The test is the negation of \<open>|sum| < drop_tol\<close>, as the source insists.\<close>

lemma length_dropWhile_less [termination_simp]: "length (dropWhile P xs) < Suc (length xs)"
  by (simp add: le_imp_less_Suc length_dropWhile_le)

fun merge_runs :: "'a \<Rightarrow> (nat \<times> 'a) list \<Rightarrow> (nat \<times> 'a::{zero,plus,abs,ord}) list" where
  "merge_runs drop_tol [] = []"
| "merge_runs drop_tol ((row, v) # es) =
     (let run = takeWhile (\<lambda>e. fst e = row) ((row, v) # es);
          total = foldl (\<lambda>s e. s + snd e) 0 run;
          rest = merge_runs drop_tol (dropWhile (\<lambda>e. fst e = row) es)
      in if \<not> (\<bar>total\<bar> < drop_tol) then (row, total) # rest else rest)"

definition sort_column ::
    "((nat \<Rightarrow> nat) \<Rightarrow> nat list \<Rightarrow> nat list) \<Rightarrow> (nat \<times> 'a) list \<Rightarrow> (nat \<times> 'a) list" where
  "sort_column srt es = map (\<lambda>p. es ! p) (srt (\<lambda>p. fst (es ! p)) [0..<length es])"

definition finalize ::
    "((nat \<Rightarrow> nat) \<Rightarrow> nat list \<Rightarrow> nat list) \<Rightarrow> 'a \<Rightarrow> 'a sparse_matrix \<Rightarrow>
     'a::{zero,plus,abs,ord} sparse_matrix" where
  "finalize srt drop_tol m =
     (if frozen m then m
      else if overflowed m \<or> \<not> length (build_values m) \<le> index_max then
        m\<lparr>overflowed := True, build_rows := [], build_cols := [], build_values := [],
          column_starts := replicate (Suc (ncols m)) 0, row_indices := [], vals := [],
          frozen := True\<rparr>
      else
        let n = ncols m;
            starts = starts_of n (build_cols m);
            scratch = place_all starts (0, 0)
              (zip (build_cols m) (zip (build_rows m) (build_values m)));
            cols = map (\<lambda>j. merge_runs drop_tol (sort_column srt
                     (segment (starts ! j) (starts ! Suc j) scratch))) [0..<n]
        in m\<lparr>row_indices := map fst (concat cols), vals := map snd (concat cols),
             column_starts := map (\<lambda>j. length (concat (take j cols))) [0..<Suc n],
             build_rows := [], build_cols := [], build_values := [], frozen := True\<rparr>)"

definition unfreeze :: "'a sparse_matrix \<Rightarrow> 'a sparse_matrix" where
  "unfreeze m =
     (if \<not> frozen m then m
      else m\<lparr>build_rows := row_indices m,
             build_cols := fold (\<lambda>j. fold (\<lambda>k cs. cs[k := j])
                 [column_starts m ! j ..< column_starts m ! Suc j])
               [0..<ncols m] (replicate (length (vals m)) 0),
             build_values := vals m,
             column_starts := [], row_indices := [], vals := [], frozen := False\<rparr>)"

definition walk_columns :: "'a sparse_matrix \<Rightarrow> (nat \<times> nat \<times> 'a) list" where
  "walk_columns m =
     concat (map (\<lambda>j. map (\<lambda>(r, v). (r, j, v)) (column m j)) [0..<ncols m])"

definition transpose_matrix :: "'a::zero sparse_matrix \<Rightarrow> 'a sparse_matrix" where
  "transpose_matrix m =
     (let starts = starts_of (nrows m) (row_indices m);
          slots = place_all starts (0, 0) (walk_columns m)
      in empty_sparse\<lparr>nrows := ncols m, ncols := nrows m, frozen := True,
           column_starts := starts, row_indices := map fst slots, vals := map snd slots\<rparr>)"

section \<open>Reads and kernels\<close>

text \<open>\<open>std::lower_bound\<close> is the first position whose row is not below the one looked for.\<close>

definition entry_at :: "'a::zero sparse_matrix \<Rightarrow> nat \<Rightarrow> nat \<Rightarrow> 'a" where
  "entry_at m row col =
     (let c = column m col in
      case find_index (\<lambda>e. \<not> fst e < row) c of
        Some k \<Rightarrow> if fst (c ! k) = row then snd (c ! k) else 0
      | None \<Rightarrow> 0)"

definition scatter_column :: "'a::{plus,times} \<Rightarrow> (nat \<times> 'a) list \<Rightarrow> 'a list \<Rightarrow> 'a list" where
  "scatter_column xj c y = fold (\<lambda>(r, v). modify_at r (\<lambda>old. old + v * xj)) c y"

definition multiply_add ::
    "'a sparse_matrix \<Rightarrow> 'a list \<Rightarrow> 'a \<Rightarrow> 'a list \<Rightarrow> 'a::{zero,plus,times,ord} list" where
  "multiply_add m x alpha y =
     fold (\<lambda>j y. let xj = alpha * x ! j in
                 if feq xj 0 then y else scatter_column xj (column m j) y) [0..<ncols m] y"

definition gather_dot :: "(nat \<times> 'a) list \<Rightarrow> 'a list \<Rightarrow> 'a::{zero,plus,times}" where
  "gather_dot c x = foldl (\<lambda>dot (r, v). dot + v * x ! r) 0 c"

definition transpose_multiply_add ::
    "'a sparse_matrix \<Rightarrow> 'a list \<Rightarrow> 'a \<Rightarrow> 'a list \<Rightarrow> 'a::{zero,plus,times} list" where
  "transpose_multiply_add m x alpha y =
     fold (\<lambda>j. modify_at j (\<lambda>old. old + alpha * gather_dot (column m j) x)) [0..<ncols m] y"

definition multiply ::
    "'a sparse_matrix \<Rightarrow> 'a list \<Rightarrow> 'a \<Rightarrow> 'a::{zero,plus,times,ord} list" where
  "multiply m x alpha = multiply_add m x alpha (replicate (nrows m) 0)"

definition transpose_multiply ::
    "'a sparse_matrix \<Rightarrow> 'a list \<Rightarrow> 'a \<Rightarrow> 'a::{zero,plus,times} list" where
  "transpose_multiply m x alpha = transpose_multiply_add m x alpha (replicate (ncols m) 0)"

definition max_abs_value :: "'a sparse_matrix \<Rightarrow> 'a::{zero,abs,ord}" where
  "max_abs_value m =
     foldl (\<lambda>best x. cmax best \<bar>x\<bar>) 0 (if frozen m then vals m else build_values m)"

record 'a csr_view =
  csr_rows :: nat
  csr_cols :: nat
  row_starts :: "nat list"
  column_indices :: "nat list"
  csr_values :: "'a list"

definition csr_build :: "'a::zero sparse_matrix \<Rightarrow> 'a csr_view" where
  "csr_build a = (let t = transpose_matrix a in
     \<lparr>csr_rows = nrows a, csr_cols = ncols a, row_starts = column_starts t,
      column_indices = row_indices t, csr_values = vals t\<rparr>)"

definition csr_row :: "'a csr_view \<Rightarrow> nat \<Rightarrow> (nat \<times> 'a) list" where
  "csr_row v i = (let b = row_starts v ! i; e = row_starts v ! Suc i in
     zip (segment b e (column_indices v)) (segment b e (csr_values v)))"

section \<open>Counting sort: the slots of one key are its items, in order\<close>

text \<open>\<open>below k keys\<close> counts the keys smaller than \<open>k\<close>: the start the prefix sum computes.\<close>

definition below :: "nat \<Rightarrow> nat list \<Rightarrow> nat" where
  "below k keys = length (filter (\<lambda>c. c < k) keys)"

lemma count_keys_aux:
  "\<forall>k \<in> set keys. Suc k < length s \<Longrightarrow>
   length (fold (\<lambda>k. modify_at (Suc k) Suc) keys s) = length s \<and>
   (\<forall>i < length s. fold (\<lambda>k. modify_at (Suc k) Suc) keys s ! i =
      s ! i + (case i of 0 \<Rightarrow> 0 | Suc k \<Rightarrow> count_list keys k))"
proof (induction keys arbitrary: s)
  case (Cons k keys)
  then show ?case by (auto simp: nth_modify_at split: nat.splits)
qed (auto split: nat.splits)

lemma count_keys_nth:
  "\<forall>k \<in> set keys. k < n \<Longrightarrow> i \<le> n \<Longrightarrow>
   count_keys n keys ! i = (case i of 0 \<Rightarrow> 0 | Suc k \<Rightarrow> count_list keys k)"
  using count_keys_aux[of keys "replicate (Suc n) 0"]
  by (auto simp: count_keys_def nth_replicate simp del: replicate.simps split: nat.splits)

lemma length_count_keys: "\<forall>k \<in> set keys. k < n \<Longrightarrow> length (count_keys n keys) = Suc n"
  using count_keys_aux[of keys "replicate (Suc n) 0"] by (auto simp: count_keys_def)

lemma below_Suc: "below (Suc k) keys = below k keys + count_list keys k"
  by (induction keys) (auto simp: below_def less_Suc_eq)

lemma prefix_sum_aux:
  assumes keys: "\<forall>k \<in> set keys. k < n" and m: "m \<le> n"
  shows "let s = fold (\<lambda>j s. modify_at (Suc j) (\<lambda>v. v + s ! j) s) [0..<m] (count_keys n keys) in
     length s = Suc n \<and> (\<forall>i \<le> m. s ! i = below i keys) \<and>
     (\<forall>i. m < i \<longrightarrow> i \<le> n \<longrightarrow> s ! i = count_list keys (i - 1))"
  using m
proof (induction m)
  case 0
  show ?case
    using keys length_count_keys[OF keys] count_keys_nth[OF keys]
    by (auto simp: below_def split: nat.splits)
next
  case (Suc m)
  define s where "s = fold (\<lambda>j s. modify_at (Suc j) (\<lambda>v. v + s ! j) s) [0..<m] (count_keys n keys)"
  from Suc have IH: "length s = Suc n" "\<forall>i \<le> m. s ! i = below i keys"
    "\<forall>i. m < i \<longrightarrow> i \<le> n \<longrightarrow> s ! i = count_list keys (i - 1)"
    by (simp_all add: s_def Let_def)
  have "fold (\<lambda>j s. modify_at (Suc j) (\<lambda>v. v + s ! j) s) [0..<Suc m] (count_keys n keys) =
      modify_at (Suc m) (\<lambda>v. v + s ! m) s"
    by (simp add: s_def)
  then show ?case
    using IH Suc.prems by (auto simp: Let_def nth_modify_at below_Suc le_Suc_eq)
qed

lemma starts_of_props:
  assumes "\<forall>k \<in> set keys. k < n"
  shows length_starts_of: "length (starts_of n keys) = Suc n"
    and starts_of_nth: "i \<le> n \<Longrightarrow> starts_of n keys ! i = below i keys"
  using prefix_sum_aux[OF assms order_refl] by (auto simp: starts_of_def prefix_sum_def Let_def)

text \<open>The layout invariant of the placement loop: block \<open>j\<close> of the array is what has been placed
  under key \<open>j\<close>, followed by blanks up to the block's final length.\<close>

definition blocks :: "nat \<Rightarrow> (nat \<Rightarrow> 'b list) \<Rightarrow> 'b list" where
  "blocks n g = concat (map g [0..<n])"

lemma blocks_split:
  "k < n \<Longrightarrow> blocks n g = blocks k g @ g k @ concat (map g [Suc k..<n])"
proof -
  assume k: "k < n"
  have "[0..<n] = [0..<k] @ k # [Suc k..<n]"
    using upt_add_eq_append[of 0 k "n - k"] upt_conv_Cons[of k n] k by simp
  then show ?thesis by (simp add: blocks_def)
qed

lemma blocks_update:
  assumes "k < n" "i < length (g k)"
  shows "(blocks n g)[length (blocks k g) + i := x] = blocks n (g(k := (g k)[i := x]))"
proof -
  have "blocks k (g(k := h)) = blocks k g" "map (g(k := h)) [Suc k..<n] = map g [Suc k..<n]" for h
    by (auto simp: blocks_def intro!: arg_cong[of _ _ concat])
  then show ?thesis
    using assms by (simp add: blocks_split list_update_append)
qed

lemma length_blocks: "length (blocks k g) = (\<Sum>j<k. length (g j))"
  by (simp add: blocks_def length_concat o_def sum_list_sum_nth atLeast0LessThan)

definition layout :: "(nat \<Rightarrow> nat) \<Rightarrow> 'b \<Rightarrow> (nat \<Rightarrow> 'b list) \<Rightarrow> nat \<Rightarrow> 'b list" where
  "layout t blank f j = f j @ replicate (t j - length (f j)) blank"

lemma place_all_aux:
  assumes "\<forall>(k, x) \<in> set items. k < n"
    and "\<forall>j < n. length (f j) + count_list (map fst items) j = t j"
  shows "snd (fold place items
      (map (\<lambda>j. (\<Sum>i<j. t i) + length (f j)) [0..<n], blocks n (layout t blank f))) =
    blocks n (\<lambda>j. f j @ map snd (filter (\<lambda>p. fst p = j) items))"
  using assms
proof (induction items arbitrary: f)
  case Nil
  then have "blocks n (layout t blank f) = blocks n f"
    by (auto simp: blocks_def layout_def intro!: arg_cong[of _ _ concat])
  then show ?case by simp
next
  case (Cons kx items)
  obtain k x where kx: "kx = (k, x)" by force
  define f' where "f' = f(k := f k @ [x])"
  have k: "k < n" using Cons.prems(1) kx by simp
  have room: "length (f k) < t k" using Cons.prems(2) k kx by force
  have lens: "length (layout t blank f j) = t j" if "j < n" for j
    using Cons.prems(2) that by (force simp: layout_def)
  have len: "length (blocks k (layout t blank f)) = (\<Sum>i<k. t i)"
    using k lens by (simp add: length_blocks)
  have "(layout t blank f)(k := (layout t blank f k)[length (f k) := x]) = layout t blank f'"
  proof -
    have "t k - length (f k) = Suc (t k - Suc (length (f k)))" using room by simp
    then show ?thesis
      by (auto simp: layout_def f'_def fun_eq_iff list_update_append)
  qed
  then have arr: "(blocks n (layout t blank f))[(\<Sum>i<k. t i) + length (f k) := x] =
      blocks n (layout t blank f')"
    using blocks_update[OF k, of "length (f k)" "layout t blank f" x] room lens[OF k] len by simp
  have nxt: "modify_at k Suc (map (\<lambda>j. (\<Sum>i<j. t i) + length (f j)) [0..<n]) =
      map (\<lambda>j. (\<Sum>i<j. t i) + length (f' j)) [0..<n]"
    using k by (intro nth_equalityI) (auto simp: nth_modify_at f'_def)
  have "snd (fold place items
      (map (\<lambda>j. (\<Sum>i<j. t i) + length (f' j)) [0..<n], blocks n (layout t blank f'))) =
    blocks n (\<lambda>j. f' j @ map snd (filter (\<lambda>p. fst p = j) items))"
    using Cons.prems kx by (intro Cons.IH) (auto simp: f'_def)
  also have "\<dots> = blocks n (\<lambda>j. f j @ map snd (filter (\<lambda>p. fst p = j) (kx # items)))"
    by (auto simp: blocks_def f'_def kx intro!: arg_cong[of _ _ concat])
  finally show ?case
    using k arr nxt by (simp add: kx del: upt_Suc)
qed

lemma below_sum: "below k keys = (\<Sum>i<k. count_list keys i)"
proof (induction k)
  case 0
  then show ?case by (simp add: below_def)
next
  case (Suc k)
  then show ?case by (simp add: below_Suc)
qed

text \<open>What the counting sort computes: the items of key 0, then those of key 1, and so on, each
  in their original order, with the starts pointing at the blocks.\<close>

lemma place_all_blocks:
  assumes "\<forall>(k, x) \<in> set items. k < n"
  shows "place_all (starts_of n (map fst items)) blank items =
    blocks n (\<lambda>j. map snd (filter (\<lambda>p. fst p = j) items))"
proof -
  let ?keys = "map fst items" and ?t = "count_list (map fst items)"
  have keys: "\<forall>k \<in> set ?keys. k < n" using assms by auto
  have nxt: "butlast (starts_of n ?keys) = map (\<lambda>j. \<Sum>i<j. ?t i) [0..<n]"
    using length_starts_of[OF keys] starts_of_nth[OF keys]
    by (intro nth_equalityI) (auto simp: nth_butlast below_sum)
  have total: "(\<Sum>j<n. ?t j) = length items"
    using keys below_sum[of n ?keys] by (simp add: below_def filter_id_conv[THEN iffD2])
  have "length (blocks n (layout ?t blank (\<lambda>_. []))) = length items"
    by (simp add: length_blocks layout_def total)
  then have "blocks n (layout ?t blank (\<lambda>_. [])) = replicate (length items) blank"
    by (rule replicate_eqI) (auto simp: layout_def blocks_def)
  then show ?thesis
    using place_all_aux[OF assms, of "\<lambda>_. []" ?t blank] unfolding place_all_def nxt by simp
qed

lemma starts_of_blocks:
  assumes "\<forall>(k, x) \<in> set items. k < n" "j \<le> n"
  shows "starts_of n (map fst items) ! j =
    length (blocks j (\<lambda>j. map snd (filter (\<lambda>p. fst p = j) items)))"
proof -
  have "length (filter (\<lambda>p. fst p = i) items) = count_list (map fst items) i" for i
    by (induction items) auto
  moreover have "\<forall>k \<in> set (map fst items). k < n" using assms(1) by auto
  ultimately show ?thesis
    using starts_of_nth[of "map fst items" n j] assms(2) by (simp add: length_blocks below_sum)
qed

section \<open>Column lists\<close>

text \<open>A frozen matrix stores a list of columns. \<open>stores m cols\<close> says which; everything below is
  stated on the columns.\<close>

definition stores :: "'a sparse_matrix \<Rightarrow> (nat \<times> 'a) list list \<Rightarrow> bool" where
  "stores m cols \<longleftrightarrow> frozen m \<and> ncols m = length cols \<and>
     column_starts m = map (\<lambda>j. length (concat (take j cols))) [0..<Suc (length cols)] \<and>
     row_indices m = map fst (concat cols) \<and> vals m = map snd (concat cols)"

lemma segment_concat:
  assumes "j < length cols"
  shows "segment (length (concat (take j cols))) (length (concat (take (Suc j) cols)))
    (concat cols) = cols ! j"
proof -
  have "concat cols = concat (take j cols) @ cols ! j @ concat (drop (Suc j) cols)"
    using assms by (metis append_take_drop_id concat_append concat.simps(2) Cons_nth_drop_Suc)
  then show ?thesis
    using assms by (simp add: segment_def take_Suc_conv_app_nth)
qed

lemma segment_map: "segment b e (map f xs) = map f (segment b e xs)"
  by (simp add: segment_def take_map drop_map)

lemma stores_column:
  assumes "stores m cols" "j < length cols"
  shows "column m j = cols ! j"
proof -
  have "column_starts m ! j = length (concat (take j cols))"
    "column_starts m ! Suc j = length (concat (take (Suc j) cols))"
    using assms by (auto simp: stores_def nth_append simp del: upt_Suc)
  then show ?thesis
    using assms segment_concat[of j cols]
    by (simp add: column_def stores_def Let_def segment_map zip_map_fst_snd)
qed

lemma stores_columns: "stores m cols \<Longrightarrow> map (column m) [0..<ncols m] = cols"
  by (rule nth_equalityI) (auto simp: stores_column stores_def)

text \<open>The invariant of a frozen matrix: rows ascend strictly inside a column and stay inside the
  matrix. (\<open>stores\<close> gives the shape of the starts.)\<close>

definition csc_ok :: "'a sparse_matrix \<Rightarrow> bool" where
  "csc_ok m \<longleftrightarrow> stores m (map (column m) [0..<ncols m]) \<and>
     (\<forall>j < ncols m. sorted_wrt (<) (map fst (column m j)) \<and> (\<forall>e \<in> set (column m j). fst e < nrows m))"

lemma stores_ok:
  assumes "stores m cols"
    and "\<And>c. c \<in> set cols \<Longrightarrow> sorted_wrt (<) (map fst c) \<and> (\<forall>e \<in> set c. fst e < nrows m)"
  shows "csc_ok m"
proof -
  have "column m j \<in> set cols" if "j < ncols m" for j
    using that assms(1) by (simp add: stores_column stores_def)
  then show ?thesis
    using assms stores_columns[OF assms(1)] unfolding csc_ok_def by auto
qed

text \<open>An unfrozen matrix holds triplets inside its dimensions, never more than its limit.\<close>

definition build_ok :: "'a sparse_matrix \<Rightarrow> bool" where
  "build_ok m \<longleftrightarrow> \<not> frozen m \<and> length (build_rows m) = length (build_values m) \<and>
     length (build_cols m) = length (build_values m) \<and>
     (\<forall>r \<in> set (build_rows m). r < nrows m) \<and> (\<forall>c \<in> set (build_cols m). c < ncols m) \<and>
     length (build_values m) \<le> nonzero_limit m \<and> nonzero_limit m \<le> index_max"

definition triplets :: "'a sparse_matrix \<Rightarrow> (nat \<times> nat \<times> 'a) list" where
  "triplets m = zip (build_cols m) (zip (build_rows m) (build_values m))"

lemma build_ok_reset:
  "nonzero_limit m \<le> index_max \<Longrightarrow> build_ok (reset r c m) \<and> \<not> overflowed (reset r c m)"
  by (simp add: build_ok_def reset_def)

lemma build_ok_add_entry:
  "build_ok m \<Longrightarrow> r < nrows m \<Longrightarrow> c < ncols m \<Longrightarrow> build_ok (add_entry r c v m)"
  by (auto simp: build_ok_def add_entry_def)

lemma add_entry_triplets:
  "build_ok m \<Longrightarrow> triplets (add_entry r c v m) =
     (if length (triplets m) < nonzero_limit m then triplets m @ [(c, r, v)] else triplets m)"
  by (auto simp: build_ok_def add_entry_def triplets_def)

section \<open>Merging one column\<close>

lemma sorted_run:
  assumes "sorted (map fst ((row, v) # es))"
  shows "takeWhile (\<lambda>e. fst e = row) es = filter (\<lambda>e. fst e = row) es"
    and "dropWhile (\<lambda>e. fst e = row) es = filter (\<lambda>e. fst e \<noteq> row) es"
  using assms
proof (induction es)
  case (Cons e es)
  {
    case 1
    show ?case
    proof (cases "fst e = row")
      case False
      with 1 have "\<forall>x \<in> set es. fst x \<noteq> row" by auto
      with False show ?thesis by (simp add: filter_empty_conv)
    qed (use Cons 1 in auto)
  next
    case 2
    show ?case
    proof (cases "fst e = row")
      case False
      with 2 have "\<forall>x \<in> set es. fst x \<noteq> row" by auto
      with False show ?thesis by (simp add: filter_id_conv)
    qed (use Cons 2 in auto)
  }
qed simp_all

lemma set_merge_runs: "fst ` set (merge_runs tol es) \<subseteq> fst ` set es"
proof (induction tol es rule: merge_runs.induct)
  case (2 tol row v es)
  have "set (dropWhile (\<lambda>e. fst e = row) es) \<subseteq> set es"
    by (auto dest: set_dropWhileD)
  with 2 have "fst ` set (merge_runs tol (dropWhile (\<lambda>e. fst e = row) es)) \<subseteq> fst ` set es"
    by (meson image_mono subset_trans)
  then show ?case by (simp only: merge_runs.simps Let_def) auto
qed simp

lemma sorted_merge_runs:
  "sorted (map fst es) \<Longrightarrow> sorted_wrt (<) (map fst (merge_runs tol es))"
proof (induction tol es rule: merge_runs.induct)
  case (2 tol row v es)
  let ?rest = "filter (\<lambda>e. fst e \<noteq> row) es"
  have drop: "dropWhile (\<lambda>e. fst e = row) es = ?rest"
    using sorted_run(2)[OF "2.prems"] .
  have "sorted (map fst ?rest)"
    using "2.prems" by (auto simp: sorted_wrt_map intro: sorted_wrt_filter)
  with "2.IH" drop have ih: "sorted_wrt (<) (map fst (merge_runs tol ?rest))" by simp
  have "\<forall>r \<in> fst ` set (merge_runs tol ?rest). row < r"
    using set_merge_runs[of tol ?rest] "2.prems" by fastforce
  with ih drop show ?case by (auto simp: Let_def)
qed simp

definition run_total :: "(nat \<times> 'a) list \<Rightarrow> nat \<Rightarrow> 'a::{zero,plus}" where
  "run_total es r = foldl (\<lambda>s e. s + snd e) 0 (filter (\<lambda>e. fst e = r) es)"

lemma merge_runs_iff:
  "sorted (map fst es) \<Longrightarrow> (r, t) \<in> set (merge_runs tol es) \<longleftrightarrow>
     r \<in> fst ` set es \<and> t = run_total es r \<and> \<not> (\<bar>t\<bar> < tol)"
proof (induction tol es rule: merge_runs.induct)
  case (2 tol row v es)
  let ?rest = "filter (\<lambda>e. fst e \<noteq> row) es"
  have drop: "dropWhile (\<lambda>e. fst e = row) es = ?rest"
    and take: "takeWhile (\<lambda>e. fst e = row) es = filter (\<lambda>e. fst e = row) es"
    using sorted_run[OF "2.prems"] by auto
  have "sorted (map fst ?rest)"
    using "2.prems" by (auto simp: sorted_wrt_map intro: sorted_wrt_filter)
  with "2.IH" drop have ih: "(r, t) \<in> set (merge_runs tol ?rest) \<longleftrightarrow>
     r \<in> fst ` set ?rest \<and> t = run_total ?rest r \<and> \<not> (\<bar>t\<bar> < tol)" by simp
  show ?case
  proof (cases "r = row")
    case True
    have "(row, t) \<notin> set (merge_runs tol ?rest)" using ih True by auto
    moreover have "run_total ((row, v) # es) row =
        foldl (\<lambda>s e. s + snd e) 0 (takeWhile (\<lambda>e. fst e = row) ((row, v) # es))"
      using take by (simp add: run_total_def)
    ultimately show ?thesis
      using drop True by (simp only: merge_runs.simps Let_def) auto
  next
    case False
    have a: "(r, t) \<in> set (merge_runs tol ((row, v) # es)) \<longleftrightarrow> (r, t) \<in> set (merge_runs tol ?rest)"
      using False drop by (simp add: Let_def)
    have "filter (\<lambda>e. fst e = r) ?rest = filter (\<lambda>e. fst e = r) es"
      using False by (induction es) auto
    then have b: "run_total ((row, v) # es) r = run_total ?rest r"
      using False by (simp add: run_total_def)
    have c: "r \<in> fst ` set ((row, v) # es) \<longleftrightarrow> r \<in> fst ` set ?rest"
      using False by auto
    show ?thesis by (simp only: a b c ih)
  qed
qed simp

lemma sort_column_perm:
  assumes "is_sort srt"
  shows "mset (sort_column srt es) = mset es" and "sorted (map fst (sort_column srt es))"
proof -
  let ?key = "\<lambda>p. fst (es ! p)"
  have "mset (srt ?key [0..<length es]) = mset [0..<length es]"
    using assms by (simp add: is_sort_def)
  then have "mset (sort_column srt es) = mset (map ((!) es) [0..<length es])"
    by (simp add: sort_column_def)
  then show "mset (sort_column srt es) = mset es" by (simp add: map_nth)
  show "sorted (map fst (sort_column srt es))"
    using assms by (simp add: is_sort_def sort_column_def o_def)
qed

section \<open>What a frozen matrix holds\<close>

lemma find_row:
  "sorted_wrt (<) (map fst c) \<Longrightarrow> (r :: nat, v) \<in> set c \<Longrightarrow>
   \<exists>k. find_index (\<lambda>e. \<not> fst e < r) c = Some k \<and> c ! k = (r, v)"
proof (induction c)
  case (Cons e c)
  show ?case
  proof (cases "e = (r, v)")
    case False
    with Cons.prems have "(r, v) \<in> set c" "fst e < r" by auto
    then show ?thesis using Cons by auto
  qed simp
qed simp

lemma entry_at_Some:
  "csc_ok m \<Longrightarrow> j < ncols m \<Longrightarrow> (r, v) \<in> set (column m j) \<Longrightarrow> entry_at m r j = v"
  using find_row[of "column m j" r v] by (auto simp: csc_ok_def entry_at_def Let_def)

lemma entry_at_None:
  "r \<notin> fst ` set (column m j) \<Longrightarrow> entry_at m r j = 0"
  by (auto simp: entry_at_def Let_def split: option.splits dest!: find_index_Some)

lemma column_of_entry:
  "csc_ok m \<Longrightarrow> j < ncols m \<Longrightarrow> r \<in> fst ` set (column m j) \<Longrightarrow> (r, entry_at m r j) \<in> set (column m j)"
  using entry_at_Some by fastforce

lemma finalize_cols:
  assumes ok: "build_ok m" "\<not> overflowed m" and srt: "is_sort srt"
  shows "stores (finalize srt tol m)
    (map (\<lambda>j. merge_runs tol (sort_column srt (map snd (filter (\<lambda>t. fst t = j) (triplets m)))))
      [0..<ncols m])" (is "stores _ (map ?col [0..<?n])")
proof -
  let ?g = "\<lambda>j. map snd (filter (\<lambda>t. fst t = j) (triplets m))"
  have keys: "map fst (triplets m) = build_cols m"
    using ok(1) by (simp add: triplets_def build_ok_def)
  have bound: "\<forall>(c, x) \<in> set (triplets m). c < ?n"
    using ok(1) by (auto simp: triplets_def build_ok_def dest!: set_zip_leftD)
  have slots: "place_all (starts_of ?n (build_cols m)) (0, 0) (triplets m) = blocks ?n ?g"
    using place_all_blocks[OF bound] by (simp add: keys)
  have starts: "starts_of ?n (build_cols m) ! j = length (concat (take j (map ?g [0..<?n])))"
    if "j \<le> ?n" for j
    using starts_of_blocks[OF bound that] that by (simp add: keys blocks_def take_map)
  have seg: "segment (starts_of ?n (build_cols m) ! j) (starts_of ?n (build_cols m) ! Suc j)
      (blocks ?n ?g) = ?g j" if "j < ?n" for j
    using segment_concat[of j "map ?g [0..<?n]"] that starts[of j] starts[of "Suc j"]
    by (simp add: blocks_def)
  have small: "length (build_values m) \<le> index_max" "\<not> frozen m"
    using ok(1) by (auto simp: build_ok_def)
  have cols: "map (\<lambda>j. merge_runs tol (sort_column srt
        (segment (starts_of ?n (build_cols m) ! j) (starts_of ?n (build_cols m) ! Suc j)
          (place_all (starts_of ?n (build_cols m)) (0, 0)
            (zip (build_cols m) (zip (build_rows m) (build_values m))))))) [0..<?n] =
      map ?col [0..<?n]"
    using slots seg by (simp add: triplets_def)
  show ?thesis
    using ok(2) small
    by (simp only: finalize_def Let_def if_False simp_thms cols) (simp add: stores_def del: upt_Suc)
qed

lemma finalize_column:
  assumes "build_ok m" "\<not> overflowed m" "is_sort srt" "j < ncols m"
  shows "column (finalize srt tol m) j =
    merge_runs tol (sort_column srt (map snd (filter (\<lambda>t. fst t = j) (triplets m))))"
  using stores_column[OF finalize_cols[OF assms(1-3)]] assms(4) by simp

lemma finalize_dims [simp]:
  "ncols (finalize srt tol m) = ncols m" "nrows (finalize srt tol m) = nrows m"
  "frozen (finalize srt tol m)"
  by (auto simp: finalize_def Let_def)

lemma finalize_limits:
  "nonzero_limit (finalize srt tol m) = nonzero_limit m"
  "build_ok m \<Longrightarrow> overflowed (finalize srt tol m) = overflowed m"
  by (auto simp: finalize_def Let_def build_ok_def)

lemma finalize_csc_ok:
  assumes "build_ok m" "\<not> overflowed m" "is_sort srt"
  shows "csc_ok (finalize srt tol m)"
proof (rule stores_ok[OF finalize_cols[OF assms]])
  fix c
  assume "c \<in> set (map (\<lambda>j. merge_runs tol (sort_column srt
    (map snd (filter (\<lambda>t. fst t = j) (triplets m))))) [0..<ncols m])"
  then obtain j where c: "c = merge_runs tol (sort_column srt
    (map snd (filter (\<lambda>t. fst t = j) (triplets m))))" by auto
  let ?es = "map snd (filter (\<lambda>t. fst t = j) (triplets m))"
  have bound: "\<forall>e \<in> set ?es. fst e < nrows m"
    using assms(1) by (auto simp: triplets_def build_ok_def elim!: in_set_zipE)
  have "set (sort_column srt ?es) = set ?es"
    using sort_column_perm(1)[OF assms(3)] by (metis set_mset_mset)
  then have sub: "fst ` set c \<subseteq> fst ` set ?es"
    using set_merge_runs[of tol "sort_column srt ?es"] unfolding c by (simp only:)
  have "\<forall>r \<in> fst ` set c. r < nrows m"
  proof
    fix r
    assume "r \<in> fst ` set c"
    with sub obtain e where "e \<in> set ?es" "r = fst e" by blast
    with bound show "r < nrows m" by blast
  qed
  then show "sorted_wrt (<) (map fst c) \<and> (\<forall>e \<in> set c. fst e < nrows (finalize srt tol m))"
    using sorted_merge_runs[OF sort_column_perm(2)[OF assms(3)]] unfolding c by auto
qed

text \<open>
  C31. Whatever order the sort leaves duplicates in, freezing a build produces a well-formed
  column-compressed matrix: starts that ascend from 0 to the entry count, and in every column
  row indices strictly ascending and inside the matrix.
\<close>

theorem finalize_well_formed:
  assumes "build_ok m" "\<not> overflowed m" "is_sort srt"
  shows "csc_ok (finalize srt tol m)"
  using assms by (rule finalize_csc_ok)

lemma run_total_zero: "r \<notin> fst ` set es \<Longrightarrow> run_total es r = 0"
  by (metis (mono_tags, lifting) filter_False foldl_Nil image_eqI run_total_def)

lemma foldl_snd_sum:
  "foldl (\<lambda>s e. s + snd e) a es = a + sum_list (map snd (es :: ('b \<times> 'a::comm_monoid_add) list))"
  by (induction es arbitrary: a) (auto simp: add.assoc)

lemma run_total_perm:
  fixes es :: "(nat \<times> 'a::comm_monoid_add) list"
  assumes "mset es = mset es'"
  shows "run_total es r = run_total es' r"
proof -
  have "mset (map snd (filter (\<lambda>e. fst e = r) es)) = mset (map snd (filter (\<lambda>e. fst e = r) es'))"
    using assms by (simp add: mset_filter)
  then have "sum_list (map snd (filter (\<lambda>e. fst e = r) es)) =
      sum_list (map snd (filter (\<lambda>e. fst e = r) es'))"
    by (metis sum_mset_sum_list)
  then show ?thesis by (simp add: run_total_def foldl_snd_sum)
qed

text \<open>
  C30. In exact arithmetic the frozen matrix holds, at every position, the sum of all the values
  recorded there, except that a sum below the drop tolerance is stored as zero: no triplet is
  lost, none is counted twice, and the order the sort chose does not matter.
\<close>

theorem finalize_sums_duplicates:
  assumes ok: "build_ok m" "\<not> overflowed m" and srt: "is_sort srt" and c: "c < ncols m"
    and tol: "0 < tol"
  shows "entry_at (finalize srt tol m) r c =
    (let s = sum_list (map (snd \<circ> snd) (filter (\<lambda>t. fst t = c \<and> fst (snd t) = r) (triplets m)))
     in if \<bar>s\<bar> < tol then 0 else (s :: 'a::linordered_field))"
proof -
  let ?es = "map snd (filter (\<lambda>t. fst t = c) (triplets m))" and ?m = "finalize srt tol m"
  let ?s = "run_total ?es r"
  have okf: "csc_ok ?m" by (rule finalize_csc_ok[OF ok srt])
  have total: "run_total (sort_column srt ?es) r = ?s"
    by (rule run_total_perm[OF sort_column_perm(1)[OF srt]])
  have iff: "(r, t) \<in> set (column ?m c) \<longleftrightarrow> r \<in> fst ` set ?es \<and> t = ?s \<and> \<not> \<bar>t\<bar> < tol" for t
    using merge_runs_iff[OF sort_column_perm(2)[OF srt, of ?es], of r t tol] sort_column_perm(1)[OF srt, of ?es]
    unfolding finalize_column[OF ok srt c] total by (metis set_mset_mset)
  have s: "?s = sum_list (map (snd \<circ> snd) (filter (\<lambda>t. fst t = c \<and> fst (snd t) = r) (triplets m)))"
    by (simp add: run_total_def foldl_snd_sum filter_map o_def conj_commute)
  have "entry_at ?m r c = (if \<bar>?s\<bar> < tol then 0 else ?s)"
  proof (cases "r \<in> fst ` set ?es \<and> \<not> \<bar>?s\<bar> < tol")
    case True
    then have "entry_at ?m r c = ?s" using iff c by (intro entry_at_Some[OF okf]) auto
    with True show ?thesis by simp
  next
    case False
    have "r \<notin> fst ` set (column ?m c)" using False iff by force
    then have "entry_at ?m r c = 0" by (rule entry_at_None)
    moreover have "?s = 0" if "r \<notin> fst ` set ?es" using that by (rule run_total_zero)
    ultimately show ?thesis using False tol by auto
  qed
  then show ?thesis by (simp add: s Let_def)
qed

lemma foldl_nan: "isnan a \<or> (\<exists>e \<in> set es. isnan (snd e)) \<Longrightarrow>
    isnan (foldl (\<lambda>s e. s + snd e) (a :: double) es)"
proof (induction es arbitrary: a)
  case (Cons e es)
  have "isnan (a + snd e)" if "isnan a \<or> isnan (snd e)"
    using that by (auto simp: plus_double_def dadd_def)
  with Cons show ?case by auto
qed simp

lemma isnan_iff: "isnan x \<longleftrightarrow> x = NaN"
  by (cases x) auto

lemma finalize_nan_stored:
  assumes ok: "build_ok m" "\<not> overflowed m" and srt: "is_sort srt"
    and nan: "(c, r, NaN) \<in> set (triplets m)"
  shows "c < ncols m \<and> (r, NaN) \<in> set (column (finalize srt tol m) c)"
proof
  let ?es = "map snd (filter (\<lambda>t. fst t = c) (triplets m))"
  show c: "c < ncols m"
    using ok(1) nan by (auto simp: triplets_def build_ok_def elim!: in_set_zipE)
  have mem: "(r, NaN) \<in> set (sort_column srt ?es)"
    using nan sort_column_perm(1)[OF srt, of ?es] by (force simp flip: set_mset_mset)
  then have "isnan (run_total (sort_column srt ?es) r)"
    unfolding run_total_def by (intro foldl_nan) (auto intro!: bexI[of _ "(r, NaN)"])
  then show "(r, NaN) \<in> set (column (finalize srt tol m) c)"
    using mem by (force simp: finalize_column[OF ok srt c] isnan_iff
        merge_runs_iff[OF sort_column_perm(2)[OF srt]])
qed

text \<open>
  C32. On doubles a NaN coefficient survives freezing: if any value recorded at a position is NaN
  the stored entry is NaN, so the model check downstream sees it. (Written as \<open>|sum| \<ge> drop_tol\<close>
  the test would have deleted it.)
\<close>

theorem finalize_keeps_nan:
  assumes ok: "build_ok m" "\<not> overflowed m" and srt: "is_sort srt"
    and nan: "(c, r, NaN) \<in> set (triplets m)"
  shows "entry_at (finalize srt tol m) r c = NaN"
  using finalize_nan_stored[OF assms] finalize_csc_ok[OF ok srt]
  by (intro entry_at_Some) auto

section \<open>The transpose\<close>

lemma csc_stores: "csc_ok m \<Longrightarrow> stores m (map (column m) [0..<ncols m])"
  and csc_sorted: "csc_ok m \<Longrightarrow> j < ncols m \<Longrightarrow> sorted_wrt (<) (map fst (column m j))"
  and csc_row_bound: "csc_ok m \<Longrightarrow> j < ncols m \<Longrightarrow> e \<in> set (column m j) \<Longrightarrow> fst e < nrows m"
  by (auto simp: csc_ok_def)

lemma walk_columns_keys: "csc_ok m \<Longrightarrow> map fst (walk_columns m) = row_indices m"
  by (drule csc_stores) (simp add: walk_columns_def stores_def map_concat o_def case_prod_beta)

definition row_entries :: "'a sparse_matrix \<Rightarrow> nat \<Rightarrow> (nat \<times> 'a) list" where
  "row_entries m i = map snd (filter (\<lambda>p. fst p = i) (walk_columns m))"

lemma set_row_entries:
  "(j, v) \<in> set (row_entries m i) \<longleftrightarrow> j < ncols m \<and> (i, v) \<in> set (column m j)"
  by (force simp: row_entries_def walk_columns_def)

lemma sorted_row_entries:
  assumes "csc_ok m"
  shows "sorted_wrt (<) (map fst (row_entries m i))"
proof -
  let ?f = "\<lambda>j. map (\<lambda>e. (j, snd e)) (filter (\<lambda>e. fst e = i) (column m j))"
  have eq: "row_entries m i = concat (map ?f [0..<ncols m])"
    by (simp add: row_entries_def walk_columns_def filter_concat map_concat o_def filter_map
        case_prod_beta)
  have short: "sorted_wrt (<) (map fst (?f j))" if "j < ncols m" for j
  proof -
    have "distinct (map fst (column m j))"
      using csc_sorted[OF assms that] strict_sorted_iff by blast
    from length_filter_key[OF this]
    have "length (filter (\<lambda>e. fst e = i) (column m j)) \<le> 1" .
    then show ?thesis
      by (cases "filter (\<lambda>e. fst e = i) (column m j)") auto
  qed
  have "sorted_wrt (<) (map fst (concat (map ?f [0..<n])))" if "n \<le> ncols m" for n
    using that
  proof (induction n)
    case (Suc n)
    have "\<forall>e \<in> set (concat (map ?f [0..<n])). fst e < n" by auto
    then show ?case
      using Suc short[of n] by (auto simp: sorted_wrt_append)
  qed simp
  then show ?thesis by (simp add: eq)
qed

lemma transpose_stores:
  assumes ok: "csc_ok m"
  shows "stores (transpose_matrix m) (map (row_entries m) [0..<nrows m])"
proof -
  let ?n = "nrows m" and ?items = "walk_columns m"
  have bound: "\<forall>(r, x) \<in> set ?items. r < ?n"
    using csc_row_bound[OF ok] by (fastforce simp: walk_columns_def)
  have keys: "row_indices m = map fst ?items" using walk_columns_keys[OF ok] by simp
  have len: "length (starts_of ?n (map fst ?items)) = Suc ?n"
    using bound by (intro length_starts_of) auto
  have starts: "starts_of ?n (map fst ?items) =
      map (\<lambda>j. length (concat (take j (map (row_entries m) [0..<?n])))) [0..<Suc ?n]"
    using len starts_of_blocks[OF bound]
    by (intro nth_equalityI)
       (auto simp: blocks_def row_entries_def[abs_def] take_map simp del: upt_Suc)
  have slots: "place_all (starts_of ?n (map fst ?items)) (0, 0) ?items =
      concat (map (row_entries m) [0..<?n])"
    using place_all_blocks[OF bound] by (simp add: blocks_def row_entries_def[abs_def])
  show ?thesis
    unfolding stores_def transpose_matrix_def Let_def keys slots
    using starts by simp
qed

lemma transpose_dims [simp]:
  "nrows (transpose_matrix m) = ncols m" "ncols (transpose_matrix m) = nrows m"
  by (simp_all add: transpose_matrix_def Let_def)

lemma transpose_column:
  "csc_ok m \<Longrightarrow> i < nrows m \<Longrightarrow> column (transpose_matrix m) i = row_entries m i"
  using stores_column[OF transpose_stores, of m i] by simp

lemma transpose_ok: "csc_ok m \<Longrightarrow> csc_ok (transpose_matrix m)"
  by (rule stores_ok[OF transpose_stores]) (auto simp: sorted_row_entries set_row_entries)

text \<open>
  The transpose is a well-formed matrix that holds at (j, i) exactly what the original holds
  at (i, j), although nothing is ever sorted by comparison.
\<close>

theorem transpose_correct:
  assumes ok: "csc_ok m" and i: "i < nrows m" and j: "j < ncols m"
  shows "csc_ok (transpose_matrix m) \<and> entry_at (transpose_matrix m) j i = entry_at m i j"
proof
  show t: "csc_ok (transpose_matrix m)" using ok by (rule transpose_ok)
  show "entry_at (transpose_matrix m) j i = entry_at m i j"
  proof (cases "i \<in> fst ` set (column m j)")
    case True
    then have "(j, entry_at m i j) \<in> set (column (transpose_matrix m) i)"
      using column_of_entry[OF ok j] ok i j by (simp add: transpose_column set_row_entries)
    then show ?thesis using i by (intro entry_at_Some[OF t]) auto
  next
    case False
    then have "j \<notin> fst ` set (column (transpose_matrix m) i)"
      using ok i by (force simp: transpose_column set_row_entries)
    with False show ?thesis by (simp add: entry_at_None)
  qed
qed

lemma sorted_entries_unique:
  fixes c d :: "(nat \<times> 'a) list"
  assumes "sorted_wrt (<) (map fst c)" "sorted_wrt (<) (map fst d)" "set c = set d"
  shows "c = d"
proof -
  have "sorted (map fst c)" "distinct (map fst c)" "sorted (map fst d)" "distinct (map fst d)"
    using assms(1,2) by (auto simp: strict_sorted_iff)
  then show ?thesis
    using assms(3) by (intro map_sorted_distinct_set_unique[of fst]) (auto simp: distinct_map)
qed

lemma transpose_twice:
  assumes "csc_ok m" "j < ncols m"
  shows "column (transpose_matrix (transpose_matrix m)) j = column m j"
proof (rule sorted_entries_unique)
  show "sorted_wrt (<) (map fst (column (transpose_matrix (transpose_matrix m)) j))"
    using assms by (intro csc_sorted transpose_ok) simp_all
  show "sorted_wrt (<) (map fst (column m j))" using assms by (rule csc_sorted)
  show "set (column (transpose_matrix (transpose_matrix m)) j) = set (column m j)"
    using assms csc_row_bound[OF assms(1)]
    by (auto simp: transpose_column transpose_ok set_row_entries)
qed

section \<open>The kernels in exact arithmetic\<close>

lemma length_scatter_column [simp]: "length (scatter_column a c y) = length y"
  by (induction c arbitrary: y) (auto simp: scatter_column_def)

lemma scatter_column_nth:
  fixes y :: "'a::linordered_field list"
  assumes "\<forall>e \<in> set c. fst e < length y" "i < length y"
  shows "scatter_column a c y ! i =
    y ! i + sum_list (map snd (filter (\<lambda>e. fst e = i) c)) * a"
  using assms
proof (induction c arbitrary: y)
  case (Cons e c)
  obtain r v where e: "e = (r, v)" by force
  have "scatter_column a (e # c) y =
      scatter_column a c (modify_at r (\<lambda>old. old + v * a) y)"
    by (simp add: scatter_column_def e)
  then show ?case
    using Cons by (auto simp: e nth_modify_at algebra_simps)
qed (simp add: scatter_column_def)

lemma column_entry_sum:
  assumes ok: "csc_ok m" and j: "j < ncols m"
  shows "sum_list (map snd (filter (\<lambda>e. fst e = i) (column m j))) =
    (entry_at m i j :: 'a::linordered_field)"
proof (cases "i \<in> fst ` set (column m j)")
  case True
  let ?c = "filter (\<lambda>e. fst e = i) (column m j)"
  have "distinct (map fst (column m j))"
    using csc_sorted[OF assms] strict_sorted_iff by blast
  then have "length ?c \<le> 1" by (rule length_filter_key)
  moreover have "(i, entry_at m i j) \<in> set ?c"
    using column_of_entry[OF assms True] by simp
  ultimately have "?c = [(i, entry_at m i j)]"
    by (cases ?c) (auto simp: length_Suc_conv)
  then show ?thesis by simp
next
  case False
  then have "filter (\<lambda>e. fst e = i) (column m j) = []" by (auto simp: filter_empty_conv)
  with False show ?thesis by (simp add: entry_at_None)
qed

lemma multiply_add_loop:
  fixes y x :: "'a::linordered_field list" and alpha :: 'a
  assumes ok: "csc_ok m" and y: "length y = nrows m" and n: "n \<le> ncols m"
  defines "f \<equiv> \<lambda>j y. let xj = alpha * x ! j in
                 if feq xj 0 then y else scatter_column xj (column m j) y"
  shows "length (fold f [0..<n] y) = nrows m \<and>
    (\<forall>i < nrows m. fold f [0..<n] y ! i = y ! i + (\<Sum>j<n. entry_at m i j * (alpha * x ! j)))"
  using n
proof (induction n)
  case (Suc n)
  let ?y = "fold f [0..<n] y"
  have IH: "length ?y = nrows m"
    "\<forall>i < nrows m. ?y ! i = y ! i + (\<Sum>j<n. entry_at m i j * (alpha * x ! j))"
    using Suc by simp_all
  have rows: "\<forall>e \<in> set (column m n). fst e < length ?y"
    using csc_row_bound[OF ok, of n] Suc.prems IH(1) by simp
  have "f n ?y ! i = ?y ! i + entry_at m i n * (alpha * x ! n)" if "i < nrows m" for i
    using scatter_column_nth[OF rows, of i "alpha * x ! n"] that IH(1)
      column_entry_sum[OF ok, of n i] Suc.prems by (auto simp: f_def Let_def)
  moreover have "length (f n z) = length z" for z by (simp add: f_def Let_def)
  then have "length (f n ?y) = nrows m" by (simp only: IH(1))
  ultimately show ?case using IH(2) by simp
qed (use y in simp)

text \<open>
  \<open>multiply_add\<close> is \<open>y + alpha A x\<close>: the columns it skips because their multiplier is zero
  contribute nothing.
\<close>

lemma multiply_add_correct:
  fixes y :: "'a::linordered_field list"
  assumes "csc_ok m" "length y = nrows m" "i < nrows m"
  shows "multiply_add m x alpha y ! i = y ! i + alpha * (\<Sum>j<ncols m. entry_at m i j * x ! j)"
  using multiply_add_loop[OF assms(1,2) order_refl, of alpha x] assms(3)
  by (simp add: multiply_add_def sum_distrib_left algebra_simps)

lemma gather_dot_sum:
  "gather_dot c x = (\<Sum>(r, v) \<leftarrow> c. v * x ! r :: 'a::linordered_field)"
proof -
  have "foldl (\<lambda>dot (r, v). dot + v * x ! r) a c = a + (\<Sum>(r, v) \<leftarrow> c. v * x ! r)" for a
    by (induction c arbitrary: a) (auto simp: algebra_simps)
  then show ?thesis by (simp add: gather_dot_def)
qed

lemma column_dot:
  assumes ok: "csc_ok m" and j: "j < ncols m"
  shows "gather_dot (column m j) x =
    (\<Sum>i<nrows m. entry_at m i j * x ! i :: 'a::linordered_field)"
proof -
  let ?c = "column m j"
  have d: "distinct (map fst ?c)" using csc_sorted[OF assms] strict_sorted_iff by blast
  have "gather_dot ?c x = (\<Sum>e \<in> set ?c. snd e * x ! fst e)"
    using d by (simp add: gather_dot_sum case_prod_beta sum_list_distinct_conv_sum_set distinct_map)
  also have "\<dots> = (\<Sum>i \<in> fst ` set ?c. entry_at m i j * x ! i)"
    using d entry_at_Some[OF ok j] by (subst sum.reindex) (auto simp: distinct_map intro!: sum.cong)
  also have "\<dots> = (\<Sum>i<nrows m. entry_at m i j * x ! i)"
    using csc_row_bound[OF ok j] by (intro sum.mono_neutral_left) (auto simp: entry_at_None)
  finally show ?thesis .
qed

lemma transpose_multiply_add_nth:
  fixes y :: "'a::linordered_field list"
  assumes ok: "csc_ok m" and y: "length y = ncols m" and j: "j < ncols m"
  shows "transpose_multiply_add m x alpha y ! j =
    y ! j + alpha * (\<Sum>i<nrows m. entry_at m i j * x ! i)"
proof -
  let ?f = "\<lambda>j. modify_at j (\<lambda>old. old + alpha * gather_dot (column m j) x)"
  have "length (fold ?f [0..<n] y) = length y \<and>
      (\<forall>j < ncols m. fold ?f [0..<n] y ! j =
        (if j < n then y ! j + alpha * gather_dot (column m j) x else y ! j))" if "n \<le> ncols m" for n
    using that
  proof (induction n)
    case (Suc n)
    then show ?case using y by (auto simp: nth_modify_at less_Suc_eq)
  qed simp
  from this[OF order_refl] show ?thesis
    using j by (simp add: transpose_multiply_add_def column_dot[OF ok j])
qed

lemma csc_adjoint:
  fixes x :: "'a::linordered_field list"
  assumes ok: "csc_ok m"
  shows "(\<Sum>i<nrows m. y ! i * multiply m x 1 ! i) =
    (\<Sum>j<ncols m. transpose_multiply m y 1 ! j * x ! j)"
proof -
  have "(\<Sum>i<nrows m. y ! i * multiply m x 1 ! i) =
      (\<Sum>i<nrows m. \<Sum>j<ncols m. y ! i * (entry_at m i j * x ! j))"
    using multiply_add_correct[OF ok, of "replicate (nrows m) 0"]
    by (simp add: multiply_def sum_distrib_left)
  also have "\<dots> = (\<Sum>j<ncols m. \<Sum>i<nrows m. entry_at m i j * y ! i * x ! j)"
    by (subst sum.swap) (simp add: algebra_simps)
  also have "\<dots> = (\<Sum>j<ncols m. transpose_multiply m y 1 ! j * x ! j)"
    using transpose_multiply_add_nth[OF ok, of "replicate (ncols m) 0"]
    by (simp add: transpose_multiply_def sum_distrib_right)
  finally show ?thesis .
qed

text \<open>
  C33. The two kernels are adjoint: \<open>y . (A x) = (A\<^sup>T y) . x\<close>. The primal and the dual residuals
  the solver reports are therefore measured against one and the same matrix.
\<close>

theorem kernels_adjoint:
  fixes x :: "'a::linordered_field list"
  assumes ok: "csc_ok m"
  shows "(\<Sum>i<nrows m. y ! i * multiply m x 1 ! i) =
    (\<Sum>j<ncols m. transpose_multiply m y 1 ! j * x ! j)"
  by (rule csc_adjoint[OF ok])

section \<open>Thawing and freezing again\<close>

lemma fold_fill:
  "b \<le> e \<Longrightarrow> e \<le> length xs \<Longrightarrow>
   fold (\<lambda>k cs. cs[k := j]) [b..<e] xs = take b xs @ replicate (e - b) j @ drop e xs"
proof (induction "e - b" arbitrary: e)
  case (Suc d)
  then obtain e' where e: "e = Suc e'" "b \<le> e'" by (cases e) auto
  have "fold (\<lambda>k cs. cs[k := j]) [b..<e'] xs = take b xs @ replicate (e' - b) j @ drop e' xs"
    using Suc e by (intro Suc.hyps(1)) auto
  moreover have "drop e' xs = xs ! e' # drop e xs"
    using Suc.prems e by (simp add: Cons_nth_drop_Suc)
  ultimately show ?case
    using e Suc.prems by (simp add: list_update_append Suc_diff_le replicate_append_same
        flip: replicate_Suc)
qed simp

lemma length_concat_take:
  "n \<le> length cols \<Longrightarrow> length (concat (take n cols)) = (\<Sum>j<n. length (cols ! j))"
  by (induction n) (auto simp: take_Suc_conv_app_nth)

lemma length_concat_replicate:
  "length (concat (map (\<lambda>j. replicate (l j) j) [0..<n])) = (\<Sum>j<n. l j)"
  by (induction n) auto

lemma fill_columns:
  assumes "\<And>j. j < n \<Longrightarrow> s (Suc j) = s j + l j" "s 0 = (0 :: nat)" "s n \<le> N"
  shows "fold (\<lambda>j. fold (\<lambda>k cs. cs[k := j]) [s j..<s (Suc j)]) [0..<n] (replicate N 0) =
    concat (map (\<lambda>j. replicate (l j) j) [0..<n]) @ replicate (N - s n) 0"
  using assms
proof (induction n)
  case (Suc n)
  let ?done = "concat (map (\<lambda>j. replicate (l j) j) [0..<n])"
  have sum: "s k = (\<Sum>j<k. l j)" if "k \<le> n" for k
    using that Suc.prems(1,2) by (induction k) auto
  then have len: "length ?done = s n" by (simp add: length_concat_replicate)
  have sn: "s (Suc n) = s n + l n" using Suc.prems(1) by simp
  have room: "N - s n = l n + (N - s (Suc n))" using sn Suc.prems(3) by simp
  have "fold (\<lambda>j. fold (\<lambda>k cs. cs[k := j]) [s j..<s (Suc j)]) [0..<n] (replicate N 0) =
      ?done @ replicate (N - s n) 0"
    using Suc sn by simp
  moreover have "fold (\<lambda>k cs. cs[k := n]) [s n..<s (Suc n)] (?done @ replicate (N - s n) 0) =
      ?done @ replicate (l n) n @ replicate (N - s (Suc n)) 0"
    using len sn Suc.prems(3) by (subst fold_fill) auto
  ultimately show ?case by simp
qed simp

lemma unfreeze_build_cols:
  assumes st: "stores m cols"
  shows "build_cols (unfreeze m) =
    concat (map (\<lambda>j. replicate (length (cols ! j)) j) [0..<length cols])"
proof -
  let ?s = "\<lambda>j. length (concat (take j cols))"
  have "build_cols (unfreeze m) = fold (\<lambda>j. fold (\<lambda>k cs. cs[k := j])
      [column_starts m ! j..<column_starts m ! Suc j]) [0..<length cols]
      (replicate (length (concat cols)) 0)"
    using st by (simp add: unfreeze_def stores_def)
  also have "\<dots> = fold (\<lambda>j. fold (\<lambda>k cs. cs[k := j]) [?s j..<?s (Suc j)]) [0..<length cols]
      (replicate (length (concat cols)) 0)"
    using st by (intro fold_cong) (auto simp: stores_def nth_append simp del: upt_Suc)
  also have "\<dots> = concat (map (\<lambda>j. replicate (length (cols ! j)) j) [0..<length cols])"
    using fill_columns[of "length cols" ?s "\<lambda>j. length (cols ! j)" "length (concat cols)"]
    by (simp add: take_Suc_conv_app_nth)
  finally show ?thesis .
qed

lemma zip_concat:
  "length xs = length ys \<Longrightarrow> (\<And>i. i < length xs \<Longrightarrow> length (xs ! i) = length (ys ! i)) \<Longrightarrow>
   zip (concat xs) (concat ys) = concat (map (\<lambda>(x, y). zip x y) (zip xs ys))"
proof (induction xs ys rule: list_induct2)
  case (Cons x xs y ys)
  from Cons.prems[of 0] have "length x = length y" by simp
  moreover have "zip (concat xs) (concat ys) = concat (map (\<lambda>(x, y). zip x y) (zip xs ys))"
    using Cons.prems[of "Suc _"] by (intro Cons.IH) auto
  ultimately show ?case by simp
qed simp

lemma unfreeze_triplets:
  assumes st: "stores m cols"
  shows "triplets (unfreeze m) = concat (map (\<lambda>j. map (Pair j) (cols ! j)) [0..<length cols])"
proof -
  have rv: "zip (build_rows (unfreeze m)) (build_values (unfreeze m)) = concat cols"
    using st by (simp add: unfreeze_def stores_def zip_map_fst_snd)
  have "triplets (unfreeze m) =
      zip (concat (map (\<lambda>j. replicate (length (cols ! j)) j) [0..<length cols]))
        (concat (map ((!) cols) [0..<length cols]))"
    unfolding triplets_def unfreeze_build_cols[OF st] rv by (simp add: map_nth)
  also have "\<dots> = concat (map (\<lambda>j. zip (replicate (length (cols ! j)) j) (cols ! j)) [0..<length cols])"
    by (subst zip_concat) (auto simp: zip_map1 zip_map2 zip_same_conv_map o_def)
  also have "\<dots> = concat (map (\<lambda>j. map (Pair j) (cols ! j)) [0..<length cols])"
    by (auto intro!: arg_cong[of _ _ concat] simp: zip_replicate1)
  finally show ?thesis .
qed

lemma filter_tagged:
  "k < n \<Longrightarrow> map snd (filter (\<lambda>t. fst t = k) (concat (map (\<lambda>j. map (Pair j) (f j)) [0..<n]))) = f k"
proof (induction n)
  case (Suc n)
  have none: "filter (\<lambda>t. fst t = n) (concat (map (\<lambda>j. map (Pair j) (f j)) [0..<n])) = []"
    by (auto simp: filter_empty_conv)
  show ?case
  proof (cases "k = n")
    case True
    with none show ?thesis by (simp add: filter_map o_def)
  next
    case False
    with Suc show ?thesis by (simp add: filter_map o_def)
  qed
qed simp

lemma unfreeze_ok:
  assumes ok: "csc_ok m" and nnz: "length (vals m) \<le> nonzero_limit m" "nonzero_limit m \<le> index_max"
  shows "build_ok (unfreeze m)" "overflowed (unfreeze m) = overflowed m"
    "ncols (unfreeze m) = ncols m" "nrows (unfreeze m) = nrows m"
proof -
  have st: "stores m (map (column m) [0..<ncols m])" using csc_stores[OF ok] .
  have rows: "\<forall>r \<in> set (row_indices m). r < nrows m"
    using st csc_row_bound[OF ok] by (fastforce simp: stores_def)
  let ?cols = "map (column m) [0..<ncols m]"
  have "length (build_cols (unfreeze m)) = length (concat (take (length ?cols) ?cols))"
    unfolding unfreeze_build_cols[OF st]
    by (simp only: length_concat_replicate length_concat_take[OF order_refl])
  then have "length (build_cols (unfreeze m)) = length (vals m)"
    using st by (simp add: stores_def)
  moreover have "\<forall>c \<in> set (build_cols (unfreeze m)). c < ncols m"
    unfolding unfreeze_build_cols[OF st] by auto
  ultimately show "build_ok (unfreeze m)"
    using st nnz rows by (simp add: build_ok_def unfreeze_def stores_def)
qed (simp_all add: unfreeze_def)

text \<open>
  Thawing a frozen matrix and freezing it again restores every column, provided no stored
  value is below the drop tolerance, which every value stored by \<open>finalize\<close> satisfies.
\<close>

theorem finalize_unfreeze:
  fixes m :: "'a::linordered_field sparse_matrix"
  assumes ok: "csc_ok m" and nnz: "length (vals m) \<le> nonzero_limit m" "nonzero_limit m \<le> index_max"
    and nov: "\<not> overflowed m" and srt: "is_sort srt" and j: "j < ncols m"
    and keep: "\<forall>e \<in> set (column m j). tol \<le> \<bar>snd e\<bar>"
  shows "column (finalize srt tol (unfreeze m)) j = column m j"
proof -
  let ?c = "column m j" and ?s = "sort_column srt (column m j)"
  have tagged: "map snd (filter (\<lambda>t. fst t = j) (triplets (unfreeze m))) = ?c"
    unfolding unfreeze_triplets[OF csc_stores[OF ok]] using j by (simp add: filter_tagged)
  have col: "column (finalize srt tol (unfreeze m)) j = merge_runs tol ?s"
    using finalize_column[OF unfreeze_ok(1)[OF ok nnz] _ srt] unfreeze_ok(2,3)[OF ok nnz] nov j
    by (simp add: tagged)
  have d: "sorted_wrt (<) (map fst ?c)" using csc_sorted[OF ok j] .
  have sorted: "sorted (map fst ?s)" and perm: "mset ?s = mset ?c"
    using sort_column_perm[OF srt] by auto
  have total: "run_total ?s r = entry_at m r j" for r
    using run_total_perm[OF perm, of r] column_entry_sum[OF ok j, of r]
    by (simp add: run_total_def foldl_snd_sum)
  have "set (merge_runs tol ?s) = set ?c"
  proof (intro set_eqI)
    fix e :: "nat \<times> 'a"
    obtain r t where e: "e = (r, t)" by force
    have "r \<in> fst ` set ?s \<longleftrightarrow> r \<in> fst ` set ?c" using perm by (metis set_mset_mset)
    then show "e \<in> set (merge_runs tol ?s) \<longleftrightarrow> e \<in> set ?c"
      using keep column_of_entry[OF ok j, of r] entry_at_Some[OF ok j, of r t]
      unfolding e merge_runs_iff[OF sorted] total by (force simp: not_less)
  qed
  then show ?thesis
    unfolding col by (intro sorted_entries_unique sorted_merge_runs[OF sorted] d)
qed

text \<open>
  The nonzero limit is a hard ceiling: past it the build records nothing, the matrix is
  flagged, and freezing it yields an empty, well-formed matrix that still carries the flag.
\<close>

theorem overflow_refused:
  assumes ok: "build_ok m" and full: "length (build_values m) = nonzero_limit m"
  shows "let m' = finalize srt tol (add_entry r c v m) in
    overflowed m' \<and> frozen m' \<and> num_nonzeros m' = 0 \<and> csc_ok m'"
proof -
  let ?m = "finalize srt tol (add_entry r c v m)"
  have m': "\<not> frozen (add_entry r c v m)" "overflowed (add_entry r c v m)"
    using ok full by (auto simp: build_ok_def add_entry_def)
  have fields: "frozen ?m" "overflowed ?m" "row_indices ?m = []" "vals ?m = []"
    "column_starts ?m = replicate (Suc (ncols ?m)) 0"
    using m' by (auto simp: finalize_def)
  have "stores ?m (map (\<lambda>_. []) [0..<ncols ?m])"
    unfolding stores_def using fields
    by (auto simp: take_map map_replicate_const[symmetric] concat_eq_Nil_conv[THEN iffD2]
        nth_Cons' intro!: nth_equalityI simp del: upt_Suc finalize_dims)
  then have "csc_ok ?m" by (rule stores_ok) auto
  then show ?thesis using fields by (simp add: num_nonzeros_def)
qed

section \<open>SparseVector\<close>

record 'a sparse_vector =
  dimension :: nat
  dense :: "'a list"
  marked :: "bool list"
  pattern :: "nat list"

definition sv_resize :: "nat \<Rightarrow> 'a::zero sparse_vector" where
  "sv_resize n = \<lparr>dimension = n, dense = replicate n 0, marked = replicate n False, pattern = []\<rparr>"

definition sv_clear :: "'a::zero sparse_vector \<Rightarrow> 'a sparse_vector" where
  "sv_clear v = v\<lparr>dense := fold (\<lambda>i d. d[i := 0]) (pattern v) (dense v),
     marked := fold (\<lambda>i k. k[i := False]) (pattern v) (marked v), pattern := []\<rparr>"

definition sv_value :: "'a::zero sparse_vector \<Rightarrow> nat \<Rightarrow> 'a" where
  "sv_value v i = (if marked v ! i then dense v ! i else 0)"

definition sv_add :: "nat \<Rightarrow> 'a::plus \<Rightarrow> 'a sparse_vector \<Rightarrow> 'a sparse_vector" where
  "sv_add i value v =
     (if \<not> marked v ! i then v\<lparr>marked := (marked v)[i := True], dense := (dense v)[i := value],
                                pattern := pattern v @ [i]\<rparr>
      else v\<lparr>dense := modify_at i (\<lambda>old. old + value) (dense v)\<rparr>)"

definition sv_set :: "nat \<Rightarrow> 'a \<Rightarrow> 'a sparse_vector \<Rightarrow> 'a sparse_vector" where
  "sv_set i value v =
     (let w = (if \<not> marked v ! i
               then v\<lparr>marked := (marked v)[i := True], pattern := pattern v @ [i]\<rparr> else v)
      in w\<lparr>dense := (dense w)[i := value]\<rparr>)"

definition sv_compress :: "'a \<Rightarrow> 'a::{zero,abs,ord} sparse_vector \<Rightarrow> 'a sparse_vector" where
  "sv_compress drop_tol v =
     fold (\<lambda>i w. if drop_tol \<le> \<bar>dense v ! i\<bar> then w\<lparr>pattern := pattern w @ [i]\<rparr>
                 else w\<lparr>dense := (dense w)[i := 0], marked := (marked w)[i := False]\<rparr>)
       (pattern v) (v\<lparr>pattern := []\<rparr>)"

definition scatter_to_dense :: "'a::zero sparse_vector \<Rightarrow> 'a list" where
  "scatter_to_dense v =
     fold (\<lambda>i out. out[i := dense v ! i]) (pattern v) (replicate (dimension v) 0)"

definition gather_from_dense ::
    "'a list \<Rightarrow> 'a \<Rightarrow> 'a::{zero,abs,ord} sparse_vector \<Rightarrow> 'a sparse_vector" where
  "gather_from_dense xs drop_tol v =
     fold (\<lambda>i w. if drop_tol \<le> \<bar>xs ! i\<bar> then sv_set i (xs ! i) w else w)
       [0..<dimension v] (sv_clear v)"

definition sv_ok :: "'a::zero sparse_vector \<Rightarrow> bool" where
  "sv_ok v \<longleftrightarrow> length (dense v) = dimension v \<and> length (marked v) = dimension v \<and>
     distinct (pattern v) \<and> set (pattern v) = {i. i < dimension v \<and> marked v ! i} \<and>
     (\<forall>i < dimension v. \<not> marked v ! i \<longrightarrow> dense v ! i = 0)"

lemma fold_update_nth:
  "\<forall>i \<in> set is. i < length xs \<Longrightarrow>
   length (fold (\<lambda>i d. d[i := f i]) is xs) = length xs \<and>
   (\<forall>j < length xs. fold (\<lambda>i d. d[i := f i]) is xs ! j = (if j \<in> set is then f j else xs ! j))"
  by (induction "is" arbitrary: xs) auto

lemma sv_resize_ok: "sv_ok (sv_resize n)"
  by (auto simp: sv_ok_def sv_resize_def)

lemma sv_ok_bound: "sv_ok v \<Longrightarrow> i \<in> set (pattern v) \<Longrightarrow> i < dimension v"
  by (simp add: sv_ok_def)

lemma sv_add_ok: "sv_ok v \<Longrightarrow> i < dimension v \<Longrightarrow> sv_ok (sv_add i x v)"
  by (auto simp: sv_ok_def sv_add_def nth_modify_at nth_list_update)

lemma sv_set_ok: "sv_ok v \<Longrightarrow> i < dimension v \<Longrightarrow> sv_ok (sv_set i x v)"
  by (auto simp: sv_ok_def sv_set_def nth_list_update)

text \<open>
  \<open>clear\<close> touches only the pattern and still yields exactly the zero vector a fresh
  \<open>resize\<close> would: no value of an earlier computation survives in the dense array.
\<close>

theorem sv_clear_fresh:
  assumes ok: "sv_ok v"
  shows "sv_clear v = sv_resize (dimension v)"
proof -
  have b: "\<forall>i \<in> set (pattern v). i < length (dense v)" "\<forall>i \<in> set (pattern v). i < length (marked v)"
    using ok by (auto simp: sv_ok_def)
  have "fold (\<lambda>i d. d[i := 0]) (pattern v) (dense v) = replicate (dimension v) 0"
    using fold_update_nth[OF b(1), of "\<lambda>_. 0"] ok
    by (intro nth_equalityI) (auto simp: sv_ok_def)
  moreover have "fold (\<lambda>i k. k[i := False]) (pattern v) (marked v) = replicate (dimension v) False"
    using fold_update_nth[OF b(2), of "\<lambda>_. False"] ok
    by (intro nth_equalityI) (auto simp: sv_ok_def)
  ultimately show ?thesis by (simp add: sv_clear_def sv_resize_def)
qed

lemma sv_value_add:
  "sv_ok v \<Longrightarrow> i < dimension v \<Longrightarrow> j < dimension v \<Longrightarrow>
   sv_value (sv_add i x v) j = (if j = i then (if marked v ! i then dense v ! i + x else x) else sv_value v j)"
  by (auto simp: sv_ok_def sv_value_def sv_add_def nth_modify_at nth_list_update)

lemma sv_value_set:
  "sv_ok v \<Longrightarrow> i < dimension v \<Longrightarrow> j < dimension v \<Longrightarrow>
   sv_value (sv_set i x v) j = (if j = i then x else sv_value v j)"
  by (auto simp: sv_ok_def sv_value_def sv_set_def nth_list_update)

lemma scatter_to_dense_nth:
  "sv_ok v \<Longrightarrow> j < dimension v \<Longrightarrow> scatter_to_dense v ! j = sv_value v j"
  using fold_update_nth[of "pattern v" "replicate (dimension v) 0" "(!) (dense v)"]
  by (auto simp: sv_ok_def scatter_to_dense_def sv_value_def)

lemma sv_compress_eq:
  "sv_compress tol v = (let gone = filter (\<lambda>i. \<not> tol \<le> \<bar>dense v ! i\<bar>) (pattern v) in
     v\<lparr>pattern := filter (\<lambda>i. tol \<le> \<bar>dense v ! i\<bar>) (pattern v),
       dense := fold (\<lambda>i d. d[i := 0]) gone (dense v),
       marked := fold (\<lambda>i k. k[i := False]) gone (marked v)\<rparr>)"
proof -
  have "fold (\<lambda>i w. if tol \<le> \<bar>dense v ! i\<bar> then w\<lparr>pattern := pattern w @ [i]\<rparr>
                 else w\<lparr>dense := (dense w)[i := 0], marked := (marked w)[i := False]\<rparr>) is w =
      w\<lparr>pattern := pattern w @ filter (\<lambda>i. tol \<le> \<bar>dense v ! i\<bar>) is,
        dense := fold (\<lambda>i d. d[i := 0]) (filter (\<lambda>i. \<not> tol \<le> \<bar>dense v ! i\<bar>) is) (dense w),
        marked := fold (\<lambda>i k. k[i := False]) (filter (\<lambda>i. \<not> tol \<le> \<bar>dense v ! i\<bar>) is) (marked w)\<rparr>"
    for "is" and w :: "'a sparse_vector"
    by (induction "is" arbitrary: w) auto
  then show ?thesis by (simp add: sv_compress_def Let_def)
qed

text \<open>
  \<open>compress\<close> keeps the vector well formed, keeps the pattern in its insertion order, and
  clears exactly the entries that fail \<open>|v| >= drop_tol\<close>: the others are untouched.
\<close>

lemma sv_compress_correct:
  assumes ok: "sv_ok v"
  shows "sv_ok (sv_compress tol v) \<and>
    pattern (sv_compress tol v) = filter (\<lambda>i. tol \<le> \<bar>sv_value v i\<bar>) (pattern v) \<and>
    (\<forall>i < dimension v. sv_value (sv_compress tol v) i =
      (if marked v ! i \<and> tol \<le> \<bar>dense v ! i\<bar> then dense v ! i else 0))"
proof -
  let ?gone = "filter (\<lambda>i. \<not> tol \<le> \<bar>dense v ! i\<bar>) (pattern v)"
  have b: "\<forall>i \<in> set ?gone. i < length (dense v)" "\<forall>i \<in> set ?gone. i < length (marked v)"
    using ok by (auto simp: sv_ok_def)
  note d = fold_update_nth[OF b(1), of "\<lambda>_. 0"] and m = fold_update_nth[OF b(2), of "\<lambda>_. False"]
  have "filter (\<lambda>i. tol \<le> \<bar>dense v ! i\<bar>) (pattern v) = filter (\<lambda>i. tol \<le> \<bar>sv_value v i\<bar>) (pattern v)"
    using ok by (intro filter_cong) (auto simp: sv_ok_def sv_value_def)
  moreover have "sv_ok (sv_compress tol v)"
    using ok d m by (auto simp: sv_compress_eq Let_def sv_ok_def split: if_splits)
  moreover have "\<forall>i < dimension v. sv_value (sv_compress tol v) i =
      (if marked v ! i \<and> tol \<le> \<bar>dense v ! i\<bar> then dense v ! i else 0)"
    using ok d m by (auto simp: sv_compress_eq Let_def sv_value_def sv_ok_def)
  ultimately show ?thesis by (simp add: sv_compress_eq Let_def)
qed

text \<open>
  On doubles \<open>compress\<close> deletes a NaN, whatever the tolerance: its test is the direct form
  that \<open>SparseMatrix::finalize\<close> rejects in a comment, although a NaN's magnitude is not "below
  drop_tol" as the declaration says.
\<close>

theorem sv_compress_drops_nan:
  assumes ok: "sv_ok v" and i: "i \<in> set (pattern v)" and nan: "dense v ! i = NaN"
  shows "i \<notin> set (pattern (sv_compress tol v)) \<and> sv_value (sv_compress tol v) i = 0"
  using sv_compress_correct[OF ok, of tol] sv_ok_bound[OF ok i] i nan ok
  by (auto simp: sv_ok_def sv_value_def)

section \<open>Concrete instances\<close>

lemma is_sort_sort_key [simp]: "is_sort sort_key"
  by (simp add: is_sort_def)

definition demo_build :: "'a sparse_matrix \<Rightarrow> 'a \<Rightarrow> 'a \<Rightarrow> 'a sparse_matrix" where
  "demo_build m a b = add_entry 1 0 a (add_entry 0 1 b (add_entry 0 0 b (add_entry 1 0 b
     (reset 2 2 m))))"

lemma demo_build_ok [simp]:
  "build_ok (demo_build empty_sparse a b)" "\<not> overflowed (demo_build empty_sparse a b)"
  by (simp_all add: demo_build_def empty_sparse_def reset_def add_entry_def build_ok_def index_max_def)

lemma demo_triplets [simp]: "triplets (demo_build empty_sparse a b) = [(0, 1, b), (0, 0, b), (1, 0, b), (0, 1, a)]"
  by (simp add: demo_build_def empty_sparse_def reset_def add_entry_def triplets_def index_max_def)

lemma demo_dims [simp]:
  "ncols (demo_build empty_sparse a b) = 2" "nrows (demo_build empty_sparse a b) = 2"
  by (simp_all add: demo_build_def empty_sparse_def reset_def add_entry_def)

definition demo_matrix :: "rat sparse_matrix" where
  "demo_matrix = finalize sort_key (1 / 100) (demo_build empty_sparse 5 2)"

lemma demo_matrix_ok: "csc_ok demo_matrix" and demo_matrix_dims [simp]: "ncols demo_matrix = 2" "nrows demo_matrix = 2"
  by (auto simp: demo_matrix_def intro!: finalize_csc_ok)

theorem finalize_well_formed_witness: "csc_ok (finalize sort_key (1 / 100) (demo_build empty_sparse (5 :: rat) 2))"
  by (intro finalize_well_formed) auto

theorem finalize_sums_duplicates_witness:
  "entry_at (finalize sort_key (1 / 100) (demo_build empty_sparse (5 :: rat) 2)) 1 0 = 7"
proof -
  have "entry_at (finalize sort_key (1 / 100) (demo_build empty_sparse (5 :: rat) 2)) 1 0 =
    (let s = sum_list (map (snd \<circ> snd) (filter (\<lambda>t. fst t = 0 \<and> fst (snd t) = 1)
       (triplets (demo_build empty_sparse 5 2)))) in if \<bar>s\<bar> < 1 / 100 then 0 else s)"
    by (rule finalize_sums_duplicates) simp_all
  then show ?thesis by simp
qed

theorem finalize_keeps_nan_witness:
  "entry_at (finalize sort_key (lit (1 / 10 ^ 11)) (demo_build empty_sparse NaN 1)) 1 0 = NaN"
  by (intro finalize_keeps_nan) auto

theorem transpose_correct_witness:
  "csc_ok (transpose_matrix demo_matrix) \<and>
   entry_at (transpose_matrix demo_matrix) 0 1 = entry_at demo_matrix 1 0"
  using demo_matrix_ok by (intro transpose_correct) auto

theorem kernels_adjoint_witness:
  "(\<Sum>i<2. [3, 4] ! i * multiply demo_matrix [5, 6] 1 ! i) =
   (\<Sum>j<2. transpose_multiply demo_matrix [3, 4] 1 ! j * [5, 6] ! j)"
  using kernels_adjoint[OF demo_matrix_ok, of "[3, 4]" "[5, 6]"] by simp

theorem finalize_unfreeze_witness:
  "column (finalize sort_key (1 / 100) (unfreeze demo_matrix)) 1 = column demo_matrix 1"
proof -
  have st: "column demo_matrix 1 =
      merge_runs (1 / 100) (sort_column sort_key [(0, 2)])"
    using finalize_column[of "demo_build empty_sparse (5 :: rat) 2" sort_key 1 "1 / 100"]
    by (simp add: demo_matrix_def)
  have c0: "column demo_matrix 0 = merge_runs (1 / 100) (sort_column sort_key [(1, 2), (0, 2), (1, 5)])"
    using finalize_column[of "demo_build empty_sparse (5 :: rat) 2" sort_key 0 "1 / 100"]
    by (simp add: demo_matrix_def)
  have two: "[0..<2] = [0, 1 :: nat]" by (simp add: numeral_2_eq_2)
  have vals: "vals demo_matrix = [2, 7, 2]"
    using csc_stores[OF demo_matrix_ok]
    by (simp add: stores_def two c0 st[simplified] sort_column_def sort_key_def insort_key_def)
  have lim: "nonzero_limit demo_matrix = index_max" and nov: "\<not> overflowed demo_matrix"
    by (simp_all add: demo_matrix_def finalize_limits)
       (simp add: demo_build_def empty_sparse_def reset_def add_entry_def)
  show ?thesis
    by (rule finalize_unfreeze[OF demo_matrix_ok])
       (simp_all add: vals lim nov index_max_def st[simplified] sort_column_def)
qed

theorem overflow_refused_witness:
  "let m' = finalize sort_key (1 / 100)
      (add_entry 1 1 8 (demo_build (set_nonzero_limit 4 empty_sparse) (5 :: rat) 2)) in
    overflowed m' \<and> frozen m' \<and> num_nonzeros m' = 0 \<and> csc_ok m'"
  by (rule overflow_refused)
     (simp_all add: demo_build_def empty_sparse_def reset_def add_entry_def build_ok_def
       set_nonzero_limit_def index_max_def)

lemma demo_vector_ok: "sv_ok (sv_add 2 NaN (sv_add 0 1 (sv_resize 3)))"
  by (intro sv_add_ok sv_resize_ok) (simp_all add: sv_add_def sv_resize_def)

theorem sv_clear_fresh_witness:
  "sv_clear (sv_add 2 NaN (sv_add 0 1 (sv_resize 3))) = sv_resize 3"
  using sv_clear_fresh[OF demo_vector_ok] by (simp add: sv_add_def sv_resize_def)

theorem sv_compress_drops_nan_witness:
  "2 \<notin> set (pattern (sv_compress (lit (1 / 10 ^ 11)) (sv_add 2 NaN (sv_add 0 1 (sv_resize 3))))) \<and>
   sv_value (sv_compress (lit (1 / 10 ^ 11)) (sv_add 2 NaN (sv_add 0 1 (sv_resize 3)))) 2 = 0"
  by (rule sv_compress_drops_nan[OF demo_vector_ok]) (simp_all add: sv_add_def sv_resize_def)

end
