(* ===== verification/Lexical.thy ===== *)
theory Lexical
  imports Doubles
begin

text \<open>
  Characters and numbers as text: the C library's character classes in the \<open>C\<close> locale,
  \<open>strtoll\<close> and \<open>strtod\<close> (value, what is left, whether \<open>errno\<close> is \<open>ERANGE\<close>), and
  \<open>src/io/token.hpp\<close>, the helpers the option table and the readers share. A
  \<open>std::string\<close> is a list of bytes; \<open>c_str\<close> is what a C function sees of it, which ends at
  the first NUL.
\<close>

section \<open>Characters\<close>

definition isspace :: "char \<Rightarrow> bool" where
  "isspace c \<longleftrightarrow> (let n = (of_char c :: nat) in n = 32 \<or> (9 \<le> n \<and> n \<le> 13))"

definition isdigit :: "char \<Rightarrow> bool" where
  "isdigit c \<longleftrightarrow> (let n = (of_char c :: nat) in 48 \<le> n \<and> n \<le> 57)"

definition isalpha :: "char \<Rightarrow> bool" where
  "isalpha c \<longleftrightarrow> (let n = (of_char c :: nat) in 65 \<le> n \<and> n \<le> 90 \<or> 97 \<le> n \<and> n \<le> 122)"

definition isalnum :: "char \<Rightarrow> bool" where
  "isalnum c \<longleftrightarrow> isalpha c \<or> isdigit c"

definition tolower :: "char \<Rightarrow> char" where
  "tolower c = (let n = (of_char c :: nat) in if 65 \<le> n \<and> n \<le> 90 then char_of (n + 32) else c)"

definition toupper :: "char \<Rightarrow> char" where
  "toupper c = (let n = (of_char c :: nat) in if 97 \<le> n \<and> n \<le> 122 then char_of (n - 32) else c)"

definition to_lower :: "string \<Rightarrow> string" where
  "to_lower s = map tolower s"

definition to_upper :: "string \<Rightarrow> string" where
  "to_upper s = map toupper s"

definition trim :: "string \<Rightarrow> string" where
  "trim s = rev (dropWhile isspace (rev (dropWhile isspace s)))"

definition c_str :: "string \<Rightarrow> string" where
  "c_str s = takeWhile (\<lambda>c. c \<noteq> CHR 0x00) s"

section \<open>strtoll\<close>

definition digit_val :: "char \<Rightarrow> nat" where
  "digit_val c = of_char c - 48"

definition dec_nat :: "string \<Rightarrow> nat" where
  "dec_nat ds = foldl (\<lambda>a c. 10 * a + digit_val c) 0 ds"

fun take_sign :: "string \<Rightarrow> bool \<times> string" where
  "take_sign [] = (False, [])"
| "take_sign (c # s) = (if c = CHR ''-'' then (True, s) else if c = CHR ''+'' then (False, s)
     else (False, c # s))"

definition llong_max :: int where
  "llong_max = 2 ^ 63 - 1"

definition llong_min :: int where
  "llong_min = - (2 ^ 63)"

text \<open>
  Base 10. The result is the value, the rest of the text from \<open>end\<close>, and whether the value was
  clamped with \<open>ERANGE\<close>. Without a digit nothing is consumed.
\<close>

definition strtoll :: "string \<Rightarrow> int \<times> string \<times> bool" where
  "strtoll s =
     (let (neg, r) = take_sign (dropWhile isspace s);
          ds = takeWhile isdigit r;
          v = (if neg then - int (dec_nat ds) else int (dec_nat ds))
      in if ds = [] then (0, s, False)
         else if v < llong_min then (llong_min, dropWhile isdigit r, True)
         else if llong_max < v then (llong_max, dropWhile isdigit r, True)
         else (v, dropWhile isdigit r, False))"

section \<open>strtod\<close>

definition isxdigit :: "char \<Rightarrow> bool" where
  "isxdigit c \<longleftrightarrow> isdigit c \<or> tolower c \<in> set ''abcdef''"

definition xdigit_val :: "char \<Rightarrow> nat" where
  "xdigit_val c = (if isdigit c then of_char c - 48 else of_char (tolower c) - 87)"

definition hex_nat :: "string \<Rightarrow> nat" where
  "hex_nat ds = foldl (\<lambda>a c. 16 * a + xdigit_val c) 0 ds"

text \<open>Digits with at most one point: the digits before it, those after it, and the rest.\<close>

definition take_point :: "(char \<Rightarrow> bool) \<Rightarrow> string \<Rightarrow> string \<times> string \<times> string" where
  "take_point d s =
     (let r = dropWhile d s in
      case r of
        c # t \<Rightarrow> if c = CHR ''.'' \<and> (takeWhile d s \<noteq> [] \<or> takeWhile d t \<noteq> [])
                 then (takeWhile d s, takeWhile d t, dropWhile d t)
                 else (takeWhile d s, [], r)
      | [] \<Rightarrow> (takeWhile d s, [], r))"

text \<open>An exponent part, consumed only when a digit follows the mark and its sign.\<close>

definition take_exponent :: "char \<Rightarrow> string \<Rightarrow> int \<times> string" where
  "take_exponent mark s =
     (case s of
        [] \<Rightarrow> (0, s)
      | c # t \<Rightarrow>
          if tolower c = mark then
            let (neg, r) = take_sign t; ds = takeWhile isdigit r in
            if ds = [] then (0, s)
            else (if neg then - int (dec_nat ds) else int (dec_nat ds), dropWhile isdigit r)
          else (0, s))"

definition dec_float :: "string \<Rightarrow> (rat \<times> string) option" where
  "dec_float s =
     (case take_point isdigit s of (ip, fp, r) \<Rightarrow>
        if ip = [] \<and> fp = [] then None
        else case take_exponent CHR ''e'' r of (e, r') \<Rightarrow>
          Some (of_nat (dec_nat (ip @ fp)) * 10 powi (e - int (length fp)), r'))"

definition hex_float :: "string \<Rightarrow> (rat \<times> string) option" where
  "hex_float s =
     (case take_point isxdigit s of (ip, fp, r) \<Rightarrow>
        if ip = [] \<and> fp = [] then None
        else case take_exponent CHR ''p'' r of (e, r') \<Rightarrow>
          Some (of_nat (hex_nat (ip @ fp)) * 2 powi (e - 4 * int (length fp)), r'))"

text \<open>A keyword at the front, in any case.\<close>

definition take_word :: "string \<Rightarrow> string \<Rightarrow> string option" where
  "take_word w s = (if to_lower (take (length w) s) = w then Some (drop (length w) s) else None)"

text \<open>\<open>nan\<close> may be followed by a payload in parentheses, which is consumed when it closes.\<close>

definition take_payload :: "string \<Rightarrow> string" where
  "take_payload s =
     (case s of
        c # t \<Rightarrow>
          if c = CHR ''('' then
            case dropWhile (\<lambda>x. isalnum x \<or> x = CHR ''_'') t of
              d # u \<Rightarrow> if d = CHR '')'' then u else s
            | [] \<Rightarrow> s
          else s
      | [] \<Rightarrow> s)"

text \<open>The unsigned number: its double, the rest, and \<open>ERANGE\<close>.\<close>

definition to_double :: "rat \<Rightarrow> double \<times> bool" where
  "to_double q = (let v = rnd q in
     (v, v = PInf \<or> (q \<noteq> 0 \<and> q < 2 powi (- 1022) \<and> v \<noteq> Fin q)))"

definition take_number :: "string \<Rightarrow> (rat \<times> string) option" where
  "take_number s =
     (case take_word ''0x'' s of
        Some r \<Rightarrow> (case hex_float r of None \<Rightarrow> dec_float s | Some x \<Rightarrow> Some x)
      | None \<Rightarrow> dec_float s)"

definition strtod :: "string \<Rightarrow> double \<times> string \<times> bool" where
  "strtod s =
     (let (neg, r) = take_sign (dropWhile isspace s); sg = (\<lambda>v. if neg then - v else v) in
      case take_word ''infinity'' r of
        Some t \<Rightarrow> (sg PInf, t, False)
      | None \<Rightarrow> (case take_word ''inf'' r of
          Some t \<Rightarrow> (sg PInf, t, False)
        | None \<Rightarrow> (case take_word ''nan'' r of
            Some t \<Rightarrow> (NaN, take_payload t, False)
          | None \<Rightarrow> (case take_number r of
              None \<Rightarrow> (0, s, False)
            | Some (q, t) \<Rightarrow> (case to_double q of (v, erange) \<Rightarrow> (sg v, t, erange))))))"

section \<open>Tokens\<close>

text \<open>\<open>tokenize\<close>: the maximal runs without white space, in order.\<close>

function tokenize :: "string \<Rightarrow> string list" where
  "tokenize s =
     (let r = dropWhile isspace s in
      if r = [] then []
      else takeWhile (\<lambda>c. \<not> isspace c) r # tokenize (dropWhile (\<lambda>c. \<not> isspace c) r))"
  by pat_completeness auto

lemma tokenize_decreases:
  "dropWhile isspace s \<noteq> [] \<Longrightarrow>
     length (dropWhile (\<lambda>c. \<not> isspace c) (dropWhile isspace s)) < length s"
proof -
  assume ne: "dropWhile isspace s \<noteq> []"
  then obtain c r where r: "dropWhile isspace s = c # r" by (cases "dropWhile isspace s") auto
  then have "\<not> isspace c" using hd_dropWhile[OF ne] by simp
  then have "length (dropWhile (\<lambda>c. \<not> isspace c) (c # r)) \<le> length r"
    by (simp add: length_dropWhile_le)
  also have "\<dots> < length s"
    using length_dropWhile_le[of isspace s] r by simp
  finally show ?thesis unfolding r .
qed

termination tokenize
  by (relation "measure length") (auto intro: tokenize_decreases)

declare tokenize.simps [simp del]

definition unquote :: "string \<Rightarrow> string" where
  "unquote s =
     (if 2 \<le> length s \<and> (hd s = CHR 0x27 \<or> hd s = CHR 0x22) \<and> last s = hd s
      then butlast (tl s) else s)"

definition parse_double :: "string \<Rightarrow> double option" where
  "parse_double text =
     (let t = trim text in
      if t = [] then None
      else
        let buffer = map (\<lambda>c. if c = CHR ''D'' \<or> c = CHR ''d'' then CHR ''E'' else c) t in
        case strtod (c_str buffer) of (value, rest, erange) \<Rightarrow>
          if rest = c_str buffer then None
          else if dropWhile isspace rest \<noteq> [] then None
          else if isnan value then None
          else Some value)"

definition parse_int :: "string \<Rightarrow> int option" where
  "parse_int text =
     (let t = trim text in
      if t = [] then None
      else case strtoll (c_str t) of (value, rest, erange) \<Rightarrow>
        if rest = c_str t then None
        else if dropWhile isspace rest \<noteq> [] then None
        else Some value)"

section \<open>Facts\<close>

lemma takeWhile_eq_all: "(\<forall>x \<in> set xs. P x) \<Longrightarrow> takeWhile P (xs @ ys) = xs @ takeWhile P ys"
  by (simp add: takeWhile_append2)

lemma dropWhile_eq_all: "(\<forall>x \<in> set xs. P x) \<Longrightarrow> dropWhile P (xs @ ys) = dropWhile P ys"
  by (simp add: dropWhile_append2)

lemma dropWhile_id: "xs = [] \<or> \<not> P (hd xs) \<Longrightarrow> dropWhile P xs = xs"
  by (cases xs) auto

lemma takeWhile_id: "xs = [] \<or> \<not> P (hd xs) \<Longrightarrow> takeWhile P xs = []"
  by (cases xs) auto

lemma trim_subset: "set (trim s) \<subseteq> set s"
proof -
  have d: "set (dropWhile isspace xs) \<subseteq> set xs" for xs by (auto dest: set_dropWhileD)
  from d[of "rev (dropWhile isspace s)"] d[of s] show ?thesis by (auto simp: trim_def)
qed

text \<open>\<open>trim\<close> leaves a string alone that has no blank at either end.\<close>

lemma trim_id:
  assumes "s = [] \<or> (\<not> isspace (hd s) \<and> \<not> isspace (last s))"
  shows "trim s = s"
proof -
  have "dropWhile isspace s = s" "dropWhile isspace (rev s) = rev s"
    using assms by (auto simp: hd_rev intro!: dropWhile_id)
  then show ?thesis by (simp add: trim_def)
qed

lemma trim_padded:
  assumes "s \<noteq> []" "\<not> isspace (hd s)" "\<not> isspace (last s)"
    "\<forall>c \<in> set a. isspace c" "\<forall>c \<in> set b. isspace c"
  shows "trim (a @ s @ b) = s"
  using assms by (simp add: trim_def dropWhile_eq_all dropWhile_id hd_rev)

lemma c_str_id: "CHR 0x00 \<notin> set s \<Longrightarrow> c_str s = s"
  by (auto simp: c_str_def takeWhile_eq_all_conv)

lemma to_lower_idem [simp]: "to_lower (to_lower s) = to_lower s"
proof -
  have "tolower (tolower c) = tolower c" for c
    by (auto simp: tolower_def Let_def of_char_mod_256 nat_of_char_less_256)
  then show ?thesis by (simp add: to_lower_def)
qed

subsection \<open>Tokens\<close>

text \<open>The text of a token list: each token followed by at least one blank.\<close>

definition blank :: "string \<Rightarrow> bool" where
  "blank w \<longleftrightarrow> (\<forall>c \<in> set w. isspace c)"

definition token :: "string \<Rightarrow> bool" where
  "token t \<longleftrightarrow> t \<noteq> [] \<and> (\<forall>c \<in> set t. \<not> isspace c)"

lemma tokenize_blank: "blank w \<Longrightarrow> tokenize w = []"
  by (simp add: tokenize.simps[of w] blank_def Let_def)

lemma tokenize_Cons:
  assumes "blank w" "token t" "rest = [] \<or> isspace (hd rest)"
  shows "tokenize (w @ t @ rest) = t # tokenize rest"
proof -
  have d: "dropWhile isspace (w @ t @ rest) = t @ rest"
    using assms by (cases t) (auto simp: blank_def token_def dropWhile_eq_all)
  have "takeWhile (\<lambda>c. \<not> isspace c) (t @ rest) = t" "dropWhile (\<lambda>c. \<not> isspace c) (t @ rest) = rest"
    using assms(2,3) by (auto simp: token_def takeWhile_eq_all dropWhile_eq_all takeWhile_id dropWhile_id)
  with d assms(2) show ?thesis
    by (simp add: tokenize.simps[of "w @ t @ rest"] token_def Let_def)
qed

lemma tokenize_tokens: "t \<in> set (tokenize s) \<Longrightarrow> token t"
proof (induction s rule: tokenize.induct)
  case (1 s)
  show ?case
  proof (cases "dropWhile isspace s = []")
    case True
    with "1.prems" show ?thesis by (simp add: tokenize.simps[of s])
  next
    case False
    then have "\<not> isspace (hd (dropWhile isspace s))" by (rule hd_dropWhile)
    with False have "token (takeWhile (\<lambda>c. \<not> isspace c) (dropWhile isspace s))"
      by (cases "dropWhile isspace s") (auto simp: token_def dest: set_takeWhileD)
    moreover from "1.prems" False have "t = takeWhile (\<lambda>c. \<not> isspace c) (dropWhile isspace s) \<or>
        t \<in> set (tokenize (dropWhile (\<lambda>c. \<not> isspace c) (dropWhile isspace s)))"
      by (simp add: tokenize.simps[of s] Let_def del: dropWhile_eq_Nil_conv)
    ultimately show ?thesis using "1.IH"[OF refl False] by blast
  qed
qed

lemma tokenize_lines:
  assumes "blank w" "\<forall>(t, b) \<in> set tbs. token t \<and> blank b \<and> b \<noteq> []"
  shows "tokenize (w @ concat (map (\<lambda>(t, b). t @ b) tbs)) = map fst tbs"
  using assms
proof (induction tbs arbitrary: w)
  case Nil
  then show ?case by (simp add: tokenize_blank)
next
  case (Cons tb tbs)
  obtain t b where tb: "tb = (t, b)" by force
  have b: "blank b" "b \<noteq> []" "token t" using Cons.prems(2) tb by auto
  then have "isspace (hd (b @ concat (map (\<lambda>(t, b). t @ b) tbs)))"
    by (cases b) (auto simp: blank_def)
  then show ?case
    using tokenize_Cons[OF Cons.prems(1) b(3)] Cons.IH[of b] Cons.prems b tb by simp
qed

subsection \<open>Decimal integers\<close>

text \<open>The decimal digits of a number, as every integer formatter prints them.\<close>

fun show_nat :: "nat \<Rightarrow> string" where
  "show_nat n = (if n < 10 then [char_of (48 + n)] else show_nat (n div 10) @ [char_of (48 + n mod 10)])"

declare show_nat.simps [simp del]

definition show_int :: "int \<Rightarrow> string" where
  "show_int n = (if n < 0 then CHR ''-'' # show_nat (nat (- n)) else show_nat (nat n))"

lemma digit_char: "n < 10 \<Longrightarrow> isdigit (char_of (48 + n)) \<and> digit_val (char_of (48 + n)) = n \<and>
    \<not> isspace (char_of (48 + n))"
  by (simp add: isdigit_def digit_val_def isspace_def Let_def)

lemma show_nat_digits: "\<forall>c \<in> set (show_nat n). isdigit c"
  by (induction n rule: show_nat.induct) (subst show_nat.simps, auto simp: digit_char)

lemma show_nat_not_Nil [simp]: "show_nat n \<noteq> []"
  by (subst show_nat.simps) simp

lemma dec_nat_snoc: "dec_nat (ds @ [c]) = 10 * dec_nat ds + digit_val c"
  by (simp add: dec_nat_def)

lemma dec_nat_show [simp]: "dec_nat (show_nat n) = n"
proof (induction n rule: show_nat.induct)
  case (1 n)
  show ?case
  proof (cases "n < 10")
    case True
    then show ?thesis by (subst show_nat.simps) (simp add: dec_nat_def digit_char)
  next
    case False
    with 1 show ?thesis by (subst show_nat.simps) (simp add: dec_nat_snoc digit_char)
  qed
qed

lemma isdigit_not: "isdigit c \<Longrightarrow> \<not> isspace c \<and> c \<noteq> CHR ''-'' \<and> c \<noteq> CHR ''+'' \<and> c \<noteq> CHR ''.'' \<and> c \<noteq> CHR 0x00"
  by (auto simp: isdigit_def isspace_def Let_def)

lemma strtoll_show_int:
  assumes "llong_min \<le> n" "n \<le> llong_max" "rest = [] \<or> \<not> isdigit (hd rest)"
  shows "strtoll (show_int n @ rest) = (n, rest, False)"
proof -
  have tw: "takeWhile isdigit (show_nat k @ rest) = show_nat k"
    "dropWhile isdigit (show_nat k @ rest) = rest" for k
    using assms(3) by (simp_all add: takeWhile_eq_all dropWhile_eq_all show_nat_digits
        takeWhile_id dropWhile_id)
  have nn: "\<exists>c s. show_nat k = c # s \<and> isdigit c" for k
    using show_nat_digits[of k] by (cases "show_nat k") auto
  show ?thesis
  proof (cases "n < 0")
    case True
    then show ?thesis
      using assms(1,2) tw[of "nat (- n)"]
      by (simp add: show_int_def strtoll_def Let_def isspace_def)
  next
    case False
    obtain c s where c: "show_nat (nat n) = c # s" "isdigit c" using nn by blast
    have "take_sign (dropWhile isspace (show_nat (nat n) @ rest)) = (False, show_nat (nat n) @ rest)"
      using c isdigit_not[of c] by simp
    then show ?thesis
      using False assms(1,2) tw[of "nat n"] by (simp add: show_int_def strtoll_def Let_def)
  qed
qed

subsection \<open>Decimal fractions\<close>

text \<open>
  The plain decimal forms a model file uses, \<open>ip.fp\<close> with an optional exponent: the value is
  the exact decimal fraction, rounded once.
\<close>

lemma digits_not_word:
  assumes "isdigit c \<or> c = CHR ''.''"
  shows "take_word ''infinity'' (c # r) = None" "take_word ''inf'' (c # r) = None"
    "take_word ''nan'' (c # r) = None"
proof -
  from assms have "tolower c \<noteq> CHR ''i''" "tolower c \<noteq> CHR ''n''"
    by (auto simp: isdigit_def tolower_def Let_def)
  then show "take_word ''infinity'' (c # r) = None" "take_word ''inf'' (c # r) = None"
    "take_word ''nan'' (c # r) = None"
    by (simp_all add: take_word_def to_lower_def)
qed

lemma take_point_dec:
  assumes "\<forall>c \<in> set ip. isdigit c" "\<forall>c \<in> set fp. isdigit c" "ip \<noteq> [] \<or> fp \<noteq> []"
    "rest = [] \<or> \<not> isdigit (hd rest)"
  shows "take_point isdigit (ip @ CHR ''.'' # fp @ rest) = (ip, fp, rest)"
proof -
  have "\<not> isdigit CHR ''.''" by (simp add: isdigit_def)
  then show ?thesis
    using assms by (simp add: take_point_def takeWhile_eq_all dropWhile_eq_all takeWhile_id
        dropWhile_id Let_def)
qed


lemma take_exponent_dec:
  assumes "llong_min \<le> e" "e \<le> llong_max"
  shows "take_exponent CHR ''e'' (CHR ''e'' # show_int e) = (e, [])"
    "take_exponent CHR ''e'' (CHR ''E'' # show_int e) = (e, [])"
proof -
  have low: "tolower CHR ''e'' = CHR ''e''" "tolower CHR ''E'' = CHR ''e''"
    by (code_simp+)
  have all: "takeWhile isdigit (show_nat k) = show_nat k" "dropWhile isdigit (show_nat k) = []" for k
    using show_nat_digits[of k] by simp_all
  obtain c s where c: "show_nat (nat e) = c # s" "isdigit c"
    using show_nat_digits[of "nat e"] by (cases "show_nat (nat e)") auto
  have "take_sign (show_int e) = (e < 0, show_nat (nat \<bar>e\<bar>))"
    using c isdigit_not[of c] by (auto simp: show_int_def)
  then show "take_exponent CHR ''e'' (CHR ''e'' # show_int e) = (e, [])"
    "take_exponent CHR ''e'' (CHR ''E'' # show_int e) = (e, [])"
    by (simp_all add: take_exponent_def low all Let_def)
qed

text \<open>The text \<open>[-]ip.fp[e]exp\<close> that decimal writers produce, with any exponent mark.\<close>

definition decimal_text :: "bool \<Rightarrow> string \<Rightarrow> string \<Rightarrow> char \<Rightarrow> int \<Rightarrow> string" where
  "decimal_text neg ip fp mark e =
     (if neg then [CHR ''-''] else []) @ ip @ CHR ''.'' # fp @ mark # show_int e"

definition decimal_value :: "string \<Rightarrow> string \<Rightarrow> int \<Rightarrow> rat" where
  "decimal_value ip fp e = of_nat (dec_nat (ip @ fp)) * 10 powi (e - int (length fp))"

lemma strtod_decimal:
  assumes ip: "\<forall>c \<in> set ip. isdigit c" and fp: "\<forall>c \<in> set fp. isdigit c" and ne: "ip \<noteq> []"
    and mark: "mark = CHR ''e'' \<or> mark = CHR ''E''"
    and e: "llong_min \<le> e" "e \<le> llong_max"
  shows "strtod (decimal_text neg ip fp mark e) =
    ((if neg then - rnd (decimal_value ip fp e) else rnd (decimal_value ip fp e)), [],
      snd (to_double (decimal_value ip fp e)))"
proof -
  let ?tail = "mark # show_int e"
  let ?body = "ip @ CHR ''.'' # fp @ ?tail"
  have nd: "\<not> isdigit mark" using mark by (auto simp: isdigit_def)
  obtain c ip' where c: "ip = c # ip'" "isdigit c" using ip ne by (cases ip) auto
  have sign: "take_sign (dropWhile isspace (decimal_text neg ip fp mark e)) = (neg, ?body)"
    using c isdigit_not[OF c(2)] by (simp add: decimal_text_def isspace_def)
  have words: "take_word ''infinity'' ?body = None" "take_word ''inf'' ?body = None"
    "take_word ''nan'' ?body = None"
    using digits_not_word[of c] c by simp_all
  have "take_word ''0x'' ?body = None"
  proof -
    obtain d r where d: "?body = c # d # r" "isdigit d \<or> d = CHR ''.''"
      using c ip by (cases ip') auto
    then have "tolower d \<noteq> CHR ''x''" by (auto simp: isdigit_def tolower_def Let_def)
    with d(1) show ?thesis by (simp add: take_word_def to_lower_def)
  qed
  then have num: "take_number ?body = dec_float ?body" by (simp add: take_number_def)
  have "take_point isdigit ?body = (ip, fp, ?tail)"
    by (rule take_point_dec) (use ip fp ne nd in auto)
  moreover have "take_exponent CHR ''e'' ?tail = (e, [])"
    using mark take_exponent_dec[OF e] by auto
  ultimately have "dec_float ?body = Some (decimal_value ip fp e, [])"
    using ne by (simp add: dec_float_def decimal_value_def)
  then show ?thesis
    by (simp add: strtod_def sign words num to_double_def Let_def)
qed

text \<open>
  The readers' \<open>parse_double\<close> reads a decimal literal as the double nearest to its exact value,
  whatever blanks surround it and whether the exponent is marked \<open>e\<close> or, as Fortran writes it, \<open>D\<close>;
  a value out of range becomes an infinity and the field is accepted.
\<close>

theorem parse_double_decimal:
  assumes ip: "\<forall>c \<in> set ip. isdigit c" and fp: "\<forall>c \<in> set fp. isdigit c" and ne: "ip \<noteq> []"
    and mark: "mark \<in> {CHR ''e'', CHR ''E'', CHR ''d'', CHR ''D''}"
    and e: "llong_min \<le> e" "e \<le> llong_max" and ab: "blank a" "blank b"
  shows "parse_double (a @ decimal_text neg ip fp mark e @ b) =
    Some (if neg then - rnd (decimal_value ip fp e) else rnd (decimal_value ip fp e))"
proof -
  let ?t = "decimal_text neg ip fp mark e" and ?up = "\<lambda>c. if c = CHR ''D'' \<or> c = CHR ''d'' then CHR ''E'' else c"
  obtain c ip' where c: "ip = c # ip'" "isdigit c" using ip ne by (cases ip) auto
  have sh: "\<forall>c \<in> set (show_int e). isdigit c \<or> c = CHR ''-''" "show_int e \<noteq> []"
    using show_nat_digits by (auto simp: show_int_def)
  have "last ?t = last (show_int e)" using sh(2) by (simp add: decimal_text_def)
  moreover have "isdigit (last (show_nat k))" for k
    using show_nat_digits[of k] last_in_set[of "show_nat k"] by simp
  ultimately have last: "isdigit (last ?t)" by (simp add: show_int_def)
  have tr: "trim (a @ ?t @ b) = ?t"
    using ab isdigit_not[OF c(2)] isdigit_not[OF last] c(1)
    by (intro trim_padded) (auto simp: blank_def decimal_text_def isspace_def)
  have dig: "?up d = d" if "isdigit d" for d using that by (auto simp: isdigit_def)
  have mp: "map ?up xs = xs" if "\<forall>c \<in> set xs. isdigit c \<or> c = CHR ''-''" for xs
    using that by (induction xs) (auto simp: isdigit_def)
  have up: "map ?up ?t = decimal_text neg ip fp (?up mark) e"
    using mp[of ip] mp[of fp] mp[OF sh(1)] ip fp by (auto simp: decimal_text_def)
  have mark': "?up mark = CHR ''e'' \<or> ?up mark = CHR ''E''" using mark by auto
  have "CHR 0x00 \<notin> set ip" "CHR 0x00 \<notin> set fp" "CHR 0x00 \<notin> set (show_int e)" "?up mark \<noteq> CHR 0x00"
    using ip fp sh(1) mark' isdigit_not[of "CHR 0x00"] by auto
  then have nonul: "c_str (decimal_text neg ip fp (?up mark) e) = decimal_text neg ip fp (?up mark) e"
    by (intro c_str_id) (simp add: decimal_text_def)
  have nn: "\<not> isnan (rnd q)" for q by (rule rnd_not_nan)
  show ?thesis
    using strtod_decimal[OF ip fp ne mark' e] nn[of "decimal_value ip fp e"] nonul
    by (simp add: parse_double_def tr up Let_def) (simp add: decimal_text_def)
qed

text \<open>A Fortran literal with blanks around it.\<close>

theorem parse_double_decimal_witness: "parse_double ''  -1.5D2 '' = Some (Fin (- 150))"
proof -
  have n: "show_int 2 = ''2''" by code_simp
  have d: "decimal_text True ''1'' ''5'' CHR ''D'' 2 = ''-1.5D2''" unfolding decimal_text_def n by simp
  have e: "''  -1.5D2 '' = ''  '' @ decimal_text True ''1'' ''5'' CHR ''D'' 2 @ '' ''" unfolding d by simp
  have v: "decimal_value ''1'' ''5'' 2 = 150"
    by (simp add: decimal_value_def dec_nat_def digit_val_def power_int_def)
  show ?thesis
    unfolding e by (subst parse_double_decimal)
      (simp_all add: v isdigit_def blank_def isspace_def llong_min_def llong_max_def)
qed

end
