(* ===== verification/Tolerances.thy ===== *)
theory Tolerances
  imports Doubles
begin

text \<open>
  \<open>include/sankhya/tolerances.hpp\<close>: the numerical constants, each the double nearest to its
  decimal literal, and the order facts on literals that range checks need.
\<close>

definition kPrimalFeasibility :: double where "kPrimalFeasibility = lit (1 / 10 ^ 7)"
definition kDualFeasibility :: double where "kDualFeasibility = lit (1 / 10 ^ 7)"
definition kIntegrality :: double where "kIntegrality = lit (1 / 10 ^ 6)"
definition kMipRelativeGap :: double where "kMipRelativeGap = lit (1 / 10 ^ 4)"
definition kMipAbsoluteGap :: double where "kMipAbsoluteGap = lit (1 / 10 ^ 6)"
definition kDivingMaxDepth :: int where "kDivingMaxDepth = 50"
definition kDivingMaxLpResolves :: int where "kDivingMaxLpResolves = 50"
definition kPseudocostReliability :: int where "kPseudocostReliability = 8"
definition kStrongBranchingCandidates :: int where "kStrongBranchingCandidates = 10"
definition kStrongBranchingIterations :: int where "kStrongBranchingIterations = 50"
definition kDualityGap :: double where "kDualityGap = lit (1 / 10 ^ 9)"
definition kComplementarity :: double where "kComplementarity = lit (1 / 10 ^ 6)"
definition kZeroDrop :: double where "kZeroDrop = lit (1 / 10 ^ 11)"
definition kPdhgLoose :: double where "kPdhgLoose = lit (1 / 10 ^ 4)"
definition kPdhgTight :: double where "kPdhgTight = lit (1 / 10 ^ 8)"

lemmas tolerance_defs = kPrimalFeasibility_def kDualFeasibility_def kIntegrality_def
  kMipRelativeGap_def kMipAbsoluteGap_def kDualityGap_def kComplementarity_def kZeroDrop_def
  kPdhgLoose_def kPdhgTight_def

lemma lit_not_nan [simp]: "\<not> isnan (lit q)"
  by (simp add: lit_def)

lemma lit_0 [simp]: "lit 0 = 0"
  by (simp add: lit_def zero_double_def)

text \<open>A larger literal is not less than a smaller one: rounding is monotone.\<close>

lemma lit_mono: "p \<le> q \<Longrightarrow> \<not> lit q < lit p"
  using rnd_mono[of p q] by (simp add: lit_def not_dless)

lemma lit_nonneg [simp]: "0 \<le> q \<Longrightarrow> \<not> lit q < 0"
  using lit_mono[of 0 q] by simp

text \<open>\<open>max()\<close> is the largest finite double, and no literal below \<open>2^1023\<close> passes it.\<close>

lemma lit_below_max [simp]:
  assumes "q \<le> 2 ^ 1023"
  shows "\<not> dbl_max < lit q"
proof -
  have "rnd q \<le> rnd (of_int 1 * 2 powi 1023)"
    using assms by (intro rnd_mono) (simp add: power_int_def)
  moreover have "rnd (of_int 1 * 2 powi 1023) = Fin (2 ^ 1023)"
    by (subst rnd_dyadic[of _ 1 1023]) (simp_all add: power_int_def)
  ultimately have "rnd q \<le> Fin (2 ^ 1023)" by simp
  moreover have "Fin (2 ^ 1023) \<le> dbl_max" by (simp add: dbl_max_def)
  ultimately have "rnd q \<le> dbl_max" using dleq_trans by blast
  then show ?thesis unfolding lit_def by (metis dless_le_not_le)
qed

lemma dbl_max_simps [simp]: "\<not> isnan dbl_max" "\<not> dbl_max < 0" "0 < dbl_max" "dbl_max < PInf"
    "\<not> dbl_max < dbl_max" "isfinite dbl_max"
  by (simp_all add: dbl_max_def)

end
