(* ===== verification/Options.thy ===== *)
theory Options
  imports Lexical Tolerances
begin

text \<open>
  \<open>include/sankhya/options.hpp\<close> and \<open>src/util/options.cpp\<close>: the option registry, the values of
  one option set (held by position, parallel to the registry), parsing and assigning from text,
  and the typed accessors. A row of the registry keeps every field but the help text. An error
  is a constructor that carries what the message prints; a typed accessor on a name that is not
  registered aborts the process, which is the value \<open>None\<close>.
\<close>

section \<open>Data\<close>

datatype option_type = OT_Bool | OT_Int | OT_Double | OT_String

datatype option_value = VBool bool | VInt int | VDouble double | VString string

record option_spec =
  spec_name :: string
  spec_type :: option_type
  spec_default :: option_value
  spec_min :: double
  spec_max :: double
  spec_choices :: "string list"
  spec_planned :: string
  spec_case_sensitive :: bool

definition spec :: "string \<Rightarrow> option_type \<Rightarrow> option_value \<Rightarrow> double \<Rightarrow> double \<Rightarrow> string list \<Rightarrow>
    string \<Rightarrow> bool \<Rightarrow> option_spec" where
  "spec n t d lo hi ch pl cs = \<lparr>spec_name = n, spec_type = t, spec_default = d, spec_min = lo,
     spec_max = hi, spec_choices = ch, spec_planned = pl, spec_case_sensitive = cs\<rparr>"

definition implemented :: "option_spec \<Rightarrow> bool" where
  "implemented s \<longleftrightarrow> spec_planned s = []"

definition kNoLimit :: double where
  "kNoLimit = dbl_max"

section \<open>The registry\<close>

definition registry_simplex :: "option_spec list" where
  "registry_simplex = [
    spec ''time_limit'' OT_Double (VDouble kNoLimit) 0 kNoLimit [] [] False,
    spec ''refactor_work_ratio'' OT_Double (VDouble (lit 128)) 0 kNoLimit [] [] False,
    spec ''iteration_limit'' OT_Int (VInt (- 1)) (lit (- 1)) kNoLimit [] [] False,
    spec ''node_limit'' OT_Int (VInt (- 1)) (lit (- 1)) kNoLimit [] [] False,
    spec ''algorithm'' OT_String (VString ''auto'') 0 0 [''auto'', ''simplex'', ''dual-simplex'', ''pdhg'', ''ipm''] [] False,
    spec ''mip_branching'' OT_String (VString ''reliability'') 0 0 [''reliability'', ''most-fractional''] [] False,
    spec ''mip_node_selection'' OT_String (VString ''hybrid'') 0 0 [''hybrid'', ''best-bound'', ''depth-first'', ''best-estimate''] [] False,
    spec ''mip_objective_integrality'' OT_Bool (VBool True) 0 0 [] [] False,
    spec ''mip_node_engine'' OT_String (VString ''dual'') 0 0 [''dual'', ''primal''] [] False,
    spec ''pricing'' OT_String (VString ''devex'') 0 0 [''devex'', ''dantzig''] [] False,
    spec ''basis_update'' OT_String (VString ''product-form'') 0 0 [''product-form'', ''forrest-tomlin''] [] False,
    spec ''ratio_test'' OT_String (VString ''textbook'') 0 0 [''harris'', ''textbook''] [] False,
    spec ''mps_format'' OT_String (VString ''auto'') 0 0 [''auto'', ''free'', ''fixed''] [] False]"

definition registry_tree :: "option_spec list" where
  "registry_tree = [
    spec ''scaling'' OT_Bool (VBool True) 0 0 [] [] False,
    spec ''presolve'' OT_Bool (VBool True) 0 0 [] [] False,
    spec ''tree_cut_depth'' OT_Int (VInt 0) 0 (lit 1000) [] [] False,
    spec ''tree_cut_rows_per_round'' OT_Int (VInt 20) (lit 1) (lit 100000) [] [] False,
    spec ''mip_heuristics'' OT_Bool (VBool False) 0 0 [] [] False,
    spec ''mip_rins_frequency'' OT_Int (VInt 100) 0 kNoLimit [] [] False,
    spec ''mip_rins_nodes'' OT_Int (VInt 200) (lit 1) kNoLimit [] [] False,
    spec ''mip_pump_rounds'' OT_Int (VInt 20) 0 kNoLimit [] [] False,
    spec ''checkpoint'' OT_String (VString []) 0 0 [] [] True,
    spec ''checkpoint_nodes'' OT_Int (VInt 0) 0 kNoLimit [] [] False,
    spec ''resume'' OT_String (VString []) 0 0 [] [] True,
    spec ''nlp_tolerance'' OT_Double (VDouble (lit (1 / 10 ^ 6))) (lit (1 / 10 ^ 12)) (lit (1 / 10 ^ 2)) [] [] False,
    spec ''nlp_assume_convex'' OT_Bool (VBool False) 0 0 [] [] False,
    spec ''enable_clique_cuts'' OT_Bool (VBool True) 0 0 [] [] False,
    spec ''enable_zero_half_cuts'' OT_Bool (VBool True) 0 0 [] [] False]"

definition registry_cuts :: "option_spec list" where
  "registry_cuts = [
    spec ''enable_mir_cuts'' OT_Bool (VBool True) 0 0 [] [] False,
    spec ''enable_root_cuts'' OT_Bool (VBool False) 0 0 [] [] False,
    spec ''gpu'' OT_Bool (VBool False) 0 0 [] [] False,
    spec ''gpu_devices'' OT_String (VString ''auto'') 0 0 [] [] False,
    spec ''ranging'' OT_Bool (VBool False) 0 0 [] [] False,
    spec ''threads'' OT_Int (VInt 1) 0 (lit 1024) [] [] False,
    spec ''deterministic'' OT_Bool (VBool False) 0 0 [] [] False,
    spec ''random_seed'' OT_Int (VInt 0) 0 kNoLimit [] [] False,
    spec ''primal_feasibility_tolerance'' OT_Double (VDouble kPrimalFeasibility) (lit (1 / 10 ^ 12)) (lit (1 / 10 ^ 3)) [] [] False,
    spec ''scaled_share'' OT_Double (VDouble (lit (5 / 10))) (lit (5 / 10 ^ 2)) (lit 1) [] [] False,
    spec ''crossover'' OT_Bool (VBool True) 0 0 [] [] False,
    spec ''dual_feasibility_tolerance'' OT_Double (VDouble kDualFeasibility) (lit (1 / 10 ^ 12)) (lit (1 / 10 ^ 3)) [] [] False,
    spec ''integrality_tolerance'' OT_Double (VDouble kIntegrality) (lit (1 / 10 ^ 12)) (lit (1 / 10 ^ 3)) [] [] False]"

definition registry_pool :: "option_spec list" where
  "registry_pool = [
    spec ''mip_relative_gap'' OT_Double (VDouble kMipRelativeGap) 0 (lit 1) [] [] False,
    spec ''mip_absolute_gap'' OT_Double (VDouble kMipAbsoluteGap) 0 kNoLimit [] [] False,
    spec ''pool_size'' OT_Int (VInt 10) 0 (lit 1000000) [] [] False,
    spec ''pool_gap'' OT_Double (VDouble kNoLimit) 0 kNoLimit [] [] False,
    spec ''conflict_analysis'' OT_Bool (VBool False) 0 0 [] [] False,
    spec ''conflict_minimize'' OT_Bool (VBool True) 0 0 [] [] False,
    spec ''conflict_use'' OT_String (VString ''propagate'') 0 0 [''propagate'', ''prune'', ''none''] [] False,
    spec ''conflict_max'' OT_Int (VInt 10000) (lit 1) (lit 10000000) [] [] False,
    spec ''conflict_max_size'' OT_Int (VInt 32) (lit 1) (lit 1000000) [] [] False,
    spec ''mip_threads'' OT_Int (VInt 1) 0 (lit 256) [] [] False,
    spec ''pool_diversity'' OT_Bool (VBool False) 0 0 [] [] False,
    spec ''pool_complete'' OT_Bool (VBool False) 0 0 [] [] False,
    spec ''pool_write_all_columns'' OT_Bool (VBool False) 0 0 [] [] False,
    spec ''pdhg_restart'' OT_Bool (VBool True) 0 0 [] [] False]"

definition registry_first_order :: "option_spec list" where
  "registry_first_order = [
    spec ''qp_tolerance'' OT_Double (VDouble (lit (1 / 10 ^ 8))) (lit (1 / 10 ^ 14)) (lit (1 / 10)) [] [] False,
    spec ''pdhg_polish'' OT_Bool (VBool True) 0 0 [] [] False,
    spec ''polish_iteration_limit'' OT_Int (VInt 50) (lit 1) kNoLimit [] [] False,
    spec ''polish_start_margin'' OT_Double (VDouble (lit (1 / 10))) (lit (1 / 10 ^ 8)) (lit 1) [] [] False,
    spec ''polish_max_seconds'' OT_Double (VDouble (lit 30)) (lit (1 / 10)) kNoLimit [] [] False,
    spec ''polish_max_factor_nonzeros'' OT_Int (VInt 50000000) (lit (- 1)) kNoLimit [] [] False,
    spec ''ipm_setup_share'' OT_Double (VDouble (lit (2 / 10))) 0 (lit 1) [] [] False,
    spec ''ipm_max_ordering_entries'' OT_Int (VInt 100000000) (lit (- 1)) kNoLimit [] [] False,
    spec ''ipm_max_factor_nonzeros'' OT_Int (VInt 100000000) (lit (- 1)) kNoLimit [] [] False,
    spec ''pdhg_tolerance'' OT_Double (VDouble kPdhgLoose) (lit (1 / 10 ^ 14)) (lit (1 / 10)) [] [] False,
    spec ''pdhg_stop_at_request'' OT_Bool (VBool False) 0 0 [] [] False]"

definition registry_output :: "option_spec list" where
  "registry_output = [
    spec ''log_level'' OT_String (VString ''info'') 0 0 [''off'', ''error'', ''warning'', ''info'', ''verbose'', ''debug''] [] False,
    spec ''log_to_console'' OT_Bool (VBool True) 0 0 [] [] False,
    spec ''numerics_report'' OT_Bool (VBool False) 0 0 [] ''Phase 9'' False,
    spec ''profile'' OT_String (VString ''off'') 0 0 [''off'', ''basic'', ''detailed''] [] False,
    spec ''profile_out'' OT_String (VString []) 0 0 [] [] True,
    spec ''conflict_out'' OT_String (VString []) 0 0 [] [] True,
    spec ''progress_out'' OT_String (VString []) 0 0 [] [] True,
    spec ''compute_iis'' OT_Bool (VBool True) 0 0 [] [] False,
    spec ''write_presolved'' OT_String (VString []) 0 0 [] [] True]"


definition registry :: "option_spec list" where
  "registry = registry_simplex @ registry_tree @ registry_cuts @ registry_pool @
     registry_first_order @ registry_output"

section \<open>Option sets\<close>

type_synonym options = "option_value list"

datatype option_error =
    UnknownOption string
  | ExpectsBoolean string string
  | ExpectsInteger string string
  | IntOutOfRange string double double int
  | ExpectsNumber string string
  | DoubleOutOfRange string double double double
  | NotAChoice string "string list" string

text \<open>\<open>name_index()\<close>: the first row with the name, since \<open>emplace\<close> keeps the first.\<close>

definition name_index :: "string \<Rightarrow> nat option" where
  "name_index n = find_index (\<lambda>s. spec_name s = n) registry"

definition default_options :: options where
  "default_options = map spec_default registry"

definition find_spec :: "string \<Rightarrow> option_spec option" where
  "find_spec n = map_option (\<lambda>i. registry ! i) (name_index n)"

definition option_exists :: "string \<Rightarrow> bool" where
  "option_exists n \<longleftrightarrow> find_spec n \<noteq> None"

definition value_of :: "options \<Rightarrow> string \<Rightarrow> option_value option" where
  "value_of opts n = map_option (\<lambda>i. opts ! i) (name_index n)"

text \<open>Assignment through \<open>mutable_value_of\<close>; an unknown name aborts.\<close>

definition assign :: "options \<Rightarrow> string \<Rightarrow> option_value \<Rightarrow> options option" where
  "assign opts n v = map_option (\<lambda>i. opts[i := v]) (name_index n)"

section \<open>Assignment from text\<close>

definition parse_bool_value :: "string \<Rightarrow> bool option" where
  "parse_bool_value v =
     (if v = ''1'' \<or> v = ''true'' \<or> v = ''on'' \<or> v = ''yes'' then Some True
      else if v = ''0'' \<or> v = ''false'' \<or> v = ''off'' \<or> v = ''no'' then Some False
      else None)"

text \<open>The \<open>switch\<close> of \<open>set_from_string\<close>: the value the text denotes for this row, or the error.\<close>

definition parse_option :: "option_spec \<Rightarrow> string \<Rightarrow> string \<Rightarrow> string \<Rightarrow> option_error + option_value" where
  "parse_option sp name raw_text text =
     (case spec_type sp of
        OT_Bool \<Rightarrow>
          (case parse_bool_value (to_lower text) of
             Some b \<Rightarrow> Inr (VBool b)
           | None \<Rightarrow> Inl (ExpectsBoolean name raw_text))
      | OT_Int \<Rightarrow>
          (case strtoll (c_str text) of (parsed, rest, erange) \<Rightarrow>
             if rest = c_str text \<or> rest \<noteq> [] \<or> erange then Inl (ExpectsInteger name raw_text)
             else
               let v = rnd (of_int parsed) in
               if v < spec_min sp \<or> spec_max sp < v
               then Inl (IntOutOfRange name (spec_min sp) (spec_max sp) parsed)
               else Inr (VInt parsed))
      | OT_Double \<Rightarrow>
          (case strtod (c_str text) of (parsed, rest, erange) \<Rightarrow>
             if rest = c_str text \<or> rest \<noteq> [] \<or> erange then Inl (ExpectsNumber name raw_text)
             else if parsed < spec_min sp \<or> spec_max sp < parsed
             then Inl (DoubleOutOfRange name (spec_min sp) (spec_max sp) parsed)
             else Inr (VDouble parsed))
      | OT_String \<Rightarrow>
          (let v = (if spec_case_sensitive sp then text else to_lower text) in
           if spec_choices sp \<noteq> [] \<and> v \<notin> set (spec_choices sp)
           then Inl (NotAChoice name (spec_choices sp) raw_text)
           else Inr (VString v)))"

definition set_from_string :: "string \<Rightarrow> string \<Rightarrow> options \<Rightarrow> options \<times> option_error option" where
  "set_from_string raw_name raw_text opts =
     (let name = to_lower (trim raw_name); text = trim raw_text in
      case name_index name of
        None \<Rightarrow> (opts, Some (UnknownOption raw_name))
      | Some i \<Rightarrow>
          (case parse_option (registry ! i) name raw_text text of
             Inl e \<Rightarrow> (opts, Some e)
           | Inr v \<Rightarrow> (opts[i := v], None)))"

section \<open>Typed accessors\<close>

text \<open>
  The getters end in \<open>std::get\<close>, which throws when the option holds another type; with the
  abort on an unknown name both are the value \<open>None\<close>. The setters check the type with \<open>assert\<close>
  only: \<open>ndebug\<close> says whether assertions are compiled out.
\<close>

definition get_bool :: "options \<Rightarrow> string \<Rightarrow> bool option" where
  "get_bool opts n = Option.bind (value_of opts n) (\<lambda>v. case v of VBool b \<Rightarrow> Some b | _ \<Rightarrow> None)"

definition get_int :: "options \<Rightarrow> string \<Rightarrow> int option" where
  "get_int opts n = Option.bind (value_of opts n) (\<lambda>v. case v of VInt i \<Rightarrow> Some i | _ \<Rightarrow> None)"

definition get_double :: "options \<Rightarrow> string \<Rightarrow> double option" where
  "get_double opts n = Option.bind (value_of opts n) (\<lambda>v. case v of VDouble d \<Rightarrow> Some d | _ \<Rightarrow> None)"

definition get_string :: "options \<Rightarrow> string \<Rightarrow> string option" where
  "get_string opts n = Option.bind (value_of opts n) (\<lambda>v. case v of VString s \<Rightarrow> Some s | _ \<Rightarrow> None)"

fun type_of :: "option_value \<Rightarrow> option_type" where
  "type_of (VBool _) = OT_Bool"
| "type_of (VInt _) = OT_Int"
| "type_of (VDouble _) = OT_Double"
| "type_of (VString _) = OT_String"

definition set_typed :: "bool \<Rightarrow> options \<Rightarrow> string \<Rightarrow> option_value \<Rightarrow> options option" where
  "set_typed ndebug opts n v = Option.bind (value_of opts n)
     (\<lambda>old. if ndebug \<or> type_of old = type_of v then assign opts n v else None)"

definition set_bool :: "bool \<Rightarrow> options \<Rightarrow> string \<Rightarrow> bool \<Rightarrow> options option" where
  "set_bool ndebug opts n b = set_typed ndebug opts n (VBool b)"

definition set_int :: "bool \<Rightarrow> options \<Rightarrow> string \<Rightarrow> int \<Rightarrow> options option" where
  "set_int ndebug opts n i = set_typed ndebug opts n (VInt i)"

definition set_double :: "bool \<Rightarrow> options \<Rightarrow> string \<Rightarrow> double \<Rightarrow> options option" where
  "set_double ndebug opts n d = set_typed ndebug opts n (VDouble d)"

definition set_string :: "bool \<Rightarrow> options \<Rightarrow> string \<Rightarrow> string \<Rightarrow> options option" where
  "set_string ndebug opts n s =
     set_typed ndebug opts n
       (VString (case find_spec n of
          Some sp \<Rightarrow> if spec_case_sensitive sp then s else to_lower s
        | None \<Rightarrow> to_lower s))"

text \<open>\<open>std::variant\<close> compares the alternative, then the values with their own \<open>==\<close>.\<close>

fun value_eq :: "option_value \<Rightarrow> option_value \<Rightarrow> bool" where
  "value_eq (VDouble a) (VDouble b) \<longleftrightarrow> feq a b"
| "value_eq a b \<longleftrightarrow> a = b"

definition is_modified :: "options \<Rightarrow> string \<Rightarrow> bool option" where
  "is_modified opts n = map_option (\<lambda>i. \<not> value_eq (opts ! i) (spec_default (registry ! i))) (name_index n)"

definition modified_names :: "options \<Rightarrow> string list" where
  "modified_names opts =
     map (\<lambda>i. spec_name (registry ! i))
       (filter (\<lambda>i. \<not> value_eq (opts ! i) (spec_default (registry ! i))) [0..<length registry])"

text \<open>
  Rendering. How the formatting library prints an integer with \<open>{}\<close> and a double with \<open>{:g}\<close> is
  a parameter.
\<close>

definition value_as_string :: "(int \<Rightarrow> string) \<Rightarrow> (double \<Rightarrow> string) \<Rightarrow> options \<Rightarrow> string \<Rightarrow> string option" where
  "value_as_string fmt_int fmt_g opts n =
     map_option (\<lambda>v. case v of
         VBool b \<Rightarrow> if b then ''true'' else ''false''
       | VString s \<Rightarrow> s
       | VDouble d \<Rightarrow> if kNoLimit \<le> d then ''inf'' else fmt_g d
       | VInt i \<Rightarrow> fmt_int i) (value_of opts n)"

section \<open>The registry is sound\<close>

lemmas registry_groups = registry_simplex_def registry_tree_def registry_cuts_def
  registry_pool_def registry_first_order_def registry_output_def

lemma spec_simps [simp]:
  "spec_name (spec n t d lo hi ch pl cs) = n" "spec_type (spec n t d lo hi ch pl cs) = t"
  "spec_default (spec n t d lo hi ch pl cs) = d" "spec_min (spec n t d lo hi ch pl cs) = lo"
  "spec_max (spec n t d lo hi ch pl cs) = hi" "spec_choices (spec n t d lo hi ch pl cs) = ch"
  "spec_planned (spec n t d lo hi ch pl cs) = pl"
  "spec_case_sensitive (spec n t d lo hi ch pl cs) = cs"
  by (simp_all add: spec_def)

text \<open>What \<open>set_from_string\<close> admits for a row: the type of the row, not outside its range, one of
  its choices.\<close>

fun admissible :: "option_spec \<Rightarrow> option_value \<Rightarrow> bool" where
  "admissible sp (VBool b) \<longleftrightarrow> spec_type sp = OT_Bool"
| "admissible sp (VInt i) \<longleftrightarrow> spec_type sp = OT_Int \<and>
     \<not> rnd (of_int i) < spec_min sp \<and> \<not> spec_max sp < rnd (of_int i)"
| "admissible sp (VDouble d) \<longleftrightarrow> spec_type sp = OT_Double \<and> \<not> d < spec_min sp \<and> \<not> spec_max sp < d"
| "admissible sp (VString s) \<longleftrightarrow> spec_type sp = OT_String \<and>
     (spec_choices sp = [] \<or> s \<in> set (spec_choices sp))"

lemma rnd_lit: "rnd q = lit q"
  by (simp add: lit_def)

lemma admissible_spec:
  "admissible (spec n OT_Bool (VBool b) lo hi ch pl cs) (VBool b)"
  "p \<le> of_int i \<Longrightarrow> \<not> hi < lit (of_int i) \<Longrightarrow>
     admissible (spec n OT_Int (VInt i) (lit p) hi ch pl cs) (VInt i)"
  "0 \<le> i \<Longrightarrow> \<not> hi < lit (of_int i) \<Longrightarrow> admissible (spec n OT_Int (VInt i) 0 hi ch pl cs) (VInt i)"
  "p \<le> q \<Longrightarrow> \<not> hi < lit q \<Longrightarrow> admissible (spec n OT_Double (VDouble (lit q)) (lit p) hi ch pl cs) (VDouble (lit q))"
  "0 \<le> q \<Longrightarrow> \<not> hi < lit q \<Longrightarrow> admissible (spec n OT_Double (VDouble (lit q)) 0 hi ch pl cs) (VDouble (lit q))"
  "admissible (spec n OT_Double (VDouble dbl_max) 0 dbl_max ch pl cs) (VDouble dbl_max)"
  "ch = [] \<or> s \<in> set ch \<Longrightarrow> admissible (spec n OT_String (VString s) lo hi ch pl cs) (VString s)"
  using lit_mono by (simp_all add: rnd_lit)

lemma group_defaults:
  "list_all (\<lambda>sp. admissible sp (spec_default sp)) registry_simplex"
  "list_all (\<lambda>sp. admissible sp (spec_default sp)) registry_tree"
  "list_all (\<lambda>sp. admissible sp (spec_default sp)) registry_cuts"
  "list_all (\<lambda>sp. admissible sp (spec_default sp)) registry_pool"
  "list_all (\<lambda>sp. admissible sp (spec_default sp)) registry_first_order"
  "list_all (\<lambda>sp. admissible sp (spec_default sp)) registry_output"
  unfolding registry_groups tolerance_defs kNoLimit_def list.pred_inject spec_simps simp_thms
  by (intro conjI admissible_spec; simp add: lit_mono)+

lemma defaults_admissible: "sp \<in> set registry \<Longrightarrow> admissible sp (spec_default sp)"
  using group_defaults by (auto simp: registry_def list_all_iff)

definition option_names :: "string list" where
  "option_names = [
     ''time_limit'', ''refactor_work_ratio'', ''iteration_limit'', ''node_limit'', ''algorithm'',
     ''mip_branching'', ''mip_node_selection'', ''mip_objective_integrality'', ''mip_node_engine'',
     ''pricing'', ''basis_update'', ''ratio_test'', ''mps_format'', ''scaling'', ''presolve'',
     ''tree_cut_depth'', ''tree_cut_rows_per_round'', ''mip_heuristics'', ''mip_rins_frequency'',
     ''mip_rins_nodes'', ''mip_pump_rounds'', ''checkpoint'', ''checkpoint_nodes'', ''resume'',
     ''nlp_tolerance'', ''nlp_assume_convex'', ''enable_clique_cuts'', ''enable_zero_half_cuts'',
     ''enable_mir_cuts'', ''enable_root_cuts'', ''gpu'', ''gpu_devices'', ''ranging'', ''threads'',
     ''deterministic'', ''random_seed'', ''primal_feasibility_tolerance'', ''scaled_share'',
     ''crossover'', ''dual_feasibility_tolerance'', ''integrality_tolerance'', ''mip_relative_gap'',
     ''mip_absolute_gap'', ''pool_size'', ''pool_gap'', ''conflict_analysis'',
     ''conflict_minimize'', ''conflict_use'', ''conflict_max'', ''conflict_max_size'',
     ''mip_threads'', ''pool_diversity'', ''pool_complete'', ''pool_write_all_columns'',
     ''pdhg_restart'', ''qp_tolerance'', ''pdhg_polish'', ''polish_iteration_limit'',
     ''polish_start_margin'', ''polish_max_seconds'', ''polish_max_factor_nonzeros'',
     ''ipm_setup_share'', ''ipm_max_ordering_entries'', ''ipm_max_factor_nonzeros'',
     ''pdhg_tolerance'', ''pdhg_stop_at_request'', ''log_level'', ''log_to_console'',
     ''numerics_report'', ''profile'', ''profile_out'', ''conflict_out'', ''progress_out'',
     ''compute_iis'', ''write_presolved'']"

lemma registry_names: "map spec_name registry = option_names"
  by (simp add: registry_def registry_groups option_names_def)

lemma option_names_distinct: "distinct option_names"
  by code_simp

text \<open>Names are written in lower-case letters and underscores, so trimming and lowering keep them.\<close>

definition plain_char :: "char \<Rightarrow> bool" where
  "plain_char c \<longleftrightarrow> c \<in> set ''abcdefghijklmnopqrstuvwxyz-_''"

lemma plain_char: "plain_char c \<Longrightarrow> \<not> isspace c \<and> tolower c = c \<and> c \<noteq> CHR 0x00"
proof -
  have "list_all (\<lambda>c. \<not> isspace c \<and> tolower c = c \<and> c \<noteq> CHR 0x00) ''abcdefghijklmnopqrstuvwxyz-_''"
    by code_simp
  then show "plain_char c \<Longrightarrow> \<not> isspace c \<and> tolower c = c \<and> c \<noteq> CHR 0x00"
    unfolding plain_char_def list_all_iff by blast
qed

lemma option_names_plain: "list_all (list_all plain_char) option_names"
  by (simp add: option_names_def plain_char_def)

lemma length_registry: "length registry = 75"
  using arg_cong[OF registry_names, of length] by (simp add: option_names_def)

section \<open>The positional store\<close>

text \<open>
  What a client of a store of named values relies on. The clients are the typed accessors and,
  through them, everything that reads or rewrites options.
\<close>

locale named_store =
  fixes ok :: "'o \<Rightarrow> bool" and known :: "'k \<Rightarrow> bool"
    and look :: "'o \<Rightarrow> 'k \<Rightarrow> 'v option" and put :: "'o \<Rightarrow> 'k \<Rightarrow> 'v \<Rightarrow> 'o option"
  assumes look_known: "ok s \<Longrightarrow> look s k \<noteq> None \<longleftrightarrow> known k"
    and put_known: "ok s \<Longrightarrow> put s k v \<noteq> None \<longleftrightarrow> known k"
    and put_ok: "ok s \<Longrightarrow> put s k v = Some s' \<Longrightarrow> ok s'"
    and look_put: "ok s \<Longrightarrow> put s k v = Some s' \<Longrightarrow> look s' k = Some v"
    and look_other: "ok s \<Longrightarrow> put s k v = Some s' \<Longrightarrow> k' \<noteq> k \<Longrightarrow> look s' k' = look s k'"
begin

lemma put_update: "ok s \<Longrightarrow> put s k v = Some s' \<Longrightarrow> look s' = (look s)(k \<mapsto> v)"
  by (rule ext) (simp add: look_put look_other)

lemma put_total: "ok s \<Longrightarrow> known k \<Longrightarrow> \<exists>s'. put s k v = Some s' \<and> ok s' \<and> look s' = (look s)(k \<mapsto> v)"
  using put_known[of s k v] put_ok put_update by blast

lemma put_put:
  "ok s \<Longrightarrow> put s k v = Some s1 \<Longrightarrow> put s1 k w = Some s2 \<Longrightarrow> look s2 = (look s)(k \<mapsto> w)"
  using put_update[of s k v s1] put_update[of s1 k w s2] put_ok[of s k v s1] by simp

lemma put_commute:
  assumes "ok s" "k \<noteq> k'" "put s k v = Some s1" "put s1 k' w = Some s2"
    "put s k' w = Some t1" "put t1 k v = Some t2"
  shows "look s2 = look t2"
proof -
  have "look s2 = (look s)(k \<mapsto> v, k' \<mapsto> w)" "look t2 = (look s)(k' \<mapsto> w, k \<mapsto> v)"
    using assms put_update put_ok by metis+
  with \<open>k \<noteq> k'\<close> show ?thesis by (simp add: fun_upd_twist)
qed

end

definition shape_ok :: "options \<Rightarrow> bool" where
  "shape_ok opts \<longleftrightarrow> length opts = length registry"

lemma name_index_Some:
  "name_index n = Some i \<Longrightarrow> i < length registry \<and> spec_name (registry ! i) = n"
  unfolding name_index_def by (drule find_index_Some) simp

lemma name_index_nth: "i < length registry \<Longrightarrow> name_index (spec_name (registry ! i)) = Some i"
proof -
  assume i: "i < length registry"
  then obtain j where j: "name_index (spec_name (registry ! i)) = Some j"
    by (cases "name_index (spec_name (registry ! i))") (auto simp: name_index_def)
  have "map spec_name registry ! i = map spec_name registry ! j"
    using i name_index_Some[OF j] by simp
  then have "i = j"
    using i name_index_Some[OF j] option_names_distinct registry_names
    by (metis length_map nth_eq_iff_index_eq)
  with j show ?thesis by simp
qed

lemma name_index_inj: "name_index n = Some i \<Longrightarrow> name_index m = Some i \<Longrightarrow> n = m"
  using name_index_Some by metis

interpretation opt: named_store shape_ok option_exists value_of assign
proof
  show "\<And>s k. shape_ok s \<Longrightarrow> value_of s k \<noteq> None \<longleftrightarrow> option_exists k"
    by (simp add: value_of_def option_exists_def find_spec_def)
  show "\<And>s k v. shape_ok s \<Longrightarrow> assign s k v \<noteq> None \<longleftrightarrow> option_exists k"
    by (simp add: assign_def option_exists_def find_spec_def)
  show "\<And>s k v s'. shape_ok s \<Longrightarrow> assign s k v = Some s' \<Longrightarrow> shape_ok s'"
    by (auto simp: assign_def shape_ok_def)
  show "\<And>s k v s'. shape_ok s \<Longrightarrow> assign s k v = Some s' \<Longrightarrow> value_of s' k = Some v"
    using name_index_Some by (fastforce simp: assign_def value_of_def shape_ok_def)
  show "\<And>s k v s' k'. shape_ok s \<Longrightarrow> assign s k v = Some s' \<Longrightarrow> k' \<noteq> k \<Longrightarrow> value_of s' k' = value_of s k'"
    by (auto simp: assign_def value_of_def shape_ok_def map_option_case split: option.splits)
       (metis name_index_inj nth_list_update_neq)
qed

section \<open>Invariants\<close>

definition typed_ok :: "options \<Rightarrow> bool" where
  "typed_ok opts \<longleftrightarrow> list_all2 (\<lambda>sp v. type_of v = spec_type sp) registry opts"

definition options_ok :: "options \<Rightarrow> bool" where
  "options_ok opts \<longleftrightarrow> list_all2 admissible registry opts"

lemma admissible_type: "admissible sp v \<Longrightarrow> type_of v = spec_type sp"
  by (cases v) auto

lemma options_ok_typed: "options_ok o1 \<Longrightarrow> typed_ok o1"
  by (auto simp: options_ok_def typed_ok_def admissible_type elim!: list_all2_mono)

lemma typed_ok_shape: "typed_ok o1 \<Longrightarrow> shape_ok o1"
  by (auto simp: typed_ok_def shape_ok_def dest: list_all2_lengthD)

lemma defaults_ok: "options_ok default_options"
  unfolding options_ok_def default_options_def list_all2_conv_all_nth
  by (simp add: defaults_admissible)

lemma typed_ok_update:
  "typed_ok opts \<Longrightarrow> i < length registry \<Longrightarrow> type_of v = spec_type (registry ! i) \<Longrightarrow> typed_ok (opts[i := v])"
  by (auto simp: typed_ok_def list_all2_conv_all_nth nth_list_update)

lemma options_ok_update:
  "options_ok opts \<Longrightarrow> i < length registry \<Longrightarrow> admissible (registry ! i) v \<Longrightarrow> options_ok (opts[i := v])"
  by (auto simp: options_ok_def list_all2_conv_all_nth nth_list_update)

lemma typed_value:
  "typed_ok opts \<Longrightarrow> find_spec n = Some sp \<Longrightarrow> \<exists>v. value_of opts n = Some v \<and> type_of v = spec_type sp"
  by (auto simp: typed_ok_def find_spec_def value_of_def list_all2_conv_all_nth dest: name_index_Some)

text \<open>The typed setters never fail, and never break the types, on a registered name of their type.\<close>

lemma set_typed_update:
  assumes "typed_ok opts" "find_spec n = Some sp" "type_of v = spec_type sp"
  shows "\<exists>opts'. set_typed nd opts n v = Some opts' \<and> typed_ok opts' \<and>
    value_of opts' = (value_of opts)(n \<mapsto> v)"
proof -
  from assms(2) obtain i where i: "name_index n = Some i" "sp = registry ! i"
    by (auto simp: find_spec_def)
  have known: "option_exists n" using assms(2) by (simp add: option_exists_def)
  from opt.put_total[OF typed_ok_shape[OF assms(1)] known] obtain opts' where
    p: "assign opts n v = Some opts'" "value_of opts' = (value_of opts)(n \<mapsto> v)" by blast
  have "typed_ok opts'"
    using p(1) i assms(1,3) name_index_Some[OF i(1)] by (auto simp: assign_def intro: typed_ok_update)
  then show ?thesis
    using p typed_value[OF assms(1,2)] assms(3) by (auto simp: set_typed_def)
qed

lemma get_of_value:
  "value_of opts n = Some (VBool b) \<Longrightarrow> get_bool opts n = Some b"
  "value_of opts n = Some (VInt i) \<Longrightarrow> get_int opts n = Some i"
  "value_of opts n = Some (VDouble d) \<Longrightarrow> get_double opts n = Some d"
  "value_of opts n = Some (VString s) \<Longrightarrow> get_string opts n = Some s"
  by (simp_all add: get_bool_def get_int_def get_double_def get_string_def)

lemma type_of_cases:
  "type_of v = OT_Bool \<Longrightarrow> \<exists>b. v = VBool b" "type_of v = OT_Int \<Longrightarrow> \<exists>i. v = VInt i"
  "type_of v = OT_Double \<Longrightarrow> \<exists>d. v = VDouble d" "type_of v = OT_String \<Longrightarrow> \<exists>s. v = VString s"
  by (cases v; simp)+

section \<open>Assignment from text\<close>

lemma parse_option_admissible: "parse_option sp name raw text = Inr v \<Longrightarrow> admissible sp v"
  by (cases "spec_type sp")
     (auto simp: parse_option_def Let_def split: option.splits if_splits prod.splits)

lemma set_from_string_effect:
  assumes ok: "options_ok opts" and s: "set_from_string raw_name raw_text opts = (opts', err)"
  shows "options_ok opts' \<and>
    (case err of
       Some e \<Rightarrow> opts' = opts
     | None \<Rightarrow> \<exists>sp v. find_spec (to_lower (trim raw_name)) = Some sp \<and> admissible sp v \<and>
         value_of opts' = (value_of opts)(to_lower (trim raw_name) \<mapsto> v))"
proof (cases "name_index (to_lower (trim raw_name))")
  case None
  with ok s show ?thesis by (auto simp: set_from_string_def Let_def)
next
  case (Some i)
  let ?n = "to_lower (trim raw_name)"
  show ?thesis
  proof (cases "parse_option (registry ! i) ?n raw_text (trim raw_text)")
    case (Inl e)
    with Some ok s show ?thesis by (auto simp: set_from_string_def Let_def)
  next
    case (Inr v)
    with Some s have r: "opts' = opts[i := v]" "err = None" by (auto simp: set_from_string_def Let_def)
    have "assign opts ?n v = Some opts'" using Some r by (simp add: assign_def)
    then have "value_of opts' = (value_of opts)(?n \<mapsto> v)"
      using opt.put_update typed_ok_shape options_ok_typed ok by blast
    moreover have "find_spec ?n = Some (registry ! i)" using Some by (simp add: find_spec_def)
    moreover have "admissible (registry ! i) v" by (rule parse_option_admissible[OF Inr])
    ultimately show ?thesis
      using r ok name_index_Some[OF Some] by (auto intro: options_ok_update)
  qed
qed

lemma set_from_string_ok: "options_ok opts \<Longrightarrow> set_from_string n t opts = (opts', err) \<Longrightarrow> options_ok opts'"
  using set_from_string_effect by blast

text \<open>
  C34. Assigning from text is all or nothing. An error leaves the option set exactly as it was;
  a success changes the one option named, ignoring blanks around the name and its case, to a value
  of the registered type that is not outside the registered range and is among the registered
  choices. Either way an admissible option set stays admissible.
\<close>

theorem set_from_string_sound:
  assumes ok: "options_ok opts" and s: "set_from_string raw_name raw_text opts = (opts', err)"
  shows "options_ok opts' \<and>
    (case err of
       Some e \<Rightarrow> opts' = opts
     | None \<Rightarrow> \<exists>sp v. find_spec (to_lower (trim raw_name)) = Some sp \<and> admissible sp v \<and>
         value_of opts' = (value_of opts)(to_lower (trim raw_name) \<mapsto> v))"
  by (rule set_from_string_effect[OF assms])

section \<open>Names and choices\<close>

lemma plain_trim_lower: "list_all plain_char n \<Longrightarrow> to_lower (trim n) = n \<and> trim n = n \<and> to_lower n = n"
proof -
  assume "list_all plain_char n"
  then have p: "\<forall>c \<in> set n. \<not> isspace c \<and> tolower c = c"
    using plain_char by (auto simp: list_all_iff)
  have "trim n = n" using p last_in_set[of n] hd_in_set[of n] by (intro trim_id) blast
  then show ?thesis using p by (simp add: to_lower_def map_idI)
qed

lemma registered_name_plain: "i < length registry \<Longrightarrow> list_all plain_char (spec_name (registry ! i))"
  using option_names_plain registry_names by (metis length_map list_all_length nth_map)

lemma registered_name: "find_spec n = Some sp \<Longrightarrow> to_lower (trim n) = n"
  using registered_name_plain plain_trim_lower name_index_Some
  by (fastforce simp: find_spec_def)

definition choice_names :: "string list" where
  "choice_names = [
     ''auto'', ''simplex'', ''dual-simplex'', ''pdhg'', ''ipm'', ''reliability'',
     ''most-fractional'', ''hybrid'', ''best-bound'', ''depth-first'', ''best-estimate'', ''dual'',
     ''primal'', ''devex'', ''dantzig'', ''product-form'', ''forrest-tomlin'', ''harris'',
     ''textbook'', ''auto'', ''free'', ''fixed'', ''propagate'', ''prune'', ''none'', ''off'',
     ''error'', ''warning'', ''info'', ''verbose'', ''debug'', ''off'', ''basic'', ''detailed'']"

lemma choices_plain:
  assumes "sp \<in> set registry"
  shows "list_all (list_all plain_char) (spec_choices sp)"
proof -
  have e: "concat (map spec_choices registry) = choice_names"
    by (simp add: registry_def registry_groups choice_names_def)
  have p: "list_all (list_all plain_char) choice_names"
    by (simp add: choice_names_def plain_char_def)
  show ?thesis using assms p unfolding e[symmetric] by (auto simp: list_all_iff)
qed

lemma find_spec_registry: "find_spec n = Some sp \<Longrightarrow> sp \<in> set registry"
  by (auto simp: find_spec_def dest: name_index_Some)

lemma show_int_plain: "trim (show_int i) = show_int i" "c_str (show_int i) = show_int i" "show_int i \<noteq> []"
proof -
  have d: "\<not> isspace c \<and> c \<noteq> CHR 0x00" if "c \<in> set (show_nat k)" for c k
    using show_nat_digits[of k] that isdigit_not by blast
  have s: "\<forall>c \<in> set (show_int i). \<not> isspace c \<and> c \<noteq> CHR 0x00"
    using d[of _ "nat (- i)"] d[of _ "nat i"] by (auto simp: show_int_def isspace_def)
  show "show_int i \<noteq> []" by (simp add: show_int_def)
  then show "trim (show_int i) = show_int i"
    using s last_in_set[of "show_int i"] hd_in_set[of "show_int i"] by (intro trim_id) blast
  show "c_str (show_int i) = show_int i" using s by (intro c_str_id) blast
qed

text \<open>What a value prints as is read back as the value, for every type but doubles.\<close>

lemma parse_printed:
  assumes adm: "admissible sp v" and sp: "sp \<in> set registry" and ty: "spec_type sp \<noteq> OT_Double"
    and int64: "\<And>i. v = VInt i \<Longrightarrow> llong_min \<le> i \<and> i \<le> llong_max"
    and ch: "spec_type sp = OT_String \<Longrightarrow> spec_choices sp \<noteq> []"
    and t: "t = (case v of VBool b \<Rightarrow> if b then ''true'' else ''false'' | VString s \<Rightarrow> s
       | VDouble d \<Rightarrow> u d | VInt i \<Rightarrow> show_int i)"
  shows "parse_option sp name raw (trim t) = Inr v"
proof (cases v)
  case (VBool b)
  have "to_lower (trim ''true'') = ''true''" "to_lower (trim ''false'') = ''false''"
    by (rule plain_trim_lower[THEN conjunct1]; simp add: plain_char_def)+
  with VBool adm t show ?thesis by (simp add: parse_option_def parse_bool_value_def)
next
  case (VInt i)
  have "strtoll (show_int i) = (i, [], False)"
    using strtoll_show_int[of i "[]"] int64[OF VInt] by simp
  with VInt adm t show ?thesis
    using show_int_plain(3)[of i] by (simp add: parse_option_def show_int_plain(1,2) Let_def)
next
  case (VDouble d)
  with adm ty show ?thesis by simp
next
  case (VString s)
  then have s: "s \<in> set (spec_choices sp)" "spec_type sp = OT_String" using adm ch by auto
  then have "trim s = s" "to_lower s = s"
    using choices_plain[OF sp] plain_trim_lower[of s] by (auto simp: list_all_iff)
  with VString s t show ?thesis by (simp add: parse_option_def Let_def)
qed

text \<open>
  C35. Printing an option and assigning the text to any option set restores the value, for every
  boolean and integer option and for every string option with a closed list of choices, given that
  the formatter prints an integer in decimal.
\<close>

theorem option_text_roundtrip:
  assumes fmt: "\<forall>i. fmt_int i = show_int i"
    and ok: "options_ok opts" and target: "options_ok target"
    and sp: "find_spec n = Some sp" and ty: "spec_type sp \<noteq> OT_Double"
    and ch: "spec_type sp = OT_String \<longrightarrow> spec_choices sp \<noteq> []"
    and int64: "\<forall>i. get_int opts n = Some i \<longrightarrow> llong_min \<le> i \<and> i \<le> llong_max"
  shows "\<exists>t opts'. value_as_string fmt_int fmt_g opts n = Some t \<and>
    set_from_string n t target = (opts', None) \<and> value_of opts' = (value_of target)(n := value_of opts n)"
proof -
  from sp obtain i where i: "name_index n = Some i" "sp = registry ! i" by (auto simp: find_spec_def)
  let ?v = "opts ! i"
  have v: "value_of opts n = Some ?v" using i by (simp add: value_of_def)
  have il: "i < length registry" using name_index_Some[OF i(1)] by simp
  have adm: "admissible sp ?v"
    using ok i il by (auto simp: options_ok_def list_all2_conv_all_nth)
  let ?t = "case ?v of VBool b \<Rightarrow> if b then ''true'' else ''false'' | VString s \<Rightarrow> s
       | VDouble d \<Rightarrow> if kNoLimit \<le> d then ''inf'' else fmt_g d | VInt i \<Rightarrow> show_int i"
  have t: "value_as_string fmt_int fmt_g opts n = Some ?t"
    using v fmt by (simp add: value_as_string_def split: option_value.split)
  have "parse_option sp n ?t (trim ?t) = Inr ?v"
  proof (rule parse_printed[OF adm find_spec_registry[OF sp] ty _ _ refl])
    show "llong_min \<le> k \<and> k \<le> llong_max" if "?v = VInt k" for k
      using int64 v that get_of_value(2)[of opts n k] by simp
  qed (use ch in simp)
  with t obtain u where u: "value_as_string fmt_int fmt_g opts n = Some u"
    "parse_option sp n u (trim u) = Inr ?v"
    by (rule that)
  have "set_from_string n u target = (target[i := ?v], None)"
    by (simp only: set_from_string_def Let_def registered_name[OF sp] i(1) i(2)[symmetric] u(2)
        option.case sum.case)
  moreover have "value_of (target[i := ?v]) = (value_of target)(n \<mapsto> ?v)"
  proof (rule opt.put_update[where s = target])
    show "shape_ok target" using target by (simp add: options_ok_typed typed_ok_shape)
    show "assign target n ?v = Some (target[i := ?v])" using i by (simp add: assign_def)
  qed
  ultimately show ?thesis using u v by auto
qed

text \<open>
  Every row of the registry can be reached and every default is one its own row admits: the
  names are distinct and written the way \<open>set_from_string\<close> normalises them, and the default of each
  row has the row's type, lies in its range and is among its choices.
\<close>

theorem registry_sound:
  "options_ok default_options \<and>
   map (\<lambda>sp. find_spec (to_lower (trim (spec_name sp)))) registry = map Some registry"
proof -
  have "find_spec (to_lower (trim (spec_name (registry ! i)))) = Some (registry ! i)"
    if "i < length registry" for i
    using that name_index_nth registered_name_plain plain_trim_lower by (simp add: find_spec_def)
  then have "map (\<lambda>sp. find_spec (to_lower (trim (spec_name sp)))) registry = map Some registry"
    by (intro nth_equalityI) (simp_all only: length_map nth_map)
  then show ?thesis using defaults_ok by blast
qed

section \<open>Two ways around the range\<close>

lemma time_limit_row:
  "find_spec ''time_limit'' = Some (spec ''time_limit'' OT_Double (VDouble kNoLimit) 0 kNoLimit [] [] False)"
  "name_index ''time_limit'' = Some 0"
  "registry ! 0 = spec ''time_limit'' OT_Double (VDouble kNoLimit) 0 kNoLimit [] [] False"
  by (simp_all add: find_spec_def name_index_def registry_def registry_simplex_def)

lemma time_limit_name: "to_lower (trim ''time_limit'') = ''time_limit''"
  by (rule registered_name[OF time_limit_row(1)])

lemma strtod_words:
  "strtod ''nan'' = (NaN, [], False)" "trim ''nan'' = ''nan''" "c_str ''nan'' = ''nan''"
  "strtod ''inf'' = (PInf, [], False)" "trim ''inf'' = ''inf''" "c_str ''inf'' = ''inf''"
  by code_simp+

text \<open>
  The range test of \<open>set_from_string\<close> is two \<open><\<close> comparisons, both false on a NaN, so the
  registry accepts \<open>time_limit=nan\<close> from text and stores it.
\<close>

lemma nan_time_limit_accepted:
  "\<exists>opts'. set_from_string ''time_limit'' ''nan'' default_options = (opts', None) \<and>
     get_double opts' ''time_limit'' = Some NaN"
proof -
  have "set_from_string ''time_limit'' ''nan'' default_options = (default_options[0 := VDouble NaN], None)"
    by (simp add: set_from_string_def time_limit_name time_limit_row strtod_words parse_option_def
        kNoLimit_def less_double_def dless_def Let_def)
  moreover have "get_double (default_options[0 := VDouble NaN]) ''time_limit'' = Some NaN"
    by (simp add: get_double_def value_of_def time_limit_row default_options_def length_registry)
  ultimately show ?thesis by blast
qed

text \<open>
  A double at the no-limit sentinel does not survive the round trip: it prints as \<open>inf\<close>, which
  reads as an infinity above the option's own maximum, so assigning the printed default of
  \<open>time_limit\<close> is refused as out of range.
\<close>

theorem no_limit_text_refused:
  "value_as_string fmt_int fmt_g default_options ''time_limit'' = Some ''inf'' \<and>
   set_from_string ''time_limit'' ''inf'' opts =
     (opts, Some (DoubleOutOfRange ''time_limit'' 0 kNoLimit PInf))"
proof
  have "default_options ! 0 = VDouble kNoLimit"
    by (simp add: default_options_def time_limit_row length_registry)
  then show "value_as_string fmt_int fmt_g default_options ''time_limit'' = Some ''inf''"
    by (simp add: value_as_string_def value_of_def time_limit_row kNoLimit_def)
  show "set_from_string ''time_limit'' ''inf'' opts =
     (opts, Some (DoubleOutOfRange ''time_limit'' 0 kNoLimit PInf))"
    by (simp add: set_from_string_def time_limit_name time_limit_row strtod_words parse_option_def
        kNoLimit_def Let_def)
qed

section \<open>Witnesses\<close>

theorem set_from_string_sound_witness:
  "options_ok (fst (set_from_string '' Time_Limit '' ''-3'' default_options))"
  using set_from_string_sound[OF defaults_ok, of "'' Time_Limit ''" "''-3''"
      "fst (set_from_string '' Time_Limit '' ''-3'' default_options)"
      "snd (set_from_string '' Time_Limit '' ''-3'' default_options)"] by simp

lemma iteration_limit_row:
  "find_spec ''iteration_limit'' = Some (spec ''iteration_limit'' OT_Int (VInt (- 1)) (lit (- 1)) kNoLimit [] [] False)"
  "name_index ''iteration_limit'' = Some 2"
  by (simp_all add: find_spec_def name_index_def registry_def registry_simplex_def)

theorem option_text_roundtrip_witness:
  "\<exists>t opts'. value_as_string show_int (\<lambda>d. ''?'') default_options ''iteration_limit'' = Some t \<and>
    set_from_string ''iteration_limit'' t default_options = (opts', None) \<and>
    value_of opts' = (value_of default_options)(''iteration_limit'' := value_of default_options ''iteration_limit'')"
proof (rule option_text_roundtrip[OF _ defaults_ok defaults_ok iteration_limit_row(1)])
  have "registry ! 2 = spec ''iteration_limit'' OT_Int (VInt (- 1)) (lit (- 1)) kNoLimit [] [] False"
    by (simp add: registry_def registry_simplex_def)
  then have "get_int default_options ''iteration_limit'' = Some (- 1)"
    by (simp add: get_int_def value_of_def iteration_limit_row default_options_def length_registry)
  then show "\<forall>i. get_int default_options ''iteration_limit'' = Some i \<longrightarrow> llong_min \<le> i \<and> i \<le> llong_max"
    by (simp add: llong_min_def llong_max_def)
qed simp_all

end
