(* ===== verification/Model.thy ===== *)
theory Model
  imports Sparse Tolerances
begin

text \<open>
  \<open>include/sankhya/model.hpp\<close> and \<open>src/core/model.cpp\<close>: the enumerations, the model every
  reader produces and every engine consumes, its self-check and objective, the solution and the
  quality figures measured on it, and the model fingerprint. The model is polymorphic in the
  scalar where the code only adds and multiplies; what tests for NaN and infinity is on \<open>double\<close>.
  Sizes fit \<open>Index\<close>, so the casts of vector sizes are the sizes.
\<close>

section \<open>Enumerations\<close>

datatype obj_sense = kMinimize | kMaximize

datatype var_type = kContinuous | kInteger

datatype basis_status = kUnknown | kBasic | kAtLower | kAtUpper | kNonbasicFree | kFixed

datatype solve_status = kNotSolved | kOptimal | kInfeasible | kUnbounded | kInfeasibleOrUnbounded
  | kFeasible | kIterationLimit | kTimeLimit | kNodeLimit | kNumericalError | kModelError
  | kInterrupted

fun solve_status_string :: "solve_status \<Rightarrow> string" where
  "solve_status_string kNotSolved = ''not_solved''"
| "solve_status_string kOptimal = ''optimal''"
| "solve_status_string kInfeasible = ''infeasible''"
| "solve_status_string kUnbounded = ''unbounded''"
| "solve_status_string kInfeasibleOrUnbounded = ''infeasible_or_unbounded''"
| "solve_status_string kFeasible = ''feasible''"
| "solve_status_string kIterationLimit = ''iteration_limit''"
| "solve_status_string kTimeLimit = ''time_limit''"
| "solve_status_string kNodeLimit = ''node_limit''"
| "solve_status_string kNumericalError = ''numerical_error''"
| "solve_status_string kModelError = ''model_error''"
| "solve_status_string kInterrupted = ''interrupted''"

fun basis_status_string :: "basis_status \<Rightarrow> string" where
  "basis_status_string kUnknown = ''unknown''"
| "basis_status_string kBasic = ''basic''"
| "basis_status_string kAtLower = ''at_lower''"
| "basis_status_string kAtUpper = ''at_upper''"
| "basis_status_string kNonbasicFree = ''free''"
| "basis_status_string kFixed = ''fixed''"

fun var_type_string :: "var_type \<Rightarrow> string" where
  "var_type_string kContinuous = ''continuous''"
| "var_type_string kInteger = ''integer''"

fun claims_a_point :: "solve_status \<Rightarrow> bool" where
  "claims_a_point kOptimal = True"
| "claims_a_point kFeasible = True"
| "claims_a_point kUnbounded = True"
| "claims_a_point kIterationLimit = True"
| "claims_a_point kTimeLimit = True"
| "claims_a_point kNodeLimit = True"
| "claims_a_point kInterrupted = True"
| "claims_a_point kNotSolved = False"
| "claims_a_point kInfeasible = False"
| "claims_a_point kInfeasibleOrUnbounded = False"
| "claims_a_point kNumericalError = False"
| "claims_a_point kModelError = False"

section \<open>Model\<close>

record 'a model =
  model_name :: string
  source_path :: string
  sense :: obj_sense
  objective_offset :: 'a
  col_cost :: "'a list"
  hessian :: "'a sparse_matrix"
  col_lower :: "'a list"
  col_upper :: "'a list"
  col_type :: "var_type list"
  col_names :: "string list"
  row_lower :: "'a list"
  row_upper :: "'a list"
  row_names :: "string list"
  matrix :: "'a sparse_matrix"

definition empty_model :: "'a::zero model" where
  "empty_model = \<lparr>model_name = [], source_path = [], sense = kMinimize, objective_offset = 0,
     col_cost = [], hessian = empty_sparse, col_lower = [], col_upper = [], col_type = [],
     col_names = [], row_lower = [], row_upper = [], row_names = [], matrix = empty_sparse\<rparr>"

definition num_cols :: "'a model \<Rightarrow> nat" where
  "num_cols m = length (col_cost m)"

definition num_rows :: "'a model \<Rightarrow> nat" where
  "num_rows m = length (row_lower m)"

definition model_nonzeros :: "'a model \<Rightarrow> nat" where
  "model_nonzeros m = num_nonzeros (matrix m)"

definition has_integrality :: "'a model \<Rightarrow> bool" where
  "has_integrality m \<longleftrightarrow> list_ex (\<lambda>t. t = kInteger) (col_type m)"

definition num_integer_columns :: "'a model \<Rightarrow> nat" where
  "num_integer_columns m = count_list (col_type m) kInteger"

definition has_quadratic_objective :: "'a model \<Rightarrow> bool" where
  "has_quadratic_objective m \<longleftrightarrow> 0 < num_nonzeros (hessian m)"

definition is_fixed_column :: "'a::ord model \<Rightarrow> nat \<Rightarrow> bool" where
  "is_fixed_column m j \<longleftrightarrow> feq (col_lower m ! j) (col_upper m ! j)"

definition is_equality_row :: "'a::ord model \<Rightarrow> nat \<Rightarrow> bool" where
  "is_equality_row m i \<longleftrightarrow> feq (row_lower m ! i) (row_upper m ! i)"

definition sense_multiplier :: "'a model \<Rightarrow> 'a::{one,uminus}" where
  "sense_multiplier m = (if sense m = kMaximize then - 1 else 1)"

text \<open>\<open>std::vector::resize\<close> with a fill value.\<close>

definition resize :: "nat \<Rightarrow> 'b \<Rightarrow> 'b list \<Rightarrow> 'b list" where
  "resize n fill xs = take n xs @ replicate (n - length xs) fill"

definition resize_columns :: "nat \<Rightarrow> double model \<Rightarrow> double model" where
  "resize_columns n m = m\<lparr>col_cost := resize n 0 (col_cost m),
     col_lower := resize n 0 (col_lower m),
     col_upper := resize n kInfinity (col_upper m),
     col_type := resize n kContinuous (col_type m),
     col_names := (if col_names m \<noteq> [] then resize n [] (col_names m) else col_names m)\<rparr>"

definition resize_rows :: "nat \<Rightarrow> double model \<Rightarrow> double model" where
  "resize_rows k m = m\<lparr>row_lower := resize k (- kInfinity) (row_lower m),
     row_upper := resize k kInfinity (row_upper m),
     row_names := (if row_names m \<noteq> [] then resize k [] (row_names m) else row_names m)\<rparr>"

section \<open>The objective\<close>

definition half :: "'a::{one,plus,divide}" where
  "half = 1 div (1 + 1)"

definition quadratic_term :: "'a list \<Rightarrow> nat \<Rightarrow> nat \<times> 'a \<Rightarrow> 'a::{one,plus,times,divide}" where
  "quadratic_term x j e = (let i = fst e; v = snd e in
     if i = j then half * v * x ! i * x ! j else v * x ! i * x ! j)"

definition evaluate_objective :: "'a model \<Rightarrow> 'a list \<Rightarrow> 'a::{zero,one,plus,times,divide}" where
  "evaluate_objective m x =
     (let linear = fold (\<lambda>j s. s + col_cost m ! j * x ! j) [0..<num_cols m] (objective_offset m) in
      if \<not> has_quadratic_objective m then linear
      else linear + fold (\<lambda>j s. foldl (\<lambda>q e. q + quadratic_term x j e) s (column (hessian m) j))
        [0..<ncols (hessian m)] 0)"

section \<open>validate\<close>

datatype model_error =
    ColLowerLength | ColUpperLength | ColTypeLength | ColNamesLength | RowUpperLength
  | RowNamesLength
  | MatrixOverflowed nat | HessianOverflowed nat
  | MatrixNotFinalized | MatrixRows nat nat | MatrixCols nat nat
  | MatrixEntry nat nat double
  | HessianNotFinalized | HessianShape | HessianAboveDiagonal nat nat | HessianEntry nat nat double
  | ColumnNaNBound nat | ColumnBoundsCrossed nat double double | ColumnNaNCost nat
  | RowNaNBound nat | RowBoundsCrossed nat double double
  | OffsetNaN

text \<open>The first problem a loop finds.\<close>

fun first_error :: "('b \<Rightarrow> 'e option) \<Rightarrow> 'b list \<Rightarrow> 'e option" where
  "first_error f [] = None"
| "first_error f (x # xs) = (case f x of Some e \<Rightarrow> Some e | None \<Rightarrow> first_error f xs)"

definition check_matrix_column :: "double model \<Rightarrow> nat \<Rightarrow> model_error option" where
  "check_matrix_column m j =
     first_error (\<lambda>(i, v). if \<not> isfinite v then Some (MatrixEntry i j v) else None) (column (matrix m) j)"

definition check_hessian_column :: "double model \<Rightarrow> nat \<Rightarrow> model_error option" where
  "check_hessian_column m j =
     first_error (\<lambda>(i, v). if i < j then Some (HessianAboveDiagonal i j)
        else if \<not> isfinite v then Some (HessianEntry i j v) else None) (column (hessian m) j)"

definition check_column_bounds :: "double model \<Rightarrow> nat \<Rightarrow> model_error option" where
  "check_column_bounds m j =
     (let lo = col_lower m ! j; hi = col_upper m ! j in
      if isnan lo \<or> isnan hi then Some (ColumnNaNBound j)
      else if hi < lo then Some (ColumnBoundsCrossed j lo hi)
      else if isnan (col_cost m ! j) then Some (ColumnNaNCost j) else None)"

definition check_row_bounds :: "double model \<Rightarrow> nat \<Rightarrow> model_error option" where
  "check_row_bounds m i =
     (let lo = row_lower m ! i; hi = row_upper m ! i in
      if isnan lo \<or> isnan hi then Some (RowNaNBound i)
      else if hi < lo then Some (RowBoundsCrossed i lo hi) else None)"

definition check_hessian :: "double model \<Rightarrow> model_error option" where
  "check_hessian m =
     (if \<not> has_quadratic_objective m then None
      else if \<not> frozen (hessian m) then Some HessianNotFinalized
      else if nrows (hessian m) \<noteq> num_cols m \<or> ncols (hessian m) \<noteq> num_cols m then Some HessianShape
      else first_error (check_hessian_column m) [0..<ncols (hessian m)])"

definition validate :: "double model \<Rightarrow> model_error option" where
  "validate m =
     (let n = num_cols m; r = num_rows m in
      if length (col_lower m) \<noteq> n then Some ColLowerLength
      else if length (col_upper m) \<noteq> n then Some ColUpperLength
      else if length (col_type m) \<noteq> n then Some ColTypeLength
      else if col_names m \<noteq> [] \<and> length (col_names m) \<noteq> n then Some ColNamesLength
      else if length (row_upper m) \<noteq> r then Some RowUpperLength
      else if row_names m \<noteq> [] \<and> length (row_names m) \<noteq> r then Some RowNamesLength
      else if overflowed (matrix m) then Some (MatrixOverflowed (nonzero_limit (matrix m)))
      else if overflowed (hessian m) then Some (HessianOverflowed (nonzero_limit (hessian m)))
      else if \<not> frozen (matrix m) then Some MatrixNotFinalized
      else if nrows (matrix m) \<noteq> r then Some (MatrixRows (nrows (matrix m)) r)
      else if ncols (matrix m) \<noteq> n then Some (MatrixCols (ncols (matrix m)) n)
      else case first_error (check_matrix_column m) [0..<n] of Some e \<Rightarrow> Some e
      | None \<Rightarrow> (case check_hessian m of Some e \<Rightarrow> Some e
      | None \<Rightarrow> (case first_error (check_column_bounds m) [0..<n] of Some e \<Rightarrow> Some e
      | None \<Rightarrow> (case first_error (check_row_bounds m) [0..<r] of Some e \<Rightarrow> Some e
      | None \<Rightarrow> if isnan (objective_offset m) then Some OffsetNaN else None))))"

section \<open>Solution\<close>

datatype limit_reason = kNone | kInterrupt | kTime | kIterations | kNodes

record pool_entry =
  pe_objective :: double
  pe_col_value :: "double list"

text \<open>The fields of \<open>Solution\<close> that the modelled code reads or writes.\<close>

record solution =
  status :: solve_status
  stopped_by :: limit_reason
  objective :: double
  dual_bound :: double
  col_value :: "double list"
  row_activity :: "double list"
  row_dual :: "double list"
  col_dual :: "double list"
  col_status :: "basis_status list"
  row_status :: "basis_status list"
  farkas_dual :: "double list"
  primal_ray :: "double list"
  pool :: "pool_entry list"
  primal_infeasibility :: double
  primal_infeasibility_scaled :: double
  dual_infeasibility_scaled :: double
  dual_infeasibility :: double
  complementarity_violation :: double
  integrality_violation :: double
  absolute_gap :: double
  relative_gap :: double
  iterations :: int
  node_count :: int
  polish_iterations :: int
  solve_seconds :: double
  algorithm :: string
  message :: string

definition empty_solution :: solution where
  "empty_solution = \<lparr>status = kNotSolved, stopped_by = kNone, objective = 0, dual_bound = 0,
     col_value = [], row_activity = [], row_dual = [], col_dual = [], col_status = [],
     row_status = [], farkas_dual = [], primal_ray = [], pool = [],
     primal_infeasibility = 0, primal_infeasibility_scaled = 0,
     dual_infeasibility_scaled = 0, dual_infeasibility = 0, complementarity_violation = 0,
     integrality_violation = 0, absolute_gap = 0, relative_gap = 0, iterations = 0,
     node_count = 0, polish_iterations = 0, solve_seconds = 0, algorithm = [], message = []\<rparr>"

definition has_primal_values :: "solution \<Rightarrow> bool" where
  "has_primal_values s \<longleftrightarrow> claims_a_point (status s)"

definition clear_values :: "solution \<Rightarrow> solution" where
  "clear_values s = s\<lparr>col_value := [], row_activity := [], row_dual := [], col_dual := [],
     col_status := [], row_status := [], objective := 0, dual_bound := 0,
     primal_infeasibility := 0, primal_infeasibility_scaled := 0, dual_infeasibility := 0,
     dual_infeasibility_scaled := 0, integrality_violation := 0, pool := []\<rparr>"

definition allocate_for :: "double model \<Rightarrow> solution \<Rightarrow> solution" where
  "allocate_for m s = s\<lparr>col_value := replicate (num_cols m) 0, col_dual := replicate (num_cols m) 0,
     col_status := replicate (num_cols m) kUnknown, row_activity := replicate (num_rows m) 0,
     row_dual := replicate (num_rows m) 0, row_status := replicate (num_rows m) kUnknown\<rparr>"

section \<open>recompute_quality: the primal half\<close>

text \<open>The largest term of each row's activity sum, at least 1.\<close>

definition row_scales :: "double model \<Rightarrow> double list \<Rightarrow> double list" where
  "row_scales m xs = fold (\<lambda>j sc.
      let x = xs ! j in
      if feq x 0 then sc
      else foldl (\<lambda>sc (r, v). modify_at r (\<lambda>s. cmax s \<bar>v * x\<bar>) sc) sc (column (matrix m) j))
    [0..<num_cols m] (replicate (num_rows m) 1)"

text \<open>The \<open>record\<close> lambda, on the pair of the absolute and the scaled maximum.\<close>

fun record_violation :: "double \<Rightarrow> double \<Rightarrow> double \<times> double \<Rightarrow> double \<times> double" where
  "record_violation violation scale (p, ps) =
     (if violation \<le> 0 then (p, ps) else (cmax p violation, cmax ps (violation / cmax 1 scale)))"

definition record_bounds :: "double \<Rightarrow> double \<Rightarrow> double \<Rightarrow> double \<Rightarrow> double \<times> double \<Rightarrow> double \<times> double" where
  "record_bounds lo hi v scale acc =
     (let acc1 = (if is_finite_bound lo then record_violation (lo - v) scale acc else acc) in
      if is_finite_bound hi then record_violation (v - hi) scale acc1 else acc1)"

definition primal_quality :: "double model \<Rightarrow> double list \<Rightarrow> double list \<Rightarrow> double \<times> double" where
  "primal_quality m xs acts =
     (let sc = row_scales m xs;
          cols = fold (\<lambda>j. record_bounds (col_lower m ! j) (col_upper m ! j) (xs ! j) \<bar>xs ! j\<bar>)
            [0..<num_cols m] (0, 0)
      in fold (\<lambda>i. record_bounds (row_lower m ! i) (row_upper m ! i) (acts ! i) (sc ! i))
           [0..<num_rows m] cols)"

definition integrality_quality :: "double model \<Rightarrow> double list \<Rightarrow> double" where
  "integrality_quality m xs = fold (\<lambda>j acc.
      if col_type m ! j = kInteger then cmax acc \<bar>xs ! j - dround (xs ! j)\<bar> else acc)
    [0..<num_cols m] 0"

section \<open>recompute_quality: the dual half\<close>

text \<open>Dual infeasibility, its scaled form, and the complementarity violation.\<close>

type_synonym dual_acc = "double \<times> double \<times> double"

fun record_dual :: "double \<Rightarrow> double \<Rightarrow> dual_acc \<Rightarrow> dual_acc" where
  "record_dual violation scale (di, dis, cv) =
     (if violation \<le> 0 then (di, dis, cv) else (cmax di violation, cmax dis (violation / scale), cv))"

definition nearest_bound_distance :: "double \<Rightarrow> double \<Rightarrow> double \<Rightarrow> double" where
  "nearest_bound_distance v lo hi =
     (let d = (if is_finite_bound lo then cmin kInfinity \<bar>v - lo\<bar> else kInfinity) in
      if is_finite_bound hi then cmin d \<bar>v - hi\<bar> else d)"

fun record_complementarity :: "double \<Rightarrow> double \<Rightarrow> double \<Rightarrow> double \<Rightarrow> dual_acc \<Rightarrow> dual_acc" where
  "record_complementarity multiplier slack multiplier_scale primal_scale (di, dis, cv) =
     (if feq multiplier 0 \<or> \<not> is_finite_bound slack then (di, dis, cv)
      else let prod = multiplier * slack in
        (di, cmax dis (prod / cmax 1 (multiplier_scale * primal_scale)), cmax cv prod))"

definition column_scale :: "double model \<Rightarrow> double list \<Rightarrow> nat \<Rightarrow> double" where
  "column_scale m ys j =
     cmax 1 (foldl (\<lambda>s (r, v). cmax s \<bar>v * ys ! r\<bar>) \<bar>col_cost m ! j\<bar> (column (matrix m) j))"

text \<open>The reduced cost the duals imply, with the largest term it is a difference of.\<close>

definition implied_cost :: "double model \<Rightarrow> double list \<Rightarrow> nat \<Rightarrow> double \<times> double" where
  "implied_cost m ys j =
     foldl (\<lambda>(implied, terms) (r, v). let t = v * ys ! r in (implied - t, cmax terms \<bar>t\<bar>))
       (col_cost m ! j, \<bar>col_cost m ! j\<bar>) (column (matrix m) j)"

definition dual_consistency :: "double model \<Rightarrow> solution \<Rightarrow> nat \<Rightarrow> dual_acc \<Rightarrow> dual_acc" where
  "dual_consistency m s j acc =
     (case implied_cost m (row_dual s) j of (implied, terms) \<Rightarrow>
        record_dual \<bar>implied - col_dual s ! j\<bar> (cmax 1 terms) acc)"

text \<open>The sign conditions and the complementarity product of one multiplier.\<close>

definition record_multiplier ::
    "double \<Rightarrow> double \<Rightarrow> double \<Rightarrow> double \<Rightarrow> double \<Rightarrow> double \<Rightarrow> dual_acc \<Rightarrow> dual_acc" where
  "record_multiplier d lo hi v scale primal_scale acc =
     (if feq lo hi then acc
      else
        let a1 = (if 0 < d \<and> \<not> is_finite_bound lo then record_dual d scale acc else acc);
            a2 = (if d < 0 \<and> \<not> is_finite_bound hi then record_dual (- d) scale a1 else a1)
        in record_complementarity \<bar>d\<bar> (nearest_bound_distance v lo hi) scale primal_scale a2)"

definition dual_quality :: "double model \<Rightarrow> solution \<Rightarrow> dual_acc" where
  "dual_quality m s =
     (let sg = sense_multiplier m;
          dual_norm = fold (\<lambda>i a. cmax a \<bar>row_dual s ! i\<bar>) [0..<num_rows m] 0;
          sc = row_scales m (col_value s);
          price_scale = cmax 1 dual_norm;
          linear_gradient = (\<not> has_quadratic_objective m \<and> \<not> has_integrality m);
          a0 = (if linear_gradient then fold (dual_consistency m s) [0..<num_cols m] (0, 0, 0)
                else (0, 0, 0));
          a1 = fold (\<lambda>j. record_multiplier (sg * col_dual s ! j) (col_lower m ! j) (col_upper m ! j)
                 (col_value s ! j) (column_scale m (row_dual s) j) (cmax 1 \<bar>col_value s ! j\<bar>))
               [0..<num_cols m] a0
      in fold (\<lambda>i. record_multiplier (sg * row_dual s ! i) (row_lower m ! i) (row_upper m ! i)
                 (row_activity s ! i) price_scale (sc ! i)) [0..<num_rows m] a1)"

definition recompute_quality :: "double model \<Rightarrow> solution \<Rightarrow> solution" where
  "recompute_quality m s =
     (if length (col_value s) \<noteq> num_cols m then s
      else
        let acts = (if 0 < num_rows m then multiply (matrix m) (col_value s) 1 else []);
            s1 = s\<lparr>row_activity := acts,
                   primal_infeasibility := fst (primal_quality m (col_value s) acts),
                   primal_infeasibility_scaled := snd (primal_quality m (col_value s) acts),
                   integrality_violation := integrality_quality m (col_value s),
                   objective := evaluate_objective m (col_value s)\<rparr>;
            s2 = (if length (row_dual s1) = num_rows m \<and> length (col_dual s1) = num_cols m then
                    case dual_quality m s1 of (di, dis, cv) \<Rightarrow>
                      s1\<lparr>dual_infeasibility := di, dual_infeasibility_scaled := dis,
                         complementarity_violation := cv\<rparr>
                  else s1);
            gap = \<bar>objective s2 - dual_bound s2\<bar>
        in s2\<lparr>absolute_gap := gap, relative_gap := gap / cmax 1 \<bar>objective s2\<bar>\<rparr>)"

section \<open>The fingerprint\<close>

text \<open>
  FNV-1a on the bytes of each field in memory order, little-endian. How a double lies in memory,
  the payload of a NaN included, is the parameter \<open>bits\<close>: the value model has one NaN only.
\<close>

type_synonym byte = "8 word"

definition kFnvOffsetBasis :: "64 word" where
  "kFnvOffsetBasis = 1469598103934665603"

definition kFnvPrime :: "64 word" where
  "kFnvPrime = 1099511628211"

definition mix_bytes :: "byte list \<Rightarrow> 64 word \<Rightarrow> 64 word" where
  "mix_bytes bs hash = fold (\<lambda>b h. xor h (ucast b) * kFnvPrime) bs hash"

definition bytes64 :: "64 word \<Rightarrow> byte list" where
  "bytes64 w = map (\<lambda>i. ucast (drop_bit (8 * i) w)) [0..<8]"

definition bytes32 :: "32 word \<Rightarrow> byte list" where
  "bytes32 w = map (\<lambda>i. ucast (drop_bit (8 * i) w)) [0..<4]"

definition mix_double :: "(double \<Rightarrow> 64 word) \<Rightarrow> double \<Rightarrow> 64 word \<Rightarrow> 64 word" where
  "mix_double bits v = mix_bytes (bytes64 (bits v))"

definition mix_index :: "nat \<Rightarrow> 64 word \<Rightarrow> 64 word" where
  "mix_index n = mix_bytes (bytes32 (of_nat n))"

definition mix_doubles :: "(double \<Rightarrow> 64 word) \<Rightarrow> double list \<Rightarrow> 64 word \<Rightarrow> 64 word" where
  "mix_doubles bits vs h = fold (mix_double bits) vs (mix_index (length vs) h)"

definition mix_matrix :: "(double \<Rightarrow> 64 word) \<Rightarrow> double sparse_matrix \<Rightarrow> 64 word \<Rightarrow> 64 word" where
  "mix_matrix bits a h =
     fold (mix_double bits) (vals a)
       (fold mix_index (row_indices a)
         (fold mix_index (column_starts a) (mix_index (ncols a) (mix_index (nrows a) h))))"

text \<open>\<open>ObjSense\<close> has the underlying type \<open>int\<close>, \<open>VarType\<close> one byte.\<close>

definition sense_bytes :: "obj_sense \<Rightarrow> byte list" where
  "sense_bytes s = bytes32 (case s of kMinimize \<Rightarrow> 0 | kMaximize \<Rightarrow> 1)"

definition type_bytes :: "var_type \<Rightarrow> byte list" where
  "type_bytes t = [case t of kContinuous \<Rightarrow> 0 | kInteger \<Rightarrow> 1]"

definition fingerprint :: "(double \<Rightarrow> 64 word) \<Rightarrow> double model \<Rightarrow> 64 word" where
  "fingerprint bits m =
     (let h0 = mix_index (num_cols m) (mix_index (num_rows m) kFnvOffsetBasis);
          h1 = mix_double bits (objective_offset m) (mix_bytes (sense_bytes (sense m)) h0);
          h2 = mix_doubles bits (row_upper m) (mix_doubles bits (row_lower m)
                 (mix_doubles bits (col_upper m) (mix_doubles bits (col_lower m)
                   (mix_doubles bits (col_cost m) h1))));
          h3 = fold (\<lambda>t. mix_bytes (type_bytes t)) (col_type m) (mix_index (length (col_type m)) h2)
      in mix_matrix bits (hessian m) (mix_matrix bits (matrix m) h3))"

section \<open>The self-check is exact\<close>

lemma first_error_None [simp]: "first_error f xs = None \<longleftrightarrow> (\<forall>x \<in> set xs. f x = None)"
  by (induction xs) (auto split: option.splits)

definition shapes_ok :: "double model \<Rightarrow> bool" where
  "shapes_ok m \<longleftrightarrow> length (col_lower m) = num_cols m \<and> length (col_upper m) = num_cols m \<and>
     length (col_type m) = num_cols m \<and> (col_names m = [] \<or> length (col_names m) = num_cols m) \<and>
     length (row_upper m) = num_rows m \<and> (row_names m = [] \<or> length (row_names m) = num_rows m)"

definition matrices_ok :: "double model \<Rightarrow> bool" where
  "matrices_ok m \<longleftrightarrow> \<not> overflowed (matrix m) \<and> \<not> overflowed (hessian m) \<and> frozen (matrix m) \<and>
     nrows (matrix m) = num_rows m \<and> ncols (matrix m) = num_cols m \<and>
     (\<forall>j < num_cols m. \<forall>(i, v) \<in> set (column (matrix m) j). isfinite v) \<and>
     (has_quadratic_objective m \<longrightarrow> frozen (hessian m) \<and> nrows (hessian m) = num_cols m \<and>
        ncols (hessian m) = num_cols m \<and>
        (\<forall>j < num_cols m. \<forall>(i, v) \<in> set (column (hessian m) j). j \<le> i \<and> isfinite v))"

definition bounds_ok :: "double model \<Rightarrow> bool" where
  "bounds_ok m \<longleftrightarrow>
     (\<forall>j < num_cols m. col_lower m ! j \<le> col_upper m ! j \<and> \<not> isnan (col_cost m ! j)) \<and>
     (\<forall>i < num_rows m. row_lower m ! i \<le> row_upper m ! i) \<and> \<not> isnan (objective_offset m)"

lemma check_matrix_column_None: "check_matrix_column m j = None \<longleftrightarrow>
    (\<forall>(i, v) \<in> set (column (matrix m) j). isfinite v)"
  by (auto simp: check_matrix_column_def split: if_splits)

lemma check_hessian_column_None: "check_hessian_column m j = None \<longleftrightarrow>
    (\<forall>(i, v) \<in> set (column (hessian m) j). j \<le> i \<and> isfinite v)"
  unfolding check_hessian_column_def first_error_None
  by (intro ball_cong refl) (auto split: if_splits)

lemma check_column_bounds_None: "check_column_bounds m j = None \<longleftrightarrow>
    col_lower m ! j \<le> col_upper m ! j \<and> \<not> isnan (col_cost m ! j)"
  unfolding check_column_bounds_def Let_def
  by (metis dleq_not_nan not_dless option.distinct(1))

lemma check_row_bounds_None: "check_row_bounds m i = None \<longleftrightarrow> row_lower m ! i \<le> row_upper m ! i"
  unfolding check_row_bounds_def Let_def
  by (metis dleq_not_nan not_dless option.distinct(1))

lemma check_hessian_None: "check_hessian m = None \<longleftrightarrow>
    (has_quadratic_objective m \<longrightarrow> frozen (hessian m) \<and> nrows (hessian m) = num_cols m \<and>
      ncols (hessian m) = num_cols m \<and>
      (\<forall>j < num_cols m. \<forall>(i, v) \<in> set (column (hessian m) j). j \<le> i \<and> isfinite v))"
  by (auto simp: check_hessian_def check_hessian_column_None)

lemma if_Some_None: "(if b then Some e else x) = None \<longleftrightarrow> \<not> b \<and> x = None"
  by simp

lemma case_Some_None: "(case a of None \<Rightarrow> x | Some e \<Rightarrow> Some e) = None \<longleftrightarrow> a = None \<and> x = None"
  by (cases a) simp_all

lemma all_upt_None: "(\<forall>x \<in> set [0..<n]. P x) \<longleftrightarrow> (\<forall>x < n. P x)"
  by auto

lemma validate_None: "validate m = None \<longleftrightarrow> shapes_ok m \<and> matrices_ok m \<and> bounds_ok m"
  unfolding validate_def Let_def if_Some_None case_Some_None first_error_None
    check_matrix_column_None check_hessian_None check_column_bounds_None check_row_bounds_None
    shapes_ok_def matrices_ok_def bounds_ok_def all_upt_None de_Morgan_conj not_not conj_assoc
  by (simp only: simp_thms)

text \<open>
  From the triplets to the check: a model whose matrix was built with a NaN anywhere is refused,
  whatever the drop tolerance and the order of the sort.
\<close>

theorem nan_triplet_refused:
  assumes "build_ok b" "\<not> overflowed b" "is_sort srt" "(c, r, NaN) \<in> set (triplets b)"
  shows "validate (m\<lparr>matrix := finalize srt tol b\<rparr>) \<noteq> None"
proof
  assume "validate (m\<lparr>matrix := finalize srt tol b\<rparr>) = None"
  then have "matrices_ok (m\<lparr>matrix := finalize srt tol b\<rparr>)" unfolding validate_None by blast
  then have "ncols b = num_cols m" "\<forall>j < num_cols m. \<forall>(i, v) \<in> set (column (finalize srt tol b) j). isfinite v"
    by (simp_all add: matrices_ok_def num_cols_def)
  then show False using finalize_nan_stored[OF assms] by force
qed

section \<open>The objective in exact arithmetic\<close>

definition symmetric_entry :: "'a::zero sparse_matrix \<Rightarrow> nat \<Rightarrow> nat \<Rightarrow> 'a" where
  "symmetric_entry q i j = (if j \<le> i then entry_at q i j else entry_at q j i)"

definition exact_objective :: "'a::field model \<Rightarrow> 'a list \<Rightarrow> 'a" where
  "exact_objective m x = objective_offset m + (\<Sum>j<num_cols m. col_cost m ! j * x ! j) +
     (\<Sum>i<num_cols m. \<Sum>j<num_cols m. x ! i * symmetric_entry (hessian m) i j * x ! j) / 2"

lemma fold_add_sum:
  "fold (\<lambda>j s. s + f j) [0..<n] a = a + (\<Sum>j<n. f j :: 'a::comm_monoid_add)"
  by (induction n) (simp_all add: add.assoc)

lemma foldl_add_sum_list:
  "foldl (\<lambda>q e. q + f e) a es = a + sum_list (map f es :: 'a::comm_monoid_add list)"
  by (induction es arbitrary: a) (simp_all add: add.assoc)

lemma half_field [simp]: "(half :: 'a::linordered_field) = 1 / 2"
  by (simp add: half_def)

lemma triangle_sum:
  fixes f :: "nat \<Rightarrow> nat \<Rightarrow> 'a::comm_monoid_add"
  shows "(\<Sum>i<n. \<Sum>j<n. if j < i then f i j else 0) = (\<Sum>j<n. \<Sum>i<n. if j < i then f i j else 0)"
  by (rule sum.swap)

text \<open>A column of the lower triangle, summed against \<open>x\<close>: half the diagonal plus what is below it.\<close>

lemma lower_column_sum:
  fixes q :: "'a::linordered_field sparse_matrix"
  assumes ok: "csc_ok q" and j: "j < ncols q" and sq: "nrows q = ncols q"
    and low: "\<forall>(i, v) \<in> set (column q j). j \<le> i"
  shows "sum_list (map (quadratic_term x j) (column q j)) =
    (\<Sum>i<ncols q. if j < i then x ! i * entry_at q i j * x ! j else 0) + x ! j * entry_at q j j * x ! j / 2"
proof -
  let ?w = "\<lambda>i. (if i = j then 1 / 2 else 1) * x ! i * x ! j"
  let ?g = "map ?w [0..<ncols q]"
  have r: "\<forall>e \<in> set (column q j). fst e < ncols q"
    using ok j sq by (auto simp: csc_ok_def)
  have "sum_list (map (quadratic_term x j) (column q j)) = gather_dot (column q j) ?g"
    using r by (auto simp: gather_dot_sum quadratic_term_def Let_def case_prod_beta ac_simps
        intro!: arg_cong[where f = sum_list])
  also have "\<dots> = (\<Sum>i<ncols q. entry_at q i j * ?g ! i)"
    using column_dot[OF ok j, of ?g] sq by simp
  also have "\<dots> = (\<Sum>i<ncols q. (if j < i then x ! i * entry_at q i j * x ! j else 0) +
      (if i = j then x ! j * entry_at q j j * x ! j / 2 else 0))"
  proof (rule sum.cong[OF refl])
    fix i assume "i \<in> {..<ncols q}"
    have "entry_at q i j = 0" if "i < j"
    proof (rule entry_at_None)
      show "i \<notin> fst ` set (column q j)" using low that by force
    qed
    with \<open>i \<in> {..<ncols q}\<close> show "entry_at q i j * ?g ! i =
        (if j < i then x ! i * entry_at q i j * x ! j else 0) +
        (if i = j then x ! j * entry_at q j j * x ! j / 2 else 0)"
      by (cases i j rule: linorder_cases) (auto simp: ac_simps)
  qed
  also have "\<dots> = (\<Sum>i<ncols q. if j < i then x ! i * entry_at q i j * x ! j else 0) +
      x ! j * entry_at q j j * x ! j / 2"
    using j by (simp add: sum.distrib sum.delta)
  finally show ?thesis .
qed

lemma symmetric_sum:
  fixes q :: "'a::linordered_field sparse_matrix"
  shows "(\<Sum>i<n. \<Sum>j<n. x ! i * symmetric_entry q i j * x ! j) =
    2 * (\<Sum>j<n. \<Sum>i<n. if j < i then x ! i * entry_at q i j * x ! j else 0) +
    (\<Sum>j<n. x ! j * entry_at q j j * x ! j)"
proof -
  let ?L = "\<lambda>i j. if j < i then x ! i * entry_at q i j * x ! j else 0"
  have "(\<Sum>i<n. \<Sum>j<n. x ! i * symmetric_entry q i j * x ! j) =
      (\<Sum>i<n. \<Sum>j<n. ?L i j + ?L j i + (if i = j then x ! j * entry_at q j j * x ! j else 0))"
    by (intro sum.cong refl) (auto simp: symmetric_entry_def ac_simps)
  also have "\<dots> = (\<Sum>i<n. \<Sum>j<n. ?L i j) + (\<Sum>i<n. \<Sum>j<n. ?L j i) +
      (\<Sum>j<n. x ! j * entry_at q j j * x ! j)"
    by (simp add: sum.distrib sum.delta')
  also have "(\<Sum>i<n. \<Sum>j<n. ?L i j) = (\<Sum>j<n. \<Sum>i<n. ?L i j)" by (rule sum.swap)
  finally show ?thesis by simp
qed

text \<open>
  C36. In exact arithmetic the objective of a model with a lower-triangular Hessian is
  \<open>offset + c\<cdot>x + (1/2) x\<^sup>T Q x\<close> with \<open>Q\<close> the symmetric matrix the stored triangle stands for: the
  diagonal weighs a half and each stored off-diagonal entry counts for its mirror image too.
\<close>

theorem objective_exact:
  fixes m :: "'a::linordered_field model"
  assumes ok: "csc_ok (hessian m)" "frozen (hessian m)"
    and sq: "nrows (hessian m) = num_cols m" "ncols (hessian m) = num_cols m"
    and low: "\<forall>j < num_cols m. \<forall>(i, v) \<in> set (column (hessian m) j). j \<le> i"
  shows "evaluate_objective m x = exact_objective m x"
proof -
  let ?q = "hessian m" and ?n = "num_cols m"
  let ?quad = "\<Sum>j<?n. sum_list (map (quadratic_term x j) (column ?q j))"
  have q: "fold (\<lambda>j s. foldl (\<lambda>q e. q + quadratic_term x j e) s (column ?q j)) [0..<ncols ?q] 0 = ?quad"
    unfolding foldl_add_sum_list by (simp only: fold_add_sum sq(2) add_0_left)
  have z: "?quad = 0" if "\<not> has_quadratic_objective m"
  proof -
    have "vals ?q = []" using that ok(2) by (simp add: has_quadratic_objective_def num_nonzeros_def)
    then have "column ?q j = []" for j by (simp add: column_def segment_def)
    then show ?thesis by simp
  qed
  have c: "?quad = (\<Sum>j<?n. (\<Sum>i<?n. if j < i then x ! i * entry_at ?q i j * x ! j else 0) +
      x ! j * entry_at ?q j j * x ! j / 2)"
    using lower_column_sum[OF ok(1)] sq low by (intro sum.cong refl) auto
  have "(\<Sum>i<?n. \<Sum>j<?n. x ! i * symmetric_entry ?q i j * x ! j) / 2 = ?quad"
    unfolding symmetric_sum c by (simp add: sum.distrib sum_divide_distrib add_divide_distrib)
  moreover have "evaluate_objective m x =
      objective_offset m + (\<Sum>j<?n. col_cost m ! j * x ! j) + ?quad"
    using z unfolding evaluate_objective_def Let_def q fold_add_sum
    by (cases "has_quadratic_objective m") simp_all
  ultimately show ?thesis by (simp add: exact_objective_def)
qed

section \<open>What the measured primal infeasibility means\<close>

text \<open>The violations \<open>recompute_quality\<close> looks at for one value between two bounds.\<close>

definition inside_bounds :: "double \<Rightarrow> double \<Rightarrow> double \<Rightarrow> double \<Rightarrow> bool" where
  "inside_bounds t lo hi v \<longleftrightarrow> (is_finite_bound lo \<longrightarrow> lo - v \<le> t) \<and> (is_finite_bound hi \<longrightarrow> v - hi \<le> t)"

lemma record_violation_le:
  assumes "\<not> isnan v" "\<not> isnan (fst acc)" "0 \<le> t"
  shows "fst (record_violation v sc acc) \<le> t \<longleftrightarrow> fst acc \<le> t \<and> v \<le> t"
    and "\<not> isnan (fst (record_violation v sc acc))"
proof -
  obtain p ps where acc: "acc = (p, ps)" by force
  show "fst (record_violation v sc acc) \<le> t \<longleftrightarrow> fst acc \<le> t \<and> v \<le> t"
    using assms acc dleq_trans[of v 0 t] dleq_trans[of p v t] dless_imp_leq[of p v] dleq_trans[of v p t]
      not_dless[of p v]
    by (auto simp: cmax_def)
  show "\<not> isnan (fst (record_violation v sc acc))"
    using assms acc by (auto simp: cmax_def)
qed

lemma record_bounds_le:
  assumes "is_finite_bound lo \<Longrightarrow> \<not> isnan (lo - v)" "is_finite_bound hi \<Longrightarrow> \<not> isnan (v - hi)"
    "\<not> isnan (fst acc)" "0 \<le> t"
  shows "fst (record_bounds lo hi v sc acc) \<le> t \<longleftrightarrow> fst acc \<le> t \<and> inside_bounds t lo hi v"
    and "\<not> isnan (fst (record_bounds lo hi v sc acc))"
  using assms record_violation_le[where t = t]
  by (auto simp: record_bounds_def inside_bounds_def Let_def)

lemma record_bounds_fold:
  assumes "\<forall>j \<in> set js. (is_finite_bound (lo j) \<longrightarrow> \<not> isnan (lo j - v j)) \<and>
      (is_finite_bound (hi j) \<longrightarrow> \<not> isnan (v j - hi j))"
    and "\<not> isnan (fst acc)" "0 \<le> t"
  shows "(fst (fold (\<lambda>j. record_bounds (lo j) (hi j) (v j) (sc j)) js acc) \<le> t \<longleftrightarrow>
      fst acc \<le> t \<and> (\<forall>j \<in> set js. inside_bounds t (lo j) (hi j) (v j))) \<and>
    \<not> isnan (fst (fold (\<lambda>j. record_bounds (lo j) (hi j) (v j) (sc j)) js acc))"
  using assms
proof (induction js arbitrary: acc)
  case (Cons j js)
  let ?a = "record_bounds (lo j) (hi j) (v j) (sc j) acc"
  have a: "fst ?a \<le> t \<longleftrightarrow> fst acc \<le> t \<and> inside_bounds t (lo j) (hi j) (v j)" "\<not> isnan (fst ?a)"
    using record_bounds_le[of "lo j" "v j" "hi j" acc t "sc j"] Cons.prems by auto
  show ?case using Cons.IH[of ?a] Cons.prems a by auto
qed simp

lemma minus_not_nan: "\<not> isnan x \<Longrightarrow> \<not> isnan y \<Longrightarrow> isfinite x \<or> isfinite y \<Longrightarrow> \<not> isnan (x - y :: double)"
  by (cases x; cases y) (auto simp: minus_double_def dadd_def dneg_def)

lemma recompute_primal:
  assumes "length (col_value s) = num_cols m"
  shows "primal_infeasibility (recompute_quality m s) =
      fst (primal_quality m (col_value s) (row_activity (recompute_quality m s)))"
    and "integrality_violation (recompute_quality m s) = integrality_quality m (col_value s)"
    and "objective (recompute_quality m s) = evaluate_objective m (col_value s)"
  using assms by (auto simp: recompute_quality_def Let_def split: prod.split)

text \<open>
  On a model that passes the self-check and a point without NaN, whose activities are not NaN,
  the measured primal infeasibility is at most a tolerance exactly when every finite bound on every
  column and row is violated, in the arithmetic of the machine, by at most that tolerance. Nothing
  that counts is skipped and nothing else is counted.
\<close>

theorem primal_infeasibility_exact:
  assumes valid: "validate m = None" and len: "length (col_value s) = num_cols m"
    and x: "\<forall>v \<in> set (col_value s). \<not> isnan v"
    and acts: "\<forall>i < num_rows m. \<not> isnan (row_activity (recompute_quality m s) ! i)" and t: "0 \<le> t"
  shows "primal_infeasibility (recompute_quality m s) \<le> t \<longleftrightarrow>
    (\<forall>j < num_cols m. inside_bounds t (col_lower m ! j) (col_upper m ! j) (col_value s ! j)) \<and>
    (\<forall>i < num_rows m. inside_bounds t (row_lower m ! i) (row_upper m ! i) (row_activity (recompute_quality m s) ! i))"
proof -
  let ?a = "row_activity (recompute_quality m s)"
  have b: "bounds_ok m" using valid validate_None by blast
  have fin: "isfinite v" if "is_finite_bound v" "\<not> isnan v" for v
    using finite_bound_cases that by blast
  have "\<forall>j \<in> set [0..<num_cols m].
      (is_finite_bound (col_lower m ! j) \<longrightarrow> \<not> isnan (col_lower m ! j - col_value s ! j)) \<and>
      (is_finite_bound (col_upper m ! j) \<longrightarrow> \<not> isnan (col_value s ! j - col_upper m ! j))"
  proof
    fix j assume "j \<in> set [0..<num_cols m]"
    then have j: "j < num_cols m" by simp
    then have "\<not> isnan (col_lower m ! j)" "\<not> isnan (col_upper m ! j)" "\<not> isnan (col_value s ! j)"
      using b x len dleq_not_nan unfolding bounds_ok_def by (blast, blast, simp)
    then show "(is_finite_bound (col_lower m ! j) \<longrightarrow> \<not> isnan (col_lower m ! j - col_value s ! j)) \<and>
        (is_finite_bound (col_upper m ! j) \<longrightarrow> \<not> isnan (col_value s ! j - col_upper m ! j))"
      using fin minus_not_nan by blast
  qed
  note cols = record_bounds_fold[OF this, of "(0, 0)" t "\<lambda>j. \<bar>col_value s ! j\<bar>"]
  have "\<forall>i \<in> set [0..<num_rows m].
      (is_finite_bound (row_lower m ! i) \<longrightarrow> \<not> isnan (row_lower m ! i - ?a ! i)) \<and>
      (is_finite_bound (row_upper m ! i) \<longrightarrow> \<not> isnan (?a ! i - row_upper m ! i))"
  proof
    fix i assume "i \<in> set [0..<num_rows m]"
    then have "\<not> isnan (row_lower m ! i)" "\<not> isnan (row_upper m ! i)" "\<not> isnan (?a ! i)"
      using b acts dleq_not_nan unfolding bounds_ok_def by (auto)
    then show "(is_finite_bound (row_lower m ! i) \<longrightarrow> \<not> isnan (row_lower m ! i - ?a ! i)) \<and>
        (is_finite_bound (row_upper m ! i) \<longrightarrow> \<not> isnan (?a ! i - row_upper m ! i))"
      using fin minus_not_nan by blast
  qed
  note rows = record_bounds_fold[OF this, of _ t "\<lambda>i. row_scales m (col_value s) ! i"]
  show ?thesis
    using cols rows t by (auto simp: recompute_primal(1)[OF len] primal_quality_def)
qed

text \<open>
  A NaN in the point is measured as no violation at all: every comparison in the measurement is
  false on it, so a model without rows and any bounds whatever reports zero primal infeasibility and
  zero integrality violation for a point of NaNs.
\<close>

theorem nan_point_measures_feasible:
  assumes len: "length (col_value s) = num_cols m" and x: "\<forall>v \<in> set (col_value s). isnan v"
    and rows: "num_rows m = 0"
  shows "primal_infeasibility (recompute_quality m s) = 0 \<and>
    integrality_violation (recompute_quality m s) = 0"
proof -
  have v: "col_value s ! j = NaN" if "j < num_cols m" for j
    using x len that by (metis isnan_iff nth_mem)
  have n: "(NaN :: double) - x = NaN" "x - (NaN :: double) = NaN" "\<not> x \<le> NaN" "\<not> NaN \<le> x"
    "cmax x (NaN :: double) = x" "\<bar>NaN :: double\<bar> = NaN" for x :: double
    by (auto simp: minus_double_def dadd_def dneg_def less_eq_double_def dleq_def cmax_def
        less_double_def dless_def)
  have r0: "fst (record_bounds lo hi NaN sc a) = fst a" for lo hi sc a
    by (cases a) (simp add: record_bounds_def n Let_def)
  have "fst (fold (\<lambda>j. record_bounds (col_lower m ! j) (col_upper m ! j) (col_value s ! j) \<bar>col_value s ! j\<bar>) js a) = fst a"
    if "\<forall>j \<in> set js. j < num_cols m" for js a
    using that by (induction js arbitrary: a) (simp_all add: v r0)
  then have p: "primal_infeasibility (recompute_quality m s) = 0"
    by (simp add: recompute_primal(1)[OF len] primal_quality_def rows)
  have "dround NaN = NaN" by (simp add: dround_def)
  then have "fold (\<lambda>j acc. if col_type m ! j = kInteger then cmax acc \<bar>col_value s ! j - dround (col_value s ! j)\<bar> else acc) js a = a"
    if "\<forall>j \<in> set js. j < num_cols m" for js a
    using that by (induction js arbitrary: a) (simp_all add: v n)
  then show ?thesis using p by (simp add: recompute_primal(2)[OF len] integrality_quality_def)
qed

section \<open>What the fingerprint tells apart\<close>

text \<open>The FNV prime is odd, so a step of the hash is a bijection of the state for any byte.\<close>

lemma prime_cancel: "x * kFnvPrime = y * kFnvPrime \<longleftrightarrow> x = y"
proof
  have inv: "kFnvPrime * 14886173955864302971 = 1"
    by (simp add: kFnvPrime_def)
  assume "x * kFnvPrime = y * kFnvPrime"
  then have "x * kFnvPrime * 14886173955864302971 = y * kFnvPrime * 14886173955864302971" by simp
  then show "x = y" by (simp only: mult.assoc inv mult_1_right)
qed simp

lemma xor_word_cancel: "xor x a = xor x b \<longleftrightarrow> a = (b :: 64 word)"
proof
  assume "xor x a = xor x b"
  then have "xor x (xor x a) = xor x (xor x b)" by simp
  then show "a = b" by (simp flip: xor.assoc)
qed simp

lemma mix_bytes_inj: "mix_bytes bs x = mix_bytes bs y \<longleftrightarrow> x = y"
proof (induction bs arbitrary: x y)
  case (Cons b bs)
  have "xor x (ucast b) = xor y (ucast b) \<longleftrightarrow> x = y"
    using xor_word_cancel[of "ucast b" x y] by (simp add: xor.commute)
  then show ?case using Cons by (simp add: mix_bytes_def prime_cancel)
qed (simp add: mix_bytes_def)

lemma fold_mix_inj: "(\<And>v x y. f v x = f v y \<longleftrightarrow> x = y) \<Longrightarrow> fold f vs x = fold f vs y \<longleftrightarrow> x = (y :: 64 word)"
  by (induction vs arbitrary: x y) simp_all

lemma mixes_inj [simp]:
  "mix_index n x = mix_index n y \<longleftrightarrow> x = y" "mix_double bits v x = mix_double bits v y \<longleftrightarrow> x = y"
  "mix_doubles bits vs x = mix_doubles bits vs y \<longleftrightarrow> x = y"
  "mix_matrix bits a x = mix_matrix bits a y \<longleftrightarrow> x = y"
  "fold (\<lambda>t. mix_bytes (type_bytes t)) ts x = fold (\<lambda>t. mix_bytes (type_bytes t)) ts y \<longleftrightarrow> x = y"
proof -
  show i: "mix_index n x = mix_index n y \<longleftrightarrow> x = y" for n x y by (simp add: mix_index_def mix_bytes_inj)
  show d: "mix_double bits v x = mix_double bits v y \<longleftrightarrow> x = y" for v x y
    by (simp add: mix_double_def mix_bytes_inj)
  show "mix_doubles bits vs x = mix_doubles bits vs y \<longleftrightarrow> x = y"
    using fold_mix_inj[of "mix_double bits" vs] d i by (simp add: mix_doubles_def)
  show "mix_matrix bits a x = mix_matrix bits a y \<longleftrightarrow> x = y"
    using fold_mix_inj[of "mix_double bits"] fold_mix_inj[of mix_index] d i by (simp add: mix_matrix_def)
  show "fold (\<lambda>t. mix_bytes (type_bytes t)) ts x = fold (\<lambda>t. mix_bytes (type_bytes t)) ts y \<longleftrightarrow> x = y"
    by (rule fold_mix_inj) (simp add: mix_bytes_inj)
qed

lemma sense_mix: "mix_bytes (sense_bytes kMinimize) h \<noteq> mix_bytes (sense_bytes kMaximize) h"
proof -
  have b: "sense_bytes kMinimize = [0, 0, 0, 0]" "sense_bytes kMaximize = [1, 0, 0, 0]"
    by (simp_all add: sense_bytes_def bytes32_def upt_rec numeral_eq_Suc)
  show ?thesis
    unfolding b using mix_bytes_inj[of "[0, 0, 0]"] xor_word_cancel[of h 0 1]
    by (simp add: mix_bytes_def prime_cancel)
qed

lemma type_mix: "mix_bytes (type_bytes t) h = mix_bytes (type_bytes u) h \<longleftrightarrow> t = u"
proof -
  have "mix_bytes (type_bytes kContinuous) h \<noteq> mix_bytes (type_bytes kInteger) h"
    using xor_word_cancel[of h 0 1] by (simp add: mix_bytes_def type_bytes_def prime_cancel)
  then show ?thesis by (cases t; cases u) auto
qed

lemma sense_mix_iff: "mix_bytes (sense_bytes a) h = mix_bytes (sense_bytes b) h \<longleftrightarrow> a = b"
  using sense_mix[of h] by (cases a; cases b) auto

text \<open>
  Two models that differ only in the objective sense, or only in the integrality of one column,
  never share a fingerprint, however doubles are laid out in memory; and the fingerprint ignores
  every name.
\<close>

theorem fingerprint_separates:
  "(fingerprint bits (m\<lparr>sense := a\<rparr>) = fingerprint bits (m\<lparr>sense := b\<rparr>) \<longleftrightarrow> a = b) \<and>
   (fingerprint bits (m\<lparr>col_type := ts @ t # us\<rparr>) = fingerprint bits (m\<lparr>col_type := ts @ u # us\<rparr>)
      \<longleftrightarrow> t = u) \<and>
   fingerprint bits (m\<lparr>col_names := cn, row_names := rn, model_name := nm, source_path := sp\<rparr>) =
     fingerprint bits m"
proof (intro conjI)
  show "fingerprint bits (m\<lparr>sense := a\<rparr>) = fingerprint bits (m\<lparr>sense := b\<rparr>) \<longleftrightarrow> a = b"
    by (simp add: fingerprint_def Let_def num_cols_def num_rows_def sense_mix_iff)
  show "fingerprint bits (m\<lparr>col_type := ts @ t # us\<rparr>) = fingerprint bits (m\<lparr>col_type := ts @ u # us\<rparr>)
      \<longleftrightarrow> t = u"
    by (simp add: fingerprint_def Let_def num_cols_def num_rows_def type_mix)
qed (simp add: fingerprint_def Let_def num_cols_def num_rows_def)

section \<open>Witnesses\<close>

definition demo_hessian :: "rat sparse_matrix" where
  "demo_hessian = empty_sparse\<lparr>nrows := 2, ncols := 2, frozen := True, column_starts := [0, 2, 3],
     row_indices := [0, 1, 1], vals := [2, 3, 4]\<rparr>"

definition demo_qp :: "rat model" where
  "demo_qp = empty_model\<lparr>objective_offset := 1, col_cost := [1, - 1], hessian := demo_hessian\<rparr>"

lemma demo_hessian_columns: "column demo_hessian 0 = [(0, 2), (1, 3)]" "column demo_hessian (Suc 0) = [(1, 4)]"
  by (simp_all add: column_def demo_hessian_def segment_def Let_def)

lemma demo_hessian_dims: "ncols demo_hessian = 2" "nrows demo_hessian = 2" "frozen demo_hessian"
    "column_starts demo_hessian = [0, 2, 3]" "row_indices demo_hessian = [0, 1, 1]"
    "vals demo_hessian = [2, 3, 4]"
  by (simp_all add: demo_hessian_def)

lemma demo_hessian_ok: "csc_ok demo_hessian"
proof -
  have "map (column demo_hessian) [0..<2] = [[(0, 2), (1, 3)], [(1, 4)]]"
    by (simp add: upt_rec demo_hessian_columns)
  then have "stores demo_hessian (map (column demo_hessian) [0..<ncols demo_hessian])"
    by (simp add: stores_def demo_hessian_dims upt_rec)
  then show ?thesis
    by (auto simp: csc_ok_def demo_hessian_dims less_2_cases_iff demo_hessian_columns)
qed

theorem objective_exact_witness: "evaluate_objective demo_qp [3, 5] = 1 + (3 - 5) + (18 + 90 + 100) / 2"
proof -
  have "evaluate_objective demo_qp [3, 5] = exact_objective demo_qp [3, 5]"
  proof (rule objective_exact)
    show "csc_ok (hessian demo_qp)" by (simp add: demo_qp_def demo_hessian_ok)
    show "\<forall>j < num_cols demo_qp. \<forall>(i, v) \<in> set (column (hessian demo_qp) j). j \<le> i"
      by (auto simp: demo_qp_def num_cols_def empty_model_def less_Suc_eq demo_hessian_columns)
  qed (simp_all add: demo_qp_def demo_hessian_def num_cols_def)
  also have "\<dots> = 1 + (3 - 5) + (18 + 90 + 100) / 2"
    by (simp add: exact_objective_def demo_qp_def num_cols_def symmetric_entry_def entry_at_def
        demo_hessian_columns numeral_2_eq_2 lessThan_Suc)
  finally show ?thesis .
qed

definition demo_box :: "double model" where
  "demo_box = empty_model\<lparr>col_cost := [1], col_lower := [0], col_upper := [Fin 10],
     col_type := [kContinuous],
     matrix := empty_sparse\<lparr>ncols := 1, frozen := True, column_starts := [0, 0]\<rparr>\<rparr>"

lemma demo_box_dims: "num_cols demo_box = 1" "num_rows demo_box = 0"
  by (simp_all add: demo_box_def num_cols_def num_rows_def empty_model_def)

lemma demo_box_valid: "validate demo_box = None"
  unfolding validate_None
  by (auto simp: shapes_ok_def matrices_ok_def bounds_ok_def demo_box_dims)
     (auto simp: demo_box_def empty_model_def empty_sparse_def column_def segment_def
        has_quadratic_objective_def num_nonzeros_def num_rows_def)

theorem primal_infeasibility_exact_witness:
  "primal_infeasibility (recompute_quality demo_box (empty_solution\<lparr>col_value := [Fin 12]\<rparr>)) \<le> Fin 2 \<and>
   \<not> primal_infeasibility (recompute_quality demo_box (empty_solution\<lparr>col_value := [Fin 12]\<rparr>)) \<le> Fin 1"
proof -
  let ?s = "empty_solution\<lparr>col_value := [Fin 12]\<rparr>"
  have "primal_infeasibility (recompute_quality demo_box ?s) \<le> Fin t \<longleftrightarrow> 2 \<le> t" if "0 \<le> t" for t
    using that by (subst primal_infeasibility_exact[OF demo_box_valid])
      (auto simp: demo_box_dims inside_bounds_def is_finite_bound_def,
        auto simp: demo_box_def empty_model_def zero_double_def)
  from this[of 2] this[of 1] show ?thesis by simp
qed

theorem nan_point_measures_feasible_witness:
  "primal_infeasibility (recompute_quality demo_box (empty_solution\<lparr>col_value := [NaN]\<rparr>)) = 0"
  using nan_point_measures_feasible[of "empty_solution\<lparr>col_value := [NaN]\<rparr>" demo_box]
  by (simp add: demo_box_dims)

theorem nan_triplet_refused_witness:
  "validate (demo_box\<lparr>matrix := finalize sort_key kZeroDrop (demo_build empty_sparse NaN 1)\<rparr>) \<noteq> None"
  by (rule nan_triplet_refused[where c = 0 and r = 1]) auto

end
