(* ===== verification/StopLimits.thy ===== *)
theory StopLimits
  imports Model Options "HOL-Library.Monad_Syntax"
begin

text \<open>
  What stops a solve: \<open>src/core/resource_limits.cpp\<close> (what each limit means, which one wins),
  \<open>src/core/stop_controller.hpp\<close> with \<open>include/sankhya/solve_control.hpp\<close> (the check made at a
  safe point), \<open>src/core/deterministic_mode.cpp\<close> and \<open>src/core/engine_selection.cpp\<close>. Reading an
  option goes through the typed accessors, so each of these can abort on an unknown name: they
  are in the option monad, and the lemmas show that on an option set of the right types they
  return. A logger call is the warning it prints, returned in a list.
\<close>

section \<open>Limit reasons\<close>

fun limit_reason_string :: "limit_reason \<Rightarrow> string" where
  "limit_reason_string kNone = ''none''"
| "limit_reason_string kInterrupt = ''user_interrupt''"
| "limit_reason_string kTime = ''time_limit''"
| "limit_reason_string kIterations = ''iteration_limit''"
| "limit_reason_string kNodes = ''node_limit''"

fun status_for :: "limit_reason \<Rightarrow> solve_status" where
  "status_for kNone = kNotSolved"
| "status_for kInterrupt = kInterrupted"
| "status_for kTime = kTimeLimit"
| "status_for kIterations = kIterationLimit"
| "status_for kNodes = kNodeLimit"

section \<open>ResourceLimits\<close>

record resource_limits =
  has_time_limit :: bool
  time_limit :: double
  iteration_limit :: int
  node_limit :: int

datatype limit_warning = NotADuration double | IterationsNotACount int | NodesNotACount int

definition no_limits :: resource_limits where
  "no_limits = \<lparr>has_time_limit = False, time_limit = 0, iteration_limit = - 1, node_limit = - 1\<rparr>"

definition kNoWallClockLimit :: double where
  "kNoWallClockLimit = dbl_max"

text \<open>The three steps of the constructor, on the values of the three options.\<close>

definition read_time_limit :: "double \<Rightarrow> resource_limits \<Rightarrow> resource_limits \<times> limit_warning list" where
  "read_time_limit seconds l =
     (if isnan seconds \<or> seconds < 0 then (l, [NotADuration seconds])
      else if isfinite seconds \<and> seconds < kNoWallClockLimit
      then (l\<lparr>has_time_limit := True, time_limit := seconds\<rparr>, [])
      else (l, []))"

definition read_iteration_limit :: "int \<Rightarrow> resource_limits \<Rightarrow> resource_limits \<times> limit_warning list" where
  "read_iteration_limit k l =
     (if k < - 1 then (l, [IterationsNotACount k]) else (l\<lparr>iteration_limit := k\<rparr>, []))"

definition read_node_limit :: "int \<Rightarrow> resource_limits \<Rightarrow> resource_limits \<times> limit_warning list" where
  "read_node_limit k l =
     (if k < - 1 then (l, [NodesNotACount k]) else (l\<lparr>node_limit := k\<rparr>, []))"

definition resource_limits_of :: "options \<Rightarrow> (resource_limits \<times> limit_warning list) option" where
  "resource_limits_of opts = do {
     seconds \<leftarrow> get_double opts ''time_limit'';
     its \<leftarrow> get_int opts ''iteration_limit'';
     nodes \<leftarrow> get_int opts ''node_limit'';
     Some (let (l1, w1) = read_time_limit seconds no_limits;
               (l2, w2) = read_iteration_limit its l1;
               (l3, w3) = read_node_limit nodes l2
           in (l3, w1 @ w2 @ w3))
   }"

definition time_exhausted :: "resource_limits \<Rightarrow> double \<Rightarrow> bool" where
  "time_exhausted l elapsed \<longleftrightarrow>
     (if \<not> has_time_limit l then False else time_limit l \<le> 0 \<or> time_limit l < elapsed)"

definition iterations_exhausted :: "resource_limits \<Rightarrow> int \<Rightarrow> bool" where
  "iterations_exhausted l n \<longleftrightarrow> 0 \<le> iteration_limit l \<and> iteration_limit l \<le> n"

definition nodes_exhausted :: "resource_limits \<Rightarrow> int \<Rightarrow> bool" where
  "nodes_exhausted l n \<longleftrightarrow> 0 \<le> node_limit l \<and> node_limit l \<le> n"

definition exhausted :: "resource_limits \<Rightarrow> double \<Rightarrow> int \<Rightarrow> int \<Rightarrow> limit_reason" where
  "exhausted l elapsed its nodes =
     (if time_exhausted l elapsed then kTime
      else if iterations_exhausted l its then kIterations
      else if nodes_exhausted l nodes then kNodes
      else kNone)"

definition remaining_seconds :: "resource_limits \<Rightarrow> double \<Rightarrow> double" where
  "remaining_seconds l elapsed =
     (if \<not> has_time_limit l then kNoWallClockLimit
      else let left = time_limit l - elapsed in if 0 < left then left else 0)"

text \<open>The line a stopped solve prints, as the template and the numbers put in it.\<close>

datatype limit_message =
    NoLimitMessage
  | StoppedByInterrupt double int int
  | StoppedAtTime double double int int
  | StoppedAtIterations int int double
  | StoppedAtNodes int int double

fun describe :: "resource_limits \<Rightarrow> limit_reason \<Rightarrow> double \<Rightarrow> int \<Rightarrow> int \<Rightarrow> limit_message" where
  "describe l kNone elapsed its nodes = NoLimitMessage"
| "describe l kInterrupt elapsed its nodes = StoppedByInterrupt elapsed its nodes"
| "describe l kTime elapsed its nodes = StoppedAtTime (time_limit l) elapsed its nodes"
| "describe l kIterations elapsed its nodes = StoppedAtIterations (iteration_limit l) its elapsed"
| "describe l kNodes elapsed its nodes = StoppedAtNodes (node_limit l) nodes elapsed"

section \<open>SolveControl and StopController\<close>

text \<open>
  \<open>last_callback\<close> and \<open>now\<close> are readings of the steady clock in nanoseconds. The flag may be set
  from another thread at any time.
\<close>

record solve_control =
  start_col_status :: "basis_status list"
  start_row_status :: "basis_status list"
  interrupt_requested :: bool
  callback_seen :: bool
  last_callback :: int

definition has_starting_basis :: "solve_control \<Rightarrow> bool" where
  "has_starting_basis c \<longleftrightarrow> start_col_status c \<noteq> [] \<or> start_row_status c \<noteq> []"

definition kCallbackInterval :: int where
  "kCallbackInterval = 100 * 1000000"

definition callback_due :: "int \<Rightarrow> solve_control \<Rightarrow> bool \<times> solve_control" where
  "callback_due now c =
     (if callback_seen c \<and> now - last_callback c < kCallbackInterval then (False, c)
      else (True, c\<lparr>callback_seen := True, last_callback := now\<rparr>))"

definition interrupt :: "solve_control \<Rightarrow> solve_control" where
  "interrupt c = c\<lparr>interrupt_requested := True\<rparr>"

definition control_reset :: "solve_control \<Rightarrow> solve_control" where
  "control_reset c = c\<lparr>interrupt_requested := False, callback_seen := False\<rparr>"

text \<open>
  One check at a safe point. The control and its callback may each be absent. What happens while
  the callback runs is the parameter \<open>callback\<close>: the code it returns and whether an interrupt
  was requested meanwhile, by the callback itself or by another thread. The result is the reason
  to stop, or \<open>None\<close> to go on.
\<close>

definition should_stop ::
    "(double \<Rightarrow> int \<times> bool) option \<Rightarrow> resource_limits \<Rightarrow> double \<Rightarrow> int \<Rightarrow> solve_control option \<Rightarrow>
     limit_reason option \<times> solve_control option" where
  "should_stop callback l elapsed now control =
     (case control of
        None \<Rightarrow> (if time_exhausted l elapsed then Some kTime else None, None)
      | Some c \<Rightarrow>
          if interrupt_requested c then (Some kInterrupt, control)
          else if time_exhausted l elapsed then (Some kTime, control)
          else (case callback of
              None \<Rightarrow> (None, control)
            | Some call \<Rightarrow>
                (case callback_due now c of (due, c1) \<Rightarrow>
                   if \<not> due then (None, Some c1)
                   else (case call elapsed of (code, raised) \<Rightarrow>
                     let c2 = (if raised then interrupt c1 else c1) in
                     if code \<noteq> 0 then (Some kInterrupt, Some (interrupt c2))
                     else if interrupt_requested c2 then (Some kInterrupt, Some c2)
                     else (None, Some c2)))))"

section \<open>Deterministic mode\<close>

datatype deterministic_warning = TimeLimitRefused double | PolishSecondsRefused double
  | ManyThreads int

text \<open>\<open>!=\<close> on doubles is the negation of \<open>==\<close>: a NaN differs from every default.\<close>

definition apply_deterministic_mode ::
    "bool \<Rightarrow> options \<Rightarrow> (options \<times> deterministic_warning list) option" where
  "apply_deterministic_mode ndebug requested = do {
     det \<leftarrow> get_bool requested ''deterministic'';
     if \<not> det then Some (requested, [])
     else do {
       tl \<leftarrow> get_double requested ''time_limit'';
       dtl \<leftarrow> get_double default_options ''time_limit'';
       e1 \<leftarrow> (if \<not> feq tl dtl then set_double ndebug requested ''time_limit'' dtl else Some requested);
       ps \<leftarrow> get_double requested ''polish_max_seconds'';
       dps \<leftarrow> get_double default_options ''polish_max_seconds'';
       e2 \<leftarrow> set_double ndebug e1 ''polish_max_seconds'' kNoWallClockLimit;
       th \<leftarrow> get_int requested ''threads'';
       dth \<leftarrow> get_int default_options ''threads'';
       e3 \<leftarrow> (if th = dth then set_int ndebug e2 ''threads'' 1 else Some e2);
       Some (e3, (if \<not> feq tl dtl then [TimeLimitRefused tl] else []) @
                 (if \<not> feq ps dps then [PolishSecondsRefused ps] else []) @
                 (if th = dth then [] else [ManyThreads th]))
     }
   }"

section \<open>Engine selection\<close>

datatype selection_reason =
    AskedFor string | StartingBasis | GpuPdhg string | FirstOrder | InteriorPoint | Dense | MeasuredDefault

record engine_selection =
  es_algorithm :: string
  es_rule :: string
  es_reason :: selection_reason
  es_rows :: nat
  es_columns :: nat
  es_nonzeros :: nat
  es_warm_start :: bool
  es_use_gpu :: bool

definition kDualSimplexRowLimit :: nat where
  "kDualSimplexRowLimit = 20000"

definition kIpmNonzeroFloor :: nat where
  "kIpmNonzeroFloor = 100000"

definition kPdhgRowFloor :: nat where
  "kPdhgRowFloor = 100000"

definition select_engine ::
    "'a model \<Rightarrow> options \<Rightarrow> bool \<Rightarrow> bool \<Rightarrow> string \<Rightarrow> engine_selection option" where
  "select_engine m opts warm gpu_available gpu_device = do {
     requested \<leftarrow> get_string opts ''algorithm'';
     Some (
       let rows = num_rows m; nnz = model_nonzeros m;
           s = (\<lambda>alg rule reason gpu. \<lparr>es_algorithm = alg, es_rule = rule, es_reason = reason,
                  es_rows = rows, es_columns = num_cols m, es_nonzeros = nnz,
                  es_warm_start = warm, es_use_gpu = gpu\<rparr>)
       in if requested \<noteq> ''auto'' then s requested ''requested'' (AskedFor requested) False
          else if warm then s ''dual-simplex'' ''warm-start'' StartingBasis False
          else if kPdhgRowFloor \<le> rows then
            (if gpu_available \<and> gpu_device \<noteq> [] then s ''pdhg'' ''size:pdhg-gpu'' (GpuPdhg gpu_device) True
             else s ''pdhg'' ''size:pdhg'' FirstOrder False)
          else if kDualSimplexRowLimit \<le> rows then s ''ipm'' ''size:ipm'' InteriorPoint False
          else if kIpmNonzeroFloor \<le> nnz then s ''ipm'' ''density:ipm'' Dense False
          else s ''dual-simplex'' ''default:dual-simplex'' MeasuredDefault False)
   }"

section \<open>The options these components read\<close>

lemma option_rows:
  "find_spec ''time_limit'' = Some (spec ''time_limit'' OT_Double (VDouble kNoLimit) 0 kNoLimit [] [] False)"
  "find_spec ''iteration_limit'' = Some (spec ''iteration_limit'' OT_Int (VInt (- 1)) (lit (- 1)) kNoLimit [] [] False)"
  "find_spec ''node_limit'' = Some (spec ''node_limit'' OT_Int (VInt (- 1)) (lit (- 1)) kNoLimit [] [] False)"
  "find_spec ''deterministic'' = Some (spec ''deterministic'' OT_Bool (VBool False) 0 0 [] [] False)"
  "find_spec ''threads'' = Some (spec ''threads'' OT_Int (VInt 1) 0 (lit 1024) [] [] False)"
  "find_spec ''polish_max_seconds'' = Some (spec ''polish_max_seconds'' OT_Double (VDouble (lit 30)) (lit (1 / 10)) kNoLimit [] [] False)"
  "find_spec ''algorithm'' = Some (spec ''algorithm'' OT_String (VString ''auto'') 0 0
     [''auto'', ''simplex'', ''dual-simplex'', ''pdhg'', ''ipm''] [] False)"
  by (simp_all add: find_spec_def name_index_def registry_def registry_groups)

lemma typed_getters:
  "typed_ok opts \<Longrightarrow> find_spec n = Some sp \<Longrightarrow> spec_type sp = OT_Bool \<Longrightarrow> \<exists>b. get_bool opts n = Some b"
  "typed_ok opts \<Longrightarrow> find_spec n = Some sp \<Longrightarrow> spec_type sp = OT_Int \<Longrightarrow> \<exists>i. get_int opts n = Some i"
  "typed_ok opts \<Longrightarrow> find_spec n = Some sp \<Longrightarrow> spec_type sp = OT_Double \<Longrightarrow> \<exists>d. get_double opts n = Some d"
  "typed_ok opts \<Longrightarrow> find_spec n = Some sp \<Longrightarrow> spec_type sp = OT_String \<Longrightarrow> \<exists>s. get_string opts n = Some s"
  by (metis typed_value type_of_cases get_of_value)+

lemma default_value: "find_spec n = Some sp \<Longrightarrow> value_of default_options n = Some (spec_default sp)"
proof -
  assume "find_spec n = Some sp"
  then obtain i where i: "name_index n = Some i" "sp = registry ! i" by (auto simp: find_spec_def)
  with name_index_Some[OF i(1)] show ?thesis by (simp add: value_of_def default_options_def)
qed

lemma default_getters:
  "get_double default_options ''time_limit'' = Some dbl_max"
  "get_double default_options ''polish_max_seconds'' = Some (lit 30)"
  "get_int default_options ''threads'' = Some 1"
  using default_value[OF option_rows(1)] default_value[OF option_rows(6)] default_value[OF option_rows(5)]
  by (simp_all add: get_double_def get_int_def kNoLimit_def)

lemma typed_reads:
  assumes "typed_ok opts"
  obtains s its nodes where "get_double opts ''time_limit'' = Some s"
    "get_int opts ''iteration_limit'' = Some its" "get_int opts ''node_limit'' = Some nodes"
  using typed_getters(3)[OF assms option_rows(1)] typed_getters(2)[OF assms option_rows(2)]
    typed_getters(2)[OF assms option_rows(3)] by auto

section \<open>What a limit means\<close>

definition finite_budget :: "double \<Rightarrow> bool" where
  "finite_budget s \<longleftrightarrow> isfinite s \<and> 0 \<le> s \<and> s < dbl_max"

lemma resource_limits_meaning:
  assumes "get_double opts ''time_limit'' = Some s" "get_int opts ''iteration_limit'' = Some its"
    "get_int opts ''node_limit'' = Some nodes"
  shows "\<exists>l w. resource_limits_of opts = Some (l, w) \<and>
    (\<forall>e. time_exhausted l e \<longleftrightarrow> finite_budget s \<and> (s \<le> 0 \<or> s < e)) \<and>
    (\<forall>k. iterations_exhausted l k \<longleftrightarrow> 0 \<le> its \<and> its \<le> k) \<and>
    (\<forall>k. nodes_exhausted l k \<longleftrightarrow> 0 \<le> nodes \<and> nodes \<le> k) \<and>
    (w = [] \<longleftrightarrow> 0 \<le> s \<and> - 1 \<le> its \<and> - 1 \<le> nodes) \<and> (NotADuration s \<in> set w \<longleftrightarrow> \<not> 0 \<le> s)"
proof -
  have n: "isnan s \<or> s < 0 \<longleftrightarrow> \<not> 0 \<le> s"
    using not_dless[of s 0] dleq_not_nan[of 0 s] by auto
  show ?thesis
    unfolding resource_limits_of_def assms
    by (auto simp: read_time_limit_def read_iteration_limit_def read_node_limit_def no_limits_def n
        time_exhausted_def iterations_exhausted_def nodes_exhausted_def finite_budget_def
        kNoWallClockLimit_def Let_def split: if_splits)
qed

text \<open>
  Reading the limits of any option set of the right types returns, and gives every limit its
  documented meaning: a count \<open>N \<ge> 0\<close> lets exactly the \<open>N\<close> steps \<open>0..N-1\<close> start and any negative one
  is no limit; a time budget stops at once when it is zero and otherwise strictly after it is used
  up, while a negative, NaN or unbounded one never stops; a value that is not a count or a duration
  is reported.
\<close>

theorem limits_mean_what_they_say:
  assumes "typed_ok opts"
  shows "\<exists>l w s its nodes. resource_limits_of opts = Some (l, w) \<and>
    get_double opts ''time_limit'' = Some s \<and> get_int opts ''iteration_limit'' = Some its \<and>
    get_int opts ''node_limit'' = Some nodes \<and>
    (\<forall>e. time_exhausted l e \<longleftrightarrow> finite_budget s \<and> (s \<le> 0 \<or> s < e)) \<and>
    {k. 0 \<le> k \<and> \<not> iterations_exhausted l k} = (if 0 \<le> its then {0..<its} else {0..}) \<and>
    {k. 0 \<le> k \<and> \<not> nodes_exhausted l k} = (if 0 \<le> nodes then {0..<nodes} else {0..}) \<and>
    (w = [] \<longleftrightarrow> 0 \<le> s \<and> - 1 \<le> its \<and> - 1 \<le> nodes)"
proof -
  from typed_reads[OF assms] obtain s its nodes where r: "get_double opts ''time_limit'' = Some s"
    "get_int opts ''iteration_limit'' = Some its" "get_int opts ''node_limit'' = Some nodes" .
  from resource_limits_meaning[OF r] obtain l w where l: "resource_limits_of opts = Some (l, w)"
    "\<forall>e. time_exhausted l e \<longleftrightarrow> finite_budget s \<and> (s \<le> 0 \<or> s < e)"
    "\<forall>k. iterations_exhausted l k \<longleftrightarrow> 0 \<le> its \<and> its \<le> k"
    "\<forall>k. nodes_exhausted l k \<longleftrightarrow> 0 \<le> nodes \<and> nodes \<le> k"
    "w = [] \<longleftrightarrow> 0 \<le> s \<and> - 1 \<le> its \<and> - 1 \<le> nodes"
    by (elim exE conjE)
  have "{k. 0 \<le> k \<and> \<not> iterations_exhausted l k} = (if 0 \<le> its then {0..<its} else {0..})"
    "{k. 0 \<le> k \<and> \<not> nodes_exhausted l k} = (if 0 \<le> nodes then {0..<nodes} else {0..})"
    using l(3,4) by auto
  then show ?thesis
    by (intro exI[of _ l] exI[of _ w] exI[of _ s] exI[of _ its] exI[of _ nodes] conjI r l)
qed

text \<open>
  End to end: \<open>time_limit=nan\<close> is accepted as text by the registry, and the solve then runs with
  no time limit at all, however much time has passed, behind a warning.
\<close>

theorem nan_time_limit_is_no_limit:
  "\<exists>opts l w. set_from_string ''time_limit'' ''nan'' default_options = (opts, None) \<and>
     resource_limits_of opts = Some (l, w) \<and> w \<noteq> [] \<and> (\<forall>elapsed. \<not> time_exhausted l elapsed)"
proof -
  obtain opts where o: "set_from_string ''time_limit'' ''nan'' default_options = (opts, None)"
    "get_double opts ''time_limit'' = Some NaN"
    using nan_time_limit_accepted by blast
  have "typed_ok opts" using set_from_string_ok[OF defaults_ok o(1)] by (rule options_ok_typed)
  then obtain its nodes where r: "get_int opts ''iteration_limit'' = Some its"
    "get_int opts ''node_limit'' = Some nodes" by (rule typed_reads)
  have n: "\<not> finite_budget NaN" "\<not> 0 \<le> NaN"
    by (simp_all add: finite_budget_def less_eq_double_def dleq_def)
  from resource_limits_meaning[OF o(2) r] obtain l w where
    "resource_limits_of opts = Some (l, w)" "\<forall>e. \<not> time_exhausted l e" "w \<noteq> []"
    using n by blast
  with o(1) show ?thesis by blast
qed

section \<open>Safe points\<close>

text \<open>
  C37. A safe point lets the solve go on only if no interrupt was pending, the time budget is not
  used up, and the callback, if it ran, returned zero and nobody raised an interrupt meanwhile.
  Otherwise the reason is the interrupt whenever one was pending before the clock was looked at,
  and the clock before the callback is even called; and the control then carries the request for
  every other engine of the same solve to see.
\<close>

theorem should_stop_precedence:
  "should_stop callback l elapsed now (Some c) = (r, c') \<Longrightarrow>
    (r = Some kInterrupt \<longleftrightarrow> interrupt_requested (the c')) \<and>
    (r = Some kTime \<longleftrightarrow> \<not> interrupt_requested c \<and> time_exhausted l elapsed) \<and>
    (r = None \<longleftrightarrow> \<not> interrupt_requested c \<and> \<not> time_exhausted l elapsed \<and>
       (callback \<noteq> None \<and> fst (callback_due now c) \<longrightarrow> the callback elapsed = (0, False))) \<and>
    (r \<noteq> None \<longrightarrow> r \<in> {Some kInterrupt, Some kTime}) \<and> c' \<noteq> None"
  by (auto simp: should_stop_def callback_due_def interrupt_def Let_def
      split: if_splits option.splits prod.splits)

text \<open>The times at which the callback fires, for a sequence of checks that reach it.\<close>

fun fire_times :: "int list \<Rightarrow> solve_control \<Rightarrow> int list" where
  "fire_times [] c = []"
| "fire_times (t # ts) c =
     (case callback_due t c of (due, c') \<Rightarrow> if due then t # fire_times ts c' else fire_times ts c')"

lemma fire_times_spaced:
  assumes "sorted (a # ts)" "callback_seen c" "last_callback c = a"
  shows "sorted_wrt (\<lambda>s t. s + kCallbackInterval \<le> t) (a # fire_times ts c) \<and>
    (\<forall>t \<in> set ts. \<exists>f \<in> set (a # fire_times ts c). f \<le> t \<and> t < f + kCallbackInterval)"
  using assms
proof (induction ts arbitrary: a c)
  case (Cons t ts)
  have p: "0 < kCallbackInterval" by (simp add: kCallbackInterval_def)
  show ?case
  proof (cases "t - a < kCallbackInterval")
    case True
    with Cons.prems have "callback_due t c = (False, c)" by (simp add: callback_due_def)
    with Cons.IH[of a c] Cons.prems True show ?thesis by fastforce
  next
    case False
    let ?c = "c\<lparr>callback_seen := True, last_callback := t\<rparr>"
    have d: "callback_due t c = (True, ?c)" using Cons.prems False by (simp add: callback_due_def)
    have ih: "sorted_wrt (\<lambda>s t. s + kCallbackInterval \<le> t) (t # fire_times ts ?c)"
      "\<forall>u \<in> set ts. \<exists>f \<in> set (t # fire_times ts ?c). f \<le> u \<and> u < f + kCallbackInterval"
      using Cons.IH[of t ?c] Cons.prems by auto
    have "a + kCallbackInterval \<le> u" if "u \<in> set (t # fire_times ts ?c)" for u
      using that ih(1) False p by auto
    then show ?thesis using ih p by (auto simp: d)
  qed
qed simp

text \<open>
  The callback window holds over a whole solve, however many engines check it: starting from a
  reset control, two callbacks are never closer than 100 ms, and every check that reaches the window
  lies less than 100 ms after a callback, so the first check always fires.
\<close>

theorem callback_window:
  assumes "sorted ts"
  shows "sorted_wrt (\<lambda>s t. s + kCallbackInterval \<le> t) (fire_times ts (control_reset c)) \<and>
    (\<forall>t \<in> set ts. \<exists>f \<in> set (fire_times ts (control_reset c)). f \<le> t \<and> t < f + kCallbackInterval)"
proof (cases ts)
  case (Cons t us)
  let ?c = "(control_reset c)\<lparr>callback_seen := True, last_callback := t\<rparr>"
  have d: "callback_due t (control_reset c) = (True, ?c)"
    by (simp add: callback_due_def control_reset_def)
  have "0 < kCallbackInterval" by (simp add: kCallbackInterval_def)
  then show ?thesis
    using fire_times_spaced[of t us ?c] assms by (auto simp: Cons d)
qed simp

section \<open>Deterministic mode\<close>

lemma set_get_double:
  assumes "typed_ok opts" "find_spec n = Some sp" "spec_type sp = OT_Double"
  shows "\<exists>opts'. set_double nd opts n d = Some opts' \<and> typed_ok opts' \<and>
    value_of opts' = (value_of opts)(n \<mapsto> VDouble d)"
  using set_typed_update[OF assms(1,2)] assms(3) by (simp add: set_double_def)

lemma set_get_int:
  assumes "typed_ok opts" "find_spec n = Some sp" "spec_type sp = OT_Int"
  shows "\<exists>opts'. set_int nd opts n i = Some opts' \<and> typed_ok opts' \<and>
    value_of opts' = (value_of opts)(n \<mapsto> VInt i)"
  using set_typed_update[OF assms(1,2)] assms(3) by (simp add: set_int_def)

text \<open>The values deterministic mode runs with.\<close>

definition deterministic_values :: "(string \<Rightarrow> option_value option) \<Rightarrow> string \<Rightarrow> option_value option" where
  "deterministic_values f = f(
     ''time_limit'' := (case f ''time_limit'' of
        Some (VDouble d) \<Rightarrow> Some (VDouble (if feq d dbl_max then d else dbl_max)) | v \<Rightarrow> v),
     ''polish_max_seconds'' \<mapsto> VDouble dbl_max)"

lemma value_of_get:
  "get_double opts n = Some d \<Longrightarrow> value_of opts n = Some (VDouble d)"
  "get_int opts n = Some i \<Longrightarrow> value_of opts n = Some (VInt i)"
  "get_bool opts n = Some b \<Longrightarrow> value_of opts n = Some (VBool b)"
  by (auto simp: get_double_def get_int_def get_bool_def split: option_value.splits
      elim!: bind_eq_Some_conv[THEN iffD1, elim_format])

lemma deterministic_effect:
  assumes ok: "typed_ok opts" and det: "get_bool opts ''deterministic'' = Some True"
  shows "\<exists>e w. apply_deterministic_mode nd opts = Some (e, w) \<and> typed_ok e \<and>
    value_of e = deterministic_values (value_of opts)"
proof -
  from typed_getters(3)[OF ok option_rows(1)] obtain tl where tl: "get_double opts ''time_limit'' = Some tl" by auto
  from typed_getters(3)[OF ok option_rows(6)] obtain ps where ps: "get_double opts ''polish_max_seconds'' = Some ps" by auto
  from typed_getters(2)[OF ok option_rows(5)] obtain th where th: "get_int opts ''threads'' = Some th" by auto
  obtain e1 where e1: "(if \<not> feq tl dbl_max then set_double nd opts ''time_limit'' dbl_max else Some opts) = Some e1"
    "typed_ok e1" "value_of e1 = (value_of opts)(''time_limit'' \<mapsto> VDouble (if feq tl dbl_max then tl else dbl_max))"
    using set_get_double[OF ok option_rows(1), of nd dbl_max] ok value_of_get(1)[OF tl]
    by (cases "feq tl dbl_max") (auto simp: fun_upd_idem)
  obtain e2 where e2: "set_double nd e1 ''polish_max_seconds'' dbl_max = Some e2" "typed_ok e2"
    "value_of e2 = (value_of e1)(''polish_max_seconds'' \<mapsto> VDouble dbl_max)"
    using set_get_double[OF e1(2) option_rows(6)] by auto
  obtain e3 where e3: "(if th = 1 then set_int nd e2 ''threads'' 1 else Some e2) = Some e3" "typed_ok e3"
    "value_of e3 = value_of e2"
    using set_get_int[OF e2(2) option_rows(5), of nd 1] e2 e1(3) value_of_get(2)[OF th]
    by (cases "th = 1") (auto simp: fun_upd_idem)
  have "\<exists>w. apply_deterministic_mode nd opts = Some (e3, w)"
    using det tl ps th e1(1) e2(1) e3(1)
    by (simp add: apply_deterministic_mode_def default_getters kNoWallClockLimit_def)
  moreover have "value_of e3 = deterministic_values (value_of opts)"
    using e1(3) e2(3) e3(3) value_of_get(1)[OF tl] by (simp add: deterministic_values_def)
  ultimately show ?thesis using e3(2) by blast
qed

text \<open>
  C38. A deterministic solve cannot end on the clock. Whatever was requested, the effective options
  have the right types, the limits read from them answer the same at any two elapsed times, the
  iteration and node limits are the requested ones, and applying the mode to them again changes
  nothing, so it does not matter how many entry points apply it.
\<close>

theorem deterministic_ignores_clock:
  assumes ok: "typed_ok opts" and det: "get_bool opts ''deterministic'' = Some True"
  shows "\<exists>e w l lw. apply_deterministic_mode nd opts = Some (e, w) \<and> typed_ok e \<and>
    resource_limits_of e = Some (l, lw) \<and>
    (\<forall>t u i n. exhausted l t i n = exhausted l u i n) \<and>
    get_int e ''iteration_limit'' = get_int opts ''iteration_limit'' \<and>
    get_int e ''node_limit'' = get_int opts ''node_limit'' \<and>
    (\<exists>e' w'. apply_deterministic_mode nd e = Some (e', w') \<and> value_of e' = value_of e)"
proof -
  from deterministic_effect[OF ok det] obtain e w where e: "apply_deterministic_mode nd opts = Some (e, w)"
    "typed_ok e" "value_of e = deterministic_values (value_of opts)" by blast
  from typed_getters(3)[OF ok option_rows(1)] obtain tl where tl: "get_double opts ''time_limit'' = Some tl" by auto
  let ?s = "if feq tl dbl_max then tl else dbl_max"
  have v: "value_of e ''time_limit'' = Some (VDouble ?s)"
    using e(3) value_of_get(1)[OF tl] by (simp add: deterministic_values_def)
  then have s: "get_double e ''time_limit'' = Some ?s" by (rule get_of_value)
  have "\<not> finite_budget ?s"
    by (auto simp: finite_budget_def feq_def dless_le_not_le)
  moreover from e(2) obtain its nodes where r: "get_int e ''iteration_limit'' = Some its"
    "get_int e ''node_limit'' = Some nodes" by (rule typed_reads)
  ultimately obtain l lw where l: "resource_limits_of e = Some (l, lw)" "\<forall>t. \<not> time_exhausted l t"
    using resource_limits_meaning[OF s r] by auto
  have keep: "get_int e ''iteration_limit'' = get_int opts ''iteration_limit''"
    "get_int e ''node_limit'' = get_int opts ''node_limit''"
    using e(3) by (simp_all add: get_int_def deterministic_values_def)
  have "get_bool e ''deterministic'' = Some True"
    using det e(3) by (simp add: get_bool_def deterministic_values_def)
  from deterministic_effect[OF e(2) this, of nd] obtain e' w' where
    e': "apply_deterministic_mode nd e = Some (e', w')" "value_of e' = deterministic_values (value_of e)" by blast
  have "value_of e' = value_of e"
    using v e(3) unfolding e'(2) by (auto simp: deterministic_values_def fun_eq_iff)
  then show ?thesis
    using e(1,2) l e'(1) keep by (metis exhausted_def)
qed

section \<open>Engine selection\<close>

text \<open>
  The engine choice is total on an option set of the right types and keeps its promises: an
  explicit request is honoured, under \<open>auto\<close> a starting basis always gets the dual simplex, PDHG is
  chosen exactly from its row floor on, and the GPU is used only when a device was found, was named
  and the model is that large.
\<close>

theorem select_engine_promises:
  assumes "typed_ok opts"
  shows "\<exists>requested s. get_string opts ''algorithm'' = Some requested \<and>
    select_engine m opts warm gpu dev = Some s \<and>
    (requested \<noteq> ''auto'' \<longrightarrow> es_algorithm s = requested \<and> \<not> es_use_gpu s) \<and>
    (requested = ''auto'' \<longrightarrow>
       es_algorithm s \<in> {''dual-simplex'', ''ipm'', ''pdhg''} \<and>
       (warm \<longrightarrow> es_algorithm s = ''dual-simplex'') \<and>
       (\<not> warm \<longrightarrow> (es_algorithm s = ''pdhg'' \<longleftrightarrow> kPdhgRowFloor \<le> num_rows m)) \<and>
       (es_algorithm s = ''dual-simplex'' \<and> \<not> warm \<longrightarrow>
          num_rows m < kDualSimplexRowLimit \<and> model_nonzeros m < kIpmNonzeroFloor)) \<and>
    (es_use_gpu s \<longrightarrow> es_algorithm s = ''pdhg'' \<and> gpu \<and> dev \<noteq> [] \<and> kPdhgRowFloor \<le> num_rows m)"
proof -
  from typed_getters(4)[OF assms option_rows(7)] obtain requested where
    r: "get_string opts ''algorithm'' = Some requested" by auto
  have f: "kDualSimplexRowLimit \<le> kPdhgRowFloor" by (simp add: kDualSimplexRowLimit_def kPdhgRowFloor_def)
  show ?thesis
    unfolding r select_engine_def using f
    by (auto simp: Let_def)
qed

section \<open>Witnesses\<close>

lemma default_typed: "typed_ok default_options"
  by (rule options_ok_typed[OF defaults_ok])

theorem limits_mean_what_they_say_witness:
  "\<exists>l w. resource_limits_of default_options = Some (l, w) \<and> w = []"
proof -
  have d: "get_double default_options ''time_limit'' = Some dbl_max"
    "get_int default_options ''iteration_limit'' = Some (- 1)" "get_int default_options ''node_limit'' = Some (- 1)"
    using default_getters default_value[OF option_rows(2)] default_value[OF option_rows(3)]
    by (simp_all add: get_int_def)
  have "0 \<le> dbl_max" by (simp add: dbl_max_def)
  with limits_mean_what_they_say[OF default_typed] d show ?thesis by auto
qed

definition demo_control :: solve_control where
  "demo_control = \<lparr>start_col_status = [], start_row_status = [], interrupt_requested = False,
     callback_seen = False, last_callback = 0\<rparr>"

theorem should_stop_precedence_witness:
  "fst (should_stop (Some (\<lambda>e. (1, False))) no_limits 0 5 (Some demo_control)) = Some kInterrupt"
  using should_stop_precedence[of "Some (\<lambda>e. (1, False))" no_limits 0 5 demo_control
      "fst (should_stop (Some (\<lambda>e. (1, False))) no_limits 0 5 (Some demo_control))"
      "snd (should_stop (Some (\<lambda>e. (1, False))) no_limits 0 5 (Some demo_control))"]
  by (auto simp: should_stop_def callback_due_def demo_control_def no_limits_def time_exhausted_def interrupt_def)

theorem callback_window_witness:
  "sorted_wrt (\<lambda>s t. s + kCallbackInterval \<le> t) (fire_times [1, 50000000, 100000001] (control_reset demo_control)) \<and>
   fire_times [1, 50000000, 100000001] (control_reset demo_control) = [1, 100000001]"
  using callback_window[of "[1, 50000000, 100000001]" demo_control]
  by (simp add: callback_due_def control_reset_def demo_control_def kCallbackInterval_def)

theorem deterministic_ignores_clock_witness:
  "\<exists>opts e w. set_bool True default_options ''deterministic'' True = Some opts \<and>
     apply_deterministic_mode True opts = Some (e, w)"
proof -
  obtain opts where o: "set_typed True default_options ''deterministic'' (VBool True) = Some opts"
    "typed_ok opts" "value_of opts = (value_of default_options)(''deterministic'' \<mapsto> VBool True)"
    using set_typed_update[OF default_typed option_rows(4), of "VBool True" True] by auto
  then have "get_bool opts ''deterministic'' = Some True" by (simp add: get_bool_def)
  from deterministic_ignores_clock[OF o(2) this, of True] o(1) show ?thesis
    by (auto simp: set_bool_def)
qed

theorem select_engine_promises_witness:
  "\<exists>s. select_engine (empty_model :: double model) default_options True False [] = Some s \<and>
     es_algorithm s = ''dual-simplex''"
  using select_engine_promises[OF default_typed, of "empty_model :: double model" True False "[]"]
    default_value[OF option_rows(7)]
  by (auto simp: get_string_def)

end
