(* ===== verification/Guard.thy ===== *)
theory Guard
  imports StopLimits
begin

text \<open>
  The guards between an engine and the caller, \<open>src/core/solve.cpp\<close> and
  \<open>src/core/status_guard.hpp\<close>: a status is reconciled with the quality that was measured, an
  answer that is not made of numbers is refused, an engine that runs out of memory becomes a
  status, and a first-order answer is replaced by its polish only when that is better. How the
  formatting library prints a double with \<open>{:.3e}\<close>, \<open>{:.1e}\<close> or \<open>{:.1f}\<close> is a parameter, and so is
  the interior-point engine the polish calls.
\<close>

section \<open>Definitions\<close>

definition append_detail :: "string \<Rightarrow> solution \<Rightarrow> solution" where
  "append_detail detail s = s\<lparr>message := (if message s = [] then detail else message s @ ''; '' @ detail)\<rparr>"

definition no_point_text :: string where
  "no_point_text = ''; no feasible point had been found when the limit stopped the search, so none is reported (the objective is the worst representable value, not a solution)''"

definition not_a_number_text :: string where
  "not_a_number_text = ''; the answer contained a value that is not a number, so it is reported as a numerical failure rather than as a point (#194)''"

definition no_time_text :: string where
  "no_time_text = ''; no time left for the interior-point polish''"

definition refuse_a_non_finite_answer :: "solution \<Rightarrow> solution" where
  "refuse_a_non_finite_answer s =
     (if \<not> claims_a_point (status s) then s
      else
        let stopped_on_a_limit = (status s = kTimeLimit \<or> status s = kIterationLimit \<or>
              status s = kNodeLimit \<or> status s = kInterrupted);
            values_are_numbers = list_all isfinite (col_value s)
        in if stopped_on_a_limit \<and> values_are_numbers \<and> isinf (objective s) then
             s\<lparr>col_value := [], row_activity := [],
               message := message s @ no_point_text\<rparr>
           else if isfinite (objective s) \<and> list_all isfinite (col_value s) then s
           else s\<lparr>message := message s @ not_a_number_text,
                  status := kNumericalError, col_value := [], row_activity := [],
                  objective := 0, dual_bound := 0\<rparr>)"

definition record_why_it_stopped :: "solution \<Rightarrow> solution" where
  "record_why_it_stopped s =
     (if stopped_by s \<noteq> kNone then s
      else case status s of
          kTimeLimit \<Rightarrow> s\<lparr>stopped_by := kTime\<rparr>
        | kIterationLimit \<Rightarrow> s\<lparr>stopped_by := kIterations\<rparr>
        | kNodeLimit \<Rightarrow> s\<lparr>stopped_by := kNodes\<rparr>
        | kInterrupted \<Rightarrow> s\<lparr>stopped_by := kInterrupt\<rparr>
        | _ \<Rightarrow> s)"

text \<open>The messages of \<open>reconcile_status_with_measurement\<close>.\<close>

definition primal_detail :: "(double \<Rightarrow> string) \<Rightarrow> (double \<Rightarrow> string) \<Rightarrow> double \<Rightarrow> solution \<Rightarrow> string" where
  "primal_detail fmt3e fmt1e tolerance s =
     ''engine reported '' @ solve_status_string (status s) @
     '' but the returned point violates primal feasibility by '' @ fmt3e (primal_infeasibility s) @
     '' ('' @ fmt3e (primal_infeasibility_scaled s) @
     '' relative to the scale it was measured on), above the '' @ fmt1e tolerance @
     '' tolerance; it is not a feasible point''"

definition integrality_detail :: "(double \<Rightarrow> string) \<Rightarrow> (double \<Rightarrow> string) \<Rightarrow> double \<Rightarrow> solution \<Rightarrow> string" where
  "integrality_detail fmt3e fmt1e tolerance s =
     ''engine reported '' @ solve_status_string (status s) @
     '' but an integer column is fractional by '' @ fmt3e (integrality_violation s) @
     '', above the '' @ fmt1e tolerance @
     '' tolerance; this is a relaxation, not an integer solution''"

definition dual_detail :: "(double \<Rightarrow> string) \<Rightarrow> (double \<Rightarrow> string) \<Rightarrow> double \<Rightarrow> solution \<Rightarrow> string" where
  "dual_detail fmt3e fmt1e tolerance s =
     ''engine reported optimal but the reduced costs violate dual feasibility by '' @
     fmt3e (dual_infeasibility s) @ '' ('' @ fmt3e (dual_infeasibility_scaled s) @
     '' relative to the terms they are computed from), above the '' @ fmt1e tolerance @
     '' tolerance; reporting a feasible point rather than a proof''"

definition complementarity_detail :: "(double \<Rightarrow> string) \<Rightarrow> (double \<Rightarrow> string) \<Rightarrow> solution \<Rightarrow> string" where
  "complementarity_detail fmt3e fmt1e s =
     ''engine reported optimal but the largest |multiplier| * slack is '' @
     fmt3e (complementarity_violation s) @ '', above the '' @ fmt1e kComplementarity @
     '' the independent verifier accepts; reporting a feasible point rather than a proof''"

text \<open>The two downgrades to \<open>kFeasible\<close>, then the whole function.\<close>

definition downgrade_dual ::
    "(double \<Rightarrow> string) \<Rightarrow> (double \<Rightarrow> string) \<Rightarrow> double \<Rightarrow> bool \<Rightarrow> solution \<Rightarrow> solution" where
  "downgrade_dual fmt3e fmt1e tolerance check_dual s =
     (if check_dual \<and> status s = kOptimal \<and> tolerance < dual_infeasibility_scaled s
      then append_detail (dual_detail fmt3e fmt1e tolerance s) (s\<lparr>status := kFeasible\<rparr>)
      else s)"

definition downgrade_complementarity ::
    "(double \<Rightarrow> string) \<Rightarrow> (double \<Rightarrow> string) \<Rightarrow> bool \<Rightarrow> solution \<Rightarrow> solution" where
  "downgrade_complementarity fmt3e fmt1e check_dual s =
     (if check_dual \<and> status s = kOptimal \<and> kComplementarity < complementarity_violation s
      then append_detail (complementarity_detail fmt3e fmt1e s) (s\<lparr>status := kFeasible\<rparr>)
      else s)"

definition reconcile_status_with_measurement ::
    "(double \<Rightarrow> string) \<Rightarrow> (double \<Rightarrow> string) \<Rightarrow> options \<Rightarrow> bool \<Rightarrow> solution \<Rightarrow> solution option" where
  "reconcile_status_with_measurement fmt3e fmt1e opts check_dual s =
     (if \<not> claims_a_point (status s) then Some s
      else do {
        primal_tolerance \<leftarrow> get_double opts ''primal_feasibility_tolerance'';
        dual_tolerance \<leftarrow> get_double opts ''dual_feasibility_tolerance'';
        integrality_tolerance \<leftarrow> get_double opts ''integrality_tolerance'';
        Some (
          if status s \<noteq> kOptimal \<and> status s \<noteq> kFeasible then s
          else if primal_tolerance < primal_infeasibility_scaled s then
            append_detail (primal_detail fmt3e fmt1e primal_tolerance s) (s\<lparr>status := kNumericalError\<rparr>)
          else if integrality_tolerance < integrality_violation s then
            append_detail (integrality_detail fmt3e fmt1e integrality_tolerance s)
              (s\<lparr>status := kNumericalError\<rparr>)
          else downgrade_complementarity fmt3e fmt1e check_dual
                 (downgrade_dual fmt3e fmt1e dual_tolerance check_dual s))
      })"

text \<open>An engine body that throws \<open>std::bad_alloc\<close> is \<open>None\<close>.\<close>

definition run_engine_guarded :: "(double \<Rightarrow> string) \<Rightarrow> solution option \<Rightarrow> string \<Rightarrow> double \<Rightarrow> solution" where
  "run_engine_guarded fmt1f body engine elapsed =
     (case body of
        Some s \<Rightarrow> s
      | None \<Rightarrow> empty_solution\<lparr>status := kNumericalError, algorithm := engine,
          message := ''the solve ran out of memory inside the '' @ engine @ '' after '' @ fmt1f elapsed @
            ''s; the model is larger than this machine can hold for that engine - lower its size budget, add memory, or use another engine'',
          solve_seconds := elapsed\<rparr>)"

text \<open>
  The polish. \<open>solve_ipm\<close> is the interior point, given the options it runs under and the starting
  point; \<open>fmt_int\<close> prints a count.
\<close>

definition worst_violation :: "solution \<Rightarrow> double" where
  "worst_violation s = cmax (primal_infeasibility_scaled s) (dual_infeasibility_scaled s)"

definition merge_polish :: "(int \<Rightarrow> string) \<Rightarrow> solution \<Rightarrow> solution \<Rightarrow> solution" where
  "merge_polish fmt_int start polished =
     (if status polished = kOptimal \<or>
         (status polished = kFeasible \<and> worst_violation polished < worst_violation start)
      then polished\<lparr>polish_iterations := iterations polished,
             iterations := iterations polished + iterations start,
             algorithm := algorithm start @ ''+ipm'',
             message := message start @ ''; polished by the interior point in '' @
               fmt_int (iterations polished) @ '' iterations'' @
               (if message polished = [] then [] else '' ('' @ message polished @ '')'')\<rparr>
      else start\<lparr>polish_iterations := iterations polished,
             message := message start @ ''; the interior-point polish did not improve it ('' @
               solve_status_string (status polished) @ '' after '' @ fmt_int (iterations polished) @
               '' iterations: '' @ message polished @ '')''\<rparr>)"

definition polish_with_the_interior_point ::
    "(int \<Rightarrow> string) \<Rightarrow> bool \<Rightarrow> (options \<Rightarrow> double list \<Rightarrow> double list \<Rightarrow> double list \<Rightarrow> solution) \<Rightarrow>
     double model \<Rightarrow> options \<Rightarrow> double \<Rightarrow> solution \<Rightarrow> solution option" where
  "polish_with_the_interior_point fmt_int ndebug solve_ipm m opts elapsed start = do {
     on \<leftarrow> get_bool opts ''pdhg_polish'';
     if \<not> on \<or> status start = kOptimal \<or> \<not> claims_a_point (status start) \<or>
        length (col_value start) \<noteq> num_cols m \<or> length (row_dual start) \<noteq> num_rows m \<or>
        length (col_dual start) \<noteq> num_cols m
     then Some start
     else do {
       (limits, warnings) \<leftarrow> resource_limits_of opts;
       k \<leftarrow> get_int opts ''polish_iteration_limit'';
       p1 \<leftarrow> set_int ndebug opts ''iteration_limit'' k;
       budget \<leftarrow> get_double opts ''polish_max_seconds'';
       det \<leftarrow> get_bool opts ''deterministic'';
       let remaining = remaining_seconds limits elapsed;
           timed = (\<not> det \<and> has_time_limit limits) in
       if timed \<and> remaining \<le> 0 then
         Some (start\<lparr>message := message start @ no_time_text\<rparr>)
       else do {
         p2 \<leftarrow> set_double ndebug p1 ''time_limit'' (if timed then cmin budget remaining else budget);
         Some (merge_polish fmt_int start
           (solve_ipm p2 (col_value start) (row_dual start) (col_dual start)))
       }
     }
   }"

section \<open>A claim that leaves the guards is supported\<close>

lemma tolerance_rows:
  "find_spec ''primal_feasibility_tolerance'' = Some (spec ''primal_feasibility_tolerance'' OT_Double
     (VDouble kPrimalFeasibility) (lit (1 / 10 ^ 12)) (lit (1 / 10 ^ 3)) [] [] False)"
  "find_spec ''dual_feasibility_tolerance'' = Some (spec ''dual_feasibility_tolerance'' OT_Double
     (VDouble kDualFeasibility) (lit (1 / 10 ^ 12)) (lit (1 / 10 ^ 3)) [] [] False)"
  "find_spec ''integrality_tolerance'' = Some (spec ''integrality_tolerance'' OT_Double
     (VDouble kIntegrality) (lit (1 / 10 ^ 12)) (lit (1 / 10 ^ 3)) [] [] False)"
  by (simp_all add: find_spec_def name_index_def registry_def registry_groups)

definition same_answer :: "solution \<Rightarrow> solution \<Rightarrow> bool" where
  "same_answer s t \<longleftrightarrow> t = s\<lparr>status := status t, message := message t\<rparr>"

lemma same_answer_refl [simp]: "same_answer s s"
  by (simp add: same_answer_def)

lemma same_answer_append: "same_answer s (append_detail d (s\<lparr>status := st\<rparr>))"
  by (simp add: same_answer_def append_detail_def)

lemma same_answer_iff: "same_answer s t \<longleftrightarrow> s\<lparr>status := kNotSolved, message := []\<rparr> = t\<lparr>status := kNotSolved, message := []\<rparr>"
  by (cases s; cases t) (auto simp: same_answer_def)

lemma same_answer_trans: "same_answer s t \<Longrightarrow> same_answer t u \<Longrightarrow> same_answer s u"
  by (simp add: same_answer_iff)

lemma same_answer_fields:
  assumes "same_answer s t"
  shows "objective t = objective s" "col_value t = col_value s"
    "primal_infeasibility_scaled t = primal_infeasibility_scaled s"
    "integrality_violation t = integrality_violation s"
    "dual_infeasibility_scaled t = dual_infeasibility_scaled s"
    "complementarity_violation t = complementarity_violation s"
  using assms by (cases s; cases t; simp add: same_answer_def)+

lemma status_append [simp]: "status (append_detail d s) = status s"
  by (simp add: append_detail_def)

lemma downgrade_dual_effect:
  "same_answer s (downgrade_dual f g tol b s) \<and>
   (status (downgrade_dual f g tol b s) = kOptimal \<longrightarrow> status s = kOptimal \<and>
     (b \<longrightarrow> \<not> tol < dual_infeasibility_scaled s)) \<and>
   (status s \<in> {kOptimal, kFeasible} \<longrightarrow> status (downgrade_dual f g tol b s) \<in> {kOptimal, kFeasible})"
  by (auto simp: downgrade_dual_def same_answer_append)

lemma downgrade_complementarity_effect:
  "same_answer s (downgrade_complementarity f g b s) \<and>
   (status (downgrade_complementarity f g b s) = kOptimal \<longrightarrow> status s = kOptimal \<and>
     (b \<longrightarrow> \<not> kComplementarity < complementarity_violation s)) \<and>
   (status s \<in> {kOptimal, kFeasible} \<longrightarrow>
     status (downgrade_complementarity f g b s) \<in> {kOptimal, kFeasible})"
  by (auto simp: downgrade_complementarity_def same_answer_append)

lemma reconcile_effect:
  assumes p: "get_double opts ''primal_feasibility_tolerance'' = Some pt"
    and d: "get_double opts ''dual_feasibility_tolerance'' = Some dt"
    and i: "get_double opts ''integrality_tolerance'' = Some it"
  shows "\<exists>t. reconcile_status_with_measurement f g opts b s = Some t \<and> same_answer s t \<and>
    (status t \<in> {kOptimal, kFeasible} \<longrightarrow> status s \<in> {kOptimal, kFeasible} \<and>
       \<not> pt < primal_infeasibility_scaled s \<and> \<not> it < integrality_violation s) \<and>
    (status t = kOptimal \<longrightarrow> status s = kOptimal \<and>
       (b \<longrightarrow> \<not> dt < dual_infeasibility_scaled s \<and> \<not> kComplementarity < complementarity_violation s)) \<and>
    (status t \<noteq> status s \<longrightarrow> status t \<in> {kFeasible, kNumericalError})"
proof (cases "status s = kOptimal \<or> status s = kFeasible")
  case False
  then show ?thesis
    unfolding reconcile_status_with_measurement_def p d i
    by (cases "claims_a_point (status s)") auto
next
  case True
  let ?u = "downgrade_dual f g dt b s"
  let ?t = "downgrade_complementarity f g b ?u"
  have c: "claims_a_point (status s)" using True by auto
  note du = downgrade_dual_effect[of s f g dt b] and co = downgrade_complementarity_effect[of ?u f g b]
  show ?thesis
  proof (cases "pt < primal_infeasibility_scaled s \<or> it < integrality_violation s")
    case bad: True
    then show ?thesis
      unfolding reconcile_status_with_measurement_def p d i
      using True c by (auto simp: same_answer_append)
  next
    case False
    then have r: "reconcile_status_with_measurement f g opts b s = Some ?t"
      unfolding reconcile_status_with_measurement_def p d i using True c by auto
    have "same_answer s ?t" using du co same_answer_trans by blast
    moreover have "complementarity_violation ?u = complementarity_violation s"
      using du same_answer_fields(6) by blast
    ultimately show ?thesis
      using r du co False True by auto
  qed
qed

text \<open>
  C39. No claim leaves the guards without the measurement that supports it. On options of the right
  types the reconciliation returns; it changes nothing but the status and the message, never turns a
  status into \<open>optimal\<close>, and after it and the refusal of non-finite answers a solution that says
  \<open>optimal\<close> or \<open>feasible\<close> has a finite objective, finite values, and no measured primal or integrality
  violation above its tolerance; one that still says \<open>optimal\<close> for a continuous model has no scaled
  dual violation and no complementarity product above theirs either.
\<close>

theorem guarded_claims_supported:
  assumes "typed_ok opts"
  shows "\<exists>t pt dt it. reconcile_status_with_measurement f g opts b s = Some t \<and> same_answer s t \<and>
    get_double opts ''primal_feasibility_tolerance'' = Some pt \<and>
    get_double opts ''dual_feasibility_tolerance'' = Some dt \<and>
    get_double opts ''integrality_tolerance'' = Some it \<and>
    (let u = refuse_a_non_finite_answer t in
      (status u \<in> {kOptimal, kFeasible} \<longrightarrow>
         isfinite (objective u) \<and> list_all isfinite (col_value u) \<and>
         \<not> pt < primal_infeasibility_scaled u \<and> \<not> it < integrality_violation u) \<and>
      (status u = kOptimal \<longrightarrow> status s = kOptimal \<and>
         (b \<longrightarrow> \<not> dt < dual_infeasibility_scaled u \<and> \<not> kComplementarity < complementarity_violation u)))"
proof -
  from typed_getters(3)[OF assms tolerance_rows(1)] typed_getters(3)[OF assms tolerance_rows(2)]
    typed_getters(3)[OF assms tolerance_rows(3)] obtain pt dt it where
    o: "get_double opts ''primal_feasibility_tolerance'' = Some pt"
      "get_double opts ''dual_feasibility_tolerance'' = Some dt"
      "get_double opts ''integrality_tolerance'' = Some it" by auto
  from reconcile_effect[OF o] obtain t where
    t: "reconcile_status_with_measurement f g opts b s = Some t" "same_answer s t"
      "status t \<in> {kOptimal, kFeasible} \<longrightarrow>
         \<not> pt < primal_infeasibility_scaled s \<and> \<not> it < integrality_violation s"
      "status t = kOptimal \<longrightarrow> status s = kOptimal \<and>
       (b \<longrightarrow> \<not> dt < dual_infeasibility_scaled s \<and> \<not> kComplementarity < complementarity_violation s)"
    by blast
  let ?u = "refuse_a_non_finite_answer t"
  have u: "status ?u \<in> {kOptimal, kFeasible} \<longrightarrow> ?u = t \<and> isfinite (objective t) \<and> list_all isfinite (col_value t)"
    by (cases "status t") (auto simp: refuse_a_non_finite_answer_def Let_def)
  have "(status ?u \<in> {kOptimal, kFeasible} \<longrightarrow> isfinite (objective ?u) \<and> list_all isfinite (col_value ?u) \<and>
         \<not> pt < primal_infeasibility_scaled ?u \<and> \<not> it < integrality_violation ?u) \<and>
      (status ?u = kOptimal \<longrightarrow> status s = kOptimal \<and>
         (b \<longrightarrow> \<not> dt < dual_infeasibility_scaled ?u \<and> \<not> kComplementarity < complementarity_violation ?u))"
    using u t(3,4) same_answer_fields[OF t(2)] by auto
  then show ?thesis
    unfolding Let_def
    by (intro exI[of _ t] exI[of _ pt] exI[of _ dt] exI[of _ it] conjI t(1,2) o) simp_all
qed

text \<open>
  A limited search that found nothing keeps its resource status, whatever the limit: the
  refusal drops the placeholder vectors and leaves status, reason and bound alone; and refusing
  twice is refusing once as far as the answer goes.
\<close>

theorem limited_search_is_not_a_failure:
  assumes "r \<noteq> kNone" "status s = status_for r" "isinf (objective s)" "list_all isfinite (col_value s)"
  shows "(let u = refuse_a_non_finite_answer (record_why_it_stopped s) in
    status u = status_for r \<and> col_value u = [] \<and> row_activity u = [] \<and>
    dual_bound u = dual_bound s \<and> (stopped_by s = kNone \<longrightarrow> stopped_by u = r) \<and>
    status (refuse_a_non_finite_answer u) = status u)"
  using assms by (cases r) (auto simp: refuse_a_non_finite_answer_def record_why_it_stopped_def Let_def)

lemma merge_polish_cases:
  "(\<exists>k msg. merge_polish f start q = start\<lparr>polish_iterations := k, message := msg\<rparr>) \<or>
   (iterations (merge_polish f start q) = polish_iterations (merge_polish f start q) + iterations start \<and>
    (status (merge_polish f start q) = kOptimal \<or> status (merge_polish f start q) = kFeasible \<and>
       worst_violation (merge_polish f start q) < worst_violation start))"
proof (cases "status q = kOptimal \<or> (status q = kFeasible \<and> worst_violation q < worst_violation start)")
  case True
  then show ?thesis by (auto simp: merge_polish_def worst_violation_def)
next
  case False
  then show ?thesis unfolding merge_polish_def by (intro disjI1 exI) (simp only: if_False)
qed

lemma polish_cases:
  assumes "polish_with_the_interior_point fmt_int nd solve_ipm m opts elapsed start = Some r"
  shows "(\<exists>msg. r = start\<lparr>message := msg\<rparr>) \<or>
    (claims_a_point (status start) \<and> status start \<noteq> kOptimal \<and> (\<exists>q. r = merge_polish fmt_int start q))"
proof -
  have i: "\<exists>msg. start = start\<lparr>message := msg\<rparr>" by (rule exI[of _ "message start"]) simp
  show ?thesis
    using assms i unfolding polish_with_the_interior_point_def
    by (auto simp: Let_def bind_eq_Some_conv split: if_splits)
qed

text \<open>
  C40. The polish cannot make an answer worse. Whatever the interior point returns, the result is
  the first answer up to its message and the polish count, or it is optimal, or it is feasible with
  a strictly smaller worst scaled violation; an optimal first answer and one without a point are
  never touched, and the iteration count of a replaced answer is the sum of both phases.
\<close>

theorem polish_never_worse:
  assumes "polish_with_the_interior_point fmt_int nd solve_ipm m opts elapsed start = Some r"
  shows "(col_value r = col_value start \<and> objective r = objective start \<and> status r = status start \<and>
      iterations r = iterations start) \<or>
    (claims_a_point (status start) \<and> status start \<noteq> kOptimal \<and>
     iterations r = polish_iterations r + iterations start \<and>
     (status r = kOptimal \<or> status r = kFeasible \<and> worst_violation r < worst_violation start))"
proof (cases "\<exists>msg. r = start\<lparr>message := msg\<rparr>")
  case True
  then show ?thesis by (elim exE) simp
next
  case False
  with polish_cases[OF assms] obtain q where q: "r = merge_polish fmt_int start q"
    "claims_a_point (status start)" "status start \<noteq> kOptimal" by blast
  from merge_polish_cases[of fmt_int start q] show ?thesis
    unfolding q(1)[symmetric] using q(2,3) by (elim disjE exE) simp_all
qed

section \<open>Witnesses\<close>

definition demo_solution :: solution where
  "demo_solution = empty_solution\<lparr>status := kOptimal, col_value := [0], primal_infeasibility_scaled := 1\<rparr>"

theorem guarded_claims_supported_witness:
  "\<exists>t. reconcile_status_with_measurement (\<lambda>d. []) (\<lambda>d. []) default_options True demo_solution = Some t"
  using guarded_claims_supported[OF default_typed, of "\<lambda>d. []" "\<lambda>d. []" True demo_solution] by auto

theorem limited_search_is_not_a_failure_witness:
  "status (refuse_a_non_finite_answer (record_why_it_stopped
     (empty_solution\<lparr>status := kNodeLimit, objective := PInf, col_value := [0]\<rparr>))) = kNodeLimit"
  using limited_search_is_not_a_failure[of kNodes "empty_solution\<lparr>status := kNodeLimit, objective := PInf, col_value := [0]\<rparr>"]
  by (simp add: Let_def)

text \<open>An answer that is only feasible is handed to the interior point.\<close>

lemma demo_polish_runs:
  assumes "status start = kFeasible" "col_value start = []" "row_dual start = []" "col_dual start = []"
  shows "\<exists>p. polish_with_the_interior_point show_int True solve_ipm empty_model default_options 0 start =
    Some (merge_polish show_int start (solve_ipm p [] [] []))"
proof -
  have spec: "find_spec ''pdhg_polish'' = Some (spec ''pdhg_polish'' OT_Bool (VBool True) 0 0 [] [] False)"
    "find_spec ''polish_iteration_limit'' = Some (spec ''polish_iteration_limit'' OT_Int (VInt 50) (lit 1) kNoLimit [] [] False)"
    by (simp_all add: find_spec_def name_index_def registry_def registry_groups)
  have names: "name_index ''iteration_limit'' \<noteq> None" "name_index ''time_limit'' \<noteq> None"
    using option_rows(1,2) by (auto simp: find_spec_def)
  have getters: "get_bool default_options ''pdhg_polish'' = Some True" "get_int default_options ''polish_iteration_limit'' = Some 50"
    "get_bool default_options ''deterministic'' = Some False" "get_int default_options ''iteration_limit'' = Some (- 1)"
    "get_int default_options ''node_limit'' = Some (- 1)"
    using default_value[OF spec(1)] default_value[OF spec(2)] default_value[OF option_rows(4)] default_value[OF option_rows(2)]
      default_value[OF option_rows(3)]
    by (simp_all add: get_bool_def get_int_def)
  have "\<exists>l w. resource_limits_of default_options = Some (l, w) \<and> \<not> has_time_limit l"
    by (simp add: resource_limits_of_def getters default_getters read_time_limit_def read_iteration_limit_def read_node_limit_def
        no_limits_def kNoWallClockLimit_def)
  then obtain l w where l: "resource_limits_of default_options = Some (l, w)" "\<not> has_time_limit l" by blast
  obtain p1 where p1: "set_int True default_options ''iteration_limit'' 50 = Some p1"
    using names(1) by (auto simp: set_int_def set_typed_def value_of_def assign_def)
  obtain p2 where p2: "set_double True p1 ''time_limit'' (lit 30) = Some p2"
    using names(2) by (auto simp: set_double_def set_typed_def value_of_def assign_def)
  have "polish_with_the_interior_point show_int True solve_ipm empty_model default_options 0 start =
      Some (merge_polish show_int start (solve_ipm p2 [] [] []))"
    using assms by (simp add: polish_with_the_interior_point_def getters default_getters l p1 p2 num_cols_def num_rows_def
        empty_model_def Let_def)
  then show ?thesis by blast
qed

theorem polish_never_worse_witness:
  "\<exists>r. polish_with_the_interior_point show_int True (\<lambda>p x y z. demo_solution) empty_model default_options 0
     (empty_solution\<lparr>status := kFeasible\<rparr>) = Some r \<and> status r = kOptimal \<and> iterations r = polish_iterations r"
proof -
  let ?start = "empty_solution\<lparr>status := kFeasible\<rparr>"
  obtain r where r: "polish_with_the_interior_point show_int True (\<lambda>p x y z. demo_solution) empty_model default_options 0 ?start = Some r"
    "r = merge_polish show_int ?start demo_solution"
    using demo_polish_runs[of ?start "\<lambda>p x y z. demo_solution"] by (auto simp: empty_solution_def)
  have "status r = kOptimal" by (simp add: r(2) merge_polish_def demo_solution_def)
  with polish_never_worse[OF r(1)] r(1) show ?thesis by (auto simp: empty_solution_def)
qed

end
