(* ===== verification/Certificate.thy ===== *)
theory Certificate
  imports Model
begin

text \<open>
  \<open>include/sankhya/certificate.hpp\<close> and \<open>src/core/certificate.cpp\<close>: the check of a Farkas
  vector, which claims that a model has no feasible point, and of a ray, which claims that its
  objective is unbounded. The checks are written once for any ordered scalar, with the test for a
  finite bound and the tolerances as arguments: at \<open>double\<close> with the constants of
  \<open>tolerances.hpp\<close> they are the code; over an ordered field the arguments behind them can be proved.
  The explanation a check returns is the constructor of its text.
\<close>

section \<open>The Farkas check\<close>

datatype 'a farkas_verdict =
    MultiplierCount nat nat | AllZero
  | NoLowerBound nat 'a | NoUpperBound nat 'a
  | FreeUpward nat | FreeDownward nat
  | NotBeyondRounding 'a 'a 'a | Contradiction 'a 'a

text \<open>One row: the multiplier leans on the bound its sign selects.\<close>

definition required_step ::
    "('a \<Rightarrow> bool) \<Rightarrow> 'a model \<Rightarrow> 'a list \<Rightarrow> nat \<Rightarrow> 'a farkas_verdict + 'a \<Rightarrow>
     'a farkas_verdict + 'a::{zero,plus,times,ord}" where
  "required_step fin m y i acc =
     (case acc of Inl v \<Rightarrow> Inl v
      | Inr q \<Rightarrow>
          if 0 < y ! i then
            (if \<not> fin (row_lower m ! i) then Inl (NoLowerBound i (y ! i))
             else Inr (q + y ! i * row_lower m ! i))
          else if y ! i < 0 then
            (if \<not> fin (row_upper m ! i) then Inl (NoUpperBound i (y ! i))
             else Inr (q + y ! i * row_upper m ! i))
          else Inr q)"

definition aggregate_column :: "'a model \<Rightarrow> 'a list \<Rightarrow> nat \<Rightarrow> 'a::{zero,plus,times}" where
  "aggregate_column m y j = foldl (\<lambda>s (r, v). s + v * y ! r) 0 (column (matrix m) j)"

definition aggregate_scale :: "'a model \<Rightarrow> 'a list \<Rightarrow> 'a::{zero,plus,times,abs,ord}" where
  "aggregate_scale m y = fold (\<lambda>j s. foldl (\<lambda>s (r, v). cmax s \<bar>v * y ! r\<bar>) s (column (matrix m) j))
     [0..<num_cols m] 0"

text \<open>One column: the most the aggregate can gain on it, unless the coefficient is at rounding size.\<close>

definition reachable_step ::
    "('a \<Rightarrow> bool) \<Rightarrow> 'a \<Rightarrow> 'a model \<Rightarrow> 'a list \<Rightarrow> nat \<Rightarrow> 'a farkas_verdict + 'a \<Rightarrow>
     'a farkas_verdict + 'a::{zero,plus,times,uminus,ord}" where
  "reachable_step fin threshold m d j acc =
     (case acc of Inl v \<Rightarrow> Inl v
      | Inr q \<Rightarrow>
          if threshold < d ! j then
            (if \<not> fin (col_upper m ! j) then Inl (FreeUpward j) else Inr (q + d ! j * col_upper m ! j))
          else if d ! j < - threshold then
            (if \<not> fin (col_lower m ! j) then Inl (FreeDownward j) else Inr (q + d ! j * col_lower m ! j))
          else Inr q)"

definition farkas_check ::
    "('a \<Rightarrow> bool) \<Rightarrow> 'a \<Rightarrow> 'a \<Rightarrow> 'a model \<Rightarrow> 'a list \<Rightarrow>
     'a::{zero,one,plus,minus,uminus,times,abs,ord} farkas_verdict" where
  "farkas_check fin tolerance zero_drop m y =
     (if length y \<noteq> num_rows m then MultiplierCount (length y) (num_rows m)
      else if \<not> list_ex (\<lambda>v. \<not> feq v 0) y then AllZero
      else case fold (required_step fin m y) [0..<num_rows m] (Inr 0) of
          Inl v \<Rightarrow> v
        | Inr required \<Rightarrow>
            let d = map (aggregate_column m y) [0..<num_cols m];
                scale = aggregate_scale m y in
            (case fold (reachable_step fin (zero_drop * cmax 1 scale) m d) [0..<num_cols m] (Inr 0) of
               Inl v \<Rightarrow> v
             | Inr reachable \<Rightarrow>
                 let margin = required - reachable;
                     comparison = cmax (cmax (cmax 1 \<bar>required\<bar>) \<bar>reachable\<bar>) scale in
                 if margin \<le> tolerance * comparison then NotBeyondRounding required reachable margin
                 else Contradiction required reachable))"

fun is_contradiction :: "'a farkas_verdict \<Rightarrow> bool" where
  "is_contradiction (Contradiction a b) = True"
| "is_contradiction _ = False"

definition farkas_proves_infeasible :: "double model \<Rightarrow> double list \<Rightarrow> bool" where
  "farkas_proves_infeasible m y \<longleftrightarrow>
     is_contradiction (farkas_check isfinite kPrimalFeasibility kZeroDrop m y)"

section \<open>The ray check\<close>

datatype 'a ray_verdict =
    EntryCount nat nat | ZeroRay
  | RaisesColumn nat | LowersColumn nat | RaisesRow nat | LowersRow nat
  | NotImproving 'a | CurvesBack 'a | ImprovesForever 'a

definition blocked_column ::
    "('a \<Rightarrow> bool) \<Rightarrow> 'a \<Rightarrow> 'a model \<Rightarrow> 'a list \<Rightarrow> nat \<Rightarrow> 'a::{uminus,ord} ray_verdict option" where
  "blocked_column fin moving m d j =
     (if moving < d ! j \<and> fin (col_upper m ! j) then Some (RaisesColumn j)
      else if d ! j < - moving \<and> fin (col_lower m ! j) then Some (LowersColumn j) else None)"

definition ray_activity :: "'a model \<Rightarrow> 'a list \<Rightarrow> 'a::{zero,plus,times,ord} list" where
  "ray_activity m d = fold (\<lambda>j act. if feq (d ! j) 0 then act
      else scatter_column (d ! j) (column (matrix m) j) act) [0..<num_cols m] (replicate (num_rows m) 0)"

definition ray_scale :: "'a model \<Rightarrow> 'a list \<Rightarrow> 'a::{zero,plus,times,abs,ord}" where
  "ray_scale m d = fold (\<lambda>j s. if feq (d ! j) 0 then s
      else foldl (\<lambda>s (r, v). cmax s \<bar>v * d ! j\<bar>) s (column (matrix m) j)) [0..<num_cols m] 0"

definition blocked_row ::
    "('a \<Rightarrow> bool) \<Rightarrow> 'a \<Rightarrow> 'a model \<Rightarrow> 'a list \<Rightarrow> nat \<Rightarrow> 'a::{uminus,ord} ray_verdict option" where
  "blocked_row fin moving m act i =
     (if moving < act ! i \<and> fin (row_upper m ! i) then Some (RaisesRow i)
      else if act ! i < - moving \<and> fin (row_lower m ! i) then Some (LowersRow i) else None)"

definition improvement :: "'a model \<Rightarrow> 'a list \<Rightarrow> 'a::{zero,one,plus,uminus,times}" where
  "improvement m d = fold (\<lambda>j s. s + sense_multiplier m * col_cost m ! j * d ! j) [0..<num_cols m] 0"

definition cost_scale :: "'a model \<Rightarrow> 'a list \<Rightarrow> 'a::{zero,one,uminus,times,abs,ord}" where
  "cost_scale m d = fold (\<lambda>j s. cmax s \<bar>sense_multiplier m * col_cost m ! j * d ! j\<bar>) [0..<num_cols m] 0"

definition curvature :: "'a model \<Rightarrow> 'a list \<Rightarrow> 'a::{zero,plus,times}" where
  "curvature m d = fold (\<lambda>j s. foldl (\<lambda>s (r, v).
       let s1 = s + v * d ! j * d ! r in if r \<noteq> j then s1 + v * d ! r * d ! j else s1)
     s (column (hessian m) j)) [0..<ncols (hessian m)] 0"

definition ray_check ::
    "('a \<Rightarrow> bool) \<Rightarrow> 'a \<Rightarrow> 'a model \<Rightarrow> 'a list \<Rightarrow>
     'a::{zero,one,plus,uminus,times,abs,ord} ray_verdict" where
  "ray_check fin tolerance m d =
     (if length d \<noteq> num_cols m then EntryCount (length d) (num_cols m)
      else
        let magnitude = foldl (\<lambda>s v. cmax s \<bar>v\<bar>) 0 d in
        if feq magnitude 0 then ZeroRay
        else case first_error (blocked_column fin (tolerance * magnitude) m d) [0..<num_cols m] of
            Some v \<Rightarrow> v
          | None \<Rightarrow>
        (case first_error (blocked_row fin (tolerance * cmax 1 (ray_scale m d)) m (ray_activity m d))
                [0..<num_rows m] of
            Some v \<Rightarrow> v
          | None \<Rightarrow>
            if - tolerance * cmax 1 (cost_scale m d) \<le> improvement m d then NotImproving (improvement m d)
            else if 0 < num_nonzeros (hessian m) \<and>
                tolerance * cmax 1 \<bar>curvature m d\<bar> < curvature m d then CurvesBack (curvature m d)
            else ImprovesForever (improvement m d)))"

fun improves_forever :: "'a ray_verdict \<Rightarrow> bool" where
  "improves_forever (ImprovesForever a) = True"
| "improves_forever _ = False"

definition ray_proves_unbounded :: "double model \<Rightarrow> double list \<Rightarrow> bool" where
  "ray_proves_unbounded m d \<longleftrightarrow> improves_forever (ray_check isfinite kPrimalFeasibility m d)"

section \<open>Keeping a certificate\<close>

text \<open>The text of a verdict is a parameter.\<close>

definition no_certificate_text :: string where
  "no_certificate_text = ''; no machine-checkable certificate accompanies this verdict''"

definition verify_and_keep_certificate ::
    "(double farkas_verdict \<Rightarrow> string) \<Rightarrow> (double ray_verdict \<Rightarrow> string) \<Rightarrow> double model \<Rightarrow>
     solution \<Rightarrow> solution" where
  "verify_and_keep_certificate farkas_text ray_text m s =
     (let check = farkas_check isfinite kPrimalFeasibility kZeroDrop m in
      if status s = kInfeasible \<and> farkas_dual s \<noteq> [] then
        (if farkas_proves_infeasible m (farkas_dual s) then
           s\<lparr>message := message s @ ''; proof: '' @ farkas_text (check (farkas_dual s))\<rparr>
         else
           let flipped = map uminus (farkas_dual s) in
           if farkas_proves_infeasible m flipped then
             s\<lparr>farkas_dual := flipped,
                message := message s @ ''; proof: '' @ farkas_text (check flipped)\<rparr>
           else s\<lparr>farkas_dual := [], message := message s @ no_certificate_text\<rparr>)
      else if status s = kUnbounded \<and> primal_ray s \<noteq> [] then
        (if ray_proves_unbounded m (primal_ray s) then
           s\<lparr>message := message s @ ''; proof: '' @
              ray_text (ray_check isfinite kPrimalFeasibility m (primal_ray s))\<rparr>
         else s\<lparr>primal_ray := [], message := message s @ no_certificate_text\<rparr>)
      else s)"

section \<open>Adjoint operators and the aggregate of the rows\<close>

text \<open>
  What a duality argument needs of a matrix: its two products are adjoint. The lemma inside is the
  bound every Farkas argument rests on, for rows that may be met only up to a slack.
\<close>

locale adjoint_pair =
  fixes ok :: "'m \<Rightarrow> bool" and rows cols :: "'m \<Rightarrow> nat"
    and ap ad :: "'m \<Rightarrow> 'a::linordered_field list \<Rightarrow> 'a list"
  assumes adjoint: "ok A \<Longrightarrow> (\<Sum>i<rows A. y ! i * ap A x ! i) = (\<Sum>j<cols A. ad A y ! j * x ! j)"
begin

lemma aggregate_bound:
  assumes "ok A"
    and low: "\<And>i. i < rows A \<Longrightarrow> req i - \<bar>y ! i\<bar> * s i \<le> y ! i * ap A x ! i"
    and up: "\<And>j. j < cols A \<Longrightarrow> ad A y ! j * x ! j \<le> reach j"
  shows "(\<Sum>i<rows A. req i) - (\<Sum>i<rows A. \<bar>y ! i\<bar> * s i) \<le> (\<Sum>j<cols A. reach j)"
proof -
  have "(\<Sum>i<rows A. req i) - (\<Sum>i<rows A. \<bar>y ! i\<bar> * s i) \<le> (\<Sum>i<rows A. y ! i * ap A x ! i)"
    unfolding sum_subtractf[symmetric] using low by (intro sum_mono) simp
  also have "\<dots> = (\<Sum>j<cols A. ad A y ! j * x ! j)" by (rule adjoint[OF \<open>ok A\<close>])
  also have "\<dots> \<le> (\<Sum>j<cols A. reach j)" using up by (intro sum_mono) simp
  finally show ?thesis .
qed

end

interpretation csc: adjoint_pair csc_ok nrows ncols "\<lambda>A x. multiply A x 1" "\<lambda>A y. transpose_multiply A y 1"
  by unfold_locales (rule csc_adjoint)


section \<open>Exact arithmetic: the arguments are sound\<close>

definition exactly_feasible :: "('a \<Rightarrow> bool) \<Rightarrow> 'a::linordered_field model \<Rightarrow> 'a list \<Rightarrow> bool" where
  "exactly_feasible fin m x \<longleftrightarrow>
     (\<forall>i < num_rows m. (fin (row_lower m ! i) \<longrightarrow> row_lower m ! i \<le> multiply (matrix m) x 1 ! i) \<and>
        (fin (row_upper m ! i) \<longrightarrow> multiply (matrix m) x 1 ! i \<le> row_upper m ! i)) \<and>
     (\<forall>j < num_cols m. (fin (col_lower m ! j) \<longrightarrow> col_lower m ! j \<le> x ! j) \<and>
        (fin (col_upper m ! j) \<longrightarrow> x ! j \<le> col_upper m ! j))"

text \<open>The bound a row multiplier or a column coefficient selects, times it.\<close>

definition row_term :: "'a::linordered_field model \<Rightarrow> 'a list \<Rightarrow> nat \<Rightarrow> 'a" where
  "row_term m y i = (if 0 < y ! i then y ! i * row_lower m ! i
     else if y ! i < 0 then y ! i * row_upper m ! i else 0)"

definition col_term :: "'a::linordered_field model \<Rightarrow> 'a list \<Rightarrow> nat \<Rightarrow> 'a" where
  "col_term m d j = (if 0 < d ! j then d ! j * col_upper m ! j
     else if d ! j < 0 then d ! j * col_lower m ! j else 0)"

lemma required_step_Inl [simp]: "required_step fin m y i (Inl v) = Inl v"
  by (simp add: required_step_def)

lemma reachable_step_Inl [simp]: "reachable_step fin th m d j (Inl v) = Inl v"
  by (simp add: reachable_step_def)

lemma required_step_Inr: "required_step fin m y i (Inr p) = Inr q \<longleftrightarrow>
    q = p + row_term m y i \<and> (0 < y ! i \<longrightarrow> fin (row_lower m ! i)) \<and> (y ! i < 0 \<longrightarrow> fin (row_upper m ! i))"
  by (auto simp: required_step_def row_term_def)

lemma reachable_step_Inr: "reachable_step fin 0 m d j (Inr p) = Inr q \<longleftrightarrow>
    q = p + col_term m d j \<and> (0 < d ! j \<longrightarrow> fin (col_upper m ! j)) \<and> (d ! j < 0 \<longrightarrow> fin (col_lower m ! j))"
  by (auto simp: reachable_step_def col_term_def)

lemma required_verdict:
  "fold (required_step fin m y) is acc = Inl v \<Longrightarrow> (\<And>w. acc = Inl w \<Longrightarrow> \<not> is_contradiction w) \<Longrightarrow>
    \<not> is_contradiction v"
proof (induction "is" arbitrary: acc)
  case (Cons i "is")
  show ?case
    by (rule Cons.IH[of "required_step fin m y i acc"])
       (use Cons.prems in \<open>auto simp: required_step_def split: sum.splits if_splits\<close>)
qed simp

lemma reachable_verdict:
  "fold (reachable_step fin th m d) js acc = Inl v \<Longrightarrow> (\<And>w. acc = Inl w \<Longrightarrow> \<not> is_contradiction w) \<Longrightarrow>
    \<not> is_contradiction v"
proof (induction js arbitrary: acc)
  case (Cons j js)
  show ?case
    by (rule Cons.IH[of "reachable_step fin th m d j acc"])
       (use Cons.prems in \<open>auto simp: reachable_step_def split: sum.splits if_splits\<close>)
qed simp

lemma contradiction_cases:
  assumes "is_contradiction (farkas_check fin tol zd m y)"
  obtains rq rc where "length y = num_rows m"
    "fold (required_step fin m y) [0..<num_rows m] (Inr 0) = Inr rq"
    "fold (reachable_step fin (zd * cmax 1 (aggregate_scale m y)) m (map (aggregate_column m y) [0..<num_cols m]))
       [0..<num_cols m] (Inr 0) = Inr rc"
    "\<not> rq - rc \<le> tol * cmax (cmax (cmax 1 \<bar>rq\<bar>) \<bar>rc\<bar>) (aggregate_scale m y)"
proof (cases "fold (required_step fin m y) [0..<num_rows m] (Inr 0)")
  case (Inl v)
  then have "\<not> is_contradiction v" by (rule required_verdict) simp
  with assms Inl show ?thesis by (simp add: farkas_check_def split: if_splits)
next
  case rq: (Inr rq)
  show ?thesis
  proof (cases "fold (reachable_step fin (zd * cmax 1 (aggregate_scale m y)) m
      (map (aggregate_column m y) [0..<num_cols m])) [0..<num_cols m] (Inr 0)")
    case (Inl v)
    then have "\<not> is_contradiction v" by (rule reachable_verdict) simp
    with assms Inl rq show ?thesis by (simp add: farkas_check_def Let_def split: if_splits)
  next
    case (Inr rc)
    with assms rq show ?thesis
      by (intro that[of rq rc]) (simp_all add: farkas_check_def Let_def split: if_splits)
  qed
qed

lemma required_fold:
  fixes m :: "'a::linordered_field model"
  assumes "fold (required_step fin m y) [0..<n] (Inr 0) = Inr q"
  shows "q = (\<Sum>i<n. row_term m y i) \<and>
    (\<forall>i < n. (0 < y ! i \<longrightarrow> fin (row_lower m ! i)) \<and> (y ! i < 0 \<longrightarrow> fin (row_upper m ! i)))"
  using assms
proof (induction n arbitrary: q)
  case (Suc n)
  then obtain p where p: "fold (required_step fin m y) [0..<n] (Inr 0) = Inr p"
    by (cases "fold (required_step fin m y) [0..<n] (Inr 0)") auto
  then have "required_step fin m y n (Inr p) = Inr q" using Suc.prems by simp
  then show ?case using Suc.IH[OF p] by (auto simp: required_step_Inr less_Suc_eq)
qed simp

lemma reachable_fold:
  fixes m :: "'a::linordered_field model"
  assumes "fold (reachable_step fin 0 m d) [0..<n] (Inr 0) = Inr q"
  shows "q = (\<Sum>j<n. col_term m d j) \<and>
    (\<forall>j < n. (0 < d ! j \<longrightarrow> fin (col_upper m ! j)) \<and> (d ! j < 0 \<longrightarrow> fin (col_lower m ! j)))"
  using assms
proof (induction n arbitrary: q)
  case (Suc n)
  then obtain p where p: "fold (reachable_step fin 0 m d) [0..<n] (Inr 0) = Inr p"
    by (cases "fold (reachable_step fin 0 m d) [0..<n] (Inr 0)") auto
  then have "reachable_step fin 0 m d n (Inr p) = Inr q" using Suc.prems by simp
  then show ?case using Suc.IH[OF p] by (auto simp: reachable_step_Inr less_Suc_eq)
qed simp

lemma aggregate_transpose:
  fixes m :: "'a::linordered_field model"
  assumes "csc_ok (matrix m)" "j < ncols (matrix m)"
  shows "aggregate_column m y j = transpose_multiply (matrix m) y 1 ! (j :: nat)"
  using transpose_multiply_add_nth[OF assms(1), of "replicate (ncols (matrix m)) 0" j y 1] assms
    column_dot[OF assms, of y]
  by (simp add: aggregate_column_def transpose_multiply_def gather_dot_def)

lemma mult_bound:
  fixes c :: "'a::linordered_field"
  shows "(0 < c \<Longrightarrow> l \<le> v) \<Longrightarrow> (c < 0 \<Longrightarrow> v \<le> u) \<Longrightarrow>
    (if 0 < c then c * l else if c < 0 then c * u else 0) \<le> c * v"
    "(0 < c \<Longrightarrow> v \<le> u) \<Longrightarrow> (c < 0 \<Longrightarrow> l \<le> v) \<Longrightarrow>
    c * v \<le> (if 0 < c then c * u else if c < 0 then c * l else 0)"
  by (cases c "0 :: 'a" rule: linorder_cases;
      simp add: mult_left_mono mult_left_mono_neg)+

text \<open>
  C24. The Farkas argument is sound: in exact arithmetic, with no coefficient treated as zero, a
  vector that passes the check proves that no point satisfies the rows and the column box, whatever
  the (non-negative) tolerance and whatever bounds count as absent.
\<close>

theorem farkas_argument_sound:
  fixes m :: "'a::linordered_field model"
  assumes ok: "csc_ok (matrix m)" and dims: "nrows (matrix m) = num_rows m" "ncols (matrix m) = num_cols m"
    and tol: "0 \<le> tol" and c: "is_contradiction (farkas_check fin tol 0 m y)"
  shows "\<not> exactly_feasible fin m x"
proof
  assume f: "exactly_feasible fin m x"
  let ?d = "map (aggregate_column m y) [0..<num_cols m]"
  from c obtain rq rc where rq: "fold (required_step fin m y) [0..<num_rows m] (Inr 0) = Inr rq"
    and rc: "fold (reachable_step fin 0 m ?d) [0..<num_cols m] (Inr 0) = Inr rc"
    and gap: "tol * max (max (max 1 \<bar>rq\<bar>) \<bar>rc\<bar>) (aggregate_scale m y) < rq - rc"
    by (rule contradiction_cases) simp
  have d: "?d ! j = transpose_multiply (matrix m) y 1 ! j" if "j < num_cols m" for j
    using that aggregate_transpose[OF ok] dims by simp
  have "(\<Sum>i<nrows (matrix m). row_term m y i) - (\<Sum>i<nrows (matrix m). \<bar>y ! i\<bar> * 0) \<le>
      (\<Sum>j<ncols (matrix m). col_term m ?d j)"
  proof (rule csc.aggregate_bound[OF ok, where x = x])
    fix i assume "i < nrows (matrix m)"
    then show "row_term m y i - \<bar>y ! i\<bar> * 0 \<le> y ! i * multiply (matrix m) x 1 ! i"
      using f required_fold[OF rq] dims
      by (simp add: row_term_def exactly_feasible_def mult_bound(1))
  next
    fix j assume j: "j < ncols (matrix m)"
    then have "col_term m ?d j = (if 0 < ?d ! j then ?d ! j * col_upper m ! j
        else if ?d ! j < 0 then ?d ! j * col_lower m ! j else 0)" by (simp add: col_term_def)
    moreover have "?d ! j * x ! j \<le> \<dots>"
      by (rule mult_bound(2)) (use f reachable_fold[OF rc] j dims in \<open>auto simp: exactly_feasible_def\<close>)
    ultimately show "transpose_multiply (matrix m) y 1 ! j * x ! j \<le> col_term m ?d j"
      using d[of j] j dims by simp
  qed
  then have "rq \<le> rc" using required_fold[OF rq] reachable_fold[OF rc] dims by simp
  moreover have "0 \<le> tol * max (max (max 1 \<bar>rq\<bar>) \<bar>rc\<bar>) (aggregate_scale m y)"
    using tol by (intro mult_nonneg_nonneg) (auto simp: le_max_iff_disj)
  ultimately show False using gap by simp
qed

subsection \<open>Rays\<close>

definition exactly_linear :: "'a::linordered_field model \<Rightarrow> 'a list \<Rightarrow> 'a" where
  "exactly_linear m x = (\<Sum>j<num_cols m. col_cost m ! j * x ! j)"

text \<open>The point reached from \<open>x\<close> after a step \<open>t\<close> along \<open>d\<close>.\<close>

definition along :: "'a::linordered_field list \<Rightarrow> 'a \<Rightarrow> 'a list \<Rightarrow> nat \<Rightarrow> 'a list" where
  "along x t d n = map (\<lambda>j. x ! j + t * d ! j) [0..<n]"

lemma ray_activity_multiply:
  fixes m :: "'a::linordered_field model"
  assumes "ncols (matrix m) = num_cols m" "nrows (matrix m) = num_rows m"
  shows "ray_activity m d = multiply (matrix m) d 1"
  using assms by (simp add: ray_activity_def multiply_def multiply_add_def Let_def)

lemma multiply_along:
  assumes ok: "csc_ok a" and i: "i < nrows a"
  shows "multiply a (along x t d (ncols a)) 1 ! i = multiply a x 1 ! i + t * multiply a d 1 ! i"
proof -
  have e: "multiply a z 1 ! i = (\<Sum>j<ncols a. entry_at a i j * z ! j)" for z
    using multiply_add_correct[OF ok, of "replicate (nrows a) 0" i z 1] i by (simp add: multiply_def)
  show ?thesis
    unfolding e by (simp add: along_def algebra_simps sum.distrib sum_distrib_left)
qed

lemma improvement_sum:
  fixes m :: "'a::linordered_field model"
  shows "improvement m d = sense_multiplier m * exactly_linear m d"
  using fold_add_sum[of "\<lambda>j. sense_multiplier m * col_cost m ! j * d ! j" "num_cols m" 0]
  by (simp add: improvement_def exactly_linear_def sum_distrib_left algebra_simps)

lemma first_error_Some: "first_error f xs = Some v \<Longrightarrow> \<exists>x \<in> set xs. f x = Some v"
  by (induction xs) (auto split: option.splits)

lemma ray_check_cases:
  fixes m :: "'a::linordered_field model"
  assumes "improves_forever (ray_check fin 0 m d)"
  shows "length d = num_cols m \<and> (\<forall>j < num_cols m. blocked_column fin 0 m d j = None) \<and>
    (\<forall>i < num_rows m. blocked_row fin 0 m (ray_activity m d) i = None) \<and> improvement m d < 0 \<and>
    (0 < num_nonzeros (hessian m) \<longrightarrow> curvature m d \<le> 0)"
proof -
  have b: "blocked_column fin z m d j = Some v \<Longrightarrow> \<not> improves_forever v" for z j v
    by (auto simp: blocked_column_def split: if_splits)
  have r: "blocked_row fin z m a i = Some v \<Longrightarrow> \<not> improves_forever v" for z a i v
    by (auto simp: blocked_row_def split: if_splits)
  have l: "length d = num_cols m" using assms by (auto simp: ray_check_def split: if_splits)
  have fb: "first_error (blocked_column fin 0 m d) [0..<num_cols m] = None"
  proof (cases "first_error (blocked_column fin 0 m d) [0..<num_cols m]")
    case (Some v)
    then have "\<not> improves_forever v" using first_error_Some[OF Some] b by blast
    then show ?thesis using assms unfolding ray_check_def Let_def mult_zero_left Some option.case
      by (simp split: if_splits)
  qed
  have fr: "first_error (blocked_row fin 0 m (ray_activity m d)) [0..<num_rows m] = None"
  proof (cases "first_error (blocked_row fin 0 m (ray_activity m d)) [0..<num_rows m]")
    case (Some v)
    then have "\<not> improves_forever v" using first_error_Some[OF Some] r by blast
    then show ?thesis using assms unfolding ray_check_def Let_def mult_zero_left fb Some option.case
      by (simp split: if_splits)
  qed
  have "improvement m d < 0 \<and> (0 < num_nonzeros (hessian m) \<longrightarrow> curvature m d \<le> 0)"
    using assms unfolding ray_check_def Let_def mult_zero_left fb fr option.case
    by (auto simp: not_less split: if_splits)
  then show ?thesis using l fb fr by simp
qed

text \<open>
  C25. The ray argument is sound for a linear objective: in exact arithmetic with a zero tolerance, a
  direction that passes the check leads from any feasible point to feasible points only, however far
  it is followed, and in the sense of the model the objective improves by the same positive amount
  with every unit of the step.
\<close>

theorem ray_argument_sound:
  fixes m :: "'a::linordered_field model"
  assumes ok: "csc_ok (matrix m)" and dims: "nrows (matrix m) = num_rows m" "ncols (matrix m) = num_cols m"
    and c: "improves_forever (ray_check fin 0 m d)" and x: "exactly_feasible fin m x" and t: "0 \<le> t"
  shows "exactly_feasible fin m (along x t d (num_cols m)) \<and>
    sense_multiplier m * exactly_linear m (along x t d (num_cols m)) =
      sense_multiplier m * exactly_linear m x + t * improvement m d \<and> improvement m d < 0"
proof (intro conjI)
  note r = ray_check_cases[OF c]
  show "improvement m d < 0" using r by blast
  show "sense_multiplier m * exactly_linear m (along x t d (num_cols m)) =
      sense_multiplier m * exactly_linear m x + t * improvement m d"
    unfolding improvement_sum
    by (simp add: exactly_linear_def along_def algebra_simps sum.distrib sum_distrib_left)
  have act: "(fin (row_upper m ! i) \<longrightarrow> multiply (matrix m) d 1 ! i \<le> 0) \<and>
      (fin (row_lower m ! i) \<longrightarrow> 0 \<le> multiply (matrix m) d 1 ! i)" if "i < num_rows m" for i
  proof -
    have "blocked_row fin 0 m (multiply (matrix m) d 1) i = None"
      using r that by (simp add: ray_activity_multiply[OF dims(2,1)])
    then show ?thesis by (auto simp: blocked_row_def not_less split: if_splits)
  qed
  have col: "(fin (col_upper m ! j) \<longrightarrow> d ! j \<le> 0) \<and> (fin (col_lower m ! j) \<longrightarrow> 0 \<le> d ! j)"
    if "j < num_cols m" for j
  proof -
    have "blocked_column fin 0 m d j = None" using r that by simp
    then show ?thesis by (auto simp: blocked_column_def not_less split: if_splits)
  qed
  have down: "t * v \<le> 0" if "v \<le> 0" for v using t that by (simp add: mult_nonneg_nonpos)
  have up: "0 \<le> t * v" if "0 \<le> v" for v using t that by simp
  have row: "multiply (matrix m) (along x t d (num_cols m)) 1 ! i =
      multiply (matrix m) x 1 ! i + t * multiply (matrix m) d 1 ! i" if "i < num_rows m" for i
    using multiply_along[OF ok, of i x t d] that dims by simp
  show "exactly_feasible fin m (along x t d (num_cols m))"
    unfolding exactly_feasible_def
  proof (intro conjI allI impI)
    fix i assume i: "i < num_rows m"
    show "row_lower m ! i \<le> multiply (matrix m) (along x t d (num_cols m)) 1 ! i" if "fin (row_lower m ! i)"
      using x i that act[OF i] up[of "multiply (matrix m) d 1 ! i"] unfolding row[OF i] exactly_feasible_def
      by (meson add_increasing2)
    show "multiply (matrix m) (along x t d (num_cols m)) 1 ! i \<le> row_upper m ! i" if "fin (row_upper m ! i)"
      using x i that act[OF i] down[of "multiply (matrix m) d 1 ! i"] unfolding row[OF i] exactly_feasible_def
      by (meson add_decreasing2)
  next
    fix j assume j: "j < num_cols m"
    have a: "along x t d (num_cols m) ! j = x ! j + t * d ! j" using j by (simp add: along_def)
    show "col_lower m ! j \<le> along x t d (num_cols m) ! j" if "fin (col_lower m ! j)"
      using x j that col[OF j] up[of "d ! j"] unfolding a exactly_feasible_def by (meson add_increasing2)
    show "along x t d (num_cols m) ! j \<le> col_upper m ! j" if "fin (col_upper m ! j)"
      using x j that col[OF j] down[of "d ! j"] unfolding a exactly_feasible_def by (meson add_decreasing2)
  qed
qed

section \<open>The checks on doubles accept two false claims\<close>

lemma rnd_half_power: "k \<le> 1074 \<Longrightarrow> rnd (1 / 2 ^ k) = Fin (1 / 2 ^ k)"
proof (rule rnd_dyadic[of _ 1 "- int k"])
  show "1 / 2 ^ k = of_int 1 * (2 :: rat) powi - int k" by (simp add: power_int_minus power_int_def power_one_over divide_simps)
  have "(1 :: rat) / 2 ^ k \<le> 1" by simp
  also have "\<dots> < 2 ^ 1024" by simp
  finally show "\<bar>1 / 2 ^ k\<bar> < (2 :: rat) ^ 1024" by simp
qed simp_all

lemma kPrimalFeasibility_value: "kPrimalFeasibility = Fin (7555786372591432 / 2 ^ 76)"
  unfolding kPrimalFeasibility_def lit_def
  by (subst rnd_eval[of "- 24" _ "- 76" 7555786372591432]) (simp_all add: power_int_def power_one_over)

lemma kZeroDrop_value: "kZeroDrop = Fin (6189700196426901 / 2 ^ 89)"
  unfolding kZeroDrop_def lit_def
  by (subst rnd_eval[of "- 37" _ "- 89" 6189700196426901]) (simp_all add: power_int_def power_one_over)

lemma times_one_dyadic:
  assumes "\<bar>n\<bar> \<le> 2 ^ 53" "k \<le> 1074" "n \<noteq> 0"
  shows "Fin (of_int n / 2 ^ k) * 1 = Fin (of_int n / 2 ^ k)"
proof -
  have "rnd (of_int n / 2 ^ k) = Fin (of_int n / 2 ^ k)"
  proof (rule rnd_dyadic[of _ n "- int k"])
    show "of_int n / 2 ^ k = of_int n * (2 :: rat) powi - int k"
      by (simp add: power_int_minus power_int_def divide_simps)
    have "\<bar>of_int n :: rat\<bar> \<le> of_int (2 ^ 53)" using assms(1) by (metis of_int_abs of_int_le_iff)
    moreover have "\<bar>of_int n / 2 ^ k :: rat\<bar> \<le> \<bar>of_int n\<bar>"
      using mult_left_mono[of 1 "2 ^ k :: rat" "\<bar>of_int n\<bar>"] by (simp add: divide_le_eq)
    ultimately have "\<bar>of_int n / 2 ^ k :: rat\<bar> \<le> 2 ^ 53" by simp
    also have "\<dots> < 2 ^ 1024" by simp
    finally show "\<bar>of_int n / 2 ^ k :: rat\<bar> < 2 ^ 1024" .
  qed (use assms in simp_all)
  then show ?thesis using assms(3) by (simp add: one_double_def)
qed

lemma kPrimalFeasibility_unit: "kPrimalFeasibility * 1 = kPrimalFeasibility"
  unfolding kPrimalFeasibility_value using times_one_dyadic[of 7555786372591432 76] by simp

lemma kZeroDrop_unit: "kZeroDrop * 1 = kZeroDrop"
  unfolding kZeroDrop_value using times_one_dyadic[of 6189700196426901 89] by simp

lemmas half_powers = rnd_half_power[of 5, simplified] rnd_half_power[of 33, simplified]
  rnd_half_power[of 38, simplified]

text \<open>One free column, one row \<open>2^-33 x \<ge> 1\<close>: the point \<open>2^40\<close> is feasible.\<close>

definition tiny_row :: "double model" where
  "tiny_row = empty_model\<lparr>col_cost := [0], col_lower := [NInf], col_upper := [PInf],
     col_type := [kContinuous], row_lower := [1], row_upper := [PInf],
     matrix := empty_sparse\<lparr>nrows := 1, ncols := 1, frozen := True, column_starts := [0, 1],
       row_indices := [0], vals := [Fin (1 / 2 ^ 33)]\<rparr>\<rparr>"

lemma tiny_row_fields:
  "num_rows tiny_row = 1" "num_cols tiny_row = 1" "row_lower tiny_row = [Fin 1]"
  "row_upper tiny_row = [PInf]" "col_lower tiny_row = [NInf]" "col_upper tiny_row = [PInf]"
  "column (matrix tiny_row) 0 = [(0, Fin (1 / 2 ^ 33))]"
  "nrows (matrix tiny_row) = 1" "ncols (matrix tiny_row) = 1"
  by (simp_all add: tiny_row_def empty_model_def empty_sparse_def num_rows_def num_cols_def
      column_def segment_def one_double_def)

lemma tiny_row_farkas:
  "farkas_check isfinite kPrimalFeasibility kZeroDrop tiny_row [Fin (1 / 32)] =
     Contradiction (Fin (1 / 32)) (Fin 0)"
proof -
  have req: "fold (required_step isfinite tiny_row [Fin (1 / 32)]) [0..<1] (Inr 0) = Inr (Fin (1 / 32))"
    by (simp add: required_step_def tiny_row_fields zero_double_def half_powers)
  have d: "aggregate_column tiny_row [Fin (1 / 32)] 0 = Fin (1 / 2 ^ 38)"
    by (simp add: aggregate_column_def tiny_row_fields zero_double_def half_powers)
  have sc: "aggregate_scale tiny_row [Fin (1 / 32)] = Fin (1 / 2 ^ 38)"
    by (simp add: aggregate_scale_def tiny_row_fields zero_double_def half_powers cmax_def)
  have one: "cmax 1 (Fin (1 / 2 ^ 38)) = 1" by (simp add: cmax_def one_double_def)
  have reach: "reachable_step isfinite kZeroDrop tiny_row [Fin (1 / 274877906944)] 0 (Inr (Fin 0)) = Inr (Fin 0)"
    by (simp add: reachable_step_def tiny_row_fields kZeroDrop_value)
  have cmp: "cmax (cmax (cmax 1 \<bar>Fin (1 / 32)\<bar>) \<bar>Fin 0\<bar>) (Fin (1 / 2 ^ 38)) = 1"
    by (simp add: cmax_def one_double_def)
  show ?thesis
    unfolding farkas_check_def Let_def tiny_row_fields req sc one kZeroDrop_unit
    by (simp add: d reach cmp[simplified] kPrimalFeasibility_unit zero_double_def half_powers)
       (simp add: kPrimalFeasibility_value)
qed

text \<open>
  C28. The check on doubles accepts a vector that proves nothing: the one-row model below is
  well-formed and the point \<open>2^40\<close> meets its row (the activity is 128 where 1 is needed), yet the
  multiplier 1/32 is accepted as a proof that no point does, because the aggregated coefficient of the
  free column falls below the rounding threshold and its unlimited reach is left out.
\<close>

theorem feasible_model_proved_infeasible:
  "validate tiny_row = None \<and> multiply (matrix tiny_row) [Fin (2 ^ 40)] 1 = [Fin 128] \<and>
   farkas_proves_infeasible tiny_row [Fin (1 / 32)]"
proof (intro conjI)
  show "validate tiny_row = None" unfolding validate_None
    by (auto simp: shapes_ok_def matrices_ok_def bounds_ok_def tiny_row_fields)
       (auto simp: tiny_row_def empty_model_def empty_sparse_def column_def segment_def
        has_quadratic_objective_def num_nonzeros_def num_rows_def num_cols_def)
  show "multiply (matrix tiny_row) [Fin (2 ^ 40)] 1 = [Fin 128]"
    by (simp add: multiply_def multiply_add_def scatter_column_def tiny_row_fields
        zero_double_def one_double_def modify_at_def)
  show "farkas_proves_infeasible tiny_row [Fin (1 / 32)]"
    by (simp add: farkas_proves_infeasible_def tiny_row_farkas)
qed

text \<open>Maximize \<open>x - x\<^sup>2 / 2\<close> over one free column: the objective is at most 1/2.\<close>

definition concave_model :: "'a::{zero,one,uminus} \<Rightarrow> 'a \<Rightarrow> 'a model" where
  "concave_model lo hi = empty_model\<lparr>sense := kMaximize, col_cost := [1], col_lower := [lo], col_upper := [hi],
     col_type := [kContinuous],
     matrix := empty_sparse\<lparr>nrows := 0, ncols := 1, frozen := True, column_starts := [0, 0]\<rparr>,
     hessian := empty_sparse\<lparr>nrows := 1, ncols := 1, frozen := True, column_starts := [0, 1],
       row_indices := [0], vals := [- 1]\<rparr>\<rparr>"

lemma concave_model_fields:
  "num_rows (concave_model lo hi) = 0" "num_cols (concave_model lo hi) = 1"
  "sense (concave_model lo hi) = kMaximize" "col_cost (concave_model lo hi) = [1]"
  "col_lower (concave_model lo hi) = [lo]" "col_upper (concave_model lo hi) = [hi]"
  "column (matrix (concave_model lo hi)) 0 = []" "column (hessian (concave_model lo hi)) 0 = [(0, - 1)]"
  "ncols (hessian (concave_model lo hi)) = 1" "num_nonzeros (hessian (concave_model lo hi)) = 1"
  "objective_offset (concave_model lo hi) = 0"
  by (simp_all add: concave_model_def empty_model_def empty_sparse_def num_rows_def num_cols_def
      column_def segment_def num_nonzeros_def)

lemma concave_model_ray: "ray_check isfinite kPrimalFeasibility (concave_model NInf PInf) [1] = ImprovesForever (- 1)"
proof -
  have mag: "foldl (\<lambda>s v. cmax s \<bar>v\<bar>) 0 [1 :: double] = 1"
    by (simp add: cmax_def one_double_def zero_double_def)
  have col: "first_error (blocked_column isfinite (kPrimalFeasibility * 1) (concave_model NInf PInf) [1]) [0..<1] = None"
    by (simp add: blocked_column_def concave_model_fields)
  have imp: "improvement (concave_model NInf PInf) [1] = - 1"
    by (simp add: improvement_def concave_model_fields sense_multiplier_def one_double_def zero_double_def)
  have cs: "cmax 1 (cost_scale (concave_model NInf PInf) [1]) = 1"
    by (simp add: cost_scale_def concave_model_fields sense_multiplier_def one_double_def zero_double_def cmax_def)
  have cv: "curvature (concave_model NInf PInf) [1] = - 1"
    by (simp add: curvature_def concave_model_fields one_double_def zero_double_def)
  have no: "\<not> - kPrimalFeasibility * 1 \<le> (- 1 :: double)"
    unfolding kPrimalFeasibility_value using times_one_dyadic[of "- 7555786372591432" 76]
    by (simp add: one_double_def)
  have cv1: "cmax 1 \<bar>- 1 :: double\<bar> = 1" by (simp add: cmax_def one_double_def)
  have less: "\<not> kPrimalFeasibility < (- 1 :: double)"
    unfolding kPrimalFeasibility_value by (simp add: one_double_def)
  have ne: "\<not> feq (1 :: double) 0" by (simp add: one_double_def zero_double_def)
  show ?thesis
    unfolding ray_check_def Let_def mag concave_model_fields col imp cs cv cv1 kPrimalFeasibility_unit
    using ne no less by (simp add: kPrimalFeasibility_unit blocked_column_def concave_model_fields)
qed

text \<open>
  C29. A bounded problem is accepted as unbounded: for the well-formed model that maximizes
  \<open>x - x\<^sup>2/2\<close> over a free column the unit direction passes the check, although the objective is at
  most 1/2 at every rational point. The curvature test does not look at the sense of the model.
\<close>

theorem bounded_model_proved_unbounded:
  "validate (concave_model NInf PInf) = None \<and> ray_proves_unbounded (concave_model NInf PInf) [1] \<and>
   evaluate_objective (concave_model 0 0) [x :: rat] \<le> 1 / 2"
proof (intro conjI)
  show "validate (concave_model NInf PInf) = None" unfolding validate_None
    by (auto simp: shapes_ok_def matrices_ok_def bounds_ok_def concave_model_fields)
       (auto simp: concave_model_def empty_model_def empty_sparse_def column_def segment_def
        has_quadratic_objective_def num_nonzeros_def num_rows_def num_cols_def)
  show "ray_proves_unbounded (concave_model NInf PInf) [1]"
    by (simp add: ray_proves_unbounded_def concave_model_ray)
  have "0 \<le> (x - 1)\<^sup>2" by simp
  then show "evaluate_objective (concave_model 0 0) [x] \<le> 1 / 2"
    by (simp add: evaluate_objective_def concave_model_fields has_quadratic_objective_def
        quadratic_term_def half_def power2_eq_square field_simps)
qed

section \<open>What is kept was checked\<close>

text \<open>
  C26. The solver never reports a certificate it did not check: after the verification a multiplier
  vector that stays on an infeasible verdict, possibly with its sign turned, passes the Farkas check,
  a ray that stays on an unbounded verdict passes the ray check, and neither the status nor the point
  is touched.
\<close>

theorem kept_certificate_checked:
  assumes "r = verify_and_keep_certificate ft rt m s"
  shows "status r = status s \<and> col_value r = col_value s \<and> objective r = objective s \<and>
    (status r = kInfeasible \<longrightarrow> farkas_dual r \<noteq> [] \<longrightarrow> farkas_proves_infeasible m (farkas_dual r)) \<and>
    (status r = kUnbounded \<longrightarrow> primal_ray r \<noteq> [] \<longrightarrow> ray_proves_unbounded m (primal_ray r))"
  unfolding assms by (simp add: verify_and_keep_certificate_def Let_def)

theorem kept_certificate_checked_witness:
  "farkas_proves_infeasible tiny_row (farkas_dual (verify_and_keep_certificate (\<lambda>_. []) (\<lambda>_. []) tiny_row
     (empty_solution\<lparr>status := kInfeasible, farkas_dual := [Fin (- 1 / 32)]\<rparr>)))"
proof -
  let ?s = "empty_solution\<lparr>status := kInfeasible, farkas_dual := [Fin (- 1 / 32)]\<rparr>"
  have "\<not> farkas_proves_infeasible tiny_row [Fin (- 1 / 32)]"
    by (simp add: farkas_proves_infeasible_def farkas_check_def tiny_row_fields required_step_def)
  then have "status (verify_and_keep_certificate (\<lambda>_. []) (\<lambda>_. []) tiny_row ?s) = kInfeasible \<and>
      farkas_dual (verify_and_keep_certificate (\<lambda>_. []) (\<lambda>_. []) tiny_row ?s) = [Fin (1 / 32)]"
    by (simp add: verify_and_keep_certificate_def farkas_proves_infeasible_def tiny_row_farkas)
  then show ?thesis
    using kept_certificate_checked[OF refl, of "\<lambda>_. []" "\<lambda>_. []" tiny_row ?s] by (metis not_Cons_self2)
qed

section \<open>Witnesses\<close>

text \<open>A row \<open>x \<ge> lo\<close> over one column between 0 and \<open>hi\<close>; a bound of 100 or more counts as absent.\<close>

definition demo_row :: "rat \<Rightarrow> rat \<Rightarrow> rat model" where
  "demo_row lo hi = empty_model\<lparr>col_cost := [- 1], col_lower := [0], col_upper := [hi],
     col_type := [kContinuous], row_lower := [lo], row_upper := [100],
     matrix := empty_sparse\<lparr>nrows := 1, ncols := 1, frozen := True, column_starts := [0, 1],
       row_indices := [0], vals := [1]\<rparr>\<rparr>"

lemma demo_row_fields:
  "num_rows (demo_row lo hi) = 1" "num_cols (demo_row lo hi) = 1"
  "row_lower (demo_row lo hi) = [lo]" "row_upper (demo_row lo hi) = [100]"
  "col_lower (demo_row lo hi) = [0]" "col_upper (demo_row lo hi) = [hi]" "col_cost (demo_row lo hi) = [- 1]"
  "sense (demo_row lo hi) = kMinimize" "num_nonzeros (hessian (demo_row lo hi)) = 0"
  "column (matrix (demo_row lo hi)) 0 = [(0, 1)]"
  "nrows (matrix (demo_row lo hi)) = 1" "ncols (matrix (demo_row lo hi)) = 1"
  by (simp_all add: demo_row_def empty_model_def empty_sparse_def num_rows_def num_cols_def
      column_def segment_def num_nonzeros_def)

lemma demo_row_ok: "csc_ok (matrix (demo_row lo hi))"
  by (simp add: csc_ok_def demo_row_def empty_model_def empty_sparse_def stores_def column_def segment_def)

theorem farkas_argument_sound_witness:
  "\<not> exactly_feasible (\<lambda>b. \<bar>b\<bar> < 100) (demo_row 2 1) [5]"
proof (rule farkas_argument_sound[OF demo_row_ok, where tol = "1/10" and y = "[1]"])
  show "is_contradiction (farkas_check (\<lambda>b. \<bar>b\<bar> < 100) (1 / 10) 0 (demo_row 2 1) [1])"
    by (simp add: farkas_check_def demo_row_fields required_step_def reachable_step_def aggregate_column_def
        aggregate_scale_def cmax_def)
qed (simp_all add: demo_row_fields)

theorem ray_argument_sound_witness:
  "exactly_feasible (\<lambda>b. \<bar>b\<bar> < 100) (demo_row 2 100) (along [3] 7 [1] (num_cols (demo_row 2 100))) \<and>
   sense_multiplier (demo_row 2 100) * exactly_linear (demo_row 2 100) (along [3] 7 [1] (num_cols (demo_row 2 100))) =
     sense_multiplier (demo_row 2 100) * exactly_linear (demo_row 2 100) [3] + 7 * improvement (demo_row 2 100) [1] \<and>
   improvement (demo_row 2 100) [1] < 0"
proof (rule ray_argument_sound[OF demo_row_ok])
  show "improves_forever (ray_check (\<lambda>b. \<bar>b\<bar> < 100) 0 (demo_row 2 100) [1])"
    by (simp add: ray_check_def demo_row_fields blocked_column_def blocked_row_def improvement_def
        sense_multiplier_def cmax_def ray_activity_def scatter_column_def modify_at_def)
  show "exactly_feasible (\<lambda>b. \<bar>b\<bar> < 100) (demo_row 2 100) [3]"
    by (simp add: exactly_feasible_def demo_row_fields multiply_def multiply_add_def scatter_column_def modify_at_def)
qed (simp_all add: demo_row_fields)

end
