(* ===== verification/Conflict.thy ===== *)
theory Conflict
  imports Certificate "HOL-Library.Product_Lexorder" "HOL-Library.Sublist"
begin

text \<open>
  \<open>src/mip/conflict.hpp\<close> and \<open>conflict.cpp\<close>: the literals of a learned conflict, their canonical
  form, a conflict against a box, the Farkas proof over a box and the deletion filter. Everything is written for any ordered scalar: at \<open>double\<close> it is the code, over
  an exact linear order it is what the lemmas are about.
\<close>

section \<open>Literals\<close>

text \<open>One bound decision: \<open>x_column \<le> value\<close> or \<open>x_column \<ge> value\<close>, with the order of \<open>operator<\<close>.\<close>

datatype 'a conflict_literal = ConflictLiteral (lit_column: nat) (lit_upper: bool) (lit_value: 'a)

definition literal_less :: "'a::ord conflict_literal \<Rightarrow> 'a conflict_literal \<Rightarrow> bool" where
  "literal_less a b \<longleftrightarrow> (if lit_column a \<noteq> lit_column b then lit_column a < lit_column b
     else if lit_upper a \<noteq> lit_upper b then lit_upper a < lit_upper b
     else lit_value a < lit_value b)"

instantiation conflict_literal :: (ord) ord
begin

definition less_conflict_literal :: "'a conflict_literal \<Rightarrow> 'a conflict_literal \<Rightarrow> bool" where
  "a < b \<longleftrightarrow> literal_less a b"

definition less_eq_conflict_literal :: "'a conflict_literal \<Rightarrow> 'a conflict_literal \<Rightarrow> bool" where
  "a \<le> b \<longleftrightarrow> (if lit_column a \<noteq> lit_column b then lit_column a < lit_column b
     else if lit_upper a \<noteq> lit_upper b then lit_upper a < lit_upper b
     else lit_value a \<le> lit_value b)"

instance ..

end

instance conflict_literal :: (linorder) linorder
  by standard (auto simp: less_conflict_literal_def literal_less_def less_eq_conflict_literal_def
      intro: conflict_literal.expand split: if_splits)

definition literal_eq :: "'a::ord conflict_literal \<Rightarrow> 'a conflict_literal \<Rightarrow> bool" where
  "literal_eq a b \<longleftrightarrow> lit_column a = lit_column b \<and> lit_upper a = lit_upper b \<and>
     feq (lit_value a) (lit_value b)"

datatype conflict_source = kPropagation | kLp

fun conflict_source_string :: "conflict_source \<Rightarrow> string" where
  "conflict_source_string kLp = ''lp''"
| "conflict_source_string kPropagation = ''propagation''"

text \<open>The canonical form: the tightest literal for every column and direction, in key order, which
  is the order a \<open>std::map\<close> iterates in.\<close>

definition lit_key :: "'a conflict_literal \<Rightarrow> nat \<times> bool" where
  "lit_key l = (lit_column l, lit_upper l)"

definition tightened_by :: "'a conflict_literal \<Rightarrow> 'a conflict_literal \<Rightarrow> 'a::ord conflict_literal" where
  "tightened_by found l = ConflictLiteral (lit_column found) (lit_upper found)
     (if lit_upper l then cmin (lit_value found) (lit_value l) else cmax (lit_value found) (lit_value l))"

fun tighten :: "'a::ord conflict_literal \<Rightarrow> 'a conflict_literal list \<Rightarrow> 'a conflict_literal list" where
  "tighten l [] = [l]"
| "tighten l (c # cs) = (if lit_key l = lit_key c then tightened_by c l # cs
     else if lit_key l < lit_key c then l # c # cs else c # tighten l cs)"

definition canonical :: "'a::ord conflict_literal list \<Rightarrow> 'a conflict_literal list" where
  "canonical ls = fold tighten ls []"

definition literal_holds :: "'a::{ord,plus,minus} conflict_literal \<Rightarrow> 'a list \<Rightarrow> 'a list \<Rightarrow> 'a \<Rightarrow> bool" where
  "literal_holds l lower upper tolerance = (if lit_upper l then upper ! lit_column l \<le> lit_value l + tolerance
     else lit_value l - tolerance \<le> lower ! lit_column l)"

definition literal_refuted :: "'a::{ord,plus,minus} conflict_literal \<Rightarrow> 'a list \<Rightarrow> 'a list \<Rightarrow> 'a \<Rightarrow> bool" where
  "literal_refuted l lower upper tolerance = (if lit_upper l then lit_value l + tolerance < lower ! lit_column l
     else upper ! lit_column l < lit_value l - tolerance)"

record conflict_verdict =
  infeasible :: bool
  implied :: int

definition no_verdict :: conflict_verdict where
  "no_verdict = \<lparr>infeasible = False, implied = - 1\<rparr>"

text \<open>The scan from literal \<open>k\<close> on; \<open>opn\<close> is the undecided literal seen so far, or -1.\<close>

fun check_from :: "'a list \<Rightarrow> 'a list \<Rightarrow> 'a \<Rightarrow> nat \<Rightarrow> int \<Rightarrow> 'a::{ord,plus,minus} conflict_literal list \<Rightarrow>
    conflict_verdict" where
  "check_from lower upper tolerance k opn [] =
     (if opn < 0 then no_verdict\<lparr>infeasible := True\<rparr> else no_verdict\<lparr>implied := opn\<rparr>)"
| "check_from lower upper tolerance k opn (l # ls) =
     (if literal_holds l lower upper tolerance then check_from lower upper tolerance (Suc k) opn ls
      else if literal_refuted l lower upper tolerance then no_verdict
      else if 0 \<le> opn then no_verdict
      else check_from lower upper tolerance (Suc k) (int k) ls)"

definition check_conflict ::
    "'a::{ord,plus,minus} conflict_literal list \<Rightarrow> 'a list \<Rightarrow> 'a list \<Rightarrow> 'a \<Rightarrow> conflict_verdict" where
  "check_conflict ls lower upper tolerance = check_from lower upper tolerance 0 (- 1) ls"

definition negation :: "'a::{one,plus,minus} conflict_literal \<Rightarrow> 'a conflict_literal" where
  "negation l = (if lit_upper l then ConflictLiteral (lit_column l) False (lit_value l + 1)
     else ConflictLiteral (lit_column l) True (lit_value l - 1))"

section \<open>The Farkas proof over a box\<close>

record 'a farkas_proof =
  proof_d :: "'a list"
  proof_required :: 'a
  proof_weight :: 'a
  usable :: bool

text \<open>The rows in order; the walk stops at a multiplier that leans on an absent bound.\<close>

fun aggregate_rows ::
    "('a \<Rightarrow> bool) \<Rightarrow> 'a model \<Rightarrow> 'a list \<Rightarrow> 'a \<Rightarrow> nat list \<Rightarrow>
     'a::{zero,one,plus,times,divide,abs,ord} farkas_proof \<Rightarrow> 'a farkas_proof + 'a farkas_proof" where
  "aggregate_rows fin m y largest [] p = Inr p"
| "aggregate_rows fin m y largest (i # is) p =
     (let yi = y ! i div largest in
      if feq yi 0 then aggregate_rows fin m y largest is p
      else
        let bound = (if 0 < yi then row_lower m ! i else row_upper m ! i) in
        if \<not> fin bound then Inl p
        else aggregate_rows fin m y largest is
          (p\<lparr>proof_required := proof_required p + yi * bound,
             proof_weight := proof_weight p + \<bar>yi\<bar> * cmax 1 \<bar>bound\<bar>\<rparr>))"

definition scaled_aggregate_column ::
    "'a model \<Rightarrow> 'a list \<Rightarrow> 'a \<Rightarrow> nat \<Rightarrow> 'a::{zero,plus,times,divide}" where
  "scaled_aggregate_column m y largest j =
     foldl (\<lambda>s (r, v). s + v * y ! r div largest) 0 (column (matrix m) j)"

definition aggregate_farkas ::
    "('a \<Rightarrow> bool) \<Rightarrow> ('a \<Rightarrow> bool) \<Rightarrow> 'a model \<Rightarrow> 'a list \<Rightarrow>
     'a::{zero,one,plus,times,divide,abs,ord} farkas_proof" where
  "aggregate_farkas finite_value fin m y =
     (let none = \<lparr>proof_d = [], proof_required = 0, proof_weight = 0, usable = False\<rparr>;
          largest = foldl (\<lambda>s v. cmax s \<bar>v\<bar>) 0 y in
      if length y \<noteq> num_rows m then none
      else if list_ex (\<lambda>v. \<not> finite_value v) y then none
      else if feq largest 0 then none
      else case aggregate_rows fin m y largest [0..<num_rows m] none of
          Inl p \<Rightarrow> p
        | Inr p \<Rightarrow> p\<lparr>proof_d := map (scaled_aggregate_column m y largest) [0..<num_cols m], usable := True\<rparr>)"

text \<open>\<open>reachable\<close> and \<open>magnitude\<close>, or \<open>None\<close> at a column that leans on an absent bound.\<close>

definition reach_step ::
    "('a \<Rightarrow> bool) \<Rightarrow> 'a list \<Rightarrow> 'a list \<Rightarrow> 'a list \<Rightarrow> nat \<Rightarrow> ('a \<times> 'a) option \<Rightarrow>
     ('a::{zero,plus,times,abs,ord} \<times> 'a) option" where
  "reach_step fin d lower upper j acc =
     (case acc of None \<Rightarrow> None
      | Some (reachable, magnitude) \<Rightarrow>
          let dj = d ! j in
          if feq dj 0 then acc
          else
            let bound = (if 0 < dj then upper ! j else lower ! j) in
            if \<not> fin bound then None
            else Some (reachable + dj * bound, magnitude + \<bar>dj * bound\<bar>))"

definition farkas_contradicts ::
    "('a \<Rightarrow> bool) \<Rightarrow> 'a \<Rightarrow> 'a \<Rightarrow> 'a farkas_proof \<Rightarrow> 'a list \<Rightarrow>
     'a::{zero,one,plus,minus,times,abs,ord} list \<Rightarrow> bool" where
  "farkas_contradicts fin tolerance epsilon p lower upper \<longleftrightarrow>
     usable p \<and>
     (case fold (reach_step fin (proof_d p) lower upper) [0..<length (proof_d p)] (Some (0, 0)) of
        None \<Rightarrow> False
      | Some (reachable, magnitude) \<Rightarrow>
          tolerance * cmax (cmax 1 (proof_weight p)) \<bar>proof_required p\<bar> + epsilon * magnitude
            < proof_required p - reachable)"

section \<open>The deletion filter\<close>

definition kept_of :: "'b list \<Rightarrow> bool list \<Rightarrow> 'b list" where
  "kept_of ls dropped = [ls ! q. q \<leftarrow> [0..<length ls], \<not> dropped ! q]"

definition trial :: "'b list \<Rightarrow> bool list \<Rightarrow> nat \<Rightarrow> 'b list" where
  "trial ls dropped k = [ls ! q. q \<leftarrow> [0..<length ls], q \<noteq> k \<and> \<not> dropped ! q]"

text \<open>One turn of the loop; once the budget is spent every later turn is without effect, which is
  where the code leaves the loop.\<close>

definition minimize_step ::
    "('b list \<Rightarrow> bool) \<Rightarrow> bool \<Rightarrow> int \<Rightarrow> 'b list \<Rightarrow> nat \<Rightarrow> bool list \<times> int \<Rightarrow> bool list \<times> int" where
  "minimize_step verify keep_last budget ls k =
     (\<lambda>(dropped, checks).
        if \<not> checks < budget then (dropped, checks)
        else if keep_last \<and> k = length ls - 1 then (dropped, checks)
        else (if verify (trial ls dropped k) then dropped[k := True] else dropped, checks + 1))"

definition minimize_conflict ::
    "'b list \<Rightarrow> bool \<Rightarrow> int \<Rightarrow> ('b list \<Rightarrow> bool) \<Rightarrow> 'b list \<times> int" where
  "minimize_conflict ls keep_last budget verify =
     (let (dropped, checks) = fold (minimize_step verify keep_last budget ls) [0..<length ls]
            (replicate (length ls) False, 0)
      in (kept_of ls dropped, checks))"

section \<open>Subsequences\<close>

lemma subseq_sorted_wrt: "subseq xs ys \<Longrightarrow> sorted_wrt P ys \<Longrightarrow> sorted_wrt P xs"
proof (induction rule: list_emb.induct)
  case (list_emb_Cons2 x y xs ys)
  then show ?case using list_emb_set[of "(=)" xs ys] by auto
qed auto

lemma subseq_distinct: "subseq xs ys \<Longrightarrow> distinct ys \<Longrightarrow> distinct xs"
proof (induction rule: list_emb.induct)
  case (list_emb_Cons2 x y xs ys)
  then show ?case using list_emb_set[of "(=)" xs ys] by auto
qed auto

section \<open>The canonical form\<close>

text \<open>A point on a literal's side.\<close>

definition lit_true :: "(nat \<Rightarrow> 'a) \<Rightarrow> 'a::ord conflict_literal \<Rightarrow> bool" where
  "lit_true x l = (if lit_upper l then x (lit_column l) \<le> lit_value l else lit_value l \<le> x (lit_column l))"

definition tighter :: "'a::ord conflict_literal \<Rightarrow> 'a conflict_literal \<Rightarrow> bool" where
  "tighter a b = (if lit_upper a then lit_value a \<le> lit_value b else lit_value b \<le> lit_value a)"

definition tightest :: "'a::ord conflict_literal set \<Rightarrow> 'a conflict_literal set" where
  "tightest S = {l \<in> S. \<forall>k \<in> S. lit_key k = lit_key l \<longrightarrow> tighter l k}"

abbreviation key_sorted :: "'a conflict_literal list \<Rightarrow> bool" where
  "key_sorted \<equiv> sorted_wrt (\<lambda>a b. lit_key a < lit_key b)"

lemma lit_key_eq: "lit_key a = lit_key b \<longleftrightarrow> lit_column a = lit_column b \<and> lit_upper a = lit_upper b"
  by (simp add: lit_key_def)

lemma tightened_by_key [simp]: "lit_key (tightened_by c l) = lit_key c"
  by (simp add: tightened_by_def lit_key_def)

lemma tightened_by_eq:
  fixes c l :: "'a::linorder conflict_literal"
  assumes "lit_key l = lit_key c"
  shows "tightened_by c l = (if tighter c l then c else l)"
  using assms by (cases c; cases l) (auto simp: tightened_by_def tighter_def lit_key_def min_def max_def)

lemma tighter_refl [simp]: "tighter l (l :: 'a::linorder conflict_literal)"
  by (simp add: tighter_def)

lemma tighter_total: "lit_key a = lit_key b \<Longrightarrow> \<not> tighter a b \<Longrightarrow> tighter b (a :: 'a::linorder conflict_literal)"
  by (auto simp: tighter_def lit_key_def split: if_splits)

lemma tighter_trans:
  "lit_key a = lit_key b \<Longrightarrow> lit_key b = lit_key c \<Longrightarrow> tighter a b \<Longrightarrow> tighter b c \<Longrightarrow>
    tighter a (c :: 'a::linorder conflict_literal)"
  by (auto simp: tighter_def lit_key_def split: if_splits)

lemma tighten_keys: "lit_key ` set (tighten l cs) = insert (lit_key l) (lit_key ` set cs)"
  by (induction l cs rule: tighten.induct) auto

lemma tighten_sorted: "key_sorted cs \<Longrightarrow> key_sorted (tighten l cs)"
proof (induction l cs rule: tighten.induct)
  case (2 l c cs)
  show ?case
  proof (cases "lit_key l = lit_key c \<or> lit_key l < lit_key c")
    case True
    then show ?thesis using 2(2) by (auto intro: less_trans)
  next
    case False
    have "lit_key c < lit_key d" if "d \<in> set (tighten l cs)" for d
    proof -
      have "lit_key d \<in> insert (lit_key l) (lit_key ` set cs)" using that tighten_keys by blast
      then show ?thesis using 2(2) False by auto
    qed
    then show ?thesis using 2 False by auto
  qed
qed simp

lemma key_filter: "lit_key l \<notin> lit_key ` A \<Longrightarrow> {e \<in> A. lit_key e \<noteq> lit_key l} = A"
  by (auto simp: image_iff)

lemma tighten_set:
  assumes "key_sorted cs"
  shows "set (tighten l cs) = {c \<in> set cs. lit_key c \<noteq> lit_key l} \<union>
    (if lit_key l \<in> lit_key ` set cs then {tightened_by c l |c. c \<in> set cs \<and> lit_key c = lit_key l} else {l})"
  using assms
proof (induction l cs rule: tighten.induct)
  case (2 l c cs)
  have d: "\<forall>d \<in> set cs. lit_key c < lit_key d" using 2(2) by simp
  consider "lit_key l = lit_key c" | "lit_key l < lit_key c" | "lit_key c < lit_key l" by fastforce
  then show ?case
  proof cases
    case 1
    then show ?thesis using d by fastforce
  next
    case 2
    then have n: "lit_key l \<notin> lit_key ` set (c # cs)" using d by (auto simp: image_iff dest: less_asym)
    from key_filter[OF n] n 2 show ?thesis by simp
  next
    case 3
    then show ?thesis using "2.IH" "2"(2) by auto
  qed
qed simp

lemma tighter_antisym: "lit_key a = lit_key b \<Longrightarrow> tighter a b \<Longrightarrow> tighter b a \<Longrightarrow> a = (b :: 'a::linorder conflict_literal)"
  by (cases a; cases b) (auto simp: tighter_def lit_key_def split: if_splits)

lemma tightest_insert_new:
  "lit_key l \<notin> lit_key ` S \<Longrightarrow> tightest (insert l S) = insert (l :: 'a::linorder conflict_literal) (tightest S)"
  by (auto simp: tightest_def image_iff)

lemma tightest_insert_old:
  fixes c :: "'a::linorder conflict_literal"
  assumes c: "c \<in> tightest S" "lit_key c = lit_key l"
  shows "tightest (insert l S) = insert (tightened_by c l) {d \<in> tightest S. lit_key d \<noteq> lit_key l}"
proof -
  have b: "tighter c k" if "k \<in> S" "lit_key k = lit_key l" for k
    using c that by (auto simp: tightest_def)
  have t: "tightened_by c l \<in> tightest (insert l S)"
  proof (cases "tighter c l")
    case True
    then show ?thesis using b c by (auto simp: tightest_def tightened_by_eq)
  next
    case False
    then have "tighter l c" using tighter_total c(2) by metis
    then have "tighter l k" if "k \<in> S" "lit_key k = lit_key l" for k
      using b[OF that] that c(2) tighter_trans by metis
    then show ?thesis using False c by (auto simp: tightest_def tightened_by_eq)
  qed
  have "d = tightened_by c l" if "d \<in> tightest (insert l S)" "lit_key d = lit_key l" for d
    using that t c(2) by (intro tighter_antisym) (auto simp: tightest_def)
  moreover have "d \<in> tightest (insert l S) \<longleftrightarrow> d \<in> tightest S" if "lit_key d \<noteq> lit_key l" for d
    using that by (auto simp: tightest_def)
  ultimately show ?thesis using t by auto
qed

lemma tighten_tightest:
  fixes cs :: "'a::linorder conflict_literal list"
  assumes s: "key_sorted cs" and t: "set cs = tightest S" and k: "lit_key ` set cs = lit_key ` S"
  shows "set (tighten l cs) = tightest (insert l S)"
proof (cases "lit_key l \<in> lit_key ` S")
  case True
  then have "lit_key l \<in> lit_key ` tightest S" using t k by simp
  then obtain c where c: "c \<in> tightest S" "lit_key c = lit_key l" by auto
  have "e = c" if "e \<in> tightest S" "lit_key e = lit_key l" for e
    using that c by (intro tighter_antisym) (auto simp: tightest_def)
  then have u: "{tightened_by e l |e. e \<in> set cs \<and> lit_key e = lit_key l} = {tightened_by c l}"
    using c unfolding t by blast
  have kl: "lit_key l \<in> lit_key ` set cs" using True k by simp
  show ?thesis
    unfolding tighten_set[OF s, of l] if_P[OF kl] u tightest_insert_old[OF c] unfolding t by blast
next
  case False
  then have "{c \<in> set cs. lit_key c \<noteq> lit_key l} = set cs" using k by (intro key_filter) simp
  then show ?thesis
    using False tighten_set[OF s, of l] tightest_insert_new[OF False] k t by simp
qed

lemma canonical_spec:
  fixes ls :: "'a::linorder conflict_literal list"
  shows "key_sorted (canonical ls) \<and> set (canonical ls) = tightest (set ls) \<and>
    lit_key ` set (canonical ls) = lit_key ` set ls"
proof (induction ls rule: rev_induct)
  case Nil
  then show ?case by (simp add: canonical_def tightest_def)
next
  case (snoc l ls)
  have e: "canonical (ls @ [l]) = tighten l (canonical ls)" by (simp add: canonical_def)
  from snoc have s: "key_sorted (canonical ls)" and t: "set (canonical ls) = tightest (set ls)"
    and k: "lit_key ` set (canonical ls) = lit_key ` set ls" by blast+
  show ?case
    using tighten_sorted[OF s] tighten_tightest[OF s t k, of l] tighten_keys[of l "canonical ls"] k
    unfolding e by simp
qed

lemma key_sorted_less: "key_sorted ls \<Longrightarrow> sorted_wrt (<) (ls :: 'a::linorder conflict_literal list)"
  by (erule sorted_wrt_mono_rel[rotated]) (auto simp: lit_key_def less_conflict_literal_def literal_less_def split: if_splits)

lemma tighter_true: "tighter a b \<Longrightarrow> lit_key a = lit_key b \<Longrightarrow> lit_true x a \<Longrightarrow> lit_true x (b :: 'a::linorder conflict_literal)"
  by (auto simp: tighter_def lit_key_def lit_true_def split: if_splits)

text \<open>
  The canonical form is a normal form: it is strictly ascending in the order of the literals with
  one literal per column and direction, a point is on the side of all its literals exactly when it is
  on the side of all the given ones, and two lists with the same literals, in whatever order and
  however often repeated, have the same canonical form.
\<close>

theorem canonical_normal_form:
  fixes ls :: "'a::linorder conflict_literal list"
  assumes same: "set ks = set ls"
  shows "sorted_wrt (<) (canonical ls) \<and> distinct (map lit_key (canonical ls)) \<and>
    list_all (lit_true x) (canonical ls) = list_all (lit_true x) ls \<and>
    canonical ks = canonical ls"
proof (intro conjI)
  show sr: "sorted_wrt (<) (canonical ls)" using canonical_spec[of ls] key_sorted_less by blast
  have "sorted_wrt (<) (map lit_key (canonical ls))" using canonical_spec[of ls] by (simp add: sorted_wrt_map)
  then show "distinct (map lit_key (canonical ls))" by (simp add: strict_sorted_iff)
  have c: "set (canonical ls) = tightest (set ls)" "lit_key ` set (canonical ls) = lit_key ` set ls"
    using canonical_spec[of ls] by blast+
  have "lit_true x l" if t: "\<forall>c \<in> tightest (set ls). lit_true x c" and l: "l \<in> set ls" for l
  proof -
    have "lit_key l \<in> lit_key ` tightest (set ls)" using c l by auto
    then obtain k where k: "k \<in> tightest (set ls)" "lit_key k = lit_key l" by auto
    then have "tighter k l" using l by (auto simp: tightest_def)
    then show ?thesis using t k tighter_true by blast
  qed
  moreover have "tightest (set ls) \<subseteq> set ls" by (auto simp: tightest_def)
  ultimately show "list_all (lit_true x) (canonical ls) = list_all (lit_true x) ls"
    unfolding list_all_iff c(1) by blast
  show "canonical ks = canonical ls"
  proof (rule strict_sorted_equal[OF sr])
    show "sorted_wrt (<) (canonical ks)" using canonical_spec key_sorted_less by blast
    show "set (canonical ks) = set (canonical ls)"
      using canonical_spec[of ks] c same by simp
  qed
qed

theorem canonical_normal_form_witness:
  "canonical [ConflictLiteral 1 True (3::int), ConflictLiteral 0 False 2, ConflictLiteral 1 True 5] =
     canonical [ConflictLiteral 0 False 2, ConflictLiteral 1 True 5, ConflictLiteral 1 True (3::int)]"
  using canonical_normal_form[of "[ConflictLiteral 1 True (3::int), ConflictLiteral 0 False 2, ConflictLiteral 1 True 5]"
      "[ConflictLiteral 0 False 2, ConflictLiteral 1 True 5, ConflictLiteral 1 True (3::int)]"]
  by (simp add: insert_commute)

section \<open>A conflict against a box\<close>

lemma check_from_infeasible:
  "infeasible (check_from lower upper tolerance k opn ls) \<longleftrightarrow>
    opn < 0 \<and> (\<forall>l \<in> set ls. literal_holds l lower upper tolerance)"
  by (induction ls arbitrary: k opn) (auto simp: no_verdict_def)

lemma check_from_implied:
  assumes "implied (check_from lower upper tolerance k opn ls) = j" "0 \<le> j"
  shows "(opn = j \<and> (\<forall>l \<in> set ls. literal_holds l lower upper tolerance)) \<or>
    (opn < 0 \<and> (\<exists>i < length ls. j = int (k + i) \<and> \<not> literal_holds (ls ! i) lower upper tolerance \<and>
      (\<forall>q < length ls. q \<noteq> i \<longrightarrow> literal_holds (ls ! q) lower upper tolerance)))"
  using assms
proof (induction ls arbitrary: k opn)
  case Nil
  then show ?case by (auto simp: no_verdict_def split: if_splits)
next
  case (Cons l ls)
  show ?case
  proof (cases "literal_holds l lower upper tolerance")
    case True
    then have "implied (check_from lower upper tolerance (Suc k) opn ls) = j" using Cons.prems by simp
    from Cons.IH[OF this Cons.prems(2)] show ?thesis
    proof
      assume "opn = j \<and> (\<forall>l \<in> set ls. literal_holds l lower upper tolerance)"
      then show ?thesis using True by simp
    next
      assume "opn < 0 \<and> (\<exists>i < length ls. j = int (Suc k + i) \<and> \<not> literal_holds (ls ! i) lower upper tolerance \<and>
        (\<forall>q < length ls. q \<noteq> i \<longrightarrow> literal_holds (ls ! q) lower upper tolerance))"
      then obtain i where i: "i < length ls" "j = int (Suc k + i)" "\<not> literal_holds (ls ! i) lower upper tolerance"
        "\<forall>q < length ls. q \<noteq> i \<longrightarrow> literal_holds (ls ! q) lower upper tolerance" and o: "opn < 0" by blast
      have "\<forall>q < length (l # ls). q \<noteq> Suc i \<longrightarrow> literal_holds ((l # ls) ! q) lower upper tolerance"
        using i(4) True by (auto simp: nth_Cons split: nat.splits)
      with i o show ?thesis by (intro disjI2 conjI exI[of _ "Suc i"]) auto
    qed
  next
    case False
    have o: "opn < 0" "\<not> literal_refuted l lower upper tolerance"
      using False Cons.prems by (auto simp: no_verdict_def split: if_splits)
    with False Cons.prems Cons.IH[of "Suc k" "int k"]
    have "int k = j \<and> (\<forall>l \<in> set ls. literal_holds l lower upper tolerance)" by simp
    then show ?thesis
      using False o by (intro disjI2 conjI exI[of _ 0]) (auto simp: nth_Cons split: nat.splits)
  qed
qed

definition in_box :: "(nat \<Rightarrow> 'a::ord) \<Rightarrow> 'a list \<Rightarrow> 'a list \<Rightarrow> nat set \<Rightarrow> bool" where
  "in_box x lower upper J \<longleftrightarrow> (\<forall>j \<in> J. lower ! j \<le> x j \<and> x j \<le> upper ! j)"

lemma Ints_less_add_one: "a \<in> \<int> \<Longrightarrow> b \<in> \<int> \<Longrightarrow> a < b + 1 \<Longrightarrow> a \<le> (b :: 'a::linordered_field)"
proof (elim Ints_cases)
  fix i j assume "a = of_int i" "b = of_int j" "a < b + 1"
  then have "(of_int i :: 'a) < of_int (j + 1)" by simp
  then have "i < j + 1" unfolding of_int_less_iff .
  then show ?thesis using \<open>a = of_int i\<close> \<open>b = of_int j\<close> by simp
qed

lemma literal_holds_true:
  fixes x :: "nat \<Rightarrow> 'a::linordered_field"
  assumes "literal_holds l lower upper tol" "tol < 1" "in_box x lower upper {lit_column l}"
    "x (lit_column l) \<in> \<int>" "lit_value l \<in> \<int>"
  shows "lit_true x l"
  using assms Ints_less_add_one[of "x (lit_column l)" "lit_value l"]
    Ints_less_add_one[of "lit_value l" "x (lit_column l)"]
  by (simp add: literal_holds_def in_box_def lit_true_def split: if_splits)

lemma negation_true:
  fixes x :: "nat \<Rightarrow> 'a::linordered_field"
  assumes "x (lit_column l) \<in> \<int>" "lit_value l \<in> \<int>"
  shows "lit_true x (negation l) \<longleftrightarrow> \<not> lit_true x l"
  using assms Ints_less_add_one[of "lit_value l + 1" "x (lit_column l)"]
    Ints_less_add_one[of "x (lit_column l)" "lit_value l - 1"]
  by (auto simp: lit_true_def negation_def not_le)

text \<open>
  A conflict never cuts off a point it does not forbid: take a point of the box, integral on the
  columns of the conflict, that makes one of the conflict's literals false. Then the conflict does not
  declare the box infeasible, and if it implies a literal, the point satisfies the negation of that
  literal, the integer bound the search tightens to. (Exact arithmetic, integral literals, a tolerance
  below one.)
\<close>

theorem conflict_never_cuts_off:
  fixes x :: "nat \<Rightarrow> 'a::linordered_field"
  assumes box: "in_box x lower upper (lit_column ` set ls)" and tol: "tol < 1"
    and int: "\<forall>l \<in> set ls. x (lit_column l) \<in> \<int> \<and> lit_value l \<in> \<int>"
    and false: "\<exists>l \<in> set ls. \<not> lit_true x l"
  shows "\<not> infeasible (check_conflict ls lower upper tol) \<and>
    (0 \<le> implied (check_conflict ls lower upper tol) \<longrightarrow>
       nat (implied (check_conflict ls lower upper tol)) < length ls \<and>
       lit_true x (negation (ls ! nat (implied (check_conflict ls lower upper tol)))))"
proof -
  have h: "lit_true x l" if "l \<in> set ls" "literal_holds l lower upper tol" for l
    by (rule literal_holds_true[OF that(2) tol]) (use that box int in \<open>auto simp: in_box_def\<close>)
  have "i < length ls \<and> lit_true x (negation (ls ! i))"
    if i: "implied (check_conflict ls lower upper tol) = int i" for i
  proof -
    from check_from_implied[OF i[unfolded check_conflict_def]]
    have "i < length ls" and others: "\<forall>q < length ls. q \<noteq> i \<longrightarrow> literal_holds (ls ! q) lower upper tol" by auto
    from false obtain q where "q < length ls" "\<not> lit_true x (ls ! q)" by (auto simp: in_set_conv_nth)
    then have "q = i" using others h[of "ls ! q"] by force
    then show ?thesis using \<open>\<not> lit_true x (ls ! q)\<close> \<open>i < length ls\<close> int negation_true[of x "ls ! i"] by simp
  qed
  moreover have "\<not> infeasible (check_conflict ls lower upper tol)"
    using false h unfolding check_conflict_def check_from_infeasible by blast
  ultimately show ?thesis by (metis int_nat_eq)
qed

theorem conflict_never_cuts_off_witness:
  "lit_true (\<lambda>j. if j = 0 then 1 else (3::rat)) (negation (ConflictLiteral 1 True 2))"
proof -
  let ?ls = "[ConflictLiteral 0 False 1, ConflictLiteral 1 True (2::rat)]"
  let ?x = "\<lambda>j::nat. if j = 0 then 1 else (3::rat)"
  have v: "check_conflict ?ls [1, 0] [1, 5] (1 / 10) = no_verdict\<lparr>implied := 1\<rparr>"
    by (simp add: check_conflict_def literal_holds_def literal_refuted_def)
  have "0 \<le> implied (check_conflict ?ls [1, 0] [1, 5] (1 / 10)) \<longrightarrow>
      nat (implied (check_conflict ?ls [1, 0] [1, 5] (1 / 10))) < length ?ls \<and>
      lit_true ?x (negation (?ls ! nat (implied (check_conflict ?ls [1, 0] [1, 5] (1 / 10)))))"
    using conflict_never_cuts_off[of ?x "[1, 0]" "[1, 5]" ?ls "1 / 10"]
    by (simp add: in_box_def lit_true_def)
  then show ?thesis unfolding v by (simp add: no_verdict_def)
qed

section \<open>The Farkas proof over a box is sound\<close>

text \<open>The bound a multiplier leans on, and a row met up to the feasibility tolerance.\<close>

definition leaned_bound :: "'a::linordered_field model \<Rightarrow> 'a \<Rightarrow> nat \<Rightarrow> 'a" where
  "leaned_bound m yi i = (if 0 < yi then row_lower m ! i else row_upper m ! i)"

definition row_nearly_met :: "('a \<Rightarrow> bool) \<Rightarrow> 'a \<Rightarrow> 'a::linordered_field model \<Rightarrow> 'a list \<Rightarrow> nat \<Rightarrow> bool" where
  "row_nearly_met fin tol m x i \<longleftrightarrow>
     (fin (row_lower m ! i) \<longrightarrow> row_lower m ! i - tol * max 1 \<bar>row_lower m ! i\<bar> \<le> multiply (matrix m) x 1 ! i) \<and>
     (fin (row_upper m ! i) \<longrightarrow> multiply (matrix m) x 1 ! i \<le> row_upper m ! i + tol * max 1 \<bar>row_upper m ! i\<bar>)"

lemma aggregate_rows_Inr:
  fixes m :: "'a::linordered_field model"
  assumes "aggregate_rows fin m y L is p = Inr q"
  shows "proof_required q = proof_required p + (\<Sum>i\<leftarrow>is. y ! i / L * leaned_bound m (y ! i / L) i) \<and>
    proof_weight q = proof_weight p + (\<Sum>i\<leftarrow>is. \<bar>y ! i / L\<bar> * max 1 \<bar>leaned_bound m (y ! i / L) i\<bar>) \<and>
    (\<forall>i \<in> set is. y ! i / L \<noteq> 0 \<longrightarrow> fin (leaned_bound m (y ! i / L) i))"
  using assms
proof (induction "is" arbitrary: p)
  case (Cons i "is")
  show ?case
  proof (cases "y ! i / L = 0")
    case True
    have "aggregate_rows fin m y L is p = Inr q" using Cons.prems unfolding aggregate_rows.simps Let_def True by simp
    from Cons.IH[OF this] show ?thesis
      using True by (simp del: divide_eq_0_iff times_divide_eq_left times_divide_eq_right abs_divide)
  next
    case False
    let ?b = "leaned_bound m (y ! i / L) i"
    let ?p = "p\<lparr>proof_required := proof_required p + y ! i / L * ?b,
        proof_weight := proof_weight p + \<bar>y ! i / L\<bar> * max 1 \<bar>?b\<bar>\<rparr>"
    have "fin ?b" "aggregate_rows fin m y L is ?p = Inr q"
      using Cons.prems False by (simp_all add: Let_def leaned_bound_def split: if_splits)
    then show ?thesis using Cons.IH[of ?p] by (simp add: algebra_simps)
  qed
qed simp

lemma aggregate_farkas_usable:
  fixes m :: "'a::linordered_field model"
  assumes "usable (aggregate_farkas fv fin m y)"
  obtains L where "length y = num_rows m"
    "proof_required (aggregate_farkas fv fin m y) = (\<Sum>i<num_rows m. y ! i / L * leaned_bound m (y ! i / L) i)"
    "proof_weight (aggregate_farkas fv fin m y) =
       (\<Sum>i<num_rows m. \<bar>y ! i / L\<bar> * max 1 \<bar>leaned_bound m (y ! i / L) i\<bar>)"
    "\<And>i. i < num_rows m \<Longrightarrow> y ! i / L \<noteq> 0 \<Longrightarrow> fin (leaned_bound m (y ! i / L) i)"
    "proof_d (aggregate_farkas fv fin m y) = map (scaled_aggregate_column m y L) [0..<num_cols m]"
proof -
  let ?L = "foldl (\<lambda>s v. cmax s \<bar>v\<bar>) 0 y"
  let ?none = "\<lparr>proof_d = [], proof_required = 0, proof_weight = 0, usable = False\<rparr> :: 'a farkas_proof"
  have l: "length y = num_rows m" using assms by (simp add: aggregate_farkas_def Let_def split: if_splits)
  have keep: "aggregate_rows fin m y L is p = Inl q \<Longrightarrow> usable q = usable p" for L "is" p q
    by (induction "is" arbitrary: p) (auto simp: Let_def split: if_splits)
  obtain q where q: "aggregate_rows fin m y ?L [0..<num_rows m] ?none = Inr q"
    "aggregate_farkas fv fin m y =
       q\<lparr>proof_d := map (scaled_aggregate_column m y ?L) [0..<num_cols m], usable := True\<rparr>"
  proof (cases "aggregate_rows fin m y ?L [0..<num_rows m] ?none")
    case (Inl p)
    then show ?thesis using assms keep[OF Inl] by (simp add: aggregate_farkas_def Let_def split: if_splits)
  next
    case (Inr p)
    then show ?thesis using assms that by (simp add: aggregate_farkas_def Let_def split: if_splits)
  qed
  have s: "(\<Sum>i\<leftarrow>[0..<n]. f i) = (\<Sum>i<n. f i)" for f :: "nat \<Rightarrow> 'a" and n
    by (simp add: interv_sum_list_conv_sum_set_nat lessThan_atLeast0)
  show ?thesis
    using aggregate_rows_Inr[OF q(1)] l unfolding s by (intro that[of ?L]) (simp_all add: q(2))
qed

lemma reach_step_None [simp]: "reach_step fin d lower upper j None = None"
  by (simp add: reach_step_def)

lemma reach_fold:
  fixes d :: "'a::linordered_field list"
  assumes "fold (reach_step fin d lower upper) [0..<n] (Some (0, 0)) = Some (r, g)"
  shows "r = (\<Sum>j<n. if 0 < d ! j then d ! j * upper ! j else if d ! j < 0 then d ! j * lower ! j else 0) \<and>
    0 \<le> g \<and> (\<forall>j < n. (0 < d ! j \<longrightarrow> fin (upper ! j)) \<and> (d ! j < 0 \<longrightarrow> fin (lower ! j)))"
  using assms
proof (induction n arbitrary: r g)
  case (Suc n)
  then obtain r1 g1 where p: "fold (reach_step fin d lower upper) [0..<n] (Some (0, 0)) = Some (r1, g1)"
    by (cases "fold (reach_step fin d lower upper) [0..<n] (Some (0, 0))") auto
  then have "reach_step fin d lower upper n (Some (r1, g1)) = Some (r, g)" using Suc.prems by simp
  then show ?case
    using Suc.IH[OF p] by (auto simp: reach_step_def Let_def less_Suc_eq split: if_splits)
qed simp

lemma scaled_aggregate_transpose:
  fixes m :: "'a::linordered_field model"
  assumes ok: "csc_ok (matrix m)" and j: "j < ncols (matrix m)" and n: "nrows (matrix m) = length y"
  shows "scaled_aggregate_column m y L j = transpose_multiply (matrix m) (map (\<lambda>v. v / L) y) 1 ! j"
proof -
  have "\<forall>e \<in> set (column (matrix m) j). fst e < length y" using ok j n by (auto simp: csc_ok_def)
  then have "foldl (\<lambda>s (r, v). s + v * y ! r div L) a (column (matrix m) j) =
      foldl (\<lambda>s (r, v). s + v * map (\<lambda>v. v / L) y ! r) a (column (matrix m) j)" for a
    by (induction "column (matrix m) j" arbitrary: a rule: list.induct) (auto intro!: foldl_cong)
  then show ?thesis
    unfolding scaled_aggregate_column_def aggregate_transpose[OF ok j, symmetric] aggregate_column_def .
qed

lemma slack_term:
  fixes c :: "'a::linordered_field"
  assumes "0 < c \<Longrightarrow> b - s \<le> a" "c < 0 \<Longrightarrow> a \<le> b + s"
  shows "c * b - \<bar>c\<bar> * s \<le> c * a"
proof (cases c "0 :: 'a" rule: linorder_cases)
  case less
  from mult_left_mono_neg[OF assms(2)[OF less], of c] less show ?thesis by (simp add: algebra_simps)
next
  case greater
  from mult_left_mono[OF assms(1)[OF greater], of c] greater show ?thesis by (simp add: algebra_simps)
qed simp

text \<open>
  The Farkas proof of the conflict analysis is sound, and conservative as its comment says: in
  exact arithmetic, when it contradicts a box, every point that meets the rows up to the feasibility
  tolerance, relative to the size of the bound, lies outside the box. No coefficient is neglected, and
  absent bounds are those the test \<open>fin\<close> refuses.
\<close>

theorem farkas_contradiction_sound:
  fixes m :: "'a::linordered_field model"
  assumes ok: "csc_ok (matrix m)" and dims: "nrows (matrix m) = num_rows m" "ncols (matrix m) = num_cols m"
    and tol: "0 \<le> tol" "0 \<le> eps"
    and c: "farkas_contradicts fin tol eps (aggregate_farkas fv fin m y) lower upper"
    and rows: "\<forall>i < num_rows m. row_nearly_met fin tol m x i"
  shows "\<exists>j < num_cols m. (fin (lower ! j) \<and> x ! j < lower ! j) \<or> (fin (upper ! j) \<and> upper ! j < x ! j)"
proof (rule ccontr)
  assume "\<not> ?thesis"
  then have box: "(fin (lower ! j) \<longrightarrow> lower ! j \<le> x ! j) \<and> (fin (upper ! j) \<longrightarrow> x ! j \<le> upper ! j)"
    if "j < num_cols m" for j using that by (meson not_le)
  let ?p = "aggregate_farkas fv fin m y"
  have "usable ?p" using c by (simp add: farkas_contradicts_def)
  then obtain L where len: "length y = num_rows m"
    and req: "proof_required ?p = (\<Sum>i<num_rows m. y ! i / L * leaned_bound m (y ! i / L) i)"
    and wt: "proof_weight ?p = (\<Sum>i<num_rows m. \<bar>y ! i / L\<bar> * max 1 \<bar>leaned_bound m (y ! i / L) i\<bar>)"
    and fb: "\<And>i. i < num_rows m \<Longrightarrow> y ! i / L \<noteq> 0 \<Longrightarrow> fin (leaned_bound m (y ! i / L) i)"
    and d: "proof_d ?p = map (scaled_aggregate_column m y L) [0..<num_cols m]"
    by (rule aggregate_farkas_usable) blast
  obtain r g where rg: "fold (reach_step fin (proof_d ?p) lower upper) [0..<num_cols m] (Some (0, 0)) = Some (r, g)"
    and gap: "tol * max (max 1 (proof_weight ?p)) \<bar>proof_required ?p\<bar> + eps * g < proof_required ?p - r"
    using c by (auto simp: farkas_contradicts_def d split: option.splits)
  let ?y = "map (\<lambda>v. v / L) y" and ?b = "\<lambda>i. leaned_bound m (y ! i / L) i"
  let ?reach = "\<lambda>j. if 0 < proof_d ?p ! j then proof_d ?p ! j * upper ! j
      else if proof_d ?p ! j < 0 then proof_d ?p ! j * lower ! j else 0"
  have dj: "transpose_multiply (matrix m) ?y 1 ! j = proof_d ?p ! j" if "j < num_cols m" for j
    using scaled_aggregate_transpose[OF ok, of j y L] that dims len by (simp add: d)
  have "(\<Sum>i<nrows (matrix m). y ! i / L * ?b i) - (\<Sum>i<nrows (matrix m). \<bar>?y ! i\<bar> * (tol * max 1 \<bar>?b i\<bar>)) \<le>
      (\<Sum>j<ncols (matrix m). ?reach j)"
  proof (rule csc.aggregate_bound[OF ok, where x = x])
    fix i assume "i < nrows (matrix m)"
    then have i: "i < num_rows m" using dims by simp
    let ?c = "y ! i / L" and ?a = "multiply (matrix m) x 1 ! i"
    have "?c * ?b i - \<bar>?c\<bar> * (tol * max 1 \<bar>?b i\<bar>) \<le> ?c * ?a"
    proof (rule slack_term)
      assume pos: "0 < ?c"
      have "fin (row_lower m ! i)" "?b i = row_lower m ! i"
        using fb[OF i less_imp_neq[OF pos, symmetric]] pos by (simp_all add: leaned_bound_def)
      then show "?b i - tol * max 1 \<bar>?b i\<bar> \<le> ?a" using rows i by (simp add: row_nearly_met_def)
    next
      assume neg: "?c < 0"
      have "fin (row_upper m ! i)" "?b i = row_upper m ! i"
        using fb[OF i less_imp_neq[OF neg]] neg by (simp_all add: leaned_bound_def)
      then show "?a \<le> ?b i + tol * max 1 \<bar>?b i\<bar>" using rows i by (simp add: row_nearly_met_def)
    qed
    then show "y ! i / L * ?b i - \<bar>?y ! i\<bar> * (tol * max 1 \<bar>?b i\<bar>) \<le> ?y ! i * multiply (matrix m) x 1 ! i"
      using i len by simp
  next
    fix j assume "j < ncols (matrix m)"
    then have j: "j < num_cols m" using dims by simp
    show "transpose_multiply (matrix m) ?y 1 ! j * x ! j \<le> ?reach j"
      unfolding dj[OF j] by (rule mult_bound(2)) (use box[OF j] reach_fold[OF rg] j in auto)
  qed
  then have "proof_required ?p - tol * proof_weight ?p \<le> r"
    using reach_fold[OF rg] dims len by (simp add: req wt sum_distrib_left algebra_simps)
  moreover have "tol * proof_weight ?p \<le> tol * max (max 1 (proof_weight ?p)) \<bar>proof_required ?p\<bar>"
    using tol by (intro mult_left_mono) (auto simp: le_max_iff_disj)
  moreover have "0 \<le> eps * g" using reach_fold[OF rg] tol by simp
  ultimately show False using gap by linarith
qed

theorem farkas_contradiction_sound_witness:
  "\<exists>j < num_cols (demo_row 2 7). (\<bar>[0 :: rat] ! j\<bar> < 100 \<and> [5] ! j < [0 :: rat] ! j) \<or>
     (\<bar>[1 :: rat] ! j\<bar> < 100 \<and> [1] ! j < [5 :: rat] ! j)"
proof (rule farkas_contradiction_sound[OF demo_row_ok, where tol = "1/10" and eps = "1/10" and y = "[3]"
      and fin = "\<lambda>b. \<bar>b\<bar> < 100" and fv = "\<lambda>_. True"])
  show "farkas_contradicts (\<lambda>b. \<bar>b\<bar> < 100) (1 / 10) (1 / 10)
      (aggregate_farkas (\<lambda>_. True) (\<lambda>b. \<bar>b\<bar> < 100) (demo_row 2 7) [3]) [0] [1]"
    by (simp add: farkas_contradicts_def aggregate_farkas_def demo_row_fields reach_step_def
        scaled_aggregate_column_def)
  show "\<forall>i<num_rows (demo_row 2 7). row_nearly_met (\<lambda>b. \<bar>b\<bar> < 100) (1 / 10) (demo_row 2 7) [5] i"
    by (simp add: row_nearly_met_def demo_row_fields multiply_def multiply_add_def scatter_column_def modify_at_def)
qed (simp_all add: demo_row_fields)

section \<open>The deletion filter keeps a proved, irreducible conflict\<close>

lemma kept_of_filter: "kept_of ls d = map ((!) ls) (filter (\<lambda>q. \<not> d ! q) [0..<length ls])"
proof -
  have "concat (map (\<lambda>q. if P q then [f q] else []) qs) = map f (filter P qs)" for P and f :: "nat \<Rightarrow> 'b" and qs
    by (induction qs) auto
  then show ?thesis unfolding kept_of_def .
qed

lemma trial_kept: "k < length d \<Longrightarrow> trial ls d k = kept_of ls (d[k := True])"
  unfolding trial_def kept_of_def by (rule arg_cong[where f = concat]) (auto simp: nth_list_update)

lemma kept_of_none: "kept_of ls (replicate (length ls) False) = ls"
proof -
  have "filter (\<lambda>q. \<not> replicate (length ls) False ! q) [0..<length ls] = [0..<length ls]"
    by (auto simp: filter_id_conv)
  then show ?thesis by (simp add: kept_of_filter map_nth)
qed

lemma subseq_kept_of: "subseq (kept_of ls d) ls"
proof -
  have "subseq (kept_of ls d) (map ((!) ls) [0..<length ls])"
    unfolding kept_of_filter by (intro subseq_map subseq_filter_left)
  then show ?thesis by (simp add: map_nth)
qed

lemma kept_of_mono:
  assumes "\<And>q. q < length ls \<Longrightarrow> d ! q \<Longrightarrow> e ! q"
  shows "subseq (kept_of ls e) (kept_of ls d)"
proof -
  have "filter (\<lambda>q. \<not> e ! q) [0..<length ls] = filter (\<lambda>q. \<not> e ! q) (filter (\<lambda>q. \<not> d ! q) [0..<length ls])"
    using assms by (auto simp: filter_filter intro!: filter_cong)
  then show ?thesis unfolding kept_of_filter by (metis subseq_filter_left subseq_map)
qed

lemma kept_of_last:
  assumes "ls \<noteq> []" "\<not> d ! (length ls - 1)"
  shows "kept_of ls d \<noteq> [] \<and> last (kept_of ls d) = last ls"
proof -
  obtain n where n: "length ls = Suc n" using assms(1) by (cases ls) auto
  then have "kept_of ls d = map ((!) ls) (filter (\<lambda>q. \<not> d ! q) [0..<n]) @ [ls ! n]"
    using assms(2) by (simp add: kept_of_filter)
  then show ?thesis using n assms(1) by (simp add: last_conv_nth)
qed

lemma minimize_loop:
  assumes "fold (minimize_step verify keep_last budget ls) [0..<n] (replicate (length ls) False, 0) = (d, c)"
    and "n \<le> length ls"
  shows "length d = length ls \<and> 0 \<le> c \<and> c \<le> int n \<and> c \<le> max 0 budget \<and>
    (verify ls \<longrightarrow> verify (kept_of ls d)) \<and>
    (\<forall>q < length ls. d ! q \<longrightarrow> q < n \<and> \<not> (keep_last \<and> q = length ls - 1))"
  using assms
proof (induction n arbitrary: d c)
  case 0
  then show ?case by (auto simp: kept_of_none)
next
  case (Suc n)
  obtain d0 c0 where p: "fold (minimize_step verify keep_last budget ls) [0..<n] (replicate (length ls) False, 0) = (d0, c0)"
    by fastforce
  have st: "minimize_step verify keep_last budget ls n (d0, c0) = (d, c)" using Suc.prems p by simp
  have n: "n < length ls" using Suc.prems by simp
  note IH = Suc.IH[OF p less_imp_le[OF n]]
  have t: "trial ls d0 n = kept_of ls (d0[n := True])" using IH n by (simp add: trial_kept)
  have new: "\<forall>q < length ls. d0[n := True] ! q \<longrightarrow> q < Suc n \<and> \<not> (keep_last \<and> q = length ls - 1)"
    if "\<not> (keep_last \<and> n = length ls - 1)" using IH that n by (auto simp: nth_list_update)
  show ?case
    using st IH new by (auto simp: minimize_step_def t split: if_splits)
qed

lemma minimize_loop_minimal:
  assumes "fold (minimize_step verify keep_last budget ls) [0..<n] (replicate (length ls) False, 0) = (d, c)"
    and "n \<le> length ls" and mono: "\<And>a b. subseq a b \<Longrightarrow> verify a \<Longrightarrow> verify b"
    and budget: "int (length ls) \<le> budget"
  shows "\<forall>k < n. \<not> d ! k \<longrightarrow> \<not> (keep_last \<and> k = length ls - 1) \<longrightarrow> \<not> verify (kept_of ls (d[k := True]))"
  using assms(1,2)
proof (induction n arbitrary: d c)
  case (Suc n)
  obtain d0 c0 where p: "fold (minimize_step verify keep_last budget ls) [0..<n] (replicate (length ls) False, 0) = (d0, c0)"
    by fastforce
  have st: "minimize_step verify keep_last budget ls n (d0, c0) = (d, c)" using Suc.prems p by simp
  have n: "n < length ls" using Suc.prems by simp
  note inv = minimize_loop[OF p less_imp_le[OF n]]
  have b: "c0 < budget" using inv n budget by linarith
  have t: "trial ls d0 n = kept_of ls (d0[n := True])" using inv n by (simp add: trial_kept)
  show ?case
  proof (intro allI impI notI)
    fix k assume k: "k < Suc n" "\<not> d ! k" "\<not> (keep_last \<and> k = length ls - 1)" and v: "verify (kept_of ls (d[k := True]))"
    have sub: "d0 ! q \<Longrightarrow> d ! q" if "q < length ls" for q
      using st b that inv by (auto simp: minimize_step_def nth_list_update split: if_splits)
    have "subseq (kept_of ls (d[k := True])) (kept_of ls (d0[k := True]))"
      by (rule kept_of_mono) (use sub inv k n st b in \<open>auto simp: nth_list_update minimize_step_def split: if_splits\<close>)
    then have v0: "verify (kept_of ls (d0[k := True]))" using mono v by blast
    show False
    proof (cases "k = n")
      case True
      then have "d = d0[n := True]" using st b v0 k t by (auto simp: minimize_step_def)
      then show False using k True inv n by simp
    next
      case False
      then have "k < n" "\<not> d0 ! k" using k sub n by auto
      then show False using Suc.IH[OF p less_imp_le[OF n]] k v0 by blast
    qed
  qed
qed simp

text \<open>
  Whatever the check answers on smaller sets and however small the budget, what the deletion filter
  returns is a subsequence of the conflict that still passes the check if the conflict did; it spends
  no more checks than the budget and than there are literals, and keeps the last literal when told to.
\<close>

theorem minimized_conflict_still_proved:
  assumes "minimize_conflict ls keep_last budget verify = (kept, used)"
  shows "subseq kept ls \<and> (verify ls \<longrightarrow> verify kept) \<and> 0 \<le> used \<and> used \<le> max 0 budget \<and>
    used \<le> int (length ls) \<and> (keep_last \<and> ls \<noteq> [] \<longrightarrow> kept \<noteq> [] \<and> last kept = last ls)"
proof -
  obtain d where d: "fold (minimize_step verify keep_last budget ls) [0..<length ls] (replicate (length ls) False, 0) = (d, used)"
    and k: "kept = kept_of ls d" using assms by (auto simp: minimize_conflict_def split: prod.splits)
  note l = minimize_loop[OF d order_refl]
  have "kept \<noteq> [] \<and> last kept = last ls" if "keep_last" "ls \<noteq> []"
  proof -
    have "length ls - 1 < length ls" using that(2) by (cases ls) auto
    then show ?thesis using l that unfolding k by (intro kept_of_last) blast+
  qed
  then show ?thesis using l subseq_kept_of unfolding k by blast
qed

theorem minimized_conflict_still_proved_witness:
  "subseq (fst (minimize_conflict [1, 2, 3::nat] True 5 (\<lambda>l. 3 \<in> set l))) [1, 2, 3]"
proof -
  have "minimize_conflict [1, 2, 3::nat] True 5 (\<lambda>l. 3 \<in> set l) = ([3], 2)"
    by (simp add: minimize_conflict_def minimize_step_def trial_def kept_of_def upt_rec)
  from minimized_conflict_still_proved[OF this] show ?thesis
    by (simp add: minimize_conflict_def minimize_step_def trial_def kept_of_def upt_rec)
qed

text \<open>
  With a check that stays positive on larger sets, and a budget of one check for every literal, the
  result is irreducible: dropping any further literal, except the one that was told to stay, fails
  the check.
\<close>

theorem minimized_conflict_irreducible:
  assumes "minimize_conflict ls keep_last budget verify = (kept, used)" and "distinct ls"
    and "\<And>a b. subseq a b \<Longrightarrow> verify a \<Longrightarrow> verify b" and "int (length ls) \<le> budget"
    and l: "l \<in> set kept" "\<not> (keep_last \<and> l = last ls)"
  shows "\<not> verify (filter (\<lambda>k. k \<noteq> l) kept)"
proof -
  obtain d where d: "fold (minimize_step verify keep_last budget ls) [0..<length ls] (replicate (length ls) False, 0) = (d, used)"
    and k: "kept = kept_of ls d" using assms(1) by (auto simp: minimize_conflict_def split: prod.splits)
  from l(1) obtain q where q: "q < length ls" "\<not> d ! q" "l = ls ! q" by (auto simp: k kept_of_filter)
  have "length d = length ls" using minimize_loop[OF d order_refl] by blast
  then have c: "ls ! i \<noteq> l \<and> \<not> d ! i \<longleftrightarrow> \<not> d[q := True] ! i" if "i < length ls" for i
    using \<open>distinct ls\<close> q that by (auto simp: nth_list_update nth_eq_iff_index_eq)
  have f: "filter (\<lambda>k. k \<noteq> l) kept = kept_of ls (d[q := True])"
    unfolding k kept_of_filter filter_map filter_filter o_def
    by (intro arg_cong[where f = "map ((!) ls)"] filter_cong) (use c in auto)
  have "\<not> (keep_last \<and> q = length ls - 1)" using l(2) q last_conv_nth[of ls] by (cases "ls = []") auto
  moreover have "\<forall>k < length ls. \<not> d ! k \<longrightarrow> \<not> (keep_last \<and> k = length ls - 1) \<longrightarrow> \<not> verify (kept_of ls (d[k := True]))"
    by (rule minimize_loop_minimal[OF d order_refl _ assms(4)]) (rule assms(3))
  ultimately show ?thesis using q(1,2) unfolding f by blast
qed

theorem minimized_conflict_irreducible_witness:
  "\<not> 3 \<in> set (filter (\<lambda>k. k \<noteq> 3) [3 :: nat])"
proof -
  have "minimize_conflict [1, 2, 3::nat] False 5 (\<lambda>l. 3 \<in> set l) = ([3], 3)"
    by (simp add: minimize_conflict_def minimize_step_def trial_def kept_of_def upt_rec)
  then show ?thesis
    by (rule minimized_conflict_irreducible[where l = 3]) (auto dest: list_emb_set)
qed

end
