(* ===== verification/ConflictStore.thy ===== *)
theory ConflictStore
  imports Conflict
begin

text \<open>
  The store of learned conflicts of \<open>src/mip/conflict.cpp\<close>: insertion without duplicates, eviction of
  the least useful tenth, and the export as JSON. The invariant of the store, what an insertion does to
  the set of conflicts it holds, and that a store of valid conflicts stays one.
\<close>

section \<open>The store\<close>

record 'a conflict_entry =
  entry_literals :: "'a conflict_literal list"
  entry_source :: conflict_source
  entry_id :: int
  created :: int
  last_used :: int
  uses :: int

record 'a conflict_store =
  store_capacity :: nat
  store_entries :: "'a conflict_entry list"
  known :: "'a conflict_literal list list"
  next_id :: int
  evicted :: int
  duplicates :: int

definition empty_store :: "nat \<Rightarrow> 'a conflict_store" where
  "empty_store c = \<lparr>store_capacity = c, store_entries = [], known = [], next_id = 0, evicted = 0, duplicates = 0\<rparr>"

text \<open>The set \<open>known_\<close> compares vectors lexicographically by \<open>operator<\<close>; two keys are the same when
  neither is less. Its elements are kept as a list without two of the same.\<close>

fun lex_less :: "'b::ord list \<Rightarrow> 'b list \<Rightarrow> bool" where
  "lex_less xs [] = False"
| "lex_less [] (y # ys) = True"
| "lex_less (x # xs) (y # ys) = (if x < y then True else if y < x then False else lex_less xs ys)"

definition same_key :: "'b::ord list \<Rightarrow> 'b list \<Rightarrow> bool" where
  "same_key a b \<longleftrightarrow> \<not> lex_less a b \<and> \<not> lex_less b a"

text \<open>Eviction: the least useful tenth, at least one, in the total order of uses, last use and age.\<close>

definition usefulness :: "'a conflict_entry \<Rightarrow> int \<times> int \<times> int" where
  "usefulness e = (uses e, last_used e, entry_id e)"

definition evict :: "'a::ord conflict_store \<Rightarrow> 'a conflict_store" where
  "evict s =
     (let es = store_entries s;
          count = max 1 (length es div 10);
          order = sort_key (\<lambda>k. usefulness (es ! k)) [0..<length es];
          drop_at = fold (\<lambda>k d. d[k := True]) (take count order) (replicate (length es) False);
          erased = [entry_literals (es ! k). k \<leftarrow> [0..<length es], drop_at ! k]
      in s\<lparr>store_entries := kept_of es drop_at,
           known := filter (\<lambda>l. \<not> list_ex (same_key l) erased) (known s),
           evicted := evicted s + int count\<rparr>)"

definition store_add ::
    "'a::ord conflict_literal list \<Rightarrow> conflict_source \<Rightarrow> int \<Rightarrow> 'a conflict_store \<Rightarrow> bool \<times> 'a conflict_store" where
  "store_add ls source node s =
     (if store_capacity s = 0 then (False, s)
      else if list_ex (same_key ls) (known s) then (False, s\<lparr>duplicates := duplicates s + 1\<rparr>)
      else
        let s1 = (if store_capacity s \<le> length (store_entries s) then evict s else s);
            entry = \<lparr>entry_literals = ls, entry_source = source, entry_id = next_id s1,
                     created = node, last_used = node, uses = 0\<rparr>
        in (True, s1\<lparr>known := ls # known s1, next_id := next_id s1 + 1,
                     store_entries := store_entries s1 @ [entry]\<rparr>))"

section \<open>The export\<close>

record conflict_stats =
  cs_detected :: int
  cs_learned :: int
  cs_rejected :: int
  cs_too_long :: int
  cs_minimized :: int
  cs_checks :: int
  cs_nodes_pruned :: int
  cs_tightenings :: int
  cs_seconds :: double
  cs_sizes :: "int list"

text \<open>The number formats of the fmt library are parameters: \<open>{}\<close> of an integer, \<open>{:.6f}\<close> and
  \<open>{:.17g}\<close> of a double.\<close>

definition stats_json ::
    "(int \<Rightarrow> string) \<Rightarrow> (double \<Rightarrow> string) \<Rightarrow> 'a conflict_store \<Rightarrow> conflict_stats \<Rightarrow> int \<Rightarrow> string" where
  "stats_json fi ff s st cols =
     concat (map (\<lambda>(name, v). ''  \"'' @ name @ ''\": '' @ v @ '',\<newline>'')
       [(''columns'', fi cols), (''detected'', fi (cs_detected st)), (''learned'', fi (cs_learned st)),
        (''rejected'', fi (cs_rejected st)), (''too_long'', fi (cs_too_long st)),
        (''minimized'', fi (cs_minimized st)), (''duplicates'', fi (duplicates s)),
        (''evicted'', fi (evicted s)), (''checks'', fi (cs_checks st)),
        (''nodes_pruned'', fi (cs_nodes_pruned st)), (''tightenings'', fi (cs_tightenings st)),
        (''seconds'', ff (cs_seconds st))])"

definition literal_json :: "(int \<Rightarrow> string) \<Rightarrow> ('a \<Rightarrow> string) \<Rightarrow> 'a conflict_literal \<Rightarrow> string" where
  "literal_json fi fg l = ''['' @ fi (int (lit_column l)) @ '', \"'' @
     (if lit_upper l then ''<='' else ''>='') @ ''\", '' @ fg (lit_value l) @ '']''"

fun join_with :: "string \<Rightarrow> string list \<Rightarrow> string" where
  "join_with sep [] = []"
| "join_with sep [x] = x"
| "join_with sep (x # y # zs) = x @ sep @ join_with sep (y # zs)"

definition entry_json :: "(int \<Rightarrow> string) \<Rightarrow> ('a \<Rightarrow> string) \<Rightarrow> 'a conflict_entry \<Rightarrow> string" where
  "entry_json fi fg e = ''    {\"id\": '' @ fi (entry_id e) @ '', \"source\": \"'' @
     conflict_source_string (entry_source e) @ ''\", \"uses\": '' @ fi (uses e) @ '', \"literals\": ['' @
     join_with '', '' (map (literal_json fi fg) (entry_literals e)) @ '']}''"

definition conflicts_to_json ::
    "(int \<Rightarrow> string) \<Rightarrow> (double \<Rightarrow> string) \<Rightarrow> ('a \<Rightarrow> string) \<Rightarrow> 'a conflict_store \<Rightarrow> conflict_stats \<Rightarrow> int \<Rightarrow> string" where
  "conflicts_to_json fi ff fg s st cols =
     ''{\<newline>'' @ stats_json fi ff s st cols @ ''  \"conflicts\": ['' @
     (if store_entries s = [] then ''''
      else ''\<newline>'' @ join_with '',\<newline>'' (map (entry_json fi fg) (store_entries s))) @
     (if store_entries s = [] then '']\<newline>}\<newline>'' else ''\<newline>  ]\<newline>}\<newline>'')"

section \<open>The invariant of the store\<close>

abbreviation literal_sets :: "'a conflict_store \<Rightarrow> 'a conflict_literal list set" where
  "literal_sets s \<equiv> entry_literals ` set (store_entries s)"

definition store_ok :: "'a conflict_store \<Rightarrow> bool" where
  "store_ok s \<longleftrightarrow> set (known s) = literal_sets s \<and> distinct (map entry_literals (store_entries s)) \<and>
     sorted_wrt (<) (map entry_id (store_entries s)) \<and>
     (\<forall>e \<in> set (store_entries s). entry_id e < next_id s) \<and>
     length (store_entries s) \<le> store_capacity s"

lemma lex_less_total: "\<not> lex_less a b \<Longrightarrow> \<not> lex_less b a \<Longrightarrow> a = (b :: 'b::linorder list)"
proof (induction a arbitrary: b)
  case Nil
  then show ?case by (cases b) auto
next
  case (Cons x a)
  then show ?case by (cases b) (auto split: if_splits)
qed

lemma lex_less_irrefl: "\<not> lex_less a (a :: 'b::linorder list)"
  by (induction a) auto

lemma same_key_linorder [simp]: "same_key a b \<longleftrightarrow> a = (b :: 'b::linorder list)"
  using lex_less_total lex_less_irrefl by (auto simp: same_key_def)

lemma mark_nth:
  "i < length d \<Longrightarrow> fold (\<lambda>k d. d[k := True]) ks d ! i \<longleftrightarrow> i \<in> set ks \<or> d ! i"
proof (induction ks arbitrary: d)
  case (Cons k ks)
  then show ?case using Cons.IH[of "d[k := True]"] by (cases "k = i") auto
qed simp

lemma kept_of_set: "set (kept_of xs d) = {xs ! q |q. q < length xs \<and> \<not> d ! q}"
  by (auto simp: kept_of_filter)

lemma dropped_set: "set [f (xs ! q). q \<leftarrow> [0..<length xs], d ! q] = f ` {xs ! q |q. q < length xs \<and> d ! q}"
  by (auto intro!: imageI)

lemma kept_of_diff: "distinct xs \<Longrightarrow> set (kept_of xs d) = set xs - {xs ! q |q. q < length xs \<and> d ! q}"
  unfolding kept_of_set by (auto simp: in_set_conv_nth nth_eq_iff_index_eq) blast

text \<open>What one eviction does: the marked positions go, and none of them ranks above a position kept.\<close>

lemma evict_spec:
  fixes s :: "'a::linorder conflict_store"
  assumes ok: "store_ok s" and ne: "store_entries s \<noteq> []"
  obtains d where "length d = length (store_entries s)" "store_entries (evict s) = kept_of (store_entries s) d"
    "card {q. q < length (store_entries s) \<and> d ! q} = max 1 (length (store_entries s) div 10)"
    "\<forall>q < length (store_entries s). \<forall>r < length (store_entries s). d ! q \<longrightarrow> \<not> d ! r \<longrightarrow>
       usefulness (store_entries s ! q) \<le> usefulness (store_entries s ! r)"
    "set (known (evict s)) = literal_sets (evict s)"
    "next_id (evict s) = next_id s" "store_capacity (evict s) = store_capacity s"
proof -
  let ?es = "store_entries s"
  let ?n = "length ?es"
  let ?f = "\<lambda>k. usefulness (?es ! k)"
  let ?c = "max 1 (?n div 10)"
  let ?o = "sort_key ?f [0..<?n]"
  let ?d = "fold (\<lambda>k d. d[k := True]) (take ?c ?o) (replicate ?n False)"
  have len: "length ?d = ?n"
  proof -
    have "length (fold (\<lambda>k d. d[k := True]) ks (d0 :: bool list)) = length d0" for ks d0
      by (induction ks arbitrary: d0) auto
    then show ?thesis by simp
  qed
  have m: "?d ! q \<longleftrightarrow> q \<in> set (take ?c ?o)" if "q < ?n" for q
    using mark_nth[of q "replicate ?n False" "take ?c ?o"] that by simp
  have "0 < ?n" using ne by simp
  then have cn: "?c \<le> ?n" by linarith
  have dis: "distinct ?o" by simp
  have "set (take ?c ?o) \<subseteq> {0..<?n}" using set_take_subset[of ?c ?o] by simp
  then have "{q. q < ?n \<and> ?d ! q} = set (take ?c ?o)" using m by auto
  then have card: "card {q. q < ?n \<and> ?d ! q} = ?c"
    using cn distinct_card[OF distinct_take[OF dis, of ?c]] by simp
  have le: "?f q \<le> ?f r" if "q < ?n" "r < ?n" "?d ! q" "\<not> ?d ! r" for q r
  proof -
    have "sorted (map ?f (take ?c ?o @ drop ?c ?o))" unfolding append_take_drop_id by simp
    then have srt: "\<forall>a \<in> set (take ?c ?o). \<forall>b \<in> set (drop ?c ?o). ?f a \<le> ?f b"
      unfolding map_append sorted_append by simp
    have "r \<in> set ?o" using that(2) by simp
    then have "r \<in> set (take ?c ?o) \<union> set (drop ?c ?o)" unfolding set_append[symmetric] append_take_drop_id .
    then show ?thesis using that m srt by blast
  qed
  have ev: "store_entries (evict s) = kept_of ?es ?d"
    "known (evict s) = filter (\<lambda>l. l \<notin> entry_literals ` {?es ! q |q. q < ?n \<and> ?d ! q}) (known s)"
    unfolding evict_def Let_def
    by (simp_all only: conflict_store.simps list_ex_iff same_key_linorder dropped_set) (auto intro!: filter_cong)
  have dm: "distinct (map entry_literals ?es)" and kn: "set (known s) = literal_sets s"
    using ok by (simp_all add: store_ok_def)
  then have inj: "inj_on entry_literals (set ?es)" and de: "distinct ?es" by (simp_all add: distinct_map)
  have sub: "{?es ! q |q. q < ?n \<and> ?d ! q} \<subseteq> set ?es" by auto
  have "set (known (evict s)) = literal_sets (evict s)"
    unfolding ev kept_of_diff[OF de] inj_on_image_set_diff[OF inj Diff_subset sub] using kn by auto
  then show ?thesis
    using len ev(1) card le by (intro that[of ?d]) (simp_all add: evict_def Let_def)
qed

lemma evict_ok:
  fixes s :: "'a::linorder conflict_store"
  assumes ok: "store_ok s" and ne: "store_entries s \<noteq> []"
  shows "store_ok (evict s) \<and> length (store_entries (evict s)) < length (store_entries s) \<and>
    literal_sets (evict s) \<subseteq> literal_sets s \<and>
    card (literal_sets s - literal_sets (evict s)) = max 1 (length (store_entries s) div 10) \<and>
    (\<forall>e \<in> set (store_entries s) - set (store_entries (evict s)). \<forall>k \<in> set (store_entries (evict s)).
       usefulness e \<le> usefulness k) \<and> next_id (evict s) = next_id s \<and> store_capacity (evict s) = store_capacity s"
proof -
  let ?es = "store_entries s"
  obtain d where d: "length d = length ?es" and e: "store_entries (evict s) = kept_of ?es d"
    and c: "card {q. q < length ?es \<and> d ! q} = max 1 (length ?es div 10)"
    and le: "\<forall>q < length ?es. \<forall>r < length ?es. d ! q \<longrightarrow> \<not> d ! r \<longrightarrow> usefulness (?es ! q) \<le> usefulness (?es ! r)"
    and kn: "set (known (evict s)) = literal_sets (evict s)"
    and keep: "next_id (evict s) = next_id s" "store_capacity (evict s) = store_capacity s"
    by (rule evict_spec[OF ok ne])
  have dm: "distinct (map entry_literals ?es)" using ok by (simp add: store_ok_def)
  then have inj: "inj_on entry_literals (set ?es)" and de: "distinct ?es" by (simp_all add: distinct_map)
  let ?D = "{?es ! q |q. q < length ?es \<and> d ! q}"
  have D: "?D = (!) ?es ` {q. q < length ?es \<and> d ! q}" by auto
  have cD: "card ?D = max 1 (length ?es div 10)"
    unfolding D c[symmetric] using de by (intro card_image inj_onI) (auto simp: nth_eq_iff_index_eq)
  have sub: "?D \<subseteq> set ?es" by auto
  have kept: "set (store_entries (evict s)) = set ?es - ?D" unfolding e by (rule kept_of_diff[OF de])
  have "literal_sets s - literal_sets (evict s) = entry_literals ` ?D"
    unfolding kept inj_on_image_set_diff[OF inj Diff_subset sub] using sub by auto
  then have card: "card (literal_sets s - literal_sets (evict s)) = max 1 (length ?es div 10)"
    using cD card_image[OF inj_on_subset[OF inj sub]] by simp
  have ss: "subseq (store_entries (evict s)) ?es" unfolding e by (rule subseq_kept_of)
  have "?es ! q \<in> set ?es" if "q < length ?es" for q using that by simp
  have ne2: "set (store_entries (evict s)) \<noteq> set ?es"
  proof
    assume "set (store_entries (evict s)) = set ?es"
    then have "?D = {}" using kept sub by blast
    then have "card ?D = 0" by (simp only: card.empty)
    then show False unfolding cD by simp
  qed
  have "store_entries (evict s) \<noteq> ?es" using ne2 by auto
  then have less: "length (store_entries (evict s)) < length ?es"
    using ss subseq_same_length[OF ss] list_emb_length[OF ss] by linarith
  have "distinct (map entry_literals (store_entries (evict s)))"
    using subseq_map[OF ss, of entry_literals] dm by (rule subseq_distinct)
  moreover have "sorted_wrt (<) (map entry_id (store_entries (evict s)))"
    using subseq_map[OF ss, of entry_id] by (rule subseq_sorted_wrt) (use ok in \<open>simp add: store_ok_def\<close>)
  moreover have "\<forall>x \<in> set (store_entries (evict s)). entry_id x < next_id s"
    using ok kept by (auto simp: store_ok_def)
  ultimately have "store_ok (evict s)" using kn less keep ok by (simp add: store_ok_def)
  moreover have "\<forall>x \<in> set ?es - set (store_entries (evict s)). \<forall>k \<in> set (store_entries (evict s)). usefulness x \<le> usefulness k"
  proof (intro ballI)
    fix x k assume x: "x \<in> set ?es - set (store_entries (evict s))" and k: "k \<in> set (store_entries (evict s))"
    obtain r where r: "k = ?es ! r" "r < length ?es" "\<not> d ! r" using k unfolding e kept_of_set by blast
    obtain q where q: "x = ?es ! q" "q < length ?es" "d ! q" using x unfolding kept by blast
    show "usefulness x \<le> usefulness k" unfolding r(1) q(1) using le q r by blast
  qed
  moreover have "literal_sets (evict s) \<subseteq> literal_sets s" unfolding kept by blast
  ultimately show ?thesis using less card keep by (intro conjI)
qed

lemma store_add_spec:
  fixes s :: "'a::linorder conflict_store"
  assumes ok: "store_ok s" and add: "store_add ls source node s = (added, s')"
  shows "store_ok s' \<and> added = (0 < store_capacity s \<and> ls \<notin> literal_sets s) \<and>
    (if added then literal_sets s' = insert ls (literal_sets s \<inter> literal_sets s') \<and>
       card (literal_sets s - literal_sets s') =
         (if length (store_entries s) < store_capacity s then 0 else max 1 (length (store_entries s) div 10)) \<and>
       (\<forall>e \<in> set (store_entries s) - set (store_entries s'). \<forall>k \<in> set (store_entries s) \<inter> set (store_entries s').
          usefulness e \<le> usefulness k)
     else store_entries s' = store_entries s)"
proof -
  have kn: "list_ex (same_key ls) (known s) \<longleftrightarrow> ls \<in> literal_sets s"
    using ok by (auto simp: store_ok_def list_ex_iff)
  show ?thesis
  proof (cases "0 < store_capacity s \<and> ls \<notin> literal_sets s")
    case False
    then show ?thesis using add ok kn by (auto simp: store_add_def store_ok_def split: if_splits)
  next
    case True
    let ?full = "store_capacity s \<le> length (store_entries s)"
    define t where "t = (if ?full then evict s else s)"
    let ?e = "\<lparr>entry_literals = ls, entry_source = source, entry_id = next_id t, created = node, last_used = node, uses = 0\<rparr>"
    have ne: "store_entries s \<noteq> []" if ?full using that True by auto
    have s': "added" "s' = t\<lparr>known := ls # known t, next_id := next_id t + 1, store_entries := store_entries t @ [?e]\<rparr>"
      using add True kn by (auto simp: store_add_def Let_def t_def)
    have room: "length (store_entries t) < store_capacity t"
      using evict_ok[OF ok ne] ok by (auto simp: t_def store_ok_def)
    have t: "store_ok t" "literal_sets t \<subseteq> literal_sets s" "next_id t = next_id s"
      using evict_ok[OF ok ne] ok by (auto simp: t_def)
    have "\<forall>e \<in> set (store_entries t). entry_id e < next_id t" using t(1) unfolding store_ok_def by blast
    then have "?e \<notin> set (store_entries t)" by force
    have ok': "store_ok s'"
      using t True room unfolding s'(2) store_ok_def by (auto simp: sorted_wrt_append less_Suc_eq_le)
    have ls': "literal_sets s' = insert ls (literal_sets t)" using s'(2) by auto
    have "card (literal_sets s - literal_sets s') = (if ?full then max 1 (length (store_entries s) div 10) else 0)"
    proof -
      have "literal_sets s - literal_sets s' = literal_sets s - literal_sets t" using ls' True by auto
      then show ?thesis using evict_ok[OF ok ne] by (auto simp: t_def)
    qed
    moreover have "?e \<notin> set (store_entries s)"
      using ok t(3) unfolding store_ok_def by force
    then have "\<forall>e \<in> set (store_entries s) - set (store_entries s'). \<forall>k \<in> set (store_entries s) \<inter> set (store_entries s'). usefulness e \<le> usefulness k"
      using evict_ok[OF ok ne] unfolding s'(2) by (auto simp: t_def)
    ultimately show ?thesis
      using ok' ls' t(2) s'(1) True by (auto simp: not_le)
  qed
qed

text \<open>
  C21. The store refines a set of conflicts that may forget: an insertion keeps the invariant (no
  duplicates, the key set equal to the entries, ids in order, at most the capacity), it is refused
  exactly on a conflict already held or at capacity zero, and then changes no entry, and otherwise the set becomes
  the old one less what was forgotten, plus the new conflict. Something is forgotten only by a full
  store: a tenth of the entries, at least one, none of them more useful than an entry that stays.
\<close>

theorem store_add_refines:
  fixes s :: "'a::linorder conflict_store"
  assumes ok: "store_ok s" and add: "store_add ls source node s = (added, s')"
  shows "store_ok s' \<and> added = (0 < store_capacity s \<and> ls \<notin> literal_sets s) \<and>
    (if added then literal_sets s' = insert ls (literal_sets s \<inter> literal_sets s') \<and>
       card (literal_sets s - literal_sets s') =
         (if length (store_entries s) < store_capacity s then 0 else max 1 (length (store_entries s) div 10)) \<and>
       (\<forall>e \<in> set (store_entries s) - set (store_entries s'). \<forall>k \<in> set (store_entries s) \<inter> set (store_entries s').
          usefulness e \<le> usefulness k)
     else store_entries s' = store_entries s)"
  by (rule store_add_spec[OF assms])

theorem store_add_refines_witness:
  "store_ok (snd (store_add [ConflictLiteral 0 True (1::int)] kLp 7
     (snd (store_add [ConflictLiteral 3 False 2] kPropagation 5 (empty_store 1)))))"
proof -
  let ?s = "snd (store_add [ConflictLiteral 3 False (2::int)] kPropagation 5 (empty_store 1))"
  have "store_ok (empty_store 1 :: int conflict_store)" by (simp add: store_ok_def empty_store_def)
  then have "store_ok ?s" by (simp add: store_add_def store_ok_def empty_store_def)
  then show ?thesis
    using store_add_refines[of ?s "[ConflictLiteral 0 True 1]" kLp 7] by (metis prod.collapse)
qed

section \<open>A store of valid conflicts stays one\<close>

lemma empty_store_ok [simp]: "store_ok (empty_store c)"
  by (simp add: store_ok_def empty_store_def)

definition add_conflict :: "'a::ord conflict_literal list \<times> conflict_source \<times> int \<Rightarrow> 'a conflict_store \<Rightarrow> 'a conflict_store" where
  "add_conflict = (\<lambda>(ls, source, node) s. snd (store_add ls source node s))"

interpretation conflict_db: forgetful_store store_ok literal_sets fst
  "add_conflict :: 'a::linorder conflict_literal list \<times> conflict_source \<times> int \<Rightarrow> 'a conflict_store \<Rightarrow> 'a conflict_store"
proof unfold_locales
  fix s :: "'a conflict_store" and x :: "'a conflict_literal list \<times> conflict_source \<times> int"
  assume ok: "store_ok s"
  obtain ls source node where x: "x = (ls, source, node)" by (metis prod_cases3)
  obtain b t where t: "store_add ls source node s = (b, t)" by fastforce
  note spec = store_add_spec[OF ok t]
  show "store_ok (add_conflict x s)" using spec by (simp add: add_conflict_def x t)
  show "literal_sets (add_conflict x s) \<subseteq> insert (fst x) (literal_sets s)"
    using spec by (cases b) (auto simp: add_conflict_def x t)
qed

end
