(* ===== verification/SolutionPool.thy ===== *)
theory SolutionPool
  imports Conflict
begin

text \<open>
  \<open>src/mip/solution_pool.hpp\<close> and \<open>solution_pool.cpp\<close>: the pool of good integer points. One plan per
  integer assignment, kept in ascending order of the objective; a full pool drops its worst member,
  or with diversity the member that adds least variety. The rounding \<open>std::llround\<close> is a parameter.
\<close>

section \<open>Definitions\<close>

record 'a pool_member =
  pm_objective :: 'a
  pm_x :: "'a list"
  pm_key :: "int list"

record 'a solution_pool =
  pool_columns :: "nat list"
  pool_capacity :: nat
  diversity :: bool
  members :: "'a pool_member list"

definition new_pool :: "nat list \<Rightarrow> nat \<Rightarrow> bool \<Rightarrow> 'a solution_pool" where
  "new_pool cols c d = \<lparr>pool_columns = cols, pool_capacity = c, diversity = d, members = []\<rparr>"

definition key_of :: "('a \<Rightarrow> int) \<Rightarrow> 'a solution_pool \<Rightarrow> 'a list \<Rightarrow> int list" where
  "key_of llround p x = map (\<lambda>j. llround (x ! j)) (pool_columns p)"

definition hamming :: "int list \<Rightarrow> int list \<Rightarrow> nat" where
  "hamming a b = (let n = min (length a) (length b) in
     length (filter (\<lambda>k. a ! k \<noteq> b ! k) [0..<n]) + (max (length a) (length b) - n))"

definition pool_full :: "'a solution_pool \<Rightarrow> bool" where
  "pool_full p \<longleftrightarrow> 0 < pool_capacity p \<and> pool_capacity p \<le> length (members p)"

text \<open>The distance from member \<open>k\<close> to its nearest neighbour, and the member with the smallest one,
  the later on a tie.\<close>

definition nearest :: "'a pool_member list \<Rightarrow> nat \<Rightarrow> nat" where
  "nearest es k = fold (\<lambda>i d. if i = k then d else min d (hamming (pm_key (es ! k)) (pm_key (es ! i))))
     [0..<length es] (unat size_max)"

definition victim :: "'a pool_member list \<Rightarrow> nat" where
  "victim es = fst (fold (\<lambda>k (v, vn). if nearest es k \<le> vn then (k, nearest es k) else (v, vn))
     [1..<length es] (length es - 1, (unat size_max)))"

definition evict_one :: "'a solution_pool \<Rightarrow> 'a solution_pool" where
  "evict_one p =
     (if \<not> diversity p \<or> length (members p) < 3 then p\<lparr>members := butlast (members p)\<rparr>
      else p\<lparr>members := erase_at (victim (members p)) (members p)\<rparr>)"

lemma victim_bounds:
  assumes "3 \<le> length es"
  shows "1 \<le> victim es \<and> victim es < length es"
proof -
  have "1 \<le> fst s \<and> fst s < length es \<Longrightarrow> set ks \<subseteq> {1..<length es} \<Longrightarrow>
      1 \<le> fst (fold (\<lambda>k (v, vn). if nearest es k \<le> vn then (k, nearest es k) else (v, vn)) ks s) \<and>
      fst (fold (\<lambda>k (v, vn). if nearest es k \<le> vn then (k, nearest es k) else (v, vn)) ks s) < length es" for ks s
    by (induction ks arbitrary: s) (auto split: prod.splits)
  from this[of "(length es - 1, (unat size_max))" "[1..<length es]"] show ?thesis
    unfolding victim_def using assms by fastforce
qed

lemma length_evict_one: "members p \<noteq> [] \<Longrightarrow> length (members (evict_one p)) = length (members p) - 1"
  using victim_bounds[of "members p"] by (auto simp: evict_one_def not_less)

function evict_while :: "'a solution_pool \<Rightarrow> 'a solution_pool" where
  "evict_while p = (if pool_capacity p < length (members p) then evict_while (evict_one p) else p)"
  by pat_completeness auto
termination
proof (relation "measure (\<lambda>p. length (members p))")
  fix p :: "'a solution_pool" assume "pool_capacity p < length (members p)"
  then have "members p \<noteq> []" by auto
  then show "(evict_one p, p) \<in> measure (\<lambda>p. length (members p))"
    using length_evict_one[of p] by (cases "members p") auto
qed simp

declare evict_while.simps [simp del]

text \<open>The first member with a larger objective, where \<open>std::upper_bound\<close> lands on an ascending pool.\<close>

definition insert_position :: "'a \<Rightarrow> 'a::ord pool_member list \<Rightarrow> nat" where
  "insert_position v es = (case find_index (\<lambda>e. v < pm_objective e) es of Some i \<Rightarrow> i | None \<Rightarrow> length es)"

definition pool_offer :: "('a \<Rightarrow> int) \<Rightarrow> 'a::ord \<Rightarrow> 'a list \<Rightarrow> 'a solution_pool \<Rightarrow> 'a solution_pool" where
  "pool_offer llround obj x p =
     (if pool_capacity p = 0 then p
      else
        let key = key_of llround p x;
            entry = \<lparr>pm_objective = obj, pm_x = x, pm_key = key\<rparr>;
            place = (\<lambda>es. evict_while (p\<lparr>members := insert_at (insert_position obj es) entry es\<rparr>))
        in case find_index (\<lambda>e. pm_key e = key) (members p) of
             Some k \<Rightarrow>
               if pm_objective (members p ! k) \<le> obj then p
               else place (erase_at k (members p))
           | None \<Rightarrow> place (members p))"

definition pool_cutoff :: "'a \<Rightarrow> 'a solution_pool \<Rightarrow> 'a" where
  "pool_cutoff infinity p =
     (if diversity p \<or> \<not> pool_full p then infinity else pm_objective (last (members p)))"

definition finish_step ::
    "('a \<Rightarrow> bool) \<Rightarrow> nat \<Rightarrow> 'a \<Rightarrow> int list \<Rightarrow> 'a pool_member \<Rightarrow> 'a::ord pool_member list \<Rightarrow> 'a pool_member list" where
  "finish_step finite_value capacity limit key e out =
     (if capacity \<le> length out then out
      else if pm_key e = key then out
      else if finite_value limit \<and> limit < pm_objective e then out
      else out @ [e])"

definition finish ::
    "('a \<Rightarrow> int) \<Rightarrow> ('a \<Rightarrow> bool) \<Rightarrow> 'a \<Rightarrow> 'a list \<Rightarrow> 'a \<Rightarrow> 'a solution_pool \<Rightarrow>
     'a::{one,plus,times,abs,ord} pool_member list" where
  "finish llround finite_value incumbent_objective incumbent_x rel_gap p =
     (if pool_capacity p = 0 then []
      else
        let first = \<lparr>pm_objective = incumbent_objective, pm_x = incumbent_x, pm_key = key_of llround p incumbent_x\<rparr>;
            limit = incumbent_objective + rel_gap * cmax 1 \<bar>incumbent_objective\<bar>
        in fold (finish_step finite_value (pool_capacity p) limit (pm_key first)) (members p) [first])"

section \<open>Insertion into a ranked list\<close>

text \<open>The reference for one offer: the better of two members with one assignment stays, and a new
  member goes behind those that are at least as good.\<close>

fun ranked_insert :: "'a::ord pool_member \<Rightarrow> 'a pool_member list \<Rightarrow> 'a pool_member list" where
  "ranked_insert e [] = [e]"
| "ranked_insert e (h # hs) = (if pm_objective e < pm_objective h then e # h # hs else h # ranked_insert e hs)"

definition ranked_offer :: "'a::ord pool_member \<Rightarrow> 'a pool_member list \<Rightarrow> 'a pool_member list" where
  "ranked_offer e es =
     (if \<exists>h \<in> set es. pm_key h = pm_key e \<and> pm_objective h \<le> pm_objective e then es
      else ranked_insert e (filter (\<lambda>h. pm_key h \<noteq> pm_key e) es))"

abbreviation ranked :: "'a::linorder pool_member list \<Rightarrow> bool" where
  "ranked es \<equiv> sorted (map pm_objective es)"

abbreviation plans :: "'a pool_member list \<Rightarrow> bool" where
  "plans es \<equiv> distinct (map pm_key es)"

lemma insert_at_position: "insert_at (insert_position (pm_objective e) es) e es = ranked_insert e es"
proof (induction es)
  case (Cons h hs)
  show ?case
  proof (cases "pm_objective e < pm_objective h")
    case False
    then have "insert_position (pm_objective e) (h # hs) = Suc (insert_position (pm_objective e) hs)"
      by (cases "find_index (\<lambda>h. pm_objective e < pm_objective h) hs")
         (simp_all add: insert_position_def del: find_index_None)
    then show ?thesis using Cons.IH False by (simp add: insert_at_def)
  qed (simp add: insert_position_def insert_at_def)
qed (simp add: insert_position_def insert_at_def)

lemma ranked_insert_set [simp]: "set (ranked_insert e es) = insert e (set es)"
  by (induction es) auto

lemma ranked_insert_length [simp]: "length (ranked_insert e es) = Suc (length es)"
  by (induction es) auto

lemma ranked_insert_ranked: "ranked es \<Longrightarrow> ranked (ranked_insert e es)"
  by (induction es) (auto intro: order_trans)

lemma ranked_insert_plans: "plans es \<Longrightarrow> pm_key e \<notin> pm_key ` set es \<Longrightarrow> plans (ranked_insert e es)"
  by (induction es) auto

lemma ranked_insert_take: "take k (ranked_insert e (take k es)) = take k (ranked_insert e es)"
proof (induction es arbitrary: k)
  case (Cons h hs)
  then show ?case by (cases k) (auto simp: take_Cons' )
qed simp

lemma ranked_insert_append:
  "(\<forall>b \<in> set bs. pm_objective e < pm_objective b) \<Longrightarrow> ranked_insert e (as @ bs) = ranked_insert e as @ bs"
  by (induction as) (cases bs; auto)+

lemma ranked_insert_last:
  "(\<forall>h \<in> set es. pm_objective h \<le> (pm_objective e :: 'a::linorder)) \<Longrightarrow> ranked_insert e es = es @ [e]"
  by (induction es) (auto simp: not_less)

lemma ranked_insert_hd:
  "ranked_insert e es \<noteq> []"
  "es \<noteq> [] \<Longrightarrow> hd (ranked_insert e es) = (if pm_objective e < pm_objective (hd es) then e else hd es)"
  by (cases es; simp)+

lemma erase_key_filter:
  assumes "find_index (\<lambda>e. pm_key e = key) es = Some k" "plans es"
  shows "erase_at k es = filter (\<lambda>e. pm_key e \<noteq> key) es"
  using assms
proof (induction es arbitrary: k)
  case (Cons h hs)
  show ?case
  proof (cases "pm_key h = key")
    case True
    then have "filter (\<lambda>e. pm_key e \<noteq> key) hs = hs" using Cons.prems(2) by (auto simp: filter_id_conv rev_image_eqI)
    then show ?thesis using True Cons.prems(1) by simp
  next
    case False
    with Cons.prems(1) obtain q where "k = Suc q" "find_index (\<lambda>e. pm_key e = key) hs = Some q" by auto
    then show ?thesis using Cons.IH[of q] Cons.prems(2) False by simp
  qed
qed simp

lemma find_key_unique:
  assumes "find_index (\<lambda>e. pm_key e = key) es = Some k" "plans es"
  shows "es ! k \<in> set es \<and> pm_key (es ! k) = key \<and> (\<forall>h \<in> set es. pm_key h = key \<longrightarrow> h = es ! k)"
proof -
  note f = find_index_Some[OF assms(1)]
  then have "es ! k \<in> set es" by simp
  moreover have "inj_on pm_key (set es)" using assms(2) by (simp add: distinct_map)
  ultimately show ?thesis using f by (auto dest: inj_onD)
qed

text \<open>One offer in terms of the reference, before anything is evicted.\<close>

lemma pool_offer_ranked:
  fixes p :: "'a::linorder solution_pool"
  assumes "plans (members p)" "0 < pool_capacity p"
  shows "pool_offer llround v x p = evict_while (p\<lparr>members := ranked_offer
      \<lparr>pm_objective = v, pm_x = x, pm_key = key_of llround p x\<rparr> (members p)\<rparr>) \<or>
    (pool_offer llround v x p = p \<and> ranked_offer
      \<lparr>pm_objective = v, pm_x = x, pm_key = key_of llround p x\<rparr> (members p) = members p)"
proof (cases "find_index (\<lambda>e. pm_key e = key_of llround p x) (members p)")
  case None
  then have "\<forall>h \<in> set (members p). pm_key h \<noteq> key_of llround p x" by simp
  moreover from this have "filter (\<lambda>h. pm_key h \<noteq> key_of llround p x) (members p) = members p"
    by (simp add: filter_id_conv)
  moreover have "pool_offer llround v x p = evict_while (p\<lparr>members :=
      ranked_insert \<lparr>pm_objective = v, pm_x = x, pm_key = key_of llround p x\<rparr> (members p)\<rparr>)"
    using assms(2) insert_at_position[of "\<lparr>pm_objective = v, pm_x = x, pm_key = key_of llround p x\<rparr>" "members p"]
    by (simp add: pool_offer_def Let_def None del: find_index_None)
  ultimately show ?thesis by (auto simp: ranked_offer_def)
next
  case (Some k)
  note u = find_key_unique[OF Some assms(1)]
  show ?thesis
  proof (cases "pm_objective (members p ! k) \<le> v")
    case True
    then have "pool_offer llround v x p = p" using Some assms(2) by (simp add: pool_offer_def Let_def)
    then show ?thesis using u True by (auto simp: ranked_offer_def)
  next
    case False
    then have n: "\<not> (\<exists>h \<in> set (members p). pm_key h = key_of llround p x \<and> pm_objective h \<le> v)"
      using u by auto
    have "pool_offer llround v x p = evict_while (p\<lparr>members := ranked_insert \<lparr>pm_objective = v, pm_x = x,
        pm_key = key_of llround p x\<rparr> (filter (\<lambda>h. pm_key h \<noteq> key_of llround p x) (members p))\<rparr>)"
      using Some assms(2) False erase_key_filter[OF Some assms(1)]
        insert_at_position[of "\<lparr>pm_objective = v, pm_x = x, pm_key = key_of llround p x\<rparr>"
          "filter (\<lambda>h. pm_key h \<noteq> key_of llround p x) (members p)"]
      by (simp add: pool_offer_def Let_def)
    then show ?thesis using n by (auto simp: ranked_offer_def)
  qed
qed

lemma ranked_filter: "ranked es \<Longrightarrow> ranked (filter P es)"
  by (induction es) auto

lemma ranked_offer_spec:
  fixes es :: "'a::linorder pool_member list"
  assumes "ranked es" "plans es"
  shows "ranked (ranked_offer e es) \<and> plans (ranked_offer e es) \<and>
    set (ranked_offer e es) \<subseteq> insert e (set es) \<and> length (ranked_offer e es) \<le> Suc (length es)"
proof -
  have "ranked (filter P es)" "plans (filter P es)" for P
    using assms ranked_filter distinct_map_filter by blast+
  then have "ranked (ranked_insert e (filter (\<lambda>h. pm_key h \<noteq> pm_key e) es))"
    "plans (ranked_insert e (filter (\<lambda>h. pm_key h \<noteq> pm_key e) es))"
    by (auto intro!: ranked_insert_ranked ranked_insert_plans)
  moreover have "length (filter P es) \<le> length es" for P by simp
  ultimately show ?thesis using assms by (auto simp: ranked_offer_def)
qed

section \<open>The invariant\<close>

definition pool_ok :: "('a \<Rightarrow> int) \<Rightarrow> 'a::linorder solution_pool \<Rightarrow> bool" where
  "pool_ok llround p \<longleftrightarrow> ranked (members p) \<and> plans (members p) \<and> length (members p) \<le> pool_capacity p \<and>
     (\<forall>e \<in> set (members p). pm_key e = key_of llround p (pm_x e))"

lemma evict_while_fits: "length (members p) \<le> pool_capacity p \<Longrightarrow> evict_while p = p"
  by (subst evict_while.simps) simp

lemma evict_one_fields [simp]: "pool_capacity (evict_one p) = pool_capacity p"
  "pool_columns (evict_one p) = pool_columns p" "diversity (evict_one p) = diversity p"
  by (simp_all add: evict_one_def)

lemma evict_while_one:
  assumes "length (members p) = Suc (pool_capacity p)"
  shows "evict_while p = evict_one p"
proof -
  have "members p \<noteq> []" using assms by auto
  then have "length (members (evict_one p)) = pool_capacity (evict_one p)"
    using length_evict_one[of p] assms by simp
  then show ?thesis using assms by (subst evict_while.simps) (simp add: evict_while_fits)
qed

lemma evict_one_spec:
  assumes "ranked (members p)" "plans (members p)" "2 \<le> length (members p)"
  shows "ranked (members (evict_one p)) \<and> plans (members (evict_one p)) \<and>
    set (members (evict_one p)) \<subseteq> set (members p) \<and> members (evict_one p) \<noteq> [] \<and>
    hd (members (evict_one p)) = hd (members p)"
proof (cases "\<not> diversity p \<or> length (members p) < 3")
  case True
  have "subseq (take (length (members p) - 1) (members p)) (members p)" by (simp add: prefix_imp_subseq take_is_prefix)
  then have b: "subseq (butlast (members p)) (members p)" by (simp add: butlast_conv_take)
  have "ranked (butlast (members p))" "plans (butlast (members p))"
    using subseq_sorted_wrt[OF subseq_map[OF b]] subseq_distinct[OF subseq_map[OF b]] assms by blast+
  moreover have "butlast (members p) \<noteq> [] \<and> hd (butlast (members p)) = hd (members p)"
    using assms(3) by (cases "members p"; cases "tl (members p)") auto
  ultimately show ?thesis using True by (auto simp: evict_one_def dest: in_set_butlastD)
next
  case False
  obtain a r where e: "members p = a # r" using assms(3) by (cases "members p") auto
  obtain k where k: "victim (members p) = Suc k" using victim_bounds[of "members p"] False
    by (cases "victim (members p)") auto
  show ?thesis
    using False assms e k set_erase_at[of k r] sorted_wrt_erase_at distinct_map_erase_at[of pm_key r k]
    by (auto simp: evict_one_def sorted_map sorted_wrt_map)
qed

lemma evict_while_spec:
  assumes "ranked es" "plans es" "length es \<le> Suc (pool_capacity p)" "0 < pool_capacity p" "es \<noteq> []"
  shows "ranked (members (evict_while (p\<lparr>members := es\<rparr>))) \<and> plans (members (evict_while (p\<lparr>members := es\<rparr>))) \<and>
    length (members (evict_while (p\<lparr>members := es\<rparr>))) \<le> pool_capacity p \<and>
    set (members (evict_while (p\<lparr>members := es\<rparr>))) \<subseteq> set es \<and> members (evict_while (p\<lparr>members := es\<rparr>)) \<noteq> [] \<and>
    hd (members (evict_while (p\<lparr>members := es\<rparr>))) = hd es \<and>
    pool_capacity (evict_while (p\<lparr>members := es\<rparr>)) = pool_capacity p \<and>
    pool_columns (evict_while (p\<lparr>members := es\<rparr>)) = pool_columns p \<and>
    diversity (evict_while (p\<lparr>members := es\<rparr>)) = diversity p"
proof (cases "length es \<le> pool_capacity p")
  case True
  then show ?thesis using assms by (simp add: evict_while_fits)
next
  case False
  then have l: "length es = Suc (pool_capacity p)" using assms(3) by simp
  note ev = evict_while_one[of "p\<lparr>members := es\<rparr>"]
  have "2 \<le> length es" using l assms(4) by simp
  then show ?thesis
    using evict_one_spec[of "p\<lparr>members := es\<rparr>"] length_evict_one[of "p\<lparr>members := es\<rparr>"] assms l ev by auto
qed

lemma ranked_hd: "ranked es \<Longrightarrow> e \<in> set es \<Longrightarrow> pm_objective (hd es) \<le> pm_objective e"
  by (cases es) auto

lemma ranked_offer_best:
  fixes es :: "'a::linorder pool_member list"
  assumes "ranked es" "plans es" "h \<in> insert e (set es)"
  shows "ranked_offer e es \<noteq> [] \<and> pm_objective (hd (ranked_offer e es)) \<le> pm_objective h"
proof -
  note spec = ranked_offer_spec[OF assms(1,2), of e]
  have "\<exists>k \<in> set (ranked_offer e es). pm_objective k \<le> pm_objective h"
  proof (cases "\<exists>h \<in> set es. pm_key h = pm_key e \<and> pm_objective h \<le> pm_objective e")
    case True
    then show ?thesis using assms(3) by (auto simp: ranked_offer_def)
  next
    case False
    then have "ranked_offer e es = ranked_insert e (filter (\<lambda>h. pm_key h \<noteq> pm_key e) es)"
      by (auto simp: ranked_offer_def)
    moreover have "pm_objective e \<le> pm_objective h" if "pm_key h = pm_key e" "h \<in> set es"
      using False that by auto
    ultimately show ?thesis using assms(3) by (cases "pm_key h = pm_key e") auto
  qed
  then obtain k where k: "k \<in> set (ranked_offer e es)" "pm_objective k \<le> pm_objective h" by blast
  then have "pm_objective (hd (ranked_offer e es)) \<le> pm_objective h"
    using ranked_hd[of "ranked_offer e es" k] spec by auto
  moreover have "ranked_offer e es \<noteq> []" using k by auto
  ultimately show ?thesis by simp
qed

lemma pool_offer_invariant_spec:
  fixes p :: "'a::linorder solution_pool"
  assumes ok: "pool_ok llround p"
  shows "pool_ok llround (pool_offer llround v x p) \<and>
    set (members (pool_offer llround v x p)) \<subseteq>
      insert \<lparr>pm_objective = v, pm_x = x, pm_key = key_of llround p x\<rparr> (set (members p)) \<and>
    (0 < pool_capacity p \<longrightarrow> members (pool_offer llround v x p) \<noteq> [] \<and>
       pm_objective (hd (members (pool_offer llround v x p))) \<le> v \<and>
       (\<forall>e \<in> set (members p). pm_objective (hd (members (pool_offer llround v x p))) \<le> pm_objective e))"
proof (cases "pool_capacity p = 0")
  case True
  then show ?thesis using ok by (auto simp: pool_offer_def)
next
  case False
  let ?e = "\<lparr>pm_objective = v, pm_x = x, pm_key = key_of llround p x\<rparr>"
  let ?r = "ranked_offer ?e (members p)"
  have rp: "ranked (members p)" "plans (members p)" "length (members p) \<le> pool_capacity p"
    "\<forall>e \<in> set (members p). pm_key e = key_of llround p (pm_x e)" using ok by (simp_all add: pool_ok_def)
  note spec = ranked_offer_spec[OF rp(1,2), of ?e]
  note best = ranked_offer_best[OF rp(1,2), of _ ?e]
  have same: "pool_offer llround v x p = evict_while (p\<lparr>members := ?r\<rparr>)"
  proof -
    have "evict_while (p\<lparr>members := members p\<rparr>) = p" using evict_while_fits[of p] rp(3) by simp
    then show ?thesis using pool_offer_ranked[OF rp(2), of llround v x] False by auto
  qed
  have ne: "?r \<noteq> []" using best[of ?e] by simp
  have len: "length ?r \<le> Suc (pool_capacity p)" using spec rp(3) by linarith
  have pos: "0 < pool_capacity p" using False by simp
  note e = evict_while_spec[OF conjunct1[OF spec] conjunct1[OF conjunct2[OF spec]] len pos ne, of]
  have k: "key_of llround (evict_while (p\<lparr>members := ?r\<rparr>)) = key_of llround p" using e by (simp add: key_of_def fun_eq_iff)
  have sub: "set (members (evict_while (p\<lparr>members := ?r\<rparr>))) \<subseteq> insert ?e (set (members p))" using e spec by blast
  have "pool_ok llround (evict_while (p\<lparr>members := ?r\<rparr>))"
    unfolding pool_ok_def k using e sub rp(4) by auto
  moreover have "pm_objective (hd ?r) \<le> v" using best[of ?e] by simp
  moreover have "\<forall>e \<in> set (members p). pm_objective (hd ?r) \<le> pm_objective e" using best by blast
  ultimately show ?thesis unfolding same using e sub by simp
qed

text \<open>
  C22. The pool keeps its invariant through every offer, with or without diversity: members in ascending
  order of the objective, one for every integer assignment, never more than the capacity, each with
  the key of its own point. A member of the new pool was in the old one or is the point offered, and
  the best objective ever offered stays at the front.
\<close>

theorem pool_offer_invariant:
  fixes p :: "'a::linorder solution_pool"
  assumes "pool_ok llround p"
  shows "pool_ok llround (pool_offer llround v x p) \<and>
    set (members (pool_offer llround v x p)) \<subseteq>
      insert \<lparr>pm_objective = v, pm_x = x, pm_key = key_of llround p x\<rparr> (set (members p)) \<and>
    (0 < pool_capacity p \<longrightarrow> members (pool_offer llround v x p) \<noteq> [] \<and>
       pm_objective (hd (members (pool_offer llround v x p))) \<le> v \<and>
       (\<forall>e \<in> set (members p). pm_objective (hd (members (pool_offer llround v x p))) \<le> pm_objective e))"
  by (rule pool_offer_invariant_spec[OF assms])

lemma new_pool_ok [simp]: "pool_ok llround (new_pool cols c d)"
  by (simp add: pool_ok_def new_pool_def)

theorem pool_offer_invariant_witness:
  "pool_ok id (pool_offer id 3 [1, 2] (new_pool [0, 1] 2 True :: int solution_pool))"
  using pool_offer_invariant[OF new_pool_ok, of id 3 "[1, 2]" "[0, 1]" 2 True] by blast

interpretation plan_pool: forgetful_store "pool_ok llround" "\<lambda>p. pm_x ` set (members p)" snd
  "\<lambda>(v, x) p. pool_offer llround v x p" for llround :: "'a::linorder \<Rightarrow> int"
proof unfold_locales
  fix p :: "'a solution_pool" and q :: "'a \<times> 'a list"
  assume ok: "pool_ok llround p"
  obtain v x where q: "q = (v, x)" by fastforce
  from pool_offer_invariant_spec[OF ok, of v x]
  show "pool_ok llround ((\<lambda>(v, x) p. pool_offer llround v x p) q p)"
    "pm_x ` set (members ((\<lambda>(v, x) p. pool_offer llround v x p) q p)) \<subseteq> insert (snd q) (pm_x ` set (members p))"
    by (auto simp: q)
qed

section \<open>The pool by objective is the top of the unbounded ranking\<close>

lemma take_ranked_insert_butlast:
  "length (take k es) = k \<Longrightarrow> butlast (ranked_insert e (take k es)) = take k (ranked_insert e es)"
  using ranked_insert_take[of k e es] by (simp add: butlast_conv_take)

lemma split_key:
  assumes "plans es" "h \<in> set es"
  obtains as bs where "es = as @ h # bs" "filter (\<lambda>g. pm_key g \<noteq> pm_key h) es = as @ bs"
    "\<forall>g \<in> set as \<union> set bs. pm_key g \<noteq> pm_key h"
proof -
  obtain as bs where e: "es = as @ h # bs" using split_list[OF assms(2)] by blast
  have n: "\<forall>g \<in> set as \<union> set bs. pm_key g \<noteq> pm_key h" using assms(1) unfolding e by (force simp: image_iff)
  then have "filter (\<lambda>g. pm_key g \<noteq> pm_key h) as = as" "filter (\<lambda>g. pm_key g \<noteq> pm_key h) bs = bs"
    by (auto simp: filter_id_conv)
  then show ?thesis using that e n by simp
qed

text \<open>A bounded pool without diversity: the truncated reference.\<close>

lemma ranked_offer_truncated:
  fixes R :: "'a::linorder pool_member list"
  assumes R: "ranked R" "plans R" and k: "0 < k"
  shows "take k (ranked_offer e (take k R)) = take k (ranked_offer e R)"
proof (cases "\<exists>h \<in> set R. pm_key h = pm_key e")
  case False
  then have "\<forall>h \<in> set (take k R). pm_key h \<noteq> pm_key e" by (auto dest: in_set_takeD)
  then have "ranked_offer e (take k R) = ranked_insert e (take k R)" "ranked_offer e R = ranked_insert e R"
    using False by (auto simp: ranked_offer_def filter_id_conv intro!: arg_cong[where f = "ranked_insert e"])
  then show ?thesis by (simp add: ranked_insert_take)
next
  case True
  then obtain h where h: "h \<in> set R" "pm_key h = pm_key e" by blast
  obtain as bs where e: "R = as @ h # bs" and f: "filter (\<lambda>g. pm_key g \<noteq> pm_key e) R = as @ bs"
    and n: "\<forall>g \<in> set as \<union> set bs. pm_key g \<noteq> pm_key e"
    using split_key[OF R(2) h(1)] h(2) by metis
  have only: "(\<exists>g \<in> set R. pm_key g = pm_key e \<and> P g) \<longleftrightarrow> P h" for P using n h(2) unfolding e by auto
  have above: "\<forall>b \<in> set bs. pm_objective h \<le> pm_objective b" "\<forall>a \<in> set as. pm_objective a \<le> pm_objective h"
    using R(1) unfolding e by (auto simp: sorted_append)
  show ?thesis
  proof (cases "length as < k")
    case True
    then have t: "take k R = as @ h # take (k - Suc (length as)) bs" unfolding e by (simp add: take_Cons')
    have nt: "\<forall>g \<in> set as \<union> set (take (k - Suc (length as)) bs). pm_key g \<noteq> pm_key e"
      using n by (auto dest: in_set_takeD)
    then have onlyt: "(\<exists>g \<in> set (take k R). pm_key g = pm_key e \<and> P g) \<longleftrightarrow> P h" for P using h(2) unfolding t by auto
    have ft: "filter (\<lambda>g. pm_key g \<noteq> pm_key e) (take k R) = as @ take (k - Suc (length as)) bs"
      using nt h(2) unfolding t by (simp add: filter_id_conv)
    show ?thesis
    proof (cases "pm_objective h \<le> pm_objective e")
      case True
      then show ?thesis unfolding ranked_offer_def only onlyt by simp
    next
      case False
      then have "\<forall>b \<in> set bs. pm_objective e < pm_objective b" using above by force
      then have "ranked_insert e (as @ bs) = ranked_insert e as @ bs"
        "ranked_insert e (as @ take (k - Suc (length as)) bs) = ranked_insert e as @ take (k - Suc (length as)) bs"
        by (auto intro!: ranked_insert_append dest: in_set_takeD)
      then show ?thesis using False True unfolding ranked_offer_def only onlyt f ft by simp
    qed
  next
    case False
    then have t: "take k R = take k as" unfolding e by simp
    then have none: "\<forall>g \<in> set (take k R). pm_key g \<noteq> pm_key e" using n by (auto dest: in_set_takeD)
    then have o: "ranked_offer e (take k R) = ranked_insert e (take k R)"
      by (auto simp: ranked_offer_def filter_id_conv intro!: arg_cong[where f = "ranked_insert e"])
    show ?thesis
    proof (cases "pm_objective h \<le> pm_objective e")
      case True
      then have "\<forall>g \<in> set (take k R). pm_objective g \<le> pm_objective e"
        unfolding t using above(2) by (force dest: in_set_takeD)
      then have "ranked_insert e (take k R) = take k R @ [e]" by (rule ranked_insert_last)
      then show ?thesis using True o False t unfolding ranked_offer_def only by simp
    next
      case less: False
      then have "\<forall>b \<in> set bs. pm_objective e < pm_objective b" using above by force
      then have "ranked_insert e (as @ bs) = ranked_insert e as @ bs" by (rule ranked_insert_append)
      then show ?thesis
        using less o False ranked_insert_take[of k e as] unfolding t ranked_offer_def only f by simp
    qed
  qed
qed

lemma pool_offer_truncates:
  fixes p :: "'a::linorder solution_pool"
  assumes "ranked R" "plans R" "members p = take (pool_capacity p) R" "\<not> diversity p" "0 < pool_capacity p"
  shows "pool_offer llround v x p = p\<lparr>members := take (pool_capacity p)
    (ranked_offer \<lparr>pm_objective = v, pm_x = x, pm_key = key_of llround p x\<rparr> R)\<rparr>"
proof -
  let ?e = "\<lparr>pm_objective = v, pm_x = x, pm_key = key_of llround p x\<rparr>"
  let ?k = "pool_capacity p" and ?r = "ranked_offer ?e (members p)"
  have rp: "ranked (members p)" "plans (members p)"
    unfolding assms(3) using assms(1,2) by (simp_all add: take_map[symmetric] sorted_wrt_take)
  have "evict_while (p\<lparr>members := ?r\<rparr>) = p\<lparr>members := take ?k ?r\<rparr>"
  proof (cases "length ?r \<le> ?k")
    case True
    then show ?thesis by (simp add: evict_while_fits)
  next
    case False
    have "length (members p) \<le> ?k" using assms(3) by simp
    then have "length ?r = Suc ?k" using ranked_offer_spec[OF rp, of ?e] False by linarith
    then show ?thesis
      using evict_while_one[of "p\<lparr>members := ?r\<rparr>"] assms(4) by (simp add: evict_one_def butlast_conv_take)
  qed
  moreover have "p = p\<lparr>members := take ?k (members p)\<rparr>" by (simp add: assms(3))
  ultimately have "pool_offer llround v x p = p\<lparr>members := take ?k ?r\<rparr>"
    using pool_offer_ranked[OF rp(2) assms(5), of llround v x] by metis
  then show ?thesis using ranked_offer_truncated[OF assms(1,2,5), of ?e] unfolding assms(3) by simp
qed

text \<open>The unbounded ranking of a list of offers.\<close>

definition ranking :: "'a::linorder pool_member list \<Rightarrow> 'a pool_member list" where
  "ranking es = fold ranked_offer es []"

definition entry_of :: "('a \<Rightarrow> int) \<Rightarrow> nat list \<Rightarrow> 'a \<times> 'a list \<Rightarrow> 'a pool_member" where
  "entry_of llround cols = (\<lambda>(v, x). \<lparr>pm_objective = v, pm_x = x, pm_key = map (\<lambda>j. llround (x ! j)) cols\<rparr>)"

lemma ranking_snoc [simp]: "ranking (es @ [e]) = ranked_offer e (ranking es)"
  by (simp add: ranking_def)

lemma ranking_spec:
  "ranked (ranking es) \<and> plans (ranking es) \<and> set (ranking es) \<subseteq> set es \<and>
    (\<forall>e \<in> set es. \<exists>h \<in> set (ranking es). pm_key h = pm_key e \<and> pm_objective h \<le> pm_objective e)"
proof (induction es rule: rev_induct)
  case Nil
  then show ?case by (simp add: ranking_def)
next
  case (snoc e es)
  then have IH: "ranked (ranking es)" "plans (ranking es)" "set (ranking es) \<subseteq> set es"
    "\<forall>e \<in> set es. \<exists>h \<in> set (ranking es). pm_key h = pm_key e \<and> pm_objective h \<le> pm_objective e" by blast+
  have b: "\<exists>h \<in> set (ranked_offer e (ranking es)). pm_key h = pm_key g \<and> pm_objective h \<le> pm_objective g"
    if g: "g \<in> insert e (set (ranking es))" for g
  proof (cases "\<exists>h \<in> set (ranking es). pm_key h = pm_key e \<and> pm_objective h \<le> pm_objective e")
    case True
    then show ?thesis using g by (auto simp: ranked_offer_def)
  next
    case False
    then have "pm_objective e \<le> pm_objective g" if "pm_key g = pm_key e" using g that by auto
    then show ?thesis using False g by (cases "pm_key g = pm_key e") (auto simp: ranked_offer_def)
  qed
  have "\<exists>h \<in> set (ranked_offer e (ranking es)). pm_key h = pm_key g \<and> pm_objective h \<le> pm_objective g"
    if "g \<in> set es" for g
  proof -
    obtain h where h: "h \<in> set (ranking es)" "pm_key h = pm_key g" "pm_objective h \<le> pm_objective g"
      using IH(4) \<open>g \<in> set es\<close> by blast
    show ?thesis using b[of h] h by force
  qed
  then show ?case using ranked_offer_spec[OF IH(1,2), of e] IH(3) b[of e] by auto
qed

lemma pool_offers_truncate:
  fixes offers :: "('a::linorder \<times> 'a list) list"
  assumes "0 < c"
  shows "fold (\<lambda>(v, x) p. pool_offer llround v x p) offers (new_pool cols c False) =
    (new_pool cols c False)\<lparr>members := take c (ranking (map (entry_of llround cols) offers))\<rparr>"
proof (induction offers rule: rev_induct)
  case Nil
  then show ?case by (simp add: ranking_def new_pool_def)
next
  case (snoc q offers)
  obtain v x where q: "q = (v, x)" by fastforce
  let ?R = "ranking (map (entry_of llround cols) offers)"
  let ?p = "(new_pool cols c False)\<lparr>members := take c ?R\<rparr>"
  have "pool_offer llround v x ?p = ?p\<lparr>members := take (pool_capacity ?p)
      (ranked_offer \<lparr>pm_objective = v, pm_x = x, pm_key = key_of llround ?p x\<rparr> ?R)\<rparr>"
    by (rule pool_offer_truncates) (use ranking_spec assms in \<open>auto simp: new_pool_def\<close>)
  then show ?case using snoc q by (simp add: entry_of_def key_of_def new_pool_def)
qed

text \<open>
  C23. Without diversity the bounded pool is exactly the top of an unbounded ranking: after any sequence
  of offers to an empty pool its members are the first \<open>capacity\<close> of a list that is ascending in the
  objective, holds one member for every integer assignment ever offered, and holds for each
  assignment a member at least as good as every offer of it. Nothing evicted early is missed later.
\<close>

theorem pool_is_top_of_ranking:
  fixes offers :: "('a::linorder \<times> 'a list) list"
  assumes "0 < c"
  shows "members (fold (\<lambda>(v, x) p. pool_offer llround v x p) offers (new_pool cols c False)) =
      take c (ranking (map (entry_of llround cols) offers)) \<and>
    sorted (map pm_objective (ranking (map (entry_of llround cols) offers))) \<and>
    distinct (map pm_key (ranking (map (entry_of llround cols) offers))) \<and>
    (\<forall>e \<in> entry_of llround cols ` set offers. \<exists>h \<in> set (ranking (map (entry_of llround cols) offers)).
       pm_key h = pm_key e \<and> pm_objective h \<le> pm_objective e)"
  using ranking_spec[of "map (entry_of llround cols) offers"] pool_offers_truncate[OF assms, of llround offers cols]
  by (simp add: new_pool_def)

theorem pool_is_top_of_ranking_witness:
  "members (fold (\<lambda>(v, x) p. pool_offer id v x p) [(5, [1]), (3, [2]), (4, [1]), (9, [7])] (new_pool [0] 2 False)) =
     take 2 (ranking (map (entry_of id [0]) [(5, [1]), (3, [2]), (4, [1]), (9, [7 :: int])]))"
  using pool_is_top_of_ranking[of 2 id "[(5, [1]), (3, [2]), (4, [1]), (9, [7])]" "[0]"] by simp

section \<open>The cutoff and the report\<close>

text \<open>
  The cutoff is safe: a point whose objective is not below the cutoff of a pool changes nothing,
  so a node whose bound is not below it cannot contribute a member.
\<close>

theorem pool_cutoff_safe:
  fixes p :: "'a::linorder solution_pool"
  assumes ok: "pool_ok llround p" and c: "pool_cutoff infinity p \<le> v" and fin: "v < infinity"
  shows "members (pool_offer llround v x p) = members p"
proof -
  have full: "\<not> diversity p" "pool_full p" "pm_objective (last (members p)) \<le> v"
    using c fin by (auto simp: pool_cutoff_def split: if_splits)
  have rp: "ranked (members p)" "plans (members p)" "length (members p) = pool_capacity p" "0 < pool_capacity p"
    using ok full(2) by (auto simp: pool_ok_def pool_full_def)
  let ?e = "\<lparr>pm_objective = v, pm_x = x, pm_key = key_of llround p x\<rparr>"
  have le: "\<forall>h \<in> set (members p). pm_objective h \<le> v"
  proof
    fix h assume "h \<in> set (members p)"
    then obtain i where i: "i < length (members p)" "h = members p ! i" by (auto simp: in_set_conv_nth)
    then have "pm_objective h \<le> pm_objective (members p ! (length (members p) - 1))"
      using sorted_nth_mono[OF rp(1), of i "length (members p) - 1"] by simp
    moreover have "members p \<noteq> []" using rp(3,4) by auto
    ultimately show "pm_objective h \<le> v" using full(3) by (simp add: last_conv_nth)
  qed
  have "ranked_offer ?e (members p) = members p \<or> ranked_offer ?e (members p) = members p @ [?e]"
  proof (cases "\<exists>h \<in> set (members p). pm_key h = pm_key ?e")
    case True
    then show ?thesis using le by (auto simp: ranked_offer_def)
  next
    case False
    then have "filter (\<lambda>h. pm_key h \<noteq> pm_key ?e) (members p) = members p" by (auto simp: filter_id_conv)
    then show ?thesis using False le ranked_insert_last[of "members p" ?e] by (auto simp: ranked_offer_def)
  qed
  then show ?thesis
    using pool_offer_truncates[OF rp(1,2) _ full(1) rp(4), of llround v x] rp(3) by auto
qed

theorem pool_cutoff_safe_witness:
  "members (pool_offer id 9 [7] (pool_offer id 4 [1] (new_pool [0] 1 False))) =
     members (pool_offer id 4 [1 :: int] (new_pool [0] 1 False))"
proof (rule pool_cutoff_safe[where infinity = 1000])
  show "pool_ok id (pool_offer id 4 [1 :: int] (new_pool [0] 1 False))"
    using pool_offer_invariant_spec[OF new_pool_ok] by blast
  have "pool_offer id 4 [1 :: int] (new_pool [0] 1 False) =
      (new_pool [0] 1 False)\<lparr>members := [\<lparr>pm_objective = 4, pm_x = [1], pm_key = [1]\<rparr>]\<rparr>"
    by (simp add: pool_offer_def new_pool_def insert_position_def insert_at_def key_of_def evict_while_fits)
  then show "pool_cutoff 1000 (pool_offer id 4 [1 :: int] (new_pool [0] 1 False)) \<le> 9"
    by (simp add: pool_cutoff_def pool_full_def new_pool_def)
qed simp

text \<open>
  The reported pool is the incumbent followed by the best members with another assignment, within
  the gap when the limit is finite, and never more than the capacity.
\<close>

theorem finish_exact:
  fixes p :: "'a::linordered_field solution_pool"
  shows "finish llround fin v x gap p =
    (if pool_capacity p = 0 then []
     else \<lparr>pm_objective = v, pm_x = x, pm_key = key_of llround p x\<rparr> #
       take (pool_capacity p - 1) (filter (\<lambda>e. pm_key e \<noteq> key_of llround p x \<and>
         (fin (v + gap * max 1 \<bar>v\<bar>) \<longrightarrow> pm_objective e \<le> v + gap * max 1 \<bar>v\<bar>)) (members p)))"
proof -
  let ?P = "\<lambda>lim key e. pm_key e \<noteq> key \<and> (fin lim \<longrightarrow> pm_objective e \<le> lim)"
  have "fold (finish_step fin c lim key) es out = out @ take (c - length out) (filter (?P lim key) es)" for c lim key es and out :: "'a pool_member list"
  proof (induction es arbitrary: out)
    case (Cons e es)
    show ?case
      using Cons.IH[of "finish_step fin c lim key e out"]
      by (cases "c - length out") (auto simp: finish_step_def not_less diff_Suc)
  qed simp
  then show ?thesis by (simp add: finish_def Let_def)
qed

end
