(* ===== verification/Extended.thy ===== *)
theory Extended
  imports Prelude
begin

text \<open>
  Exact numbers with the two infinities and the undefined result of IEEE arithmetic, but without
  rounding and without a negative zero. The numeric code of the search is written once for any
  scalar; over this type it computes what it would compute were doubles exact, absent bounds
  included, and that is the arithmetic its soundness is stated in.
\<close>

datatype xnum = XNaN | XMInf | XPInf | X rat

fun xnan :: "xnum \<Rightarrow> bool" where
  "xnan XNaN = True"
| "xnan _ = False"

fun xinf :: "xnum \<Rightarrow> bool" where
  "xinf XMInf = True"
| "xinf XPInf = True"
| "xinf _ = False"

fun xfinite :: "xnum \<Rightarrow> bool" where
  "xfinite (X q) = True"
| "xfinite _ = False"

fun xval :: "xnum \<Rightarrow> rat" where
  "xval (X q) = q"
| "xval _ = 0"

fun xsign :: "xnum \<Rightarrow> rat" where
  "xsign XPInf = 1"
| "xsign XMInf = - 1"
| "xsign (X q) = sgn q"
| "xsign XNaN = 0"

definition xinf_of :: "rat \<Rightarrow> xnum" where
  "xinf_of s = (if 0 < s then XPInf else if s < 0 then XMInf else XNaN)"

fun xadd :: "xnum \<Rightarrow> xnum \<Rightarrow> xnum" where
  "xadd XNaN y = XNaN"
| "xadd x XNaN = XNaN"
| "xadd XPInf XMInf = XNaN"
| "xadd XMInf XPInf = XNaN"
| "xadd XPInf y = XPInf"
| "xadd XMInf y = XMInf"
| "xadd (X a) XPInf = XPInf"
| "xadd (X a) XMInf = XMInf"
| "xadd (X a) (X b) = X (a + b)"

fun xneg :: "xnum \<Rightarrow> xnum" where
  "xneg XNaN = XNaN"
| "xneg XPInf = XMInf"
| "xneg XMInf = XPInf"
| "xneg (X q) = X (- q)"

definition xmul :: "xnum \<Rightarrow> xnum \<Rightarrow> xnum" where
  "xmul x y = (if xnan x \<or> xnan y then XNaN
     else if xinf x \<or> xinf y then xinf_of (xsign x * xsign y)
     else X (xval x * xval y))"

definition xdiv :: "xnum \<Rightarrow> xnum \<Rightarrow> xnum" where
  "xdiv x y = (if xnan x \<or> xnan y \<or> xinf x \<and> xinf y then XNaN
     else if xinf x then xinf_of (if y = X 0 then xsign x else xsign x * xsign y)
     else if xinf y then X 0
     else if xval y = 0 then xinf_of (xval x)
     else X (xval x / xval y))"

fun xless :: "xnum \<Rightarrow> xnum \<Rightarrow> bool" where
  "xless (X a) (X b) = (a < b)"
| "xless XMInf (X b) = True"
| "xless XMInf XPInf = True"
| "xless (X a) XPInf = True"
| "xless _ _ = False"

instantiation xnum :: "{zero,one,plus,minus,uminus,times,inverse,abs,ord}"
begin

definition zero_xnum :: xnum where "0 = X 0"
definition one_xnum :: xnum where "1 = X 1"
definition plus_xnum :: "xnum \<Rightarrow> xnum \<Rightarrow> xnum" where "x + y = xadd x y"
definition uminus_xnum :: "xnum \<Rightarrow> xnum" where "- x = xneg x"
definition minus_xnum :: "xnum \<Rightarrow> xnum \<Rightarrow> xnum" where "x - y = xadd x (xneg y)"
definition times_xnum :: "xnum \<Rightarrow> xnum \<Rightarrow> xnum" where "x * y = xmul x y"
definition divide_xnum :: "xnum \<Rightarrow> xnum \<Rightarrow> xnum" where "x div y = xdiv x y"
definition inverse_xnum :: "xnum \<Rightarrow> xnum" where "inverse x = xdiv (X 1) x"
definition abs_xnum :: "xnum \<Rightarrow> xnum" where "\<bar>x\<bar> = (if xless x (X 0) then xneg x else x)"
definition less_xnum :: "xnum \<Rightarrow> xnum \<Rightarrow> bool" where "x < y \<longleftrightarrow> xless x y"
definition less_eq_xnum :: "xnum \<Rightarrow> xnum \<Rightarrow> bool" where "x \<le> y \<longleftrightarrow> xless x y \<or> (x = y \<and> \<not> xnan x)"

instance ..

end

definition xfloor :: "xnum \<Rightarrow> xnum" where
  "xfloor x = (case x of X q \<Rightarrow> X (of_int \<lfloor>q\<rfloor>) | _ \<Rightarrow> x)"

definition xceil :: "xnum \<Rightarrow> xnum" where
  "xceil x = (case x of X q \<Rightarrow> X (of_int \<lceil>q\<rceil>) | _ \<Rightarrow> x)"

text \<open>Round half away from zero, as \<open>std::round\<close>.\<close>

definition xround :: "xnum \<Rightarrow> xnum" where
  "xround x = (case x of X q \<Rightarrow> X (if 0 \<le> q then of_int \<lfloor>q + 1 / 2\<rfloor> else of_int \<lceil>q - 1 / 2\<rceil>) | _ \<Rightarrow> x)"

lemma xless_simps [simp]:
  "X a < X b \<longleftrightarrow> a < b" "XMInf < X b" "XMInf < XPInf" "X a < XPInf"
  "\<not> XPInf < y" "\<not> x < XMInf" "\<not> XNaN < y" "\<not> x < XNaN"
  by (cases x; cases y; simp add: less_xnum_def)+

lemma xleq_simps [simp]:
  "X a \<le> X b \<longleftrightarrow> a \<le> b" "XMInf \<le> X b" "XMInf \<le> XPInf" "X a \<le> XPInf"
  "\<not> XPInf \<le> X b" "\<not> X a \<le> XMInf" "\<not> XPInf \<le> XMInf" "\<not> XNaN \<le> y" "\<not> x \<le> XNaN"
  "XPInf \<le> XPInf" "XMInf \<le> XMInf"
  by (cases x; cases y; auto simp: less_eq_xnum_def)+

lemma X_arith [simp]:
  "X a + X b = X (a + b)" "X a - X b = X (a - b)" "X a * X b = X (a * b)" "- X a = X (- a)"
  "\<bar>X a\<bar> = X \<bar>a\<bar>" "b \<noteq> 0 \<Longrightarrow> X a / X b = X (a / b)"
  by (auto simp: plus_xnum_def minus_xnum_def times_xnum_def uminus_xnum_def abs_xnum_def divide_xnum_def
      xmul_def xdiv_def)

lemma xround_simps [simp]: "xfloor (X q) = X (of_int \<lfloor>q\<rfloor>)" "xceil (X q) = X (of_int \<lceil>q\<rceil>)"
  by (simp_all add: xfloor_def xceil_def)

lemma X_consts: "0 = X 0" "1 = X 1"
  by (simp_all add: zero_xnum_def one_xnum_def)

lemma feq_X [simp]: "feq (X a) (X b) \<longleftrightarrow> a = b"
  by (auto simp: feq_def)

lemma xless_trans: "x < y \<Longrightarrow> y < z \<Longrightarrow> x < (z :: xnum)"
  and xle_trans: "x \<le> y \<Longrightarrow> y \<le> z \<Longrightarrow> x \<le> (z :: xnum)"
  and xle_less_trans: "x \<le> y \<Longrightarrow> y < z \<Longrightarrow> x < (z :: xnum)"
  and xless_le_trans: "x < y \<Longrightarrow> y \<le> z \<Longrightarrow> x < (z :: xnum)"
  by (cases x; cases y; cases z; simp)+

lemma not_xless: "\<not> xnan x \<Longrightarrow> \<not> xnan y \<Longrightarrow> \<not> x < y \<longleftrightarrow> y \<le> (x :: xnum)"
  by (cases x; cases y) auto

lemma xleX_cases: "l \<le> X q \<longleftrightarrow> l = XMInf \<or> (\<exists>r. l = X r \<and> r \<le> q)"
  and Xle_cases: "X q \<le> l \<longleftrightarrow> l = XPInf \<or> (\<exists>r. l = X r \<and> q \<le> r)"
  by (cases l; simp)+

lemma times_inf [simp]:
  "0 < a \<Longrightarrow> X a * XPInf = XPInf" "a < 0 \<Longrightarrow> X a * XPInf = XMInf"
  "0 < a \<Longrightarrow> X a * XMInf = XMInf" "a < 0 \<Longrightarrow> X a * XMInf = XPInf"
  "X 0 * XPInf = XNaN" "X 0 * XMInf = XNaN"
  by (simp_all add: times_xnum_def xmul_def xinf_of_def sgn_if)

lemma xinf_X [simp]: "\<not> xinf x \<Longrightarrow> \<not> xnan x \<Longrightarrow> \<exists>q. x = X q"
  by (cases x) auto

end
