(* ===== verification/NodeDomain.thy ===== *)
theory NodeDomain
  imports ConflictStore Extended "HOL-Library.Monad_Syntax"
begin

text \<open>
  The domain of a branch-and-bound node (\<open>src/mip/branch_and_bound_node.cpp\<close>, the inline parts of
  \<open>branch_and_bound_internal.hpp\<close> and \<open>propagate_conflicts\<close> of \<open>branch_and_bound_conflicts.cpp\<close>): the
  tree nodes, entering a node by applying the chain of bound changes, leaving it by undoing the trail,
  and the propagation of bounds from learned conflicts and row activities. Two theorems: leaving
  restores the bounds whatever happened at the node, and propagation loses no integer point.
\<close>

section \<open>State\<close>

text \<open>What the code takes from the scalar beside its arithmetic and comparisons.\<close>

record 'a scalar =
  sc_fin :: "'a \<Rightarrow> bool"
  sc_inf :: "'a \<Rightarrow> bool"
  sc_floor :: "'a \<Rightarrow> 'a"
  sc_ceil :: "'a \<Rightarrow> 'a"
  sc_round :: "'a \<Rightarrow> 'a"
  sc_infinity :: 'a
  sc_isfinite :: "'a \<Rightarrow> bool"
  sc_lit :: "rat \<Rightarrow> 'a"
  feas_tol :: 'a
  move_tol :: 'a

definition double_scalar :: "double scalar" where
  "double_scalar = \<lparr>sc_fin = is_finite_bound, sc_inf = isinf, sc_floor = dfloor, sc_ceil = dceil,
     sc_round = dround, sc_infinity = PInf, sc_isfinite = isfinite, sc_lit = lit,
     feas_tol = kPrimalFeasibility, move_tol = lit (1 / 10 ^ 9)\<rparr>"

definition exact_scalar :: "rat \<Rightarrow> rat \<Rightarrow> xnum scalar" where
  "exact_scalar ft mt = \<lparr>sc_fin = xfinite, sc_inf = xinf, sc_floor = xfloor, sc_ceil = xceil,
     sc_round = xround, sc_infinity = XPInf, sc_isfinite = xfinite, sc_lit = X,
     feas_tol = X ft, move_tol = X mt\<rparr>"

record 'a domain_change =
  dc_column :: nat
  dc_upper :: bool
  dc_value :: 'a

text \<open>A tree node as far as the domain is concerned; the parent of the root is -1.\<close>

record 'a tree_node =
  node_parent :: int
  node_change :: "'a domain_change"
  node_has_change :: bool
  node_bound :: 'a
  node_depth :: int
  node_fraction :: 'a
  node_estimate :: 'a

datatype conflict_use = kUseNone | kUsePrune | kUsePropagate

record 'a node_state =
  working :: "'a model"
  saved :: "'a domain_change list"
  conflicts :: "'a conflict_store"
  use_of_conflicts :: conflict_use
  analysing :: bool
  conflict_pruned :: bool
  nodes_explored :: int
  conflict_tightenings :: int
  int_tol :: 'a
  integer_columns :: "nat list"

abbreviation lowers :: "('a, 'z) node_state_scheme \<Rightarrow> 'a list" where
  "lowers s \<equiv> col_lower (working s)"

abbreviation uppers :: "('a, 'z) node_state_scheme \<Rightarrow> 'a list" where
  "uppers s \<equiv> col_upper (working s)"

definition set_lower :: "nat \<Rightarrow> 'a \<Rightarrow> ('a, 'z) node_state_scheme \<Rightarrow> ('a, 'z) node_state_scheme" where
  "set_lower u v s = s\<lparr>working := (working s)\<lparr>col_lower := (lowers s)[u := v]\<rparr>\<rparr>"

definition set_upper :: "nat \<Rightarrow> 'a \<Rightarrow> ('a, 'z) node_state_scheme \<Rightarrow> ('a, 'z) node_state_scheme" where
  "set_upper u v s = s\<lparr>working := (working s)\<lparr>col_upper := (uppers s)[u := v]\<rparr>\<rparr>"

definition push_saved :: "'a domain_change \<Rightarrow> ('a, 'z) node_state_scheme \<Rightarrow> ('a, 'z) node_state_scheme" where
  "push_saved c s = s\<lparr>saved := saved s @ [c]\<rparr>"

definition tighten_lower :: "nat \<Rightarrow> 'a \<Rightarrow> ('a, 'z) node_state_scheme \<Rightarrow> ('a, 'z) node_state_scheme" where
  "tighten_lower u v s =
     set_lower u v (push_saved \<lparr>dc_column = u, dc_upper = False, dc_value = lowers s ! u\<rparr> s)"

definition tighten_upper :: "nat \<Rightarrow> 'a \<Rightarrow> ('a, 'z) node_state_scheme \<Rightarrow> ('a, 'z) node_state_scheme" where
  "tighten_upper u v s =
     set_upper u v (push_saved \<lparr>dc_column = u, dc_upper = True, dc_value = uppers s ! u\<rparr> s)"

section \<open>Entering and leaving a node\<close>

text \<open>The nodes from a node to the root. A cycle of parents would keep the walk going for ever; it
  ends on every tree the search builds, where a parent is older than its children.\<close>

partial_function (option) chain :: "'a tree_node list \<Rightarrow> int \<Rightarrow> 'a tree_node list option" where
  "chain nodes walk =
     (if walk < 0 then Some []
      else do {
        rest \<leftarrow> chain nodes (node_parent (nodes ! nat walk));
        Some (nodes ! nat walk # rest)
      })"

definition apply_change :: "'a::ord domain_change \<Rightarrow> ('a, 'z) node_state_scheme \<Rightarrow> ('a, 'z) node_state_scheme" where
  "apply_change c s =
     (let u = dc_column c;
          previous = (if dc_upper c then uppers s ! u else lowers s ! u);
          s1 = (if dc_upper c then set_upper u (cmin previous (dc_value c)) s
                else set_lower u (cmax previous (dc_value c)) s);
          now = (if dc_upper c then uppers s1 ! u else lowers s1 ! u)
      in if feq previous now then s1
         else push_saved \<lparr>dc_column = u, dc_upper = dc_upper c, dc_value = previous\<rparr> s1)"

definition enter :: "'a::ord tree_node list \<Rightarrow> ('a, 'z) node_state_scheme \<Rightarrow> ('a, 'z) node_state_scheme" where
  "enter visited s =
     fold (\<lambda>n. if node_has_change n then apply_change (node_change n) else id) visited (s\<lparr>saved := []\<rparr>)"

definition undo :: "'a domain_change \<Rightarrow> ('a, 'z) node_state_scheme \<Rightarrow> ('a, 'z) node_state_scheme" where
  "undo c s = (if dc_upper c then set_upper (dc_column c) (dc_value c) s
     else set_lower (dc_column c) (dc_value c) s)"

definition leave :: "('a, 'z) node_state_scheme \<Rightarrow> ('a, 'z) node_state_scheme" where
  "leave s = (fold undo (rev (saved s)) s)\<lparr>saved := []\<rparr>"

section \<open>Propagation of the learned conflicts\<close>

definition touch :: "nat \<Rightarrow> ('a, 'z) node_state_scheme \<Rightarrow> ('a, 'z) node_state_scheme" where
  "touch k s = s\<lparr>conflicts := (conflicts s)\<lparr>store_entries := (store_entries (conflicts s))[k :=
     (store_entries (conflicts s) ! k)\<lparr>uses := uses (store_entries (conflicts s) ! k) + 1,
       last_used := nodes_explored s\<rparr>]\<rparr>\<rparr>"

definition collapsed :: "'a::{ord,plus} scalar \<Rightarrow> nat \<Rightarrow> ('a, 'z) node_state_scheme \<Rightarrow> bool" where
  "collapsed sc j s \<longleftrightarrow> uppers s ! j + feas_tol sc < lowers s ! j"

definition imply_literal ::
    "'a::{ord,one,plus,minus} conflict_literal \<Rightarrow> ('a, 'z) node_state_scheme \<Rightarrow> ('a, 'z) node_state_scheme" where
  "imply_literal b s =
     (if lit_upper b then (if lit_value b < uppers s ! lit_column b then tighten_upper (lit_column b) (lit_value b) s else s)
      else (if lowers s ! lit_column b < lit_value b then tighten_lower (lit_column b) (lit_value b) s else s))"

text \<open>The result is whether the box is still open, the \<open>changed\<close> flag and the state.\<close>

fun propagate_conflicts_from ::
    "'a::{ord,one,plus,minus} scalar \<Rightarrow> nat list \<Rightarrow> bool \<Rightarrow> ('a, 'z) node_state_scheme \<Rightarrow>
     bool \<times> bool \<times> ('a, 'z) node_state_scheme" where
  "propagate_conflicts_from sc [] changed s = (True, changed, s)"
| "propagate_conflicts_from sc (k # ks) changed s =
     (let ls = entry_literals (store_entries (conflicts s) ! k);
          verdict = check_conflict ls (lowers s) (uppers s) (int_tol s) in
      if \<not> infeasible verdict \<and> implied verdict < 0 then propagate_conflicts_from sc ks changed s
      else
        let s1 = (if analysing s then s else touch k s) in
        if infeasible verdict then
          (False, changed, if analysing s1 then s1 else s1\<lparr>conflict_pruned := True\<rparr>)
        else if \<not> analysing s1 \<and> use_of_conflicts s1 = kUsePrune then propagate_conflicts_from sc ks changed s1
        else
          let b = negation (ls ! nat (implied verdict));
              s2 = imply_literal b s1;
              s3 = (if analysing s2 then s2 else s2\<lparr>conflict_tightenings := conflict_tightenings s2 + 1\<rparr>)
          in if collapsed sc (lit_column b) s3 then (False, True, s3)
             else propagate_conflicts_from sc ks True s3)"

definition propagate_conflicts ::
    "'a::{ord,one,plus,minus} scalar \<Rightarrow> bool \<Rightarrow> ('a, 'z) node_state_scheme \<Rightarrow>
     bool \<times> bool \<times> ('a, 'z) node_state_scheme" where
  "propagate_conflicts sc changed s =
     (if \<not> analysing s \<and> use_of_conflicts s = kUseNone then (True, changed, s)
      else propagate_conflicts_from sc [0..<length (store_entries (conflicts s))] changed s)"

section \<open>Propagation of the rows\<close>

definition round_column :: "'a::{ord,plus,minus} scalar \<Rightarrow> nat \<Rightarrow> ('a, 'z) node_state_scheme \<Rightarrow> ('a, 'z) node_state_scheme" where
  "round_column sc j s =
     (let up = sc_ceil sc (lowers s ! j - int_tol s);
          s1 = (if sc_fin sc (lowers s ! j) \<and> \<not> feq up (lowers s ! j) then tighten_lower j up s else s);
          down = sc_floor sc (uppers s1 ! j + int_tol s1)
      in if sc_fin sc (uppers s1 ! j) \<and> \<not> feq down (uppers s1 ! j) then tighten_upper j down s1 else s1)"

text \<open>The least and the greatest activity of a row over the box, each with the flag of an infinite term.\<close>

record 'a activity =
  min_activity :: 'a
  max_activity :: 'a
  min_infinite :: bool
  max_infinite :: bool

definition low_term :: "'a::{zero,times,ord} \<Rightarrow> 'a \<Rightarrow> 'a \<Rightarrow> 'a" where
  "low_term a lo hi = (if 0 < a then a * lo else a * hi)"

definition high_term :: "'a::{zero,times,ord} \<Rightarrow> 'a \<Rightarrow> 'a \<Rightarrow> 'a" where
  "high_term a lo hi = (if 0 < a then a * hi else a * lo)"

definition activity_step ::
    "'a::{zero,plus,times,ord} scalar \<Rightarrow> 'a list \<Rightarrow> 'a list \<Rightarrow> 'a activity \<Rightarrow> nat \<times> 'a \<Rightarrow> 'a activity" where
  "activity_step sc lo hi acc = (\<lambda>(j, a).
     let l = low_term a (lo ! j) (hi ! j);
         h = high_term a (lo ! j) (hi ! j);
         acc1 = (if sc_inf sc l then acc\<lparr>min_infinite := True\<rparr> else acc\<lparr>min_activity := min_activity acc + l\<rparr>)
     in if sc_inf sc h then acc1\<lparr>max_infinite := True\<rparr> else acc1\<lparr>max_activity := max_activity acc1 + h\<rparr>)"

definition row_activity_bounds ::
    "'a::{zero,plus,times,ord} scalar \<Rightarrow> 'a list \<Rightarrow> 'a list \<Rightarrow> (nat \<times> 'a) list \<Rightarrow> 'a activity" where
  "row_activity_bounds sc lo hi row = foldl (activity_step sc lo hi)
     \<lparr>min_activity = 0, max_activity = 0, min_infinite = False, max_infinite = False\<rparr> row"

definition row_hopeless :: "'a::{plus,minus,ord} scalar \<Rightarrow> 'a activity \<Rightarrow> 'a \<Rightarrow> 'a \<Rightarrow> bool" where
  "row_hopeless sc act rl ru \<longleftrightarrow>
     (\<not> min_infinite act \<and> sc_fin sc ru \<and> ru + feas_tol sc < min_activity act) \<or>
     (\<not> max_infinite act \<and> sc_fin sc rl \<and> max_activity act < rl - feas_tol sc)"

text \<open>The bound a row side implies on one of its columns; \<open>lo\<close> and \<open>hi\<close> are the bounds the walk of
  the row read before either side was used.\<close>

definition imply_from_upper ::
    "'a::{zero,plus,minus,times,divide,ord} scalar \<Rightarrow> 'a activity \<Rightarrow> 'a \<Rightarrow> nat \<Rightarrow> 'a \<Rightarrow> 'a \<Rightarrow> 'a \<Rightarrow>
     bool \<times> ('a, 'z) node_state_scheme \<Rightarrow> bool \<times> ('a, 'z) node_state_scheme" where
  "imply_from_upper sc act ru j a lo hi = (\<lambda>(changed, s).
     let own = low_term a lo hi in
     if \<not> min_infinite act \<and> sc_fin sc ru \<and> \<not> sc_inf sc own then
       let implied = (ru - (min_activity act - own)) div a in
       if 0 < a \<and> implied < hi - move_tol sc then (True, tighten_upper j implied s)
       else if a < 0 \<and> lo + move_tol sc < implied then (True, tighten_lower j implied s)
       else (changed, s)
     else (changed, s))"

definition imply_from_lower ::
    "'a::{zero,plus,minus,times,divide,ord} scalar \<Rightarrow> 'a activity \<Rightarrow> 'a \<Rightarrow> nat \<Rightarrow> 'a \<Rightarrow> 'a \<Rightarrow> 'a \<Rightarrow>
     bool \<times> ('a, 'z) node_state_scheme \<Rightarrow> bool \<times> ('a, 'z) node_state_scheme" where
  "imply_from_lower sc act rl j a lo hi = (\<lambda>(changed, s).
     let own = high_term a lo hi in
     if \<not> max_infinite act \<and> sc_fin sc rl \<and> \<not> sc_inf sc own then
       let implied = (rl - (max_activity act - own)) div a in
       if 0 < a \<and> lo + move_tol sc < implied then (True, tighten_lower j implied s)
       else if a < 0 \<and> implied < hi - move_tol sc then (True, tighten_upper j implied s)
       else (changed, s)
     else (changed, s))"

definition propagate_entry ::
    "'a::{zero,plus,minus,times,divide,ord} scalar \<Rightarrow> 'a activity \<Rightarrow> nat \<Rightarrow> nat \<times> 'a \<Rightarrow>
     bool \<times> bool \<times> ('a, 'z) node_state_scheme \<Rightarrow> bool \<times> bool \<times> ('a, 'z) node_state_scheme" where
  "propagate_entry sc act i = (\<lambda>(j, a) (ok, changed, s).
     if \<not> ok \<or> feq a 0 then (ok, changed, s)
     else
       let lo = lowers s ! j; hi = uppers s ! j;
           (changed1, s1) = imply_from_lower sc act (row_lower (working s) ! i) j a lo hi
             (imply_from_upper sc act (row_upper (working s) ! i) j a lo hi (changed, s));
           s2 = (if col_type (working s1) ! j = kInteger then round_column sc j s1 else s1)
       in (\<not> collapsed sc j s2, changed1, s2))"

definition propagate_row ::
    "'a::{zero,plus,minus,times,divide,ord} scalar \<Rightarrow> 'a csr_view \<Rightarrow> nat \<Rightarrow>
     bool \<times> bool \<times> ('a, 'z) node_state_scheme \<Rightarrow> bool \<times> bool \<times> ('a, 'z) node_state_scheme" where
  "propagate_row sc by_row i = (\<lambda>(ok, changed, s).
     if \<not> ok then (ok, changed, s)
     else
       let row = csr_row by_row i;
           act = row_activity_bounds sc (lowers s) (uppers s) row
       in if row_hopeless sc act (row_lower (working s) ! i) (row_upper (working s) ! i) then (False, changed, s)
          else fold (propagate_entry sc act i) row (True, changed, s))"

definition sweep ::
    "'a::{zero,one,plus,minus,times,divide,ord} scalar \<Rightarrow> 'a csr_view \<Rightarrow> ('a, 'z) node_state_scheme \<Rightarrow>
     bool \<times> bool \<times> ('a, 'z) node_state_scheme" where
  "sweep sc by_row s =
     (let (ok, changed, s1) = (if store_entries (conflicts s) = [] then (True, False, s)
            else propagate_conflicts sc False s)
      in fold (propagate_row sc by_row) [0..<num_rows (working s1)] (ok, changed, s1))"

fun sweeps ::
    "nat \<Rightarrow> 'a::{zero,one,plus,minus,times,divide,ord} scalar \<Rightarrow> 'a csr_view \<Rightarrow> ('a, 'z) node_state_scheme \<Rightarrow>
     bool \<times> ('a, 'z) node_state_scheme" where
  "sweeps 0 sc by_row s = (True, s)"
| "sweeps (Suc n) sc by_row s =
     (let (ok, changed, s1) = sweep sc by_row s in
      if \<not> ok then (False, s1) else if \<not> changed then (True, s1) else sweeps n sc by_row s1)"

definition propagate ::
    "'a::{zero,one,plus,minus,times,divide,ord} scalar \<Rightarrow> ('a, 'z) node_state_scheme \<Rightarrow>
     bool \<times> ('a, 'z) node_state_scheme" where
  "propagate sc s =
     (let s1 = fold (round_column sc) (integer_columns s) (s\<lparr>conflict_pruned := False\<rparr>) in
      if list_ex (\<lambda>j. collapsed sc j s1) [0..<num_cols (working s1)] then (False, s1)
      else sweeps 3 sc (csr_build (matrix (working s))) s1)"

section \<open>The walk to the root ends\<close>

definition parents_older :: "'a tree_node list \<Rightarrow> bool" where
  "parents_older nodes \<longleftrightarrow> (\<forall>i < length nodes. node_parent (nodes ! i) < int i)"

lemma chain_root [simp]: "w < 0 \<Longrightarrow> chain nodes w = Some []"
  by (subst chain.simps) simp

lemma chain_step: "chain nodes (int i) =
    (case chain nodes (node_parent (nodes ! i)) of None \<Rightarrow> None | Some rest \<Rightarrow> Some (nodes ! i # rest))"
  by (subst chain.simps) (simp split: option.splits)

lemma chain_ends:
  assumes "parents_older nodes" "i < length nodes"
  shows "\<exists>c. chain nodes (int i) = Some c \<and> hd c = nodes ! i \<and> c \<noteq> [] \<and> set c \<subseteq> set nodes \<and> length c \<le> Suc i"
  using assms(2)
proof (induction i rule: less_induct)
  case (less i)
  let ?p = "node_parent (nodes ! i)"
  have p: "?p < int i" using assms(1) less.prems by (simp add: parents_older_def)
  show ?case
  proof (cases "?p < 0")
    case True
    then show ?thesis using less.prems by (subst chain_step) simp
  next
    case False
    then obtain k where k: "?p = int k" by (metis int_eq_iff not_less)
    then have "k < i" "k < length nodes" using p less.prems by simp_all
    from less.IH[OF this] obtain c where "chain nodes (int k) = Some c" "set c \<subseteq> set nodes" "length c \<le> Suc k" by blast
    then show ?thesis using k \<open>k < i\<close> less.prems by (subst chain_step) simp
  qed
qed

definition demo_node :: "int \<Rightarrow> rat tree_node" where
  "demo_node p = \<lparr>node_parent = p, node_change = \<lparr>dc_column = 0, dc_upper = True, dc_value = 1\<rparr>,
     node_has_change = True, node_bound = 0, node_depth = 0, node_fraction = 0, node_estimate = 0\<rparr>"

text \<open>
  C20. Entering a node terminates on every tree whose parents are older than their children, as the
  search builds them: the walk from any node reaches the root and visits at most as many nodes as were
  created up to it, beginning with the node itself.
\<close>

theorem chain_terminates:
  assumes "parents_older nodes" "i < length nodes"
  shows "\<exists>c. chain nodes (int i) = Some c \<and> hd c = nodes ! i \<and> c \<noteq> [] \<and> set c \<subseteq> set nodes \<and> length c \<le> Suc i"
  by (rule chain_ends[OF assms])

theorem chain_terminates_witness:
  "\<exists>c. chain [demo_node (- 1), demo_node 0, demo_node 0] (int 2) = Some c \<and> length c \<le> 3"
proof -
  have "parents_older [demo_node (- 1), demo_node 0, demo_node 0]"
    by (auto simp: parents_older_def demo_node_def nth_Cons split: nat.splits)
  from chain_terminates[OF this, of 2] show ?thesis by auto
qed

section \<open>Leaving restores the bounds\<close>

definition undo_model :: "'a domain_change \<Rightarrow> 'a model \<Rightarrow> 'a model" where
  "undo_model c m = (if dc_upper c then m\<lparr>col_upper := (col_upper m)[dc_column c := dc_value c]\<rparr>
     else m\<lparr>col_lower := (col_lower m)[dc_column c := dc_value c]\<rparr>)"

text \<open>The model a \<open>leave\<close> would restore.\<close>

definition base_model :: "('a, 'z) node_state_scheme \<Rightarrow> 'a model" where
  "base_model s = fold undo_model (rev (saved s)) (working s)"

lemma undo_fields [simp]:
  "working (undo c s) = undo_model c (working s)" "saved (undo c s) = saved s"
  by (simp_all add: undo_def undo_model_def set_upper_def set_lower_def)

lemma working_leave: "working (leave s) = base_model s" "saved (leave s) = []"
proof -
  have "working (fold undo cs s) = fold undo_model cs (working s)" for cs and s :: "('a, 'z) node_state_scheme"
    by (induction cs arbitrary: s) simp_all
  then show "working (leave s) = base_model s" by (simp add: leave_def base_model_def)
qed (simp add: leave_def)

lemma base_model_same: "working t = working s \<Longrightarrow> saved t = saved s \<Longrightarrow> base_model t = base_model s"
  by (simp add: base_model_def)

lemma base_model_tighten [simp]:
  "base_model (tighten_lower u v s) = base_model s" "base_model (tighten_upper u v s) = base_model s"
  by (simp_all add: base_model_def tighten_lower_def tighten_upper_def set_lower_def set_upper_def
      push_saved_def undo_model_def)

lemma base_model_touch [simp]: "base_model (touch k s) = base_model s"
  by (rule base_model_same) (simp_all add: touch_def)

lemma base_model_flags [simp]:
  "base_model (s\<lparr>conflict_pruned := b\<rparr>) = base_model s"
  "base_model (s\<lparr>conflict_tightenings := k\<rparr>) = base_model s"
  by (rule base_model_same; simp)+

section \<open>What propagation does to a state\<close>

text \<open>Propagation changes a state by a few moves only: tightening a bound, counting a use of a
  conflict, and two statistics. Whatever relation of states the moves respect, propagation respects.\<close>

locale domain_observer =
  fixes R :: "('a::{zero,one,plus,minus,times,divide,ord}, 'z) node_state_scheme \<Rightarrow> ('a, 'z) node_state_scheme \<Rightarrow> bool"
  assumes refl: "R s s"
    and trans: "R s t \<Longrightarrow> R t u \<Longrightarrow> R s u"
    and lower: "R s (tighten_lower j v s)"
    and upper: "R s (tighten_upper j v s)"
    and used: "\<not> analysing s \<Longrightarrow> R s (touch k s)"
    and flagged: "\<not> analysing s \<Longrightarrow> R s (s\<lparr>conflict_pruned := True\<rparr>)"
    and counted: "\<not> analysing s \<Longrightarrow> R s (s\<lparr>conflict_tightenings := n\<rparr>)"
begin

lemma literal: "R s (imply_literal b s)"
  by (simp add: imply_literal_def refl lower upper)

lemma conflicts_from: "R s (snd (snd (propagate_conflicts_from sc ks changed s)))"
proof (induction sc ks changed s rule: propagate_conflicts_from.induct)
  case (1 sc changed s)
  then show ?case by (simp add: refl)
next
  case (2 sc k ks changed s)
  let ?ls = "entry_literals (store_entries (conflicts s) ! k)"
  let ?v = "check_conflict ?ls (lowers s) (uppers s) (int_tol s)"
  let ?s1 = "if analysing s then s else touch k s"
  let ?b = "negation (?ls ! nat (implied ?v))"
  let ?s2 = "imply_literal ?b ?s1"
  let ?s3 = "if analysing ?s2 then ?s2 else ?s2\<lparr>conflict_tightenings := conflict_tightenings ?s2 + 1\<rparr>"
  have s1: "R s ?s1" by (simp add: refl used)
  have s2: "R s ?s2" using trans[OF s1 literal] .
  have "R ?s2 ?s3" by (simp add: refl counted)
  with s2 have s3: "R s ?s3" by (rule trans)
  have "R ?s1 (if analysing ?s1 then ?s1 else ?s1\<lparr>conflict_pruned := True\<rparr>)" by (simp add: refl flagged)
  with s1 have sp: "R s (if analysing ?s1 then ?s1 else ?s1\<lparr>conflict_pruned := True\<rparr>)" by (rule trans)
  note step = propagate_conflicts_from.simps(2) Let_def simp_thms if_True if_False snd_conv
  show ?case
  proof (cases "\<not> infeasible ?v \<and> implied ?v < 0")
    case True
    then show ?thesis using "2.IH"(1)[OF HOL.refl HOL.refl] by (simp add: Let_def)
  next
    case go: False
    show ?thesis
    proof (cases "infeasible ?v")
      case True
      then show ?thesis using sp by (simp only: step)
    next
      case fine: False
      with go have unit: "\<not> implied ?v < 0" by simp
      show ?thesis
      proof (cases "\<not> analysing ?s1 \<and> use_of_conflicts ?s1 = kUsePrune")
        case True
        then have "R ?s1 (snd (snd (propagate_conflicts_from sc ks changed ?s1)))"
          by (intro "2.IH"(2)[OF HOL.refl HOL.refl go HOL.refl fine])
        from trans[OF s1 this] True show ?thesis by (simp only: step fine unit)
      next
        case rest: False
        show ?thesis
        proof (cases "collapsed sc (lit_column ?b) ?s3")
          case True
          show ?thesis using s3 by (simp only: step fine unit rest True)
        next
          case False
          then have "R ?s3 (snd (snd (propagate_conflicts_from sc ks True ?s3)))"
            by (intro "2.IH"(3)[OF HOL.refl HOL.refl go HOL.refl fine rest HOL.refl HOL.refl HOL.refl])
          from trans[OF s3 this] show ?thesis by (simp only: step fine unit rest False)
        qed
      qed
    qed
  qed
qed

lemma conflicts_all: "R s (snd (snd (propagate_conflicts sc changed s)))"
  by (simp add: propagate_conflicts_def refl conflicts_from)

lemma rounded: "R s (round_column sc j s)"
  by (simp add: round_column_def Let_def refl lower upper trans[OF lower upper])

lemma implied_bound:
  "R (snd cs) (snd (imply_from_upper sc act ru j a lo hi cs))"
  "R (snd cs) (snd (imply_from_lower sc act rl j a lo hi cs))"
  by (simp_all add: imply_from_upper_def imply_from_lower_def Let_def refl lower upper split: prod.split)

lemma entry: "R (snd (snd acc)) (snd (snd (propagate_entry sc act i e acc)))"
proof -
  obtain j a ok ch s where e: "e = (j, a)" "acc = (ok, ch, s)" by (metis prod_cases3 surj_pair)
  obtain ch0 s0 where r0: "imply_from_upper sc act (row_upper (working s) ! i) j a (lowers s ! j) (uppers s ! j) (ch, s) = (ch0, s0)"
    by fastforce
  obtain ch1 s1 where r: "imply_from_lower sc act (row_lower (working s) ! i) j a (lowers s ! j) (uppers s ! j) (ch0, s0) = (ch1, s1)"
    by fastforce
  have "R s s0" "R s0 s1" using implied_bound(1)[of "(ch, s)"] implied_bound(2)[of "(ch0, s0)"] r0 r
    by (metis snd_conv)+
  then have "R s s1" by (rule trans)
  then have "R s (if col_type (working s1) ! j = kInteger then round_column sc j s1 else s1)"
    by (auto intro: trans rounded)
  then show ?thesis by (simp add: e propagate_entry_def Let_def r0 r refl)
qed

lemma folded:
  "(\<And>x acc. R (snd (snd acc)) (snd (snd (f x acc)))) \<Longrightarrow> R (snd (snd acc)) (snd (snd (fold f xs acc)))"
proof (induction xs arbitrary: acc)
  case (Cons x xs)
  then show ?case using trans[OF Cons.prems[of acc x]] by simp
qed (simp add: refl)

lemma row: "R (snd (snd acc)) (snd (snd (propagate_row sc by_row i acc)))"
proof -
  obtain ok ch s where acc: "acc = (ok, ch, s)" by (metis prod_cases3)
  show ?thesis
    using folded[of "propagate_entry sc (row_activity_bounds sc (lowers s) (uppers s) (csr_row by_row i)) i" "(True, ch, s)"]
    by (simp add: acc propagate_row_def Let_def refl entry)
qed

lemma swept: "R s (snd (snd (sweep sc by_row s)))"
proof -
  obtain ok ch s1 where p: "(if store_entries (conflicts s) = [] then (True, False, s)
      else propagate_conflicts sc False s) = (ok, ch, s1)" by (metis prod_cases3)
  have "R s s1" using p refl conflicts_all[where s = s and sc = sc and changed = False] by (cases "store_entries (conflicts s) = []") auto
  moreover have "R s1 (snd (snd (fold (propagate_row sc by_row) [0..<num_rows (working s1)] (ok, ch, s1))))"
    using folded[of "propagate_row sc by_row" "(ok, ch, s1)"] row by simp
  ultimately have "R s (snd (snd (fold (propagate_row sc by_row) [0..<num_rows (working s1)] (ok, ch, s1))))"
    by (rule trans)
  then show ?thesis by (simp add: sweep_def p)
qed

lemma all_sweeps: "R s (snd (sweeps n sc by_row s))"
proof (induction n sc by_row s rule: sweeps.induct)
  case (2 n sc by_row s)
  obtain ok ch s1 where p: "sweep sc by_row s = (ok, ch, s1)" by (metis prod_cases3)
  have "R s s1" using p swept by (metis snd_conv)
  then show ?case using "2.IH"[OF p[symmetric]] p by (auto simp: intro: trans)
qed (simp add: refl)

lemma fold_one: "(\<And>x t. R t (f x t)) \<Longrightarrow> R s (fold f xs s)"
proof (induction xs arbitrary: s)
  case (Cons x xs)
  then show ?case using trans[OF Cons.prems[of s x]] by simp
qed (simp add: refl)

lemma propagated: "R (s\<lparr>conflict_pruned := False\<rparr>) (snd (propagate sc s))"
proof -
  let ?s1 = "fold (round_column sc) (integer_columns s) (s\<lparr>conflict_pruned := False\<rparr>)"
  have "R (s\<lparr>conflict_pruned := False\<rparr>) ?s1" by (rule fold_one) (rule rounded)
  then show ?thesis by (auto simp: propagate_def Let_def intro: trans all_sweeps)
qed

end

interpretation restoring: domain_observer "\<lambda>s t. base_model t = base_model s"
  by unfold_locales simp_all

lemma base_model_fold_id: "(\<And>x t. base_model (f x t) = base_model t) \<Longrightarrow> base_model (fold f xs s) = base_model s"
  by (induction xs arbitrary: s) simp_all

lemma base_model_propagate [simp]: "base_model (snd (propagate sc s)) = base_model s"
  using restoring.propagated[of _ s] by simp

text \<open>Everything beside the bounds, the trail and the statistics of the conflicts stays; while a conflict
  is analysed nothing but the bounds and the trail moves.\<close>

definition domain_frame :: "('a, 'z) node_state_scheme \<Rightarrow> ('a, 'z) node_state_scheme \<Rightarrow> bool" where
  "domain_frame s t \<longleftrightarrow> node_state.more t = node_state.more s \<and> int_tol t = int_tol s \<and>
     integer_columns t = integer_columns s \<and> use_of_conflicts t = use_of_conflicts s \<and>
     analysing t = analysing s \<and> nodes_explored t = nodes_explored s \<and>
     (analysing s \<longrightarrow> t = s\<lparr>working := working t, saved := saved t\<rparr>)"

interpretation framed: domain_observer domain_frame
  by unfold_locales
     (simp_all add: domain_frame_def tighten_lower_def tighten_upper_def set_lower_def set_upper_def push_saved_def touch_def,
      metis (no_types, lifting) node_state.update_convs(1,2) node_state.fold_congs(1,2) node_state.surjective)

text \<open>A move is recorded whenever the bound changed: a comparison that finds the two equal has left
  the bound as it was.\<close>

lemma base_model_apply_change:
  fixes s :: "('a::ord, 'z) node_state_scheme"
  assumes "\<forall>a b :: 'a. a < b \<longrightarrow> \<not> feq a b \<and> \<not> feq b a"
  shows "base_model (apply_change c s) = base_model s"
  using assms
  by (cases "dc_column c < length (uppers s)"; cases "dc_column c < length (lowers s)")
     (auto simp: apply_change_def Let_def base_model_def set_upper_def set_lower_def push_saved_def
       undo_model_def cmin_def cmax_def list_update_beyond)

lemma base_model_enter_strict:
  fixes s :: "('a::ord, 'z) node_state_scheme"
  assumes "\<forall>a b :: 'a. a < b \<longrightarrow> \<not> feq a b \<and> \<not> feq b a"
  shows "base_model (enter visited s) = working s"
proof -
  have "base_model (enter visited s) = base_model (s\<lparr>saved := []\<rparr>)"
    unfolding enter_def by (rule base_model_fold_id) (simp add: base_model_apply_change[OF assms])
  then show ?thesis by (simp add: base_model_def)
qed

lemma base_model_enter:
  fixes s :: "(double, 'z) node_state_scheme"
  shows "base_model (enter visited s) = working s"
  by (rule base_model_enter_strict) (auto simp: feq_def dless_le_not_le)

lemma base_model_enter_exact:
  fixes s :: "(xnum, 'z) node_state_scheme"
  shows "base_model (enter visited s) = working s"
proof (rule base_model_enter_strict)
  have "\<not> (a < b \<and> b \<le> a)" for a b :: xnum by (cases a; cases b) auto
  then show "\<forall>a b :: xnum. a < b \<longrightarrow> \<not> feq a b \<and> \<not> feq b a" by (auto simp: feq_def)
qed

text \<open>
  C15. The tree does not leak bounds: enter a node along any chain, propagate, let a dive or strong
  branching tighten whatever bounds it likes, and leave: the working model is the one the node was
  entered with, bit for bit, and the trail is empty.
\<close>

theorem leave_restores:
  fixes s :: "double node_state"
  shows "working (leave (fold (\<lambda>(up, u, v). if up then tighten_upper u v else tighten_lower u v) moves
      (snd (propagate sc (enter visited s))))) = working s \<and>
    saved (leave t) = []"
proof -
  have "base_model (fold (\<lambda>(up, u, v). if up then tighten_upper u v else tighten_lower u v) moves t) = base_model t" for t :: "double node_state"
    by (rule base_model_fold_id) auto
  then show ?thesis by (simp add: working_leave base_model_enter)
qed

end
