(* ===== verification/Propagation.thy ===== *)
theory Propagation
  imports NodeDomain
begin

text \<open>
  Propagation at a node loses no integer point. Stated over the exact numbers with infinities: a point
  that meets the rows, is integral where it has to be, and falsifies a literal of every stored
  conflict stays in the box, and the node is not declared infeasible.
\<close>

section \<open>Points a state admits\<close>

definition row_value :: "xnum model \<Rightarrow> (nat \<Rightarrow> rat) \<Rightarrow> nat \<Rightarrow> rat" where
  "row_value m p i = (\<Sum>(j, a)\<leftarrow>csr_row (csr_build (matrix m)) i. xval a * p j)"

text \<open>The part of the state propagation does not change.\<close>

definition static_part ::
    "(xnum, 'z) node_state_scheme \<Rightarrow> xnum model \<times> xnum conflict_literal list list \<times> xnum \<times> nat list" where
  "static_part s = ((working s)\<lparr>col_lower := [], col_upper := []\<rparr>,
     map entry_literals (store_entries (conflicts s)), int_tol s, integer_columns s)"

definition point_ok ::
    "(nat \<Rightarrow> rat) \<Rightarrow> xnum model \<times> xnum conflict_literal list list \<times> xnum \<times> nat list \<Rightarrow> bool" where
  "point_ok p = (\<lambda>(m, cs, t, ints).
     csc_ok (matrix m) \<and> nrows (matrix m) = num_rows m \<and> ncols (matrix m) = num_cols m \<and>
     (\<forall>j < num_cols m. \<forall>e \<in> set (column (matrix m) j). xfinite (snd e)) \<and>
     (\<forall>i < num_rows m. row_lower m ! i \<le> X (row_value m p i) \<and> X (row_value m p i) \<le> row_upper m ! i) \<and>
     (\<forall>j < num_cols m. col_type m ! j = kInteger \<longrightarrow> p j \<in> \<int>) \<and>
     (\<forall>j \<in> set ints. j < num_cols m \<and> p j \<in> \<int>) \<and>
     (\<forall>ls \<in> set cs. (\<exists>l \<in> set ls. \<not> lit_true (\<lambda>j. X (p j)) l) \<and>
        (\<forall>l \<in> set ls. lit_column l < num_cols m \<and> p (lit_column l) \<in> \<int> \<and> (\<exists>z. lit_value l = X (of_int z)))) \<and>
     (\<exists>q. t = X q \<and> 0 \<le> q \<and> q < 1))"

definition admits :: "(nat \<Rightarrow> rat) \<Rightarrow> (xnum, 'z) node_state_scheme \<Rightarrow> bool" where
  "admits p s \<longleftrightarrow> point_ok p (static_part s) \<and> length (lowers s) = num_cols (working s) \<and>
     length (uppers s) = num_cols (working s) \<and>
     (\<forall>j < num_cols (working s). lowers s ! j \<le> X (p j) \<and> X (p j) \<le> uppers s ! j)"

text \<open>A step that keeps a point and the static part.\<close>

definition keeps :: "(nat \<Rightarrow> rat) \<Rightarrow> (xnum, 'z) node_state_scheme \<Rightarrow> (xnum, 'z) node_state_scheme \<Rightarrow> bool" where
  "keeps p s t \<longleftrightarrow> admits p t \<and> static_part t = static_part s"

lemma keeps_trans: "keeps p s t \<Longrightarrow> keeps p t u \<Longrightarrow> keeps p s u"
  by (simp add: keeps_def)

lemma keeps_refl: "admits p s \<Longrightarrow> keeps p s s"
  by (simp add: keeps_def)

lemma keeps_admits: "keeps p s t \<Longrightarrow> admits p t"
  by (simp add: keeps_def)

lemma static_eqs:
  assumes "static_part t = static_part s"
  shows "num_cols (working t) = num_cols (working s)" "num_rows (working t) = num_rows (working s)"
    "matrix (working t) = matrix (working s)" "row_lower (working t) = row_lower (working s)"
    "row_upper (working t) = row_upper (working s)" "col_type (working t) = col_type (working s)"
    "integer_columns t = integer_columns s" "int_tol t = int_tol s"
    "length (store_entries (conflicts t)) = length (store_entries (conflicts s))"
proof -
  have w: "(working t)\<lparr>col_lower := [], col_upper := []\<rparr> = (working s)\<lparr>col_lower := [], col_upper := []\<rparr>"
    and m: "map entry_literals (store_entries (conflicts t)) = map entry_literals (store_entries (conflicts s))"
    and "integer_columns t = integer_columns s" "int_tol t = int_tol s"
    using assms by (simp_all add: static_part_def)
  then show "integer_columns t = integer_columns s" "int_tol t = int_tol s" by simp_all
  have f: "f (working t) = f (working s)"
    if "\<And>m. f (m\<lparr>col_lower := [], col_upper := []\<rparr>) = f m" for f :: "xnum model \<Rightarrow> 'c"
    using that w by metis
  show "num_cols (working t) = num_cols (working s)" by (rule f) (simp add: num_cols_def)
  show "num_rows (working t) = num_rows (working s)" by (rule f) (simp add: num_rows_def)
  show "matrix (working t) = matrix (working s)" by (rule f) simp
  show "row_lower (working t) = row_lower (working s)" by (rule f) simp
  show "row_upper (working t) = row_upper (working s)" by (rule f) simp
  show "col_type (working t) = col_type (working s)" by (rule f) simp
  show "length (store_entries (conflicts t)) = length (store_entries (conflicts s))"
    using arg_cong[OF m, of length] by simp
qed

lemma keeps_lower:
  assumes "admits p s" "v \<le> X (p u)"
  shows "keeps p s (tighten_lower u v s)"
  using assms
  by (cases "u < length (lowers s)")
     (auto simp: keeps_def admits_def tighten_lower_def set_lower_def push_saved_def static_part_def
      num_cols_def nth_list_update list_update_beyond)

lemma keeps_upper:
  assumes "admits p s" "X (p u) \<le> v"
  shows "keeps p s (tighten_upper u v s)"
  using assms
  by (cases "u < length (uppers s)")
     (auto simp: keeps_def admits_def tighten_upper_def set_upper_def push_saved_def static_part_def
      num_cols_def nth_list_update list_update_beyond)

lemma keeps_touch: "admits p s \<Longrightarrow> keeps p s (touch k s)"
proof -
  have "map entry_literals (xs[k := e]) = map entry_literals xs" if "entry_literals e = entry_literals (xs ! k)"
    for xs :: "xnum conflict_entry list" and e
    by (simp add: map_update that) (metis list_update_beyond list_update_id map_update not_le_imp_less nth_map)
  then show "admits p s \<Longrightarrow> keeps p s (touch k s)"
    by (simp add: keeps_def admits_def touch_def static_part_def)
qed

lemma keeps_flags:
  "admits p s \<Longrightarrow> keeps p s (s\<lparr>conflict_pruned := b\<rparr>)"
  "admits p s \<Longrightarrow> keeps p s (s\<lparr>conflict_tightenings := k\<rparr>)"
  by (simp_all add: keeps_def admits_def static_part_def)

lemma admits_box: "admits p s \<Longrightarrow> j < num_cols (working s) \<Longrightarrow> lowers s ! j \<le> X (p j) \<and> X (p j) \<le> uppers s ! j"
  by (simp add: admits_def)

lemma cleared_bounds [simp]:
  "num_rows (m\<lparr>col_lower := l, col_upper := u\<rparr>) = num_rows m"
  "num_cols (m\<lparr>col_lower := l, col_upper := u\<rparr>) = num_cols m"
  "row_value (m\<lparr>col_lower := l, col_upper := u\<rparr>) p i = row_value m p i"
  by (simp_all add: num_rows_def num_cols_def row_value_def)

lemma admits_conflict:
  assumes "admits p s" "k < length (store_entries (conflicts s))"
  shows "(\<exists>l \<in> set (entry_literals (store_entries (conflicts s) ! k)). \<not> lit_true (\<lambda>j. X (p j)) l) \<and>
    (\<forall>l \<in> set (entry_literals (store_entries (conflicts s) ! k)). lit_column l < num_cols (working s) \<and>
      p (lit_column l) \<in> \<int> \<and> (\<exists>z. lit_value l = X (of_int z)))"
proof -
  have "\<forall>e \<in> set (store_entries (conflicts s)). (\<exists>l \<in> set (entry_literals e). \<not> lit_true (\<lambda>j. X (p j)) l) \<and>
      (\<forall>l \<in> set (entry_literals e). lit_column l < num_cols (working s) \<and> p (lit_column l) \<in> \<int> \<and>
        (\<exists>z. lit_value l = X (of_int z)))"
    using assms(1) by (simp add: admits_def point_ok_def static_part_def)
  then show ?thesis using nth_mem[OF assms(2)] by (rule bspec)
qed

lemma admits_row:
  "admits p s \<Longrightarrow> i < num_rows (working s) \<Longrightarrow>
    row_lower (working s) ! i \<le> X (row_value (working s) p i) \<and> X (row_value (working s) p i) \<le> row_upper (working s) ! i"
  by (simp add: admits_def point_ok_def static_part_def)

lemma admits_integral:
  "admits p s \<Longrightarrow> j < num_cols (working s) \<Longrightarrow> col_type (working s) ! j = kInteger \<Longrightarrow> p j \<in> \<int>"
  "admits p s \<Longrightarrow> j \<in> set (integer_columns s) \<Longrightarrow> j < num_cols (working s) \<and> p j \<in> \<int>"
  by (simp_all add: admits_def point_ok_def static_part_def)

lemma admits_matrix:
  "admits p s \<Longrightarrow> csc_ok (matrix (working s)) \<and> nrows (matrix (working s)) = num_rows (working s) \<and>
    ncols (matrix (working s)) = num_cols (working s) \<and>
    (\<forall>j < num_cols (working s). \<forall>e \<in> set (column (matrix (working s)) j). xfinite (snd e))"
  by (simp add: admits_def point_ok_def static_part_def)

lemma admits_tol: "admits p s \<Longrightarrow> \<exists>q. int_tol s = X q \<and> 0 \<le> q \<and> q < 1"
  by (simp add: admits_def point_ok_def static_part_def)

lemma admits_point: "admits p s \<Longrightarrow> point_ok p (static_part s)"
  by (simp add: admits_def)

lemma not_collapsed:
  assumes "admits p s" "j < num_cols (working s)" "0 \<le> ft"
  shows "\<not> collapsed (exact_scalar ft mt) j s"
  using admits_box[OF assms(1,2)] assms(3)
  by (cases "uppers s ! j"; cases "lowers s ! j") (auto simp: collapsed_def exact_scalar_def plus_xnum_def)

section \<open>Rounding an integer column\<close>

lemma keeps_round:
  assumes a: "admits p s" and j: "j < num_cols (working s)" and int: "p j \<in> \<int>"
  shows "keeps p s (round_column (exact_scalar ft mt) j s)"
proof -
  obtain t where t: "int_tol s = X t" "0 \<le> t" using admits_tol[OF a] by blast
  obtain z where z: "p j = of_int z" using int by (auto elim: Ints_cases)
  define s1 where "s1 = (if sc_fin (exact_scalar ft mt) (lowers s ! j) \<and>
      \<not> feq (sc_ceil (exact_scalar ft mt) (lowers s ! j - int_tol s)) (lowers s ! j)
    then tighten_lower j (sc_ceil (exact_scalar ft mt) (lowers s ! j - int_tol s)) s else s)"
  have k1: "keeps p s s1"
  proof (cases "lowers s ! j")
    case (X l)
    then have "l \<le> of_int z" using admits_box[OF a j] z by simp
    then have "\<lceil>l - t\<rceil> \<le> z" using t by (simp add: ceiling_le_iff)
    then have "xceil (lowers s ! j - int_tol s) \<le> X (p j)" using X t z by simp
    then show ?thesis using keeps_lower[OF a] keeps_refl[OF a] by (simp add: s1_def exact_scalar_def)
  qed (use keeps_refl[OF a] in \<open>simp_all add: s1_def exact_scalar_def\<close>)
  then have a1: "admits p s1" and it: "int_tol s1 = X t" and j1: "j < num_cols (working s1)"
    using static_eqs[of s1 s] t j k1 by (auto simp: keeps_def)
  define s2 where "s2 = (if sc_fin (exact_scalar ft mt) (uppers s1 ! j) \<and>
      \<not> feq (sc_floor (exact_scalar ft mt) (uppers s1 ! j + int_tol s1)) (uppers s1 ! j)
    then tighten_upper j (sc_floor (exact_scalar ft mt) (uppers s1 ! j + int_tol s1)) s1 else s1)"
  have k2: "keeps p s1 s2"
  proof (cases "uppers s1 ! j")
    case (X l)
    then have "of_int z \<le> l" using admits_box[OF a1 j1] z by simp
    then have "z \<le> \<lfloor>l + t\<rfloor>" using t by (simp add: le_floor_iff)
    then have "X (p j) \<le> xfloor (uppers s1 ! j + int_tol s1)" using X it z by simp
    then show ?thesis using keeps_upper[OF a1] keeps_refl[OF a1] by (simp add: s2_def exact_scalar_def)
  qed (use keeps_refl[OF a1] in \<open>simp_all add: s2_def exact_scalar_def\<close>)
  have "round_column (exact_scalar ft mt) j s = s2" by (simp add: round_column_def Let_def s1_def s2_def)
  then show ?thesis using keeps_trans[OF k1 k2] by simp
qed

section \<open>The conflicts\<close>

lemma X_Ints_le: "p \<in> \<int> \<Longrightarrow> b = X (of_int z) \<Longrightarrow> t < 1 \<Longrightarrow> X p \<le> b + X t \<Longrightarrow> X p \<le> b"
  "p \<in> \<int> \<Longrightarrow> b = X (of_int z) \<Longrightarrow> t < 1 \<Longrightarrow> b - X t \<le> X p \<Longrightarrow> b \<le> X p"
  using Ints_less_add_one[of p "of_int z"] Ints_less_add_one[of "of_int z" p] by auto

lemma holds_true:
  assumes "literal_holds l lo hi (X t)" "t < 1" "lo ! lit_column l \<le> X (p (lit_column l))"
    "X (p (lit_column l)) \<le> hi ! lit_column l" "p (lit_column l) \<in> \<int>" "lit_value l = X (of_int z)"
  shows "lit_true (\<lambda>j. X (p j)) l"
  using assms X_Ints_le[OF assms(5,6,2)] xle_trans unfolding literal_holds_def lit_true_def by metis

lemma negation_falsified:
  assumes "\<not> lit_true (\<lambda>j. X (p j)) l" "p (lit_column l) \<in> \<int>" "lit_value l = X (of_int z)"
  shows "if lit_upper (negation l) then X (p (lit_column l)) \<le> lit_value (negation l)
    else lit_value (negation l) \<le> X (p (lit_column l))"
  using assms Ints_less_add_one[of "of_int z + 1" "p (lit_column l)"] Ints_less_add_one[of "p (lit_column l)" "of_int z - 1"]
  by (auto simp: lit_true_def negation_def X_consts not_le)

lemma lit_column_negation [simp]: "lit_column (negation l) = lit_column l"
  by (simp add: negation_def)

lemma conflict_verdict_admits:
  assumes a: "admits p s" and k: "k < length (store_entries (conflicts s))"
    and ls: "ls = entry_literals (store_entries (conflicts s) ! k)"
    and v: "v = check_conflict ls (lowers s) (uppers s) (int_tol s)"
  shows "\<not> infeasible v" and "0 \<le> implied v \<Longrightarrow> nat (implied v) < length ls \<and>
    lit_column (ls ! nat (implied v)) < num_cols (working s) \<and> keeps p s (imply_literal (negation (ls ! nat (implied v))) s)"
proof -
  have c: "(\<exists>l \<in> set ls. \<not> lit_true (\<lambda>j. X (p j)) l) \<and> (\<forall>l \<in> set ls. lit_column l < num_cols (working s) \<and>
      p (lit_column l) \<in> \<int> \<and> (\<exists>z. lit_value l = X (of_int z)))"
    using admits_conflict[OF a k] ls by simp
  obtain t where t: "int_tol s = X t" "t < 1" using admits_tol[OF a] by blast
  have h: "lit_true (\<lambda>j. X (p j)) l" if "l \<in> set ls" "literal_holds l (lowers s) (uppers s) (int_tol s)" for l
    using holds_true[of l "lowers s" "uppers s" t p] that c admits_box[OF a] t by metis
  show "\<not> infeasible v" using c h unfolding v check_conflict_def check_from_infeasible by blast
  assume "0 \<le> implied v"
  from check_from_implied[OF _ this, of "lowers s" "uppers s" "int_tol s" 0 "- 1" ls]
  obtain i where i: "i < length ls" "implied v = int i"
    and others: "\<forall>q < length ls. q \<noteq> i \<longrightarrow> literal_holds (ls ! q) (lowers s) (uppers s) (int_tol s)"
    using \<open>0 \<le> implied v\<close> by (auto simp: v check_conflict_def)
  obtain q where q: "q < length ls" "\<not> lit_true (\<lambda>j. X (p j)) (ls ! q)" using c by (auto simp: in_set_conv_nth)
  then have qi: "q = i" using others h[of "ls ! q"] by force
  let ?l = "ls ! i"
  obtain z where z: "lit_column ?l < num_cols (working s)" "p (lit_column ?l) \<in> \<int>" "lit_value ?l = X (of_int z)"
    using c i nth_mem by blast
  have "keeps p s (imply_literal (negation ?l) s)"
    using negation_falsified[OF q(2)[unfolded qi] z(2,3)] keeps_lower[OF a] keeps_upper[OF a] keeps_refl[OF a]
    by (auto simp: imply_literal_def split: if_splits)
  then show "nat (implied v) < length ls \<and>
    lit_column (ls ! nat (implied v)) < num_cols (working s) \<and> keeps p s (imply_literal (negation (ls ! nat (implied v))) s)"
    using i z by simp
qed

lemma keeps_conflicts_from:
  assumes "0 \<le> ft" "admits p s" "\<forall>k \<in> set ks. k < length (store_entries (conflicts s))"
    "propagate_conflicts_from (exact_scalar ft mt) ks ch s = (ok, ch', s')"
  shows "ok \<and> keeps p s s'"
  using assms(2-)
proof (induction ks arbitrary: ch s)
  case Nil
  then show ?case by (simp add: keeps_refl)
next
  case (Cons k ks)
  let ?ls = "entry_literals (store_entries (conflicts s) ! k)"
  let ?v = "check_conflict ?ls (lowers s) (uppers s) (int_tol s)"
  note v = conflict_verdict_admits[OF Cons.prems(1) _ refl refl, of k]
  have k: "k < length (store_entries (conflicts s))" using Cons.prems(2) by simp
  have go: "ok \<and> keeps p s s'" if "keeps p s u" "propagate_conflicts_from (exact_scalar ft mt) ks c u = (ok, ch', s')" for u c
  proof -
    have "\<forall>k \<in> set ks. k < length (store_entries (conflicts u))"
      using Cons.prems(2) that(1) static_eqs(9)[of u s] by (simp add: keeps_def)
    from Cons.IH[OF keeps_admits[OF that(1)] this that(2)] show ?thesis using keeps_trans[OF that(1)] by blast
  qed
  define s1 where "s1 = (if analysing s then s else touch k s)"
  have k1: "keeps p s s1" using keeps_refl[OF Cons.prems(1)] keeps_touch[OF Cons.prems(1)] by (simp add: s1_def)
  show ?case
  proof (cases "implied ?v < 0")
    case True
    then have "propagate_conflicts_from (exact_scalar ft mt) ks ch s = (ok, ch', s')"
      using Cons.prems(3) v(1)[OF k] by (simp add: Let_def)
    then show ?thesis using go[OF keeps_refl[OF Cons.prems(1)]] by blast
  next
    case False
    let ?b = "negation (?ls ! nat (implied ?v))"
    define s2 where "s2 = imply_literal ?b s1"
    define s3 where "s3 = (if analysing s2 then s2 else s2\<lparr>conflict_tightenings := conflict_tightenings s2 + 1\<rparr>)"
    have e: "lowers s1 = lowers s" "uppers s1 = uppers s" "int_tol s1 = int_tol s"
      "entry_literals (store_entries (conflicts s1) ! k) = ?ls"
      using k by (simp_all add: s1_def touch_def)
    have "k < length (store_entries (conflicts s1))" using k k1 static_eqs(9)[of s1 s] by (simp add: keeps_def)
    from conflict_verdict_admits(2)[OF keeps_admits[OF k1] this refl refl]
    have b: "lit_column (?ls ! nat (implied ?v)) < num_cols (working s1)" "keeps p s1 s2"
      unfolding e s2_def using False by simp_all
    have k3: "keeps p s1 s3"
      using b(2) keeps_trans[OF b(2) keeps_flags(2)[OF keeps_admits[OF b(2)]]] by (simp add: s3_def)
    have nc: "\<not> collapsed (exact_scalar ft mt) (lit_column ?b) s3"
      using b(1) static_eqs(1)[of s3 s1] k3 keeps_admits[OF k3]
      by (intro not_collapsed[OF _ _ assms(1)]) (simp_all add: keeps_def)
    have "propagate_conflicts_from (exact_scalar ft mt) ks c u = (ok, ch', s') \<Longrightarrow> keeps p s u \<Longrightarrow> ?thesis" for c u
      using go by blast
    moreover have "propagate_conflicts_from (exact_scalar ft mt) ks ch s1 = (ok, ch', s') \<or>
        propagate_conflicts_from (exact_scalar ft mt) ks True s3 = (ok, ch', s')"
      using Cons.prems(3) v(1)[OF k] False nc unfolding s3_def s2_def s1_def
      by (simp add: Let_def split: if_splits)
    ultimately show ?thesis using k1 keeps_trans[OF k1 k3] by blast
  qed
qed

lemma keeps_conflicts:
  assumes "0 \<le> ft" "admits p s" "propagate_conflicts (exact_scalar ft mt) ch s = (ok, ch', s')"
  shows "ok \<and> keeps p s s'"
  using assms keeps_conflicts_from[OF assms(1,2), of "[0..<length (store_entries (conflicts s))]" mt ch ok ch' s']
    keeps_refl[OF assms(2)]
  by (auto simp: propagate_conflicts_def split: if_splits)

section \<open>Activity bounds\<close>

lemma low_term_cases:
  assumes "lo \<le> X q" "X q \<le> hi"
  shows "xinf (low_term (X a) lo hi) \<or> xnan (low_term (X a) lo hi) \<or> (\<exists>l. low_term (X a) lo hi = X l \<and> l \<le> a * q)"
proof (cases a "0 :: rat" rule: linorder_cases)
  case less
  then show ?thesis using assms by (cases hi) (auto simp: low_term_def X_consts)
next
  case greater
  then show ?thesis using assms by (cases lo) (auto simp: low_term_def X_consts)
next
  case equal
  then show ?thesis using assms by (cases hi) (auto simp: low_term_def X_consts)
qed

lemma high_term_cases:
  assumes "lo \<le> X q" "X q \<le> hi"
  shows "xinf (high_term (X a) lo hi) \<or> xnan (high_term (X a) lo hi) \<or> (\<exists>h. high_term (X a) lo hi = X h \<and> a * q \<le> h)"
proof (cases a "0 :: rat" rule: linorder_cases)
  case less
  then show ?thesis using assms by (cases lo) (auto simp: high_term_def X_consts)
next
  case greater
  then show ?thesis using assms by (cases hi) (auto simp: high_term_def X_consts)
next
  case equal
  then show ?thesis using assms by (cases lo) (auto simp: high_term_def X_consts)
qed

text \<open>What the accumulated activity says when no term was infinite: undefined, or the exact sum of
  terms that bound the entries.\<close>

definition low_ok :: "xnum list \<Rightarrow> xnum list \<Rightarrow> (nat \<Rightarrow> rat) \<Rightarrow> (nat \<times> xnum) list \<Rightarrow> xnum \<Rightarrow> bool" where
  "low_ok lo hi p row v \<longleftrightarrow> v = XNaN \<or>
     (v = X (\<Sum>(j, a)\<leftarrow>row. xval (low_term a (lo ! j) (hi ! j))) \<and>
      (\<forall>(j, a) \<in> set row. \<exists>l. low_term a (lo ! j) (hi ! j) = X l \<and> l \<le> xval a * p j))"

definition high_ok :: "xnum list \<Rightarrow> xnum list \<Rightarrow> (nat \<Rightarrow> rat) \<Rightarrow> (nat \<times> xnum) list \<Rightarrow> xnum \<Rightarrow> bool" where
  "high_ok lo hi p row v \<longleftrightarrow> v = XNaN \<or>
     (v = X (\<Sum>(j, a)\<leftarrow>row. xval (high_term a (lo ! j) (hi ! j))) \<and>
      (\<forall>(j, a) \<in> set row. \<exists>h. high_term a (lo ! j) (hi ! j) = X h \<and> xval a * p j \<le> h))"

lemma nan_plus [simp]: "XNaN + x = XNaN" "x + XNaN = XNaN"
  by (cases x; simp add: plus_xnum_def)+

lemma activity_fold:
  assumes "\<forall>e \<in> set row. xfinite (snd e) \<and> lo ! fst e \<le> X (p (fst e)) \<and> X (p (fst e)) \<le> hi ! fst e"
  shows "(min_infinite (row_activity_bounds (exact_scalar ft mt) lo hi row) \<or>
      low_ok lo hi p row (min_activity (row_activity_bounds (exact_scalar ft mt) lo hi row))) \<and>
    (max_infinite (row_activity_bounds (exact_scalar ft mt) lo hi row) \<or>
      high_ok lo hi p row (max_activity (row_activity_bounds (exact_scalar ft mt) lo hi row)))"
  using assms
proof (induction row rule: rev_induct)
  case Nil
  then show ?case by (simp add: row_activity_bounds_def low_ok_def high_ok_def X_consts)
next
  case (snoc e row)
  obtain j a where e: "e = (j, X a)" using snoc.prems by (cases e; cases "snd e") auto
  let ?sc = "exact_scalar ft mt"
  let ?acc = "row_activity_bounds ?sc lo hi row"
  have acc: "row_activity_bounds ?sc lo hi (row @ [e]) = activity_step ?sc lo hi ?acc (j, X a)"
    by (simp add: row_activity_bounds_def e)
  have IH: "min_infinite ?acc \<or> low_ok lo hi p row (min_activity ?acc)"
    "max_infinite ?acc \<or> high_ok lo hi p row (max_activity ?acc)"
    using snoc by simp_all
  have b: "lo ! j \<le> X (p j)" "X (p j) \<le> hi ! j" using snoc.prems e by auto
  have inf: "sc_inf ?sc = xinf" by (simp add: exact_scalar_def)
  have "min_infinite (activity_step ?sc lo hi ?acc (j, X a)) \<or>
      low_ok lo hi p (row @ [e]) (min_activity (activity_step ?sc lo hi ?acc (j, X a)))"
    using low_term_cases[OF b, of a] IH(1)
    by (cases "low_term (X a) (lo ! j) (hi ! j)")
       (auto simp: activity_step_def Let_def inf low_ok_def e)
  moreover have "max_infinite (activity_step ?sc lo hi ?acc (j, X a)) \<or>
      high_ok lo hi p (row @ [e]) (max_activity (activity_step ?sc lo hi ?acc (j, X a)))"
    using high_term_cases[OF b, of a] IH(2)
    by (cases "high_term (X a) (lo ! j) (hi ! j)")
       (auto simp: activity_step_def Let_def inf high_ok_def e)
  ultimately show ?case unfolding acc by blast
qed

text \<open>Dropping one term of a list from two ordered sums.\<close>

lemma sum_list_drop_one:
  fixes f g :: "'b \<Rightarrow> rat"
  assumes "\<forall>e \<in> set xs. f e \<le> g e" "e \<in> set xs"
  shows "sum_list (map f xs) - f e \<le> sum_list (map g xs) - g e"
proof -
  obtain as bs where xs: "xs = as @ e # bs" using split_list[OF assms(2)] by blast
  have "sum_list (map f as) \<le> sum_list (map g as)" "sum_list (map f bs) \<le> sum_list (map g bs)"
    using assms(1) unfolding xs by (auto intro: sum_list_mono)
  then show ?thesis unfolding xs by simp
qed

section \<open>One row\<close>

text \<open>What a row, its activity and a point have to do with each other; \<open>ru\<close> and \<open>rl\<close> are its sides.\<close>

lemma not_hopeless:
  assumes "0 \<le> ft" and v: "v = (\<Sum>(j, a)\<leftarrow>row. xval a * p j)" and s: "rl \<le> X v" "X v \<le> ru"
    and "min_infinite act \<or> low_ok lo hi p row (min_activity act)"
    and "max_infinite act \<or> high_ok lo hi p row (max_activity act)"
  shows "\<not> row_hopeless (exact_scalar ft mt) act rl ru"
proof -
  have "\<not> ru + X ft < min_activity act" if m: "low_ok lo hi p row (min_activity act)"
  proof (cases "min_activity act = XNaN")
    case False
    then have "min_activity act = X (\<Sum>(j, a)\<leftarrow>row. xval (low_term a (lo ! j) (hi ! j)))"
      "\<forall>(j, a) \<in> set row. xval (low_term a (lo ! j) (hi ! j)) \<le> xval a * p j"
      using m by (auto simp: low_ok_def)
    moreover from this(2) have "(\<Sum>(j, a)\<leftarrow>row. xval (low_term a (lo ! j) (hi ! j))) \<le> v"
      unfolding v by (intro sum_list_mono) auto
    ultimately show ?thesis using s(2) assms(1) by (cases ru) (auto simp: plus_xnum_def)
  qed simp
  moreover have "\<not> max_activity act < rl - X ft" if m: "high_ok lo hi p row (max_activity act)"
  proof (cases "max_activity act = XNaN")
    case False
    then have "max_activity act = X (\<Sum>(j, a)\<leftarrow>row. xval (high_term a (lo ! j) (hi ! j)))"
      "\<forall>(j, a) \<in> set row. xval a * p j \<le> xval (high_term a (lo ! j) (hi ! j))"
      using m by (auto simp: high_ok_def)
    moreover from this(2) have "v \<le> (\<Sum>(j, a)\<leftarrow>row. xval (high_term a (lo ! j) (hi ! j)))"
      unfolding v by (intro sum_list_mono) auto
    ultimately show ?thesis using s(1) assms(1) by (cases rl) (auto simp: minus_xnum_def)
  qed simp
  ultimately show ?thesis using assms(5,6) by (auto simp: row_hopeless_def exact_scalar_def)
qed

text \<open>The bound implied by a side holds at the point.\<close>

lemma implied_from_upper:
  assumes v: "X (\<Sum>(j, a)\<leftarrow>row. xval a * p j) \<le> X u" and e: "(j, X a) \<in> set row" "a \<noteq> 0"
    and m: "low_ok lo hi p row m" "m \<noteq> XNaN"
  shows "\<exists>r. (X u - (m - low_term (X a) (lo ! j) (hi ! j))) div X a = X r \<and>
    (0 < a \<longrightarrow> p j \<le> r) \<and> (a < 0 \<longrightarrow> r \<le> p j)"
proof -
  let ?f = "\<lambda>(j, a). xval (low_term a (lo ! j) (hi ! j))" and ?g = "\<lambda>(j, a). xval a * p j"
  have eq: "m = X (sum_list (map ?f row))" and t: "\<forall>(j, a) \<in> set row. \<exists>l. low_term a (lo ! j) (hi ! j) = X l \<and> l \<le> xval a * p j"
    using m by (auto simp: low_ok_def)
  obtain l where l: "low_term (X a) (lo ! j) (hi ! j) = X l" using t e by fastforce
  have le: "\<forall>e \<in> set row. ?f e \<le> ?g e" using t by fastforce
  from sum_list_drop_one[OF le e(1)] have "sum_list (map ?f row) - l \<le> u - a * p j"
    using v l by simp
  then have b: "a * p j \<le> u - (sum_list (map ?f row) - l)" by simp
  have "(X u - (m - low_term (X a) (lo ! j) (hi ! j))) div X a = X ((u - (sum_list (map ?f row) - l)) / a)"
    using e(2) by (simp add: eq l)
  moreover have "0 < a \<longrightarrow> p j \<le> (u - (sum_list (map ?f row) - l)) / a" using b by (simp add: pos_le_divide_eq mult.commute)
  moreover have "a < 0 \<longrightarrow> (u - (sum_list (map ?f row) - l)) / a \<le> p j" using b by (simp add: neg_divide_le_eq mult.commute)
  ultimately show ?thesis by blast
qed

lemma implied_from_lower:
  assumes v: "X u \<le> X (\<Sum>(j, a)\<leftarrow>row. xval a * p j)" and e: "(j, X a) \<in> set row" "a \<noteq> 0"
    and m: "high_ok lo hi p row m" "m \<noteq> XNaN"
  shows "\<exists>r. (X u - (m - high_term (X a) (lo ! j) (hi ! j))) div X a = X r \<and>
    (0 < a \<longrightarrow> r \<le> p j) \<and> (a < 0 \<longrightarrow> p j \<le> r)"
proof -
  let ?f = "\<lambda>(j, a). xval (high_term a (lo ! j) (hi ! j))" and ?g = "\<lambda>(j, a). xval a * p j"
  have eq: "m = X (sum_list (map ?f row))" and t: "\<forall>(j, a) \<in> set row. \<exists>l. high_term a (lo ! j) (hi ! j) = X l \<and> xval a * p j \<le> l"
    using m by (auto simp: high_ok_def)
  obtain l where l: "high_term (X a) (lo ! j) (hi ! j) = X l" using t e by fastforce
  have le: "\<forall>e \<in> set row. ?g e \<le> ?f e" using t by fastforce
  from sum_list_drop_one[OF le e(1)] have "u - a * p j \<le> sum_list (map ?f row) - l"
    using v l by simp
  then have b: "u - (sum_list (map ?f row) - l) \<le> a * p j" by simp
  have "(X u - (m - high_term (X a) (lo ! j) (hi ! j))) div X a = X ((u - (sum_list (map ?f row) - l)) / a)"
    using e(2) by (simp add: eq l)
  moreover have "0 < a \<longrightarrow> (u - (sum_list (map ?f row) - l)) / a \<le> p j" using b by (simp add: pos_divide_le_eq mult.commute)
  moreover have "a < 0 \<longrightarrow> p j \<le> (u - (sum_list (map ?f row) - l)) / a" using b by (simp add: neg_le_divide_eq mult.commute)
  ultimately show ?thesis by blast
qed

definition same_elsewhere :: "nat \<Rightarrow> (xnum, 'z) node_state_scheme \<Rightarrow> (xnum, 'z) node_state_scheme \<Rightarrow> bool" where
  "same_elsewhere j s t \<longleftrightarrow> (\<forall>k. k \<noteq> j \<longrightarrow> lowers t ! k = lowers s ! k \<and> uppers t ! k = uppers s ! k)"

lemma same_elsewhere_refl [simp]: "same_elsewhere j s s"
  by (simp add: same_elsewhere_def)

lemma same_elsewhere_trans: "same_elsewhere j s t \<Longrightarrow> same_elsewhere j t u \<Longrightarrow> same_elsewhere j s u"
  by (simp add: same_elsewhere_def)

lemma same_elsewhere_tighten [simp]:
  "same_elsewhere j s (tighten_lower j v s)" "same_elsewhere j s (tighten_upper j v s)"
  by (auto simp: same_elsewhere_def tighten_lower_def tighten_upper_def set_lower_def set_upper_def push_saved_def)

lemma same_elsewhere_if:
  "same_elsewhere j r s \<Longrightarrow> same_elsewhere j r (if b then tighten_lower j v s else s)"
  "same_elsewhere j r s \<Longrightarrow> same_elsewhere j r (if b then tighten_upper j v s else s)"
  by (simp_all add: same_elsewhere_trans[OF _ same_elsewhere_tighten(1)] same_elsewhere_trans[OF _ same_elsewhere_tighten(2)])

lemma same_elsewhere_round: "same_elsewhere j s (round_column sc j s)"
  unfolding round_column_def Let_def by (intro same_elsewhere_if same_elsewhere_refl)

lemma nan_ops [simp]: "XNaN - x = XNaN" "x - XNaN = XNaN" "XNaN div x = XNaN"
  by (cases x; simp add: minus_xnum_def divide_xnum_def xdiv_def)+

lemma keeps_imply_upper:
  assumes a: "admits p s" and m: "min_infinite act \<or> low_ok lo hi p row (min_activity act)"
    and e: "(j, X a) \<in> set row" "a \<noteq> 0" and v: "X (\<Sum>(j, a)\<leftarrow>row. xval a * p j) \<le> ru"
    and r: "imply_from_upper (exact_scalar ft mt) act ru j (X a) (lo ! j) (hi ! j) (ch, s) = (ch', s')"
  shows "keeps p s s' \<and> same_elsewhere j s s'"
proof (cases "\<not> min_infinite act \<and> xfinite ru \<and> min_activity act \<noteq> XNaN")
  case False
  then have "(ch', s') = (ch, s)"
    using r by (auto simp: imply_from_upper_def Let_def exact_scalar_def split: if_splits)
  then show ?thesis using keeps_refl[OF a] by simp
next
  case True
  then obtain u where u: "ru = X u" by (cases ru) auto
  obtain q where q: "(ru - (min_activity act - low_term (X a) (lo ! j) (hi ! j))) div X a = X q"
    "0 < a \<longrightarrow> p j \<le> q" "a < 0 \<longrightarrow> q \<le> p j"
    using implied_from_upper[OF v[unfolded u] e _, of lo hi "min_activity act"] m True u by blast
  have "s' = s \<or> 0 < a \<and> s' = tighten_upper j (X q) s \<or> a < 0 \<and> s' = tighten_lower j (X q) s"
    using r unfolding imply_from_upper_def Let_def prod.case q(1) by (simp add: X_consts split: if_splits)
  then show ?thesis
  proof (elim disjE conjE)
    assume "s' = s"
    then show ?thesis using keeps_refl[OF a] by simp
  next
    assume "0 < a" "s' = tighten_upper j (X q) s"
    then show ?thesis using keeps_upper[OF a] q(2) by simp
  next
    assume "a < 0" "s' = tighten_lower j (X q) s"
    then show ?thesis using keeps_lower[OF a] q(3) by simp
  qed
qed

lemma keeps_imply_lower:
  assumes a: "admits p s" and m: "max_infinite act \<or> high_ok lo hi p row (max_activity act)"
    and e: "(j, X a) \<in> set row" "a \<noteq> 0" and v: "rl \<le> X (\<Sum>(j, a)\<leftarrow>row. xval a * p j)"
    and r: "imply_from_lower (exact_scalar ft mt) act rl j (X a) (lo ! j) (hi ! j) (ch, s) = (ch', s')"
  shows "keeps p s s' \<and> same_elsewhere j s s'"
proof (cases "\<not> max_infinite act \<and> xfinite rl \<and> max_activity act \<noteq> XNaN")
  case False
  then have "(ch', s') = (ch, s)"
    using r by (auto simp: imply_from_lower_def Let_def exact_scalar_def split: if_splits)
  then show ?thesis using keeps_refl[OF a] by simp
next
  case True
  then obtain u where u: "rl = X u" by (cases rl) auto
  obtain q where q: "(rl - (max_activity act - high_term (X a) (lo ! j) (hi ! j))) div X a = X q"
    "0 < a \<longrightarrow> q \<le> p j" "a < 0 \<longrightarrow> p j \<le> q"
    using implied_from_lower[OF v[unfolded u] e _, of lo hi "max_activity act"] m True u by blast
  have "s' = s \<or> 0 < a \<and> s' = tighten_lower j (X q) s \<or> a < 0 \<and> s' = tighten_upper j (X q) s"
    using r unfolding imply_from_lower_def Let_def prod.case q(1) by (simp add: X_consts split: if_splits)
  then show ?thesis
  proof (elim disjE conjE)
    assume "s' = s"
    then show ?thesis using keeps_refl[OF a] by simp
  next
    assume "0 < a" "s' = tighten_lower j (X q) s"
    then show ?thesis using keeps_lower[OF a] q(2) by simp
  next
    assume "a < 0" "s' = tighten_upper j (X q) s"
    then show ?thesis using keeps_upper[OF a] q(3) by simp
  qed
qed

text \<open>The facts of a row the walk relies on.\<close>

definition row_facts ::
    "(nat \<Rightarrow> rat) \<Rightarrow> xnum activity \<Rightarrow> xnum list \<Rightarrow> xnum list \<Rightarrow> (nat \<times> xnum) list \<Rightarrow> nat \<Rightarrow> (xnum, 'z) node_state_scheme \<Rightarrow> bool" where
  "row_facts p act lo hi row i s \<longleftrightarrow>
     (min_infinite act \<or> low_ok lo hi p row (min_activity act)) \<and>
     (max_infinite act \<or> high_ok lo hi p row (max_activity act)) \<and>
     (\<forall>e \<in> set row. xfinite (snd e) \<and> fst e < num_cols (working s)) \<and>
     row_lower (working s) ! i \<le> X (\<Sum>(j, a)\<leftarrow>row. xval a * p j) \<and>
     X (\<Sum>(j, a)\<leftarrow>row. xval a * p j) \<le> row_upper (working s) ! i"

lemma keeps_entry:
  assumes ft: "0 \<le> ft" and a: "admits p s" and f: "row_facts p act lo hi row i s" and e: "(j, c) \<in> set row"
    and b: "lowers s ! j = lo ! j" "uppers s ! j = hi ! j"
    and r: "propagate_entry (exact_scalar ft mt) act i (j, c) (True, ch, s) = (ok, ch', s')"
  shows "ok \<and> keeps p s s' \<and> same_elsewhere j s s'"
proof -
  let ?sc = "exact_scalar ft mt"
  obtain k where c: "c = X k" using f e by (cases c) (auto simp: row_facts_def)
  have j: "j < num_cols (working s)" using f e by (auto simp: row_facts_def)
  show ?thesis
  proof (cases "k = 0")
    case True
    then show ?thesis using r keeps_refl[OF a] c by (simp add: propagate_entry_def X_consts)
  next
    case k: False
    obtain ch1 s1 where r1: "imply_from_upper ?sc act (row_upper (working s) ! i) j c (lo ! j) (hi ! j) (ch, s) = (ch1, s1)"
      by fastforce
    obtain ch2 s2 where r2: "imply_from_lower ?sc act (row_lower (working s) ! i) j c (lo ! j) (hi ! j) (ch1, s1) = (ch2, s2)"
      by fastforce
    define s3 where "s3 = (if col_type (working s2) ! j = kInteger then round_column ?sc j s2 else s2)"
    have k1: "keeps p s s1" "same_elsewhere j s s1"
      using keeps_imply_upper[OF a _ e[unfolded c] k _ r1[unfolded c]] f by (auto simp: row_facts_def)
    have k2: "keeps p s1 s2" "same_elsewhere j s1 s2"
      using keeps_imply_lower[OF keeps_admits[OF k1(1)] _ e[unfolded c] k _ r2[unfolded c]] f by (auto simp: row_facts_def)
    have k12: "keeps p s s2" by (rule keeps_trans[OF k1(1) k2(1)])
    have j2: "j < num_cols (working s2)" using j k12 static_eqs(1)[of s2 s] by (simp add: keeps_def)
    have k3: "keeps p s2 s3" "same_elsewhere j s2 s3"
      using keeps_round[OF keeps_admits[OF k12] j2] admits_integral(1)[OF keeps_admits[OF k12] j2]
        keeps_refl[OF keeps_admits[OF k12]] same_elsewhere_round by (auto simp: s3_def)
    have j3: "j < num_cols (working s3)" using j2 k3(1) static_eqs(1)[of s3 s2] by (simp add: keeps_def)
    have "\<not> collapsed ?sc j s3" by (rule not_collapsed[OF keeps_admits[OF k3(1)] j3 ft])
    moreover have "(ok, ch', s') = (\<not> collapsed ?sc j s3, ch2, s3)"
      using r k r2[unfolded r1[symmetric] b[symmetric] c]
      by (auto simp: propagate_entry_def Let_def c s3_def X_consts)
    ultimately show ?thesis
      using keeps_trans[OF k12 k3(1)] same_elsewhere_trans[OF same_elsewhere_trans[OF k1(2) k2(2)] k3(2)] by simp
  qed
qed

lemma keeps_entries:
  assumes ft: "0 \<le> ft" and a: "admits p s" and f: "row_facts p act lo hi row i s" and e: "set es \<subseteq> set row"
    and d: "distinct (map fst es)"
    and b: "\<forall>e \<in> set es. lowers s ! fst e = lo ! fst e \<and> uppers s ! fst e = hi ! fst e"
    and r: "fold (propagate_entry (exact_scalar ft mt) act i) es (True, ch, s) = (ok, ch', s')"
  shows "ok \<and> keeps p s s'"
  using a f e d b r
proof (induction es arbitrary: ch s)
  case Nil
  then show ?case by (simp add: keeps_refl)
next
  case (Cons e es)
  obtain j c where e: "e = (j, c)" by fastforce
  obtain ok1 ch1 s1 where r1: "propagate_entry (exact_scalar ft mt) act i (j, c) (True, ch, s) = (ok1, ch1, s1)"
    by (metis prod_cases3)
  have k: "ok1" "keeps p s s1" "same_elsewhere j s s1"
    using keeps_entry[OF ft Cons.prems(1,2) _ _ _ r1] Cons.prems(3,5) e by auto
  have f1: "row_facts p act lo hi row i s1"
    using Cons.prems(2) static_eqs[of s1 s] k(2) by (simp add: row_facts_def keeps_def)
  have b1: "\<forall>e \<in> set es. lowers s1 ! fst e = lo ! fst e \<and> uppers s1 ! fst e = hi ! fst e"
  proof
    fix g assume g: "g \<in> set es"
    then have "fst g \<noteq> j" using Cons.prems(4) e by (force simp: image_iff)
    then show "lowers s1 ! fst g = lo ! fst g \<and> uppers s1 ! fst g = hi ! fst g"
      using k(3) Cons.prems(5) g by (simp add: same_elsewhere_def)
  qed
  have "fold (propagate_entry (exact_scalar ft mt) act i) es (True, ch1, s1) = (ok, ch', s')"
    using Cons.prems(6) r1 k(1) e by simp
  from Cons.IH[OF keeps_admits[OF k(2)] f1 _ _ b1 this] Cons.prems(3,4) show ?case
    using keeps_trans[OF k(2)] by auto
qed

lemma keeps_row:
  assumes ft: "0 \<le> ft" and a: "admits p s" and i: "i < num_rows (working s)"
    and by_row: "by_row = csr_build (matrix (working s))"
    and r: "propagate_row (exact_scalar ft mt) by_row i (True, ch, s) = (ok, ch', s')"
  shows "ok \<and> keeps p s s'"
proof -
  let ?row = "csr_row by_row i" and ?sc = "exact_scalar ft mt"
  let ?act = "row_activity_bounds ?sc (lowers s) (uppers s) ?row"
  note m = admits_matrix[OF a]
  have "?row = column (transpose_matrix (matrix (working s))) i"
    by (simp add: by_row csr_row_def csr_build_def column_def Let_def)
  then have re: "?row = row_entries (matrix (working s)) i" using m i by (simp add: transpose_column)
  have d: "distinct (map fst ?row)"
    using sorted_row_entries[of "matrix (working s)" i] m unfolding re by (simp add: strict_sorted_iff)
  have en: "\<forall>e \<in> set ?row. xfinite (snd e) \<and> fst e < num_cols (working s)"
  proof
    fix e assume "e \<in> set ?row"
    then obtain j c where "e = (j, c)" "j < ncols (matrix (working s))" "(i, c) \<in> set (column (matrix (working s)) j)"
      unfolding re by (metis set_row_entries surj_pair)
    then show "xfinite (snd e) \<and> fst e < num_cols (working s)" using m by force
  qed
  have v: "row_value (working s) p i = (\<Sum>(j, a)\<leftarrow>?row. xval a * p j)" by (simp add: row_value_def by_row)
  have act: "(min_infinite ?act \<or> low_ok (lowers s) (uppers s) p ?row (min_activity ?act)) \<and>
      (max_infinite ?act \<or> high_ok (lowers s) (uppers s) p ?row (max_activity ?act))"
    by (rule activity_fold) (use en admits_box[OF a] in blast)
  have f: "row_facts p ?act (lowers s) (uppers s) ?row i s"
    using act en admits_row[OF a i] unfolding row_facts_def v by blast
  have "\<not> row_hopeless ?sc ?act (row_lower (working s) ! i) (row_upper (working s) ! i)"
    by (rule not_hopeless[OF ft refl]) (use f in \<open>auto simp: row_facts_def\<close>)
  then have "fold (propagate_entry ?sc ?act i) ?row (True, ch, s) = (ok, ch', s')"
    using r by (simp add: propagate_row_def Let_def)
  from keeps_entries[OF ft a f order_refl d _ this] show ?thesis by simp
qed

lemma keeps_rows:
  assumes ft: "0 \<le> ft" and "admits p s" "set is \<subseteq> {..<num_rows (working s)}"
    "by_row = csr_build (matrix (working s))"
    "fold (propagate_row (exact_scalar ft mt) by_row) is (True, ch, s) = (ok, ch', s')"
  shows "ok \<and> keeps p s s'"
  using assms(2-)
proof (induction "is" arbitrary: ch s)
  case Nil
  then show ?case by (simp add: keeps_refl)
next
  case (Cons i "is")
  obtain ok1 ch1 s1 where r1: "propagate_row (exact_scalar ft mt) by_row i (True, ch, s) = (ok1, ch1, s1)"
    by (metis prod_cases3)
  have k: "ok1" "keeps p s s1" using keeps_row[OF ft Cons.prems(1) _ Cons.prems(3) r1] Cons.prems(2) by auto
  have e: "num_rows (working s1) = num_rows (working s)" "matrix (working s1) = matrix (working s)"
    using k(2) static_eqs[of s1 s] by (simp_all add: keeps_def)
  have "fold (propagate_row (exact_scalar ft mt) by_row) is (True, ch1, s1) = (ok, ch', s')"
    using Cons.prems(4) r1 k(1) by simp
  from Cons.IH[OF keeps_admits[OF k(2)] _ _ this] Cons.prems(2,3) e show ?case
    using keeps_trans[OF k(2)] by auto
qed

section \<open>The whole propagation\<close>

lemma keeps_sweep:
  assumes ft: "0 \<le> ft" and a: "admits p s" and b: "by_row = csr_build (matrix (working s))"
    and r: "sweep (exact_scalar ft mt) by_row s = (ok, ch, s')"
  shows "ok \<and> keeps p s s'"
proof -
  obtain ok1 ch1 s1 where c: "(if store_entries (conflicts s) = [] then (True, False, s)
      else propagate_conflicts (exact_scalar ft mt) False s) = (ok1, ch1, s1)" by (metis prod_cases3)
  then have k: "ok1" "keeps p s s1"
    using keeps_conflicts[OF ft a, of mt False ok1 ch1 s1] keeps_refl[OF a] by (auto split: if_splits)
  have e: "matrix (working s1) = matrix (working s)" using k(2) static_eqs[of s1 s] by (simp add: keeps_def)
  have "fold (propagate_row (exact_scalar ft mt) by_row) [0..<num_rows (working s1)] (True, ch1, s1) = (ok, ch, s')"
    using r c k(1) by (simp add: sweep_def Let_def)
  from keeps_rows[OF ft keeps_admits[OF k(2)] _ _ this] e b show ?thesis
    using keeps_trans[OF k(2)] by (simp add: lessThan_atLeast0)
qed

lemma keeps_sweeps:
  assumes ft: "0 \<le> ft" and "admits p s" "by_row = csr_build (matrix (working s))"
    "sweeps n (exact_scalar ft mt) by_row s = (ok, s')"
  shows "ok \<and> keeps p s s'"
  using assms(2-)
proof (induction n arbitrary: s)
  case 0
  then show ?case by (simp add: keeps_refl)
next
  case (Suc n)
  obtain ok1 ch1 s1 where r1: "sweep (exact_scalar ft mt) by_row s = (ok1, ch1, s1)" by (metis prod_cases3)
  have k: "ok1" "keeps p s s1" using keeps_sweep[OF ft Suc.prems(1,2) r1] by auto
  have e: "by_row = csr_build (matrix (working s1))" using k(2) static_eqs[of s1 s] Suc.prems(2) by (simp add: keeps_def)
  show ?case
  proof (cases ch1)
    case True
    then have "sweeps n (exact_scalar ft mt) by_row s1 = (ok, s')" using Suc.prems(3) r1 k(1) by (simp add: Let_def)
    from Suc.IH[OF keeps_admits[OF k(2)] e this] show ?thesis using keeps_trans[OF k(2)] by blast
  next
    case False
    then show ?thesis using Suc.prems(3) r1 k by (simp add: Let_def)
  qed
qed

lemma keeps_round_columns:
  assumes "admits p s" "set js \<subseteq> set (integer_columns s)"
  shows "keeps p s (fold (round_column (exact_scalar ft mt)) js s)"
  using assms
proof (induction js arbitrary: s)
  case (Cons j js)
  have k: "keeps p s (round_column (exact_scalar ft mt) j s)"
    using keeps_round[OF Cons.prems(1)] admits_integral(2)[OF Cons.prems(1)] Cons.prems(2) by simp
  have "set js \<subseteq> set (integer_columns (round_column (exact_scalar ft mt) j s))"
    using k static_eqs(7)[of "round_column (exact_scalar ft mt) j s" s] Cons.prems(2) by (simp add: keeps_def)
  from Cons.IH[OF keeps_admits[OF k] this] show ?case using keeps_trans[OF k] by simp
qed (simp add: keeps_refl)

lemma propagate_keeps:
  assumes ft: "0 \<le> ft" and a: "admits p s" and r: "propagate (exact_scalar ft mt) s = (ok, s')"
  shows "ok \<and> keeps p s s'"
proof -
  let ?s0 = "s\<lparr>conflict_pruned := False\<rparr>" and ?sc = "exact_scalar ft mt"
  let ?s1 = "fold (round_column ?sc) (integer_columns s) ?s0"
  have k0: "keeps p s ?s0" by (rule keeps_flags(1)[OF a])
  have k1: "keeps p s ?s1"
    using keeps_trans[OF k0 keeps_round_columns[OF keeps_admits[OF k0], of "integer_columns s" ft mt]] by simp
  have "\<not> list_ex (\<lambda>j. collapsed ?sc j ?s1) [0..<num_cols (working ?s1)]"
    using not_collapsed[OF keeps_admits[OF k1] _ ft] by (auto simp: list_ex_iff)
  then have "sweeps 3 ?sc (csr_build (matrix (working s))) ?s1 = (ok, s')"
    using r by (simp add: propagate_def Let_def split: if_splits)
  moreover have "csr_build (matrix (working s)) = csr_build (matrix (working ?s1))"
    using k1 static_eqs(3)[of ?s1 s] by (simp add: keeps_def)
  ultimately show ?thesis using keeps_sweeps[OF ft keeps_admits[OF k1]] keeps_trans[OF k1] by blast
qed

text \<open>
  C14. Propagation loses no integer point. Over exact numbers with infinite bounds, non-negative
  tolerances and an integrality tolerance below one: if a point lies in the box of a state, meets every
  row, is integral on the integer columns and falsifies a literal of every stored conflict, then the
  propagation does not declare the node infeasible, the point still lies in the box afterwards, and
  everything but the bounds, the trail and the counters is unchanged.
\<close>

theorem propagate_keeps_points:
  assumes "0 \<le> ft" "admits p s"
  shows "fst (propagate (exact_scalar ft mt) s) \<and> admits p (snd (propagate (exact_scalar ft mt) s)) \<and>
    static_part (snd (propagate (exact_scalar ft mt) s)) = static_part s"
  using propagate_keeps[OF assms, of mt "fst (propagate (exact_scalar ft mt) s)" "snd (propagate (exact_scalar ft mt) s)"]
  by (simp add: keeps_def)

text \<open>\<open>2 x \<le> 5\<close> over one integer column without an upper bound, with a learned conflict \<open>x \<ge> 3\<close>.\<close>

definition demo_state :: "xnum node_state" where
  "demo_state = \<lparr>working = empty_model\<lparr>col_cost := [X 0], col_lower := [X 0], col_upper := [XPInf],
       col_type := [kInteger], row_lower := [XMInf], row_upper := [X 5],
       matrix := empty_sparse\<lparr>nrows := 1, ncols := 1, frozen := True, column_starts := [0, 1],
         row_indices := [0], vals := [X 2]\<rparr>\<rparr>,
     saved = [], conflicts = snd (store_add [ConflictLiteral 0 False (X 3)] kLp 0 (empty_store 5)),
     use_of_conflicts = kUsePropagate, analysing = False, conflict_pruned = False, nodes_explored = 1,
     conflict_tightenings = 0, int_tol = X (1 / 10), integer_columns = [0]\<rparr>"

lemma demo_state_admits: "admits (\<lambda>_. 2) demo_state"
proof -
  let ?m = "matrix (working demo_state)"
  have col: "column ?m 0 = [(0, X 2)]"
    by (simp add: demo_state_def column_def segment_def empty_model_def empty_sparse_def)
  have ok: "csc_ok ?m"
    by (simp add: csc_ok_def demo_state_def empty_model_def empty_sparse_def stores_def column_def segment_def)
  have dims: "nrows ?m = 1" "ncols ?m = 1" by (simp_all add: demo_state_def empty_model_def empty_sparse_def)
  have "csr_row (csr_build ?m) 0 = column (transpose_matrix ?m) 0"
    by (simp add: csr_row_def csr_build_def column_def Let_def)
  also have "\<dots> = [(0, X 2)]"
    using transpose_column[OF ok, of 0] dims col by (simp add: row_entries_def walk_columns_def)
  finally have v: "row_value (working demo_state) (\<lambda>_. 2) 0 = 4" by (simp add: row_value_def)
  have f: "num_cols (working demo_state) = 1" "num_rows (working demo_state) = 1"
    "lowers demo_state = [X 0]" "uppers demo_state = [XPInf]" "row_lower (working demo_state) = [XMInf]"
    "row_upper (working demo_state) = [X 5]" "int_tol demo_state = X (1 / 10)" "integer_columns demo_state = [0]"
    "map entry_literals (store_entries (conflicts demo_state)) = [[ConflictLiteral 0 False (X 3)]]"
    by (simp_all add: demo_state_def empty_model_def num_cols_def num_rows_def store_add_def empty_store_def)
  have l: "lit_value (ConflictLiteral 0 False (X 3)) = X (of_int 3)" by simp
  have t: "\<exists>q. X (1 / 10) = X q \<and> 0 \<le> q \<and> q < 1" by (rule exI[of _ "1 / 10"]) simp
  show ?thesis
    unfolding admits_def static_part_def point_ok_def prod.case f cleared_bounds
    using ok dims col v f l t by (auto simp: lit_true_def)
qed

theorem propagate_keeps_points_witness:
  "fst (propagate (exact_scalar (1 / 100) (1 / 100)) demo_state) \<and>
   admits (\<lambda>_. 2) (snd (propagate (exact_scalar (1 / 100) (1 / 100)) demo_state))"
  using propagate_keeps_points[of "1 / 100" "\<lambda>_. 2" demo_state "1 / 100"] demo_state_admits by simp

end
