(* ===== verification/Branching.thy ===== *)
theory Branching
  imports Propagation SolutionPool
begin

text \<open>
  The decisions of the tree search (\<open>src/mip/branch_and_bound_node.cpp\<close> and the inline parts of
  \<open>branch_and_bound_internal.hpp\<close>): the objective a node and an incumbent are compared in, pruning,
  offering an incumbent, choosing the next node and the branching column, pseudocosts, rounding, the
  dive, and the two ways a node is split. The relaxation solver and \<open>std::llround\<close> are parameters.
\<close>

section \<open>The state of the search\<close>

datatype node_selection = kHybrid | kBestBound | kDepthFirst | kBestEstimate

fun node_selection_string :: "node_selection \<Rightarrow> string" where
  "node_selection_string kHybrid = ''hybrid''"
| "node_selection_string kBestBound = ''best-bound''"
| "node_selection_string kDepthFirst = ''depth-first''"
| "node_selection_string kBestEstimate = ''best-estimate''"

record 'a search = "'a node_state" +
  original :: "'a model"
  quadratic :: bool
  search_sense :: 'a
  gap_target :: 'a
  relative_target :: 'a
  objective_step :: 'a
  tree :: "'a tree_node list"
  open_nodes :: "nat list"
  selection :: node_selection
  selected_by_dive :: int
  selected_by_policy :: int
  deepest_node :: int
  pseudo_down_sum :: "'a list"
  pseudo_up_sum :: "'a list"
  pseudo_down_count :: "int list"
  pseudo_up_count :: "int list"
  have_incumbent :: bool
  incumbent_internal :: 'a
  incumbent_x :: "'a list"
  plan_pool :: "'a solution_pool"
  pool_gap :: 'a
  pool_complete :: bool

text \<open>What the search reads of a solved relaxation.\<close>

record 'a relaxation =
  rx_status :: solve_status
  rx_value :: "'a list"
  rx_dual_bound :: 'a

section \<open>The objective\<close>

definition fractionality :: "'a::{minus,abs} scalar \<Rightarrow> 'a \<Rightarrow> 'a" where
  "fractionality sc v = \<bar>v - sc_round sc v\<bar>"

definition internal_objective :: "('a::{zero,one,plus,minus,times,divide}, 'z) search_scheme \<Rightarrow> 'a list \<Rightarrow> 'a" where
  "internal_objective s x =
     (if \<not> quadratic s then
        fold (\<lambda>j v. v + search_sense s * col_cost (original s) ! j * x ! j) [0..<num_cols (original s)] 0
      else search_sense s * (evaluate_objective (original s) x - objective_offset (original s)))"

definition reported :: "('a::{plus,times}, 'z) search_scheme \<Rightarrow> 'a \<Rightarrow> 'a" where
  "reported s internal = search_sense s * internal + objective_offset (original s)"

definition round_up_to_step :: "'a::{zero,minus,times,divide,abs,ord} scalar \<Rightarrow> 'a \<Rightarrow> 'a \<Rightarrow> 'a" where
  "round_up_to_step sc b step =
     (if step \<le> 0 \<or> \<not> sc_isfinite sc b then b
      else
        let units = b div step;
            slack = cmax (sc_lit sc (1 / 10 ^ 6)) (sc_lit sc (1 / 10 ^ 9) * \<bar>units\<bar>)
        in step * sc_ceil sc (units - slack))"

definition integral_bound :: "'a::{zero,minus,times,divide,abs,ord} scalar \<Rightarrow> ('a, 'z) search_scheme \<Rightarrow> 'a \<Rightarrow> 'a" where
  "integral_bound sc s b = round_up_to_step sc b (objective_step s)"

definition tree_pool_cutoff :: "'a::{one,plus,times,abs,ord} scalar \<Rightarrow> ('a, 'z) search_scheme \<Rightarrow> 'a" where
  "tree_pool_cutoff sc s =
     (let c = pool_cutoff (sc_infinity sc) (plan_pool s) in
      if have_incumbent s \<and> pool_gap s < sc_lit sc (10 ^ 300) then
        cmin c (incumbent_internal s + pool_gap s * cmax 1 \<bar>incumbent_internal s\<bar>)
      else c)"

definition can_prune ::
    "'a::{zero,one,plus,minus,times,divide,abs,ord} scalar \<Rightarrow> ('a, 'z) search_scheme \<Rightarrow> 'a \<Rightarrow> bool" where
  "can_prune sc s b =
     (let margin = (if quadratic s then cmax (gap_target s) (sc_lit sc (1 / 10 ^ 10)) else gap_target s);
          rounded = integral_bound sc s b
      in if pool_complete s then tree_pool_cutoff sc s - margin \<le> rounded
         else if \<not> have_incumbent s then False
         else incumbent_internal s - margin \<le> rounded)"

section \<open>Incumbents\<close>

definition below_bound :: "'a::{minus,ord} scalar \<Rightarrow> 'a \<Rightarrow> 'a \<Rightarrow> bool" where
  "below_bound sc l v \<longleftrightarrow> sc_fin sc l \<and> v < l - feas_tol sc"

definition above_bound :: "'a::{plus,ord} scalar \<Rightarrow> 'a \<Rightarrow> 'a \<Rightarrow> bool" where
  "above_bound sc u v \<longleftrightarrow> sc_fin sc u \<and> u + feas_tol sc < v"

definition candidate_ok ::
    "'a::{zero,one,plus,minus,times,abs,ord} scalar \<Rightarrow> ('a, 'z) search_scheme \<Rightarrow> 'a list \<Rightarrow> bool" where
  "candidate_ok sc s x \<longleftrightarrow>
     (let m = original s;
          act = (if 0 < num_rows m then multiply (matrix m) x 1 else [])
      in \<not> list_ex (\<lambda>j. int_tol s < fractionality sc (x ! j)) (integer_columns s) \<and>
         \<not> list_ex (\<lambda>j. below_bound sc (col_lower m ! j) (x ! j) \<or> above_bound sc (col_upper m ! j) (x ! j))
             [0..<num_cols m] \<and>
         \<not> list_ex (\<lambda>i. below_bound sc (row_lower m ! i) (act ! i) \<or> above_bound sc (row_upper m ! i) (act ! i))
             [0..<num_rows m])"

definition offer_incumbent ::
    "'a::{zero,one,plus,minus,times,divide,abs,ord} scalar \<Rightarrow> ('a \<Rightarrow> int) \<Rightarrow> 'a list \<Rightarrow> ('a, 'z) search_scheme \<Rightarrow>
     bool \<times> ('a, 'z) search_scheme" where
  "offer_incumbent sc llround x s =
     (if \<not> candidate_ok sc s x then (False, s)
      else
        let v = internal_objective s x;
            s1 = s\<lparr>plan_pool := pool_offer llround v x (plan_pool s)\<rparr>
        in if have_incumbent s1 \<and> incumbent_internal s1 - sc_lit sc (1 / 10 ^ 12) \<le> v then (False, s1)
           else (True, s1\<lparr>have_incumbent := True, incumbent_internal := v, incumbent_x := x\<rparr>))"

definition rounded_candidate ::
    "'a::{plus,minus,ord} scalar \<Rightarrow> ('a, 'z) search_scheme \<Rightarrow> 'a list \<Rightarrow> 'a list" where
  "rounded_candidate sc s x =
     fold (\<lambda>u c.
       let v = sc_round sc (c ! u);
           v1 = (if sc_fin sc (col_lower (original s) ! u)
                 then cmax v (sc_ceil sc (col_lower (original s) ! u - sc_lit sc (1 / 10 ^ 9))) else v);
           v2 = (if sc_fin sc (col_upper (original s) ! u)
                 then cmin v1 (sc_floor sc (col_upper (original s) ! u + sc_lit sc (1 / 10 ^ 9))) else v1)
       in c[u := v2]) (integer_columns s) x"

definition try_rounding ::
    "'a::{zero,one,plus,minus,times,divide,abs,ord} scalar \<Rightarrow> ('a \<Rightarrow> int) \<Rightarrow> 'a list \<Rightarrow> ('a, 'z) search_scheme \<Rightarrow>
     ('a, 'z) search_scheme" where
  "try_rounding sc llround x s =
     (if integer_columns s = [] then s else snd (offer_incumbent sc llround (rounded_candidate sc s x) s))"

section \<open>Choosing a node\<close>

definition smallest_step ::
    "('a::ord tree_node \<Rightarrow> 'a) \<Rightarrow> 'a tree_node list \<Rightarrow> nat list \<Rightarrow> nat \<Rightarrow> 'a \<times> nat \<times> nat \<Rightarrow> 'a \<times> nat \<times> nat" where
  "smallest_step key nodes opn k = (\<lambda>(best, best_node, pick).
     let candidate = opn ! k; v = key (nodes ! candidate) in
     if v < best \<or> feq v best \<and> candidate < best_node then (v, candidate, k) else (best, best_node, pick))"

text \<open>\<open>std::numeric_limits<Index>::max()\<close> is the first best node.\<close>

definition choose_smallest ::
    "'a::ord scalar \<Rightarrow> ('a tree_node \<Rightarrow> 'a) \<Rightarrow> 'a tree_node list \<Rightarrow> nat list \<Rightarrow> nat \<Rightarrow> nat" where
  "choose_smallest sc key nodes opn pick =
     snd (snd (fold (smallest_step key nodes opn) [0..<length opn] (sc_infinity sc, index_max, pick)))"

definition pick_node :: "'a::ord scalar \<Rightarrow> bool \<Rightarrow> ('a, 'z) search_scheme \<Rightarrow> nat" where
  "pick_node sc diving s =
     (let newest = length (open_nodes s) - 1 in
      case selection s of
        kDepthFirst \<Rightarrow> newest
      | kHybrid \<Rightarrow> if diving then newest else choose_smallest sc node_bound (tree s) (open_nodes s) newest
      | kBestBound \<Rightarrow> choose_smallest sc node_bound (tree s) (open_nodes s) newest
      | kBestEstimate \<Rightarrow> choose_smallest sc node_estimate (tree s) (open_nodes s) newest)"

definition take_next_open_node ::
    "'a::ord scalar \<Rightarrow> bool \<Rightarrow> ('a, 'z) search_scheme \<Rightarrow> nat \<times> ('a, 'z) search_scheme" where
  "take_next_open_node sc diving s =
     (let pick = pick_node sc diving s;
          s1 = (if selection s = kDepthFirst \<or> (selection s = kHybrid \<and> diving)
                then s\<lparr>selected_by_dive := selected_by_dive s + 1\<rparr>
                else s\<lparr>selected_by_policy := selected_by_policy s + 1\<rparr>);
          node = open_nodes s ! pick
      in (node, s1\<lparr>open_nodes := erase_at pick (open_nodes s),
                   deepest_node := max (deepest_node s) (node_depth (tree s ! node))\<rparr>))"

section \<open>Pseudocosts and the branching column\<close>

definition most_fractional :: "'a::{minus,abs,ord} scalar \<Rightarrow> ('a, 'z) search_scheme \<Rightarrow> 'a list \<Rightarrow> int" where
  "most_fractional sc s x =
     fst (fold (\<lambda>j (best, score).
       let f = fractionality sc (x ! j) in if score < f then (int j, f) else (best, score))
       (integer_columns s) (- 1, int_tol s))"

definition estimate_from ::
    "'a::{zero,one,plus,minus,times,divide,ord} scalar \<Rightarrow> (int \<Rightarrow> 'a) \<Rightarrow> ('a, 'z) search_scheme \<Rightarrow> 'a list \<Rightarrow> 'a \<Rightarrow> 'a" where
  "estimate_from sc num s x b =
     fold (\<lambda>u estimate.
       let v = x ! u;
           f = v - sc_floor sc v
       in if f \<le> int_tol s \<or> 1 - int_tol s \<le> f then estimate
          else
            let down = (if 0 < pseudo_down_count s ! u then pseudo_down_sum s ! u div num (pseudo_down_count s ! u) else 0);
                up = (if 0 < pseudo_up_count s ! u then pseudo_up_sum s ! u div num (pseudo_up_count s ! u) else 0)
            in estimate + cmin (down * f) (up * (1 - f)))
       (integer_columns s) b"

definition record_pseudocost ::
    "nat \<Rightarrow> bool \<Rightarrow> 'a::{plus,divide} \<Rightarrow> 'a \<Rightarrow> ('a, 'z) search_scheme \<Rightarrow> ('a, 'z) search_scheme" where
  "record_pseudocost u downward gain f s =
     (if downward then
        s\<lparr>pseudo_down_sum := modify_at u (\<lambda>v. v + gain div f) (pseudo_down_sum s),
          pseudo_down_count := modify_at u (\<lambda>c. c + 1) (pseudo_down_count s)\<rparr>
      else
        s\<lparr>pseudo_up_sum := modify_at u (\<lambda>v. v + gain div f) (pseudo_up_sum s),
          pseudo_up_count := modify_at u (\<lambda>c. c + 1) (pseudo_up_count s)\<rparr>)"

record 'a candidate =
  ca_column :: nat
  ca_fraction :: 'a
  ca_reliable :: bool

definition candidates :: "'a::{minus,abs,ord} scalar \<Rightarrow> ('a, 'z) search_scheme \<Rightarrow> 'a list \<Rightarrow> 'a candidate list" where
  "candidates sc s x =
     map (\<lambda>j. \<lparr>ca_column = j, ca_fraction = x ! j - sc_floor sc (x ! j),
        ca_reliable = (kPseudocostReliability \<le> pseudo_down_count s ! j \<and>
                       kPseudocostReliability \<le> pseudo_up_count s ! j)\<rparr>)
       (filter (\<lambda>j. \<not> fractionality sc (x ! j) \<le> int_tol s) (integer_columns s))"

text \<open>A probe solves one child in place and undoes its own bound change only.\<close>

definition undo_to :: "nat \<Rightarrow> ('a, 'z) node_state_scheme \<Rightarrow> ('a, 'z) node_state_scheme" where
  "undo_to n s = (fold undo (rev (drop n (saved s))) s)\<lparr>saved := take n (saved s)\<rparr>"

definition probe_gain ::
    "'a::{zero,one,plus,minus,times,divide,ord} scalar \<Rightarrow> ('a, 'z) search_scheme \<Rightarrow> 'a \<Rightarrow> 'a relaxation \<Rightarrow> 'a" where
  "probe_gain sc s b r =
     (if rx_status r = kInfeasible then sc_infinity sc
      else if rx_status r = kOptimal then cmax (internal_objective s (rx_value r) - b) 0
      else if rx_status r = kIterationLimit \<and> sc_isfinite sc (rx_dual_bound r) then
        cmax (search_sense s * (rx_dual_bound r - objective_offset (original s)) - b) 0
      else 0)"

definition probe_direction ::
    "'a::{zero,one,plus,minus,times,divide,ord} scalar \<Rightarrow> ('a model \<Rightarrow> 'a relaxation) \<Rightarrow> 'a list \<Rightarrow> 'a \<Rightarrow>
     'a candidate \<Rightarrow> bool \<Rightarrow> ('a, 'z) search_scheme \<Rightarrow> 'a \<times> bool \<times> ('a, 'z) search_scheme" where
  "probe_direction sc solver x b c downward s =
     (let u = ca_column c;
          v = x ! u;
          s1 = (if downward then tighten_upper u (sc_floor sc v) s else tighten_lower u (sc_floor sc v + 1) s);
          r = solver (working s1);
          s2 = undo_to (length (saved s)) s1;
          gain = probe_gain sc s2 b r;
          f = (if downward then ca_fraction c else 1 - ca_fraction c)
      in (gain, rx_status r = kInfeasible,
          if sc_isfinite sc gain \<and> 0 < f then record_pseudocost u downward gain f s2 else s2))"

record 'a probes =
  measured_down :: "'a list"
  measured_up :: "'a list"
  infeasible_side :: "bool list"

definition probe_candidate ::
    "'a::{zero,one,plus,minus,times,divide,ord} scalar \<Rightarrow> ('a model \<Rightarrow> 'a relaxation) \<Rightarrow> 'a list \<Rightarrow> 'a \<Rightarrow>
     'a candidate list \<Rightarrow> nat \<Rightarrow> 'a probes \<times> ('a, 'z) search_scheme \<Rightarrow> 'a probes \<times> ('a, 'z) search_scheme" where
  "probe_candidate sc solver x b cs i = (\<lambda>(pr, s).
     let (gd, bad_d, s1) = probe_direction sc solver x b (cs ! i) True s;
         (gu, bad_u, s2) = probe_direction sc solver x b (cs ! i) False s1
     in (pr\<lparr>measured_down := (measured_down pr)[i := gd], measured_up := (measured_up pr)[i := gu],
            infeasible_side := (infeasible_side pr)[i := bad_d \<or> bad_u \<or> infeasible_side pr ! i]\<rparr>, s2))"

definition average_gain ::
    "(int \<Rightarrow> 'a::{zero,one,plus,divide}) \<Rightarrow> 'a list \<Rightarrow> int list \<Rightarrow> nat list \<Rightarrow> 'a" where
  "average_gain num totals counts js =
     (let (total, n) = fold (\<lambda>u (t, n). if 0 < counts ! u then (t + totals ! u div num (counts ! u), n + 1) else (t, n))
            js (0, 0)
      in if 0 < n then total div num n else 1)"

definition candidate_score ::
    "'a::{zero,one,plus,minus,times,divide,ord} scalar \<Rightarrow> (int \<Rightarrow> 'a) \<Rightarrow> 'a \<Rightarrow> 'a \<Rightarrow> ('a, 'z) search_scheme \<Rightarrow>
     'a probes \<Rightarrow> 'a candidate list \<Rightarrow> nat \<Rightarrow> 'a" where
  "candidate_score sc num avg_down avg_up s pr cs i =
     (let c = cs ! i; u = ca_column c; eps = sc_lit sc (1 / 10 ^ 6);
          pc_down = (if 0 < pseudo_down_count s ! u then pseudo_down_sum s ! u div num (pseudo_down_count s ! u) else avg_down);
          pc_up = (if 0 < pseudo_up_count s ! u then pseudo_up_sum s ! u div num (pseudo_up_count s ! u) else avg_up);
          down = (if infeasible_side pr ! i then sc_infinity sc
                  else if 0 \<le> measured_down pr ! i then measured_down pr ! i else pc_down * ca_fraction c);
          up = (if infeasible_side pr ! i then sc_infinity sc
                else if 0 \<le> measured_up pr ! i then measured_up pr ! i else pc_up * (1 - ca_fraction c))
      in cmax down eps * cmax up eps)"

text \<open>Strong branching of the unreliable candidates, most fractional first, up to the cap; \<open>order\<close> is
  \<open>std::sort\<close> by the key, largest first, which may order ties as it likes.\<close>

definition strong_branch ::
    "'a::{zero,one,plus,minus,uminus,times,divide,abs,ord} scalar \<Rightarrow> ((nat \<Rightarrow> 'a) \<Rightarrow> nat list \<Rightarrow> nat list) \<Rightarrow>
     ('a model \<Rightarrow> 'a relaxation) \<Rightarrow> 'a list \<Rightarrow> 'a \<Rightarrow> 'a candidate list \<Rightarrow> ('a, 'z) search_scheme \<Rightarrow>
     'a probes \<times> ('a, 'z) search_scheme" where
  "strong_branch sc order solver x b cs s =
     (let unreliable = filter (\<lambda>i. \<not> ca_reliable (cs ! i)) [0..<length cs];
          to_probe = take (nat kStrongBranchingCandidates)
            (order (\<lambda>i. fractionality sc (x ! ca_column (cs ! i))) unreliable)
      in fold (probe_candidate sc solver x b cs) to_probe
           (\<lparr>measured_down = replicate (length cs) (- 1), measured_up = replicate (length cs) (- 1),
             infeasible_side = replicate (length cs) False\<rparr>, s))"

definition best_scored :: "(nat \<Rightarrow> 'a) \<Rightarrow> 'a::{one,uminus,ord} candidate list \<Rightarrow> int" where
  "best_scored score cs =
     fst (fold (\<lambda>i (best, best_score).
       if best_score < score i then (int (ca_column (cs ! i)), score i) else (best, best_score))
       [0..<length cs] (int (ca_column (cs ! 0)), - 1))"

definition select_branching_column ::
    "'a::{zero,one,plus,minus,uminus,times,divide,abs,ord} scalar \<Rightarrow> ((nat \<Rightarrow> 'a) \<Rightarrow> nat list \<Rightarrow> nat list) \<Rightarrow>
     (int \<Rightarrow> 'a) \<Rightarrow> ('a model \<Rightarrow> 'a relaxation) \<Rightarrow> 'a list \<Rightarrow> 'a \<Rightarrow> ('a, 'z) search_scheme \<Rightarrow> int \<times> ('a, 'z) search_scheme" where
  "select_branching_column sc order num solver x b s =
     (let cs = candidates sc s x in
      if cs = [] then (- 1, s)
      else
        let (pr, s1) = strong_branch sc order solver x b cs s;
            avg_down = average_gain num (pseudo_down_sum s1) (pseudo_down_count s1) (integer_columns s1);
            avg_up = average_gain num (pseudo_up_sum s1) (pseudo_up_count s1) (integer_columns s1)
        in (best_scored (candidate_score sc num avg_down avg_up s1 pr cs) cs, s1))"

section \<open>The dive\<close>

definition least_fractional :: "'a::{minus,abs,ord} scalar \<Rightarrow> ('a, 'z) search_scheme \<Rightarrow> 'a list \<Rightarrow> int" where
  "least_fractional sc s x =
     fst (fold (\<lambda>j (target, least).
       let f = fractionality sc (x ! j) in
       if f \<le> int_tol s then (target, least)
       else if f < least then (int j, f) else (target, least))
       (integer_columns s) (- 1, sc_infinity sc))"

text \<open>The dive with \<open>fuel\<close> turns left; every turn that goes on uses one re-solve and one level, so the
  budget of the code is \<open>min kDivingMaxDepth kDivingMaxLpResolves\<close> turns.\<close>

fun dive_from ::
    "nat \<Rightarrow> 'a::{zero,one,plus,minus,times,divide,abs,ord} scalar \<Rightarrow> ('a \<Rightarrow> int) \<Rightarrow> ('a model \<Rightarrow> 'a relaxation) \<Rightarrow>
     'a list \<Rightarrow> ('a, 'z) search_scheme \<Rightarrow> ('a, 'z) search_scheme" where
  "dive_from 0 sc llround solver x s = s"
| "dive_from (Suc n) sc llround solver x s =
     (let target = least_fractional sc s x in
      if target < 0 then snd (offer_incumbent sc llround x s)
      else
        let u = nat target;
            s1 = tighten_upper u (sc_round sc (x ! u)) (tighten_lower u (sc_round sc (x ! u)) s);
            r = solver (working s1)
        in if rx_status r \<noteq> kOptimal then s1
           else dive_from n sc llround solver (rx_value r) s1)"

definition dive_from_root ::
    "'a::{zero,one,plus,minus,times,divide,abs,ord} scalar \<Rightarrow> ('a \<Rightarrow> int) \<Rightarrow> ('a model \<Rightarrow> 'a relaxation) \<Rightarrow>
     'a list \<Rightarrow> ('a, 'z) search_scheme \<Rightarrow> ('a, 'z) search_scheme" where
  "dive_from_root sc llround solver x s =
     (if integer_columns s = [] then s
      else dive_from (nat (min kDivingMaxDepth kDivingMaxLpResolves)) sc llround solver x s)"

section \<open>Splitting a node\<close>

definition default_change :: "'a::zero domain_change" where
  "default_change = \<lparr>dc_column = 0, dc_upper = False, dc_value = 0\<rparr>"

definition child_node :: "int \<Rightarrow> 'a domain_change \<Rightarrow> 'a \<Rightarrow> int \<Rightarrow> 'a \<Rightarrow> 'a \<Rightarrow> 'a tree_node" where
  "child_node par c b d f e = \<lparr>node_parent = par, node_change = c, node_has_change = True, node_bound = b,
     node_depth = d, node_fraction = f, node_estimate = e\<rparr>"

definition add_open :: "'a tree_node \<Rightarrow> ('a, 'z) search_scheme \<Rightarrow> ('a, 'z) search_scheme" where
  "add_open n s = s\<lparr>tree := tree s @ [n], open_nodes := open_nodes s @ [length (tree s)]\<rparr>"

definition add_closed :: "'a tree_node \<Rightarrow> ('a, 'z) search_scheme \<Rightarrow> ('a, 'z) search_scheme" where
  "add_closed n s = s\<lparr>tree := tree s @ [n]\<rparr>"

text \<open>Branching on a column: \<open>x \<le> floor(v)\<close> and \<open>x \<ge> floor(v) + 1\<close>, pushed in this order.\<close>

definition branch ::
    "'a::{zero,one,plus,minus} scalar \<Rightarrow> nat \<Rightarrow> nat \<Rightarrow> 'a \<Rightarrow> 'a \<Rightarrow> 'a \<Rightarrow> ('a, 'z) search_scheme \<Rightarrow> ('a, 'z) search_scheme" where
  "branch sc node_index u v b est s =
     (let fl = sc_floor sc v;
          d = node_depth (tree s ! node_index) + 1;
          down = child_node (int node_index) \<lparr>dc_column = u, dc_upper = True, dc_value = fl\<rparr> b d (v - fl) est;
          up = child_node (int node_index) \<lparr>dc_column = u, dc_upper = False, dc_value = fl + 1\<rparr> b d (fl + 1 - v) est
      in s\<lparr>tree := tree s @ [down, up],
           open_nodes := open_nodes s @ [length (tree s), Suc (length (tree s))]\<rparr>)"

text \<open>The columns an integral node has not fixed, with the integers of their box.\<close>

record 'a free_column =
  fc_column :: nat
  fc_value :: 'a
  fc_lower :: 'a
  fc_upper :: 'a

definition free_columns :: "'a::{plus,minus,ord} scalar \<Rightarrow> ('a, 'z) search_scheme \<Rightarrow> 'a list \<Rightarrow> 'a free_column list" where
  "free_columns sc s x =
     filter (\<lambda>f. fc_lower f < fc_upper f)
       (map (\<lambda>j. \<lparr>fc_column = j, fc_value = sc_round sc (x ! j),
          fc_lower = sc_ceil sc (lowers s ! j - int_tol s), fc_upper = sc_floor sc (uppers s ! j + int_tol s)\<rparr>)
         (integer_columns s))"

definition split_step ::
    "'a::{zero,one,plus,minus,ord} \<Rightarrow> int \<Rightarrow> 'a free_column \<Rightarrow> int \<times> ('a, 'z) search_scheme \<Rightarrow> int \<times> ('a, 'z) search_scheme" where
  "split_step b d f = (\<lambda>(fixed, s).
     let mk = (\<lambda>par up v. child_node par \<lparr>dc_column = fc_column f, dc_upper = up, dc_value = v\<rparr> b d 0 0);
         s1 = (if fc_lower f \<le> fc_value f - 1 then add_open (mk fixed True (fc_value f - 1)) s else s);
         s2 = (if fc_value f + 1 \<le> fc_upper f then add_open (mk fixed False (fc_value f + 1)) s1 else s1);
         s3 = add_closed (mk fixed False (fc_value f)) s2;
         s4 = add_closed (mk (int (length (tree s2))) True (fc_value f)) s3
     in (int (length (tree s3)), s4))"

definition split_integral_node ::
    "'a::{zero,one,plus,minus,times,divide,ord} scalar \<Rightarrow> nat \<Rightarrow> 'a list \<Rightarrow> ('a, 'z) search_scheme \<Rightarrow> bool \<times> ('a, 'z) search_scheme" where
  "split_integral_node sc node_index x s =
     (let free = free_columns sc s x in
      if free = [] then (False, s)
      else
        let d = node_depth (tree s ! node_index) + 1;
            b = internal_objective s x
        in (True, snd (fold (split_step b d) free (int node_index, leave s))))"


section \<open>The next node is the best one\<close>

text \<open>What the scan has found after the first \<open>k\<close> open nodes.\<close>

definition scan_ok ::
    "(double tree_node \<Rightarrow> double) \<Rightarrow> double tree_node list \<Rightarrow> nat list \<Rightarrow> nat \<Rightarrow> nat \<Rightarrow> double \<times> nat \<times> nat \<Rightarrow> bool" where
  "scan_ok key nodes opn p0 k = (\<lambda>(best, best_node, pick).
     if k = 0 then best = PInf \<and> best_node = index_max \<and> pick = p0
     else pick < k \<and> best_node = opn ! pick \<and> best = key (nodes ! best_node) \<and>
       (\<forall>j < k. best < key (nodes ! (opn ! j)) \<or>
          (feq best (key (nodes ! (opn ! j))) \<and> best_node \<le> opn ! j)))"

lemma scan_first:
  assumes "\<not> isnan (key (nodes ! (opn ! 0)))" "opn ! 0 < index_max"
  shows "scan_ok key nodes opn p0 (Suc 0) (smallest_step key nodes opn 0 (PInf, index_max, p0))"
  using assms by (cases "key (nodes ! (opn ! 0))") (auto simp: scan_ok_def smallest_step_def Let_def feq_def)

lemma scan_next:
  assumes "scan_ok key nodes opn p0 k acc" "0 < k" "\<not> isnan (key (nodes ! (opn ! k)))"
    "\<forall>j < k. \<not> isnan (key (nodes ! (opn ! j)))"
  shows "scan_ok key nodes opn p0 (Suc k) (smallest_step key nodes opn k acc)"
proof -
  obtain b bn pk where acc: "acc = (b, bn, pk)" by (cases acc) auto
  let ?v = "key (nodes ! (opn ! k))"
  have inv: "pk < k" "bn = opn ! pk" "b = key (nodes ! bn)"
    and least: "\<And>j. j < k \<Longrightarrow> b < key (nodes ! (opn ! j)) \<or> (feq b (key (nodes ! (opn ! j))) \<and> bn \<le> opn ! j)"
    using assms(1,2) by (auto simp: scan_ok_def acc)
  have b: "\<not> isnan b" using inv assms(4) by simp
  show ?thesis
  proof (cases "?v < b \<or> feq ?v b \<and> opn ! k < bn")
    case True
    have "?v < key (nodes ! (opn ! j)) \<or> (feq ?v (key (nodes ! (opn ! j))) \<and> opn ! k \<le> opn ! j)" if "j < k" for j
      using least[OF that] True
    proof (elim disjE conjE)
      assume "b < key (nodes ! (opn ! j))" "feq ?v b"
      then show ?thesis using dleq_less_trans[of ?v b "key (nodes ! (opn ! j))"] by (simp add: feq_def)
    next
      assume "feq b (key (nodes ! (opn ! j)))" "?v < b"
      then show ?thesis using dless_leq_trans[of ?v b "key (nodes ! (opn ! j))"] by (simp add: feq_def)
    next
      assume "feq b (key (nodes ! (opn ! j)))" "feq ?v b" "bn \<le> opn ! j" "opn ! k < bn"
      then show ?thesis
        using dleq_trans[of ?v b "key (nodes ! (opn ! j))"] dleq_trans[of "key (nodes ! (opn ! j))" b ?v]
        by (simp add: feq_def)
    next
      assume "b < key (nodes ! (opn ! j))" "?v < b"
      then show ?thesis using dless_trans[of ?v b "key (nodes ! (opn ! j))"] by simp
    qed
    then show ?thesis
      using True assms(3) by (auto simp: scan_ok_def smallest_step_def Let_def acc less_Suc_eq)
  next
    case False
    then have "b < ?v \<or> (feq b ?v \<and> bn \<le> opn ! k)"
      using not_dless[OF assms(3) b] by (auto simp: feq_def dless_le_not_le)
    then show ?thesis
      using False inv least by (auto simp: scan_ok_def smallest_step_def Let_def acc less_Suc_eq)
  qed
qed

lemma choose_smallest_least:
  assumes "opn \<noteq> []" "\<forall>c \<in> set opn. \<not> isnan (key (nodes ! c)) \<and> c < index_max"
  shows "choose_smallest double_scalar key nodes opn p0 < length opn \<and>
    (\<forall>c \<in> set opn. key (nodes ! (opn ! choose_smallest double_scalar key nodes opn p0)) < key (nodes ! c) \<or>
       (feq (key (nodes ! (opn ! choose_smallest double_scalar key nodes opn p0))) (key (nodes ! c)) \<and>
        opn ! choose_smallest double_scalar key nodes opn p0 \<le> c))"
proof -
  let ?scan = "\<lambda>k. fold (smallest_step key nodes opn) [0..<k] (PInf, index_max, p0)"
  have "k \<le> length opn \<Longrightarrow> scan_ok key nodes opn p0 k (?scan k)" for k
  proof (induction k)
    case 0
    then show ?case by (simp add: scan_ok_def)
  next
    case (Suc k)
    then have bnd: "\<And>j. j \<le> k \<Longrightarrow> \<not> isnan (key (nodes ! (opn ! j))) \<and> opn ! j < index_max"
      using assms(2) by simp
    show ?case
    proof (cases "k = 0")
      case True
      then show ?thesis using scan_first[of key nodes opn p0] bnd[of 0] by simp
    next
      case False
      then show ?thesis using scan_next[of key nodes opn p0 k "?scan k"] Suc bnd by simp
    qed
  qed
  from this[of "length opn"] assms(1)
  have "scan_ok key nodes opn p0 (length opn) (?scan (length opn))" by simp
  then show ?thesis
    using assms(1)
    by (auto simp: scan_ok_def choose_smallest_def double_scalar_def in_set_conv_nth split: prod.splits)
qed

lemma erase_at_mset: "i < length xs \<Longrightarrow> mset xs = add_mset (xs ! i) (mset (erase_at i xs))"
  by (metis erase_at_def id_take_nth_drop mset.simps(2) mset_append union_mset_add_mset_right)

definition policy_key :: "node_selection \<Rightarrow> 'a tree_node \<Rightarrow> 'a" where
  "policy_key sel = (if sel = kBestEstimate then node_estimate else node_bound)"

lemma pick_node_policy:
  assumes "open_nodes s \<noteq> []"
    "\<forall>c \<in> set (open_nodes s). \<not> isnan (policy_key (selection s) (tree s ! c)) \<and> c < index_max"
  shows "pick_node double_scalar diving s < length (open_nodes s) \<and>
    (if selection s = kDepthFirst \<or> (selection s = kHybrid \<and> diving)
     then pick_node double_scalar diving s = length (open_nodes s) - 1
     else \<forall>c \<in> set (open_nodes s).
       policy_key (selection s) (tree s ! (open_nodes s ! pick_node double_scalar diving s)) <
         policy_key (selection s) (tree s ! c) \<or>
       (feq (policy_key (selection s) (tree s ! (open_nodes s ! pick_node double_scalar diving s)))
          (policy_key (selection s) (tree s ! c)) \<and>
        open_nodes s ! pick_node double_scalar diving s \<le> c))"
  using assms choose_smallest_least[OF assms(1), of "policy_key (selection s)" "tree s" "length (open_nodes s) - 1"]
  by (cases "selection s") (simp_all add: pick_node_def policy_key_def)

text \<open>
  C12. Taking a node removes exactly that node from the open list and nothing else, and the node is the
  one the policy names: the newest when diving or depth first, otherwise the one with the least bound
  (or estimate), the oldest among equals.
\<close>

theorem next_node_follows_policy:
  fixes s :: "double search"
  assumes "open_nodes s \<noteq> []"
    "\<forall>c \<in> set (open_nodes s). \<not> isnan (policy_key (selection s) (tree s ! c)) \<and> c < index_max"
    "take_next_open_node double_scalar diving s = (node, t)"
  shows "mset (open_nodes s) = add_mset node (mset (open_nodes t)) \<and> tree t = tree s \<and>
    (if selection s = kDepthFirst \<or> (selection s = kHybrid \<and> diving) then node = last (open_nodes s)
     else \<forall>c \<in> set (open_nodes s).
       policy_key (selection s) (tree s ! node) < policy_key (selection s) (tree s ! c) \<or>
       (feq (policy_key (selection s) (tree s ! node)) (policy_key (selection s) (tree s ! c)) \<and> node \<le> c))"
proof -
  let ?pick = "pick_node double_scalar diving s"
  have pick: "?pick < length (open_nodes s)" using pick_node_policy[OF assms(1,2)] by simp
  have node: "node = open_nodes s ! ?pick" "open_nodes t = erase_at ?pick (open_nodes s)" "tree t = tree s"
    using assms(3) by (auto simp: take_next_open_node_def Let_def split: if_splits)
  show ?thesis
    using pick_node_policy[OF assms(1,2), of diving] erase_at_mset[OF pick]
    by (auto simp: node last_conv_nth[OF assms(1)] split: if_splits)
qed


section \<open>The domain operations leave the tree alone\<close>

lemma more_moves [simp]:
  "node_state.more (tighten_lower u v s) = node_state.more s"
  "node_state.more (tighten_upper u v s) = node_state.more s"
  "node_state.more (undo c s) = node_state.more s"
  "node_state.more (apply_change d s) = node_state.more s"
  by (simp_all add: tighten_lower_def tighten_upper_def undo_def apply_change_def Let_def set_lower_def set_upper_def
      push_saved_def)

lemma more_fold: "(\<And>x t. node_state.more (f x t) = node_state.more t) \<Longrightarrow>
    node_state.more (fold f xs s) = node_state.more s"
  by (induction xs arbitrary: s) simp_all

lemma more_enter_leave [simp]:
  "node_state.more (leave s) = node_state.more s"
  "node_state.more (enter visited s) = node_state.more s"
  "node_state.more (undo_to n s) = node_state.more s"
  by (simp_all add: leave_def enter_def undo_to_def more_fold)

lemma search_fields:
  fixes s t :: "('a, 'z) search_scheme"
  assumes "node_state.more s = node_state.more t"
  shows "tree s = tree t" "open_nodes s = open_nodes t" "original s = original t" "quadratic s = quadratic t"
    "search_sense s = search_sense t" "gap_target s = gap_target t" "objective_step s = objective_step t"
    "have_incumbent s = have_incumbent t" "incumbent_internal s = incumbent_internal t"
    "incumbent_x s = incumbent_x t" "plan_pool s = plan_pool t" "pool_gap s = pool_gap t"
    "pool_complete s = pool_complete t" "selection s = selection t" "relative_target s = relative_target t"
  using assms by (cases s; cases t; simp)+

lemmas leave_fields [simp] = search_fields[OF more_enter_leave(1)]
lemmas enter_fields [simp] = search_fields[OF more_enter_leave(2)]

section \<open>The region of a node\<close>

definition change_admits :: "(nat \<Rightarrow> rat) \<Rightarrow> xnum domain_change \<Rightarrow> bool" where
  "change_admits p c = (if dc_upper c then X (p (dc_column c)) \<le> dc_value c else dc_value c \<le> X (p (dc_column c)))"

definition node_admits :: "(nat \<Rightarrow> rat) \<Rightarrow> xnum tree_node \<Rightarrow> bool" where
  "node_admits p n \<longleftrightarrow> (node_has_change n \<longrightarrow> change_admits p (node_change n))"

text \<open>The points the changes on the way to the root admit.\<close>

definition in_region :: "(nat \<Rightarrow> rat) \<Rightarrow> xnum tree_node list \<Rightarrow> nat \<Rightarrow> bool" where
  "in_region p nodes i \<longleftrightarrow> (\<exists>c. chain nodes (int i) = Some c \<and> (\<forall>n \<in> set c. node_admits p n))"

lemma chain_append:
  assumes "parents_older nodes" "i < length nodes"
  shows "chain (nodes @ ns) (int i) = chain nodes (int i)"
  using assms(2)
proof (induction i rule: less_induct)
  case (less i)
  have p: "node_parent (nodes ! i) < int i" using assms(1) less.prems by (simp add: parents_older_def)
  have "chain (nodes @ ns) (node_parent (nodes ! i)) = chain nodes (node_parent (nodes ! i))"
  proof (cases "node_parent (nodes ! i) < 0")
    case False
    then obtain k where "node_parent (nodes ! i) = int k" by (metis int_eq_iff not_less)
    then show ?thesis using p less by simp
  qed simp
  then show ?case using less.prems by (simp add: chain_step nth_append cong: option.case_cong)
qed

lemma parents_older_append:
  "parents_older (nodes @ ns) \<longleftrightarrow>
     parents_older nodes \<and> (\<forall>k < length ns. node_parent (ns ! k) < int (length nodes) + int k)"
proof -
  have all_add: "(\<forall>i < a + c. P i) \<longleftrightarrow> (\<forall>i < a. P i) \<and> (\<forall>k < c. P (a + k))" for a c :: nat and P
    by (metis add_less_cancel_left le_add_diff_inverse not_less trans_less_add1)
  show ?thesis
    unfolding parents_older_def length_append all_add by (simp add: nth_append)
qed

lemma region_append:
  "parents_older nodes \<Longrightarrow> i < length nodes \<Longrightarrow> in_region p (nodes @ ns) i \<longleftrightarrow> in_region p nodes i"
  by (simp add: in_region_def chain_append)

lemma region_step:
  assumes "parents_older nodes" "i < length nodes" "node_parent (nodes ! i) = int q"
  shows "in_region p nodes i \<longleftrightarrow> in_region p nodes q \<and> node_admits p (nodes ! i)"
proof -
  have "q < i" using assms by (fastforce simp: parents_older_def)
  then obtain c where "chain nodes (int q) = Some c" using chain_ends[OF assms(1), of q] assms(2) by auto
  moreover have "chain nodes (int i) = map_option ((#) (nodes ! i)) (chain nodes (int q))"
    using assms(3) by (subst chain_step) (auto split: option.splits)
  ultimately show ?thesis by (auto simp: in_region_def)
qed

section \<open>Splitting an integral node is a partition\<close>

text \<open>The free column and an integral point inside its box.\<close>

definition free_ok :: "(nat \<Rightarrow> rat) \<Rightarrow> xnum free_column \<Rightarrow> bool" where
  "free_ok p f \<longleftrightarrow> p (fc_column f) \<in> \<int> \<and> (\<exists>z. fc_value f = X (of_int z)) \<and>
     fc_lower f \<le> X (p (fc_column f)) \<and> X (p (fc_column f)) \<le> fc_upper f"

definition at_value :: "(nat \<Rightarrow> rat) \<Rightarrow> xnum free_column \<Rightarrow> bool" where
  "at_value p f \<longleftrightarrow> X (p (fc_column f)) = fc_value f"

lemma free_sides:
  assumes "free_ok p f"
  shows "X (p (fc_column f)) \<le> fc_value f - 1 \<longleftrightarrow> X (p (fc_column f)) < fc_value f"
    "fc_value f + 1 \<le> X (p (fc_column f)) \<longleftrightarrow> fc_value f < X (p (fc_column f))"
    "X (p (fc_column f)) < fc_value f \<Longrightarrow> fc_lower f \<le> fc_value f - 1"
    "fc_value f < X (p (fc_column f)) \<Longrightarrow> fc_value f + 1 \<le> fc_upper f"
    "at_value p f \<longleftrightarrow> fc_value f \<le> X (p (fc_column f)) \<and> X (p (fc_column f)) \<le> fc_value f"
    "at_value p f \<longleftrightarrow> \<not> X (p (fc_column f)) < fc_value f \<and> \<not> fc_value f < X (p (fc_column f))"
    "\<not> (X (p (fc_column f)) < fc_value f \<and> fc_value f < X (p (fc_column f)))"
proof -
  obtain z w where zw: "fc_value f = X (of_int z)" "p (fc_column f) = of_int w"
    using assms by (auto simp: free_ok_def elim: Ints_cases)
  have c: "rat_of_int w \<le> of_int z - 1 \<longleftrightarrow> w \<le> z - 1" "rat_of_int z + 1 \<le> of_int w \<longleftrightarrow> z + 1 \<le> w"
    by (metis of_int_le_iff of_int_diff of_int_1, metis of_int_le_iff of_int_add of_int_1)
  show lt: "X (p (fc_column f)) \<le> fc_value f - 1 \<longleftrightarrow> X (p (fc_column f)) < fc_value f"
    and gt: "fc_value f + 1 \<le> X (p (fc_column f)) \<longleftrightarrow> fc_value f < X (p (fc_column f))"
    using c by (simp_all add: zw X_consts) linarith+
  show "X (p (fc_column f)) < fc_value f \<Longrightarrow> fc_lower f \<le> fc_value f - 1"
    using lt assms by (auto simp: free_ok_def intro: xle_trans)
  show "fc_value f < X (p (fc_column f)) \<Longrightarrow> fc_value f + 1 \<le> fc_upper f"
    using gt assms by (auto simp: free_ok_def intro: xle_trans)
  show "at_value p f \<longleftrightarrow> fc_value f \<le> X (p (fc_column f)) \<and> X (p (fc_column f)) \<le> fc_value f"
    by (auto simp: at_value_def zw)
  show "at_value p f \<longleftrightarrow> \<not> X (p (fc_column f)) < fc_value f \<and> \<not> fc_value f < X (p (fc_column f))"
    "\<not> (X (p (fc_column f)) < fc_value f \<and> fc_value f < X (p (fc_column f)))"
    by (auto simp: at_value_def zw)
qed


lemma split_step_parts:
  fixes s :: "(xnum, 'z) search_scheme"
  assumes older: "parents_older (tree s)" and q: "q < length (tree s)" and f: "free_ok p f"
    and r: "split_step b d f (int q, s) = (fixed, t)"
  shows "\<exists>ns new q'. tree t = tree s @ ns \<and> open_nodes t = open_nodes s @ new \<and> fixed = int q' \<and>
    q' < length (tree t) \<and> parents_older (tree t) \<and> set new \<subseteq> {length (tree s)..<length (tree t)} \<and>
    (in_region p (tree t) q' \<longleftrightarrow> in_region p (tree s) q \<and> at_value p f) \<and>
    length (filter (in_region p (tree t)) new) = (if in_region p (tree s) q \<and> \<not> at_value p f then 1 else 0)"
proof -
  let ?mk = "\<lambda>par up v. child_node par \<lparr>dc_column = fc_column f, dc_upper = up, dc_value = v\<rparr> b d 0 0"
  let ?x = "X (p (fc_column f))" and ?n = "length (tree s)"
  define a1 where "a1 = (if fc_lower f \<le> fc_value f - 1 then [?mk (int q) True (fc_value f - 1)] else [])"
  define a2 where "a2 = (if fc_value f + 1 \<le> fc_upper f then [?mk (int q) False (fc_value f + 1)] else [])"
  define new where "new = map (\<lambda>k. ?n + k) [0..<length (a1 @ a2)]"
  define e1 where "e1 = ?mk (int q) False (fc_value f)"
  define e2 where "e2 = ?mk (int (?n + length (a1 @ a2))) True (fc_value f)"
  let ?t = "tree s @ (a1 @ a2) @ [e1, e2]"
  have t: "tree t = ?t" "open_nodes t = open_nodes s @ new" "fixed = int (?n + length (a1 @ a2) + 1)"
    using r by (auto simp: split_step_def Let_def add_open_def add_closed_def a1_def a2_def new_def e1_def e2_def ac_simps)
  have older': "parents_older ?t"
    using q older
    by (auto simp: parents_older_append a1_def a2_def e1_def e2_def child_node_def nth_Cons split: nat.splits)
  have region_q: "in_region p ?t q \<longleftrightarrow> in_region p (tree s) q" using region_append[OF older q] .
  have e1_at: "?t ! (?n + length (a1 @ a2)) = e1" and e2_at: "?t ! (?n + length (a1 @ a2) + 1) = e2"
    by (simp_all add: nth_append)
  have "in_region p ?t (?n + length (a1 @ a2)) \<longleftrightarrow> in_region p (tree s) q \<and> fc_value f \<le> ?x"
    using region_step[OF older', of "?n + length (a1 @ a2)" q p] region_q e1_at
    by (simp add: e1_def child_node_def node_admits_def change_admits_def)
  then have last: "in_region p ?t (?n + length (a1 @ a2) + 1) \<longleftrightarrow> in_region p (tree s) q \<and> at_value p f"
    using region_step[OF older', of "?n + length (a1 @ a2) + 1" "?n + length (a1 @ a2)" p] e2_at free_sides(5)[OF f]
    by (auto simp: e2_def child_node_def node_admits_def change_admits_def)
  have side: "in_region p ?t (?n + k) \<longleftrightarrow> in_region p (tree s) q \<and> node_admits p ((a1 @ a2) ! k)"
    if "k < length (a1 @ a2)" for k
  proof -
    have "?t ! (?n + k) = (a1 @ a2) ! k" using that by (simp add: nth_append)
    moreover have "node_parent ((a1 @ a2) ! k) = int q"
      using that by (auto simp: a1_def a2_def child_node_def nth_append nth_Cons split: if_splits nat.splits)
    ultimately show ?thesis using region_step[OF older', of "?n + k" q p] that region_q by simp
  qed
  have "filter (in_region p ?t) new = map (\<lambda>k. ?n + k) (filter (\<lambda>k. in_region p ?t (?n + k)) [0..<length (a1 @ a2)])"
    by (simp add: new_def filter_map o_def)
  moreover have "filter (\<lambda>k. in_region p ?t (?n + k)) [0..<length (a1 @ a2)] =
      filter (\<lambda>k. in_region p (tree s) q \<and> node_admits p ((a1 @ a2) ! k)) [0..<length (a1 @ a2)]"
    using side by (intro filter_cong) auto
  moreover have "length (filter (\<lambda>k. in_region p (tree s) q \<and> node_admits p ((a1 @ a2) ! k)) [0..<length (a1 @ a2)]) =
      length (filter (\<lambda>n. in_region p (tree s) q \<and> node_admits p n) (a1 @ a2))"
    using filter_map[of "\<lambda>n. in_region p (tree s) q \<and> node_admits p n" "(!) (a1 @ a2)" "[0..<length (a1 @ a2)]"]
    by (metis (mono_tags, lifting) comp_apply filter_cong length_map map_nth)
  moreover have "length (filter (\<lambda>n. in_region p (tree s) q \<and> node_admits p n) (a1 @ a2)) =
      (if in_region p (tree s) q \<and> \<not> at_value p f then 1 else 0)"
  proof -
    have "node_admits p (?mk (int q) True (fc_value f - 1)) \<longleftrightarrow> ?x < fc_value f"
      "node_admits p (?mk (int q) False (fc_value f + 1)) \<longleftrightarrow> fc_value f < ?x"
      using free_sides(1,2)[OF f] by (simp_all add: node_admits_def change_admits_def child_node_def)
    then show ?thesis using free_sides(3,4,6,7)[OF f] by (auto simp: a1_def a2_def)
  qed
  ultimately show ?thesis
    using t older' last by (intro exI[of _ "(a1 @ a2) @ [e1, e2]"] exI[of _ new] exI[of _ "?n + length (a1 @ a2) + 1"])
      (auto simp: new_def)
qed


lemma split_fold:
  fixes s :: "(xnum, 'z) search_scheme"
  assumes "parents_older (tree s)" "q < length (tree s)" "\<forall>f \<in> set fs. free_ok p f"
  shows "\<exists>ns new. tree (snd (fold (split_step b d) fs (int q, s))) = tree s @ ns \<and>
    open_nodes (snd (fold (split_step b d) fs (int q, s))) = open_nodes s @ new \<and>
    parents_older (tree s @ ns) \<and> set new \<subseteq> {length (tree s)..<length (tree s @ ns)} \<and>
    length (filter (in_region p (tree s @ ns)) new) =
      (if in_region p (tree s) q \<and> \<not> (\<forall>f \<in> set fs. at_value p f) then 1 else 0)"
  using assms
proof (induction fs arbitrary: q s)
  case Nil
  then show ?case by (intro exI[of _ "[]"]) simp
next
  case (Cons f fs)
  obtain fixed t where r: "split_step b d f (int q, s) = (fixed, t)" by (cases "split_step b d f (int q, s)")
  have "free_ok p f" using Cons.prems(3) by simp
  from split_step_parts[OF Cons.prems(1,2) this r]
  obtain ns new q' where step: "tree t = tree s @ ns" "open_nodes t = open_nodes s @ new" "fixed = int q'"
    "q' < length (tree t)" "parents_older (tree t)" "set new \<subseteq> {length (tree s)..<length (tree t)}"
    "in_region p (tree t) q' \<longleftrightarrow> in_region p (tree s) q \<and> at_value p f"
    "length (filter (in_region p (tree t)) new) = (if in_region p (tree s) q \<and> \<not> at_value p f then 1 else 0)"
    by (elim exE conjE) (rule that)
  have "\<forall>f \<in> set fs. free_ok p f" using Cons.prems(3) by simp
  from Cons.IH[OF step(5,4) this]
  obtain ms old where rest: "tree (snd (fold (split_step b d) fs (int q', t))) = tree t @ ms"
    "open_nodes (snd (fold (split_step b d) fs (int q', t))) = open_nodes t @ old"
    "parents_older (tree t @ ms)" "set old \<subseteq> {length (tree t)..<length (tree t @ ms)}"
    "length (filter (in_region p (tree t @ ms)) old) =
      (if in_region p (tree t) q' \<and> \<not> (\<forall>f \<in> set fs. at_value p f) then 1 else 0)"
    by (elim exE conjE) (rule that)
  have "filter (in_region p (tree t @ ms)) new = filter (in_region p (tree t)) new"
    using step(6) by (intro filter_cong) (auto simp: region_append[OF step(5)])
  then show ?case
    using rest step r by (intro exI[of _ "ns @ ms"] exI[of _ "new @ old"]) auto
qed

lemma free_columns_ok:
  fixes s :: "(xnum, 'z) search_scheme"
  assumes "f \<in> set (free_columns (exact_scalar ft mt) s x)"
    and "\<forall>j \<in> set (integer_columns s). p j \<in> \<int> \<and> xfinite (x ! j) \<and> lowers s ! j \<le> X (p j) \<and> X (p j) \<le> uppers s ! j"
    and "int_tol s = X t" "0 \<le> t"
  shows "free_ok p f"
proof -
  obtain j where j: "j \<in> set (integer_columns s)" and f: "f = \<lparr>fc_column = j, fc_value = xround (x ! j),
      fc_lower = xceil (lowers s ! j - int_tol s), fc_upper = xfloor (uppers s ! j + int_tol s)\<rparr>"
    using assms(1) by (auto simp: free_columns_def exact_scalar_def)
  from assms(2) j obtain q where q: "x ! j = X q" by (cases "x ! j") auto
  have p: "p j \<in> \<int>" "lowers s ! j \<le> X (p j)" "X (p j) \<le> uppers s ! j" using assms(2) j by auto
  obtain w where w: "p j = of_int w" using p(1) by (auto elim: Ints_cases)
  have "xround (X q) = X (of_int (if 0 \<le> q then \<lfloor>q + 1 / 2\<rfloor> else \<lceil>q - 1 / 2\<rceil>))" by (simp add: xround_def)
  then have v: "\<exists>z. xround (x ! j) = X (of_int z)" unfolding q by blast
  have "xceil (lowers s ! j - X t) \<le> X (p j)"
    using p(2) assms(4) by (cases "lowers s ! j") (auto simp: xceil_def minus_xnum_def w ceiling_le_iff)
  moreover have "X (p j) \<le> xfloor (uppers s ! j + X t)"
    using p(3) assms(4) by (cases "uppers s ! j") (auto simp: xfloor_def plus_xnum_def w le_floor_iff)
  ultimately show ?thesis using p(1) v assms(3) by (simp add: free_ok_def f)
qed

text \<open>
  C10. Splitting an integral node for a complete pool is a partition, exactly and without overlap: the
  tree is only extended, and an integral point of the node's box is in the region of exactly one of the
  opened children when it is in the node and differs from the relaxation's point somewhere on the free
  columns, and of none otherwise.
\<close>

theorem split_is_partition:
  fixes s :: "xnum search"
  assumes "parents_older (tree s)" "i < length (tree s)" "int_tol s = X t" "0 \<le> t"
    and "\<forall>j \<in> set (integer_columns s). p j \<in> \<int> \<and> xfinite (x ! j) \<and> lowers s ! j \<le> X (p j) \<and> X (p j) \<le> uppers s ! j"
    and "split_integral_node (exact_scalar ft mt) i x s = (True, s')"
  shows "\<exists>ns new. tree s' = tree s @ ns \<and> open_nodes s' = open_nodes s @ new \<and>
    length (filter (in_region p (tree s')) new) =
      (if in_region p (tree s) i \<and>
          (\<exists>j \<in> set (map fc_column (free_columns (exact_scalar ft mt) s x)). X (p j) \<noteq> xround (x ! j)) then 1 else 0)"
proof -
  let ?free = "free_columns (exact_scalar ft mt) s x"
  let ?d = "node_depth (tree s ! i) + 1" and ?b = "internal_objective s x"
  have s': "s' = snd (fold (split_step ?b ?d) ?free (int i, leave s))"
    using assms(6) by (auto simp: split_integral_node_def Let_def split: if_splits)
  have ok: "\<forall>f \<in> set ?free. free_ok p f" using free_columns_ok[OF _ assms(5,3,4)] by blast
  have val: "\<forall>f \<in> set ?free. fc_value f = xround (x ! fc_column f)"
    by (auto simp: free_columns_def exact_scalar_def)
  have "(\<not> (\<forall>f \<in> set ?free. at_value p f)) \<longleftrightarrow>
      (\<exists>j \<in> set (map fc_column ?free). X (p j) \<noteq> xround (x ! j))"
    using val by (auto simp: at_value_def)
  then show ?thesis
    using split_fold[of "leave s" i ?free p ?b ?d] assms(1,2) ok unfolding s' by auto
qed


section \<open>Bounds rounded to the objective step\<close>

lemma integral_bound_below:
  assumes "b \<le> X (of_int k * d)"
  shows "round_up_to_step (exact_scalar ft mt) b (X d) \<le> X (of_int k * d)"
proof (cases "0 < d \<and> xfinite b")
  case False
  then show ?thesis using assms by (auto simp: round_up_to_step_def exact_scalar_def X_consts)
next
  case True
  then obtain q where q: "b = X q" by (cases b) auto
  define slack where "slack = max (1 / 10 ^ 6 :: rat) (1 / 10 ^ 9 * \<bar>q / d\<bar>)"
  have "cmax (X (1 / 10 ^ 6)) (X (1 / 10 ^ 9) * \<bar>X q / X d\<bar>) = X slack"
    using True by (auto simp: cmax_def slack_def max_def)
  then have r: "round_up_to_step (exact_scalar ft mt) b (X d) = X (d * of_int \<lceil>q / d - slack\<rceil>)"
    using True q by (simp add: round_up_to_step_def exact_scalar_def X_consts Let_def)
  have "0 \<le> slack" by (simp add: slack_def)
  moreover have "q / d \<le> of_int k" using assms True by (simp add: q divide_le_eq)
  ultimately have "\<lceil>q / d - slack\<rceil> \<le> k" by (simp add: ceiling_le_iff)
  then have "d * of_int \<lceil>q / d - slack\<rceil> \<le> d * of_int k" using True by simp
  then show ?thesis by (simp add: r mult.commute)
qed

text \<open>
  Rounding a bound up to the objective step is safe in exact arithmetic: an objective value that is
  a multiple of the step and not below the bound is not below the rounded bound either, whatever the
  slack, so a node whose rounded bound loses holds no better solution.
\<close>

theorem integral_bound_sound:
  fixes s :: "xnum search"
  assumes "objective_step s = X d" "b \<le> X (of_int k * d)"
  shows "integral_bound (exact_scalar ft mt) s b \<le> X (of_int k * d)"
  using integral_bound_below[OF assms(2)] by (simp add: integral_bound_def assms(1))

section \<open>Incumbents\<close>

definition incumbent_ok ::
    "'a::{zero,one,plus,minus,times,divide,abs,ord} scalar \<Rightarrow> ('a, 'z) search_scheme \<Rightarrow> bool" where
  "incumbent_ok sc s \<longleftrightarrow> (have_incumbent s \<longrightarrow>
     candidate_ok sc s (incumbent_x s) \<and> incumbent_internal s = internal_objective s (incumbent_x s))"

text \<open>What the incumbent test reads.\<close>

definition yardstick :: "('a, 'z) search_scheme \<Rightarrow> 'a model \<times> nat list \<times> 'a \<times> bool \<times> 'a" where
  "yardstick s = (original s, integer_columns s, int_tol s, quadratic s, search_sense s)"

lemma yardstick_reads:
  assumes "yardstick t = yardstick s"
  shows "candidate_ok sc t x = candidate_ok sc s x" "internal_objective t x = internal_objective s x"
  using assms by (simp_all add: yardstick_def candidate_ok_def internal_objective_def Let_def)

lemma yardstick_moves [simp]:
  "yardstick (tighten_lower u v s) = yardstick s" "yardstick (tighten_upper u v s) = yardstick s"
  by (simp_all add: yardstick_def tighten_lower_def tighten_upper_def set_lower_def set_upper_def push_saved_def)

lemma yardstick_offer [simp]: "yardstick (snd (offer_incumbent sc llround x s)) = yardstick s"
  by (simp add: yardstick_def offer_incumbent_def Let_def)

lemma incumbent_offer: "incumbent_ok sc s \<Longrightarrow> incumbent_ok sc (snd (offer_incumbent sc llround x s))"
  by (auto simp: incumbent_ok_def offer_incumbent_def Let_def internal_objective_def candidate_ok_def)

lemma incumbent_moves [simp]:
  "incumbent_ok sc (tighten_lower u v s) = incumbent_ok sc s" "incumbent_ok sc (tighten_upper u v s) = incumbent_ok sc s"
  by (simp_all add: incumbent_ok_def yardstick_reads[OF yardstick_moves(1)] yardstick_reads[OF yardstick_moves(2)]
      search_fields[OF more_moves(1)] search_fields[OF more_moves(2)])

lemma incumbent_dive: "incumbent_ok sc s \<Longrightarrow> incumbent_ok sc (dive_from n sc llround solver x s)"
  by (induction n sc llround solver x s rule: dive_from.induct) (simp_all add: Let_def incumbent_offer)

text \<open>
  C11. The incumbent is always a point that passed the test against the original model, with its own
  objective: offering any point, rounding a relaxation and the root dive keep that so, whatever the
  relaxation solver returns. And an offered point replaces the incumbent only when it passes the test
  and is not within 1e-12 of it or worse, and is kept in the pool whenever it passes.
\<close>

theorem incumbent_always_checked:
  fixes s :: "double search"
  assumes "incumbent_ok sc s"
  shows "incumbent_ok sc (snd (offer_incumbent sc llround x s)) \<and>
    incumbent_ok sc (try_rounding sc llround x s) \<and>
    incumbent_ok sc (dive_from_root sc llround solver x s) \<and>
    (fst (offer_incumbent sc llround x s) \<longleftrightarrow> candidate_ok sc s x \<and>
       \<not> (have_incumbent s \<and> incumbent_internal s - sc_lit sc (1 / 10 ^ 12) \<le> internal_objective s x)) \<and>
    (\<not> fst (offer_incumbent sc llround x s) \<longrightarrow>
       incumbent_x (snd (offer_incumbent sc llround x s)) = incumbent_x s) \<and>
    (candidate_ok sc s x \<longrightarrow> plan_pool (snd (offer_incumbent sc llround x s)) =
       pool_offer llround (internal_objective s x) x (plan_pool s))"
  using assms
  by (simp add: incumbent_offer incumbent_dive try_rounding_def dive_from_root_def)
     (simp add: offer_incumbent_def Let_def)

section \<open>The branching column\<close>

lemma probe_restores:
  "working (snd (snd (probe_direction sc solver x b c downward s))) = working s \<and>
   saved (snd (snd (probe_direction sc solver x b c downward s))) = saved s \<and>
   integer_columns (snd (snd (probe_direction sc solver x b c downward s))) = integer_columns s"
  by (simp add: probe_direction_def Let_def undo_to_def tighten_upper_def tighten_lower_def set_upper_def
      set_lower_def push_saved_def undo_def record_pseudocost_def)

lemma probes_restore:
  "working (snd (fold (probe_candidate sc solver x b cs) is acc)) = working (snd acc) \<and>
   saved (snd (fold (probe_candidate sc solver x b cs) is acc)) = saved (snd acc)"
proof (induction "is" arbitrary: acc)
  case (Cons i "is")
  obtain pr s where acc: "acc = (pr, s)" by (cases acc)
  obtain g1 b1 s1 where d: "probe_direction sc solver x b (cs ! i) True s = (g1, b1, s1)" by (metis prod_cases3)
  obtain g2 b2 s2 where u: "probe_direction sc solver x b (cs ! i) False s1 = (g2, b2, s2)" by (metis prod_cases3)
  have "working s2 = working s \<and> saved s2 = saved s"
    using probe_restores[of sc solver x b "cs ! i" True s] probe_restores[of sc solver x b "cs ! i" False s1]
    by (simp add: d u)
  then show ?case using Cons.IH by (simp add: acc probe_candidate_def d u)
qed simp

lemma best_scored_column:
  fixes score :: "nat \<Rightarrow> 'a::{one,uminus,ord}"
  assumes "cs \<noteq> []"
  shows "\<exists>c \<in> set cs. best_scored score cs = int (ca_column c)"
proof -
  let ?step = "\<lambda>i (best, best_score).
    if best_score < score i then (int (ca_column (cs ! i)), score i) else (best, best_score)"
  have "\<exists>c \<in> set cs. fst (fold ?step is acc) = int (ca_column c)"
    if "set is \<subseteq> {..<length cs}" "\<exists>c \<in> set cs. fst acc = int (ca_column c)" for "is" and acc :: "int \<times> 'a"
    using that
  proof (induction "is" arbitrary: acc)
    case (Cons i "is")
    have "\<exists>c \<in> set cs. fst (?step i acc) = int (ca_column c)"
      using Cons.prems by (cases acc) (auto intro: bexI[of _ "cs ! i"])
    then show ?case using Cons.IH[of "?step i acc"] Cons.prems(1) by simp
  qed simp
  note scan = this
  have "\<exists>c \<in> set cs. fst (int (ca_column (cs ! 0)), - 1 :: 'a) = int (ca_column c)"
    using assms by (intro bexI[of _ "cs ! 0"]) auto
  then show ?thesis unfolding best_scored_def by (intro scan) auto
qed

text \<open>
  C13. The branching rule returns a column of an integer variable that is fractional at the point, and -1
  only when there is none; and however many children strong branching solved in place, the bounds and
  the trail are the node's own again, bit for bit.
\<close>

theorem branching_column_fractional:
  fixes s :: "double search"
  assumes "select_branching_column sc order num solver x b s = (best, t)"
  shows "(if candidates sc s x = [] then best = - 1
      else \<exists>j \<in> set (integer_columns s). best = int j \<and> \<not> fractionality sc (x ! j) \<le> int_tol s) \<and>
    working t = working s \<and> saved t = saved s"
proof (cases "candidates sc s x = []")
  case True
  then show ?thesis using assms by (simp add: select_branching_column_def)
next
  case False
  let ?cs = "candidates sc s x"
  obtain pr s1 where r: "strong_branch sc order solver x b ?cs s = (pr, s1)" by fastforce
  then have t: "t = s1" and "\<exists>score. best = best_scored score ?cs"
    using assms False by (auto simp: select_branching_column_def Let_def)
  then obtain c where c: "c \<in> set ?cs" "best = int (ca_column c)" using best_scored_column[OF False] by blast
  have "working t = working s \<and> saved t = saved s"
    using r probes_restore unfolding t strong_branch_def Let_def by (metis snd_conv)
  moreover have "ca_column c \<in> set (integer_columns s) \<and> \<not> fractionality sc (x ! ca_column c) \<le> int_tol s"
    using c(1) by (auto simp: candidates_def)
  ultimately show ?thesis using False c(2) by auto
qed


section \<open>A small search\<close>

text \<open>One integer column \<open>0 \<le> x \<le> 5\<close> without a row, and a root without children.\<close>

definition demo_int_model :: "'a \<Rightarrow> 'a \<Rightarrow> 'a::{zero,one} model" where
  "demo_int_model lo hi = empty_model\<lparr>col_cost := [1], col_lower := [lo], col_upper := [hi], col_type := [kInteger],
     matrix := empty_sparse\<lparr>ncols := 1, frozen := True, column_starts := [0, 0]\<rparr>\<rparr>"

definition root_node :: "'a \<Rightarrow> 'a::zero tree_node" where
  "root_node b = \<lparr>node_parent = - 1, node_change = default_change, node_has_change = False, node_bound = b,
     node_depth = 0, node_fraction = 0, node_estimate = 0\<rparr>"

definition demo_search :: "'a model \<Rightarrow> 'a \<Rightarrow> 'a \<Rightarrow> 'a::{zero,one} search" where
  "demo_search m t b = \<lparr>working = m, saved = [], conflicts = empty_store 5, use_of_conflicts = kUsePropagate,
     analysing = False, conflict_pruned = False, nodes_explored = 0, conflict_tightenings = 0, int_tol = t,
     integer_columns = [0], original = m, quadratic = False, search_sense = 1, gap_target = 0,
     relative_target = 0, objective_step = 1, tree = [root_node b], open_nodes = [0],
     selection = kBestBound, selected_by_dive = 0, selected_by_policy = 0, deepest_node = 0,
     pseudo_down_sum = [0], pseudo_up_sum = [0], pseudo_down_count = [0], pseudo_up_count = [0],
     have_incumbent = False, incumbent_internal = 0, incumbent_x = [], plan_pool = new_pool [0] 0 False,
     pool_gap = 0, pool_complete = False\<rparr>"

theorem next_node_follows_policy_witness:
  "take_next_open_node double_scalar False (demo_search (demo_int_model 0 (Fin 5)) (Fin 0) NInf) =
     (fst (take_next_open_node double_scalar False (demo_search (demo_int_model 0 (Fin 5)) (Fin 0) NInf)),
      snd (take_next_open_node double_scalar False (demo_search (demo_int_model 0 (Fin 5)) (Fin 0) NInf))) \<and>
   mset (open_nodes (demo_search (demo_int_model 0 (Fin 5)) (Fin 0) NInf)) =
     add_mset (fst (take_next_open_node double_scalar False (demo_search (demo_int_model 0 (Fin 5)) (Fin 0) NInf)))
       (mset (open_nodes (snd (take_next_open_node double_scalar False (demo_search (demo_int_model 0 (Fin 5)) (Fin 0) NInf)))))"
proof -
  let ?s = "demo_search (demo_int_model 0 (Fin 5)) (Fin 0) NInf"
  have "open_nodes ?s \<noteq> []" "\<forall>c \<in> set (open_nodes ?s). \<not> isnan (policy_key (selection ?s) (tree ?s ! c)) \<and> c < index_max"
    by (simp_all add: demo_search_def policy_key_def root_node_def index_max_def)
  from next_node_follows_policy[OF this, of False "fst (take_next_open_node double_scalar False ?s)"
      "snd (take_next_open_node double_scalar False ?s)"]
  show ?thesis by simp
qed

theorem split_is_partition_witness:
  "\<exists>ns new. tree (snd (split_integral_node (exact_scalar 0 0) 0 [X 2] (demo_search (demo_int_model (X 0) (X 5)) (X 0) XMInf))) =
     [root_node XMInf] @ ns \<and>
   length (filter (in_region (\<lambda>_. 3)
     (tree (snd (split_integral_node (exact_scalar 0 0) 0 [X 2] (demo_search (demo_int_model (X 0) (X 5)) (X 0) XMInf))))) new) = 1"
proof -
  let ?s = "demo_search (demo_int_model (X 0) (X 5)) (X 0) XMInf"
  have f: "free_columns (exact_scalar 0 0) ?s [X 2] =
      [\<lparr>fc_column = 0, fc_value = xround (X 2), fc_lower = X 0, fc_upper = X 5\<rparr>]"
    by (simp add: free_columns_def exact_scalar_def demo_search_def demo_int_model_def)
  have older: "parents_older (tree ?s)" "0 < length (tree ?s)" "int_tol ?s = X 0" "0 \<le> (0 :: rat)"
    by (simp_all add: demo_search_def parents_older_def root_node_def)
  have p: "\<forall>j \<in> set (integer_columns ?s). (3 :: rat) \<in> \<int> \<and> xfinite ([X 2] ! j) \<and> lowers ?s ! j \<le> X 3 \<and> X 3 \<le> uppers ?s ! j"
    by (simp add: demo_search_def demo_int_model_def)
  have r: "split_integral_node (exact_scalar 0 0) 0 [X 2] ?s = (True, snd (split_integral_node (exact_scalar 0 0) 0 [X 2] ?s))"
    by (simp add: split_integral_node_def f)
  have "in_region (\<lambda>_. 3) (tree ?s) 0"
    by (simp add: in_region_def demo_search_def chain_step[of _ 0, simplified] root_node_def node_admits_def)
  moreover have "X 3 \<noteq> xround (X 2)" by (simp add: xround_def floor_eq_iff)
  ultimately show ?thesis
    using split_is_partition[OF older p r] by (auto simp: f) (auto simp: demo_search_def)
qed

theorem integral_bound_sound_witness:
  "integral_bound (exact_scalar 0 0) (demo_search (demo_int_model (X 0) (X 5)) (X 0) XMInf) (X (5 / 2)) \<le> X (of_int 3 * 1)"
  by (rule integral_bound_sound) (simp_all add: demo_search_def X_consts)

theorem incumbent_always_checked_witness:
  "incumbent_ok double_scalar (try_rounding double_scalar (\<lambda>_. 0) [Fin 2] (demo_search (demo_int_model 0 (Fin 5)) 0 NInf))"
proof -
  have "incumbent_ok double_scalar (demo_search (demo_int_model 0 (Fin 5)) 0 NInf)"
    by (simp add: incumbent_ok_def demo_search_def)
  from incumbent_always_checked[OF this] show ?thesis by blast
qed

theorem branching_column_fractional_witness:
  "working (snd (select_branching_column double_scalar (\<lambda>_. id) (\<lambda>_. 1)
     (\<lambda>_. \<lparr>rx_status = kInfeasible, rx_value = [], rx_dual_bound = 0\<rparr>) [Fin (5 / 2)] 0
     (demo_search (demo_int_model 0 (Fin 5)) 0 NInf))) = demo_int_model 0 (Fin 5)"
proof -
  let ?r = "select_branching_column double_scalar (\<lambda>_. id) (\<lambda>_. 1)
     (\<lambda>_. \<lparr>rx_status = kInfeasible, rx_value = [], rx_dual_bound = 0\<rparr>) [Fin (5 / 2)] 0
     (demo_search (demo_int_model 0 (Fin 5)) 0 NInf)"
  have "?r = (fst ?r, snd ?r)" by simp
  from branching_column_fractional[OF this] have "working (snd ?r) = working (demo_search (demo_int_model 0 (Fin 5)) 0 NInf)" by blast
  then show ?thesis by (simp add: demo_search_def)
qed

end
