(* ===== verification/Learning.thy ===== *)
theory Learning
  imports Branching
begin

text \<open>
  Conflict analysis inside the tree search (\<open>src/mip/branch_and_bound_conflicts.cpp\<close>): from a node
  proved infeasible to a stored conflict. The decisions of the node are collected from the tree, the
  tightest per column and direction; the infeasibility is proved again from the global bounds by
  propagation or the Farkas proof; the proof is cut down; and what is left goes into the store. The
  theorem: a learned conflict excludes no feasible point. Clocks and log lines are left out.
\<close>

section \<open>The analysis\<close>

record conflict_settings =
  conflicts_enabled :: bool
  minimize_enabled :: bool
  conflict_max_size :: nat

definition kConflictMinimizeChecks :: int where "kConflictMinimizeChecks = 32"
definition kConflictChecksPerNode :: int where "kConflictChecksPerNode = 8"
definition kConflictChecksBase :: int where "kConflictChecksBase = 2000"

text \<open>The options are read before the search; \<open>conflict_use\<close> and the store go into its state.\<close>

definition init_conflicts ::
    "bool \<Rightarrow> bool \<Rightarrow> string \<Rightarrow> nat \<Rightarrow> nat \<Rightarrow> ('a, 'z) node_state_scheme \<Rightarrow>
     conflict_settings \<times> ('a, 'z) node_state_scheme" where
  "init_conflicts enabled minimize use max_size max_held s =
     (\<lparr>conflicts_enabled = enabled, minimize_enabled = minimize, conflict_max_size = max_size\<rparr>,
      s\<lparr>use_of_conflicts := (if use = ''none'' then kUseNone else if use = ''prune'' then kUsePrune else kUsePropagate),
        conflicts := empty_store (if enabled then max_held else 0)\<rparr>)"

text \<open>The decisions on the way from the root, and the tightest per column and direction at the position
  of its last occurrence.\<close>

definition chain_literals :: "'a tree_node list \<Rightarrow> 'a conflict_literal list" where
  "chain_literals walked =
     map (\<lambda>n. ConflictLiteral (dc_column (node_change n)) (dc_upper (node_change n)) (dc_value (node_change n)))
       (filter node_has_change (rev walked))"

definition tightest_value :: "'a::ord conflict_literal list \<Rightarrow> 'a conflict_literal \<Rightarrow> 'a conflict_literal" where
  "tightest_value ls l = ConflictLiteral (lit_column l) (lit_upper l)
     (foldl (\<lambda>v other. if lit_key other \<noteq> lit_key l then v
        else if lit_upper l then cmin v (lit_value other) else cmax v (lit_value other)) (lit_value l) ls)"

definition decisions :: "'a::ord conflict_literal list \<Rightarrow> 'a conflict_literal list" where
  "decisions ls = map (\<lambda>k. tightest_value ls (ls ! k))
     (filter (\<lambda>k. \<not> list_ex (\<lambda>q. lit_key (ls ! q) = lit_key (ls ! k)) [Suc k..<length ls]) [0..<length ls])"

text \<open>The check every stored conflict passes, from the global bounds; \<open>leave\<close> undoes it.\<close>

definition impose :: "'a::{one,plus,minus,ord} conflict_literal list \<Rightarrow> ('a, 'z) node_state_scheme \<Rightarrow> ('a, 'z) node_state_scheme" where
  "impose ls s = fold imply_literal ls (s\<lparr>saved := []\<rparr>)"

definition verify_literals ::
    "'a::{zero,one,plus,minus,times,divide,abs,ord} scalar \<Rightarrow> 'a farkas_proof \<Rightarrow> ('a, 'z) node_state_scheme \<Rightarrow>
     'a conflict_literal list \<Rightarrow> bool \<times> ('a, 'z) node_state_scheme" where
  "verify_literals sc proof s ls =
     (let (open_box, s1) = propagate sc (impose ls s);
          proved = (\<not> open_box \<or> usable proof \<and>
            farkas_contradicts (sc_fin sc) (feas_tol sc) (sc_lit sc (1 / 10 ^ 12)) proof (lowers s1) (uppers s1))
      in (proved, leave s1))"

text \<open>Proving the node's decisions: the multipliers of the engine, then those with the other sign. The
  result holds the proof that was used last and the number of checks.\<close>

definition no_proof :: "'a::zero farkas_proof" where
  "no_proof = \<lparr>proof_d = [], proof_required = 0, proof_weight = 0, usable = False\<rparr>"

definition prove_chain ::
    "'a::{zero,one,plus,minus,uminus,times,divide,abs,ord} scalar \<Rightarrow> conflict_source \<Rightarrow> 'a list option \<Rightarrow>
     'a conflict_literal list \<Rightarrow> ('a, 'z) node_state_scheme \<Rightarrow> bool \<times> 'a farkas_proof \<times> int" where
  "prove_chain sc source farkas ls s =
     (let aggregate = aggregate_farkas (sc_isfinite sc) (sc_fin sc) (working s) in
      case source of
        kLp \<Rightarrow>
          (case farkas of
             None \<Rightarrow> (False, no_proof, 0)
           | Some y \<Rightarrow>
               if y = [] then (False, no_proof, 0)
               else if fst (verify_literals sc (aggregate y) s ls) then (True, aggregate y, 1)
               else
                 let flipped = aggregate (map uminus y)
                 in (fst (verify_literals sc flipped s ls), flipped, 2))
      | kPropagation \<Rightarrow> (fst (verify_literals sc no_proof s ls), no_proof, 1))"

definition leaned :: "'a::{zero,ord} farkas_proof \<Rightarrow> 'a conflict_literal list \<Rightarrow> 'a conflict_literal list" where
  "leaned proof ls = filter (\<lambda>l. let dj = proof_d proof ! lit_column l in
     lit_upper l \<and> 0 < dj \<or> \<not> lit_upper l \<and> dj < 0) ls"

text \<open>Cutting a proved conflict down: the literals the proof leans on when they prove it alone, then
  the deletion filter. The second component is the number of checks.\<close>

definition shrink_conflict ::
    "bool \<Rightarrow> ('a::{zero,ord} conflict_literal list \<Rightarrow> bool) \<Rightarrow> 'a farkas_proof \<Rightarrow> 'a conflict_literal list \<Rightarrow>
     'a conflict_literal list \<times> int" where
  "shrink_conflict minimize verify proof ls =
     (let short = (if usable proof then leaned proof ls else []);
          tried = short \<noteq> [] \<and> length short < length ls;
          start = (if tried \<and> verify short then short else ls);
          checks = (if tried then 1 else 0)
      in if minimize \<and> 1 < length start then
           let (kept, used) = minimize_conflict start (literal_eq (last start) (last ls)) kConflictMinimizeChecks verify
           in (kept, checks + used)
         else (start, checks))"

definition store_conflict ::
    "conflict_settings \<Rightarrow> conflict_source \<Rightarrow> nat \<Rightarrow> 'a::ord conflict_literal list \<Rightarrow>
     conflict_stats \<times> ('a, 'z) node_state_scheme \<Rightarrow> conflict_stats \<times> ('a, 'z) node_state_scheme" where
  "store_conflict cfg source chain_size ls = (\<lambda>(st, s).
     if conflict_max_size cfg < length ls then (st\<lparr>cs_too_long := cs_too_long st + 1\<rparr>, s)
     else
       let (added, store) = store_add (canonical ls) source (nodes_explored s) (conflicts s);
           s1 = s\<lparr>conflicts := store\<rparr>
       in if \<not> added then (st, s1)
          else (st\<lparr>cs_learned := cs_learned st + 1,
                   cs_minimized := cs_minimized st + (if length ls < chain_size then 1 else 0),
                   cs_sizes := cs_sizes st @ [int (length ls)]\<rparr>, s1))"

text \<open>The whole handler. Every check restores the bounds and empties the trail, so the state it leaves
  is the one it found with an empty trail and, when something was checked, the flag of the last
  propagation cleared. The result is None only if the walk to the root does not end.\<close>

definition learn_from ::
    "'a::{zero,one,plus,minus,uminus,times,divide,abs,ord} scalar \<Rightarrow> conflict_settings \<Rightarrow> conflict_source \<Rightarrow>
     'a list option \<Rightarrow> 'a tree_node list \<Rightarrow> conflict_stats \<Rightarrow> ('a, 'z) search_scheme \<Rightarrow>
     conflict_stats \<times> ('a, 'z) search_scheme" where
  "learn_from sc cfg source farkas walked st s =
     (let st1 = st\<lparr>cs_detected := cs_detected st + 1\<rparr>;
          ls = decisions (chain_literals walked) in
      if ls = [] then (st1, s)
      else
        let s1 = s\<lparr>analysing := True\<rparr>;
            (proved, proof, checks) = prove_chain sc source farkas ls s1;
            s2 = (if 0 < checks then (snd (verify_literals sc proof s1 ls))\<lparr>analysing := False\<rparr> else s)
        in if \<not> proved then
             (st1\<lparr>cs_checks := cs_checks st + checks, cs_rejected := cs_rejected st + 1\<rparr>, s2)
           else
             let (kept, more_checks) = shrink_conflict (minimize_enabled cfg) (\<lambda>l. fst (verify_literals sc proof s1 l)) proof ls
             in store_conflict cfg source (length ls) kept
                  (st1\<lparr>cs_checks := cs_checks st + checks + more_checks\<rparr>, s2))"

definition analyze_conflict ::
    "'a::{zero,one,plus,minus,uminus,times,divide,abs,ord} scalar \<Rightarrow> conflict_settings \<Rightarrow> nat \<Rightarrow> conflict_source \<Rightarrow>
     'a list option \<Rightarrow> conflict_stats \<times> ('a, 'z) search_scheme \<Rightarrow> (conflict_stats \<times> ('a, 'z) search_scheme) option" where
  "analyze_conflict sc cfg i source farkas = (\<lambda>(st, s).
     if \<not> conflicts_enabled cfg \<or> i = 0 then Some (st, s)
     else if kConflictChecksPerNode * nodes_explored s + kConflictChecksBase < cs_checks st then Some (st, s)
     else map_option (\<lambda>walked. learn_from sc cfg source farkas walked st s) (chain (tree s) (int i)))"

section \<open>An analysis leaves no trace\<close>

lemma leave_eq:
  fixes s :: "('a, 'z) node_state_scheme"
  shows "leave s = s\<lparr>working := base_model s, saved := []\<rparr>"
proof -
  have "fold undo cs t = t\<lparr>working := fold undo_model cs (working t)\<rparr>" for cs and t :: "('a, 'z) node_state_scheme"
  proof (induction cs arbitrary: t)
    case (Cons c cs)
    have "undo c t = t\<lparr>working := undo_model c (working t)\<rparr>"
      by (simp add: undo_def undo_model_def set_upper_def set_lower_def)
    then show ?case using Cons.IH[of "undo c t"] by simp
  qed simp
  from this[of "rev (saved s)" s] show ?thesis by (simp add: leave_def base_model_def)
qed

lemma verify_state:
  assumes "analysing s"
  shows "snd (verify_literals sc proof s ls) = s\<lparr>saved := [], conflict_pruned := False\<rparr>"
proof -
  let ?s0 = "impose ls s" and ?s1 = "snd (propagate sc (impose ls s))"
  have f0: "domain_frame (s\<lparr>saved := []\<rparr>) ?s0"
    unfolding impose_def by (rule framed.fold_one) (rule framed.literal)
  then have s0: "?s0 = s\<lparr>working := working ?s0, saved := saved ?s0\<rparr>"
    using assms by (simp add: domain_frame_def)
  have f1: "domain_frame (?s0\<lparr>conflict_pruned := False\<rparr>) ?s1" by (rule framed.propagated)
  have "analysing (?s0\<lparr>conflict_pruned := False\<rparr>)" using f0 assms by (simp add: domain_frame_def)
  then have s1: "?s1 = ?s0\<lparr>conflict_pruned := False, working := working ?s1, saved := saved ?s1\<rparr>"
    using f1 by (simp add: domain_frame_def)
  have "base_model ?s0 = base_model (s\<lparr>saved := []\<rparr>)"
    unfolding impose_def by (rule base_model_fold_id) (rule restoring.literal)
  then have "base_model ?s1 = working s" by (simp add: base_model_def[of "s\<lparr>saved := []\<rparr>"])
  then have "leave ?s1 = s\<lparr>saved := [], conflict_pruned := False\<rparr>"
    by (subst leave_eq, subst s1, subst s0) simp
  then show ?thesis by (simp add: verify_literals_def Let_def split_beta)
qed

section \<open>The literals of an analysis are decisions of the node\<close>

lemma tightest_value_in: "l \<in> set ls \<Longrightarrow> tightest_value ls l \<in> set ls"
proof -
  assume l: "l \<in> set ls"
  let ?step = "\<lambda>v other. if lit_key other \<noteq> lit_key l then v
        else if lit_upper l then cmin v (lit_value other) else cmax v (lit_value other)"
  have "set ks \<subseteq> set ls \<Longrightarrow> ConflictLiteral (lit_column l) (lit_upper l) v \<in> set ls \<Longrightarrow>
      ConflictLiteral (lit_column l) (lit_upper l) (foldl ?step v ks) \<in> set ls" for ks v
  proof (induction ks arbitrary: v)
    case (Cons k ks)
    have "ConflictLiteral (lit_column l) (lit_upper l) (?step v k) \<in> set ls"
      using Cons.prems by (cases k) (auto simp: lit_key_def cmin_def cmax_def)
    then show ?case using Cons.IH Cons.prems(1) by simp
  qed simp
  then show ?thesis using l by (simp add: tightest_value_def)
qed

lemma decisions_in: "set (decisions ls) \<subseteq> set ls"
  by (auto simp: decisions_def intro: tightest_value_in)

lemma tighten_in: "set (tighten l cs) \<subseteq> insert l (set cs)"
proof (induction l cs rule: tighten.induct)
  case (2 l c cs)
  have "tightened_by c l = c \<or> tightened_by c l = l" if "lit_key l = lit_key c"
    using that by (cases l; cases c) (auto simp: tightened_by_def lit_key_def cmin_def cmax_def)
  then show ?case using 2 by auto
qed simp

lemma canonical_in: "set (canonical ls) \<subseteq> set ls"
proof -
  have "set (fold tighten ls cs) \<subseteq> set ls \<union> set cs" for cs
  proof (induction ls arbitrary: cs)
    case (Cons l ls)
    then show ?case using tighten_in[of l cs] by fastforce
  qed simp
  then show ?thesis by (fastforce simp: canonical_def)
qed

lemma xle_cmin: "\<not> xnan a \<Longrightarrow> \<not> xnan b \<Longrightarrow> y \<le> cmin a b \<Longrightarrow> y \<le> a \<and> y \<le> b"
  and cmax_xle: "\<not> xnan a \<Longrightarrow> \<not> xnan b \<Longrightarrow> cmax a b \<le> y \<Longrightarrow> a \<le> y \<and> b \<le> y"
  by (cases a; cases b; cases y; auto simp: cmin_def cmax_def split: if_splits)+

lemma tighten_true:
  assumes "\<forall>c \<in> set (tighten l cs). lit_true x c" "\<not> xnan (lit_value l)" "\<forall>c \<in> set cs. \<not> xnan (lit_value c)"
  shows "lit_true x l \<and> (\<forall>c \<in> set cs. lit_true x c)"
  using assms
proof (induction l cs rule: tighten.induct)
  case (2 l c cs)
  have "lit_true x l \<and> lit_true x c" if "lit_key l = lit_key c" "lit_true x (tightened_by c l)"
    using that 2(3,4) xle_cmin[of "lit_value c" "lit_value l" "x (lit_column l)"]
      cmax_xle[of "lit_value c" "lit_value l" "x (lit_column l)"]
    by (cases "lit_upper l") (auto simp: tightened_by_def lit_key_def lit_true_def)
  then show ?case using 2 by (auto split: if_splits)
qed simp

lemma canonical_true:
  assumes "\<forall>l \<in> set ls. \<not> xnan (lit_value l)" "\<forall>c \<in> set (canonical ls). lit_true x c"
  shows "\<forall>l \<in> set ls. lit_true x l"
proof -
  have "\<forall>c \<in> set (fold tighten ls cs). lit_true x c \<Longrightarrow> \<forall>l \<in> set ls. \<not> xnan (lit_value l) \<Longrightarrow>
      \<forall>l \<in> set cs. \<not> xnan (lit_value l) \<Longrightarrow> \<forall>l \<in> set (ls @ cs). lit_true x l" for cs
  proof (induction ls arbitrary: cs)
    case (Cons l ls)
    have "\<forall>c \<in> set (tighten l cs). \<not> xnan (lit_value c)" using tighten_in[of l cs] Cons.prems(2,3) by auto
    then have "\<forall>c \<in> set (ls @ tighten l cs). lit_true x c" using Cons.IH[of "tighten l cs"] Cons.prems by simp
    then show ?case using tighten_true[of l cs x] Cons.prems(2,3) by auto
  qed simp
  then show ?thesis using assms by (simp add: canonical_def)
qed


section \<open>The Farkas proof over exact numbers with infinities\<close>

lemma sum_filter_keys:
  fixes f :: "'b \<Rightarrow> rat" and k :: "'b \<Rightarrow> nat"
  assumes "\<forall>x \<in> set xs. k x < n"
  shows "(\<Sum>i<n. z i * (\<Sum>x\<leftarrow>filter (\<lambda>x. k x = i) xs. f x)) = (\<Sum>x\<leftarrow>xs. z (k x) * f x)"
  using assms
proof (induction xs)
  case (Cons x xs)
  have "(\<Sum>i<n. z i * (\<Sum>y\<leftarrow>filter (\<lambda>x. k x = i) (x # xs). f y)) =
      (\<Sum>i<n. (if i = k x then z i * f x else 0) + z i * (\<Sum>y\<leftarrow>filter (\<lambda>x. k x = i) xs. f y))"
    by (intro sum.cong) (auto simp: algebra_simps)
  also have "\<dots> = (\<Sum>i<n. if i = k x then z i * f x else 0) + (\<Sum>y\<leftarrow>xs. z (k y) * f y)"
    using Cons by (simp add: sum.distrib)
  also have "(\<Sum>i<n. if i = k x then z i * f x else 0) = z (k x) * f x"
    using Cons.prems sum.delta[of "{..<n}" "k x" "\<lambda>i. z i * f x"] by simp
  finally show ?case by simp
qed simp

lemma sum_concat: "sum_list (concat xss) = (\<Sum>xs\<leftarrow>xss. sum_list xs)" for xss :: "rat list list"
  by (induction xss) simp_all

text \<open>The rows weighted by multipliers are the columns weighted by the aggregated coefficients.\<close>

lemma rows_to_columns:
  assumes ok: "csc_ok (matrix m)" and dims: "nrows (matrix m) = num_rows m" "ncols (matrix m) = num_cols m"
  shows "(\<Sum>i<num_rows m. z i * row_value m p i) =
    (\<Sum>j<num_cols m. (\<Sum>(r, v)\<leftarrow>column (matrix m) j. xval v * z r) * p j)"
proof -
  let ?M = "matrix m"
  have row: "row_value m p i = (\<Sum>x\<leftarrow>filter (\<lambda>x. fst x = i) (walk_columns ?M). xval (snd (snd x)) * p (fst (snd x)))"
    if "i < num_rows m" for i
  proof -
    have "csr_row (csr_build ?M) i = column (transpose_matrix ?M) i"
      by (simp add: csr_row_def csr_build_def column_def Let_def)
    then have "csr_row (csr_build ?M) i = row_entries ?M i"
      using transpose_column[OF ok, of i] that dims by simp
    then show ?thesis by (simp add: row_value_def row_entries_def o_def split_beta)
  qed
  have bound: "\<forall>x \<in> set (walk_columns ?M). fst x < num_rows m"
    using csc_row_bound[OF ok] dims by (fastforce simp: walk_columns_def)
  have "(\<Sum>i<num_rows m. z i * row_value m p i) =
      (\<Sum>x\<leftarrow>walk_columns ?M. z (fst x) * (xval (snd (snd x)) * p (fst (snd x))))"
    using sum_filter_keys[OF bound, of z] row by simp
  also have "\<dots> = (\<Sum>j\<leftarrow>[0..<num_cols m]. \<Sum>(r, v)\<leftarrow>column ?M j. z r * (xval v * p j))"
    by (simp add: walk_columns_def dims sum_concat o_def case_prod_unfold map_concat)
  also have "\<dots> = (\<Sum>j\<leftarrow>[0..<num_cols m]. (\<Sum>(r, v)\<leftarrow>column ?M j. xval v * z r) * p j)"
    by (simp add: case_prod_unfold sum_list_const_mult ac_simps)
  finally show ?thesis by (simp add: interv_sum_list_conv_sum_set_nat atLeast0LessThan)
qed

lemma aggregate_rows_exact:
  assumes "aggregate_rows xfinite m y (X L) is acc = Inr q" "proof_required acc = X r0" "proof_weight acc = X w0"
    "L \<noteq> 0" "\<forall>i \<in> set is. y ! i = X (yv i) \<and> row_lower m ! i \<le> X (rv i) \<and> X (rv i) \<le> row_upper m ! i"
  shows "\<exists>r w. proof_required q = X r \<and> proof_weight q = X w \<and> r \<le> r0 + (\<Sum>i\<leftarrow>is. yv i / L * rv i)"
  using assms
proof (induction "is" arbitrary: acc r0 w0)
  case (Cons i "is")
  let ?c = "yv i / L"
  let ?b = "if 0 < ?c then row_lower m ! i else row_upper m ! i"
  have c: "y ! i div X L = X ?c" using Cons.prems(4,5) by simp
  show ?case
  proof (cases "?c = 0")
    case True
    then have "feq (y ! i div X L) 0" unfolding c by (simp add: X_consts)
    then have "aggregate_rows xfinite m y (X L) is acc = Inr q" using Cons.prems(1) by (simp add: Let_def)
    from Cons.IH[OF this Cons.prems(2-4)] show ?thesis using Cons.prems(5) True by auto
  next
    case False
    then have nz: "\<not> feq (y ! i div X L) 0" unfolding c by (simp add: X_consts)
    have b: "(if 0 < y ! i div X L then row_lower m ! i else row_upper m ! i) = ?b" unfolding c by (simp add: X_consts)
    have fin: "xfinite ?b" using Cons.prems(1) nz b by (auto simp: Let_def split: if_splits)
    then obtain bv where bv: "?b = X bv" by (cases ?b) auto
    let ?acc = "acc\<lparr>proof_required := X (r0 + ?c * bv), proof_weight := proof_weight acc + \<bar>X ?c\<bar> * cmax 1 \<bar>X bv\<bar>\<rparr>"
    have step: "aggregate_rows xfinite m y (X L) is ?acc = Inr q"
      using Cons.prems(1,2) nz b fin bv by (simp add: Let_def c)
    have w: "\<exists>w. proof_weight ?acc = X w" using Cons.prems(3) by (auto simp: cmax_def X_consts)
    have le: "?c * bv \<le> ?c * rv i"
    proof (cases "0 < ?c")
      case True
      then have "bv \<le> rv i" using bv Cons.prems(5) by simp
      then show ?thesis using True by (intro mult_left_mono) simp_all
    next
      case neg: False
      then have "rv i \<le> bv" using bv Cons.prems(5) by simp
      then show ?thesis using neg by (intro mult_left_mono_neg) simp_all
    qed
    from w obtain w1 where "proof_weight ?acc = X w1" by blast
    from Cons.IH[OF step _ this Cons.prems(4)] Cons.prems(5)
    obtain r w where "proof_required q = X r" "proof_weight q = X w" "r \<le> r0 + ?c * bv + (\<Sum>i\<leftarrow>is. yv i / L * rv i)"
      by auto
    then show ?thesis using le by (intro exI[of _ r] exI[of _ w]) simp
  qed
qed simp

lemma exact_column:
  assumes "\<forall>e \<in> set es. xfinite (snd e)" "\<forall>e \<in> set es. y ! fst e = X (yv (fst e))" "L \<noteq> 0"
  shows "foldl (\<lambda>s (r, v). s + v * y ! r div X L) (X a) es = X (a + (\<Sum>(r, v)\<leftarrow>es. xval v * (yv r / L)))"
  using assms
proof (induction es arbitrary: a)
  case (Cons e es)
  obtain r v where e: "e = (r, v)" by (cases e)
  obtain q where v: "v = X q" using Cons.prems(1) e by (cases v) auto
  show ?case using Cons.IH[of "a + q * (yv r / L)"] Cons.prems by (simp add: e v add.assoc)
qed simp

lemma reach_exact:
  assumes "fold (reach_step xfinite d lo hi) [0..<n] (Some (X 0, X 0)) = Some (rc, mg)"
    "\<forall>j < n. d ! j = X (dv j) \<and> lo ! j \<le> X (p j) \<and> X (p j) \<le> hi ! j"
  shows "\<exists>r g. rc = X r \<and> mg = X g \<and> 0 \<le> g \<and> (\<Sum>j<n. dv j * p j) \<le> r"
  using assms
proof (induction n arbitrary: rc mg)
  case (Suc n)
  obtain rc0 mg0 where part: "fold (reach_step xfinite d lo hi) [0..<n] (Some (X 0, X 0)) = Some (rc0, mg0)"
  proof (cases "fold (reach_step xfinite d lo hi) [0..<n] (Some (X 0, X 0))")
    case None
    then show ?thesis using Suc.prems(1) by simp
  qed auto
  from Suc.IH[OF part] Suc.prems(2) obtain r g where rg: "rc0 = X r" "mg0 = X g" "0 \<le> g" "(\<Sum>j<n. dv j * p j) \<le> r" by auto
  let ?b = "if 0 < dv n then hi ! n else lo ! n"
  have dn: "d ! n = X (dv n)" and box: "lo ! n \<le> X (p n)" "X (p n) \<le> hi ! n" using Suc.prems(2) by auto
  have last: "reach_step xfinite d lo hi n (Some (X r, X g)) = Some (rc, mg)" using Suc.prems(1) part rg by simp
  show ?case
  proof (cases "dv n = 0")
    case True
    then show ?thesis using last rg by (auto simp: reach_step_def dn X_consts)
  next
    case False
    then have "xfinite ?b" using last by (auto simp: reach_step_def dn X_consts Let_def split: if_splits)
    then obtain bv where bv: "?b = X bv" by (cases ?b) auto
    have "dv n * p n \<le> dv n * bv"
      using False bv box by (cases "0 < dv n") (auto intro: mult_left_mono mult_left_mono_neg)
    moreover have "rc = X (r + dv n * bv)" "mg = X (g + \<bar>dv n * bv\<bar>)"
      using last False bv by (auto simp: reach_step_def dn X_consts Let_def split: if_splits)
    ultimately show ?thesis using rg by auto
  qed
qed simp


lemma largest_exact:
  assumes "\<forall>v \<in> set y. xfinite v"
  shows "\<exists>L. foldl (\<lambda>s v. cmax s \<bar>v\<bar>) (X a) y = X L"
  using assms
proof (induction y arbitrary: a)
  case (Cons v y)
  then obtain q where "v = X q" by (cases v) auto
  then show ?case using Cons by (simp add: cmax_def)
qed simp

lemma scaled_sum:
  assumes dims: "ncols (matrix m) = num_cols m" "\<forall>j < num_cols m. \<forall>e \<in> set (column (matrix m) j). xfinite (snd e) \<and> fst e < num_rows m"
    and y: "\<forall>i < num_rows m. y ! i = X (yv i)" and L: "L \<noteq> 0" and j: "j < num_cols m"
  shows "scaled_aggregate_column m y (X L) j = X (\<Sum>(r, v)\<leftarrow>column (matrix m) j. xval v * (yv r / L))"
  unfolding scaled_aggregate_column_def X_consts
  by (subst exact_column[where yv = yv]) (use assms in auto)

lemma aggregate_stops: "aggregate_rows fin m y L is acc = Inl q \<Longrightarrow> usable q = usable acc"
proof (induction "is" arbitrary: acc)
  case (Cons i "is")
  then show ?case by (fastforce simp: Let_def split: if_splits)
qed simp

text \<open>A point that meets the rows and lies in the box is never contradicted.\<close>

lemma farkas_never_contradicts:
  assumes a: "admits p s" and tol: "0 \<le> tol" "0 \<le> eps"
    and box: "\<forall>j < num_cols (working s). lo ! j \<le> X (p j) \<and> X (p j) \<le> hi ! j"
  shows "\<not> farkas_contradicts xfinite (X tol) (X eps) (aggregate_farkas xfinite xfinite (working s) y) lo hi"
proof
  let ?m = "working s" and ?pf = "aggregate_farkas xfinite xfinite (working s) y"
  assume c: "farkas_contradicts xfinite (X tol) (X eps) ?pf lo hi"
  have "point_ok p (static_part s)" using a by (simp add: admits_def)
  then have ok: "csc_ok (matrix ?m)" and dims: "nrows (matrix ?m) = num_rows ?m" "ncols (matrix ?m) = num_cols ?m"
    and fin: "\<forall>j < num_cols ?m. \<forall>e \<in> set (column (matrix ?m) j). xfinite (snd e)"
    by (simp_all add: point_ok_def static_part_def)
  have ent: "\<forall>j < num_cols ?m. \<forall>e \<in> set (column (matrix ?m) j). xfinite (snd e) \<and> fst e < num_rows ?m"
    using fin csc_row_bound[OF ok] dims by fastforce
  define yv where "yv i = xval (y ! i)" for i
  have us: "usable ?pf" using c by (simp add: farkas_contradicts_def)
  then have len: "length y = num_rows ?m" and yfin: "\<forall>v \<in> set y. xfinite v"
    by (auto simp: aggregate_farkas_def Let_def list_ex_iff split: if_splits)
  obtain L where L: "foldl (\<lambda>s v. cmax s \<bar>v\<bar>) 0 y = X L"
    using largest_exact[OF yfin, of 0] by (auto simp: X_consts)
  have y: "\<forall>i < num_rows ?m. y ! i = X (yv i)"
  proof (intro allI impI)
    fix i assume "i < num_rows ?m"
    then have "xfinite (y ! i)" using yfin len by simp
    then show "y ! i = X (yv i)" by (cases "y ! i") (simp_all add: yv_def)
  qed
  have nz: "L \<noteq> 0" using us by (auto simp: aggregate_farkas_def Let_def L X_consts L[unfolded X_consts] split: if_splits)
  obtain q where q: "aggregate_rows xfinite ?m y (X L) [0..<num_rows ?m] no_proof = Inr q"
    and pf: "?pf = q\<lparr>proof_d := map (scaled_aggregate_column ?m y (X L)) [0..<num_cols ?m], usable := True\<rparr>"
  proof (cases "aggregate_rows xfinite ?m y (X L) [0..<num_rows ?m] no_proof")
    case (Inl q)
    from aggregate_stops[OF this] have "\<not> usable q" by (simp add: no_proof_def)
    with us Inl show ?thesis
      by (auto simp: aggregate_farkas_def Let_def L no_proof_def split: if_splits)
  next
    case (Inr q)
    with us that show ?thesis by (auto simp: aggregate_farkas_def Let_def L no_proof_def split: if_splits)
  qed
  have "\<forall>i \<in> set [0..<num_rows ?m]. y ! i = X (yv i) \<and> row_lower ?m ! i \<le> X (row_value ?m p i) \<and>
      X (row_value ?m p i) \<le> row_upper ?m ! i"
    using y admits_row[OF a] by simp
  from aggregate_rows_exact[OF q _ _ nz this, of 0 0]
  obtain r w where rw: "proof_required ?pf = X r" "proof_weight ?pf = X w"
    and r: "r \<le> (\<Sum>i\<leftarrow>[0..<num_rows ?m]. yv i / L * row_value ?m p i)"
    by (auto simp: no_proof_def X_consts pf)
  define dv where "dv j = (\<Sum>(r, v)\<leftarrow>column (matrix ?m) j. xval v * (yv r / L))" for j
  have d: "\<forall>j < num_cols ?m. proof_d ?pf ! j = X (dv j) \<and> lo ! j \<le> X (p j) \<and> X (p j) \<le> hi ! j"
    using scaled_sum[OF dims(2) ent y nz] box by (simp add: pf dv_def)
  have n: "length (proof_d ?pf) = num_cols ?m" by (simp add: pf)
  obtain rc mg where fold: "fold (reach_step xfinite (proof_d ?pf) lo hi) [0..<num_cols ?m] (Some (X 0, X 0)) = Some (rc, mg)"
    and gap: "X tol * cmax (cmax 1 (X w)) \<bar>X r\<bar> + X eps * mg < X r - rc"
    using c by (auto simp: farkas_contradicts_def n rw X_consts split: option.splits)
  from reach_exact[OF fold d] obtain rv g where rg: "rc = X rv" "mg = X g" "0 \<le> g" "(\<Sum>j<num_cols ?m. dv j * p j) \<le> rv"
    by blast
  have "(\<Sum>i\<leftarrow>[0..<num_rows ?m]. yv i / L * row_value ?m p i) = (\<Sum>j<num_cols ?m. dv j * p j)"
    using rows_to_columns[OF ok dims, of "\<lambda>i. yv i / L" p]
    by (simp add: dv_def interv_sum_list_conv_sum_set_nat atLeast0LessThan)
  then have "r \<le> rv" using r rg by simp
  moreover have "X tol * cmax (cmax 1 (X w)) \<bar>X r\<bar> + X eps * mg = X (tol * max (max 1 w) \<bar>r\<bar> + eps * g)"
    by (auto simp: cmax_def max_def X_consts rg)
  then have "tol * max (max 1 w) \<bar>r\<bar> + eps * g < r - rv" using gap rg by simp
  moreover have "0 \<le> tol * max (max 1 w) \<bar>r\<bar>" "0 \<le> eps * g" using tol rg by auto
  ultimately show False by linarith
qed


section \<open>A learned conflict excludes no feasible point\<close>

lemma admits_same:
  "working t = working s \<Longrightarrow> conflicts t = conflicts s \<Longrightarrow> int_tol t = int_tol s \<Longrightarrow>
    integer_columns t = integer_columns s \<Longrightarrow> admits p t = admits p s"
  by (simp add: admits_def static_part_def)

lemma impose_keeps:
  assumes "admits p s" "\<forall>l \<in> set ls. lit_true (\<lambda>j. X (p j)) l"
  shows "keeps p s (impose ls s)"
proof -
  have "admits p t \<Longrightarrow> \<forall>l \<in> set ls. lit_true (\<lambda>j. X (p j)) l \<Longrightarrow> keeps p t (fold imply_literal ls t)" for t :: "(xnum, 'z) node_state_scheme"
  proof (induction ls arbitrary: t)
    case (Cons l ls)
    have k: "keeps p t (imply_literal l t)"
      using Cons.prems keeps_lower[OF Cons.prems(1)] keeps_upper[OF Cons.prems(1)] keeps_refl[OF Cons.prems(1)]
      by (auto simp: imply_literal_def lit_true_def)
    from keeps_trans[OF k Cons.IH[OF keeps_admits[OF k]]] Cons.prems(2) show ?case by simp
  qed (simp add: keeps_refl)
  from this[of "s\<lparr>saved := []\<rparr>"] assms show ?thesis
    by (auto simp: impose_def keeps_def static_part_def admits_same[of "s\<lparr>saved := []\<rparr>" s])
qed

text \<open>The proofs the analysis uses: none, or the aggregate of some multipliers.\<close>

definition proof_of :: "(xnum, 'z) node_state_scheme \<Rightarrow> xnum farkas_proof set" where
  "proof_of s = insert no_proof (range (aggregate_farkas xfinite xfinite (working s)))"

lemma verified_conflict_falsified:
  assumes a: "admits p s" and ft: "0 \<le> ft" and pf: "proof \<in> proof_of s"
    and v: "fst (verify_literals (exact_scalar ft mt) proof s ls)"
  shows "\<exists>l \<in> set ls. \<not> lit_true (\<lambda>j. X (p j)) l"
proof (rule ccontr)
  assume "\<not> ?thesis"
  then have k0: "keeps p s (impose ls s)" using impose_keeps[OF a] by blast
  obtain ok t where r: "propagate (exact_scalar ft mt) (impose ls s) = (ok, t)" by fastforce
  from propagate_keeps[OF ft keeps_admits[OF k0] r] have ok: "ok" and k: "keeps p s t" using keeps_trans[OF k0] by blast+
  have "num_cols (working t) = num_cols (working s)" using k static_eqs(1)[of t s] by (simp add: keeps_def)
  then have box: "\<forall>j < num_cols (working s). lowers t ! j \<le> X (p j) \<and> X (p j) \<le> uppers t ! j"
    using admits_box[OF keeps_admits[OF k]] by simp
  have "usable proof \<and> farkas_contradicts xfinite (X ft) (X (1 / 10 ^ 12)) proof (lowers t) (uppers t)"
    using v ok r by (simp add: verify_literals_def exact_scalar_def)
  moreover have "\<not> usable no_proof" by (simp add: no_proof_def)
  ultimately obtain y where "proof = aggregate_farkas xfinite xfinite (working s) y"
    and "farkas_contradicts xfinite (X ft) (X (1 / 10 ^ 12)) proof (lowers t) (uppers t)"
    using pf by (auto simp: proof_of_def)
  then show False using farkas_never_contradicts[OF a ft _ box, of "1 / 10 ^ 12" y] by simp
qed

lemma prove_chain_sound:
  assumes "prove_chain (exact_scalar ft mt) source farkas ls s = (True, proof, checks)"
  shows "proof \<in> proof_of s \<and> fst (verify_literals (exact_scalar ft mt) proof s ls) \<and> 0 < checks"
  using assms
  by (auto simp: prove_chain_def Let_def proof_of_def exact_scalar_def split: conflict_source.splits option.splits if_splits)

lemma minimize_proved:
  assumes "minimize_conflict ls keep_last budget verify = (kept, used)" "verify ls"
  shows "verify kept \<and> set kept \<subseteq> set ls"
proof -
  obtain d where d: "fold (minimize_step verify keep_last budget ls) [0..<length ls] (replicate (length ls) False, 0) = (d, used)"
    and k: "kept = kept_of ls d" using assms(1) by (auto simp: minimize_conflict_def split: prod.splits)
  from minimize_loop[OF d order_refl] assms(2) show ?thesis by (auto simp: k kept_of_filter)
qed

lemma shrink_proved:
  assumes "shrink_conflict minimize verify proof ls = (kept, checks)" "verify ls"
  shows "verify kept \<and> set kept \<subseteq> set ls"
proof -
  define short where "short = (if usable proof then leaned proof ls else [])"
  define start where "start = (if (short \<noteq> [] \<and> length short < length ls) \<and> verify short then short else ls)"
  have start: "verify start" "set start \<subseteq> set ls"
    using assms(2) by (auto simp: start_def short_def leaned_def)
  have "kept = start \<or> (\<exists>b n used. minimize_conflict start b n verify = (kept, used))"
    using assms(1) unfolding shrink_conflict_def Let_def short_def[symmetric] start_def[symmetric]
    by (auto split: if_splits prod.splits)
  then show ?thesis
  proof (elim disjE exE)
    fix b n used assume "minimize_conflict start b n verify = (kept, used)"
    from minimize_proved[OF this start(1)] show ?thesis using start(2) by blast
  qed (use start in simp)
qed

lemma store_add_entries:
  "store_add ls source node s = (added, t) \<Longrightarrow>
    set (map entry_literals (store_entries t)) \<subseteq> insert ls (set (map entry_literals (store_entries s)))"
  by (auto simp: store_add_def evict_def Let_def kept_of_filter split: if_splits)

text \<open>The bound changes of the tree are integral bounds on integer columns.\<close>

definition changes_ok :: "nat list \<Rightarrow> xnum tree_node list \<Rightarrow> bool" where
  "changes_ok ints nodes \<longleftrightarrow> (\<forall>n \<in> set nodes. node_has_change n \<longrightarrow>
     dc_column (node_change n) \<in> set ints \<and> (\<exists>z. dc_value (node_change n) = X (of_int z)))"

lemma change_literals_ok:
  assumes "changes_ok ints nodes" "set walked \<subseteq> set nodes" "l \<in> set (chain_literals walked)"
  shows "lit_column l \<in> set ints \<and> (\<exists>z. lit_value l = X (of_int z))"
  using assms by (force simp: chain_literals_def changes_ok_def)

text \<open>What the search may read of a state: everything but the store, the trail and two flags.\<close>

definition learned_frame :: "('a, 'z) search_scheme \<Rightarrow> ('a, 'z) search_scheme \<Rightarrow> bool" where
  "learned_frame s t \<longleftrightarrow> (\<exists>store sv pruned an.
     t = s\<lparr>conflicts := store, saved := sv, conflict_pruned := pruned, analysing := an\<rparr>)"

lemma learned_frame_refl: "learned_frame s s"
  unfolding learned_frame_def
  by (rule exI[of _ "conflicts s"], rule exI[of _ "saved s"], rule exI[of _ "conflict_pruned s"],
      rule exI[of _ "analysing s"]) simp

lemma learned_frame_checked: "learned_frame s (s\<lparr>saved := [], conflict_pruned := False, analysing := False\<rparr>)"
  unfolding learned_frame_def
  by (rule exI[of _ "conflicts s"], rule exI[of _ "[]"], rule exI[of _ False], rule exI[of _ False]) simp

lemma learned_frame_store: "learned_frame s t \<Longrightarrow> learned_frame s (t\<lparr>conflicts := store\<rparr>)"
proof (unfold learned_frame_def, elim exE)
  fix st sv pruned an
  assume "t = s\<lparr>conflicts := st, saved := sv, conflict_pruned := pruned, analysing := an\<rparr>"
  then show "\<exists>st sv pruned an. t\<lparr>conflicts := store\<rparr> = s\<lparr>conflicts := st, saved := sv, conflict_pruned := pruned, analysing := an\<rparr>"
    by (intro exI[of _ store] exI[of _ sv] exI[of _ pruned] exI[of _ an]) simp
qed

lemma admits_store:
  assumes a: "admits p s" and w: "working t = working s" "int_tol t = int_tol s" "integer_columns t = integer_columns s"
    and e: "set (map entry_literals (store_entries (conflicts t))) \<subseteq>
      insert ls (set (map entry_literals (store_entries (conflicts s))))"
    and new: "\<exists>l \<in> set ls. \<not> lit_true (\<lambda>j. X (p j)) l"
      "\<forall>l \<in> set ls. lit_column l \<in> set (integer_columns s) \<and> (\<exists>z. lit_value l = X (of_int z))"
  shows "admits p t"
proof -
  have "\<forall>l \<in> set ls. lit_column l < num_cols (working s) \<and> p (lit_column l) \<in> \<int> \<and> (\<exists>z. lit_value l = X (of_int z))"
    using new(2) admits_integral(2)[OF a] by blast
  then have "\<forall>k \<in> set (map entry_literals (store_entries (conflicts t))).
      (\<exists>l \<in> set k. \<not> lit_true (\<lambda>j. X (p j)) l) \<and>
      (\<forall>l \<in> set k. lit_column l < num_cols (working s) \<and> p (lit_column l) \<in> \<int> \<and> (\<exists>z. lit_value l = X (of_int z)))"
    using a e new(1) by (auto simp: admits_def point_ok_def static_part_def)
  then show ?thesis
    using a w by (simp add: admits_def point_ok_def static_part_def)
qed

lemma learn_from_sound:
  fixes s :: "(xnum, 'z) search_scheme"
  assumes a: "admits p s" and ft: "0 \<le> ft" and w: "set walked \<subseteq> set (tree s)"
    and ch: "changes_ok (integer_columns s) (tree s)"
    and r: "learn_from (exact_scalar ft mt) cfg source farkas walked st s = (st', t)"
  shows "admits p t \<and> learned_frame s t"
proof -
  let ?sc = "exact_scalar ft mt"
  define ls where "ls = decisions (chain_literals walked)"
  define s1 where "s1 = s\<lparr>analysing := True\<rparr>"
  obtain proved pf checks where pc: "prove_chain ?sc source farkas ls s1 = (proved, pf, checks)" by (metis prod_cases3)
  define s2 where "s2 = (if 0 < checks then (snd (verify_literals ?sc pf s1 ls))\<lparr>analysing := False\<rparr> else s)"
  have "analysing s1" by (simp add: s1_def)
  note vs = verify_state[OF this, of ?sc pf ls]
  have e: "s1\<lparr>saved := [], conflict_pruned := False, analysing := False\<rparr> =
      s\<lparr>saved := [], conflict_pruned := False, analysing := False\<rparr>" by (simp add: s1_def)
  have "s2 = s \<or> s2 = s\<lparr>saved := [], conflict_pruned := False, analysing := False\<rparr>"
    unfolding s2_def vs e by simp
  then have s2: "learned_frame s s2" and a2: "admits p s2"
    using learned_frame_refl[of s] learned_frame_checked[of s] a
      admits_same[of "s\<lparr>saved := [], conflict_pruned := False, analysing := False\<rparr>" s] by auto
  note run = r[unfolded learn_from_def Let_def, folded ls_def, folded s1_def, unfolded pc, unfolded prod.case, folded s2_def]
  show ?thesis
  proof (cases "ls = [] \<or> \<not> proved")
    case True
    then have "t = s \<or> t = s2" using run by (auto split: if_splits)
    then show ?thesis using a a2 s2 learned_frame_refl by auto
  next
    case go: False
    obtain kept more where sh: "shrink_conflict (minimize_enabled cfg) (\<lambda>l. fst (verify_literals ?sc pf s1 l)) pf ls = (kept, more)"
      by fastforce
    have st: "\<exists>st0. store_conflict cfg source (length ls) kept (st0, s2) = (st', t)"
      using run go sh by auto
    have a1: "admits p s1" using a by (simp add: s1_def admits_same[of "s\<lparr>analysing := True\<rparr>" s])
    from prove_chain_sound[of ft mt source farkas ls s1 pf checks] pc go
    have pf: "pf \<in> proof_of s1" "fst (verify_literals ?sc pf s1 ls)" by simp_all
    from shrink_proved[OF sh pf(2)] have k: "fst (verify_literals ?sc pf s1 kept)" "set kept \<subseteq> set ls" by simp_all
    have ok: "\<forall>l \<in> set kept. lit_column l \<in> set (integer_columns s) \<and> (\<exists>z. lit_value l = X (of_int z))"
      using k(2) decisions_in[of "chain_literals walked"] change_literals_ok[OF ch w] by (auto simp: ls_def)
    from verified_conflict_falsified[OF a1 ft pf(1) k(1)] have "\<not> (\<forall>l \<in> set kept. lit_true (\<lambda>j. X (p j)) l)" by blast
    moreover have "\<forall>l \<in> set kept. \<not> xnan (lit_value l)" using ok by auto
    ultimately have f: "\<exists>l \<in> set (canonical kept). \<not> lit_true (\<lambda>j. X (p j)) l"
      using canonical_true[of kept "\<lambda>j. X (p j)"] by blast
    have c: "\<forall>l \<in> set (canonical kept). lit_column l \<in> set (integer_columns s2) \<and> (\<exists>z. lit_value l = X (of_int z))"
      using ok canonical_in[of kept] s2 by (auto simp: learned_frame_def)
    have t: "t = s2 \<or> (\<exists>added store. store_add (canonical kept) source (nodes_explored s2) (conflicts s2) = (added, store) \<and>
        t = s2\<lparr>conflicts := store\<rparr>)"
      using st by (auto simp: store_conflict_def Let_def split: if_splits prod.splits)
    then show ?thesis
    proof (elim disjE exE conjE)
      fix added store
      assume add: "store_add (canonical kept) source (nodes_explored s2) (conflicts s2) = (added, store)"
        and t: "t = s2\<lparr>conflicts := store\<rparr>"
      have "admits p t" by (rule admits_store[OF a2 _ _ _ _ f c]) (use store_add_entries[OF add] in \<open>simp_all add: t\<close>)
      then show ?thesis using learned_frame_store[OF s2] by (simp add: t)
    qed (use a2 s2 in simp)
  qed
qed

lemma analysis_sound:
  fixes s :: "(xnum, 'z) search_scheme"
  assumes a: "admits p s" and ft: "0 \<le> ft" and older: "parents_older (tree s)" and i: "i < length (tree s)"
    and ch: "changes_ok (integer_columns s) (tree s)"
    and r: "analyze_conflict (exact_scalar ft mt) cfg i source farkas (st, s) = Some (st', t)"
  shows "admits p t \<and> learned_frame s t"
proof -
  from chain_ends[OF older i] obtain walked where w: "chain (tree s) (int i) = Some walked" "set walked \<subseteq> set (tree s)" by blast
  from r w(1) have "t = s \<or> learn_from (exact_scalar ft mt) cfg source farkas walked st s = (st', t)"
    by (auto simp: analyze_conflict_def split: if_splits)
  then show ?thesis using a learned_frame_refl learn_from_sound[OF a ft w(2) ch] by blast
qed

text \<open>
  C9. Learning is sound whatever multipliers the engine hands over: over exact numbers with infinities,
  every point that is admitted by the state before an analysis (in the global box, meeting the rows,
  integral, and excluded by no stored conflict) is admitted by the state after it, learned conflict
  included; and the analysis changes nothing of the state but the store, the trail and two flags.
\<close>

theorem learned_conflicts_sound:
  fixes s :: "xnum search"
  assumes "admits p s" "0 \<le> ft" "parents_older (tree s)" "i < length (tree s)"
    "changes_ok (integer_columns s) (tree s)"
    "analyze_conflict (exact_scalar ft mt) cfg i source farkas (st, s) = Some (st', t)"
  shows "admits p t \<and> (\<exists>store sv pruned an.
    t = s\<lparr>conflicts := store, saved := sv, conflict_pruned := pruned, analysing := an\<rparr>)"
  using analysis_sound[OF assms] by (simp add: learned_frame_def)

text \<open>The box \<open>0 \<le> x \<le> 5\<close> with a child \<open>x \<ge> 6\<close>: propagation proves the child empty, and \<open>x \<ge> 6\<close> is
  learned.\<close>

definition demo_tree :: "xnum search" where
  "demo_tree = (demo_search (demo_int_model (X 0) (X 5)) (X 0) XMInf)
     \<lparr>tree := [root_node XMInf, child_node 0 \<lparr>dc_column = 0, dc_upper = False, dc_value = X (of_int 6)\<rparr> XMInf 1 (X 0) (X 0)]\<rparr>"

definition no_stats :: conflict_stats where
  "no_stats = \<lparr>cs_detected = 0, cs_learned = 0, cs_rejected = 0, cs_too_long = 0, cs_minimized = 0, cs_checks = 0,
     cs_nodes_pruned = 0, cs_tightenings = 0, cs_seconds = 0, cs_sizes = []\<rparr>"

lemma demo_tree_fields:
  "parents_older (tree demo_tree)" "length (tree demo_tree) = 2" "changes_ok (integer_columns demo_tree) (tree demo_tree)"
  by (auto simp: demo_tree_def demo_search_def parents_older_def root_node_def child_node_def changes_ok_def
      nth_Cons split: nat.splits)

lemma demo_int_model_admits:
  assumes "working s = demo_int_model (X 0) (X 5)" "store_entries (conflicts s) = []" "int_tol s = X 0"
    "integer_columns s = [0]"
  shows "admits (\<lambda>_. 2) s"
proof -
  let ?m = "demo_int_model (X 0) (X 5)"
  have col: "column (matrix ?m) 0 = []"
    by (simp add: demo_int_model_def column_def segment_def empty_model_def empty_sparse_def)
  then have "csc_ok (matrix ?m)"
    by (simp add: csc_ok_def stores_def demo_int_model_def empty_model_def empty_sparse_def column_def segment_def)
  moreover have "num_rows ?m = 0" "num_cols ?m = 1" "nrows (matrix ?m) = 0" "ncols (matrix ?m) = 1"
    by (simp_all add: demo_int_model_def empty_model_def empty_sparse_def num_rows_def num_cols_def)
  ultimately show ?thesis
    using col assms
    by (auto simp: admits_def point_ok_def static_part_def) (simp_all add: demo_int_model_def)
qed

theorem learned_conflicts_sound_witness:
  "admits (\<lambda>_. 2) (snd (the (analyze_conflict (exact_scalar 0 0)
     \<lparr>conflicts_enabled = True, minimize_enabled = True, conflict_max_size = 10\<rparr> 1 kPropagation None (no_stats, demo_tree))))"
proof -
  let ?cfg = "\<lparr>conflicts_enabled = True, minimize_enabled = True, conflict_max_size = 10\<rparr>"
  let ?r = "analyze_conflict (exact_scalar 0 0) ?cfg 1 kPropagation None (no_stats, demo_tree)"
  have a: "admits (\<lambda>_. 2) demo_tree"
    by (rule demo_int_model_admits) (simp_all add: demo_tree_def demo_search_def empty_store_def)
  have "?r \<noteq> None"
    using chain_ends[OF demo_tree_fields(1), of 1] demo_tree_fields(2) by (auto simp: analyze_conflict_def)
  then have "?r = Some (fst (the ?r), snd (the ?r))" by simp
  from learned_conflicts_sound[OF a _ demo_tree_fields(1) _ demo_tree_fields(3) this] demo_tree_fields(2)
  show ?thesis by simp
qed

end
