(* ===== verification/TreeSearch.thy ===== *)
theory TreeSearch
  imports Learning
begin

text \<open>
  The tree driver (\<open>BranchAndBound::run\<close> and \<open>detect_objective_integrality\<close> of
  \<open>src/mip/branch_and_bound.cpp\<close>): the objective step, one turn of the loop as the handler of a node,
  the stopping test and the report, composed from the operations of the node, the learning and the
  decisions. The loop is a step relation; the relaxation engine is an oracle with a contract. The
  theorems: no feasible point is lost, so an exhausted tree proves its answer; the reported bound is
  valid up to the pruning margin; and the search never gets stuck and ends.

  Left out: root and tree cuts (\<open>enable_root_cuts\<close> is off by default), checkpoints, the parallel hooks,
  the progress callback, and counters that only feed the log.
\<close>

section \<open>The objective step\<close>

text \<open>The Euclidean loop of the \<open>gcd\<close> lambda on non-negative 64-bit values.\<close>

function euclid :: "int \<Rightarrow> int \<Rightarrow> int" where
  "euclid x y = (if y \<le> 0 then x else euclid y (x mod y))"
  by auto
termination by (relation "measure (\<lambda>(x, y). nat y)") auto

declare euclid.simps [simp del]

definition step_gcd :: "('a \<Rightarrow> int) \<Rightarrow> (int \<Rightarrow> 'a) \<Rightarrow> 'a \<Rightarrow> 'a::abs \<Rightarrow> 'a" where
  "step_gcd llround num a b = num (euclid (llround \<bar>a\<bar>) (llround \<bar>b\<bar>))"

definition is_integral :: "'a::{minus,abs,ord} scalar \<Rightarrow> 'a \<Rightarrow> bool" where
  "is_integral sc v \<longleftrightarrow> \<bar>v - sc_round sc v\<bar> \<le> sc_lit sc (1 / 10 ^ 9)"

text \<open>The scan of the costs: None when nothing is known, otherwise the continuous costed column (-1 when
  there is none) and the step so far.\<close>

definition scan_cost ::
    "'a::{zero,minus,abs,ord} scalar \<Rightarrow> ('a \<Rightarrow> int) \<Rightarrow> (int \<Rightarrow> 'a) \<Rightarrow> 'a model \<Rightarrow> nat \<Rightarrow> (int \<times> 'a) option \<Rightarrow>
     (int \<times> 'a) option" where
  "scan_cost sc llround num m j acc =
     (case acc of
        None \<Rightarrow> None
      | Some (costed, step) \<Rightarrow>
          let cost = col_cost m ! j in
          if feq cost 0 then acc
          else if col_type m ! j \<noteq> kInteger then (if 0 \<le> costed then None else Some (int j, step))
          else if \<not> is_integral sc cost \<or> sc_lit sc (10 ^ 12) < \<bar>cost\<bar> then None
          else Some (costed, step_gcd llround num step cost))"

text \<open>One row of the continuous costed column \<open>o\<close>: None when it spoils the rule, otherwise whether it
  defines the column.\<close>

definition defining_row ::
    "'a::{zero,minus,divide,abs,ord} scalar \<Rightarrow> 'a model \<Rightarrow> 'a csr_view \<Rightarrow> bool \<Rightarrow> nat \<Rightarrow> nat \<times> 'a \<Rightarrow> bool option" where
  "defining_row sc m by_row push_down c = (\<lambda>(r, a).
     if feq a 0 then Some False
     else
       let lower_side = (if 0 < a then row_lower m ! r else row_upper m ! r);
           upper_side = (if 0 < a then row_upper m ! r else row_lower m ! r);
           side = (if push_down then lower_side else upper_side)
       in if \<not> sc_fin sc side then Some False
          else if \<not> is_integral sc (side div a) then None
          else if list_ex (\<lambda>(j, v). j \<noteq> c \<and> (col_type m ! j \<noteq> kInteger \<or> \<not> is_integral sc (v div a)))
            (csr_row by_row r) then None
          else Some True)"

definition defining_rows ::
    "'a::{zero,minus,divide,abs,ord} scalar \<Rightarrow> 'a model \<Rightarrow> bool \<Rightarrow> nat \<Rightarrow> nat option" where
  "defining_rows sc m push_down c =
     (let found = map (defining_row sc m (csr_build (matrix m)) push_down c) (column (matrix m) c) in
      if None \<in> set found then None else Some (length (filter (\<lambda>f. f = Some True) found)))"

definition detect_objective_integrality ::
    "'a::{zero,one,minus,times,divide,abs,ord} scalar \<Rightarrow> ('a \<Rightarrow> int) \<Rightarrow> (int \<Rightarrow> 'a) \<Rightarrow> bool \<Rightarrow>
     ('a, 'z) search_scheme \<Rightarrow> ('a, 'z) search_scheme" where
  "detect_objective_integrality sc llround num enabled s =
     (let m = original s;
          found =
            (if quadratic s \<or> \<not> enabled then 0
             else case fold (scan_cost sc llround num m) [0..<num_cols m] (Some (- 1, 0)) of
               None \<Rightarrow> 0
             | Some (costed, step) \<Rightarrow>
                 if costed < 0 then (if 1 \<le> step then step else 0)
                 else if \<not> feq step 0 then 0
                 else
                   let c = nat costed; cost = col_cost m ! c;
                       push_down = (0 < search_sense s * cost)
                   in if list_ex (\<lambda>b. sc_fin sc b \<and> \<not> is_integral sc b) [col_lower m ! c, col_upper m ! c] then 0
                      else if column (matrix m) c = [] then 0
                      else case defining_rows sc m push_down c of
                        None \<Rightarrow> 0
                      | Some k \<Rightarrow>
                          if k = 0 \<and> \<not> sc_fin sc (if push_down then col_lower m ! c else col_upper m ! c) then 0
                          else \<bar>cost\<bar>)
      in s\<lparr>objective_step := found\<rparr>)"

section \<open>A turn of the loop\<close>

text \<open>What the run of a turn does not decide itself: the answer of the relaxation engine with its dual
  ray, the points the heuristics and the pump propose, and the engine as the dive and strong branching
  call it.\<close>

record 'a turn_oracle =
  answer :: "'a relaxation"
  dual_ray :: "'a list"
  proposals :: "'a list list"
  pump_points :: "'a list list"
  dive_engine :: "'a model \<Rightarrow> 'a relaxation"
  probe_engine :: "'a model \<Rightarrow> 'a relaxation"

record 'a search_settings =
  learning :: conflict_settings
  reliability_branching :: bool
  to_integer :: "'a \<Rightarrow> int"
  of_count :: "int \<Rightarrow> 'a"
  sort_largest :: "(nat \<Rightarrow> 'a) \<Rightarrow> nat list \<Rightarrow> nat list"

datatype turn_result = GoOn | Limited solve_status | Ended solve_status

text \<open>The loop between two turns: the conflict statistics, the dive flag and the search.\<close>

type_synonym 'a loop = "conflict_stats \<times> bool \<times> 'a search"

definition offer_all ::
    "'a::{zero,one,plus,minus,times,divide,abs,ord} scalar \<Rightarrow> ('a \<Rightarrow> int) \<Rightarrow> 'a list list \<Rightarrow> ('a, 'z) search_scheme \<Rightarrow>
     ('a, 'z) search_scheme" where
  "offer_all sc llround xs s = fold (\<lambda>x t. snd (offer_incumbent sc llround x t)) xs s"

text \<open>Entering a node and propagating it.\<close>

definition open_node ::
    "'a::{zero,one,plus,minus,times,divide,ord} scalar \<Rightarrow> 'a tree_node list \<Rightarrow> ('a, 'z) search_scheme \<Rightarrow>
     bool \<times> ('a, 'z) search_scheme" where
  "open_node sc walked s =
     propagate sc ((enter walked s)\<lparr>nodes_explored := nodes_explored s + 1\<rparr>)"

text \<open>The node's relaxation moved its bound: one pseudocost observation.\<close>

definition observe ::
    "'a::{zero,minus,plus,divide,ord} tree_node \<Rightarrow> 'a \<Rightarrow> ('a, 'z) search_scheme \<Rightarrow> ('a, 'z) search_scheme" where
  "observe n b s =
     (if node_has_change n \<and> 0 < node_fraction n
      then record_pseudocost (dc_column (node_change n)) (dc_upper (node_change n)) (cmax (b - node_bound n) 0)
             (node_fraction n) s
      else s)"

text \<open>An integral relaxation closes the node, or splits it when the pool is to be complete.\<close>

definition close_integral ::
    "'a::{zero,one,plus,minus,times,divide,abs,ord} scalar \<Rightarrow> ('a \<Rightarrow> int) \<Rightarrow> nat \<Rightarrow> 'a list \<Rightarrow> ('a, 'z) search_scheme \<Rightarrow>
     ('a, 'z) search_scheme" where
  "close_integral sc llround i x s =
     (let s1 = snd (offer_incumbent sc llround x s) in
      if pool_complete s1 then
        let (was_split, s2) = split_integral_node sc i x s1 in if was_split then s2 else leave s2
      else leave s1)"

text \<open>A fractional relaxation is branched on; None when the rule finds no column.\<close>

definition branch_node ::
    "'a::{zero,one,plus,minus,uminus,times,divide,abs,ord} scalar \<Rightarrow> 'a search_settings \<Rightarrow> 'a turn_oracle \<Rightarrow> nat \<Rightarrow> 'a \<Rightarrow>
     ('a, 'z) search_scheme \<Rightarrow> turn_result \<times> ('a, 'z) search_scheme" where
  "branch_node sc cfg oc i b s =
     (let x = rx_value (answer oc);
          s1 = (if i = 0 then offer_all sc (to_integer cfg) (pump_points oc)
                  (dive_from_root sc (to_integer cfg) (dive_engine oc) x s) else s);
          (col, s2) = (if reliability_branching cfg
            then select_branching_column sc (sort_largest cfg) (of_count cfg) (probe_engine oc) x b s1
            else (most_fractional sc s1 x, s1));
          s3 = leave s2
      in if col < 0 then (Ended kNumericalError, s3)
         else (GoOn, branch sc i (nat col) (x ! nat col) b (estimate_from sc (of_count cfg) s3 x b) s3))"

definition solved_node ::
    "'a::{zero,one,plus,minus,uminus,times,divide,abs,ord} scalar \<Rightarrow> 'a search_settings \<Rightarrow> 'a turn_oracle \<Rightarrow> nat \<Rightarrow>
     ('a, 'z) search_scheme \<Rightarrow> turn_result \<times> bool \<times> ('a, 'z) search_scheme" where
  "solved_node sc cfg oc i s =
     (let x = rx_value (answer oc);
          b = internal_objective s x;
          s1 = observe (tree s ! i) b s
      in if can_prune sc s1 b then (GoOn, False, leave s1)
         else
           let s2 = offer_all sc (to_integer cfg) (proposals oc) (try_rounding sc (to_integer cfg) x s1) in
           if most_fractional sc s2 x < 0 then (GoOn, False, close_integral sc (to_integer cfg) i x s2)
           else let (res, s3) = branch_node sc cfg oc i b s2 in (res, res = GoOn, s3))"

text \<open>A limit that reached the node: the node is still open.\<close>

definition put_back :: "nat \<Rightarrow> ('a, 'z) search_scheme \<Rightarrow> ('a, 'z) search_scheme" where
  "put_back i s = s\<lparr>open_nodes := open_nodes s @ [i]\<rparr>"

definition process_node ::
    "'a::{zero,one,plus,minus,uminus,times,divide,abs,ord} scalar \<Rightarrow> 'a search_settings \<Rightarrow> 'a turn_oracle \<Rightarrow> nat \<Rightarrow>
     conflict_stats \<Rightarrow> 'a search \<Rightarrow> (turn_result \<times> 'a loop) option" where
  "process_node sc cfg oc i st s =
     (if can_prune sc s (node_bound (tree s ! i)) then Some (GoOn, st, False, s)
      else do {
        walked \<leftarrow> chain (tree s) (int i);
        let (open_box, s1) = open_node sc walked s;
        if \<not> open_box then
          (if conflict_pruned s1 then
             Some (GoOn, st\<lparr>cs_nodes_pruned := cs_nodes_pruned st + 1\<rparr>, False, leave s1)
           else map_option (\<lambda>(st', s'). (GoOn, st', False, s'))
             (analyze_conflict sc (learning cfg) i kPropagation None (st, leave s1)))
        else case rx_status (answer oc) of
            kInfeasible \<Rightarrow> map_option (\<lambda>(st', s'). (GoOn, st', False, s'))
              (analyze_conflict sc (learning cfg) i kLp (Some (dual_ray oc)) (st, leave s1))
          | kUnbounded \<Rightarrow> Some (Ended kUnbounded, st, False, leave s1)
          | kInterrupted \<Rightarrow> Some (Limited kInterrupted, st, False, put_back i (leave s1))
          | kTimeLimit \<Rightarrow> Some (Limited kTimeLimit, st, False, put_back i (leave s1))
          | kIterationLimit \<Rightarrow> Some (Limited kIterationLimit, st, False, put_back i (leave s1))
          | kOptimal \<Rightarrow> (let (res, dive, s2) = solved_node sc cfg oc i s1 in Some (res, st, dive, s2))
          | _ \<Rightarrow> Some (Ended kNumericalError, st, False, leave s1)
      })"


section \<open>Stopping and reporting\<close>

definition open_bound :: "'a::ord scalar \<Rightarrow> ('a, 'z) search_scheme \<Rightarrow> 'a" where
  "open_bound sc s = fold (\<lambda>i b. cmin b (node_bound (tree s ! i))) (open_nodes s) (sc_infinity sc)"

text \<open>The gap test before a node is taken: met when the incumbent is within a target of the best open
  bound, and not when the gap is already closed.\<close>

definition gap_target_met ::
    "'a::{zero,one,minus,times,divide,abs,ord} scalar \<Rightarrow> ('a, 'z) search_scheme \<Rightarrow> bool" where
  "gap_target_met sc s \<longleftrightarrow> have_incumbent s \<and> \<not> pool_complete s \<and>
     (let gap = incumbent_internal s - integral_bound sc s (open_bound sc s) in
      0 < gap \<and> (gap \<le> gap_target s \<or> gap div cmax 1 \<bar>incumbent_internal s\<bar> \<le> relative_target s))"

definition final_bound ::
    "'a::{zero,minus,times,divide,abs,ord} scalar \<Rightarrow> ('a, 'z) search_scheme \<Rightarrow> 'a" where
  "final_bound sc s =
     fold (\<lambda>i b. cmin b (integral_bound sc s (node_bound (tree s ! i)))) (open_nodes s) (incumbent_internal s)"

text \<open>Why the loop was left.\<close>

datatype loop_exit = Exhausted | GapMet | LimitHit solve_status

record 'a search_report =
  report_status :: solve_status
  report_bound :: 'a
  report_point :: "'a list"

definition report ::
    "'a::{zero,uminus,plus,minus,times,divide,abs,ord} scalar \<Rightarrow> loop_exit \<Rightarrow> ('a, 'z) search_scheme \<Rightarrow> 'a search_report" where
  "report sc why s =
     (let nothing_found = (if sense (original s) = kMaximize then - sc_infinity sc else sc_infinity sc) in
      if \<not> have_incumbent s then
        (case why of
           LimitHit st \<Rightarrow> \<lparr>report_status = st, report_bound = reported s (final_bound sc s), report_point = []\<rparr>
         | _ \<Rightarrow> \<lparr>report_status = kInfeasible, report_bound = nothing_found, report_point = []\<rparr>)
      else
        (case why of
           GapMet \<Rightarrow> \<lparr>report_status = kOptimal, report_bound = reported s (final_bound sc s), report_point = incumbent_x s\<rparr>
         | LimitHit st \<Rightarrow> \<lparr>report_status = kFeasible, report_bound = reported s (final_bound sc s), report_point = incumbent_x s\<rparr>
         | Exhausted \<Rightarrow>
             if open_nodes s = [] then
               \<lparr>report_status = kOptimal, report_bound = reported s (incumbent_internal s), report_point = incumbent_x s\<rparr>
             else
               \<lparr>report_status = kFeasible, report_bound = reported s (final_bound sc s), report_point = incumbent_x s\<rparr>))"

text \<open>The search before the loop: the model on both sides, one open root of which nothing is known.\<close>

definition start_search ::
    "'a::{zero,uminus} scalar \<Rightarrow> 'a \<Rightarrow> 'a model \<Rightarrow> nat list \<Rightarrow> 'a search \<Rightarrow> 'a search" where
  "start_search sc tol m ints s = s\<lparr>working := m, original := m, saved := [], analysing := False, nodes_explored := 0,
     int_tol := tol, integer_columns := ints,
     tree := [\<lparr>node_parent = - 1, node_change = default_change, node_has_change = False,
       node_bound = - sc_infinity sc, node_depth = 0, node_fraction = 0, node_estimate = 0\<rparr>],
     open_nodes := [0], have_incumbent := False, incumbent_internal := sc_infinity sc, incumbent_x := []\<rparr>"

section \<open>The contract of the relaxation engine\<close>

text \<open>A point of the relaxation of a model, and its value in the objective of the search.\<close>

definition lp_point :: "xnum model \<Rightarrow> (nat \<Rightarrow> rat) \<Rightarrow> bool" where
  "lp_point m p \<longleftrightarrow>
     (\<forall>j < num_cols m. col_lower m ! j \<le> X (p j) \<and> X (p j) \<le> col_upper m ! j) \<and>
     (\<forall>i < num_rows m. row_lower m ! i \<le> X (row_value m p i) \<and> X (row_value m p i) \<le> row_upper m ! i)"

definition value_at :: "(xnum, 'z) search_scheme \<Rightarrow> (nat \<Rightarrow> rat) \<Rightarrow> xnum" where
  "value_at s p = internal_objective s (map (\<lambda>j. X (p j)) [0..<num_cols (original s)])"

definition finite_point :: "(xnum, 'z) search_scheme \<Rightarrow> xnum list \<Rightarrow> bool" where
  "finite_point s x \<longleftrightarrow> length x = num_cols (original s) \<and> list_all xfinite x"

text \<open>Infeasible and optimal mean what they say, for the model and the objective of the entered node; an
  optimal point consists of finite numbers; and one that is integral is accepted by the incumbent test.
  The search relies on the last two without a check of its own.\<close>

definition honest_answer :: "xnum scalar \<Rightarrow> xnum relaxation \<Rightarrow> (xnum, 'z) search_scheme \<Rightarrow> bool" where
  "honest_answer sc r s \<longleftrightarrow>
     (rx_status r = kInfeasible \<longrightarrow> (\<forall>p. \<not> lp_point (working s) p)) \<and>
     (rx_status r = kOptimal \<longrightarrow>
        finite_point s (rx_value r) \<and>
        (\<forall>p. lp_point (working s) p \<longrightarrow> internal_objective s (rx_value r) \<le> value_at s p) \<and>
        (most_fractional sc s (rx_value r) < 0 \<longrightarrow> candidate_ok sc s (rx_value r)))"

text \<open>Every point that is proposed consists of finite numbers.\<close>

definition numbers_only :: "xnum turn_oracle \<Rightarrow> (xnum, 'z) search_scheme \<Rightarrow> bool" where
  "numbers_only oc s \<longleftrightarrow> (\<forall>x \<in> set (proposals oc) \<union> set (pump_points oc). finite_point s x) \<and>
     (\<forall>m. rx_status (dive_engine oc m) = kOptimal \<longrightarrow> finite_point s (rx_value (dive_engine oc m)))"

text \<open>One turn: the gap target is not met, a node is taken, and its handling goes on.\<close>

inductive turn ::
    "xnum scalar \<Rightarrow> xnum search_settings \<Rightarrow> xnum loop \<Rightarrow> xnum loop \<Rightarrow> bool" for sc cfg where
  turn:
    "open_nodes s \<noteq> [] \<Longrightarrow> \<not> gap_target_met sc s \<Longrightarrow>
     take_next_open_node sc dive s = (i, s1) \<Longrightarrow> numbers_only oc s1 \<Longrightarrow>
     \<forall>walked. chain (tree s1) (int i) = Some walked \<longrightarrow> honest_answer sc (answer oc) (snd (open_node sc walked s1)) \<Longrightarrow>
     process_node sc cfg oc i st s1 = Some (GoOn, next) \<Longrightarrow>
     turn sc cfg (st, dive, s) next"

inductive_cases turnE: "turn sc cfg (st, dive, s) next"


section \<open>Strong branching touches the pseudocosts only\<close>

definition costs_only :: "('a, 'z) search_scheme \<Rightarrow> ('a, 'z) search_scheme \<Rightarrow> bool" where
  "costs_only s t \<longleftrightarrow> (\<exists>ds us dc uc. t = s\<lparr>pseudo_down_sum := ds, pseudo_up_sum := us,
     pseudo_down_count := dc, pseudo_up_count := uc\<rparr>)"

lemma costs_refl: "costs_only s s"
  unfolding costs_only_def
  by (rule exI[of _ "pseudo_down_sum s"], rule exI[of _ "pseudo_up_sum s"], rule exI[of _ "pseudo_down_count s"],
      rule exI[of _ "pseudo_up_count s"]) simp

lemma costs_trans: "costs_only s t \<Longrightarrow> costs_only t u \<Longrightarrow> costs_only s u"
proof (unfold costs_only_def, elim exE)
  fix a b c d a' b' c' d'
  assume "t = s\<lparr>pseudo_down_sum := a, pseudo_up_sum := b, pseudo_down_count := c, pseudo_up_count := d\<rparr>"
    "u = t\<lparr>pseudo_down_sum := a', pseudo_up_sum := b', pseudo_down_count := c', pseudo_up_count := d'\<rparr>"
  then have "u = s\<lparr>pseudo_down_sum := a', pseudo_up_sum := b', pseudo_down_count := c', pseudo_up_count := d'\<rparr>" by simp
  then show "\<exists>a b c d. u = s\<lparr>pseudo_down_sum := a, pseudo_up_sum := b, pseudo_down_count := c, pseudo_up_count := d\<rparr>"
    by blast
qed

lemma costs_record: "costs_only s (record_pseudocost u down g f s)"
  unfolding costs_only_def record_pseudocost_def
  by (cases down)
     (rule exI[of _ "modify_at u (\<lambda>v. v + g div f) (pseudo_down_sum s)"], rule exI[of _ "pseudo_up_sum s"],
      rule exI[of _ "modify_at u (\<lambda>c. c + 1) (pseudo_down_count s)"], rule exI[of _ "pseudo_up_count s"], simp,
      rule exI[of _ "pseudo_down_sum s"], rule exI[of _ "modify_at u (\<lambda>v. v + g div f) (pseudo_up_sum s)"],
      rule exI[of _ "pseudo_down_count s"], rule exI[of _ "modify_at u (\<lambda>c. c + 1) (pseudo_up_count s)"], simp)

lemma undo_tighten:
  "undo_to (length (saved s)) (tighten_upper u v s) = s" "undo_to (length (saved s)) (tighten_lower u v s) = s"
  by (simp_all add: undo_to_def tighten_upper_def tighten_lower_def set_upper_def set_lower_def push_saved_def undo_def)

lemma costs_probe: "costs_only s (snd (snd (probe_direction sc solver x b c downward s)))"
  by (simp add: probe_direction_def Let_def undo_tighten costs_refl costs_record)

lemma costs_probes: "costs_only (snd acc) (snd (fold (probe_candidate sc solver x b cs) is acc))"
proof (induction "is" arbitrary: acc)
  case (Cons i "is")
  obtain pr s where acc: "acc = (pr, s)" by (cases acc)
  obtain g1 b1 s1 where d: "probe_direction sc solver x b (cs ! i) True s = (g1, b1, s1)" by (metis prod_cases3)
  obtain g2 b2 s2 where u: "probe_direction sc solver x b (cs ! i) False s1 = (g2, b2, s2)" by (metis prod_cases3)
  have "costs_only s s2"
    using costs_trans[OF costs_probe[of s sc solver x b "cs ! i" True], of s2]
      costs_probe[of s1 sc solver x b "cs ! i" False] by (simp add: d u)
  moreover obtain pr2 where "probe_candidate sc solver x b cs i acc = (pr2, s2)"
    by (simp add: acc probe_candidate_def d u)
  ultimately show ?case using costs_trans[of s s2] Cons.IH[of "(pr2, s2)"] by (simp add: acc)
qed (simp add: costs_refl)

lemma select_column:
  assumes "select_branching_column sc order num solver x b s = (best, t)"
  shows "costs_only s t \<and> (if candidates sc s x = [] then best = - 1
      else \<exists>j \<in> set (integer_columns s). best = int j \<and> \<not> fractionality sc (x ! j) \<le> int_tol s)"
proof (cases "candidates sc s x = []")
  case True
  then show ?thesis using assms by (simp add: select_branching_column_def costs_refl)
next
  case False
  let ?cs = "candidates sc s x"
  obtain pr s1 where r: "strong_branch sc order solver x b ?cs s = (pr, s1)" by fastforce
  then have t: "t = s1" and "\<exists>score. best = best_scored score ?cs"
    using assms False by (auto simp: select_branching_column_def Let_def)
  then obtain c where c: "c \<in> set ?cs" "best = int (ca_column c)" using best_scored_column[OF False] by blast
  have "costs_only s t"
    using r costs_probes unfolding t strong_branch_def Let_def by (metis snd_conv)
  moreover have "ca_column c \<in> set (integer_columns s) \<and> \<not> fractionality sc (x ! ca_column c) \<le> int_tol s"
    using c(1) by (auto simp: candidates_def)
  ultimately show ?thesis using False c(2) by auto
qed

lemma most_fractional_column:
  "0 \<le> most_fractional sc s x \<Longrightarrow> \<exists>j \<in> set (integer_columns s). most_fractional sc s x = int j"
proof -
  have "fst (fold (\<lambda>j (best, score). let f = fractionality sc (x ! j) in if score < f then (int j, f) else (best, score)) js acc)
      \<in> insert (fst acc) (int ` set js)" for js acc
    by (induction js arbitrary: acc) (auto simp: Let_def split: prod.splits if_splits, fastforce+)
  from this[of "integer_columns s" "(- 1, int_tol s)"]
  show "0 \<le> most_fractional sc s x \<Longrightarrow> \<exists>j \<in> set (integer_columns s). most_fractional sc s x = int j"
    by (auto simp: most_fractional_def)
qed


section \<open>What the handling of a node keeps\<close>

definition objective_defined :: "(xnum, 'z) search_scheme \<Rightarrow> bool" where
  "objective_defined s \<longleftrightarrow> (\<forall>x. finite_point s x \<longrightarrow> \<not> xnan (internal_objective s x))"

definition numbered :: "(xnum, 'z) search_scheme \<Rightarrow> bool" where
  "numbered s \<longleftrightarrow> objective_defined s \<and> \<not> xnan (incumbent_internal s)"

text \<open>What bounds, pruning and the objective are read from.\<close>

definition rules :: "('a, 'z) search_scheme \<Rightarrow> ('a model \<times> nat list \<times> 'a \<times> bool \<times> 'a) \<times> 'a \<times> 'a \<times> 'a \<times> bool" where
  "rules s = (yardstick s, gap_target s, relative_target s, objective_step s, pool_complete s)"

text \<open>Nothing but the bounds, the trail and the pseudocosts moved, and the incumbent only improved.\<close>

definition held :: "(xnum, 'z) search_scheme \<Rightarrow> (xnum, 'z) search_scheme \<Rightarrow> bool" where
  "held s t \<longleftrightarrow> base_model t = base_model s \<and> conflicts t = conflicts s \<and> rules t = rules s \<and>
     tree t = tree s \<and> open_nodes t = open_nodes s \<and>
     (numbered s \<longrightarrow> numbered t \<and>
        (have_incumbent s \<longrightarrow> have_incumbent t \<and> incumbent_internal t \<le> incumbent_internal s))"

lemma rules_reads:
  assumes "rules t = rules s"
  shows "original t = original s" "integer_columns t = integer_columns s" "int_tol t = int_tol s"
    "quadratic t = quadratic s" "search_sense t = search_sense s" "gap_target t = gap_target s"
    "relative_target t = relative_target s" "objective_step t = objective_step s" "pool_complete t = pool_complete s"
    "internal_objective t x = internal_objective s x" "candidate_ok sc t x = candidate_ok sc s x"
  using assms yardstick_reads[of t s] by (simp_all add: rules_def yardstick_def)

lemma finite_reads:
  "rules t = rules s \<Longrightarrow> finite_point t x = finite_point s x"
  "rules t = rules s \<Longrightarrow> objective_defined t = objective_defined s"
  "rules t = rules s \<Longrightarrow> value_at t p = value_at s p"
  by (simp_all add: finite_point_def objective_defined_def value_at_def rules_reads[of t s])

lemma xle_refl: "\<not> xnan x \<Longrightarrow> x \<le> (x :: xnum)"
  by (cases x) auto

lemma held_refl: "held s s"
  by (simp add: held_def numbered_def xle_refl)

lemma held_trans: "held s t \<Longrightarrow> held t u \<Longrightarrow> held s u"
  by (auto simp: held_def intro: xle_trans)

lemma held_moves: "held s (tighten_lower u v s)" "held s (tighten_upper u v s)"
  using search_fields[OF more_moves(1)[of u v s]] search_fields[OF more_moves(2)[of u v s]]
  by (simp_all add: held_def rules_def numbered_def objective_defined_def finite_point_def xle_refl
      yardstick_reads[OF yardstick_moves(1)] yardstick_reads[OF yardstick_moves(2)])
     (simp_all add: tighten_lower_def tighten_upper_def set_lower_def set_upper_def push_saved_def)

lemma held_costs: "costs_only s t \<Longrightarrow> held s t"
proof (unfold costs_only_def, elim exE)
  fix a b c d
  assume t: "t = s\<lparr>pseudo_down_sum := a, pseudo_up_sum := b, pseudo_down_count := c, pseudo_up_count := d\<rparr>"
  have r: "rules t = rules s" by (simp add: t rules_def yardstick_def)
  have "base_model t = base_model s" by (rule base_model_same) (simp_all add: t)
  then show "held s t" using r finite_reads(2)[OF r] by (simp add: held_def numbered_def t xle_refl)
qed

lemma held_offer:
  assumes "finite_point s x"
  shows "held s (snd (offer_incumbent (exact_scalar ft mt) llround x s))"
proof -
  let ?t = "snd (offer_incumbent (exact_scalar ft mt) llround x s)"
  have r: "rules ?t = rules s" by (simp add: rules_def yardstick_def offer_incumbent_def Let_def)
  have b: "base_model ?t = base_model s" by (rule base_model_same) (simp_all add: offer_incumbent_def Let_def)
  have f: "conflicts ?t = conflicts s" "tree ?t = tree s" "open_nodes ?t = open_nodes s"
    by (simp_all add: offer_incumbent_def Let_def)
  let ?v = "internal_objective s x" and ?i = "incumbent_internal s"
  have better: "?v \<le> ?i" if "\<not> xnan ?v" "\<not> xnan ?i" "\<not> ?i - X (1 / 10 ^ 12) \<le> ?v"
    using that by (cases ?v; cases ?i) (auto simp: minus_xnum_def)
  have "numbered ?t \<and> (have_incumbent s \<longrightarrow> have_incumbent ?t \<and> incumbent_internal ?t \<le> ?i)" if n: "numbered s"
  proof -
    have "\<not> xnan ?v" using n assms by (simp add: numbered_def objective_defined_def)
    moreover have "internal_objective (s\<lparr>plan_pool := pp\<rparr>) x = ?v" for pp
      by (simp add: internal_objective_def)
    ultimately show ?thesis
      using n better finite_reads(2)[OF r]
      by (auto simp: numbered_def offer_incumbent_def Let_def exact_scalar_def xle_refl split: if_splits)
  qed
  then show ?thesis by (simp add: held_def r b f)
qed

lemma held_offer_all:
  assumes "\<forall>x \<in> set xs. finite_point s x"
  shows "held s (offer_all (exact_scalar ft mt) llround xs s)"
  using assms
proof (induction xs arbitrary: s)
  case (Cons x xs)
  let ?t = "snd (offer_incumbent (exact_scalar ft mt) llround x s)"
  have h: "held s ?t" using Cons.prems by (intro held_offer) simp
  have "\<forall>x \<in> set xs. finite_point ?t x" using Cons.prems h finite_reads(1) by (auto simp: held_def)
  from held_trans[OF h Cons.IH[OF this]] show ?case by (simp add: offer_all_def)
qed (simp add: offer_all_def held_refl)

lemma finite_rounding:
  assumes "finite_point s x"
  shows "finite_point s (rounded_candidate (exact_scalar ft mt) s x)"
proof -
  let ?step = "\<lambda>u c.
       let v = sc_round (exact_scalar ft mt) (c ! u);
           v1 = (if sc_fin (exact_scalar ft mt) (col_lower (original s) ! u)
                 then cmax v (sc_ceil (exact_scalar ft mt) (col_lower (original s) ! u - sc_lit (exact_scalar ft mt) (1 / 10 ^ 9))) else v);
           v2 = (if sc_fin (exact_scalar ft mt) (col_upper (original s) ! u)
                 then cmin v1 (sc_floor (exact_scalar ft mt) (col_upper (original s) ! u + sc_lit (exact_scalar ft mt) (1 / 10 ^ 9))) else v1)
       in c[u := v2]"
  have fin: "xfinite (xround y)" if "xfinite y" for y using that by (cases y) (simp_all add: xround_def)
  have cm: "xfinite (cmax a b)" "xfinite (cmin a b)" if "xfinite a" "xfinite b" for a b
    using that by (simp_all add: cmax_def cmin_def)
  have fl: "xfinite (xceil (y - X q))" "xfinite (xfloor (y + X q))" if "xfinite y" for y q
    using that by (cases y; simp)+
  have one: "finite_point s (?step u c)" if "finite_point s c" for u c
  proof (cases "u < length c")
    case True
    then have "xfinite (c ! u)" using that by (simp add: finite_point_def list_all_length)
    then have "xfinite v \<Longrightarrow> finite_point s (c[u := v])" for v
      using that by (auto simp: finite_point_def list_all_iff dest: set_update_subset_insert[THEN subsetD])
    then show ?thesis using \<open>xfinite (c ! u)\<close> by (auto simp: exact_scalar_def Let_def fin cm fl)
  qed (use that in \<open>simp add: list_update_beyond Let_def\<close>)
  have "finite_point s c \<Longrightarrow> finite_point s (fold ?step us c)" for us c
    using one by (induction us arbitrary: c) simp_all
  then show ?thesis using assms by (simp add: rounded_candidate_def)
qed

lemma held_rounding:
  "finite_point s x \<Longrightarrow> held s (try_rounding (exact_scalar ft mt) llround x s)"
  by (simp add: try_rounding_def held_refl held_offer finite_rounding)

lemma held_dive:
  assumes "finite_point s x" "\<forall>m. rx_status (solver m) = kOptimal \<longrightarrow> finite_point s (rx_value (solver m))"
  shows "held s (dive_from n (exact_scalar ft mt) llround solver x s)"
  using assms
proof (induction n arbitrary: x s)
  case (Suc n)
  let ?sc = "exact_scalar ft mt" and ?u = "nat (least_fractional (exact_scalar ft mt) s x)"
  let ?s1 = "tighten_upper ?u (sc_round ?sc (x ! ?u)) (tighten_lower ?u (sc_round ?sc (x ! ?u)) s)"
  have h: "held s ?s1" by (rule held_trans[OF held_moves(1) held_moves(2)])
  have "\<forall>m. rx_status (solver m) = kOptimal \<longrightarrow> finite_point ?s1 (rx_value (solver m))"
    using Suc.prems(2) h finite_reads(1) by (auto simp: held_def)
  then have "rx_status (solver (working ?s1)) = kOptimal \<Longrightarrow>
      held ?s1 (dive_from n ?sc llround solver (rx_value (solver (working ?s1))) ?s1)"
    by (intro Suc.IH) simp_all
  then show ?case using Suc.prems(1) h held_offer[OF Suc.prems(1)] held_trans[OF h] by (simp add: Let_def)
qed (simp add: held_refl)

lemma held_root_dive:
  "finite_point s x \<Longrightarrow> \<forall>m. rx_status (solver m) = kOptimal \<longrightarrow> finite_point s (rx_value (solver m)) \<Longrightarrow>
    held s (dive_from_root (exact_scalar ft mt) llround solver x s)"
  by (simp add: dive_from_root_def held_refl held_dive)


section \<open>Entering a node\<close>

lemma frame_reads:
  assumes "domain_frame s t"
  shows "rules t = rules s" "tree t = tree s" "open_nodes t = open_nodes s" "have_incumbent t = have_incumbent s"
    "incumbent_internal t = incumbent_internal s"
proof -
  have m: "node_state.more t = node_state.more s" and "int_tol t = int_tol s" "integer_columns t = integer_columns s"
    using assms by (simp_all add: domain_frame_def)
  then show "rules t = rules s" "tree t = tree s" "open_nodes t = open_nodes s" "have_incumbent t = have_incumbent s"
    "incumbent_internal t = incumbent_internal s"
    using search_fields[OF m] by (simp_all add: rules_def yardstick_def)
qed

lemma apply_change_frame:
  "int_tol (apply_change c t) = int_tol t" "integer_columns (apply_change c t) = integer_columns t"
  "conflicts (apply_change c t) = conflicts t"
  by (simp_all add: apply_change_def Let_def set_lower_def set_upper_def push_saved_def)

lemma fold_keeps: "(\<And>x t. f (g x t) = f t) \<Longrightarrow> f (fold g xs s) = f s"
  by (induction xs arbitrary: s) simp_all

lemma enter_frame:
  "int_tol (enter walked s) = int_tol s" "integer_columns (enter walked s) = integer_columns s"
  "conflicts (enter walked s) = conflicts s"
  unfolding enter_def
  by (subst fold_keeps[where f = int_tol], simp_all add: apply_change_frame)
     (subst fold_keeps[where f = integer_columns], simp_all add: apply_change_frame,
      subst fold_keeps[where f = conflicts], simp_all add: apply_change_frame)

text \<open>The literals of the stored conflicts stay, whatever propagation counts.\<close>

interpretation literals: domain_observer "\<lambda>s t. map entry_literals (store_entries (conflicts t)) =
    map entry_literals (store_entries (conflicts s))"
proof
  fix s :: "('a::{zero,one,plus,minus,times,divide,ord}, 'z) node_state_scheme" and k
  have "map entry_literals (xs[k := e]) = map entry_literals xs" if "entry_literals e = entry_literals (xs ! k)"
    for xs :: "'a conflict_entry list" and e
    by (simp add: map_update that) (metis list_update_beyond list_update_id map_update not_le_imp_less nth_map)
  then show "map entry_literals (store_entries (conflicts (touch k s))) = map entry_literals (store_entries (conflicts s))"
    by (simp add: touch_def)
qed (simp_all add: tighten_lower_def tighten_upper_def set_lower_def set_upper_def push_saved_def)


lemma xle_cmin_iff: "X q \<le> a \<Longrightarrow> X q \<le> b \<Longrightarrow> X q \<le> cmin a b"
  and cmax_xle_iff: "a \<le> X q \<Longrightarrow> b \<le> X q \<Longrightarrow> cmax a b \<le> X q"
  by (simp_all add: cmin_def cmax_def)

lemma apply_change_keeps:
  assumes a: "admits p s" and c: "change_admits p c"
  shows "keeps p s (apply_change c s)"
proof (cases "dc_column c < num_cols (working s)")
  case True
  let ?u = "dc_column c"
  let ?t = "if dc_upper c then tighten_upper ?u (cmin (uppers s ! ?u) (dc_value c)) s
    else tighten_lower ?u (cmax (lowers s ! ?u) (dc_value c)) s"
  have k: "keeps p s ?t"
    using admits_box[OF a True] c by (auto simp: change_admits_def xle_cmin_iff cmax_xle_iff intro!: keeps_upper[OF a] keeps_lower[OF a])
  have "working (apply_change c s) = working ?t"
    by (simp add: apply_change_def Let_def tighten_upper_def tighten_lower_def set_upper_def set_lower_def push_saved_def)
  moreover have "conflicts ?t = conflicts s" "int_tol ?t = int_tol s" "integer_columns ?t = integer_columns s"
    by (simp_all add: tighten_upper_def tighten_lower_def set_upper_def set_lower_def push_saved_def)
  ultimately have "admits p (apply_change c s) = admits p ?t" "static_part (apply_change c s) = static_part ?t"
    by (simp_all add: admits_def static_part_def apply_change_frame)
  then show ?thesis using k by (simp add: keeps_def)
next
  case False
  then have "\<not> dc_column c < length (lowers s)" "\<not> dc_column c < length (uppers s)" using a by (simp_all add: admits_def)
  then have "working (apply_change c s) = working s"
    by (simp add: apply_change_def Let_def set_upper_def set_lower_def push_saved_def list_update_beyond)
  then have "admits p (apply_change c s) = admits p s" "static_part (apply_change c s) = static_part s"
    by (simp_all add: admits_def static_part_def apply_change_frame)
  then show ?thesis using a by (simp add: keeps_def)
qed

lemma enter_keeps:
  assumes "admits p s" "\<forall>n \<in> set walked. node_admits p n"
  shows "keeps p s (enter walked s)"
proof -
  let ?f = "\<lambda>n. if node_has_change n then apply_change (node_change n) else id"
  have "admits p t \<Longrightarrow> \<forall>n \<in> set walked. node_admits p n \<Longrightarrow> keeps p t (fold ?f walked t)" for t :: "(xnum, 'z) node_state_scheme"
  proof (induction walked arbitrary: t)
    case (Cons n walked)
    have k: "keeps p t (?f n t)"
      using Cons.prems apply_change_keeps[OF Cons.prems(1)] keeps_refl[OF Cons.prems(1)] by (simp add: node_admits_def)
    from keeps_trans[OF k Cons.IH[OF keeps_admits[OF k]]] Cons.prems(2) show ?case by simp
  qed (simp add: keeps_refl)
  note steps = this
  have "admits p (s\<lparr>saved := []\<rparr>)" and st: "static_part (s\<lparr>saved := []\<rparr>) = static_part s"
    using assms(1) by (simp_all add: admits_def static_part_def)
  from steps[OF this(1) assms(2)] show ?thesis unfolding enter_def keeps_def st .
qed

text \<open>The handling of a node is over: the bounds are back, the literals are those of before, and the
  incumbent only improved.\<close>

definition settled :: "(xnum, 'z) search_scheme \<Rightarrow> (xnum, 'z) search_scheme \<Rightarrow> bool" where
  "settled s t \<longleftrightarrow> working t = working s \<and> rules t = rules s \<and>
     map entry_literals (store_entries (conflicts t)) = map entry_literals (store_entries (conflicts s)) \<and>
     tree t = tree s \<and> open_nodes t = open_nodes s \<and>
     (numbered s \<longrightarrow> numbered t \<and>
        (have_incumbent s \<longrightarrow> have_incumbent t \<and> incumbent_internal t \<le> incumbent_internal s))"

lemma settled_static: "settled s t \<Longrightarrow> static_part t = static_part s"
  unfolding settled_def static_part_def by (elim conjE) (simp only: rules_reads(2,3)[of t s])

lemma settled_admits: "settled s t \<Longrightarrow> admits p t = admits p s"
  using settled_static[of s t] unfolding settled_def admits_def by (elim conjE) (simp only:)

definition opened :: "(xnum, 'z) search_scheme \<Rightarrow> (xnum, 'z) search_scheme \<Rightarrow> bool" where
  "opened s t \<longleftrightarrow> base_model t = working s \<and> rules t = rules s \<and>
     map entry_literals (store_entries (conflicts t)) = map entry_literals (store_entries (conflicts s)) \<and>
     tree t = tree s \<and> open_nodes t = open_nodes s \<and> have_incumbent t = have_incumbent s \<and>
     incumbent_internal t = incumbent_internal s"

lemma open_node_opened: "opened s (snd (open_node sc walked s))"
proof -
  let ?e = "(enter walked s)\<lparr>nodes_explored := nodes_explored s + 1\<rparr>" and ?t = "snd (open_node sc walked s)"
  have f: "domain_frame (?e\<lparr>conflict_pruned := False\<rparr>) ?t" unfolding open_node_def by (rule framed.propagated)
  have "base_model ?t = base_model ?e" by (simp add: open_node_def)
  also have "\<dots> = base_model (enter walked s)" by (rule base_model_same) simp_all
  finally have b: "base_model ?t = working s" by (simp add: base_model_enter_exact)
  have "map entry_literals (store_entries (conflicts ?t)) =
      map entry_literals (store_entries (conflicts (?e\<lparr>conflict_pruned := False\<rparr>)))"
    unfolding open_node_def by (rule literals.propagated)
  then have l: "map entry_literals (store_entries (conflicts ?t)) = map entry_literals (store_entries (conflicts s))"
    by (simp add: enter_frame)
  have "rules (?e\<lparr>conflict_pruned := False\<rparr>) = rules s"
    by (simp add: rules_def yardstick_def enter_frame)
  then show ?thesis using b l frame_reads[OF f] by (simp add: opened_def)
qed

lemma open_node_admits:
  assumes "admits p s" "\<forall>n \<in> set walked. node_admits p n" "0 \<le> ft"
  shows "fst (open_node (exact_scalar ft mt) walked s) \<and> admits p (snd (open_node (exact_scalar ft mt) walked s))"
proof -
  have "admits p ((enter walked s)\<lparr>nodes_explored := nodes_explored s + 1\<rparr>)"
    using keeps_admits[OF enter_keeps[OF assms(1,2)]] by (simp add: admits_def static_part_def)
  from propagate_keeps[OF assms(3) this, of mt "fst (open_node (exact_scalar ft mt) walked s)" "snd (open_node (exact_scalar ft mt) walked s)"]
  show ?thesis by (simp add: open_node_def keeps_def)
qed

lemma settled_leave: "opened s t \<Longrightarrow> held t u \<Longrightarrow> settled s (leave u)"
proof -
  assume o: "opened s t" and h: "held t u"
  have r: "rules (leave u) = rules u" "conflicts (leave u) = conflicts u"
    by (simp_all add: leave_eq rules_def yardstick_def)
  have ru: "rules u = rules s" "rules t = rules s" using o h by (simp_all add: opened_def held_def)
  have "numbered t = numbered s" using o finite_reads(2)[OF ru(2)] by (simp add: numbered_def opened_def)
  moreover have "numbered (leave u) = numbered u" using finite_reads(2)[OF r(1)] by (simp add: numbered_def)
  ultimately show ?thesis using o h r by (simp add: settled_def opened_def held_def working_leave)
qed

lemma point_of_admits: "admits p s \<Longrightarrow> lp_point (working s) p"
  by (auto simp: lp_point_def dest: admits_box admits_row)


section \<open>Every feasible point is covered\<close>

text \<open>A value the incumbent is within \<open>mg\<close> of.\<close>

definition beaten :: "rat \<Rightarrow> (xnum, 'z) search_scheme \<Rightarrow> xnum \<Rightarrow> bool" where
  "beaten mg s y \<longleftrightarrow> have_incumbent s \<and> incumbent_internal s - X mg \<le> y"

definition at_node :: "(nat \<Rightarrow> rat) \<Rightarrow> (xnum, 'z) search_scheme \<Rightarrow> nat \<Rightarrow> bool" where
  "at_node p s i \<longleftrightarrow> in_region p (tree s) i \<and> node_bound (tree s ! i) \<le> value_at s p"

definition covered :: "rat \<Rightarrow> (xnum, 'z) search_scheme \<Rightarrow> (nat \<Rightarrow> rat) \<Rightarrow> bool" where
  "covered mg s p \<longleftrightarrow> (\<exists>i \<in> set (open_nodes s). at_node p s i) \<or> beaten mg s (value_at s p)"

text \<open>The step is unknown, or the value of the point is a multiple of it.\<close>

definition step_ok :: "(xnum, 'z) search_scheme \<Rightarrow> (nat \<Rightarrow> rat) \<Rightarrow> bool" where
  "step_ok s p \<longleftrightarrow> (\<exists>d. objective_step s = X d \<and> (d \<le> 0 \<or> (\<exists>k. value_at s p = X (of_int k * d))))"

definition margin_ok :: "rat \<Rightarrow> (xnum, 'z) search_scheme \<Rightarrow> bool" where
  "margin_ok mg s \<longleftrightarrow> (\<exists>g. gap_target s = X g \<and> g \<le> mg) \<and> 1 / 10 ^ 12 \<le> mg \<and> (quadratic s \<longrightarrow> 1 / 10 ^ 10 \<le> mg)"

definition base_ok :: "rat \<Rightarrow> (nat \<Rightarrow> rat) set \<Rightarrow> (xnum, 'z) search_scheme \<Rightarrow> bool" where
  "base_ok mg P s \<longleftrightarrow> parents_older (tree s) \<and> set (open_nodes s) \<subseteq> {..<length (tree s)} \<and>
     changes_ok (integer_columns s) (tree s) \<and> \<not> pool_complete s \<and> margin_ok mg s \<and> numbered s \<and>
     num_cols (working s) = num_cols (original s) \<and> (\<forall>p \<in> P. admits p s \<and> step_ok s p)"

definition search_ok :: "rat \<Rightarrow> (nat \<Rightarrow> rat) set \<Rightarrow> (xnum, 'z) search_scheme \<Rightarrow> bool" where
  "search_ok mg P s \<longleftrightarrow> base_ok mg P s \<and> (\<forall>p \<in> P. covered mg s p)"

lemma minus_wider: "a - X m \<le> y \<Longrightarrow> m \<le> n \<Longrightarrow> a - X n \<le> y"
  by (cases a; cases y) (auto simp: minus_xnum_def)

lemma minus_smaller: "b - X m \<le> y \<Longrightarrow> a \<le> b \<Longrightarrow> a - X m \<le> y"
  by (cases a; cases b; cases y) (auto simp: minus_xnum_def)

lemma prune_beaten:
  assumes prune: "can_prune (exact_scalar ft mt) s b" and "\<not> pool_complete s" "margin_ok mg s" "step_ok s p"
    and b: "b \<le> value_at s p"
  shows "beaten mg s (value_at s p)"
proof -
  let ?r = "integral_bound (exact_scalar ft mt) s b"
  obtain g where g: "gap_target s = X g" "g \<le> mg" using assms(3) by (auto simp: margin_ok_def)
  define mm where "mm = (if quadratic s then max g (1 / 10 ^ 10) else g)"
  have mm: "mm \<le> mg" using g assms(3) by (auto simp: mm_def margin_ok_def)
  have "(if quadratic s then cmax (gap_target s) (X (1 / 10 ^ 10)) else gap_target s) = X mm"
    by (auto simp: g mm_def cmax_def)
  then have i: "have_incumbent s" "incumbent_internal s - X mm \<le> ?r"
    using prune assms(2) by (auto simp: can_prune_def Let_def exact_scalar_def split: if_splits)
  obtain d where d: "objective_step s = X d" "d \<le> 0 \<or> (\<exists>k. value_at s p = X (of_int k * d))"
    using assms(4) by (auto simp: step_ok_def)
  have "?r \<le> value_at s p"
  proof (cases "d \<le> 0")
    case True
    then show ?thesis using b by (simp add: integral_bound_def round_up_to_step_def d X_consts)
  next
    case False
    then obtain k where "value_at s p = X (of_int k * d)" using d by auto
    then show ?thesis using integral_bound_below[of b k d ft mt] b by (simp add: integral_bound_def d)
  qed
  then have "incumbent_internal s - X mm \<le> value_at s p" using i(2) xle_trans by blast
  then show ?thesis using i(1) minus_wider mm by (auto simp: beaten_def)
qed

lemma settled_rules: "settled s t \<Longrightarrow> rules t = rules s" "held s t \<Longrightarrow> rules t = rules s" "opened s t \<Longrightarrow> rules t = rules s"
  by (simp_all add: settled_def held_def opened_def)

lemma rules_ok:
  assumes "rules t = rules s"
  shows "step_ok t p = step_ok s p" "margin_ok mg t = margin_ok mg s"
  using rules_reads[OF assms] finite_reads(3)[OF assms] by (simp_all add: step_ok_def margin_ok_def)

lemma settled_beaten: "settled s t \<Longrightarrow> numbered s \<Longrightarrow> beaten mg s y \<Longrightarrow> beaten mg t y"
  by (auto simp: settled_def beaten_def intro: minus_smaller)

lemma held_beaten: "held s t \<Longrightarrow> numbered s \<Longrightarrow> beaten mg s y \<Longrightarrow> beaten mg t y"
  by (auto simp: held_def beaten_def intro: minus_smaller)

lemma settled_base: "settled s t \<Longrightarrow> base_ok mg P s \<Longrightarrow> base_ok mg P t"
proof -
  assume st: "settled s t" and b: "base_ok mg P s"
  have r: "rules t = rules s" using settled_rules(1)[OF st] .
  have eqs: "tree t = tree s" "open_nodes t = open_nodes s" "working t = working s" "numbered t"
    using st b by (auto simp: settled_def base_ok_def)
  show ?thesis
    using b unfolding base_ok_def eqs(1-3) rules_reads(1,2,9)[OF r] rules_ok[OF r] settled_admits[OF st] by (simp add: eqs(4))
qed

lemma settled_covered: "settled s t \<Longrightarrow> numbered s \<Longrightarrow> covered mg s p \<Longrightarrow> covered mg t p"
proof -
  assume st: "settled s t" and n: "numbered s" and c: "covered mg s p"
  have v: "value_at t p = value_at s p" using finite_reads(3)[OF settled_rules(1)[OF st]] .
  have eqs: "tree t = tree s" "open_nodes t = open_nodes s" using st by (auto simp: settled_def)
  show ?thesis using c settled_beaten[OF st n] unfolding covered_def at_node_def v eqs by blast
qed

text \<open>Closing a node: whoever was only covered by it is beaten.\<close>

lemma closed_ok:
  assumes "base_ok mg P s" "\<forall>p \<in> P. covered mg s p \<or> at_node p s i" "settled s t"
    "\<forall>p \<in> P. at_node p s i \<longrightarrow> beaten mg t (value_at s p)"
  shows "search_ok mg P t"
proof -
  have n: "numbered s" using assms(1) by (simp add: base_ok_def)
  have "covered mg t p" if p: "p \<in> P" for p
  proof (cases "covered mg s p")
    case True
    then show ?thesis by (rule settled_covered[OF assms(3) n])
  next
    case False
    then have "beaten mg t (value_at s p)" using assms(2,4) p by blast
    then show ?thesis using finite_reads(3)[OF settled_rules(1)[OF assms(3)], of p] by (simp add: covered_def)
  qed
  then show ?thesis using settled_base[OF assms(3,1)] by (simp add: search_ok_def)
qed

text \<open>Branching: every integral point of the node is in one of the children.\<close>

lemma branched_ok:
  assumes base: "base_ok mg P s" and cov: "\<forall>p \<in> P. covered mg s p \<or> at_node p s i" and i: "i < length (tree s)"
    and st: "settled s t" and j: "j \<in> set (integer_columns s)" and x: "v = X q"
    and b: "\<forall>p \<in> P. at_node p s i \<longrightarrow> b \<le> value_at s p"
  shows "search_ok mg P (branch (exact_scalar ft mt) i j v b est t)"
proof -
  let ?n = "length (tree t)" and ?u = "branch (exact_scalar ft mt) i j v b est t"
  let ?fl = "X (of_int \<lfloor>q\<rfloor>)" and ?d = "node_depth (tree t ! i) + 1"
  define down where "down = child_node (int i) \<lparr>dc_column = j, dc_upper = True, dc_value = ?fl\<rparr> b ?d (v - ?fl) est"
  define up where "up = child_node (int i) \<lparr>dc_column = j, dc_upper = False, dc_value = X (of_int (\<lfloor>q\<rfloor> + 1))\<rparr> b ?d
    (X (of_int (\<lfloor>q\<rfloor> + 1)) - v) est"
  have bt: "base_ok mg P t" using settled_base[OF st base] .
  have eqs: "tree t = tree s" "open_nodes t = open_nodes s" using st by (auto simp: settled_def)
  have u: "?u = t\<lparr>tree := tree t @ [down, up], open_nodes := open_nodes t @ [?n, Suc ?n]\<rparr>"
    by (simp add: branch_def Let_def exact_scalar_def x down_def up_def X_consts)
  have older: "parents_older (tree t @ [down, up])"
    using bt i unfolding parents_older_append eqs
    by (auto simp: base_ok_def eqs down_def up_def child_node_def less_Suc_eq numeral_2_eq_2)
  have r: "rules ?u = rules t" by (simp add: u rules_def yardstick_def)
  have rs: "rules t = rules s" using settled_rules(1)[OF st] .
  have val: "value_at ?u p = value_at s p" for p using finite_reads(3)[OF r] finite_reads(3)[OF rs] by simp
  have num: "numbered ?u" using bt finite_reads(2)[OF r] by (simp add: base_ok_def numbered_def u)
  have adm: "admits p ?u = admits p t" for p by (rule admits_same) (simp_all add: u)
  have whole: "\<exists>z. dc_value (node_change up) = X (of_int z)" "\<exists>z. dc_value (node_change down) = X (of_int z)"
    unfolding up_def down_def child_node_def tree_node.simps domain_change.simps by blast+
  have ch: "changes_ok (integer_columns t) (tree t @ [down, up])"
    using bt j rules_reads(2)[OF rs] whole unfolding base_ok_def changes_ok_def
    by (auto simp: down_def up_def child_node_def)
  have base': "base_ok mg P ?u"
    using bt num older ch unfolding base_ok_def rules_reads(9)[OF r] rules_ok[OF r] adm by (auto simp: u)
  have reg: "in_region p (tree t @ [down, up]) k = in_region p (tree t) k" if "k < ?n" for p k
    using region_append[of "tree t" k] bt that by (simp add: base_ok_def)
  have children: "in_region p (tree t @ [down, up]) ?n \<longleftrightarrow> in_region p (tree t) i \<and> node_admits p down"
    "in_region p (tree t @ [down, up]) (Suc ?n) \<longleftrightarrow> in_region p (tree t) i \<and> node_admits p up" for p
    using region_step[OF older, of ?n i p] region_step[OF older, of "Suc ?n" i p] reg[of i p] i
    by (auto simp: eqs nth_append down_def up_def child_node_def)
  have "covered mg ?u p" if p: "p \<in> P" for p
  proof (cases "covered mg s p")
    case True
    then have c: "covered mg t p" using settled_covered[OF st] base by (simp add: base_ok_def)
    then show ?thesis
    proof (unfold covered_def, elim disjE bexE)
      fix k assume k: "k \<in> set (open_nodes t)" "at_node p t k"
      then have "k < ?n" using bt by (auto simp: base_ok_def)
      then have "at_node p ?u k" using k(2) reg finite_reads(3)[OF r] by (simp add: at_node_def u nth_append)
      then show "(\<exists>i \<in> set (open_nodes ?u). at_node p ?u i) \<or> beaten mg ?u (value_at ?u p)" using k(1) by (auto simp: u)
    next
      assume "beaten mg t (value_at t p)"
      then show "(\<exists>i \<in> set (open_nodes ?u). at_node p ?u i) \<or> beaten mg ?u (value_at ?u p)"
        using finite_reads(3)[OF r] by (simp add: beaten_def u)
    qed
  next
    case False
    then have a: "at_node p s i" using cov p by auto
    have "p j \<in> \<int>" using admits_integral(2)[of p s j] base p j by (simp add: base_ok_def)
    then obtain w where w: "p j = of_int w" by (auto elim: Ints_cases)
    have "b \<le> value_at s p" using b p a by auto
    moreover have "node_admits p down \<or> node_admits p up"
      by (auto simp: node_admits_def change_admits_def down_def up_def child_node_def w)
    ultimately have "at_node p ?u ?n \<or> at_node p ?u (Suc ?n)"
      using children[of p] a val[of p] by (auto simp: at_node_def u eqs nth_append down_def up_def child_node_def)
    then show ?thesis by (auto simp: covered_def u)
  qed
  then show ?thesis using base' by (simp add: search_ok_def)
qed

end
