(* ===== verification/TreeCorrect.thy ===== *)
theory TreeCorrect
  imports TreeSearch
begin

text \<open>
  The tree search is correct over exact numbers: a turn keeps every feasible integer point covered (below
  an open node that does not bound it away, or within the pruning margin of the incumbent), so an exhausted
  tree and the reported bound mean what they say. The relaxation engine enters as an oracle whose answers
  are honest (\<open>TreeSearch.honest_answer\<close>).
\<close>

section \<open>Taking a node\<close>

lemma pick_in_range:
  assumes "open_nodes s \<noteq> []"
  shows "pick_node sc dive s < length (open_nodes s)"
proof -
  have last: "snd (snd (fold (smallest_step key nodes opn) is acc)) \<in> insert (snd (snd acc)) (set is)" for key :: "'a tree_node \<Rightarrow> 'a"
    and nodes opn "is" acc
    by (induction "is" arbitrary: acc) (fastforce simp: smallest_step_def Let_def split: prod.splits if_splits)+
  have in_range: "k \<in> insert (length (open_nodes s) - 1) {..<length (open_nodes s)} \<Longrightarrow> k < length (open_nodes s)" for k
    using assms by auto
  have "set [0..<length (open_nodes s)] = {..<length (open_nodes s)}" by auto
  with last[of _ "tree s" "open_nodes s" "[0..<length (open_nodes s)]" "(sc_infinity sc, index_max, length (open_nodes s) - 1)"]
  have "choose_smallest sc key (tree s) (open_nodes s) (length (open_nodes s) - 1) < length (open_nodes s)" for key
    unfolding choose_smallest_def by (intro in_range) (simp only: snd_conv)
  then show ?thesis using assms by (auto simp: pick_node_def Let_def split: node_selection.splits)
qed

lemma erase_at_covers: "i < length xs \<Longrightarrow> x \<in> set xs \<Longrightarrow> x \<in> set (erase_at i xs) \<or> x = xs ! i"
  using erase_at_mset[of i xs] by (metis insert_iff set_mset_add_mset_insert set_mset_mset)

text \<open>Only the list of open nodes and counters move.\<close>

lemma take_next:
  assumes t: "take_next_open_node sc dive s = (i, t)" and ne: "open_nodes s \<noteq> []"
  shows "rules t = rules s \<and> working t = working s \<and> conflicts t = conflicts s \<and> tree t = tree s \<and>
    have_incumbent t = have_incumbent s \<and> incumbent_internal t = incumbent_internal s \<and>
    i \<in> set (open_nodes s) \<and> set (open_nodes t) \<subseteq> set (open_nodes s) \<and> set (open_nodes s) \<subseteq> insert i (set (open_nodes t))"
proof -
  let ?k = "pick_node sc dive s"
  have k: "?k < length (open_nodes s)" using pick_in_range[OF ne] .
  have i: "i = open_nodes s ! ?k" and o: "open_nodes t = erase_at ?k (open_nodes s)"
    using t by (auto simp: take_next_open_node_def Let_def)
  have eq: "t = snd (take_next_open_node sc dive s)" by (simp add: t)
  have "rules t = rules s \<and> working t = working s \<and> conflicts t = conflicts s \<and> tree t = tree s \<and>
    have_incumbent t = have_incumbent s \<and> incumbent_internal t = incumbent_internal s"
    by (cases "selection s = kDepthFirst \<or> selection s = kHybrid \<and> dive")
       (simp_all only: eq take_next_open_node_def Let_def snd_conv if_True if_False, simp_all add: rules_def yardstick_def)
  moreover have "set (open_nodes s) \<subseteq> insert i (set (open_nodes t))" using erase_at_covers[OF k] by (auto simp: i o)
  ultimately show ?thesis using k set_erase_at[of ?k "open_nodes s"] by (simp add: i o)
qed

lemma taken_ok:
  assumes ok: "search_ok mg P s" and t: "take_next_open_node sc dive s = (i, t)" and ne: "open_nodes s \<noteq> []"
  shows "base_ok mg P t \<and> i < length (tree t) \<and> (\<forall>p \<in> P. covered mg t p \<or> at_node p t i)"
proof -
  note k = take_next[OF t ne]
  then have r: "rules t = rules s" by simp
  have adm: "admits p t = admits p s" for p
    using k rules_reads(2,3)[OF r] by (intro admits_same) simp_all
  have num: "numbered t = numbered s" using k finite_reads(2)[OF r] by (simp add: numbered_def)
  have b: "base_ok mg P s" using ok by (simp add: search_ok_def)
  then have "set (open_nodes t) \<subseteq> {..<length (tree s)}" "i < length (tree s)" using k unfolding base_ok_def by blast+
  then have "base_ok mg P t" "i < length (tree t)"
    using b k unfolding base_ok_def rules_reads(1,2,9)[OF r] rules_ok[OF r] adm num by simp_all
  moreover have "covered mg t p \<or> at_node p t i" if "p \<in> P" for p
  proof -
    have "covered mg s p" using ok that by (simp add: search_ok_def)
    moreover have "at_node p t = at_node p s" "beaten mg t = beaten mg s" "value_at t p = value_at s p"
      using k finite_reads(3)[OF r] by (simp_all add: at_node_def beaten_def fun_eq_iff)
    ultimately show ?thesis using k by (auto simp: covered_def)
  qed
  ultimately show ?thesis by blast
qed

section \<open>An accepted relaxation beats its node\<close>

lemma offer_beats:
  assumes c: "candidate_ok (exact_scalar ft mt) s x" and f: "finite_point s x" and n: "numbered s" and mg: "1 / 10 ^ 12 \<le> mg"
  shows "beaten mg (snd (offer_incumbent (exact_scalar ft mt) llround x s)) (internal_objective s x)"
proof -
  let ?v = "internal_objective s x" and ?i = "incumbent_internal s"
  have v: "\<not> xnan ?v" using n f by (simp add: numbered_def objective_defined_def)
  have "?v - X mg \<le> ?v" using v mg by (cases ?v) (auto simp: minus_xnum_def)
  moreover have "?i - X mg \<le> ?v" if "?i - X (1 / 10 ^ 12) \<le> ?v" using minus_wider[OF that mg] .
  moreover have "internal_objective (s\<lparr>plan_pool := pp\<rparr>) x = ?v" for pp by (simp add: internal_objective_def)
  ultimately show ?thesis using c by (auto simp: offer_incumbent_def beaten_def Let_def exact_scalar_def)
qed

lemma opened_held_static:
  assumes "opened s t" "held t u"
  shows "rules u = rules s" "tree u = tree s" "numbered s \<Longrightarrow> numbered u"
    "have_incumbent s \<Longrightarrow> numbered s \<Longrightarrow> have_incumbent u"
proof -
  have r: "rules t = rules s" using assms by (simp add: opened_def)
  have "numbered t = numbered s" using assms finite_reads(2)[OF r] by (simp add: numbered_def opened_def)
  then show "rules u = rules s" "tree u = tree s" "numbered s \<Longrightarrow> numbered u"
    "have_incumbent s \<Longrightarrow> numbered s \<Longrightarrow> have_incumbent u"
    using assms by (auto simp: opened_def held_def)
qed

lemma beaten_leave: "beaten mg (leave s) = beaten mg s"
  by (simp add: beaten_def leave_eq fun_eq_iff)


lemma beaten_settled: "opened s t \<Longrightarrow> held t u \<Longrightarrow> numbered s \<Longrightarrow> beaten mg u y \<Longrightarrow> beaten mg (leave u) y"
  by (simp add: beaten_leave)

section \<open>One turn\<close>

lemma observe_held: "held s (observe n b s)"
  by (simp add: observe_def held_costs costs_record held_refl)

lemma numbers_same:
  assumes "rules t = rules s"
  shows "numbers_only oc t = numbers_only oc s"
  using finite_reads(1)[OF assms] by (simp add: numbers_only_def)

lemma most_fractional_same:
  fixes s :: "(xnum, 'z) search_scheme" and sc :: "xnum scalar"
  shows "rules t = rules s \<Longrightarrow> most_fractional sc t x = most_fractional sc s x"
  using rules_reads(2,3)[of t s] by (simp add: most_fractional_def)

text \<open>A solved node: it is pruned, closed by an accepted point, or branched on.\<close>

lemma solved_ok:
  fixes s0 :: "(xnum, 'z) search_scheme" and ft mt :: rat
  defines "sc \<equiv> exact_scalar ft mt"
  assumes base: "base_ok mg P s0" and cov: "\<forall>p \<in> P. covered mg s0 p \<or> at_node p s0 i" and i: "i < length (tree s0)"
    and op: "opened s0 s" and ne: "P \<noteq> {}"
    and low: "\<forall>p \<in> P. at_node p s0 i \<longrightarrow> internal_objective s0 (rx_value (answer oc)) \<le> value_at s0 p"
    and fin: "finite_point s0 (rx_value (answer oc))" and num: "numbers_only oc s0"
    and ok: "most_fractional sc s0 (rx_value (answer oc)) < 0 \<longrightarrow> candidate_ok sc s0 (rx_value (answer oc))"
    and run: "solved_node sc cfg oc i s = (GoOn, dive, t)"
  shows "search_ok mg P t"
proof -
  let ?x = "rx_value (answer oc)"
  let ?b = "internal_objective s ?x"
  define s1 where "s1 = observe (tree s ! i) ?b s"
  define s2 where "s2 = offer_all sc (to_integer cfg) (proposals oc) (try_rounding sc (to_integer cfg) ?x s1)"
  have h1: "held s s1" by (simp add: s1_def observe_held)
  have rs: "rules s = rules s0" using op by (simp add: opened_def)
  have num0: "numbered s0" using base by (simp add: base_ok_def)
  have b: "?b = internal_objective s0 ?x" using rules_reads(10)[OF rs] .
  note o1 = opened_held_static[OF op h1]
  have f1: "finite_point s1 ?x" using fin finite_reads(1)[OF o1(1)] by simp
  have "held s1 s2"
  proof -
    let ?r = "try_rounding sc (to_integer cfg) ?x s1"
    have h: "held s1 ?r" using held_rounding[OF f1] by (simp add: sc_def)
    have "rules ?r = rules s0" using h o1(1) by (simp add: held_def)
    then have "numbers_only oc ?r" using num numbers_same[of ?r s0] by simp
    then have "\<forall>x \<in> set (proposals oc). finite_point ?r x" by (simp add: numbers_only_def)
    from held_trans[OF h] held_offer_all[OF this] show ?thesis by (simp add: s2_def sc_def)
  qed
  then have h2: "held s s2" using held_trans[OF h1] by blast
  note o2 = opened_held_static[OF op h2]
  have f2: "finite_point s2 ?x" using fin finite_reads(1)[OF o2(1)] by simp
  note closing = closed_ok[OF base cov]
  have lower: "?b \<le> value_at s0 p" if "p \<in> P" "at_node p s0 i" for p using low that b by simp
  show ?thesis
  proof (cases "can_prune sc s1 ?b")
    case True
    then have t: "t = leave s1" using run by (simp add: solved_node_def Let_def s1_def)
    have "beaten mg (leave s1) (value_at s0 p)" if p: "p \<in> P" "at_node p s0 i" for p
    proof -
      have "step_ok s1 p" "margin_ok mg s1" "\<not> pool_complete s1" "value_at s1 p = value_at s0 p"
        using base p(1) rules_ok[OF o1(1)] rules_reads(9)[OF o1(1)] finite_reads(3)[OF o1(1)] by (simp_all add: base_ok_def)
      with prune_beaten[OF True[unfolded sc_def], of mg p] lower[OF p] show ?thesis by (simp add: beaten_leave)
    qed
    then show ?thesis unfolding t by (intro closing settled_leave[OF op h1]) blast
  next
    case False
    note run1 = run[unfolded solved_node_def Let_def, folded s1_def, folded s2_def]
    show ?thesis
    proof (cases "most_fractional sc s2 ?x < 0")
      case True
      define s3 where "s3 = snd (offer_incumbent sc (to_integer cfg) ?x s2)"
      have h3: "held s s3" using held_trans[OF h2 held_offer[OF f2]] by (simp add: s3_def sc_def)
      have "\<not> pool_complete s3" using base rules_reads(9)[OF opened_held_static(1)[OF op h3]] by (simp add: base_ok_def)
      then have t: "t = leave s3" using run1 False True by (simp add: close_integral_def Let_def s3_def)
      have "candidate_ok sc s2 ?x"
        using True ok most_fractional_same[OF o2(1)] rules_reads(11)[OF o2(1)] by simp
      from offer_beats[OF this[unfolded sc_def] f2 o2(3)[OF num0], of mg "to_integer cfg"]
      have "beaten mg s3 (internal_objective s2 ?x)" using base by (simp add: s3_def sc_def base_ok_def margin_ok_def)
      then have "beaten mg s3 ?b" using rules_reads(10)[OF o2(1)] by (simp add: b)
      then have "beaten mg s3 (value_at s0 p)" if "p \<in> P" "at_node p s0 i" for p
        using lower[OF that] xle_trans unfolding beaten_def by blast
      then show ?thesis unfolding t by (intro closing settled_leave[OF op h3]) (simp add: beaten_leave)
    next
      case go: False
      obtain res d where br: "branch_node sc cfg oc i ?b s2 = (GoOn, t)"
        using run1 False go by (auto split: prod.splits)
      define s3 where "s3 = (if i = 0 then offer_all sc (to_integer cfg) (pump_points oc)
                  (dive_from_root sc (to_integer cfg) (dive_engine oc) ?x s2) else s2)"
      have "held s2 s3"
      proof -
        let ?d = "dive_from_root sc (to_integer cfg) (dive_engine oc) ?x s2"
        have "numbers_only oc s2" using num numbers_same[OF o2(1)] by simp
        then have "\<forall>m. rx_status (dive_engine oc m) = kOptimal \<longrightarrow> finite_point s2 (rx_value (dive_engine oc m))"
          by (simp add: numbers_only_def)
        from held_root_dive[OF f2 this] have h: "held s2 ?d" by (simp add: sc_def)
        have "rules ?d = rules s0" using h o2(1) by (simp add: held_def)
        then have "numbers_only oc ?d" using num numbers_same[of ?d s0] by simp
        then have "\<forall>x \<in> set (pump_points oc). finite_point ?d x" by (simp add: numbers_only_def)
        from held_trans[OF h held_offer_all[OF this]] held_refl[of s2] show ?thesis by (simp add: s3_def sc_def)
      qed
      then have h3: "held s s3" using held_trans[OF h2] by blast
      obtain col s4 where pick: "(if reliability_branching cfg
            then select_branching_column sc (sort_largest cfg) (of_count cfg) (probe_engine oc) ?x ?b s3
            else (most_fractional sc s3 ?x, s3)) = (col, s4)" by fastforce
      have col: "0 \<le> col" and t: "t = branch sc i (nat col) (?x ! nat col) ?b (estimate_from sc (of_count cfg) (leave s4) ?x ?b) (leave s4)"
        using br unfolding branch_node_def Let_def s3_def[symmetric] pick by (auto split: if_splits)
      have c: "held s3 s4 \<and> (\<exists>j \<in> set (integer_columns s3). col = int j)"
      proof (cases "reliability_branching cfg")
        case True
        then have "select_branching_column sc (sort_largest cfg) (of_count cfg) (probe_engine oc) ?x ?b s3 = (col, s4)"
          using pick by simp
        from select_column[OF this] show ?thesis using col held_costs by (auto split: if_splits)
      next
        case False
        then show ?thesis using pick col most_fractional_column[of sc s3 ?x] held_refl by auto
      qed
      have h4: "held s s4" using held_trans[OF h3] c by blast
      obtain j where j: "col = int j" "j \<in> set (integer_columns s0)"
        using c rules_reads(2)[OF opened_held_static(1)[OF op h3]] by auto
      obtain p0 where "p0 \<in> P" using ne by blast
      then have "j < num_cols (original s0)" using base j(2) admits_integral(2)[of p0 s0 j] by (simp add: base_ok_def)
      then have "xfinite (?x ! j)" using fin by (simp add: finite_point_def list_all_length)
      then obtain q where q: "?x ! j = X q" by (cases "?x ! j") simp_all
      show ?thesis unfolding t sc_def j(1) nat_int
        by (rule branched_ok[OF base cov i settled_leave[OF op h4] j(2) q]) (use lower in blast)
    qed
  qed
qed


text \<open>Learning after a node is closed.\<close>

lemma learned_ok:
  assumes ok: "search_ok mg P s" and ne: "P \<noteq> {}" and l: "\<forall>p \<in> P. admits p t \<and> learned_frame s t"
  shows "search_ok mg P t"
proof -
  have "learned_frame s t" using l ne by blast
  then have eqs: "rules t = rules s" "tree t = tree s" "open_nodes t = open_nodes s" "working t = working s"
    "have_incumbent t = have_incumbent s" "incumbent_internal t = incumbent_internal s"
    by (auto simp: learned_frame_def rules_def yardstick_def)
  have num: "numbered t = numbered s" using eqs finite_reads(2)[OF eqs(1)] by (simp add: numbered_def)
  have "at_node p t = at_node p s" "beaten mg t = beaten mg s" "value_at t p = value_at s p" for p
    using eqs finite_reads(3)[OF eqs(1)] by (simp_all add: at_node_def beaten_def fun_eq_iff)
  then have "covered mg t p = covered mg s p" for p by (simp add: covered_def eqs)
  moreover have "base_ok mg P t"
    using ok l unfolding search_ok_def base_ok_def eqs(2-4) rules_reads(1,2,9)[OF eqs(1)] rules_ok[OF eqs(1)] num by simp
  ultimately show ?thesis using ok by (simp add: search_ok_def)
qed

lemma settled_refl: "settled s s"
  by (simp add: settled_def xle_refl numbered_def)

lemma at_node_empty:
  assumes box: "\<not> fst (open_node (exact_scalar ft mt) walked s) \<or> (\<forall>p. \<not> lp_point (working (snd (open_node (exact_scalar ft mt) walked s))) p)"
    and w: "chain (tree s) (int i) = Some walked" and a: "admits p s" and ft: "0 \<le> ft"
  shows "\<not> at_node p s i"
proof
  assume "at_node p s i"
  then have "\<forall>n \<in> set walked. node_admits p n" using w by (auto simp: at_node_def in_region_def)
  from open_node_admits[OF a this ft, of mt] box point_of_admits show False by blast
qed

text \<open>One node: handled without an end of the search, it keeps every point of \<open>P\<close> covered.\<close>

lemma process_ok:
  fixes s :: "xnum search" and ft mt :: rat
  defines "sc \<equiv> exact_scalar ft mt"
  assumes ft: "0 \<le> ft" and base: "base_ok mg P s" and cov: "\<forall>p \<in> P. covered mg s p \<or> at_node p s i"
    and i: "i < length (tree s)" and ne: "P \<noteq> {}" and num: "numbers_only oc s"
    and honest: "\<forall>walked. chain (tree s) (int i) = Some walked \<longrightarrow> honest_answer sc (answer oc) (snd (open_node sc walked s))"
    and run: "process_node sc cfg oc i st s = Some (GoOn, st', dive, t)"
  shows "search_ok mg P t"
proof (cases "can_prune sc s (node_bound (tree s ! i))")
  case True
  then have t: "t = s" using run by (simp add: process_node_def)
  have "beaten mg s (value_at s p)" if "p \<in> P" "at_node p s i" for p
    using prune_beaten[OF True[unfolded sc_def], of mg p] base that by (simp add: base_ok_def at_node_def)
  then show ?thesis unfolding t using closed_ok[OF base cov settled_refl] by blast
next
  case False
  from base have older: "parents_older (tree s)" and adm: "\<And>p. p \<in> P \<Longrightarrow> admits p s" by (simp_all add: base_ok_def)
  from chain_ends[OF older i] obtain walked where w: "chain (tree s) (int i) = Some walked" by blast
  obtain ob s1 where o: "open_node sc walked s = (ob, s1)" by fastforce
  have op: "opened s s1" using open_node_opened[of s sc walked] by (simp add: o)
  have hon: "honest_answer sc (answer oc) s1" using honest w o by simp
  have closed: "search_ok mg P (leave s1)" if "\<forall>p \<in> P. \<not> at_node p s i"
    using closed_ok[OF base cov settled_leave[OF op held_refl]] that by blast
  have empty: "\<forall>p \<in> P. \<not> at_node p s i" if "\<not> ob \<or> (\<forall>p. \<not> lp_point (working s1) p)"
    using at_node_empty[of ft mt walked s i] that adm ft w by (simp add: o[unfolded sc_def])
  have analysed: "search_ok mg P u" if "\<forall>p \<in> P. \<not> at_node p s i"
      "analyze_conflict sc (learning cfg) i source farkas (st, leave s1) = Some (st2, u)" for source farkas st2 u
  proof -
    note ok = closed[OF that(1)]
    then have b: "base_ok mg P (leave s1)" by (simp add: search_ok_def)
    have "tree (leave s1) = tree s" using op by (simp add: opened_def)
    then have "\<forall>p \<in> P. admits p u \<and> learned_frame (leave s1) u"
      using b i analysis_sound[OF _ ft _ _ _ that(2)[unfolded sc_def]] unfolding base_ok_def by auto
    then show ?thesis using learned_ok[OF ok ne] by blast
  qed
  note run1 = run[unfolded process_node_def, simplified False w if_False Option.bind.simps o Let_def prod.case]
  show ?thesis
  proof (cases ob)
    case False
    then show ?thesis
      using run1 closed empty analysed by (auto split: if_splits)
  next
    case True
    then have open_run: "(case rx_status (answer oc) of
            kInfeasible \<Rightarrow> map_option (\<lambda>(st', s'). (GoOn, st', False, s'))
              (analyze_conflict sc (learning cfg) i kLp (Some (dual_ray oc)) (st, leave s1))
          | kUnbounded \<Rightarrow> Some (Ended kUnbounded, st, False, leave s1)
          | kInterrupted \<Rightarrow> Some (Limited kInterrupted, st, False, put_back i (leave s1))
          | kTimeLimit \<Rightarrow> Some (Limited kTimeLimit, st, False, put_back i (leave s1))
          | kIterationLimit \<Rightarrow> Some (Limited kIterationLimit, st, False, put_back i (leave s1))
          | kOptimal \<Rightarrow> (case solved_node sc cfg oc i s1 of (res, dive, s2) \<Rightarrow> Some (res, st, dive, s2))
          | _ \<Rightarrow> Some (Ended kNumericalError, st, False, leave s1)) = Some (GoOn, st', dive, t)"
      using run1 by simp
    then consider "rx_status (answer oc) = kInfeasible" | "rx_status (answer oc) = kOptimal"
      by (cases "rx_status (answer oc)") simp_all
    then show ?thesis
    proof cases
      case 1
      then have "\<forall>p. \<not> lp_point (working s1) p" using hon by (simp add: honest_answer_def)
      then show ?thesis using open_run 1 empty analysed by (auto)
    next
      case 2
      then have "solved_node sc cfg oc i s1 = (GoOn, dive, t)" using open_run by (auto split: prod.splits)
      moreover have r: "rules s1 = rules s" using op by (simp add: opened_def)
      moreover have "\<forall>p \<in> P. at_node p s i \<longrightarrow> internal_objective s (rx_value (answer oc)) \<le> value_at s p"
      proof (intro ballI impI)
        fix p assume p: "p \<in> P" "at_node p s i"
        then have "lp_point (working s1) p" using at_node_empty[of ft mt walked s i p] w adm[OF p(1)] ft o
          open_node_admits[OF adm[OF p(1)], of walked ft mt] point_of_admits[of p s1]
          by (auto simp: at_node_def in_region_def sc_def)
        then show "internal_objective s (rx_value (answer oc)) \<le> value_at s p"
          using hon 2 rules_reads(10)[OF r] finite_reads(3)[OF r] by (simp add: honest_answer_def)
      qed
      moreover have "finite_point s (rx_value (answer oc))"
        using hon 2 finite_reads(1)[OF r] by (simp add: honest_answer_def)
      moreover have "most_fractional sc s (rx_value (answer oc)) < 0 \<longrightarrow> candidate_ok sc s (rx_value (answer oc))"
        using hon 2 most_fractional_same[OF r] rules_reads(11)[OF r] by (simp add: honest_answer_def)
      ultimately show ?thesis
        using solved_ok[OF base cov i op ne _ _ num] unfolding sc_def by blast
    qed
  qed
qed

lemma turn_ok:
  assumes "search_ok mg P s" "turn (exact_scalar ft mt) cfg (st, dive, s) (st', dive', t)" "0 \<le> ft" "P \<noteq> {}"
  shows "search_ok mg P t"
  using assms(2)
proof (rule turnE)
  fix i s1 oc
  assume a: "open_nodes s \<noteq> []" "take_next_open_node (exact_scalar ft mt) dive s = (i, s1)" "numbers_only oc s1"
    "\<forall>walked. chain (tree s1) (int i) = Some walked \<longrightarrow>
      honest_answer (exact_scalar ft mt) (answer oc) (snd (open_node (exact_scalar ft mt) walked s1))"
    "process_node (exact_scalar ft mt) cfg oc i st s1 = Some (GoOn, st', dive', t)"
  note ok = taken_ok[OF assms(1) a(2,1)]
  show ?thesis by (rule process_ok[OF assms(3) _ _ _ assms(4) a(3,4,5)]) (use ok in blast)+
qed

lemma turns_ok:
  assumes "(turn (exact_scalar ft mt) cfg)\<^sup>*\<^sup>* l l'" "search_ok mg P (snd (snd l))" "0 \<le> ft" "P \<noteq> {}"
  shows "search_ok mg P (snd (snd l'))"
  using assms(1,2)
proof (induction rule: rtranclp_induct)
  case (step l1 l2)
  then show ?case using turn_ok[OF _ _ assms(3,4)] by (metis prod.collapse)
qed


section \<open>Where the search starts\<close>

text \<open>The state before the loop: the point is feasible for the model, the objective is defined, and the
  step, when there is one, divides its value.\<close>

definition ready :: "rat \<Rightarrow> (nat \<Rightarrow> rat) \<Rightarrow> (xnum, 'z) search_scheme \<Rightarrow> bool" where
  "ready mg p s \<longleftrightarrow> admits p s \<and> objective_defined s \<and> step_ok s p \<and> margin_ok mg s \<and> \<not> pool_complete s"

lemma not_below_ninf: "\<not> xnan y \<Longrightarrow> - XPInf \<le> y"
  by (cases y) (simp_all add: uminus_xnum_def)

lemma start_ok:
  assumes "ready mg p (start_search (exact_scalar ft mt) tol m ints s)"
  shows "search_ok mg {p} (start_search (exact_scalar ft mt) tol m ints s)"
proof -
  let ?s = "start_search (exact_scalar ft mt) tol m ints s"
  have tree: "tree ?s = [\<lparr>node_parent = - 1, node_change = default_change, node_has_change = False,
       node_bound = - XPInf, node_depth = 0, node_fraction = 0, node_estimate = 0\<rparr>]" "open_nodes ?s = [0]"
    "working ?s = original ?s" "incumbent_internal ?s = XPInf"
    by (simp_all add: start_search_def exact_scalar_def)
  have "finite_point ?s (map (\<lambda>j. X (p j)) [0..<num_cols (original ?s)])"
    by (simp add: finite_point_def list_all_iff)
  then have v: "\<not> xnan (value_at ?s p)" using assms by (simp add: ready_def objective_defined_def value_at_def)
  have "at_node p ?s 0"
    using not_below_ninf[OF v] unfolding at_node_def in_region_def tree(1)
    by (subst chain_step) (simp add: node_admits_def)
  then have "covered mg ?s p" by (simp add: covered_def tree(2))
  moreover have "base_ok mg {p} ?s"
    using assms unfolding base_ok_def numbered_def ready_def tree
    by (simp add: parents_older_def changes_ok_def)
  ultimately show ?thesis by (simp add: search_ok_def)
qed

text \<open>
  C4. Branch and bound is exact: if it reaches an empty list of open nodes from the start, over exact
  numbers, then for every point of the model that meets its bounds, rows and integrality there is an
  incumbent, and the incumbent is not worse than the point by more than the pruning margin. An exhausted
  search without an incumbent therefore proves that there is no such point. Every turn may prune, propagate,
  learn conflicts, round, dive and branch as the code does; the relaxation answers are honest.
\<close>

theorem exhausted_search_is_optimal:
  assumes "0 \<le> ft" "ready mg p (start_search (exact_scalar ft mt) tol m ints s)"
    "(turn (exact_scalar ft mt) cfg)\<^sup>*\<^sup>* (st, False, start_search (exact_scalar ft mt) tol m ints s) (st', dive, t)"
    "open_nodes t = []"
  shows "have_incumbent t \<and> incumbent_internal t - X mg \<le> value_at t p \<and>
    report_status (report (exact_scalar ft mt) Exhausted t) = kOptimal"
proof -
  have "search_ok mg {p} t" using turns_ok[OF assms(3) _ assms(1)] start_ok[OF assms(2)] by simp
  then have "beaten mg t (value_at t p)" using assms(4) by (auto simp: search_ok_def covered_def)
  then show ?thesis using assms(4) by (simp add: beaten_def report_def Let_def)
qed

lemma cmin_fold_least:
  "\<not> xnan a \<Longrightarrow> \<not> xnan (fold (\<lambda>i b. cmin b (f i)) is a) \<and> fold (\<lambda>i b. cmin b (f i)) is a \<le> a \<and>
    (\<forall>i \<in> set is. \<not> xnan (f i) \<longrightarrow> fold (\<lambda>i b. cmin b (f i)) is a \<le> f i)" for a :: xnum
proof (induction "is" arbitrary: a)
  case (Cons i "is")
  have "\<not> xnan (cmin a (f i))" "cmin a (f i) \<le> a" "\<not> xnan (f i) \<Longrightarrow> cmin a (f i) \<le> f i"
    using Cons.prems by (cases a; cases "f i"; auto simp: cmin_def)+
  with Cons.IH[OF this(1)] show ?case by (auto intro: xle_trans)
qed (simp add: xle_refl)

lemma rounded_below:
  assumes "b \<le> value_at s p" "step_ok s p"
  shows "integral_bound (exact_scalar ft mt) s b \<le> value_at s p"
proof -
  obtain d where d: "objective_step s = X d" "d \<le> 0 \<or> (\<exists>k. value_at s p = X (of_int k * d))"
    using assms(2) by (auto simp: step_ok_def)
  show ?thesis
  proof (cases "d \<le> 0")
    case True
    then show ?thesis using assms(1) by (simp add: integral_bound_def round_up_to_step_def d X_consts)
  next
    case False
    then obtain k where k: "value_at s p = X (of_int k * d)" using d by auto
    then show ?thesis using integral_bound_below[of b k d ft mt] assms(1) by (simp add: integral_bound_def d)
  qed
qed

lemma xle_not_nan: "x \<le> y \<Longrightarrow> \<not> xnan (x :: xnum)"
  by (cases x) auto

lemma margin_below: "x \<le> y \<Longrightarrow> 0 \<le> mg \<Longrightarrow> x - X mg \<le> y"
  by (cases x; cases y) (auto simp: minus_xnum_def)

lemma reached_covered:
  assumes "0 \<le> ft" "ready mg p (start_search (exact_scalar ft mt) tol m ints s)"
    "(turn (exact_scalar ft mt) cfg)\<^sup>*\<^sup>* (st, False, start_search (exact_scalar ft mt) tol m ints s) (st', dive, t)"
  shows "covered mg t p" "step_ok t p" "\<not> xnan (incumbent_internal t)" "0 \<le> mg"
proof -
  have "search_ok mg {p} t" using turns_ok[OF assms(3) _ assms(1)] start_ok[OF assms(2)] by simp
  then show "covered mg t p" "step_ok t p" "\<not> xnan (incumbent_internal t)" "0 \<le> mg"
    by (simp_all add: search_ok_def base_ok_def numbered_def margin_ok_def)
qed

text \<open>
  C5. The reported dual bound is valid whenever the loop is left: the bound that is reported from the open
  nodes and the incumbent, less the pruning margin, is not above the objective of any feasible integer
  point, after any number of turns.
\<close>

theorem reported_bound_valid:
  assumes "0 \<le> ft" "ready mg p (start_search (exact_scalar ft mt) tol m ints s)"
    "(turn (exact_scalar ft mt) cfg)\<^sup>*\<^sup>* (st, False, start_search (exact_scalar ft mt) tol m ints s) (st', dive, t)"
  shows "final_bound (exact_scalar ft mt) t - X mg \<le> value_at t p"
proof -
  note c = reached_covered[OF assms]
  let ?f = "\<lambda>i. integral_bound (exact_scalar ft mt) t (node_bound (tree t ! i))"
  note least = cmin_fold_least[OF c(3), of ?f "open_nodes t", folded final_bound_def]
  from c(1) show ?thesis
  proof (unfold covered_def, elim disjE bexE)
    fix i assume i: "i \<in> set (open_nodes t)" "at_node p t i"
    have "node_bound (tree t ! i) \<le> value_at t p" using i(2) by (simp add: at_node_def)
    note b = rounded_below[OF this c(2), of ft mt]
    then have "final_bound (exact_scalar ft mt) t \<le> ?f i" using least i(1) xle_not_nan[OF b] by blast
    then show ?thesis using margin_below[OF xle_trans[OF _ b] c(4)] by blast
  next
    assume "beaten mg t (value_at t p)"
    then show ?thesis using least minus_smaller by (auto simp: beaten_def)
  qed
qed

text \<open>
  C7. Stopping at the gap target is honest: in every state a correct search reaches, when the test fires, no
  feasible integer point is better than the incumbent by more than the target. A point that beats it by more
  than the pruning margin is not below the rounded bound of the open nodes, and that bound is within the
  absolute or the relative target.
\<close>

theorem gap_stop_within_target:
  assumes "0 \<le> ft" "search_ok mg {p} s" "(turn (exact_scalar ft mt) cfg)\<^sup>*\<^sup>* (st, dive, s) (st', dive', t)"
    "gap_target_met (exact_scalar ft mt) t"
  shows "incumbent_internal t - X mg \<le> value_at t p \<or>
    integral_bound (exact_scalar ft mt) t (open_bound (exact_scalar ft mt) t) \<le> value_at t p \<and>
    (incumbent_internal t - integral_bound (exact_scalar ft mt) t (open_bound (exact_scalar ft mt) t) \<le> gap_target t \<or>
     (incumbent_internal t - integral_bound (exact_scalar ft mt) t (open_bound (exact_scalar ft mt) t))
       div cmax 1 \<bar>incumbent_internal t\<bar> \<le> relative_target t)"
proof (cases "beaten mg t (value_at t p)")
  case False
  have ok: "search_ok mg {p} t" using turns_ok[OF assms(3) _ assms(1)] assms(2) by simp
  then have c: "covered mg t p" "step_ok t p" by (simp_all add: search_ok_def base_ok_def)
  let ?b = "open_bound (exact_scalar ft mt) t"
  obtain i where i: "i \<in> set (open_nodes t)" "at_node p t i" using c(1) False by (auto simp: covered_def)
  have "\<not> xnan (node_bound (tree t ! i))" using i(2) xle_not_nan by (auto simp: at_node_def)
  then have "?b \<le> node_bound (tree t ! i)"
    using cmin_fold_least[of XPInf "\<lambda>i. node_bound (tree t ! i)" "open_nodes t"] i(1)
    by (simp add: open_bound_def exact_scalar_def)
  then have b: "?b \<le> value_at t p" using i(2) xle_trans by (auto simp: at_node_def)
  from rounded_below[OF b c(2), of ft mt] show ?thesis using assms(4) by (auto simp: gap_target_met_def Let_def)
qed (simp add: beaten_def)


section \<open>No node is stuck\<close>

lemma yardstick_costs: "costs_only s t \<Longrightarrow> yardstick t = yardstick s"
  by (auto simp: costs_only_def yardstick_def)

lemma yardstick_dive: "yardstick (dive_from n sc llround solver x s) = yardstick s"
  by (induction n sc llround solver x s rule: dive_from.induct) (simp_all add: Let_def)

lemma yardstick_offers: "yardstick (offer_all sc llround xs s) = yardstick s"
  unfolding offer_all_def by (rule fold_keeps) simp

lemma yardstick_rounding: "yardstick (try_rounding sc llround x s) = yardstick s"
  by (simp add: try_rounding_def)

lemma tree_open_node: "tree (leave (snd (open_node sc walked s))) = tree s"
proof -
  let ?e = "(enter walked s)\<lparr>nodes_explored := nodes_explored s + 1\<rparr>"
  have f: "domain_frame (?e\<lparr>conflict_pruned := False\<rparr>) (snd (propagate sc ?e))" by (rule framed.propagated)
  then have "node_state.more (snd (propagate sc ?e)) = node_state.more ?e" by (simp add: domain_frame_def)
  then show ?thesis using search_fields[of "snd (propagate sc ?e)" ?e] by (simp add: open_node_def)
qed

text \<open>Over doubles: a column that is fractional to the closing test is fractional to the branching rule.\<close>

lemma fractional_candidates:
  fixes s t :: "(double, 'z) search_scheme"
  assumes "\<not> most_fractional sc s x < 0" "yardstick t = yardstick s"
  shows "candidates sc t x \<noteq> [] \<and> \<not> most_fractional sc t x < 0"
proof -
  have eqs: "integer_columns t = integer_columns s" "int_tol t = int_tol s" using assms(2) by (simp_all add: yardstick_def)
  have "fst (fold (\<lambda>j (best, score). let f = fractionality sc (x ! j) in if score < f then (int j, f) else (best, score)) js (b, c)) = b
      \<or> (\<exists>j \<in> set js. int_tol s < fractionality sc (x ! j))" if "int_tol s \<le> c \<or> isnan (int_tol s) \<and> c = int_tol s" for js b c
    using that
  proof (induction js arbitrary: b c)
    case (Cons j js)
    show ?case
    proof (cases "c < fractionality sc (x ! j)")
      case True
      then have "int_tol s < fractionality sc (x ! j)" using Cons.prems dleq_less_trans[OF _ True, of "int_tol s"] True by metis
      then show ?thesis by auto
    next
      case False
      then show ?thesis using Cons by auto
    qed
  qed simp
  from this[of "int_tol s" "integer_columns s" "- 1"] assms(1)
  obtain j where "j \<in> set (integer_columns s)" "int_tol s < fractionality sc (x ! j)"
    by (auto simp: most_fractional_def)
  then have "candidates sc t x \<noteq> []" by (auto simp: candidates_def eqs filter_empty_conv dless_le_not_le)
  then show ?thesis using assms(1) by (simp add: most_fractional_def eqs)
qed

lemma branch_goes_on:
  fixes s :: "(double, 'z) search_scheme"
  assumes "\<not> most_fractional sc s (rx_value (answer oc)) < 0"
  shows "fst (branch_node sc cfg oc i b s) = GoOn"
proof -
  let ?x = "rx_value (answer oc)"
  define s1 where "s1 = (if i = 0 then offer_all sc (to_integer cfg) (pump_points oc)
                  (dive_from_root sc (to_integer cfg) (dive_engine oc) ?x s) else s)"
  have "yardstick s1 = yardstick s" by (simp add: s1_def yardstick_offers dive_from_root_def yardstick_dive)
  note f = fractional_candidates[OF assms this]
  obtain best t where "select_branching_column sc (sort_largest cfg) (of_count cfg) (probe_engine oc) ?x b s1 = (best, t)"
    by fastforce
  note sel = this select_column[OF this]
  have "\<not> best < 0" using sel(2) f by (auto split: if_splits)
  then show ?thesis using f sel(1) by (simp add: branch_node_def Let_def s1_def[symmetric])
qed

lemma solved_goes_on:
  fixes s :: "double search"
  shows "fst (solved_node sc cfg oc i s) = GoOn"
proof -
  let ?x = "rx_value (answer oc)" and ?b = "internal_objective s (rx_value (answer oc))"
  define s1 where "s1 = observe (tree s ! i) ?b s"
  define s2 where "s2 = offer_all sc (to_integer cfg) (proposals oc) (try_rounding sc (to_integer cfg) ?x s1)"
  obtain res u where b: "branch_node sc cfg oc i ?b s2 = (res, u)" by fastforce
  then have "\<not> most_fractional sc s2 ?x < 0 \<Longrightarrow> res = GoOn" using branch_goes_on[of sc s2 oc cfg i ?b] by simp
  then show ?thesis by (simp add: solved_node_def Let_def s1_def[symmetric] s2_def[symmetric] b)
qed

text \<open>
  C6. No node is stuck, on doubles: whenever a node is open and the relaxation answers optimal or
  infeasible, the turn handles the node to its end (pruned, closed, learned from or branched on) and the
  search goes on; in particular a relaxation with a fractional column always finds a branching column.
\<close>

theorem open_node_is_handled:
  fixes s :: "double search"
  assumes "parents_older (tree s)" "set (open_nodes s) \<subseteq> {..<length (tree s)}" "open_nodes s \<noteq> []"
    "take_next_open_node sc dive s = (i, t)" "rx_status (answer oc) \<in> {kOptimal, kInfeasible}"
  shows "\<exists>next. process_node sc cfg oc i st t = Some (GoOn, next)"
proof -
  have "open_nodes s ! pick_node sc dive s = i" "tree t = tree s"
    using assms(4) by (auto simp: take_next_open_node_def Let_def)
  then have tr: "tree t = tree s" "i < length (tree s)"
    using pick_in_range[OF assms(3), of sc dive] assms(2) nth_mem by (fastforce, blast)
  then obtain walked where w: "chain (tree t) (int i) = Some walked" using chain_ends[OF assms(1) tr(2)] by auto
  obtain ob s1 where o: "open_node sc walked t = (ob, s1)" by fastforce
  have "tree (leave s1) = tree t" using tree_open_node[of sc walked t] by (simp add: o)
  then have an: "\<exists>r. analyze_conflict sc (learning cfg) i source farkas (st, leave s1) = Some r" for source farkas
    using w by (simp add: analyze_conflict_def)
  obtain res dv u where so: "solved_node sc cfg oc i s1 = (res, dv, u)" by (metis prod_cases3)
  then have "res = GoOn" using solved_goes_on[of sc cfg oc i s1] by simp
  then show ?thesis
    using assms(5) an[of kPropagation None] an[of kLp "Some (dual_ray oc)"] so
    by (auto simp: process_node_def w o)
qed


section \<open>The objective step divides every value\<close>

lemma euclid_gcd: "0 \<le> x \<Longrightarrow> 0 \<le> y \<Longrightarrow> euclid x y = gcd x y"
proof (induction x y rule: euclid.induct)
  case (1 x y)
  show ?case
  proof (cases "y \<le> 0")
    case True
    then show ?thesis using 1 by (subst euclid.simps) simp
  next
    case False
    then have "euclid y (x mod y) = gcd y (x mod y)" using 1 by (intro "1.IH") simp_all
    then show ?thesis using False by (subst euclid.simps) (simp add: gcd_red_int[of x y])
  qed
qed

text \<open>Costs that are whole numbers, and nonzero only on integer columns.\<close>

definition whole_costs :: "xnum model \<Rightarrow> (nat \<Rightarrow> int) \<Rightarrow> bool" where
  "whole_costs m c \<longleftrightarrow> (\<forall>j < num_cols m. col_cost m ! j = X (of_int (c j)) \<and> (c j \<noteq> 0 \<longrightarrow> col_type m ! j = kInteger))"

lemma scan_whole:
  assumes w: "whole_costs m c" and r: "\<And>k. rd (X (of_int k)) = k" and js: "set js \<subseteq> {..<num_cols m}"
  shows "fold (scan_cost (exact_scalar ft mt) rd (\<lambda>k. X (of_int k)) m) js (Some (- 1, X (of_int g))) = None \<or>
    (\<exists>h. fold (scan_cost (exact_scalar ft mt) rd (\<lambda>k. X (of_int k)) m) js (Some (- 1, X (of_int g))) = Some (- 1, X (of_int h)) \<and>
      h dvd g \<and> (\<forall>j \<in> set js. h dvd c j))"
  using js
proof (induction js arbitrary: g)
  case (Cons j js)
  let ?f = "scan_cost (exact_scalar ft mt) rd (\<lambda>k. X (of_int k)) m"
  have none: "fold ?f js None = None" by (induction js) (simp_all add: scan_cost_def)
  have cj: "col_cost m ! j = X (of_int (c j))" "c j \<noteq> 0 \<longrightarrow> col_type m ! j = kInteger"
    using w Cons.prems by (simp_all add: whole_costs_def)
  have r': "rd (X \<bar>of_int k\<bar>) = \<bar>k\<bar>" for k using r[of "\<bar>k\<bar>"] by simp
  define g' where "g' = (if c j = 0 then g else gcd g (c j))"
  have "?f j (Some (- 1, X (of_int g))) = None \<or> ?f j (Some (- 1, X (of_int g))) = Some (- 1, X (of_int g'))"
    using cj by (auto simp: g'_def scan_cost_def step_gcd_def euclid_gcd r' Let_def X_consts)
  then show ?case
  proof (elim disjE)
    assume 2: "?f j (Some (- 1, X (of_int g))) = Some (- 1, X (of_int g'))"
    have sub: "set js \<subseteq> {..<num_cols m}" using Cons.prems by simp
    have both: "h dvd g \<and> h dvd c j" if "h dvd g'" for h using that by (auto simp: g'_def split: if_splits)
    from Cons.IH[OF sub, of g'] show ?thesis
    proof (elim disjE exE conjE)
      fix h assume "fold ?f js (Some (- 1, X (of_int g'))) = Some (- 1, X (of_int h))" "h dvd g'" "\<forall>j \<in> set js. h dvd c j"
      then show ?thesis using both[of h] by (intro disjI2 exI[of _ h]) (simp add: 2)
    qed (simp add: 2)
  qed (simp add: none)
qed auto

lemma value_multiple:
  assumes "\<forall>j \<in> set js. cost j = X (of_int (c j)) \<and> h dvd c j \<and> (c j \<noteq> 0 \<longrightarrow> p j \<in> \<int>)"
  shows "\<exists>k. fold (\<lambda>j v. v + X (of_int e) * cost j * X (p j)) js (X (of_int (k0 * h))) = X (of_int (k * h))"
  using assms
proof (induction js arbitrary: k0)
  case (Cons j js)
  have "h dvd c j" using Cons.prems by simp
  then obtain a where a: "c j = a * h" by (metis dvdE mult.commute)
  have "\<exists>z. of_int (c j) * p j = of_int (z * h)"
  proof (cases "c j = 0")
    case False
    then obtain y where "p j = of_int y" using Cons.prems by (auto elim: Ints_cases)
    then have "of_int (c j) * p j = of_int ((a * y) * h)" by (simp add: a)
    then show ?thesis by blast
  qed (auto intro: exI[of _ 0])
  then obtain z where z: "of_int (c j) * p j = of_int (z * h)" by blast
  have "X (of_int (k0 * h)) + X (of_int e) * cost j * X (p j) = X (of_int ((k0 + e * z) * h))"
    using Cons.prems z by (simp add: algebra_simps)
  then show ?case using Cons.IH[of "k0 + e * z"] Cons.prems by simp
qed auto

text \<open>
  C8. The objective step the root computes is right when the costs are whole numbers on integer columns:
  over exact numbers it is unknown (not positive), or every point that is integral where the costs are
  nonzero has a value that is a multiple of it, so rounding node bounds up to the step loses no solution.
\<close>

theorem objective_step_divides:
  fixes s :: "xnum search"
  assumes "\<not> quadratic s" "search_sense s = X (of_int e)" "whole_costs (original s) c"
    "\<forall>k. rd (X (of_int k)) = k" "\<forall>j < num_cols (original s). c j \<noteq> 0 \<longrightarrow> p j \<in> \<int>"
  shows "\<exists>d. objective_step (detect_objective_integrality (exact_scalar ft mt) rd (\<lambda>k. X (of_int k)) on s) = X d \<and>
    (d \<le> 0 \<or> (\<exists>k. internal_objective s (map (\<lambda>j. X (p j)) [0..<num_cols (original s)]) = X (of_int k * d)))"
proof -
  let ?t = "detect_objective_integrality (exact_scalar ft mt) rd (\<lambda>k. X (of_int k)) on s"
  let ?scan = "fold (scan_cost (exact_scalar ft mt) rd (\<lambda>k. X (of_int k)) (original s)) [0..<num_cols (original s)] (Some (- 1, X 0))"
  have "?scan = None \<or> (\<exists>h. ?scan = Some (- 1, X (of_int h)) \<and> (\<forall>j < num_cols (original s). h dvd c j))"
    using scan_whole[OF assms(3), of rd "[0..<num_cols (original s)]" ft mt 0] assms(4) by fastforce
  then have "objective_step ?t = X 0 \<or> (\<exists>h. objective_step ?t = X (of_int h) \<and> (\<forall>j < num_cols (original s). h dvd c j))"
    using assms(1) by (auto simp: detect_objective_integrality_def Let_def X_consts)
  then show ?thesis
  proof (elim disjE exE conjE)
    fix h assume h: "objective_step ?t = X (of_int h)" "\<forall>j < num_cols (original s). h dvd c j"
    have fc: "fold f [0..<n] v = fold g [0..<n] v" if "\<And>j v. j < n \<Longrightarrow> f j v = g j v" for f g :: "nat \<Rightarrow> xnum \<Rightarrow> xnum" and n v
      by (rule fold_cong) (use that in auto)
    have "internal_objective s (map (\<lambda>j. X (p j)) [0..<num_cols (original s)]) =
        fold (\<lambda>j v. v + X (of_int e) * col_cost (original s) ! j * X (p j)) [0..<num_cols (original s)] (X 0)"
      using assms(1,2) unfolding internal_objective_def by (simp add: X_consts) (rule fc, simp)
    moreover obtain k where "fold (\<lambda>j v. v + X (of_int e) * col_cost (original s) ! j * X (p j)) [0..<num_cols (original s)]
        (X (of_int (0 * h))) = X (of_int (k * h))"
      using value_multiple[of "[0..<num_cols (original s)]" "\<lambda>j. col_cost (original s) ! j" c h p e 0] h(2) assms(3,5)
      by (auto simp: whole_costs_def)
    ultimately show ?thesis using h(1) by auto
  qed auto
qed

theorem objective_step_divides_witness:
  "\<exists>d. objective_step (detect_objective_integrality (exact_scalar 0 0)
      (\<lambda>x. case x of X q \<Rightarrow> \<lfloor>q\<rfloor> | _ \<Rightarrow> 0) (\<lambda>k. X (of_int k)) True
      (demo_search (demo_int_model (X 0) (X 5)) (X 0) XMInf)) = X d \<and>
    (d \<le> 0 \<or> (\<exists>k. internal_objective (demo_search (demo_int_model (X 0) (X 5)) (X 0) XMInf)
       (map (\<lambda>j. X 2) [0..<num_cols (original (demo_search (demo_int_model (X 0) (X 5)) (X 0) XMInf))]) = X (of_int k * d)))"
  by (rule objective_step_divides[where e = 1 and c = "\<lambda>_. 1"])
     (simp_all add: demo_search_def X_consts whole_costs_def demo_int_model_def num_cols_def empty_model_def)

section \<open>A run of one turn\<close>

text \<open>The search of one integer column \<open>0 \<le> x \<le> 5\<close> of cost 1: the root's relaxation is integral.\<close>

definition demo_oracle :: "xnum turn_oracle" where
  "demo_oracle = \<lparr>answer = \<lparr>rx_status = kOptimal, rx_value = [X 0], rx_dual_bound = X 0\<rparr>, dual_ray = [], proposals = [], pump_points = [],
     dive_engine = (\<lambda>m. \<lparr>rx_status = kInfeasible, rx_value = [], rx_dual_bound = X 0\<rparr>), probe_engine = (\<lambda>m. \<lparr>rx_status = kInfeasible, rx_value = [], rx_dual_bound = X 0\<rparr>)\<rparr>"

definition demo_settings :: "xnum search_settings" where
  "demo_settings = \<lparr>learning = \<lparr>conflicts_enabled = True, minimize_enabled = True, conflict_max_size = 10\<rparr>,
     reliability_branching = False, to_integer = (\<lambda>x. 0), of_count = (\<lambda>k. X (of_int k)), sort_largest = (\<lambda>f xs. xs)\<rparr>"

definition demo_start :: "xnum search" where
  "demo_start = start_search (exact_scalar 0 0) (X 0) (demo_int_model (X 0) (X 5)) [0]
     (demo_search (demo_int_model (X 0) (X 5)) (X 0) XMInf\<lparr>gap_target := X 0\<rparr>)"


lemma demo_fields:
  "tree demo_start = [root_node XMInf]" "open_nodes demo_start = [0]" "original demo_start = demo_int_model (X 0) (X 5)"
  "working demo_start = demo_int_model (X 0) (X 5)" "int_tol demo_start = X 0" "integer_columns demo_start = [0]"
  "saved demo_start = []" "conflicts demo_start = empty_store 5" "quadratic demo_start = False" "search_sense demo_start = X 1"
  "have_incumbent demo_start = False" "pool_complete demo_start = False" "selection demo_start = kBestBound"
  by (simp_all add: demo_start_def start_search_def demo_search_def exact_scalar_def uminus_xnum_def root_node_def X_consts)

lemma demo_take: "take_next_open_node (exact_scalar 0 0) False demo_start = (0, demo_start\<lparr>open_nodes := [], selected_by_policy := 1\<rparr>)"
  by (simp add: take_next_open_node_def pick_node_def choose_smallest_def smallest_step_def demo_fields root_node_def
     demo_start_def start_search_def demo_search_def Let_def erase_at_def)

lemma demo_shape: "num_cols (demo_int_model (X 0) (X 5)) = 1" "num_rows (demo_int_model (X 0) (X 5)) = 0"
  by (simp_all add: demo_int_model_def num_cols_def num_rows_def empty_model_def)

lemma demo_open:
  assumes "working s = demo_int_model (X 0) (X 5)" "int_tol s = X 0" "integer_columns s = [0]" "saved s = []"
    "store_entries (conflicts s) = []"
  shows "open_node (exact_scalar 0 0) [root_node XMInf] s = (True, s\<lparr>nodes_explored := nodes_explored s + 1, conflict_pruned := False\<rparr>)"
proof -
  have e: "enter [root_node XMInf] s = s" using assms by (simp add: enter_def root_node_def)
  let ?t = "s\<lparr>nodes_explored := nodes_explored s + 1, conflict_pruned := False\<rparr>"
  have b: "lowers ?t = [X 0]" "uppers ?t = [X 5]" using assms by (simp_all add: demo_int_model_def)
  have r: "round_column (exact_scalar 0 0) 0 ?t = ?t"
    using b assms by (simp add: round_column_def exact_scalar_def Let_def)
  have c: "\<not> collapsed (exact_scalar 0 0) 0 ?t" using b assms by (simp add: collapsed_def exact_scalar_def)
  have "fold (round_column (exact_scalar 0 0)) (integer_columns ?t) ?t = ?t" using r by (simp add: assms)
  moreover have "num_cols (working ?t) = 1" "num_rows (working ?t) = 0" using demo_shape by (simp_all add: assms)
  ultimately show ?thesis
    unfolding open_node_def propagate_def e
    using c assms(5) by (simp add: Let_def numeral_3_eq_3 sweep_def)
qed

lemma demo_solved:
  fixes s :: "xnum search"
  assumes "original s = demo_int_model (X 0) (X 5)" "working s = original s" "int_tol s = X 0" "integer_columns s = [0]" "saved s = []"
    "\<not> have_incumbent s" "\<not> pool_complete s" "tree s ! 0 = root_node XMInf" "quadratic s = False" "search_sense s = X 1"
  shows "\<exists>pp. solved_node (exact_scalar 0 0) demo_settings demo_oracle 0 s = (GoOn, False,
     s\<lparr>have_incumbent := True, incumbent_internal := X 0, incumbent_x := [X 0], plan_pool := pp\<rparr>)"
proof -
  have v: "internal_objective s [X 0] = X 0"
    using assms by (simp add: internal_objective_def demo_int_model_def num_cols_def empty_model_def X_consts)
  have x0: "xround (X 0) = X 0" by (simp add: xround_def floor_eq_iff)
  have c: "candidate_ok (exact_scalar 0 0) s [X 0]"
    using assms by (simp add: x0 candidate_ok_def demo_int_model_def num_cols_def num_rows_def empty_model_def exact_scalar_def
      fractionality_def below_bound_def above_bound_def Let_def X_consts)
  have f: "most_fractional (exact_scalar 0 0) s [X 0] < 0"
    using assms by (simp add: most_fractional_def fractionality_def exact_scalar_def x0)
  have rd: "rounded_candidate (exact_scalar 0 0) s [X 0] = [X 0]"
    using assms by (simp add: rounded_candidate_def exact_scalar_def x0 demo_int_model_def Let_def cmax_def cmin_def)
  let ?p1 = "pool_offer (\<lambda>x. 0) (X 0) [X 0] (plan_pool s)"
  let ?s1 = "s\<lparr>plan_pool := ?p1, have_incumbent := True, incumbent_internal := X 0, incumbent_x := [X 0]\<rparr>"
  have o1: "offer_incumbent (exact_scalar 0 0) (\<lambda>x. 0) [X 0] s = (True, ?s1)"
    using assms c v by (simp add: offer_incumbent_def Let_def)
  have ys: "yardstick ?s1 = yardstick s" by (simp add: yardstick_def)
  have o2: "snd (offer_incumbent (exact_scalar 0 0) (\<lambda>x. 0) [X 0] ?s1) =
      ?s1\<lparr>plan_pool := pool_offer (\<lambda>x. 0) (X 0) [X 0] ?p1\<rparr>"
    using c v yardstick_reads[OF ys] by (simp add: offer_incumbent_def exact_scalar_def minus_xnum_def Let_def)
  have lv: "leave t = t" if "saved t = []" for t :: "xnum search"
    using that by (simp add: leave_def)
  have f1: "most_fractional (exact_scalar 0 0) ?s1 [X 0] < 0" using f by (simp add: most_fractional_def)
  have "integer_columns s \<noteq> []" using assms by simp
  then have "solved_node (exact_scalar 0 0) demo_settings demo_oracle 0 s = (GoOn, False,
     ?s1\<lparr>plan_pool := pool_offer (\<lambda>x. 0) (X 0) [X 0] ?p1\<rparr>)"
    using assms o1 o2 f1 rd
    by (simp add: solved_node_def demo_oracle_def demo_settings_def observe_def root_node_def v can_prune_def Let_def
      try_rounding_def offer_all_def close_integral_def lv)
  then show ?thesis by auto
qed


lemma demo_value:
  assumes "original s = demo_int_model (X 0) (X 5)" "quadratic s = False" "search_sense s = X 1"
  shows "internal_objective s x = X 0 + X 1 * X 1 * x ! 0" "value_at s p = X (p 0)"
  using assms by (simp_all add: internal_objective_def value_at_def demo_int_model_def num_cols_def empty_model_def X_consts)

lemma demo_defined:
  assumes "original s = demo_int_model (X 0) (X 5)" "quadratic s = False" "search_sense s = X 1"
  shows "objective_defined s"
  unfolding objective_defined_def
proof (intro allI impI)
  fix x assume "finite_point s x"
  then have "xfinite (x ! 0)" using assms by (auto simp: finite_point_def demo_shape list_all_length)
  then show "\<not> xnan (internal_objective s x)" by (cases "x ! 0") (simp_all add: demo_value assms)
qed

lemma demo_process:
  fixes s
  defines "s \<equiv> demo_start\<lparr>open_nodes := [], selected_by_policy := 1\<rparr>"
  shows "\<exists>t. process_node (exact_scalar 0 0) demo_settings demo_oracle 0 no_stats s = Some (GoOn, no_stats, False, t) \<and>
    open_nodes t = [] \<and> have_incumbent t \<and> incumbent_internal t = X 0"
proof -
  let ?t = "s\<lparr>nodes_explored := nodes_explored s + 1, conflict_pruned := False\<rparr>"
  note fs = demo_fields
  have w: "chain (tree s) 0 = Some [root_node XMInf]"
    by (subst chain_step[where i = 0, simplified]) (simp add: s_def fs root_node_def)
  have o: "open_node (exact_scalar 0 0) [root_node XMInf] s = (True, ?t)"
    by (rule demo_open) (simp_all add: s_def fs empty_store_def)
  from demo_solved[of ?t] obtain pp where "solved_node (exact_scalar 0 0) demo_settings demo_oracle 0 ?t = (GoOn, False,
     ?t\<lparr>have_incumbent := True, incumbent_internal := X 0, incumbent_x := [X 0], plan_pool := pp\<rparr>)"
    by (auto simp: s_def fs)
  then show ?thesis
    by (simp add: process_node_def w o can_prune_def) (simp add: s_def fs demo_oracle_def)
qed

lemma demo_turn:
  "\<exists>t. turn (exact_scalar 0 0) demo_settings (no_stats, False, demo_start) (no_stats, False, t) \<and>
    open_nodes t = [] \<and> have_incumbent t \<and> incumbent_internal t = X 0"
proof -
  let ?s = "demo_start\<lparr>open_nodes := [], selected_by_policy := 1\<rparr>"
  let ?t = "?s\<lparr>nodes_explored := nodes_explored ?s + 1, conflict_pruned := False\<rparr>"
  obtain t where p: "process_node (exact_scalar 0 0) demo_settings demo_oracle 0 no_stats ?s = Some (GoOn, no_stats, False, t)"
    and t: "open_nodes t = []" "have_incumbent t" "incumbent_internal t = X 0" using demo_process by blast
  have o: "open_node (exact_scalar 0 0) [root_node XMInf] ?s = (True, ?t)"
    by (rule demo_open) (simp_all add: demo_fields empty_store_def)
  have w: "chain (tree ?s) (int 0) = Some [root_node XMInf]"
    by (subst chain_step) (simp add: demo_fields root_node_def)
  have "turn (exact_scalar 0 0) demo_settings (no_stats, False, demo_start) (no_stats, False, t)"
  proof (rule turn.turn[OF _ _ demo_take _ _ p])
    show "open_nodes demo_start \<noteq> []" "\<not> gap_target_met (exact_scalar 0 0) demo_start"
      by (simp_all add: demo_fields gap_target_met_def)
    show "numbers_only demo_oracle ?s" by (simp add: numbers_only_def demo_oracle_def)
    have v: "internal_objective ?t [X 0] \<le> value_at ?t p" if "lp_point (working ?t) p" for p
      using that demo_value[of ?t] demo_shape by (simp add: demo_fields lp_point_def) (simp add: demo_int_model_def)
    have c: "candidate_ok (exact_scalar 0 0) ?t [X 0]"
      by (simp add: candidate_ok_def demo_fields demo_int_model_def num_cols_def num_rows_def empty_model_def exact_scalar_def
        fractionality_def below_bound_def above_bound_def Let_def X_consts xround_def floor_eq_iff)
    have "finite_point ?t [X 0]" by (simp add: finite_point_def demo_fields demo_shape)
    then have "honest_answer (exact_scalar 0 0) (answer demo_oracle) ?t"
      using v c by (simp add: honest_answer_def demo_oracle_def)
    then show "\<forall>walked. chain (tree ?s) (int 0) = Some walked \<longrightarrow>
        honest_answer (exact_scalar 0 0) (answer demo_oracle) (snd (open_node (exact_scalar 0 0) walked ?s))"
      using o w by auto
  qed
  then show ?thesis using t by blast
qed

lemma demo_ready: "ready 1 (\<lambda>_. 2) demo_start"
proof -
  have v: "value_at demo_start (\<lambda>_. 2) = X 2" by (simp add: demo_value demo_fields)
  have "admits (\<lambda>_. 2) demo_start"
    by (rule demo_int_model_admits) (simp_all add: demo_fields empty_store_def)
  moreover have "objective_defined demo_start" by (rule demo_defined) (simp_all add: demo_fields)
  moreover have "step_ok demo_start (\<lambda>_. 2)"
    unfolding step_ok_def v by (rule exI[of _ 1]) (auto simp: demo_start_def start_search_def demo_search_def X_consts intro: exI[of _ 2])
  moreover have "margin_ok 1 demo_start"
    by (simp add: margin_ok_def demo_fields) (simp add: demo_start_def start_search_def demo_search_def)
  ultimately show ?thesis by (simp add: ready_def demo_fields)
qed


theorem exhausted_search_is_optimal_witness:
  "\<exists>t :: xnum search. open_nodes t = [] \<and> have_incumbent t \<and> incumbent_internal t - X 1 \<le> value_at t (\<lambda>_. 2) \<and>
    report_status (report (exact_scalar 0 0) Exhausted t) = kOptimal"
proof -
  obtain t where t: "turn (exact_scalar 0 0) demo_settings (no_stats, False, demo_start) (no_stats, False, t)" "open_nodes t = []"
    using demo_turn by blast
  have "(turn (exact_scalar 0 0) demo_settings)\<^sup>*\<^sup>* (no_stats, False, demo_start) (no_stats, False, t)"
    using t(1) by (rule r_into_rtranclp)
  from exhausted_search_is_optimal[OF _ demo_ready[unfolded demo_start_def] this[unfolded demo_start_def] t(2)] t(2)
  show ?thesis by (auto intro!: exI[of _ t])
qed

theorem reported_bound_valid_witness:
  "\<exists>t :: xnum search. have_incumbent t \<and> final_bound (exact_scalar 0 0) t - X 1 \<le> value_at t (\<lambda>_. 2)"
proof -
  obtain t where t: "turn (exact_scalar 0 0) demo_settings (no_stats, False, demo_start) (no_stats, False, t)" "have_incumbent t"
    using demo_turn by blast
  have "(turn (exact_scalar 0 0) demo_settings)\<^sup>*\<^sup>* (no_stats, False, demo_start) (no_stats, False, t)"
    using t(1) by (rule r_into_rtranclp)
  from reported_bound_valid[OF _ demo_ready[unfolded demo_start_def] this[unfolded demo_start_def]] t(2)
  show ?thesis by (auto intro!: exI[of _ t])
qed

text \<open>An incumbent of value 3 with the root open at 2, a step of 1 and a target of 1.\<close>

definition demo_gap :: "xnum search" where
  "demo_gap = demo_start\<lparr>have_incumbent := True, incumbent_internal := X 3, gap_target := X 1, tree := [root_node (X 2)]\<rparr>"

lemma demo_gap_ok: "search_ok 1 {\<lambda>_. 2} demo_gap"
proof -
  have eqs: "original demo_gap = demo_int_model (X 0) (X 5)" "quadratic demo_gap = False" "search_sense demo_gap = X 1"
    "objective_step demo_gap = X 1"
    by (simp_all add: demo_gap_def demo_fields) (simp add: demo_start_def start_search_def demo_search_def X_consts)
  have v: "value_at demo_gap (\<lambda>_. 2) = X 2" using demo_value[of demo_gap] eqs by simp
  have "admits (\<lambda>_. 2) demo_gap" by (rule demo_int_model_admits) (simp_all add: demo_gap_def demo_fields empty_store_def)
  moreover have "objective_defined demo_gap" by (rule demo_defined) (simp_all add: eqs)
  moreover have "step_ok demo_gap (\<lambda>_. 2)" unfolding step_ok_def v eqs by (auto intro: exI[of _ 2])
  moreover have "margin_ok 1 demo_gap" by (simp add: margin_ok_def eqs) (simp add: demo_gap_def)
  moreover have "beaten 1 demo_gap (X 2)" by (simp add: beaten_def demo_gap_def minus_xnum_def)
  ultimately show ?thesis
    by (simp add: search_ok_def base_ok_def covered_def v numbered_def)
       (simp add: demo_gap_def demo_fields parents_older_def changes_ok_def root_node_def)
qed

theorem gap_stop_within_target_witness:
  "gap_target_met (exact_scalar 0 0) demo_gap \<and>
   (incumbent_internal demo_gap - X 1 \<le> value_at demo_gap (\<lambda>_. 2) \<or>
    integral_bound (exact_scalar 0 0) demo_gap (open_bound (exact_scalar 0 0) demo_gap) \<le> value_at demo_gap (\<lambda>_. 2) \<and>
    (incumbent_internal demo_gap - integral_bound (exact_scalar 0 0) demo_gap (open_bound (exact_scalar 0 0) demo_gap)
       \<le> gap_target demo_gap \<or>
     (incumbent_internal demo_gap - integral_bound (exact_scalar 0 0) demo_gap (open_bound (exact_scalar 0 0) demo_gap))
       div cmax 1 \<bar>incumbent_internal demo_gap\<bar> \<le> relative_target demo_gap))"
proof -
  have "objective_step demo_gap = X 1" by (simp add: demo_gap_def demo_start_def start_search_def demo_search_def X_consts)
  then have "gap_target_met (exact_scalar 0 0) demo_gap"
    by (simp add: gap_target_met_def open_bound_def integral_bound_def round_up_to_step_def demo_gap_def demo_fields
      exact_scalar_def root_node_def cmin_def Let_def X_consts cmax_def minus_xnum_def)
  from gap_stop_within_target[of 0 1 "\<lambda>_. 2" demo_gap 0 demo_settings no_stats False no_stats False demo_gap] demo_gap_ok this show ?thesis by simp
qed

theorem open_node_is_handled_witness:
  "\<exists>next. process_node double_scalar
     \<lparr>learning = \<lparr>conflicts_enabled = True, minimize_enabled = True, conflict_max_size = 10\<rparr>, reliability_branching = False,
        to_integer = (\<lambda>x. 0), of_count = (\<lambda>k. 0), sort_largest = (\<lambda>f xs. xs)\<rparr>
     \<lparr>answer = \<lparr>rx_status = kOptimal, rx_value = [Fin (1 / 2)], rx_dual_bound = 0\<rparr>, dual_ray = [], proposals = [], pump_points = [],
        dive_engine = (\<lambda>m. \<lparr>rx_status = kInfeasible, rx_value = [], rx_dual_bound = 0\<rparr>),
        probe_engine = (\<lambda>m. \<lparr>rx_status = kInfeasible, rx_value = [], rx_dual_bound = 0\<rparr>)\<rparr>
     (fst (take_next_open_node double_scalar False (demo_search (demo_int_model 0 (Fin 5)) (Fin 0) NInf))) no_stats
     (snd (take_next_open_node double_scalar False (demo_search (demo_int_model 0 (Fin 5)) (Fin 0) NInf))) = Some (GoOn, next)"
  by (rule open_node_is_handled[of "demo_search (demo_int_model 0 (Fin 5)) (Fin 0) NInf" double_scalar False])
     (simp_all add: demo_search_def parents_older_def root_node_def)

end
