(* ===== verification/Presolve.thy ===== *)
theory Presolve
  imports NodeDomain
begin

text \<open>
  The presolve reductions of \<open>src/presolve/presolve.cpp\<close>: the workspace, the activity of a row, the eight
  reductions with the branches that decline them, the Farkas candidate of an infeasibility, and the passes
  up to the fixed point. Rows and columns are marked dead and keep their indices, as in the code. Written
  once for any scalar; messages, clocks and the report lines are left out.
\<close>

section \<open>State\<close>

text \<open>The vocabulary of the reductions; one flat record, as in the code.\<close>

datatype record_kind = kEmptyRow | kRedundantRow | kFixedColumn | kEmptyColumn | kSingletonRow | kForcingRow
  | kFreeColumnSingleton | kDoubletonEquation

record 'a reduction =
  rd_kind :: record_kind
  rd_index :: nat
  rd_value :: 'a
  rd_coefficient :: 'a
  rd_row_lower :: 'a
  rd_row_upper :: 'a
  rd_column :: nat
  rd_rhs :: 'a
  rd_partner :: nat
  rd_partner_coefficient :: 'a
  rd_eliminated_cost :: 'a

definition new_reduction :: "record_kind \<Rightarrow> nat \<Rightarrow> 'a::zero reduction" where
  "new_reduction k i = \<lparr>rd_kind = k, rd_index = i, rd_value = 0, rd_coefficient = 0, rd_row_lower = 0, rd_row_upper = 0,
     rd_column = 0, rd_rhs = 0, rd_partner = 0, rd_partner_coefficient = 0, rd_eliminated_cost = 0\<rparr>"

record 'a presolve_tolerances =
  pt_feasibility :: 'a
  pt_integrality :: 'a
  pt_zero :: 'a

record 'a workspace =
  w_col_lower :: "'a list"
  w_col_upper :: "'a list"
  w_row_lower :: "'a list"
  w_row_upper :: "'a list"
  w_col_dead :: "bool list"
  w_row_dead :: "bool list"
  w_quadratic :: "bool list"
  w_rows :: "(nat \<times> 'a) list list"
  w_col_count :: "int list"
  w_row_count :: "int list"
  w_cost :: "'a list"
  w_offset :: 'a
  w_doubleton :: "bool list"
  w_singleton :: "bool list"
  w_lower_row :: "int list"
  w_upper_row :: "int list"
  w_lower_coef :: "'a list"
  w_upper_coef :: "'a list"
  w_delta :: "(nat \<rightharpoonup> 'a) list"
  w_new_rows :: "nat list list"

text \<open>The workspace with what presolve collects on the way.\<close>

record 'a presolving = "'a workspace" +
  records :: "'a reduction list"
  proved_infeasible :: bool
  farkas_candidate :: "'a list"
  bounds_rounded :: int
  quadratic_protected :: int
  integer_declined :: int
  pass_changed :: bool

definition mark_curved :: "nat \<times> (nat \<times> 'a) list \<Rightarrow> bool list \<Rightarrow> bool list" where
  "mark_curved = (\<lambda>(j, entries) q. fold (\<lambda>(r, a) q. q[r := True]) entries (if entries = [] then q else q[j := True]))"

definition quadratic_columns :: "'a model \<Rightarrow> bool list" where
  "quadratic_columns m = fold (\<lambda>j. mark_curved (j, column (hessian m) j)) [0..<ncols (hessian m)]
     (replicate (num_cols m) False)"

text \<open>Entries of every row, column by column, and the row counts.\<close>

definition scatter_entries :: "nat \<Rightarrow> (nat \<times> 'a) list \<Rightarrow> (nat \<times> 'a) list list \<times> int list \<Rightarrow> (nat \<times> 'a) list list \<times> int list" where
  "scatter_entries j entries = fold (\<lambda>(r, a) (rows, count). (modify_at r (\<lambda>es. es @ [(j, a)]) rows, modify_at r (\<lambda>c. c + 1) count)) entries"

definition start_workspace :: "'a::zero model \<Rightarrow> 'a presolving" where
  "start_workspace m =
     (let n = num_cols m; k = num_rows m;
          (rows, counts) = fold (\<lambda>j. scatter_entries j (column (matrix m) j)) [0..<n] (replicate k [], replicate k 0)
      in \<lparr>w_col_lower = col_lower m, w_col_upper = col_upper m, w_row_lower = row_lower m, w_row_upper = row_upper m,
          w_col_dead = replicate n False, w_row_dead = replicate k False, w_quadratic = quadratic_columns m,
          w_rows = rows, w_col_count = map (\<lambda>j. int (length (column (matrix m) j))) [0..<n], w_row_count = counts,
          w_cost = col_cost m, w_offset = 0, w_doubleton = replicate n False, w_singleton = replicate n False,
          w_lower_row = replicate n (- 1), w_upper_row = replicate n (- 1), w_lower_coef = replicate n 0,
          w_upper_coef = replicate n 0, w_delta = replicate n Map.empty, w_new_rows = replicate n [],
          records = [], proved_infeasible = False, farkas_candidate = [], bounds_rounded = 0, quadratic_protected = 0,
          integer_declined = 0, pass_changed = False\<rparr>)"

section \<open>Helpers\<close>

definition log_record :: "'a reduction \<Rightarrow> ('a, 'z) presolving_scheme \<Rightarrow> ('a, 'z) presolving_scheme" where
  "log_record r s = s\<lparr>records := records s @ [r], pass_changed := True\<rparr>"

definition round_integer_lower :: "'a::minus scalar \<Rightarrow> 'a presolve_tolerances \<Rightarrow> 'a \<Rightarrow> 'a" where
  "round_integer_lower sc pt v = sc_ceil sc (v - pt_integrality pt)"

definition round_integer_upper :: "'a::plus scalar \<Rightarrow> 'a presolve_tolerances \<Rightarrow> 'a \<Rightarrow> 'a" where
  "round_integer_upper sc pt v = sc_floor sc (v + pt_integrality pt)"

text \<open>The entries of a row whose column is alive.\<close>

definition live_entries :: "('a, 'z) workspace_scheme \<Rightarrow> nat \<Rightarrow> (nat \<times> 'a) list" where
  "live_entries w i = filter (\<lambda>(j, a). \<not> w_col_dead w ! j) (w_rows w ! i)"

record 'a activity_range =
  ar_lower :: 'a
  ar_upper :: 'a
  ar_lower_finite :: bool
  ar_upper_finite :: bool

definition range_step ::
    "'a::{zero,plus,times,ord} scalar \<Rightarrow> ('a, 'z) workspace_scheme \<Rightarrow> nat \<times> 'a \<Rightarrow> 'a activity_range \<Rightarrow> 'a activity_range" where
  "range_step sc w = (\<lambda>(j, a) b.
     let low = (if 0 < a then w_col_lower w ! j else w_col_upper w ! j);
         high = (if 0 < a then w_col_upper w ! j else w_col_lower w ! j);
         b1 = (if sc_fin sc low then b\<lparr>ar_lower := ar_lower b + a * low\<rparr> else b\<lparr>ar_lower_finite := False\<rparr>)
     in if sc_fin sc high then b1\<lparr>ar_upper := ar_upper b1 + a * high\<rparr> else b1\<lparr>ar_upper_finite := False\<rparr>)"

definition activity_bounds ::
    "'a::{zero,plus,times,ord} scalar \<Rightarrow> ('a, 'z) workspace_scheme \<Rightarrow> nat \<Rightarrow> 'a activity_range" where
  "activity_bounds sc w i = fold (range_step sc w) (live_entries w i)
     \<lparr>ar_lower = 0, ar_upper = 0, ar_lower_finite = True, ar_upper_finite = True\<rparr>"

text \<open>A known amount leaves a row.\<close>

definition shift_sides :: "'a::minus scalar \<Rightarrow> nat \<Rightarrow> 'a \<Rightarrow> ('a, 'z) workspace_scheme \<Rightarrow> ('a, 'z) workspace_scheme" where
  "shift_sides sc r shift w = w\<lparr>
     w_row_lower := modify_at r (\<lambda>v. if sc_fin sc v then v - shift else v) (w_row_lower w),
     w_row_upper := modify_at r (\<lambda>v. if sc_fin sc v then v - shift else v) (w_row_upper w)\<rparr>"

definition drop_entry :: "nat \<Rightarrow> ('a, 'z) workspace_scheme \<Rightarrow> ('a, 'z) workspace_scheme" where
  "drop_entry r w = w\<lparr>w_row_count := modify_at r (\<lambda>c. c - 1) (w_row_count w)\<rparr>"

definition fold_old_row ::
    "'a::{plus,minus,times} scalar \<Rightarrow> nat \<Rightarrow> 'a \<Rightarrow> nat \<times> 'a \<Rightarrow> ('a, 'z) workspace_scheme \<Rightarrow> ('a, 'z) workspace_scheme" where
  "fold_old_row sc c v = (\<lambda>(r, a) w.
     if w_row_dead w ! r then w
     else drop_entry r (shift_sides sc r ((case (w_delta w ! c) r of None \<Rightarrow> a | Some d \<Rightarrow> a + d) * v) w))"

definition fold_new_row ::
    "'a::{minus,times} scalar \<Rightarrow> nat \<Rightarrow> 'a \<Rightarrow> nat \<Rightarrow> ('a, 'z) workspace_scheme \<Rightarrow> ('a, 'z) workspace_scheme" where
  "fold_new_row sc c v = (\<lambda>r w.
     if w_row_dead w ! r then w
     else case (w_delta w ! c) r of None \<Rightarrow> w | Some d \<Rightarrow> drop_entry r (shift_sides sc r (d * v) w))"

definition fold_fixed_column ::
    "'a::{plus,minus,times} scalar \<Rightarrow> 'a model \<Rightarrow> nat \<Rightarrow> 'a \<Rightarrow> ('a, 'z) workspace_scheme \<Rightarrow> ('a, 'z) workspace_scheme" where
  "fold_fixed_column sc m c v w =
     (let w1 = fold (fold_old_row sc c v) (column (matrix m) c) w;
          w2 = fold (fold_new_row sc c v) (w_new_rows w1 ! c) w1
      in w2\<lparr>w_col_dead := (w_col_dead w2)[c := True]\<rparr>)"

definition kill_row :: "nat \<Rightarrow> ('a, 'z) workspace_scheme \<Rightarrow> ('a, 'z) workspace_scheme" where
  "kill_row r w =
     (if w_row_dead w ! r then w
      else fold (\<lambda>(j, a) w. if w_col_dead w ! j then w else w\<lparr>w_col_count := modify_at j (\<lambda>c. c - 1) (w_col_count w)\<rparr>)
             (w_rows w ! r) (w\<lparr>w_row_dead := (w_row_dead w)[r := True]\<rparr>))"

section \<open>The Farkas candidate\<close>

definition lean_on_lower_bound ::
    "('a::{plus,divide}, 'z) workspace_scheme \<Rightarrow> nat \<Rightarrow> 'a \<Rightarrow> 'a list \<Rightarrow> 'a list" where
  "lean_on_lower_bound w c weight y =
     (if 0 \<le> w_lower_row w ! c then modify_at (nat (w_lower_row w ! c)) (\<lambda>v. v + weight div w_lower_coef w ! c) y else y)"

definition lean_on_upper_bound ::
    "('a::{plus,divide}, 'z) workspace_scheme \<Rightarrow> nat \<Rightarrow> 'a \<Rightarrow> 'a list \<Rightarrow> 'a list" where
  "lean_on_upper_bound w c weight y =
     (if 0 \<le> w_upper_row w ! c then modify_at (nat (w_upper_row w ! c)) (\<lambda>v. v + weight div w_upper_coef w ! c) y else y)"

definition activity_certificate ::
    "('a::{zero,plus,uminus,times,divide,ord}, 'z) workspace_scheme \<Rightarrow> nat \<Rightarrow> 'a \<Rightarrow> 'a list" where
  "activity_certificate w i sign =
     fold (\<lambda>(j, a) y.
       let weight = sign * a in
       if 0 < weight then lean_on_upper_bound w j (- weight) y
       else if weight < 0 then lean_on_lower_bound w j (- weight) y else y)
       (live_entries w i) ((replicate (length (w_row_lower w)) 0)[i := sign])"

definition refute :: "'a list option \<Rightarrow> ('a, 'z) presolving_scheme \<Rightarrow> ('a, 'z) presolving_scheme" where
  "refute y s = s\<lparr>proved_infeasible := True, farkas_candidate := (case y of None \<Rightarrow> farkas_candidate s | Some y \<Rightarrow> y)\<rparr>"

section \<open>Columns\<close>

definition round_bounds ::
    "'a::{plus,minus,ord} scalar \<Rightarrow> 'a presolve_tolerances \<Rightarrow> 'a model \<Rightarrow> nat \<Rightarrow> ('a, 'z) presolving_scheme \<Rightarrow>
     ('a, 'z) presolving_scheme" where
  "round_bounds sc pt m j s =
     (if col_type m ! j \<noteq> kInteger then s
      else
        let lo = w_col_lower s ! j; up = w_col_upper s ! j;
            lo' = (if sc_fin sc lo then round_integer_lower sc pt lo else lo);
            up' = (if sc_fin sc up then round_integer_upper sc pt up else up)
        in if lo < lo' \<or> up' < up then
             s\<lparr>w_col_lower := (w_col_lower s)[j := lo'], w_col_upper := (w_col_upper s)[j := up'],
               bounds_rounded := bounds_rounded s + 1, pass_changed := True\<rparr>
           else s)"

definition crossed_candidate :: "('a::{zero,one,plus,uminus,divide}, 'z) presolving_scheme \<Rightarrow> nat \<Rightarrow> 'a list option" where
  "crossed_candidate s j =
     (if 0 \<le> w_lower_row s ! j \<or> 0 \<le> w_upper_row s ! j
      then Some (lean_on_upper_bound s j (- 1) (lean_on_lower_bound s j 1 (replicate (length (w_row_lower s)) 0)))
      else None)"

definition fix_column ::
    "'a::{zero,plus,minus,times} scalar \<Rightarrow> 'a model \<Rightarrow> nat \<Rightarrow> ('a, 'z) presolving_scheme \<Rightarrow> ('a, 'z) presolving_scheme" where
  "fix_column sc m j s =
     fold_fixed_column sc m j (w_col_lower s ! j)
       (log_record ((new_reduction kFixedColumn j)\<lparr>rd_value := w_col_lower s ! j\<rparr>) s)"

text \<open>The bound the cost prefers; with no cost, a finite one or zero.\<close>

definition parked_value :: "'a::{zero,one,uminus,times,ord} scalar \<Rightarrow> 'a model \<Rightarrow> nat \<Rightarrow> ('a, 'z) workspace_scheme \<Rightarrow> 'a" where
  "parked_value sc m j w =
     (let cost = sense_multiplier m * w_cost w ! j in
      if 0 < cost then w_col_lower w ! j
      else if cost < 0 then w_col_upper w ! j
      else if sc_fin sc (w_col_lower w ! j) then w_col_lower w ! j
      else if sc_fin sc (w_col_upper w ! j) then w_col_upper w ! j else 0)"

definition park_column ::
    "'a::{zero,one,minus,uminus,times,abs,ord} scalar \<Rightarrow> 'a presolve_tolerances \<Rightarrow> 'a model \<Rightarrow> nat \<Rightarrow>
     ('a, 'z) presolving_scheme \<Rightarrow> ('a, 'z) presolving_scheme" where
  "park_column sc pt m j s =
     (let v = parked_value sc m j s in
      if \<not> sc_fin sc v then s
      else if col_type m ! j = kInteger \<and> pt_integrality pt < \<bar>v - sc_round sc v\<bar> then
        s\<lparr>integer_declined := integer_declined s + 1\<rparr>
      else (log_record ((new_reduction kEmptyColumn j)\<lparr>rd_value := v\<rparr>) s)\<lparr>w_col_dead := (w_col_dead s)[j := True]\<rparr>)"

text \<open>The live row of a singleton column, with its coefficient after fill-in; \<open>at\<close> of the code throws
  where the fill-in is missing, which the invariant excludes.\<close>

definition singleton_row :: "'a::plus model \<Rightarrow> nat \<Rightarrow> ('a, 'z) workspace_scheme \<Rightarrow> (nat \<times> 'a) option" where
  "singleton_row m j w =
     (case find (\<lambda>(r, a). \<not> w_row_dead w ! r) (column (matrix m) j) of
        Some (r, a) \<Rightarrow> Some (r, case (w_delta w ! j) r of None \<Rightarrow> a | Some d \<Rightarrow> a + d)
      | None \<Rightarrow>
          (case find (\<lambda>r. \<not> w_row_dead w ! r) (w_new_rows w ! j) of
             Some r \<Rightarrow> map_option (Pair r) ((w_delta w ! j) r)
           | None \<Rightarrow> None))"

text \<open>The end of the row's range the cost prefers; None when that end is infinite.\<close>

definition row_target ::
    "'a::{zero,one,uminus,times,divide,ord} scalar \<Rightarrow> 'a presolve_tolerances \<Rightarrow> 'a model \<Rightarrow> nat \<Rightarrow> nat \<Rightarrow> 'a \<Rightarrow>
     ('a, 'z) workspace_scheme \<Rightarrow> 'a option" where
  "row_target sc pt m j r a w =
     (let rate = sense_multiplier m * w_cost w ! j div a;
          lo = w_row_lower w ! r; up = w_row_upper w ! r
      in if pt_zero pt < rate then (if sc_fin sc lo then Some lo else None)
         else if rate < - pt_zero pt then (if sc_fin sc up then Some up else None)
         else Some (if sc_fin sc lo then lo else if sc_fin sc up then up else 0))"

text \<open>The cost of the eliminated column moves to the live columns of the row.\<close>

definition spread_cost ::
    "nat \<Rightarrow> 'a \<Rightarrow> 'a \<Rightarrow> nat \<times> 'a \<Rightarrow> ('a::{minus,times,divide}, 'z) workspace_scheme \<Rightarrow> ('a, 'z) workspace_scheme" where
  "spread_cost j cj a = (\<lambda>(k, b) w.
     if k = j \<or> w_col_dead w ! k then w
     else w\<lparr>w_cost := modify_at k (\<lambda>c. c - cj * (b div a)) (w_cost w)\<rparr>)"

definition eliminate_singleton ::
    "nat \<Rightarrow> nat \<Rightarrow> 'a \<Rightarrow> 'a \<Rightarrow> ('a::{zero,plus,minus,times,divide}, 'z) presolving_scheme \<Rightarrow> ('a, 'z) presolving_scheme" where
  "eliminate_singleton j r a target s =
     (let cj = w_cost s ! j;
          s1 = log_record ((new_reduction kFreeColumnSingleton r)\<lparr>rd_column := j, rd_coefficient := a, rd_rhs := target,
                 rd_eliminated_cost := cj\<rparr>) s;
          s2 = fold (spread_cost j cj a) (w_rows s1 ! r) s1;
          s3 = s2\<lparr>w_offset := w_offset s2 + cj * target div a, w_col_dead := (w_col_dead s2)[j := True]\<rparr>
      in kill_row r s3)"

definition free_singleton ::
    "'a::{zero,one,plus,minus,uminus,times,divide,abs,ord} scalar \<Rightarrow> 'a presolve_tolerances \<Rightarrow> 'a model \<Rightarrow> nat \<Rightarrow>
     ('a, 'z) presolving_scheme \<Rightarrow> ('a, 'z) presolving_scheme" where
  "free_singleton sc pt m j s =
     (case singleton_row m j s of
        None \<Rightarrow> s
      | Some (r, a) \<Rightarrow>
          if \<bar>a\<bar> < pt_zero pt then s
          else case row_target sc pt m j r a s of
            None \<Rightarrow> s
          | Some target \<Rightarrow> eliminate_singleton j r a target s)"

definition reduce_column ::
    "'a::{zero,one,plus,minus,uminus,times,divide,abs,ord} scalar \<Rightarrow> 'a presolve_tolerances \<Rightarrow> 'a model \<Rightarrow> nat \<Rightarrow>
     ('a, 'z) presolving_scheme \<Rightarrow> ('a, 'z) presolving_scheme" where
  "reduce_column sc pt m j s0 =
     (if proved_infeasible s0 \<or> w_col_dead s0 ! j then s0
      else
        let s = round_bounds sc pt m j s0;
            lo = w_col_lower s ! j; up = w_col_upper s ! j; curved = w_quadratic s ! j
        in if up + pt_feasibility pt < lo then refute (crossed_candidate s j) s
           else
             let looks_fixed = (up - lo \<le> pt_feasibility pt \<and> sc_fin sc lo);
                 s1 = (if curved \<and> looks_fixed then s\<lparr>quadratic_protected := quadratic_protected s + 1\<rparr> else s)
             in if \<not> curved \<and> looks_fixed then fix_column sc m j s1
                else if w_col_count s1 ! j = 0 \<and> \<not> curved then park_column sc pt m j s1
                else if w_col_count s1 ! j = 1 \<and> \<not> curved \<and> col_type m ! j \<noteq> kInteger \<and> \<not> sc_fin sc lo \<and> \<not> sc_fin sc up
                  then free_singleton sc pt m j s1
                else s1)"

section \<open>Rows\<close>

definition drop_row :: "record_kind \<Rightarrow> nat \<Rightarrow> ('a::zero, 'z) presolving_scheme \<Rightarrow> ('a, 'z) presolving_scheme" where
  "drop_row k i s = kill_row i (log_record (new_reduction k i) s)"

text \<open>The bounds \<open>a x\<close> within the sides puts on \<open>x\<close>; None where there is none.\<close>

definition quotient :: "'a::divide scalar \<Rightarrow> 'a \<Rightarrow> 'a option \<Rightarrow> 'a option" where
  "quotient sc a v =
     (case v of None \<Rightarrow> None | Some v \<Rightarrow> if sc_fin sc (v div a) then Some (v div a) else None)"

definition implied_bounds :: "'a::{zero,divide,ord} scalar \<Rightarrow> 'a \<Rightarrow> 'a option \<times> 'a option \<Rightarrow> 'a option \<times> 'a option" where
  "implied_bounds sc a = (\<lambda>(lo, up).
     if 0 < a then (quotient sc a lo, quotient sc a up) else (quotient sc a up, quotient sc a lo))"

definition finite_side :: "'a scalar \<Rightarrow> 'a \<Rightarrow> 'a option" where
  "finite_side sc v = (if sc_fin sc v then Some v else None)"

definition round_implied ::
    "'a::{plus,minus} scalar \<Rightarrow> 'a presolve_tolerances \<Rightarrow> 'a model \<Rightarrow> nat \<Rightarrow> 'a option \<times> 'a option \<Rightarrow>
     'a option \<times> 'a option" where
  "round_implied sc pt m c = (\<lambda>(l, u).
     if col_type m ! c = kInteger then
       (map_option (round_integer_lower sc pt) l, map_option (round_integer_upper sc pt) u)
     else (l, u))"

definition tighten_by_row ::
    "nat \<Rightarrow> nat \<Rightarrow> 'a \<Rightarrow> 'a option \<times> 'a option \<Rightarrow> ('a::ord, 'z) workspace_scheme \<Rightarrow> ('a, 'z) workspace_scheme" where
  "tighten_by_row i c a = (\<lambda>(l, u) w.
     let w1 = (case l of
            Some v \<Rightarrow> if w_col_lower w ! c < v then
                w\<lparr>w_col_lower := (w_col_lower w)[c := v], w_lower_row := (w_lower_row w)[c := int i],
                  w_lower_coef := (w_lower_coef w)[c := a]\<rparr> else w
          | None \<Rightarrow> w)
     in case u of
            Some v \<Rightarrow> if v < w_col_upper w1 ! c then
                w1\<lparr>w_col_upper := (w_col_upper w1)[c := v], w_upper_row := (w_upper_row w1)[c := int i],
                  w_upper_coef := (w_upper_coef w1)[c := a]\<rparr> else w1
          | None \<Rightarrow> w1)"

definition absorb_singleton_row ::
    "'a::{zero,plus,minus,divide,abs,ord} scalar \<Rightarrow> 'a presolve_tolerances \<Rightarrow> 'a model \<Rightarrow> nat \<Rightarrow>
     ('a, 'z) presolving_scheme \<Rightarrow> ('a, 'z) presolving_scheme" where
  "absorb_singleton_row sc pt m i s =
     (case live_entries s i of
        [] \<Rightarrow> s
      | (c, a) # _ \<Rightarrow>
          if \<bar>a\<bar> < pt_zero pt \<or> w_doubleton s ! c then s
          else
            let lo = w_row_lower s ! i; up = w_row_upper s ! i;
                b = round_implied sc pt m c (implied_bounds sc a (finite_side sc lo, finite_side sc up));
                s1 = log_record ((new_reduction kSingletonRow i)\<lparr>rd_column := c, rd_coefficient := a, rd_row_lower := lo,
                  rd_row_upper := up\<rparr>) s
            in kill_row i (tighten_by_row i c a b (s1\<lparr>w_singleton := (w_singleton s1)[c := True]\<rparr>)))"

section \<open>Doubleton equations\<close>

text \<open>The range of \<open>a x\<close> for \<open>x\<close> within its bounds.\<close>

definition term_range :: "'a::{zero,times,ord} scalar \<Rightarrow> 'a \<Rightarrow> 'a \<Rightarrow> 'a \<Rightarrow> 'a option \<times> 'a option" where
  "term_range sc a lo up =
     (let at_lo = map_option (\<lambda>v. a * v) (finite_side sc lo); at_up = map_option (\<lambda>v. a * v) (finite_side sc up)
      in if 0 < a then (at_lo, at_up) else (at_up, at_lo))"

text \<open>The eliminated column is the first unless only the second is continuous; None when both are integer.\<close>

definition choose_eliminated :: "'a model \<Rightarrow> nat \<times> 'a \<Rightarrow> nat \<times> 'a \<Rightarrow> ((nat \<times> 'a) \<times> nat \<times> 'a) option" where
  "choose_eliminated m first second =
     (if col_type m ! fst first = kInteger then
        (if col_type m ! fst second = kInteger then None else Some (second, first))
      else Some (first, second))"

definition tighten_partner ::
    "'a::ord scalar \<Rightarrow> nat \<Rightarrow> 'a option \<times> 'a option \<Rightarrow> ('a, 'z) workspace_scheme \<Rightarrow> ('a, 'z) workspace_scheme" where
  "tighten_partner sc k = (\<lambda>(l, u) w.
     let w1 = (case l of Some v \<Rightarrow> w\<lparr>w_col_lower := modify_at k (\<lambda>b. cmax b v) (w_col_lower w)\<rparr> | None \<Rightarrow> w)
     in case u of Some v \<Rightarrow> w1\<lparr>w_col_upper := modify_at k (\<lambda>b. cmin b v) (w_col_upper w1)\<rparr> | None \<Rightarrow> w1)"

text \<open>One other row of the eliminated column: the substitution shifts its sides and its coefficient on the
  kept column, which is new there when the row had none.\<close>

definition add_coefficient :: "nat \<Rightarrow> 'a::plus \<Rightarrow> (nat \<times> 'a) list \<Rightarrow> (nat \<times> 'a) list" where
  "add_coefficient k d es =
     (case find_index (\<lambda>e. fst e = k) es of
        Some i \<Rightarrow> modify_at i (\<lambda>(c, b). (c, b + d)) es
      | None \<Rightarrow> es @ [(k, d)])"

definition add_delta :: "nat \<Rightarrow> 'a::{zero,plus} \<Rightarrow> (nat \<rightharpoonup> 'a) \<Rightarrow> (nat \<rightharpoonup> 'a)" where
  "add_delta r d f = f(r \<mapsto> (case f r of None \<Rightarrow> 0 + d | Some v \<Rightarrow> v + d))"

definition fill_in ::
    "'a::{zero,plus,minus,uminus,times,divide,abs,ord} scalar \<Rightarrow> 'a presolve_tolerances \<Rightarrow> nat \<Rightarrow> 'a \<Rightarrow> nat \<Rightarrow> 'a \<Rightarrow> 'a \<Rightarrow>
     nat \<times> 'a \<Rightarrow> ('a, 'z) workspace_scheme \<Rightarrow> ('a, 'z) workspace_scheme" where
  "fill_in sc pt i a k b rhs = (\<lambda>(r, other) w.
     if r = i \<or> w_row_dead w ! r \<or> \<bar>other\<bar> < pt_zero pt then w
     else
       let factor = other div a;
           w1 = shift_sides sc r (factor * rhs) w;
           d = - factor * b;
           fresh = list_all (\<lambda>e. fst e \<noteq> k) (w_rows w1 ! r);
           w2 = w1\<lparr>w_rows := modify_at r (add_coefficient k d) (w_rows w1),
                   w_delta := modify_at k (add_delta r d) (w_delta w1)\<rparr>;
           w3 = (if fresh then
               w2\<lparr>w_new_rows := modify_at k (\<lambda>rs. rs @ [r]) (w_new_rows w2),
                  w_row_count := modify_at r (\<lambda>c. c + 1) (w_row_count w2),
                  w_col_count := modify_at k (\<lambda>c. c + 1) (w_col_count w2)\<rparr>
             else w2)
       in drop_entry r w3)"

definition substitute_column ::
    "'a::{zero,plus,minus,uminus,times,divide,abs,ord} scalar \<Rightarrow> 'a presolve_tolerances \<Rightarrow> 'a model \<Rightarrow> nat \<Rightarrow> nat \<Rightarrow> 'a \<Rightarrow>
     nat \<Rightarrow> 'a \<Rightarrow> ('a, 'z) presolving_scheme \<Rightarrow> ('a, 'z) presolving_scheme" where
  "substitute_column sc pt m i e a k b s =
     (let rhs = w_row_lower s ! i;
          (tlo, thi) = term_range sc a (w_col_lower s ! e) (w_col_upper s ! e);
          implied = round_implied sc pt m k
            (implied_bounds sc b (map_option (\<lambda>t. rhs - t) thi, map_option (\<lambda>t. rhs - t) tlo));
          ce = w_cost s ! e;
          s1 = log_record ((new_reduction kDoubletonEquation i)\<lparr>rd_column := e, rd_coefficient := a, rd_partner := k,
                 rd_partner_coefficient := b, rd_rhs := rhs, rd_eliminated_cost := ce\<rparr>) s;
          s2 = tighten_partner sc k implied (s1\<lparr>w_doubleton := ((w_doubleton s1)[e := True])[k := True]\<rparr>);
          s3 = s2\<lparr>w_cost := modify_at k (\<lambda>c. c - ce * (b div a)) (w_cost s2), w_offset := w_offset s2 + ce * rhs div a\<rparr>;
          s4 = fold (fill_in sc pt i a k b rhs) (column (matrix m) e) s3
      in kill_row i (s4\<lparr>w_col_dead := (w_col_dead s4)[e := True]\<rparr>))"

definition doubleton ::
    "'a::{zero,plus,minus,uminus,times,divide,abs,ord} scalar \<Rightarrow> 'a presolve_tolerances \<Rightarrow> 'a model \<Rightarrow> nat \<Rightarrow>
     ('a, 'z) presolving_scheme \<Rightarrow> ('a, 'z) presolving_scheme" where
  "doubleton sc pt m i s =
     (case live_entries s i of
        first # second # rest \<Rightarrow>
          (case choose_eliminated m first (last (second # rest)) of
             None \<Rightarrow> s
           | Some ((e, a), k, b) \<Rightarrow>
               if \<bar>a\<bar> < pt_zero pt \<or> \<bar>b\<bar> < pt_zero pt \<or> w_doubleton s ! e \<or> w_doubleton s ! k \<or>
                  w_quadratic s ! e \<or> w_quadratic s ! k \<or> w_singleton s ! e \<or> w_singleton s ! k then s
               else substitute_column sc pt m i e a k b s)
      | _ \<Rightarrow> s)"

definition reduce_row ::
    "'a::{zero,one,plus,minus,uminus,times,divide,abs,ord} scalar \<Rightarrow> 'a presolve_tolerances \<Rightarrow> 'a model \<Rightarrow> nat \<Rightarrow>
     ('a, 'z) presolving_scheme \<Rightarrow> ('a, 'z) presolving_scheme" where
  "reduce_row sc pt m i s =
     (if proved_infeasible s \<or> w_row_dead s ! i then s
      else
        let lo = w_row_lower s ! i; up = w_row_upper s ! i; ft = pt_feasibility pt in
        if up + ft < lo then refute None s
        else if w_row_count s ! i = 0 then
          (let below = (sc_fin sc lo \<and> ft < lo); above = (sc_fin sc up \<and> up < - ft) in
           if below \<or> above then
             refute (Some ((replicate (length (w_row_lower s)) 0)[i := if below then 1 else - 1])) s
           else drop_row kEmptyRow i s)
        else
          let b = activity_bounds sc s i;
              lower_slack = (\<not> sc_fin sc lo \<or> ar_lower_finite b \<and> lo - ft \<le> ar_lower b);
              upper_slack = (\<not> sc_fin sc up \<or> ar_upper_finite b \<and> ar_upper b \<le> up + ft)
          in if lower_slack \<and> upper_slack then drop_row kRedundantRow i s
             else if ar_upper_finite b \<and> sc_fin sc lo \<and> ar_upper b < lo - ft then
               refute (Some (activity_certificate s i 1)) s
             else if ar_lower_finite b \<and> sc_fin sc up \<and> up + ft < ar_lower b then
               refute (Some (activity_certificate s i (- 1))) s
             else if w_row_count s ! i = 1 then absorb_singleton_row sc pt m i s
             else if w_row_count s ! i = 2 \<and> up - lo \<le> ft \<and> sc_fin sc lo then doubleton sc pt m i s
             else s)"

section \<open>Passes\<close>

definition presolve_pass ::
    "'a::{zero,one,plus,minus,uminus,times,divide,abs,ord} scalar \<Rightarrow> 'a presolve_tolerances \<Rightarrow> 'a model \<Rightarrow>
     ('a, 'z) presolving_scheme \<Rightarrow> ('a, 'z) presolving_scheme" where
  "presolve_pass sc pt m s =
     fold (reduce_row sc pt m) [0..<num_rows m]
       (fold (reduce_column sc pt m) [0..<num_cols m] (s\<lparr>pass_changed := False\<rparr>))"

text \<open>At most \<open>n\<close> passes; whether the fixed point was reached, the passes run, and the state.\<close>

fun presolve_passes ::
    "nat \<Rightarrow> 'a::{zero,one,plus,minus,uminus,times,divide,abs,ord} scalar \<Rightarrow> 'a presolve_tolerances \<Rightarrow> 'a model \<Rightarrow>
     ('a, 'z) presolving_scheme \<Rightarrow> bool \<times> nat \<times> ('a, 'z) presolving_scheme" where
  "presolve_passes 0 sc pt m s = (False, 0, s)"
| "presolve_passes (Suc n) sc pt m s =
     (if proved_infeasible s then (False, 0, s)
      else
        let t = presolve_pass sc pt m s in
        if \<not> pass_changed t then (True, 1, t)
        else let (fixed, k, u) = presolve_passes n sc pt m t in (fixed, Suc k, u))"

definition kMaxPasses :: nat where "kMaxPasses = 20"

definition presolve_state ::
    "'a::{zero,one,plus,minus,uminus,times,divide,abs,ord} scalar \<Rightarrow> 'a presolve_tolerances \<Rightarrow> 'a model \<Rightarrow>
     bool \<times> nat \<times> 'a presolving" where
  "presolve_state sc pt m = presolve_passes kMaxPasses sc pt m (start_workspace m)"

end
