(* ===== verification/Compaction.thy ===== *)
theory Compaction
  imports Presolve
begin

text \<open>
  The end of \<open>presolve\<close> in \<open>src/presolve/presolve.cpp\<close>: what survived is renumbered and copied into a
  reduced model, with the constant of the removed columns in its offset. Should a column of the Hessian be
  gone, the model is handed back as it was.
\<close>

section \<open>Numbering\<close>

text \<open>What is left keeps its order.\<close>

definition survivors :: "bool list \<Rightarrow> nat list" where
  "survivors dead = filter (\<lambda>j. \<not> dead ! j) [0..<length dead]"

definition new_index :: "bool list \<Rightarrow> nat \<Rightarrow> nat option" where
  "new_index dead j = (if dead ! j then None else Some (length (filter (\<lambda>i. \<not> dead ! i) [0..<j])))"

section \<open>The reduced model\<close>

definition compact_entry :: "bool list \<Rightarrow> nat \<Rightarrow> nat \<times> 'a \<Rightarrow> 'a sparse_matrix \<Rightarrow> 'a sparse_matrix" where
  "compact_entry dead i = (\<lambda>(c, a) M. case new_index dead c of None \<Rightarrow> M | Some k \<Rightarrow> add_entry i k a M)"

definition compact_row :: "('a, 'z) workspace_scheme \<Rightarrow> nat \<Rightarrow> 'a sparse_matrix \<Rightarrow> 'a sparse_matrix" where
  "compact_row w i M = (case new_index (w_row_dead w) i of
      None \<Rightarrow> M
    | Some k \<Rightarrow> fold (compact_entry (w_col_dead w) k) (w_rows w ! i) M)"

definition compact_matrix :: "('a, 'z) workspace_scheme \<Rightarrow> 'a sparse_matrix" where
  "compact_matrix w = fold (compact_row w) [0..<length (w_row_dead w)]
     (reset (length (survivors (w_row_dead w))) (length (survivors (w_col_dead w))) empty_sparse)"

text \<open>None when a column with curvature is gone.\<close>

definition compact_curvature ::
    "bool list \<Rightarrow> nat \<Rightarrow> nat \<times> 'a \<Rightarrow> 'a sparse_matrix option \<Rightarrow> 'a sparse_matrix option" where
  "compact_curvature dead j = (\<lambda>(r, a) M. case (M, new_index dead j, new_index dead r) of
      (Some M, Some c, Some k) \<Rightarrow> Some (add_entry k c a M)
    | _ \<Rightarrow> None)"

definition compact_hessian :: "'a model \<Rightarrow> bool list \<Rightarrow> 'a sparse_matrix option" where
  "compact_hessian m dead = fold (\<lambda>j. fold (compact_curvature dead j) (column (hessian m) j)) [0..<ncols (hessian m)]
     (Some (reset (length (survivors dead)) (length (survivors dead)) empty_sparse))"

definition removed_constant :: "'a list \<Rightarrow> 'a reduction \<Rightarrow> 'a \<Rightarrow> 'a::{plus,times}" where
  "removed_constant cost r offset =
     (if rd_kind r = kFixedColumn \<or> rd_kind r = kEmptyColumn then offset + cost ! rd_index r * rd_value r else offset)"

definition reduced_model ::
    "((nat \<Rightarrow> nat) \<Rightarrow> nat list \<Rightarrow> nat list) \<Rightarrow> 'a \<Rightarrow> 'a model \<Rightarrow> 'a sparse_matrix \<Rightarrow> 'a presolving \<Rightarrow>
     'a::{zero,plus,times,abs,ord} model" where
  "reduced_model srt drop_tol m h s =
     (let cols = survivors (w_col_dead s); rows = survivors (w_row_dead s)
      in empty_model\<lparr>model_name := model_name m, source_path := source_path m, sense := sense m,
          objective_offset := fold (removed_constant (w_cost s)) (records s) (objective_offset m) + w_offset s,
          col_cost := map ((!) (w_cost s)) cols, col_lower := map ((!) (w_col_lower s)) cols,
          col_upper := map ((!) (w_col_upper s)) cols, col_type := map ((!) (col_type m)) cols,
          col_names := map ((!) (col_names m)) (filter (\<lambda>j. j < length (col_names m)) cols),
          row_lower := map ((!) (w_row_lower s)) rows, row_upper := map ((!) (w_row_upper s)) rows,
          row_names := map ((!) (row_names m)) (filter (\<lambda>i. i < length (row_names m)) rows),
          matrix := finalize srt drop_tol (compact_matrix s), hessian := finalize srt drop_tol h\<rparr>)"

section \<open>The result\<close>

record 'a presolved =
  pr_model :: "'a model"
  pr_records :: "'a reduction list"
  col_to_original :: "nat list"
  row_to_original :: "nat list"
  pr_infeasible :: bool
  pr_farkas :: "'a list"

definition presolve ::
    "'a::{zero,one,plus,minus,uminus,times,divide,abs,ord} scalar \<Rightarrow> 'a presolve_tolerances \<Rightarrow>
     ((nat \<Rightarrow> nat) \<Rightarrow> nat list \<Rightarrow> nat list) \<Rightarrow> 'a \<Rightarrow> 'a model \<Rightarrow> 'a presolved" where
  "presolve sc pt srt drop_tol m =
     (let s = snd (snd (presolve_state sc pt m)) in
      if proved_infeasible s then
        \<lparr>pr_model = empty_model, pr_records = records s, col_to_original = [], row_to_original = [], pr_infeasible = True,
         pr_farkas = farkas_candidate s\<rparr>
      else case compact_hessian m (w_col_dead s) of
        None \<Rightarrow> \<lparr>pr_model = m, pr_records = [], col_to_original = [0..<num_cols m], row_to_original = [0..<num_rows m],
                 pr_infeasible = False, pr_farkas = []\<rparr>
      | Some h \<Rightarrow> \<lparr>pr_model = reduced_model srt drop_tol m h s, pr_records = records s,
                   col_to_original = survivors (w_col_dead s), row_to_original = survivors (w_row_dead s),
                   pr_infeasible = False, pr_farkas = []\<rparr>)"

end
