(* ===== verification/Postsolve.thy ===== *)
theory Postsolve
  imports Compaction
begin

text \<open>
  Postsolve of \<open>src/presolve/presolve.cpp\<close> up to the dual pass: which record removed a column or a row,
  the forward replay of the folds (costs, coefficients, the columns and rows a fill-in added), and the
  replay in reverse that restores the point and the basis statuses.
\<close>

section \<open>Positions\<close>

definition removed_column :: "'a reduction \<Rightarrow> nat option" where
  "removed_column r = (case rd_kind r of
      kFixedColumn \<Rightarrow> Some (rd_index r) | kEmptyColumn \<Rightarrow> Some (rd_index r)
    | kFreeColumnSingleton \<Rightarrow> Some (rd_column r) | kDoubletonEquation \<Rightarrow> Some (rd_column r)
    | _ \<Rightarrow> None)"

definition removed_row :: "'a reduction \<Rightarrow> nat option" where
  "removed_row r = (case rd_kind r of kFixedColumn \<Rightarrow> None | kEmptyColumn \<Rightarrow> None | _ \<Rightarrow> Some (rd_index r))"

text \<open>The position of the record that removed each, and the number of records for what is left.\<close>

definition removed_at :: "('a reduction \<Rightarrow> nat option) \<Rightarrow> nat \<Rightarrow> 'a reduction list \<Rightarrow> nat list" where
  "removed_at f n rs = fold (\<lambda>p ps. case f (rs ! p) of None \<Rightarrow> ps | Some c \<Rightarrow> ps[c := p]) [0..<length rs] (replicate n (length rs))"

section \<open>The forward replay\<close>

record 'a replayed =
  adjusted_cost :: "'a list"
  row_is_folded :: "bool list"
  folded_row_recipients :: "nat list list"
  row_overrides :: "(nat \<rightharpoonup> 'a) list"
  extra_rows_for_column :: "nat list list"
  extra_columns_for_row :: "nat list list"

definition replay_start :: "'a model \<Rightarrow> 'a replayed" where
  "replay_start m = \<lparr>adjusted_cost = col_cost m, row_is_folded = replicate (num_rows m) False,
     folded_row_recipients = replicate (num_rows m) [], row_overrides = replicate (num_rows m) Map.empty,
     extra_rows_for_column = replicate (num_cols m) [], extra_columns_for_row = replicate (num_rows m) []\<rparr>"

definition receive :: "nat \<Rightarrow> nat \<Rightarrow> 'a \<Rightarrow> 'a::minus replayed \<Rightarrow> 'a replayed" where
  "receive r k d t = t\<lparr>adjusted_cost := modify_at k (\<lambda>c. c - d) (adjusted_cost t),
     folded_row_recipients := modify_at r (\<lambda>ks. ks @ [k]) (folded_row_recipients t)\<rparr>"

text \<open>Another row of the eliminated column, still there when the record fired.\<close>

definition replay_fill ::
    "'a::{zero,plus,uminus,times,divide,abs,ord} presolve_tolerances \<Rightarrow> 'a model \<Rightarrow> (nat \<Rightarrow> bool) \<Rightarrow> 'a reduction \<Rightarrow>
     nat \<times> 'a \<Rightarrow> 'a replayed \<Rightarrow> 'a replayed" where
  "replay_fill pt m gone rec = (\<lambda>(r, a) t.
     if r = rd_index rec \<or> gone r \<or> \<bar>a\<bar> < pt_zero pt then t
     else
       let k = rd_partner rec;
           delta = - (a div rd_coefficient rec) * rd_partner_coefficient rec;
           new_key = ((row_overrides t ! r) k = None);
           t1 = t\<lparr>row_overrides := modify_at r (add_delta k delta) (row_overrides t)\<rparr>
       in if new_key \<and> feq (entry_at (matrix m) r k) 0 then
            t1\<lparr>extra_rows_for_column := modify_at k (\<lambda>rs. rs @ [r]) (extra_rows_for_column t1),
               extra_columns_for_row := modify_at r (\<lambda>ks. ks @ [k]) (extra_columns_for_row t1)\<rparr>
          else t1)"

definition replay_doubleton ::
    "'a::{zero,plus,minus,uminus,times,divide,abs,ord} presolve_tolerances \<Rightarrow> 'a model \<Rightarrow> (nat \<Rightarrow> bool) \<Rightarrow> 'a reduction \<Rightarrow>
     'a replayed \<Rightarrow> 'a replayed" where
  "replay_doubleton pt m gone rec t =
     fold (replay_fill pt m gone rec) (column (matrix m) (rd_column rec))
       (receive (rd_index rec) (rd_partner rec)
          (rd_eliminated_cost rec * (rd_partner_coefficient rec div rd_coefficient rec)) t)"

text \<open>The columns of the row still there when the record fired: those of the matrix, then those filled in.\<close>

definition replay_entry ::
    "(nat \<Rightarrow> bool) \<Rightarrow> 'a reduction \<Rightarrow> nat \<times> 'a \<Rightarrow> 'a::{plus,minus,times,divide} replayed \<Rightarrow> 'a replayed" where
  "replay_entry gone rec = (\<lambda>(k, a) t.
     if k = rd_column rec \<or> gone k then t
     else
       let c = (case (row_overrides t ! rd_index rec) k of None \<Rightarrow> a | Some d \<Rightarrow> a + d)
       in receive (rd_index rec) k (rd_eliminated_cost rec * (c div rd_coefficient rec)) t)"

definition replay_extra ::
    "(nat \<Rightarrow> bool) \<Rightarrow> 'a reduction \<Rightarrow> nat \<Rightarrow> 'a::{minus,times,divide} replayed \<Rightarrow> 'a replayed" where
  "replay_extra gone rec = (\<lambda>k t.
     if k = rd_column rec \<or> gone k then t
     else case (row_overrides t ! rd_index rec) k of
       None \<Rightarrow> t
     | Some d \<Rightarrow> receive (rd_index rec) k (rd_eliminated_cost rec * (d div rd_coefficient rec)) t)"

definition replay_singleton ::
    "'a::{zero,plus,minus,times,divide} model \<Rightarrow> (nat \<Rightarrow> bool) \<Rightarrow> 'a reduction \<Rightarrow> 'a replayed \<Rightarrow> 'a replayed" where
  "replay_singleton m gone rec t =
     (let t1 = fold (replay_entry gone rec) (csr_row (csr_build (matrix m)) (rd_index rec)) t
      in fold (replay_extra gone rec) (extra_columns_for_row t1 ! rd_index rec) t1)"

definition replay_record ::
    "'a::{zero,plus,minus,uminus,times,divide,abs,ord} presolve_tolerances \<Rightarrow> 'a model \<Rightarrow> (nat \<Rightarrow> bool) \<Rightarrow> (nat \<Rightarrow> bool) \<Rightarrow>
     'a reduction \<Rightarrow> 'a replayed \<Rightarrow> 'a replayed" where
  "replay_record pt m col_gone row_gone rec t =
     (if rd_kind rec \<noteq> kFreeColumnSingleton \<and> rd_kind rec \<noteq> kDoubletonEquation then t
      else
        let t1 = t\<lparr>row_is_folded := (row_is_folded t)[rd_index rec := True]\<rparr>
        in if rd_kind rec = kDoubletonEquation then replay_doubleton pt m row_gone rec t1
           else replay_singleton m col_gone rec t1)"

definition replay ::
    "'a::{zero,plus,minus,uminus,times,divide,abs,ord} presolve_tolerances \<Rightarrow> 'a model \<Rightarrow> 'a reduction list \<Rightarrow> 'a replayed" where
  "replay pt m rs =
     (let col_at = removed_at removed_column (num_cols m) rs; row_at = removed_at removed_row (num_rows m) rs
      in fold (\<lambda>p. replay_record pt m (\<lambda>c. col_at ! c < p) (\<lambda>r. row_at ! r < p) (rs ! p)) [0..<length rs] (replay_start m))"

section \<open>The replay in reverse\<close>

record 'a restored =
  ps_value :: "'a list"
  ps_col_status :: "basis_status list"
  ps_row_dual :: "'a list"
  ps_row_status :: "basis_status list"

definition row_logical_at_its_target :: "'a::{minus,abs,ord} reduction \<Rightarrow> basis_status" where
  "row_logical_at_its_target rec =
     (if feq (rd_row_lower rec) (rd_row_upper rec) then kFixed
      else if \<bar>rd_rhs rec - rd_row_lower rec\<bar> \<le> \<bar>rd_rhs rec - rd_row_upper rec\<bar> then kAtLower else kAtUpper)"

definition at_bound :: "'a::{one,minus,times,abs,ord} scalar \<Rightarrow> 'a \<Rightarrow> 'a \<Rightarrow> bool" where
  "at_bound sc v b \<longleftrightarrow> sc_fin sc b \<and> \<bar>v - b\<bar> \<le> sc_lit sc (1 / 10 ^ 7) * cmax 1 \<bar>b\<bar>"

text \<open>The rest of the row of a free column, at the point restored so far.\<close>

definition add_known :: "(nat \<Rightarrow> bool) \<Rightarrow> nat \<Rightarrow> (nat \<rightharpoonup> 'a) \<Rightarrow> 'a list \<Rightarrow> nat \<times> 'a \<Rightarrow> 'a::{plus,times} \<Rightarrow> 'a" where
  "add_known gone j over v = (\<lambda>(k, a) sum.
     if k = j \<or> gone k then sum else sum + (case over k of None \<Rightarrow> a | Some d \<Rightarrow> a + d) * v ! k)"

definition add_filled :: "(nat \<Rightarrow> bool) \<Rightarrow> nat \<Rightarrow> (nat \<rightharpoonup> 'a) \<Rightarrow> 'a list \<Rightarrow> nat \<Rightarrow> 'a::{plus,times} \<Rightarrow> 'a" where
  "add_filled gone j over v = (\<lambda>k sum.
     if k = j \<or> gone k then sum else case over k of None \<Rightarrow> sum | Some d \<Rightarrow> sum + d * v ! k)"

definition row_rest :: "'a::{zero,plus,times} model \<Rightarrow> (nat \<Rightarrow> bool) \<Rightarrow> 'a replayed \<Rightarrow> 'a reduction \<Rightarrow> 'a list \<Rightarrow> 'a" where
  "row_rest m gone t rec v =
     (let i = rd_index rec; j = rd_column rec; over = row_overrides t ! i
      in fold (add_filled gone j over v) (extra_columns_for_row t ! i)
           (fold (add_known gone j over v) (csr_row (csr_build (matrix m)) i) 0))"

definition solved_value :: "'a::{zero,plus,minus,times,divide} model \<Rightarrow> (nat \<Rightarrow> bool) \<Rightarrow> 'a replayed \<Rightarrow> 'a reduction \<Rightarrow> 'a list \<Rightarrow> 'a" where
  "solved_value m gone t rec v = (rd_rhs rec - row_rest m gone t rec v) div rd_coefficient rec"

definition eliminated_value :: "'a::{minus,times,divide} reduction \<Rightarrow> 'a list \<Rightarrow> 'a" where
  "eliminated_value rec v = (rd_rhs rec - rd_partner_coefficient rec * v ! rd_partner rec) div rd_coefficient rec"

text \<open>Of the two columns of an equation one is basic: the partner when an implied bound holds it.\<close>

definition doubleton_statuses ::
    "'a::{one,minus,times,abs,ord} scalar \<Rightarrow> 'a model \<Rightarrow> 'a reduction \<Rightarrow> 'a \<Rightarrow> 'a \<Rightarrow> basis_status list \<Rightarrow> basis_status list" where
  "doubleton_statuses sc m rec xk xe st =
     (let k = rd_partner rec; e = rd_column rec;
          inside = (\<not> at_bound sc xk (col_lower m ! k) \<and> \<not> at_bound sc xk (col_upper m ! k));
          at_lower = at_bound sc xe (col_lower m ! e); at_upper = at_bound sc xe (col_upper m ! e)
      in if st ! k \<noteq> kBasic \<and> inside \<and> (at_lower \<or> at_upper) then
           (st[k := kBasic])[e := if feq (col_lower m ! e) (col_upper m ! e) then kFixed else if at_lower then kAtLower else kAtUpper]
         else st[e := kBasic])"

definition restore_record ::
    "'a::{zero,one,plus,minus,times,divide,abs,ord} scalar \<Rightarrow> 'a model \<Rightarrow> (nat \<Rightarrow> bool) \<Rightarrow> 'a replayed \<Rightarrow> 'a reduction \<Rightarrow>
     'a restored \<Rightarrow> 'a restored" where
  "restore_record sc m gone t rec s =
     (let i = rd_index rec; j = rd_column rec in
      case rd_kind rec of
        kFixedColumn \<Rightarrow> s\<lparr>ps_value := (ps_value s)[i := rd_value rec], ps_col_status := (ps_col_status s)[i := kFixed]\<rparr>
      | kEmptyColumn \<Rightarrow> s\<lparr>ps_value := (ps_value s)[i := rd_value rec], ps_col_status := (ps_col_status s)[i := kFixed]\<rparr>
      | kFreeColumnSingleton \<Rightarrow>
          s\<lparr>ps_value := (ps_value s)[j := solved_value m gone t rec (ps_value s)], ps_col_status := (ps_col_status s)[j := kBasic],
            ps_row_dual := (ps_row_dual s)[i := 0], ps_row_status := (ps_row_status s)[i := row_logical_at_its_target rec]\<rparr>
      | kDoubletonEquation \<Rightarrow>
          let xk = ps_value s ! rd_partner rec; xe = eliminated_value rec (ps_value s) in
          s\<lparr>ps_value := (ps_value s)[j := xe], ps_col_status := doubleton_statuses sc m rec xk xe (ps_col_status s),
            ps_row_dual := (ps_row_dual s)[i := 0], ps_row_status := (ps_row_status s)[i := kFixed]\<rparr>
      | _ \<Rightarrow> s\<lparr>ps_row_dual := (ps_row_dual s)[i := 0], ps_row_status := (ps_row_status s)[i := kBasic]\<rparr>)"

definition restore ::
    "'a::{zero,one,plus,minus,uminus,times,divide,abs,ord} scalar \<Rightarrow> 'a presolve_tolerances \<Rightarrow> 'a model \<Rightarrow> 'a reduction list \<Rightarrow>
     'a restored \<Rightarrow> 'a restored" where
  "restore sc pt m rs s =
     (let t = replay pt m rs; gone = removed_at removed_column (num_cols m) rs
      in fold (\<lambda>p. restore_record sc m (\<lambda>c. gone ! c < p) t (rs ! p)) (rev [0..<length rs]) s)"

section \<open>The whole of it\<close>

text \<open>The reduced answer goes back to the old numbers.\<close>

definition scatter_back :: "nat list \<Rightarrow> 'b list \<Rightarrow> 'b list \<Rightarrow> 'b list" where
  "scatter_back old ys xs = fold (\<lambda>j xs. if j < length ys then xs[old ! j := ys ! j] else xs) [0..<length old] xs"

definition postsolve ::
    "'a::{zero,one,plus,minus,uminus,times,divide,abs,ord} scalar \<Rightarrow> 'a presolve_tolerances \<Rightarrow> 'a model \<Rightarrow> 'a presolved \<Rightarrow>
     'a restored \<Rightarrow> 'a restored" where
  "postsolve sc pt m p reduced =
     restore sc pt m (pr_records p)
       \<lparr>ps_value = scatter_back (col_to_original p) (ps_value reduced) (replicate (num_cols m) 0),
        ps_col_status = scatter_back (col_to_original p) (ps_col_status reduced) (replicate (num_cols m) kUnknown),
        ps_row_dual = scatter_back (row_to_original p) (ps_row_dual reduced) (replicate (num_rows m) 0),
        ps_row_status = scatter_back (row_to_original p) (ps_row_status reduced) (replicate (num_rows m) kUnknown)\<rparr>"

end
