(* ===== verification/Reductions.thy ===== *)
theory Reductions
  imports Extended
begin

text \<open>
  What presolve promises, apart from how it keeps its books: a linear problem over exact numbers with live
  columns and rows, the reductions as functions on problems, and for each the step back to a point of the
  problem before. Every reduction is sound (a point of the reduced problem steps back to a point of the
  problem before, of the same value) and loses nothing (every point of the problem before stays a point, of
  a value that is not worse). \<open>PresolveSound\<close> shows that the code of \<open>src/presolve/presolve.cpp\<close> refines
  these functions.
\<close>

record problem =
  p_cols :: "nat set"
  p_rows :: "nat set"
  p_lower :: "nat \<Rightarrow> xnum"
  p_upper :: "nat \<Rightarrow> xnum"
  p_row_lower :: "nat \<Rightarrow> xnum"
  p_row_upper :: "nat \<Rightarrow> xnum"
  p_coef :: "nat \<Rightarrow> nat \<Rightarrow> rat"
  p_cost :: "nat \<Rightarrow> rat"
  p_const :: rat

definition activity :: "problem \<Rightarrow> (nat \<Rightarrow> rat) \<Rightarrow> nat \<Rightarrow> rat" where
  "activity P x i = (\<Sum>j \<in> p_cols P. p_coef P i j * x j)"

definition in_box :: "nat set \<Rightarrow> problem \<Rightarrow> (nat \<Rightarrow> rat) \<Rightarrow> nat \<Rightarrow> bool" where
  "in_box ints P x j \<longleftrightarrow> p_lower P j \<le> X (x j) \<and> X (x j) \<le> p_upper P j \<and> (j \<in> ints \<longrightarrow> x j \<in> \<int>)"

definition row_holds :: "problem \<Rightarrow> (nat \<Rightarrow> rat) \<Rightarrow> nat \<Rightarrow> bool" where
  "row_holds P x i \<longleftrightarrow> p_row_lower P i \<le> X (activity P x i) \<and> X (activity P x i) \<le> p_row_upper P i"

definition point_of :: "nat set \<Rightarrow> problem \<Rightarrow> (nat \<Rightarrow> rat) \<Rightarrow> bool" where
  "point_of ints P x \<longleftrightarrow> (\<forall>j \<in> p_cols P. in_box ints P x j) \<and> (\<forall>i \<in> p_rows P. row_holds P x i)"

definition value_of :: "problem \<Rightarrow> (nat \<Rightarrow> rat) \<Rightarrow> rat" where
  "value_of P x = p_const P + (\<Sum>j \<in> p_cols P. p_cost P j * x j)"

text \<open>Two problems that agree on what is alive.\<close>

definition same_problem :: "problem \<Rightarrow> problem \<Rightarrow> bool" where
  "same_problem P Q \<longleftrightarrow> p_cols P = p_cols Q \<and> p_rows P = p_rows Q \<and> p_const P = p_const Q \<and>
     (\<forall>j \<in> p_cols P. p_lower P j = p_lower Q j \<and> p_upper P j = p_upper Q j \<and> p_cost P j = p_cost Q j) \<and>
     (\<forall>i \<in> p_rows P. p_row_lower P i = p_row_lower Q i \<and> p_row_upper P i = p_row_upper Q i \<and>
        (\<forall>j \<in> p_cols P. p_coef P i j = p_coef Q i j))"

lemma same_problem_refl: "same_problem P P"
  by (simp add: same_problem_def)

lemma same_problem_reads:
  assumes "same_problem P Q"
  shows "point_of ints P x = point_of ints Q x" "value_of P x = value_of Q x"
proof -
  have "activity P x i = activity Q x i" if "i \<in> p_rows Q" for i
    unfolding activity_def using assms that by (intro sum.cong) (simp_all add: same_problem_def)
  then show "point_of ints P x = point_of ints Q x"
    using assms by (auto simp: point_of_def in_box_def row_holds_def same_problem_def)
  show "value_of P x = value_of Q x"
    unfolding value_of_def using assms by (auto simp: same_problem_def intro: sum.cong)
qed

text \<open>A step from \<open>P\<close> to \<open>Q\<close>: a point of \<open>Q\<close> steps back by \<open>back\<close>, and a point of \<open>P\<close> is one of \<open>Q\<close>.\<close>

definition sound_step :: "nat set \<Rightarrow> problem \<Rightarrow> problem \<Rightarrow> ((nat \<Rightarrow> rat) \<Rightarrow> nat \<Rightarrow> rat) \<Rightarrow> bool" where
  "sound_step ints P Q back \<longleftrightarrow>
     (\<forall>x. point_of ints Q x \<longrightarrow> point_of ints P (back x) \<and> value_of P (back x) = value_of Q x)"

definition lossless_step :: "nat set \<Rightarrow> rat \<Rightarrow> problem \<Rightarrow> problem \<Rightarrow> bool" where
  "lossless_step ints sg P Q \<longleftrightarrow>
     (\<forall>x. point_of ints P x \<longrightarrow> point_of ints Q x \<and> sg * value_of Q x \<le> sg * value_of P x)"

lemma sound_refl: "sound_step ints P P (\<lambda>x. x)"
  and lossless_refl: "lossless_step ints sg P P"
  by (simp_all add: sound_step_def lossless_step_def)

lemma sound_trans: "sound_step ints P Q b \<Longrightarrow> sound_step ints Q R c \<Longrightarrow> sound_step ints P R (\<lambda>x. b (c x))"
  by (simp add: sound_step_def)

lemma lossless_trans: "lossless_step ints sg P Q \<Longrightarrow> lossless_step ints sg Q R \<Longrightarrow> lossless_step ints sg P R"
  by (auto simp: lossless_step_def intro: order_trans)

lemma step_same:
  assumes "same_problem Q Q'"
  shows "sound_step ints P Q' b = sound_step ints P Q b" "lossless_step ints sg P Q' = lossless_step ints sg P Q"
  using same_problem_reads[OF assms] by (simp_all add: sound_step_def lossless_step_def)

section \<open>Columns that leave\<close>

definition xshift :: "xnum \<Rightarrow> rat \<Rightarrow> xnum" where
  "xshift l d = (if xfinite l then l - X d else l)"

lemma xshift_le: "xshift l d \<le> X q \<longleftrightarrow> l \<le> X (q + d)" "X q \<le> xshift u d \<longleftrightarrow> X (q + d) \<le> u"
  by (cases l; auto simp: xshift_def algebra_simps) (cases u; auto simp: xshift_def algebra_simps)

text \<open>A column with a known value leaves every row.\<close>

definition fix_col :: "nat \<Rightarrow> rat \<Rightarrow> problem \<Rightarrow> problem" where
  "fix_col j v P = P\<lparr>p_cols := p_cols P - {j},
     p_row_lower := (\<lambda>i. xshift (p_row_lower P i) (p_coef P i j * v)),
     p_row_upper := (\<lambda>i. xshift (p_row_upper P i) (p_coef P i j * v)),
     p_const := p_const P + p_cost P j * v\<rparr>"

lemma activity_split:
  assumes "finite (p_cols P)" "j \<in> p_cols P"
  shows "activity P x i = p_coef P i j * x j + (\<Sum>k \<in> p_cols P - {j}. p_coef P i k * x k)"
  unfolding activity_def using assms by (simp add: sum.remove)

lemma sum_update: "(\<Sum>k \<in> A - {j}. f k * (x(j := v)) k) = (\<Sum>k \<in> A - {j}. f k * x k)" for f :: "nat \<Rightarrow> rat"
  by (rule sum.cong) auto

lemma fix_col_activity:
  assumes "finite (p_cols P)" "j \<in> p_cols P"
  shows "activity P (x(j := v)) i = activity (fix_col j v P) x i + p_coef P i j * v"
  using assms by (simp add: activity_split[OF assms] sum_update) (simp add: activity_def fix_col_def)

lemma fix_col_value:
  assumes "finite (p_cols P)" "j \<in> p_cols P"
  shows "value_of P (x(j := v)) = value_of (fix_col j v P) x"
  using assms by (simp add: value_of_def fix_col_def sum.remove[OF assms] sum_update)

lemma fix_col_sound:
  assumes "finite (p_cols P)" "j \<in> p_cols P" "p_lower P j \<le> X v" "X v \<le> p_upper P j" "j \<in> ints \<longrightarrow> v \<in> \<int>"
  shows "sound_step ints P (fix_col j v P) (\<lambda>x. x(j := v))"
  unfolding sound_step_def
proof (intro allI impI conjI)
  fix x assume x: "point_of ints (fix_col j v P) x"
  have box: "in_box ints P (x(j := v)) k" if "k \<in> p_cols P" for k
    using x assms(3-5) that by (cases "k = j") (auto simp: point_of_def in_box_def fix_col_def)
  have row: "row_holds P (x(j := v)) i" if "i \<in> p_rows P" for i
    using x that unfolding point_of_def row_holds_def fix_col_activity[OF assms(1,2)]
    by (auto simp: fix_col_def xshift_le)
  show "point_of ints P (x(j := v))" using box row by (simp add: point_of_def)
  show "value_of P (x(j := v)) = value_of (fix_col j v P) x" by (rule fix_col_value[OF assms(1,2)])
qed

lemma fix_col_lossless:
  assumes "finite (p_cols P)" "j \<in> p_cols P" "p_lower P j = X v" "p_upper P j = X v"
  shows "lossless_step ints sg P (fix_col j v P)"
  unfolding lossless_step_def
proof (intro allI impI conjI)
  fix x assume x: "point_of ints P x"
  then have "x j = v" using assms by (auto simp: point_of_def in_box_def)
  then have e: "x(j := v) = x" by auto
  show "point_of ints (fix_col j v P) x"
    using x unfolding point_of_def in_box_def row_holds_def
    using fix_col_activity[OF assms(1,2), of x v, unfolded e]
    by (auto simp: fix_col_def xshift_le)
  show "sg * value_of (fix_col j v P) x \<le> sg * value_of P x" using fix_col_value[OF assms(1,2), of x v] e by simp
qed

text \<open>A column in no live row is parked.\<close>

definition park_col :: "nat \<Rightarrow> rat \<Rightarrow> problem \<Rightarrow> problem" where
  "park_col j v P = P\<lparr>p_cols := p_cols P - {j}, p_const := p_const P + p_cost P j * v\<rparr>"

lemma park_same: "\<forall>i \<in> p_rows P. p_coef P i j = 0 \<Longrightarrow> \<forall>i \<in> p_rows P. \<not> xnan (p_row_lower P i) \<and> \<not> xnan (p_row_upper P i) \<Longrightarrow>
    same_problem (park_col j v P) (fix_col j v P)"
  by (simp add: same_problem_def park_col_def fix_col_def xshift_def) (metis X_arith(2) diff_zero xfinite.elims(2))

lemma park_col_lossless:
  assumes "finite (p_cols P)" "j \<in> p_cols P" "\<forall>i \<in> p_rows P. p_coef P i j = 0"
    and best: "0 < sg * p_cost P j \<Longrightarrow> p_lower P j = X v" "sg * p_cost P j < 0 \<Longrightarrow> p_upper P j = X v"
  shows "lossless_step ints sg P (park_col j v P)"
  unfolding lossless_step_def
proof (intro allI impI conjI)
  fix x assume x: "point_of ints P x"
  have act: "activity (park_col j v P) x i = activity P x i" if "i \<in> p_rows P" for i
    using assms(3) that activity_split[OF assms(1,2), of x i] by (simp add: activity_def park_col_def)
  show "point_of ints (park_col j v P) x"
    using x act by (simp add: point_of_def in_box_def row_holds_def) (simp add: park_col_def)
  have b: "p_lower P j \<le> X (x j)" "X (x j) \<le> p_upper P j" using x assms(2) by (auto simp: point_of_def in_box_def)
  have "sg * p_cost P j * v \<le> sg * p_cost P j * x j"
  proof (cases "sg * p_cost P j" "0 :: rat" rule: linorder_cases)
    case less
    then have "x j \<le> v" using b(2) best(2) by simp
    then show ?thesis using less by (intro mult_left_mono_neg) simp_all
  next
    case greater
    then have "v \<le> x j" using b(1) best(1) by simp
    then show ?thesis using greater by (intro mult_left_mono) simp_all
  next
    case equal
    then show ?thesis by (simp only: mult_zero_left order_refl)
  qed
  then show "sg * value_of (park_col j v P) x \<le> sg * value_of P x"
    by (simp add: value_of_def park_col_def sum.remove[OF assms(1,2)] algebra_simps)
qed


text \<open>A free column of one row leaves with the row, which is held to a chosen activity.\<close>

definition free_col :: "nat \<Rightarrow> nat \<Rightarrow> rat \<Rightarrow> problem \<Rightarrow> problem" where
  "free_col j r target P = P\<lparr>p_cols := p_cols P - {j}, p_rows := p_rows P - {r},
     p_cost := (\<lambda>k. p_cost P k - p_cost P j * (p_coef P r k / p_coef P r j)),
     p_const := p_const P + p_cost P j * target / p_coef P r j\<rparr>"

definition solve_row :: "problem \<Rightarrow> nat \<Rightarrow> nat \<Rightarrow> rat \<Rightarrow> (nat \<Rightarrow> rat) \<Rightarrow> rat" where
  "solve_row P r j target x = (target - (\<Sum>k \<in> p_cols P - {j}. p_coef P r k * x k)) / p_coef P r j"

lemma free_col_value:
  assumes "finite (p_cols P)" "j \<in> p_cols P" "p_coef P r j \<noteq> 0"
  shows "value_of P x = value_of (free_col j r target P) x + p_cost P j / p_coef P r j * (activity P x r - target)"
proof -
  let ?a = "p_coef P r j" and ?c = "p_cost P j"
  have "(\<Sum>k \<in> p_cols P - {j}. (p_cost P k - ?c * (p_coef P r k / ?a)) * x k) =
      (\<Sum>k \<in> p_cols P - {j}. p_cost P k * x k) - ?c / ?a * (\<Sum>k \<in> p_cols P - {j}. p_coef P r k * x k)"
    unfolding sum_distrib_left sum_subtractf[symmetric] by (rule sum.cong) (simp_all add: algebra_simps)
  then show ?thesis
    using assms(3) by (simp add: value_of_def free_col_def sum.remove[OF assms(1,2)] activity_split[OF assms(1,2)])
      (simp add: field_simps)
qed

lemma solve_row_activity:
  assumes "finite (p_cols P)" "j \<in> p_cols P" "p_coef P r j \<noteq> 0"
  shows "activity P (x(j := solve_row P r j target x)) r = target"
  using assms by (simp add: activity_split[OF assms(1,2)] sum_update solve_row_def)

lemma update_other_row:
  assumes "finite (p_cols P)" "p_coef P i j = 0"
  shows "activity P (x(j := v)) i = activity P x i"
  unfolding activity_def using assms by (intro sum.cong) auto

lemma free_col_sound:
  assumes "finite (p_cols P)" "j \<in> p_cols P" "p_coef P r j \<noteq> 0" "j \<notin> ints"
    and alone: "\<forall>i \<in> p_rows P. i \<noteq> r \<longrightarrow> p_coef P i j = 0"
    and free: "p_lower P j = XMInf" "p_upper P j = XPInf"
    and t: "p_row_lower P r \<le> X target" "X target \<le> p_row_upper P r"
  shows "sound_step ints P (free_col j r target P) (\<lambda>x. x(j := solve_row P r j target x))"
  unfolding sound_step_def
proof (intro allI impI conjI)
  fix x assume x: "point_of ints (free_col j r target P) x"
  let ?y = "x(j := solve_row P r j target x)"
  have box: "in_box ints P ?y k" if "k \<in> p_cols P" for k
    using x free assms(4) that by (cases "k = j") (auto simp: point_of_def in_box_def free_col_def)
  have same: "activity P ?y i = activity (free_col j r target P) x i" if "i \<in> p_rows P" "i \<noteq> r" for i
    using alone that by (simp add: update_other_row[OF assms(1)] activity_split[OF assms(1,2)])
      (simp add: activity_def free_col_def)
  have row: "row_holds P ?y i" if "i \<in> p_rows P" for i
  proof (cases "i = r")
    case True
    then show ?thesis using t solve_row_activity[OF assms(1-3)] by (simp add: row_holds_def)
  next
    case False
    then show ?thesis using x that same by (simp add: point_of_def row_holds_def) (simp add: free_col_def)
  qed
  show "point_of ints P ?y" using box row by (simp add: point_of_def)
  have "value_of P ?y = value_of (free_col j r target P) ?y"
    using free_col_value[OF assms(1-3), of ?y target] solve_row_activity[OF assms(1-3), of x target] by simp
  then show "value_of P ?y = value_of (free_col j r target P) x"
    by (simp add: value_of_def free_col_def sum_update)
qed

lemma free_col_keeps:
  assumes "finite (p_cols P)" "j \<in> p_cols P" "\<forall>i \<in> p_rows P. i \<noteq> r \<longrightarrow> p_coef P i j = 0" "point_of ints P x"
  shows "point_of ints (free_col j r target P) x"
proof -
  have "activity (free_col j r target P) x i = activity P x i" if "i \<in> p_rows P" "i \<noteq> r" for i
    using assms(3) that by (simp add: activity_split[OF assms(1,2)]) (simp add: activity_def free_col_def)
  then show ?thesis using assms(4) by (simp add: point_of_def in_box_def row_holds_def) (simp add: free_col_def)
qed

lemma free_col_no_worse:
  assumes "finite (p_cols P)" "j \<in> p_cols P" "p_coef P r j \<noteq> 0" "r \<in> p_rows P" "point_of ints P x"
    and best: "0 < sg * p_cost P j / p_coef P r j \<Longrightarrow> p_row_lower P r = X target"
      "sg * p_cost P j / p_coef P r j < 0 \<Longrightarrow> p_row_upper P r = X target"
  shows "sg * value_of (free_col j r target P) x \<le> sg * value_of P x"
proof -
  let ?rate = "sg * p_cost P j / p_coef P r j"
  have b: "p_row_lower P r \<le> X (activity P x r)" "X (activity P x r) \<le> p_row_upper P r"
    using assms(4,5) by (auto simp: point_of_def row_holds_def)
  have "0 \<le> ?rate * (activity P x r - target)"
  proof (cases ?rate "0 :: rat" rule: linorder_cases)
    case less
    then have "activity P x r \<le> target" using b(2) best(2) by simp
    then show ?thesis using less by (intro mult_nonpos_nonpos) simp_all
  next
    case greater
    then have "target \<le> activity P x r" using b(1) best(1) by simp
    then show ?thesis using greater by (intro mult_nonneg_nonneg) simp_all
  next
    case equal
    then show ?thesis by (simp only: mult_zero_left)
  qed
  then show "sg * value_of (free_col j r target P) x \<le> sg * value_of P x"
    by (simp add: free_col_value[OF assms(1-3), of x target] algebra_simps)
qed

section \<open>Rows that leave\<close>

definition drop_rows :: "nat \<Rightarrow> problem \<Rightarrow> problem" where
  "drop_rows r P = P\<lparr>p_rows := p_rows P - {r}\<rparr>"

lemma drop_row_step:
  assumes "\<And>x. \<forall>j \<in> p_cols P. in_box ints P x j \<Longrightarrow> row_holds P x r"
  shows "sound_step ints P (drop_rows r P) (\<lambda>x. x)" "lossless_step ints sg P (drop_rows r P)"
proof -
  have eqs: "in_box ints (drop_rows r P) = in_box ints P" "row_holds (drop_rows r P) = row_holds P"
    "value_of (drop_rows r P) = value_of P"
    by (simp_all add: fun_eq_iff in_box_def row_holds_def activity_def value_of_def drop_rows_def)
  show "sound_step ints P (drop_rows r P) (\<lambda>x. x)"
    using assms unfolding sound_step_def point_of_def eqs by (auto simp: drop_rows_def)
  show "lossless_step ints sg P (drop_rows r P)"
    unfolding lossless_step_def point_of_def eqs by (auto simp: drop_rows_def)
qed

text \<open>New bounds of a column.\<close>

definition set_bounds :: "nat \<Rightarrow> xnum \<Rightarrow> xnum \<Rightarrow> problem \<Rightarrow> problem" where
  "set_bounds j lo up P = P\<lparr>p_lower := (p_lower P)(j := lo), p_upper := (p_upper P)(j := up)\<rparr>"

lemma set_bounds_reads:
  "row_holds (set_bounds j lo up P) = row_holds P" "value_of (set_bounds j lo up P) = value_of P"
  "k \<noteq> j \<Longrightarrow> in_box ints (set_bounds j lo up P) x k = in_box ints P x k"
  by (simp_all add: fun_eq_iff in_box_def row_holds_def activity_def value_of_def set_bounds_def)

lemma set_bounds_step:
  assumes "\<And>q. lo \<le> X q \<Longrightarrow> X q \<le> up \<Longrightarrow> p_lower P j \<le> X q \<and> X q \<le> p_upper P j"
    "\<And>x. point_of ints P x \<Longrightarrow> lo \<le> X (x j) \<and> X (x j) \<le> up"
  shows "sound_step ints P (set_bounds j lo up P) (\<lambda>x. x)" "lossless_step ints sg P (set_bounds j lo up P)"
proof -
  have box: "in_box ints P x k" if "in_box ints (set_bounds j lo up P) x k" for x k
    using that assms(1) set_bounds_reads(3)[of k j] by (cases "k = j") (auto simp: in_box_def set_bounds_def)
  have box': "in_box ints (set_bounds j lo up P) x k" if "in_box ints P x k" "point_of ints P x" for x k
    using that assms(2) set_bounds_reads(3)[of k j] by (cases "k = j") (auto simp: in_box_def set_bounds_def)
  have shape: "p_cols (set_bounds j lo up P) = p_cols P" "p_rows (set_bounds j lo up P) = p_rows P"
    by (simp_all add: set_bounds_def)
  show "sound_step ints P (set_bounds j lo up P) (\<lambda>x. x)"
    using box unfolding sound_step_def point_of_def set_bounds_reads shape by blast
  show "lossless_step ints sg P (set_bounds j lo up P)"
    using box' unfolding lossless_step_def by (auto simp: point_of_def set_bounds_reads shape)
qed

text \<open>A row of one column is the bounds it implies.\<close>

lemma singleton_activity:
  assumes "finite (p_cols P)" "c \<in> p_cols P" "\<forall>k \<in> p_cols P. k \<noteq> c \<longrightarrow> p_coef P r k = 0"
  shows "activity P x r = p_coef P r c * x c"
  using assms by (simp add: activity_split[OF assms(1,2)])

section \<open>Substitution\<close>

text \<open>A column is replaced, in every row, by what an equation says of it.\<close>

definition substitute :: "nat \<Rightarrow> nat \<Rightarrow> nat \<Rightarrow> rat \<Rightarrow> problem \<Rightarrow> problem" where
  "substitute i e k rhs P =
     (let a = p_coef P i e; b = p_coef P i k in
      P\<lparr>p_cols := p_cols P - {e}, p_rows := p_rows P - {i},
        p_row_lower := (\<lambda>r. xshift (p_row_lower P r) (p_coef P r e / a * rhs)),
        p_row_upper := (\<lambda>r. xshift (p_row_upper P r) (p_coef P r e / a * rhs)),
        p_coef := (\<lambda>r c. if c = k then p_coef P r k - p_coef P r e / a * b else p_coef P r c),
        p_cost := (\<lambda>c. if c = k then p_cost P k - p_cost P e * (b / a) else p_cost P c),
        p_const := p_const P + p_cost P e * rhs / a\<rparr>)"

lemma two_split:
  fixes f :: "nat \<Rightarrow> rat"
  assumes "finite C" "e \<in> C" "k \<in> C" "e \<noteq> k"
  shows "(\<Sum>j \<in> C. f j) = f e + f k + (\<Sum>j \<in> C - {e} - {k}. f j)"
proof -
  have "(\<Sum>j \<in> C. f j) = f e + (\<Sum>j \<in> C - {e}. f j)" using assms by (intro sum.remove) simp_all
  also have "(\<Sum>j \<in> C - {e}. f j) = f k + (\<Sum>j \<in> C - {e} - {k}. f j)" using assms by (intro sum.remove) simp_all
  finally show ?thesis by simp
qed

lemma substitute_activity:
  assumes "finite (p_cols P)" "e \<in> p_cols P" "k \<in> p_cols P" "e \<noteq> k" "p_coef P i e \<noteq> 0"
    and eq: "p_coef P i e * x e + p_coef P i k * x k = rhs"
  shows "activity P x r = activity (substitute i e k rhs P) x r + p_coef P r e / p_coef P i e * rhs"
    "value_of P x = value_of (substitute i e k rhs P) x"
proof -
  let ?a = "p_coef P i e" and ?b = "p_coef P i k" and ?rest = "p_cols P - {e} - {k}"
  have xe: "x e = (rhs - ?b * x k) / ?a" using eq assms(5) by (simp add: field_simps)
  have k: "finite (p_cols P - {e})" "k \<in> p_cols P - {e}" using assms by simp_all
  have "activity (substitute i e k rhs P) x r =
      (p_coef P r k - p_coef P r e / ?a * ?b) * x k + (\<Sum>j \<in> ?rest. p_coef P r j * x j)"
    unfolding activity_def substitute_def Let_def by (simp add: sum.remove[OF k])
  moreover have "activity P x r = p_coef P r e * x e + p_coef P r k * x k + (\<Sum>j \<in> ?rest. p_coef P r j * x j)"
    unfolding activity_def by (rule two_split[OF assms(1-4)])
  ultimately show "activity P x r = activity (substitute i e k rhs P) x r + p_coef P r e / ?a * rhs"
    using assms(5) by (simp add: xe field_simps)
  have "value_of (substitute i e k rhs P) x = p_const P + p_cost P e * rhs / ?a +
      ((p_cost P k - p_cost P e * (?b / ?a)) * x k + (\<Sum>j \<in> ?rest. p_cost P j * x j))"
    unfolding value_of_def substitute_def Let_def by (simp add: sum.remove[OF k])
  moreover have "value_of P x = p_const P + (p_cost P e * x e + p_cost P k * x k + (\<Sum>j \<in> ?rest. p_cost P j * x j))"
    unfolding value_of_def by (simp add: two_split[OF assms(1-4)])
  moreover have "p_cost P e * x e = p_cost P e * rhs / ?a - p_cost P e * (?b / ?a) * x k"
    by (simp add: xe diff_divide_distrib right_diff_distrib)
  ultimately show "value_of P x = value_of (substitute i e k rhs P) x" by (simp add: left_diff_distrib)
qed

text \<open>The equation must hold the row, and the kept column's bounds must imply those of the eliminated one.\<close>

lemma substitute_sound:
  assumes "finite (p_cols P)" "e \<in> p_cols P" "k \<in> p_cols P" "e \<noteq> k" "p_coef P i e \<noteq> 0" "e \<notin> ints"
    and two: "\<forall>c \<in> p_cols P. c \<noteq> e \<longrightarrow> c \<noteq> k \<longrightarrow> p_coef P i c = 0"
    and eq: "p_row_lower P i = X rhs" "p_row_upper P i = X rhs"
    and bounds: "\<And>q. p_lower P k \<le> X q \<Longrightarrow> X q \<le> p_upper P k \<Longrightarrow>
      p_lower P e \<le> X ((rhs - p_coef P i k * q) / p_coef P i e) \<and> X ((rhs - p_coef P i k * q) / p_coef P i e) \<le> p_upper P e"
  shows "sound_step ints P (substitute i e k rhs P) (\<lambda>x. x(e := (rhs - p_coef P i k * x k) / p_coef P i e))"
  unfolding sound_step_def
proof (intro allI impI conjI)
  fix x assume x: "point_of ints (substitute i e k rhs P) x"
  let ?y = "x(e := (rhs - p_coef P i k * x k) / p_coef P i e)"
  have hold: "p_coef P i e * ?y e + p_coef P i k * ?y k = rhs" using assms(4,5) by simp
  note act = substitute_activity[OF assms(1-5) hold]
  have shape: "p_cols (substitute i e k rhs P) = p_cols P - {e}" "p_rows (substitute i e k rhs P) = p_rows P - {i}"
    by (simp_all add: substitute_def Let_def)
  have move: "activity (substitute i e k rhs P) ?y r = activity (substitute i e k rhs P) x r"
    "value_of (substitute i e k rhs P) ?y = value_of (substitute i e k rhs P) x" for r
    unfolding activity_def value_of_def shape by (auto intro!: sum.cong)
  have box: "in_box ints P ?y c" if "c \<in> p_cols P" for c
  proof (cases "c = e")
    case True
    have "k \<in> p_cols P - {e}" using assms(3,4) by simp
    then have "in_box ints (substitute i e k rhs P) x k" using x by (simp only: point_of_def shape)
    then show ?thesis using bounds[of "x k"] True assms(6) by (simp add: in_box_def substitute_def Let_def)
  next
    case False
    then show ?thesis using x that by (simp add: point_of_def shape) (simp add: in_box_def substitute_def Let_def)
  qed
  have row: "row_holds P ?y r" if "r \<in> p_rows P" for r
  proof (cases "r = i")
    case True
    have "(\<Sum>j \<in> p_cols P - {e} - {k}. p_coef P i j * ?y j) = 0" using two by (intro sum.neutral) auto
    then have "activity P ?y i = rhs"
      using hold two_split[OF assms(1-4), of "\<lambda>j. p_coef P i j * ?y j"] by (simp add: activity_def)
    then show ?thesis using eq True by (simp add: row_holds_def)
  next
    case False
    then have "row_holds (substitute i e k rhs P) x r" using x that by (simp add: point_of_def shape)
    then show ?thesis unfolding row_holds_def act(1) move by (simp add: substitute_def Let_def xshift_le)
  qed
  show "point_of ints P ?y" using box row by (simp add: point_of_def)
  show "value_of P ?y = value_of (substitute i e k rhs P) x" by (simp only: act(2) move(2))
qed

lemma substitute_lossless:
  assumes "finite (p_cols P)" "e \<in> p_cols P" "k \<in> p_cols P" "e \<noteq> k" "p_coef P i e \<noteq> 0" "i \<in> p_rows P"
    and two: "\<forall>c \<in> p_cols P. c \<noteq> e \<longrightarrow> c \<noteq> k \<longrightarrow> p_coef P i c = 0"
    and eq: "p_row_lower P i = X rhs" "p_row_upper P i = X rhs"
  shows "lossless_step ints sg P (substitute i e k rhs P)"
  unfolding lossless_step_def
proof (intro allI impI conjI)
  fix x assume x: "point_of ints P x"
  have "row_holds P x i" using x assms(6) by (simp add: point_of_def)
  then have "activity P x i = rhs" using eq by (simp add: row_holds_def)
  moreover have "(\<Sum>j \<in> p_cols P - {e} - {k}. p_coef P i j * x j) = 0" using two by (intro sum.neutral) auto
  ultimately have hold: "p_coef P i e * x e + p_coef P i k * x k = rhs"
    using two_split[OF assms(1-4), of "\<lambda>j. p_coef P i j * x j"] by (simp add: activity_def)
  note act = substitute_activity[OF assms(1-5) hold]
  have row: "row_holds (substitute i e k rhs P) x r" if "r \<in> p_rows P" for r
    using x that unfolding point_of_def row_holds_def act(1) by (simp add: substitute_def Let_def xshift_le)
  show "point_of ints (substitute i e k rhs P) x"
    using x row by (simp add: point_of_def) (simp add: in_box_def substitute_def Let_def)
  show "sg * value_of (substitute i e k rhs P) x \<le> sg * value_of P x" using act(2) by simp
qed

end
