(* ===== verification/PresolveBooks.thy ===== *)
theory PresolveBooks
  imports Presolve Reductions
begin

text \<open>
  The bookkeeping of presolve: what each operation on the workspace does to every field, and the invariant
  that ties the three views of a coefficient (the entries of the row, the column of the model with its
  fill-in, the counts) to each other.
\<close>

section \<open>Folds over one field\<close>

lemma length_fold_modify [simp]: "length (fold (\<lambda>(r, a) xs. if P r then xs else modify_at r (f a) xs) es xs) = length xs"
  by (induction es arbitrary: xs) auto

text \<open>Every key once: the fold updates each keyed position once.\<close>

lemma nth_fold_modify:
  assumes "distinct (map fst es)" "i < length xs"
  shows "fold (\<lambda>(r, a) xs. if P r then xs else modify_at r (f a) xs) es xs ! i =
    (case map_of es i of None \<Rightarrow> xs ! i | Some a \<Rightarrow> if P i then xs ! i else f a (xs ! i))"
  using assms
proof (induction es arbitrary: xs)
  case (Cons e es)
  obtain r a where e: "e = (r, a)" by (cases e)
  let ?xs = "if P r then xs else modify_at r (f a) xs"
  have l: "i < length ?xs" using Cons.prems by simp
  have "map_of es r = None" using Cons.prems(1) by (simp add: e map_of_eq_None_iff)
  moreover have "?xs ! i = (if i = r \<and> \<not> P r then f a (xs ! i) else xs ! i)"
    using Cons.prems(2) by (cases "r < length xs") (auto simp: nth_modify_at modify_at_def list_update_beyond)
  ultimately show ?case using Cons.IH[OF _ l] Cons.prems(1) by (auto simp: e split: option.splits)
qed simp

lemma fold_prod_cong: "(\<And>r a w. g (r, a) w = h (r, a) w) \<Longrightarrow> fold g es w = fold h es w"
  by (rule fold_cong) auto

text \<open>Tables of a column list.\<close>

lemma map_of_filter_key: "map_of (filter (\<lambda>(j, a). P j) es) j = (if P j then map_of es j else None)"
  by (induction es) auto

lemma sorted_keys_distinct: "sorted_wrt (<) (map fst es) \<Longrightarrow> distinct (map fst (es :: (nat \<times> 'a) list))"
  by (simp add: strict_sorted_iff)

lemma sum_over_table:
  assumes "distinct (map fst es)" "fst ` set es \<subseteq> C" "finite C"
  shows "(\<Sum>(j, a)\<leftarrow>es. f j a) = (\<Sum>j \<in> C. case map_of es j of None \<Rightarrow> (0 :: rat) | Some a \<Rightarrow> f j a)"
  using assms
proof (induction es)
  case (Cons e es)
  obtain j a where e: "e = (j, a)" by (cases e)
  have j: "j \<in> C" "map_of es j = None" using Cons.prems by (auto simp: e map_of_eq_None_iff)
  have "(\<Sum>k \<in> C. case map_of (e # es) k of None \<Rightarrow> 0 | Some a \<Rightarrow> f k a) =
      f j a + (\<Sum>k \<in> C - {j}. case map_of (e # es) k of None \<Rightarrow> 0 | Some a \<Rightarrow> f k a)"
    using Cons.prems j by (subst sum.remove[of _ j]) (simp_all add: e)
  also have "(\<Sum>k \<in> C - {j}. case map_of (e # es) k of None \<Rightarrow> 0 | Some a \<Rightarrow> f k a) =
      (\<Sum>k \<in> C - {j}. case map_of es k of None \<Rightarrow> 0 | Some a \<Rightarrow> f k a)"
    by (rule sum.cong) (auto simp: e)
  also have "\<dots> = (\<Sum>k \<in> C. case map_of es k of None \<Rightarrow> 0 | Some a \<Rightarrow> f k a)"
    using Cons.prems j by (subst sum.remove[of C j]) simp_all
  finally show ?case using Cons by (simp add: e)
qed simp

section \<open>What each operation does\<close>

lemma kill_row_eq:
  fixes w :: "('a, 'z) workspace_scheme"
  shows "kill_row r w = (if w_row_dead w ! r then w else
     w\<lparr>w_row_dead := (w_row_dead w)[r := True],
       w_col_count := fold (\<lambda>(j, a) cs. if w_col_dead w ! j then cs else modify_at j (\<lambda>c. c - 1) cs) (w_rows w ! r) (w_col_count w)\<rparr>)"
proof -
  have step: "fold (\<lambda>(j, a) w. if w_col_dead w ! j then w else w\<lparr>w_col_count := modify_at j (\<lambda>c. c - 1) (w_col_count w)\<rparr>) es v =
      v\<lparr>w_col_count := fold (\<lambda>(j, a) cs. if w_col_dead v ! j then cs else modify_at j (\<lambda>c. c - 1) cs) es (w_col_count v)\<rparr>"
    for es and v :: "('a, 'z) workspace_scheme"
    by (induction es arbitrary: v) (auto simp: split_beta)
  show ?thesis by (simp add: kill_row_def step)
qed

text \<open>Folding a fixed column: the sides and the counts of the live rows.\<close>

definition shift_row :: "'a::minus scalar \<Rightarrow> 'a \<Rightarrow> 'a \<Rightarrow> 'a" where
  "shift_row sc shift v = (if sc_fin sc v then v - shift else v)"

lemma shift_sides_eq: "shift_sides sc r d w = w\<lparr>w_row_lower := modify_at r (shift_row sc d) (w_row_lower w),
    w_row_upper := modify_at r (shift_row sc d) (w_row_upper w)\<rparr>"
  by (simp add: shift_sides_def shift_row_def[abs_def])

definition fold_sides :: "'a::minus scalar \<Rightarrow> (nat \<Rightarrow> bool) \<Rightarrow> (nat \<times> 'a) list \<Rightarrow> 'a list \<Rightarrow> 'a list" where
  "fold_sides sc skip = fold (\<lambda>(r, d) xs. if skip r then xs else modify_at r (shift_row sc d) xs)"

definition fold_count :: "(nat \<Rightarrow> bool) \<Rightarrow> (nat \<times> 'a) list \<Rightarrow> int list \<Rightarrow> int list" where
  "fold_count skip = fold (\<lambda>(r, d) xs. if skip r then xs else modify_at r (\<lambda>c. c - 1) xs)"

definition leave_rows :: "'a::minus scalar \<Rightarrow> (nat \<times> 'a) list \<Rightarrow> ('a, 'z) workspace_scheme \<Rightarrow> ('a, 'z) workspace_scheme" where
  "leave_rows sc es w = w\<lparr>w_row_lower := fold_sides sc ((!) (w_row_dead w)) es (w_row_lower w),
     w_row_upper := fold_sides sc ((!) (w_row_dead w)) es (w_row_upper w),
     w_row_count := fold_count ((!) (w_row_dead w)) es (w_row_count w)\<rparr>"

lemma leave_rows_Cons:
  "leave_rows sc (e # es) w = leave_rows sc es (if w_row_dead w ! fst e then w else drop_entry (fst e) (shift_sides sc (fst e) (snd e) w))"
  by (cases e) (simp add: leave_rows_def fold_sides_def fold_count_def drop_entry_def shift_sides_eq)

lemma leave_rows_append: "leave_rows sc (es @ fs) w = leave_rows sc fs (leave_rows sc es w)"
  by (simp add: leave_rows_def fold_sides_def fold_count_def)

lemma leave_rows_reads:
  "w_delta (leave_rows sc es w) = w_delta w" "w_row_dead (leave_rows sc es w) = w_row_dead w"
  "w_new_rows (leave_rows sc es w) = w_new_rows w"
  by (simp_all add: leave_rows_def)

lemma fold_row_app:
  "fold_old_row sc c v (r, a) w = (if w_row_dead w ! r then w
     else drop_entry r (shift_sides sc r ((case (w_delta w ! c) r of None \<Rightarrow> a | Some d \<Rightarrow> a + d) * v) w))"
  by (simp add: fold_old_row_def)

lemma fold_new_app:
  "(w_delta w ! c) r = Some d \<Longrightarrow>
    fold_new_row sc c v r w = (if w_row_dead w ! r then w else drop_entry r (shift_sides sc r (d * v) w))"
  by (simp add: fold_new_row_def)

lemma fold_old_rows_eq:
  fixes w :: "('a::{plus,minus,times}, 'z) workspace_scheme"
  shows "fold (fold_old_row sc c v) es w =
    leave_rows sc (map (\<lambda>(r, a). (r, (case (w_delta w ! c) r of None \<Rightarrow> a | Some d \<Rightarrow> a + d) * v)) es) w"
proof (induction es arbitrary: w)
  case (Cons e es)
  obtain r a where e: "e = (r, a)" by (cases e)
  show ?case
    by (cases "w_row_dead w ! r")
       (simp_all add: e Cons.IH fold_row_app leave_rows_Cons drop_entry_def shift_sides_eq)
qed (simp add: leave_rows_def fold_sides_def fold_count_def)

lemma fold_new_rows_eq:
  fixes w :: "('a::{minus,times}, 'z) workspace_scheme"
  assumes "\<forall>r \<in> set rs. \<exists>d. (w_delta w ! c) r = Some d"
  shows "fold (fold_new_row sc c v) rs w = leave_rows sc (map (\<lambda>r. (r, the ((w_delta w ! c) r) * v)) rs) w"
  using assms
proof (induction rs arbitrary: w)
  case (Cons r rs)
  obtain d where d: "(w_delta w ! c) r = Some d" using Cons.prems by auto
  have "w_delta (fold_new_row sc c v r w) = w_delta w"
    by (simp add: fold_new_app[OF d] drop_entry_def shift_sides_eq)
  with Cons show ?case
    by (cases "w_row_dead w ! r") (simp_all add: fold_new_app[OF d] d leave_rows_Cons drop_entry_def shift_sides_eq)
qed (simp add: leave_rows_def fold_sides_def fold_count_def)

text \<open>The entries of a column after fill-in.\<close>

definition column_now :: "'a::plus model \<Rightarrow> ('a, 'z) workspace_scheme \<Rightarrow> nat \<Rightarrow> (nat \<times> 'a) list" where
  "column_now m w c = map (\<lambda>(r, a). (r, case (w_delta w ! c) r of None \<Rightarrow> a | Some d \<Rightarrow> a + d)) (column (matrix m) c) @
     map (\<lambda>r. (r, the ((w_delta w ! c) r))) (w_new_rows w ! c)"

lemma fold_fixed_column_eq:
  fixes w :: "('a::{plus,minus,times}, 'z) workspace_scheme"
  assumes "\<forall>r \<in> set (w_new_rows w ! c). \<exists>d. (w_delta w ! c) r = Some d"
  shows "fold_fixed_column sc m c v w =
    (leave_rows sc (map (\<lambda>(r, a). (r, a * v)) (column_now m w c)) w)\<lparr>w_col_dead := (w_col_dead w)[c := True]\<rparr>"
proof -
  define old where "old = map (\<lambda>(r, a). (r, a * v)) (map (\<lambda>(r, a). (r, case (w_delta w ! c) r of None \<Rightarrow> a | Some d \<Rightarrow> a + d)) (column (matrix m) c))"
  define new where "new = map (\<lambda>(r, a). (r, a * v)) (map (\<lambda>r. (r, the ((w_delta w ! c) r))) (w_new_rows w ! c))"
  have 1: "fold (fold_old_row sc c v) (column (matrix m) c) w = leave_rows sc old w"
    by (simp add: fold_old_rows_eq old_def comp_def split_def)
  have "fold (fold_new_row sc c v) (w_new_rows w ! c) (leave_rows sc old w) = leave_rows sc new (leave_rows sc old w)"
    using assms by (subst fold_new_rows_eq) (simp_all add: new_def comp_def leave_rows_reads)
  then have 2: "fold (fold_new_row sc c v) (w_new_rows (leave_rows sc old w) ! c) (leave_rows sc old w) = leave_rows sc (old @ new) w"
    by (simp add: leave_rows_reads leave_rows_append)
  have 3: "map (\<lambda>(r, a). (r, a * v)) (column_now m w c) = old @ new" by (simp add: column_now_def old_def new_def)
  show ?thesis unfolding fold_fixed_column_def Let_def 1 2 3 by (simp add: leave_rows_def)
qed

text \<open>The fill-in of a substitution: the live rows of the eliminated column other than the equation.\<close>

definition filled :: "'a::{abs,ord} presolve_tolerances \<Rightarrow> nat \<Rightarrow> ('a, 'z) workspace_scheme \<Rightarrow> (nat \<times> 'a) list \<Rightarrow> (nat \<times> 'a) list" where
  "filled pt i w = filter (\<lambda>(r, other). r \<noteq> i \<and> \<not> w_row_dead w ! r \<and> \<not> \<bar>other\<bar> < pt_zero pt)"

definition lacks :: "nat \<Rightarrow> (nat \<times> 'a) list list \<Rightarrow> nat \<Rightarrow> bool" where
  "lacks k rows r \<longleftrightarrow> list_all (\<lambda>e. fst e \<noteq> k) (rows ! r)"

definition recount :: "bool \<Rightarrow> int \<Rightarrow> int" where
  "recount fresh c = (if fresh then c + 1 else c) - 1"

lemma recount_eq: "recount True = (\<lambda>c. c)" "recount False = (\<lambda>c. c - 1)"
  by (simp_all add: recount_def fun_eq_iff)

definition fill_rows ::
    "'a::{zero,plus,minus,uminus,times,divide} scalar \<Rightarrow> 'a \<Rightarrow> nat \<Rightarrow> 'a \<Rightarrow> 'a \<Rightarrow> (nat \<times> 'a) list \<Rightarrow>
     ('a, 'z) workspace_scheme \<Rightarrow> ('a, 'z) workspace_scheme" where
  "fill_rows sc a k b rhs es w = w\<lparr>
     w_row_lower := fold (\<lambda>(r, other). modify_at r (shift_row sc (other div a * rhs))) es (w_row_lower w),
     w_row_upper := fold (\<lambda>(r, other). modify_at r (shift_row sc (other div a * rhs))) es (w_row_upper w),
     w_rows := fold (\<lambda>(r, other). modify_at r (add_coefficient k (- (other div a) * b))) es (w_rows w),
     w_delta := fold (\<lambda>(r, other). modify_at k (add_delta r (- (other div a) * b))) es (w_delta w),
     w_new_rows := modify_at k (\<lambda>rs. rs @ filter (lacks k (w_rows w)) (map fst es)) (w_new_rows w),
     w_row_count := fold (\<lambda>(r, other). modify_at r (recount (lacks k (w_rows w) r))) es (w_row_count w),
     w_col_count := modify_at k (\<lambda>c. c + int (length (filter (lacks k (w_rows w)) (map fst es)))) (w_col_count w)\<rparr>"

lemma modify_at_twice: "modify_at k f (modify_at k g xs) = modify_at k (\<lambda>x. f (g x)) xs"
  by (cases "k < length xs") (simp_all add: modify_at_def list_update_beyond)

lemma modify_at_id: "modify_at k (\<lambda>x. x) xs = xs"
  by (simp add: modify_at_def)

lemma lacks_other: "r \<noteq> r' \<Longrightarrow> lacks k (modify_at r' f rows) r = lacks k rows r"
  by (simp add: lacks_def modify_at_def)

lemma fill_rows_Cons:
  assumes "r \<notin> fst ` set es"
  shows "fill_rows sc a k b rhs ((r, other) # es) w = fill_rows sc a k b rhs es (fill_rows sc a k b rhs [(r, other)] w)"
proof -
  have l: "lacks k (modify_at r f (w_rows w)) r' = lacks k (w_rows w) r'" if "r' \<in> fst ` set es" for f r'
    using that assms by (intro lacks_other) auto
  have f: "filter (lacks k (modify_at r f (w_rows w))) (map fst es) = filter (lacks k (w_rows w)) (map fst es)" for f
    by (rule filter_cong) (use l in auto)
  have g: "fold (\<lambda>(r', other). modify_at r' (recount (lacks k (modify_at r f (w_rows w)) r'))) es cs =
      fold (\<lambda>(r', other). modify_at r' (recount (lacks k (w_rows w) r'))) es cs" for f cs
    by (rule fold_cong) (use l[OF image_eqI] in auto)
  have h: "filter (lacks k (modify_at r f (w_rows w)) \<circ> fst) es = filter (lacks k (w_rows w) \<circ> fst) es" for f
    by (rule filter_cong) (use l in auto)
  show ?thesis by (simp add: fill_rows_def f g h modify_at_twice add.assoc)
qed

lemma fill_rows_Nil: "fill_rows sc a k b rhs [] w = w"
  by (simp add: fill_rows_def modify_at_id)

lemma fill_in_app:
  "fill_in sc pt i a k b rhs (r, other) w =
    (if r = i \<or> w_row_dead w ! r \<or> \<bar>other\<bar> < pt_zero pt then w else fill_rows sc a k b rhs [(r, other)] w)"
  by (cases "list_all (\<lambda>e. fst e \<noteq> k) (w_rows w ! r)")
     (simp_all add: fill_in_def fill_rows_def Let_def shift_sides_eq drop_entry_def lacks_def modify_at_twice recount_eq modify_at_id)

lemma fill_in_fold:
  fixes w :: "('a::{zero,plus,minus,uminus,times,divide,abs,ord}, 'z) workspace_scheme"
  assumes "distinct (map fst es)"
  shows "fold (fill_in sc pt i a k b rhs) es w = fill_rows sc a k b rhs (filled pt i w es) w"
  using assms
proof (induction es arbitrary: w)
  case (Cons e es)
  obtain r other where e: "e = (r, other)" by (cases e)
  have IH: "fold (fill_in sc pt i a k b rhs) es v = fill_rows sc a k b rhs (filled pt i v es) v" for v :: "('a, 'z) workspace_scheme"
    using Cons by simp
  show ?case
  proof (cases "r = i \<or> w_row_dead w ! r \<or> \<bar>other\<bar> < pt_zero pt")
    case True
    moreover from this have "filled pt i w (e # es) = filled pt i w es" by (auto simp: e filled_def)
    ultimately show ?thesis by (simp add: e fill_in_app IH)
  next
    case False
    let ?w = "fill_rows sc a k b rhs [(r, other)] w"
    have "r \<notin> fst ` set (filled pt i w es)" using Cons.prems by (auto simp: e filled_def image_iff)
    note cons = fill_rows_Cons[OF this, of sc a k b rhs other w]
    have "filled pt i ?w es = filled pt i w es" by (simp add: filled_def fill_rows_def)
    moreover have "filled pt i w (e # es) = (r, other) # filled pt i w es" using False by (simp add: e filled_def)
    ultimately show ?thesis using False by (simp add: e fill_in_app IH cons)
  qed
qed (simp add: filled_def fill_rows_Nil)

end
