(* ===== verification/PresolveSound.thy ===== *)
theory PresolveSound
  imports PresolveBooks
begin

text \<open>
  The code of presolve refines the reductions on problems: the invariant of the workspace, the problem a
  workspace stands for, and for every reduction of the code the function on problems it implements.
\<close>

section \<open>The invariant\<close>

text \<open>Bounds that are not on the wrong infinity.\<close>

definition sides_ok :: "xnum \<Rightarrow> xnum \<Rightarrow> bool" where
  "sides_ok l u \<longleftrightarrow> l \<noteq> XNaN \<and> u \<noteq> XNaN \<and> l \<noteq> XPInf \<and> u \<noteq> XMInf"

definition model_ok :: "rat \<Rightarrow> xnum model \<Rightarrow> bool" where
  "model_ok z m \<longleftrightarrow> 0 < z \<and> csc_ok (matrix m) \<and> nrows (matrix m) = num_rows m \<and> ncols (matrix m) = num_cols m \<and>
     length (col_lower m) = num_cols m \<and> length (col_upper m) = num_cols m \<and> length (row_upper m) = num_rows m \<and>
     (\<forall>j < num_cols m. xfinite (col_cost m ! j) \<and> sides_ok (col_lower m ! j) (col_upper m ! j) \<and>
        (\<forall>e \<in> set (column (matrix m) j). xfinite (snd e) \<and> z \<le> \<bar>xval (snd e)\<bar>)) \<and>
     (\<forall>i < num_rows m. sides_ok (row_lower m ! i) (row_upper m ! i) \<and> row_lower m ! i \<le> row_upper m ! i)"

lemma model_column:
  assumes "model_ok z m" "j < num_cols m"
  shows "distinct (map fst (column (matrix m) j))" "(r, a) \<in> set (column (matrix m) j) \<Longrightarrow> r < num_rows m \<and> xfinite a \<and> z \<le> \<bar>xval a\<bar>"
proof -
  show "distinct (map fst (column (matrix m) j))"
    using assms csc_sorted[of "matrix m" j] by (auto simp: model_ok_def intro: sorted_keys_distinct)
  assume e: "(r, a) \<in> set (column (matrix m) j)"
  have "\<forall>e \<in> set (column (matrix m) j). xfinite (snd e) \<and> z \<le> \<bar>xval (snd e)\<bar>" using assms by (simp add: model_ok_def)
  from this[rule_format, OF e] show "r < num_rows m \<and> xfinite a \<and> z \<le> \<bar>xval a\<bar>"
    using assms csc_row_bound[OF _ _ e] by (simp add: model_ok_def)
qed

definition sized :: "'a model \<Rightarrow> ('a, 'z) workspace_scheme \<Rightarrow> bool" where
  "sized m s \<longleftrightarrow> length (w_col_lower s) = num_cols m \<and> length (w_col_upper s) = num_cols m \<and>
     length (w_row_lower s) = num_rows m \<and> length (w_row_upper s) = num_rows m \<and>
     length (w_col_dead s) = num_cols m \<and> length (w_row_dead s) = num_rows m \<and> length (w_rows s) = num_rows m \<and>
     length (w_col_count s) = num_cols m \<and> length (w_row_count s) = num_rows m \<and> length (w_cost s) = num_cols m \<and>
     length (w_doubleton s) = num_cols m \<and> length (w_singleton s) = num_cols m \<and> length (w_delta s) = num_cols m \<and>
     length (w_new_rows s) = num_cols m"

definition live_col :: "'a model \<Rightarrow> ('a, 'z) workspace_scheme \<Rightarrow> nat \<Rightarrow> bool" where
  "live_col m s j \<longleftrightarrow> j < num_cols m \<and> \<not> w_col_dead s ! j"

definition live_row :: "'a model \<Rightarrow> ('a, 'z) workspace_scheme \<Rightarrow> nat \<Rightarrow> bool" where
  "live_row m s i \<longleftrightarrow> i < num_rows m \<and> \<not> w_row_dead s ! i"

definition rows_of :: "'a model \<Rightarrow> ('a, 'z) workspace_scheme \<Rightarrow> nat \<Rightarrow> nat set" where
  "rows_of m s j = {i. live_row m s i \<and> j \<in> fst ` set (w_rows s ! i)}"

text \<open>The three views of a coefficient agree, and the counts are not too small.\<close>

definition entries_ok :: "xnum model \<Rightarrow> (xnum, 'z) workspace_scheme \<Rightarrow> bool" where
  "entries_ok m s \<longleftrightarrow> (\<forall>i < num_rows m. distinct (map fst (w_rows s ! i)) \<and>
     (\<forall>e \<in> set (w_rows s ! i). fst e < num_cols m \<and> xfinite (snd e)))"

definition fill_ok :: "xnum model \<Rightarrow> (xnum, 'z) workspace_scheme \<Rightarrow> bool" where
  "fill_ok m s \<longleftrightarrow> (\<forall>j < num_cols m. (\<forall>i d. (w_delta s ! j) i = Some d \<longrightarrow> xfinite d) \<and>
     (\<forall>i d. (w_delta s ! j) i = Some d \<longrightarrow> i \<in> fst ` set (column (matrix m) j) \<or> i \<in> set (w_new_rows s ! j)) \<and>
     distinct (w_new_rows s ! j) \<and>
     (\<forall>i \<in> set (w_new_rows s ! j). i < num_rows m \<and> i \<notin> fst ` set (column (matrix m) j) \<and> (\<exists>d. (w_delta s ! j) i = Some d)) \<and>
     (\<not> w_doubleton s ! j \<longrightarrow> w_delta s ! j = Map.empty \<and> w_new_rows s ! j = []))"

definition views_ok :: "xnum model \<Rightarrow> (xnum, 'z) workspace_scheme \<Rightarrow> bool" where
  "views_ok m s \<longleftrightarrow> (\<forall>i j. live_row m s i \<longrightarrow> live_col m s j \<longrightarrow> map_of (w_rows s ! i) j = map_of (column_now m s j) i)"

definition counts_ok :: "xnum model \<Rightarrow> (xnum, 'z) workspace_scheme \<Rightarrow> bool" where
  "counts_ok m s \<longleftrightarrow> (\<forall>i. live_row m s i \<longrightarrow> int (length (live_entries s i)) \<le> w_row_count s ! i) \<and>
     (\<forall>j. live_col m s j \<longrightarrow> int (card (rows_of m s j)) \<le> w_col_count s ! j)"

definition books :: "xnum model \<Rightarrow> (xnum, 'z) workspace_scheme \<Rightarrow> bool" where
  "books m s \<longleftrightarrow> sized m s \<and> entries_ok m s \<and> fill_ok m s \<and> views_ok m s \<and> counts_ok m s"

definition numbers :: "xnum model \<Rightarrow> (xnum, 'z) workspace_scheme \<Rightarrow> bool" where
  "numbers m s \<longleftrightarrow> xfinite (w_offset s) \<and>
     (\<forall>j < num_cols m. sides_ok (w_col_lower s ! j) (w_col_upper s ! j) \<and> xfinite (w_cost s ! j) \<and>
        (w_col_dead s ! j \<longrightarrow> \<not> w_quadratic s ! j)) \<and>
     (\<forall>i. live_row m s i \<longrightarrow> sides_ok (w_row_lower s ! i) (w_row_upper s ! i) \<and> w_row_lower s ! i \<le> w_row_upper s ! i)"

definition records_ok :: "xnum model \<Rightarrow> xnum presolving \<Rightarrow> bool" where
  "records_ok m s \<longleftrightarrow> (\<forall>r \<in> set (records s). rd_kind r \<in> {kFixedColumn, kEmptyColumn} \<longrightarrow>
     rd_index r < num_cols m \<and> w_col_dead s ! rd_index r \<and> xfinite (rd_value r))"

definition tidy :: "xnum model \<Rightarrow> xnum presolving \<Rightarrow> bool" where
  "tidy m s \<longleftrightarrow> books m s \<and> numbers m s \<and> records_ok m s"

section \<open>The problem of a workspace\<close>

definition coef :: "(xnum, 'z) workspace_scheme \<Rightarrow> nat \<Rightarrow> nat \<Rightarrow> rat" where
  "coef s i j = (case map_of (w_rows s ! i) j of None \<Rightarrow> 0 | Some a \<Rightarrow> xval a)"

definition removed_cost :: "xnum list \<Rightarrow> xnum reduction \<Rightarrow> rat" where
  "removed_cost cost r = (if rd_kind r \<in> {kFixedColumn, kEmptyColumn} then xval (cost ! rd_index r) * xval (rd_value r) else 0)"

definition problem_of :: "xnum model \<Rightarrow> xnum presolving \<Rightarrow> problem" where
  "problem_of m s = \<lparr>p_cols = {j. live_col m s j}, p_rows = {i. live_row m s i},
     p_lower = (!) (w_col_lower s), p_upper = (!) (w_col_upper s),
     p_row_lower = (!) (w_row_lower s), p_row_upper = (!) (w_row_upper s), p_coef = coef s,
     p_cost = (\<lambda>j. xval (w_cost s ! j)), p_const = xval (w_offset s) + (\<Sum>r\<leftarrow>records s. removed_cost (w_cost s) r)\<rparr>"

definition integers_of :: "'a model \<Rightarrow> nat set" where
  "integers_of m = {j. j < num_cols m \<and> col_type m ! j = kInteger}"

definition exact_pt :: "rat \<Rightarrow> xnum presolve_tolerances" where
  "exact_pt z = \<lparr>pt_feasibility = X 0, pt_integrality = X 0, pt_zero = X z\<rparr>"

lemma finite_cols [simp]: "finite (p_cols (problem_of m s))"
  by (rule finite_subset[of _ "{..<num_cols m}"]) (auto simp: problem_of_def live_col_def)

lemma problem_fields:
  "p_cols (problem_of m s) = {j. live_col m s j}" "p_rows (problem_of m s) = {i. live_row m s i}"
  "p_coef (problem_of m s) = coef s" "p_lower (problem_of m s) = (!) (w_col_lower s)"
  "p_upper (problem_of m s) = (!) (w_col_upper s)" "p_row_lower (problem_of m s) = (!) (w_row_lower s)"
  "p_row_upper (problem_of m s) = (!) (w_row_upper s)" "p_cost (problem_of m s) = (\<lambda>j. xval (w_cost s ! j))"
  by (simp_all add: problem_of_def)

section \<open>Rows that die\<close>

lemma fold_counts_kill:
  assumes "distinct (map fst es)" "j < length cs"
  shows "fold (\<lambda>(j, a) cs. if dead j then cs else modify_at j (\<lambda>c. c - 1) cs) es cs ! j =
    (if j \<in> fst ` set es \<and> \<not> dead j then cs ! j - 1 else cs ! (j :: nat) :: int)"
proof (cases "map_of es j")
  case None
  then have "j \<notin> fst ` set es" by (simp add: map_of_eq_None_iff)
  then show ?thesis using nth_fold_modify[OF assms, of dead "\<lambda>a c. c - 1"] None by simp
next
  case (Some a)
  then have "j \<in> fst ` set es" by (force dest: map_of_SomeD)
  then show ?thesis using nth_fold_modify[OF assms, of dead "\<lambda>a c. c - 1"] Some by simp
qed

lemma kill_row_ok:
  assumes b: "books m s" and r: "live_row m s r"
  shows "books m (kill_row r s)"
proof -
  let ?t = "kill_row r s"
  have sz: "sized m s" using b by (simp add: books_def)
  have len: "length (w_row_dead s) = num_rows m" "length (w_col_count s) = num_cols m" using sz by (simp_all add: sized_def)
  have rr: "r < num_rows m" "\<not> w_row_dead s ! r" using r by (simp_all add: live_row_def)
  have t: "?t = s\<lparr>w_row_dead := (w_row_dead s)[r := True],
      w_col_count := fold (\<lambda>(j, a) cs. if w_col_dead s ! j then cs else modify_at j (\<lambda>c. c - 1) cs) (w_rows s ! r) (w_col_count s)\<rparr>"
    using rr by (simp add: kill_row_eq)
  have live: "live_row m ?t i \<longleftrightarrow> live_row m s i \<and> i \<noteq> r" for i
    using len rr by (auto simp: live_row_def t nth_list_update)
  have cols: "live_col m ?t = live_col m s" by (simp add: live_col_def fun_eq_iff t)
  have now: "column_now m ?t = column_now m s" "live_entries ?t = live_entries s"
    by (simp_all add: column_now_def live_entries_def fun_eq_iff t)
  have "sized m ?t" using sz by (simp add: sized_def t)
  moreover have "entries_ok m ?t" "fill_ok m ?t" using b by (simp_all add: books_def entries_ok_def fill_ok_def t)
  moreover have "views_ok m ?t" using b unfolding books_def views_ok_def live cols now by (simp add: t)
  moreover have "counts_ok m ?t"
  proof -
    have c: "int (card (rows_of m ?t j)) \<le> w_col_count ?t ! j" if j: "live_col m s j" for j
    proof -
      have old: "int (card (rows_of m s j)) \<le> w_col_count s ! j" using b j by (simp add: books_def counts_ok_def)
      have rows: "rows_of m ?t j = rows_of m s j - {r}" unfolding rows_of_def live by (auto simp: t)
      have fin: "finite (rows_of m s j)"
        by (rule finite_subset[of _ "{..<num_rows m}"]) (auto simp: rows_of_def live_row_def)
      have d: "distinct (map fst (w_rows s ! r))" using b rr by (simp add: books_def entries_ok_def)
      have jj: "j < length (w_col_count s)" "\<not> w_col_dead s ! j" using j len by (simp_all add: live_col_def)
      have "w_col_count ?t ! j = (if j \<in> fst ` set (w_rows s ! r) then w_col_count s ! j - 1 else w_col_count s ! j)"
        using fold_counts_kill[OF d jj(1), of "(!) (w_col_dead s)"] jj(2) by (simp add: t)
      moreover have "r \<in> rows_of m s j \<longleftrightarrow> j \<in> fst ` set (w_rows s ! r)" using r by (simp add: rows_of_def)
      moreover have "r \<in> rows_of m s j \<Longrightarrow> int (card (rows_of m s j - {r})) = int (card (rows_of m s j)) - 1"
        using fin card_Suc_Diff1[of "rows_of m s j" r] by simp
      ultimately show ?thesis using old unfolding rows by (cases "r \<in> rows_of m s j") simp_all
    qed
    show ?thesis using b c unfolding books_def counts_ok_def live cols now by (simp add: t)
  qed
  ultimately show ?thesis by (simp add: books_def)
qed

lemma kill_row_fields:
  "w_col_lower (kill_row r s) = w_col_lower s" "w_col_upper (kill_row r s) = w_col_upper s"
  "w_row_lower (kill_row r s) = w_row_lower s" "w_row_upper (kill_row r s) = w_row_upper s"
  "w_col_dead (kill_row r s) = w_col_dead s" "w_rows (kill_row r s) = w_rows s" "w_cost (kill_row r s) = w_cost s"
  "w_offset (kill_row r s) = w_offset s" "w_quadratic (kill_row r s) = w_quadratic s"
  "w_row_dead (kill_row r s) = (if w_row_dead s ! r then w_row_dead s else (w_row_dead s)[r := True])"
  by (simp_all add: kill_row_eq)

lemma kill_row_more:
  "records (kill_row r s) = records s" "proved_infeasible (kill_row r s) = proved_infeasible s"
  by (simp_all add: kill_row_eq)

lemma kill_row_problem:
  assumes "sized m s" "live_row m s r"
  shows "problem_of m (kill_row r s) = drop_rows r (problem_of m s)"
  using assms
  by (auto simp: problem_of_def drop_rows_def kill_row_fields kill_row_more live_col_def live_row_def coef_def[abs_def] sized_def
      nth_list_update)

lemma kill_row_tidy:
  assumes "tidy m s" "live_row m s r"
  shows "tidy m (kill_row r s)"
proof -
  have "live_row m (kill_row r s) i \<Longrightarrow> live_row m s i" for i
    by (cases "i = r") (auto simp: live_row_def kill_row_fields split: if_splits)
  then show ?thesis
    using assms kill_row_ok[of m s r] by (simp add: tidy_def numbers_def records_ok_def kill_row_fields kill_row_more)
qed

section \<open>Columns that die\<close>

lemma books_other:
  assumes "sized m t" "w_rows t = w_rows s" "w_delta t = w_delta s" "w_new_rows t = w_new_rows s"
    "w_col_dead t = w_col_dead s" "w_row_dead t = w_row_dead s" "w_row_count t = w_row_count s"
    "w_col_count t = w_col_count s" "w_doubleton t = w_doubleton s" "books m s"
  shows "books m t"
proof -
  have eqs: "live_row m t = live_row m s" "live_col m t = live_col m s" "column_now m t = column_now m s"
    "live_entries t = live_entries s"
    using assms by (simp_all add: fun_eq_iff live_row_def live_col_def column_now_def live_entries_def)
  then have "rows_of m t = rows_of m s" using assms by (simp add: rows_of_def fun_eq_iff)
  then show ?thesis
    using assms eqs by (simp add: books_def entries_ok_def fill_ok_def views_ok_def counts_ok_def)
qed

lemma length_without_key:
  "distinct (map fst es) \<Longrightarrow> int (length (filter (\<lambda>(j, a). j \<noteq> c \<and> P j) es)) =
    int (length (filter (\<lambda>(j, a). P j) es)) - (if c \<in> fst ` set es \<and> P c then 1 else 0)"
proof (induction es)
  case (Cons e es)
  obtain k b where e: "e = (k, b)" by (cases e)
  have IH: "int (length (filter (\<lambda>(j, a). j \<noteq> c \<and> P j) es)) =
      int (length (filter (\<lambda>(j, a). P j) es)) - (if c \<in> fst ` set es \<and> P c then 1 else 0)"
    using Cons by simp
  show ?case
  proof (cases "k = c")
    case True
    then have "c \<notin> fst ` set es" using Cons.prems by (simp add: e)
    then show ?thesis using IH True by (simp add: e)
  next
    case False
    then show ?thesis using IH by (cases "c \<in> fst ` set es"; cases "P c"; cases "P k") (simp_all add: e)
  qed
qed simp

lemma length_filter_mono: "(\<And>x. P x \<Longrightarrow> Q x) \<Longrightarrow> length (filter P xs) \<le> length (filter Q xs)"
  by (induction xs) auto

lemma dead_cols:
  assumes "sized m s" "j < num_cols m"
  shows "live_col m (s\<lparr>w_col_dead := (w_col_dead s)[j := True]\<rparr>) k \<longleftrightarrow> live_col m s k \<and> k \<noteq> j"
  using assms by (auto simp: live_col_def sized_def nth_list_update)

lemma books_fill: "books m s \<Longrightarrow> fill_ok m s"
  by (simp add: books_def)

lemma column_now_fill:
  assumes "model_ok z m" "fill_ok m s" "j < num_cols m"
  shows "distinct (map fst (column_now m s j))"
    "map_of (column_now m s j) i = (case map_of (column (matrix m) j) i of
       Some a \<Rightarrow> Some (case (w_delta s ! j) i of None \<Rightarrow> a | Some d \<Rightarrow> a + d)
     | None \<Rightarrow> if i \<in> set (w_new_rows s ! j) then (w_delta s ! j) i else None)"
proof -
  let ?old = "map (\<lambda>(r, a). (r, case (w_delta s ! j) r of None \<Rightarrow> a | Some d \<Rightarrow> a + d)) (column (matrix m) j)"
  let ?new = "map (\<lambda>r. (r, the ((w_delta s ! j) r))) (w_new_rows s ! j)"
  have f: "distinct (w_new_rows s ! j)"
    "\<forall>i \<in> set (w_new_rows s ! j). i \<notin> fst ` set (column (matrix m) j) \<and> (\<exists>d. (w_delta s ! j) i = Some d)"
    using assms(2,3) by (auto simp: fill_ok_def)
  have k: "map fst ?old = map fst (column (matrix m) j)" "map fst ?new = w_new_rows s ! j"
    by (simp_all add: comp_def split_beta)
  show "distinct (map fst (column_now m s j))"
    unfolding column_now_def map_append k using f model_column(1)[OF assms(1,3)] by auto
  have o: "map_of ?old i = (case map_of (column (matrix m) j) i of
       Some a \<Rightarrow> Some (case (w_delta s ! j) i of None \<Rightarrow> a | Some d \<Rightarrow> a + d) | None \<Rightarrow> None)"
  proof -
    have "map_of (map (\<lambda>(r, a). (r, g r a)) es) i = map_option (g i) (map_of es i)" for g :: "nat \<Rightarrow> xnum \<Rightarrow> xnum" and es
      by (induction es) auto
    from this[of "\<lambda>r a. case (w_delta s ! j) r of None \<Rightarrow> a | Some d \<Rightarrow> a + d"] show ?thesis by (simp split: option.split)
  qed
  have n: "map_of ?new i = (if i \<in> set (w_new_rows s ! j) then (w_delta s ! j) i else None)"
  proof -
    have "map_of (map (\<lambda>r. (r, g r)) rs) i = (if i \<in> set rs then Some (g i) else None)" for g :: "nat \<Rightarrow> xnum" and rs
      by (induction rs) auto
    from this[of "\<lambda>r. the ((w_delta s ! j) r)" "w_new_rows s ! j"] f(2) show ?thesis by (auto split: if_splits)
  qed
  have "i \<in> set (w_new_rows s ! j) \<Longrightarrow> map_of (column (matrix m) j) i = None" using f(2) by (simp add: map_of_eq_None_iff)
  then show "map_of (column_now m s j) i = (case map_of (column (matrix m) j) i of
       Some a \<Rightarrow> Some (case (w_delta s ! j) i of None \<Rightarrow> a | Some d \<Rightarrow> a + d)
     | None \<Rightarrow> if i \<in> set (w_new_rows s ! j) then (w_delta s ! j) i else None)"
    unfolding column_now_def map_of_append map_add_def o n by (auto split: option.splits)
qed

lemmas column_now_ok = column_now_fill[OF _ books_fill]

lemma dead_col_ok:
  assumes "books m s" "j < num_cols m"
  shows "books m (s\<lparr>w_col_dead := (w_col_dead s)[j := True]\<rparr>)"
proof -
  let ?t = "s\<lparr>w_col_dead := (w_col_dead s)[j := True]\<rparr>"
  have sz: "sized m s" using assms by (simp add: books_def)
  have cols: "live_col m ?t k \<longleftrightarrow> live_col m s k \<and> k \<noteq> j" for k using dead_cols[OF sz assms(2)] .
  have rows: "live_row m ?t = live_row m s" "column_now m ?t = column_now m s" "rows_of m ?t = rows_of m s"
    by (simp_all add: fun_eq_iff live_row_def column_now_def rows_of_def)
  have dead: "w_col_dead ?t ! k = (if k = j then True else w_col_dead s ! k)" for k
    using sz assms(2) by (simp add: sized_def nth_list_update)
  have "length (filter (\<lambda>(k, a). \<not> w_col_dead ?t ! k) es) \<le> length (filter (\<lambda>(k, a). \<not> w_col_dead s ! k) es)"
    for es :: "(nat \<times> xnum) list"
    unfolding dead by (rule length_filter_mono) (auto split: if_splits)
  then have "length (live_entries ?t i) \<le> length (live_entries s i)" for i by (simp add: live_entries_def)
  then have live: "int (length (live_entries ?t i)) \<le> int (length (live_entries s i))" for i by simp
  have "counts_ok m ?t"
    unfolding counts_ok_def cols rows
  proof (intro conjI allI impI)
    fix i assume "live_row m s i"
    then have "int (length (live_entries s i)) \<le> w_row_count s ! i" using assms by (simp add: books_def counts_ok_def)
    then show "int (length (live_entries ?t i)) \<le> w_row_count ?t ! i" using order_trans[OF live] by simp
  next
    fix k assume "live_col m s k \<and> k \<noteq> j"
    then show "int (card (rows_of m s k)) \<le> w_col_count ?t ! k" using assms by (simp add: books_def counts_ok_def)
  qed
  moreover have "sized m ?t" using sz by (simp add: sized_def)
  ultimately show ?thesis
    using assms unfolding books_def views_ok_def cols rows by (simp add: entries_ok_def fill_ok_def)
qed

text \<open>A column leaves every live row it is in, shifting the sides of each by an amount of its own.\<close>

definition left_col :: "xnum scalar \<Rightarrow> xnum model \<Rightarrow> nat \<Rightarrow> (xnum \<Rightarrow> xnum) \<Rightarrow> (xnum, 'z) workspace_scheme \<Rightarrow> (xnum, 'z) workspace_scheme" where
  "left_col sc m c f s = (leave_rows sc (map (\<lambda>(r, a). (r, f a)) (column_now m s c)) s)\<lparr>w_col_dead := (w_col_dead s)[c := True]\<rparr>"

lemma map_of_second: "map_of (map (\<lambda>(r, a). (r, f a)) es) i = map_option f (map_of es i)"
  by (induction es) auto

lemma leave_rows_nth:
  assumes "distinct (map fst es)" "i < length (w_row_lower s)" "i < length (w_row_upper s)" "i < length (w_row_count s)"
  shows "w_row_lower (leave_rows sc es s) ! i = (case map_of es i of None \<Rightarrow> w_row_lower s ! i
      | Some d \<Rightarrow> if w_row_dead s ! i then w_row_lower s ! i else shift_row sc d (w_row_lower s ! i))"
    "w_row_upper (leave_rows sc es s) ! i = (case map_of es i of None \<Rightarrow> w_row_upper s ! i
      | Some d \<Rightarrow> if w_row_dead s ! i then w_row_upper s ! i else shift_row sc d (w_row_upper s ! i))"
    "w_row_count (leave_rows sc es s) ! i = (case map_of es i of None \<Rightarrow> w_row_count s ! i
      | Some d \<Rightarrow> if w_row_dead s ! i then w_row_count s ! i else w_row_count s ! i - 1)"
  using nth_fold_modify[OF assms(1,2), of "(!) (w_row_dead s)" "shift_row sc"]
    nth_fold_modify[OF assms(1,3), of "(!) (w_row_dead s)" "shift_row sc"]
    nth_fold_modify[OF assms(1,4), of "(!) (w_row_dead s)" "\<lambda>d c. c - 1"]
  by (simp_all add: leave_rows_def fold_sides_def fold_count_def)

lemma live_entries_without:
  assumes "sized m s" "c < num_cols m" "\<not> w_col_dead s ! c" "distinct (map fst (w_rows s ! i))" "w_rows t = w_rows s"
    "w_col_dead t = (w_col_dead s)[c := True]"
  shows "int (length (live_entries t i)) = int (length (live_entries s i)) - (if c \<in> fst ` set (w_rows s ! i) then 1 else 0)"
proof -
  have "(\<not> w_col_dead t ! k) = (k \<noteq> c \<and> \<not> w_col_dead s ! k)" for k
    using assms(1,2) by (simp add: assms(6) sized_def nth_list_update)
  then show ?thesis
    using length_without_key[OF assms(4), of c "\<lambda>k. \<not> w_col_dead s ! k"] assms(3) by (simp add: live_entries_def assms(5))
qed

lemma left_col_ok:
  assumes ok: "model_ok z m" and b: "books m s" and c: "live_col m s c"
  shows "books m (left_col sc m c f s)"
    "live_row m s i \<Longrightarrow> w_row_lower (left_col sc m c f s) ! i =
      (case map_of (w_rows s ! i) c of None \<Rightarrow> w_row_lower s ! i | Some a \<Rightarrow> shift_row sc (f a) (w_row_lower s ! i))"
    "live_row m s i \<Longrightarrow> w_row_upper (left_col sc m c f s) ! i =
      (case map_of (w_rows s ! i) c of None \<Rightarrow> w_row_upper s ! i | Some a \<Rightarrow> shift_row sc (f a) (w_row_upper s ! i))"
proof -
  let ?es = "map (\<lambda>(r, a). (r, f a)) (column_now m s c)" and ?t = "left_col sc m c f s"
  have sz: "sized m s" using b by (simp add: books_def)
  have cc: "c < num_cols m" "\<not> w_col_dead s ! c" using c by (simp_all add: live_col_def)
  have "distinct (map fst ?es)" using column_now_ok(1)[OF ok b cc(1)] by (simp add: comp_def split_beta)
  note nth = leave_rows_nth[OF this, of _ s sc]
  have fields: "w_rows ?t = w_rows s" "w_delta ?t = w_delta s" "w_new_rows ?t = w_new_rows s" "w_row_dead ?t = w_row_dead s"
    "w_col_count ?t = w_col_count s" "w_doubleton ?t = w_doubleton s" "w_col_dead ?t = (w_col_dead s)[c := True]"
    "w_row_lower ?t = w_row_lower (leave_rows sc ?es s)" "w_row_upper ?t = w_row_upper (leave_rows sc ?es s)"
    "w_row_count ?t = w_row_count (leave_rows sc ?es s)"
    by (simp_all add: left_col_def leave_rows_def)
  have view: "map_of ?es i = map_option f (map_of (w_rows s ! i) c)" if "live_row m s i" for i
    using b that c by (simp add: books_def views_ok_def map_of_second)
  have at: "w_row_lower ?t ! i = (case map_of (w_rows s ! i) c of None \<Rightarrow> w_row_lower s ! i | Some a \<Rightarrow> shift_row sc (f a) (w_row_lower s ! i))"
    "w_row_upper ?t ! i = (case map_of (w_rows s ! i) c of None \<Rightarrow> w_row_upper s ! i | Some a \<Rightarrow> shift_row sc (f a) (w_row_upper s ! i))"
    "w_row_count ?t ! i = w_row_count s ! i - (if c \<in> fst ` set (w_rows s ! i) then 1 else 0)"
    if i: "live_row m s i" for i
  proof -
    have ii: "i < length (w_row_lower s)" "i < length (w_row_upper s)" "i < length (w_row_count s)" "\<not> w_row_dead s ! i"
      using i sz by (simp_all add: live_row_def sized_def)
    show "w_row_lower ?t ! i = (case map_of (w_rows s ! i) c of None \<Rightarrow> w_row_lower s ! i | Some a \<Rightarrow> shift_row sc (f a) (w_row_lower s ! i))"
      "w_row_upper ?t ! i = (case map_of (w_rows s ! i) c of None \<Rightarrow> w_row_upper s ! i | Some a \<Rightarrow> shift_row sc (f a) (w_row_upper s ! i))"
      using nth(1,2)[OF ii(1-3)] ii(4) unfolding fields view[OF i] by (simp_all split: option.split)
    have "map_of (w_rows s ! i) c = None \<longleftrightarrow> c \<notin> fst ` set (w_rows s ! i)" by (rule map_of_eq_None_iff)
    then show "w_row_count ?t ! i = w_row_count s ! i - (if c \<in> fst ` set (w_rows s ! i) then 1 else 0)"
      using nth(3)[OF ii(1-3)] ii(4) unfolding fields view[OF i] by (auto split: option.split)
  qed
  show "live_row m s i \<Longrightarrow> w_row_lower ?t ! i =
      (case map_of (w_rows s ! i) c of None \<Rightarrow> w_row_lower s ! i | Some a \<Rightarrow> shift_row sc (f a) (w_row_lower s ! i))"
    "live_row m s i \<Longrightarrow> w_row_upper ?t ! i =
      (case map_of (w_rows s ! i) c of None \<Rightarrow> w_row_upper s ! i | Some a \<Rightarrow> shift_row sc (f a) (w_row_upper s ! i))"
    using at(1,2) by blast+
  have "sized m ?t" using sz unfolding sized_def fields
    by (simp add: leave_rows_def fold_sides_def fold_count_def length_fold_modify left_col_def)
  moreover have "entries_ok m ?t" "fill_ok m ?t" using b by (simp_all add: books_def entries_ok_def fill_ok_def fields)
  moreover have cols: "live_col m ?t k \<longleftrightarrow> live_col m s k \<and> k \<noteq> c" for k
    using sz cc by (auto simp: live_col_def fields sized_def nth_list_update)
  moreover have rows: "live_row m ?t = live_row m s" "column_now m ?t = column_now m s" "rows_of m ?t = rows_of m s"
    by (simp_all add: fun_eq_iff live_row_def column_now_def rows_of_def fields)
  moreover have "views_ok m ?t" using b unfolding books_def views_ok_def cols rows by (simp add: fields)
  moreover have "counts_ok m ?t"
    unfolding counts_ok_def cols rows
  proof (intro conjI allI impI)
    fix i assume i: "live_row m s i"
    then have "int (length (live_entries s i)) \<le> w_row_count s ! i" using b by (simp add: books_def counts_ok_def)
    moreover have "distinct (map fst (w_rows s ! i))" using b i by (simp add: books_def entries_ok_def live_row_def)
    ultimately show "int (length (live_entries ?t i)) \<le> w_row_count ?t ! i"
      using live_entries_without[OF sz cc _ fields(1,7)] at(3)[OF i] by simp
  next
    fix k assume "live_col m s k \<and> k \<noteq> c"
    then show "int (card (rows_of m s k)) \<le> w_col_count ?t ! k" using b by (simp add: books_def counts_ok_def fields)
  qed
  ultimately show "books m ?t" by (simp add: books_def)
qed

section \<open>Fixing and parking\<close>

lemma xshift_mono: "l \<le> u \<Longrightarrow> xshift l d \<le> xshift u d" "sides_ok l u \<Longrightarrow> sides_ok (xshift l d) (xshift u d)"
  by (cases l; cases u; auto simp: xshift_def sides_ok_def)+

lemma shift_row_exact: "shift_row (exact_scalar ft mt) (X d) v = xshift v d"
  by (simp add: shift_row_def xshift_def exact_scalar_def)

lemma books_log: "books m s \<Longrightarrow> books m (log_record r s)"
  by (rule books_other[of m _ s]) (simp_all add: log_record_def books_def sized_def)

lemma xfinite_X: "xfinite x \<longleftrightarrow> x = X (xval x)"
  by (cases x) simp_all

lemma finite_coef: "entries_ok m s \<Longrightarrow> i < num_rows m \<Longrightarrow> map_of (w_rows s ! i) j = Some a \<Longrightarrow> a = X (coef s i j)"
  by (force simp: entries_ok_def coef_def xfinite_X dest: map_of_SomeD)

lemma coef_none: "map_of (w_rows s ! i) j = None \<Longrightarrow> coef s i j = 0"
  by (simp add: coef_def)

lemma fix_column_eq:
  assumes "books m s" "j < num_cols m"
  shows "fix_column sc m j s = left_col sc m j (\<lambda>a. a * w_col_lower s ! j)
    (log_record ((new_reduction kFixedColumn j)\<lparr>rd_value := w_col_lower s ! j\<rparr>) s)"
proof -
  let ?u = "log_record ((new_reduction kFixedColumn j)\<lparr>rd_value := w_col_lower s ! j\<rparr>) s"
  have "\<forall>r \<in> set (w_new_rows ?u ! j). \<exists>d. (w_delta ?u ! j) r = Some d"
    using assms by (auto simp: log_record_def books_def fill_ok_def)
  then show ?thesis unfolding fix_column_def left_col_def by (rule fold_fixed_column_eq)
qed

lemma left_col_fields:
  "w_rows (left_col sc m c f s) = w_rows s" "w_row_dead (left_col sc m c f s) = w_row_dead s"
  "w_col_dead (left_col sc m c f s) = (w_col_dead s)[c := True]" "w_cost (left_col sc m c f s) = w_cost s"
  "w_offset (left_col sc m c f s) = w_offset s" "w_col_lower (left_col sc m c f s) = w_col_lower s"
  "w_col_upper (left_col sc m c f s) = w_col_upper s" "w_quadratic (left_col sc m c f s) = w_quadratic s"
  by (simp_all add: left_col_def leave_rows_def)

lemma left_col_more:
  "records (left_col sc m c f s) = records s" "proved_infeasible (left_col sc m c f s) = proved_infeasible s"
  by (simp_all add: left_col_def leave_rows_def)

lemma log_record_fields:
  "w_rows (log_record r s) = w_rows s" "w_row_dead (log_record r s) = w_row_dead s" "w_col_dead (log_record r s) = w_col_dead s"
  "w_cost (log_record r s) = w_cost s" "w_offset (log_record r s) = w_offset s" "w_col_lower (log_record r s) = w_col_lower s"
  "w_col_upper (log_record r s) = w_col_upper s" "w_row_lower (log_record r s) = w_row_lower s"
  "w_row_upper (log_record r s) = w_row_upper s" "w_quadratic (log_record r s) = w_quadratic s"
  "records (log_record r s) = records s @ [r]" "live_row m (log_record r s) = live_row m s"
  "live_col m (log_record r s) = live_col m s" "proved_infeasible (log_record r s) = proved_infeasible s"
  "w_row_count (log_record r s) = w_row_count s" "w_col_count (log_record r s) = w_col_count s"
  by (simp_all add: log_record_def live_row_def live_col_def fun_eq_iff)

lemma dead_nth: "sized m s \<Longrightarrow> j < num_cols m \<Longrightarrow> (w_col_dead s)[j := True] ! k \<longleftrightarrow> k = j \<or> w_col_dead s ! k"
  by (simp add: sized_def nth_list_update)

lemma fix_column_ok:
  assumes ok: "model_ok z m" and t: "tidy m s" and j: "live_col m s j" and v: "w_col_lower s ! j = X v" and q: "\<not> w_quadratic s ! j"
  shows "tidy m (fix_column (exact_scalar ft mt) m j s)"
    "same_problem (problem_of m (fix_column (exact_scalar ft mt) m j s)) (fix_col j v (problem_of m s))"
proof -
  let ?sc = "exact_scalar ft mt" and ?r = "(new_reduction kFixedColumn j)\<lparr>rd_value := w_col_lower s ! j\<rparr>"
  let ?u = "log_record ?r s" and ?t = "fix_column (exact_scalar ft mt) m j s"
  have b: "books m s" "sized m s" "entries_ok m s" using t by (simp_all add: tidy_def books_def)
  have jj: "j < num_cols m" "\<not> w_col_dead s ! j" using j by (simp_all add: live_col_def)
  have eq: "?t = left_col ?sc m j (\<lambda>a. a * w_col_lower s ! j) ?u" by (rule fix_column_eq[OF b(1) jj(1)])
  have bu: "books m ?u" "live_col m ?u j" using books_log[OF b(1)] j by (simp_all add: log_record_fields)
  note left = left_col_ok[OF ok bu, where sc = ?sc and f = "\<lambda>a. a * w_col_lower s ! j", folded eq]
  have fields: "w_col_dead ?t = (w_col_dead s)[j := True]" "w_cost ?t = w_cost s" "w_rows ?t = w_rows s"
    "w_row_dead ?t = w_row_dead s" "records ?t = records s @ [?r]" "w_offset ?t = w_offset s"
    "w_col_lower ?t = w_col_lower s" "w_col_upper ?t = w_col_upper s" "w_quadratic ?t = w_quadratic s"
    by (simp_all add: eq left_col_fields left_col_more log_record_fields)
  have sides: "w_row_lower ?t ! i = xshift (w_row_lower s ! i) (coef s i j * v)"
    "w_row_upper ?t ! i = xshift (w_row_upper s ! i) (coef s i j * v)" if i: "live_row m s i" for i
  proof -
    have ii: "i < num_rows m" using i by (simp add: live_row_def)
    have iu: "live_row m ?u i" using i by (simp add: log_record_fields)
    have nn: "w_row_lower s ! i \<le> w_row_upper s ! i" using t i by (simp add: tidy_def numbers_def)
    have z: "xshift (w_row_lower s ! i) 0 = w_row_lower s ! i" "xshift (w_row_upper s ! i) 0 = w_row_upper s ! i"
      using nn by (cases "w_row_lower s ! i"; cases "w_row_upper s ! i"; simp add: xshift_def)+
    show "w_row_lower ?t ! i = xshift (w_row_lower s ! i) (coef s i j * v)"
      "w_row_upper ?t ! i = xshift (w_row_upper s ! i) (coef s i j * v)"
      using left(2,3)[OF iu] z coef_none[of s i j] finite_coef[OF b(3) ii, of j]
      by (auto simp: log_record_fields v shift_row_exact split: option.splits)
  qed
  have cols: "live_col m ?t k \<longleftrightarrow> live_col m s k \<and> k \<noteq> j" for k
    using b(2) jj by (auto simp: live_col_def fields sized_def nth_list_update)
  have rows: "live_row m ?t = live_row m s" by (simp add: fun_eq_iff live_row_def fields)
  note dead = dead_nth[OF b(2) jj(1)]
  have "numbers m ?t"
    using t q xshift_mono sides unfolding tidy_def numbers_def rows by (auto simp: fields dead)
  moreover have "records_ok m ?t"
    using t jj unfolding tidy_def records_ok_def fields by (auto simp: new_reduction_def v dead)
  ultimately show "tidy m ?t" using left(1) by (simp add: tidy_def)
  show "same_problem (problem_of m ?t) (fix_col j v (problem_of m s))"
    unfolding same_problem_def using sides
    by (auto simp: problem_of_def fix_col_def cols rows fields coef_def removed_cost_def new_reduction_def v)
qed

lemma tidy_reads:
  "tidy m (s\<lparr>bounds_rounded := a\<rparr>) = tidy m s" "tidy m (s\<lparr>quadratic_protected := a\<rparr>) = tidy m s"
  "tidy m (s\<lparr>integer_declined := a\<rparr>) = tidy m s" "tidy m (s\<lparr>pass_changed := b\<rparr>) = tidy m s"
  "tidy m (refute y s) = tidy m s"
  by (simp_all add: tidy_def books_def sized_def entries_ok_def fill_ok_def views_ok_def counts_ok_def numbers_def records_ok_def
      live_row_def live_col_def column_now_def rows_of_def live_entries_def refute_def)

lemma problem_reads:
  "problem_of m (s\<lparr>bounds_rounded := a\<rparr>) = problem_of m s" "problem_of m (s\<lparr>quadratic_protected := a\<rparr>) = problem_of m s"
  "problem_of m (s\<lparr>integer_declined := a\<rparr>) = problem_of m s" "problem_of m (s\<lparr>pass_changed := b\<rparr>) = problem_of m s"
  "problem_of m (refute y s) = problem_of m s"
  by (simp_all add: problem_of_def live_row_def live_col_def coef_def[abs_def] refute_def)

text \<open>A column whose count is zero is in no live row.\<close>

lemma finite_rows_of: "finite (rows_of m s j)"
  by (rule finite_subset[of _ "{..<num_rows m}"]) (auto simp: rows_of_def live_row_def)

lemma column_empty:
  assumes "books m s" "live_col m s j" "w_col_count s ! j = 0" "live_row m s i"
  shows "coef s i j = 0"
proof -
  have "rows_of m s j = {}" using assms(1-3) finite_rows_of[of m s j] by (force simp: books_def counts_ok_def)
  then have "map_of (w_rows s ! i) j = None" using assms(4) by (auto simp: rows_of_def map_of_eq_None_iff)
  then show ?thesis by (rule coef_none)
qed

definition parked :: "'a::zero presolving \<Rightarrow> nat \<Rightarrow> 'a \<Rightarrow> 'a presolving" where
  "parked s j v = (log_record ((new_reduction kEmptyColumn j)\<lparr>rd_value := v\<rparr>) s)\<lparr>w_col_dead := (w_col_dead s)[j := True]\<rparr>"

lemma parked_ok:
  assumes t: "tidy m s" and j: "live_col m s j" and c: "w_col_count s ! j = 0" and q: "\<not> w_quadratic s ! j"
  shows "tidy m (parked s j (X v))" "problem_of m (parked s j (X v)) = park_col j v (problem_of m s)"
proof -
  let ?r = "(new_reduction kEmptyColumn j)\<lparr>rd_value := X v\<rparr>" and ?t = "parked s j (X v)"
  have b: "books m s" "sized m s" using t by (simp_all add: tidy_def books_def)
  have jj: "j < num_cols m" "\<not> w_col_dead s ! j" using j by (simp_all add: live_col_def)
  have fields: "w_col_dead ?t = (w_col_dead s)[j := True]" "records ?t = records s @ [?r]" "w_cost ?t = w_cost s"
    "w_offset ?t = w_offset s" "w_rows ?t = w_rows s" "w_row_dead ?t = w_row_dead s"
    by (simp_all add: parked_def log_record_def)
  note dead = dead_nth[OF b(2) jj(1)]
  have eqs: "live_row m ?t = live_row m s" by (simp add: live_row_def fun_eq_iff fields)
  have "?t = (log_record ?r s)\<lparr>w_col_dead := (w_col_dead (log_record ?r s))[j := True]\<rparr>" by (simp add: parked_def log_record_def)
  then have "books m ?t" using dead_col_ok[OF books_log[OF b(1)] jj(1), of ?r] by simp
  moreover have "numbers m ?t"
    using t q unfolding tidy_def numbers_def eqs fields by (simp add: dead) (simp add: parked_def log_record_def)
  moreover have "records_ok m ?t"
    using t jj unfolding tidy_def records_ok_def fields by (auto simp: new_reduction_def dead)
  ultimately show "tidy m ?t" by (simp add: tidy_def)
  have cols: "live_col m ?t k \<longleftrightarrow> live_col m s k \<and> k \<noteq> j" for k by (auto simp: live_col_def fields dead)
  show "problem_of m ?t = park_col j v (problem_of m s)"
    by (auto simp: problem_of_def park_col_def cols eqs fields coef_def[abs_def] removed_cost_def new_reduction_def)
       (simp_all add: parked_def log_record_def)
qed

lemma sense_X: "sense_multiplier m = X (xval (sense_multiplier m))"
  by (simp add: sense_multiplier_def X_consts)

lemma parked_value_ok:
  assumes n: "sides_ok (w_col_lower s ! j) (w_col_upper s ! j)" "w_col_lower s ! j \<le> w_col_upper s ! j" "xfinite (w_cost s ! j)"
    and v: "parked_value (exact_scalar ft mt) m j s = X v"
  shows "w_col_lower s ! j \<le> X v" "X v \<le> w_col_upper s ! j"
    "0 < xval (sense_multiplier m) * xval (w_cost s ! j) \<Longrightarrow> w_col_lower s ! j = X v"
    "xval (sense_multiplier m) * xval (w_cost s ! j) < 0 \<Longrightarrow> w_col_upper s ! j = X v"
proof -
  obtain c where c: "w_cost s ! j = X c" using n(3) by (cases "w_cost s ! j") auto
  obtain sg where sg: "sense_multiplier m = X sg" using sense_X by metis
  show "w_col_lower s ! j \<le> X v" "X v \<le> w_col_upper s ! j"
    "0 < xval (sense_multiplier m) * xval (w_cost s ! j) \<Longrightarrow> w_col_lower s ! j = X v"
    "xval (sense_multiplier m) * xval (w_cost s ! j) < 0 \<Longrightarrow> w_col_upper s ! j = X v"
    using v n by (cases "w_col_lower s ! j"; cases "w_col_upper s ! j";
      auto simp: parked_value_def Let_def c sg X_consts exact_scalar_def sides_ok_def split: if_splits)+
qed

lemma whole_rounded: "\<not> X 0 < \<bar>X q - xround (X q)\<bar> \<Longrightarrow> q \<in> \<int>"
  by (auto simp: xround_def split: if_splits) (metis Ints_of_int)+

section \<open>A free column of one row\<close>

lemma singleton_row_ok:
  assumes ok: "model_ok z m" and b: "books m s" and j: "live_col m s j" and c: "w_col_count s ! j = 1"
    and f: "singleton_row m j s = Some (r, a)"
  shows "live_row m s r" "map_of (w_rows s ! r) j = Some a" "\<And>i. live_row m s i \<Longrightarrow> i \<noteq> r \<Longrightarrow> coef s i j = 0"
proof -
  have jj: "j < num_cols m" using j by (simp add: live_col_def)
  have fl: "\<forall>i \<in> set (w_new_rows s ! j). i < num_rows m \<and> i \<notin> fst ` set (column (matrix m) j)"
    using b jj by (auto simp: books_def fill_ok_def)
  note now = column_now_ok(2)[OF ok b jj, of r]
  have r: "live_row m s r \<and> map_of (column_now m s j) r = Some a"
  proof (cases "find (\<lambda>(r, a). \<not> w_row_dead s ! r) (column (matrix m) j)")
    case None
    then obtain q where q: "find (\<lambda>r. \<not> w_row_dead s ! r) (w_new_rows s ! j) = Some q" "r = q" "(w_delta s ! j) q = Some a"
      using f by (auto simp: singleton_row_def split: option.splits)
    then have "q \<in> set (w_new_rows s ! j)" "\<not> w_row_dead s ! q" by (auto simp: find_Some_iff)
    moreover from this fl have "q < num_rows m" "map_of (column (matrix m) j) q = None" by (auto simp: map_of_eq_None_iff)
    ultimately show ?thesis using q now by (simp add: live_row_def)
  next
    case (Some e)
    then obtain a0 where e: "e = (r, a0)" "a = (case (w_delta s ! j) r of None \<Rightarrow> a0 | Some d \<Rightarrow> a0 + d)"
      using f by (auto simp: singleton_row_def split: prod.splits)
    have "(r, a0) \<in> set (column (matrix m) j) \<and> \<not> w_row_dead s ! r"
      using Some e(1) by (auto simp: find_Some_iff) (metis nth_mem)
    then have m: "(r, a0) \<in> set (column (matrix m) j)" "\<not> w_row_dead s ! r" by simp_all
    then have "map_of (column (matrix m) j) r = Some a0" "r < num_rows m"
      using model_column[OF ok jj] by simp_all
    then show ?thesis using m e now by (simp add: live_row_def)
  qed
  then show lr: "live_row m s r" by simp
  show entry: "map_of (w_rows s ! r) j = Some a" using r b j by (simp add: books_def views_ok_def)
  fix i assume i: "live_row m s i" "i \<noteq> r"
  have "r \<in> rows_of m s j" using lr entry by (force simp: rows_of_def dest: map_of_SomeD)
  moreover have "card (rows_of m s j) \<le> 1" using b j c by (force simp: books_def counts_ok_def)
  ultimately have "i \<notin> rows_of m s j" using i(2) finite_rows_of[of m s j] card_le_Suc0_iff_eq by auto
  then have "map_of (w_rows s ! i) j = None" using i(1) by (simp add: rows_of_def map_of_eq_None_iff)
  then show "coef s i j = 0" by (rule coef_none)
qed

lemma spread_cost_fold:
  fixes s :: "('a::{minus,times,divide}, 'z) workspace_scheme"
  shows "fold (spread_cost j cj a) es s = s\<lparr>w_cost := fold (\<lambda>(k, b) xs. if k = j \<or> w_col_dead s ! k then xs
     else modify_at k (\<lambda>c. c - cj * (b div a)) xs) es (w_cost s)\<rparr>"
proof (induction es arbitrary: s)
  case (Cons e es)
  obtain k b where e: "e = (k, b)" by (cases e)
  have "spread_cost j cj a (k, b) s = (if k = j \<or> w_col_dead s ! k then s
      else s\<lparr>w_cost := modify_at k (\<lambda>c. c - cj * (b div a)) (w_cost s)\<rparr>)"
    by (simp add: spread_cost_def)
  then show ?case by (simp add: e Cons.IH)
qed simp

definition freed :: "xnum presolving \<Rightarrow> nat \<Rightarrow> nat \<Rightarrow> xnum \<Rightarrow> xnum \<Rightarrow> xnum presolving" where
  "freed s j r a target = (log_record ((new_reduction kFreeColumnSingleton r)\<lparr>rd_column := j, rd_coefficient := a,
       rd_rhs := target, rd_eliminated_cost := w_cost s ! j\<rparr>) s)
     \<lparr>w_cost := fold (\<lambda>(k, b) xs. if k = j \<or> w_col_dead s ! k then xs
         else modify_at k (\<lambda>c. c - w_cost s ! j * (b div a)) xs) (w_rows s ! r) (w_cost s),
       w_offset := w_offset s + w_cost s ! j * target div a, w_col_dead := (w_col_dead s)[j := True]\<rparr>"

lemma eliminate_eq: "eliminate_singleton j r a target s = kill_row r (freed s j r a target)"
  by (simp add: eliminate_singleton_def spread_cost_fold freed_def log_record_def Let_def)

lemma freed_ok:
  assumes ok: "model_ok z m" and t: "tidy m s" and j: "live_col m s j" and q: "\<not> w_quadratic s ! j"
    and r: "live_row m s r" and e: "map_of (w_rows s ! r) j = Some a" and a: "a = X qa" "qa \<noteq> 0"
  shows "tidy m (freed s j r a (X target))" "live_row m (freed s j r a (X target)) r"
    "same_problem (drop_rows r (problem_of m (freed s j r a (X target)))) (free_col j r target (problem_of m s))"
proof -
  let ?t = "freed s j r a (X target)"
  let ?r = "(new_reduction kFreeColumnSingleton r)\<lparr>rd_column := j, rd_coefficient := a, rd_rhs := X target,
      rd_eliminated_cost := w_cost s ! j\<rparr>"
  have b: "books m s" "sized m s" "entries_ok m s" using t by (simp_all add: tidy_def books_def)
  have jj: "j < num_cols m" "\<not> w_col_dead s ! j" using j by (simp_all add: live_col_def)
  have rr: "r < num_rows m" using r by (simp add: live_row_def)
  have n: "xfinite (w_cost s ! k)" if "k < num_cols m" for k using t that by (simp add: tidy_def numbers_def)
  then obtain cj where cj: "w_cost s ! j = X cj" using jj xfinite_X by metis
  obtain off where off: "w_offset s = X off" using t xfinite_X by (metis tidy_def numbers_def)
  have fields: "w_rows ?t = w_rows s" "w_row_dead ?t = w_row_dead s" "w_col_dead ?t = (w_col_dead s)[j := True]"
    "records ?t = records s @ [?r]" "w_col_lower ?t = w_col_lower s" "w_col_upper ?t = w_col_upper s"
    "w_row_lower ?t = w_row_lower s" "w_row_upper ?t = w_row_upper s" "w_quadratic ?t = w_quadratic s"
    "w_offset ?t = X (off + cj * target / qa)"
    using a by (simp_all add: freed_def log_record_def cj off)
  note dead = dead_nth[OF b(2) jj(1)]
  have d: "distinct (map fst (w_rows s ! r))" using b(3) rr by (simp add: entries_ok_def)
  have len: "k < num_cols m \<Longrightarrow> k < length (w_cost s)" for k using b(2) by (simp add: sized_def)
  have cost: "w_cost ?t ! k = (if k = j \<or> w_col_dead s ! k then w_cost s ! k else X (xval (w_cost s ! k) - cj * (coef s r k / qa)))"
    if k: "k < num_cols m" for k
  proof -
    obtain ck where ck: "w_cost s ! k = X ck" using n[OF k] xfinite_X by metis
    have wc: "w_cost ?t = fold (\<lambda>(k, b) xs. if k = j \<or> w_col_dead s ! k then xs
         else modify_at k (\<lambda>c. c - w_cost s ! j * (b div a)) xs) (w_rows s ! r) (w_cost s)" by (simp add: freed_def)
    have nth: "w_cost ?t ! k = (case map_of (w_rows s ! r) k of None \<Rightarrow> w_cost s ! k
        | Some b \<Rightarrow> if k = j \<or> w_col_dead s ! k then w_cost s ! k else w_cost s ! k - w_cost s ! j * (b div a))"
      unfolding wc by (rule nth_fold_modify[OF d len[OF k]])
    show ?thesis
    proof (cases "map_of (w_rows s ! r) k")
      case None
      then show ?thesis by (simp add: nth coef_none[OF None] ck)
    next
      case (Some b)
      then have "b = X (coef s r k)" using finite_coef[OF b(3) rr] by simp
      then have quot: "b div a = X (coef s r k / qa)" using a by simp
      show ?thesis unfolding nth Some by (simp add: quot ck cj)
    qed
  qed
  have eqs: "live_row m ?t = live_row m s" by (simp add: live_row_def fun_eq_iff fields)
  have cols: "live_col m ?t k \<longleftrightarrow> live_col m s k \<and> k \<noteq> j" for k by (auto simp: live_col_def fields dead)
  have sz: "sized m ?t" using b(2) by (simp add: sized_def freed_def log_record_def)
  have "books m ((log_record ?r s)\<lparr>w_col_dead := (w_col_dead (log_record ?r s))[j := True]\<rparr>)"
    by (rule dead_col_ok[OF books_log[OF b(1)] jj(1)])
  then have "books m ?t" by (rule books_other[OF sz, rotated -1]) (simp_all add: freed_def log_record_def)
  moreover have "numbers m ?t"
    using t q unfolding tidy_def numbers_def eqs fields(3,5-9) by (simp add: dead cost fields(10))
  moreover have "records_ok m ?t"
    using t unfolding tidy_def records_ok_def fields(3,4) by (auto simp: new_reduction_def dead)
  ultimately show "tidy m ?t" by (simp add: tidy_def)
  show "live_row m ?t r" using r by (simp add: eqs)
  have old: "removed_cost (w_cost ?t) x = removed_cost (w_cost s) x" if "x \<in> set (records s)" for x
    using t that by (auto simp: removed_cost_def tidy_def records_ok_def cost)
  have "(\<Sum>x\<leftarrow>records ?t. removed_cost (w_cost ?t) x) = (\<Sum>x\<leftarrow>records s. removed_cost (w_cost s) x)"
    using old by (simp add: fields removed_cost_def new_reduction_def cong: map_cong)
  moreover have "coef s r j = qa" using e a by (simp add: coef_def)
  moreover have "coef ?t = coef s" by (simp add: coef_def fun_eq_iff fields)
  ultimately show "same_problem (drop_rows r (problem_of m ?t)) (free_col j r target (problem_of m s))"
    by (auto simp: same_problem_def drop_rows_def problem_of_def free_col_def cols eqs fields cj off)
       (auto simp: live_col_def cost fields)
qed

end
