(* ===== verification/PresolveSteps.thy ===== *)
theory PresolveSteps
  imports PresolveSound
begin

text \<open>
  The reductions of columns and of rows as the code takes them, guards included: each keeps the workspace
  tidy and implements its function on problems, with the facts of the guard that make the step sound.
\<close>

section \<open>Free columns of one row\<close>

lemma eliminate_ok:
  assumes "model_ok z m" "tidy m s" "live_col m s j" "\<not> w_quadratic s ! j" "live_row m s r" "map_of (w_rows s ! r) j = Some a"
    "a = X qa" "qa \<noteq> 0"
  shows "tidy m (eliminate_singleton j r a (X target) s)"
    "same_problem (problem_of m (eliminate_singleton j r a (X target) s)) (free_col j r target (problem_of m s))"
proof -
  note f = freed_ok[OF assms]
  have sz: "sized m (freed s j r a (X target))" using f(1) by (simp add: tidy_def books_def)
  show "tidy m (eliminate_singleton j r a (X target) s)" unfolding eliminate_eq by (rule kill_row_tidy[OF f(1,2)])
  show "same_problem (problem_of m (eliminate_singleton j r a (X target) s)) (free_col j r target (problem_of m s))"
    unfolding eliminate_eq kill_row_problem[OF sz f(2)] by (rule f(3))
qed

lemma row_target_ok:
  assumes n: "sides_ok (w_row_lower s ! r) (w_row_upper s ! r)" "w_row_lower s ! r \<le> w_row_upper s ! r"
    and c: "w_cost s ! j = X c" and a: "a = X qa" "qa \<noteq> 0" and z: "0 < z"
    and sg: "sense_multiplier m = X sg"
    and t: "row_target (exact_scalar ft mt) (exact_pt z) m j r a s = Some v"
  shows "\<exists>q. v = X q \<and> w_row_lower s ! r \<le> X q \<and> X q \<le> w_row_upper s ! r \<and>
    (z < sg * c / qa \<longrightarrow> w_row_lower s ! r = X q) \<and> (sg * c / qa < - z \<longrightarrow> w_row_upper s ! r = X q)"
proof -
  have rate: "sense_multiplier m * w_cost s ! j div a = X (sg * c / qa)" using a by (simp add: sg c)
  define L where "L = w_row_lower s ! r"
  define U where "U = w_row_upper s ! r"
  show ?thesis
    using t n z unfolding row_target_def rate L_def[symmetric] U_def[symmetric]
    by (cases L; cases U) (auto simp: Let_def exact_pt_def exact_scalar_def sides_ok_def X_consts split: if_splits)
qed

section \<open>Rounding an integer column\<close>

definition ceil_bound :: "xnum \<Rightarrow> xnum" where
  "ceil_bound lo = (if xfinite lo then xceil (lo - X 0) else lo)"

definition floor_bound :: "xnum \<Rightarrow> xnum" where
  "floor_bound up = (if xfinite up then xfloor (up + X 0) else up)"

lemma ceil_bound_le: "ceil_bound lo \<le> X q \<Longrightarrow> lo \<le> X q"
  by (cases lo) (auto simp: ceil_bound_def intro: order_trans[OF le_of_int_ceiling])

lemma floor_bound_ge: "X q \<le> floor_bound up \<Longrightarrow> X q \<le> up"
  by (cases up) (auto simp: floor_bound_def intro: order_trans[OF _ of_int_floor_le])

lemma ceil_bound_keeps: "q \<in> \<int> \<Longrightarrow> lo \<le> X q \<Longrightarrow> ceil_bound lo \<le> X q"
  by (cases lo) (auto simp: ceil_bound_def ceiling_le_iff elim!: Ints_cases)

lemma floor_bound_keeps: "q \<in> \<int> \<Longrightarrow> X q \<le> up \<Longrightarrow> X q \<le> floor_bound up"
  by (cases up) (auto simp: floor_bound_def le_floor_iff elim!: Ints_cases)

lemma rounded_sides: "sides_ok lo up \<Longrightarrow> sides_ok (ceil_bound lo) (floor_bound up)"
  by (cases lo; cases up; simp add: sides_ok_def ceil_bound_def floor_bound_def)

lemma bounds_tidy:
  assumes "tidy m s" "j < num_cols m" "sides_ok lo up"
  shows "tidy m (s\<lparr>w_col_lower := (w_col_lower s)[j := lo], w_col_upper := (w_col_upper s)[j := up]\<rparr>)"
proof -
  let ?t = "s\<lparr>w_col_lower := (w_col_lower s)[j := lo], w_col_upper := (w_col_upper s)[j := up]\<rparr>"
  have b: "books m s" "sized m s" using assms by (simp_all add: tidy_def books_def)
  have "sized m ?t" using b(2) by (simp add: sized_def)
  then have "books m ?t" by (rule books_other[of m _ s]) (simp_all add: b)
  moreover have "live_row m ?t = live_row m s" by (simp add: live_row_def fun_eq_iff)
  ultimately show ?thesis
    using assms b(2) by (auto simp: tidy_def numbers_def records_ok_def nth_list_update sized_def)
qed

lemma bounds_problem:
  assumes "sized m s" "j < num_cols m"
  shows "same_problem (problem_of m (s\<lparr>w_col_lower := (w_col_lower s)[j := lo], w_col_upper := (w_col_upper s)[j := up]\<rparr>))
    (set_bounds j lo up (problem_of m s))"
  using assms unfolding same_problem_def
  by (auto simp: problem_of_def set_bounds_def live_col_def live_row_def coef_def[abs_def] nth_list_update sized_def)

lemma round_bounds_ok:
  fixes ft mt z :: rat
  assumes t: "tidy m s" and j: "live_col m s j"
  defines "u \<equiv> round_bounds (exact_scalar ft mt) (exact_pt z) m j s"
  shows "tidy m u" "records u = records s" "proved_infeasible u = proved_infeasible s"
    "sound_step (integers_of m) (problem_of m s) (problem_of m u) (\<lambda>x. x)"
    "lossless_step (integers_of m) sg (problem_of m s) (problem_of m u)"
    "w_rows u = w_rows s" "w_col_dead u = w_col_dead s" "w_row_dead u = w_row_dead s" "w_delta u = w_delta s"
    "w_new_rows u = w_new_rows s" "w_quadratic u = w_quadratic s" "w_col_count u = w_col_count s"
proof -
  let ?lo = "w_col_lower s ! j" and ?up = "w_col_upper s ! j"
  let ?lo' = "ceil_bound ?lo" and ?up' = "floor_bound ?up"
  let ?v = "s\<lparr>w_col_lower := (w_col_lower s)[j := ?lo'], w_col_upper := (w_col_upper s)[j := ?up']\<rparr>"
  have jj: "j < num_cols m" "sized m s" using t j by (simp_all add: live_col_def tidy_def books_def)
  have "sides_ok ?lo ?up" using t jj by (simp add: tidy_def numbers_def)
  note r = rounded_sides[OF this]
  have cases: "u = s \<or> u = ?v\<lparr>bounds_rounded := bounds_rounded s + 1, pass_changed := True\<rparr> \<and> col_type m ! j = kInteger"
    unfolding u_def round_bounds_def Let_def
    by (simp add: exact_scalar_def exact_pt_def round_integer_lower_def round_integer_upper_def ceil_bound_def floor_bound_def)
  have tv: "tidy m ?v" by (rule bounds_tidy[OF t jj(1) r])
  show "tidy m u" using cases t tv by (auto simp: tidy_reads)
  show "records u = records s" "proved_infeasible u = proved_infeasible s"
    "w_rows u = w_rows s" "w_col_dead u = w_col_dead s" "w_row_dead u = w_row_dead s" "w_delta u = w_delta s"
    "w_new_rows u = w_new_rows s" "w_quadratic u = w_quadratic s" "w_col_count u = w_col_count s"
    using cases by auto
  let ?P = "problem_of m s" and ?Q = "set_bounds j ?lo' ?up' (problem_of m s)"
  have steps: "sound_step (integers_of m) ?P ?Q (\<lambda>x. x)" "lossless_step (integers_of m) sg ?P ?Q"
    if ty: "col_type m ! j = kInteger"
  proof -
    have new: "?lo' \<le> X q \<Longrightarrow> X q \<le> ?up' \<Longrightarrow> p_lower ?P j \<le> X q \<and> X q \<le> p_upper ?P j" for q
      using ceil_bound_le floor_bound_ge by (simp only: problem_fields)
    have old: "?lo' \<le> X (x j) \<and> X (x j) \<le> ?up'" if "point_of (integers_of m) ?P x" for x
    proof -
      have "j \<in> p_cols ?P" using j by (simp add: problem_fields)
      then have "in_box (integers_of m) ?P x j" using that by (simp add: point_of_def)
      then have "?lo \<le> X (x j)" "X (x j) \<le> ?up" "x j \<in> \<int>"
        using ty jj by (simp_all add: in_box_def problem_fields integers_of_def)
      then show ?thesis using ceil_bound_keeps floor_bound_keeps by blast
    qed
    show "sound_step (integers_of m) ?P ?Q (\<lambda>x. x)" "lossless_step (integers_of m) sg ?P ?Q"
      by (rule set_bounds_step; use new old in blast)+
  qed
  note same = step_same[OF bounds_problem[OF jj(2,1), where lo = ?lo' and up = ?up'], symmetric]
  have pv: "problem_of m u = problem_of m s \<or> problem_of m u = problem_of m ?v \<and> col_type m ! j = kInteger"
    using cases by (auto simp: problem_reads)
  show "sound_step (integers_of m) (problem_of m s) (problem_of m u) (\<lambda>x. x)"
    using pv steps(1) same(1) sound_refl by metis
  show "lossless_step (integers_of m) sg (problem_of m s) (problem_of m u)"
    using pv steps(2) same(2) lossless_refl by metis
qed

section \<open>The activity of a row\<close>

definition range_holds :: "xnum activity_range \<Rightarrow> rat \<Rightarrow> bool" where
  "range_holds b p \<longleftrightarrow> (\<exists>l u. ar_lower b = X l \<and> ar_upper b = X u \<and> (ar_lower_finite b \<longrightarrow> l \<le> p) \<and> (ar_upper_finite b \<longrightarrow> p \<le> u))"

lemma term_low: "0 < a \<Longrightarrow> lo \<le> X x \<Longrightarrow> xfinite lo \<Longrightarrow> \<exists>q. X a * lo = X q \<and> q \<le> a * x"
  and term_high: "0 < a \<Longrightarrow> X x \<le> up \<Longrightarrow> xfinite up \<Longrightarrow> \<exists>q. X a * up = X q \<and> a * x \<le> q"
  and term_low': "a \<le> 0 \<Longrightarrow> X x \<le> up \<Longrightarrow> xfinite up \<Longrightarrow> \<exists>q. X a * up = X q \<and> q \<le> a * x"
  and term_high': "a \<le> 0 \<Longrightarrow> lo \<le> X x \<Longrightarrow> xfinite lo \<Longrightarrow> \<exists>q. X a * lo = X q \<and> a * x \<le> q"
  by (cases lo; cases up; simp add: mult_left_mono_neg)+

lemma range_step_holds:
  assumes h: "range_holds b p" and x: "w_col_lower s ! j \<le> X x" "X x \<le> w_col_upper s ! j"
  shows "range_holds (range_step (exact_scalar ft mt) s (j, X a) b) (p + a * x)"
proof -
  let ?low = "if 0 < a then w_col_lower s ! j else w_col_upper s ! j"
  let ?high = "if 0 < a then w_col_upper s ! j else w_col_lower s ! j"
  obtain l u where b: "ar_lower b = X l" "ar_upper b = X u" "ar_lower_finite b \<longrightarrow> l \<le> p" "ar_upper_finite b \<longrightarrow> p \<le> u"
    using h by (auto simp: range_holds_def)
  have low: "xfinite ?low \<Longrightarrow> \<exists>q. X a * ?low = X q \<and> q \<le> a * x"
    using x term_low[of a] term_low'[of a] by (cases "0 < a") auto
  have high: "xfinite ?high \<Longrightarrow> \<exists>q. X a * ?high = X q \<and> a * x \<le> q"
    using x term_high[of a] term_high'[of a] by (cases "0 < a") auto
  have eq: "range_step (exact_scalar ft mt) s (j, X a) b =
      (let b1 = (if xfinite ?low then b\<lparr>ar_lower := ar_lower b + X a * ?low\<rparr> else b\<lparr>ar_lower_finite := False\<rparr>)
       in if xfinite ?high then b1\<lparr>ar_upper := ar_upper b1 + X a * ?high\<rparr> else b1\<lparr>ar_upper_finite := False\<rparr>)"
    by (simp add: range_step_def exact_scalar_def Let_def X_consts(1))
  show ?thesis
  proof (cases "xfinite ?low")
    case lo: True
    then obtain q where q: "X a * ?low = X q" "q \<le> a * x" using low by blast
    show ?thesis
    proof (cases "xfinite ?high")
      case True
      then obtain r where "X a * ?high = X r" "a * x \<le> r" using high by blast
      then show ?thesis unfolding eq using lo True q b by (auto simp: range_holds_def Let_def)
    next
      case False
      then show ?thesis unfolding eq using lo q b by (auto simp: range_holds_def Let_def)
    qed
  next
    case lo: False
    show ?thesis
    proof (cases "xfinite ?high")
      case True
      then obtain r where "X a * ?high = X r" "a * x \<le> r" using high by blast
      then show ?thesis unfolding eq using lo True b by (auto simp: range_holds_def Let_def)
    next
      case False
      then show ?thesis unfolding eq using lo b by (auto simp: range_holds_def Let_def)
    qed
  qed
qed

lemma range_fold_holds:
  assumes "range_holds b p" "\<forall>e \<in> set es. xfinite (snd e) \<and> w_col_lower s ! fst e \<le> X (x (fst e)) \<and> X (x (fst e)) \<le> w_col_upper s ! fst e"
  shows "range_holds (fold (range_step (exact_scalar ft mt) s) es b) (p + (\<Sum>(j, a)\<leftarrow>es. xval a * x j))"
  using assms
proof (induction es arbitrary: b p)
  case (Cons e es)
  obtain j a where e: "e = (j, X a)" using Cons.prems(2) xfinite_X by (cases e) (metis list.set_intros(1) snd_conv)
  have "range_holds (range_step (exact_scalar ft mt) s e b) (p + a * x j)"
    using Cons.prems unfolding e by (intro range_step_holds) auto
  from Cons.IH[OF this] Cons.prems(2) show ?case by (simp add: e add.assoc)
qed simp

lemma activity_entries:
  assumes b: "books m s" and i: "live_row m s i"
  shows "activity (problem_of m s) x i = (\<Sum>(j, a)\<leftarrow>live_entries s i. xval a * x j)"
proof -
  have d: "distinct (map fst (w_rows s ! i))" and k: "\<forall>e \<in> set (w_rows s ! i). fst e < num_cols m"
    using b i unfolding books_def entries_ok_def live_row_def by blast+
  have d': "distinct (map fst (live_entries s i))" using d by (simp add: live_entries_def distinct_map_filter)
  have "fst ` set (live_entries s i) \<subseteq> {j. live_col m s j}" using k by (auto simp: live_entries_def live_col_def)
  moreover have "finite {j. live_col m s j}" by (rule finite_subset[of _ "{..<num_cols m}"]) (auto simp: live_col_def)
  ultimately have "(\<Sum>(j, a)\<leftarrow>live_entries s i. xval a * x j) =
      (\<Sum>j \<in> {j. live_col m s j}. case map_of (live_entries s i) j of None \<Rightarrow> 0 | Some a \<Rightarrow> xval a * x j)"
    using sum_over_table[OF d'] by blast
  also have "\<dots> = (\<Sum>j \<in> {j. live_col m s j}. coef s i j * x j)"
  proof (rule sum.cong)
    fix j assume "j \<in> {j. live_col m s j}"
    then have "map_of (live_entries s i) j = map_of (w_rows s ! i) j"
      by (simp add: live_entries_def map_of_filter_key live_col_def)
    then show "(case map_of (live_entries s i) j of None \<Rightarrow> 0 | Some a \<Rightarrow> xval a * x j) = coef s i j * x j"
      by (simp add: coef_def split: option.split)
  qed simp
  finally show ?thesis by (simp add: activity_def problem_fields)
qed

lemma activity_in_range:
  assumes b: "books m s" and i: "live_row m s i" and x: "\<forall>j \<in> p_cols (problem_of m s). in_box ints (problem_of m s) x j"
  shows "range_holds (activity_bounds (exact_scalar ft mt) s i) (activity (problem_of m s) x i)"
proof -
  have "\<forall>e \<in> set (live_entries s i). xfinite (snd e) \<and> w_col_lower s ! fst e \<le> X (x (fst e)) \<and> X (x (fst e)) \<le> w_col_upper s ! fst e"
  proof
    fix e assume e: "e \<in> set (live_entries s i)"
    then have "e \<in> set (w_rows s ! i)" "\<not> w_col_dead s ! fst e" by (auto simp: live_entries_def)
    then have "xfinite (snd e)" "live_col m s (fst e)" using b i by (auto simp: books_def entries_ok_def live_row_def live_col_def)
    then show "xfinite (snd e) \<and> w_col_lower s ! fst e \<le> X (x (fst e)) \<and> X (x (fst e)) \<le> w_col_upper s ! fst e"
      using x by (simp add: problem_fields in_box_def)
  qed
  from range_fold_holds[OF _ this, of _ 0 ft mt] show ?thesis
    unfolding activity_entries[OF b i] activity_bounds_def by (simp add: range_holds_def X_consts)
qed

text \<open>What the tests of a row conclude from the range.\<close>

lemma range_redundant:
  assumes "range_holds b p" "\<not> xfinite lo \<or> ar_lower_finite b \<and> lo - X 0 \<le> ar_lower b"
    "\<not> xfinite up \<or> ar_upper_finite b \<and> ar_upper b \<le> up + X 0" "sides_ok lo up"
  shows "lo \<le> X p \<and> X p \<le> up"
  using assms by (cases lo; cases up; auto simp: range_holds_def sides_ok_def)

lemma range_refutes:
  assumes "range_holds b p" "ar_upper_finite b \<and> xfinite lo \<and> ar_upper b < lo - X 0 \<or> ar_lower_finite b \<and> xfinite up \<and> up + X 0 < ar_lower b"
  shows "\<not> (lo \<le> X p \<and> X p \<le> up)"
  using assms by (cases lo; cases up; auto simp: range_holds_def)

section \<open>Steps\<close>

text \<open>How a point of the reduced problem steps back over one record.\<close>

definition undo :: "problem \<Rightarrow> xnum reduction \<Rightarrow> (nat \<Rightarrow> rat) \<Rightarrow> nat \<Rightarrow> rat" where
  "undo P r x = (case rd_kind r of
      kFixedColumn \<Rightarrow> x(rd_index r := xval (rd_value r))
    | kEmptyColumn \<Rightarrow> x(rd_index r := xval (rd_value r))
    | kFreeColumnSingleton \<Rightarrow> x(rd_column r := (xval (rd_rhs r) -
        (\<Sum>k \<in> p_cols P - {rd_column r}. p_coef P (rd_index r) k * x k)) / xval (rd_coefficient r))
    | kDoubletonEquation \<Rightarrow> x(rd_column r := (xval (rd_rhs r) - xval (rd_partner_coefficient r) * x (rd_partner r)) / xval (rd_coefficient r))
    | _ \<Rightarrow> x)"

fun undos :: "problem \<Rightarrow> xnum reduction list \<Rightarrow> (nat \<Rightarrow> rat) \<Rightarrow> nat \<Rightarrow> rat" where
  "undos P [] x = x"
| "undos P (r # rs) x = undo P r x"

text \<open>A free column is eliminated at a price the code can tell from zero, or at none.\<close>

definition clear_price :: "rat \<Rightarrow> xnum model \<Rightarrow> xnum reduction \<Rightarrow> bool" where
  "clear_price z m r \<longleftrightarrow> rd_kind r = kFreeColumnSingleton \<longrightarrow>
     (let rate = xval (sense_multiplier m) * xval (rd_eliminated_cost r) / xval (rd_coefficient r) in rate = 0 \<or> z < \<bar>rate\<bar>)"

definition steps_to :: "rat \<Rightarrow> xnum model \<Rightarrow> xnum presolving \<Rightarrow> xnum presolving \<Rightarrow> xnum reduction list \<Rightarrow> bool" where
  "steps_to z m s t rs \<longleftrightarrow> records t = records s @ rs \<and> length rs \<le> 1 \<and> proved_infeasible t = proved_infeasible s \<and>
     sound_step (integers_of m) (problem_of m s) (problem_of m t) (undos (problem_of m s) rs) \<and>
     (\<forall>x. point_of (integers_of m) (problem_of m s) x \<longrightarrow> point_of (integers_of m) (problem_of m t) x) \<and>
     (list_all (clear_price z m) rs \<longrightarrow>
        lossless_step (integers_of m) (xval (sense_multiplier m)) (problem_of m s) (problem_of m t))"

definition advances :: "rat \<Rightarrow> xnum model \<Rightarrow> xnum presolving \<Rightarrow> xnum presolving \<Rightarrow> bool" where
  "advances z m s t \<longleftrightarrow> tidy m t \<and>
     ((\<exists>rs. steps_to z m s t rs) \<or> proved_infeasible t \<and> records t = records s \<and> (\<forall>x. \<not> point_of (integers_of m) (problem_of m s) x))"

lemma steps_to_quiet:
  assumes "records t = records s" "proved_infeasible t = proved_infeasible s"
    "sound_step (integers_of m) (problem_of m s) (problem_of m t) (\<lambda>x. x)"
    "\<And>sg. lossless_step (integers_of m) sg (problem_of m s) (problem_of m t)"
  shows "steps_to z m s t []"
  using assms by (auto simp: steps_to_def lossless_step_def fun_eq_iff[of "undos _ _"] sound_step_def)

lemma steps_to_record:
  assumes "records t = records s @ [r]" "proved_infeasible t = proved_infeasible s"
    "sound_step (integers_of m) (problem_of m s) (problem_of m t) (undo (problem_of m s) r)"
    "\<And>x. point_of (integers_of m) (problem_of m s) x \<Longrightarrow> point_of (integers_of m) (problem_of m t) x"
    "clear_price z m r \<Longrightarrow> lossless_step (integers_of m) (xval (sense_multiplier m)) (problem_of m s) (problem_of m t)"
  shows "steps_to z m s t [r]"
  using assms by (simp add: steps_to_def sound_step_def)

text \<open>A step after one that moved only bounds.\<close>

lemma steps_after_quiet:
  assumes "records u = records s" "proved_infeasible u = proved_infeasible s"
    "sound_step (integers_of m) (problem_of m s) (problem_of m u) (\<lambda>x. x)"
    "\<And>sg. lossless_step (integers_of m) sg (problem_of m s) (problem_of m u)"
    and same: "p_cols (problem_of m u) = p_cols (problem_of m s)" "p_coef (problem_of m u) = p_coef (problem_of m s)"
    and t: "advances z m u t"
  shows "advances z m s t"
proof -
  have un: "undos (problem_of m u) rs x = undos (problem_of m s) rs x" for rs x
    by (cases rs) (simp_all add: undo_def same split: record_kind.split)
  have keep: "point_of (integers_of m) (problem_of m s) x \<Longrightarrow> point_of (integers_of m) (problem_of m u) x" for x
    using assms(4) by (simp add: lossless_step_def)
  have "steps_to z m s t rs" if "steps_to z m u t rs" for rs
    using that assms(1-4) keep lossless_trans[of "integers_of m" "xval (sense_multiplier m)" "problem_of m s" "problem_of m u" "problem_of m t"]
    unfolding steps_to_def by (auto simp: sound_step_def un)
  then show ?thesis using t keep assms(1) unfolding advances_def by auto
qed

lemma advances_refute:
  assumes "tidy m s" "\<And>x. \<not> point_of (integers_of m) (problem_of m s) x"
  shows "advances z m s (refute y s)"
proof -
  have "records (refute y s) = records s" "proved_infeasible (refute y s)" by (simp_all add: refute_def)
  then show ?thesis using assms by (simp add: advances_def tidy_reads)
qed

lemma advances_refl: "tidy m s \<Longrightarrow> advances z m s s"
  unfolding advances_def by (auto intro!: exI[of _ "[]"] steps_to_quiet sound_refl lossless_refl)

lemma advances_if:
  "(c \<Longrightarrow> advances z m s a) \<Longrightarrow> (\<not> c \<Longrightarrow> advances z m s b) \<Longrightarrow> advances z m s (if c then a else b)"
  by simp

section \<open>The reductions of a column\<close>

lemma live_numbers:
  assumes "tidy m s" "live_col m s j"
  shows "sides_ok (w_col_lower s ! j) (w_col_upper s ! j)" "xfinite (w_cost s ! j)" "j \<in> p_cols (problem_of m s)"
  using assms by (simp_all add: tidy_def numbers_def live_col_def problem_fields)

lemma live_rows:
  assumes "tidy m s" "live_row m s i"
  shows "sides_ok (w_row_lower s ! i) (w_row_upper s ! i)" "w_row_lower s ! i \<le> w_row_upper s ! i" "i \<in> p_rows (problem_of m s)"
  using assms by (simp_all add: tidy_def numbers_def problem_fields)

lemma fix_column_step:
  assumes ok: "model_ok z m" and t: "tidy m s" and j: "live_col m s j" and q: "\<not> w_quadratic s ! j"
    and f: "w_col_upper s ! j - w_col_lower s ! j \<le> X 0" "xfinite (w_col_lower s ! j)" "w_col_lower s ! j \<le> w_col_upper s ! j"
    and int: "col_type m ! j = kInteger \<Longrightarrow> xval (w_col_lower s ! j) \<in> \<int>"
  shows "advances z m s (fix_column (exact_scalar ft mt) m j s)"
proof -
  let ?t = "fix_column (exact_scalar ft mt) m j s" and ?P = "problem_of m s"
  obtain v where v: "w_col_lower s ! j = X v" using f(2) xfinite_X by blast
  have u: "w_col_upper s ! j = X v" using f v by (cases "w_col_upper s ! j") (auto simp: minus_xnum_def)
  note fo = fix_column_ok[OF ok t j v q, of ft mt]
  note same = step_same[OF fo(2)] same_problem_reads[OF fo(2)]
  note n = live_numbers[OF t j]
  have box: "p_lower ?P j = X v" "p_upper ?P j = X v" by (simp_all add: problem_fields v u)
  have eq: "?t = left_col (exact_scalar ft mt) m j (\<lambda>a. a * w_col_lower s ! j)
      (log_record ((new_reduction kFixedColumn j)\<lparr>rd_value := w_col_lower s ! j\<rparr>) s)"
    using t j by (intro fix_column_eq) (simp_all add: tidy_def live_col_def)
  have rec: "records ?t = records s @ [(new_reduction kFixedColumn j)\<lparr>rd_value := X v\<rparr>]" "proved_infeasible ?t = proved_infeasible s"
    unfolding eq left_col_more log_record_fields by (simp_all add: v)
  have un: "undo ?P ((new_reduction kFixedColumn j)\<lparr>rd_value := X v\<rparr>) = (\<lambda>x. x(j := v))"
    by (simp add: undo_def new_reduction_def fun_eq_iff)
  have snd: "sound_step (integers_of m) ?P (fix_col j v ?P) (\<lambda>x. x(j := v))"
    using n(3) box int v by (intro fix_col_sound) (auto simp: integers_of_def)
  have less: "lossless_step (integers_of m) sg ?P (fix_col j v ?P)" for sg
    by (rule fix_col_lossless[OF finite_cols n(3) box])
  have "steps_to z m s ?t [(new_reduction kFixedColumn j)\<lparr>rd_value := X v\<rparr>]"
    by (rule steps_to_record[OF rec]) (use snd less in \<open>simp_all add: un same lossless_step_def\<close>)
  then show ?thesis using fo(1) by (auto simp: advances_def)
qed

lemma park_column_eq:
  "park_column (exact_scalar ft mt) (exact_pt z) m j s =
    (let v = parked_value (exact_scalar ft mt) m j s in
     if \<not> xfinite v then s
     else if col_type m ! j = kInteger \<and> X 0 < \<bar>v - xround v\<bar> then s\<lparr>integer_declined := integer_declined s + 1\<rparr>
     else parked s j v)"
  by (simp add: park_column_def exact_pt_def exact_scalar_def parked_def Let_def)

lemma park_column_step:
  assumes ok: "model_ok z m" and t: "tidy m s" and j: "live_col m s j" and q: "\<not> w_quadratic s ! j"
    and c: "w_col_count s ! j = 0" and le: "w_col_lower s ! j \<le> w_col_upper s ! j"
  shows "advances z m s (park_column (exact_scalar ft mt) (exact_pt z) m j s)"
proof -
  let ?P = "problem_of m s" and ?v = "parked_value (exact_scalar ft mt) m j s" and ?ints = "integers_of m"
  have b: "books m s" using t by (simp add: tidy_def)
  note n = live_numbers[OF t j]
  have empty: "\<forall>i \<in> p_rows ?P. p_coef ?P i j = 0" using column_empty[OF b j c] by (simp add: problem_fields)
  show ?thesis
  proof (cases "xfinite ?v \<and> \<not> (col_type m ! j = kInteger \<and> X 0 < \<bar>?v - xround ?v\<bar>)")
    case False
    then have "park_column (exact_scalar ft mt) (exact_pt z) m j s = s \<or>
        park_column (exact_scalar ft mt) (exact_pt z) m j s = s\<lparr>integer_declined := integer_declined s + 1\<rparr>"
      unfolding park_column_eq Let_def by auto
    moreover have "advances z m s (s\<lparr>integer_declined := integer_declined s + 1\<rparr>)"
      using t steps_to_quiet[of "s\<lparr>integer_declined := integer_declined s + 1\<rparr>" s m z]
      by (auto simp: advances_def tidy_reads problem_reads sound_refl lossless_refl)
    ultimately show ?thesis using advances_refl[OF t] by auto
  next
    case True
    then obtain v where v: "?v = X v" using xfinite_X by blast
    let ?t = "parked s j (X v)" and ?r = "(new_reduction kEmptyColumn j)\<lparr>rd_value := X v\<rparr>"
    have eq: "park_column (exact_scalar ft mt) (exact_pt z) m j s = ?t" unfolding park_column_eq Let_def using True v by auto
    have int: "col_type m ! j = kInteger \<longrightarrow> v \<in> \<int>" using True v whole_rounded[of v] by auto
    note po = parked_ok[OF t j c q, of v]
    note pv = parked_value_ok[OF n(1) le n(2) v]
    have rec: "records ?t = records s @ [?r]" "proved_infeasible ?t = proved_infeasible s" by (simp_all add: parked_def log_record_def)
    have un: "undo ?P ?r = (\<lambda>x. x(j := v))" by (simp add: undo_def new_reduction_def fun_eq_iff)
    have sides: "\<forall>i \<in> p_rows ?P. \<not> xnan (p_row_lower ?P i) \<and> \<not> xnan (p_row_upper ?P i)"
      using t by (force simp: problem_fields tidy_def numbers_def sides_ok_def elim!: xnan.elims)
    note same = step_same[OF park_same[OF empty sides, of v]]
    have "sound_step ?ints ?P (fix_col j v ?P) (\<lambda>x. x(j := v))"
      by (rule fix_col_sound[OF finite_cols n(3)]) (use pv(1,2) int in \<open>auto simp: integers_of_def problem_fields\<close>)
    then have snd: "sound_step ?ints ?P (problem_of m ?t) (undo ?P ?r)" by (simp add: un po(2) same)
    have "lossless_step ?ints (xval (sense_multiplier m)) ?P (park_col j v ?P)"
      using pv(3,4) by (intro park_col_lossless[OF finite_cols n(3) empty]) (simp_all add: problem_fields)
    then have less: "lossless_step ?ints (xval (sense_multiplier m)) ?P (problem_of m ?t)" by (simp add: po(2))
    have "steps_to z m s ?t [?r]"
      by (rule steps_to_record[OF rec snd]) (use less in \<open>simp_all add: lossless_step_def\<close>)
    then show ?thesis unfolding eq using po(1) by (auto simp: advances_def)
  qed
qed

lemma free_singleton_step:
  assumes ok: "model_ok z m" and t: "tidy m s" and j: "live_col m s j" and q: "\<not> w_quadratic s ! j"
    and c: "w_col_count s ! j = 1" and real: "col_type m ! j \<noteq> kInteger"
    and free: "\<not> xfinite (w_col_lower s ! j)" "\<not> xfinite (w_col_upper s ! j)"
  shows "advances z m s (free_singleton (exact_scalar ft mt) (exact_pt z) m j s)"
proof -
  let ?P = "problem_of m s" and ?ints = "integers_of m" and ?t = "free_singleton (exact_scalar ft mt) (exact_pt z) m j s"
  have b: "books m s" using t by (simp add: tidy_def)
  note n = live_numbers[OF t j]
  have z: "0 < z" using ok by (simp add: model_ok_def)
  show ?thesis
  proof (cases "?t = s")
    case True
    then show ?thesis using advances_refl[OF t] by simp
  next
    case False
    then obtain r a v where f: "singleton_row m j s = Some (r, a)" "\<not> \<bar>a\<bar> < X z"
        "row_target (exact_scalar ft mt) (exact_pt z) m j r a s = Some v" "?t = eliminate_singleton j r a v s"
      unfolding free_singleton_def by (auto simp: exact_pt_def split: option.splits if_splits)
    note sr = singleton_row_ok[OF ok b j c f(1)]
    have entry: "entries_ok m s" "r < num_rows m" using b sr(1) by (simp_all add: books_def live_row_def)
    have a: "a = X (coef s r j)" by (rule finite_coef[OF entry sr(2)])
    then have qa: "coef s r j \<noteq> 0" using f(2) z by auto
    obtain cj where cj: "w_cost s ! j = X cj" using n(2) xfinite_X by blast
    let ?sg = "xval (sense_multiplier m)"
    note lr = live_rows[OF t sr(1)]
    obtain target where target: "v = X target" "w_row_lower s ! r \<le> X target" "X target \<le> w_row_upper s ! r"
        "z < ?sg * cj / coef s r j \<longrightarrow> w_row_lower s ! r = X target" "?sg * cj / coef s r j < - z \<longrightarrow> w_row_upper s ! r = X target"
      using row_target_ok[OF lr(1,2) cj a qa z sense_X f(3)] by blast
    note el = eliminate_ok[OF ok t j q sr(1,2) a qa, of target]
    note same = step_same[OF el(2)] same_problem_reads[OF el(2)]
    let ?r = "(new_reduction kFreeColumnSingleton r)\<lparr>rd_column := j, rd_coefficient := a, rd_rhs := X target,
        rd_eliminated_cost := w_cost s ! j\<rparr>"
    have eq: "?t = eliminate_singleton j r a (X target) s" using f(4) target(1) by simp
    have rec: "records (eliminate_singleton j r a (X target) s) = records s @ [?r]"
      "proved_infeasible (eliminate_singleton j r a (X target) s) = proved_infeasible s"
      unfolding eliminate_eq kill_row_more by (simp_all add: freed_def log_record_def)
    have alone: "\<forall>i \<in> p_rows ?P. i \<noteq> r \<longrightarrow> p_coef ?P i j = 0" using sr(3) by (simp add: problem_fields)
    have box: "p_lower ?P j = XMInf" "p_upper ?P j = XPInf"
      using free n(1) by (cases "w_col_lower s ! j"; cases "w_col_upper s ! j"; simp add: problem_fields sides_ok_def)+
    have qa': "p_coef ?P r j \<noteq> 0" using qa by (simp add: problem_fields)
    have un: "undo ?P ?r = (\<lambda>x. x(j := solve_row ?P r j target x))"
      using a by (simp add: undo_def new_reduction_def fun_eq_iff solve_row_def problem_fields)
    have "sound_step ?ints ?P (free_col j r target ?P) (\<lambda>x. x(j := solve_row ?P r j target x))"
      by (rule free_col_sound[OF finite_cols n(3) qa' _ alone box])
         (use real target(2,3) in \<open>simp_all add: problem_fields integers_of_def\<close>)
    then have snd: "sound_step ?ints ?P (problem_of m (eliminate_singleton j r a (X target) s)) (undo ?P ?r)"
      by (simp add: un same)
    have keep: "point_of ?ints (problem_of m (eliminate_singleton j r a (X target) s)) x" if "point_of ?ints ?P x" for x
      unfolding same by (rule free_col_keeps[OF finite_cols n(3) alone that])
    have less: "lossless_step ?ints ?sg ?P (problem_of m (eliminate_singleton j r a (X target) s))" if clear: "clear_price z m ?r"
    proof -
      have rate: "?sg * cj / coef s r j = 0 \<or> z < \<bar>?sg * cj / coef s r j\<bar>"
        using clear a cj by (simp add: clear_price_def new_reduction_def)
      have best: "0 < ?sg * p_cost ?P j / p_coef ?P r j \<Longrightarrow> p_row_lower ?P r = X target"
        "?sg * p_cost ?P j / p_coef ?P r j < 0 \<Longrightarrow> p_row_upper ?P r = X target"
        using rate target(4,5) by (auto simp: problem_fields cj)
      show ?thesis
        using keep free_col_no_worse[OF finite_cols n(3) qa' lr(3) _ best] unfolding lossless_step_def same by blast
    qed
    have "steps_to z m s ?t [?r]" unfolding eq by (rule steps_to_record[OF rec snd keep less])
    then show ?thesis using el(1) by (auto simp: advances_def eq)
  qed
qed

lemma round_bounds_integral:
  fixes ft mt z :: rat
  assumes t: "tidy m s" and j: "live_col m s j" and i: "col_type m ! j = kInteger"
  defines "u \<equiv> round_bounds (exact_scalar ft mt) (exact_pt z) m j s"
  shows "xfinite (w_col_lower u ! j) \<Longrightarrow> xval (w_col_lower u ! j) \<in> \<int>"
proof -
  let ?lo = "w_col_lower s ! j" and ?up = "w_col_upper s ! j"
  have jj: "j < length (w_col_lower s)" using t j by (simp add: live_col_def tidy_def books_def sized_def)
  have eq: "u = (if ?lo < ceil_bound ?lo \<or> floor_bound ?up < ?up then
      s\<lparr>w_col_lower := (w_col_lower s)[j := ceil_bound ?lo], w_col_upper := (w_col_upper s)[j := floor_bound ?up],
        bounds_rounded := bounds_rounded s + 1, pass_changed := True\<rparr> else s)"
    unfolding u_def round_bounds_def Let_def using i
    by (simp add: exact_scalar_def exact_pt_def round_integer_lower_def round_integer_upper_def ceil_bound_def floor_bound_def)
  assume f: "xfinite (w_col_lower u ! j)"
  show "xval (w_col_lower u ! j) \<in> \<int>"
  proof (cases "?lo < ceil_bound ?lo \<or> floor_bound ?up < ?up")
    case True
    then have "w_col_lower u ! j = ceil_bound ?lo" using eq jj by auto
    then show ?thesis using f by (cases ?lo) (auto simp: ceil_bound_def)
  next
    case False
    then have lo: "w_col_lower u ! j = ?lo" "\<not> ?lo < ceil_bound ?lo" using eq by auto
    obtain q where q: "?lo = X q" using f lo(1) xfinite_X by metis
    then have "of_int \<lceil>q\<rceil> \<le> q" using lo(2) by (simp add: ceil_bound_def)
    then have "q = of_int \<lceil>q\<rceil>" using le_of_int_ceiling[of q] by (rule antisym[OF _ , rotated])
    then show ?thesis using lo(1) q by (metis Ints_of_int xval.simps(1))
  qed
qed

lemma reduce_column_step:
  assumes ok: "model_ok z m" and t: "tidy m s0" and j: "j < num_cols m"
  shows "advances z m s0 (reduce_column (exact_scalar ft mt) (exact_pt z) m j s0)"
proof (cases "proved_infeasible s0 \<or> w_col_dead s0 ! j")
  case True
  then show ?thesis using advances_refl[OF t] by (simp add: reduce_column_def)
next
  case False
  then have lj: "live_col m s0 j" using j by (simp add: live_col_def)
  define s where "s = round_bounds (exact_scalar ft mt) (exact_pt z) m j s0"
  note r = round_bounds_ok[OF t lj, where ft = ft and mt = mt and z = z, folded s_def]
  have lj': "live_col m s j" using lj r(7) by (simp add: live_col_def)
  note n = live_numbers[OF r(1) lj']
  let ?lo = "w_col_lower s ! j" and ?up = "w_col_upper s ! j"
  define s1 where "s1 = (if w_quadratic s ! j \<and> ?up - ?lo \<le> X 0 \<and> xfinite ?lo
      then s\<lparr>quadratic_protected := quadratic_protected s + 1\<rparr> else s)"
  have s1: "tidy m s1" "live_col m s1 j" "records s1 = records s" "proved_infeasible s1 = proved_infeasible s"
    "problem_of m s1 = problem_of m s" "w_quadratic s1 = w_quadratic s" "w_col_lower s1 = w_col_lower s" "w_col_upper s1 = w_col_upper s"
    using r(1) lj' by (auto simp: s1_def tidy_reads problem_reads live_col_def)
  have quiet: "advances z m s1 v \<Longrightarrow> advances z m s0 v" for v
  proof (rule steps_after_quiet[of s1])
    show "p_cols (problem_of m s1) = p_cols (problem_of m s0)" "p_coef (problem_of m s1) = p_coef (problem_of m s0)"
      using r(6-8) unfolding s1(5) by (simp_all add: problem_fields live_col_def coef_def fun_eq_iff)
  qed (use s1 r in simp_all)
  have quiet0: "advances z m s v \<Longrightarrow> advances z m s0 v" for v
  proof (rule steps_after_quiet[of s])
    show "p_cols (problem_of m s) = p_cols (problem_of m s0)" "p_coef (problem_of m s) = p_coef (problem_of m s0)"
      using r(6-8) by (simp_all add: problem_fields live_col_def coef_def fun_eq_iff)
  qed (use r in simp_all)
  have eq: "reduce_column (exact_scalar ft mt) (exact_pt z) m j s0 =
      (if ?up + X 0 < ?lo then refute (crossed_candidate s j) s
       else if \<not> w_quadratic s ! j \<and> ?up - ?lo \<le> X 0 \<and> xfinite ?lo then fix_column (exact_scalar ft mt) m j s1
       else if w_col_count s1 ! j = 0 \<and> \<not> w_quadratic s ! j then park_column (exact_scalar ft mt) (exact_pt z) m j s1
       else if w_col_count s1 ! j = 1 \<and> \<not> w_quadratic s ! j \<and> col_type m ! j \<noteq> kInteger \<and> \<not> xfinite ?lo \<and> \<not> xfinite ?up
         then free_singleton (exact_scalar ft mt) (exact_pt z) m j s1
       else s1)"
    using False unfolding reduce_column_def s_def[symmetric] Let_def s1_def by (simp add: exact_scalar_def exact_pt_def)
  show ?thesis
  proof (cases "?up + X 0 < ?lo")
    case True
    have "\<not> point_of (integers_of m) (problem_of m s) x" for x
    proof
      assume "point_of (integers_of m) (problem_of m s) x"
      then have "?lo \<le> X (x j)" "X (x j) \<le> ?up" using n(3) by (auto simp: point_of_def in_box_def problem_fields)
      then show False using True by (cases ?lo; cases ?up; simp add: plus_xnum_def)
    qed
    from advances_refute[OF r(1) this] show ?thesis unfolding eq if_P[OF True] by (rule quiet0)
  next
    case no: False
    have le: "w_col_lower s1 ! j \<le> w_col_upper s1 ! j" using no n(1) s1 by (cases ?lo; cases ?up; auto simp: sides_ok_def)
    have int: "col_type m ! j = kInteger \<Longrightarrow> xfinite (w_col_lower s1 ! j) \<Longrightarrow> xval (w_col_lower s1 ! j) \<in> \<int>"
      using round_bounds_integral[OF t lj, where ft = ft and mt = mt and z = z] s1(7) s_def by simp
    show ?thesis
      unfolding eq if_not_P[OF no]
    proof (intro quiet advances_if, goal_cases)
      case 1
      show ?case by (rule fix_column_step[OF ok s1(1,2)]) (use 1 s1 le int in simp_all)
    next
      case 2
      show ?case by (rule park_column_step[OF ok s1(1,2)]) (use 2 s1 le in simp_all)
    next
      case 3
      show ?case by (rule free_singleton_step[OF ok s1(1,2)]) (use 3 s1 in simp_all)
    next
      case 4
      show ?case by (rule advances_refl[OF s1(1)])
    qed
  qed
qed

section \<open>Rows that drop\<close>

lemma drop_row_ok:
  assumes t: "tidy m s" and i: "live_row m s i" and k: "k \<in> {kEmptyRow, kRedundantRow}"
    and holds: "\<And>x. \<forall>j \<in> p_cols (problem_of m s). in_box (integers_of m) (problem_of m s) x j \<Longrightarrow> row_holds (problem_of m s) x i"
  shows "advances z m s (drop_row k i s)"
proof -
  let ?r = "new_reduction k i :: xnum reduction" and ?u = "log_record (new_reduction k i) s"
  have "records_ok m ?u" using t k unfolding tidy_def records_ok_def log_record_fields by (auto simp: new_reduction_def)
  moreover have "numbers m ?u" using t by (simp add: tidy_def numbers_def log_record_fields)
  ultimately have u: "tidy m ?u" "live_row m ?u i" "sized m ?u"
    using t i books_log[of m s ?r] by (simp_all add: tidy_def books_def log_record_fields)
  have "problem_of m ?u = problem_of m s"
    using k by (auto simp: problem_of_def log_record_fields coef_def[abs_def] removed_cost_def new_reduction_def)
  then have p: "problem_of m (drop_row k i s) = drop_rows i (problem_of m s)"
    using kill_row_problem[OF u(3,2)] by (simp add: drop_row_def)
  have "undo (problem_of m s) ?r = (\<lambda>x. x)" using k by (auto simp: undo_def new_reduction_def)
  then have "steps_to z m s (drop_row k i s) [?r]"
    using drop_row_step[OF holds] unfolding p[symmetric]
    by (intro steps_to_record) (simp_all add: drop_row_def kill_row_more log_record_fields lossless_step_def)
  then show ?thesis using kill_row_tidy[OF u(1,2)] by (auto simp: advances_def drop_row_def)
qed

lemma row_entries:
  assumes "books m s" "live_row m s i"
  shows "distinct (map fst (w_rows s ! i))" "(k, a) \<in> set (w_rows s ! i) \<Longrightarrow> k < num_cols m \<and> a = X (coef s i k)"
proof -
  have "entries_ok m s" "i < num_rows m" using assms by (simp_all add: books_def live_row_def)
  then show "distinct (map fst (w_rows s ! i))" "(k, a) \<in> set (w_rows s ! i) \<Longrightarrow> k < num_cols m \<and> a = X (coef s i k)"
    using finite_coef[of m s i k a] by (auto simp: entries_ok_def) fastforce
qed

lemma empty_row_activity:
  assumes b: "books m s" and i: "live_row m s i" and c: "w_row_count s ! i = 0"
  shows "activity (problem_of m s) x i = 0"
proof -
  have "int (length (live_entries s i)) \<le> w_row_count s ! i" using b i by (simp add: books_def counts_ok_def)
  then show ?thesis using c activity_entries[OF b i] by simp
qed

section \<open>Bounds implied by a row\<close>

definition opt_within :: "xnum option \<times> xnum option \<Rightarrow> rat \<Rightarrow> bool" where
  "opt_within b q \<longleftrightarrow> (\<forall>v. fst b = Some v \<longrightarrow> v \<le> X q) \<and> (\<forall>v. snd b = Some v \<longrightarrow> X q \<le> v)"

definition opt_finite :: "xnum option \<times> xnum option \<Rightarrow> bool" where
  "opt_finite b \<longleftrightarrow> (\<forall>v. fst b = Some v \<or> snd b = Some v \<longrightarrow> xfinite v)"

lemma finite_sides_within:
  assumes "sides_ok lo up"
  shows "opt_within (finite_side (exact_scalar ft mt) lo, finite_side (exact_scalar ft mt) up) q \<longleftrightarrow> lo \<le> X q \<and> X q \<le> up"
    "opt_finite (finite_side (exact_scalar ft mt) lo, finite_side (exact_scalar ft mt) up)"
proof -
  have "(\<forall>v. finite_side (exact_scalar ft mt) lo = Some v \<longrightarrow> v \<le> X q) \<longleftrightarrow> lo \<le> X q"
    using assms by (cases lo) (simp_all add: finite_side_def exact_scalar_def sides_ok_def)
  moreover have "(\<forall>v. finite_side (exact_scalar ft mt) up = Some v \<longrightarrow> X q \<le> v) \<longleftrightarrow> X q \<le> up"
    using assms by (cases up) (simp_all add: finite_side_def exact_scalar_def sides_ok_def)
  ultimately show "opt_within (finite_side (exact_scalar ft mt) lo, finite_side (exact_scalar ft mt) up) q \<longleftrightarrow> lo \<le> X q \<and> X q \<le> up"
    by (simp add: opt_within_def)
  show "opt_finite (finite_side (exact_scalar ft mt) lo, finite_side (exact_scalar ft mt) up)"
    by (auto simp: opt_finite_def finite_side_def exact_scalar_def split: if_splits)
qed

lemma quotient_exact:
  assumes "a \<noteq> 0" "\<And>w. v = Some w \<Longrightarrow> xfinite w"
  shows "quotient (exact_scalar ft mt) (X a) v = map_option (\<lambda>v. X (xval v / a)) v"
proof (cases v)
  case (Some w)
  then obtain q where "w = X q" using assms(2) xfinite_X by blast
  then show ?thesis using Some assms(1) by (simp add: quotient_def exact_scalar_def)
qed (simp add: quotient_def)

lemma opt_within_X:
  "opt_finite (l, u) \<Longrightarrow> opt_within (l, u) q \<longleftrightarrow> (\<forall>v. l = Some v \<longrightarrow> xval v \<le> q) \<and> (\<forall>v. u = Some v \<longrightarrow> q \<le> xval v)"
  unfolding opt_within_def opt_finite_def by (metis fst_conv snd_conv xfinite_X xleq_simps(1))

lemma implied_within:
  assumes a: "a \<noteq> 0" and f: "opt_finite (l, u)"
  shows "opt_finite (implied_bounds (exact_scalar ft mt) (X a) (l, u))"
    "opt_within (implied_bounds (exact_scalar ft mt) (X a) (l, u)) q \<longleftrightarrow> opt_within (l, u) (a * q)"
proof -
  have q: "quotient (exact_scalar ft mt) (X a) l = map_option (\<lambda>v. X (xval v / a)) l"
    "quotient (exact_scalar ft mt) (X a) u = map_option (\<lambda>v. X (xval v / a)) u"
    using f by (auto simp: opt_finite_def intro: quotient_exact[OF a])
  have eq: "implied_bounds (exact_scalar ft mt) (X a) (l, u) =
      (if 0 < a then (map_option (\<lambda>v. X (xval v / a)) l, map_option (\<lambda>v. X (xval v / a)) u)
       else (map_option (\<lambda>v. X (xval v / a)) u, map_option (\<lambda>v. X (xval v / a)) l))"
    by (simp add: implied_bounds_def q X_consts)
  show fin: "opt_finite (implied_bounds (exact_scalar ft mt) (X a) (l, u))" unfolding eq by (auto simp: opt_finite_def)
  show "opt_within (implied_bounds (exact_scalar ft mt) (X a) (l, u)) q \<longleftrightarrow> opt_within (l, u) (a * q)"
  proof (cases "0 < a")
    case True
    then show ?thesis unfolding opt_within_X[OF f] eq by (auto simp: opt_within_def divide_le_eq le_divide_eq mult.commute)
  next
    case False
    then have "a < 0" using a by simp
    then show ?thesis unfolding opt_within_X[OF f] eq
      by (auto simp: opt_within_def divide_le_eq le_divide_eq mult.commute)
  qed
qed

lemma round_within:
  assumes f: "opt_finite b"
  shows "opt_finite (round_implied (exact_scalar ft mt) (exact_pt z) m c b)"
    "opt_within (round_implied (exact_scalar ft mt) (exact_pt z) m c b) q \<Longrightarrow> opt_within b q"
    "opt_within b q \<Longrightarrow> (col_type m ! c = kInteger \<longrightarrow> q \<in> \<int>) \<Longrightarrow>
      opt_within (round_implied (exact_scalar ft mt) (exact_pt z) m c b) q"
proof -
  obtain l u where b: "b = (l, u)" by (cases b)
  have eq: "round_implied (exact_scalar ft mt) (exact_pt z) m c b =
      (if col_type m ! c = kInteger then (map_option ceil_bound l, map_option floor_bound u) else b)"
  proof -
    have "map_option (round_integer_lower (exact_scalar ft mt) (exact_pt z)) l = map_option ceil_bound l"
      "map_option (round_integer_upper (exact_scalar ft mt) (exact_pt z)) u = map_option floor_bound u"
      using f by (auto simp: b opt_finite_def round_integer_lower_def round_integer_upper_def exact_scalar_def exact_pt_def
          ceil_bound_def floor_bound_def intro!: option.map_cong)
    then show ?thesis by (simp add: round_implied_def b)
  qed
  have fin: "xfinite w \<Longrightarrow> xfinite (ceil_bound w)" "xfinite w \<Longrightarrow> xfinite (floor_bound w)" for w
    by (cases w; simp add: ceil_bound_def floor_bound_def)+
  show "opt_finite (round_implied (exact_scalar ft mt) (exact_pt z) m c b)"
    unfolding eq using f fin by (auto simp: b opt_finite_def)
  show "opt_within (round_implied (exact_scalar ft mt) (exact_pt z) m c b) q \<Longrightarrow> opt_within b q"
    unfolding eq using ceil_bound_le floor_bound_ge by (auto simp: b opt_within_def split: if_splits)
  show "opt_within b q \<Longrightarrow> (col_type m ! c = kInteger \<longrightarrow> q \<in> \<int>) \<Longrightarrow>
      opt_within (round_implied (exact_scalar ft mt) (exact_pt z) m c b) q"
    unfolding eq using ceil_bound_keeps floor_bound_keeps by (auto simp: b opt_within_def)
qed

end
