(* ===== verification/PresolveRows.thy ===== *)
theory PresolveRows
  imports PresolveSteps
begin

text \<open>
  The reductions of a row: a singleton row that becomes a bound, and an equation of two columns that
  eliminates one of them. Both set bounds of a column that the row implies.
\<close>

section \<open>A bound that moves inward\<close>

definition raise_lo :: "xnum \<Rightarrow> xnum option \<Rightarrow> xnum" where
  "raise_lo b l = (case l of None \<Rightarrow> b | Some v \<Rightarrow> if b < v then v else b)"

definition cut_up :: "xnum \<Rightarrow> xnum option \<Rightarrow> xnum" where
  "cut_up b u = (case u of None \<Rightarrow> b | Some v \<Rightarrow> if v < b then v else b)"

lemma raise_le:
  assumes "b \<noteq> XNaN" "\<And>v. l = Some v \<Longrightarrow> xfinite v"
  shows "raise_lo b l \<le> X q \<longleftrightarrow> b \<le> X q \<and> (\<forall>v. l = Some v \<longrightarrow> v \<le> X q)"
proof (cases l)
  case (Some v)
  then obtain r where "v = X r" using assms(2) xfinite_X by blast
  then show ?thesis using Some assms(1) by (cases b) (auto simp: raise_lo_def)
qed (simp add: raise_lo_def)

lemma cut_ge:
  assumes "b \<noteq> XNaN" "\<And>v. u = Some v \<Longrightarrow> xfinite v"
  shows "X q \<le> cut_up b u \<longleftrightarrow> X q \<le> b \<and> (\<forall>v. u = Some v \<longrightarrow> X q \<le> v)"
proof (cases u)
  case (Some v)
  then obtain r where "v = X r" using assms(2) xfinite_X by blast
  then show ?thesis using Some assms(1) by (cases b) (auto simp: cut_up_def)
qed (simp add: cut_up_def)

lemma moved_within:
  assumes "sides_ok lo up" "opt_finite b"
  shows "raise_lo lo (fst b) \<le> X q \<and> X q \<le> cut_up up (snd b) \<longleftrightarrow> lo \<le> X q \<and> X q \<le> up \<and> opt_within b q"
    "sides_ok (raise_lo lo (fst b)) (cut_up up (snd b))"
proof -
  have f: "fst b = Some v \<Longrightarrow> xfinite v" "snd b = Some v \<Longrightarrow> xfinite v" for v using assms(2) by (auto simp: opt_finite_def)
  have n: "lo \<noteq> XNaN" "up \<noteq> XNaN" using assms(1) by (simp_all add: sides_ok_def)
  show "raise_lo lo (fst b) \<le> X q \<and> X q \<le> cut_up up (snd b) \<longleftrightarrow> lo \<le> X q \<and> X q \<le> up \<and> opt_within b q"
    using raise_le[OF n(1) f(1), of "fst b" q] cut_ge[OF n(2) f(2), of "snd b" q] unfolding opt_within_def by blast
  have "raise_lo lo (fst b) \<in> {lo} \<union> {v. xfinite v}" "cut_up up (snd b) \<in> {up} \<union> {v. xfinite v}"
    using f by (auto simp: raise_lo_def cut_up_def split: option.split)
  then show "sides_ok (raise_lo lo (fst b)) (cut_up up (snd b))" using assms(1) by (auto simp: sides_ok_def)
qed

lemma tighten_by_row_fields:
  fixes w :: "(xnum, 'z) workspace_scheme"
  defines "t \<equiv> \<lambda>i c a b (w :: (xnum, 'z) workspace_scheme). tighten_by_row i c a b w"
  shows "w_col_lower (t i c a b w) = (w_col_lower w)[c := raise_lo (w_col_lower w ! c) (fst b)]"
    "w_col_upper (t i c a b w) = (w_col_upper w)[c := cut_up (w_col_upper w ! c) (snd b)]"
    "w_row_lower (t i c a b w) = w_row_lower w" "w_row_upper (t i c a b w) = w_row_upper w"
    "w_col_dead (t i c a b w) = w_col_dead w" "w_row_dead (t i c a b w) = w_row_dead w" "w_quadratic (t i c a b w) = w_quadratic w"
    "w_rows (t i c a b w) = w_rows w" "w_col_count (t i c a b w) = w_col_count w" "w_row_count (t i c a b w) = w_row_count w"
    "w_cost (t i c a b w) = w_cost w" "w_offset (t i c a b w) = w_offset w" "w_doubleton (t i c a b w) = w_doubleton w"
    "w_singleton (t i c a b w) = w_singleton w" "w_delta (t i c a b w) = w_delta w" "w_new_rows (t i c a b w) = w_new_rows w"
    "workspace.more (t i c a b w) = workspace.more w"
  unfolding t_def by (cases b; auto simp: tighten_by_row_def raise_lo_def cut_up_def Let_def split: option.split)+

lemma tighten_by_row_more:
  "records (tighten_by_row i c a b s) = records s" "proved_infeasible (tighten_by_row i c a b s) = proved_infeasible s"
  by (cases b; auto simp: tighten_by_row_def Let_def split: option.split)+

text \<open>The new workspace where only bounds, marks and a record that holds no value are new.\<close>

lemma moved_bounds_ok:
  assumes t: "tidy m s" and j: "j < num_cols m" and so: "sides_ok lo up"
    and b: "books m t" "w_col_lower t = (w_col_lower s)[j := lo]" "w_col_upper t = (w_col_upper s)[j := up]"
    and same: "w_row_lower t = w_row_lower s" "w_row_upper t = w_row_upper s" "w_col_dead t = w_col_dead s"
      "w_row_dead t = w_row_dead s" "w_quadratic t = w_quadratic s" "w_rows t = w_rows s" "w_cost t = w_cost s" "w_offset t = w_offset s"
    and r: "records t = records s @ [r]" "rd_kind r \<notin> {kFixedColumn, kEmptyColumn}"
  shows "tidy m t" "same_problem (problem_of m t) (set_bounds j lo up (problem_of m s))"
proof -
  have sz: "sized m s" using t by (simp add: tidy_def books_def)
  have eqs: "live_row m t = live_row m s" "live_col m t = live_col m s" by (simp_all add: live_row_def live_col_def fun_eq_iff same)
  have "numbers m t" using t so j sz unfolding tidy_def numbers_def eqs same by (auto simp: b nth_list_update sized_def)
  moreover have "records_ok m t" using t r unfolding tidy_def records_ok_def same by auto
  ultimately show "tidy m t" using b(1) by (simp add: tidy_def)
  have "coef t = coef s" by (simp add: coef_def[abs_def] same)
  moreover have "removed_cost (w_cost s) r = 0" using r(2) by (simp add: removed_cost_def)
  ultimately show "same_problem (problem_of m t) (set_bounds j lo up (problem_of m s))"
    using j sz unfolding same_problem_def
    by (auto simp: problem_of_def set_bounds_def eqs same b r sized_def nth_list_update)
qed

section \<open>A singleton row\<close>

lemma absorb_step:
  assumes ok: "model_ok z m" and t: "tidy m s" and i: "live_row m s i" and c: "w_row_count s ! i = 1"
  shows "advances z m s (absorb_singleton_row (exact_scalar ft mt) (exact_pt z) m i s)"
proof (cases "absorb_singleton_row (exact_scalar ft mt) (exact_pt z) m i s = s")
  case True
  then show ?thesis using advances_refl[OF t] by simp
next
  case False
  let ?sc = "exact_scalar ft mt" and ?P = "problem_of m s" and ?ints = "integers_of m"
  let ?t = "absorb_singleton_row (exact_scalar ft mt) (exact_pt z) m i s"
  let ?lo = "w_row_lower s ! i" and ?up = "w_row_upper s ! i"
  have b: "books m s" using t by (simp add: tidy_def)
  obtain k a es where e: "live_entries s i = (k, a) # es" and z: "\<not> \<bar>a\<bar> < X z"
    using False by (auto simp: absorb_singleton_row_def exact_pt_def split: list.splits if_splits)
  have "int (length (live_entries s i)) \<le> w_row_count s ! i" using b i by (simp add: books_def counts_ok_def)
  then have one: "live_entries s i = [(k, a)]" using c e by simp
  then have "(k, a) \<in> set (live_entries s i)" by simp
  then have mem: "(k, a) \<in> set (w_rows s ! i)" "\<not> w_col_dead s ! k" by (auto simp: live_entries_def)
  note re = row_entries[OF b i]
  have k: "k < num_cols m" and a: "a = X (coef s i k)" using re(2)[OF mem(1)] by simp_all
  have lk: "live_col m s k" using k mem(2) by (simp add: live_col_def)
  have a0: "coef s i k \<noteq> 0" using z a ok by (auto simp: model_ok_def)
  note n = live_numbers[OF t lk] and lr = live_rows[OF t i]
  define imp where "imp = round_implied ?sc (exact_pt z) m k (implied_bounds ?sc a (finite_side ?sc ?lo, finite_side ?sc ?up))"
  have w0: "opt_within (finite_side ?sc ?lo, finite_side ?sc ?up) q \<longleftrightarrow> ?lo \<le> X q \<and> X q \<le> ?up" for q
    by (rule finite_sides_within[OF lr(1)])
  note f0 = finite_sides_within(2)[OF lr(1), of ft mt]
  note w1 = implied_within[OF a0 f0, folded a]
  have fin: "opt_finite imp" unfolding imp_def by (rule round_within(1)[OF w1(1)])
  have w2: "opt_within imp q \<Longrightarrow> ?lo \<le> X (coef s i k * q) \<and> X (coef s i k * q) \<le> ?up" for q
    using round_within(2)[OF w1(1)] w1(2) w0 unfolding imp_def by blast
  have w3: "?lo \<le> X (coef s i k * q) \<and> X (coef s i k * q) \<le> ?up \<Longrightarrow> (col_type m ! k = kInteger \<longrightarrow> q \<in> \<int>) \<Longrightarrow> opt_within imp q" for q
    using round_within(3)[OF w1(1)] w1(2) w0 unfolding imp_def by blast
  let ?nl = "raise_lo (w_col_lower s ! k) (fst imp)" and ?nu = "cut_up (w_col_upper s ! k) (snd imp)"
  note mv = moved_within[OF n(1) fin]
  let ?r = "(new_reduction kSingletonRow i)\<lparr>rd_column := k, rd_coefficient := a, rd_row_lower := ?lo, rd_row_upper := ?up\<rparr>"
  let ?s1 = "log_record ?r s"
  let ?u = "tighten_by_row i k a imp (?s1\<lparr>w_singleton := (w_singleton ?s1)[k := True]\<rparr>)"
  have eq: "?t = kill_row i ?u"
    using False z one by (auto simp: absorb_singleton_row_def exact_pt_def imp_def Let_def split: if_splits)
  have "sized m ?u" using b unfolding sized_def tighten_by_row_fields by (simp add: books_def sized_def log_record_def)
  then have bu: "books m ?u" by (rule books_other[of m _ s]) (simp_all add: tighten_by_row_fields log_record_def b)
  note mb = moved_bounds_ok[OF t k mv(2), of ?u ?r]
  have fields: "w_col_lower ?u = (w_col_lower s)[k := ?nl]" "w_col_upper ?u = (w_col_upper s)[k := ?nu]"
      "w_row_lower ?u = w_row_lower s" "w_row_upper ?u = w_row_upper s" "w_col_dead ?u = w_col_dead s" "w_row_dead ?u = w_row_dead s"
      "w_quadratic ?u = w_quadratic s" "w_rows ?u = w_rows s" "w_cost ?u = w_cost s" "w_offset ?u = w_offset s"
      "records ?u = records s @ [?r]" "rd_kind ?r \<notin> {kFixedColumn, kEmptyColumn}"
    by (simp_all add: tighten_by_row_fields tighten_by_row_more log_record_def new_reduction_def)
  note u = mb[OF bu fields]
  have ui: "live_row m ?u i" using i by (simp add: live_row_def tighten_by_row_fields log_record_fields)
  let ?Q = "set_bounds k ?nl ?nu ?P"
  have act: "activity ?P x i = coef s i k * x k" for x
    unfolding activity_entries[OF b i] one using a by simp
  have box: "?nl \<le> X (x k) \<and> X (x k) \<le> ?nu" if "point_of ?ints ?P x" for x
  proof -
    have "in_box ?ints ?P x k" "row_holds ?P x i" using that n(3) lr(3) by (auto simp: point_of_def)
    then show ?thesis using w3[of "x k"] k unfolding mv(1) by (simp add: in_box_def row_holds_def act problem_fields integers_of_def)
  qed
  have inner: "?nl \<le> X q \<Longrightarrow> X q \<le> ?nu \<Longrightarrow> p_lower ?P k \<le> X q \<and> X q \<le> p_upper ?P k" for q
    using mv(1)[of q] by (simp add: problem_fields)
  have st1: "sound_step ?ints ?P ?Q (\<lambda>x. x)" "lossless_step ?ints sg ?P ?Q" for sg
    by (rule set_bounds_step; use inner box in blast)+
  have holds: "row_holds ?Q x i" if "\<forall>j \<in> p_cols ?Q. in_box ?ints ?Q x j" for x
  proof -
    have "k \<in> p_cols ?Q" using n(3) by (simp add: set_bounds_def)
    then have "in_box ?ints ?Q x k" using that by blast
    then have "opt_within imp (x k)" using mv(1)[of "x k"] by (simp add: in_box_def set_bounds_def)
    then show ?thesis using w2 unfolding set_bounds_reads by (simp add: row_holds_def act problem_fields)
  qed
  note st2 = drop_row_step[OF holds]
  have p: "problem_of m ?t = drop_rows i (problem_of m ?u)" unfolding eq using u(1) ui by (intro kill_row_problem) (simp_all add: tidy_def books_def)
  have sd: "same_problem (problem_of m ?t) (drop_rows i ?Q)" using u(2) unfolding p by (auto simp: same_problem_def drop_rows_def)
  have un: "undo ?P ?r = (\<lambda>x. x)" by (simp add: undo_def new_reduction_def fun_eq_iff)
  have snd: "sound_step ?ints ?P (problem_of m ?t) (undo ?P ?r)"
    using sound_trans[OF st1(1) st2(1)] by (simp add: un step_same[OF sd])
  have less: "lossless_step ?ints sg ?P (problem_of m ?t)" for sg
    using lossless_trans[OF st1(2) st2(2)] by (simp add: step_same[OF sd])
  have "steps_to z m s ?t [?r]"
    by (rule steps_to_record[OF _ _ snd])
       (use less in \<open>simp_all add: eq kill_row_more tighten_by_row_more log_record_def lossless_step_def\<close>)
  then show ?thesis using kill_row_tidy[OF u(1) ui] by (auto simp: advances_def eq)
qed

section \<open>Filling in\<close>

lemma nth_fold_each:
  assumes "distinct (map fst es)" "i < length xs"
  shows "fold (\<lambda>(r, a). modify_at r (f r a)) es xs ! i = (case map_of es i of None \<Rightarrow> xs ! i | Some a \<Rightarrow> f i a (xs ! i))"
  using assms
proof (induction es arbitrary: xs)
  case (Cons e es)
  obtain r a where e: "e = (r, a)" by (cases e)
  have n: "map_of es r = None" using Cons.prems(1) by (simp add: e map_of_eq_None_iff)
  have "i < length (modify_at r (f r a) xs)" using Cons.prems by simp
  note IH = Cons.IH[OF _ this]
  have "modify_at r (f r a) xs ! i = (if i = r then f r a (xs ! i) else xs ! i)"
    using Cons.prems(2) by (cases "r < length xs") (auto simp: nth_modify_at modify_at_def list_update_beyond)
  then show ?case using IH Cons.prems(1) n by (auto simp: e split: option.splits)
qed simp

lemma length_fold_each [simp]: "length (fold (\<lambda>(r, a). modify_at r (f r a)) es xs) = length xs"
  by (induction es arbitrary: xs) auto

lemma fold_one_place:
  assumes "k < length xs"
  shows "fold (\<lambda>(r, a). modify_at k (f r a)) es xs = xs[k := fold (\<lambda>(r, a). f r a) es (xs ! k)]"
  using assms
proof (induction es arbitrary: xs)
  case (Cons e es)
  obtain r a where e: "e = (r, a)" by (cases e)
  have "k < length (modify_at k (f r a) xs)" using Cons.prems by simp
  from Cons.IH[OF this] Cons.prems show ?case by (simp add: e modify_at_def)
qed simp

lemma add_deltas:
  assumes "distinct (map fst es)"
  shows "fold (\<lambda>(r, a). add_delta r (g a)) es f i =
    (case map_of es i of None \<Rightarrow> f i | Some a \<Rightarrow> Some (case f i of None \<Rightarrow> 0 + g a | Some v \<Rightarrow> v + g a))"
  using assms
proof (induction es arbitrary: f)
  case (Cons e es)
  obtain r a where e: "e = (r, a)" by (cases e)
  have n: "map_of es r = None" using Cons.prems(1) by (simp add: e map_of_eq_None_iff)
  show ?case using Cons n by (auto simp: e add_delta_def split: option.splits)
qed simp

lemma map_of_update_key:
  assumes "i < length es" "\<forall>j < i. fst (es ! j) \<noteq> k" "es ! i = (k, b)"
  shows "map_of (es[i := (k, b')]) c = (if c = k then Some b' else map_of es c)" "map_of es k = Some b"
    "map fst (es[i := (k, b')]) = map fst es"
proof -
  have "map_of (es[i := (k, b')]) c = (if c = k then Some b' else map_of es c) \<and> map_of es k = Some b"
    using assms
  proof (induction es arbitrary: i)
    case (Cons e es)
    show ?case
    proof (cases i)
      case (Suc n)
      have "fst e \<noteq> k" using Cons.prems(2) Suc by force
      moreover have "n < length es" "\<forall>j < n. fst (es ! j) \<noteq> k" "es ! n = (k, b)" using Cons.prems Suc by auto
      ultimately show ?thesis using Cons.IH[of n] Suc by auto
    qed (use Cons.prems in auto)
  qed simp
  then show "map_of (es[i := (k, b')]) c = (if c = k then Some b' else map_of es c)" "map_of es k = Some b" by simp_all
  show "map fst (es[i := (k, b')]) = map fst es" using assms by (simp add: map_update list_update_same_conv)
qed

lemma add_coefficient_table:
  shows "map_of (add_coefficient k d es) c = (if c = k then Some (case map_of es k of None \<Rightarrow> d | Some b \<Rightarrow> b + d) else map_of es c)"
    "distinct (map fst es) \<Longrightarrow> distinct (map fst (add_coefficient k d es))"
    "fst ` set (add_coefficient k d es) = insert k (fst ` set es)"
    "map fst (add_coefficient k d es) = (if k \<in> fst ` set es then map fst es else map fst es @ [k])"
proof -
  let ?t = "add_coefficient k d es"
  have "map_of ?t c = (if c = k then Some (case map_of es k of None \<Rightarrow> d | Some b \<Rightarrow> b + d) else map_of es c) \<and>
      map fst ?t = (if k \<in> fst ` set es then map fst es else map fst es @ [k])"
  proof (cases "find_index (\<lambda>e. fst e = k) es")
    case None
    then have n: "k \<notin> fst ` set es" by auto
    then have "map_of es k = None" by (simp add: map_of_eq_None_iff)
    moreover have "?t = es @ [(k, d)]" unfolding add_coefficient_def None by simp
    ultimately show ?thesis using n by (auto simp: map_add_def split: option.split)
  next
    case (Some i)
    note i = find_index_Some[OF Some]
    obtain b where b: "es ! i = (k, b)" using i by (cases "es ! i") auto
    then have "k \<in> fst ` set es" using i by (metis fst_conv image_eqI nth_mem)
    moreover have "?t = es[i := (k, b + d)]" using Some b by (simp add: add_coefficient_def modify_at_def)
    ultimately show ?thesis using map_of_update_key(1)[OF _ _ b, of "b + d" c] map_of_update_key(2,3)[OF _ _ b] i by simp
  qed
  then show "map_of ?t c = (if c = k then Some (case map_of es k of None \<Rightarrow> d | Some b \<Rightarrow> b + d) else map_of es c)"
    and k: "map fst ?t = (if k \<in> fst ` set es then map fst es else map fst es @ [k])" by simp_all
  show "distinct (map fst es) \<Longrightarrow> distinct (map fst ?t)" unfolding k by auto
  have "set (map fst ?t) = insert k (set (map fst es))" unfolding k by auto
  then show "fst ` set ?t = insert k (fst ` set es)" by simp
qed

end
