(* ===== verification/PresolveFill.thy ===== *)
theory PresolveFill
  imports PresolveRows
begin

text \<open>
  The fill-in of a doubleton equation: what the rows of the eliminated column become, and that the three
  views of a coefficient still agree after it.
\<close>

lemma filled_table:
  fixes i :: nat
  assumes ok: "model_ok z m" and b: "books m s" and e: "live_col m s e"
    and d: "w_delta s ! e = Map.empty" "w_new_rows s ! e = []"
  defines "es \<equiv> filled (exact_pt z) i s (column (matrix m) e)"
  shows "distinct (map fst es)" "live_row m s r \<Longrightarrow> r \<noteq> i \<Longrightarrow> map_of es r = map_of (w_rows s ! r) e"
    "\<not> live_row m s r \<or> r = i \<Longrightarrow> map_of es r = None"
proof -
  let ?col = "column (matrix m) e"
  have ee: "e < num_cols m" using e by (simp add: live_col_def)
  note mc = model_column[OF ok ee]
  show "distinct (map fst es)" unfolding es_def filled_def by (rule distinct_map_filter[OF mc(1)])
  have eqn: "es = filter (\<lambda>(r, other). r \<noteq> i \<and> \<not> w_row_dead s ! r) ?col"
    unfolding es_def filled_def
  proof (rule filter_cong)
    fix x assume x: "x \<in> set ?col"
    obtain r v where v: "x = (r, v)" by (cases x)
    then have "xfinite v" "z \<le> \<bar>xval v\<bar>" using mc(2) x by auto
    then obtain q where "v = X q" "z \<le> \<bar>q\<bar>" by (cases v) auto
    then have "\<not> \<bar>v\<bar> < X z" by simp
    then show "(case x of (r, other) \<Rightarrow> r \<noteq> i \<and> \<not> w_row_dead s ! r \<and> \<not> \<bar>other\<bar> < pt_zero (exact_pt z)) =
        (case x of (r, other) \<Rightarrow> r \<noteq> i \<and> \<not> w_row_dead s ! r)"
      by (simp add: v exact_pt_def)
  qed simp
  have t: "map_of es r = (if r \<noteq> i \<and> \<not> w_row_dead s ! r then map_of ?col r else None)" for r
    unfolding eqn by (rule map_of_filter_key)
  have out: "map_of ?col r = None" if "\<not> r < num_rows m" for r
    using that mc(2) by (auto simp: map_of_eq_None_iff)
  have "column_now m s e = ?col" by (simp add: column_now_def d)
  then show "live_row m s r \<Longrightarrow> r \<noteq> i \<Longrightarrow> map_of es r = map_of (w_rows s ! r) e"
    using b e by (simp add: t books_def views_ok_def live_row_def)
  show "\<not> live_row m s r \<or> r = i \<Longrightarrow> map_of es r = None" using out by (auto simp: t live_row_def)
qed

lemma length_fold_place [simp]: "length (fold (\<lambda>(r, a). modify_at k (f r a)) es xs) = length xs"
  by (induction es arbitrary: xs) auto

definition filled_state ::
    "xnum scalar \<Rightarrow> xnum \<Rightarrow> nat \<Rightarrow> xnum \<Rightarrow> xnum \<Rightarrow> nat \<Rightarrow> (nat \<times> xnum) list \<Rightarrow> (xnum, 'z) workspace_scheme \<Rightarrow> (xnum, 'z) workspace_scheme" where
  "filled_state sc a k b rhs e es s = (fill_rows sc a k b rhs es s)\<lparr>w_col_dead := (w_col_dead s)[e := True]\<rparr>"

text \<open>The fields after the fill-in.\<close>

definition fill_delta :: "xnum \<Rightarrow> xnum \<Rightarrow> xnum \<Rightarrow> xnum" where
  "fill_delta a b other = - (other div a) * b"

lemma filled_fields:
  fixes s :: "(xnum, 'z) workspace_scheme" and sc :: "xnum scalar" and a b rhs :: xnum and e :: nat
  assumes d: "distinct (map fst es)" and sz: "sized m s" and k: "k < num_cols m"
  defines "t \<equiv> filled_state sc a k b rhs e es s"
  shows "w_col_lower t = w_col_lower s" "w_col_upper t = w_col_upper s" "w_col_dead t = (w_col_dead s)[e := True]"
    "w_row_dead t = w_row_dead s" "w_quadratic t = w_quadratic s" "w_cost t = w_cost s" "w_offset t = w_offset s"
    "w_doubleton t = w_doubleton s" "w_singleton t = w_singleton s" "sized m t" "workspace.more t = workspace.more s"
    "r < num_rows m \<Longrightarrow> w_rows t ! r = (case map_of es r of None \<Rightarrow> w_rows s ! r | Some v \<Rightarrow> add_coefficient k (fill_delta a b v) (w_rows s ! r))"
    "r < num_rows m \<Longrightarrow> w_row_lower t ! r = (case map_of es r of None \<Rightarrow> w_row_lower s ! r | Some v \<Rightarrow> shift_row sc (v div a * rhs) (w_row_lower s ! r))"
    "r < num_rows m \<Longrightarrow> w_row_upper t ! r = (case map_of es r of None \<Rightarrow> w_row_upper s ! r | Some v \<Rightarrow> shift_row sc (v div a * rhs) (w_row_upper s ! r))"
    "r < num_rows m \<Longrightarrow> w_row_count t ! r = (case map_of es r of None \<Rightarrow> w_row_count s ! r
        | Some v \<Rightarrow> recount (lacks k (w_rows s) r) (w_row_count s ! r))"
    "w_delta t = (w_delta s)[k := (\<lambda>i. case map_of es i of None \<Rightarrow> (w_delta s ! k) i
        | Some v \<Rightarrow> Some (case (w_delta s ! k) i of None \<Rightarrow> 0 + fill_delta a b v | Some w \<Rightarrow> w + fill_delta a b v))]"
    "w_new_rows t = (w_new_rows s)[k := w_new_rows s ! k @ filter (lacks k (w_rows s)) (map fst es)]"
    "w_col_count t = (w_col_count s)[k := w_col_count s ! k + int (length (filter (lacks k (w_rows s)) (map fst es)))]"
proof -
  note len = sz[unfolded sized_def]
  note defs = t_def filled_state_def fill_rows_def fill_delta_def
  show "w_col_lower t = w_col_lower s" "w_col_upper t = w_col_upper s" "w_col_dead t = (w_col_dead s)[e := True]"
    "w_row_dead t = w_row_dead s" "w_quadratic t = w_quadratic s" "w_cost t = w_cost s" "w_offset t = w_offset s"
    "w_doubleton t = w_doubleton s" "w_singleton t = w_singleton s" "workspace.more t = workspace.more s"
    by (simp_all add: defs)
  show "sized m t" using len by (simp add: sized_def defs)
  show "w_new_rows t = (w_new_rows s)[k := w_new_rows s ! k @ filter (lacks k (w_rows s)) (map fst es)]"
    "w_col_count t = (w_col_count s)[k := w_col_count s ! k + int (length (filter (lacks k (w_rows s)) (map fst es)))]"
    by (simp_all add: defs modify_at_def)
  have "fold (\<lambda>(r, v). add_delta r (fill_delta a b v)) es (w_delta s ! k) = (\<lambda>i. case map_of es i of None \<Rightarrow> (w_delta s ! k) i
        | Some v \<Rightarrow> Some (case (w_delta s ! k) i of None \<Rightarrow> 0 + fill_delta a b v | Some w \<Rightarrow> w + fill_delta a b v))"
    by (rule ext) (rule add_deltas[OF d])
  moreover have "w_delta t = fold (\<lambda>(r, v). modify_at k (add_delta r (fill_delta a b v))) es (w_delta s)" by (simp add: defs)
  moreover have "k < length (w_delta s)" using len k by simp
  ultimately show "w_delta t = (w_delta s)[k := (\<lambda>i. case map_of es i of None \<Rightarrow> (w_delta s ! k) i
        | Some v \<Rightarrow> Some (case (w_delta s ! k) i of None \<Rightarrow> 0 + fill_delta a b v | Some w \<Rightarrow> w + fill_delta a b v))]"
    using fold_one_place[of k "w_delta s" "\<lambda>r v. add_delta r (fill_delta a b v)"] by simp
  assume r: "r < num_rows m"
  have "w_rows t = fold (\<lambda>(r, v). modify_at r (add_coefficient k (fill_delta a b v))) es (w_rows s)" by (simp add: defs)
  then show "w_rows t ! r = (case map_of es r of None \<Rightarrow> w_rows s ! r | Some v \<Rightarrow> add_coefficient k (fill_delta a b v) (w_rows s ! r))"
    using nth_fold_each[OF d, of r "w_rows s"] len r by simp
  have "w_row_lower t = fold (\<lambda>(r, v). modify_at r (shift_row sc (v div a * rhs))) es (w_row_lower s)" by (simp add: defs)
  then show "w_row_lower t ! r = (case map_of es r of None \<Rightarrow> w_row_lower s ! r | Some v \<Rightarrow> shift_row sc (v div a * rhs) (w_row_lower s ! r))"
    using nth_fold_each[OF d, of r "w_row_lower s"] len r by simp
  have "w_row_upper t = fold (\<lambda>(r, v). modify_at r (shift_row sc (v div a * rhs))) es (w_row_upper s)" by (simp add: defs)
  then show "w_row_upper t ! r = (case map_of es r of None \<Rightarrow> w_row_upper s ! r | Some v \<Rightarrow> shift_row sc (v div a * rhs) (w_row_upper s ! r))"
    using nth_fold_each[OF d, of r "w_row_upper s"] len r by simp
  have "w_row_count t = fold (\<lambda>(r, v). modify_at r (recount (lacks k (w_rows s) r))) es (w_row_count s)" by (simp add: defs)
  then show "w_row_count t ! r = (case map_of es r of None \<Rightarrow> w_row_count s ! r
        | Some v \<Rightarrow> recount (lacks k (w_rows s) r) (w_row_count s ! r))"
    using nth_fold_each[OF d, of r "w_row_count s"] len r by simp
qed

lemma filter_keys: "length (filter (\<lambda>(j, a). P j) es) = length (filter P (map fst es))"
  by (induction es) auto


lemma view_entry:
  assumes "books m s" "live_row m s r" "live_col m s c"
  shows "map_of (w_rows s ! r) c = map_of (column_now m s c) r"
  using assms by (simp add: books_def views_ok_def)

lemma fill_facts:
  assumes "fill_ok m s" "j < num_cols m"
  shows "(w_delta s ! j) i = Some d \<Longrightarrow> xfinite d"
    "(w_delta s ! j) i = Some d \<Longrightarrow> i \<in> fst ` set (column (matrix m) j) \<or> i \<in> set (w_new_rows s ! j)"
    "distinct (w_new_rows s ! j)"
    "i \<in> set (w_new_rows s ! j) \<Longrightarrow> i < num_rows m \<and> i \<notin> fst ` set (column (matrix m) j) \<and> (\<exists>d. (w_delta s ! j) i = Some d)"
    "\<not> w_doubleton s ! j \<Longrightarrow> w_delta s ! j = Map.empty \<and> w_new_rows s ! j = []"
  using assms unfolding fill_ok_def by blast+

lemma filled_books:
  fixes s :: "(xnum, 'z) workspace_scheme" and sc :: "xnum scalar" and qb rhs :: rat and i :: nat
  assumes ok: "model_ok z m" and b: "books m s" and e: "live_col m s e" and k: "live_col m s k" and ek: "e \<noteq> k"
    and dl: "w_delta s ! e = Map.empty" "w_new_rows s ! e = []" and marks: "w_doubleton s ! e" "w_doubleton s ! k"
    and q: "qa \<noteq> 0"
  defines "es \<equiv> filled (exact_pt z) i s (column (matrix m) e)"
  defines "t \<equiv> filled_state sc (X qa) k (X qb) (X rhs) e es s"
  shows "books m t"
proof -
  let ?L = "filter (lacks k (w_rows s)) (map fst es)" and ?D = "fill_delta (X qa) (X qb)"
  have sz: "sized m s" and en: "entries_ok m s" and fo: "fill_ok m s" using b by (simp_all add: books_def)
  have ee: "e < num_cols m" "k < num_cols m" "\<not> w_col_dead s ! e" "\<not> w_col_dead s ! k" using e k by (simp_all add: live_col_def)
  note ft = filled_table[OF ok b e dl, where i = i, folded es_def]
  note F = filled_fields[OF ft(1) sz ee(2), where sc = sc and a = "X qa" and b = "X qb" and rhs = "X rhs" and e = e, folded t_def]
  have lr: "live_row m t = live_row m s" by (simp add: live_row_def fun_eq_iff F)
  have lc: "live_col m t c \<longleftrightarrow> live_col m s c \<and> c \<noteq> e" for c using dead_nth[OF sz ee(1)] by (auto simp: live_col_def F)
  have esr: "live_row m s r \<and> r \<noteq> i" if "map_of es r = Some v" for r v using ft(3)[of r] that by fastforce
  have esm: "map_of (w_rows s ! r) e = Some v" if "map_of es r = Some v" for r v using ft(2)[of r] esr[OF that] that by simp
  have esD: "xfinite (?D v)" if "map_of es r = Some v" for r v
  proof -
    have "r < num_rows m" using esr[OF that] by (simp add: live_row_def)
    from finite_coef[OF en this esm[OF that]] obtain p where "v = X p" by blast
    then show ?thesis using q by (simp add: fill_delta_def)
  qed
  have inL: "r \<in> set ?L \<longleftrightarrow> (\<exists>v. map_of es r = Some v) \<and> map_of (w_rows s ! r) k = None" for r
  proof -
    have "lacks k (w_rows s) r \<longleftrightarrow> map_of (w_rows s ! r) k = None"
      by (auto simp: lacks_def list_all_iff map_of_eq_None_iff)
    moreover have "r \<in> fst ` set es \<longleftrightarrow> (\<exists>v. map_of es r = Some v)" by (metis map_of_eq_None_iff not_None_eq)
    ultimately show ?thesis by auto
  qed
  have rowt: "map_of (w_rows t ! r) c = (case map_of es r of None \<Rightarrow> map_of (w_rows s ! r) c
      | Some v \<Rightarrow> if c = k then Some (case map_of (w_rows s ! r) k of None \<Rightarrow> ?D v | Some w \<Rightarrow> w + ?D v) else map_of (w_rows s ! r) c)"
    if "r < num_rows m" for r c
    using F(12)[OF that] by (auto simp: add_coefficient_table(1) split: option.split)
  have ents: "entries_ok m t"
    unfolding entries_ok_def
  proof (intro allI impI conjI ballI)
    fix r assume r: "r < num_rows m"
    have old: "distinct (map fst (w_rows s ! r))" "\<forall>x \<in> set (w_rows s ! r). fst x < num_cols m \<and> xfinite (snd x)"
      using en r by (simp_all add: entries_ok_def)
    show new: "distinct (map fst (w_rows t ! r))"
      using old F(12)[OF r] by (simp add: add_coefficient_table(2) split: option.split)
    fix x assume x: "x \<in> set (w_rows t ! r)"
    obtain c a where c: "x = (c, a)" by (cases x)
    then have mo: "map_of (w_rows t ! r) c = Some a" using x new by (simp add: map_of_eq_Some_iff)
    have oldf: "map_of (w_rows s ! r) c' = Some a' \<Longrightarrow> c' < num_cols m \<and> xfinite a'" for c' a'
      using old(2) by (auto dest!: map_of_SomeD)
    have sum: "xfinite w \<Longrightarrow> xfinite d \<Longrightarrow> xfinite (w + d)" for w d by (cases w; cases d; simp)
    have "fst x < num_cols m \<and> xfinite (snd x)"
      using mo rowt[OF r, of c] oldf esD ee(2) sum by (auto simp: c split: option.splits if_splits)
    then show "fst x < num_cols m" "xfinite (snd x)" by simp_all
  qed
  have L: "distinct ?L" using ft(1) by simp
  have viewk: "map_of (w_rows s ! r) k = map_of (column_now m s k) r" if "live_row m s r" for r by (rule view_entry[OF b that k])
  note nk = column_now_fill(2)[OF ok fo ee(2)]
  note fk = fill_facts[OF fo ee(2)]
  have newL: "r < num_rows m \<and> r \<notin> fst ` set (column (matrix m) k) \<and> r \<notin> set (w_new_rows s ! k) \<and> (w_delta s ! k) r = None" if "r \<in> set ?L" for r
  proof -
    from that inL obtain v where v: "map_of es r = Some v" "map_of (w_rows s ! r) k = None" by blast
    note r = esr[OF v(1)]
    have n: "map_of (column_now m s k) r = None" using v(2) viewk r by simp
    have cl: "map_of (column (matrix m) k) r = None" using n nk[of r] by (auto split: option.splits)
    have nr: "r \<notin> set (w_new_rows s ! k)"
    proof
      assume a: "r \<in> set (w_new_rows s ! k)"
      then obtain d where "(w_delta s ! k) r = Some d" using fk(4) by blast
      then show False using n nk[of r] cl a by simp
    qed
    have "(w_delta s ! k) r = None"
    proof (rule ccontr)
      assume "(w_delta s ! k) r \<noteq> None"
      then show False using fk(2)[of r] cl nr by (auto simp: map_of_eq_None_iff)
    qed
    then show ?thesis using cl nr r by (simp add: map_of_eq_None_iff live_row_def)
  qed
  have len: "k < length (w_delta s)" "k < length (w_new_rows s)" "k < length (w_col_count s)" using sz ee by (simp_all add: sized_def)
  have dk: "(w_delta t ! k) r = (case map_of es r of None \<Rightarrow> (w_delta s ! k) r
        | Some v \<Rightarrow> Some (case (w_delta s ! k) r of None \<Rightarrow> 0 + ?D v | Some w \<Rightarrow> w + ?D v))" for r
    using len by (simp add: F(16))
  have rk: "w_new_rows t ! k = w_new_rows s ! k @ ?L" using len by (simp add: F(17))
  have other: "w_delta t ! c = w_delta s ! c" "w_new_rows t ! c = w_new_rows s ! c" if "c \<noteq> k" for c
    using that by (simp_all add: F(16,17))
  have zero: "xfinite d \<Longrightarrow> 0 + d = d" for d :: xnum by (cases d) (simp_all add: X_consts)
  have fills: "fill_ok m t"
    unfolding fill_ok_def
  proof (intro allI impI)
    fix j assume j: "j < num_cols m"
    show "(\<forall>i d. (w_delta t ! j) i = Some d \<longrightarrow> xfinite d) \<and>
     (\<forall>i d. (w_delta t ! j) i = Some d \<longrightarrow> i \<in> fst ` set (column (matrix m) j) \<or> i \<in> set (w_new_rows t ! j)) \<and>
     distinct (w_new_rows t ! j) \<and>
     (\<forall>i \<in> set (w_new_rows t ! j). i < num_rows m \<and> i \<notin> fst ` set (column (matrix m) j) \<and> (\<exists>d. (w_delta t ! j) i = Some d)) \<and>
     (\<not> w_doubleton t ! j \<longrightarrow> w_delta t ! j = Map.empty \<and> w_new_rows t ! j = [])"
    proof (cases "j = k")
      case False
      then show ?thesis using fo j unfolding fill_ok_def other[OF False] F(8) by blast
    next
      case True
      have sum: "xfinite w \<Longrightarrow> xfinite d \<Longrightarrow> xfinite (w + d)" for w d by (cases w; cases d; simp)
      have 1: "xfinite d" if "(w_delta t ! k) r = Some d" for r d
        using that fk(1) esD zero sum unfolding dk by (auto split: option.splits)
      have 2: "r \<in> fst ` set (column (matrix m) k) \<or> r \<in> set (w_new_rows t ! k)" if td: "(w_delta t ! k) r = Some d" for r d
      proof (cases "(w_delta s ! k) r")
        case (Some w)
        then show ?thesis using fk(2) unfolding rk by auto
      next
        case None
        then obtain v where v: "map_of es r = Some v" using td by (auto simp: dk split: option.splits)
        show ?thesis
        proof (cases "r \<in> set ?L")
          case False
          then obtain w where "map_of (w_rows s ! r) k = Some w" using inL[of r] v by auto
          then have "map_of (column_now m s k) r = Some w" using viewk esr[OF v] by simp
          then have "map_of (column (matrix m) k) r \<noteq> None" using nk[of r] None by (auto split: option.splits if_splits)
          then show ?thesis by (auto simp: map_of_eq_None_iff)
        qed (simp add: rk)
      qed
      have 3: "distinct (w_new_rows t ! k)" unfolding rk distinct_append using fk(3) L newL by blast
      have 4: "\<exists>d. (w_delta t ! k) r = Some d" if "r \<in> set (w_new_rows t ! k)" for r
      proof (cases "r \<in> set ?L")
        case True
        then obtain v where "map_of es r = Some v" using inL by blast
        then show ?thesis by (simp add: dk)
      next
        case False
        then have "r \<in> set (w_new_rows s ! k)" using that unfolding rk set_append by blast
        then obtain d where "(w_delta s ! k) r = Some d" using fk(4) by blast
        then show ?thesis by (simp add: dk split: option.split)
      qed
      have 5: "r < num_rows m \<and> r \<notin> fst ` set (column (matrix m) k)" if "r \<in> set (w_new_rows t ! k)" for r
        using that newL fk(4) unfolding rk set_append by blast
      show ?thesis unfolding True using 1 2 3 4 5 marks(2) by (simp add: F(8))
    qed
  qed
  have views: "views_ok m t"
    unfolding views_ok_def lr lc
  proof (intro allI impI, elim conjE)
    fix r c assume r: "live_row m s r" and c: "live_col m s c" "c \<noteq> e"
    have rr: "r < num_rows m" using r by (simp add: live_row_def)
    show "map_of (w_rows t ! r) c = map_of (column_now m t c) r"
    proof (cases "c = k")
      case False
      then have "column_now m t c = column_now m s c" by (simp add: column_now_def other)
      then show ?thesis using rowt[OF rr, of c] view_entry[OF b r c(1)] False by (simp split: option.split)
    next
      case True
      note nt = column_now_fill(2)[OF ok fills ee(2), of r]
      note ns = nk[of r]
      have vk: "map_of (w_rows s ! r) k = map_of (column_now m s k) r" by (rule viewk[OF r])
      show ?thesis
      proof (cases "map_of es r")
        case None
        then have "r \<in> set (w_new_rows t ! k) \<longleftrightarrow> r \<in> set (w_new_rows s ! k)" using inL[of r] unfolding rk set_append by auto
        then show ?thesis unfolding True rowt[OF rr] nt vk ns using None by (simp add: dk split: option.split)
      next
        case (Some v)
        obtain p where p: "?D v = X p" using esD[OF Some] xfinite_X by blast
        show ?thesis
        proof (cases "map_of (column (matrix m) k) r")
          case (Some a)
          then have "xfinite a" using model_column(2)[OF ok ee(2)] by (metis map_of_SomeD)
          then obtain qa' where a: "a = X qa'" using xfinite_X by blast
          have df: "xfinite d" if "(w_delta s ! k) r = Some d" for d using fk(1) that by blast
          show ?thesis
          proof (cases "(w_delta s ! k) r")
            case None
            then show ?thesis unfolding True rowt[OF rr] nt vk ns using Some \<open>map_of es r = Some v\<close>
              by (simp add: dk a p X_consts)
          next
            case (Some d)
            then obtain qd where "d = X qd" using df xfinite_X by blast
            then show ?thesis unfolding True rowt[OF rr] nt vk ns
              using Some \<open>map_of (column (matrix m) k) r = Some a\<close> \<open>map_of es r = Some v\<close> by (simp add: dk a p)
          qed
        next
          case None
          show ?thesis
          proof (cases "r \<in> set (w_new_rows s ! k)")
            case True
            then obtain d where "(w_delta s ! k) r = Some d" using fk(4) by blast
            moreover have "r \<in> set (w_new_rows t ! k)" using True unfolding rk set_append by blast
            ultimately show ?thesis unfolding \<open>c = k\<close> rowt[OF rr] nt vk ns using True None Some by (simp add: dk)
          next
            case False
            then have "map_of (w_rows s ! r) k = None" unfolding vk ns using None by simp
            then have inl: "r \<in> set ?L" using Some inL by blast
            then have "(w_delta s ! k) r = None" using newL by blast
            moreover have "r \<in> set (w_new_rows t ! k)" using inl unfolding rk set_append by blast
            ultimately show ?thesis unfolding \<open>c = k\<close> rowt[OF rr] nt vk ns using False None Some by (simp add: dk p X_consts)
          qed
        qed
      qed
    qed
  qed
  have keys: "fst ` set (w_rows t ! r) = (case map_of es r of None \<Rightarrow> fst ` set (w_rows s ! r) | Some v \<Rightarrow> insert k (fst ` set (w_rows s ! r)))"
    if "r < num_rows m" for r
    using F(12)[OF that] by (simp add: add_coefficient_table(3) split: option.split)
  have deadt: "w_col_dead t ! c \<longleftrightarrow> c = e \<or> w_col_dead s ! c" for c using dead_nth[OF sz ee(1)] by (simp add: F(3))
  have rowcount: "int (length (live_entries t r)) \<le> w_row_count t ! r" if r: "live_row m s r" for r
  proof -
    have rr: "r < num_rows m" using r by (simp add: live_row_def)
    have old: "int (length (live_entries s r)) \<le> w_row_count s ! r" using b r by (simp add: books_def counts_ok_def)
    have d: "distinct (map fst (w_rows s ! r))" using en rr by (simp add: entries_ok_def)
    let ?P = "\<lambda>c. \<not> w_col_dead s ! c"
    have less: "int (length (filter (\<lambda>c. c \<noteq> e \<and> ?P c) (map fst (w_rows s ! r)))) =
        int (length (live_entries s r)) - (if e \<in> fst ` set (w_rows s ! r) then 1 else 0)"
      using length_without_key[OF d, of e ?P] ee(3)
      unfolding live_entries_def filter_keys[of "\<lambda>c. c \<noteq> e \<and> ?P c", symmetric] by (simp only: simp_thms)
    have tl: "length (live_entries t r) = length (filter (\<lambda>c. c \<noteq> e \<and> ?P c) (map fst (w_rows t ! r)))"
      unfolding live_entries_def filter_keys deadt by simp
    show ?thesis
    proof (cases "map_of es r")
      case None
      then have "w_rows t ! r = w_rows s ! r" "w_row_count t ! r = w_row_count s ! r" using F(12,15)[OF rr] by simp_all
      then show ?thesis using less old tl by simp
    next
      case (Some v)
      have "e \<in> fst ` set (w_rows s ! r)" using esm[OF Some] by (force dest: map_of_SomeD)
      moreover have "lacks k (w_rows s) r \<longleftrightarrow> k \<notin> fst ` set (w_rows s ! r)" by (auto simp: lacks_def list_all_iff)
      moreover have "map fst (w_rows t ! r) = (if k \<in> fst ` set (w_rows s ! r) then map fst (w_rows s ! r) else map fst (w_rows s ! r) @ [k])"
        using F(12)[OF rr] Some by (simp add: add_coefficient_table(4))
      ultimately show ?thesis using less old tl F(15)[OF rr] Some ek ee(4) by (auto simp: recount_def)
    qed
  qed
  have colcount: "int (card (rows_of m t c)) \<le> w_col_count t ! c" if c: "live_col m s c" "c \<noteq> e" for c
  proof -
    have old: "int (card (rows_of m s c)) \<le> w_col_count s ! c" using b c by (simp add: books_def counts_ok_def)
    show ?thesis
    proof (cases "c = k")
      case False
      have "(c \<in> fst ` set (w_rows t ! r)) = (c \<in> fst ` set (w_rows s ! r))" if "r < num_rows m" for r
        unfolding keys[OF that] using False by (cases "map_of es r") simp_all
      then have "rows_of m t c = rows_of m s c" unfolding rows_of_def lr live_row_def by blast
      then show ?thesis using old False by (simp add: F(18))
    next
      case True
      have "rows_of m t k \<subseteq> rows_of m s k \<union> set ?L"
      proof
        fix r assume r: "r \<in> rows_of m t k"
        then have rr: "live_row m s r" "r < num_rows m" by (simp_all add: rows_of_def lr live_row_def)
        show "r \<in> rows_of m s k \<union> set ?L"
        proof (cases "map_of es r")
          case None
          then show ?thesis using r rr keys[OF rr(2)] by (simp add: rows_of_def)
        next
          case (Some v)
          then show ?thesis using rr inL[of r] by (cases "map_of (w_rows s ! r) k") (force simp: rows_of_def dest: map_of_SomeD)+
        qed
      qed
      then have "card (rows_of m t k) \<le> card (rows_of m s k \<union> set ?L)" using finite_rows_of[of m s k] by (intro card_mono) auto
      also have "\<dots> \<le> card (rows_of m s k) + length ?L" using card_Un_le[of "rows_of m s k" "set ?L"] card_length[of ?L] by linarith
      finally show ?thesis using old len(3) True by (simp add: F(18))
    qed
  qed
  have "counts_ok m t" unfolding counts_ok_def lr lc using rowcount colcount by blast
  then show ?thesis using F(10) ents fills views by (simp add: books_def)
qed

section \<open>Sides and coefficients after the fill-in\<close>

lemma xshift_zero: "x \<noteq> XNaN \<Longrightarrow> xshift x 0 = x"
  by (cases x) (simp_all add: xshift_def)

lemma filled_reads:
  fixes s :: "(xnum, 'z) workspace_scheme" and ft mt qb rhs :: rat and i :: nat
  assumes ok: "model_ok z m" and b: "books m s" and e: "live_col m s e" and k: "live_col m s k"
    and dl: "w_delta s ! e = Map.empty" "w_new_rows s ! e = []" and q: "qa \<noteq> 0" and r: "live_row m s r"
    and so: "sides_ok (w_row_lower s ! r) (w_row_upper s ! r)"
  defines "es \<equiv> filled (exact_pt z) i s (column (matrix m) e)"
  defines "t \<equiv> filled_state (exact_scalar ft mt) (X qa) k (X qb) (X rhs) e es s"
  shows "r \<noteq> i \<Longrightarrow> coef t r c = (if c = k then coef s r k - coef s r e / qa * qb else coef s r c)"
    "w_row_lower t ! r = (if r = i then w_row_lower s ! r else xshift (w_row_lower s ! r) (coef s r e / qa * rhs))"
    "w_row_upper t ! r = (if r = i then w_row_upper s ! r else xshift (w_row_upper s ! r) (coef s r e / qa * rhs))"
proof -
  have sz: "sized m s" and en: "entries_ok m s" using b by (simp_all add: books_def)
  have ee: "e < num_cols m" "k < num_cols m" using e k by (simp_all add: live_col_def)
  have rr: "r < num_rows m" using r by (simp add: live_row_def)
  note ft = filled_table[OF ok b e dl, where i = i, folded es_def]
  note F = filled_fields[OF ft(1) sz ee(2), where sc = "exact_scalar ft mt" and a = "X qa" and b = "X qb" and rhs = "X rhs" and e = e, folded t_def]
  have nn: "w_row_lower s ! r \<noteq> XNaN" "w_row_upper s ! r \<noteq> XNaN" using so by (simp_all add: sides_ok_def)
  consider (same) "map_of es r = None" "r = i \<or> coef s r e = 0" | (new) "map_of es r = Some (X (coef s r e))" "r \<noteq> i"
  proof (cases "map_of es r")
    case None
    then have "r \<noteq> i \<Longrightarrow> map_of (w_rows s ! r) e = None" using ft(2)[OF r] by simp
    then show thesis using None that(1) coef_none by blast
  next
    case (Some v)
    then have ri: "r \<noteq> i" using ft(3)[of r] by auto
    then have "map_of (w_rows s ! r) e = Some v" using ft(2)[OF r] Some by simp
    then have "v = X (coef s r e)" by (rule finite_coef[OF en rr])
    then show thesis using Some ri that(2) by simp
  qed
  note cases = this
  show "w_row_lower t ! r = (if r = i then w_row_lower s ! r else xshift (w_row_lower s ! r) (coef s r e / qa * rhs))"
    using cases by cases (use F(13)[OF rr] xshift_zero nn q in \<open>auto simp: shift_row_exact\<close>)
  show "w_row_upper t ! r = (if r = i then w_row_upper s ! r else xshift (w_row_upper s ! r) (coef s r e / qa * rhs))"
    using cases by cases (use F(14)[OF rr] xshift_zero nn q in \<open>auto simp: shift_row_exact\<close>)
  assume ri: "r \<noteq> i"
  show "coef t r c = (if c = k then coef s r k - coef s r e / qa * qb else coef s r c)"
    using cases
  proof cases
    case same
    then show ?thesis using F(12)[OF rr] ri by (simp add: coef_def)
  next
    case new
    have d: "fill_delta (X qa) (X qb) (X (coef s r e)) = X (- (coef s r e / qa * qb))" using q by (simp add: fill_delta_def)
    show ?thesis
    proof (cases "c = k")
      case False
      then show ?thesis using F(12)[OF rr] new by (simp add: coef_def add_coefficient_table(1))
    next
      case True
      show ?thesis
      proof (cases "map_of (w_rows s ! r) k")
        case None
        then show ?thesis using F(12)[OF rr] new True coef_none[OF None] by (simp add: coef_def[of t] add_coefficient_table(1) d)
      next
        case (Some w)
        then have "w = X (coef s r k)" by (rule finite_coef[OF en rr])
        then show ?thesis using F(12)[OF rr] new True Some by (simp add: coef_def[of t] add_coefficient_table(1) d)
      qed
    qed
  qed
qed

section \<open>The bounds an equation implies\<close>

lemma term_range_within:
  assumes "a \<noteq> 0" "sides_ok lo up"
  shows "opt_finite (term_range (exact_scalar ft mt) (X a) lo up)"
    "opt_within (term_range (exact_scalar ft mt) (X a) lo up) (a * x) \<longleftrightarrow> lo \<le> X x \<and> X x \<le> up"
proof -
  let ?l = "finite_side (exact_scalar ft mt) lo" and ?u = "finite_side (exact_scalar ft mt) up"
  note f = finite_sides_within[OF assms(2), of ft mt]
  have fin: "?l = Some v \<Longrightarrow> xfinite v" "?u = Some v \<Longrightarrow> xfinite v" for v using f(2) by (auto simp: opt_finite_def)
  have le: "xfinite v \<Longrightarrow> X a * v = X (a * xval v)" for v by (cases v) simp_all
  have eq: "term_range (exact_scalar ft mt) (X a) lo up =
      (if 0 < a then (map_option (\<lambda>v. X (a * xval v)) ?l, map_option (\<lambda>v. X (a * xval v)) ?u)
       else (map_option (\<lambda>v. X (a * xval v)) ?u, map_option (\<lambda>v. X (a * xval v)) ?l))"
    using fin by (auto simp: term_range_def Let_def X_consts le intro!: option.map_cong)
  show "opt_finite (term_range (exact_scalar ft mt) (X a) lo up)" unfolding eq by (auto simp: opt_finite_def)
  have "opt_within (term_range (exact_scalar ft mt) (X a) lo up) (a * x) \<longleftrightarrow> opt_within (?l, ?u) x"
  proof (cases "0 < a")
    case True
    then show ?thesis unfolding opt_within_X[OF f(2)] eq by (auto simp: opt_within_def)
  next
    case False
    then have "a < 0" using assms(1) by simp
    then show ?thesis unfolding opt_within_X[OF f(2)] eq by (auto simp: opt_within_def)
  qed
  then show "opt_within (term_range (exact_scalar ft mt) (X a) lo up) (a * x) \<longleftrightarrow> lo \<le> X x \<and> X x \<le> up" using f(1) by simp
qed

lemma minus_within:
  assumes "opt_finite (l, u)"
  shows "opt_finite (map_option (\<lambda>t. X r - t) u, map_option (\<lambda>t. X r - t) l)"
    "opt_within (map_option (\<lambda>t. X r - t) u, map_option (\<lambda>t. X r - t) l) y \<longleftrightarrow> opt_within (l, u) (r - y)"
proof -
  have f: "l = Some v \<Longrightarrow> v = X (xval v)" "u = Some v \<Longrightarrow> v = X (xval v)" for v
    using assms xfinite_X by (auto simp: opt_finite_def)
  have "X r - v = X (r - xval v)" if "l = Some v \<or> u = Some v" for v using f[of v] that by (metis X_arith(2))
  then have eq: "map_option (\<lambda>t. X r - t) u = map_option (\<lambda>t. X (r - xval t)) u" "map_option (\<lambda>t. X r - t) l = map_option (\<lambda>t. X (r - xval t)) l"
    by (auto intro!: option.map_cong)
  show "opt_finite (map_option (\<lambda>t. X r - t) u, map_option (\<lambda>t. X r - t) l)" unfolding eq by (auto simp: opt_finite_def)
  show "opt_within (map_option (\<lambda>t. X r - t) u, map_option (\<lambda>t. X r - t) l) y \<longleftrightarrow> opt_within (l, u) (r - y)"
    unfolding opt_within_X[OF assms] eq by (auto simp: opt_within_def)
qed

definition partner_bounds :: "rat \<Rightarrow> rat \<Rightarrow> rat \<Rightarrow> xnum model \<Rightarrow> nat \<Rightarrow> rat \<Rightarrow> rat \<Rightarrow> rat \<Rightarrow> xnum \<Rightarrow> xnum \<Rightarrow> xnum option \<times> xnum option" where
  "partner_bounds ft mt z m k qa qb rhs lo up =
     (let (tlo, thi) = term_range (exact_scalar ft mt) (X qa) lo up
      in round_implied (exact_scalar ft mt) (exact_pt z) m k
           (implied_bounds (exact_scalar ft mt) (X qb) (map_option (\<lambda>t. X rhs - t) thi, map_option (\<lambda>t. X rhs - t) tlo)))"

lemma partner_within:
  fixes ft mt z rhs :: rat and m :: "xnum model" and k :: nat
  assumes "qa \<noteq> 0" "qb \<noteq> 0" "sides_ok lo up"
  defines "p \<equiv> partner_bounds ft mt z m k qa qb rhs lo up"
  shows "opt_finite p"
    "opt_within p q \<Longrightarrow> lo \<le> X ((rhs - qb * q) / qa) \<and> X ((rhs - qb * q) / qa) \<le> up"
    "lo \<le> X ((rhs - qb * q) / qa) \<Longrightarrow> X ((rhs - qb * q) / qa) \<le> up \<Longrightarrow> (col_type m ! k = kInteger \<longrightarrow> q \<in> \<int>) \<Longrightarrow> opt_within p q"
proof -
  obtain l u where lu: "term_range (exact_scalar ft mt) (X qa) lo up = (l, u)" by fastforce
  note t = term_range_within[OF assms(1,3), of ft mt, unfolded lu]
  note mw = minus_within[OF t(1), of rhs]
  note iw = implied_within[OF assms(2) mw(1), of ft mt]
  note rw = round_within[OF iw(1), where z = z and m = m and c = k]
  have p: "p = round_implied (exact_scalar ft mt) (exact_pt z) m k
      (implied_bounds (exact_scalar ft mt) (X qb) (map_option (\<lambda>t. X rhs - t) u, map_option (\<lambda>t. X rhs - t) l))"
    by (simp add: p_def partner_bounds_def lu)
  have "qa * ((rhs - qb * q) / qa) = rhs - qb * q" using assms(1) by simp
  then have core: "opt_within (implied_bounds (exact_scalar ft mt) (X qb) (map_option (\<lambda>t. X rhs - t) u, map_option (\<lambda>t. X rhs - t) l)) q \<longleftrightarrow>
      lo \<le> X ((rhs - qb * q) / qa) \<and> X ((rhs - qb * q) / qa) \<le> up"
    using t(2)[of "(rhs - qb * q) / qa"] unfolding iw(2) mw(2) by simp
  show "opt_finite p" unfolding p by (rule rw(1))
  show "opt_within p q \<Longrightarrow> lo \<le> X ((rhs - qb * q) / qa) \<and> X ((rhs - qb * q) / qa) \<le> up"
    unfolding p core[symmetric] by (rule rw(2))
  show "lo \<le> X ((rhs - qb * q) / qa) \<Longrightarrow> X ((rhs - qb * q) / qa) \<le> up \<Longrightarrow> (col_type m ! k = kInteger \<longrightarrow> q \<in> \<int>) \<Longrightarrow> opt_within p q"
    unfolding p using core rw(3) by blast
qed

end
