(* ===== verification/PresolveRun.thy ===== *)
theory PresolveRun
  imports PresolveFill
begin

text \<open>
  Doubleton equations, and the row reductions as a whole: substituting one column of an equation by the
  other is a step on problems, and so is whatever \<open>reduce_row\<close> does to a row, its refutations included.
\<close>

section \<open>A doubleton equation\<close>

lemma tighten_partner_fields:
  fixes w :: "(xnum, 'z) workspace_scheme" and sc :: "xnum scalar"
  shows "w_col_lower (tighten_partner sc k b w) = (w_col_lower w)[k := raise_lo (w_col_lower w ! k) (fst b)]"
    "w_col_upper (tighten_partner sc k b w) = (w_col_upper w)[k := cut_up (w_col_upper w ! k) (snd b)]"
    "w_row_lower (tighten_partner sc k b w) = w_row_lower w" "w_row_upper (tighten_partner sc k b w) = w_row_upper w"
    "w_col_dead (tighten_partner sc k b w) = w_col_dead w" "w_row_dead (tighten_partner sc k b w) = w_row_dead w"
    "w_quadratic (tighten_partner sc k b w) = w_quadratic w" "w_rows (tighten_partner sc k b w) = w_rows w"
    "w_col_count (tighten_partner sc k b w) = w_col_count w" "w_row_count (tighten_partner sc k b w) = w_row_count w"
    "w_cost (tighten_partner sc k b w) = w_cost w" "w_offset (tighten_partner sc k b w) = w_offset w"
    "w_doubleton (tighten_partner sc k b w) = w_doubleton w" "w_singleton (tighten_partner sc k b w) = w_singleton w"
    "w_delta (tighten_partner sc k b w) = w_delta w" "w_new_rows (tighten_partner sc k b w) = w_new_rows w"
    "workspace.more (tighten_partner sc k b w) = workspace.more w"
  by (cases b; auto simp: tighten_partner_def raise_lo_def cut_up_def modify_at_def cmax_def cmin_def Let_def split: option.split)+

lemma tighten_partner_more:
  fixes s :: "xnum presolving"
  shows "records (tighten_partner sc k b s) = records s" "proved_infeasible (tighten_partner sc k b s) = proved_infeasible s"
  by (cases b; auto simp: tighten_partner_def Let_def split: option.split)+

lemma books_marks:
  assumes "sized m t" "w_rows t = w_rows s" "w_delta t = w_delta s" "w_new_rows t = w_new_rows s"
    "w_col_dead t = w_col_dead s" "w_row_dead t = w_row_dead s" "w_row_count t = w_row_count s"
    "w_col_count t = w_col_count s" "\<And>j. j < num_cols m \<Longrightarrow> w_doubleton s ! j \<Longrightarrow> w_doubleton t ! j" "books m s"
  shows "books m t"
proof -
  let ?u = "t\<lparr>w_doubleton := w_doubleton s\<rparr>"
  have sz: "sized m ?u" using assms(1,10) by (simp add: sized_def books_def)
  have "books m ?u" by (rule books_other[OF sz _ _ _ _ _ _ _ _ assms(10)]) (simp_all add: assms)
  then have u: "entries_ok m ?u" "fill_ok m ?u" "views_ok m ?u" "counts_ok m ?u" by (simp_all add: books_def)
  have eqs: "live_row m ?u = live_row m t" "live_col m ?u = live_col m t" "column_now m ?u = column_now m t"
      "rows_of m ?u = rows_of m t" "live_entries ?u = live_entries t"
    by (simp_all add: live_row_def live_col_def column_now_def rows_of_def live_entries_def fun_eq_iff)
  have "fill_ok m t" using u(2) assms(9) unfolding fill_ok_def by auto
  then show ?thesis
    using u assms(1) unfolding books_def entries_ok_def views_ok_def counts_ok_def eqs by simp
qed

definition eliminated :: "xnum presolving \<Rightarrow> nat \<Rightarrow> nat \<Rightarrow> rat \<Rightarrow> nat \<Rightarrow> rat \<Rightarrow> rat \<Rightarrow> xnum reduction" where
  "eliminated s i e qa k qb rhs = (new_reduction kDoubletonEquation i)\<lparr>rd_column := e, rd_coefficient := X qa, rd_partner := k,
     rd_partner_coefficient := X qb, rd_rhs := X rhs, rd_eliminated_cost := w_cost s ! e\<rparr>"

definition entered :: "rat \<Rightarrow> rat \<Rightarrow> rat \<Rightarrow> xnum model \<Rightarrow> nat \<Rightarrow> nat \<Rightarrow> rat \<Rightarrow> nat \<Rightarrow> rat \<Rightarrow> rat \<Rightarrow> xnum presolving \<Rightarrow> xnum presolving" where
  "entered ft mt z m i e qa k qb rhs s =
     (let s1 = log_record (eliminated s i e qa k qb rhs) s;
          s2 = tighten_partner (exact_scalar ft mt) k (partner_bounds ft mt z m k qa qb rhs (w_col_lower s ! e) (w_col_upper s ! e))
                 (s1\<lparr>w_doubleton := ((w_doubleton s1)[e := True])[k := True]\<rparr>)
      in s2\<lparr>w_cost := modify_at k (\<lambda>c. c - w_cost s ! e * (X qb div X qa)) (w_cost s2), w_offset := w_offset s2 + w_cost s ! e * X rhs div X qa\<rparr>)"

lemma entered_fields:
  defines "p \<equiv> partner_bounds"
  shows "w_col_lower (entered ft mt z m i e qa k qb rhs s) =
      (w_col_lower s)[k := raise_lo (w_col_lower s ! k) (fst (p ft mt z m k qa qb rhs (w_col_lower s ! e) (w_col_upper s ! e)))]"
    "w_col_upper (entered ft mt z m i e qa k qb rhs s) =
      (w_col_upper s)[k := cut_up (w_col_upper s ! k) (snd (p ft mt z m k qa qb rhs (w_col_lower s ! e) (w_col_upper s ! e)))]"
    "w_row_lower (entered ft mt z m i e qa k qb rhs s) = w_row_lower s" "w_row_upper (entered ft mt z m i e qa k qb rhs s) = w_row_upper s"
    "w_col_dead (entered ft mt z m i e qa k qb rhs s) = w_col_dead s" "w_row_dead (entered ft mt z m i e qa k qb rhs s) = w_row_dead s"
    "w_quadratic (entered ft mt z m i e qa k qb rhs s) = w_quadratic s" "w_rows (entered ft mt z m i e qa k qb rhs s) = w_rows s"
    "w_col_count (entered ft mt z m i e qa k qb rhs s) = w_col_count s" "w_row_count (entered ft mt z m i e qa k qb rhs s) = w_row_count s"
    "w_cost (entered ft mt z m i e qa k qb rhs s) = (w_cost s)[k := w_cost s ! k - w_cost s ! e * (X qb div X qa)]"
    "w_offset (entered ft mt z m i e qa k qb rhs s) = w_offset s + w_cost s ! e * X rhs div X qa"
    "w_doubleton (entered ft mt z m i e qa k qb rhs s) = ((w_doubleton s)[e := True])[k := True]"
    "w_singleton (entered ft mt z m i e qa k qb rhs s) = w_singleton s"
    "w_delta (entered ft mt z m i e qa k qb rhs s) = w_delta s" "w_new_rows (entered ft mt z m i e qa k qb rhs s) = w_new_rows s"
    "records (entered ft mt z m i e qa k qb rhs s) = records s @ [eliminated s i e qa k qb rhs]"
    "proved_infeasible (entered ft mt z m i e qa k qb rhs s) = proved_infeasible s"
  unfolding p_def
  by (simp_all add: entered_def Let_def tighten_partner_fields tighten_partner_more log_record_def modify_at_def)

lemma substitute_column_eq:
  assumes d: "distinct (map fst (column (matrix m) e))" and rhs: "w_row_lower s ! i = X rhs"
  shows "substitute_column (exact_scalar ft mt) (exact_pt z) m i e (X qa) k (X qb) s =
    kill_row i (filled_state (exact_scalar ft mt) (X qa) k (X qb) (X rhs) e (filled (exact_pt z) i s (column (matrix m) e))
      (entered ft mt z m i e qa k qb rhs s))"
proof -
  let ?u = "entered ft mt z m i e qa k qb rhs s"
  obtain tlo thi where t: "term_range (exact_scalar ft mt) (X qa) (w_col_lower s ! e) (w_col_upper s ! e) = (tlo, thi)" by fastforce
  have fil: "filled (exact_pt z) i ?u (column (matrix m) e) = filled (exact_pt z) i s (column (matrix m) e)"
    by (simp add: filled_def entered_fields)
  have f: "fold (fill_in (exact_scalar ft mt) (exact_pt z) i (X qa) k (X qb) (X rhs)) (column (matrix m) e) ?u =
      fill_rows (exact_scalar ft mt) (X qa) k (X qb) (X rhs) (filled (exact_pt z) i s (column (matrix m) e)) ?u"
    by (subst fill_in_fold[OF d]) (simp only: fil)
  have "substitute_column (exact_scalar ft mt) (exact_pt z) m i e (X qa) k (X qb) s =
      (let s4 = fold (fill_in (exact_scalar ft mt) (exact_pt z) i (X qa) k (X qb) (X rhs)) (column (matrix m) e) ?u
       in kill_row i (s4\<lparr>w_col_dead := (w_col_dead s4)[e := True]\<rparr>))"
    by (simp add: substitute_column_def rhs t entered_def eliminated_def partner_bounds_def Let_def)
  also have "\<dots> = kill_row i (filled_state (exact_scalar ft mt) (X qa) k (X qb) (X rhs) e (filled (exact_pt z) i s (column (matrix m) e)) ?u)"
    unfolding Let_def f filled_state_def by (simp add: fill_rows_def)
  finally show ?thesis .
qed

lemma entered_ok:
  fixes ft mt z rhs :: rat and i :: nat
  assumes t: "tidy m s" and e: "live_col m s e" and k: "live_col m s k" and q: "qa \<noteq> 0" "qb \<noteq> 0"
  defines "u \<equiv> entered ft mt z m i e qa k qb rhs s"
  shows "books m u" "numbers m u" "records_ok m u" "live_row m u = live_row m s" "live_col m u = live_col m s"
proof -
  have b: "books m s" "sized m s" using t by (simp_all add: tidy_def books_def)
  have ek: "e < num_cols m" "k < num_cols m" "\<not> w_col_dead s ! k" using e k by (simp_all add: live_col_def)
  note F = entered_fields[of ft mt z m i e qa k qb rhs s, folded u_def]
  note ne = live_numbers[OF t e] and nk = live_numbers[OF t k]
  show eqs: "live_row m u = live_row m s" "live_col m u = live_col m s" by (simp_all add: live_row_def live_col_def fun_eq_iff F)
  have sz: "sized m u" using b(2) by (simp add: sized_def F)
  show "books m u" using sz b ek by (intro books_marks[of m u s]) (auto simp: F nth_list_update sized_def)
  obtain ce ck where c: "w_cost s ! e = X ce" "w_cost s ! k = X ck" using ne(2) nk(2) xfinite_X by metis
  have "xfinite (w_cost u ! j)" if "j < num_cols m" for j
    using t b(2) that c q ek(2) by (simp add: F nth_list_update sized_def tidy_def numbers_def)
  moreover have "xfinite (w_offset u)"
    using t q by (cases "w_offset s") (simp_all add: F c tidy_def numbers_def)
  moreover have "sides_ok (w_col_lower u ! j) (w_col_upper u ! j)" if "j < num_cols m" for j
  proof (cases "j = k")
    case True
    have l: "k < length (w_col_lower s)" "k < length (w_col_upper s)" using b(2) ek(2) by (simp_all add: sized_def)
    show ?thesis unfolding F True nth_list_update_eq[OF l(1)] nth_list_update_eq[OF l(2)]
      by (rule moved_within(2)[OF nk(1) partner_within(1)[OF q ne(1)]])
  next
    case False
    then show ?thesis using t that by (simp add: F tidy_def numbers_def)
  qed
  ultimately show "numbers m u" using t unfolding tidy_def numbers_def eqs by (simp add: F)
  show "records_ok m u" using t unfolding tidy_def records_ok_def F by (auto simp: eliminated_def new_reduction_def)
qed

lemma substitute_ok:
  fixes ft mt z rhs :: rat
  assumes ok: "model_ok z m" and t: "tidy m s" and i: "live_row m s i" and e: "live_col m s e" and k: "live_col m s k"
    and ek: "e \<noteq> k" and dl: "\<not> w_doubleton s ! e" and nq: "\<not> w_quadratic s ! e"
    and ca: "coef s i e = qa" "coef s i k = qb" and q: "qa \<noteq> 0" "qb \<noteq> 0" and rhs: "w_row_lower s ! i = X rhs"
  defines "t' \<equiv> substitute_column (exact_scalar ft mt) (exact_pt z) m i e (X qa) k (X qb) s"
  defines "b \<equiv> partner_bounds ft mt z m k qa qb rhs (w_col_lower s ! e) (w_col_upper s ! e)"
  shows "tidy m t'" "records t' = records s @ [eliminated s i e qa k qb rhs]" "proved_infeasible t' = proved_infeasible s"
    "same_problem (problem_of m t') (substitute i e k rhs
       (set_bounds k (raise_lo (w_col_lower s ! k) (fst b)) (cut_up (w_col_upper s ! k) (snd b)) (problem_of m s)))"
proof -
  have bk: "books m s" "sized m s" "fill_ok m s" using t by (simp_all add: tidy_def books_def)
  have ee: "e < num_cols m" "k < num_cols m" "\<not> w_col_dead s ! k" "\<not> w_col_dead s ! e" using e k by (simp_all add: live_col_def)
  have ii: "i < num_rows m" using i by (simp add: live_row_def)
  let ?u = "entered ft mt z m i e qa k qb rhs s" and ?es = "filled (exact_pt z) i s (column (matrix m) e)"
  let ?v = "filled_state (exact_scalar ft mt) (X qa) k (X qb) (X rhs) e ?es ?u"
  have eq: "t' = kill_row i ?v" unfolding t'_def by (rule substitute_column_eq[OF model_column(1)[OF ok ee(1)] rhs])
  note E = entered_ok[OF t e k q, of ft mt z i rhs]
  note F = entered_fields[of ft mt z m i e qa k qb rhs s]
  note fe = fill_facts(5)[OF bk(3) ee(1) dl]
  have es: "?es = filled (exact_pt z) i ?u (column (matrix m) e)" by (simp add: filled_def F)
  have ue: "live_col m ?u e" "live_col m ?u k" using e k E(5) by simp_all
  have ud: "w_delta ?u ! e = Map.empty" "w_new_rows ?u ! e = []" using fe by (simp_all add: F)
  have um: "w_doubleton ?u ! e" "w_doubleton ?u ! k" using bk(2) ee by (simp_all add: F sized_def nth_list_update)
  have bv: "books m ?v" unfolding es by (rule filled_books[OF ok E(1) ue ek ud um q(1)])
  have sr: "sides_ok (w_row_lower ?u ! r) (w_row_upper ?u ! r)" "w_row_lower ?u ! r \<le> w_row_upper ?u ! r" if "live_row m s r" for r
    using live_rows[OF t that] by (simp_all add: F)
  note R = filled_reads[OF ok E(1) ue ud q(1) _ sr(1), where i = i and ft = ft and mt = mt and qb = qb and rhs = rhs, folded es, unfolded E(4)]
  have szu: "sized m ?u" using E(1) by (simp add: books_def)
  have dist: "distinct (map fst ?es)" unfolding es by (rule filled_table(1)[OF ok E(1) ue(1) ud])
  note G = filled_fields[OF dist szu ee(2), where sc = "exact_scalar ft mt" and a = "X qa" and b = "X qb" and rhs = "X rhs" and e = e]
  have vm: "records ?v = records ?u" "proved_infeasible ?v = proved_infeasible ?u" by (simp_all add: filled_state_def fill_rows_def)
  have lr: "live_row m ?v = live_row m s" by (simp add: live_row_def fun_eq_iff G F)
  have dead: "w_col_dead ?v ! c \<longleftrightarrow> c = e \<or> w_col_dead s ! c" for c using dead_nth[OF bk(2) ee(1)] by (simp add: G F)
  have lc: "live_col m ?v c \<longleftrightarrow> live_col m s c \<and> c \<noteq> e" for c by (auto simp: live_col_def dead)
  have cu: "coef ?u = coef s" by (simp add: coef_def[abs_def] F)
  have "numbers m ?v"
  proof -
    have "sides_ok (w_row_lower ?v ! r) (w_row_upper ?v ! r) \<and> w_row_lower ?v ! r \<le> w_row_upper ?v ! r" if "live_row m s r" for r
      unfolding R(2,3)[OF that that] using sr[OF that] by (auto simp: xshift_mono)
    then show ?thesis using E(2) nq unfolding numbers_def lr by (auto simp: G(1,2,5,6,7) dead F(5,7))
  qed
  moreover have "records_ok m ?v" using E(3) unfolding records_ok_def vm dead F(5) by auto
  ultimately have tv: "tidy m ?v" using bv by (simp add: tidy_def)
  have vi: "live_row m ?v i" using i lr by simp
  show "tidy m t'" unfolding eq by (rule kill_row_tidy[OF tv vi])
  show "records t' = records s @ [eliminated s i e qa k qb rhs]" "proved_infeasible t' = proved_infeasible s"
    unfolding eq kill_row_more vm F by simp_all
  obtain ce where ce: "w_cost s ! e = X ce" using live_numbers(2)[OF t e] xfinite_X by blast
  obtain ck where ck: "w_cost s ! k = X ck" using live_numbers(2)[OF t k] xfinite_X by blast
  obtain off where off: "w_offset s = X off" using t xfinite_X by (metis tidy_def numbers_def)
  have cost: "w_cost ?v ! c = (if c = k then X (ck - ce * (qb / qa)) else w_cost s ! c)" if "c < num_cols m" for c
    using bk(2) ee q that by (simp add: G F sized_def nth_list_update ce ck)
  have "removed_cost (w_cost ?v) x = removed_cost (w_cost s) x" if x: "x \<in> set (records s)" for x
  proof -
    have "rd_kind x \<in> {kFixedColumn, kEmptyColumn} \<Longrightarrow> rd_index x < num_cols m \<and> rd_index x \<noteq> k"
      using t x ee(3) by (auto simp: tidy_def records_ok_def)
    then show ?thesis by (auto simp: removed_cost_def cost)
  qed
  then have sum: "(\<Sum>x\<leftarrow>records ?v. removed_cost (w_cost ?v) x) = (\<Sum>x\<leftarrow>records s. removed_cost (w_cost s) x)"
    by (simp add: vm F eliminated_def new_reduction_def removed_cost_def cong: map_cong)
  have const: "xval (w_offset ?v) = off + ce * rhs / qa" using q by (simp add: G F ce off)
  have bounds: "w_col_lower ?v = (w_col_lower s)[k := raise_lo (w_col_lower s ! k) (fst b)]"
    "w_col_upper ?v = (w_col_upper s)[k := cut_up (w_col_upper s ! k) (snd b)]" by (simp_all add: G F b_def)
  let ?Q = "set_bounds k (raise_lo (w_col_lower s ! k) (fst b)) (cut_up (w_col_upper s ! k) (snd b)) (problem_of m s)"
  have p: "problem_of m t' = drop_rows i (problem_of m ?v)" unfolding eq using bv vi by (intro kill_row_problem) (simp_all add: books_def)
  have rows: "r \<noteq> i \<Longrightarrow> live_row m s r \<Longrightarrow> coef ?v r c = (if c = k then coef s r k - coef s r e / qa * qb else coef s r c)" for r c
    using R(1)[of r c] cu by simp
  have sides: "w_row_lower ?v ! r = xshift (w_row_lower s ! r) (coef s r e / qa * rhs)"
    "w_row_upper ?v ! r = xshift (w_row_upper s ! r) (coef s r e / qa * rhs)" if "r \<noteq> i" "live_row m s r" for r
    using R(2,3)[OF that(2) that(2)] that(1) cu by (simp_all add: F)
  have cols: "p_cols (problem_of m t') = p_cols (substitute i e k rhs ?Q)" "p_rows (problem_of m t') = p_rows (substitute i e k rhs ?Q)"
    unfolding p by (auto simp: drop_rows_def substitute_def set_bounds_def problem_fields lc lr Let_def)
  show "same_problem (problem_of m t') (substitute i e k rhs ?Q)"
    unfolding same_problem_def
  proof (intro conjI cols ballI)
    show "p_const (problem_of m t') = p_const (substitute i e k rhs ?Q)"
      unfolding p by (simp add: drop_rows_def substitute_def set_bounds_def problem_of_def Let_def sum const ca ce off)
    fix c assume "c \<in> p_cols (problem_of m t')"
    then have c: "c < num_cols m" by (simp add: p drop_rows_def problem_fields live_col_def)
    show "p_lower (problem_of m t') c = p_lower (substitute i e k rhs ?Q) c" "p_upper (problem_of m t') c = p_upper (substitute i e k rhs ?Q) c"
      "p_cost (problem_of m t') c = p_cost (substitute i e k rhs ?Q) c"
      unfolding p using c bk(2) by (simp_all add: drop_rows_def substitute_def set_bounds_def problem_of_def Let_def bounds cost ca ce ck
        nth_list_update sized_def)
  next
    fix r assume "r \<in> p_rows (problem_of m t')"
    then have r: "r \<noteq> i" "live_row m s r" by (simp_all add: p drop_rows_def problem_fields lr)
    show "p_row_lower (problem_of m t') r = p_row_lower (substitute i e k rhs ?Q) r"
      "p_row_upper (problem_of m t') r = p_row_upper (substitute i e k rhs ?Q) r"
      unfolding p using sides[OF r] by (simp_all add: drop_rows_def substitute_def set_bounds_def problem_of_def Let_def ca)
    fix c
    show "p_coef (problem_of m t') r c = p_coef (substitute i e k rhs ?Q) r c"
      unfolding p using rows[OF r] by (simp add: drop_rows_def substitute_def set_bounds_def problem_of_def Let_def ca)
  qed
qed

lemma substitute_step:
  assumes ok: "model_ok z m" and t: "tidy m s" and i: "live_row m s i" and e: "live_col m s e" and k: "live_col m s k"
    and ek: "e \<noteq> k" and dl: "\<not> w_doubleton s ! e" and nq: "\<not> w_quadratic s ! e" and real: "col_type m ! e \<noteq> kInteger"
    and ca: "coef s i e = qa" "coef s i k = qb" and q: "qa \<noteq> 0" "qb \<noteq> 0"
    and rhs: "w_row_lower s ! i = X rhs" "w_row_upper s ! i = X rhs"
    and two: "\<And>c. live_col m s c \<Longrightarrow> c \<noteq> e \<Longrightarrow> c \<noteq> k \<Longrightarrow> coef s i c = 0"
  shows "advances z m s (substitute_column (exact_scalar ft mt) (exact_pt z) m i e (X qa) k (X qb) s)"
proof -
  let ?t = "substitute_column (exact_scalar ft mt) (exact_pt z) m i e (X qa) k (X qb) s"
  let ?b = "partner_bounds ft mt z m k qa qb rhs (w_col_lower s ! e) (w_col_upper s ! e)"
  let ?nl = "raise_lo (w_col_lower s ! k) (fst ?b)" and ?nu = "cut_up (w_col_upper s ! k) (snd ?b)"
  let ?P = "problem_of m s" and ?ints = "integers_of m"
  let ?Q = "set_bounds k ?nl ?nu ?P" and ?r = "eliminated s i e qa k qb rhs"
  note so = substitute_ok[OF ok t i e k ek dl nq ca q rhs(1), of ft mt]
  note ne = live_numbers[OF t e] and nk = live_numbers[OF t k] and li = live_rows[OF t i]
  note pw = partner_within[OF q ne(1), where ft = ft and mt = mt and z = z and m = m and k = k and rhs = rhs]
  note mv = moved_within(1)[OF nk(1) pw(1)]
  have twoP: "\<forall>c \<in> p_cols ?P. c \<noteq> e \<longrightarrow> c \<noteq> k \<longrightarrow> p_coef ?P i c = 0" using two by (simp add: problem_fields)
  have inner: "?nl \<le> X v \<Longrightarrow> X v \<le> ?nu \<Longrightarrow> p_lower ?P k \<le> X v \<and> X v \<le> p_upper ?P k" for v
    using mv[of v] by (simp add: problem_fields)
  have box: "?nl \<le> X (x k) \<and> X (x k) \<le> ?nu" if x: "point_of ?ints ?P x" for x
  proof -
    have b: "in_box ?ints ?P x e" "in_box ?ints ?P x k" "row_holds ?P x i" using x ne(3) nk(3) li(3) by (auto simp: point_of_def)
    then have act: "activity ?P x i = rhs" by (simp add: row_holds_def problem_fields rhs)
    have "(\<Sum>j \<in> p_cols ?P - {e} - {k}. p_coef ?P i j * x j) = 0" using twoP by (intro sum.neutral) auto
    then have "qa * x e + qb * x k = rhs"
      using act two_split[OF finite_cols ne(3) nk(3) ek, of "\<lambda>j. p_coef ?P i j * x j"] ca by (simp add: activity_def problem_fields)
    then have xe: "x e = (rhs - qb * x k) / qa" using q(1) by (simp add: field_simps)
    have kn: "k < num_cols m" using k by (simp add: live_col_def)
    have "opt_within ?b (x k)"
      using b(1,2) kn by (intro pw(3)) (simp_all add: in_box_def problem_fields integers_of_def xe)
    then show ?thesis using b(2) unfolding mv by (simp add: in_box_def problem_fields)
  qed
  have st1: "sound_step ?ints ?P ?Q (\<lambda>x. x)" "lossless_step ?ints sg ?P ?Q" for sg
    by (rule set_bounds_step; use inner box in blast)+
  have Q: "p_cols ?Q = p_cols ?P" "p_rows ?Q = p_rows ?P" "p_coef ?Q = p_coef ?P" "p_row_lower ?Q i = X rhs" "p_row_upper ?Q i = X rhs"
    "p_lower ?Q k = ?nl" "p_upper ?Q k = ?nu" "p_lower ?Q e = w_col_lower s ! e" "p_upper ?Q e = w_col_upper s ! e"
    "p_coef ?P i e = qa" "p_coef ?P i k = qb"
    using ek by (simp_all add: set_bounds_def problem_fields rhs ca)
  have st2: "sound_step ?ints ?Q (substitute i e k rhs ?Q) (\<lambda>x. x(e := (rhs - p_coef ?Q i k * x k) / p_coef ?Q i e))"
  proof (rule substitute_sound)
    show "e \<notin> ?ints" using real by (simp add: integers_of_def)
    fix v assume "p_lower ?Q k \<le> X v" "X v \<le> p_upper ?Q k"
    then have "opt_within ?b v" using mv[of v] by (simp add: Q)
    from pw(2)[OF this]
    show "p_lower ?Q e \<le> X ((rhs - p_coef ?Q i k * v) / p_coef ?Q i e) \<and> X ((rhs - p_coef ?Q i k * v) / p_coef ?Q i e) \<le> p_upper ?Q e"
      by (simp add: Q)
  qed (use ek q twoP ne(3) nk(3) in \<open>simp_all add: Q\<close>)
  have st3: "lossless_step ?ints sg ?Q (substitute i e k rhs ?Q)" for sg
    by (rule substitute_lossless) (use ek q twoP ne(3) nk(3) li(3) in \<open>simp_all add: Q\<close>)
  have un: "undo ?P ?r = (\<lambda>x. x(e := (rhs - p_coef ?Q i k * x k) / p_coef ?Q i e))"
    by (simp add: undo_def eliminated_def new_reduction_def fun_eq_iff Q)
  have snd: "sound_step ?ints ?P (problem_of m ?t) (undo ?P ?r)"
    using sound_trans[OF st1(1) st2] by (simp add: un step_same[OF so(4)])
  have less: "lossless_step ?ints sg ?P (problem_of m ?t)" for sg
    using lossless_trans[OF st1(2) st3] by (simp add: step_same[OF so(4)])
  have "steps_to z m s ?t [?r]"
    by (rule steps_to_record[OF so(2,3) snd]) (use less in \<open>simp_all add: lossless_step_def\<close>)
  then show ?thesis using so(1) by (auto simp: advances_def)
qed

text \<open>The two columns of the equation, when the code substitutes one by the other.\<close>

lemma doubleton_pick:
  assumes ok: "model_ok z m" and t: "tidy m s" and i: "live_row m s i" and c: "w_row_count s ! i = 2"
    and eq: "w_row_upper s ! i - w_row_lower s ! i \<le> X 0" "xfinite (w_row_lower s ! i)"
    and some: "doubleton (exact_scalar ft mt) (exact_pt z) m i s \<noteq> s"
  obtains e k rhs where "live_col m s e" "live_col m s k" "e \<noteq> k" "\<not> w_doubleton s ! e" "\<not> w_quadratic s ! e" "col_type m ! e \<noteq> kInteger"
    "coef s i e \<noteq> 0" "coef s i k \<noteq> 0" "w_row_lower s ! i = X rhs" "w_row_upper s ! i = X rhs"
    "\<And>x. live_col m s x \<Longrightarrow> x \<noteq> e \<Longrightarrow> x \<noteq> k \<Longrightarrow> coef s i x = 0"
    "doubleton (exact_scalar ft mt) (exact_pt z) m i s =
       substitute_column (exact_scalar ft mt) (exact_pt z) m i e (X (coef s i e)) k (X (coef s i k)) s"
proof -
  have b: "books m s" using t by (simp add: tidy_def)
  have z: "0 < z" using ok by (simp add: model_ok_def)
  obtain first second rest e a k d where l: "live_entries s i = first # second # rest"
      and ch: "choose_eliminated m first (last (second # rest)) = Some ((e, a), k, d)"
      and g: "\<not> \<bar>a\<bar> < X z" "\<not> \<bar>d\<bar> < X z" "\<not> w_doubleton s ! e" "\<not> w_quadratic s ! e"
      and out: "doubleton (exact_scalar ft mt) (exact_pt z) m i s = substitute_column (exact_scalar ft mt) (exact_pt z) m i e a k d s"
    using some unfolding doubleton_def by (auto simp: exact_pt_def split: list.splits option.splits if_splits prod.splits)
  have "int (length (live_entries s i)) \<le> w_row_count s ! i" using b i by (simp add: books_def counts_ok_def)
  then have l2: "live_entries s i = [first, second]" using l c by simp
  then have pick: "((e, a) = first \<and> (k, d) = second \<or> (e, a) = second \<and> (k, d) = first)" "col_type m ! e \<noteq> kInteger"
    using ch l by (auto simp: choose_eliminated_def split: if_splits)
  note re = row_entries[OF b i]
  have dist: "distinct (map fst (live_entries s i))" using re(1) by (simp add: live_entries_def distinct_map_filter)
  have ek: "e \<noteq> k" using dist pick(1) unfolding l2 by auto
  have "(e, a) \<in> set (live_entries s i)" "(k, d) \<in> set (live_entries s i)" unfolding l2 using pick(1) by auto
  then have mem: "(e, a) \<in> set (w_rows s ! i)" "\<not> w_col_dead s ! e" "(k, d) \<in> set (w_rows s ! i)" "\<not> w_col_dead s ! k"
    by (auto simp: live_entries_def)
  have a: "a = X (coef s i e)" "d = X (coef s i k)" and lc: "live_col m s e" "live_col m s k"
    using re(2)[OF mem(1)] re(2)[OF mem(3)] mem by (simp_all add: live_col_def)
  have q: "coef s i e \<noteq> 0" "coef s i k \<noteq> 0" using g(1,2) a z by auto
  have two: "coef s i x = 0" if x: "live_col m s x" "x \<noteq> e" "x \<noteq> k" for x
  proof -
    have "x \<notin> fst ` set (live_entries s i)" unfolding l2 using x pick(1) by auto
    then have "x \<notin> fst ` set (w_rows s ! i)" using x(1) by (force simp: live_entries_def live_col_def)
    then show ?thesis by (intro coef_none) (simp add: map_of_eq_None_iff)
  qed
  note li = live_rows[OF t i]
  obtain rhs where r: "w_row_lower s ! i = X rhs" using eq(2) xfinite_X by blast
  then have r': "w_row_upper s ! i = X rhs" using eq(1) li(2) by (cases "w_row_upper s ! i") (auto simp: minus_xnum_def)
  show thesis using that[OF lc ek g(3,4) pick(2) q r r' two] out unfolding a[symmetric] by blast
qed

lemma doubleton_step:
  assumes ok: "model_ok z m" and t: "tidy m s" and i: "live_row m s i" and c: "w_row_count s ! i = 2"
    and eq: "w_row_upper s ! i - w_row_lower s ! i \<le> X 0" "xfinite (w_row_lower s ! i)"
  shows "advances z m s (doubleton (exact_scalar ft mt) (exact_pt z) m i s)"
proof (cases "doubleton (exact_scalar ft mt) (exact_pt z) m i s = s")
  case True
  then show ?thesis using advances_refl[OF t] by simp
next
  case False
  from doubleton_pick[OF ok t i c eq False] obtain e k rhs where p: "live_col m s e" "live_col m s k" "e \<noteq> k" "\<not> w_doubleton s ! e"
    "\<not> w_quadratic s ! e" "col_type m ! e \<noteq> kInteger" "coef s i e \<noteq> 0" "coef s i k \<noteq> 0" "w_row_lower s ! i = X rhs" "w_row_upper s ! i = X rhs"
    "\<And>x. live_col m s x \<Longrightarrow> x \<noteq> e \<Longrightarrow> x \<noteq> k \<Longrightarrow> coef s i x = 0"
    "doubleton (exact_scalar ft mt) (exact_pt z) m i s =
       substitute_column (exact_scalar ft mt) (exact_pt z) m i e (X (coef s i e)) k (X (coef s i k)) s" by blast
  show ?thesis unfolding p(12) by (rule substitute_step[OF ok t i p(1-6) refl refl p(7-11)])
qed

section \<open>The reductions of a row\<close>

lemma reduce_row_step:
  assumes ok: "model_ok z m" and t: "tidy m s" and i: "i < num_rows m"
  shows "advances z m s (reduce_row (exact_scalar ft mt) (exact_pt z) m i s)"
proof (cases "proved_infeasible s \<or> w_row_dead s ! i")
  case True
  then show ?thesis using advances_refl[OF t] by (simp add: reduce_row_def)
next
  case False
  let ?P = "problem_of m s" and ?ints = "integers_of m" and ?sc = "exact_scalar ft mt"
  let ?lo = "w_row_lower s ! i" and ?up = "w_row_upper s ! i" and ?b = "activity_bounds (exact_scalar ft mt) s i"
  have li: "live_row m s i" using False i by (simp add: live_row_def)
  have b: "books m s" using t by (simp add: tidy_def)
  note lr = live_rows[OF t li]
  have holds: "row_holds ?P x i \<longleftrightarrow> ?lo \<le> X (activity ?P x i) \<and> X (activity ?P x i) \<le> ?up" for x
    by (simp add: row_holds_def problem_fields)
  have cross: "\<not> ?up + X 0 < ?lo" using lr(1,2) by (cases ?lo; cases ?up; simp add: sides_ok_def plus_xnum_def)
  have empty: "activity ?P x i = 0" if "w_row_count s ! i = 0" for x by (rule empty_row_activity[OF b li that])
  have ref: "advances z m s (refute y s)" if "\<And>x. point_of ?ints ?P x \<Longrightarrow> row_holds ?P x i \<Longrightarrow> False" for y
    using that lr(3) by (intro advances_refute[OF t]) (auto simp: point_of_def)
  have range: "range_holds ?b (activity ?P x i)" if "\<forall>j \<in> p_cols ?P. in_box ?ints ?P x j" for x
    by (rule activity_in_range[OF b li that])
  have refb: "advances z m s (refute y s)"
    if "ar_upper_finite ?b \<and> xfinite ?lo \<and> ar_upper ?b < ?lo - X 0 \<or> ar_lower_finite ?b \<and> xfinite ?up \<and> ?up + X 0 < ar_lower ?b" for y
  proof (rule ref)
    fix x assume x: "point_of ?ints ?P x" "row_holds ?P x i"
    then have "range_holds ?b (activity ?P x i)" by (intro range) (simp add: point_of_def)
    from range_refutes[OF this that] show False using x(2) holds by simp
  qed
  have fs: "sc_fin ?sc = xfinite" "pt_feasibility (exact_pt z) = X 0" by (simp_all add: exact_scalar_def exact_pt_def)
  have eqs: "reduce_row ?sc (exact_pt z) m i s =
    (if ?up + X 0 < ?lo then refute None s
     else if w_row_count s ! i = 0 then
       (if xfinite ?lo \<and> X 0 < ?lo \<or> xfinite ?up \<and> ?up < - X 0 then
          refute (Some ((replicate (length (w_row_lower s)) 0)[i := if xfinite ?lo \<and> X 0 < ?lo then 1 else - 1])) s
        else drop_row kEmptyRow i s)
     else if (\<not> xfinite ?lo \<or> ar_lower_finite ?b \<and> ?lo - X 0 \<le> ar_lower ?b) \<and> (\<not> xfinite ?up \<or> ar_upper_finite ?b \<and> ar_upper ?b \<le> ?up + X 0)
       then drop_row kRedundantRow i s
     else if ar_upper_finite ?b \<and> xfinite ?lo \<and> ar_upper ?b < ?lo - X 0 then refute (Some (activity_certificate s i 1)) s
     else if ar_lower_finite ?b \<and> xfinite ?up \<and> ?up + X 0 < ar_lower ?b then refute (Some (activity_certificate s i (- 1))) s
     else if w_row_count s ! i = 1 then absorb_singleton_row ?sc (exact_pt z) m i s
     else if w_row_count s ! i = 2 \<and> ?up - ?lo \<le> X 0 \<and> xfinite ?lo then doubleton ?sc (exact_pt z) m i s
     else s)"
    unfolding reduce_row_def Let_def fs if_not_P[OF False] by (rule refl)
  show ?thesis
    unfolding eqs
  proof (intro advances_if, goal_cases)
    case 1
    then show ?case using cross by simp
  next
    case 2
    have "X 0 < ?lo \<or> ?up < X 0" using 2(3) by auto
    then show ?case
      by (intro ref) (use empty[OF 2(2)] holds in \<open>cases ?lo; cases ?up; auto\<close>)
  next
    case 3
    have "?lo \<le> X 0 \<and> X 0 \<le> ?up" using 3(3) lr(1) by (cases ?lo; cases ?up; auto simp: sides_ok_def)
    then show ?case by (intro drop_row_ok[OF t li]) (simp_all add: holds empty[OF 3(2)])
  next
    case 4
    show ?case
    proof (rule drop_row_ok[OF t li])
      fix x assume "\<forall>j \<in> p_cols ?P. in_box ?ints ?P x j"
      from range_redundant[OF range[OF this] _ _ lr(1)] show "row_holds ?P x i" using 4(3) holds by blast
    qed simp
  next
    case 5
    then show ?case by (intro refb) blast
  next
    case 6
    then show ?case by (intro refb) blast
  next
    case 7
    then show ?case by (intro absorb_step[OF ok t li])
  next
    case 8
    then show ?case by (intro doubleton_step[OF ok t li]) simp_all
  next
    case 9
    show ?case by (rule advances_refl[OF t])
  qed
qed

end
