(* ===== verification/PresolvePromise.thy ===== *)
theory PresolvePromise
  imports PresolveRun
begin

text \<open>
  The workspace presolve starts from stands for the model, and the passes keep three promises on the way
  to the fixed point: no point of the model is lost, no value gets worse while the eliminated prices are
  clear of the tolerance, and a verdict of infeasibility is right.
\<close>

section \<open>The start\<close>

text \<open>The linear problem of a model.\<close>

definition model_problem :: "xnum model \<Rightarrow> problem" where
  "model_problem m = \<lparr>p_cols = {..<num_cols m}, p_rows = {..<num_rows m}, p_lower = (!) (col_lower m), p_upper = (!) (col_upper m),
     p_row_lower = (!) (row_lower m), p_row_upper = (!) (row_upper m),
     p_coef = (\<lambda>i j. case map_of (column (matrix m) j) i of None \<Rightarrow> 0 | Some a \<Rightarrow> xval a),
     p_cost = (\<lambda>j. xval (col_cost m ! j)), p_const = 0\<rparr>"

lemma scatter_entries_nth:
  assumes "distinct (map fst es)" "i < length rows" "length cnt = length rows" "scatter_entries j es (rows, cnt) = (rows', cnt')"
  shows "length rows' = length rows" "length cnt' = length cnt"
    "rows' ! i = rows ! i @ (case map_of es i of None \<Rightarrow> [] | Some a \<Rightarrow> [(j, a)])"
    "cnt' ! i = cnt ! i + (case map_of es i of None \<Rightarrow> 0 | Some a \<Rightarrow> 1)"
proof -
  have "length rows' = length rows \<and> length cnt' = length cnt \<and>
    rows' ! i = rows ! i @ (case map_of es i of None \<Rightarrow> [] | Some a \<Rightarrow> [(j, a)]) \<and>
    cnt' ! i = cnt ! i + (case map_of es i of None \<Rightarrow> 0 | Some a \<Rightarrow> 1)"
    using assms
  proof (induction es arbitrary: rows cnt)
    case (Cons e es)
    obtain r a where e: "e = (r, a)" by (cases e)
    let ?rows = "modify_at r (\<lambda>es. es @ [(j, a)]) rows" and ?cnt = "modify_at r (\<lambda>c. c + 1) cnt"
    have run: "scatter_entries j es (?rows, ?cnt) = (rows', cnt')" using Cons.prems(4) by (simp add: scatter_entries_def e)
    have n: "map_of es r = None" using Cons.prems(1) by (simp add: e map_of_eq_None_iff)
    have "?rows ! i = (if i = r then rows ! i @ [(j, a)] else rows ! i)" "?cnt ! i = (if i = r then cnt ! i + 1 else cnt ! i)"
      using Cons.prems(2,3) by (cases "r < length rows"; auto simp: nth_modify_at modify_at_def list_update_beyond)+
    then show ?case using Cons.IH[OF _ _ _ run] Cons.prems n by (auto simp: e split: option.splits)
  qed (simp add: scatter_entries_def)
  then show "length rows' = length rows" "length cnt' = length cnt"
    "rows' ! i = rows ! i @ (case map_of es i of None \<Rightarrow> [] | Some a \<Rightarrow> [(j, a)])"
    "cnt' ! i = cnt ! i + (case map_of es i of None \<Rightarrow> 0 | Some a \<Rightarrow> 1)" by simp_all
qed

definition scattered :: "xnum model \<Rightarrow> nat \<Rightarrow> (nat \<times> xnum) list list \<times> int list" where
  "scattered m n = fold (\<lambda>j. scatter_entries j (column (matrix m) j)) [0..<n] (replicate (num_rows m) [], replicate (num_rows m) 0)"

lemma scattered_ok:
  assumes ok: "model_ok z m" and n: "n \<le> num_cols m"
  shows "length (fst (scattered m n)) = num_rows m \<and> length (snd (scattered m n)) = num_rows m \<and>
    (\<forall>i < num_rows m. fst ` set (fst (scattered m n) ! i) \<subseteq> {..<n} \<and> distinct (map fst (fst (scattered m n) ! i)) \<and>
       snd (scattered m n) ! i = int (length (fst (scattered m n) ! i)) \<and>
       (\<forall>j. map_of (fst (scattered m n) ! i) j = (if j < n then map_of (column (matrix m) j) i else None)))"
  using n
proof (induction n)
  case 0
  then show ?case by (simp add: scattered_def)
next
  case (Suc n)
  obtain rows cnt where s: "scattered m n = (rows, cnt)" by fastforce
  obtain rows' cnt' where s': "scatter_entries n (column (matrix m) n) (rows, cnt) = (rows', cnt')" by fastforce
  have eq: "scattered m (Suc n) = (rows', cnt')" using s s' by (simp add: scattered_def)
  have IH: "length rows = num_rows m" "length cnt = num_rows m"
    "\<And>i. i < num_rows m \<Longrightarrow> fst ` set (rows ! i) \<subseteq> {..<n} \<and> distinct (map fst (rows ! i)) \<and> cnt ! i = int (length (rows ! i)) \<and>
       (\<forall>j. map_of (rows ! i) j = (if j < n then map_of (column (matrix m) j) i else None))"
    using Suc by (simp_all add: s)
  have d: "distinct (map fst (column (matrix m) n))" using Suc.prems by (intro model_column(1)[OF ok]) simp
  have row: "length rows' = num_rows m \<and> length cnt' = num_rows m \<and> fst ` set (rows' ! i) \<subseteq> {..<Suc n} \<and> distinct (map fst (rows' ! i)) \<and>
      cnt' ! i = int (length (rows' ! i)) \<and> (\<forall>j. map_of (rows' ! i) j = (if j < Suc n then map_of (column (matrix m) j) i else None))"
    if i: "i < num_rows m" for i
  proof -
    note sc = scatter_entries_nth[OF d _ _ s', of i]
    have fresh: "n \<notin> fst ` set (rows ! i)" using IH(3)[OF i] by auto
    then have mn: "map_of (rows ! i) n = None" by (simp add: map_of_eq_None_iff)
    show ?thesis
      using sc IH(1,2) IH(3)[OF i] i fresh mn
      by (auto simp: map_add_def less_Suc_eq split: option.splits)
  qed
  have "length rows' = num_rows m \<and> length cnt' = num_rows m"
  proof -
    have "length (fst (scatter_entries j es (r, c))) = length r \<and> length (snd (scatter_entries j es (r, c))) = length c"
      for j and es :: "(nat \<times> xnum) list" and r c
      by (induction es arbitrary: r c) (auto simp: scatter_entries_def)
    from this[of n "column (matrix m) n" rows cnt] show ?thesis using s' IH(1,2) by simp
  qed
  then show ?case using row unfolding eq by simp
qed

lemma start_fields:
  "w_col_lower (start_workspace m) = col_lower m" "w_col_upper (start_workspace m) = col_upper m"
  "w_row_lower (start_workspace m) = row_lower m" "w_row_upper (start_workspace m) = row_upper m"
  "w_col_dead (start_workspace m) = replicate (num_cols m) False" "w_row_dead (start_workspace m) = replicate (num_rows m) False"
  "w_rows (start_workspace m) = fst (scattered m (num_cols m))" "w_row_count (start_workspace m) = snd (scattered m (num_cols m))"
  "w_col_count (start_workspace m) = map (\<lambda>j. int (length (column (matrix m) j))) [0..<num_cols m]"
  "w_cost (start_workspace m) = col_cost m" "w_offset (start_workspace m) = 0"
  "w_doubleton (start_workspace m) = replicate (num_cols m) False" "w_singleton (start_workspace m) = replicate (num_cols m) False"
  "w_delta (start_workspace m) = replicate (num_cols m) Map.empty" "w_new_rows (start_workspace m) = replicate (num_cols m) []"
  "records (start_workspace m) = []" "proved_infeasible (start_workspace m) = False"
  by (simp_all add: start_workspace_def scattered_def Let_def split: prod.split)

lemma start_live:
  fixes m :: "xnum model"
  shows "live_row m (start_workspace m) i \<longleftrightarrow> i < num_rows m" "live_col m (start_workspace m) j \<longleftrightarrow> j < num_cols m"
  by (auto simp: live_row_def live_col_def start_fields)

lemma start_tidy:
  assumes ok: "model_ok z m"
  shows "tidy m (start_workspace m)"
proof -
  let ?s = "start_workspace m"
  note sc = scattered_ok[OF ok order_refl]
  have len: "length (col_lower m) = num_cols m" "length (col_upper m) = num_cols m" "length (row_upper m) = num_rows m"
    using ok by (simp_all add: model_ok_def)
  have ll: "length (col_cost m) = num_cols m" "length (row_lower m) = num_rows m" by (simp_all add: num_cols_def num_rows_def)
  have sz: "sized m ?s" using sc len ll unfolding sized_def start_fields by simp
  have ents: "entries_ok m ?s"
    unfolding entries_ok_def start_fields
  proof (intro allI impI conjI ballI)
    fix i assume i: "i < num_rows m"
    show d: "distinct (map fst (fst (scattered m (num_cols m)) ! i))" using sc i by simp
    fix x assume x: "x \<in> set (fst (scattered m (num_cols m)) ! i)"
    obtain j a where ja: "x = (j, a)" by (cases x)
    have "map_of (fst (scattered m (num_cols m)) ! i) j = Some a" using d x ja by (simp add: map_of_eq_Some_iff)
    then have j: "j < num_cols m" "map_of (column (matrix m) j) i = Some a" using sc i by (auto split: if_splits)
    from model_column(2)[OF ok j(1) map_of_SomeD[OF j(2)]]
    show "fst x < num_cols m" "xfinite (snd x)" using j(1) ja by simp_all
  qed
  have now: "column_now m ?s j = column (matrix m) j" if "j < num_cols m" for j
    using that by (simp add: column_now_def start_fields)
  have views: "views_ok m ?s" using sc now unfolding views_ok_def start_live start_fields by simp
  have fills: "fill_ok m ?s" unfolding fill_ok_def start_fields by simp
  have "int (card (rows_of m ?s j)) \<le> w_col_count ?s ! j" if j: "j < num_cols m" for j
  proof -
    have "rows_of m ?s j \<subseteq> fst ` set (column (matrix m) j)"
    proof
      fix i assume i: "i \<in> rows_of m ?s j"
      then have ii: "i < num_rows m" "j \<in> fst ` set (fst (scattered m (num_cols m)) ! i)" by (auto simp: rows_of_def start_live start_fields)
      then have "map_of (fst (scattered m (num_cols m)) ! i) j \<noteq> None" by (simp add: map_of_eq_None_iff)
      then have "map_of (column (matrix m) j) i \<noteq> None" using sc ii j by simp
      then show "i \<in> fst ` set (column (matrix m) j)" by (simp add: map_of_eq_None_iff)
    qed
    then have "card (rows_of m ?s j) \<le> card (fst ` set (column (matrix m) j))" by (intro card_mono) auto
    also have "\<dots> \<le> length (column (matrix m) j)" using card_image_le[of "set (column (matrix m) j)" fst] card_length[of "column (matrix m) j"] by simp
    finally show ?thesis using j by (simp add: start_fields)
  qed
  moreover have "int (length (live_entries ?s i)) \<le> w_row_count ?s ! i" if "i < num_rows m" for i
    using sc that by (simp add: live_entries_def start_fields)
  ultimately have counts: "counts_ok m ?s" unfolding counts_ok_def start_live by simp
  have "numbers m ?s" using ok unfolding numbers_def start_live start_fields model_ok_def by (simp add: X_consts)
  moreover have "records_ok m ?s" by (simp add: records_ok_def start_fields)
  ultimately show ?thesis using sz ents fills views counts by (simp add: tidy_def books_def)
qed

lemma start_problem:
  assumes ok: "model_ok z m"
  shows "same_problem (problem_of m (start_workspace m)) (model_problem m)"
  using scattered_ok[OF ok order_refl] unfolding same_problem_def
  by (auto simp: problem_of_def model_problem_def start_live start_fields coef_def X_consts)

section \<open>The passes\<close>

definition promise :: "rat \<Rightarrow> xnum model \<Rightarrow> xnum presolving \<Rightarrow> bool" where
  "promise z m s \<longleftrightarrow> tidy m s \<and>
     (\<forall>x. point_of (integers_of m) (model_problem m) x \<longrightarrow> point_of (integers_of m) (problem_of m s) x) \<and>
     (list_all (clear_price z m) (records s) \<longrightarrow>
        lossless_step (integers_of m) (xval (sense_multiplier m)) (model_problem m) (problem_of m s)) \<and>
     (proved_infeasible s \<longrightarrow> (\<forall>x. \<not> point_of (integers_of m) (model_problem m) x))"

lemma promise_start: "model_ok z m \<Longrightarrow> promise z m (start_workspace m)"
  using start_tidy[of z m] same_problem_reads[OF start_problem[of z m]] unfolding promise_def lossless_step_def
  by (simp add: start_fields)

lemma promise_advances:
  assumes p: "promise z m s" and a: "advances z m s t"
  shows "promise z m t"
proof -
  have t: "tidy m t" using a by (simp add: advances_def)
  from a consider (step) rs where "steps_to z m s t rs" | (none) "\<forall>x. \<not> point_of (integers_of m) (problem_of m s) x"
    by (auto simp: advances_def)
  then show ?thesis
  proof cases
    case step
    have "lossless_step (integers_of m) (xval (sense_multiplier m)) (model_problem m) (problem_of m t)"
      if "list_all (clear_price z m) (records t)"
      using that p step lossless_trans unfolding promise_def steps_to_def by auto
    then show ?thesis using p step t unfolding promise_def steps_to_def by auto
  next
    case none
    then show ?thesis using p t unfolding promise_def lossless_step_def by blast
  qed
qed

lemma fold_preserves: "P s \<Longrightarrow> (\<And>x s. x \<in> set xs \<Longrightarrow> P s \<Longrightarrow> P (f x s)) \<Longrightarrow> P (fold f xs s)"
  by (induction xs arbitrary: s) simp_all

lemma promise_pass_changed: "promise z m (s\<lparr>pass_changed := b\<rparr>) = promise z m s"
  by (simp add: promise_def tidy_reads problem_reads)

lemma promise_tidy: "promise z m s \<Longrightarrow> tidy m s"
  by (simp add: promise_def)

text \<open>The contract of the passes with an invariant: what the start has and every reduction keeps, the end has.\<close>

locale presolve_invariant =
  fixes sc :: "'a::{zero,one,plus,minus,uminus,times,divide,abs,ord} scalar" and pt :: "'a presolve_tolerances"
    and m :: "'a model" and inv :: "'a presolving \<Rightarrow> bool"
  assumes flag_ignored: "inv (s\<lparr>pass_changed := b\<rparr>) = inv s"
    and column_kept: "j < num_cols m \<Longrightarrow> inv s \<Longrightarrow> inv (reduce_column sc pt m j s)"
    and row_kept: "i < num_rows m \<Longrightarrow> inv s \<Longrightarrow> inv (reduce_row sc pt m i s)"
    and at_start: "inv (start_workspace m)"
begin

lemma after_pass: "inv s \<Longrightarrow> inv (presolve_pass sc pt m s)"
  unfolding presolve_pass_def
  by (rule fold_preserves[where P = inv, OF fold_preserves[where P = inv]]) (use flag_ignored column_kept row_kept in simp_all)

lemma after_passes: "inv s \<Longrightarrow> inv (snd (snd (presolve_passes n sc pt m s)))"
proof (induction n arbitrary: s)
  case (Suc n)
  have "inv (presolve_pass sc pt m s)" by (rule after_pass[OF Suc.prems])
  then show ?case using Suc by (auto simp: Let_def split: prod.split) (metis snd_conv)
qed simp

lemma at_the_end: "inv (snd (snd (presolve_state sc pt m)))"
  unfolding presolve_state_def by (rule after_passes[OF at_start])

end

interpretation promise_kept: presolve_invariant "exact_scalar ft mt" "exact_pt z" m "\<lambda>s. model_ok z m \<longrightarrow> promise z m s" for ft mt z m
proof (unfold_locales, goal_cases)
  case (2 j s)
  then show ?case using promise_advances reduce_column_step promise_tidy by blast
next
  case (3 i s)
  then show ?case using promise_advances reduce_row_step promise_tidy by blast
qed (simp_all add: promise_pass_changed promise_start)

lemma promise_state: "model_ok z m \<Longrightarrow> promise z m (snd (snd (presolve_state (exact_scalar ft mt) (exact_pt z) m)))"
  using promise_kept.at_the_end by blast

end
