(* ===== verification/PresolveTrail.thy ===== *)
theory PresolveTrail
  imports Postsolve PresolvePromise
begin

text \<open>
  The trail presolve leaves: every step of the code either keeps the books of what is alive and filled in,
  or appends one record and changes them by exactly what the record says. Postsolve reads nothing else.
\<close>

section \<open>What a record says\<close>

definition marked :: "nat option \<Rightarrow> bool list \<Rightarrow> bool list" where
  "marked c bs = (case c of None \<Rightarrow> bs | Some c \<Rightarrow> bs[c := True])"

definition solid :: "xnum reduction \<Rightarrow> bool" where
  "solid r \<longleftrightarrow> (rd_kind r \<in> {kFixedColumn, kEmptyColumn} \<longrightarrow> xfinite (rd_value r)) \<and>
     (rd_kind r \<in> {kFreeColumnSingleton, kDoubletonEquation} \<longrightarrow> xfinite (rd_coefficient r) \<and> xval (rd_coefficient r) \<noteq> 0 \<and> xfinite (rd_rhs r)) \<and>
     (rd_kind r = kDoubletonEquation \<longrightarrow> xfinite (rd_partner_coefficient r))"

definition same_books :: "xnum presolving \<Rightarrow> xnum presolving \<Rightarrow> bool" where
  "same_books s t \<longleftrightarrow> w_col_dead t = w_col_dead s \<and> w_row_dead t = w_row_dead s \<and> w_delta t = w_delta s \<and>
     w_new_rows t = w_new_rows s \<and> w_rows t = w_rows s \<and> w_doubleton t = w_doubleton s"

definition fills_in :: "rat \<Rightarrow> xnum model \<Rightarrow> xnum presolving \<Rightarrow> xnum presolving \<Rightarrow> xnum reduction \<Rightarrow> bool" where
  "fills_in z m s t r \<longleftrightarrow>
     (let e = rd_column r; k = rd_partner r; es = filled (exact_pt z) (rd_index r) s (column (matrix m) e);
          d = fill_delta (rd_coefficient r) (rd_partner_coefficient r)
      in live_col m s e \<and> live_col m s k \<and> e \<noteq> k \<and> \<not> w_doubleton s ! e \<and>
         w_delta t = (w_delta s)[k := (\<lambda>i. case map_of es i of None \<Rightarrow> (w_delta s ! k) i
            | Some v \<Rightarrow> Some (case (w_delta s ! k) i of None \<Rightarrow> 0 + d v | Some w \<Rightarrow> w + d v))] \<and>
         w_new_rows t = (w_new_rows s)[k := w_new_rows s ! k @ filter (lacks k (w_rows s)) (map fst es)])"

definition follows :: "rat \<Rightarrow> xnum model \<Rightarrow> xnum presolving \<Rightarrow> xnum presolving \<Rightarrow> xnum reduction \<Rightarrow> bool" where
  "follows z m s t r \<longleftrightarrow> records t = records s @ [r] \<and> solid r \<and>
     w_col_dead t = marked (removed_column r) (w_col_dead s) \<and> w_row_dead t = marked (removed_row r) (w_row_dead s) \<and>
     (\<forall>c. removed_column r = Some c \<longrightarrow> live_col m s c) \<and> (\<forall>i. removed_row r = Some i \<longrightarrow> live_row m s i) \<and>
     (if rd_kind r = kDoubletonEquation then fills_in z m s t r else w_delta t = w_delta s \<and> w_new_rows t = w_new_rows s)"

definition trails :: "rat \<Rightarrow> xnum model \<Rightarrow> xnum presolving \<Rightarrow> xnum presolving \<Rightarrow> bool" where
  "trails z m s t \<longleftrightarrow> records t = records s \<and> same_books s t \<or> (\<exists>r. follows z m s t r)"

lemma trails_refl: "trails z m s s"
  by (simp add: trails_def same_books_def)

lemma trails_quiet: "records t = records s \<Longrightarrow> same_books s t \<Longrightarrow> trails z m s t"
  by (simp add: trails_def)

lemma trails_record: "follows z m s t r \<Longrightarrow> trails z m s t"
  by (auto simp: trails_def)

lemma follows_same:
  assumes "records u = records s" "same_books s u" "follows z m u t r"
  shows "follows z m s t r"
proof -
  have eqs: "live_col m u = live_col m s" "live_row m u = live_row m s" "filled (exact_pt z) i u es = filled (exact_pt z) i s es" for i es
    using assms(2) by (simp_all add: same_books_def fun_eq_iff live_col_def live_row_def filled_def)
  have sb: "w_delta u = w_delta s" "w_new_rows u = w_new_rows s" "w_rows u = w_rows s" "w_doubleton u = w_doubleton s"
    using assms(2) by (simp_all add: same_books_def)
  have "fills_in z m u t r = fills_in z m s t r" unfolding fills_in_def eqs sb by (rule refl)
  then show ?thesis using assms(1,3) sb eqs(1,2) assms(2) unfolding follows_def
    by (cases "rd_kind r = kDoubletonEquation") (simp_all add: same_books_def)
qed

lemma trails_after:
  assumes "records u = records s" "same_books s u" "trails z m u t"
  shows "trails z m s t"
proof (cases "\<exists>r. follows z m u t r")
  case True
  then show ?thesis using follows_same[OF assms(1,2)] trails_record by blast
next
  case False
  then have "records t = records u" "same_books u t" using assms(3) by (simp_all add: trails_def)
  then show ?thesis using assms(1,2) by (intro trails_quiet) (simp_all add: same_books_def)
qed

lemma trails_if: "(c \<Longrightarrow> trails z m s a) \<Longrightarrow> (\<not> c \<Longrightarrow> trails z m s b) \<Longrightarrow> trails z m s (if c then a else b)"
  by simp

lemma trails_refute: "trails z m s (refute y s)"
  by (rule trails_quiet) (simp_all add: refute_def same_books_def)

section \<open>Columns\<close>

lemma fix_column_trail:
  assumes t: "tidy m s" and j: "live_col m s j" and f: "xfinite (w_col_lower s ! j)"
  shows "trails z m s (fix_column sc m j s)"
proof (rule trails_record)
  have eq: "fix_column sc m j s = left_col sc m j (\<lambda>a. a * w_col_lower s ! j)
      (log_record ((new_reduction kFixedColumn j)\<lparr>rd_value := w_col_lower s ! j\<rparr>) s)"
    using t j by (intro fix_column_eq) (simp_all add: tidy_def live_col_def)
  show "follows z m s (fix_column sc m j s) ((new_reduction kFixedColumn j)\<lparr>rd_value := w_col_lower s ! j\<rparr>)"
    unfolding follows_def eq left_col_more left_col_fields
    using j f by (simp add: log_record_def solid_def new_reduction_def removed_column_def removed_row_def marked_def left_col_def leave_rows_def)
qed

lemma park_column_trail:
  assumes j: "live_col m s j"
  shows "trails z m s (park_column (exact_scalar ft mt) pt m j s)"
  unfolding park_column_def Let_def
proof (intro trails_if, goal_cases)
  case 1
  show ?case by (rule trails_refl)
next
  case 2
  show ?case by (rule trails_quiet) (simp_all add: same_books_def)
next
  case 3
  then have f: "xfinite (parked_value (exact_scalar ft mt) m j s)" by (simp add: exact_scalar_def)
  let ?r = "(new_reduction kEmptyColumn j)\<lparr>rd_value := parked_value (exact_scalar ft mt) m j s\<rparr>"
  show ?case
    by (rule trails_record[where r = ?r])
       (use j f in \<open>simp add: follows_def log_record_def solid_def new_reduction_def removed_column_def removed_row_def marked_def\<close>)
qed

lemma kill_row_books:
  "w_delta (kill_row r s) = w_delta s" "w_new_rows (kill_row r s) = w_new_rows s" "w_doubleton (kill_row r s) = w_doubleton s"
  by (simp_all add: kill_row_eq)

lemma free_singleton_trail:
  assumes ok: "model_ok z m" and t: "tidy m s" and j: "live_col m s j" and c: "w_col_count s ! j = 1"
  shows "trails z m s (free_singleton (exact_scalar ft mt) (exact_pt z) m j s)"
proof (cases "free_singleton (exact_scalar ft mt) (exact_pt z) m j s = s")
  case True
  then show ?thesis using trails_refl by simp
next
  case False
  then obtain r a v where f: "singleton_row m j s = Some (r, a)" "\<not> \<bar>a\<bar> < X z"
      "row_target (exact_scalar ft mt) (exact_pt z) m j r a s = Some v"
      "free_singleton (exact_scalar ft mt) (exact_pt z) m j s = eliminate_singleton j r a v s"
    unfolding free_singleton_def by (auto simp: exact_pt_def split: option.splits if_splits)
  have b: "books m s" and z: "0 < z" using t ok by (simp_all add: tidy_def model_ok_def)
  note sr = singleton_row_ok[OF ok b j c f(1)]
  have entry: "entries_ok m s" "r < num_rows m" using b sr(1) by (simp_all add: books_def live_row_def)
  have a: "a = X (coef s r j)" by (rule finite_coef[OF entry sr(2)])
  then have qa: "coef s r j \<noteq> 0" using f(2) z by auto
  obtain cj where cj: "w_cost s ! j = X cj" using live_numbers(2)[OF t j] xfinite_X by blast
  note lr = live_rows[OF t sr(1)]
  have fv: "xfinite v" using row_target_ok[OF lr(1,2) cj a qa z sense_X f(3)] by auto
  let ?r = "(new_reduction kFreeColumnSingleton r)\<lparr>rd_column := j, rd_coefficient := a, rd_rhs := v, rd_eliminated_cost := w_cost s ! j\<rparr>"
  have nd: "\<not> w_row_dead s ! r" using sr(1) by (simp add: live_row_def)
  have "follows z m s (eliminate_singleton j r a v s) ?r"
    unfolding follows_def eliminate_eq kill_row_more kill_row_fields kill_row_books
    using j sr(1) a qa fv nd
    by (simp add: freed_def log_record_def solid_def new_reduction_def removed_column_def removed_row_def marked_def)
  then show ?thesis unfolding f(4) by (rule trails_record)
qed

lemma reduce_column_trail:
  assumes ok: "model_ok z m" and t: "tidy m s0" and j: "j < num_cols m"
  shows "trails z m s0 (reduce_column (exact_scalar ft mt) (exact_pt z) m j s0)"
proof (cases "proved_infeasible s0 \<or> w_col_dead s0 ! j")
  case True
  then show ?thesis using trails_refl by (simp add: reduce_column_def)
next
  case False
  then have lj: "live_col m s0 j" using j by (simp add: live_col_def)
  define s where "s = round_bounds (exact_scalar ft mt) (exact_pt z) m j s0"
  note r = round_bounds_ok[OF t lj, where ft = ft and mt = mt and z = z, folded s_def]
  have db: "w_doubleton s = w_doubleton s0" by (simp add: s_def round_bounds_def Let_def)
  define s1 where "s1 = (if w_quadratic s ! j \<and> w_col_upper s ! j - w_col_lower s ! j \<le> X 0 \<and> xfinite (w_col_lower s ! j)
      then s\<lparr>quadratic_protected := quadratic_protected s + 1\<rparr> else s)"
  have s1: "tidy m s1" "live_col m s1 j" "records s1 = records s0" "same_books s0 s1" "w_col_lower s1 = w_col_lower s"
    using r lj db by (auto simp: s1_def tidy_reads live_col_def same_books_def)
  have fs: "sc_fin (exact_scalar ft mt) = xfinite" "pt_feasibility (exact_pt z) = X 0" by (simp_all add: exact_scalar_def exact_pt_def)
  have s0: "records s = records s0" "same_books s0 s" using r db by (simp_all add: same_books_def)
  show ?thesis
    unfolding reduce_column_def Let_def if_not_P[OF False] s_def[symmetric] fs s1_def[symmetric]
  proof (intro trails_if, goal_cases)
    case 1
    show ?case by (rule trails_after[OF s0 trails_refute])
  next
    case 2
    then show ?case by (intro trails_after[OF s1(3,4)] fix_column_trail[OF s1(1,2)]) (simp add: s1(5))
  next
    case 3
    show ?case by (intro trails_after[OF s1(3,4)] park_column_trail s1(2))
  next
    case 4
    then show ?case by (intro trails_after[OF s1(3,4)] free_singleton_trail[OF ok s1(1,2)]) simp
  next
    case 5
    show ?case by (rule trails_after[OF s1(3,4) trails_refl])
  qed
qed

section \<open>Rows\<close>

lemma drop_row_trail:
  assumes "live_row m s i" "k \<in> {kEmptyRow, kRedundantRow}"
  shows "trails z m s (drop_row k i s)"
proof (rule trails_record)
  show "follows z m s (drop_row k i s) (new_reduction k i)"
    unfolding follows_def drop_row_def kill_row_more kill_row_fields kill_row_books
    using assms by (auto simp: log_record_def solid_def new_reduction_def removed_column_def removed_row_def marked_def live_row_def)
qed

lemma absorb_trail:
  assumes i: "live_row m s i"
  shows "trails z m s (absorb_singleton_row sc pt m i s)"
proof (cases "absorb_singleton_row sc pt m i s = s")
  case True
  then show ?thesis using trails_refl by simp
next
  case False
  then obtain c a es where l: "live_entries s i = (c, a) # es" "\<not> (\<bar>a\<bar> < pt_zero pt \<or> w_doubleton s ! c)"
    unfolding absorb_singleton_row_def by (auto split: list.splits if_splits)
  let ?b = "round_implied sc pt m c (implied_bounds sc a (finite_side sc (w_row_lower s ! i), finite_side sc (w_row_upper s ! i)))"
  have e: "absorb_singleton_row sc pt m i s = kill_row i (tighten_by_row i c a ?b
      ((log_record ((new_reduction kSingletonRow i)\<lparr>rd_column := c, rd_coefficient := a, rd_row_lower := w_row_lower s ! i,
         rd_row_upper := w_row_upper s ! i\<rparr>) s)\<lparr>w_singleton := (w_singleton s)[c := True]\<rparr>))"
    using l(2) unfolding absorb_singleton_row_def l(1) by (simp add: Let_def log_record_def)
  have "follows z m s (absorb_singleton_row sc pt m i s) ((new_reduction kSingletonRow i)\<lparr>rd_column := c, rd_coefficient := a,
      rd_row_lower := w_row_lower s ! i, rd_row_upper := w_row_upper s ! i\<rparr>)"
    unfolding follows_def e kill_row_more kill_row_fields kill_row_books tighten_by_row_more tighten_by_row_fields
    using i by (simp add: log_record_def solid_def new_reduction_def removed_column_def removed_row_def marked_def live_row_def)
  then show ?thesis by (rule trails_record)
qed

lemma doubleton_trail:
  assumes ok: "model_ok z m" and t: "tidy m s" and i: "live_row m s i" and c: "w_row_count s ! i = 2"
    and eq: "w_row_upper s ! i - w_row_lower s ! i \<le> X 0" "xfinite (w_row_lower s ! i)"
  shows "trails z m s (doubleton (exact_scalar ft mt) (exact_pt z) m i s)"
proof (cases "doubleton (exact_scalar ft mt) (exact_pt z) m i s = s")
  case True
  then show ?thesis using trails_refl by simp
next
  case False
  from doubleton_pick[OF ok t i c eq False] obtain e k rhs where p: "live_col m s e" "live_col m s k" "e \<noteq> k" "\<not> w_doubleton s ! e"
    "\<not> w_quadratic s ! e" "col_type m ! e \<noteq> kInteger" "coef s i e \<noteq> 0" "coef s i k \<noteq> 0" "w_row_lower s ! i = X rhs" "w_row_upper s ! i = X rhs"
    "\<And>x. live_col m s x \<Longrightarrow> x \<noteq> e \<Longrightarrow> x \<noteq> k \<Longrightarrow> coef s i x = 0"
    "doubleton (exact_scalar ft mt) (exact_pt z) m i s =
       substitute_column (exact_scalar ft mt) (exact_pt z) m i e (X (coef s i e)) k (X (coef s i k)) s" by blast
  let ?qa = "coef s i e" and ?qb = "coef s i k"
  let ?es = "filled (exact_pt z) i s (column (matrix m) e)" and ?u = "entered ft mt z m i e ?qa k ?qb rhs s"
  let ?v = "filled_state (exact_scalar ft mt) (X ?qa) k (X ?qb) (X rhs) e ?es ?u" and ?r = "eliminated s i e ?qa k ?qb rhs"
  have b: "books m s" "fill_ok m s" using t by (simp_all add: tidy_def books_def)
  have ee: "e < num_cols m" "k < num_cols m" using p(1,2) by (simp_all add: live_col_def)
  note E = entered_ok[OF t p(1,2,7,8), of ft mt z i rhs]
  note F = entered_fields[of ft mt z m i e ?qa k ?qb rhs s]
  note fe = fill_facts(5)[OF b(2) ee(1) p(4)]
  have es: "?es = filled (exact_pt z) i ?u (column (matrix m) e)" by (simp add: filled_def F)
  have dist: "distinct (map fst ?es)"
    by (rule filled_table(1)[OF ok b(1) p(1)]) (use fe in simp_all)
  have szu: "sized m ?u" using E(1) by (simp add: books_def)
  note G = filled_fields[OF dist szu ee(2), where sc = "exact_scalar ft mt" and a = "X ?qa" and b = "X ?qb" and rhs = "X rhs" and e = e]
  have vm: "records ?v = records ?u" by (simp add: filled_state_def fill_rows_def)
  have out: "doubleton (exact_scalar ft mt) (exact_pt z) m i s = kill_row i ?v"
    unfolding p(12) by (rule substitute_column_eq[OF model_column(1)[OF ok ee(1)] p(9)])
  have ei: "rd_kind ?r = kDoubletonEquation" "rd_column ?r = e" "rd_partner ?r = k" "rd_index ?r = i" "rd_coefficient ?r = X ?qa"
    "rd_partner_coefficient ?r = X ?qb" "rd_rhs ?r = X rhs"
    by (simp_all add: eliminated_def new_reduction_def)
  have vd: "w_delta (kill_row i ?v) = (w_delta s)[k := (\<lambda>i. case map_of ?es i of None \<Rightarrow> (w_delta s ! k) i
            | Some v \<Rightarrow> Some (case (w_delta s ! k) i of None \<Rightarrow> 0 + fill_delta (X ?qa) (X ?qb) v | Some w \<Rightarrow> w + fill_delta (X ?qa) (X ?qb) v))]"
    unfolding kill_row_books G(16) F(15) by (rule refl)
  have vn: "w_new_rows (kill_row i ?v) = (w_new_rows s)[k := w_new_rows s ! k @ filter (lacks k (w_rows s)) (map fst ?es)]"
    unfolding kill_row_books G(17) F(16) F(8) by (rule refl)
  have "fills_in z m s (kill_row i ?v) ?r"
    unfolding fills_in_def Let_def ei using p(1-4) vd vn by blast
  moreover have "w_row_dead (kill_row i ?v) = (w_row_dead s)[i := True]" "w_col_dead (kill_row i ?v) = (w_col_dead s)[e := True]"
    using i unfolding kill_row_fields G(3,4) F(5,6) by (simp_all add: live_row_def)
  ultimately have "follows z m s (kill_row i ?v) ?r"
    unfolding follows_def kill_row_more vm F(17)
    using p(1,7) i by (simp add: ei solid_def removed_column_def removed_row_def marked_def)
  then show ?thesis unfolding out by (rule trails_record)
qed

lemma reduce_row_trail:
  assumes ok: "model_ok z m" and t: "tidy m s" and i: "i < num_rows m"
  shows "trails z m s (reduce_row (exact_scalar ft mt) (exact_pt z) m i s)"
proof (cases "proved_infeasible s \<or> w_row_dead s ! i")
  case True
  then show ?thesis using trails_refl by (simp add: reduce_row_def)
next
  case False
  then have li: "live_row m s i" using i by (simp add: live_row_def)
  have fs: "sc_fin (exact_scalar ft mt) = xfinite" "pt_feasibility (exact_pt z) = X 0" by (simp_all add: exact_scalar_def exact_pt_def)
  show ?thesis
    unfolding reduce_row_def Let_def fs if_not_P[OF False]
  proof (intro trails_if trails_refute drop_row_trail[OF li] absorb_trail[OF li] trails_refl, goal_cases)
    case 1
    show ?case by simp
  next
    case 2
    show ?case by simp
  next
    case 3
    then show ?case by (intro doubleton_trail[OF ok t li]) simp_all
  qed
qed

end
