(* ===== verification/PostsolveTables.thy ===== *)
theory PostsolveTables
  imports PresolveTrail
begin

text \<open>
  What postsolve reads off the records is what presolve had: which columns and rows were gone when a record
  fired, and the fill-in of every row.
\<close>

section \<open>Positions\<close>

lemma removed_at_length [simp]: "length (removed_at f n rs) = n"
proof -
  have "length (fold (\<lambda>p ps. case f (rs ! p) of None \<Rightarrow> ps | Some c \<Rightarrow> ps[c := p]) qs ps) = length ps" for qs ps
    by (induction qs arbitrary: ps) (simp_all split: option.split)
  then show ?thesis by (simp add: removed_at_def)
qed

lemma removed_at_cases:
  assumes "c < n"
  shows "removed_at f n rs ! c = length rs \<and> (\<forall>q < length rs. f (rs ! q) \<noteq> Some c) \<or>
    removed_at f n rs ! c < length rs \<and> f (rs ! (removed_at f n rs ! c)) = Some c"
proof -
  let ?F = "\<lambda>k. fold (\<lambda>p ps. case f (rs ! p) of None \<Rightarrow> ps | Some c \<Rightarrow> ps[c := p]) [0..<k] (replicate n (length rs))"
  have "length (?F k) = n \<and> (?F k ! c = length rs \<and> (\<forall>q < k. f (rs ! q) \<noteq> Some c) \<or> ?F k ! c < k \<and> f (rs ! (?F k ! c)) = Some c)" for k
  proof (induction k)
    case 0
    then show ?case using assms by simp
  next
    case (Suc k)
    show ?case
    proof (cases "f (rs ! k)")
      case None
      then show ?thesis using Suc by (auto simp: less_Suc_eq)
    next
      case (Some d)
      then show ?thesis using Suc assms by (cases "d = c") (auto simp: less_Suc_eq)
    qed
  qed
  from this[of "length rs"] show ?thesis by (simp add: removed_at_def)
qed

lemma nth_beyond: "length xs = length ys \<Longrightarrow> length xs \<le> c \<Longrightarrow> xs ! c = ys ! c"
  by (induction xs ys arbitrary: c rule: list_induct2) (auto simp: nth_Cons split: nat.split)

text \<open>Each is removed at most once.\<close>

definition once :: "('a reduction \<Rightarrow> nat option) \<Rightarrow> 'a reduction list \<Rightarrow> bool" where
  "once f rs \<longleftrightarrow> (\<forall>q < length rs. \<forall>p < q. \<forall>c. f (rs ! p) = Some c \<longrightarrow> f (rs ! q) \<noteq> Some c)"

lemma removed_before:
  assumes o: "once f rs" and c: "c < n" and p: "p \<le> length rs"
  shows "removed_at f n rs ! c < p \<longleftrightarrow> (\<exists>q < p. f (rs ! q) = Some c)"
  using removed_at_cases[OF c, of f rs]
proof
  let ?q = "removed_at f n rs ! c"
  assume r: "?q < length rs \<and> f (rs ! ?q) = Some c"
  have "q = ?q" if "q < p" "f (rs ! q) = Some c" for q
  proof (rule ccontr)
    assume "q \<noteq> ?q"
    then consider "q < ?q" | "?q < q" by linarith
    then show False using o r that p unfolding once_def by cases auto
  qed
  then show ?thesis using r by auto
qed (use p in auto)

lemma once_snoc: "once f (rs @ [r]) \<longleftrightarrow> once f rs \<and> (\<forall>c. f r = Some c \<longrightarrow> (\<forall>p < length rs. f (rs ! p) \<noteq> Some c))"
  unfolding once_def by (auto simp: less_Suc_eq nth_append)

lemma ex_snoc: "(\<exists>q < length (rs @ [r]). P ((rs @ [r]) ! q)) \<longleftrightarrow> (\<exists>q < length rs. P (rs ! q)) \<or> P r"
  using list_ex_append[of P rs "[r]"] unfolding list_ex_length[of P "rs @ [r]"] list_ex_length[of P rs] by simp

lemma removed_at_snoc:
  assumes o: "once f (rs @ [r])" and p: "p \<le> length rs"
  shows "removed_at f n (rs @ [r]) ! c < p \<longleftrightarrow> removed_at f n rs ! c < p"
proof (cases "c < n")
  case True
  have o': "once f rs" using o by (simp add: once_snoc)
  have "q < p \<Longrightarrow> (rs @ [r]) ! q = rs ! q" for q using p by (simp add: nth_append)
  then have e: "(\<exists>q < p. f ((rs @ [r]) ! q) = Some c) \<longleftrightarrow> (\<exists>q < p. f (rs ! q) = Some c)" by (intro ex_cong1) auto
  have p': "p \<le> length (rs @ [r])" using p by simp
  show ?thesis unfolding removed_before[OF o True p'] removed_before[OF o' True p] by (rule e)
next
  case False
  then show ?thesis using nth_beyond[of "removed_at f n (rs @ [r])" "removed_at f n rs" c] by simp
qed

text \<open>The positions tell what is gone in the workspace.\<close>

definition placed :: "xnum model \<Rightarrow> xnum presolving \<Rightarrow> bool" where
  "placed m s \<longleftrightarrow> once removed_column (records s) \<and> once removed_row (records s) \<and>
     (\<forall>c < num_cols m. removed_at removed_column (num_cols m) (records s) ! c < length (records s) \<longleftrightarrow> w_col_dead s ! c) \<and>
     (\<forall>r < num_rows m. removed_at removed_row (num_rows m) (records s) ! r < length (records s) \<longleftrightarrow> w_row_dead s ! r)"

lemma placed_one:
  assumes o: "once f rs" and dead: "\<forall>c < n. removed_at f n rs ! c < length rs \<longleftrightarrow> bs ! c" and n: "length bs = n"
    and live: "\<forall>c. f r = Some c \<longrightarrow> c < n \<and> \<not> bs ! c"
  shows "once f (rs @ [r])" "\<forall>c < n. removed_at f n (rs @ [r]) ! c < length (rs @ [r]) \<longleftrightarrow> marked (f r) bs ! c"
proof -
  have at: "removed_at f n rs ! c < length rs \<longleftrightarrow> (\<exists>q < length rs. f (rs ! q) = Some c)" if "c < n" for c
    by (rule removed_before[OF o that order_refl])
  show o': "once f (rs @ [r])" using o live dead at unfolding once_snoc by blast
  show "\<forall>c < n. removed_at f n (rs @ [r]) ! c < length (rs @ [r]) \<longleftrightarrow> marked (f r) bs ! c"
  proof (intro allI impI)
    fix c assume c: "c < n"
    have "removed_at f n (rs @ [r]) ! c < length (rs @ [r]) \<longleftrightarrow> (\<exists>q < length (rs @ [r]). f ((rs @ [r]) ! q) = Some c)"
      by (rule removed_before[OF o' c order_refl])
    also have "\<dots> \<longleftrightarrow> (\<exists>q < length rs. f (rs ! q) = Some c) \<or> f r = Some c" by (rule ex_snoc)
    also have "\<dots> \<longleftrightarrow> marked (f r) bs ! c" 
    proof (cases "f r")
      case None
      then show ?thesis using at[OF c] dead c by (simp add: marked_def)
    next
      case (Some d)
      then show ?thesis using at[OF c] dead c n by (cases "d = c") (simp_all add: marked_def)
    qed
    finally show "removed_at f n (rs @ [r]) ! c < length (rs @ [r]) \<longleftrightarrow> marked (f r) bs ! c" .
  qed
qed

lemma placed_follows:
  assumes p: "placed m s" and sz: "sized m s" and f: "follows z m s t r"
  shows "placed m t"
proof -
  have len: "length (w_col_dead s) = num_cols m" "length (w_row_dead s) = num_rows m" using sz by (simp_all add: sized_def)
  have t: "records t = records s @ [r]" "w_col_dead t = marked (removed_column r) (w_col_dead s)" "w_row_dead t = marked (removed_row r) (w_row_dead s)"
    "\<forall>c. removed_column r = Some c \<longrightarrow> c < num_cols m \<and> \<not> w_col_dead s ! c" "\<forall>i. removed_row r = Some i \<longrightarrow> i < num_rows m \<and> \<not> w_row_dead s ! i"
    using f by (auto simp: follows_def live_col_def live_row_def)
  note P = p[unfolded placed_def]
  note C = placed_one[where f = removed_column and rs = "records s" and r = r, OF _ _ len(1) t(4)]
  note W = placed_one[where f = removed_row and rs = "records s" and r = r, OF _ _ len(2) t(5)]
  show ?thesis
    unfolding placed_def t(1-3) using P by (intro conjI C W) simp_all
qed

lemma placed_same:
  assumes "placed m s" "records t = records s" "same_books s t"
  shows "placed m t"
  using assms unfolding placed_def same_books_def by simp

lemma placed_start: "placed m (start_workspace m)"
proof -
  have e: "removed_at f n [] = replicate n 0" for f n by (simp add: removed_at_def)
  show ?thesis unfolding placed_def start_fields e once_def by simp
qed

section \<open>The replay, one record further\<close>

lemma replay_snoc:
  assumes c: "once removed_column (rs @ [r])" and w: "once removed_row (rs @ [r])"
  shows "replay pt m (rs @ [r]) = replay_record pt m (\<lambda>c. removed_at removed_column (num_cols m) rs ! c < length rs)
    (\<lambda>i. removed_at removed_row (num_rows m) rs ! i < length rs) r (replay pt m rs)"
proof -
  let ?step = "\<lambda>xs p. replay_record pt m (\<lambda>c. removed_at removed_column (num_cols m) xs ! c < p)
    (\<lambda>i. removed_at removed_row (num_rows m) xs ! i < p) (xs ! p)"
  have same: "?step (rs @ [r]) p = ?step rs p" if "p < length rs" for p
    using that removed_at_snoc[OF c, of p] removed_at_snoc[OF w, of p] by (simp add: nth_append)
  have "fold (?step (rs @ [r])) [0..<length rs] (replay_start m) = fold (?step rs) [0..<length rs] (replay_start m)"
    by (rule fold_cong) (simp_all add: same)
  then show ?thesis
    by (simp add: replay_def Let_def removed_at_snoc[OF c order_refl] removed_at_snoc[OF w order_refl])
qed

section \<open>The tables of the fill-in\<close>

definition tables :: "'a replayed \<Rightarrow> (nat \<rightharpoonup> 'a) list \<times> nat list list" where
  "tables t = (row_overrides t, extra_columns_for_row t)"

lemma fold_tables: "(\<And>x t. tables (f x t) = tables t) \<Longrightarrow> tables (fold f xs t) = tables t"
  by (induction xs arbitrary: t) simp_all

lemma receive_tables [simp]: "tables (receive r k d t) = tables t"
  by (simp add: tables_def receive_def)

lemma replay_singleton_tables: "tables (replay_singleton m gone rec t) = tables t"
proof -
  have e: "tables (replay_entry gone rec x t) = tables t" for x t
    by (simp add: replay_entry_def Let_def split: prod.split)
  have x: "tables (replay_extra gone rec k t) = tables t" for k t
    by (simp add: replay_extra_def split: option.split)
  show ?thesis by (simp add: replay_singleton_def Let_def fold_tables[OF e] fold_tables[OF x])
qed

definition hits :: "'a::{abs,ord} presolve_tolerances \<Rightarrow> nat \<Rightarrow> (nat \<Rightarrow> bool) \<Rightarrow> nat \<times> 'a \<Rightarrow> bool" where
  "hits pt i gone = (\<lambda>(r, a). r \<noteq> i \<and> \<not> gone r \<and> \<not> \<bar>a\<bar> < pt_zero pt)"

lemma replay_fills:
  fixes t :: "xnum replayed"
  assumes "distinct (map fst es)" "\<forall>e \<in> set es. fst e < length (row_overrides t)"
    "length (extra_columns_for_row t) = length (row_overrides t)" "r < length (row_overrides t)"
  shows "length (row_overrides (fold (replay_fill pt m gone rec) es t)) = length (row_overrides t) \<and>
    length (extra_columns_for_row (fold (replay_fill pt m gone rec) es t)) = length (row_overrides t) \<and>
    row_overrides (fold (replay_fill pt m gone rec) es t) ! r = (case map_of (filter (hits pt (rd_index rec) gone) es) r of
        None \<Rightarrow> row_overrides t ! r
      | Some a \<Rightarrow> add_delta (rd_partner rec) (fill_delta (rd_coefficient rec) (rd_partner_coefficient rec) a) (row_overrides t ! r)) \<and>
    extra_columns_for_row (fold (replay_fill pt m gone rec) es t) ! r = extra_columns_for_row t ! r @
      (if map_of (filter (hits pt (rd_index rec) gone) es) r \<noteq> None \<and> (row_overrides t ! r) (rd_partner rec) = None \<and>
         feq (entry_at (matrix m) r (rd_partner rec)) 0 then [rd_partner rec] else [])"
  using assms
proof (induction es arbitrary: t)
  case (Cons e es)
  obtain q a where e: "e = (q, a)" by (cases e)
  let ?u = "replay_fill pt m gone rec (q, a) t"
  have fresh: "map_of (filter (hits pt (rd_index rec) gone) es) q = None"
    using Cons.prems(1) by (auto simp: e map_of_eq_None_iff)
  have q: "q < length (row_overrides t)" using Cons.prems(2) e by simp
  have u: "length (row_overrides ?u) = length (row_overrides t)" "length (extra_columns_for_row ?u) = length (row_overrides t)"
    "row_overrides ?u ! r = (if r = q \<and> hits pt (rd_index rec) gone (q, a)
       then add_delta (rd_partner rec) (fill_delta (rd_coefficient rec) (rd_partner_coefficient rec) a) (row_overrides t ! r)
       else row_overrides t ! r)"
    "extra_columns_for_row ?u ! r = extra_columns_for_row t ! r @ (if r = q \<and> hits pt (rd_index rec) gone (q, a) \<and>
       (row_overrides t ! r) (rd_partner rec) = None \<and> feq (entry_at (matrix m) r (rd_partner rec)) 0 then [rd_partner rec] else [])"
    using q Cons.prems(3,4) by (auto simp: replay_fill_def hits_def Let_def fill_delta_def nth_modify_at)
  have IH: "length (row_overrides (fold (replay_fill pt m gone rec) es ?u)) = length (row_overrides ?u) \<and>
    length (extra_columns_for_row (fold (replay_fill pt m gone rec) es ?u)) = length (row_overrides ?u) \<and>
    row_overrides (fold (replay_fill pt m gone rec) es ?u) ! r = (case map_of (filter (hits pt (rd_index rec) gone) es) r of
        None \<Rightarrow> row_overrides ?u ! r
      | Some a \<Rightarrow> add_delta (rd_partner rec) (fill_delta (rd_coefficient rec) (rd_partner_coefficient rec) a) (row_overrides ?u ! r)) \<and>
    extra_columns_for_row (fold (replay_fill pt m gone rec) es ?u) ! r = extra_columns_for_row ?u ! r @
      (if map_of (filter (hits pt (rd_index rec) gone) es) r \<noteq> None \<and> (row_overrides ?u ! r) (rd_partner rec) = None \<and>
         feq (entry_at (matrix m) r (rd_partner rec)) 0 then [rd_partner rec] else [])"
    by (rule Cons.IH) (use Cons.prems u(1,2) e in simp_all)
  show ?case
  proof (cases "r = q \<and> hits pt (rd_index rec) gone (q, a)")
    case True
    then show ?thesis using IH u fresh by (simp add: e)
  next
    case False
    then have "map_of (filter (hits pt (rd_index rec) gone) (e # es)) r = map_of (filter (hits pt (rd_index rec) gone) es) r"
      by (auto simp: e)
    moreover have "row_overrides ?u ! r = row_overrides t ! r" "extra_columns_for_row ?u ! r = extra_columns_for_row t ! r"
      using u(3,4) False by auto
    moreover have "fold (replay_fill pt m gone rec) (e # es) t = fold (replay_fill pt m gone rec) es ?u" by (simp add: e)
    ultimately show ?thesis using IH u(1) by metis
  qed
qed simp

definition same_fill :: "xnum model \<Rightarrow> xnum presolving \<Rightarrow> (nat \<rightharpoonup> xnum) list \<times> nat list list \<Rightarrow> bool" where
  "same_fill m s = (\<lambda>(over, extra). length over = num_rows m \<and> length extra = num_rows m \<and>
     (\<forall>r < num_rows m. \<forall>k < num_cols m. (over ! r) k = (w_delta s ! k) r) \<and>
     (\<forall>r < num_rows m. distinct (extra ! r) \<and> set (extra ! r) \<subseteq> {..<num_cols m} \<and>
        (\<forall>k < num_cols m. k \<in> set (extra ! r) \<longleftrightarrow> r \<in> set (w_new_rows s ! k))))"

lemma same_fill_reads: "w_delta t = w_delta s \<Longrightarrow> w_new_rows t = w_new_rows s \<Longrightarrow> same_fill m t T = same_fill m s T"
  by (simp add: same_fill_def split: prod.split)

lemma same_fill_start: "same_fill m (start_workspace m) (tables (replay pt m []))"
  by (simp add: same_fill_def tables_def replay_def replay_start_def start_fields)

text \<open>The row the partner was missing from, in the words of the workspace and of the replay.\<close>

lemma lacks_fresh:
  assumes ok: "model_ok z m" and b: "books m s" and r: "live_row m s r" and k: "live_col m s k"
  shows "lacks k (w_rows s) r \<longleftrightarrow> (w_delta s ! k) r = None \<and> feq (entry_at (matrix m) r k) 0"
proof -
  have kk: "k < num_cols m" and rr: "r < num_rows m" using k r by (simp_all add: live_col_def live_row_def)
  have "lacks k (w_rows s) r \<longleftrightarrow> map_of (w_rows s ! r) k = None"
    by (auto simp: lacks_def list_all_iff map_of_eq_None_iff)
  also have "\<dots> \<longleftrightarrow> map_of (column_now m s k) r = None" using b r k by (simp add: books_def views_ok_def)
  also have "\<dots> \<longleftrightarrow> map_of (column (matrix m) k) r = None \<and> (w_delta s ! k) r = None"
  proof -
    have "fill_ok m s" using b by (simp add: books_def)
    then have f: "(w_delta s ! k) r = Some d \<Longrightarrow> r \<in> fst ` set (column (matrix m) k) \<or> r \<in> set (w_new_rows s ! k)"
      "r \<in> set (w_new_rows s ! k) \<Longrightarrow> \<exists>d. (w_delta s ! k) r = Some d" for d
      using kk unfolding fill_ok_def by blast+
    have c: "map_of (column (matrix m) k) r = None \<longleftrightarrow> r \<notin> fst ` set (column (matrix m) k)" by (rule map_of_eq_None_iff)
    show ?thesis
      unfolding column_now_ok(2)[OF ok b kk] using f c
      by (cases "map_of (column (matrix m) k) r"; cases "(w_delta s ! k) r"; auto)
  qed
  also have "map_of (column (matrix m) k) r = None \<longleftrightarrow> feq (entry_at (matrix m) r k) 0"
  proof (cases "map_of (column (matrix m) k) r")
    case None
    then have "entry_at (matrix m) r k = 0" by (intro entry_at_None) (simp add: map_of_eq_None_iff)
    then show ?thesis using None by (simp add: X_consts)
  next
    case (Some a)
    then have e: "(r, a) \<in> set (column (matrix m) k)" by (rule map_of_SomeD)
    have "0 < z" "csc_ok (matrix m)" "ncols (matrix m) = num_cols m" using ok by (simp_all add: model_ok_def)
    with entry_at_Some[OF _ _ e] kk model_column(2)[OF ok kk e] Some show ?thesis by (cases a) (auto simp: X_consts)
  qed
  finally show ?thesis by blast
qed

text \<open>One record further in both: the tables still agree, and the rows that are gone keep their entries.\<close>

definition frozen_rows :: "bool list \<Rightarrow> (nat \<rightharpoonup> xnum) list \<times> nat list list \<Rightarrow> (nat \<rightharpoonup> xnum) list \<times> nat list list \<Rightarrow> bool" where
  "frozen_rows dead T U \<longleftrightarrow> (\<forall>r < length dead. dead ! r \<longrightarrow> fst U ! r = fst T ! r \<and> snd U ! r = snd T ! r)"

lemma replay_record_tables:
  "rd_kind r \<noteq> kDoubletonEquation \<Longrightarrow> tables (replay_record pt m cg rg r t) = tables t"
  using replay_singleton_tables[of m cg r] by (simp add: replay_record_def Let_def tables_def)

lemma replay_fills_length:
  "length (row_overrides (fold (replay_fill pt m gone rec) es t)) = length (row_overrides t) \<and>
   length (extra_columns_for_row (fold (replay_fill pt m gone rec) es t)) = length (extra_columns_for_row t)"
  by (induction es arbitrary: t) (simp_all add: replay_fill_def Let_def split: prod.split)

lemma replay_doubleton_length:
  assumes "rd_kind rec = kDoubletonEquation"
  shows "length (row_overrides (replay_record pt m cg gone rec t)) = length (row_overrides t)"
    "length (extra_columns_for_row (replay_record pt m cg gone rec t)) = length (extra_columns_for_row t)"
  using assms by (simp_all add: replay_record_def replay_doubleton_def replay_fills_length receive_def)

lemma replay_doubleton_tables:
  fixes t :: "xnum replayed" and pt :: "xnum presolve_tolerances" and cg gone :: "nat \<Rightarrow> bool"
  assumes ok: "model_ok z m" and d: "rd_kind rec = kDoubletonEquation" and e: "rd_column rec < num_cols m"
    and len: "length (row_overrides t) = num_rows m" "length (extra_columns_for_row t) = num_rows m" and r: "r < num_rows m"
  defines "u \<equiv> replay_record pt m cg gone rec t" and "es \<equiv> filter (hits pt (rd_index rec) gone) (column (matrix m) (rd_column rec))"
  shows "row_overrides u ! r = (case map_of es r of
        None \<Rightarrow> row_overrides t ! r
      | Some a \<Rightarrow> add_delta (rd_partner rec) (fill_delta (rd_coefficient rec) (rd_partner_coefficient rec) a) (row_overrides t ! r))"
    "extra_columns_for_row u ! r = extra_columns_for_row t ! r @
      (if map_of es r \<noteq> None \<and> (row_overrides t ! r) (rd_partner rec) = None \<and> feq (entry_at (matrix m) r (rd_partner rec)) 0
       then [rd_partner rec] else [])"
proof -
  let ?t = "receive (rd_index rec) (rd_partner rec) (rd_eliminated_cost rec * (rd_partner_coefficient rec div rd_coefficient rec))
    (t\<lparr>row_is_folded := (row_is_folded t)[rd_index rec := True]\<rparr>)"
  have tt: "row_overrides ?t = row_overrides t" "extra_columns_for_row ?t = extra_columns_for_row t" by (simp_all add: receive_def)
  have "\<forall>e \<in> set (column (matrix m) (rd_column rec)). fst e < num_rows m" using model_column(2)[OF ok e] by fastforce
  then have f: "\<forall>e \<in> set (column (matrix m) (rd_column rec)). fst e < length (row_overrides ?t)" by (simp only: tt len)
  have g: "length (extra_columns_for_row ?t) = length (row_overrides ?t)" "r < length (row_overrides ?t)" using len r by (simp_all only: tt)
  have u: "u = fold (replay_fill pt m gone rec) (column (matrix m) (rd_column rec)) ?t"
    by (simp add: u_def replay_record_def d replay_doubleton_def)
  note R = replay_fills[OF model_column(1)[OF ok e] f g, where pt = pt and m = m and rec = rec and gone = gone, folded u es_def, unfolded tt len]
  show "row_overrides u ! r = (case map_of es r of
        None \<Rightarrow> row_overrides t ! r
      | Some a \<Rightarrow> add_delta (rd_partner rec) (fill_delta (rd_coefficient rec) (rd_partner_coefficient rec) a) (row_overrides t ! r))"
    "extra_columns_for_row u ! r = extra_columns_for_row t ! r @
      (if map_of es r \<noteq> None \<and> (row_overrides t ! r) (rd_partner rec) = None \<and> feq (entry_at (matrix m) r (rd_partner rec)) 0
       then [rd_partner rec] else [])"
    using R by blast+
qed

lemma fill_follows:
  assumes ok: "model_ok z m" and t: "tidy m s" and p: "placed m s" and f: "follows z m s u r"
    and same: "same_fill m s (tables (replay (exact_pt z) m (records s)))"
  shows "same_fill m u (tables (replay (exact_pt z) m (records u)))"
    "frozen_rows (w_row_dead s) (tables (replay (exact_pt z) m (records s))) (tables (replay (exact_pt z) m (records u)))"
proof -
  have b: "books m s" and sz: "sized m s" using t by (simp_all add: tidy_def books_def)
  have rec: "records u = records s @ [r]" using f by (simp add: follows_def)
  have once: "once removed_column (records s @ [r])" "once removed_row (records s @ [r])"
    using placed_follows[OF p sz f] by (simp_all add: placed_def rec)
  let ?cg = "\<lambda>c. removed_at removed_column (num_cols m) (records s) ! c < length (records s)"
  let ?rg = "\<lambda>i. removed_at removed_row (num_rows m) (records s) ! i < length (records s)"
  let ?T = "replay (exact_pt z) m (records s)" and ?U = "replay (exact_pt z) m (records u)"
  have U: "?U = replay_record (exact_pt z) m ?cg ?rg r ?T" unfolding rec by (rule replay_snoc[OF once])
  have goal: "same_fill m u (tables ?U) \<and> frozen_rows (w_row_dead s) (tables ?T) (tables ?U)"
  proof (cases "rd_kind r = kDoubletonEquation")
    case False
    then have "tables ?U = tables ?T" unfolding U by (rule replay_record_tables)
    moreover have "w_delta u = w_delta s" "w_new_rows u = w_new_rows s" using f False by (simp_all add: follows_def)
    ultimately show ?thesis using same by (simp add: frozen_rows_def same_fill_reads[of u s])
  next
    case True
    let ?e = "rd_column r" and ?k = "rd_partner r" and ?d = "fill_delta (rd_coefficient r) (rd_partner_coefficient r)"
    let ?es = "filled (exact_pt z) (rd_index r) s (column (matrix m) ?e)"
    have fi: "live_col m s ?e" "live_col m s ?k" "?e \<noteq> ?k"
      "w_delta u = (w_delta s)[?k := (\<lambda>i. case map_of ?es i of None \<Rightarrow> (w_delta s ! ?k) i
          | Some v \<Rightarrow> Some (case (w_delta s ! ?k) i of None \<Rightarrow> 0 + ?d v | Some w \<Rightarrow> w + ?d v))]"
      "w_new_rows u = (w_new_rows s)[?k := w_new_rows s ! ?k @ filter (lacks ?k (w_rows s)) (map fst ?es)]"
      using f True unfolding follows_def fills_in_def Let_def by simp_all
    have ek: "?e < num_cols m" "?k < num_cols m" using fi(1,2) by (simp_all add: live_col_def)
    have rows: "\<forall>x \<in> set (column (matrix m) ?e). fst x < num_rows m" using model_column(2)[OF ok ek(1)] by fastforce
    have es: "filter (hits (exact_pt z) (rd_index r) ?rg) (column (matrix m) ?e) = ?es"
      unfolding filled_def using rows p by (intro filter_cong) (auto simp: hits_def placed_def split: prod.split)
    have len: "length (row_overrides ?T) = num_rows m" "length (extra_columns_for_row ?T) = num_rows m"
      and over: "\<And>i k. i < num_rows m \<Longrightarrow> k < num_cols m \<Longrightarrow> (row_overrides ?T ! i) k = (w_delta s ! k) i"
      and extra: "\<And>i. i < num_rows m \<Longrightarrow> distinct (extra_columns_for_row ?T ! i) \<and> set (extra_columns_for_row ?T ! i) \<subseteq> {..<num_cols m}"
      "\<And>i k. i < num_rows m \<Longrightarrow> k < num_cols m \<Longrightarrow> k \<in> set (extra_columns_for_row ?T ! i) \<longleftrightarrow> i \<in> set (w_new_rows s ! k)"
      using same by (simp_all add: same_fill_def tables_def)
    note R = replay_doubleton_tables[OF ok True ek(1) len, where pt = "exact_pt z" and cg = ?cg and gone = ?rg, unfolded es, folded U]
    have hit: "live_row m s i" if "map_of ?es i = Some v" for i v
      using map_of_SomeD[OF that] rows by (force simp: filled_def live_row_def)
    have new: "map_of ?es i \<noteq> None \<and> (row_overrides ?T ! i) ?k = None \<and> feq (entry_at (matrix m) i ?k) 0 \<longleftrightarrow>
        map_of ?es i \<noteq> None \<and> lacks ?k (w_rows s) i" if "i < num_rows m" for i
      using hit over[OF that ek(2)] lacks_fresh[OF ok b _ fi(2), of i] by (cases "map_of ?es i") auto
    have sk: "length (w_delta s) = num_cols m" "length (w_new_rows s) = num_cols m" using sz by (simp_all add: sized_def)
    have inew: "i \<in> set (w_new_rows u ! k) \<longleftrightarrow> i \<in> set (w_new_rows s ! k) \<or> k = ?k \<and> map_of ?es i \<noteq> None \<and> lacks ?k (w_rows s) i"
      if "k < num_cols m" for i k
    proof -
      have e: "map_of ?es i \<noteq> None \<longleftrightarrow> i \<in> fst ` set ?es" by (simp add: map_of_eq_None_iff)
      show ?thesis unfolding e fi(5) using that sk by (cases "k = ?k") (auto simp del: set_map simp: set_map[symmetric])
    qed
    have fresh: "?k \<notin> set (extra_columns_for_row ?T ! i)" if "i < num_rows m" "map_of ?es i \<noteq> None" "lacks ?k (w_rows s) i" for i
    proof -
      from that(2) obtain v where v: "map_of ?es i = Some v" by auto
      have "(w_delta s ! ?k) i = None" using lacks_fresh[OF ok b hit[OF v] fi(2)] that(3) by simp
      moreover have "fill_ok m s" using b by (simp add: books_def)
      ultimately have "i \<notin> set (w_new_rows s ! ?k)" using ek(2) by (force simp: fill_ok_def)
      then show ?thesis using extra(2)[OF that(1) ek(2)] by simp
    qed
    have "(row_overrides ?U ! i) k = (w_delta u ! k) i" if "i < num_rows m" "k < num_cols m" for i k
      using R(1)[OF that(1)] over[OF that] that(2) sk
      by (cases "k = ?k"; cases "map_of ?es i"; simp add: fi(4) add_delta_def)
    moreover have "distinct (extra_columns_for_row ?U ! i) \<and> set (extra_columns_for_row ?U ! i) \<subseteq> {..<num_cols m}" if "i < num_rows m" for i
      using R(2)[OF that] extra(1)[OF that] fresh[OF that] ek(2) unfolding new[OF that] by (auto split: if_splits)
    moreover have "k \<in> set (extra_columns_for_row ?U ! i) \<longleftrightarrow> i \<in> set (w_new_rows u ! k)" if "i < num_rows m" "k < num_cols m" for i k
      using R(2)[OF that(1)] extra(2)[OF that] inew[OF that(2), of i] unfolding new[OF that(1)] by auto
    moreover have "length (row_overrides ?U) = num_rows m" "length (extra_columns_for_row ?U) = num_rows m"
      unfolding U replay_doubleton_length[OF True] by (simp_all add: len)
    ultimately have "same_fill m u (tables ?U)" by (simp add: same_fill_def tables_def)
    moreover have "row_overrides ?U ! i = row_overrides ?T ! i \<and> extra_columns_for_row ?U ! i = extra_columns_for_row ?T ! i"
      if "i < num_rows m" "w_row_dead s ! i" for i
    proof -
      have "map_of ?es i = None" using hit that(2) by (cases "map_of ?es i") (auto simp: live_row_def)
      then show ?thesis using R(1)[OF that(1)] R(2)[OF that(1)] by simp
    qed
    moreover have "length (w_row_dead s) = num_rows m" using sz by (simp add: sized_def)
    ultimately show ?thesis by (simp add: frozen_rows_def tables_def)
  qed
  then show "same_fill m u (tables ?U)" "frozen_rows (w_row_dead s) (tables ?T) (tables ?U)" by blast+
qed

end
