(* ===== verification/PostsolveSound.thy ===== *)
theory PostsolveSound
  imports PostsolveTables
begin

text \<open>
  Postsolve undoes presolve: replayed in reverse over the tables of the forward pass, the records take a
  point of what presolve left to a point of the model, of the same value.
\<close>

section \<open>The rest of a row\<close>

lemma original_row:
  assumes ok: "model_ok z m" and i: "i < num_rows m"
  shows "distinct (map fst (csr_row (csr_build (matrix m)) i))"
    "(k, a) \<in> set (csr_row (csr_build (matrix m)) i) \<longleftrightarrow> k < num_cols m \<and> map_of (column (matrix m) k) i = Some a"
proof -
  have c: "csc_ok (matrix m)" "nrows (matrix m) = num_rows m" "ncols (matrix m) = num_cols m" using ok by (simp_all add: model_ok_def)
  have e: "csr_row (csr_build (matrix m)) i = row_entries (matrix m) i"
    using transpose_column[OF c(1), of i] i c(2) by (simp add: csr_row_def csr_build_def column_def Let_def)
  show "distinct (map fst (csr_row (csr_build (matrix m)) i))"
    unfolding e using sorted_row_entries[OF c(1)] by (rule sorted_keys_distinct)
  show "(k, a) \<in> set (csr_row (csr_build (matrix m)) i) \<longleftrightarrow> k < num_cols m \<and> map_of (column (matrix m) k) i = Some a"
    unfolding e set_row_entries c(3) using model_column(1)[OF ok, of k] by (auto simp: map_of_eq_Some_iff)
qed

lemma fold_exact_sum:
  assumes "\<And>e s. e \<in> set es \<Longrightarrow> f e (X s) = X (s + g e)"
  shows "fold f es (X s) = X (s + (\<Sum>e\<leftarrow>es. g e))"
  using assms by (induction es arbitrary: s) (simp_all add: add.assoc)

lemma live_coef:
  assumes ok: "model_ok z m" and b: "books m s" and i: "live_row m s i" and k: "live_col m s k"
  shows "coef s i k = (case map_of (column (matrix m) k) i of
      Some a \<Rightarrow> xval (case (w_delta s ! k) i of None \<Rightarrow> a | Some d \<Rightarrow> a + d)
    | None \<Rightarrow> if i \<in> set (w_new_rows s ! k) then xval (the ((w_delta s ! k) i)) else 0)"
proof -
  have kk: "k < num_cols m" using k by (simp add: live_col_def)
  have "map_of (w_rows s ! i) k = map_of (column_now m s k) i" using b i k by (simp add: books_def views_ok_def)
  moreover have "i \<in> set (w_new_rows s ! k) \<Longrightarrow> \<exists>d. (w_delta s ! k) i = Some d"
    using b kk by (auto simp: books_def fill_ok_def)
  ultimately show ?thesis unfolding coef_def column_now_ok(2)[OF ok b kk] by (auto split: option.split)
qed

lemma row_rest_exact:
  assumes ok: "model_ok z m" and b: "books m s" and i: "live_row m s (rd_index rec)"
    and gone: "\<And>c. c < num_cols m \<Longrightarrow> gone c \<longleftrightarrow> w_col_dead s ! c"
    and over: "\<And>k. k < num_cols m \<Longrightarrow> (row_overrides T ! rd_index rec) k = (w_delta s ! k) (rd_index rec)"
    and extra: "distinct (extra_columns_for_row T ! rd_index rec)" "set (extra_columns_for_row T ! rd_index rec) \<subseteq> {..<num_cols m}"
      "\<And>k. k < num_cols m \<Longrightarrow> k \<in> set (extra_columns_for_row T ! rd_index rec) \<longleftrightarrow> rd_index rec \<in> set (w_new_rows s ! k)"
    and v: "\<And>k. live_col m s k \<Longrightarrow> k \<noteq> rd_column rec \<Longrightarrow> v ! k = X (x k)"
  shows "row_rest m gone T rec v = X (\<Sum>k \<in> p_cols (problem_of m s) - {rd_column rec}. coef s (rd_index rec) k * x k)"
proof -
  let ?i = "rd_index rec" and ?j = "rd_column rec" and ?L = "p_cols (problem_of m s) - {rd_column rec}"
  let ?row = "csr_row (csr_build (matrix m)) ?i" and ?new = "extra_columns_for_row T ! ?i" and ?over = "row_overrides T ! ?i"
  have ii: "?i < num_rows m" using i by (simp add: live_row_def)
  note row = original_row[OF ok ii]
  define h where "h k = (if k \<in> ?L then coef s ?i k * x k else 0)" for k
  have L: "k \<in> ?L \<longleftrightarrow> k \<noteq> ?j \<and> live_col m s k" for k by (auto simp: problem_fields)
  have Lg: "\<not> (k = ?j \<or> gone k) \<longleftrightarrow> k \<in> ?L" if "k < num_cols m" for k unfolding L using gone[OF that] that by (simp add: live_col_def)
  have finite: "(w_delta s ! k) ?i = Some d \<Longrightarrow> xfinite d" if "k < num_cols m" for k d
    using b that by (auto simp: books_def fill_ok_def)
  have disj: "k \<notin> set ?new" if "(k, a) \<in> set ?row" for k a
  proof
    assume n: "k \<in> set ?new"
    from that row(2) have k: "k < num_cols m" "map_of (column (matrix m) k) ?i = Some a" by auto
    then have "?i \<in> fst ` set (column (matrix m) k)" by (force dest: map_of_SomeD)
    moreover have "?i \<in> set (w_new_rows s ! k)" using extra(3)[OF k(1)] n by simp
    ultimately show False using b k(1) by (auto simp: books_def fill_ok_def)
  qed
  have known: "add_known gone ?j ?over v e (X s') = X (s' + h (fst e))" if e: "e \<in> set ?row" for e s'
  proof -
    obtain k a where ka: "e = (k, a)" by (cases e)
    with e row(2) have k: "k < num_cols m" "map_of (column (matrix m) k) ?i = Some a" by auto
    have fa: "xfinite a" using model_column(2)[OF ok k(1) map_of_SomeD[OF k(2)]] by simp
    show ?thesis
    proof (cases "k \<in> ?L")
      case False
      then have "k = ?j \<or> gone k" "h k = 0" using Lg[OF k(1)] by (blast, simp only: h_def if_False)
      then show ?thesis by (simp add: ka add_known_def)
    next
      case True
      then have lk: "live_col m s k" "k \<noteq> ?j" using L by blast+
      obtain c where c: "(case ?over k of None \<Rightarrow> a | Some d \<Rightarrow> a + d) = X c"
      proof (cases "(w_delta s ! k) ?i")
        case None
        then show ?thesis using that fa over[OF k(1)] by (cases a) simp_all
      next
        case (Some d)
        then show ?thesis using that fa finite[OF k(1) Some] over[OF k(1)] by (cases a; cases d) simp_all
      qed
      have "coef s ?i k = c" using live_coef[OF ok b i lk(1)] c over[OF k(1)] by (simp add: k(2))
      moreover have "k \<noteq> ?j" "\<not> gone k" "h k = coef s ?i k * x k" using True Lg[OF k(1)] by (blast, blast, simp only: h_def if_True)
      ultimately show ?thesis using c v[OF lk] by (simp add: ka add_known_def)
    qed
  qed
  have filled: "add_filled gone ?j ?over v k (X s') = X (s' + h k)" if e: "k \<in> set ?new" for k s'
  proof -
    have k: "k < num_cols m" "?i \<in> set (w_new_rows s ! k)" using e extra(2,3) by auto
    then obtain d where d: "(w_delta s ! k) ?i = Some d" using b by (force simp: books_def fill_ok_def)
    show ?thesis
    proof (cases "k \<in> ?L")
      case False
      then have "k = ?j \<or> gone k" "h k = 0" using Lg[OF k(1)] by (blast, simp only: h_def if_False)
      then show ?thesis by (simp add: add_filled_def)
    next
      case True
      then have lk: "live_col m s k" "k \<noteq> ?j" using L by blast+
      have "map_of (column (matrix m) k) ?i = None"
        using disj[of k] e row(2)[of k] k(1) by (cases "map_of (column (matrix m) k) ?i") auto
      then have "coef s ?i k = xval d" using live_coef[OF ok b i lk(1)] d k(2) by simp
      moreover obtain q where "d = X q" using finite[OF k(1) d] by (cases d) simp_all
      moreover have "k \<noteq> ?j" "\<not> gone k" "h k = coef s ?i k * x k" using True Lg[OF k(1)] by (blast, blast, simp only: h_def if_True)
      ultimately show ?thesis using v[OF lk] over[OF k(1)] d by (simp add: add_filled_def)
    qed
  qed
  have one: "fold (add_known gone ?j ?over v) ?row (X 0) = X (0 + (\<Sum>e\<leftarrow>?row. h (fst e)))"
    by (rule fold_exact_sum) (rule known)
  have two: "fold (add_filled gone ?j ?over v) ?new (X q) = X (q + (\<Sum>k\<leftarrow>?new. h k))" for q
    by (rule fold_exact_sum) (rule filled)
  have "row_rest m gone T rec v = X (0 + (\<Sum>e\<leftarrow>?row. h (fst e)) + (\<Sum>k\<leftarrow>?new. h k))"
    unfolding row_rest_def Let_def X_consts one two by (rule refl)
  also have "(\<Sum>e\<leftarrow>?row. h (fst e)) = sum h (fst ` set ?row)"
    using sum_list_distinct_conv_sum_set[OF row(1), of h] by (simp add: comp_def)
  also have "(\<Sum>k\<leftarrow>?new. h k) = sum h (set ?new)" by (rule sum_list_distinct_conv_sum_set[OF extra(1)])
  also have "0 + sum h (fst ` set ?row) + sum h (set ?new) = sum h (fst ` set ?row \<union> set ?new)"
    using disj by (subst sum.union_disjoint) auto
  also have "\<dots> = sum h (?L)"
  proof (rule sum.mono_neutral_cong)
    fix k assume k: "k \<in> ?L - (fst ` set ?row \<union> set ?new)"
    then have lk: "live_col m s k" "k < num_cols m" using L[of k] by (blast, auto simp: live_col_def problem_fields)
    have "map_of (column (matrix m) k) ?i = None"
      using k row(2)[of k] lk(2) by (cases "map_of (column (matrix m) k) ?i") force+
    moreover have "?i \<notin> set (w_new_rows s ! k)" using k extra(3)[OF lk(2)] by simp
    ultimately show "h k = 0" using live_coef[OF ok b i lk(1)] by (simp add: h_def)
  qed (auto simp: h_def intro: finite_subset[OF extra(2)])
  also have "\<dots> = (\<Sum>k \<in> ?L. coef s ?i k * x k)" by (simp add: h_def)
  finally show ?thesis .
qed

section \<open>One record\<close>

lemma restore_value_length: "length (ps_value (restore_record sc m gone T r v)) = length (ps_value v)"
  by (simp add: restore_record_def Let_def split: record_kind.split)

lemma live_after:
  assumes "sized m s" "follows z m s u r"
  shows "live_col m s k \<longleftrightarrow> live_col m u k \<or> removed_column r = Some k"
  using assms by (auto simp: follows_def live_col_def marked_def sized_def nth_list_update split: option.splits if_splits)

lemma restore_one:
  assumes ok: "model_ok z m" and t: "tidy m s" and p: "placed m s" and f: "follows z m s u r"
    and same: "same_fill m s (tables (replay (exact_pt z) m (records s)))"
    and T: "frozen_rows (w_row_dead u) (tables (replay (exact_pt z) m (records u))) (tables T)"
    and gone: "\<And>c. c < num_cols m \<Longrightarrow> gone c \<longleftrightarrow> w_col_dead s ! c"
    and len: "length (ps_value v) = num_cols m" and v: "\<And>k. live_col m u k \<Longrightarrow> ps_value v ! k = X (x k)"
    and k: "live_col m s k"
  shows "ps_value (restore_record sc m gone T r v) ! k = X (undo (problem_of m s) r x k)"
proof -
  have b: "books m s" and sz: "sized m s" using t by (simp_all add: tidy_def books_def)
  note la = live_after[OF sz f]
  have kk: "k < num_cols m" using k by (simp add: live_col_def)
  have solid: "solid r" using f by (simp add: follows_def)
  have other: "ps_value v ! k = X (x k)" if "removed_column r \<noteq> Some k" using la[of k] k v that by blast
  consider (fixed) "rd_kind r = kFixedColumn \<or> rd_kind r = kEmptyColumn" | (free) "rd_kind r = kFreeColumnSingleton"
    | (double) "rd_kind r = kDoubletonEquation" | (row) "removed_column r = None"
    by (cases "rd_kind r") (auto simp: removed_column_def)
  then show ?thesis
  proof cases
    case fixed
    then have "xfinite (rd_value r)" "removed_column r = Some (rd_index r)" using solid by (auto simp: solid_def removed_column_def)
    then show ?thesis using fixed other kk len
      by (cases "k = rd_index r") (auto simp: restore_record_def Let_def undo_def xfinite_X)
  next
    case free
    then have j: "removed_column r = Some (rd_column r)" "removed_row r = Some (rd_index r)" by (simp_all add: removed_column_def removed_row_def)
    have i: "live_row m s (rd_index r)" using f j(2) by (simp add: follows_def)
    let ?i = "rd_index r" and ?U = "tables (replay (exact_pt z) m (records u))"
    have ii: "?i < num_rows m" using i by (simp add: live_row_def)
    have du: "?i < length (w_row_dead u)" "w_row_dead u ! ?i" using f j(2) ii sz by (simp_all add: follows_def marked_def sized_def)
    then have Ti: "row_overrides T ! ?i = fst ?U ! ?i" "extra_columns_for_row T ! ?i = snd ?U ! ?i"
      using T by (simp_all add: frozen_rows_def tables_def)
    have books_u: "w_delta u = w_delta s" "w_new_rows u = w_new_rows s" using f free by (simp_all add: follows_def)
    have U: "same_fill m u ?U" by (rule fill_follows(1)[OF ok t p f same])
    have rest: "row_rest m gone T r (ps_value v) = X (\<Sum>k \<in> p_cols (problem_of m s) - {rd_column r}. coef s ?i k * x k)"
    proof (rule row_rest_exact[OF ok b i gone])
      show "live_col m s k \<Longrightarrow> k \<noteq> rd_column r \<Longrightarrow> ps_value v ! k = X (x k)" for k using la[of k] v j(1) by auto
    qed (use U ii in \<open>auto simp: Ti same_fill_def books_u split: prod.splits\<close>)
    have c: "xfinite (rd_coefficient r)" "xval (rd_coefficient r) \<noteq> 0" "xfinite (rd_rhs r)" using solid free by (simp_all add: solid_def)
    then have "solved_value m gone T r (ps_value v) =
        X ((xval (rd_rhs r) - (\<Sum>k \<in> p_cols (problem_of m s) - {rd_column r}. coef s ?i k * x k)) / xval (rd_coefficient r))"
      unfolding solved_value_def rest by (cases "rd_rhs r"; cases "rd_coefficient r"; simp)
    then show ?thesis using free other kk len j(1)
      by (cases "k = rd_column r") (simp_all add: restore_record_def Let_def undo_def problem_fields)
  next
    case double
    then have j: "removed_column r = Some (rd_column r)" by (simp add: removed_column_def)
    have "live_col m s (rd_partner r)" "rd_column r \<noteq> rd_partner r" using f double by (simp_all add: follows_def fills_in_def Let_def)
    then have pv: "ps_value v ! rd_partner r = X (x (rd_partner r))" using la[of "rd_partner r"] v j by auto
    have c: "xfinite (rd_coefficient r)" "xval (rd_coefficient r) \<noteq> 0" "xfinite (rd_rhs r)" "xfinite (rd_partner_coefficient r)"
      using solid double by (simp_all add: solid_def)
    then have "eliminated_value r (ps_value v) =
        X ((xval (rd_rhs r) - xval (rd_partner_coefficient r) * x (rd_partner r)) / xval (rd_coefficient r))"
      unfolding eliminated_value_def pv by (cases "rd_rhs r"; cases "rd_coefficient r"; cases "rd_partner_coefficient r"; simp)
    then show ?thesis using double other kk len j
      by (cases "k = rd_column r") (simp_all add: restore_record_def Let_def undo_def)
  next
    case row
    then show ?thesis using other by (cases "rd_kind r") (simp_all add: removed_column_def restore_record_def Let_def undo_def)
  qed
qed

section \<open>The whole replay\<close>

definition restore_all ::
    "xnum scalar \<Rightarrow> xnum model \<Rightarrow> nat list \<Rightarrow> xnum replayed \<Rightarrow> xnum reduction list \<Rightarrow> xnum restored \<Rightarrow> xnum restored" where
  "restore_all sc m gone T rs v = fold (\<lambda>p. restore_record sc m (\<lambda>c. gone ! c < p) T (rs ! p)) (rev [0..<length rs]) v"

lemma restore_all_snoc:
  "restore_all sc m gone T (rs @ [r]) v = restore_all sc m gone T rs (restore_record sc m (\<lambda>c. gone ! c < length rs) T r v)"
proof -
  have "fold (\<lambda>p. restore_record sc m (\<lambda>c. gone ! c < p) T ((rs @ [r]) ! p)) (rev [0..<length rs]) w =
      fold (\<lambda>p. restore_record sc m (\<lambda>c. gone ! c < p) T (rs ! p)) (rev [0..<length rs]) w" for w
    by (rule fold_cong) (simp_all add: nth_append)
  then show ?thesis by (simp add: restore_all_def)
qed

text \<open>Whatever tables agree with the replay on the rows that are gone take a point of what is left to one of the model.\<close>

definition restores :: "rat \<Rightarrow> xnum model \<Rightarrow> xnum presolving \<Rightarrow> bool" where
  "restores z m s \<longleftrightarrow> (\<forall>sc gone T v x.
     (\<forall>p \<le> length (records s). \<forall>c < num_cols m. gone ! c < p \<longleftrightarrow> removed_at removed_column (num_cols m) (records s) ! c < p) \<longrightarrow>
     frozen_rows (w_row_dead s) (tables (replay (exact_pt z) m (records s))) (tables T) \<longrightarrow>
     length (ps_value v) = num_cols m \<longrightarrow> (\<forall>k. live_col m s k \<longrightarrow> ps_value v ! k = X (x k)) \<longrightarrow>
     point_of (integers_of m) (problem_of m s) x \<longrightarrow>
     (\<exists>y. ps_value (restore_all sc m gone T (records s) v) = map (\<lambda>k. X (y k)) [0..<num_cols m] \<and>
        point_of (integers_of m) (model_problem m) y \<and> value_of (model_problem m) y = value_of (problem_of m s) x))"

definition journey :: "rat \<Rightarrow> xnum model \<Rightarrow> xnum presolving \<Rightarrow> bool" where
  "journey z m s \<longleftrightarrow> tidy m s \<and> placed m s \<and> same_fill m s (tables (replay (exact_pt z) m (records s))) \<and>
     (proved_infeasible s \<or> restores z m s)"

lemma journey_start:
  assumes ok: "model_ok z m"
  shows "journey z m (start_workspace m)"
proof -
  note sp = same_problem_reads[OF start_problem[OF ok]]
  have "restores z m (start_workspace m)"
    unfolding restores_def restore_all_def start_live start_fields sp
  proof (intro allI impI)
    fix v :: "xnum restored" and x
    assume v: "length (ps_value v) = num_cols m" "\<forall>k < num_cols m. ps_value v ! k = X (x k)" and x: "point_of (integers_of m) (model_problem m) x"
    have "ps_value v = map (\<lambda>k. X (x k)) [0..<num_cols m]" using v by (intro nth_equalityI) simp_all
    then show "\<exists>y. ps_value (fold (\<lambda>p. restore_record sc m (\<lambda>c. gone ! c < p) T ([] ! p)) (rev [0..<length []]) v) = map (\<lambda>k. X (y k)) [0..<num_cols m] \<and>
        point_of (integers_of m) (model_problem m) y \<and> value_of (model_problem m) y = value_of (model_problem m) x" for sc gone T
      using x by (intro exI[of _ x]) simp
  qed
  then show ?thesis
    using start_tidy[OF ok] placed_start[of m] same_fill_start[of m "exact_pt z"] by (simp add: journey_def start_fields)
qed

lemma restores_quiet:
  assumes r: "restores z m s" and rec: "records t = records s" and sb: "same_books s t"
    and st: "steps_to z m s t rs"
  shows "restores z m t"
proof -
  have "rs = []" using st rec by (simp add: steps_to_def)
  then have snd: "sound_step (integers_of m) (problem_of m s) (problem_of m t) (\<lambda>x. x)"
    using st by (simp add: steps_to_def sound_step_def)
  have live: "live_col m t = live_col m s" "w_row_dead t = w_row_dead s" using sb by (simp_all add: same_books_def live_col_def fun_eq_iff)
  show ?thesis
    unfolding restores_def rec live
  proof (intro allI impI)
    fix sc gone and T :: "xnum replayed" and v :: "xnum restored" and x
    assume a: "\<forall>p \<le> length (records s). \<forall>c < num_cols m. gone ! c < p \<longleftrightarrow> removed_at removed_column (num_cols m) (records s) ! c < p"
      "frozen_rows (w_row_dead s) (tables (replay (exact_pt z) m (records s))) (tables T)" "length (ps_value v) = num_cols m"
      "\<forall>k. live_col m s k \<longrightarrow> ps_value v ! k = X (x k)" and x: "point_of (integers_of m) (problem_of m t) x"
    have "point_of (integers_of m) (problem_of m s) x \<and> value_of (problem_of m s) x = value_of (problem_of m t) x"
      using snd x by (simp add: sound_step_def)
    then show "\<exists>y. ps_value (restore_all sc m gone T (records s) v) = map (\<lambda>k. X (y k)) [0..<num_cols m] \<and>
        point_of (integers_of m) (model_problem m) y \<and> value_of (model_problem m) y = value_of (problem_of m t) x"
      using r[unfolded restores_def, rule_format, OF _ a(2,3), of gone x sc] a(1,4) by auto
  qed
qed

lemma restores_record:
  assumes ok: "model_ok z m" and t: "tidy m s" and p: "placed m s" and f: "follows z m s u r"
    and same: "same_fill m s (tables (replay (exact_pt z) m (records s)))"
    and rs: "restores z m s" and st: "steps_to z m s u qs"
  shows "restores z m u"
proof -
  have rec: "records u = records s @ [r]" using f by (simp add: follows_def)
  have qs: "qs = [r]" using st rec by (simp add: steps_to_def)
  then have snd: "sound_step (integers_of m) (problem_of m s) (problem_of m u) (undo (problem_of m s) r)"
    using st by (simp add: steps_to_def sound_step_def)
  have sz: "sized m s" using t by (simp add: tidy_def books_def)
  have once: "once removed_column (records s @ [r])"
    using placed_follows[OF p sz f] by (simp add: placed_def rec)
  show ?thesis
    unfolding restores_def rec restore_all_snoc
  proof (intro allI impI)
    fix sc gone and T :: "xnum replayed" and v :: "xnum restored" and x
    assume g: "\<forall>p \<le> length (records s @ [r]). \<forall>c < num_cols m. gone ! c < p \<longleftrightarrow> removed_at removed_column (num_cols m) (records s @ [r]) ! c < p"
      and T: "frozen_rows (w_row_dead u) (tables (replay (exact_pt z) m (records s @ [r]))) (tables T)" and len: "length (ps_value v) = num_cols m"
      and v: "\<forall>k. live_col m u k \<longrightarrow> ps_value v ! k = X (x k)" and x: "point_of (integers_of m) (problem_of m u) x"
    let ?w = "restore_record sc m (\<lambda>c. gone ! c < length (records s)) T r v" and ?x = "undo (problem_of m s) r x"
    have g': "\<forall>p \<le> length (records s). \<forall>c < num_cols m. gone ! c < p \<longleftrightarrow> removed_at removed_column (num_cols m) (records s) ! c < p"
      using g removed_at_snoc[OF once] by simp
    then have dead: "gone ! c < length (records s) \<longleftrightarrow> w_col_dead s ! c" if "c < num_cols m" for c
      using that p by (simp add: placed_def)
    have w: "ps_value ?w ! k = X (?x k)" if "live_col m s k" for k
      by (rule restore_one[OF ok t p f same _ dead len _ that]) (use T v in \<open>simp_all add: rec\<close>)
    have px: "point_of (integers_of m) (problem_of m s) ?x" "value_of (problem_of m s) ?x = value_of (problem_of m u) x"
      using snd x by (simp_all add: sound_step_def)
    have "w_row_dead u ! i" if "w_row_dead s ! i" "i < length (w_row_dead s)" for i
      using f that by (cases "removed_row r = Some i") (auto simp: follows_def marked_def split: option.splits)
    moreover have "length (w_row_dead u) = length (w_row_dead s)" using f by (simp add: follows_def marked_def split: option.split)
    ultimately have fr: "frozen_rows (w_row_dead s) (tables (replay (exact_pt z) m (records s))) (tables T)"
      using T fill_follows(2)[OF ok t p f same] by (simp add: frozen_rows_def rec)
    show "\<exists>y. ps_value (restore_all sc m gone T (records s) ?w) = map (\<lambda>k. X (y k)) [0..<num_cols m] \<and>
        point_of (integers_of m) (model_problem m) y \<and> value_of (model_problem m) y = value_of (problem_of m u) x"
      using rs[unfolded restores_def, rule_format, OF _ fr _ _ px(1), of gone ?w sc] g' w len px(2)
      by (simp add: restore_value_length)
  qed
qed

lemma journey_step:
  assumes ok: "model_ok z m" and j: "journey z m s" and a: "advances z m s t" and tr: "trails z m s t"
  shows "journey z m t"
proof -
  have s: "tidy m s" "placed m s" "same_fill m s (tables (replay (exact_pt z) m (records s)))" "proved_infeasible s \<or> restores z m s"
    using j by (simp_all add: journey_def)
  have t: "tidy m t" using a by (simp add: advances_def)
  have sz: "sized m s" using s(1) by (simp add: tidy_def books_def)
  show ?thesis
  proof (cases "records t = records s")
    case True
    then have sb: "same_books s t" using tr by (auto simp: trails_def follows_def)
    have "proved_infeasible t \<or> restores z m t"
      using a s(4) restores_quiet[OF _ True sb] by (auto simp: advances_def steps_to_def)
    moreover have "same_fill m t (tables (replay (exact_pt z) m (records t)))"
      using s(3) sb unfolding True by (simp add: same_books_def same_fill_reads[of t s])
    ultimately show ?thesis using t placed_same[OF s(2) True sb] by (simp add: journey_def)
  next
    case False
    then obtain r where f: "follows z m s t r" using tr by (auto simp: trails_def)
    obtain rs where st: "steps_to z m s t rs" using a False by (auto simp: advances_def)
    have "proved_infeasible t = proved_infeasible s" using st by (simp add: steps_to_def)
    then have "proved_infeasible t \<or> restores z m t" using s(4) restores_record[OF ok s(1,2) f s(3) _ st] by auto
    then show ?thesis using t placed_follows[OF s(2) sz f] fill_follows(1)[OF ok s(1,2) f s(3)] by (simp add: journey_def)
  qed
qed

lemma journey_pass_changed: "journey z m (s\<lparr>pass_changed := b\<rparr>) = journey z m s"
proof -
  have "live_col m (s\<lparr>pass_changed := b\<rparr>) = live_col m s" by (simp add: live_col_def fun_eq_iff)
  then show ?thesis
    by (simp add: journey_def restores_def tidy_reads problem_reads placed_def same_fill_reads[of "s\<lparr>pass_changed := b\<rparr>" s])
qed

lemma journey_tidy: "journey z m s \<Longrightarrow> tidy m s"
  by (simp add: journey_def)

interpretation journey_kept: presolve_invariant "exact_scalar ft mt" "exact_pt z" m "\<lambda>s. model_ok z m \<longrightarrow> journey z m s" for ft mt z m
proof (unfold_locales, goal_cases)
  case (2 j s)
  then show ?case using journey_step reduce_column_step[OF _ journey_tidy] reduce_column_trail[OF _ journey_tidy] by blast
next
  case (3 i s)
  then show ?case using journey_step reduce_row_step[OF _ journey_tidy] reduce_row_trail[OF _ journey_tidy] by blast
qed (simp_all add: journey_pass_changed journey_start)

lemma journey_state: "model_ok z m \<Longrightarrow> journey z m (snd (snd (presolve_state (exact_scalar ft mt) (exact_pt z) m)))"
  using journey_kept.at_the_end by blast

end
