(* ===== verification/CompactionSound.thy ===== *)
theory CompactionSound
  imports PostsolveSound
begin

text \<open>
  The reduced model stands for the problem presolve left, renumbered; and the composition: presolve, any
  point of the reduced model, postsolve.
\<close>

section \<open>Numbering\<close>

lemma survivors_facts:
  "distinct (survivors dead)" "set (survivors dead) = {j. j < length dead \<and> \<not> dead ! j}"
  by (auto simp: survivors_def)

lemma new_index_iff:
  assumes "j < length dead"
  shows "new_index dead j = Some k \<longleftrightarrow> k < length (survivors dead) \<and> survivors dead ! k = j"
proof -
  let ?P = "\<lambda>i. \<not> dead ! i" and ?k = "length (filter (\<lambda>i. \<not> dead ! i) [0..<j])"
  have up: "[0..<length dead] = [0..<j] @ [j..<length dead]" using assms upt_add_eq_append[of 0 j "length dead - j"] by simp
  have sv: "survivors dead = filter ?P [0..<j] @ filter ?P [j..<length dead]" by (simp add: survivors_def up)
  have at: "\<not> dead ! j \<Longrightarrow> ?k < length (survivors dead) \<and> survivors dead ! ?k = j"
    using assms by (simp add: sv upt_conv_Cons nth_append)
  have "\<not> dead ! j" if "k < length (survivors dead)" "survivors dead ! k = j"
    using that survivors_facts(2)[of dead] nth_mem[of k "survivors dead"] by auto
  then show ?thesis
    using at nth_eq_iff_index_eq[OF survivors_facts(1)] by (auto simp: new_index_def)
qed

section \<open>The reduced matrix\<close>

text \<open>A sequence of offers that stay within the limit is recorded in full.\<close>

definition offer_all :: "(nat \<times> nat \<times> 'a) list \<Rightarrow> 'a sparse_matrix \<Rightarrow> 'a sparse_matrix" where
  "offer_all ts M = fold (\<lambda>(c, r, a). add_entry r c a) ts M"

lemma offer_all_facts:
  assumes "build_ok M" "\<forall>(c, r, a) \<in> set ts. r < nrows M \<and> c < ncols M" "\<not> overflowed M"
  shows "build_ok (offer_all ts M)" "nrows (offer_all ts M) = nrows M" "ncols (offer_all ts M) = ncols M"
    "\<not> overflowed (offer_all ts M) \<longrightarrow> triplets (offer_all ts M) = triplets M @ ts"
proof -
  have over: "overflowed M \<Longrightarrow> overflowed (offer_all ts M)" for M :: "'a sparse_matrix" and ts
    by (induction ts arbitrary: M) (auto simp: offer_all_def add_entry_def)
  have "build_ok (offer_all ts M) \<and> nrows (offer_all ts M) = nrows M \<and> ncols (offer_all ts M) = ncols M \<and>
      (\<not> overflowed (offer_all ts M) \<longrightarrow> triplets (offer_all ts M) = triplets M @ ts)"
    using assms
  proof (induction ts arbitrary: M)
    case (Cons t ts)
    obtain c r a where t: "t = (c, r, a)" by (cases t)
    let ?M = "add_entry r c a M"
    have dims: "nrows ?M = nrows M" "ncols ?M = ncols M" by (simp_all add: add_entry_def)
    have ok: "build_ok ?M" using Cons.prems t by (intro build_ok_add_entry) auto
    have eq: "offer_all (t # ts) M = offer_all ts ?M" by (simp add: offer_all_def t)
    show ?case
    proof (cases "overflowed ?M")
      case True
      have "build_ok (offer_all ts N) \<and> nrows (offer_all ts N) = nrows N \<and> ncols (offer_all ts N) = ncols N"
        if "build_ok N" "\<forall>(c, r, a) \<in> set ts. r < nrows N \<and> c < ncols N" for N :: "'a sparse_matrix"
        using that
      proof (induction ts arbitrary: N)
        case (Cons u us)
        obtain d q b where u: "u = (d, q, b)" by (cases u)
        have "build_ok (add_entry q d b N)" using Cons.prems u by (intro build_ok_add_entry) auto
        moreover have "nrows (add_entry q d b N) = nrows N" "ncols (add_entry q d b N) = ncols N" by (simp_all add: add_entry_def)
        ultimately show ?case using Cons.IH[of "add_entry q d b N"] Cons.prems(2) by (simp add: offer_all_def u)
      qed (simp add: offer_all_def)
      then show ?thesis unfolding eq using ok dims Cons.prems(2) over[OF True] by auto
    next
      case False
      then have "length (triplets M) < nonzero_limit M"
        using Cons.prems(1,3) by (auto simp: add_entry_def triplets_def build_ok_def split: if_splits)
      then have "triplets ?M = triplets M @ [t]" using add_entry_triplets[OF Cons.prems(1), of r c a] t by simp
      then show ?thesis unfolding eq using Cons.IH[OF ok _ False] Cons.prems(2) dims by simp
    qed
  qed (simp add: offer_all_def)
  then show "build_ok (offer_all ts M)" "nrows (offer_all ts M) = nrows M" "ncols (offer_all ts M) = ncols M"
    "\<not> overflowed (offer_all ts M) \<longrightarrow> triplets (offer_all ts M) = triplets M @ ts" by blast+
qed

text \<open>What the compaction offers.\<close>

definition entry_offers :: "bool list \<Rightarrow> nat \<Rightarrow> (nat \<times> 'a) list \<Rightarrow> (nat \<times> nat \<times> 'a) list" where
  "entry_offers dead i es = map (\<lambda>(c, a). (the (new_index dead c), i, a)) (filter (\<lambda>(c, a). \<not> dead ! c) es)"

definition all_offers :: "('a, 'z) workspace_scheme \<Rightarrow> (nat \<times> nat \<times> 'a) list" where
  "all_offers w = concat (map (\<lambda>i. entry_offers (w_col_dead w) (the (new_index (w_row_dead w) i)) (w_rows w ! i))
     (filter (\<lambda>i. \<not> w_row_dead w ! i) [0..<length (w_row_dead w)]))"

lemma fold_compact_entry: "fold (compact_entry dead i) es M = offer_all (entry_offers dead i es) M"
  by (induction es arbitrary: M) (auto simp: compact_entry_def entry_offers_def offer_all_def new_index_def)

lemma offer_all_append: "offer_all (xs @ ys) M = offer_all ys (offer_all xs M)"
  by (simp add: offer_all_def)

lemma compact_matrix_offers:
  "compact_matrix w = offer_all (all_offers w) (reset (length (survivors (w_row_dead w))) (length (survivors (w_col_dead w))) empty_sparse)"
proof -
  have "fold (compact_row w) is M = offer_all (concat (map (\<lambda>i. entry_offers (w_col_dead w) (the (new_index (w_row_dead w) i)) (w_rows w ! i))
     (filter (\<lambda>i. \<not> w_row_dead w ! i) is))) M" for "is" M
  proof (induction "is" arbitrary: M)
    case (Cons i "is")
    show ?case
      unfolding fold_simps comp_apply Cons
      by (simp add: compact_row_def new_index_def fold_compact_entry offer_all_append)
  qed (simp add: offer_all_def)
  then show ?thesis by (simp add: compact_matrix_def all_offers_def)
qed

lemma all_offers_iff:
  assumes b: "books m s"
  shows "(c, r, a) \<in> set (all_offers s) \<longleftrightarrow> (\<exists>j i. live_col m s j \<and> live_row m s i \<and> new_index (w_col_dead s) j = Some c \<and>
    new_index (w_row_dead s) i = Some r \<and> map_of (w_rows s ! i) j = Some a)"
proof -
  have sz: "length (w_col_dead s) = num_cols m" "length (w_row_dead s) = num_rows m" using b by (simp_all add: books_def sized_def)
  have ent: "distinct (map fst (w_rows s ! i))" "\<forall>e \<in> set (w_rows s ! i). fst e < num_cols m" if "i < num_rows m" for i
    using b that by (simp_all add: books_def entries_ok_def)
  have ix: "dead ! j = False \<Longrightarrow> \<exists>k. new_index dead j = Some k" "new_index dead j = Some k \<Longrightarrow> \<not> dead ! j" for dead j k
    by (auto simp: new_index_def split: if_splits)
  show ?thesis
  proof
    assume "(c, r, a) \<in> set (all_offers s)"
    then obtain i j where i: "i < num_rows m" "\<not> w_row_dead s ! i" and j: "(j, a) \<in> set (w_rows s ! i)" "\<not> w_col_dead s ! j"
      and e: "c = the (new_index (w_col_dead s) j)" "r = the (new_index (w_row_dead s) i)"
      by (auto simp: all_offers_def entry_offers_def sz)
    obtain c' r' where "new_index (w_col_dead s) j = Some c'" "new_index (w_row_dead s) i = Some r'" using ix(1) i(2) j(2) by blast
    moreover have "map_of (w_rows s ! i) j = Some a" using ent(1)[OF i(1)] j(1) by (simp add: map_of_eq_Some_iff)
    moreover have "j < num_cols m" using ent(2)[OF i(1)] j(1) by auto
    ultimately show "\<exists>j i. live_col m s j \<and> live_row m s i \<and> new_index (w_col_dead s) j = Some c \<and>
        new_index (w_row_dead s) i = Some r \<and> map_of (w_rows s ! i) j = Some a"
      using i j e by (intro exI[of _ j] exI[of _ i]) (simp add: live_col_def live_row_def)
  next
    assume "\<exists>j i. live_col m s j \<and> live_row m s i \<and> new_index (w_col_dead s) j = Some c \<and>
        new_index (w_row_dead s) i = Some r \<and> map_of (w_rows s ! i) j = Some a"
    then obtain j i where a: "live_col m s j" "live_row m s i" "new_index (w_col_dead s) j = Some c"
        "new_index (w_row_dead s) i = Some r" "map_of (w_rows s ! i) j = Some a" by blast
    then have "(c, r, a) \<in> set (entry_offers (w_col_dead s) r (w_rows s ! i))"
      by (force simp: entry_offers_def live_col_def dest: map_of_SomeD)
    then show "(c, r, a) \<in> set (all_offers s)"
      using a(2,4) by (force simp: all_offers_def live_row_def sz)
  qed
qed

lemma distinct_map_concat:
  assumes "distinct is" "\<And>i. i \<in> set is \<Longrightarrow> distinct (map f (g i))"
    "\<And>i k x y. i \<in> set is \<Longrightarrow> k \<in> set is \<Longrightarrow> i \<noteq> k \<Longrightarrow> x \<in> set (g i) \<Longrightarrow> y \<in> set (g k) \<Longrightarrow> f x \<noteq> f y"
  shows "distinct (map f (concat (map g is)))"
  using assms
proof (induction "is")
  case (Cons i "is")
  have "distinct (map f (concat (map g is)))"
  proof (rule Cons.IH)
    show "distinct is" "\<And>k. k \<in> set is \<Longrightarrow> distinct (map f (g k))" using Cons.prems(1,2) by simp_all
    show "\<And>j k x y. j \<in> set is \<Longrightarrow> k \<in> set is \<Longrightarrow> j \<noteq> k \<Longrightarrow> x \<in> set (g j) \<Longrightarrow> y \<in> set (g k) \<Longrightarrow> f x \<noteq> f y"
      by (rule Cons.prems(3)) simp_all
  qed
  moreover have "f x \<noteq> f y" if "x \<in> set (g i)" "k \<in> set is" "y \<in> set (g k)" for x k y
    by (rule Cons.prems(3)[of i k]) (use that Cons.prems(1) in auto)
  then have "f ` set (g i) \<inter> f ` set (concat (map g is)) = {}" by auto
  ultimately show ?case using Cons.prems(2)[of i] by auto
qed simp

lemma all_offers_distinct:
  assumes b: "books m s"
  shows "distinct (map (\<lambda>(c, r, a). (c, r)) (all_offers s))"
proof -
  have sz: "length (w_col_dead s) = num_cols m" "length (w_row_dead s) = num_rows m" using b by (simp_all add: books_def sized_def)
  have same: "j = j'" if "new_index dead j = Some k" "new_index dead j' = Some k" "j < length dead" "j' < length dead" for dead j j' k
    using that by (simp add: new_index_iff)
  have some: "\<exists>k. new_index dead j = Some k" if "\<not> dead ! j" for dead j using that by (simp add: new_index_def)
  show ?thesis
    unfolding all_offers_def
  proof (rule distinct_map_concat, goal_cases)
    case 1
    then show ?case by simp
  next
    case (2 i)
    then have i: "i < num_rows m" by (simp add: sz)
    have d: "distinct (map fst (w_rows s ! i))" and n: "\<forall>e \<in> set (w_rows s ! i). fst e < num_cols m"
      using b i by (simp_all add: books_def entries_ok_def)
    have "distinct (map (\<lambda>(c, r, a). (c, r)) (entry_offers (w_col_dead s) r es))"
      if "distinct (map fst es)" "\<forall>e \<in> set es. fst e < num_cols m" for r es
      using that
    proof (induction es)
      case (Cons e es)
      obtain j a where e: "e = (j, a)" by (cases e)
      have "j' \<noteq> j" if "(j', a') \<in> set es" for j' a' using Cons.prems(1) that e by force
      then have "the (new_index (w_col_dead s) j') \<noteq> the (new_index (w_col_dead s) j)"
        if "(j', a') \<in> set es" "\<not> w_col_dead s ! j'" "\<not> w_col_dead s ! j" for j' a'
        using that same[of "w_col_dead s" j' _ j] some[of "w_col_dead s" j'] some[of "w_col_dead s" j] Cons.prems(2) e sz by fastforce
      then show ?case using Cons by (fastforce simp: entry_offers_def e)
    qed (simp add: entry_offers_def)
    then show ?case using d n by blast
  next
    case (3 i k x y)
    then have "the (new_index (w_row_dead s) i) \<noteq> the (new_index (w_row_dead s) k)"
      using same[of "w_row_dead s" i _ k] some[of "w_row_dead s" i] some[of "w_row_dead s" k] by auto
    then show ?case using 3(4,5) by (auto simp: entry_offers_def)
  qed
qed

lemma distinct_only: "distinct xs \<Longrightarrow> set xs = {x} \<Longrightarrow> xs = [x]"
  by (cases xs; cases "tl xs") auto

definition no_dust :: "rat \<Rightarrow> xnum model \<Rightarrow> xnum presolving \<Rightarrow> bool" where
  "no_dust d m s \<longleftrightarrow> (\<forall>i j. live_row m s i \<longrightarrow> live_col m s j \<longrightarrow> coef s i j = 0 \<or> d \<le> \<bar>coef s i j\<bar>)"

lemma compact_build:
  assumes b: "books m s"
  shows "build_ok (compact_matrix s)" "nrows (compact_matrix s) = length (survivors (w_row_dead s))"
    "ncols (compact_matrix s) = length (survivors (w_col_dead s))"
    "\<not> overflowed (compact_matrix s) \<longrightarrow> triplets (compact_matrix s) = all_offers s"
proof -
  let ?M = "reset (length (survivors (w_row_dead s))) (length (survivors (w_col_dead s))) (empty_sparse :: xnum sparse_matrix)"
  have M: "build_ok ?M" "\<not> overflowed ?M" by (simp_all add: build_ok_def reset_def empty_sparse_def)
  have dims: "nrows ?M = length (survivors (w_row_dead s))" "ncols ?M = length (survivors (w_col_dead s))" "triplets ?M = []"
    by (simp_all add: reset_def triplets_def)
  have sz: "length (w_col_dead s) = num_cols m" "length (w_row_dead s) = num_rows m" using b by (simp_all add: books_def sized_def)
  have "r < nrows ?M \<and> c < ncols ?M" if "(c, r, a) \<in> set (all_offers s)" for c r a
  proof -
    from that obtain i j where "i < num_rows m" "j < num_cols m" "new_index (w_row_dead s) i = Some r" "new_index (w_col_dead s) j = Some c"
      unfolding all_offers_iff[OF b] by (auto simp: live_col_def live_row_def)
    then show ?thesis using new_index_iff[of i "w_row_dead s"] new_index_iff[of j "w_col_dead s"] sz dims by simp
  qed
  then have "\<forall>(c, r, a) \<in> set (all_offers s). r < nrows ?M \<and> c < ncols ?M" by blast
  from offer_all_facts[OF M(1) this M(2)] show "build_ok (compact_matrix s)" "nrows (compact_matrix s) = length (survivors (w_row_dead s))"
    "ncols (compact_matrix s) = length (survivors (w_col_dead s))"
    "\<not> overflowed (compact_matrix s) \<longrightarrow> triplets (compact_matrix s) = all_offers s"
    unfolding compact_matrix_offers dims by simp_all
qed

lemma reduced_coef:
  assumes b: "books m s" and o: "\<not> overflowed (compact_matrix s)" and srt: "is_sort srt" and dust: "no_dust d m s"
    and k: "k < length (survivors (w_col_dead s))" and i: "i < length (survivors (w_row_dead s))"
  shows "(case map_of (column (finalize srt (X d) (compact_matrix s)) k) i of None \<Rightarrow> 0 | Some a \<Rightarrow> xval a) =
    coef s (survivors (w_row_dead s) ! i) (survivors (w_col_dead s) ! k)"
proof -
  let ?F = "finalize srt (X d) (compact_matrix s)" and ?j = "survivors (w_col_dead s) ! k" and ?i = "survivors (w_row_dead s) ! i"
  let ?es = "map snd (filter (\<lambda>t. fst t = k) (triplets (compact_matrix s)))" and ?of = "filter (\<lambda>t. fst t = k \<and> fst (snd t) = i) (all_offers s)"
  note cb = compact_build[OF b]
  have tr: "triplets (compact_matrix s) = all_offers s" using cb(4) o by simp
  have sz: "length (w_col_dead s) = num_cols m" "length (w_row_dead s) = num_rows m" using b by (simp_all add: books_def sized_def)
  have lj: "live_col m s ?j" using survivors_facts(2)[of "w_col_dead s"] k sz by (auto simp: live_col_def set_conv_nth)
  have li: "live_row m s ?i" using survivors_facts(2)[of "w_row_dead s"] i sz by (auto simp: live_row_def set_conv_nth)
  have ii: "?i < num_rows m" using li by (simp add: live_row_def)
  have offer: "(k, i, a) \<in> set (all_offers s) \<longleftrightarrow> map_of (w_rows s ! ?i) ?j = Some a" for a
    unfolding all_offers_iff[OF b]
    using lj li k i sz new_index_iff[of _ "w_col_dead s" k] new_index_iff[of _ "w_row_dead s" i] by (auto simp: live_col_def live_row_def)
  have fin: "map_of (w_rows s ! ?i) ?j = Some a \<Longrightarrow> a = X (coef s ?i ?j)" for a
    using b ii by (intro finite_coef[of m]) (simp_all add: books_def)
  have col: "(i, t) \<in> set (column ?F k) \<longleftrightarrow> i \<in> fst ` set ?es \<and> t = run_total (sort_column srt ?es) i \<and> \<not> \<bar>t\<bar> < X d" for t
  proof -
    have "set (sort_column srt ?es) = set ?es" using sort_column_perm(1)[OF srt] by (metis set_mset_mset)
    then show ?thesis
      unfolding finalize_column[OF cb(1) o srt k[folded cb(3)]] merge_runs_iff[OF sort_column_perm(2)[OF srt]] by simp
  qed
  have keys: "i \<in> fst ` set ?es \<longleftrightarrow> (\<exists>a. map_of (w_rows s ! ?i) ?j = Some a)"
    unfolding tr offer[symmetric] by force
  have total: "run_total (sort_column srt ?es) i = X (coef s ?i ?j)" if a: "map_of (w_rows s ! ?i) ?j = Some a" for a
  proof -
    let ?run = "filter (\<lambda>e. fst e = i) (sort_column srt ?es)"
    have m: "mset ?run = mset (filter (\<lambda>e. fst e = i) ?es)" using sort_column_perm(1)[OF srt, of ?es] by simp
    have "filter (\<lambda>e. fst e = i) ?es = map snd ?of" unfolding tr by (simp add: filter_map comp_def conj_commute)
    moreover have "?of = [(k, i, a)]"
    proof (rule distinct_only)
      have "distinct (all_offers s)" using all_offers_distinct[OF b] by (simp add: distinct_map)
      then show "distinct ?of" by simp
      show "set ?of = {(k, i, a)}" using offer a by auto
    qed
    ultimately have "mset ?run = {#(i, a)#}" using m by simp
    then have "?run = [(i, a)]" by (rule mset_single_iff[THEN iffD1])
    then show ?thesis using fin[OF a] by (simp add: run_total_def X_consts)
  qed
  have sorted: "distinct (map fst (column ?F k))"
    using csc_sorted[OF finalize_csc_ok[OF cb(1) o srt], of k] k cb(3) by (auto intro: sorted_keys_distinct)
  show ?thesis
  proof (cases "map_of (column ?F k) i")
    case None
    then have no: "(i, t) \<notin> set (column ?F k)" for t using weak_map_of_SomeI by fastforce
    have "coef s ?i ?j = 0"
    proof (cases "map_of (w_rows s ! ?i) ?j")
      case (Some a)
      have "\<bar>coef s ?i ?j\<bar> < d" using no[of "X (coef s ?i ?j)"] unfolding col using keys total[OF Some] Some by auto
      then show ?thesis using dust[unfolded no_dust_def, rule_format, OF li lj] by simp
    qed (simp add: coef_def)
    then show ?thesis using None by simp
  next
    case (Some t)
    then have "(i, t) \<in> set (column ?F k)" by (rule map_of_SomeD)
    then obtain a where "map_of (w_rows s ! ?i) ?j = Some a" "t = run_total (sort_column srt ?es) i" unfolding col keys by blast
    then show ?thesis using Some total by simp
  qed
qed

section \<open>The reduced model\<close>

text \<open>The objective of a model at a point, its linear part and the offset.\<close>

definition model_value :: "xnum model \<Rightarrow> (nat \<Rightarrow> rat) \<Rightarrow> rat" where
  "model_value m x = xval (objective_offset m) + value_of (model_problem m) x"

lemma sum_survivors:
  assumes "length dead = n"
  shows "(\<Sum>k < length (survivors dead). f (survivors dead ! k)) = sum f {j. j < n \<and> \<not> dead ! j}"
proof -
  have "bij_betw ((!) (survivors dead)) {..<length (survivors dead)} {j. j < n \<and> \<not> dead ! j}"
    by (rule bij_betw_nth[OF survivors_facts(1) refl]) (simp add: survivors_facts(2) assms)
  then show ?thesis by (rule sum.reindex_bij_betw)
qed

lemma all_survivors:
  assumes "length dead = n"
  shows "(\<forall>k < length (survivors dead). P (survivors dead ! k)) \<longleftrightarrow> (\<forall>j. j < n \<longrightarrow> \<not> dead ! j \<longrightarrow> P j)"
  using survivors_facts(2)[of dead] assms by (metis (mono_tags, lifting) in_set_conv_nth mem_Collect_eq)

lemma removed_constant_sum:
  assumes "xfinite q" "\<forall>r \<in> set rs. rd_kind r \<in> {kFixedColumn, kEmptyColumn} \<longrightarrow> xfinite (cost ! rd_index r) \<and> xfinite (rd_value r)"
  shows "fold (removed_constant cost) rs q = X (xval q + (\<Sum>r\<leftarrow>rs. removed_cost cost r))"
  using assms
proof (induction rs arbitrary: q)
  case (Cons r rs)
  have "removed_constant cost r q = X (xval q + removed_cost cost r)"
    using Cons.prems by (cases q; cases "cost ! rd_index r"; cases "rd_value r") (auto simp: removed_constant_def removed_cost_def)
  then show ?case using Cons by (simp add: add.assoc)
qed (simp add: xfinite_X[symmetric])

lemma reduced_fields:
  fixes s :: "xnum presolving"
  shows "num_cols (reduced_model srt d m h s) = length (survivors (w_col_dead s))"
    "num_rows (reduced_model srt d m h s) = length (survivors (w_row_dead s))"
    "k < length (survivors (w_col_dead s)) \<Longrightarrow> col_lower (reduced_model srt d m h s) ! k = w_col_lower s ! (survivors (w_col_dead s) ! k)"
    "k < length (survivors (w_col_dead s)) \<Longrightarrow> col_upper (reduced_model srt d m h s) ! k = w_col_upper s ! (survivors (w_col_dead s) ! k)"
    "k < length (survivors (w_col_dead s)) \<Longrightarrow> col_cost (reduced_model srt d m h s) ! k = w_cost s ! (survivors (w_col_dead s) ! k)"
    "k < length (survivors (w_col_dead s)) \<Longrightarrow> col_type (reduced_model srt d m h s) ! k = col_type m ! (survivors (w_col_dead s) ! k)"
    "i < length (survivors (w_row_dead s)) \<Longrightarrow> row_lower (reduced_model srt d m h s) ! i = w_row_lower s ! (survivors (w_row_dead s) ! i)"
    "i < length (survivors (w_row_dead s)) \<Longrightarrow> row_upper (reduced_model srt d m h s) ! i = w_row_upper s ! (survivors (w_row_dead s) ! i)"
    "matrix (reduced_model srt d m h s) = finalize srt d (compact_matrix s)" "sense_multiplier (reduced_model srt d m h s) = sense_multiplier m"
    "objective_offset (reduced_model srt d m h s) = fold (removed_constant (w_cost s)) (records s) (objective_offset m) + w_offset s"
  by (simp_all add: reduced_model_def Let_def num_cols_def num_rows_def sense_multiplier_def)

lemma reduced_problem:
  fixes h :: "xnum sparse_matrix" and srt :: "(nat \<Rightarrow> nat) \<Rightarrow> nat list \<Rightarrow> nat list" and m :: "xnum model" and d :: rat
  assumes t: "tidy m s" and o: "\<not> overflowed (compact_matrix s)" and srt: "is_sort srt" and dust: "no_dust d m s"
    and off: "xfinite (objective_offset m)"
    and xy: "\<And>k. k < length (survivors (w_col_dead s)) \<Longrightarrow> y k = x (survivors (w_col_dead s) ! k)"
  defines "p \<equiv> reduced_model srt (X d) m h s"
  shows "point_of (integers_of p) (model_problem p) y \<longleftrightarrow> point_of (integers_of m) (problem_of m s) x"
    "model_value p y = xval (objective_offset m) + value_of (problem_of m s) x"
proof -
  let ?C = "survivors (w_col_dead s)" and ?R = "survivors (w_row_dead s)"
  have b: "books m s" and nu: "numbers m s" and ro: "records_ok m s" using t by (simp_all add: tidy_def)
  have sz: "length (w_col_dead s) = num_cols m" "length (w_row_dead s) = num_rows m" using b by (simp_all add: books_def sized_def)
  note f = reduced_fields[where srt = srt and d = "X d" and m = m and h = h and s = s, folded p_def]
  have coef: "p_coef (model_problem p) i k = coef s (?R ! i) (?C ! k)" if "i < length ?R" "k < length ?C" for i k
    using reduced_coef[OF b o srt dust that(2,1)] by (simp add: model_problem_def f(9))
  have cj: "?C ! k < num_cols m" if "k < length ?C" for k using survivors_facts(2)[of "w_col_dead s"] that sz by (auto simp: set_conv_nth)
  have box: "in_box (integers_of p) (model_problem p) y k \<longleftrightarrow> in_box (integers_of m) (problem_of m s) x (?C ! k)" if "k < length ?C" for k
    using f(3,4,6)[OF that] xy[OF that] cj[OF that] that
    by (simp add: in_box_def model_problem_def problem_fields integers_of_def f(1))
  have act: "activity (model_problem p) y i = activity (problem_of m s) x (?R ! i)" if "i < length ?R" for i
  proof -
    have "activity (model_problem p) y i = (\<Sum>k < length ?C. coef s (?R ! i) (?C ! k) * x (?C ! k))"
      unfolding activity_def using coef[OF that] xy by (intro sum.cong) (simp_all add: model_problem_def f(1))
    also have "\<dots> = (\<Sum>j \<in> {j. j < num_cols m \<and> \<not> w_col_dead s ! j}. coef s (?R ! i) j * x j)" by (rule sum_survivors[OF sz(1)])
    finally show ?thesis by (simp add: activity_def problem_fields live_col_def)
  qed
  have row: "row_holds (model_problem p) y i \<longleftrightarrow> row_holds (problem_of m s) x (?R ! i)" if "i < length ?R" for i
    using f(7,8)[OF that] act[OF that] by (simp add: row_holds_def model_problem_def problem_fields)
  have "point_of (integers_of p) (model_problem p) y \<longleftrightarrow>
      (\<forall>k < length ?C. in_box (integers_of m) (problem_of m s) x (?C ! k)) \<and> (\<forall>i < length ?R. row_holds (problem_of m s) x (?R ! i))"
    using box row by (auto simp: point_of_def model_problem_def f(1,2))
  also have "\<dots> \<longleftrightarrow> point_of (integers_of m) (problem_of m s) x"
    unfolding all_survivors[OF sz(1)] all_survivors[OF sz(2)] by (auto simp: point_of_def problem_fields live_col_def live_row_def)
  finally show "point_of (integers_of p) (model_problem p) y \<longleftrightarrow> point_of (integers_of m) (problem_of m s) x" .
  have "value_of (model_problem p) y = (\<Sum>k < length ?C. xval (w_cost s ! (?C ! k)) * x (?C ! k))"
    using f(5) xy by (simp add: value_of_def model_problem_def f(1))
  also have "\<dots> = (\<Sum>j \<in> {j. j < num_cols m \<and> \<not> w_col_dead s ! j}. xval (w_cost s ! j) * x j)" by (rule sum_survivors[OF sz(1)])
  finally have v: "value_of (model_problem p) y = (\<Sum>j \<in> {j. j < num_cols m \<and> \<not> w_col_dead s ! j}. xval (w_cost s ! j) * x j)" .
  have "\<forall>r \<in> set (records s). rd_kind r \<in> {kFixedColumn, kEmptyColumn} \<longrightarrow> xfinite (w_cost s ! rd_index r) \<and> xfinite (rd_value r)"
    using ro nu by (auto simp: records_ok_def numbers_def)
  then have "fold (removed_constant (w_cost s)) (records s) (objective_offset m) =
      X (xval (objective_offset m) + (\<Sum>r\<leftarrow>records s. removed_cost (w_cost s) r))" by (rule removed_constant_sum[OF off])
  moreover have "w_offset s = X (xval (w_offset s))" using nu by (simp add: numbers_def xfinite_X)
  ultimately have "objective_offset p = X (xval (objective_offset m) + (\<Sum>r\<leftarrow>records s. removed_cost (w_cost s) r) + xval (w_offset s))"
    unfolding f(11) by (metis X_arith(1))
  then show "model_value p y = xval (objective_offset m) + value_of (problem_of m s) x"
    by (simp add: model_value_def v) (simp add: value_of_def problem_of_def live_col_def)
qed

section \<open>There and back\<close>

lemma scatter_back_facts:
  assumes "distinct old" "\<forall>j \<in> set old. j < length xs" "length ys = length old"
  shows "length (scatter_back old ys xs) = length xs" "k < length old \<Longrightarrow> scatter_back old ys xs ! (old ! k) = ys ! k"
proof -
  let ?F = "\<lambda>n. fold (\<lambda>j xs. if j < length ys then xs[old ! j := ys ! j] else xs) [0..<n] xs"
  have "length (?F n) = length xs \<and> (\<forall>k < n. ?F n ! (old ! k) = ys ! k)" if "n \<le> length old" for n
    using that
  proof (induction n)
    case (Suc n)
    have "old ! n \<noteq> old ! k" if "k < n" for k using that assms(1) Suc.prems by (simp add: nth_eq_iff_index_eq)
    then show ?case using Suc assms by (auto simp: less_Suc_eq)
  qed simp
  from this[OF order_refl] show "length (scatter_back old ys xs) = length xs" "k < length old \<Longrightarrow> scatter_back old ys xs ! (old ! k) = ys ! k"
    by (simp_all add: scatter_back_def)
qed

lemma postsolve_values:
  "ps_value (postsolve sc pt m p r) = ps_value (restore_all sc m (removed_at removed_column (num_cols m) (pr_records p))
     (replay pt m (pr_records p)) (pr_records p)
     \<lparr>ps_value = scatter_back (col_to_original p) (ps_value r) (replicate (num_cols m) 0),
      ps_col_status = scatter_back (col_to_original p) (ps_col_status r) (replicate (num_cols m) kUnknown),
      ps_row_dual = scatter_back (row_to_original p) (ps_row_dual r) (replicate (num_rows m) 0),
      ps_row_status = scatter_back (row_to_original p) (ps_row_status r) (replicate (num_rows m) kUnknown)\<rparr>)"
  by (simp add: postsolve_def restore_def restore_all_def Let_def)

text \<open>What the two of them do on exact numbers, and the state presolve ends in.\<close>

abbreviation presolved_exact :: "rat \<Rightarrow> rat \<Rightarrow> rat \<Rightarrow> ((nat \<Rightarrow> nat) \<Rightarrow> nat list \<Rightarrow> nat list) \<Rightarrow> rat \<Rightarrow> xnum model \<Rightarrow> xnum presolved" where
  "presolved_exact z ft mt srt d m \<equiv> presolve (exact_scalar ft mt) (exact_pt z) srt (X d) m"

abbreviation last_state :: "rat \<Rightarrow> rat \<Rightarrow> rat \<Rightarrow> xnum model \<Rightarrow> xnum presolving" where
  "last_state z ft mt m \<equiv> snd (snd (presolve_state (exact_scalar ft mt) (exact_pt z) m))"

lemma presolve_cases:
  assumes "\<not> pr_infeasible (presolved_exact z ft mt srt d m)"
  obtains (whole) "presolved_exact z ft mt srt d m = \<lparr>pr_model = m, pr_records = [], col_to_original = [0..<num_cols m],
      row_to_original = [0..<num_rows m], pr_infeasible = False, pr_farkas = []\<rparr>"
  | (reduced) h where "\<not> proved_infeasible (last_state z ft mt m)"
      "presolved_exact z ft mt srt d m = \<lparr>pr_model = reduced_model srt (X d) m h (last_state z ft mt m), pr_records = records (last_state z ft mt m),
         col_to_original = survivors (w_col_dead (last_state z ft mt m)), row_to_original = survivors (w_row_dead (last_state z ft mt m)),
         pr_infeasible = False, pr_farkas = []\<rparr>"
  using assms by (cases "compact_hessian m (w_col_dead (last_state z ft mt m))") (auto simp: presolve_def Let_def split: if_splits)

lemma reduced_not_overflowed:
  assumes "books m s" "\<not> overflowed (matrix (reduced_model srt d m h s))"
  shows "\<not> overflowed (compact_matrix s)"
  using assms finalize_limits(2)[OF compact_build(1)[OF assms(1)]] by (simp add: reduced_fields)

lemma postsolved_point:
  assumes ok: "model_ok z m" and off: "xfinite (objective_offset m)" and srt: "is_sort srt"
    and feas: "\<not> pr_infeasible (presolved_exact z ft mt srt d m)"
    and over: "\<not> overflowed (matrix (pr_model (presolved_exact z ft mt srt d m)))" and dust: "no_dust d m (last_state z ft mt m)"
    and y: "point_of (integers_of (pr_model (presolved_exact z ft mt srt d m))) (model_problem (pr_model (presolved_exact z ft mt srt d m))) y"
    and r: "ps_value r = map (\<lambda>j. X (y j)) [0..<num_cols (pr_model (presolved_exact z ft mt srt d m))]"
  obtains x where "ps_value (postsolve sc (exact_pt z) m (presolved_exact z ft mt srt d m) r) = map (\<lambda>j. X (x j)) [0..<num_cols m]"
    "point_of (integers_of m) (model_problem m) x" "model_value m x = model_value (pr_model (presolved_exact z ft mt srt d m)) y"
  using feas
proof (cases rule: presolve_cases)
  case whole
  have "scatter_back [0..<num_cols m] (map (\<lambda>j. X (y j)) [0..<num_cols m]) (replicate (num_cols m) 0) = map (\<lambda>j. X (y j)) [0..<num_cols m]"
  proof (rule nth_equalityI)
    note f = scatter_back_facts[of "[0..<num_cols m]" "replicate (num_cols m) 0" "map (\<lambda>j. X (y j)) [0..<num_cols m]"]
    show "length (scatter_back [0..<num_cols m] (map (\<lambda>j. X (y j)) [0..<num_cols m]) (replicate (num_cols m) 0)) = length (map (\<lambda>j. X (y j)) [0..<num_cols m])"
      using f(1) by simp
    show "scatter_back [0..<num_cols m] (map (\<lambda>j. X (y j)) [0..<num_cols m]) (replicate (num_cols m) 0) ! i = map (\<lambda>j. X (y j)) [0..<num_cols m] ! i"
      if "i < length (scatter_back [0..<num_cols m] (map (\<lambda>j. X (y j)) [0..<num_cols m]) (replicate (num_cols m) 0))" for i
      using that f(1) f(2)[of i] by simp
  qed
  then have "ps_value (postsolve sc (exact_pt z) m (presolved_exact z ft mt srt d m) r) = map (\<lambda>j. X (y j)) [0..<num_cols m]"
    using r by (simp add: whole postsolve_values restore_all_def)
  then show ?thesis using y by (intro that[of y]) (simp_all add: whole)
next
  case (reduced h)
  let ?s = "last_state z ft mt m" and ?p = "presolved_exact z ft mt srt d m" and ?C = "survivors (w_col_dead (last_state z ft mt m))"
  have j: "tidy m ?s" "placed m ?s" "restores z m ?s" using journey_state[OF ok, of ft mt] reduced(1) by (simp_all add: journey_def)
  have b: "books m ?s" using j(1) by (simp add: tidy_def)
  have sz: "length (w_col_dead ?s) = num_cols m" using b by (simp add: books_def sized_def)
  have o: "\<not> overflowed (compact_matrix ?s)" by (rule reduced_not_overflowed[OF b]) (use over in \<open>simp add: reduced(2)\<close>)
  define x where "x j = y (the (new_index (w_col_dead ?s) j))" for j
  have set_C: "set ?C = {j. j < num_cols m \<and> \<not> w_col_dead ?s ! j}" by (simp add: survivors_facts(2) sz)
  have xy: "y k = x (?C ! k)" if "k < length ?C" for k
  proof -
    have "?C ! k < length (w_col_dead ?s)" using nth_mem[OF that] by (simp add: set_C sz)
    then have "new_index (w_col_dead ?s) (?C ! k) = Some k" using that by (simp add: new_index_iff)
    then show ?thesis by (simp add: x_def)
  qed
  note red = reduced_problem[where y = y and x = x and h = h, OF j(1) o srt dust off xy]
  have x: "point_of (integers_of m) (problem_of m ?s) x" using y red(1) by (simp add: reduced(2))
  let ?v = "\<lparr>ps_value = scatter_back ?C (ps_value r) (replicate (num_cols m) 0),
      ps_col_status = scatter_back ?C (ps_col_status r) (replicate (num_cols m) kUnknown),
      ps_row_dual = scatter_back (survivors (w_row_dead ?s)) (ps_row_dual r) (replicate (num_rows m) 0),
      ps_row_status = scatter_back (survivors (w_row_dead ?s)) (ps_row_status r) (replicate (num_rows m) kUnknown)\<rparr>"
  have rv: "ps_value r = map (\<lambda>j. X (y j)) [0..<length ?C]" using r by (simp add: reduced(2) reduced_fields)
  note sb = scatter_back_facts[OF survivors_facts(1), of "w_col_dead ?s" "replicate (num_cols m) 0" "ps_value r"]
  have len: "length (ps_value ?v) = num_cols m" using sb(1) by (simp add: set_C rv)
  have vals: "ps_value ?v ! k = X (x k)" if "live_col m ?s k" for k
  proof -
    from that have "k \<in> set ?C" by (simp add: set_C live_col_def)
    then obtain q where q: "q < length ?C" "?C ! q = k" by (auto simp: in_set_conv_nth)
    then show ?thesis using sb(2)[of q] xy[of q] by (simp add: set_C rv)
  qed
  have fr: "frozen_rows (w_row_dead ?s) (tables (replay (exact_pt z) m (records ?s))) (tables (replay (exact_pt z) m (records ?s)))"
    by (simp add: frozen_rows_def)
  obtain u where u: "ps_value (restore_all sc m (removed_at removed_column (num_cols m) (records ?s)) (replay (exact_pt z) m (records ?s)) (records ?s) ?v) =
        map (\<lambda>k. X (u k)) [0..<num_cols m]"
      "point_of (integers_of m) (model_problem m) u" "value_of (model_problem m) u = value_of (problem_of m ?s) x"
    using j(3)[unfolded restores_def, rule_format, OF _ fr len vals x] by blast
  have "ps_value (postsolve sc (exact_pt z) m ?p r) = map (\<lambda>k. X (u k)) [0..<num_cols m]"
    unfolding postsolve_values using u(1) by (simp add: reduced(2))
  moreover have "model_value m u = model_value (pr_model ?p) y" using u(3) red(2) by (simp add: reduced(2) model_value_def)
  ultimately show ?thesis using u(2) that by blast
qed

text \<open>
  C2. Presolve and postsolve, composed: on exact numbers, whatever point of the reduced model an engine
  returns, postsolve makes of it a point of the original model with the same objective, as long as the
  reduced matrix did not overflow and freezing it dropped nothing but zeros.
\<close>

theorem postsolve_returns_a_point:
  assumes "model_ok z m" "xfinite (objective_offset m)" "is_sort srt" "\<not> pr_infeasible (presolved_exact z ft mt srt d m)"
    "\<not> overflowed (matrix (pr_model (presolved_exact z ft mt srt d m)))" "no_dust d m (last_state z ft mt m)"
    "point_of (integers_of (pr_model (presolved_exact z ft mt srt d m))) (model_problem (pr_model (presolved_exact z ft mt srt d m))) y"
    "ps_value r = map (\<lambda>j. X (y j)) [0..<num_cols (pr_model (presolved_exact z ft mt srt d m))]"
  shows "\<exists>x. ps_value (postsolve sc (exact_pt z) m (presolved_exact z ft mt srt d m) r) = map (\<lambda>j. X (x j)) [0..<num_cols m] \<and>
    point_of (integers_of m) (model_problem m) x \<and> model_value m x = model_value (pr_model (presolved_exact z ft mt srt d m)) y"
  using postsolved_point[OF assms] by blast

text \<open>
  C1. An optimal point of the reduced model comes back as an optimal point of the original: nothing better
  was lost on the way, as long as every free column was eliminated at a price the code can tell from zero,
  or at none.
\<close>

theorem postsolve_returns_the_optimum:
  assumes "model_ok z m" "xfinite (objective_offset m)" "is_sort srt" "\<not> pr_infeasible (presolved_exact z ft mt srt d m)"
    "\<not> overflowed (matrix (pr_model (presolved_exact z ft mt srt d m)))" "no_dust d m (last_state z ft mt m)"
    "list_all (clear_price z m) (pr_records (presolved_exact z ft mt srt d m))"
    "point_of (integers_of (pr_model (presolved_exact z ft mt srt d m))) (model_problem (pr_model (presolved_exact z ft mt srt d m))) y"
    "\<And>w. point_of (integers_of (pr_model (presolved_exact z ft mt srt d m))) (model_problem (pr_model (presolved_exact z ft mt srt d m))) w \<Longrightarrow>
      xval (sense_multiplier m) * model_value (pr_model (presolved_exact z ft mt srt d m)) y
        \<le> xval (sense_multiplier m) * model_value (pr_model (presolved_exact z ft mt srt d m)) w"
    "ps_value r = map (\<lambda>j. X (y j)) [0..<num_cols (pr_model (presolved_exact z ft mt srt d m))]"
  shows "\<exists>x. ps_value (postsolve sc (exact_pt z) m (presolved_exact z ft mt srt d m) r) = map (\<lambda>j. X (x j)) [0..<num_cols m] \<and>
    point_of (integers_of m) (model_problem m) x \<and>
    (\<forall>w. point_of (integers_of m) (model_problem m) w \<longrightarrow>
       xval (sense_multiplier m) * model_value m x \<le> xval (sense_multiplier m) * model_value m w)"
proof -
  let ?p = "presolved_exact z ft mt srt d m" and ?s = "last_state z ft mt m" and ?g = "xval (sense_multiplier m)"
  obtain x where x: "ps_value (postsolve sc (exact_pt z) m ?p r) = map (\<lambda>j. X (x j)) [0..<num_cols m]"
    "point_of (integers_of m) (model_problem m) x" "model_value m x = model_value (pr_model ?p) y"
    using postsolved_point[OF assms(1-6,8,10)] by blast
  have "?g * model_value (pr_model ?p) y \<le> ?g * model_value m w" if w: "point_of (integers_of m) (model_problem m) w" for w
    using assms(4)
  proof (cases rule: presolve_cases)
    case whole
    then show ?thesis using assms(9)[of w] w by (simp add: whole)
  next
    case (reduced h)
    have t: "tidy m ?s" using promise_state[OF assms(1)] by (rule promise_tidy)
    have o: "\<not> overflowed (compact_matrix ?s)"
      by (rule reduced_not_overflowed) (use t assms(5) in \<open>simp_all add: reduced(2) tidy_def\<close>)
    have clear: "list_all (clear_price z m) (records ?s)" using assms(7) by (simp add: reduced(2))
    then have q: "point_of (integers_of m) (problem_of m ?s) w" "?g * value_of (problem_of m ?s) w \<le> ?g * value_of (model_problem m) w"
      using promise_state[OF assms(1), of ft mt] w by (simp_all add: promise_def lossless_step_def)
    note red = reduced_problem[where h = h and x = w and y = "\<lambda>k. w (survivors (w_col_dead ?s) ! k)", OF t o assms(3,6,2) refl]
    have "point_of (integers_of (pr_model ?p)) (model_problem (pr_model ?p)) (\<lambda>k. w (survivors (w_col_dead ?s) ! k))"
      using red(1) q(1) by (simp add: reduced(2))
    from assms(9)[OF this] have "?g * model_value (pr_model ?p) y \<le> ?g * (xval (objective_offset m) + value_of (problem_of m ?s) w)"
      using red(2) by (simp add: reduced(2))
    then show ?thesis using q(2) by (simp add: model_value_def algebra_simps)
  qed
  then show ?thesis using x by (intro exI[of _ x]) simp
qed

text \<open>
  C3. A verdict of infeasibility is right: on exact numbers presolve never proves infeasible a model that
  has a point.
\<close>

theorem presolve_verdict_right:
  assumes "model_ok z m" "pr_infeasible (presolve (exact_scalar ft mt) (exact_pt z) srt (X d) m)"
  shows "\<not> point_of (integers_of m) (model_problem m) x"
proof -
  have "proved_infeasible (last_state z ft mt m)" using assms(2) by (auto simp: presolve_def Let_def split: option.splits if_splits)
  then show ?thesis using promise_state[OF assms(1), of ft mt] by (simp add: promise_def)
qed

section \<open>The status of a row that was eliminated\<close>

lemma spread_cost_records: "records (fold (spread_cost j c a) es s) = records s"
  by (induction es arbitrary: s) (simp_all add: spread_cost_def split: prod.split)

lemma kill_row_records:
  fixes s :: "('a, 'z) presolving_scheme"
  shows "records (kill_row r s) = records s"
proof -
  have "records (fold (\<lambda>(j, a) w. if w_col_dead w ! j then w else w\<lparr>w_col_count := modify_at j (\<lambda>c. c - 1) (w_col_count w)\<rparr>) es s) = records s"
    for es :: "(nat \<times> 'a) list" and s :: "('a, 'z) presolving_scheme"
    by (induction es arbitrary: s) (simp_all split: prod.split)
  then show ?thesis by (simp add: kill_row_def)
qed

text \<open>
  C27. On doubles the row of an eliminated free column comes back as fixed, whatever its sides were and
  whichever of them the elimination held it to: the record never receives the sides of the row, so the
  helper that is to tell the two apart always finds them equal.
\<close>

theorem eliminated_row_restored_as_fixed:
  "ps_row_status (restore_record sc m gone t (last (records (eliminate_singleton j i a target (s :: double presolving)))) v) =
    (ps_row_status v)[i := kFixed]"
proof -
  have "last (records (eliminate_singleton j i a target s)) = (new_reduction kFreeColumnSingleton i)\<lparr>rd_column := j, rd_coefficient := a,
      rd_rhs := target, rd_eliminated_cost := w_cost s ! j\<rparr>"
    by (simp add: eliminate_singleton_def Let_def kill_row_records spread_cost_records log_record_def)
  then show ?thesis by (simp add: restore_record_def row_logical_at_its_target_def new_reduction_def Let_def feq_def)
qed

section \<open>Two concrete models\<close>

text \<open>Two columns in one equation: the first is substituted away, the second parked at its bound.\<close>

definition demo_pair :: "xnum model" where
  "demo_pair = empty_model\<lparr>col_cost := [X 1, X 2], col_lower := [X 0, X 0], col_upper := [X 4, X 2],
     col_type := [kContinuous, kContinuous], row_lower := [X 3], row_upper := [X 3],
     matrix := empty_sparse\<lparr>nrows := 1, ncols := 2, frozen := True, column_starts := [0, 1, 2],
       row_indices := [0, 0], vals := [X 1, X 1]\<rparr>\<rparr>"

lemma demo_pair_fields:
  "num_cols demo_pair = 2" "num_rows demo_pair = 1" "col_cost demo_pair = [X 1, X 2]" "col_lower demo_pair = [X 0, X 0]"
  "col_upper demo_pair = [X 4, X 2]" "col_type demo_pair = [kContinuous, kContinuous]" "row_lower demo_pair = [X 3]"
  "row_upper demo_pair = [X 3]" "column (matrix demo_pair) 0 = [(0, X 1)]" "column (matrix demo_pair) (Suc 0) = [(0, X 1)]"
  "ncols (hessian demo_pair) = 0" "sense_multiplier demo_pair = X 1" "objective_offset demo_pair = X 0"
  by (simp_all add: demo_pair_def empty_model_def empty_sparse_def num_cols_def num_rows_def column_def segment_def
      sense_multiplier_def X_consts)

lemma exact_fields:
  "sc_fin (exact_scalar ft mt) = xfinite" "pt_feasibility (exact_pt z) = X 0" "pt_zero (exact_pt z) = X z"
  by (simp_all add: exact_scalar_def exact_pt_def)

definition demo_first :: "xnum presolving" where
  "demo_first = \<lparr>w_col_lower = [X 0, X 0], w_col_upper = [X 4, X 2], w_row_lower = [X 3], w_row_upper = [X 3],
     w_col_dead = [False, False], w_row_dead = [False], w_quadratic = [False, False], w_rows = [[(0, X 1), (1, X 1)]],
     w_col_count = [1, 1], w_row_count = [2], w_cost = [X 1, X 2], w_offset = X 0, w_doubleton = [False, False],
     w_singleton = [False, False], w_lower_row = [- 1, - 1], w_upper_row = [- 1, - 1], w_lower_coef = [X 0, X 0],
     w_upper_coef = [X 0, X 0], w_delta = [Map.empty, Map.empty], w_new_rows = [[], []],
     records = [], proved_infeasible = False, farkas_candidate = [], bounds_rounded = 0, quadratic_protected = 0,
     integer_declined = 0, pass_changed = False\<rparr>"

definition demo_rec :: "xnum reduction" where
  "demo_rec = (new_reduction kDoubletonEquation 0)\<lparr>rd_column := 0, rd_coefficient := X 1, rd_partner := 1,
     rd_partner_coefficient := X 1, rd_rhs := X 3, rd_eliminated_cost := X 1\<rparr>"

definition demo_second :: "xnum presolving" where
  "demo_second = demo_first\<lparr>w_col_dead := [True, False], w_row_dead := [True], w_col_count := [1, 0], w_cost := [X 1, X 1],
     w_offset := X 3, w_doubleton := [True, True], records := [demo_rec], pass_changed := True\<rparr>"

definition demo_last :: "xnum presolving" where
  "demo_last = demo_second\<lparr>w_col_dead := [True, True], records := [demo_rec, (new_reduction kEmptyColumn 1)\<lparr>rd_value := X 0\<rparr>]\<rparr>"

lemma start_demo: "start_workspace demo_pair = demo_first"
  by (simp add: start_workspace_def demo_pair_fields scatter_entries_def numeral_2_eq_2 modify_at_def demo_first_def quadratic_columns_def X_consts)

lemma demo_pass_1: "presolve_pass (exact_scalar 0 0) (exact_pt 1) demo_pair demo_first = demo_second"
proof -
  let ?sc = "exact_scalar 0 0" and ?pt = "exact_pt 1"
  have c: "reduce_column ?sc ?pt demo_pair 0 demo_first = demo_first" "reduce_column ?sc ?pt demo_pair (Suc 0) demo_first = demo_first"
    by (simp_all add: reduce_column_def round_bounds_def demo_pair_fields demo_first_def Let_def exact_fields)
  have fl: "w_doubleton demo_first = [False, False]" "w_quadratic demo_first = [False, False]" "w_singleton demo_first = [False, False]"
    by (simp_all add: demo_first_def)
  have l: "live_entries demo_first 0 = [(0, X 1), (Suc 0, X 1)]" by (simp add: live_entries_def demo_first_def)
  have ch: "choose_eliminated demo_pair (0, X 1) (Suc 0, X 1) = Some ((0, X 1), Suc 0, X 1)" by (simp add: choose_eliminated_def demo_pair_fields)
  have d: "doubleton ?sc ?pt demo_pair 0 demo_first = substitute_column ?sc ?pt demo_pair 0 0 (X 1) (Suc 0) (X 1) demo_first"
    by (simp add: doubleton_def l ch exact_fields fl)
  have tr: "term_range ?sc (X 1) (X 0) (X 4) = (Some (X 0), Some (X 4))"
    "round_implied ?sc ?pt demo_pair (Suc 0) (implied_bounds ?sc (X 1) (Some (X (- 1)), Some (X 3))) = (Some (X (- 1)), Some (X 3))"
    by (simp_all add: term_range_def finite_side_def exact_fields implied_bounds_def round_implied_def quotient_def demo_pair_fields X_consts)
  have f: "w_row_lower demo_first = [X 3]" "w_col_lower demo_first = [X 0, X 0]" "w_col_upper demo_first = [X 4, X 2]" "w_cost demo_first = [X 1, X 2]"
    by (simp_all add: demo_first_def)
  have "substitute_column ?sc ?pt demo_pair 0 0 (X 1) (Suc 0) (X 1) demo_first = demo_second"
    unfolding substitute_column_def demo_pair_fields Let_def f
    by (simp add: tr log_record_def tighten_partner_def fill_in_def kill_row_def demo_rec_def[symmetric])
       (simp add: demo_second_def demo_rec_def demo_first_def modify_at_def cmax_def cmin_def new_reduction_def)
  note d = d[unfolded this]
  have r: "reduce_row ?sc ?pt demo_pair 0 demo_first = demo_second"
    unfolding d[symmetric] by (simp add: reduce_row_def demo_first_def demo_pair_fields Let_def exact_fields activity_bounds_def range_step_def live_entries_def X_consts)
  have "demo_first\<lparr>pass_changed := False\<rparr> = demo_first" by (simp add: demo_first_def)
  then show ?thesis by (simp add: presolve_pass_def demo_pair_fields numeral_2_eq_2 c r)
qed

lemma demo_pass_2: "presolve_pass (exact_scalar 0 0) (exact_pt 1) demo_pair demo_second = demo_last"
proof -
  let ?sc = "exact_scalar 0 0" and ?pt = "exact_pt 1" and ?s = "demo_second\<lparr>pass_changed := False\<rparr>"
  have a: "reduce_column ?sc ?pt demo_pair 0 ?s = ?s" by (simp add: reduce_column_def demo_second_def)
  have b: "park_column ?sc ?pt demo_pair (Suc 0) ?s = demo_last"
    by (simp add: park_column_def parked_value_def demo_pair_fields exact_fields Let_def demo_second_def demo_first_def demo_last_def
      log_record_def X_consts)
  have c: "reduce_column ?sc ?pt demo_pair (Suc 0) ?s = park_column ?sc ?pt demo_pair (Suc 0) ?s"
    by (simp add: reduce_column_def round_bounds_def demo_pair_fields Let_def exact_fields)
       (simp add: demo_second_def demo_first_def)
  have r: "reduce_row ?sc ?pt demo_pair 0 demo_last = demo_last" by (simp add: reduce_row_def demo_last_def demo_second_def)
  show ?thesis by (simp add: presolve_pass_def demo_pair_fields numeral_2_eq_2 a b c r)
qed

lemma demo_pass_3: "presolve_pass (exact_scalar 0 0) (exact_pt 1) demo_pair demo_last = demo_last\<lparr>pass_changed := False\<rparr>"
  by (simp add: presolve_pass_def demo_pair_fields numeral_2_eq_2 reduce_column_def reduce_row_def demo_last_def demo_second_def)

lemma demo_last_state: "last_state 1 0 0 demo_pair = demo_last\<lparr>pass_changed := False\<rparr>"
proof -
  have f: "proved_infeasible demo_first = False" "proved_infeasible demo_second = False" "proved_infeasible demo_last = False"
    "pass_changed demo_second" "pass_changed demo_last"
    by (simp_all add: demo_first_def demo_second_def demo_last_def)
  have "snd (snd (presolve_passes (Suc (Suc (Suc n))) (exact_scalar 0 0) (exact_pt 1) demo_pair demo_first)) = demo_last\<lparr>pass_changed := False\<rparr>" for n
    by (simp add: demo_pass_1 demo_pass_2 demo_pass_3 f Let_def)
  from this[of 17] show ?thesis by (simp add: presolve_state_def start_demo kMaxPasses_def)
qed

lemma demo_pair_ok: "model_ok 1 demo_pair"
proof -
  have "csc_ok (matrix demo_pair)"
    by (simp add: csc_ok_def demo_pair_def empty_model_def empty_sparse_def stores_def column_def segment_def numeral_2_eq_2 less_Suc_eq)
  moreover have "nrows (matrix demo_pair) = 1" "ncols (matrix demo_pair) = 2" by (simp_all add: demo_pair_def)
  ultimately show ?thesis by (simp add: model_ok_def demo_pair_fields numeral_2_eq_2 less_Suc_eq sides_ok_def)
qed

text \<open>Nothing is left of it: both columns are gone, and the offset is the optimum.\<close>

lemma demo_presolved:
  "presolved_exact 1 0 0 sort_key 1 demo_pair = \<lparr>pr_model = reduced_model sort_key (X 1) demo_pair (reset 0 0 empty_sparse) (demo_last\<lparr>pass_changed := False\<rparr>),
     pr_records = [demo_rec, (new_reduction kEmptyColumn 1)\<lparr>rd_value := X 0\<rparr>], col_to_original = [], row_to_original = [],
     pr_infeasible = False, pr_farkas = []\<rparr>"
proof -
  have f: "proved_infeasible demo_last = False" "w_col_dead demo_last = [True, True]" "w_row_dead demo_last = [True]"
    "records demo_last = [demo_rec, (new_reduction kEmptyColumn 1)\<lparr>rd_value := X 0\<rparr>]"
    by (simp_all add: demo_last_def demo_second_def demo_first_def)
  have "survivors [True, True] = []" "survivors [True] = []" by (simp_all add: survivors_def numeral_2_eq_2)
  then show ?thesis
    by (simp add: presolve_def demo_last_state Let_def f compact_hessian_def demo_pair_fields)
qed

lemma demo_reduced:
  "num_cols (pr_model (presolved_exact 1 0 0 sort_key 1 demo_pair)) = 0" "num_rows (pr_model (presolved_exact 1 0 0 sort_key 1 demo_pair)) = 0"
  "\<not> overflowed (matrix (pr_model (presolved_exact 1 0 0 sort_key 1 demo_pair)))"
  "no_dust 1 demo_pair (last_state 1 0 0 demo_pair)"
proof -
  have f: "w_col_dead demo_last = [True, True]" "w_row_dead demo_last = [True]" by (simp_all add: demo_last_def demo_second_def demo_first_def)
  have s: "survivors [True, True] = []" "survivors [True] = []" by (simp_all add: survivors_def numeral_2_eq_2)
  show "num_cols (pr_model (presolved_exact 1 0 0 sort_key 1 demo_pair)) = 0" "num_rows (pr_model (presolved_exact 1 0 0 sort_key 1 demo_pair)) = 0"
    by (simp_all add: demo_presolved reduced_fields f s)
  show "\<not> overflowed (matrix (pr_model (presolved_exact 1 0 0 sort_key 1 demo_pair)))"
    by (simp add: demo_presolved reduced_fields finalize_def compact_matrix_def compact_row_def f s new_index_def reset_def empty_sparse_def Let_def)
  show "no_dust 1 demo_pair (last_state 1 0 0 demo_pair)"
    by (simp add: no_dust_def demo_last_state live_row_def f demo_pair_fields)
qed

lemma demo_pair_integers: "integers_of demo_pair = {}"
proof -
  have "\<forall>j < 2. [kContinuous, kContinuous] ! j = kContinuous" by (simp add: numeral_2_eq_2 All_less_Suc)
  then show ?thesis by (auto simp: integers_of_def demo_pair_fields)
qed

theorem postsolve_returns_a_point_witness:
  "\<exists>x. ps_value (postsolve (exact_scalar 0 0) (exact_pt 1) demo_pair (presolve (exact_scalar 0 0) (exact_pt 1) sort_key (X 1) demo_pair)
       \<lparr>ps_value = [], ps_col_status = [], ps_row_dual = [], ps_row_status = []\<rparr>) = map (\<lambda>j. X (x j)) [0..<2] \<and>
     point_of {} (model_problem demo_pair) x"
proof -
  have "point_of (integers_of (pr_model (presolved_exact 1 0 0 sort_key 1 demo_pair))) (model_problem (pr_model (presolved_exact 1 0 0 sort_key 1 demo_pair))) (\<lambda>_. 0)"
    by (simp add: point_of_def model_problem_def demo_reduced)
  moreover note demo_pair_integers
  ultimately show ?thesis
    using postsolve_returns_a_point[OF demo_pair_ok _ is_sort_sort_key _ demo_reduced(3,4), of "\<lambda>_. 0"
      "\<lparr>ps_value = [], ps_col_status = [], ps_row_dual = [], ps_row_status = []\<rparr>" "exact_scalar 0 0"]
    by (simp add: demo_pair_fields demo_presolved[THEN arg_cong[where f = pr_infeasible]] demo_reduced(1)) blast
qed

theorem postsolve_returns_the_optimum_witness:
  "\<exists>x. ps_value (postsolve (exact_scalar 0 0) (exact_pt 1) demo_pair (presolve (exact_scalar 0 0) (exact_pt 1) sort_key (X 1) demo_pair)
       \<lparr>ps_value = [], ps_col_status = [], ps_row_dual = [], ps_row_status = []\<rparr>) = map (\<lambda>j. X (x j)) [0..<2] \<and>
     (\<forall>w. point_of {} (model_problem demo_pair) w \<longrightarrow> model_value demo_pair x \<le> model_value demo_pair w)"
proof -
  let ?p = "presolved_exact 1 0 0 sort_key 1 demo_pair"
  have "point_of (integers_of (pr_model ?p)) (model_problem (pr_model ?p)) (\<lambda>_. 0)"
    by (simp add: point_of_def model_problem_def demo_reduced)
  moreover have "model_value (pr_model ?p) (\<lambda>_. 0) \<le> model_value (pr_model ?p) w" for w
    by (simp add: model_value_def value_of_def model_problem_def demo_reduced)
  moreover note demo_pair_integers
  moreover have "list_all (clear_price 1 demo_pair) (pr_records ?p)"
    by (simp add: demo_presolved clear_price_def demo_rec_def new_reduction_def)
  ultimately show ?thesis
    using postsolve_returns_the_optimum[OF demo_pair_ok _ is_sort_sort_key _ demo_reduced(3,4), of "\<lambda>_. 0"
      "\<lparr>ps_value = [], ps_col_status = [], ps_row_dual = [], ps_row_status = []\<rparr>" "exact_scalar 0 0"]
    by (simp add: demo_pair_fields demo_presolved[THEN arg_cong[where f = pr_infeasible]] demo_reduced(1)) blast
qed

text \<open>A column with crossed bounds.\<close>

definition demo_crossed :: "xnum model" where
  "demo_crossed = empty_model\<lparr>col_cost := [X 1], col_lower := [X 3], col_upper := [X 1], col_type := [kContinuous],
     matrix := empty_sparse\<lparr>ncols := 1, frozen := True, column_starts := [0, 0]\<rparr>\<rparr>"

theorem presolve_verdict_right_witness:
  "pr_infeasible (presolve (exact_scalar 0 0) (exact_pt 1) sort_key (X 1) demo_crossed) \<and>
   \<not> point_of (integers_of demo_crossed) (model_problem demo_crossed) (\<lambda>_. 2)"
proof -
  have f: "num_cols demo_crossed = 1" "num_rows demo_crossed = 0" "col_cost demo_crossed = [X 1]" "col_lower demo_crossed = [X 3]"
    "col_upper demo_crossed = [X 1]" "col_type demo_crossed = [kContinuous]" "row_lower demo_crossed = []" "row_upper demo_crossed = []"
    "column (matrix demo_crossed) 0 = []" "ncols (hessian demo_crossed) = 0" "nrows (matrix demo_crossed) = 0" "ncols (matrix demo_crossed) = 1"
    by (simp_all add: demo_crossed_def empty_model_def empty_sparse_def num_cols_def num_rows_def column_def segment_def)
  have "csc_ok (matrix demo_crossed)"
    by (simp add: csc_ok_def demo_crossed_def empty_model_def empty_sparse_def stores_def column_def segment_def)
  then have ok: "model_ok 1 demo_crossed" by (simp add: model_ok_def f sides_ok_def)
  have "proved_infeasible (presolve_pass (exact_scalar 0 0) (exact_pt 1) demo_crossed (start_workspace demo_crossed))"
    by (simp add: presolve_pass_def f start_workspace_def scatter_entries_def quadratic_columns_def reduce_column_def round_bounds_def
      Let_def exact_fields refute_def)
  moreover have "\<not> proved_infeasible (start_workspace demo_crossed)" by (simp add: start_fields)
  ultimately have "proved_infeasible (snd (snd (presolve_passes (Suc (Suc n)) (exact_scalar 0 0) (exact_pt 1) demo_crossed (start_workspace demo_crossed))))" for n
    by (simp add: Let_def)
  from this[of 18] have "pr_infeasible (presolve (exact_scalar 0 0) (exact_pt 1) sort_key (X 1) demo_crossed)"
    by (simp add: presolve_def presolve_state_def kMaxPasses_def Let_def)
  then show ?thesis using presolve_verdict_right[OF ok] by blast
qed


end
