(* ===== verification/Cuts.thy ===== *)
theory Cuts
  imports Propagation
begin

text \<open>
  What the cut families share (\<open>src/mip/cuts.hpp\<close>, \<open>src/mip/cuts.cpp\<close>): the cut, the points a cut may
  not remove, the filter that every candidate passes, and the rounding of rows whose activity is integral.
  A cut is valid when it holds at every point of the model's rows and box that is integral on the
  integer columns; validity is stated over the exact numbers.
\<close>

section \<open>Cuts and their constants\<close>

record 'a cut =
  cut_coeff :: "'a list"
  cut_rhs :: 'a

definition kCutMaxDensity :: double where "kCutMaxDensity = lit (2 / 10)"
definition kCutMaxCoefficientRatio :: double where "kCutMaxCoefficientRatio = lit (10 ^ 6)"
definition kCutNoiseRelative :: double where "kCutNoiseRelative = lit (1 / 10 ^ 14)"
definition kCutViolationTolerance :: double where "kCutViolationTolerance = lit (1 / 10 ^ 5)"

text \<open>The tolerances the separators read; the code has them as constants.\<close>

record 'a cut_tolerances =
  ct_integrality :: 'a
  ct_zero :: 'a
  ct_density :: 'a
  ct_ratio :: 'a
  ct_noise :: 'a
  ct_violation :: 'a

definition double_cut_tolerances :: "double cut_tolerances" where
  "double_cut_tolerances = \<lparr>ct_integrality = kIntegrality, ct_zero = kZeroDrop, ct_density = kCutMaxDensity,
     ct_ratio = kCutMaxCoefficientRatio, ct_noise = kCutNoiseRelative, ct_violation = kCutViolationTolerance\<rparr>"

definition near_integer :: "'a::{minus,abs,ord} scalar \<Rightarrow> 'a cut_tolerances \<Rightarrow> 'a \<Rightarrow> bool" where
  "near_integer sc ct v \<longleftrightarrow> \<bar>v - sc_round sc v\<bar> \<le> ct_integrality ct"

section \<open>Sorting by a comparison\<close>

text \<open>\<open>std::sort\<close> with a comparison that is total on the elements sorted: the result is then determined.\<close>

fun insert_by :: "('b \<Rightarrow> 'b \<Rightarrow> bool) \<Rightarrow> 'b \<Rightarrow> 'b list \<Rightarrow> 'b list" where
  "insert_by before x [] = [x]"
| "insert_by before x (y # ys) = (if before y x then y # insert_by before x ys else x # y # ys)"

definition sort_by :: "('b \<Rightarrow> 'b \<Rightarrow> bool) \<Rightarrow> 'b list \<Rightarrow> 'b list" where
  "sort_by before xs = foldr (insert_by before) xs []"

lemma mset_insert_by [simp]: "mset (insert_by before x xs) = add_mset x (mset xs)"
  by (induction xs) auto

lemma mset_sort_by [simp]: "mset (sort_by before xs) = mset xs"
  by (induction xs) (simp_all add: sort_by_def)

lemma set_sort_by [simp]: "set (sort_by before xs) = set xs"
  using mset_sort_by by (metis set_mset_mset)

lemma length_sort_by [simp]: "length (sort_by before xs) = length xs"
  using mset_sort_by by (metis size_mset)

section \<open>The filter\<close>

datatype cut_filter_reason = kAccepted | kNonfinite | kEmptySupport | kTooDense | kCoefficientRatio
  | kInsufficientViolation | kDuplicate

record 'a filtered_cut =
  fc_cut :: "'a cut"
  fc_reason :: cut_filter_reason

definition dot :: "'a::{zero,plus,times} list \<Rightarrow> 'a list \<Rightarrow> nat \<Rightarrow> 'a" where
  "dot c x n = fold (\<lambda>j lhs. lhs + c ! j * x ! j) [0..<n] 0"

text \<open>How many coefficients are above the drop tolerance, and the largest and the smallest of them.\<close>

definition support_stats ::
    "'a::{zero,abs,ord} scalar \<Rightarrow> 'a cut_tolerances \<Rightarrow> 'a list \<Rightarrow> nat \<times> 'a \<times> 'a" where
  "support_stats sc ct cs = fold (\<lambda>v (k, biggest, smallest).
     if ct_zero ct < \<bar>v\<bar> then (Suc k, if biggest < \<bar>v\<bar> then \<bar>v\<bar> else biggest, if \<bar>v\<bar> < smallest then \<bar>v\<bar> else smallest)
     else (k, biggest, smallest)) cs (0, 0, sc_infinity sc)"

definition close_to :: "'a::{one,minus,times,abs,ord} cut_tolerances \<Rightarrow> 'a \<Rightarrow> 'a \<Rightarrow> bool" where
  "close_to ct a b \<longleftrightarrow> \<not> ct_zero ct * cmax (cmax 1 \<bar>a\<bar>) \<bar>b\<bar> < \<bar>a - b\<bar>"

definition close_rhs :: "'a::{one,minus,times,abs,ord} cut_tolerances \<Rightarrow> 'a \<Rightarrow> 'a \<Rightarrow> bool" where
  "close_rhs ct a b \<longleftrightarrow> \<bar>a - b\<bar> \<le> ct_zero ct * cmax (cmax 1 \<bar>a\<bar>) \<bar>b\<bar>"

definition multiple_of ::
    "'a::{zero,one,minus,times,divide,abs,ord} cut_tolerances \<Rightarrow> nat \<Rightarrow> 'a cut \<Rightarrow> 'a cut \<Rightarrow> bool" where
  "multiple_of ct n c acc =
     (case find_index (\<lambda>j. ct_zero ct < \<bar>cut_coeff acc ! j\<bar>) [0..<n] of None \<Rightarrow> False
      | Some first \<Rightarrow>
        let a = cut_coeff acc ! first; d = cut_coeff c ! first in
        if 0 < a \<and> d \<le> 0 \<or> a < 0 \<and> 0 \<le> d then False
        else
          let lam = d div a in
          if lam \<le> 0 then False
          else list_all (\<lambda>j. close_to ct (cut_coeff c ! j) (lam * cut_coeff acc ! j)) [0..<n] \<and>
               close_rhs ct (cut_rhs c) (lam * cut_rhs acc))"

definition filter_cut ::
    "'a::{zero,one,plus,minus,times,divide,abs,ord} scalar \<Rightarrow> 'a cut_tolerances \<Rightarrow> nat \<Rightarrow> 'a list \<Rightarrow>
     'a filtered_cut list \<Rightarrow> 'a cut \<Rightarrow> cut_filter_reason" where
  "filter_cut sc ct n x results c =
     (if \<not> sc_isfinite sc (cut_rhs c) \<or> \<not> list_all (sc_isfinite sc) (cut_coeff c) then kNonfinite
      else
        let (k, biggest, smallest) = support_stats sc ct (cut_coeff c) in
        if k = 0 then kEmptySupport
        else if ct_density ct < (if 0 < n then sc_lit sc (of_nat k) div sc_lit sc (of_nat n) else 0) then kTooDense
        else if ct_ratio ct < biggest div smallest then kCoefficientRatio
        else if dot (cut_coeff c) x n - cut_rhs c \<le> ct_violation ct then kInsufficientViolation
        else if list_ex (\<lambda>r. fc_reason r = kAccepted \<and> multiple_of ct n c (fc_cut r)) results then kDuplicate
        else kAccepted)"

definition filter_and_deduplicate_cuts ::
    "'a::{zero,one,plus,minus,times,divide,abs,ord} scalar \<Rightarrow> 'a cut_tolerances \<Rightarrow> 'a model \<Rightarrow> 'a list \<Rightarrow>
     'a cut list \<Rightarrow> 'a filtered_cut list" where
  "filter_and_deduplicate_cuts sc ct m x cs =
     fold (\<lambda>c results. results @ [\<lparr>fc_cut = c, fc_reason = filter_cut sc ct (num_cols m) x results c\<rparr>]) cs []"

section \<open>Rounding integral rows\<close>

record row_tightening =
  rows_tightened :: nat
  bounds_moved :: nat

definition integral_row_flags ::
    "'a::{minus,abs,ord} scalar \<Rightarrow> 'a cut_tolerances \<Rightarrow> 'a model \<Rightarrow> bool list \<times> bool list" where
  "integral_row_flags sc ct m =
     fold (\<lambda>j. fold (\<lambda>(r, a) (eligible, has_entry).
         (if col_type m ! j \<noteq> kInteger \<or> \<not> near_integer sc ct a then eligible[r := False] else eligible,
          has_entry[r := True])) (column (matrix m) j))
       [0..<num_cols m] (replicate (num_rows m) True, replicate (num_rows m) False)"

definition round_row ::
    "'a::{plus,minus,ord} scalar \<Rightarrow> 'a cut_tolerances \<Rightarrow> bool list \<times> bool list \<Rightarrow> nat \<Rightarrow>
     'a model \<times> row_tightening \<Rightarrow> 'a model \<times> row_tightening" where
  "round_row sc ct flags i = (\<lambda>(m, result).
     if \<not> fst flags ! i \<or> \<not> snd flags ! i then (m, result)
     else
       let lower = row_lower m ! i; upper = row_upper m ! i;
           up = sc_ceil sc (lower - ct_integrality ct); down = sc_floor sc (upper + ct_integrality ct);
           low_moves = sc_fin sc lower \<and> lower < up; high_moves = sc_fin sc upper \<and> down < upper
       in (m\<lparr>row_lower := (if low_moves then (row_lower m)[i := up] else row_lower m),
             row_upper := (if high_moves then (row_upper m)[i := down] else row_upper m)\<rparr>,
           \<lparr>rows_tightened = rows_tightened result + of_bool (low_moves \<or> high_moves),
            bounds_moved = bounds_moved result + of_bool low_moves + of_bool high_moves\<rparr>))"

definition tighten_integral_rows ::
    "'a::{plus,minus,abs,ord} scalar \<Rightarrow> 'a cut_tolerances \<Rightarrow> 'a model \<Rightarrow> 'a model \<times> row_tightening" where
  "tighten_integral_rows sc ct m =
     (let none = \<lparr>rows_tightened = 0, bounds_moved = 0\<rparr> in
      if num_rows m = 0 \<or> num_cols m = 0 \<or> \<not> has_integrality m then (m, none)
      else fold (round_row sc ct (integral_row_flags sc ct m)) [0..<num_rows m] (m, none))"

section \<open>Validity\<close>

text \<open>A model the separators may be run on: a well-formed matrix with finite entries.\<close>

definition separable :: "xnum model \<Rightarrow> bool" where
  "separable m \<longleftrightarrow> csc_ok (matrix m) \<and> nrows (matrix m) = num_rows m \<and> ncols (matrix m) = num_cols m \<and>
     length (row_upper m) = num_rows m \<and>
     (\<forall>j < num_cols m. \<forall>e \<in> set (column (matrix m) j). xfinite (snd e))"

definition rows_hold :: "xnum model \<Rightarrow> (nat \<Rightarrow> rat) \<Rightarrow> bool" where
  "rows_hold m p \<longleftrightarrow> (\<forall>i < num_rows m. row_lower m ! i \<le> X (row_value m p i) \<and> X (row_value m p i) \<le> row_upper m ! i)"

text \<open>A point of the model, with the column bounds given: the search derives cuts under the bounds it
  started with.\<close>

definition solves :: "xnum model \<Rightarrow> xnum list \<Rightarrow> xnum list \<Rightarrow> (nat \<Rightarrow> rat) \<Rightarrow> bool" where
  "solves m lo hi p \<longleftrightarrow> rows_hold m p \<and>
     (\<forall>j < num_cols m. lo ! j \<le> X (p j) \<and> X (p j) \<le> hi ! j \<and> (col_type m ! j = kInteger \<longrightarrow> p j \<in> \<int>))"

text \<open>Every finite bound of an integer column is an integer.\<close>

definition whole_bounds :: "xnum model \<Rightarrow> xnum list \<Rightarrow> xnum list \<Rightarrow> bool" where
  "whole_bounds m lo hi \<longleftrightarrow> (\<forall>j < num_cols m. col_type m ! j = kInteger \<longrightarrow>
     (xfinite (lo ! j) \<longrightarrow> xval (lo ! j) \<in> \<int>) \<and> (xfinite (hi ! j) \<longrightarrow> xval (hi ! j) \<in> \<int>))"

definition all_finite :: "xnum list \<Rightarrow> bool" where
  "all_finite cs \<longleftrightarrow> (\<forall>a \<in> set cs. xfinite a)"

definition lhs_at :: "xnum list \<Rightarrow> (nat \<Rightarrow> rat) \<Rightarrow> rat" where
  "lhs_at c p = (\<Sum>j < length c. xval (c ! j) * p j)"

definition cut_holds :: "(nat \<Rightarrow> rat) \<Rightarrow> xnum cut \<Rightarrow> bool" where
  "cut_holds p c \<longleftrightarrow> all_finite (cut_coeff c) \<and> X (lhs_at (cut_coeff c) p) \<le> cut_rhs c \<and> xfinite (cut_rhs c)"

definition valid_cut :: "xnum model \<Rightarrow> xnum list \<Rightarrow> xnum list \<Rightarrow> xnum cut \<Rightarrow> bool" where
  "valid_cut m lo hi c \<longleftrightarrow> length (cut_coeff c) = num_cols m \<and> (\<forall>p. solves m lo hi p \<longrightarrow> cut_holds p c)"

lemma csr_row_entries:
  assumes "separable m" "i < num_rows m"
  shows "csr_row (csr_build (matrix m)) i = row_entries (matrix m) i"
  using assms transpose_column[of "matrix m" i]
  by (simp add: separable_def csr_row_def csr_build_def column_def Let_def)

text \<open>The entries of a row, read from either layout.\<close>

lemma row_facts:
  assumes "separable m" "i < num_rows m" "(j, a) \<in> set (row_entries (matrix m) i)"
  shows "j < num_cols m" "xfinite a"
proof -
  have e: "j < num_cols m" "(i, a) \<in> set (column (matrix m) j)"
    using assms by (simp_all add: set_row_entries separable_def)
  then have "xfinite (snd (i, a))" using assms(1) unfolding separable_def by blast
  with e show "j < num_cols m" "xfinite a" by simp_all
qed

lemma row_value_entries:
  "separable m \<Longrightarrow> i < num_rows m \<Longrightarrow> row_value m p i = (\<Sum>(j, a)\<leftarrow>row_entries (matrix m) i. xval a * p j)"
  by (simp add: row_value_def csr_row_entries)

lemma distinct_row_entries: "separable m \<Longrightarrow> distinct (map fst (row_entries (matrix m) i))"
  using sorted_row_entries[of "matrix m" i] by (simp add: separable_def strict_sorted_iff)

lemma solves_row:
  assumes "solves m lo hi p" "i < num_rows m"
  shows "row_lower m ! i \<le> X (row_value m p i)" "X (row_value m p i) \<le> row_upper m ! i"
  using assms by (simp_all add: solves_def rows_hold_def)

lemma solves_col:
  assumes "solves m lo hi p" "j < num_cols m"
  shows "lo ! j \<le> X (p j)" "X (p j) \<le> hi ! j" "col_type m ! j = kInteger \<Longrightarrow> p j \<in> \<int>"
  using assms by (simp_all add: solves_def)

text \<open>Adding to one coefficient adds one term.\<close>

lemma all_finite_nth: "all_finite cs \<Longrightarrow> j < length cs \<Longrightarrow> \<exists>q. cs ! j = X q"
  by (metis all_finite_def nth_mem xfinite.elims(2))

lemma all_finite_zeros [simp]: "all_finite (replicate n 0)"
  by (simp add: all_finite_def X_consts)

lemma lhs_zeros [simp]: "lhs_at (replicate n 0) p = 0"
  by (simp add: lhs_at_def X_consts)

lemma lhs_update:
  assumes "all_finite cs" "j < length cs" "cs ! j = X q" "v = X r"
  shows "all_finite (cs[j := v])" "lhs_at (cs[j := v]) p = lhs_at cs p + (r - q) * p j"
proof -
  show "all_finite (cs[j := v])" using assms set_update_subset_insert[of cs j v] by (auto simp: all_finite_def)
  have "lhs_at (cs[j := v]) p = (\<Sum>k < length cs. xval (cs ! k) * p k + (if k = j then (r - q) * p j else 0))"
    unfolding lhs_at_def length_list_update by (rule sum.cong) (auto simp: assms nth_list_update algebra_simps)
  then show "lhs_at (cs[j := v]) p = lhs_at cs p + (r - q) * p j"
    using assms(2) by (simp add: lhs_at_def sum.distrib)
qed

lemma lhs_modify:
  assumes "all_finite cs" "j < length cs" "\<And>q. f (X q) = X (q + d)"
  shows "all_finite (modify_at j f cs)" "lhs_at (modify_at j f cs) p = lhs_at cs p + d * p j"
proof -
  obtain q where q: "cs ! j = X q" using all_finite_nth[OF assms(1,2)] by blast
  show "all_finite (modify_at j f cs)" "lhs_at (modify_at j f cs) p = lhs_at cs p + d * p j"
    using lhs_update(1)[OF assms(1,2) q, of "f (cs ! j)" "q + d"] lhs_update(2)[OF assms(1,2) q, of "f (cs ! j)" "q + d" p]
      assms(3)[of q] by (simp_all add: modify_at_def q)
qed

text \<open>The value of a sparse row at a point.\<close>

definition terms_at :: "(nat \<times> xnum) list \<Rightarrow> (nat \<Rightarrow> rat) \<Rightarrow> rat" where
  "terms_at es p = (\<Sum>(j, a)\<leftarrow>es. xval a * p j)"

lemma terms_simps [simp]:
  "terms_at [] p = 0" "terms_at (e # es) p = xval (snd e) * p (fst e) + terms_at es p"
  "terms_at (es @ fs) p = terms_at es p + terms_at fs p"
  by (simp_all add: terms_at_def split_beta)

lemma row_value_terms: "separable m \<Longrightarrow> i < num_rows m \<Longrightarrow> row_value m p i = terms_at (row_entries (matrix m) i) p"
  by (simp add: row_value_entries terms_at_def)

section \<open>The filter keeps what it is given\<close>

lemma filter_fold:
  assumes "length done = length ds" "map fc_cut done = ds"
    and "\<forall>k < length ds. fc_reason (done ! k) = filter_cut sc ct n x (take k done) (ds ! k)"
  shows "let r = fold (\<lambda>c results. results @ [\<lparr>fc_cut = c, fc_reason = filter_cut sc ct n x results c\<rparr>]) cs done in
    map fc_cut r = ds @ cs \<and> (\<forall>k < length (ds @ cs). fc_reason (r ! k) = filter_cut sc ct n x (take k r) ((ds @ cs) ! k))"
  using assms
proof (induction cs arbitrary: "done" ds)
  case (Cons c cs)
  let ?new = "\<lparr>fc_cut = c, fc_reason = filter_cut sc ct n x done c\<rparr>"
  have "\<forall>k < length (ds @ [c]). fc_reason ((done @ [?new]) ! k) = filter_cut sc ct n x (take k (done @ [?new])) ((ds @ [c]) ! k)"
    using Cons.prems by (auto simp: nth_append less_Suc_eq)
  from Cons.IH[OF _ _ this] Cons.prems show ?case by simp
qed (simp add: Let_def)

text \<open>Every candidate comes back unchanged, in order, with the verdict the policy gives it against the
  candidates before it.\<close>

lemma filter_verdicts:
  fixes sc :: "'a::{zero,one,plus,minus,times,divide,abs,ord} scalar"
  assumes "r = filter_and_deduplicate_cuts sc ct m x cs"
  shows "map fc_cut r = cs"
    and "k < length cs \<Longrightarrow> fc_reason (r ! k) = filter_cut sc ct (num_cols m) x (take k r) (cs ! k)"
  using filter_fold[of "[]" "[]" sc ct "num_cols m" x cs] by (simp_all add: assms filter_and_deduplicate_cuts_def Let_def)

lemma filter_cut_accepted:
  assumes "filter_cut sc ct n x rs c = kAccepted"
  shows "sc_isfinite sc (cut_rhs c)" "list_all (sc_isfinite sc) (cut_coeff c)"
    "fst (support_stats sc ct (cut_coeff c)) \<noteq> 0"
    "\<not> dot (cut_coeff c) x n - cut_rhs c \<le> ct_violation ct"
    "r \<in> set rs \<Longrightarrow> fc_reason r = kAccepted \<Longrightarrow> \<not> multiple_of ct n c (fc_cut r)"
  using assms by (auto simp: filter_cut_def list_ex_iff split: if_splits prod.splits)

text \<open>What the filter accepts is a candidate, unchanged, with finite numbers and a nonempty support, and violated
  at the point by more than the tolerance; and no accepted cut is a multiple of one accepted before it.\<close>

theorem accepted_cuts_follow_policy:
  fixes sc :: "'a::{zero,one,plus,minus,times,divide,abs,ord} scalar"
  assumes "k < length cs" "r = filter_and_deduplicate_cuts sc ct m x cs" "fc_reason (r ! k) = kAccepted"
  shows "fc_cut (r ! k) = cs ! k \<and> sc_isfinite sc (cut_rhs (cs ! k)) \<and> list_all (sc_isfinite sc) (cut_coeff (cs ! k)) \<and>
    fst (support_stats sc ct (cut_coeff (cs ! k))) \<noteq> 0 \<and>
    \<not> dot (cut_coeff (cs ! k)) x (num_cols m) - cut_rhs (cs ! k) \<le> ct_violation ct \<and>
    (\<forall>i < k. fc_reason (r ! i) = kAccepted \<longrightarrow> \<not> multiple_of ct (num_cols m) (cs ! k) (cs ! i))"
proof -
  have cut: "map fc_cut r = cs" by (rule filter_verdicts(1)[OF assms(2)])
  then have len: "length r = length cs" by auto
  have same: "fc_cut (r ! i) = cs ! i" if "i < length cs" for i using cut len that by (metis nth_map)
  have v: "filter_cut sc ct (num_cols m) x (take k r) (cs ! k) = kAccepted"
    using filter_verdicts(2)[OF assms(2,1)] assms(3) by simp
  have "\<not> multiple_of ct (num_cols m) (cs ! k) (cs ! i)" if "i < k" "fc_reason (r ! i) = kAccepted" for i
    using filter_cut_accepted(5)[OF v, of "r ! i"] that assms(1) len same[of i] by (simp add: in_set_conv_nth) (metis nth_take)
  then show ?thesis using filter_cut_accepted(1-4)[OF v] same[OF assms(1)] by simp
qed

section \<open>Rounding a row removes no point\<close>

text \<open>What the flags say of a row.\<close>

lemma flag_entries:
  assumes "fold (\<lambda>(r, a) (el, he). (if bad a then el[r := False] else el, he[r := True])) es (el, he) = (el', he')"
    "\<forall>e \<in> set es. fst e < length el \<and> fst e < length he"
  shows "length el' = length el" "length he' = length he"
    "i < length el \<Longrightarrow> el' ! i \<longleftrightarrow> el ! i \<and> (\<forall>e \<in> set es. fst e = i \<longrightarrow> \<not> bad (snd e))"
    "i < length he \<Longrightarrow> he' ! i \<longleftrightarrow> he ! i \<or> (\<exists>e \<in> set es. fst e = i)"
proof -
  have "length el' = length el \<and> length he' = length he \<and>
    (\<forall>i < length el. el' ! i \<longleftrightarrow> el ! i \<and> (\<forall>e \<in> set es. fst e = i \<longrightarrow> \<not> bad (snd e))) \<and>
    (\<forall>i < length he. he' ! i \<longleftrightarrow> he ! i \<or> (\<exists>e \<in> set es. fst e = i))"
    using assms
  proof (induction es arbitrary: el he)
    case (Cons e es)
    obtain r a where e: "e = (r, a)" by fastforce
    let ?el = "if bad a then el[r := False] else el"
    have run: "fold (\<lambda>(r, a) (el, he). (if bad a then el[r := False] else el, he[r := True])) es (?el, he[r := True]) = (el', he')"
      using Cons.prems(1) by (simp add: e)
    from Cons.IH[OF run] Cons.prems(2) e show ?case by (auto simp: nth_list_update)
  qed simp
  then show "length el' = length el" "length he' = length he"
    "i < length el \<Longrightarrow> el' ! i \<longleftrightarrow> el ! i \<and> (\<forall>e \<in> set es. fst e = i \<longrightarrow> \<not> bad (snd e))"
    "i < length he \<Longrightarrow> he' ! i \<longleftrightarrow> he ! i \<or> (\<exists>e \<in> set es. fst e = i)" by simp_all
qed

lemma integral_row_flags_mean:
  assumes sep: "separable m" and i: "i < num_rows m"
  shows "fst (integral_row_flags sc ct m) ! i \<longleftrightarrow>
      (\<forall>(j, a) \<in> set (row_entries (matrix m) i). col_type m ! j = kInteger \<and> near_integer sc ct a)"
    and "snd (integral_row_flags sc ct m) ! i \<longleftrightarrow> row_entries (matrix m) i \<noteq> []"
proof -
  define step where "step = (\<lambda>j. fold (\<lambda>(r, a) (eligible, has_entry).
         (if col_type m ! j \<noteq> kInteger \<or> \<not> near_integer sc ct a then eligible[r := False] else eligible,
          has_entry[r := True])) (column (matrix m) j))"
  let ?start = "(replicate (num_rows m) True, replicate (num_rows m) False)"
  have "length (fst (fold step [0..<n] ?start)) = num_rows m \<and> length (snd (fold step [0..<n] ?start)) = num_rows m \<and>
      (\<forall>i < num_rows m. (fst (fold step [0..<n] ?start) ! i \<longleftrightarrow>
          (\<forall>j < n. \<forall>e \<in> set (column (matrix m) j). fst e = i \<longrightarrow> col_type m ! j = kInteger \<and> near_integer sc ct (snd e))) \<and>
        (snd (fold step [0..<n] ?start) ! i \<longleftrightarrow> (\<exists>j < n. \<exists>e \<in> set (column (matrix m) j). fst e = i)))"
    if "n \<le> num_cols m" for n
    using that
  proof (induction n)
    case (Suc n)
    obtain el he where f: "fold step [0..<n] ?start = (el, he)" by fastforce
    obtain el' he' where s: "step n (el, he) = (el', he')" by fastforce
    have "\<forall>e \<in> set (column (matrix m) n). fst e < length el \<and> fst e < length he"
      using Suc f sep csc_row_bound[of "matrix m" n] by (auto simp: separable_def)
    note fe = flag_entries[OF s[unfolded step_def] this]
    show ?case using Suc f s fe by (auto simp: less_Suc_eq)
  qed simp
  from this[of "num_cols m"] i have
    fst: "fst (integral_row_flags sc ct m) ! i \<longleftrightarrow> (\<forall>j < num_cols m. \<forall>e \<in> set (column (matrix m) j). fst e = i \<longrightarrow>
        col_type m ! j = kInteger \<and> near_integer sc ct (snd e))"
    and snd: "snd (integral_row_flags sc ct m) ! i \<longleftrightarrow> (\<exists>j < num_cols m. \<exists>e \<in> set (column (matrix m) j). fst e = i)"
    by (simp_all add: integral_row_flags_def step_def)
  have c: "ncols (matrix m) = num_cols m" using sep by (simp add: separable_def)
  show "fst (integral_row_flags sc ct m) ! i \<longleftrightarrow>
      (\<forall>(j, a) \<in> set (row_entries (matrix m) i). col_type m ! j = kInteger \<and> near_integer sc ct a)"
    unfolding fst Ball_def split_paired_All by (simp add: set_row_entries c) blast
  have "row_entries (matrix m) i \<noteq> [] \<longleftrightarrow> (\<exists>j v. (j, v) \<in> set (row_entries (matrix m) i))"
    by (cases "row_entries (matrix m) i") auto
  also have "\<dots> \<longleftrightarrow> (\<exists>j < num_cols m. \<exists>e \<in> set (column (matrix m) j). fst e = i)"
    unfolding Bex_def split_paired_Ex by (simp add: set_row_entries c)
  finally show "snd (integral_row_flags sc ct m) ! i \<longleftrightarrow> row_entries (matrix m) i \<noteq> []"
    unfolding snd by simp
qed

text \<open>No coefficient lies within the integrality tolerance of an integer without being one.\<close>

definition no_near_integers :: "rat \<Rightarrow> xnum model \<Rightarrow> bool" where
  "no_near_integers t m \<longleftrightarrow> (\<forall>j < num_cols m. \<forall>(i, a) \<in> set (column (matrix m) j).
     \<bar>xval a - xval (xround a)\<bar> \<le> t \<longrightarrow> xval a \<in> \<int>)"

lemma sum_list_Ints: "(\<And>x. x \<in> set xs \<Longrightarrow> f x \<in> \<int>) \<Longrightarrow> (\<Sum>x\<leftarrow>xs. f x) \<in> (\<int> :: rat set)"
  by (induction xs) simp_all

lemma near_integer_X: "near_integer (exact_scalar ft mt) ct (X q) \<Longrightarrow> ct_integrality ct = X t \<Longrightarrow> \<bar>q - xval (xround (X q))\<bar> \<le> t"
  by (auto simp: near_integer_def exact_scalar_def xround_def)

lemma integral_activity:
  assumes sep: "separable m" and i: "i < num_rows m" and t: "ct_integrality ct = X t"
    and near: "no_near_integers t m" and flag: "fst (integral_row_flags (exact_scalar ft mt) ct m) ! i"
    and p: "\<And>j. j < num_cols m \<Longrightarrow> col_type m ! j = kInteger \<Longrightarrow> p j \<in> \<int>"
  shows "row_value m p i \<in> \<int>"
  unfolding row_value_entries[OF sep i]
proof (rule sum_list_Ints, clarify)
  fix j a assume ja: "(j, a) \<in> set (row_entries (matrix m) i)"
  have jn: "j < num_cols m" using row_facts[OF sep i ja] by simp
  obtain q where q: "a = X q" using row_facts[OF sep i ja] by (cases a) auto
  have "col_type m ! j = kInteger" "near_integer (exact_scalar ft mt) ct a"
    using flag ja unfolding integral_row_flags_mean(1)[OF sep i] by auto
  moreover have "(i, a) \<in> set (column (matrix m) j)" using ja sep by (simp add: set_row_entries)
  ultimately have "p j \<in> \<int>" "q \<in> \<int>"
    using near p[OF jn] near_integer_X[of ft mt ct q t] t jn unfolding no_near_integers_def q by fastforce+
  then show "xval a * p j \<in> \<int>" by (simp add: q)
qed

lemma round_row_keeps:
  "matrix (fst (round_row sc ct fl i r)) = matrix (fst r)" "num_cols (fst (round_row sc ct fl i r)) = num_cols (fst r)"
  "num_rows (fst (round_row sc ct fl i r)) = num_rows (fst r)" "col_type (fst (round_row sc ct fl i r)) = col_type (fst r)"
  "length (row_upper (fst (round_row sc ct fl i r))) = length (row_upper (fst r))"
  by (simp_all add: round_row_def Let_def num_cols_def num_rows_def split: prod.splits)

lemma rounding_dims:
  "num_cols (fst (fold (round_row sc ct fl) is r)) = num_cols (fst r)"
  "col_type (fst (fold (round_row sc ct fl) is r)) = col_type (fst r)"
  by (induction "is" arbitrary: r) (simp_all add: round_row_keeps)

lemma ceil_keeps: "(k :: rat) \<in> \<int> \<Longrightarrow> 0 \<le> t \<Longrightarrow> l \<le> k \<Longrightarrow> of_int \<lceil>l - t\<rceil> \<le> k"
  and floor_keeps: "(k :: rat) \<in> \<int> \<Longrightarrow> 0 \<le> t \<Longrightarrow> k \<le> u \<Longrightarrow> k \<le> of_int \<lfloor>u + t\<rfloor>"
  by (auto elim!: Ints_cases simp: ceiling_le_iff le_floor_iff)

text \<open>One row: its bounds admit the same integers as before, and the others are not touched.\<close>

lemma round_row_reads:
  assumes "fst fl ! i" "snd fl ! i" "i < length (row_lower m)" "i < length (row_upper m)"
  shows "row_lower (fst (round_row sc ct fl i (m, res))) ! i =
      (if sc_fin sc (row_lower m ! i) \<and> row_lower m ! i < sc_ceil sc (row_lower m ! i - ct_integrality ct)
       then sc_ceil sc (row_lower m ! i - ct_integrality ct) else row_lower m ! i)"
    and "row_upper (fst (round_row sc ct fl i (m, res))) ! i =
      (if sc_fin sc (row_upper m ! i) \<and> sc_floor sc (row_upper m ! i + ct_integrality ct) < row_upper m ! i
       then sc_floor sc (row_upper m ! i + ct_integrality ct) else row_upper m ! i)"
  using assms by (simp_all add: round_row_def Let_def)

lemma round_row_others:
  "k \<noteq> i \<Longrightarrow> row_lower (fst (round_row sc ct fl i (m, res))) ! k = row_lower m ! k"
  "k \<noteq> i \<Longrightarrow> row_upper (fst (round_row sc ct fl i (m, res))) ! k = row_upper m ! k"
  by (simp_all add: round_row_def Let_def)

lemma exact_scalar_fields:
  "sc_fin (exact_scalar ft mt) = xfinite" "sc_isfinite (exact_scalar ft mt) = xfinite" "sc_inf (exact_scalar ft mt) = xinf"
  "sc_floor (exact_scalar ft mt) = xfloor" "sc_ceil (exact_scalar ft mt) = xceil" "sc_round (exact_scalar ft mt) = xround"
  "sc_infinity (exact_scalar ft mt) = XPInf" "sc_lit (exact_scalar ft mt) = X"
  by (simp_all add: exact_scalar_def)

lemma rounded_admits:
  assumes "v \<in> \<int>" "0 \<le> t"
  shows "(if xfinite l \<and> l < xceil (l - X t) then xceil (l - X t) else l) \<le> X v \<longleftrightarrow> l \<le> X v"
    and "X v \<le> (if xfinite l \<and> xfloor (l + X t) < l then xfloor (l + X t) else l) \<longleftrightarrow> X v \<le> l"
proof -
  note arith = X_arith xround_simps xless_simps xleq_simps xfinite.simps
  show "(if xfinite l \<and> l < xceil (l - X t) then xceil (l - X t) else l) \<le> X v \<longleftrightarrow> l \<le> X v"
  proof (cases l)
    case (X q)
    have "of_int \<lceil>q - t\<rceil> \<le> v" if "q \<le> v" by (rule ceil_keeps[OF assms that])
    then show ?thesis unfolding X by (simp only: arith split: if_split) linarith
  qed simp_all
  show "X v \<le> (if xfinite l \<and> xfloor (l + X t) < l then xfloor (l + X t) else l) \<longleftrightarrow> X v \<le> l"
  proof (cases l)
    case (X q)
    have "v \<le> of_int \<lfloor>q + t\<rfloor>" if "v \<le> q" by (rule floor_keeps[OF assms that])
    then show ?thesis unfolding X by (simp only: arith split: if_split) linarith
  qed simp_all
qed

lemma round_row_bounds:
  assumes "i < num_rows m" "length (row_upper m) = num_rows m" "ct_integrality ct = X t" "0 \<le> t"
    "fst fl ! i \<and> snd fl ! i \<longrightarrow> v \<in> \<int>"
  shows "row_lower (fst (round_row (exact_scalar ft mt) ct fl i (m, res))) ! i \<le> X v \<and>
      X v \<le> row_upper (fst (round_row (exact_scalar ft mt) ct fl i (m, res))) ! i \<longleftrightarrow>
      row_lower m ! i \<le> X v \<and> X v \<le> row_upper m ! i"
proof (cases "fst fl ! i \<and> snd fl ! i")
  case True
  then have v: "v \<in> \<int>" using assms(5) by blast
  have len: "i < length (row_lower m)" "i < length (row_upper m)" using assms(1,2) by (simp_all add: num_rows_def)
  show ?thesis
    by (simp only: round_row_reads[OF conjunct1[OF True] conjunct2[OF True] len] exact_scalar_fields assms(3)
        rounded_admits[OF v assms(4)])
qed (simp add: round_row_def)

lemma rounding_keeps:
  assumes i: "ns \<le> num_rows m" and len: "length (row_upper m) = num_rows m" and t: "ct_integrality ct = X t" "0 \<le> t"
    and v: "\<And>i. i < num_rows m \<Longrightarrow> fst fl ! i \<Longrightarrow> v i \<in> \<int>"
    and r: "r = fold (round_row (exact_scalar ft mt) ct fl) [0..<ns] (m, res)"
  shows "matrix (fst r) = matrix m \<and> num_cols (fst r) = num_cols m \<and> num_rows (fst r) = num_rows m \<and> col_type (fst r) = col_type m \<and>
    length (row_upper (fst r)) = num_rows m \<and>
    (\<forall>k < num_rows m. row_lower (fst r) ! k \<le> X (v k) \<and> X (v k) \<le> row_upper (fst r) ! k \<longleftrightarrow>
       row_lower m ! k \<le> X (v k) \<and> X (v k) \<le> row_upper m ! k)"
  using i r
proof (induction ns arbitrary: r)
  case 0
  then show ?case using len by simp
next
  case (Suc ns)
  define s where "s = fold (round_row (exact_scalar ft mt) ct fl) [0..<ns] (m, res)"
  note IH = Suc.IH[OF Suc_leD[OF Suc.prems(1)] s_def]
  have r: "r = round_row (exact_scalar ft mt) ct fl ns s" by (simp add: Suc.prems(2) s_def)
  have n: "ns < num_rows (fst s)" "length (row_upper (fst s)) = num_rows (fst s)" using IH Suc.prems(1) by simp_all
  have "fst fl ! ns \<and> snd fl ! ns \<longrightarrow> v ns \<in> \<int>" using v[of ns] Suc.prems(1) by simp
  note b = round_row_bounds[OF n t this, where ft = ft and mt = mt and res = "snd s", unfolded prod.collapse]
    and o = round_row_others[where m = "fst s" and res = "snd s", unfolded prod.collapse]
  have "(row_lower (fst r) ! k \<le> X (v k) \<and> X (v k) \<le> row_upper (fst r) ! k) =
      (row_lower (fst s) ! k \<le> X (v k) \<and> X (v k) \<le> row_upper (fst s) ! k)" if "k < num_rows m" for k
    unfolding r using b o by (cases "k = ns") simp_all
  then show ?case using IH by (simp add: r round_row_keeps)
qed

text \<open>C19. Rounding the bounds of integral rows leaves exactly the same integer points: it removes none, and relaxes
  no row. Coefficients are integers or further from one than the tolerance.\<close>

theorem integral_rows_keep_points:
  assumes "separable m" "ct_integrality ct = X t" "0 \<le> t" "no_near_integers t m"
  shows "solves (fst (tighten_integral_rows (exact_scalar ft mt) ct m)) lo hi p \<longleftrightarrow> solves m lo hi p"
proof (cases "\<forall>j < num_cols m. col_type m ! j = kInteger \<longrightarrow> p j \<in> \<int>")
  case True
  let ?fl = "integral_row_flags (exact_scalar ft mt) ct m" and ?none = "\<lparr>rows_tightened = 0, bounds_moved = 0\<rparr>"
  define r where "r = fold (round_row (exact_scalar ft mt) ct ?fl) [0..<num_rows m] (m, ?none)"
  have v: "row_value m p i \<in> \<int>" if "i < num_rows m" "fst ?fl ! i" for i
    using integral_activity[OF assms(1) that(1) assms(2,4) that(2)] True by blast
  note k = rounding_keeps[where v = "row_value m p", OF order.refl _ assms(2,3) v r_def]
  have "solves (fst r) lo hi p \<longleftrightarrow> solves m lo hi p"
    using k assms(1) by (simp add: solves_def rows_hold_def row_value_def separable_def)
  then show ?thesis by (simp add: tighten_integral_rows_def Let_def r_def)
next
  case False
  have "num_cols (fst (tighten_integral_rows (exact_scalar ft mt) ct m)) = num_cols m \<and>
      col_type (fst (tighten_integral_rows (exact_scalar ft mt) ct m)) = col_type m"
    by (simp add: tighten_integral_rows_def Let_def rounding_dims)
  then show ?thesis using False by (auto simp: solves_def)
qed

section \<open>A small model\<close>

text \<open>\<open>2 x \<le> 9/2\<close> over one integer column without an upper bound.\<close>

definition demo_cut_model :: "xnum model" where
  "demo_cut_model = empty_model\<lparr>col_cost := [X 1], col_lower := [X 0], col_upper := [XPInf], col_type := [kInteger],
     row_lower := [XMInf], row_upper := [X (9 / 2)],
     matrix := empty_sparse\<lparr>nrows := 1, ncols := 1, frozen := True, column_starts := [0, 1], row_indices := [0], vals := [X 2]\<rparr>\<rparr>"

definition exact_cut_tolerances :: "rat \<Rightarrow> xnum cut_tolerances" where
  "exact_cut_tolerances t = \<lparr>ct_integrality = X t, ct_zero = X 0, ct_density = X 1, ct_ratio = X (10 ^ 6), ct_noise = X 0,
     ct_violation = X (1 / 10 ^ 5)\<rparr>"

lemma exact_ct_fields [simp]:
  "ct_integrality (exact_cut_tolerances t) = X t" "ct_zero (exact_cut_tolerances t) = X 0" "ct_noise (exact_cut_tolerances t) = X 0"
  by (simp_all add: exact_cut_tolerances_def)

lemma demo_cut_fields:
  "num_cols demo_cut_model = 1" "num_rows demo_cut_model = 1" "col_type demo_cut_model = [kInteger]" "row_lower demo_cut_model = [XMInf]"
  "row_upper demo_cut_model = [X (9 / 2)]" "column (matrix demo_cut_model) 0 = [(0, X 2)]" "has_integrality demo_cut_model"
  by (simp_all add: demo_cut_model_def num_cols_def num_rows_def empty_model_def empty_sparse_def column_def segment_def has_integrality_def)

lemma demo_cut_separable: "separable demo_cut_model"
  using demo_cut_fields
  by (simp add: separable_def csc_ok_def demo_cut_model_def empty_model_def empty_sparse_def stores_def column_def segment_def
      num_cols_def num_rows_def)

lemma demo_cut_point: "solves demo_cut_model [X 0] [XPInf] (\<lambda>_. 2)"
proof -
  have "row_entries (matrix demo_cut_model) 0 = [(0, X 2)]"
    using demo_cut_fields(1,6) demo_cut_separable by (simp add: row_entries_def walk_columns_def separable_def)
  then have "row_value demo_cut_model (\<lambda>_. 2) 0 = 4"
    using row_value_terms[OF demo_cut_separable, of 0 "\<lambda>_. 2"] by (simp add: demo_cut_fields)
  then show ?thesis by (simp add: solves_def rows_hold_def demo_cut_fields)
qed

theorem integral_rows_keep_points_witness:
  "solves (fst (tighten_integral_rows (exact_scalar 0 0) (exact_cut_tolerances (1 / 10)) demo_cut_model)) [X 0] [XPInf] (\<lambda>_. 2) \<and>
   row_upper (fst (tighten_integral_rows (exact_scalar 0 0) (exact_cut_tolerances (1 / 10)) demo_cut_model)) = [X 4]"
proof
  have r: "xround (X 2) = X 2" using floor_unique[of 2 "2 + 1 / 2 :: rat"] by (simp add: xround_def)
  have "no_near_integers (1 / 10) demo_cut_model" by (simp add: no_near_integers_def demo_cut_fields)
  from integral_rows_keep_points[OF demo_cut_separable _ _ this, of "exact_cut_tolerances (1 / 10)" 0 0 "[X 0]" "[XPInf]" "\<lambda>_. 2"]
  show "solves (fst (tighten_integral_rows (exact_scalar 0 0) (exact_cut_tolerances (1 / 10)) demo_cut_model)) [X 0] [XPInf] (\<lambda>_. 2)"
    using demo_cut_point by (simp add: exact_cut_tolerances_def)
  have "\<lfloor>9 / 2 + 1 / 10 :: rat\<rfloor> = 4" by (rule floor_unique) simp_all
  then show "row_upper (fst (tighten_integral_rows (exact_scalar 0 0) (exact_cut_tolerances (1 / 10)) demo_cut_model)) = [X 4]"
    by (simp add: tighten_integral_rows_def demo_cut_fields integral_row_flags_def round_row_def exact_cut_tolerances_def
        exact_scalar_fields near_integer_def r)
qed

lemma demo_filter:
  "map fc_reason (filter_and_deduplicate_cuts (exact_scalar 0 0) (exact_cut_tolerances 0) demo_cut_model [X (9 / 4)]
     [\<lparr>cut_coeff = [X 2], cut_rhs = X 4\<rparr>, \<lparr>cut_coeff = [X 1], cut_rhs = X 2\<rparr>]) = [kAccepted, kDuplicate]"
  by (simp add: filter_and_deduplicate_cuts_def filter_cut_def demo_cut_fields exact_scalar_fields support_stats_def exact_cut_tolerances_def
      dot_def X_consts multiple_of_def close_to_def close_rhs_def cmax_def)

theorem accepted_cuts_follow_policy_witness:
  "\<not> dot [X 2] [X (9 / 4)] 1 - X 4 \<le> X (1 / 10 ^ 5)"
proof -
  let ?cs = "[\<lparr>cut_coeff = [X 2], cut_rhs = X 4\<rparr>, \<lparr>cut_coeff = [X 1], cut_rhs = X 2\<rparr>]"
  let ?r = "filter_and_deduplicate_cuts (exact_scalar 0 0) (exact_cut_tolerances 0) demo_cut_model [X (9 / 4)] ?cs"
  have "length ?r = 2" using arg_cong[OF demo_filter, of length] by simp
  then have "fc_reason (?r ! 0) = kAccepted" using arg_cong[OF demo_filter, of hd] by (cases ?r) auto
  from accepted_cuts_follow_policy[OF _ refl this] show ?thesis
    by (simp add: demo_cut_fields exact_cut_tolerances_def)
qed

end
