(* ===== verification/MirCuts.thy ===== *)
theory MirCuts
  imports Cuts
begin

text \<open>
  Mixed-integer rounding cuts (\<open>src/mip/mir_cuts.cpp\<close>): the inequality on one base row, the substitution of
  the bounds, the choice of the divisor, and the aggregation of rows that eliminates continuous columns.
  Every cut returned holds at every integer point of the rows and the bounds it was derived under, whatever
  the LP point, the divisor and the rows chosen.
\<close>

section \<open>The separator\<close>

definition fractional_part :: "'a::minus scalar \<Rightarrow> 'a \<Rightarrow> 'a" where
  "fractional_part sc v = v - sc_floor sc v"

text \<open>The rows of the model as lists of columns and coefficients.\<close>

definition mir_rows_of :: "'a model \<Rightarrow> (nat \<times> 'a) list list" where
  "mir_rows_of m = fold (\<lambda>j. fold (\<lambda>(r, a). modify_at r (\<lambda>es. es @ [(j, a)])) (column (matrix m) j))
     [0..<num_cols m] (replicate (num_rows m) [])"

record 'a base_row =
  base_entries :: "(nat \<times> 'a) list"
  base_rhs :: 'a

definition mir_inequality ::
    "'a::{zero,one,plus,minus,divide,ord} scalar \<Rightarrow> ('a \<times> bool) list \<Rightarrow> 'a \<Rightarrow> 'a \<Rightarrow> ('a list \<times> 'a) option" where
  "mir_inequality sc terms rhs divisor =
     (if \<not> 0 < divisor \<or> \<not> sc_isfinite sc divisor then None
      else
        let b = rhs div divisor; f0 = fractional_part sc b in
        if f0 < sc_lit sc (1 / 100) \<or> 1 - sc_lit sc (1 / 100) < f0 then None
        else Some (map (\<lambda>(c, integral).
            let a = c div divisor in
            if integral then sc_floor sc a + cmax 0 (fractional_part sc a - f0) div (1 - f0)
            else if a < 0 then a div (1 - f0) else 0) terms, sc_floor sc b))"

text \<open>A column of the base row after the substitution of one of its bounds, \<open>y = u - x\<close> or \<open>y = x - l\<close>.\<close>

record 'a substituted =
  sb_column :: nat
  sb_coef :: 'a
  sb_integer :: bool
  sb_complemented :: bool
  sb_point :: 'a

fun substitute_bounds ::
    "'a::{zero,minus,uminus,times,abs,ord} scalar \<Rightarrow> 'a cut_tolerances \<Rightarrow> 'a model \<Rightarrow> 'a list \<Rightarrow> 'a list \<Rightarrow> 'a list \<Rightarrow>
     (nat \<times> 'a) list \<Rightarrow> 'a \<times> 'a substituted list \<times> bool \<Rightarrow> ('a \<times> 'a substituted list \<times> bool) option" where
  "substitute_bounds sc ct m x lo hi [] s = Some s"
| "substitute_bounds sc ct m x lo hi ((j, coef) # es) (b, subs, fractional) =
     (if \<bar>coef\<bar> \<le> ct_zero ct then substitute_bounds sc ct m x lo hi es (b, subs, fractional)
      else
        let integral = (col_type m ! j = kInteger); has_lo = sc_fin sc (lo ! j); has_hi = sc_fin sc (hi ! j);
            upper = (has_hi \<and> (\<not> has_lo \<or> hi ! j - x ! j < x ! j - lo ! j))
        in if \<not> has_lo \<and> \<not> has_hi then None
           else if integral \<and> \<not> near_integer sc ct (if upper then hi ! j else lo ! j) then None
           else substitute_bounds sc ct m x lo hi es
             (b - coef * (if upper then hi ! j else lo ! j),
              subs @ [\<lparr>sb_column = j, sb_coef = (if upper then - coef else coef), sb_integer = integral, sb_complemented = upper,
                sb_point = (if upper then hi ! j - x ! j else x ! j - lo ! j)\<rparr>],
              fractional \<or> integral \<and> \<not> near_integer sc ct (x ! j)))"

definition mir_divisors ::
    "'a::{one,minus,abs,ord} scalar \<Rightarrow> 'a cut_tolerances \<Rightarrow> 'a substituted list \<Rightarrow> 'a list" where
  "mir_divisors sc ct subs = 1 # map (\<lambda>s. \<bar>sb_coef s\<bar>)
     (filter (\<lambda>s. sb_integer s \<and> \<not> near_integer sc ct (sb_point s) \<and> ct_zero ct < \<bar>sb_coef s\<bar>) subs)"

text \<open>Back to the model's columns, the constants moved to the right-hand side.\<close>

definition unsubstitute ::
    "'a::{plus,minus,times,abs,ord} cut_tolerances \<Rightarrow> 'a list \<Rightarrow> 'a list \<Rightarrow> 'a substituted \<times> 'a \<Rightarrow> 'a cut \<Rightarrow> 'a cut" where
  "unsubstitute ct lo hi = (\<lambda>(s, c) cut.
     if \<bar>c\<bar> \<le> ct_zero ct then cut
     else if sb_complemented s then
       \<lparr>cut_coeff = modify_at (sb_column s) (\<lambda>a. a - c) (cut_coeff cut), cut_rhs = cut_rhs cut - c * hi ! sb_column s\<rparr>
     else \<lparr>cut_coeff = modify_at (sb_column s) (\<lambda>a. a + c) (cut_coeff cut), cut_rhs = cut_rhs cut + c * lo ! sb_column s\<rparr>)"

definition mir_magnitudes :: "'a::{zero,abs,ord} scalar \<Rightarrow> 'a cut_tolerances \<Rightarrow> 'a list \<Rightarrow> 'a \<times> 'a" where
  "mir_magnitudes sc ct rounded = fold (\<lambda>r (largest, smallest).
     if ct_zero ct < \<bar>r\<bar> then (cmax largest \<bar>r\<bar>, cmin smallest \<bar>r\<bar>) else (largest, smallest)) rounded (0, sc_infinity sc)"

definition try_divisor ::
    "'a::{zero,one,plus,minus,times,divide,abs,ord} scalar \<Rightarrow> 'a cut_tolerances \<Rightarrow> nat \<Rightarrow> 'a list \<Rightarrow> 'a list \<Rightarrow>
     'a substituted list \<Rightarrow> 'a \<Rightarrow> 'a \<Rightarrow> 'a \<times> 'a cut option \<Rightarrow> 'a \<times> 'a cut option" where
  "try_divisor sc ct n lo hi subs b divisor = (\<lambda>(best_violation, best).
     case mir_inequality sc (map (\<lambda>s. (sb_coef s, sb_integer s)) subs) b divisor of
       None \<Rightarrow> (best_violation, best)
     | Some (rounded, rhs) \<Rightarrow>
       let lhs = fold (\<lambda>(r, s) l. l + r * sb_point s) (zip rounded subs) 0;
           (largest, smallest) = mir_magnitudes sc ct rounded;
           violation = (lhs - rhs) div cmax 1 \<bar>rhs\<bar>
       in if feq largest 0 \<or> sc_lit sc (10 ^ 6) < largest div smallest \<or> violation \<le> best_violation then (best_violation, best)
          else (violation, Some (fold (unsubstitute ct lo hi) (zip subs rounded) \<lparr>cut_coeff = replicate n 0, cut_rhs = rhs\<rparr>)))"

definition separate_from_base ::
    "'a::{zero,one,plus,minus,uminus,times,divide,abs,ord} scalar \<Rightarrow> 'a cut_tolerances \<Rightarrow> 'a model \<Rightarrow> 'a list \<Rightarrow>
     'a list \<Rightarrow> 'a list \<Rightarrow> 'a base_row \<Rightarrow> 'a cut option" where
  "separate_from_base sc ct m x lo hi base =
     (case substitute_bounds sc ct m x lo hi (base_entries base) (base_rhs base, [], False) of
        None \<Rightarrow> None
      | Some (b, subs, fractional) \<Rightarrow>
        if \<not> fractional \<or> \<not> sc_isfinite sc b then None
        else snd (fold (try_divisor sc ct (num_cols m) lo hi subs b) (mir_divisors sc ct subs) (sc_lit sc (1 / 10 ^ 4), None)))"

definition column_to_eliminate ::
    "'a::{minus,abs,ord} scalar \<Rightarrow> 'a cut_tolerances \<Rightarrow> 'a model \<Rightarrow> 'a list \<Rightarrow> 'a list \<Rightarrow> 'a list \<Rightarrow> 'a base_row \<Rightarrow> nat option" where
  "column_to_eliminate sc ct m x lo hi base =
     snd (fold (\<lambda>(j, a) (deepest, chosen).
         if \<bar>a\<bar> \<le> ct_zero ct \<or> col_type m ! j = kInteger then (deepest, chosen)
         else
           let s1 = (if sc_fin sc (lo ! j) then cmin (sc_infinity sc) (x ! j - lo ! j) else sc_infinity sc);
               slack = (if sc_fin sc (hi ! j) then cmin s1 (hi ! j - x ! j) else s1)
           in if sc_inf sc slack then (deepest, chosen)
              else if deepest < slack then (slack, Some j) else (deepest, chosen))
       (base_entries base) (sc_lit sc (1 / 10 ^ 6), None))"

text \<open>The coefficient of a column in a sparse row: the loop keeps the last entry it meets.\<close>

definition last_coef :: "nat \<Rightarrow> (nat \<times> 'a) list \<Rightarrow> 'a::zero" where
  "last_coef j es = fold (\<lambda>(k, a) c. if k = j then a else c) es 0"

definition merge_entry :: "(nat \<rightharpoonup> nat) \<Rightarrow> 'a::{plus,times} \<Rightarrow> nat \<times> 'a \<Rightarrow> (nat \<times> 'a) list \<Rightarrow> (nat \<times> 'a) list" where
  "merge_entry position lam = (\<lambda>(j, a) es.
     case position j of None \<Rightarrow> es @ [(j, lam * a)] | Some k \<Rightarrow> modify_at k (\<lambda>(i, v). (i, v + lam * a)) es)"

definition positions :: "(nat \<times> 'a) list \<Rightarrow> nat \<rightharpoonup> nat" where
  "positions es = fold (\<lambda>k f. f(fst (es ! k) \<mapsto> k)) [0..<length es] Map.empty"

definition aggregate_row ::
    "'a::{zero,plus,uminus,times,divide,abs,ord} scalar \<Rightarrow> 'a cut_tolerances \<Rightarrow> 'a model \<Rightarrow> (nat \<times> 'a) list list \<Rightarrow>
     nat \<Rightarrow> nat \<Rightarrow> 'a base_row \<Rightarrow> 'a base_row option" where
  "aggregate_row sc ct m rows i eliminate base =
     (let in_row = last_coef eliminate (rows ! i) in
      if \<bar>in_row\<bar> \<le> ct_zero ct then None
      else
        let lam = (- last_coef eliminate (base_entries base)) div in_row;
            bound = (if 0 < lam then row_upper m ! i else row_lower m ! i)
        in if \<not> sc_fin sc bound then None
           else Some \<lparr>base_entries = map (\<lambda>(j, a). if j = eliminate then (j, 0) else (j, a))
               (fold (merge_entry (positions (base_entries base)) lam) (rows ! i) (base_entries base)),
             base_rhs = base_rhs base + lam * bound\<rparr>)"

text \<open>The first unused row that contains the column and can be added.\<close>

fun extend_base ::
    "'a::{zero,plus,uminus,times,divide,abs,ord} scalar \<Rightarrow> 'a cut_tolerances \<Rightarrow> 'a model \<Rightarrow> (nat \<times> 'a) list list \<Rightarrow>
     nat \<Rightarrow> nat list \<Rightarrow> bool list \<Rightarrow> 'a base_row \<Rightarrow> ('a base_row \<times> bool list) option" where
  "extend_base sc ct m rows e [] used base = None"
| "extend_base sc ct m rows e (i # is) used base =
     (if used ! i then extend_base sc ct m rows e is used base
      else case aggregate_row sc ct m rows i e base of
        None \<Rightarrow> extend_base sc ct m rows e is used base
      | Some longer \<Rightarrow> Some (longer, used[i := True]))"

record 'a mir_best =
  mb_cut :: "'a cut option"
  mb_violation :: 'a
  mb_depth :: nat

definition offer_mir :: "'a::{zero,one,plus,minus,times,divide,abs,ord} list \<Rightarrow> nat \<Rightarrow> nat \<Rightarrow> 'a cut option \<Rightarrow> 'a mir_best \<Rightarrow> 'a mir_best" where
  "offer_mir x n depth found best = (case found of None \<Rightarrow> best
     | Some c \<Rightarrow>
       let violation = (dot (cut_coeff c) x n - cut_rhs c) div cmax 1 \<bar>cut_rhs c\<bar> in
       if mb_cut best = None \<or> mb_violation best < violation
       then \<lparr>mb_cut = Some c, mb_violation = violation, mb_depth = depth\<rparr> else best)"

fun aggregate_search ::
    "'a::{zero,one,plus,minus,uminus,times,divide,abs,ord} scalar \<Rightarrow> 'a cut_tolerances \<Rightarrow> 'a model \<Rightarrow> (nat \<times> 'a) list list \<Rightarrow>
     'a list \<Rightarrow> 'a list \<Rightarrow> 'a list \<Rightarrow> nat \<Rightarrow> nat \<Rightarrow> 'a base_row \<Rightarrow> bool list \<Rightarrow> 'a mir_best \<Rightarrow> 'a mir_best" where
  "aggregate_search sc ct m rows x lo hi left depth base used best =
     (let found = offer_mir x (num_cols m) depth (separate_from_base sc ct m x lo hi base) best in
      case left of 0 \<Rightarrow> found
      | Suc left' \<Rightarrow> (case column_to_eliminate sc ct m x lo hi base of None \<Rightarrow> found
        | Some e \<Rightarrow> (case extend_base sc ct m rows e (map fst (column (matrix m) e)) used base of None \<Rightarrow> found
          | Some (base', used') \<Rightarrow> aggregate_search sc ct m rows x lo hi left' (Suc depth) base' used' found)))"

definition kMaxAggregation :: nat where
  "kMaxAggregation = 6"

record mir_stats =
  ms_cuts :: nat
  ms_aggregated :: nat
  ms_deepest :: nat

definition mir_side ::
    "'a::{zero,one,plus,minus,uminus,times,divide,abs,ord} scalar \<Rightarrow> 'a cut_tolerances \<Rightarrow> 'a model \<Rightarrow> (nat \<times> 'a) list list \<Rightarrow>
     'a list \<Rightarrow> 'a list \<Rightarrow> 'a list \<Rightarrow> nat \<Rightarrow> bool \<Rightarrow> 'a cut list \<times> mir_stats \<Rightarrow> 'a cut list \<times> mir_stats" where
  "mir_side sc ct m rows x lo hi i upper = (\<lambda>(cuts, stats).
     let bound = (if upper then row_upper m ! i else row_lower m ! i); sign = (if upper then 1 else - 1) in
     if \<not> sc_fin sc bound then (cuts, stats)
     else
       let base = \<lparr>base_entries = map (\<lambda>(j, a). (j, sign * a)) (rows ! i), base_rhs = sign * bound\<rparr>;
           best = aggregate_search sc ct m rows x lo hi kMaxAggregation 0 base ((replicate (num_rows m) False)[i := True])
             \<lparr>mb_cut = None, mb_violation = 0, mb_depth = 0\<rparr>
       in case mb_cut best of None \<Rightarrow> (cuts, stats)
          | Some c \<Rightarrow> (cuts @ [c], \<lparr>ms_cuts = ms_cuts stats + 1, ms_aggregated = ms_aggregated stats + of_bool (0 < mb_depth best),
              ms_deepest = max (ms_deepest stats) (mb_depth best)\<rparr>))"

definition fractional_rows :: "'a::{minus,abs,ord} scalar \<Rightarrow> 'a cut_tolerances \<Rightarrow> 'a model \<Rightarrow> 'a list \<Rightarrow> bool list" where
  "fractional_rows sc ct m x = fold (\<lambda>j marks.
     if col_type m ! j \<noteq> kInteger \<or> near_integer sc ct (x ! j) then marks
     else fold (\<lambda>(r, a) marks. marks[r := True]) (column (matrix m) j) marks) [0..<num_cols m] (replicate (num_rows m) False)"

definition generate_mir_cuts ::
    "'a::{zero,one,plus,minus,uminus,times,divide,abs,ord} scalar \<Rightarrow> 'a cut_tolerances \<Rightarrow> 'a model \<Rightarrow> 'a list \<Rightarrow>
     'a list \<Rightarrow> 'a list \<Rightarrow> mir_stats \<Rightarrow> 'a cut list \<times> mir_stats" where
  "generate_mir_cuts sc ct m x lo hi stats =
     (let n = num_cols m in
      if length x \<noteq> n \<or> n = 0 \<or> length lo \<noteq> n \<or> length hi \<noteq> n then ([], stats)
      else
        let rows = mir_rows_of m; marks = fractional_rows sc ct m x in
        fold (\<lambda>i r. if rows ! i = [] \<or> \<not> marks ! i then r
            else mir_side sc ct m rows x lo hi i False (mir_side sc ct m rows x lo hi i True r))
          [0..<num_rows m] ([], stats))"

section \<open>The inequality\<close>

text \<open>The rounding of a coefficient over the rationals, and the terms it is the sum of.\<close>

definition mir_coef :: "rat \<Rightarrow> rat \<Rightarrow> bool \<Rightarrow> rat" where
  "mir_coef f0 a integral = (if integral then of_int \<lfloor>a\<rfloor> + max 0 (frac a - f0) / (1 - f0) else if a < 0 then a / (1 - f0) else 0)"

text \<open>The integral part of a rounded term, and what it exceeds the term by.\<close>

definition mir_whole :: "rat \<Rightarrow> rat \<Rightarrow> bool \<Rightarrow> rat" where
  "mir_whole f0 a integral = (if integral then (if f0 < frac a then of_int \<lfloor>a\<rfloor> + 1 else of_int \<lfloor>a\<rfloor>) else 0)"

definition mir_gap :: "rat \<Rightarrow> rat \<Rightarrow> bool \<Rightarrow> rat" where
  "mir_gap f0 a integral = (if integral then (if f0 < frac a then 1 - frac a else 0) else if a < 0 then - a else 0)"

lemma mir_split:
  assumes "f0 < 1"
  shows "mir_coef f0 a integral = mir_whole f0 a integral - mir_gap f0 a integral / (1 - f0)"
    and "mir_whole f0 a integral - mir_gap f0 a integral \<le> a" "0 \<le> mir_gap f0 a integral" "integral \<or> mir_whole f0 a integral = 0"
    and "mir_whole f0 a integral \<in> \<int>"
  using assms frac_lt_1[of a] frac_ge_0[of a]
  by (auto simp: mir_coef_def mir_whole_def mir_gap_def frac_def field_simps)

text \<open>Rounding down an integer plus a nonnegative amount.\<close>

lemma mir_basic:
  fixes w t b :: rat
  assumes "w \<in> \<int>" "0 \<le> t" "w - t \<le> b" "f0 = frac b"
  shows "w - t / (1 - f0) \<le> of_int \<lfloor>b\<rfloor>"
proof -
  obtain z where z: "w = of_int z" using assms(1) by (auto elim: Ints_cases)
  have f: "0 \<le> f0" "f0 < 1" "b = of_int \<lfloor>b\<rfloor> + f0" using assms(4) frac_lt_1[of b] by (simp_all add: frac_def)
  show ?thesis
  proof (cases "t < 1 - f0")
    case True
    then have "w < of_int (\<lfloor>b\<rfloor> + 1)" using assms(3) f(3) by simp
    then have "z \<le> \<lfloor>b\<rfloor>" unfolding z of_int_less_iff by simp
    then have "w \<le> of_int \<lfloor>b\<rfloor>" by (simp add: z)
    moreover have "0 \<le> t / (1 - f0)" using assms(2) f(2) by simp
    ultimately show ?thesis by linarith
  next
    case False
    then have "1 \<le> t / (1 - f0)" using f(2) by (simp add: field_simps)
    then have "f0 \<le> f0 * (t / (1 - f0))" using f(1) mult_left_mono[of 1 "t / (1 - f0)" f0] by simp
    also have "f0 * (t / (1 - f0)) = t / (1 - f0) - t" using f(2) by (simp add: field_simps)
    finally show ?thesis using assms(3) f(3) by linarith
  qed
qed

lemma mir_valid:
  fixes ts :: "(rat \<times> bool \<times> rat) list"
  assumes y: "\<forall>(a, integral, y) \<in> set ts. 0 \<le> y \<and> (integral \<longrightarrow> y \<in> \<int>)" and base: "(\<Sum>(a, integral, y)\<leftarrow>ts. a * y) \<le> b"
  shows "(\<Sum>(a, integral, y)\<leftarrow>ts. mir_coef (frac b) a integral * y) \<le> of_int \<lfloor>b\<rfloor>"
proof -
  let ?f = "frac b"
  have f: "?f < 1" by (simp add: frac_lt_1)
  define w where "w = (\<Sum>(a, integral, y)\<leftarrow>ts. mir_whole ?f a integral * y)"
  define t where "t = (\<Sum>(a, integral, y)\<leftarrow>ts. mir_gap ?f a integral * y)"
  have "w \<in> \<int> \<and> 0 \<le> t \<and> w - t \<le> (\<Sum>(a, integral, y)\<leftarrow>ts. a * y) \<and>
      (\<Sum>(a, integral, y)\<leftarrow>ts. mir_coef ?f a integral * y) = w - t / (1 - ?f)"
    using y unfolding w_def t_def
  proof (induction ts)
    case (Cons e ts)
    obtain a integral y where e: "e = (a, integral, y)" by (cases e)
    note s = mir_split[OF f, where a = a and integral = integral]
    have y: "0 \<le> y" "integral \<longrightarrow> y \<in> \<int>" using Cons.prems e by auto
    have whole: "mir_whole ?f a integral * y \<in> \<int>" using s(4,5) y(2) by auto
    have gap: "0 \<le> mir_gap ?f a integral * y" using s(3) y(1) by simp
    have le: "mir_whole ?f a integral * y - mir_gap ?f a integral * y \<le> a * y"
      using mult_right_mono[OF s(2) y(1)] by (simp add: algebra_simps)
    have eq: "mir_coef ?f a integral * y = mir_whole ?f a integral * y - mir_gap ?f a integral * y / (1 - ?f)"
      by (simp add: s(1) algebra_simps)
    have IH: "(\<Sum>(a, integral, y)\<leftarrow>ts. mir_whole ?f a integral * y) \<in> \<int> \<and> 0 \<le> (\<Sum>(a, integral, y)\<leftarrow>ts. mir_gap ?f a integral * y) \<and>
        (\<Sum>(a, integral, y)\<leftarrow>ts. mir_whole ?f a integral * y) - (\<Sum>(a, integral, y)\<leftarrow>ts. mir_gap ?f a integral * y)
          \<le> (\<Sum>(a, integral, y)\<leftarrow>ts. a * y) \<and>
        (\<Sum>(a, integral, y)\<leftarrow>ts. mir_coef ?f a integral * y) =
          (\<Sum>(a, integral, y)\<leftarrow>ts. mir_whole ?f a integral * y) - (\<Sum>(a, integral, y)\<leftarrow>ts. mir_gap ?f a integral * y) / (1 - ?f)"
      using Cons by simp
    show ?case using IH whole gap le eq by (simp add: e add_divide_distrib)
  qed simp
  then show ?thesis using mir_basic[where w = w and t = t and b = b and ?f0.0 = ?f] base by simp
qed

section \<open>The rows\<close>

lemma scatter_row:
  "i < length rows \<Longrightarrow> fold (\<lambda>(r, a). modify_at r (\<lambda>es. es @ [(j, a)])) es rows ! i =
     rows ! i @ map (\<lambda>e. (j, snd e)) (filter (\<lambda>e. fst e = i) es)"
  "length (fold (\<lambda>(r, a). modify_at r (\<lambda>es. es @ [(j, a)])) es rows) = length rows"
proof (induction es arbitrary: rows)
  case (Cons e es)
  {
    case 1
    have "modify_at (fst e) (\<lambda>es. es @ [(j, snd e)]) rows ! i = (if fst e = i then rows ! i @ [(j, snd e)] else rows ! i)"
      using 1 by (simp add: modify_at_def)
    then show ?case using Cons.IH(1)[of "modify_at (fst e) (\<lambda>es. es @ [(j, snd e)]) rows"] 1 by (simp add: split_beta)
  next
    case 2
    show ?case using Cons.IH(2) by (simp add: split_beta)
  }
qed simp_all

lemma mir_rows:
  assumes sep: "separable m" and i: "i < num_rows m"
  shows "mir_rows_of m ! i = row_entries (matrix m) i"
proof -
  define step where "step = (\<lambda>j. fold (\<lambda>(r, a). modify_at r (\<lambda>es. es @ [(j, a)])) (column (matrix m) j))"
  have step: "length (step j rows) = length rows" "i < length rows \<Longrightarrow> step j rows ! i =
      rows ! i @ map (\<lambda>e. (j, snd e)) (filter (\<lambda>e. fst e = i) (column (matrix m) j))" for j rows
    using scatter_row by (simp_all add: step_def)
  have "fold step [0..<n] (replicate (num_rows m) []) ! i =
      map snd (filter (\<lambda>p. fst p = i) (concat (map (\<lambda>j. map (\<lambda>(r, v). (r, j, v)) (column (matrix m) j)) [0..<n]))) \<and>
    length (fold step [0..<n] (replicate (num_rows m) [])) = num_rows m" for n
    using i by (induction n) (simp_all add: step filter_map o_def split_beta)
  then show ?thesis using sep by (simp add: mir_rows_of_def step_def row_entries_def walk_columns_def separable_def)
qed

section \<open>Base rows\<close>

definition base_ok :: "xnum model \<Rightarrow> xnum list \<Rightarrow> xnum list \<Rightarrow> xnum base_row \<Rightarrow> bool" where
  "base_ok m lo hi base \<longleftrightarrow> distinct (map fst (base_entries base)) \<and>
     (\<forall>e \<in> set (base_entries base). fst e < num_cols m \<and> xfinite (snd e)) \<and> xfinite (base_rhs base) \<and>
     (\<forall>p. solves m lo hi p \<longrightarrow> terms_at (base_entries base) p \<le> xval (base_rhs base))"

lemma terms_scale: "(\<forall>e \<in> set es. xfinite (snd e)) \<Longrightarrow> terms_at (map (\<lambda>(j, a). (j, X c * a)) es) p = c * terms_at es p"
  by (induction es) (auto simp: algebra_simps elim!: xfinite.elims)

lemma row_side_ok:
  assumes sep: "separable m" and i: "i < num_rows m"
    and fin: "xfinite (if upper then row_upper m ! i else row_lower m ! i)"
  shows "base_ok m lo hi \<lparr>base_entries = map (\<lambda>(j, a). (j, (if upper then 1 else - 1) * a)) (row_entries (matrix m) i),
    base_rhs = (if upper then 1 else - 1) * (if upper then row_upper m ! i else row_lower m ! i)\<rparr>"
proof -
  let ?c = "if upper then 1 else - 1 :: rat" and ?es = "row_entries (matrix m) i"
  obtain b where b: "(if upper then row_upper m ! i else row_lower m ! i) = X b" using fin xfinite.elims(2) by metis
  have c: "(if upper then 1 else - 1 :: xnum) = X ?c" by (simp add: X_consts)
  have fe: "\<forall>e \<in> set ?es. fst e < num_cols m \<and> xfinite (snd e)" using row_facts[OF sep i] by auto
  have le: "?c * terms_at ?es p \<le> ?c * b" if "solves m lo hi p" for p
    using solves_row[OF that i] b by (simp add: row_value_terms[OF sep i] split: if_splits)
  have "xfinite (X ?c * a)" if "xfinite a" for a using that by (auto elim: xfinite.elims)
  then show ?thesis
    unfolding base_ok_def c b using fe le distinct_row_entries[OF sep, of i]
    by (simp add: terms_scale o_def split_beta comp_def)
qed

subsection \<open>Adding a row\<close>

lemma positions_distinct:
  assumes "distinct (map fst es)"
  shows "positions es j = Some k \<longleftrightarrow> k < length es \<and> fst (es ! k) = j"
proof -
  define g where "g = (\<lambda>n. fold (\<lambda>k f. f(fst (es ! k) \<mapsto> k)) [0..<n] (Map.empty :: nat \<rightharpoonup> nat))"
  have "g n j = Some k \<longleftrightarrow> k < n \<and> fst (es ! k) = j" if "n \<le> length es" for n
    using that
  proof (induction n)
    case (Suc n)
    have "fst (es ! n) \<noteq> fst (es ! l)" if "l < n" for l
      using nth_eq_iff_index_eq[OF assms, of n l] that Suc.prems by simp
    moreover have "fst (es ! k) \<noteq> fst (es ! n)" if "k < n"
      using nth_eq_iff_index_eq[OF assms, of n k] that Suc.prems by simp
    moreover have "g (Suc n) = (g n)(fst (es ! n) \<mapsto> n)" by (simp add: g_def)
    moreover have "g n j = Some k \<longleftrightarrow> k < n \<and> fst (es ! k) = j" using Suc by simp
    ultimately show ?case by (cases "j = fst (es ! n)") (auto simp: less_Suc_eq)
  qed (simp add: g_def)
  from this[of "length es"] show ?thesis by (simp add: positions_def g_def)
qed

lemma terms_modify:
  assumes "k < length es" "es ! k = (j, X v)"
  shows "terms_at (modify_at k (\<lambda>(i, v). (i, v + X d)) es) p = terms_at es p + d * p j"
  using assms
proof (induction es arbitrary: k)
  case (Cons e es)
  then show ?case by (cases k) (auto simp: modify_at_def algebra_simps)
qed simp

lemma merge_entries:
  assumes dis: "distinct (map fst es0)" "distinct (map fst row)"
    and fin: "\<forall>e \<in> set es0. fst e < n \<and> xfinite (snd e)" "\<forall>e \<in> set row. fst e < n \<and> xfinite (snd e)"
  shows "let es = fold (merge_entry (positions es0) (X l)) row es0 in
    distinct (map fst es) \<and> fst ` set es = fst ` set es0 \<union> fst ` set row \<and> (\<forall>e \<in> set es. fst e < n \<and> xfinite (snd e)) \<and>
    (\<forall>k < length es0. fst (es ! k) = fst (es0 ! k)) \<and> length es0 \<le> length es \<and> terms_at es p = terms_at es0 p + l * terms_at row p"
  using dis(2) fin(2)
proof (induction row rule: rev_induct)
  case Nil
  then show ?case using dis fin by simp
next
  case (snoc e row)
  define es where "es = fold (merge_entry (positions es0) (X l)) row es0"
  have IH: "distinct (map fst es)" "fst ` set es = fst ` set es0 \<union> fst ` set row" "\<forall>e \<in> set es. fst e < n \<and> xfinite (snd e)"
    "\<forall>k < length es0. fst (es ! k) = fst (es0 ! k)" "length es0 \<le> length es" "terms_at es p = terms_at es0 p + l * terms_at row p"
    using snoc by (simp_all add: es_def Let_def)
  obtain j a where e: "e = (j, X a)" using snoc.prems(2) by (cases e) (auto elim: xfinite.elims)
  have run: "fold (merge_entry (positions es0) (X l)) (row @ [e]) es0 = merge_entry (positions es0) (X l) e es"
    by (simp add: es_def)
  have jn: "j < n" "j \<notin> fst ` set row" using snoc.prems e by auto
  show ?case
  proof (cases "positions es0 j")
    case None
    then have "\<not> (\<exists>k < length es0. fst (es0 ! k) = j)" using positions_distinct[OF dis(1), of j] by auto
    then have "j \<notin> fst ` set es0" by (metis imageE in_set_conv_nth)
    then have "j \<notin> fst ` set es" using IH(2) jn(2) by blast
    moreover have "merge_entry (positions es0) (X l) e es = es @ [(j, X (l * a))]" using None by (simp add: merge_entry_def e)
    ultimately show ?thesis
      unfolding run using IH jn(1) by (auto simp: e Let_def nth_append algebra_simps)
  next
    case (Some k)
    then have k: "k < length es0" "fst (es0 ! k) = j" using positions_distinct[OF dis(1)] by auto
    then have kl: "k < length es" "fst (es ! k) = j" using IH(4,5) by auto
    have "xfinite (snd (es ! k))" using IH(3) nth_mem[OF kl(1)] by blast
    then obtain v where "snd (es ! k) = X v" by (auto elim: xfinite.elims)
    with kl(2) have v: "es ! k = (j, X v)" by (simp add: prod_eq_iff)
    let ?f = "\<lambda>(i, v). (i, v + X (l * a))"
    have fsts: "map fst (modify_at k ?f es) = map fst es"
      using kl by (intro nth_equalityI) (auto simp: nth_modify_at v)
    have fs: "fst ` set (modify_at k ?f es) = fst ` set es" using fsts by (metis list.set_map)
    have "set (modify_at k ?f es) \<subseteq> insert (j, X (v + l * a)) (set es)"
      using set_update_subset_insert[of es k] by (simp add: modify_at_def v)
    then have f3: "\<forall>e \<in> set (modify_at k ?f es). fst e < n \<and> xfinite (snd e)" using IH(3) jn(1) by auto
    have f4: "\<forall>i < length es0. fst (modify_at k ?f es ! i) = fst (es0 ! i)"
      using IH(4,5) kl(1) v k by (auto simp: nth_modify_at)
    have "j \<in> fst ` set es" using k(1,2) IH(2) by (metis UnCI image_eqI nth_mem)
    then have f2: "fst ` set es = fst ` set es0 \<union> fst ` set (row @ [e])"
      using IH(2) k by (auto simp: e)
    have "merge_entry (positions es0) (X l) e es = modify_at k ?f es" using Some by (simp add: merge_entry_def e)
    then show ?thesis
      unfolding run using IH fsts fs f2 f3 f4 terms_modify[OF kl(1) v, of "l * a" p] by (simp add: e Let_def algebra_simps)
  qed
qed

lemma last_coef_terms:
  assumes "distinct (map fst es)" "\<forall>e \<in> set es. xfinite (snd e)"
  shows "\<exists>q. last_coef j es = X q \<and> q = terms_at es (\<lambda>k. if k = j then 1 else 0)"
  using assms
proof (induction es rule: rev_induct)
  case (snoc e es)
  then obtain q where q: "last_coef j es = X q" "q = terms_at es (\<lambda>k. if k = j then 1 else 0)" by auto
  show ?case
  proof (cases "fst e = j")
    case True
    then have "j \<notin> fst ` set es" using snoc.prems(1) by auto
    then have "terms_at es (\<lambda>k. if k = j then 1 else 0) = 0" by (induction es) auto
    then show ?thesis using True snoc.prems(2) by (cases e) (auto simp: last_coef_def elim: xfinite.elims)
  next
    case False
    then show ?thesis using q by (auto simp: last_coef_def split_beta)
  qed
qed (simp add: last_coef_def X_consts)

lemma terms_zeroed:
  assumes "distinct (map fst es)"
  shows "terms_at (map (\<lambda>(k, a). if k = j then (k, 0) else (k, a)) es) p =
    terms_at es p - terms_at es (\<lambda>k. if k = j then 1 else 0) * p j"
  using assms
proof (induction es)
  case (Cons e es)
  then have IH: "terms_at (map (\<lambda>(k, a). if k = j then (k, 0) else (k, a)) es) p =
    terms_at es p - terms_at es (\<lambda>k. if k = j then 1 else 0) * p j" by simp
  show ?case using IH by (cases e) (simp add: X_consts algebra_simps)
qed simp

lemma aggregate_row_ok:
  assumes sep: "separable m" and i: "i < num_rows m" and zero: "ct_zero ct = X 0"
    and rows: "rows ! i = row_entries (matrix m) i" and b: "base_ok m lo hi base"
    and agg: "aggregate_row (exact_scalar ft mt) ct m rows i e base = Some base'"
  shows "base_ok m lo hi base'"
proof -
  let ?row = "row_entries (matrix m) i" and ?es = "base_entries base" and ?ind = "\<lambda>k. if k = e then 1 else 0 :: rat"
  have row: "distinct (map fst ?row)" "\<forall>f \<in> set ?row. fst f < num_cols m \<and> xfinite (snd f)"
    using distinct_row_entries[OF sep] row_facts[OF sep i] by auto
  have base: "distinct (map fst ?es)" "\<forall>f \<in> set ?es. fst f < num_cols m \<and> xfinite (snd f)" "xfinite (base_rhs base)"
    using b by (simp_all add: base_ok_def)
  obtain cr where cr: "last_coef e ?row = X cr" "cr = terms_at ?row ?ind" using last_coef_terms[OF row(1), of e] row(2) by auto
  obtain cb where cb: "last_coef e ?es = X cb" "cb = terms_at ?es ?ind" using last_coef_terms[OF base(1), of e] base(2) by auto
  have nz: "cr \<noteq> 0" using agg by (auto simp: aggregate_row_def rows cr(1) zero split: if_splits)
  define l where "l = - cb / cr"
  obtain q where q: "(if 0 < l then row_upper m ! i else row_lower m ! i) = X q"
    and base': "base' = \<lparr>base_entries = map (\<lambda>(j, a). if j = e then (j, 0) else (j, a)) (fold (merge_entry (positions ?es) (X l)) ?row ?es),
      base_rhs = base_rhs base + X l * X q\<rparr>"
    using agg nz
    by (auto simp: aggregate_row_def rows cr(1) cb(1) zero l_def exact_scalar_fields X_consts Let_def split: if_splits elim!: xfinite.elims)
  define es where "es = fold (merge_entry (positions ?es) (X l)) ?row ?es"
  have es: "distinct (map fst es)" "\<forall>f \<in> set es. fst f < num_cols m \<and> xfinite (snd f)"
    "terms_at es p = terms_at ?es p + l * terms_at ?row p" for p
    using merge_entries[OF base(1) row(1) base(2) row(2), of l] by (simp_all add: es_def Let_def)
  have "terms_at es ?ind = 0" using es(3)[of ?ind] cb(2) cr(2) nz by (simp add: l_def)
  then have z: "terms_at (map (\<lambda>(k, a). if k = e then (k, 0) else (k, a)) es) p = terms_at es p" for p
    using terms_zeroed[OF es(1)] by simp
  obtain r where r: "base_rhs base = X r" using base(3) by (auto elim: xfinite.elims)
  have le: "terms_at es p \<le> r + l * q" if s: "solves m lo hi p" for p
  proof -
    have "terms_at ?es p \<le> r" using b s by (simp add: base_ok_def r)
    moreover have "l * terms_at ?row p \<le> l * q"
      using solves_row[OF s i] q unfolding row_value_terms[OF sep i]
      by (cases "0 < l") (simp_all add: mult_left_mono mult_left_mono_neg)
    ultimately show ?thesis by (simp add: es(3))
  qed
  have f: "map fst (map (\<lambda>(j, a). if j = e then (j, 0) else (j, a)) es) = map fst es" by (induction es) auto
  show ?thesis
    unfolding base_ok_def base' es_def[symmetric] using es(1,2) le by (auto simp: z r f X_consts simp del: map_map)
qed

lemma extend_base_ok:
  assumes "separable m" "ct_zero ct = X 0" "\<forall>i \<in> set is. i < num_rows m \<and> rows ! i = row_entries (matrix m) i" "base_ok m lo hi base"
    "extend_base (exact_scalar ft mt) ct m rows e is used base = Some (base', used')"
  shows "base_ok m lo hi base'"
  using assms(3,5)
  by (induction "is") (auto split: if_splits option.splits intro: aggregate_row_ok[OF assms(1) _ assms(2) _ assms(4)])

section \<open>The substitution\<close>

definition sub_bound :: "xnum list \<Rightarrow> xnum list \<Rightarrow> xnum substituted \<Rightarrow> xnum" where
  "sub_bound lo hi s = (if sb_complemented s then hi ! sb_column s else lo ! sb_column s)"

definition sub_value :: "xnum list \<Rightarrow> xnum list \<Rightarrow> (nat \<Rightarrow> rat) \<Rightarrow> xnum substituted \<Rightarrow> rat" where
  "sub_value lo hi p s = (if sb_complemented s then xval (sub_bound lo hi s) - p (sb_column s)
     else p (sb_column s) - xval (sub_bound lo hi s))"

definition sub_ok :: "xnum model \<Rightarrow> xnum list \<Rightarrow> xnum list \<Rightarrow> xnum substituted \<Rightarrow> bool" where
  "sub_ok m lo hi s \<longleftrightarrow> sb_column s < num_cols m \<and> xfinite (sb_coef s) \<and> xfinite (sub_bound lo hi s) \<and>
     (sb_integer s \<longrightarrow> col_type m ! sb_column s = kInteger \<and> xval (sub_bound lo hi s) \<in> \<int>)"

definition subs_at :: "xnum list \<Rightarrow> xnum list \<Rightarrow> xnum substituted list \<Rightarrow> (nat \<Rightarrow> rat) \<Rightarrow> rat" where
  "subs_at lo hi subs p = (\<Sum>s\<leftarrow>subs. xval (sb_coef s) * sub_value lo hi p s)"

lemma sub_value_ok:
  assumes "sub_ok m lo hi s" "solves m lo hi p"
  shows "0 \<le> sub_value lo hi p s" "sb_integer s \<Longrightarrow> sub_value lo hi p s \<in> \<int>"
proof -
  have j: "sb_column s < num_cols m" using assms(1) by (simp add: sub_ok_def)
  note c = solves_col[OF assms(2) j]
  show "0 \<le> sub_value lo hi p s"
    using assms(1) c(1,2) by (cases "sub_bound lo hi s") (auto simp: sub_ok_def sub_value_def sub_bound_def split: if_splits)
  assume "sb_integer s"
  then show "sub_value lo hi p s \<in> \<int>" using assms(1) c(3) by (auto simp: sub_ok_def sub_value_def)
qed

lemma substituted:
  assumes zero: "ct_zero ct = X 0" and whole: "whole_bounds m lo hi"
  shows "substitute_bounds (exact_scalar ft mt) ct m x lo hi es (X b, subs, f) = Some (b', subs', f') \<Longrightarrow>
    \<forall>e \<in> set es. fst e < num_cols m \<and> xfinite (snd e) \<Longrightarrow> \<forall>s \<in> set subs. sub_ok m lo hi s \<Longrightarrow>
    (\<exists>c. b' = X c \<and> (\<forall>p. terms_at es p + subs_at lo hi subs p - b = subs_at lo hi subs' p - c)) \<and> (\<forall>s \<in> set subs'. sub_ok m lo hi s)"
proof (induction es arbitrary: b subs f)
  case Nil
  then show ?case by auto
next
  case (Cons e es)
  obtain j a where e: "e = (j, X a)" using Cons.prems(2) by (cases e) (auto elim: xfinite.elims)
  have j: "j < num_cols m" using Cons.prems(2) e by simp
  show ?case
  proof (cases "a = 0")
    case True
    have run: "substitute_bounds (exact_scalar ft mt) ct m x lo hi es (X b, subs, f) = Some (b', subs', f')"
      using Cons.prems(1) True by (simp add: e zero)
    show ?thesis using Cons.IH[OF run _ Cons.prems(3)] Cons.prems(2) True by (simp add: e)
  next
    case False
    define upper where "upper = (xfinite (hi ! j) \<and> (\<not> xfinite (lo ! j) \<or> hi ! j - x ! j < x ! j - lo ! j))"
    define sub where "sub = \<lparr>sb_column = j, sb_coef = (if upper then - X a else X a), sb_integer = (col_type m ! j = kInteger),
      sb_complemented = upper, sb_point = (if upper then hi ! j - x ! j else x ! j - lo ! j)\<rparr>"
    define f1 where "f1 = (f \<or> col_type m ! j = kInteger \<and> \<not> near_integer (exact_scalar ft mt) ct (x ! j))"
    have run: "substitute_bounds (exact_scalar ft mt) ct m x lo hi es
        (X b - X a * (if upper then hi ! j else lo ! j), subs @ [sub], f1) = Some (b', subs', f')"
      and some: "xfinite (lo ! j) \<or> xfinite (hi ! j)"
      using Cons.prems(1) False
      by (auto simp: e zero Let_def exact_scalar_fields upper_def sub_def f1_def split: if_splits)
    have bound: "sub_bound lo hi sub = (if upper then hi ! j else lo ! j)" by (simp add: sub_bound_def sub_def)
    have fin: "xfinite (if upper then hi ! j else lo ! j)" using some by (auto simp: upper_def)
    then have "xfinite (sub_bound lo hi sub)" by (simp only: bound)
    then obtain q where q: "sub_bound lo hi sub = X q" by (auto elim: xfinite.elims)
    have sub: "sub_ok m lo hi sub"
    proof -
      have "col_type m ! j = kInteger \<Longrightarrow> xval (if upper then hi ! j else lo ! j) \<in> \<int>"
        using whole j fin by (auto simp: whole_bounds_def split: if_splits)
      then show ?thesis unfolding sub_ok_def bound using j fin by (simp add: sub_def)
    qed
    have run': "substitute_bounds (exact_scalar ft mt) ct m x lo hi es (X (b - a * q), subs @ [sub], f1) = Some (b', subs', f')"
      using run q by (simp add: bound[symmetric])
    have val: "subs_at lo hi (subs @ [sub]) p = subs_at lo hi subs p + a * p j - a * q" for p
      using q by (auto simp: subs_at_def sub_value_def sub_def algebra_simps)
    from Cons.IH[OF run'] Cons.prems(2,3) sub obtain c where "b' = X c" "\<forall>s \<in> set subs'. sub_ok m lo hi s"
      "\<forall>p. terms_at es p + subs_at lo hi (subs @ [sub]) p - (b - a * q) = subs_at lo hi subs' p - c" by auto
    then show ?thesis by (auto simp: e val algebra_simps)
  qed
qed

section \<open>One divisor\<close>

lemma fractional_part_X [simp]: "fractional_part (exact_scalar ft mt) (X q) = X (frac q)"
  by (simp add: fractional_part_def exact_scalar_fields frac_def)

lemma mir_inequality_exact:
  assumes run: "mir_inequality (exact_scalar ft mt) terms (X b) d = Some (rounded, r)"
    and fin: "\<forall>t \<in> set terms. xfinite (fst t)"
  obtains q where "d = X q" "0 < q" "r = X (of_int \<lfloor>b / q\<rfloor>)"
    "rounded = map (\<lambda>(a, integral). X (mir_coef (frac (b / q)) (xval a / q) integral)) terms"
proof -
  obtain q where q: "d = X q" "0 < q"
    using run by (cases d) (auto simp: mir_inequality_def exact_scalar_fields X_consts split: if_splits)
  have f: "frac (b / q) < 1" by (simp add: frac_lt_1)
  have c: "(let a = X c div X q in if integral then xfloor a + cmax 0 (fractional_part (exact_scalar ft mt) a - X (frac (b / q))) div (1 - X (frac (b / q)))
      else if a < 0 then a div (1 - X (frac (b / q))) else 0) = X (mir_coef (frac (b / q)) (c / q) integral)" for c integral
    using q(2) f by (auto simp: X_consts cmax_def mir_coef_def)
  have "r = X (of_int \<lfloor>b / q\<rfloor>)" "rounded = map (\<lambda>(c, integral). let a = c div X q in
      if integral then xfloor a + cmax 0 (fractional_part (exact_scalar ft mt) a - X (frac (b / q))) div (1 - X (frac (b / q)))
      else if a < 0 then a div (1 - X (frac (b / q))) else 0) terms"
    using run q by (auto simp: mir_inequality_def exact_scalar_fields Let_def split: if_splits)
  note r = this
  have "rounded = map (\<lambda>(a, integral). X (mir_coef (frac (b / q)) (xval a / q) integral)) terms"
    unfolding r(2)
  proof (rule map_cong[OF refl], clarify)
    fix a integral assume "(a, integral) \<in> set terms"
    then obtain v where "a = X v" using fin by (fastforce elim: xfinite.elims)
    then show "(let a = a div X q in if integral then xfloor a + cmax 0 (fractional_part (exact_scalar ft mt) a - X (frac (b / q))) div (1 - X (frac (b / q)))
      else if a < 0 then a div (1 - X (frac (b / q))) else 0) = X (mir_coef (frac (b / q)) (xval a / q) integral)"
      using c by simp
  qed
  then show ?thesis using that[OF q r(1)] by simp
qed

lemma unsubstitute_ok:
  assumes "ct_zero ct = X 0" "sub_ok m lo hi s" "all_finite (cut_coeff c)" "length (cut_coeff c) = num_cols m" "cut_rhs c = X r"
  shows "all_finite (cut_coeff (unsubstitute ct lo hi (s, X q) c))" "length (cut_coeff (unsubstitute ct lo hi (s, X q) c)) = num_cols m"
    "\<exists>r'. cut_rhs (unsubstitute ct lo hi (s, X q) c) = X r' \<and>
      (\<forall>p. lhs_at (cut_coeff (unsubstitute ct lo hi (s, X q) c)) p - r' = lhs_at (cut_coeff c) p - r + q * sub_value lo hi p s)"
proof -
  obtain v where v: "sub_bound lo hi s = X v" using assms(2) by (auto simp: sub_ok_def elim: xfinite.elims)
  have j: "sb_column s < length (cut_coeff c)" using assms(2,4) by (simp add: sub_ok_def)
  have add: "(\<lambda>a. a + X q) (X u) = X (u + q)" "(\<lambda>a. a - X q) (X u) = X (u + (- q))" for u by simp_all
  note up = lhs_modify[OF assms(3) j, of "\<lambda>a. a + X q" q, OF add(1)] and down = lhs_modify[OF assms(3) j, of "\<lambda>a. a - X q" "- q", OF add(2)]
  show "all_finite (cut_coeff (unsubstitute ct lo hi (s, X q) c))"
    using up(1) down(1) assms(3) by (simp add: unsubstitute_def)
  show "length (cut_coeff (unsubstitute ct lo hi (s, X q) c)) = num_cols m"
    using assms(4) by (simp add: unsubstitute_def)
  show "\<exists>r'. cut_rhs (unsubstitute ct lo hi (s, X q) c) = X r' \<and>
      (\<forall>p. lhs_at (cut_coeff (unsubstitute ct lo hi (s, X q) c)) p - r' = lhs_at (cut_coeff c) p - r + q * sub_value lo hi p s)"
    using up(2) down(2) v assms(1,5)
    by (intro exI[of _ "if q = 0 then r else if sb_complemented s then r - q * v else r + q * v"])
       (auto simp: unsubstitute_def sub_value_def sub_bound_def algebra_simps split: if_splits)
qed

lemma unsubstitute_all:
  assumes "ct_zero ct = X 0" "\<forall>(s, c) \<in> set ps. sub_ok m lo hi s \<and> xfinite c"
    "all_finite (cut_coeff c)" "length (cut_coeff c) = num_cols m" "cut_rhs c = X r"
  shows "let k = fold (unsubstitute ct lo hi) ps c in all_finite (cut_coeff k) \<and> length (cut_coeff k) = num_cols m \<and>
    (\<exists>r'. cut_rhs k = X r' \<and> (\<forall>p. lhs_at (cut_coeff k) p - r' =
      lhs_at (cut_coeff c) p - r + (\<Sum>(s, q)\<leftarrow>ps. xval q * sub_value lo hi p s)))"
  using assms(2-)
proof (induction ps arbitrary: c r)
  case (Cons e ps)
  obtain s q where e: "e = (s, X q)" using Cons.prems(1) by (cases e) (auto elim: xfinite.elims)
  have s: "sub_ok m lo hi s" using Cons.prems(1) e by simp
  note u = unsubstitute_ok[OF assms(1) s Cons.prems(2-4), of q]
  obtain r' where r': "cut_rhs (unsubstitute ct lo hi (s, X q) c) = X r'"
    "\<forall>p. lhs_at (cut_coeff (unsubstitute ct lo hi (s, X q) c)) p - r' = lhs_at (cut_coeff c) p - r + q * sub_value lo hi p s"
    using u(3) by blast
  show ?case using Cons.IH[OF _ u(1,2) r'(1)] Cons.prems(1) r'(2) by (simp add: e Let_def algebra_simps)
qed simp

lemma divisor_cut_valid:
  assumes zero: "ct_zero ct = X 0" and subs: "\<forall>s \<in> set subs. sub_ok m lo hi s"
    and base: "\<And>p. solves m lo hi p \<Longrightarrow> subs_at lo hi subs p \<le> b"
    and run: "mir_inequality (exact_scalar ft mt) (map (\<lambda>s. (sb_coef s, sb_integer s)) subs) (X b) d = Some (rounded, r)"
  shows "valid_cut m lo hi (fold (unsubstitute ct lo hi) (zip subs rounded) \<lparr>cut_coeff = replicate (num_cols m) 0, cut_rhs = r\<rparr>)"
proof -
  obtain q where q: "d = X q" "0 < q" "r = X (of_int \<lfloor>b / q\<rfloor>)"
    "rounded = map (\<lambda>s. X (mir_coef (frac (b / q)) (xval (sb_coef s) / q) (sb_integer s))) subs"
    by (rule mir_inequality_exact[OF run]) (use subs in \<open>auto simp: sub_ok_def o_def\<close>)
  define g where "g = (\<lambda>s :: xnum substituted. X (mir_coef (frac (b / q)) (xval (sb_coef s) / q) (sb_integer s)))"
  have zip: "zip subs rounded = map (\<lambda>s. (s, g s)) subs" unfolding q(4) g_def[symmetric] by (induction subs) simp_all
  define k where "k = fold (unsubstitute ct lo hi) (map (\<lambda>s. (s, g s)) subs) \<lparr>cut_coeff = replicate (num_cols m) 0, cut_rhs = r\<rparr>"
  have k: "all_finite (cut_coeff k)" "length (cut_coeff k) = num_cols m"
    "\<exists>r'. cut_rhs k = X r' \<and> (\<forall>p. lhs_at (cut_coeff k) p - r' = (\<Sum>s\<leftarrow>subs. xval (g s) * sub_value lo hi p s) - of_int \<lfloor>b / q\<rfloor>)"
    using unsubstitute_all[OF zero, of "map (\<lambda>s. (s, g s)) subs" m lo hi "\<lparr>cut_coeff = replicate (num_cols m) 0, cut_rhs = r\<rparr>" "of_int \<lfloor>b / q\<rfloor>"]
      subs q(3) by (simp_all add: k_def Let_def o_def g_def)
  have le: "(\<Sum>s\<leftarrow>subs. xval (g s) * sub_value lo hi p s) \<le> of_int \<lfloor>b / q\<rfloor>" if s: "solves m lo hi p" for p
  proof -
    let ?ts = "map (\<lambda>s. (xval (sb_coef s) / q, sb_integer s, sub_value lo hi p s)) subs"
    have "(\<Sum>(a, integral, y)\<leftarrow>?ts. a * y) = subs_at lo hi subs p / q"
      unfolding subs_at_def by (induction subs) (simp_all add: add_divide_distrib)
    then have "(\<Sum>(a, integral, y)\<leftarrow>?ts. a * y) \<le> b / q" using base[OF s] q(2) by (simp add: divide_right_mono)
    moreover have "\<forall>(a, integral, y) \<in> set ?ts. 0 \<le> y \<and> (integral \<longrightarrow> y \<in> \<int>)"
      using subs sub_value_ok[OF _ s] by auto
    ultimately show ?thesis using mir_valid[of ?ts "b / q"] by (simp add: o_def g_def)
  qed
  obtain r' where r': "cut_rhs k = X r'"
    "\<forall>p. lhs_at (cut_coeff k) p - r' = (\<Sum>s\<leftarrow>subs. xval (g s) * sub_value lo hi p s) - of_int \<lfloor>b / q\<rfloor>"
    using k(3) by blast
  have "lhs_at (cut_coeff k) p \<le> r'" if "solves m lo hi p" for p using le[OF that] r'(2)[rule_format, of p] by linarith
  then show ?thesis unfolding valid_cut_def zip k_def[symmetric] using k(1,2) r'(1) by (simp add: cut_holds_def)
qed

lemma try_divisor_valid:
  assumes "ct_zero ct = X 0" "\<forall>s \<in> set subs. sub_ok m lo hi s" "\<And>p. solves m lo hi p \<Longrightarrow> subs_at lo hi subs p \<le> b"
    and "\<forall>c. snd best = Some c \<longrightarrow> valid_cut m lo hi c"
  shows "\<forall>c. snd (try_divisor (exact_scalar ft mt) ct (num_cols m) lo hi subs (X b) d best) = Some c \<longrightarrow> valid_cut m lo hi c"
  using divisor_cut_valid[OF assms(1-3)] assms(4)
  by (auto simp: try_divisor_def Let_def split: prod.splits option.splits if_splits)

lemma separate_valid:
  assumes zero: "ct_zero ct = X 0" and whole: "whole_bounds m lo hi" and b: "base_ok m lo hi base"
    and run: "separate_from_base (exact_scalar ft mt) ct m x lo hi base = Some c"
  shows "valid_cut m lo hi c"
proof -
  obtain r where r: "base_rhs base = X r" using b by (auto simp: base_ok_def elim: xfinite.elims)
  obtain b' subs f where s: "substitute_bounds (exact_scalar ft mt) ct m x lo hi (base_entries base) (X r, [], False) = Some (b', subs, f)"
    and c: "snd (fold (try_divisor (exact_scalar ft mt) ct (num_cols m) lo hi subs b') (mir_divisors (exact_scalar ft mt) ct subs)
      (sc_lit (exact_scalar ft mt) (1 / 10 ^ 4), None)) = Some c"
    using run by (auto simp: separate_from_base_def r split: option.splits if_splits prod.splits)
  obtain q where q: "b' = X q" "\<forall>p. terms_at (base_entries base) p - r = subs_at lo hi subs p - q" and ok: "\<forall>s \<in> set subs. sub_ok m lo hi s"
    using substituted[OF zero whole s] b by (auto simp: base_ok_def subs_at_def)
  have le: "subs_at lo hi subs p \<le> q" if "solves m lo hi p" for p
  proof -
    have "terms_at (base_entries base) p \<le> r" using b that by (simp add: base_ok_def r)
    then show ?thesis using q(2)[rule_format, of p] by linarith
  qed
  have "\<forall>c. snd (fold (try_divisor (exact_scalar ft mt) ct (num_cols m) lo hi subs b') ds best) = Some c \<longrightarrow> valid_cut m lo hi c"
    if "\<forall>c. snd best = Some c \<longrightarrow> valid_cut m lo hi c" for ds best
    using that
  proof (induction ds arbitrary: best)
    case (Cons d ds)
    show ?case using Cons.IH[OF try_divisor_valid[OF zero ok le Cons.prems]] by (simp add: q(1))
  qed simp
  from this[of "(sc_lit (exact_scalar ft mt) (1 / 10 ^ 4), None)"] show ?thesis using c by simp
qed

section \<open>The search over aggregates\<close>

lemma aggregate_search_valid:
  assumes sep: "separable m" and zero: "ct_zero ct = X 0" and whole: "whole_bounds m lo hi"
    and rows: "\<forall>i < num_rows m. rows ! i = row_entries (matrix m) i"
  shows "base_ok m lo hi base \<Longrightarrow> \<forall>c. mb_cut best = Some c \<longrightarrow> valid_cut m lo hi c \<Longrightarrow>
    mb_cut (aggregate_search (exact_scalar ft mt) ct m rows x lo hi left depth base used best) = Some c \<Longrightarrow> valid_cut m lo hi c"
proof (induction left arbitrary: depth base used best)
  case 0
  then show ?case using separate_valid[OF zero whole 0(1)]
    by (auto simp: offer_mir_def Let_def split: option.splits if_splits)
next
  case (Suc left)
  define found where "found = offer_mir x (num_cols m) depth (separate_from_base (exact_scalar ft mt) ct m x lo hi base) best"
  have found: "\<forall>c. mb_cut found = Some c \<longrightarrow> valid_cut m lo hi c"
    using separate_valid[OF zero whole Suc.prems(1)] Suc.prems(2)
    by (auto simp: found_def offer_mir_def Let_def split: option.splits if_splits)
  show ?case
  proof (cases "column_to_eliminate (exact_scalar ft mt) ct m x lo hi base")
    case None
    then show ?thesis using Suc.prems(3) found by (simp add: Let_def found_def[symmetric])
  next
    case (Some e)
    let ?is = "map fst (column (matrix m) e)"
    show ?thesis
    proof (cases "extend_base (exact_scalar ft mt) ct m rows e ?is used base")
      case None
      then show ?thesis using Suc.prems(3) found Some by (simp add: Let_def found_def[symmetric])
    next
      case ext: (Some r)
      obtain base' used' where r: "r = (base', used')" by fastforce
      have e: "e < num_cols m"
      proof -
        have "snd (fold (\<lambda>(j, a) (deepest, chosen).
            if \<bar>a\<bar> \<le> ct_zero ct \<or> col_type m ! j = kInteger then (deepest, chosen)
            else let s1 = (if sc_fin (exact_scalar ft mt) (lo ! j) then cmin (sc_infinity (exact_scalar ft mt)) (x ! j - lo ! j) else sc_infinity (exact_scalar ft mt));
                   slack = (if sc_fin (exact_scalar ft mt) (hi ! j) then cmin s1 (hi ! j - x ! j) else s1)
              in if sc_inf (exact_scalar ft mt) slack then (deepest, chosen)
                 else if deepest < slack then (slack, Some j) else (deepest, chosen)) es (d, ch)) = Some e \<Longrightarrow>
            ch = Some e \<or> e \<in> fst ` set es" for es d ch
          by (induction es arbitrary: d ch) (auto simp: Let_def split: if_splits prod.splits)
        from this[of "base_entries base" "sc_lit (exact_scalar ft mt) (1 / 10 ^ 6)" None] Some
        have "e \<in> fst ` set (base_entries base)" by (simp add: column_to_eliminate_def)
        then show ?thesis using Suc.prems(1) by (auto simp: base_ok_def)
      qed
      have "\<forall>i \<in> set ?is. i < num_rows m \<and> rows ! i = row_entries (matrix m) i"
        using rows csc_row_bound[of "matrix m" e] sep e by (auto simp: separable_def)
      note ok = extend_base_ok[OF sep zero this Suc.prems(1) ext[unfolded r]]
      show ?thesis using Suc.IH[OF ok found] Suc.prems(3) Some ext r by (simp add: Let_def found_def[symmetric])
    qed
  qed
qed

lemma mir_side_valid:
  assumes sep: "separable m" and zero: "ct_zero ct = X 0" and whole: "whole_bounds m lo hi"
    and rows: "\<forall>i < num_rows m. rows ! i = row_entries (matrix m) i" and i: "i < num_rows m"
    and r: "\<forall>c \<in> set (fst r). valid_cut m lo hi c"
  shows "\<forall>c \<in> set (fst (mir_side (exact_scalar ft mt) ct m rows x lo hi i upper r)). valid_cut m lo hi c"
proof (cases "xfinite (if upper then row_upper m ! i else row_lower m ! i)")
  case True
  define base where "base = \<lparr>base_entries = map (\<lambda>(j, a). (j, (if upper then 1 else - 1) * a)) (rows ! i),
    base_rhs = (if upper then 1 else - 1) * (if upper then row_upper m ! i else row_lower m ! i)\<rparr>"
  define best where "best = aggregate_search (exact_scalar ft mt) ct m rows x lo hi kMaxAggregation 0 base
    ((replicate (num_rows m) False)[i := True]) \<lparr>mb_cut = None, mb_violation = 0, mb_depth = 0\<rparr>"
  have ok: "base_ok m lo hi base" using row_side_ok[OF sep i True] rows i by (simp add: base_def)
  have v: "valid_cut m lo hi c" if "mb_cut best = Some c" for c
    using aggregate_search_valid[OF sep zero whole rows ok _ that[unfolded best_def]] by simp
  have "fst (mir_side (exact_scalar ft mt) ct m rows x lo hi i upper r) = fst r @ (case mb_cut best of None \<Rightarrow> [] | Some c \<Rightarrow> [c])"
    using True unfolding best_def base_def
    by (simp add: mir_side_def exact_scalar_fields Let_def split_beta del: aggregate_search.simps split: option.split)
  then show ?thesis using r v by (auto split: option.splits)
qed (use r in \<open>simp add: mir_side_def exact_scalar_fields split_beta\<close>)

text \<open>C16. Every mixed-integer rounding cut the generator returns holds at every point of the rows and of the
  bounds it was derived under, and has one coefficient for each column.\<close>

theorem mir_cuts_valid:
  assumes "separable m" "whole_bounds m lo hi" "ct_zero ct = X 0"
    and "c \<in> set (fst (generate_mir_cuts (exact_scalar ft mt) ct m x lo hi stats))"
  shows "valid_cut m lo hi c"
proof -
  let ?rows = "mir_rows_of m" and ?marks = "fractional_rows (exact_scalar ft mt) ct m x"
  have "\<forall>c \<in> set (fst (fold (\<lambda>i r. if ?rows ! i = [] \<or> \<not> ?marks ! i then r
      else mir_side (exact_scalar ft mt) ct m ?rows x lo hi i False (mir_side (exact_scalar ft mt) ct m ?rows x lo hi i True r)) is r)).
      valid_cut m lo hi c" if "\<forall>c \<in> set (fst r). valid_cut m lo hi c" "\<forall>i \<in> set is. i < num_rows m" for "is" r
    using that
  proof (induction "is" arbitrary: r)
    case (Cons i "is")
    have "\<forall>i < num_rows m. ?rows ! i = row_entries (matrix m) i" using mir_rows[OF assms(1)] by blast
    note s = mir_side_valid[OF assms(1,3,2) this, of i]
    have i: "i < num_rows m" and rest: "\<forall>i \<in> set is. i < num_rows m" using Cons.prems(2) by simp_all
    show ?case
    proof (cases "?rows ! i = [] \<or> \<not> ?marks ! i")
      case True
      then show ?thesis using Cons.IH[OF Cons.prems(1) rest] by simp
    next
      case False
      then show ?thesis using Cons.IH[OF s[OF i s[OF i Cons.prems(1)]] rest] by simp
    qed
  qed simp
  from this[of "([], stats)" "[0..<num_rows m]"] show ?thesis
    using assms(4) by (auto simp: generate_mir_cuts_def Let_def split: if_splits)
qed

text \<open>At the point \<open>x = 9/4\<close> of \<open>2 x \<le> 9/2\<close> the generator finds \<open>2 x \<le> 4\<close>, which \<open>x = 2\<close> meets.\<close>

lemma demo_mir:
  "fst (generate_mir_cuts (exact_scalar 0 0) (exact_cut_tolerances (1 / 10)) demo_cut_model [X (9 / 4)] [X 0] [XPInf]
     \<lparr>ms_cuts = 0, ms_aggregated = 0, ms_deepest = 0\<rparr>) = [\<lparr>cut_coeff = [X 2], cut_rhs = X 4\<rparr>]"
proof -
  let ?sc = "exact_scalar 0 0" and ?ct = "exact_cut_tolerances (1 / 10)"
  have rows: "mir_rows_of demo_cut_model = [[(0, X 2)]]" by (simp add: mir_rows_of_def demo_cut_fields modify_at_def)
  have fl: "\<lfloor>9 / 4 :: rat\<rfloor> = 2" "\<lfloor>11 / 4 :: rat\<rfloor> = 2" "\<lfloor>9 / 2 :: rat\<rfloor> = 4" "\<lfloor>1 / 2 :: rat\<rfloor> = 0" by (rule floor_unique; simp)+
  have near: "near_integer ?sc ?ct (X (9 / 4)) = False" "near_integer ?sc ?ct (X 0) = True"
    using fl by (simp_all add: near_integer_def exact_scalar_fields exact_cut_tolerances_def xround_def)
  have ct: "ct_zero ?ct = X 0" by (simp add: exact_cut_tolerances_def)
  have marks: "fractional_rows ?sc ?ct demo_cut_model [X (9 / 4)] = [True]"
    by (simp add: fractional_rows_def demo_cut_fields near)
  have sub: "substitute_bounds ?sc ?ct demo_cut_model [X (9 / 4)] [X 0] [XPInf] [(0, X 2)] (X (9 / 2), [], False) =
      Some (X (9 / 2), [\<lparr>sb_column = 0, sb_coef = X 2, sb_integer = True, sb_complemented = False, sb_point = X (9 / 4)\<rparr>], True)"
    by (simp add: demo_cut_fields ct exact_scalar_fields near)
  have one: "separate_from_base ?sc ?ct demo_cut_model [X (9 / 4)] [X 0] [XPInf] \<lparr>base_entries = [(0, X 2)], base_rhs = X (9 / 2)\<rparr> =
      Some \<lparr>cut_coeff = [X 2], cut_rhs = X 4\<rparr>"
    by (simp add: separate_from_base_def sub exact_scalar_fields mir_divisors_def near ct X_consts try_divisor_def mir_inequality_def
        fl frac_def mir_magnitudes_def cmax_def cmin_def unsubstitute_def modify_at_def demo_cut_fields Let_def fractional_part_def)
  have none: "column_to_eliminate ?sc ?ct demo_cut_model [X (9 / 4)] [X 0] [XPInf] \<lparr>base_entries = [(0, X 2)], base_rhs = X (9 / 2)\<rparr> = None"
    by (simp add: column_to_eliminate_def demo_cut_fields)
  show ?thesis
    by (simp add: generate_mir_cuts_def demo_cut_fields rows marks mir_side_def exact_scalar_fields kMaxAggregation_def numeral_eq_Suc
        X_consts one none offer_mir_def Let_def)
qed

text \<open>With a hypothesis on the bounds that the model meets, the theorem applies to it.\<close>

theorem mir_cuts_valid_witness:
  "valid_cut demo_cut_model [X 0] [XPInf] \<lparr>cut_coeff = [X 2], cut_rhs = X 4\<rparr>"
  by (rule mir_cuts_valid[OF demo_cut_separable, where ft = 0 and mt = 0 and ct = "exact_cut_tolerances (1 / 10)" and
        x = "[X (9 / 4)]" and stats = "\<lparr>ms_cuts = 0, ms_aggregated = 0, ms_deepest = 0\<rparr>"])
     (simp_all add: whole_bounds_def demo_cut_fields demo_mir)

end
