(* ===== verification/CliqueCuts.thy ===== *)
theory CliqueCuts
  imports Cuts
begin

text \<open>
  Clique cuts (\<open>src/mip/combinatorial_cuts.cpp\<close>): the conflict graph of the binary columns, read off the rows in
  both senses, and the greedy cliques of it. Two columns in conflict cannot both be one at a point of the
  model, so at most one member of a clique is.
\<close>

section \<open>The conflict graph\<close>

definition is_binary :: "'a::{zero,one,ord} model \<Rightarrow> 'a list \<Rightarrow> 'a list \<Rightarrow> nat \<Rightarrow> bool" where
  "is_binary m lo hi j \<longleftrightarrow> col_type m ! j = kInteger \<and> feq (lo ! j) 0 \<and> feq (hi ! j) 1"

definition kMaxConflictEdges :: nat where
  "kMaxConflictEdges = 200000"

definition kCliqueStarts :: nat where
  "kCliqueStarts = 50"

text \<open>The edges as the set of their 64-bit keys, which do not overflow: a column is below \<open>2^31\<close>.\<close>

record conflict_graph =
  cg_adjacent :: "nat list list"
  cg_edges :: "nat list"
  cg_capped :: bool

definition edge_key :: "nat \<Rightarrow> nat \<Rightarrow> nat \<Rightarrow> nat" where
  "edge_key n p q = min p q * n + max p q"

definition in_conflict :: "nat \<Rightarrow> conflict_graph \<Rightarrow> nat \<Rightarrow> nat \<Rightarrow> bool" where
  "in_conflict n g p q \<longleftrightarrow> edge_key n p q \<in> set (cg_edges g)"

text \<open>The positive binaries of a row and the least that every other column contributes.\<close>

definition scan_conflict_entry ::
    "'a::{zero,one,plus,times,ord} scalar \<Rightarrow> 'a model \<Rightarrow> 'a list \<Rightarrow> 'a list \<Rightarrow> 'a \<Rightarrow> nat \<times> 'a \<Rightarrow>
     ('a \<times> nat) list \<times> 'a \<times> bool \<Rightarrow> ('a \<times> nat) list \<times> 'a \<times> bool" where
  "scan_conflict_entry sc m lo hi sign = (\<lambda>(j, v) (positive, least, finite).
     if \<not> finite then (positive, least, finite)
     else
       let a = sign * v in
       if 0 < a \<and> is_binary m lo hi j then (positive @ [(a, j)], least, finite)
       else if \<not> feq a 0 then
         let low = (if 0 < a then lo ! j else hi ! j) in (positive, least + a * low, sc_isfinite sc low)
       else (positive, least, finite))"

definition scan_conflict_row ::
    "'a::{zero,one,plus,times,ord} scalar \<Rightarrow> 'a model \<Rightarrow> 'a list \<Rightarrow> 'a list \<Rightarrow> 'a \<Rightarrow> (nat \<times> 'a) list \<Rightarrow>
     ('a \<times> nat) list \<times> 'a \<times> bool" where
  "scan_conflict_row sc m lo hi sign row = fold (scan_conflict_entry sc m lo hi sign) row ([], 0, True)"

definition add_edge :: "nat \<Rightarrow> nat \<Rightarrow> nat \<Rightarrow> conflict_graph \<Rightarrow> conflict_graph" where
  "add_edge n a b g =
     (if in_conflict n g a b then g
      else \<lparr>cg_adjacent = modify_at b (\<lambda>l. l @ [a]) (modify_at a (\<lambda>l. l @ [b]) (cg_adjacent g)),
        cg_edges = cg_edges g @ [edge_key n a b], cg_capped = (kMaxConflictEdges \<le> Suc (length (cg_edges g)))\<rparr>)"

fun conflict_partners :: "nat \<Rightarrow> 'a::{plus,ord} \<Rightarrow> 'a \<times> nat \<Rightarrow> ('a \<times> nat) list \<Rightarrow> conflict_graph \<Rightarrow> conflict_graph" where
  "conflict_partners n room p [] g = g"
| "conflict_partners n room p (q # qs) g =
     (if fst p + fst q \<le> room then g
      else let g' = add_edge n (snd p) (snd q) g in if cg_capped g' then g' else conflict_partners n room p qs g')"

fun conflict_pairs :: "nat \<Rightarrow> 'a::{plus,ord} \<Rightarrow> ('a \<times> nat) list \<Rightarrow> conflict_graph \<Rightarrow> conflict_graph" where
  "conflict_pairs n room [] g = g"
| "conflict_pairs n room (p # ps) g = (if cg_capped g then g else conflict_pairs n room ps (conflict_partners n room p ps g))"

definition conflict_side ::
    "'a::{zero,one,plus,minus,uminus,times,abs,ord} scalar \<Rightarrow> 'a model \<Rightarrow> 'a list \<Rightarrow> 'a list \<Rightarrow> nat \<Rightarrow> (nat \<times> 'a) list \<Rightarrow>
     bool \<Rightarrow> conflict_graph \<Rightarrow> conflict_graph" where
  "conflict_side sc m lo hi i row upper g =
     (let sign = (if upper then 1 else - 1); bound = (if upper then row_upper m ! i else - (row_lower m ! i)) in
      if \<not> sc_isfinite sc bound then g
      else
        let (positive, least, finite) = scan_conflict_row sc m lo hi sign row in
        if \<not> finite \<or> length positive < 2 then g
        else conflict_pairs (num_cols m) (bound - least + sc_lit sc (1 / 10 ^ 6) * cmax 1 \<bar>bound\<bar>)
          (sort_by (\<lambda>l r. fst r < fst l \<or> feq (fst l) (fst r) \<and> snd l < snd r) positive) g)"

definition conflict_graph_of ::
    "'a::{zero,one,plus,minus,uminus,times,abs,ord} scalar \<Rightarrow> 'a model \<Rightarrow> 'a list \<Rightarrow> 'a list \<Rightarrow> conflict_graph" where
  "conflict_graph_of sc m lo hi =
     (let by_row = csr_build (matrix m) in
      fold (\<lambda>i g. if cg_capped g then g
          else conflict_side sc m lo hi i (csr_row by_row i) False (conflict_side sc m lo hi i (csr_row by_row i) True g))
        [0..<num_rows m] \<lparr>cg_adjacent = replicate (num_cols m) [], cg_edges = [], cg_capped = False\<rparr>)"

section \<open>Cliques\<close>

definition clique_order :: "'a::{zero,one,ord} scalar \<Rightarrow> 'a model \<Rightarrow> 'a list \<Rightarrow> 'a list \<Rightarrow> 'a list \<Rightarrow> conflict_graph \<Rightarrow> nat list" where
  "clique_order sc m x lo hi g =
     sort_by (\<lambda>l r. x ! r < x ! l \<or> feq (x ! l) (x ! r) \<and> l < r)
       (filter (\<lambda>j. is_binary m lo hi j \<and> sc_lit sc (1 / 10 ^ 6) < x ! j \<and> cg_adjacent g ! j \<noteq> []) [0..<num_cols m])"

text \<open>The greedy clique from a start, with its weight.\<close>

definition grow_clique :: "nat \<Rightarrow> conflict_graph \<Rightarrow> 'a::plus list \<Rightarrow> nat list \<Rightarrow> nat \<Rightarrow> nat list \<times> 'a" where
  "grow_clique n g x order start = fold (\<lambda>v (clique, weight).
     if v \<noteq> start \<and> list_all (\<lambda>c. in_conflict n g v c) clique then (clique @ [v], weight + x ! v) else (clique, weight))
       order ([start], x ! start)"

definition extend_clique :: "nat \<Rightarrow> conflict_graph \<Rightarrow> nat \<Rightarrow> nat list \<Rightarrow> nat list" where
  "extend_clique n g start clique = fold (\<lambda>v clique.
     if v \<notin> set clique \<and> list_all (\<lambda>c. in_conflict n g v c) clique then clique @ [v] else clique)
       (sort (cg_adjacent g ! start)) clique"

definition clique_cut :: "nat \<Rightarrow> nat list \<Rightarrow> 'a::{zero,one} cut" where
  "clique_cut n clique = \<lparr>cut_coeff = fold (\<lambda>c cs. cs[c := 1]) clique (replicate n 0), cut_rhs = 1\<rparr>"

definition clique_from ::
    "'a::{zero,one,plus,ord} scalar \<Rightarrow> nat \<Rightarrow> conflict_graph \<Rightarrow> 'a list \<Rightarrow> nat list \<Rightarrow> nat \<Rightarrow>
     'a cut list \<times> nat list list \<Rightarrow> 'a cut list \<times> nat list list" where
  "clique_from sc n g x order start = (\<lambda>(cuts, seen).
     let (clique, weight) = grow_clique n g x order start in
     if weight \<le> 1 + sc_lit sc (1 / 10 ^ 6) then (cuts, seen)
     else
       let whole = sort (extend_clique n g start clique) in
       if whole \<in> set seen then (cuts, seen) else (cuts @ [clique_cut n whole], seen @ [whole]))"

definition generate_clique_cuts ::
    "'a::{zero,one,plus,minus,uminus,times,abs,ord} scalar \<Rightarrow> 'a model \<Rightarrow> 'a list \<Rightarrow> 'a list \<Rightarrow> 'a list \<Rightarrow> 'a cut list" where
  "generate_clique_cuts sc m x lo hi =
     (if length x \<noteq> num_cols m then []
      else
        let g = conflict_graph_of sc m lo hi in
        if cg_edges g = [] then []
        else
          let order = clique_order sc m x lo hi g in
          fst (fold (clique_from sc (num_cols m) g x order) (take kCliqueStarts order) ([], [])))"

section \<open>Edges are conflicts\<close>

lemma edge_key_inj:
  assumes "p < n" "q < n" "a < n" "b < n" "edge_key n p q = edge_key n a b"
  shows "p = a \<and> q = b \<or> p = b \<and> q = a"
proof -
  have n: "0 < n" using assms(1) by simp
  have m: "max p q < n" "max a b < n" using assms by simp_all
  have e: "min p q * n + max p q = min a b * n + max a b" using assms(5) by (simp add: edge_key_def)
  have "min p q = min a b" using arg_cong[OF e, of "\<lambda>k. k div n"] m n by simp
  moreover have "max p q = max a b" using arg_cong[OF e, of "\<lambda>k. k mod n"] m by simp
  ultimately show ?thesis by (auto simp: min_def max_def split: if_splits)
qed

text \<open>Two columns that are binary and cannot both be one.\<close>

definition exclusive :: "xnum model \<Rightarrow> xnum list \<Rightarrow> xnum list \<Rightarrow> nat \<Rightarrow> nat \<Rightarrow> bool" where
  "exclusive m lo hi p q \<longleftrightarrow> p < num_cols m \<and> q < num_cols m \<and> p \<noteq> q \<and> is_binary m lo hi p \<and> is_binary m lo hi q \<and>
     (\<forall>x. solves m lo hi x \<longrightarrow> \<not> (x p = 1 \<and> x q = 1))"

definition graph_ok :: "xnum model \<Rightarrow> xnum list \<Rightarrow> xnum list \<Rightarrow> conflict_graph \<Rightarrow> bool" where
  "graph_ok m lo hi g \<longleftrightarrow> (\<forall>k \<in> set (cg_edges g). \<exists>p q. k = edge_key (num_cols m) p q \<and> exclusive m lo hi p q) \<and>
     length (cg_adjacent g) = num_cols m \<and> (\<forall>j < num_cols m. \<forall>v \<in> set (cg_adjacent g ! j). v < num_cols m)"

lemma exclusive_sym: "exclusive m lo hi p q \<Longrightarrow> exclusive m lo hi q p"
  by (auto simp: exclusive_def)

lemma in_conflict_exclusive:
  assumes "graph_ok m lo hi g" "in_conflict (num_cols m) g p q" "p < num_cols m" "q < num_cols m"
  shows "exclusive m lo hi p q"
proof -
  obtain a b where ab: "edge_key (num_cols m) p q = edge_key (num_cols m) a b" "exclusive m lo hi a b"
    using assms(1,2) by (auto simp: graph_ok_def in_conflict_def)
  then have "p = a \<and> q = b \<or> p = b \<and> q = a" using edge_key_inj[OF assms(3,4)] by (auto simp: exclusive_def)
  then show ?thesis using ab(2) exclusive_sym by blast
qed

lemma add_edge_ok: "graph_ok m lo hi g \<Longrightarrow> exclusive m lo hi a b \<Longrightarrow> graph_ok m lo hi (add_edge (num_cols m) a b g)"
  by (auto simp: graph_ok_def add_edge_def nth_modify_at exclusive_def split: if_splits)

lemma partners_ok:
  "graph_ok m lo hi g \<Longrightarrow> \<forall>q \<in> set qs. \<not> fst p + fst q \<le> room \<longrightarrow> exclusive m lo hi (snd p) (snd q) \<Longrightarrow>
    graph_ok m lo hi (conflict_partners (num_cols m) room p qs g)"
  by (induction qs arbitrary: g) (auto simp: Let_def add_edge_ok)

lemma pairs_ok:
  "graph_ok m lo hi g \<Longrightarrow> distinct ps \<Longrightarrow>
   \<forall>p \<in> set ps. \<forall>q \<in> set ps. p \<noteq> q \<longrightarrow> \<not> fst p + fst q \<le> room \<longrightarrow> exclusive m lo hi (snd p) (snd q) \<Longrightarrow>
    graph_ok m lo hi (conflict_pairs (num_cols m) room ps g)"
proof (induction ps arbitrary: g)
  case (Cons p ps)
  have "\<forall>q \<in> set ps. \<not> fst p + fst q \<le> room \<longrightarrow> exclusive m lo hi (snd p) (snd q)" using Cons.prems(2,3) by auto
  from partners_ok[OF Cons.prems(1) this] Cons show ?case by simp
qed simp

subsection \<open>A row\<close>

lemma binary_01:
  assumes "is_binary m lo hi j" "j < num_cols m" "solves m lo hi x"
  shows "x j = 0 \<or> x j = 1"
proof -
  obtain z where z: "x j = of_int z" using assms solves_col(3)[OF assms(3,2)] by (auto simp: is_binary_def elim: Ints_cases)
  have feq_eq: "feq l (X q) \<Longrightarrow> l = X q" for l q by (cases l) (auto simp: feq_def)
  have "lo ! j = X 0" "hi ! j = X 1" using assms(1) feq_eq by (simp_all add: is_binary_def X_consts)
  then have "0 \<le> x j" "x j \<le> 1" using solves_col(1,2)[OF assms(3,2)] by simp_all
  then have "0 \<le> z" "z \<le> 1" by (simp_all add: z)
  then have "z = 0 \<or> z = 1" by linarith
  then show ?thesis using z by auto
qed

text \<open>What the scan of a finite row has found.\<close>

lemma scan_entry:
  assumes "s * v = w"
  shows "scan_conflict_entry (exact_scalar ft mt) m lo hi (X s) (j, X v) (ps, ls, fin) =
    (if \<not> fin then (ps, ls, fin)
     else if 0 < w \<and> is_binary m lo hi j then (ps @ [(X w, j)], ls, fin)
     else if w \<noteq> 0 then (ps, ls + X w * (if 0 < w then lo ! j else hi ! j), xfinite (if 0 < w then lo ! j else hi ! j))
     else (ps, ls, fin))"
proof -
  have "X s * X v = X w" using assms by simp
  then show ?thesis by (simp add: scan_conflict_entry_def Let_def exact_scalar_fields X_consts)
qed

lemma scan_ok:
  assumes "\<forall>e \<in> set row. fst e < num_cols m \<and> xfinite (snd e)" "distinct (map fst row)"
    and "scan_conflict_row (exact_scalar ft mt) m lo hi (X s) row = (positive, least, True)"
  shows "\<exists>l. least = X l \<and> distinct (map snd positive) \<and> snd ` set positive \<subseteq> fst ` set row \<and>
    (\<forall>(a, j) \<in> set positive. j < num_cols m \<and> is_binary m lo hi j \<and> (\<exists>q. a = X q \<and> 0 < q)) \<and>
    (\<forall>x. solves m lo hi x \<longrightarrow> l + (\<Sum>(a, j)\<leftarrow>positive. xval a * x j) \<le> s * terms_at row x)"
  using assms
proof (induction row arbitrary: positive least rule: rev_induct)
  case Nil
  then have "positive = []" "least = X 0" by (auto simp: scan_conflict_row_def X_consts)
  then show ?case by (intro exI[of _ 0]) simp
next
  case (snoc e row)
  obtain j v where e: "e = (j, X v)" using snoc.prems(1) by (cases e) (auto elim: xfinite.elims)
  have j: "j < num_cols m" "j \<notin> fst ` set row" using snoc.prems(1,2) e by auto
  obtain ps ls fin where run: "scan_conflict_row (exact_scalar ft mt) m lo hi (X s) row = (ps, ls, fin)" by (metis prod_cases3)
  define w where "w = s * v"
  have step: "(positive, least, True) = (if \<not> fin then (ps, ls, fin)
     else if 0 < w \<and> is_binary m lo hi j then (ps @ [(X w, j)], ls, fin)
     else if w \<noteq> 0 then (ps, ls + X w * (if 0 < w then lo ! j else hi ! j), xfinite (if 0 < w then lo ! j else hi ! j))
     else (ps, ls, fin))"
    using snoc.prems(3) run by (simp add: scan_conflict_row_def e scan_entry[OF w_def[symmetric]])
  then have fin: "fin" by (auto split: if_splits)
  from snoc.IH[OF _ _ run[unfolded fin[THEN eqTrueI]]] snoc.prems(1,2) obtain l where
    l: "ls = X l" "distinct (map snd ps)" "snd ` set ps \<subseteq> fst ` set row"
    "\<forall>(a, j) \<in> set ps. j < num_cols m \<and> is_binary m lo hi j \<and> (\<exists>q. a = X q \<and> 0 < q)"
    "\<forall>x. solves m lo hi x \<longrightarrow> l + (\<Sum>(a, j)\<leftarrow>ps. xval a * x j) \<le> s * terms_at row x" by auto
  consider (pos) "0 < w" "is_binary m lo hi j" "positive = ps @ [(X w, j)]" "least = ls"
    | (other) q where "w \<noteq> 0" "(if 0 < w then lo ! j else hi ! j) = X q" "positive = ps" "least = X (l + w * q)"
    | (zero) "w = 0" "positive = ps" "least = ls"
  proof (cases "0 < w \<and> is_binary m lo hi j")
    case True
    then show ?thesis using step fin by (intro pos) simp_all
  next
    case not: False
    show ?thesis
    proof (cases "w = 0")
      case True
      then show ?thesis using step fin by (intro zero) simp_all
    next
      case False
      let ?low = "if 0 < w then lo ! j else hi ! j"
      have "xfinite ?low" "positive = ps" "least = X l + X w * ?low"
        using step fin not False l(1) by (simp_all only: if_False if_True simp_thms prod.inject)
      moreover from this(1) obtain q where "?low = X q" using xfinite.elims(2) by blast
      ultimately show ?thesis using False by (intro other) auto
    qed
  qed
  then show ?case
  proof cases
    case pos
    have "\<forall>x. solves m lo hi x \<longrightarrow> l + (\<Sum>(a, j)\<leftarrow>positive. xval a * x j) \<le> s * terms_at (row @ [e]) x"
      using l(5) by (auto simp: pos(3) e w_def algebra_simps)
    moreover have "distinct (map snd positive)" "snd ` set positive \<subseteq> fst ` set (row @ [e])" using l(2,3) j(2) by (auto simp: pos(3) e)
    moreover have "\<forall>(a, j) \<in> set positive. j < num_cols m \<and> is_binary m lo hi j \<and> (\<exists>q. a = X q \<and> 0 < q)"
      using l(4) pos(1,2) j(1) by (auto simp: pos(3))
    ultimately show ?thesis using l(1) pos(4) by blast
  next
    case (other q)
    have low: "w * q \<le> w * x j" if "solves m lo hi x" for x
      using other(1,2) solves_col(1,2)[OF that j(1)] by (cases "0 < w") (auto simp: mult_left_mono mult_left_mono_neg)
    have split: "s * terms_at (row @ [e]) x = s * terms_at row x + w * x j" for x by (simp add: e w_def algebra_simps)
    have le: "(l + w * q) + (\<Sum>(a, j)\<leftarrow>ps. xval a * x j) \<le> s * terms_at (row @ [e]) x" if "solves m lo hi x" for x
    proof -
      show ?thesis using low[OF that] l(5)[rule_format, OF that] unfolding split by linarith
    qed
    then have "\<forall>x. solves m lo hi x \<longrightarrow> (l + w * q) + (\<Sum>(a, j)\<leftarrow>positive. xval a * x j) \<le> s * terms_at (row @ [e]) x"
      by (simp add: other(3))
    moreover have "distinct (map snd positive)" "snd ` set positive \<subseteq> fst ` set (row @ [e])" using l(2,3) by (auto simp: other(3))
    ultimately show ?thesis using l(4) other(4) unfolding other(3) by blast
  next
    case zero
    then have "s * v = 0" by (simp add: w_def)
    then have "\<forall>x. solves m lo hi x \<longrightarrow> l + (\<Sum>(a, j)\<leftarrow>positive. xval a * x j) \<le> s * terms_at (row @ [e]) x"
      using l(5) by (auto simp: zero(2) e distrib_left)
    moreover have "distinct (map snd positive)" "snd ` set positive \<subseteq> fst ` set (row @ [e])" using l(2,3) by (auto simp: zero(2))
    ultimately show ?thesis using l(1,4) zero(3) unfolding zero(2) by blast
  qed
qed

lemma two_terms:
  assumes "distinct ps" "p \<in> set ps" "q \<in> set ps" "p \<noteq> q" "\<And>r. r \<in> set ps \<Longrightarrow> 0 \<le> f r"
  shows "f p + f q \<le> (\<Sum>r\<leftarrow>ps. f r :: rat)"
proof -
  have "sum f {p, q} \<le> sum f (set ps)" using assms(2,3,5) by (intro sum_mono2) auto
  then show ?thesis using assms(1,4) by (simp add: sum_list_distinct_conv_sum_set)
qed

lemma row_conflicts:
  assumes sep: "separable m" and i: "i < num_rows m"
    and s: "s = (if upper then 1 else - 1)" "X B = (if upper then row_upper m ! i else - (row_lower m ! i))"
    and scan: "scan_conflict_row (exact_scalar ft mt) m lo hi (X s) (row_entries (matrix m) i) = (positive, X l, True)"
    and p: "p \<in> set positive" "q \<in> set positive" "p \<noteq> q" "\<not> fst p + fst q \<le> X (B - l + margin)" "0 \<le> margin"
  shows "exclusive m lo hi (snd p) (snd q)"
proof -
  have fe: "\<forall>e \<in> set (row_entries (matrix m) i). fst e < num_cols m \<and> xfinite (snd e)" using row_facts[OF sep i] by auto
  from scan_ok[OF fe distinct_row_entries[OF sep] scan] have
    d: "distinct (map snd positive)" and
    pos: "\<forall>(a, j) \<in> set positive. j < num_cols m \<and> is_binary m lo hi j \<and> (\<exists>q. a = X q \<and> 0 < q)" and
    le: "solves m lo hi x \<Longrightarrow> l + (\<Sum>(a, j)\<leftarrow>positive. xval a * x j) \<le> s * terms_at (row_entries (matrix m) i) x" for x by auto
  obtain a where a: "fst p = X a" "snd p < num_cols m" "is_binary m lo hi (snd p)" using pos p(1) by (cases p) auto
  obtain b where b: "fst q = X b" "snd q < num_cols m" "is_binary m lo hi (snd q)" using pos p(2) by (cases q) auto
  have ne: "snd p \<noteq> snd q" using d p(1-3) by (metis distinct_map inj_onD)
  have "\<not> (x (snd p) = 1 \<and> x (snd q) = 1)" if x: "solves m lo hi x" for x
  proof
    assume one: "x (snd p) = 1 \<and> x (snd q) = 1"
    have nn: "0 \<le> (case r of (a, j) \<Rightarrow> xval a * x j)" if "r \<in> set positive" for r
    proof -
      have "case r of (a, j) \<Rightarrow> j < num_cols m \<and> is_binary m lo hi j \<and> (\<exists>q. a = X q \<and> 0 < q)" using pos that by blast
      then obtain c j where r: "r = (X c, j)" "0 < c" "is_binary m lo hi j" "j < num_cols m" by (cases r) auto
      then show ?thesis using binary_01[OF r(3,4) x] by auto
    qed
    have "a + b \<le> (\<Sum>(a, j)\<leftarrow>positive. xval a * x j)"
      using two_terms[OF _ p(1-3), of "\<lambda>(a, j). xval a * x j"] nn d one a(1) b(1)
      by (cases p; cases q) (auto simp: distinct_map)
    moreover have "s * terms_at (row_entries (matrix m) i) x \<le> B"
    proof (cases upper)
      case True
      then have "X (terms_at (row_entries (matrix m) i) x) \<le> X B" using solves_row(2)[OF x i] s(2) by (simp add: row_value_terms[OF sep i])
      then show ?thesis using True s(1) by simp
    next
      case False
      then obtain r where "row_lower m ! i = X r" "r = - B" using s(2) by (cases "row_lower m ! i") (auto simp: uminus_xnum_def)
      then show ?thesis using False s(1) solves_row(1)[OF x i] by (simp add: row_value_terms[OF sep i])
    qed
    ultimately show False using le[OF x] p(4,5) a(1) b(1) by simp
  qed
  then show ?thesis using a b ne by (simp add: exclusive_def)
qed

lemma conflict_side_ok:
  assumes sep: "separable m" and i: "i < num_rows m" and g: "graph_ok m lo hi g"
  shows "graph_ok m lo hi (conflict_side (exact_scalar ft mt) m lo hi i (row_entries (matrix m) i) upper g)"
proof -
  define s where "s = (if upper then 1 else - 1 :: rat)"
  define bound where "bound = (if upper then row_upper m ! i else - (row_lower m ! i))"
  obtain positive least fin where scan: "scan_conflict_row (exact_scalar ft mt) m lo hi (X s) (row_entries (matrix m) i) = (positive, least, fin)"
    by (metis prod_cases3)
  have sign: "(if upper then 1 else - 1) = X s" by (simp add: s_def X_consts)
  define room where "room = bound - least + X (1 / 10 ^ 6) * cmax 1 \<bar>bound\<bar>"
  define srt where "srt = sort_by (\<lambda>l r. fst r < fst l \<or> feq (fst l) (fst r) \<and> snd l < snd r) positive"
  have run: "conflict_side (exact_scalar ft mt) m lo hi i (row_entries (matrix m) i) upper g =
      (if \<not> xfinite bound \<or> \<not> fin \<or> length positive < 2 then g else conflict_pairs (num_cols m) room srt g)"
    unfolding conflict_side_def Let_def sign bound_def[symmetric] exact_scalar_fields scan prod.case room_def srt_def by simp
  show ?thesis
  proof (cases "\<not> xfinite bound \<or> \<not> fin \<or> length positive < 2")
    case False
    then obtain B where B: "bound = X B" by (auto elim: xfinite.elims)
    have fin: fin using False by simp
    have fe: "\<forall>e \<in> set (row_entries (matrix m) i). fst e < num_cols m \<and> xfinite (snd e)" using row_facts[OF sep i] by auto
    from scan_ok[OF fe distinct_row_entries[OF sep] scan[unfolded fin[THEN eqTrueI]]] obtain l where
      l: "least = X l" and d: "distinct (map snd positive)" by auto
    define margin where "margin = 1 / 10 ^ 6 * max 1 \<bar>B\<bar>"
    have "cmax 1 \<bar>X B\<bar> = X (max 1 \<bar>B\<bar>)" by (simp add: cmax_def X_consts max_def)
    then have room: "room = X (B - l + margin)" unfolding room_def B l margin_def by simp
    have margin: "0 \<le> margin" by (simp add: margin_def)
    have "distinct positive" using d by (simp add: distinct_map)
    moreover have "mset srt = mset positive" by (simp add: srt_def)
    ultimately have "distinct srt" using mset_eq_imp_distinct_iff by blast
    moreover have "exclusive m lo hi (snd p) (snd q)" if "p \<in> set srt" "q \<in> set srt" "p \<noteq> q" "\<not> fst p + fst q \<le> room" for p q
    proof -
      have m: "set srt = set positive" by (simp add: srt_def)
      have "scan_conflict_row (exact_scalar ft mt) m lo hi (X s) (row_entries (matrix m) i) = (positive, X l, True)"
        "X B = (if upper then row_upper m ! i else - (row_lower m ! i))" using scan fin l B bound_def by simp_all
      from row_conflicts[OF sep i s_def this(2,1) that(1)[unfolded m] that(2)[unfolded m] that(3) that(4)[unfolded room] margin]
      show ?thesis .
    qed
    ultimately show ?thesis unfolding run using False pairs_ok[OF g, of srt room] by auto
  qed (use g run in simp)
qed

lemma conflict_graph_ok:
  assumes sep: "separable m"
  shows "graph_ok m lo hi (conflict_graph_of (exact_scalar ft mt) m lo hi)"
proof -
  let ?row = "csr_row (csr_build (matrix m))"
  have "graph_ok m lo hi (fold (\<lambda>i g. if cg_capped g then g else conflict_side (exact_scalar ft mt) m lo hi i (?row i) False
      (conflict_side (exact_scalar ft mt) m lo hi i (?row i) True g)) is g)"
    if "graph_ok m lo hi g" "\<forall>i \<in> set is. i < num_rows m" for "is" g
    using that by (induction "is" arbitrary: g) (simp_all add: csr_row_entries[OF sep] conflict_side_ok[OF sep])
  from this[of "\<lparr>cg_adjacent = replicate (num_cols m) [], cg_edges = [], cg_capped = False\<rparr>" "[0..<num_rows m]"]
  show ?thesis by (simp add: conflict_graph_of_def Let_def graph_ok_def)
qed

section \<open>Cliques are cliques\<close>

definition clique_ok :: "xnum model \<Rightarrow> xnum list \<Rightarrow> xnum list \<Rightarrow> nat list \<Rightarrow> bool" where
  "clique_ok m lo hi cl \<longleftrightarrow> distinct cl \<and> (\<forall>c \<in> set cl. c < num_cols m \<and> is_binary m lo hi c) \<and>
     (\<forall>a \<in> set cl. \<forall>b \<in> set cl. a \<noteq> b \<longrightarrow> exclusive m lo hi a b)"

lemma clique_add:
  assumes g: "graph_ok m lo hi g" and cl: "clique_ok m lo hi cl" "cl \<noteq> []" and v: "v < num_cols m"
    and all: "list_all (\<lambda>c. in_conflict (num_cols m) g v c) cl"
  shows "clique_ok m lo hi (cl @ [v])"
proof -
  have ex: "exclusive m lo hi v c" if "c \<in> set cl" for c
    using in_conflict_exclusive[OF g _ v] all cl(1) that by (auto simp: list_all_iff clique_ok_def)
  then have "v \<notin> set cl" by (auto simp: exclusive_def)
  moreover have "is_binary m lo hi v" using ex[of "hd cl"] cl(2) by (simp add: exclusive_def)
  ultimately show ?thesis using cl(1) ex v exclusive_sym by (auto simp: clique_ok_def)
qed

lemma grow_clique_ok:
  assumes g: "graph_ok m lo hi g" and start: "clique_ok m lo hi [start]" and order: "\<forall>v \<in> set order. v < num_cols m"
  shows "clique_ok m lo hi (fst (grow_clique (num_cols m) g x order start)) \<and> fst (grow_clique (num_cols m) g x order start) \<noteq> []"
proof -
  have "clique_ok m lo hi (fst (fold (\<lambda>v (clique, weight). if v \<noteq> start \<and> list_all (\<lambda>c. in_conflict (num_cols m) g v c) clique
      then (clique @ [v], weight + x ! v) else (clique, weight)) vs (cl, w))) \<and>
    fst (fold (\<lambda>v (clique, weight). if v \<noteq> start \<and> list_all (\<lambda>c. in_conflict (num_cols m) g v c) clique
      then (clique @ [v], weight + x ! v) else (clique, weight)) vs (cl, w)) \<noteq> []"
    if "clique_ok m lo hi cl" "cl \<noteq> []" "\<forall>v \<in> set vs. v < num_cols m" for vs cl w
    using that by (induction vs arbitrary: cl w) (auto simp: clique_add[OF g])
  from this[OF start _ order] show ?thesis by (simp add: grow_clique_def)
qed

lemma extend_clique_ok:
  assumes g: "graph_ok m lo hi g" and cl: "clique_ok m lo hi cl" "cl \<noteq> []" and start: "start < num_cols m"
  shows "clique_ok m lo hi (extend_clique (num_cols m) g start cl)"
proof -
  have "clique_ok m lo hi (fold (\<lambda>v clique. if v \<notin> set clique \<and> list_all (\<lambda>c. in_conflict (num_cols m) g v c) clique
      then clique @ [v] else clique) vs cl)" if "clique_ok m lo hi cl" "cl \<noteq> []" "\<forall>v \<in> set vs. v < num_cols m" for vs cl
    using that by (induction vs arbitrary: cl) (auto simp: clique_add[OF g])
  from this[OF cl] show ?thesis using g start by (simp add: extend_clique_def graph_ok_def)
qed

lemma clique_sum:
  assumes "clique_ok m lo hi cl" "solves m lo hi x"
  shows "sum x (set cl) \<le> 1"
proof -
  have b: "x c = 0 \<or> x c = 1" if "c \<in> set cl" for c using assms binary_01[OF _ _ assms(2)] that by (auto simp: clique_ok_def)
  show ?thesis
  proof (cases "\<exists>c \<in> set cl. x c = 1")
    case True
    then obtain c where c: "c \<in> set cl" "x c = 1" by blast
    have "x d = 0" if "d \<in> set cl - {c}" for d
      using assms c b[of d] that by (auto simp: clique_ok_def exclusive_def)
    then have "sum x (set cl - {c}) = 0" by simp
    then show ?thesis using c sum.remove[of "set cl" c x] by simp
  qed (use b in \<open>simp add: sum.neutral\<close>)
qed

lemma clique_coeffs:
  assumes "\<forall>c \<in> set cl. c < n"
  shows "fold (\<lambda>c cs. cs[c := 1]) cl (replicate n 0) = map (\<lambda>j. if j \<in> set cl then 1 else 0) [0..<n]"
  using assms
proof (induction cl rule: rev_induct)
  case (snoc c cl)
  then show ?case by (auto intro!: nth_equalityI simp: nth_list_update)
qed (simp add: map_replicate_trivial)

lemma clique_cut_valid:
  assumes "clique_ok m lo hi cl"
  shows "valid_cut m lo hi (clique_cut (num_cols m) cl)"
proof -
  let ?cs = "map (\<lambda>j. if j \<in> set cl then 1 else 0 :: xnum) [0..<num_cols m]"
  have in_range: "\<forall>c \<in> set cl. c < num_cols m" using assms by (simp add: clique_ok_def)
  have "lhs_at ?cs x = (\<Sum>j < num_cols m. if j \<in> set cl then x j else 0)" for x
    unfolding lhs_at_def by (rule sum.cong) (auto simp: X_consts)
  moreover have "(\<Sum>j < num_cols m. if j \<in> set cl then x j else 0) = sum x (set cl)" for x :: "nat \<Rightarrow> rat"
    using in_range by (subst sum.inter_restrict[symmetric]) (auto intro: sum.cong)
  ultimately have "lhs_at ?cs x \<le> 1" if "solves m lo hi x" for x using clique_sum[OF assms that] by simp
  then show ?thesis
    unfolding valid_cut_def clique_cut_def cut_holds_def clique_coeffs[OF in_range] by (auto simp: all_finite_def X_consts)
qed

lemma clique_from_valid:
  assumes g: "graph_ok m lo hi g" and order: "\<forall>v \<in> set order. v < num_cols m \<and> is_binary m lo hi v" "start \<in> set order"
    and r: "\<forall>c \<in> set (fst r). valid_cut m lo hi c"
  shows "\<forall>c \<in> set (fst (clique_from sc (num_cols m) g x order start r)). valid_cut m lo hi c"
proof -
  obtain cuts seen where r': "r = (cuts, seen)" by fastforce
  obtain cl w where cl: "grow_clique (num_cols m) g x order start = (cl, w)" by fastforce
  have start: "start < num_cols m" "clique_ok m lo hi [start]" using order by (auto simp: clique_ok_def)
  have "clique_ok m lo hi cl" "cl \<noteq> []" using grow_clique_ok[OF g start(2), of order x] order(1) cl by simp_all
  then have "clique_ok m lo hi (sort (extend_clique (num_cols m) g start cl))"
    using extend_clique_ok[OF g _ _ start(1), of cl] by (simp add: clique_ok_def)
  from clique_cut_valid[OF this] show ?thesis using r by (simp add: r' clique_from_def cl Let_def)
qed

text \<open>C17. Every clique cut holds at every point of the model: the margin of the conflict test is on the safe side,
  and neither the cap on the edges nor the LP point the separation is greedy at can make one invalid.\<close>

theorem clique_cuts_valid:
  assumes "separable m" "c \<in> set (generate_clique_cuts (exact_scalar ft mt) m x lo hi)"
  shows "valid_cut m lo hi c"
proof -
  let ?g = "conflict_graph_of (exact_scalar ft mt) m lo hi"
  define order where "order = clique_order (exact_scalar ft mt) m x lo hi ?g"
  note g = conflict_graph_ok[OF assms(1), of lo hi ft mt]
  have order: "\<forall>v \<in> set order. v < num_cols m \<and> is_binary m lo hi v" by (simp add: order_def clique_order_def)
  have "\<forall>c \<in> set (fst (fold (clique_from (exact_scalar ft mt) (num_cols m) ?g x order) ss r)). valid_cut m lo hi c"
    if "\<forall>c \<in> set (fst r). valid_cut m lo hi c" "set ss \<subseteq> set order" for ss r
    using that
  proof (induction ss arbitrary: r)
    case (Cons s ss)
    show ?case using Cons.IH[OF clique_from_valid[OF g order _ Cons.prems(1), of s]] Cons.prems(2) by simp
  qed simp
  from this[of "([], [])" "take kCliqueStarts order"] show ?thesis
    using assms(2) by (auto simp: generate_clique_cuts_def Let_def order_def[symmetric] set_take_subset split: if_splits)
qed

text \<open>\<open>x + y \<le> 1\<close> over two binaries, at the point \<open>(3/4, 3/4)\<close>.\<close>

definition demo_clique_model :: "xnum model" where
  "demo_clique_model = empty_model\<lparr>col_cost := [X 1, X 1], col_lower := [X 0, X 0], col_upper := [X 1, X 1], col_type := [kInteger, kInteger],
     row_lower := [XMInf], row_upper := [X 1],
     matrix := empty_sparse\<lparr>nrows := 1, ncols := 2, frozen := True, column_starts := [0, 1, 2], row_indices := [0, 0], vals := [X 1, X 1]\<rparr>\<rparr>"

lemma demo_clique_fields:
  "num_cols demo_clique_model = 2" "num_rows demo_clique_model = 1" "col_type demo_clique_model = [kInteger, kInteger]"
  "row_lower demo_clique_model = [XMInf]" "row_upper demo_clique_model = [X 1]"
  "column (matrix demo_clique_model) 0 = [(0, X 1)]" "column (matrix demo_clique_model) (Suc 0) = [(0, X 1)]"
  by (simp_all add: demo_clique_model_def num_cols_def num_rows_def empty_model_def empty_sparse_def column_def segment_def)

lemma demo_clique_separable: "separable demo_clique_model"
  using demo_clique_fields
  by (simp add: separable_def csc_ok_def demo_clique_model_def empty_model_def empty_sparse_def stores_def column_def segment_def
      num_cols_def num_rows_def numeral_2_eq_2 less_Suc_eq)

lemma demo_clique_cuts:
  "generate_clique_cuts (exact_scalar 0 0) demo_clique_model [X (3 / 4), X (3 / 4)] [X 0, X 0] [X 1, X 1] =
     [\<lparr>cut_coeff = [X 1, X 1], cut_rhs = X 1\<rparr>]"
proof -
  let ?sc = "exact_scalar 0 0" and ?lo = "[X 0, X 0]" and ?hi = "[X 1, X 1]" and ?m = demo_clique_model
  have row: "csr_row (csr_build (matrix ?m)) 0 = [(0, X 1), (Suc 0, X 1)]"
    using csr_row_entries[OF demo_clique_separable, of 0] demo_clique_fields demo_clique_separable
    by (simp add: row_entries_def walk_columns_def separable_def numeral_2_eq_2)
  have b: "is_binary ?m ?lo ?hi 0" "is_binary ?m ?lo ?hi (Suc 0)" by (simp_all add: is_binary_def demo_clique_fields X_consts)
  define g where "g = \<lparr>cg_adjacent = [[Suc 0], [0]], cg_edges = [Suc 0], cg_capped = False\<rparr>"
  have "conflict_side ?sc ?m ?lo ?hi 0 [(0, X 1), (Suc 0, X 1)] True \<lparr>cg_adjacent = [[], []], cg_edges = [], cg_capped = False\<rparr> = g"
    by (simp add: conflict_side_def demo_clique_fields exact_scalar_fields scan_conflict_row_def scan_conflict_entry_def b X_consts sort_by_def
        cmax_def add_edge_def in_conflict_def edge_key_def modify_at_def kMaxConflictEdges_def g_def)
  moreover have "conflict_side ?sc ?m ?lo ?hi 0 [(0, X 1), (Suc 0, X 1)] False g = g"
    by (simp add: conflict_side_def demo_clique_fields exact_scalar_fields uminus_xnum_def)
  ultimately have graph: "conflict_graph_of ?sc ?m ?lo ?hi = g"
    by (simp add: conflict_graph_of_def Let_def demo_clique_fields row numeral_2_eq_2)
  have order: "clique_order ?sc ?m [X (3 / 4), X (3 / 4)] ?lo ?hi g = [0, Suc 0]"
    by (simp add: clique_order_def demo_clique_fields numeral_2_eq_2 b exact_scalar_fields g_def sort_by_def)
  show ?thesis
    by (simp add: generate_clique_cuts_def Let_def graph order demo_clique_fields kCliqueStarts_def)
       (simp add: g_def clique_from_def grow_clique_def in_conflict_def edge_key_def exact_scalar_fields X_consts extend_clique_def
        clique_cut_def numeral_2_eq_2)
qed

theorem clique_cuts_valid_witness:
  "valid_cut demo_clique_model [X 0, X 0] [X 1, X 1] \<lparr>cut_coeff = [X 1, X 1], cut_rhs = X 1\<rparr>"
  by (rule clique_cuts_valid[OF demo_clique_separable, where ft = 0 and mt = 0 and x = "[X (3 / 4), X (3 / 4)]"])
     (simp add: demo_clique_cuts)

end
