(* ===== verification/CoverCuts.thy ===== *)
theory CoverCuts
  imports Cuts "HOL-Library.Word"
begin

text \<open>
  Lifted knapsack cover cuts (\<open>src/mip/cuts.cpp\<close>): the rows accepted, the greedy minimal cover, the 0/1
  knapsack dynamic programme and the sequential lifting it drives. The programme is exact, and therefore the
  lifted inequality holds at every integer point of the row. The limit on the table is tested in the 64-bit
  arithmetic of the code. \<open>std::llround\<close> is an argument, as in the solution pool; the theorems give it the
  exact rounding, with any value outside the range of its result.
\<close>

section \<open>The knapsack programme\<close>

text \<open>One item, capacities from right to left so that it is taken at most once.\<close>

definition take_item :: "nat \<Rightarrow> nat \<Rightarrow> 'a::{plus,ord} \<Rightarrow> 'a list \<Rightarrow> 'a list" where
  "take_item cap w p dp = fold (\<lambda>c dp. let candidate = dp ! (c - w) + p in if dp ! c < candidate then dp[c := candidate] else dp)
     (rev [w..<Suc cap]) dp"

definition size_of_double :: "('a \<Rightarrow> int) \<Rightarrow> 'a \<Rightarrow> 64 word" where
  "size_of_double llround v = word_of_int (llround v)"

definition exact_01_knapsack :: "('a \<Rightarrow> int) \<Rightarrow> ('a \<times> 'a) list \<Rightarrow> 'a \<Rightarrow> 'a::{zero,plus,ord}" where
  "exact_01_knapsack llround items capacity =
     (let cap = unat (size_of_double llround capacity) in
      fold (\<lambda>(weight, p) dp. let w = unat (size_of_double llround weight) in if w = 0 then dp else take_item cap w p dp) items
        (replicate (Suc cap) 0) ! cap)"

definition kKnapsackDpLimit :: "64 word" where
  "kKnapsackDpLimit = 10000000"

section \<open>The rows\<close>

record 'a knapsack_var =
  kv_col :: nat
  kv_a :: 'a

definition int_of_double :: "('a \<Rightarrow> int) \<Rightarrow> 'a \<Rightarrow> 32 word" where
  "int_of_double llround v = word_of_int (llround v)"

fun collect_vars ::
    "'a::{zero,minus,abs,ord} scalar \<Rightarrow> 'a cut_tolerances \<Rightarrow> ('a \<Rightarrow> int) \<Rightarrow> 'a model \<Rightarrow> (nat \<times> 'a) list \<Rightarrow> 'a knapsack_var list \<Rightarrow>
     'a knapsack_var list option" where
  "collect_vars sc ct llround m [] vars = Some vars"
| "collect_vars sc ct llround m ((j, a) # es) vars =
     (if col_type m ! j \<noteq> kInteger then None
      else if a \<le> 0 then None
      else if \<not> near_integer sc ct a then None
      else if \<not> near_integer sc ct (col_lower m ! j) \<or> \<not> near_integer sc ct (col_upper m ! j) then None
      else if int_of_double llround (col_lower m ! j) \<noteq> 0 then None
      else if int_of_double llround (col_upper m ! j) \<noteq> 1 then None
      else collect_vars sc ct llround m es (vars @ [\<lparr>kv_col = j, kv_a = a\<rparr>]))"

definition classify_row ::
    "'a::{zero,minus,abs,ord} scalar \<Rightarrow> 'a cut_tolerances \<Rightarrow> ('a \<Rightarrow> int) \<Rightarrow> 'a model \<Rightarrow> nat \<Rightarrow> 'a knapsack_var list" where
  "classify_row sc ct llround m row =
     (let b = row_upper m ! row in
      if sc_fin sc (row_lower m ! row) \<or> \<not> sc_fin sc b \<or> b \<le> 0 \<or> \<not> near_integer sc ct b then []
      else
        case collect_vars sc ct llround m
          (concat (map (\<lambda>j. map (\<lambda>(i, a). (j, a)) (filter (\<lambda>(i, a). i = row) (column (matrix m) j))) [0..<num_cols m])) [] of
          None \<Rightarrow> []
        | Some vars \<Rightarrow> sort_by (\<lambda>u v. kv_a v < kv_a u \<or> feq (kv_a u) (kv_a v) \<and> kv_col u < kv_col v) vars)"

section \<open>The cover\<close>

fun greedy_cover :: "'a::{plus,ord} \<Rightarrow> 'a knapsack_var list \<Rightarrow> nat \<Rightarrow> 'a \<Rightarrow> nat list \<Rightarrow> 'a \<times> nat list" where
  "greedy_cover b [] k acc cover = (acc, cover)"
| "greedy_cover b (v # vs) k acc cover =
     (let acc' = acc + kv_a v in if b < acc' then (acc', cover @ [k]) else greedy_cover b vs (Suc k) acc' (cover @ [k]))"

text \<open>The cover is trimmed from its back.\<close>

fun trim_cover :: "'a::{minus,ord} knapsack_var list \<Rightarrow> 'a \<Rightarrow> 'a \<Rightarrow> nat list \<Rightarrow> nat list" where
  "trim_cover vars b acc (k # l # ks) =
     (if b < acc - kv_a (vars ! k) then trim_cover vars b (acc - kv_a (vars ! k)) (l # ks) else k # l # ks)"
| "trim_cover vars b acc ks = ks"

definition find_minimal_cover :: "'a::{zero,plus,minus,ord} knapsack_var list \<Rightarrow> 'a \<Rightarrow> nat list" where
  "find_minimal_cover vars b =
     (let (acc, cover) = greedy_cover b vars 0 0 [] in
      if acc \<le> b then [] else rev (trim_cover vars b acc (rev cover)))"

section \<open>Lifting\<close>

record 'a cover_cut =
  kc_entries :: "(nat \<times> 'a) list"
  kc_rhs :: 'a

definition lift_variable ::
    "'a::{zero,plus,minus,ord} scalar \<Rightarrow> ('a \<Rightarrow> int) \<Rightarrow> 'a knapsack_var list \<Rightarrow> nat list \<Rightarrow> 'a \<Rightarrow> 'a \<Rightarrow> nat \<Rightarrow>
     ('a list \<times> ('a \<times> 'a) list) option \<Rightarrow> ('a list \<times> ('a \<times> 'a) list) option" where
  "lift_variable sc llround vars cover b base_rhs k s = (case s of None \<Rightarrow> None
     | Some (coeff, items) \<Rightarrow>
       if k \<in> set cover then s
       else
         let a = kv_a (vars ! k); aux_cap = b - a in
         if aux_cap < 0 then Some (coeff[k := 0], items)
         else if kKnapsackDpLimit < word_of_nat (length items) * size_of_double llround aux_cap then s
         else
           let alpha = base_rhs - exact_01_knapsack llround items aux_cap in
           if alpha < 0 then None
           else Some (coeff[k := alpha], if 0 < alpha then items @ [(a, alpha)] else items))"

definition generate_knapsack_cover_cut ::
    "'a::{zero,one,plus,minus,abs,ord} scalar \<Rightarrow> 'a cut_tolerances \<Rightarrow> ('a \<Rightarrow> int) \<Rightarrow> 'a model \<Rightarrow> int \<Rightarrow> 'a cover_cut option" where
  "generate_knapsack_cover_cut sc ct llround m row =
     (if row < 0 \<or> int (num_rows m) \<le> row \<or> num_cols m = 0 then None
      else
        let vars = classify_row sc ct llround m (nat row); b = row_upper m ! nat row in
        if vars = [] then None
        else
          let cover = find_minimal_cover vars b in
          if cover = [] then None
          else
            let base_rhs = sc_lit sc (of_nat (length cover)) - 1;
                coeff = fold (\<lambda>k cs. cs[k := 1]) cover (replicate (length vars) 0)
            in case fold (lift_variable sc llround vars cover b base_rhs) [0..<length vars]
                 (Some (coeff, map (\<lambda>k. (kv_a (vars ! k), 1)) cover)) of
                 None \<Rightarrow> None
               | Some (coeff, items) \<Rightarrow> Some \<lparr>kc_entries = sort_by (\<lambda>e f. fst e < fst f)
                   (map (\<lambda>k. (kv_col (vars ! k), coeff ! k)) (filter (\<lambda>k. 0 < coeff ! k \<or> k \<in> set cover) [0..<length vars])),
                   kc_rhs = base_rhs\<rparr>)"

text \<open>What the root round makes of it (\<open>branch_and_bound_cuts.cpp\<close>).\<close>

definition dense_cover_cut :: "'a::zero model \<Rightarrow> 'a cover_cut \<Rightarrow> 'a cut" where
  "dense_cover_cut m cover = \<lparr>cut_coeff = fold (\<lambda>(j, c) cs. cs[j := c]) (kc_entries cover) (replicate (num_cols m) 0),
     cut_rhs = kc_rhs cover\<rparr>"


section \<open>The programme is exact\<close>

text \<open>\<open>std::llround\<close> on the exact numbers; the standard leaves its result open outside its range.\<close>

definition exact_llround :: "int \<Rightarrow> xnum \<Rightarrow> int" where
  "exact_llround u v = (case xround v of X q \<Rightarrow> if \<bar>q\<bar> < 2 ^ 63 then \<lfloor>q\<rfloor> else u | _ \<Rightarrow> u)"

lemma exact_llround_whole: "w < 2 ^ 63 \<Longrightarrow> exact_llround u (X (of_nat w)) = int w"
proof -
  assume "w < 2 ^ 63"
  then have "(of_nat w :: rat) < of_nat (2 ^ 63)" by (simp only: of_nat_less_iff)
  moreover have "\<lfloor>of_nat w + 1 / 2 :: rat\<rfloor> = int w" by (rule floor_unique) simp_all
  ultimately show ?thesis by (simp add: exact_llround_def xround_def)
qed

lemma size_of_double_eq: "llround v = int w \<Longrightarrow> w < 2 ^ 64 \<Longrightarrow> unat (size_of_double llround v) = w"
  by (simp add: size_of_double_def unsigned_of_nat take_bit_nat_eq_self)

text \<open>Items are a weight and a profit; a choice says which of them are in.\<close>

definition load :: "(nat \<times> rat) list \<Rightarrow> (nat \<Rightarrow> bool) \<Rightarrow> nat" where
  "load items x = (\<Sum>i < length items. if x i then fst (items ! i) else 0)"

definition gain :: "(nat \<times> rat) list \<Rightarrow> (nat \<Rightarrow> bool) \<Rightarrow> rat" where
  "gain items x = (\<Sum>i < length items. if x i then snd (items ! i) else 0)"

lemma load_snoc [simp]: "load (items @ [e]) x = load items x + (if x (length items) then fst e else 0)" "load [] x = 0"
  by (auto simp: load_def nth_append intro!: sum.cong)

lemma gain_snoc [simp]: "gain (items @ [e]) x = gain items x + (if x (length items) then snd e else 0)" "gain [] x = 0"
  by (auto simp: gain_def nth_append intro!: sum.cong)

lemma load_upd [simp]: "load items (x(length items := v)) = load items x"
  and gain_upd [simp]: "gain items (x(length items := v)) = gain items x"
  by (simp_all add: load_def gain_def)

definition best_gain :: "(nat \<times> rat) list \<Rightarrow> nat \<Rightarrow> rat \<Rightarrow> bool" where
  "best_gain items c z \<longleftrightarrow> (\<exists>x. load items x \<le> c \<and> gain items x = z) \<and> (\<forall>x. load items x \<le> c \<longrightarrow> gain items x \<le> z)"

lemma best_gain_skip:
  assumes "best_gain items c z" "c < w"
  shows "best_gain (items @ [(w, p)]) c z"
proof -
  obtain x where x: "load items x \<le> c" "gain items x = z" using assms(1) by (auto simp: best_gain_def)
  then show ?thesis using assms unfolding best_gain_def
    by (intro conjI exI[of _ "x(length items := False)"]) auto
qed

lemma best_gain_take:
  assumes "best_gain items c z" "best_gain items (c - w) z'" "w \<le> c"
  shows "best_gain (items @ [(w, p)]) c (max z (z' + p))"
proof -
  obtain x where x: "load items x \<le> c" "gain items x = z" using assms(1) by (auto simp: best_gain_def)
  obtain x' where x': "load items x' \<le> c - w" "gain items x' = z'" using assms(2) by (auto simp: best_gain_def)
  have "\<exists>u. load (items @ [(w, p)]) u \<le> c \<and> gain (items @ [(w, p)]) u = max z (z' + p)"
  proof (cases "z' + p \<le> z")
    case True
    then show ?thesis using x by (intro exI[of _ "x(length items := False)"]) simp
  next
    case False
    then show ?thesis using x' assms(3) by (intro exI[of _ "x'(length items := True)"]) simp
  qed
  moreover have "gain (items @ [(w, p)]) u \<le> max z (z' + p)" if u: "load (items @ [(w, p)]) u \<le> c" for u
  proof (cases "u (length items)")
    case True
    then have "gain items u \<le> z'" using assms(2) u by (simp add: best_gain_def)
    then show ?thesis using True by simp
  next
    case False
    then have "gain items u \<le> z" using assms(1) u by (simp add: best_gain_def)
    then show ?thesis using False by simp
  qed
  ultimately show ?thesis by (simp add: best_gain_def)
qed

text \<open>The loop over the capacities reads the values of the items before.\<close>

definition with_item :: "nat \<Rightarrow> nat \<Rightarrow> rat \<Rightarrow> rat list \<Rightarrow> nat \<Rightarrow> rat" where
  "with_item l w p ds c = (if l \<le> c then max (ds ! c) (ds ! (c - w) + p) else ds ! c)"

lemma take_item_map:
  assumes "length ds = Suc cap" "0 < w" "w \<le> Suc cap"
  shows "take_item cap w (X p) (map X ds) = map (\<lambda>c. X (with_item w w p ds c)) [0..<Suc cap]"
proof -
  define f where "f = (\<lambda>c dp :: xnum list. let candidate = dp ! (c - w) + X p in if dp ! c < candidate then dp[c := candidate] else dp)"
  have "fold f (rev [l..<Suc cap]) (map X ds) = map (\<lambda>c. X (with_item l w p ds c)) [0..<Suc cap]"
    if "w \<le> l" "l \<le> Suc cap" for l
    using that(2,1)
  proof (induction l rule: inc_induct)
    case base
    show ?case by (rule nth_equalityI) (auto simp: assms(1) with_item_def simp del: upt_Suc)
  next
    case (step l)
    have "rev [l..<Suc cap] = rev [Suc l..<Suc cap] @ [l]" using step(2) by (simp add: upt_rec)
    then have "fold f (rev [l..<Suc cap]) (map X ds) = f l (map (\<lambda>c. X (with_item (Suc l) w p ds c)) [0..<Suc cap])"
      using step.IH step.prems by (simp del: upt_Suc)
    also have "\<dots> = (map (\<lambda>c. X (with_item (Suc l) w p ds c)) [0..<Suc cap])[l := X (max (ds ! l) (ds ! (l - w) + p))]"
    proof -
      define h where "h = map (\<lambda>c. X (with_item (Suc l) w p ds c)) [0..<Suc cap]"
      have h: "h ! c = X (with_item (Suc l) w p ds c)" if "c < Suc cap" for c using that by (simp add: h_def del: upt_Suc)
      have "\<not> Suc l \<le> l - w" by arith
      then have "with_item (Suc l) w p ds l = ds ! l" "with_item (Suc l) w p ds (l - w) = ds ! (l - w)" by (simp_all add: with_item_def)
      then have "h ! l = X (ds ! l)" "h ! (l - w) = X (ds ! (l - w))" using h[of l] h[of "l - w"] step(2) by (simp_all add: less_imp_diff_less)
      moreover from this(1) have "h[l := X (ds ! l)] = h" by (metis list_update_id)
      ultimately show ?thesis unfolding h_def[symmetric] by (simp add: f_def max_def)
    qed
    also have "\<dots> = map (\<lambda>c. X (with_item l w p ds c)) [0..<Suc cap]"
      by (rule nth_equalityI) (auto simp: nth_list_update with_item_def simp del: upt_Suc)
    finally show ?case .
  qed
  from this[of w] assms(3) show ?thesis by (simp add: take_item_def f_def)
qed

definition programme :: "('a \<Rightarrow> int) \<Rightarrow> nat \<Rightarrow> ('a \<times> 'a::{zero,plus,ord}) list \<Rightarrow> 'a list" where
  "programme llround cap items = fold (\<lambda>(weight, p) dp. let w = unat (size_of_double llround weight) in
     if w = 0 then dp else take_item cap w p dp) items (replicate (Suc cap) 0)"

lemma knapsack_programme:
  "exact_01_knapsack llround items v = programme llround (unat (size_of_double llround v)) items ! unat (size_of_double llround v)"
  by (simp only: exact_01_knapsack_def programme_def Let_def)

lemma programme_exact:
  assumes "\<forall>e \<in> set items. 0 < fst e \<and> fst e < 2 ^ 63"
  shows "\<exists>ds. programme (exact_llround u) cap (map (\<lambda>(w, p). (X (of_nat w), X p)) items) = map X ds \<and> length ds = Suc cap \<and>
    (\<forall>c \<le> cap. best_gain items c (ds ! c))"
  using assms
proof (induction items rule: rev_induct)
  case Nil
  show ?case by (rule exI[of _ "replicate (Suc cap) 0"]) (simp add: programme_def X_consts best_gain_def del: replicate_Suc)
next
  case (snoc e items)
  obtain w p where e: "e = (w, p)" by fastforce
  obtain ds where ds: "programme (exact_llround u) cap (map (\<lambda>(w, p). (X (of_nat w), X p)) items) = map X ds"
    "length ds = Suc cap" "\<forall>c \<le> cap. best_gain items c (ds ! c)" using snoc by auto
  have w: "0 < w" "w < 2 ^ 63" using snoc.prems by (simp_all add: e)
  have sz: "unat (size_of_double (exact_llround u) (X (of_nat w))) = w"
    by (rule size_of_double_eq) (use w in \<open>simp_all add: exact_llround_whole\<close>)
  have run: "programme (exact_llround u) cap (map (\<lambda>(w, p). (X (of_nat w), X p)) (items @ [e])) = take_item cap w (X p) (map X ds)"
    using ds(1) w by (simp add: programme_def e sz)
  show ?case
  proof (cases "w \<le> cap")
    case True
    have "best_gain (items @ [e]) c (with_item w w p ds c)" if "c \<le> cap" for c
      using ds(3) that best_gain_skip[of items c "ds ! c" w p] best_gain_take[of items c "ds ! c" w "ds ! (c - w)" p]
      by (simp add: with_item_def e)
    then show ?thesis using run take_item_map[OF ds(2) w(1), of p] True
      by (intro exI[of _ "map (with_item w w p ds) [0..<Suc cap]"]) (simp add: o_def del: upt_Suc)
  next
    case False
    then have "take_item cap w (X p) (map X ds) = map X ds" by (simp add: take_item_def)
    then show ?thesis using run ds False best_gain_skip by (intro exI[of _ ds]) (simp add: e)
  qed
qed

text \<open>C. The dynamic programme solves the 0/1 knapsack exactly: its value is the largest profit of a choice of
  the items that fits, each at most once.\<close>

theorem knapsack_exact:
  assumes "\<forall>e \<in> set items. 0 < fst e \<and> fst e < 2 ^ 63" "c < 2 ^ 63"
  shows "\<exists>z. exact_01_knapsack (exact_llround u) (map (\<lambda>(w, p). (X (of_nat w), X p)) items) (X (of_nat c)) = X z \<and>
    (\<exists>x. load items x \<le> c \<and> gain items x = z) \<and> (\<forall>x. load items x \<le> c \<longrightarrow> gain items x \<le> z)"
proof -
  have "unat (size_of_double (exact_llround u) (X (of_nat c))) = c"
    by (rule size_of_double_eq) (use assms(2) in \<open>simp_all add: exact_llround_whole\<close>)
  then show ?thesis using programme_exact[OF assms(1), of u c] by (auto simp: best_gain_def knapsack_programme)
qed

section \<open>The rows accepted\<close>

lemma size_round:
  assumes "0 \<le> v" "v < 2 ^ 63 - 1"
  shows "unat (size_of_double (exact_llround u) (X v)) = nat \<lfloor>v + 1 / 2\<rfloor>"
proof (rule size_of_double_eq)
  have "of_int \<lfloor>v + 1 / 2\<rfloor> < (2 ^ 63 :: rat)" using of_int_floor_le[of "v + 1 / 2"] assms(2) by linarith
  then show "exact_llround u (X v) = int (nat \<lfloor>v + 1 / 2\<rfloor>)" using assms(1) by (simp add: exact_llround_def xround_def)
  have "\<lfloor>v + 1 / 2\<rfloor> < 2 ^ 63" using assms(2) by (simp add: floor_less_iff)
  then show "nat \<lfloor>v + 1 / 2\<rfloor> < 2 ^ 64" using assms(1) by (simp add: nat_less_iff)
qed

text \<open>A bound that rounds to 0, or to 1, modulo \<open>2 ^ 32\<close> and is within the range of \<open>int\<close>.\<close>

lemma int_of_double_eq:
  assumes "int_of_double (exact_llround u) (X q) = word_of_int k" "0 \<le> k" "k < 2" "\<bar>q\<bar> < 2 ^ 31 - 1"
  shows "\<bar>q - of_int k\<bar> \<le> 1 / 2"
proof -
  define z where "z = (if 0 \<le> q then \<lfloor>q + 1 / 2\<rfloor> else \<lceil>q - 1 / 2\<rceil>)"
  have near: "\<bar>q - of_int z\<bar> \<le> 1 / 2" unfolding z_def using floor_correct[of "q + 1 / 2"] ceiling_correct[of "q - 1 / 2"]
    by (cases "0 \<le> q") (simp_all only: if_True if_False simp_thms, linarith+)
  have "\<bar>of_int z\<bar> < (2 ^ 31 :: rat)" using near assms(4) by linarith
  then have "of_int \<bar>z\<bar> < (of_int (2 ^ 31) :: rat)" by simp
  then have z: "\<bar>z\<bar> < 2 ^ 31" by (simp only: of_int_less_iff)
  have "xround (X q) = X (of_int z)" by (simp add: xround_def z_def)
  moreover have "\<bar>of_int z :: rat\<bar> < 2 ^ 63" using \<open>\<bar>of_int z\<bar> < (2 ^ 31 :: rat)\<close> by simp
  ultimately have "exact_llround u (X q) = z" by (simp add: exact_llround_def)
  then have "(word_of_int z :: 32 word) = word_of_int k" using assms(1) by (simp add: int_of_double_def)
  then have "z mod 2 ^ 32 = k" using assms(2,3) by (simp add: word_of_int_eq_iff take_bit_eq_mod)
  moreover have "z mod 2 ^ 32 = (if 0 \<le> z then z else z + 2 ^ 32)"
    using z mod_pos_pos_trivial[of "z + 2 ^ 32" "2 ^ 32"] by simp
  ultimately have "z = k" using z assms(2,3) by (simp split: if_splits)
  then show ?thesis using near by simp
qed

lemma row_scan:
  assumes "separable m"
  shows "concat (map (\<lambda>j. map (\<lambda>(i, a). (j, a)) (filter (\<lambda>(i, a). i = row) (column (matrix m) j))) [0..<num_cols m]) =
    row_entries (matrix m) row"
proof -
  have "ncols (matrix m) = num_cols m" using assms by (simp add: separable_def)
  then show ?thesis
    by (simp add: row_entries_def walk_columns_def filter_concat map_concat o_def filter_map case_prod_unfold)
qed

lemma collected:
  "collect_vars sc ct llround m es vars = Some vs \<Longrightarrow> vs = vars @ map (\<lambda>(j, a). \<lparr>kv_col = j, kv_a = a\<rparr>) es \<and>
    (\<forall>(j, a) \<in> set es. col_type m ! j = kInteger \<and> \<not> a \<le> 0 \<and> near_integer sc ct a \<and>
      near_integer sc ct (col_lower m ! j) \<and> near_integer sc ct (col_upper m ! j) \<and>
      int_of_double llround (col_lower m ! j) = 0 \<and> int_of_double llround (col_upper m ! j) = 1)"
  by (induction sc ct llround m es vars arbitrary: vs rule: collect_vars.induct) (auto split: if_splits)

text \<open>Weights and sides within the range of \<open>long long\<close>, bounds within that of \<open>int\<close>.\<close>

definition llround_range :: "xnum model \<Rightarrow> int \<Rightarrow> bool" where
  "llround_range m row \<longleftrightarrow> xval (row_upper m ! nat row) < 2 ^ 63 - 1 \<and>
     (\<forall>(j, a) \<in> set (row_entries (matrix m) (nat row)). xval a < 2 ^ 63 \<and> \<bar>xval (col_lower m ! j)\<bar> < 2 ^ 31 - 1 \<and>
        \<bar>xval (col_upper m ! j)\<bar> < 2 ^ 31 - 1)"

definition whole_vars :: "xnum model \<Rightarrow> xnum knapsack_var list \<Rightarrow> (nat \<Rightarrow> nat) \<Rightarrow> bool" where
  "whole_vars m vars w \<longleftrightarrow> distinct (map kv_col vars) \<and> (\<forall>k < length vars. kv_a (vars ! k) = X (of_nat (w k)) \<and> 0 < w k \<and>
     w k < 2 ^ 63 \<and> kv_col (vars ! k) < num_cols m \<and>
     (\<forall>p. solves m (col_lower m) (col_upper m) p \<longrightarrow> p (kv_col (vars ! k)) = 0 \<or> p (kv_col (vars ! k)) = 1))"

lemma near_integer_finite: "near_integer (exact_scalar ft mt) ct x \<Longrightarrow> ct_integrality ct = X t \<Longrightarrow> xfinite x"
  by (cases x) (auto simp: near_integer_def exact_scalar_fields xround_def minus_xnum_def abs_xnum_def)

lemma accepted_binary:
  assumes t: "ct_integrality ct = X t" and j: "j < num_cols m" "col_type m ! j = kInteger"
    and near: "near_integer (exact_scalar ft mt) ct (col_lower m ! j)" "near_integer (exact_scalar ft mt) ct (col_upper m ! j)"
    and int: "int_of_double (exact_llround u) (col_lower m ! j) = 0" "int_of_double (exact_llround u) (col_upper m ! j) = 1"
    and range: "\<bar>xval (col_lower m ! j)\<bar> < 2 ^ 31 - 1" "\<bar>xval (col_upper m ! j)\<bar> < 2 ^ 31 - 1"
    and p: "solves m (col_lower m) (col_upper m) p"
  shows "p j = 0 \<or> p j = 1"
proof -
  obtain l h where lh: "col_lower m ! j = X l" "col_upper m ! j = X h"
    using near_integer_finite[OF near(1) t] near_integer_finite[OF near(2) t] by (metis xfinite.elims(2))
  obtain z where z: "p j = of_int z" using solves_col(3)[OF p j] by (auto elim: Ints_cases)
  have "\<bar>l\<bar> \<le> 1 / 2" "\<bar>h - 1\<bar> \<le> 1 / 2"
    using int_of_double_eq[of u l 0] int_of_double_eq[of u h 1] int range by (simp_all add: lh)
  moreover have "l \<le> of_int z" "of_int z \<le> h" using solves_col(1,2)[OF p j(1)] by (simp_all add: lh z)
  ultimately have "of_int z > (- 1 :: rat)" "of_int z < (2 :: rat)" by linarith+
  then have "z = 0 \<or> z = 1" by linarith
  then show ?thesis using z by auto
qed

lemma classified:
  assumes sep: "separable m" and near: "no_near_integers t m" and t: "ct_integrality ct = X t"
    and range: "llround_range m (int row)" and row: "row < num_rows m"
    and vars: "vars = classify_row (exact_scalar ft mt) ct (exact_llround u) m row" "vars \<noteq> []"
  obtains b w where "row_upper m ! row = X b" "0 < b" "b < 2 ^ 63 - 1" "whole_vars m vars w"
    "\<And>p. row_value m p row = (\<Sum>v\<leftarrow>vars. xval (kv_a v) * p (kv_col v))"
proof -
  let ?es = "row_entries (matrix m) row" and ?mk = "\<lambda>(j, a). \<lparr>kv_col = j, kv_a = a\<rparr>"
  obtain vs where b: "xfinite (row_upper m ! row)" "\<not> row_upper m ! row \<le> 0"
    and vs: "collect_vars (exact_scalar ft mt) ct (exact_llround u) m ?es [] = Some vs"
    and sorted: "vars = sort_by (\<lambda>u v. kv_a v < kv_a u \<or> feq (kv_a u) (kv_a v) \<and> kv_col u < kv_col v) vs"
    using vars by (auto simp: classify_row_def Let_def row_scan[OF sep] exact_scalar_fields split: if_splits option.splits)
  obtain q where q: "row_upper m ! row = X q" using b(1) by (cases "row_upper m ! row") auto
  note c = collected[OF vs]
  have mset: "mset vars = mset (map ?mk ?es)" using c sorted by simp
  have es: "\<exists>k :: nat. a = X (of_nat k) \<and> 0 < k \<and> k < 2 ^ 63 \<and> j < num_cols m \<and>
      (\<forall>p. solves m (col_lower m) (col_upper m) p \<longrightarrow> p j = 0 \<or> p j = 1)" if ja: "(j, a) \<in> set ?es" for j a
  proof -
    note f = row_facts[OF sep row ja]
    obtain v where v: "a = X v" using f(2) by (cases a) auto
    have cond: "col_type m ! j = kInteger" "\<not> a \<le> 0" "near_integer (exact_scalar ft mt) ct a"
      "near_integer (exact_scalar ft mt) ct (col_lower m ! j)" "near_integer (exact_scalar ft mt) ct (col_upper m ! j)"
      "int_of_double (exact_llround u) (col_lower m ! j) = 0" "int_of_double (exact_llround u) (col_upper m ! j) = 1"
      using c ja by auto
    have r: "v < 2 ^ 63" "\<bar>xval (col_lower m ! j)\<bar> < 2 ^ 31 - 1" "\<bar>xval (col_upper m ! j)\<bar> < 2 ^ 31 - 1"
      using range ja by (auto simp: llround_range_def v)
    have "(row, a) \<in> set (column (matrix m) j)" using ja sep by (simp add: set_row_entries)
    then have "v \<in> \<int>" using near near_integer_X[of ft mt ct v t] cond(3) t f(1) unfolding no_near_integers_def v by fastforce
    then obtain z where z: "v = of_int z" by (auto elim: Ints_cases)
    have "0 < z" using cond(2) by (simp add: v z X_consts)
    moreover have "of_int z < (of_int (2 ^ 63) :: rat)" using r(1) z by simp
    then have "z < 2 ^ 63" by (simp only: of_int_less_iff)
    ultimately have "a = X (of_nat (nat z))" "0 < nat z" "nat z < 2 ^ 63" by (simp_all add: v z nat_less_iff)
    moreover have "p j = 0 \<or> p j = 1" if "solves m (col_lower m) (col_upper m) p" for p
      by (rule accepted_binary[OF t f(1) cond(1,4-7) r(2,3) that])
    ultimately show ?thesis using f(1) by blast
  qed
  define w where "w k = nat \<lfloor>xval (kv_a (vars ! k))\<rfloor>" for k
  have "distinct (map kv_col vars)"
  proof -
    have "mset (map kv_col vars) = mset (map kv_col (map ?mk ?es))" by (metis mset mset_map)
    then have "mset (map kv_col vars) = mset (map fst ?es)" by (simp add: o_def split_beta)
    then show ?thesis using distinct_row_entries[OF sep, of row] mset_eq_imp_distinct_iff by blast
  qed
  moreover have "kv_a (vars ! k) = X (of_nat (w k)) \<and> 0 < w k \<and> w k < 2 ^ 63 \<and> kv_col (vars ! k) < num_cols m \<and>
      (\<forall>p. solves m (col_lower m) (col_upper m) p \<longrightarrow> p (kv_col (vars ! k)) = 0 \<or> p (kv_col (vars ! k)) = 1)" if "k < length vars" for k
  proof -
    have "vars ! k \<in> set (map ?mk ?es)" using that mset by (metis nth_mem set_mset_mset)
    then obtain j a where "(j, a) \<in> set ?es" "vars ! k = \<lparr>kv_col = j, kv_a = a\<rparr>" by auto
    moreover from this(1) obtain n where "a = X (of_nat n)" "0 < n" "n < 2 ^ 63" "j < num_cols m"
      "\<forall>p. solves m (col_lower m) (col_upper m) p \<longrightarrow> p j = 0 \<or> p j = 1" using es by blast
    ultimately show ?thesis by (simp add: w_def)
  qed
  ultimately have "whole_vars m vars w" by (simp add: whole_vars_def)
  moreover have "row_value m p row = (\<Sum>v\<leftarrow>vars. xval (kv_a v) * p (kv_col v))" for p
  proof -
    have "(\<Sum>v\<leftarrow>vars. xval (kv_a v) * p (kv_col v)) = (\<Sum>v\<leftarrow>map ?mk ?es. xval (kv_a v) * p (kv_col v))"
      unfolding sum_mset_sum_list[symmetric] mset_map[of _ vars] mset_map[of _ "map ?mk ?es"] mset ..
    then show ?thesis by (simp add: row_value_entries[OF sep row] o_def case_prod_unfold)
  qed
  moreover have "0 < q" "q < 2 ^ 63 - 1" using b(2) range q by (simp_all add: X_consts llround_range_def)
  ultimately show thesis using that q by blast
qed

section \<open>The cover exceeds the side\<close>

lemma greedy_prefix:
  assumes "whole_vars m vars w" "k \<le> length vars"
  shows "\<exists>r \<le> length vars. greedy_cover (X b) (drop k vars) k (X (of_nat (\<Sum>i<k. w i))) [0..<k] = (X (of_nat (\<Sum>i<r. w i)), [0..<r])"
  using assms(2)
proof (induction k rule: inc_induct)
  case base
  show ?case by (intro exI[of _ "length vars"]) simp
next
  case (step k)
  have "drop k vars = vars ! k # drop (Suc k) vars" using step(2) by (simp add: Cons_nth_drop_Suc)
  moreover have "kv_a (vars ! k) = X (of_nat (w k))" using assms(1) step(2) by (simp add: whole_vars_def)
  ultimately show ?case using step by (cases "b < of_nat (\<Sum>i<k. w i) + of_nat (w k)") (auto intro: exI[of _ "Suc k"])
qed

lemma trimmed_prefix:
  assumes "whole_vars m vars w" "r \<le> length vars" "b < of_nat (\<Sum>i<r. w i)" "0 \<le> b"
  shows "\<exists>r'. 0 < r' \<and> r' \<le> r \<and> b < of_nat (\<Sum>i<r'. w i) \<and> of_nat (\<Sum>i<r' - 1. w i) \<le> b \<and>
    trim_cover vars (X b) (X (of_nat (\<Sum>i<r. w i))) (rev [0..<r]) = rev [0..<r']"
  using assms(2,3)
proof (induction r)
  case 0
  then show ?case using assms(4) by simp
next
  case (Suc r)
  have a: "kv_a (vars ! r) = X (of_nat (w r))" using assms(1) Suc.prems(1) by (simp add: whole_vars_def)
  show ?case
  proof (cases "0 < r \<and> b < of_nat (\<Sum>i<r. w i)")
    case True
    then obtain r0 where r0: "r = Suc r0" using gr0_implies_Suc by blast
    have "trim_cover vars (X b) (X (of_nat (\<Sum>i<Suc r. w i))) (rev [0..<Suc r]) =
        trim_cover vars (X b) (X (of_nat (\<Sum>i<r. w i))) (rev [0..<r])"
      using True a by (simp add: r0)
    then show ?thesis using Suc.IH True Suc.prems(1) by (metis Suc_leD le_SucI)
  next
    case False
    then have "of_nat (\<Sum>i<r. w i) \<le> b" using assms(4) by (cases "r = 0") auto
    moreover have "trim_cover vars (X b) (X (of_nat (\<Sum>i<Suc r. w i))) (rev [0..<Suc r]) = rev [0..<Suc r]"
      using False a by (cases r) auto
    ultimately show ?thesis using Suc.prems(2) by (intro exI[of _ "Suc r"]) simp
  qed
qed

lemma cover_prefix:
  assumes "whole_vars m vars w" "0 < b" "cover = find_minimal_cover vars (X b)" "cover \<noteq> []"
  obtains r where "0 < r" "r \<le> length vars" "cover = [0..<r]" "b < of_nat (\<Sum>i<r. w i)" "of_nat (\<Sum>i<r - 1. w i) \<le> b"
proof -
  obtain r where r: "r \<le> length vars" "greedy_cover (X b) vars 0 0 [] = (X (of_nat (\<Sum>i<r. w i)), [0..<r])"
    using greedy_prefix[OF assms(1), of 0 b] by (auto simp: X_consts)
  have over: "b < of_nat (\<Sum>i<r. w i)" using assms(3,4) r(2) by (auto simp: find_minimal_cover_def split: if_splits)
  obtain r' where r': "0 < r'" "r' \<le> r" "b < of_nat (\<Sum>i<r'. w i)" "of_nat (\<Sum>i<r' - 1. w i) \<le> b"
    "trim_cover vars (X b) (X (of_nat (\<Sum>i<r. w i))) (rev [0..<r]) = rev [0..<r']"
    using trimmed_prefix[OF assms(1) r(1) over] assms(2) by auto
  moreover have "cover = [0..<r']" using assms(3) r(2) over r'(5) by (simp add: find_minimal_cover_def)
  ultimately show thesis using that r(1) by simp
qed

section \<open>Lifting keeps the inequality\<close>

definition lift_items :: "(nat \<Rightarrow> nat) \<Rightarrow> xnum list \<Rightarrow> nat list \<Rightarrow> (nat \<times> rat) list" where
  "lift_items w coeff js = map (\<lambda>k. (w k, xval (coeff ! k))) js"

definition of_items :: "(nat \<times> rat) list \<Rightarrow> (xnum \<times> xnum) list" where
  "of_items = map (\<lambda>(w, p). (X (of_nat w), X p))"

text \<open>The positions \<open>js\<close> are in the cut, every other coefficient is zero, and no choice of them that fits the
  side gains more than the size of the cover less one.\<close>

definition lifted :: "nat \<Rightarrow> (nat \<Rightarrow> nat) \<Rightarrow> rat \<Rightarrow> nat \<Rightarrow> nat \<Rightarrow> xnum list \<Rightarrow> nat list \<Rightarrow> bool" where
  "lifted n w b r i coeff js \<longleftrightarrow> length coeff = n \<and> distinct js \<and> set js \<subseteq> {..<max r i} \<and>
     (\<forall>k < n. \<exists>q \<ge> 0. coeff ! k = X q \<and> (k \<notin> set js \<longrightarrow> q = 0)) \<and>
     (\<forall>x. of_nat (load (lift_items w coeff js) x) \<le> b \<longrightarrow> gain (lift_items w coeff js) x \<le> of_nat r - 1)"

lemma lift_items_upd: "k \<notin> set js \<Longrightarrow> lift_items w (coeff[k := v]) js = lift_items w coeff js"
  unfolding lift_items_def by (rule map_cong[OF refl]) (metis nth_list_update_neq)

lemma lifted_start:
  assumes "r \<le> n" "b < of_nat (\<Sum>i<r. w i)"
  shows "lifted n w b r 0 (fold (\<lambda>k cs. cs[k := 1]) [0..<r] (replicate n 0)) [0..<r]"
    and "of_items (lift_items w (fold (\<lambda>k cs. cs[k := 1]) [0..<r] (replicate n 0)) [0..<r]) = map (\<lambda>k. (X (of_nat (w k)), 1)) [0..<r]"
proof -
  define cs where "cs = fold (\<lambda>k cs. cs[k := 1 :: xnum]) [0..<r] (replicate n 0)"
  have cs: "length cs = n \<and> (\<forall>k < n. cs ! k = (if k < r then X 1 else X 0))"
    unfolding cs_def using assms(1) by (induction r) (auto simp: X_consts nth_list_update)
  have items: "lift_items w cs [0..<r] = map (\<lambda>k. (w k, 1)) [0..<r]" using cs assms(1) by (simp add: lift_items_def)
  have "gain (lift_items w cs [0..<r]) x \<le> of_nat r - 1" if x: "of_nat (load (lift_items w cs [0..<r]) x) \<le> b" for x
  proof -
    have all: "load (lift_items w cs [0..<r]) x = (\<Sum>i<r. w i)" if "\<forall>i < r. x i"
      using that by (auto simp: items load_def intro!: sum.cong)
    obtain i where i: "i < r" "\<not> x i" using all x assms(2) by force
    have "gain (lift_items w cs [0..<r]) x = (\<Sum>i<r. if x i then 1 else 0)"
      by (auto simp: items gain_def intro!: sum.cong)
    also have "\<dots> = of_nat (card ({..<r} \<inter> {i. x i}))" by (simp add: sum.If_cases)
    also have "\<dots> \<le> of_nat (card ({..<r} - {i}))" using i(2) by (intro of_nat_mono card_mono) auto
    finally show ?thesis using i(1) by (simp add: of_nat_diff)
  qed
  then show "lifted n w b r 0 (fold (\<lambda>k cs. cs[k := 1]) [0..<r] (replicate n 0)) [0..<r]"
    unfolding lifted_def cs_def[symmetric] using cs by (auto simp: not_less)
  show "of_items (lift_items w (fold (\<lambda>k cs. cs[k := 1]) [0..<r] (replicate n 0)) [0..<r]) = map (\<lambda>k. (X (of_nat (w k)), 1)) [0..<r]"
    unfolding cs_def[symmetric] items by (simp add: of_items_def X_consts)
qed

text \<open>A coefficient of the base less the best gain beside its item.\<close>

lemma lifted_with:
  assumes l: "lifted n w b r i coeff js" and i: "r \<le> i" "i < n"
    and z: "\<And>x. of_nat (load (lift_items w coeff js) x) \<le> b - of_nat (w i) \<Longrightarrow> gain (lift_items w coeff js) x \<le> z"
    and a: "0 \<le> of_nat r - 1 - z"
  shows "lifted n w b r (Suc i) (coeff[i := X (of_nat r - 1 - z)]) (js @ [i])"
proof -
  let ?c = "coeff[i := X (of_nat r - 1 - z)]" and ?it = "lift_items w coeff js"
  have new: "i \<notin> set js" "length coeff = n" using l i by (auto simp: lifted_def max_def)
  have items: "lift_items w ?c (js @ [i]) = ?it @ [(w i, of_nat r - 1 - z)]"
    using new i lift_items_upd[OF new(1)] by (simp add: lift_items_def)
  have "gain (?it @ [(w i, of_nat r - 1 - z)]) x \<le> of_nat r - 1" if x: "of_nat (load (?it @ [(w i, of_nat r - 1 - z)]) x) \<le> b" for x
  proof (cases "x (length ?it)")
    case True
    then show ?thesis using z[of x] x by simp
  next
    case False
    then show ?thesis using l x by (simp add: lifted_def)
  qed
  then show ?thesis using l a new i unfolding lifted_def items by (auto simp: nth_list_update max_def split: if_splits)
qed

lemma lifted_without:
  assumes "lifted n w b r i coeff js" "r \<le> i" "i < n"
  shows "lifted n w b r (Suc i) coeff js" "lifted n w b r (Suc i) (coeff[i := X 0]) js" "lift_items w (coeff[i := X 0]) js = lift_items w coeff js"
proof -
  have new: "i \<notin> set js" using assms by (auto simp: lifted_def max_def)
  show items: "lift_items w (coeff[i := X 0]) js = lift_items w coeff js" by (rule lift_items_upd[OF new])
  show "lifted n w b r (Suc i) coeff js" using assms by (auto simp: lifted_def)
  then show "lifted n w b r (Suc i) (coeff[i := X 0]) js" using new assms(3) unfolding lifted_def items by (auto simp: nth_list_update)
qed

text \<open>One round of the loop.\<close>

lemma lift_variable_cases:
  assumes "lift_variable sc llround vars cover b base k (Some (coeff, items)) = Some (coeff', items')"
  shows "k \<in> set cover \<or> b - kv_a (vars ! k) < 0 \<and> coeff' = coeff[k := 0] \<and> items' = items \<or> coeff' = coeff \<and> items' = items \<or>
    \<not> b - kv_a (vars ! k) < 0 \<and> \<not> base - exact_01_knapsack llround items (b - kv_a (vars ! k)) < 0 \<and>
    coeff' = coeff[k := base - exact_01_knapsack llround items (b - kv_a (vars ! k))] \<and>
    items' = (if 0 < base - exact_01_knapsack llround items (b - kv_a (vars ! k))
      then items @ [(kv_a (vars ! k), base - exact_01_knapsack llround items (b - kv_a (vars ! k)))] else items)"
  using assms by (simp add: lift_variable_def Let_def split: if_splits)

lemma lift_step:
  assumes vars: "whole_vars m vars w" and b: "b < 2 ^ 63 - 1" and n: "i < length vars"
    and l: "lifted (length vars) w b r i coeff js"
    and run: "lift_variable sc (exact_llround u) vars [0..<r] (X b) (X (of_nat r - 1)) i (Some (coeff, of_items (lift_items w coeff js))) =
      Some (coeff', items')"
  shows "\<exists>js'. lifted (length vars) w b r (Suc i) coeff' js' \<and> items' = of_items (lift_items w coeff' js')"
proof (cases "i < r")
  case True
  then have "coeff' = coeff" "items' = of_items (lift_items w coeff js)" using run by (auto simp: lift_variable_def)
  moreover have "lifted (length vars) w b r (Suc i) coeff js" using l True by (auto simp: lifted_def max_def)
  ultimately show ?thesis by blast
next
  case False
  note l' = lifted_without[OF l not_less[THEN iffD1, OF False] n]
  let ?it = "lift_items w coeff js"
  have a: "kv_a (vars ! i) = X (of_nat (w i))" "0 < w i" and pos: "\<forall>k < length vars. 0 < w k \<and> w k < 2 ^ 63"
    using vars n by (simp_all add: whole_vars_def)
  have js: "set js \<subseteq> {..<length vars}" using l n False by (auto simp: lifted_def max_def)
  define aux where "aux = b - of_nat (w i)"
  define alpha where "alpha = X (of_nat r - 1) - exact_01_knapsack (exact_llround u) (of_items ?it) (X aux)"
  have aux: "X b - X (of_nat (w i)) = X aux" by (simp add: aux_def)
  note step = lift_variable_cases[OF run, unfolded a(1), unfolded aux, folded alpha_def]
  consider (over) "aux < 0" "coeff' = coeff[i := X 0]" "items' = of_items ?it"
    | (same) "coeff' = coeff" "items' = of_items ?it"
    | (lift) "0 \<le> aux" "\<not> alpha < X 0" "coeff' = coeff[i := alpha]"
      "items' = (if X 0 < alpha then of_items ?it @ [(X (of_nat (w i)), alpha)] else of_items ?it)"
    using step False by (auto simp: X_consts not_less)
  then show ?thesis
  proof cases
    case over
    then show ?thesis using l' by (metis of_items_def)
  next
    case same
    then show ?thesis using l' by metis
  next
    case lift
    define cap where "cap = nat \<lfloor>aux + 1 / 2\<rfloor>"
    have cap: "unat (size_of_double (exact_llround u) (X aux)) = cap"
      unfolding cap_def by (rule size_round) (use lift(1) b a(2) in \<open>auto simp: aux_def\<close>)
    have "\<forall>e \<in> set ?it. 0 < fst e \<and> fst e < 2 ^ 63" using pos js by (auto simp: lift_items_def)
    from programme_exact[OF this, of u cap] obtain z where
      z: "exact_01_knapsack (exact_llround u) (of_items ?it) (X aux) = X z" "best_gain ?it cap z"
      by (auto simp: knapsack_programme of_items_def cap)
    have fits: "gain ?it x \<le> z" if "of_nat (load ?it x) \<le> b - of_nat (w i)" for x
    proof -
      have "of_int (int (load ?it x)) \<le> aux + 1 / 2" using that by (simp add: aux_def)
      then have "int (load ?it x) \<le> \<lfloor>aux + 1 / 2\<rfloor>" by (simp only: le_floor_iff)
      then show ?thesis using z(2) by (simp add: best_gain_def cap_def le_nat_iff)
    qed
    have nn: "0 \<le> of_nat r - 1 - z" using lift(2) by (simp add: alpha_def z(1) not_less)
    show ?thesis
    proof (cases "0 < of_nat r - 1 - z")
      case True
      have new: "i \<notin> set js" "length coeff = length vars" using l False by (auto simp: lifted_def max_def)
      have alpha: "alpha = X (of_nat r - 1 - z)" by (simp add: alpha_def z(1))
      have "lift_items w coeff' (js @ [i]) = ?it @ [(w i, of_nat r - 1 - z)]"
        using lift_items_upd[OF new(1), of w coeff alpha] new(2) n unfolding lift(3) by (simp add: alpha lift_items_def)
      then have "items' = of_items (lift_items w coeff' (js @ [i]))" using lift(4) True by (simp add: alpha of_items_def)
      then show ?thesis using lifted_with[OF l _ n fits nn] False lift(3) by (auto simp: alpha_def z(1))
    next
      case zero: False
      then have "of_nat r - 1 - z = 0" using nn by simp
      then show ?thesis using l' lift(3,4) by (intro exI[of _ js]) (simp add: alpha_def z(1))
    qed
  qed
qed

lemma lift_run:
  assumes vars: "whole_vars m vars w" and b: "b < 2 ^ 63 - 1" and i: "i \<le> length vars"
    and l: "lifted (length vars) w b r i coeff js"
    and run: "fold (lift_variable sc (exact_llround u) vars [0..<r] (X b) (X (of_nat r - 1))) [i..<length vars]
      (Some (coeff, of_items (lift_items w coeff js))) = Some (coeff', items')"
  shows "\<exists>js'. lifted (length vars) w b r (length vars) coeff' js'"
  using i l run
proof (induction i arbitrary: coeff js rule: inc_induct)
  case base
  then show ?case by auto
next
  case (step i)
  have none: "fold (lift_variable sc (exact_llround u) vars [0..<r] (X b) (X (of_nat r - 1))) is None = None" for "is"
    by (induction "is") (simp_all add: lift_variable_def)
  show ?case
  proof (cases "lift_variable sc (exact_llround u) vars [0..<r] (X b) (X (of_nat r - 1)) i (Some (coeff, of_items (lift_items w coeff js)))")
    case None
    then show ?thesis using step.prems(2) step.hyps(2) none by (simp add: upt_conv_Cons)
  next
    case (Some s)
    obtain coeff1 items1 where s: "s = (coeff1, items1)" by fastforce
    obtain js1 where "lifted (length vars) w b r (Suc i) coeff1 js1" "items1 = of_items (lift_items w coeff1 js1)"
      using lift_step[OF vars b step.hyps(2) step.prems(1) Some[unfolded s]] by blast
    then show ?thesis using step.IH[of coeff1 js1] step.prems(2) step.hyps(2) Some by (simp add: upt_conv_Cons s)
  qed
qed

section \<open>The cut is valid\<close>

lemma dense_fold:
  assumes "distinct (map fst es)" "\<forall>e \<in> set es. fst e < length cs \<and> xfinite (snd e) \<and> cs ! fst e = X 0" "all_finite cs"
  shows "all_finite (fold (\<lambda>(j, c) cs. cs[j := c]) es cs) \<and> length (fold (\<lambda>(j, c) cs. cs[j := c]) es cs) = length cs \<and>
    lhs_at (fold (\<lambda>(j, c) cs. cs[j := c]) es cs) p = lhs_at cs p + terms_at es p"
  using assms
proof (induction es arbitrary: cs)
  case (Cons e es)
  obtain j q where e: "e = (j, X q)" using Cons.prems(2) by (cases e) (metis fst_conv snd_conv list.set_intros(1) xfinite.elims(2))
  have j: "j < length cs" "cs ! j = X 0" using Cons.prems(2) by (simp_all add: e)
  note u = lhs_update[OF Cons.prems(3) j refl, of q]
  have "\<forall>e \<in> set es. fst e < length (cs[j := X q]) \<and> xfinite (snd e) \<and> cs[j := X q] ! fst e = X 0"
    using Cons.prems(1,2) by (force simp: e nth_list_update)
  from Cons.IH[OF _ this u(1)] Cons.prems(1) show ?case by (simp add: e u(2))
qed simp

lemma terms_mset: "mset es = mset fs \<Longrightarrow> terms_at es p = terms_at fs p"
  unfolding terms_at_def sum_mset_sum_list[symmetric] mset_map by simp

lemma sum_list_nth: "(\<Sum>v\<leftarrow>xs. f v) = (\<Sum>k < length xs. f (xs ! k))"
  by (simp add: sum_list_sum_nth atLeast0LessThan)

text \<open>At a point of the row the positions lifted are a choice that fits.\<close>

lemma lifted_point:
  assumes vars: "whole_vars m vars w" and l: "lifted (length vars) w b r (length vars) coeff js" and r: "r \<le> length vars"
    and p: "solves m (col_lower m) (col_upper m) p" and fits: "(\<Sum>v\<leftarrow>vars. xval (kv_a v) * p (kv_col v)) \<le> b"
  shows "(\<Sum>k < length vars. xval (coeff ! k) * p (kv_col (vars ! k))) \<le> of_nat r - 1"
proof -
  let ?n = "length vars" and ?y = "\<lambda>i. p (kv_col (vars ! (js ! i))) = 1" and ?v = "\<lambda>k. p (kv_col (vars ! k))"
  have js: "set js \<subseteq> {..<?n}" "distinct js" using l r by (auto simp: lifted_def max_def)
  have v: "?v k = 0 \<or> ?v k = 1" "xval (kv_a (vars ! k)) = of_nat (w k)" if "k < ?n" for k
    using vars p that by (auto simp: whole_vars_def)
  have over: "(\<Sum>i < length js. f (js ! i)) = (\<Sum>k \<in> set js. f k)" for f :: "nat \<Rightarrow> rat"
    using js(2) by (simp add: sum_list_nth[symmetric] sum_list_distinct_conv_sum_set)
  have jn: "js ! i < ?n" if "i < length js" for i using js(1) that nth_mem by blast
  have "of_nat (load (lift_items w coeff js) ?y) = (\<Sum>i < length js. of_nat (w (js ! i)) * ?v (js ! i))"
    unfolding load_def of_nat_sum using v(1)[OF jn] by (intro sum.cong) (auto simp: lift_items_def)
  also have "\<dots> \<le> (\<Sum>k < ?n. of_nat (w k) * ?v k)"
    unfolding over[of "\<lambda>k. of_nat (w k) * ?v k"] using js(1) v(1) by (intro sum_mono2) (auto, force)
  also have "\<dots> \<le> b" using fits v(2) by (simp add: sum_list_nth)
  finally have "gain (lift_items w coeff js) ?y \<le> of_nat r - 1" using l by (simp add: lifted_def)
  moreover have "gain (lift_items w coeff js) ?y = (\<Sum>i < length js. xval (coeff ! (js ! i)) * ?v (js ! i))"
    unfolding gain_def using v(1)[OF jn] by (intro sum.cong) (auto simp: lift_items_def)
  moreover have "\<dots> = (\<Sum>k < ?n. xval (coeff ! k) * ?v k)"
    unfolding over[of "\<lambda>k. xval (coeff ! k) * ?v k"] using js(1) l
    by (intro sum.mono_neutral_left) (auto simp: lifted_def)
  ultimately show ?thesis by simp
qed

text \<open>C. A lifted cover cut holds at every point of the model, whatever the order of the lifting and the
  variables the limit on the table leaves out.\<close>

theorem cover_cut_valid:
  assumes "separable m" "no_near_integers t m" "ct_integrality ct = X t" "llround_range m row"
    and "generate_knapsack_cover_cut (exact_scalar ft mt) ct (exact_llround u) m row = Some cover"
  shows "valid_cut m (col_lower m) (col_upper m) (dense_cover_cut m cover)"
proof -
  define vars where "vars = classify_row (exact_scalar ft mt) ct (exact_llround u) m (nat row)"
  define C where "C = find_minimal_cover vars (row_upper m ! nat row)"
  have row: "nat row < num_rows m" "llround_range m (int (nat row))" and ne: "vars \<noteq> []" "C \<noteq> []"
    using assms(4,5) by (auto simp: generate_knapsack_cover_cut_def Let_def vars_def C_def split: if_splits)
  obtain b w where b: "row_upper m ! nat row = X b" "0 < b" "b < 2 ^ 63 - 1" and w: "whole_vars m vars w"
    and activity: "\<And>p. row_value m p (nat row) = (\<Sum>v\<leftarrow>vars. xval (kv_a v) * p (kv_col v))"
    using classified[OF assms(1-3) row(2,1) vars_def ne(1)] by blast
  obtain r where r: "0 < r" "r \<le> length vars" "C = [0..<r]" "b < of_nat (\<Sum>i<r. w i)"
    using cover_prefix[OF w b(2) _ ne(2)] by (metis C_def b(1))
  then have C: "find_minimal_cover vars (X b) = [0..<r]" using b(1) by (simp add: C_def)
  define cs where "cs = fold (\<lambda>k cs. cs[k := 1 :: xnum]) [0..<r] (replicate (length vars) 0)"
  note start = lifted_start[OF r(2,4), folded cs_def]
  have its: "map (\<lambda>k. (kv_a (vars ! k), 1)) [0..<r] = of_items (lift_items w cs [0..<r])"
    using w r(2) by (simp add: start(2) whole_vars_def)
  have base: "X (of_nat r) - 1 = X (of_nat r - 1)" by (simp add: X_consts)
  obtain coeff items where run: "fold (lift_variable (exact_scalar ft mt) (exact_llround u) vars [0..<r] (X b) (X (of_nat r - 1)))
      [0..<length vars] (Some (cs, of_items (lift_items w cs [0..<r]))) = Some (coeff, items)"
    and cover: "cover = \<lparr>kc_entries = sort_by (\<lambda>e f. fst e < fst f)
      (map (\<lambda>k. (kv_col (vars ! k), coeff ! k)) (filter (\<lambda>k. 0 < coeff ! k \<or> k \<in> set [0..<r]) [0..<length vars])), kc_rhs = X (of_nat r - 1)\<rparr>"
    using assms(5) ne
    by (auto simp: generate_knapsack_cover_cut_def Let_def vars_def[symmetric] C b(1) cs_def[symmetric] its
        exact_scalar_fields base split: if_splits option.splits)
  obtain js where l: "lifted (length vars) w b r (length vars) coeff js"
    using lift_run[OF w b(3) _ start(1) run] by auto
  have nonneg: "\<exists>q \<ge> 0. coeff ! k = X q" if "k < length vars" for k using l that by (auto simp: lifted_def)
  let ?kept = "filter (\<lambda>k. 0 < coeff ! k \<or> k \<in> set [0..<r]) [0..<length vars]"
  let ?es = "map (\<lambda>k. (kv_col (vars ! k), coeff ! k)) ?kept"
  have mset: "mset (kc_entries cover) = mset ?es" by (simp add: cover)
  have in_es: "fst e < num_cols m \<and> xfinite (snd e)" if "e \<in> set ?es" for e
    using that w nonneg by (force simp: whole_vars_def)
  have "inj_on (\<lambda>k. kv_col (vars ! k)) {..<length vars}" using w by (auto simp: whole_vars_def inj_on_def distinct_conv_nth)
  then have "distinct (map fst ?es)" by (auto simp: o_def distinct_map intro: inj_on_subset)
  moreover have "mset (map fst (kc_entries cover)) = mset (map fst ?es)" unfolding mset_map mset ..
  ultimately have dist: "distinct (map fst (kc_entries cover))" using mset_eq_imp_distinct_iff by blast
  have "set (kc_entries cover) = set ?es" using mset by (metis set_mset_mset)
  then have "\<forall>e \<in> set (kc_entries cover). fst e < length (replicate (num_cols m) (0 :: xnum)) \<and> xfinite (snd e) \<and>
      replicate (num_cols m) 0 ! fst e = X 0"
    using in_es by (simp add: X_consts)
  note dense = dense_fold[OF dist this all_finite_zeros]
  have terms: "terms_at (kc_entries cover) p = (\<Sum>k < length vars. xval (coeff ! k) * p (kv_col (vars ! k)))" for p
  proof -
    have "terms_at (kc_entries cover) p = (\<Sum>k\<leftarrow>?kept. xval (coeff ! k) * p (kv_col (vars ! k)))"
      unfolding terms_mset[OF mset] by (simp add: terms_at_def o_def)
    also have "\<dots> = (\<Sum>k \<in> set ?kept. xval (coeff ! k) * p (kv_col (vars ! k)))" by (rule sum_list_distinct_conv_sum_set) simp
    also have "\<dots> = (\<Sum>k < length vars. xval (coeff ! k) * p (kv_col (vars ! k)))"
      using nonneg by (intro sum.mono_neutral_left) (auto, fastforce simp: X_consts)
    finally show ?thesis .
  qed
  have "lhs_at (cut_coeff (dense_cover_cut m cover)) p \<le> of_nat r - 1" if p: "solves m (col_lower m) (col_upper m) p" for p
    using lifted_point[OF w l r(2) p] solves_row(2)[OF p row(1)] dense[of p] terms[of p] activity[of p]
    by (simp add: dense_cover_cut_def b(1))
  then show ?thesis using dense by (simp add: valid_cut_def cut_holds_def dense_cover_cut_def cover)
qed

section \<open>A small model\<close>

text \<open>Three items, weights 2, 2 and 3, into a knapsack of 5.\<close>

theorem knapsack_exact_witness:
  "\<exists>z. exact_01_knapsack (exact_llround 0) [(X 2, X 3), (X 2, X 4), (X 3, X 6)] (X 5) = X z \<and>
    (\<exists>x. load [(2, 3), (2, 4), (3, 6)] x \<le> 5 \<and> gain [(2, 3), (2, 4), (3, 6)] x = z) \<and>
    (\<forall>x. load [(2, 3), (2, 4), (3, 6)] x \<le> 5 \<longrightarrow> gain [(2, 3), (2, 4), (3, 6)] x \<le> z)"
  using knapsack_exact[of "[(2, 3), (2, 4), (3, 6)]" 5 0] by simp

text \<open>\<open>2 x + 2 y + 2 z \<le> 3\<close> over three binaries: the cover is the first two, and the third is lifted.\<close>

definition demo_cover_model :: "xnum model" where
  "demo_cover_model = empty_model\<lparr>col_cost := [X 1, X 1, X 1], col_lower := [X 0, X 0, X 0], col_upper := [X 1, X 1, X 1],
     col_type := [kInteger, kInteger, kInteger], row_lower := [XMInf], row_upper := [X 3],
     matrix := empty_sparse\<lparr>nrows := 1, ncols := 3, frozen := True, column_starts := [0, 1, 2, 3], row_indices := [0, 0, 0],
       vals := [X 2, X 2, X 2]\<rparr>\<rparr>"

lemma demo_cover_fields:
  "num_cols demo_cover_model = 3" "num_rows demo_cover_model = 1" "col_type demo_cover_model = [kInteger, kInteger, kInteger]"
  "row_lower demo_cover_model = [XMInf]" "row_upper demo_cover_model = [X 3]"
  "col_lower demo_cover_model = [X 0, X 0, X 0]" "col_upper demo_cover_model = [X 1, X 1, X 1]"
  "column (matrix demo_cover_model) 0 = [(0, X 2)]" "column (matrix demo_cover_model) (Suc 0) = [(0, X 2)]"
  "column (matrix demo_cover_model) (Suc (Suc 0)) = [(0, X 2)]"
  by (simp_all add: demo_cover_model_def num_cols_def num_rows_def empty_model_def empty_sparse_def column_def segment_def)

lemma demo_cover_separable: "separable demo_cover_model"
  using demo_cover_fields
  by (simp add: separable_def csc_ok_def demo_cover_model_def empty_model_def empty_sparse_def stores_def column_def segment_def
      num_cols_def num_rows_def numeral_3_eq_3 less_Suc_eq)

lemma demo_cover_row: "row_entries (matrix demo_cover_model) 0 = [(0, X 2), (Suc 0, X 2), (Suc (Suc 0), X 2)]"
  using demo_cover_fields demo_cover_separable by (simp add: row_entries_def walk_columns_def separable_def numeral_3_eq_3)

lemma demo_cover_cut:
  "generate_knapsack_cover_cut (exact_scalar 0 0) (exact_cut_tolerances (1 / 10)) (exact_llround 0) demo_cover_model 0 =
     Some \<lparr>kc_entries = [(0, X 1), (Suc 0, X 1), (Suc (Suc 0), X 1)], kc_rhs = X 1\<rparr>"
proof -
  let ?sc = "exact_scalar 0 0" and ?ct = "exact_cut_tolerances (1 / 10)" and ?rd = "exact_llround 0"
  have rd: "?rd (X 0) = 0" "?rd (X 1) = 1" "?rd (X 2) = 2"
    using exact_llround_whole[of 0 0] exact_llround_whole[of 1 0] exact_llround_whole[of 2 0] by simp_all
  have "xround (X (of_nat k)) = X (of_nat k)" for k
    using floor_unique[of "int k" "of_nat k + 1 / 2 :: rat"] by (simp add: xround_def)
  from this[of 0] this[of 1] this[of 2] this[of 3] have round: "xround (X 0) = X 0" "xround (X 1) = X 1" "xround (X 2) = X 2" "xround (X 3) = X 3"
    by simp_all
  define vars where "vars = [\<lparr>kv_col = 0, kv_a = X 2\<rparr>, \<lparr>kv_col = Suc 0, kv_a = X 2\<rparr>, \<lparr>kv_col = Suc (Suc 0), kv_a = X 2\<rparr>]"
  have vars: "classify_row ?sc ?ct ?rd demo_cover_model 0 = vars"
    by (simp add: classify_row_def numeral_3_eq_3 demo_cover_fields exact_scalar_fields near_integer_def
        round int_of_double_def rd sort_by_def vars_def X_consts feq_def)
  have cover: "find_minimal_cover vars (X 3) = [0, Suc 0]" by (simp add: find_minimal_cover_def vars_def X_consts)
  have z: "exact_01_knapsack ?rd [(X 2, X 1), (X 2, X 1)] (X 1) = X 0"
    by (simp add: exact_01_knapsack_def size_of_double_def rd take_item_def X_consts)
  have sz: "size_of_double ?rd (X 1) = 1" by (simp add: size_of_double_def rd)
  have lift: "lift_variable ?sc ?rd vars [0, Suc 0] (X 3) (X 1) (Suc (Suc 0)) (Some ([X 1, X 1, X 0], [(X 2, X 1), (X 2, X 1)])) =
      Some ([X 1, X 1, X 1], [(X 2, X 1), (X 2, X 1), (X 2, X 1)])"
    by (simp add: lift_variable_def Let_def vars_def z sz X_consts kKnapsackDpLimit_def)
  have skip: "lift_variable ?sc ?rd vars [0, Suc 0] (X 3) (X 1) k (Some s) = Some s" if "k < 2" for k s
    using that by (simp add: lift_variable_def less_Suc_eq numeral_2_eq_2 split: prod.split)
  have skip0: "lift_variable ?sc ?rd vars [0, Suc 0] (X 3) (X 1) 0 (Some s) = Some s"
    and skip1: "lift_variable ?sc ?rd vars [0, Suc 0] (X 3) (X 1) (Suc 0) (Some s) = Some s" for s by (rule skip, simp)+
  have vs: "vars \<noteq> []" "length vars = Suc (Suc (Suc 0))" "kv_a (vars ! 0) = X 2" "kv_a (vars ! Suc 0) = X 2" by (simp_all add: vars_def)
  have upt: "[0..<length vars] = [0, Suc 0, Suc (Suc 0)]" by (simp add: vars_def upt_rec)
  have run: "fold (lift_variable ?sc ?rd vars [0, Suc 0] (X 3) (X 1)) [0, Suc 0, Suc (Suc 0)] (Some ([X 1, X 1, X 0], [(X 2, X 1), (X 2, X 1)])) =
      Some ([X 1, X 1, X 1], [(X 2, X 1), (X 2, X 1), (X 2, X 1)])"
    by (simp only: fold_simps o_apply skip0 skip1 lift)
  have "generate_knapsack_cover_cut ?sc ?ct ?rd demo_cover_model 0 = (case fold (lift_variable ?sc ?rd vars [0, Suc 0] (X 3) (X 1))
      [0, Suc 0, Suc (Suc 0)] (Some ([X 1, X 1, X 0], [(X 2, X 1), (X 2, X 1)])) of None \<Rightarrow> None
      | Some (coeff, items) \<Rightarrow> Some \<lparr>kc_entries = sort_by (\<lambda>e f. fst e < fst f) (map (\<lambda>k. (kv_col (vars ! k), coeff ! k))
          (filter (\<lambda>k. 0 < coeff ! k \<or> k \<in> set [0, Suc 0]) [0, Suc 0, Suc (Suc 0)])), kc_rhs = X 1\<rparr>)"
    by (simp add: generate_knapsack_cover_cut_def Let_def vars cover demo_cover_fields exact_scalar_fields X_consts vs upt cong: option.case_cong)
  then show ?thesis unfolding run by (simp add: vars_def sort_by_def X_consts)
qed

theorem cover_cut_valid_witness:
  "valid_cut demo_cover_model [X 0, X 0, X 0] [X 1, X 1, X 1] \<lparr>cut_coeff = [X 1, X 1, X 1], cut_rhs = X 1\<rparr>"
proof -
  have "no_near_integers (1 / 10) demo_cover_model"
    by (simp add: no_near_integers_def demo_cover_fields numeral_3_eq_3 less_Suc_eq)
  moreover have "llround_range demo_cover_model 0" by (simp add: llround_range_def demo_cover_row demo_cover_fields)
  ultimately show ?thesis
    using cover_cut_valid[OF demo_cover_separable _ _ _ demo_cover_cut, of "1 / 10"]
    by (simp add: dense_cover_cut_def demo_cover_fields X_consts numeral_3_eq_3)
qed

text \<open>The limit on the table is a product of 64-bit words, and wraps: four items at a capacity of \<open>2 ^ 62\<close> are within
  it, although the table would have more than \<open>2 ^ 62\<close> entries.\<close>

theorem table_limit_wraps:
  "\<not> kKnapsackDpLimit < word_of_nat 4 * size_of_double (exact_llround u) (X (2 ^ 62))"
proof -
  have "exact_llround u (X (2 ^ 62)) = 2 ^ 62" using exact_llround_whole[of "2 ^ 62" u] by simp
  then have "word_of_nat 4 * size_of_double (exact_llround u) (X (2 ^ 62)) = (0 :: 64 word)" by (simp add: size_of_double_def)
  then show ?thesis by (simp only: not_less word_zero_le)
qed

end
