(* ===== verification/GmiCuts.thy ===== *)
theory GmiCuts
  imports Cuts
begin

text \<open>
  Gomory mixed-integer cuts (\<open>src/mip/cuts.cpp\<close>): the basis read off the statuses, a row of the simplex
  tableau, and the cut derived from it, in which every dropped term is paid for. The sparse factorization is
  an argument: a function of the basis columns that answers a solver of the transposed system, or nothing when
  the basis is singular. The cut holds at every point of the model when that solver is right.
\<close>

section \<open>A row of the tableau\<close>

text \<open>What a relaxation leaves that the cuts read.\<close>

record 'a basic_solution =
  bs_x :: "'a list"
  bs_activity :: "'a list"
  bs_col_status :: "basis_status list"
  bs_row_status :: "basis_status list"

text \<open>The row; its copies of the statuses are those of the solution it is read from.\<close>

record 'a tableau_row =
  basic_is_structural :: bool
  basic_index :: nat
  tab_rhs :: 'a
  structural_coefs :: "'a list"
  logical_coefs :: "'a list"

text \<open>A slot of the basis is a structural column or the logical of a row.\<close>

definition basis_slots :: "'a basic_solution \<Rightarrow> (bool \<times> nat) list" where
  "basis_slots sol =
     map (Pair True) (filter (\<lambda>j. bs_col_status sol ! j = kBasic) [0..<length (bs_col_status sol)]) @
     map (Pair False) (filter (\<lambda>i. bs_row_status sol ! i = kBasic) [0..<length (bs_row_status sol)])"

definition slot_column :: "'a::{one,uminus} model \<Rightarrow> bool \<times> nat \<Rightarrow> (nat \<times> 'a) list" where
  "slot_column m = (\<lambda>(structural, k). if structural then column (matrix m) k else [(k, - 1)])"

definition root_gmi_context ::
    "((nat \<times> 'a) list list \<Rightarrow> nat \<Rightarrow> ('a list \<Rightarrow> 'a list) option) \<Rightarrow> 'a::{one,uminus} model \<Rightarrow> 'a basic_solution \<Rightarrow>
     ((bool \<times> nat) list \<times> ('a list \<Rightarrow> 'a list)) option" where
  "root_gmi_context factorize m sol =
     (if num_cols m \<noteq> length (bs_col_status sol) \<or> num_rows m \<noteq> length (bs_row_status sol) then None
      else if length (basis_slots sol) \<noteq> num_rows m then None
      else map_option (Pair (basis_slots sol)) (factorize (map (slot_column m) (basis_slots sol)) (num_rows m)))"

definition reconstructed_row ::
    "'a::{zero,one,plus,uminus,times} model \<Rightarrow> 'a basic_solution \<Rightarrow> (bool \<times> nat) list \<times> ('a list \<Rightarrow> 'a list) \<Rightarrow> nat \<Rightarrow> 'a tableau_row" where
  "reconstructed_row m sol = (\<lambda>(slots, solve_transpose) k.
     let z = solve_transpose ((replicate (num_rows m) 0)[k := 1]); (structural, b) = slots ! k in
     \<lparr>basic_is_structural = structural, basic_index = b,
      tab_rhs = (if structural then bs_x sol ! b else bs_activity sol ! b),
      structural_coefs = map (\<lambda>j. fold (\<lambda>(r, v) alpha. alpha + v * z ! r) (column (matrix m) j) 0) [0..<num_cols m],
      logical_coefs = map (\<lambda>i. - (z ! i)) [0..<num_rows m]\<rparr>)"

section \<open>The cut of a row\<close>

record 'a gmi_sum =
  gm_gamma :: "'a list"
  gm_beta :: 'a
  gm_dropped :: 'a
  gm_useful :: bool

text \<open>A dropped term is charged its largest value over the range of its variable.\<close>

definition charge_drop :: "'a::{zero,plus,times,ord} scalar \<Rightarrow> 'a \<Rightarrow> 'a \<Rightarrow> 'a gmi_sum \<Rightarrow> 'a gmi_sum option" where
  "charge_drop sc pi_bound width s =
     (if pi_bound \<le> 0 then Some s
      else if \<not> sc_isfinite sc width then None
      else Some (s\<lparr>gm_dropped := gm_dropped s + pi_bound * width\<rparr>))"

definition near_whole :: "'a::{one,minus,ord} scalar \<Rightarrow> 'a cut_tolerances \<Rightarrow> 'a \<Rightarrow> bool" where
  "near_whole sc ct v \<longleftrightarrow> \<not> (ct_integrality ct < v - sc_floor sc v \<and> v - sc_floor sc v < 1 - ct_integrality ct)"

text \<open>The coefficient of one term; nothing when the fraction is too close to an integer to be trusted.\<close>

definition gmi_pi ::
    "'a::{zero,one,minus,uminus,divide,ord} scalar \<Rightarrow> 'a cut_tolerances \<Rightarrow> 'a \<Rightarrow> bool \<Rightarrow> 'a \<Rightarrow> 'a option" where
  "gmi_pi sc ct f0 whole a =
     (if whole then
        let fj = a - sc_floor sc a in
        if 0 < fj \<and> fj < ct_integrality ct \<or> 1 - ct_integrality ct < fj \<and> fj < 1 then None
        else if feq fj 0 then Some 0
        else Some (cmin (fj div f0) ((1 - fj) div (1 - f0)))
      else if 0 < a then Some (a div f0)
      else if a < 0 then Some (- a div (1 - f0))
      else Some 0)"

text \<open>The largest coefficient in the row's own noise, and the bound on a coefficient before it is known.\<close>

record 'a gmi_row =
  gr_f0 :: 'a
  gr_noise :: 'a
  gr_scale :: 'a

definition gmi_at ::
    "'a::{zero,one,plus,minus,uminus,times,divide,abs,ord} scalar \<Rightarrow> 'a cut_tolerances \<Rightarrow> 'a gmi_row \<Rightarrow> bool \<Rightarrow> nat \<Rightarrow> 'a \<Rightarrow> 'a \<Rightarrow>
     bool \<Rightarrow> 'a \<Rightarrow> 'a gmi_sum \<Rightarrow> 'a gmi_sum option" where
  "gmi_at sc ct row integer k a bound lower width s =
     (if \<bar>a\<bar> \<le> ct_zero ct then (if gr_noise row < \<bar>a\<bar> then charge_drop sc (\<bar>a\<bar> * gr_scale row) width s else Some s)
      else case gmi_pi sc ct (gr_f0 row) (integer \<and> near_whole sc ct bound) a of None \<Rightarrow> None
        | Some coef \<Rightarrow>
          if ct_zero ct < coef then
            Some (s\<lparr>gm_gamma := (gm_gamma s)[k := if lower then coef else - coef],
              gm_beta := (if lower then gm_beta s + coef * bound else gm_beta s - coef * bound), gm_useful := True\<rparr>)
          else if gr_noise row * gr_scale row < coef then charge_drop sc coef width s
          else Some s)"

text \<open>A nonbasic variable, by the bound it sits at; the loops over columns and over logicals differ in
  \<open>integer\<close> only.\<close>

definition gmi_entry ::
    "'a::{zero,one,plus,minus,uminus,times,divide,abs,ord} scalar \<Rightarrow> 'a cut_tolerances \<Rightarrow> 'a gmi_row \<Rightarrow> bool \<Rightarrow> nat \<Rightarrow>
     basis_status \<Rightarrow> 'a \<Rightarrow> 'a \<Rightarrow> 'a \<Rightarrow> 'a gmi_sum \<Rightarrow> 'a gmi_sum option" where
  "gmi_entry sc ct row integer k st alpha lo hi s =
     (let width = (if sc_fin sc lo \<and> sc_fin sc hi then hi - lo else sc_infinity sc) in
      case st of kBasic \<Rightarrow> Some s | kFixed \<Rightarrow> Some s
      | kAtLower \<Rightarrow> gmi_at sc ct row integer k alpha lo True width s
      | kAtUpper \<Rightarrow> gmi_at sc ct row integer k (- alpha) hi False width s
      | kNonbasicFree \<Rightarrow> if ct_zero ct < \<bar>alpha\<bar> then None else Some s
      | kUnknown \<Rightarrow> None)"

definition gmi_columns ::
    "'a::{zero,one,plus,minus,uminus,times,divide,abs,ord} scalar \<Rightarrow> 'a cut_tolerances \<Rightarrow> 'a gmi_row \<Rightarrow> 'a model \<Rightarrow>
     basis_status list \<Rightarrow> 'a list \<Rightarrow> 'a gmi_sum option \<Rightarrow> 'a gmi_sum option" where
  "gmi_columns sc ct row m st coefs s0 = fold (\<lambda>j s. case s of None \<Rightarrow> None | Some s \<Rightarrow>
     gmi_entry sc ct row (col_type m ! j = kInteger) j (st ! j) (coefs ! j) (col_lower m ! j) (col_upper m ! j) s) [0..<num_cols m] s0"

definition gmi_logicals ::
    "'a::{zero,one,plus,minus,uminus,times,divide,abs,ord} scalar \<Rightarrow> 'a cut_tolerances \<Rightarrow> 'a gmi_row \<Rightarrow> 'a model \<Rightarrow>
     basis_status list \<Rightarrow> 'a list \<Rightarrow> 'a gmi_sum option \<Rightarrow> 'a gmi_sum option" where
  "gmi_logicals sc ct row m st coefs s0 = fold (\<lambda>i s. case s of None \<Rightarrow> None | Some s \<Rightarrow>
     gmi_entry sc ct row False i (st ! i) (coefs ! i) (row_lower m ! i) (row_upper m ! i) s) [0..<num_rows m] s0"

definition largest_abs :: "'a::{abs,ord} list \<Rightarrow> 'a \<Rightarrow> 'a" where
  "largest_abs cs largest = fold (\<lambda>c l. cmax l \<bar>c\<bar>) cs largest"

text \<open>The logicals are substituted by their rows.\<close>

definition without_logicals :: "'a::{plus,times} model \<Rightarrow> 'a list \<Rightarrow> 'a list \<Rightarrow> 'a list" where
  "without_logicals m gamma_j gamma_s = map (\<lambda>j. fold (\<lambda>(i, a) g. g + gamma_s ! i * a) (column (matrix m) j) (gamma_j ! j)) [0..<num_cols m]"

text \<open>A coefficient too small to be kept by the matrix is taken out here, and the side loosened for it.\<close>

definition emit_entry ::
    "'a::{zero,plus,minus,uminus,times,abs,ord} scalar \<Rightarrow> 'a cut_tolerances \<Rightarrow> 'a model \<Rightarrow> 'a \<Rightarrow> 'a list \<Rightarrow> nat \<Rightarrow>
     ('a cut \<times> bool) option \<Rightarrow> ('a cut \<times> bool) option" where
  "emit_entry sc ct m noise gamma j r = (case r of None \<Rightarrow> None
     | Some (c, nonzero) \<Rightarrow>
       let v = - (gamma ! j) in
       if \<bar>v\<bar> \<le> ct_zero ct then
         if noise < \<bar>v\<bar> then
           let lo = col_lower m ! j; hi = col_upper m ! j;
               at_lower = (if sc_fin sc lo then - v * lo else if 0 < v then sc_infinity sc else - sc_infinity sc);
               at_upper = (if sc_fin sc hi then - v * hi else if 0 < v then - sc_infinity sc else sc_infinity sc);
               extra = cmax at_lower at_upper
           in if \<not> sc_isfinite sc extra then None else Some (c\<lparr>cut_rhs := cut_rhs c + cmax 0 extra\<rparr>, nonzero)
         else r
       else Some (c\<lparr>cut_coeff := (cut_coeff c)[j := v]\<rparr>, True))"

definition emit_cut ::
    "'a::{zero,one,plus,minus,uminus,times,abs,ord} scalar \<Rightarrow> 'a cut_tolerances \<Rightarrow> 'a model \<Rightarrow> 'a list \<Rightarrow> 'a \<Rightarrow> 'a cut option" where
  "emit_cut sc ct m gamma beta =
     (case fold (emit_entry sc ct m (ct_noise ct * largest_abs gamma 1) gamma) [0..<num_cols m]
        (Some (\<lparr>cut_coeff = replicate (num_cols m) 0, cut_rhs = - beta\<rparr>, False)) of
        None \<Rightarrow> None | Some (c, nonzero) \<Rightarrow> if nonzero then Some c else None)"

definition compute_gmi_from_tableau ::
    "'a::{zero,one,plus,minus,uminus,times,divide,abs,ord} scalar \<Rightarrow> 'a cut_tolerances \<Rightarrow> 'a model \<Rightarrow> 'a basic_solution \<Rightarrow>
     'a tableau_row \<Rightarrow> 'a cut option" where
  "compute_gmi_from_tableau sc ct m sol t =
     (if \<not> basic_is_structural t \<or> col_type m ! basic_index t \<noteq> kInteger then None
      else
        let f0 = tab_rhs t - sc_floor sc (tab_rhs t) in
        if f0 \<le> ct_integrality ct \<or> 1 - ct_integrality ct \<le> f0 then None
        else
          let row = \<lparr>gr_f0 = f0, gr_noise = ct_noise ct * largest_abs (logical_coefs t) (largest_abs (structural_coefs t) 1),
                gr_scale = 1 div cmin f0 (1 - f0)\<rparr>
          in case gmi_columns sc ct row m (bs_col_status sol) (structural_coefs t)
               (Some \<lparr>gm_gamma = replicate (num_cols m) 0, gm_beta = 1, gm_dropped = 0, gm_useful = False\<rparr>) of
               None \<Rightarrow> None
             | Some s \<Rightarrow>
               (case gmi_logicals sc ct row m (bs_row_status sol) (logical_coefs t) (Some (s\<lparr>gm_gamma := replicate (num_rows m) 0\<rparr>)) of
                  None \<Rightarrow> None
                | Some s' \<Rightarrow>
                  if \<not> gm_useful s' then None
                  else emit_cut sc ct m (without_logicals m (gm_gamma s) (gm_gamma s')) (gm_beta s' - gm_dropped s')))"

definition generate_gmi_cuts ::
    "((nat \<times> 'a) list list \<Rightarrow> nat \<Rightarrow> ('a list \<Rightarrow> 'a list) option) \<Rightarrow>
     'a::{zero,one,plus,minus,uminus,times,divide,abs,ord} scalar \<Rightarrow> 'a cut_tolerances \<Rightarrow> 'a model \<Rightarrow> 'a basic_solution \<Rightarrow> 'a cut list" where
  "generate_gmi_cuts factorize sc ct m sol =
     (case root_gmi_context factorize m sol of None \<Rightarrow> []
      | Some context \<Rightarrow> concat (map (\<lambda>k.
          let (structural, b) = fst context ! k; f0 = bs_x sol ! b - sc_floor sc (bs_x sol ! b) in
          if \<not> structural \<or> col_type m ! b \<noteq> kInteger then []
          else if f0 \<le> ct_integrality ct \<or> 1 - ct_integrality ct \<le> f0 then []
          else case compute_gmi_from_tableau sc ct m sol (reconstructed_row m sol context k) of None \<Rightarrow> [] | Some c \<Rightarrow> [c])
        [0..<num_rows m]))"

text \<open>The entry for a single row of the basis.\<close>

definition get_tableau_for_testing ::
    "((nat \<times> 'a) list list \<Rightarrow> nat \<Rightarrow> ('a list \<Rightarrow> 'a list) option) \<Rightarrow>
     'a::{zero,one,plus,uminus,times} model \<Rightarrow> 'a basic_solution \<Rightarrow> nat \<Rightarrow> 'a tableau_row option" where
  "get_tableau_for_testing factorize m sol k = map_option (\<lambda>context. reconstructed_row m sol context k) (root_gmi_context factorize m sol)"

definition generate_gmi_cut ::
    "((nat \<times> 'a) list list \<Rightarrow> nat \<Rightarrow> ('a list \<Rightarrow> 'a list) option) \<Rightarrow>
     'a::{zero,one,plus,minus,uminus,times,divide,abs,ord} scalar \<Rightarrow> 'a cut_tolerances \<Rightarrow> 'a model \<Rightarrow> 'a basic_solution \<Rightarrow> nat \<Rightarrow>
     'a cut option" where
  "generate_gmi_cut factorize sc ct m sol k =
     Option.bind (get_tableau_for_testing factorize m sol k) (compute_gmi_from_tableau sc ct m sol)"

section \<open>The inequality\<close>

definition gmi_coef :: "rat \<Rightarrow> bool \<Rightarrow> rat \<Rightarrow> rat" where
  "gmi_coef f0 whole a = (if whole then min (frac a / f0) ((1 - frac a) / (1 - f0)) else if 0 < a then a / f0 else - a / (1 - f0))"

lemma gmi_coef_bounds:
  assumes "0 < f0" "f0 < 1"
  shows "0 \<le> gmi_coef f0 whole a" "gmi_coef f0 whole a \<le> \<bar>a\<bar> * (1 / min f0 (1 - f0))" "gmi_coef f0 whole 0 = 0"
proof -
  have fr: "0 \<le> frac a" "frac a < 1" by (simp_all add: frac_ge_0 frac_lt_1)
  have "0 \<le> - a / (1 - f0)" if "\<not> 0 < a" using that assms by (intro divide_nonneg_pos) auto
  then show "0 \<le> gmi_coef f0 whole a" "gmi_coef f0 whole 0 = 0" using assms fr by (simp_all add: gmi_coef_def)
  have scale: "x / y \<le> \<bar>a\<bar> * (1 / min f0 (1 - f0))" if "0 \<le> x" "x \<le> \<bar>a\<bar>" "min f0 (1 - f0) \<le> y" for x y
  proof -
    have "x / y \<le> \<bar>a\<bar> / min f0 (1 - f0)" using that assms by (intro frac_le) auto
    then show ?thesis by simp
  qed
  show "gmi_coef f0 whole a \<le> \<bar>a\<bar> * (1 / min f0 (1 - f0))"
  proof (cases whole)
    case False
    then show ?thesis using scale[of a f0] scale[of "- a" "1 - f0"] by (auto simp: gmi_coef_def)
  next
    case True
    show ?thesis
    proof (cases "0 \<le> a")
      case True
      then have "frac a \<le> \<bar>a\<bar>" by (simp add: frac_def)
      then show ?thesis using scale[of "frac a" f0] fr \<open>whole\<close> by (simp add: gmi_coef_def min.coboundedI1)
    next
      case False
      then have "\<lfloor>a\<rfloor> \<le> - 1" by (simp add: floor_le_iff)
      then have "1 - frac a \<le> \<bar>a\<bar>" using False unfolding frac_def by linarith
      then show ?thesis using scale[of "1 - frac a" "1 - f0"] fr \<open>whole\<close> by (simp add: gmi_coef_def min.coboundedI2)
    qed
  qed
qed

text \<open>The part of a term left when its integral part is taken off, and what the coefficient is beside it.\<close>

definition gmi_rest :: "rat \<Rightarrow> bool \<Rightarrow> rat \<Rightarrow> rat" where
  "gmi_rest f0 whole a = (if whole then if frac a / f0 \<le> (1 - frac a) / (1 - f0) then frac a else frac a - 1 else a)"

lemma gmi_rest_facts:
  assumes "0 < f0" "f0 < 1"
  shows "gmi_coef f0 whole a = max 0 (gmi_rest f0 whole a) / f0 + max 0 (- gmi_rest f0 whole a) / (1 - f0)"
    and "whole \<Longrightarrow> a - gmi_rest f0 whole a \<in> \<int>" "\<not> whole \<Longrightarrow> gmi_rest f0 whole a = a"
proof -
  have fr: "0 \<le> frac a" "frac a < 1" by (simp_all add: frac_ge_0 frac_lt_1)
  show "gmi_coef f0 whole a = max 0 (gmi_rest f0 whole a) / f0 + max 0 (- gmi_rest f0 whole a) / (1 - f0)"
  proof (cases whole)
    case True
    have "min (x / f0) ((1 - x) / (1 - f0)) = max 0 (if x / f0 \<le> (1 - x) / (1 - f0) then x else x - 1) / f0 +
        max 0 (- (if x / f0 \<le> (1 - x) / (1 - f0) then x else x - 1)) / (1 - f0)" if "0 \<le> x" "x < 1" for x
      using that by (auto simp: max_def min_def)
    from this[OF fr] True show ?thesis by (simp only: gmi_coef_def gmi_rest_def if_True)
  qed (auto simp: gmi_coef_def gmi_rest_def max_def)
  have "a - frac a = of_int \<lfloor>a\<rfloor>" "a - (frac a - 1) = of_int (\<lfloor>a\<rfloor> + 1)" by (simp_all add: frac_def)
  then have "a - frac a \<in> \<int>" "a - (frac a - 1) \<in> \<int>" by (metis Ints_of_int)+
  then show "whole \<Longrightarrow> a - gmi_rest f0 whole a \<in> \<int>" unfolding gmi_rest_def by (simp only: if_True simp_thms split: if_split)
qed (simp add: gmi_rest_def)

lemma gmi_valid:
  fixes b :: rat
  assumes f0: "0 < frac b" and y: "\<forall>(a, whole, y) \<in> set ts. 0 \<le> y \<and> (whole \<longrightarrow> y \<in> \<int>)"
    and int: "b - (\<Sum>(a, whole, y)\<leftarrow>ts. a * y) \<in> \<int>"
  shows "1 \<le> (\<Sum>(a, whole, y)\<leftarrow>ts. gmi_coef (frac b) whole a * y)"
proof -
  let ?f = "frac b"
  have f1: "?f < 1" by (simp add: frac_lt_1)
  define P where "P = (\<Sum>(a, whole, y)\<leftarrow>ts. max 0 (gmi_rest ?f whole a) * y)"
  define N where "N = (\<Sum>(a, whole, y)\<leftarrow>ts. max 0 (- gmi_rest ?f whole a) * y)"
  have parts: "0 \<le> P \<and> 0 \<le> N \<and> (\<Sum>(a, whole, y)\<leftarrow>ts. a * y) - (P - N) \<in> \<int> \<and>
      (\<Sum>(a, whole, y)\<leftarrow>ts. gmi_coef ?f whole a * y) = P / ?f + N / (1 - ?f)"
    using y unfolding P_def N_def
  proof (induction ts)
    case (Cons e ts)
    obtain a whole y where e: "e = (a, whole, y)" by (cases e)
    note r = gmi_rest_facts[OF f0 f1, of whole a]
    have y: "0 \<le> y" "whole \<longrightarrow> y \<in> \<int>" using Cons.prems e by auto
    let ?p = "max 0 (gmi_rest ?f whole a)" and ?n = "max 0 (- gmi_rest ?f whole a)"
    have "?p - ?n = gmi_rest ?f whole a" by (simp add: max_def)
    then have "a * y - (?p * y - ?n * y) = (a - gmi_rest ?f whole a) * y" by (metis left_diff_distrib)
    then have whole: "a * y - (?p * y - ?n * y) \<in> \<int>" using r(2,3) y(2) by (cases whole) auto
    have "gmi_coef ?f whole a * y = ?p * y / ?f + ?n * y / (1 - ?f)" unfolding r(1) by (simp add: field_simps)
    moreover have "0 \<le> ?p * y" "0 \<le> ?n * y" using y(1) by simp_all
    moreover have "(\<Sum>(a, whole, y)\<leftarrow>ts. a * y) - ((\<Sum>(a, whole, y)\<leftarrow>ts. max 0 (gmi_rest ?f whole a) * y) -
        (\<Sum>(a, whole, y)\<leftarrow>ts. max 0 (- gmi_rest ?f whole a) * y)) \<in> \<int>" (is "?S - (?P - ?N) \<in> \<int>") using Cons by simp
    then have "(a * y - (?p * y - ?n * y)) + (?S - (?P - ?N)) \<in> \<int>" by (rule Ints_add[OF whole])
    then have "(a * y + ?S) - ((?p * y + ?P) - (?n * y + ?N)) \<in> \<int>" by (simp add: algebra_simps)
    ultimately show ?case using Cons by (simp add: e add_divide_distrib)
  qed simp
  have "(b - (\<Sum>(a, whole, y)\<leftarrow>ts. a * y)) + ((\<Sum>(a, whole, y)\<leftarrow>ts. a * y) - (P - N)) \<in> \<int>" using int parts by (intro Ints_add) simp_all
  moreover have "(b - S) + (S - (P - N)) = b - (P - N)" for S by simp
  ultimately have "b - (P - N) \<in> \<int>" by (simp only:)
  then have "b - (P - N) - of_int \<lfloor>b\<rfloor> \<in> \<int>" by (rule Ints_diff[OF _ Ints_of_int])
  then obtain k where "b - (P - N) - of_int \<lfloor>b\<rfloor> = of_int k" by (rule Ints_cases)
  then have k: "P - N = ?f - of_int k" by (simp add: frac_def)
  show ?thesis
  proof (cases "k \<le> 0")
    case True
    then have "of_int k \<le> (0 :: rat)" by simp
    then have "?f \<le> P" using k parts by linarith
    then have "1 \<le> P / ?f" using f0 by simp
    moreover have "0 \<le> N / (1 - ?f)" using parts f1 by simp
    ultimately show ?thesis using parts by linarith
  next
    case False
    then have "1 \<le> (of_int k :: rat)" by simp
    then have "1 - ?f \<le> N" using k parts by linarith
    then have "1 \<le> N / (1 - ?f)" using f1 by simp
    moreover have "0 \<le> P / ?f" using parts f0 by simp
    ultimately show ?thesis using parts by linarith
  qed
qed

section \<open>The scan\<close>

definition exact_row :: "rat \<Rightarrow> xnum gmi_row" where
  "exact_row f = \<lparr>gr_f0 = X f, gr_noise = X 0, gr_scale = X (1 / min f (1 - f))\<rparr>"

lemma gmi_pi_exact:
  assumes "0 < f" "f < 1" "gmi_pi (exact_scalar ft mt) ct (X f) whole (X a) = Some c"
  shows "c = X (gmi_coef f whole a)"
proof (cases whole)
  case True
  have fr: "a - of_int \<lfloor>a\<rfloor> = frac a" "0 \<le> frac a" "frac a < 1" using frac_ge_0 frac_lt_1 by (simp_all add: frac_def)
  have "c = (if feq (X (frac a)) 0 then 0 else cmin (X (frac a) div X f) ((1 - X (frac a)) div (1 - X f)))"
    using assms(3) True by (auto simp: gmi_pi_def exact_scalar_fields Let_def fr(1) split: if_splits)
  note c = this
  show ?thesis
  proof (cases "frac a = 0")
    case zero: True
    then have "gmi_coef f whole a = 0" using True assms(2) by (simp only: gmi_coef_def if_True) (simp add: min_def)
    then show ?thesis using c zero by (simp del: frac_eq_0_iff add: X_consts)
  next
    case False
    then have "\<not> feq (X (frac a)) 0" by (simp only: X_consts feq_X not_False_eq_True)
    then have "c = cmin (X (frac a) div X f) ((1 - X (frac a)) div (1 - X f))" using c by (simp only: if_False)
    then show ?thesis using True assms(1,2) by (simp only: X_consts gmi_coef_def if_True) (simp add: cmin_def min_def)
  qed
qed (use assms in \<open>auto simp: gmi_pi_def gmi_coef_def X_consts split: if_splits\<close>)

text \<open>The value at a point of what the scan has kept, and what it promises of it.\<close>

definition worth :: "xnum gmi_sum \<Rightarrow> (nat \<Rightarrow> rat) \<Rightarrow> rat" where
  "worth s p = lhs_at (gm_gamma s) p - xval (gm_beta s) + xval (gm_dropped s)"

definition sum_ok :: "nat \<Rightarrow> nat \<Rightarrow> xnum gmi_sum \<Rightarrow> bool" where
  "sum_ok n k s \<longleftrightarrow> all_finite (gm_gamma s) \<and> length (gm_gamma s) = n \<and> (\<forall>i < n. k \<le> i \<longrightarrow> gm_gamma s ! i = X 0) \<and>
     xfinite (gm_beta s) \<and> xfinite (gm_dropped s)"

lemma charge_ok:
  assumes "sum_ok n k s" "charge_drop (exact_scalar ft mt) (X c) w s = Some s'"
  shows "sum_ok n k s'" "0 \<le> y \<Longrightarrow> (\<And>r. w = X r \<Longrightarrow> y \<le> r) \<Longrightarrow> worth s p + c * y \<le> worth s' p"
proof -
  have "sum_ok n k s' \<and> (0 \<le> y \<and> (\<forall>r. w = X r \<longrightarrow> y \<le> r) \<longrightarrow> worth s p + c * y \<le> worth s' p)"
  proof (cases "c \<le> 0")
    case True
    then show ?thesis using assms by (simp add: charge_drop_def X_consts mult_nonpos_nonneg)
  next
    case False
    then obtain r d where r: "w = X r" "gm_dropped s = X d" "s' = s\<lparr>gm_dropped := X (d + c * r)\<rparr>"
      using assms by (cases w; cases "gm_dropped s") (auto simp: charge_drop_def X_consts exact_scalar_fields sum_ok_def)
    then show ?thesis using assms(1) False by (auto simp: sum_ok_def worth_def)
  qed
  then show "sum_ok n k s'" "0 \<le> y \<Longrightarrow> (\<And>r. w = X r \<Longrightarrow> y \<le> r) \<Longrightarrow> worth s p + c * y \<le> worth s' p" by auto
qed

lemma sum_ok_Suc: "sum_ok n k s \<Longrightarrow> sum_ok n (Suc k) s"
  by (simp add: sum_ok_def)

lemma gmi_at_cases:
  assumes "gmi_at sc ct row integer k a bound lower w s = Some s'"
  shows "\<bar>a\<bar> \<le> ct_zero ct \<and> gr_noise row < \<bar>a\<bar> \<and> charge_drop sc (\<bar>a\<bar> * gr_scale row) w s = Some s' \<or>
    \<bar>a\<bar> \<le> ct_zero ct \<and> \<not> gr_noise row < \<bar>a\<bar> \<and> s' = s \<or>
    (\<exists>c. gmi_pi sc ct (gr_f0 row) (integer \<and> near_whole sc ct bound) a = Some c \<and>
      (ct_zero ct < c \<and> s' = s\<lparr>gm_gamma := (gm_gamma s)[k := if lower then c else - c],
          gm_beta := (if lower then gm_beta s + c * bound else gm_beta s - c * bound), gm_useful := True\<rparr> \<or>
        gr_noise row * gr_scale row < c \<and> charge_drop sc c w s = Some s' \<or>
        \<not> gr_noise row * gr_scale row < c \<and> s' = s))"
  using assms by (auto simp: gmi_at_def split: option.splits if_splits)

lemma gmi_at_ok:
  assumes f: "0 < f" "f < 1" and k: "k < n" and s: "sum_ok n k s"
    and run: "gmi_at (exact_scalar ft mt) ct (exact_row f) integer k (X a) (X q) lower w s = Some s'"
  shows "sum_ok n (Suc k) s'"
    and "y = (if lower then p k - q else q - p k) \<Longrightarrow> 0 \<le> y \<Longrightarrow> (\<And>r. w = X r \<Longrightarrow> y \<le> r) \<Longrightarrow>
      worth s p + gmi_coef f (integer \<and> near_whole (exact_scalar ft mt) ct (X q)) a * y \<le> worth s' p"
proof -
  let ?c = "gmi_coef f (integer \<and> near_whole (exact_scalar ft mt) ct (X q)) a"
  note b = gmi_coef_bounds[OF f]
  have row: "gr_f0 (exact_row f) = X f" "gr_noise (exact_row f) = X 0" "gr_scale (exact_row f) = X (1 / min f (1 - f))" by (simp_all add: exact_row_def)
  consider (tiny) "charge_drop (exact_scalar ft mt) (X (\<bar>a\<bar> * (1 / min f (1 - f)))) w s = Some s'"
    | (none) "?c = 0" "s' = s"
    | (kept) "s' = s\<lparr>gm_gamma := (gm_gamma s)[k := if lower then X ?c else - X ?c],
        gm_beta := (if lower then gm_beta s + X ?c * X q else gm_beta s - X ?c * X q), gm_useful := True\<rparr>"
    | (small) "charge_drop (exact_scalar ft mt) (X ?c) w s = Some s'"
  proof -
    let ?w = "integer \<and> near_whole (exact_scalar ft mt) ct (X q)" and ?m = "1 / min f (1 - f)"
    have scale: "X 0 * X ?m = X 0" "\<bar>X a\<bar> * X ?m = X (\<bar>a\<bar> * ?m)" by simp_all
    have pi: "c = X ?c" if "gmi_pi (exact_scalar ft mt) ct (X f) ?w (X a) = Some c" for c by (rule gmi_pi_exact[OF f that])
    consider (1) "charge_drop (exact_scalar ft mt) (\<bar>X a\<bar> * X ?m) w s = Some s'" | (2) "\<not> X 0 < \<bar>X a\<bar>" "s' = s"
      | (3) c where "gmi_pi (exact_scalar ft mt) ct (X f) ?w (X a) = Some c" "s' = s\<lparr>gm_gamma := (gm_gamma s)[k := if lower then c else - c],
          gm_beta := (if lower then gm_beta s + c * X q else gm_beta s - c * X q), gm_useful := True\<rparr>"
      | (4) c where "gmi_pi (exact_scalar ft mt) ct (X f) ?w (X a) = Some c" "charge_drop (exact_scalar ft mt) c w s = Some s'"
      | (5) c where "gmi_pi (exact_scalar ft mt) ct (X f) ?w (X a) = Some c" "\<not> X 0 * X ?m < c" "s' = s"
      using gmi_at_cases[OF run] unfolding row by blast
    then show thesis
    proof cases
      case 1
      then show thesis using that(1) unfolding scale by blast
    next
      case 2
      then show thesis using that(2) b(3) by simp
    next
      case 3
      then show thesis using that(3) pi by blast
    next
      case 4
      then show thesis using that(4) pi by blast
    next
      case 5
      then have "?c \<le> 0" using pi unfolding scale by (metis not_less xless_simps(1))
      then have "?c = 0" using b(1)[of ?w a] by linarith
      then show thesis using that(2) 5 by blast
    qed
  qed
  then have "sum_ok n (Suc k) s' \<and> (y = (if lower then p k - q else q - p k) \<and> 0 \<le> y \<and> (\<forall>r. w = X r \<longrightarrow> y \<le> r) \<longrightarrow>
      worth s p + ?c * y \<le> worth s' p)"
  proof cases
    case tiny
    have "worth s p + ?c * y \<le> worth s p + (\<bar>a\<bar> * (1 / min f (1 - f))) * y" if "0 \<le> y"
      using b(2) that by (simp only: add_le_cancel_left mult_right_mono)
    then show ?thesis using charge_ok(1)[OF s tiny] charge_ok(2)[OF s tiny, of y p] sum_ok_Suc by (metis order_trans)
  next
    case none
    then show ?thesis using s sum_ok_Suc by simp
  next
    case small
    then show ?thesis using charge_ok(1)[OF s small] charge_ok(2)[OF s small, of y p] sum_ok_Suc by blast
  next
    case kept
    have g: "all_finite (gm_gamma s)" "k < length (gm_gamma s)" "gm_gamma s ! k = X 0" using s k by (simp_all add: sum_ok_def)
    obtain \<beta> where \<beta>: "gm_beta s = X \<beta>" using s by (cases "gm_beta s") (auto simp: sum_ok_def)
    have v: "(if lower then X ?c else - X ?c) = X (if lower then ?c else - ?c)" by simp
    note u = lhs_update[OF g v]
    have "sum_ok n (Suc k) s'" using s u(1) \<beta> by (auto simp: kept sum_ok_def)
    moreover have "worth s' p = worth s p + ?c * (if lower then p k - q else q - p k)"
      using u(2)[of p] \<beta> by (auto simp: kept worth_def algebra_simps)
    ultimately show ?thesis by simp
  qed
  then show "sum_ok n (Suc k) s'" and "y = (if lower then p k - q else q - p k) \<Longrightarrow> 0 \<le> y \<Longrightarrow> (\<And>r. w = X r \<Longrightarrow> y \<le> r) \<Longrightarrow>
      worth s p + ?c * y \<le> worth s' p" by auto
qed

text \<open>The distance of a nonbasic variable from its bound, its coefficient, and whether it is treated as integer.\<close>

definition gap_of :: "basis_status \<Rightarrow> xnum \<Rightarrow> xnum \<Rightarrow> rat \<Rightarrow> rat" where
  "gap_of st lo hi v = (if st = kAtLower then v - xval lo else if st = kAtUpper then xval hi - v else 0)"

definition signed_coef :: "basis_status \<Rightarrow> rat \<Rightarrow> rat" where
  "signed_coef st a = (if st = kAtUpper then - a else a)"

definition whole_at :: "xnum cut_tolerances \<Rightarrow> bool \<Rightarrow> basis_status \<Rightarrow> xnum \<Rightarrow> xnum \<Rightarrow> bool" where
  "whole_at ct integer st lo hi \<longleftrightarrow> integer \<and> near_whole (exact_scalar 0 0) ct (if st = kAtUpper then hi else lo)"

lemma near_whole_scalar: "near_whole (exact_scalar ft mt) ct v = near_whole (exact_scalar 0 0) ct v"
  by (simp add: near_whole_def exact_scalar_fields)

text \<open>A variable sits at a bound only when the bound is finite.\<close>

definition sits :: "basis_status \<Rightarrow> xnum \<Rightarrow> xnum \<Rightarrow> bool" where
  "sits st lo hi \<longleftrightarrow> (st = kAtLower \<longrightarrow> xfinite lo) \<and> (st = kAtUpper \<longrightarrow> xfinite hi)"

lemma gap_range:
  assumes "sits st lo hi" "lo \<le> X v" "X v \<le> hi"
  shows "0 \<le> gap_of st lo hi v" "(if xfinite lo \<and> xfinite hi then hi - lo else XPInf) = X r \<Longrightarrow> gap_of st lo hi v \<le> r"
  using assms by (cases lo; cases hi; auto simp: gap_of_def sits_def)+

lemma gmi_entry_ok:
  assumes f: "0 < f" "f < 1" and k: "k < n" and s: "sum_ok n k s" and z: "ct_zero ct = X z" and sits: "sits st lo hi"
    and run: "gmi_entry (exact_scalar ft mt) ct (exact_row f) integer k st (X a) lo hi s = Some s'"
  shows "sum_ok n (Suc k) s'" "st \<noteq> kUnknown" "st = kNonbasicFree \<Longrightarrow> \<bar>a\<bar> \<le> z"
    and "lo \<le> X (p k) \<Longrightarrow> X (p k) \<le> hi \<Longrightarrow>
      worth s p + gmi_coef f (whole_at ct integer st lo hi) (signed_coef st a) * gap_of st lo hi (p k) \<le> worth s' p"
proof -
  let ?w = "if xfinite lo \<and> xfinite hi then hi - lo else XPInf"
  show "st \<noteq> kUnknown" "st = kNonbasicFree \<Longrightarrow> \<bar>a\<bar> \<le> z" using run z by (auto simp: gmi_entry_def split: if_splits)
  have "sum_ok n (Suc k) s' \<and> (lo \<le> X (p k) \<and> X (p k) \<le> hi \<longrightarrow>
      worth s p + gmi_coef f (whole_at ct integer st lo hi) (signed_coef st a) * gap_of st lo hi (p k) \<le> worth s' p)" for p
  proof (cases st)
    case kAtLower
    obtain q where q: "lo = X q" using sits kAtLower by (cases lo) (auto simp: sits_def)
    have at: "gmi_at (exact_scalar ft mt) ct (exact_row f) integer k (X a) (X q) True ?w s = Some s'"
      using run unfolding gmi_entry_def exact_scalar_fields Let_def kAtLower q by simp
    show ?thesis using gmi_at_ok(1)[OF f k s at] gmi_at_ok(2)[OF f k s at refl, of p] gap_range[OF sits]
      by (simp add: kAtLower whole_at_def signed_coef_def near_whole_scalar[of ft mt] gap_of_def q)
  next
    case kAtUpper
    obtain q where q: "hi = X q" using sits kAtUpper by (cases hi) (auto simp: sits_def)
    have at: "gmi_at (exact_scalar ft mt) ct (exact_row f) integer k (X (- a)) (X q) False ?w s = Some s'"
      using run unfolding gmi_entry_def exact_scalar_fields Let_def kAtUpper q by simp
    show ?thesis using gmi_at_ok(1)[OF f k s at] gmi_at_ok(2)[OF f k s at refl, of p] gap_range[OF sits]
      by (simp add: kAtUpper whole_at_def signed_coef_def near_whole_scalar[of ft mt] gap_of_def q)
  qed (use run s sum_ok_Suc in \<open>auto simp: gmi_entry_def gap_of_def split: if_splits\<close>)
  then show "sum_ok n (Suc k) s'" and "lo \<le> X (p k) \<Longrightarrow> X (p k) \<le> hi \<Longrightarrow>
      worth s p + gmi_coef f (whole_at ct integer st lo hi) (signed_coef st a) * gap_of st lo hi (p k) \<le> worth s' p" by auto
qed

lemma scan_sound:
  assumes f: "0 < f" "f < 1" and z: "ct_zero ct = X z" and k: "k \<le> n"
    and sits: "\<And>k. k < n \<Longrightarrow> sits (st k) (lo k) (hi k)" and al: "\<And>k. k < n \<Longrightarrow> al k = X (a k)"
    and s0: "sum_ok n 0 s0"
    and run: "fold (\<lambda>k s. case s of None \<Rightarrow> None | Some s \<Rightarrow>
      gmi_entry (exact_scalar ft mt) ct (exact_row f) (integer k) k (st k) (al k) (lo k) (hi k) s) [0..<k] (Some s0) = Some s'"
  shows "sum_ok n k s' \<and> (\<forall>i < k. st i \<noteq> kUnknown \<and> (st i = kNonbasicFree \<longrightarrow> \<bar>a i\<bar> \<le> z)) \<and>
    (\<forall>p. (\<forall>i < k. lo i \<le> X (p i) \<and> X (p i) \<le> hi i) \<longrightarrow>
      worth s0 p + (\<Sum>i < k. gmi_coef f (whole_at ct (integer i) (st i) (lo i) (hi i)) (signed_coef (st i) (a i)) * gap_of (st i) (lo i) (hi i) (p i))
        \<le> worth s' p)"
  using k run
proof (induction k arbitrary: s')
  case 0
  then show ?case using s0 by simp
next
  case (Suc k)
  obtain s where s: "fold (\<lambda>k s. case s of None \<Rightarrow> None | Some s \<Rightarrow>
      gmi_entry (exact_scalar ft mt) ct (exact_row f) (integer k) k (st k) (al k) (lo k) (hi k) s) [0..<k] (Some s0) = Some s"
    and e: "gmi_entry (exact_scalar ft mt) ct (exact_row f) (integer k) k (st k) (X (a k)) (lo k) (hi k) s = Some s'"
    using Suc.prems al[of k] by (auto split: option.splits)
  have kn: "k < n" "k \<le> n" using Suc.prems(1) by simp_all
  note IH = Suc.IH[OF kn(2) s]
  note ok = gmi_entry_ok[OF f kn(1) conjunct1[OF IH] z sits[OF kn(1)] e]
  show ?case
  proof (intro conjI allI impI)
    fix p assume p: "\<forall>i < Suc k. lo i \<le> X (p i) \<and> X (p i) \<le> hi i"
    then show "worth s0 p + (\<Sum>i < Suc k. gmi_coef f (whole_at ct (integer i) (st i) (lo i) (hi i)) (signed_coef (st i) (a i)) *
        gap_of (st i) (lo i) (hi i) (p i)) \<le> worth s' p"
      using IH ok(4)[of p] by (simp add: add.assoc[symmetric]) (metis (no_types, lifting) add_right_mono less_SucI order_trans)
  qed (use IH ok(1-3) in \<open>auto simp: less_Suc_eq\<close>)
qed

section \<open>The tableau\<close>

text \<open>What the code relies on of the factorization: the solver it returns inverts the transposed basis.\<close>

definition transpose_solves :: "((nat \<times> xnum) list list \<Rightarrow> nat \<Rightarrow> (xnum list \<Rightarrow> xnum list) option) \<Rightarrow> bool" where
  "transpose_solves factorize \<longleftrightarrow> (\<forall>cols n solve k. factorize cols n = Some solve \<longrightarrow> length cols = n \<longrightarrow> k < n \<longrightarrow>
     (\<forall>col \<in> set cols. \<forall>e \<in> set col. fst e < n \<and> xfinite (snd e)) \<longrightarrow>
     (let z = solve ((replicate n 0)[k := 1]) in length z = n \<and> all_finite z \<and>
       (\<forall>s < n. terms_at (cols ! s) (\<lambda>r. xval (z ! r)) = (if s = k then 1 else 0))))"

text \<open>A basic solution: a point with every nonbasic variable at the bound its status names.\<close>

definition nonbasic_at :: "basis_status \<Rightarrow> xnum \<Rightarrow> xnum \<Rightarrow> rat \<Rightarrow> bool" where
  "nonbasic_at st lo hi v \<longleftrightarrow> (st = kAtLower \<longrightarrow> lo = X v) \<and> (st = kAtUpper \<longrightarrow> hi = X v) \<and> (st = kFixed \<longrightarrow> lo = X v \<and> hi = X v)"

definition basic_point :: "xnum model \<Rightarrow> xnum basic_solution \<Rightarrow> (nat \<Rightarrow> rat) \<Rightarrow> bool" where
  "basic_point m sol x \<longleftrightarrow>
     (\<forall>j < num_cols m. bs_x sol ! j = X (x j) \<and> nonbasic_at (bs_col_status sol ! j) (col_lower m ! j) (col_upper m ! j) (x j)) \<and>
     (\<forall>i < num_rows m. nonbasic_at (bs_row_status sol ! i) (row_lower m ! i) (row_upper m ! i) (row_value m x i))"

lemma sum_list_split: "\<forall>e \<in> set es. fst e < (n :: nat) \<Longrightarrow>
    (\<Sum>i < n. (\<Sum>e\<leftarrow>filter (\<lambda>e. fst e = i) es. g e)) = (\<Sum>e\<leftarrow>es. g e :: rat)"
proof (induction es)
  case (Cons e es)
  have "(\<Sum>i < n. (\<Sum>e\<leftarrow>filter (\<lambda>e. fst e = i) (e # es). g e)) =
      (\<Sum>i < n. (if fst e = i then g e else 0) + (\<Sum>e\<leftarrow>filter (\<lambda>e. fst e = i) es. g e))"
    by (rule sum.cong) simp_all
  also have "\<dots> = g e + (\<Sum>e\<leftarrow>es. g e)" using Cons by (simp add: sum.distrib)
  finally show ?case by simp
qed simp

lemma sum_over_concat: "(\<Sum>x\<leftarrow>concat xss. f x) = (\<Sum>xs\<leftarrow>xss. \<Sum>x\<leftarrow>xs. f x :: rat)"
  by (induction xss) simp_all

text \<open>A combination of the columns at a point is the same combination of the rows.\<close>

lemma combine_rows:
  assumes "separable m"
  shows "(\<Sum>j < num_cols m. terms_at (column (matrix m) j) w * p j) = (\<Sum>i < num_rows m. w i * row_value m p i)"
proof -
  let ?g = "\<lambda>e :: nat \<times> nat \<times> xnum. w (fst e) * (xval (snd (snd e)) * p (fst (snd e)))"
  have n: "ncols (matrix m) = num_cols m" using assms by (simp add: separable_def)
  have in_range: "\<forall>e \<in> set (walk_columns (matrix m)). fst e < num_rows m"
    using assms csc_row_bound[of "matrix m"] by (fastforce simp: walk_columns_def separable_def)
  have "(\<Sum>i < num_rows m. w i * row_value m p i) = (\<Sum>i < num_rows m. (\<Sum>e\<leftarrow>filter (\<lambda>e. fst e = i) (walk_columns (matrix m)). ?g e))"
  proof (rule sum.cong[OF refl])
    fix i assume "i \<in> {..<num_rows m}"
    then have "w i * row_value m p i = w i * (\<Sum>e\<leftarrow>filter (\<lambda>e. fst e = i) (walk_columns (matrix m)). xval (snd (snd e)) * p (fst (snd e)))"
      using assms by (simp add: row_value_entries row_entries_def o_def case_prod_unfold)
    also have "\<dots> = (\<Sum>e\<leftarrow>filter (\<lambda>e. fst e = i) (walk_columns (matrix m)). ?g e)"
      unfolding sum_list_const_mult[symmetric] by (rule arg_cong[where f = sum_list], rule map_cong) auto
    finally show "w i * row_value m p i = (\<Sum>e\<leftarrow>filter (\<lambda>e. fst e = i) (walk_columns (matrix m)). ?g e)" .
  qed
  also have "\<dots> = (\<Sum>e\<leftarrow>walk_columns (matrix m). ?g e)" by (rule sum_list_split[OF in_range])
  also have "\<dots> = (\<Sum>j\<leftarrow>[0..<num_cols m]. \<Sum>e\<leftarrow>column (matrix m) j. w (fst e) * (xval (snd e) * p j))"
    unfolding walk_columns_def n sum_over_concat by (simp add: o_def case_prod_unfold)
  also have "\<dots> = (\<Sum>j < num_cols m. terms_at (column (matrix m) j) w * p j)"
    unfolding interv_sum_list_conv_sum_set_nat atLeast0LessThan[symmetric] set_upt
    by (rule sum.cong) (simp_all add: terms_at_def case_prod_unfold sum_list_const_mult ac_simps)
  finally show ?thesis by simp
qed

lemma fold_terms:
  "\<forall>e \<in> set es. xfinite (snd e) \<Longrightarrow> (\<And>r. r \<in> fst ` set es \<Longrightarrow> z ! r = X (w r)) \<Longrightarrow>
    fold (\<lambda>(r, v) g. g + v * z ! r) es (X q) = X (q + terms_at es w)"
proof (induction es arbitrary: q)
  case (Cons e es)
  obtain r v where e: "e = (r, X v)" using Cons.prems(1) by (cases e) (metis list.set_intros(1) snd_conv xfinite.elims(2))
  show ?case using Cons by (simp add: e add.assoc)
qed simp

lemma fold_terms_swap:
  "fold (\<lambda>(r, v) g. g + z ! r * v) es q = fold (\<lambda>(r, v) g. g + v * z ! r) es (q :: xnum)"
proof -
  have "a * b = b * (a :: xnum)" for a b by (cases a; cases b) (simp_all add: times_xnum_def xmul_def mult.commute)
  then show ?thesis by (simp add: case_prod_unfold)
qed

lemma slots_facts:
  assumes "root_gmi_context factorize m sol = Some (slots, solve)"
  shows "length slots = num_rows m" "distinct slots" "factorize (map (slot_column m) slots) (num_rows m) = Some solve"
    and "(True, j) \<in> set slots \<longleftrightarrow> j < num_cols m \<and> bs_col_status sol ! j = kBasic"
    and "(False, i) \<in> set slots \<longleftrightarrow> i < num_rows m \<and> bs_row_status sol ! i = kBasic"
  using assms by (auto simp: root_gmi_context_def basis_slots_def distinct_map inj_on_def split: if_splits)

lemma slot_columns_fine:
  assumes "separable m" "root_gmi_context factorize m sol = Some (slots, solve)"
  shows "\<forall>col \<in> set (map (slot_column m) slots). \<forall>e \<in> set col. fst e < num_rows m \<and> xfinite (snd e)"
proof (intro ballI)
  fix col e assume "col \<in> set (map (slot_column m) slots)" and e: "e \<in> set col"
  then obtain b k where bk: "(b, k) \<in> set slots" "col = slot_column m (b, k)" by auto
  show "fst e < num_rows m \<and> xfinite (snd e)"
  proof (cases b)
    case True
    then have "k < num_cols m" using bk slots_facts(4)[OF assms(2)] by simp
    then show ?thesis using e bk(2) True assms(1) csc_row_bound[of "matrix m" k] by (auto simp: slot_column_def separable_def)
  next
    case False
    then have "k < num_rows m" using bk slots_facts(5)[OF assms(2)] by simp
    then show ?thesis using e bk(2) False by (auto simp: slot_column_def X_consts)
  qed
qed

text \<open>The reconstructed row: its coefficients are a combination of the rows that is one on its own basic column
  and zero on every other basic variable.\<close>

lemma row_reconstructed:
  assumes sep: "separable m" and lu: "transpose_solves factorize" and ctx: "root_gmi_context factorize m sol = Some (slots, solve)"
    and k: "k < num_rows m" "slots ! k = (True, b)"
  shows "\<exists>w. (\<forall>j < num_cols m. structural_coefs (reconstructed_row m sol (slots, solve) k) ! j = X (terms_at (column (matrix m) j) w)) \<and>
    (\<forall>i < num_rows m. logical_coefs (reconstructed_row m sol (slots, solve) k) ! i = X (- w i)) \<and>
    (\<forall>j < num_cols m. bs_col_status sol ! j = kBasic \<longrightarrow> terms_at (column (matrix m) j) w = (if j = b then 1 else 0)) \<and>
    (\<forall>i < num_rows m. bs_row_status sol ! i = kBasic \<longrightarrow> w i = 0)"
proof -
  note f = slots_facts[OF ctx]
  define z where "z = solve ((replicate (num_rows m) 0)[k := 1])"
  define w where "w r = xval (z ! r)" for r
  have z: "length z = num_rows m" "all_finite z"
    and unit: "\<And>s. s < num_rows m \<Longrightarrow> terms_at (slot_column m (slots ! s)) w = (if s = k then 1 else 0)"
    using lu[unfolded transpose_solves_def, rule_format, OF f(3) _ k(1)] slot_columns_fine[OF sep ctx] f(1)
    by (auto simp: z_def w_def[abs_def] Let_def)
  have zr: "z ! r = X (w r)" if "r < num_rows m" for r using all_finite_nth[OF z(2), of r] that z(1) by (auto simp: w_def)
  show ?thesis
  proof (intro exI[of _ w] conjI allI impI)
    show "structural_coefs (reconstructed_row m sol (slots, solve) k) ! j = X (terms_at (column (matrix m) j) w)" if j: "j < num_cols m" for j
    proof -
      have "\<forall>e \<in> set (column (matrix m) j). xfinite (snd e)" "\<And>r. r \<in> fst ` set (column (matrix m) j) \<Longrightarrow> z ! r = X (w r)"
        using sep j csc_row_bound[of "matrix m" j] zr by (auto simp: separable_def)
      from fold_terms[OF this, of 0] show ?thesis using j by (simp add: reconstructed_row_def Let_def k(2) z_def[symmetric] flip: X_consts)
    qed
    show "logical_coefs (reconstructed_row m sol (slots, solve) k) ! i = X (- w i)" if "i < num_rows m" for i
      using that zr[OF that] by (simp add: reconstructed_row_def Let_def k(2) z_def[symmetric])
    show "terms_at (column (matrix m) j) w = (if j = b then 1 else 0)" if j: "j < num_cols m" "bs_col_status sol ! j = kBasic" for j
    proof -
      obtain s where s: "s < num_rows m" "slots ! s = (True, j)" using f(1,4) j by (metis in_set_conv_nth)
      have "s = k \<longleftrightarrow> j = b" using s k f(1,2) by (metis nth_eq_iff_index_eq prod.inject)
      then show ?thesis using unit[OF s(1)] s(2) by (simp add: slot_column_def)
    qed
    show "w i = 0" if i: "i < num_rows m" "bs_row_status sol ! i = kBasic" for i
    proof -
      obtain s where s: "s < num_rows m" "slots ! s = (False, i)" using f(1,5) i by (metis in_set_conv_nth)
      then have "s \<noteq> k" using k(2) by auto
      then show ?thesis using unit[OF s(1)] s(2) by (simp add: slot_column_def X_consts)
    qed
  qed
qed

text \<open>A nonbasic variable away from its bound, and one that cannot be.\<close>

lemma nonbasic_term:
  assumes "nonbasic_at st lo hi x" "st \<noteq> kUnknown" "st \<noteq> kBasic" "st = kNonbasicFree \<longrightarrow> a = 0" "lo \<le> X v" "X v \<le> hi"
  shows "a * (v - x) = signed_coef st a * gap_of st lo hi v"
  using assms by (cases st) (auto simp: nonbasic_at_def signed_coef_def gap_of_def algebra_simps)

lemma tableau_identity:
  assumes sep: "separable m" and bp: "basic_point m sol x" and b: "b < num_cols m" "bs_col_status sol ! b = kBasic"
    and basic: "\<And>j. j < num_cols m \<Longrightarrow> bs_col_status sol ! j = kBasic \<Longrightarrow> terms_at (column (matrix m) j) w = (if j = b then 1 else 0)"
      "\<And>i. i < num_rows m \<Longrightarrow> bs_row_status sol ! i = kBasic \<Longrightarrow> w i = 0"
    and known: "\<And>j. j < num_cols m \<Longrightarrow> bs_col_status sol ! j \<noteq> kUnknown \<and>
        (bs_col_status sol ! j = kNonbasicFree \<longrightarrow> terms_at (column (matrix m) j) w = 0)"
      "\<And>i. i < num_rows m \<Longrightarrow> bs_row_status sol ! i \<noteq> kUnknown \<and> (bs_row_status sol ! i = kNonbasicFree \<longrightarrow> w i = 0)"
    and p: "solves m (col_lower m) (col_upper m) p"
  shows "x b - ((\<Sum>j < num_cols m. signed_coef (bs_col_status sol ! j) (terms_at (column (matrix m) j) w) *
        gap_of (bs_col_status sol ! j) (col_lower m ! j) (col_upper m ! j) (p j)) +
      (\<Sum>i < num_rows m. signed_coef (bs_row_status sol ! i) (- w i) *
        gap_of (bs_row_status sol ! i) (row_lower m ! i) (row_upper m ! i) (row_value m p i))) = p b"
proof -
  let ?a = "\<lambda>j. terms_at (column (matrix m) j) w"
  let ?c = "\<lambda>j. signed_coef (bs_col_status sol ! j) (?a j) * gap_of (bs_col_status sol ! j) (col_lower m ! j) (col_upper m ! j) (p j)"
  let ?r = "\<lambda>i. signed_coef (bs_row_status sol ! i) (- w i) * gap_of (bs_row_status sol ! i) (row_lower m ! i) (row_upper m ! i) (row_value m p i)"
  have col: "?a j * (p j - x j) = (if j = b then p b - x b else 0) + ?c j" if j: "j < num_cols m" for j
  proof (cases "bs_col_status sol ! j = kBasic")
    case True
    then show ?thesis using basic(1)[OF j True] by (simp add: gap_of_def)
  next
    case False
    then have "j \<noteq> b" using b(2) by blast
    then show ?thesis using nonbasic_term[of "bs_col_status sol ! j" "col_lower m ! j" "col_upper m ! j" "x j" "?a j" "p j"]
      bp known(1)[OF j] False solves_col(1,2)[OF p j] j by (simp add: basic_point_def)
  qed
  have row: "- w i * (row_value m p i - row_value m x i) = ?r i" if i: "i < num_rows m" for i
  proof (cases "bs_row_status sol ! i = kBasic")
    case True
    then show ?thesis using basic(2)[OF i True] by (simp add: gap_of_def)
  next
    case False
    then show ?thesis using nonbasic_term[of "bs_row_status sol ! i" "row_lower m ! i" "row_upper m ! i" "row_value m x i" "- w i" "row_value m p i"]
      bp known(2)[OF i] solves_row[OF p i] i by (simp add: basic_point_def)
  qed
  have "(\<Sum>j < num_cols m. ?a j * (p j - x j)) + (\<Sum>i < num_rows m. - w i * (row_value m p i - row_value m x i)) = 0"
    using combine_rows[OF sep, of w p] combine_rows[OF sep, of w x] by (simp add: algebra_simps sum_subtractf sum_negf)
  moreover have "(\<Sum>j < num_cols m. ?a j * (p j - x j)) = p b - x b + (\<Sum>j < num_cols m. ?c j)"
    using col b(1) by (simp add: sum.distrib)
  moreover have "(\<Sum>i < num_rows m. - w i * (row_value m p i - row_value m x i)) = (\<Sum>i < num_rows m. ?r i)" using row by simp
  ultimately show ?thesis by linarith
qed

section \<open>The cut that is emitted\<close>

lemma loosened:
  assumes "e = cmax (if xfinite lo then X (- v) * lo else if 0 < v then XPInf else - XPInf)
      (if xfinite hi then X (- v) * hi else if 0 < v then - XPInf else XPInf)" "xfinite e" "v \<noteq> 0" "lo \<le> X q" "X q \<le> hi"
  shows "- v * q \<le> xval e"
proof (cases "0 < v")
  case True
  then obtain l where l: "lo = X l" "l \<le> q" using assms by (cases lo) (auto simp: cmax_def uminus_xnum_def split: if_splits)
  then have "- v * q \<le> - v * l" using True by simp
  then show ?thesis using True l assms by (cases hi) (auto simp: cmax_def uminus_xnum_def split: if_splits)
next
  case False
  then have v: "v < 0" using assms(3) by simp
  then obtain h where h: "hi = X h" "q \<le> h" using assms by (cases hi; cases lo) (auto simp: cmax_def uminus_xnum_def split: if_splits)
  then have "- v * q \<le> - v * h" using v by simp
  then show ?thesis using v h assms by (cases lo) (auto simp: cmax_def uminus_xnum_def split: if_splits)
qed

definition emitted :: "xnum model \<Rightarrow> (nat \<Rightarrow> rat) \<Rightarrow> rat \<Rightarrow> nat \<Rightarrow> xnum cut \<Rightarrow> bool" where
  "emitted m g \<beta> k c \<longleftrightarrow> all_finite (cut_coeff c) \<and> length (cut_coeff c) = num_cols m \<and> xfinite (cut_rhs c) \<and>
     (\<forall>i < num_cols m. k \<le> i \<longrightarrow> cut_coeff c ! i = X 0) \<and>
     (\<forall>p. (\<forall>i < k. col_lower m ! i \<le> X (p i) \<and> X (p i) \<le> col_upper m ! i) \<longrightarrow>
        lhs_at (cut_coeff c) p - xval (cut_rhs c) \<le> \<beta> - (\<Sum>j < k. g j * p j))"

lemma emit_step:
  assumes k: "k < num_cols m" and c: "emitted m g \<beta> k c" and g: "gamma ! k = X (g k)"
    and run: "emit_entry (exact_scalar ft mt) ct m (X 0) gamma k (Some (c, nz)) = Some (c', nz')"
  shows "emitted m g \<beta> (Suc k) c'"
proof -
  let ?v = "- g k"
  let ?e = "cmax (if xfinite (col_lower m ! k) then X (- ?v) * (col_lower m ! k) else if 0 < ?v then XPInf else - XPInf)
      (if xfinite (col_upper m ! k) then X (- ?v) * (col_upper m ! k) else if 0 < ?v then - XPInf else XPInf)"
  obtain r where r: "cut_rhs c = X r" using c by (cases "cut_rhs c") (auto simp: emitted_def)
  have len: "k < length (cut_coeff c)" "cut_coeff c ! k = X 0" using c k by (simp_all add: emitted_def)
  consider (keep) "c' = c\<lparr>cut_coeff := (cut_coeff c)[k := X ?v]\<rparr>" | (zero) "?v = 0" "c' = c"
    | (drop) "?v \<noteq> 0" "xfinite ?e" "c' = c\<lparr>cut_rhs := X r + cmax (X 0) ?e\<rparr>"
    using run by (auto simp: emit_entry_def Let_def g exact_scalar_fields r X_consts split: if_splits)
  then show ?thesis
  proof cases
    case keep
    note u = lhs_update[OF _ len refl, of ?v]
    have "lhs_at (cut_coeff c') p - r \<le> \<beta> - (\<Sum>j < Suc k. g j * p j)"
      if "\<forall>i < Suc k. col_lower m ! i \<le> X (p i) \<and> X (p i) \<le> col_upper m ! i" for p
    proof -
      have "lhs_at (cut_coeff c) p - r \<le> \<beta> - (\<Sum>j < k. g j * p j)" using c that by (simp add: emitted_def r)
      moreover have "lhs_at (cut_coeff c') p = lhs_at (cut_coeff c) p - g k * p k" using u(2)[of p] c by (simp add: keep emitted_def)
      ultimately show ?thesis by simp
    qed
    then show ?thesis using c u(1) by (auto simp: emitted_def keep nth_list_update r)
  next
    case zero
    then show ?thesis using c by (auto simp: emitted_def less_Suc_eq)
  next
    case drop
    obtain e where e: "?e = X e" using drop(2) by (cases ?e) auto
    have "- ?v * p k \<le> e" if "col_lower m ! k \<le> X (p k)" "X (p k) \<le> col_upper m ! k" for p
      using loosened[OF refl drop(2,1) that] unfolding e by simp
    then have "lhs_at (cut_coeff c) p - (r + max 0 e) \<le> \<beta> - (\<Sum>j < Suc k. g j * p j)"
      if "\<forall>i < Suc k. col_lower m ! i \<le> X (p i) \<and> X (p i) \<le> col_upper m ! i" for p
    proof -
      have "lhs_at (cut_coeff c) p - r \<le> \<beta> - (\<Sum>j < k. g j * p j)" using c that by (simp add: emitted_def r)
      moreover have "g k * p k \<le> max 0 e" using \<open>\<And>p. _ \<Longrightarrow> _ \<Longrightarrow> - ?v * p k \<le> e\<close>[of p] that by fastforce
      ultimately show ?thesis by simp
    qed
    moreover have "c' = c\<lparr>cut_rhs := X (r + max 0 e)\<rparr>" using drop(3) unfolding e by (simp add: cmax_def max_def)
    ultimately show ?thesis using c by (simp add: emitted_def)
  qed
qed

lemma largest_finite: "all_finite cs \<Longrightarrow> \<exists>q. largest_abs cs (X a) = X q"
proof (induction cs arbitrary: a)
  case (Cons c cs)
  then obtain q where "c = X q" by (cases c) (auto simp: all_finite_def)
  moreover have "\<exists>q'. cmax (X a) (X \<bar>q\<bar>) = X q'" by (simp add: cmax_def)
  ultimately show ?case using Cons by (auto simp: largest_abs_def all_finite_def)
qed (simp add: largest_abs_def)

lemma emit_sound:
  assumes noise: "ct_noise ct = X 0" and g: "length gamma = num_cols m" "\<And>j. j < num_cols m \<Longrightarrow> gamma ! j = X (g j)"
    and run: "emit_cut (exact_scalar ft mt) ct m gamma (X \<beta>) = Some c"
  shows "emitted m g \<beta> (num_cols m) c"
proof -
  have "all_finite gamma" using g by (auto simp: all_finite_def in_set_conv_nth)
  then obtain q where "largest_abs gamma 1 = X q" using largest_finite by (metis X_consts(2))
  then have zero: "ct_noise ct * largest_abs gamma 1 = X 0" by (simp add: noise)
  define step where "step = emit_entry (exact_scalar ft mt) ct m (X 0) gamma"
  define start where "start = \<lparr>cut_coeff = replicate (num_cols m) 0, cut_rhs = - X \<beta>\<rparr>"
  have none: "step k None = None" for k by (simp add: step_def emit_entry_def)
  have all: "emitted m g \<beta> k c" if "k \<le> num_cols m" "fold step [0..<k] (Some (start, False)) = Some (c, nz)" for k c nz
    using that
  proof (induction k arbitrary: c nz)
    case 0
    then have "c = start" by simp
    then show ?case by (simp add: emitted_def start_def) (simp add: X_consts)
  next
    case (Suc k)
    obtain c0 nz0 where s: "fold step [0..<k] (Some (start, False)) = Some (c0, nz0)"
      using Suc.prems(2) none by (cases "fold step [0..<k] (Some (start, False))") auto
    have "step k (Some (c0, nz0)) = Some (c, nz)" using Suc.prems(2) s by simp
    then show ?case using emit_step[of k m g \<beta> c0 gamma] Suc.IH[OF _ s] Suc.prems(1) g(2)[of k] by (auto simp: step_def)
  qed
  have "\<exists>nz. fold step [0..<num_cols m] (Some (start, False)) = Some (c, nz)"
    using run unfolding emit_cut_def zero step_def[symmetric] start_def[symmetric] by (auto split: option.splits prod.splits if_splits)
  then show ?thesis using all by blast
qed

section \<open>Every cut is valid\<close>

lemma tableau_row_runs:
  assumes t: "ct_integrality ct = X t" "0 \<le> t" and noise: "ct_noise ct = X 0"
    and tab: "basic_is_structural tab" "tab_rhs tab = X v" "all_finite (structural_coefs tab)" "all_finite (logical_coefs tab)"
    and run: "compute_gmi_from_tableau (exact_scalar ft mt) ct m sol tab = Some c"
  obtains s s' where "0 < frac v" "col_type m ! basic_index tab = kInteger"
    "gmi_columns (exact_scalar ft mt) ct (exact_row (frac v)) m (bs_col_status sol) (structural_coefs tab)
       (Some \<lparr>gm_gamma = replicate (num_cols m) 0, gm_beta = 1, gm_dropped = 0, gm_useful = False\<rparr>) = Some s"
    "gmi_logicals (exact_scalar ft mt) ct (exact_row (frac v)) m (bs_row_status sol) (logical_coefs tab)
       (Some (s\<lparr>gm_gamma := replicate (num_rows m) 0\<rparr>)) = Some s'"
    "emit_cut (exact_scalar ft mt) ct m (without_logicals m (gm_gamma s) (gm_gamma s')) (gm_beta s' - gm_dropped s') = Some c"
proof -
  have f0: "X v - xfloor (X v) = X (frac v)" by (simp add: frac_def)
  obtain q where "largest_abs (logical_coefs tab) (largest_abs (structural_coefs tab) 1) = X q"
    using largest_finite[OF tab(3), of 1] largest_finite[OF tab(4)] by (metis X_consts(2))
  then have noise0: "ct_noise ct * largest_abs (logical_coefs tab) (largest_abs (structural_coefs tab) 1) = X 0" by (simp add: noise)
  have int: "col_type m ! basic_index tab = kInteger" and fr: "t < frac v"
    using run tab(1) by (auto simp: compute_gmi_from_tableau_def Let_def tab(2) exact_scalar_fields f0 t(1) simp del: xround_simps split: if_splits)
  have pos: "0 < frac v" "frac v < 1" using fr t(2) frac_lt_1[of v] by linarith+
  have scale: "1 div cmin (X (frac v)) (1 - X (frac v)) = X (1 / min (frac v) (1 - frac v))"
    using pos by (simp add: X_consts cmin_def min_def)
  have row: "\<lparr>gr_f0 = X (frac v), gr_noise = ct_noise ct * largest_abs (logical_coefs tab) (largest_abs (structural_coefs tab) 1),
      gr_scale = 1 div cmin (X (frac v)) (1 - X (frac v))\<rparr> = exact_row (frac v)"
    unfolding noise0 scale exact_row_def ..
  show thesis
    using run that[OF pos(1) int] unfolding compute_gmi_from_tableau_def Let_def tab(2) exact_scalar_fields(4) f0 row
    by (auto split: if_splits option.splits)
qed

lemma frac_gap_whole:
  assumes "whole_at ct integer st lo hi" "integer \<Longrightarrow> v \<in> \<int>" "integer \<Longrightarrow> xval lo \<in> \<int>" "integer \<Longrightarrow> xval hi \<in> \<int>"
  shows "gap_of st lo hi v \<in> \<int>"
  using assms by (auto simp: whole_at_def gap_of_def)

lemma gmi_row_valid:
  assumes sep: "separable m" and whole: "whole_bounds m (col_lower m) (col_upper m)"
    and ct: "ct_integrality ct = X t" "0 \<le> t" "ct_noise ct = X 0" "ct_zero ct = X z"
    and lu: "transpose_solves factorize" and bp: "basic_point m sol x"
    and free: "z = 0 \<or> kNonbasicFree \<notin> set (bs_col_status sol) \<union> set (bs_row_status sol)"
    and ctx: "root_gmi_context factorize m sol = Some (slots, solve)" and k: "k < num_rows m" "slots ! k = (True, b)"
    and run: "compute_gmi_from_tableau (exact_scalar ft mt) ct m sol (reconstructed_row m sol (slots, solve) k) = Some c"
  shows "valid_cut m (col_lower m) (col_upper m) c"
proof -
  let ?sc = "exact_scalar ft mt" and ?tab = "reconstructed_row m sol (slots, solve) k"
  let ?cs = "\<lambda>j. bs_col_status sol ! j" and ?rs = "\<lambda>i. bs_row_status sol ! i"
  obtain w where w: "\<And>j. j < num_cols m \<Longrightarrow> structural_coefs ?tab ! j = X (terms_at (column (matrix m) j) w)"
    "\<And>i. i < num_rows m \<Longrightarrow> logical_coefs ?tab ! i = X (- w i)"
    "\<And>j. j < num_cols m \<Longrightarrow> ?cs j = kBasic \<Longrightarrow> terms_at (column (matrix m) j) w = (if j = b then 1 else 0)"
    "\<And>i. i < num_rows m \<Longrightarrow> ?rs i = kBasic \<Longrightarrow> w i = 0"
    using row_reconstructed[OF sep lu ctx k] by blast
  have b: "b < num_cols m" "?cs b = kBasic" using slots_facts(1,4)[OF ctx] k by (metis nth_mem)+
  have tab: "basic_is_structural ?tab" "basic_index ?tab = b" "tab_rhs ?tab = X (x b)" "length (structural_coefs ?tab) = num_cols m"
    "length (logical_coefs ?tab) = num_rows m" using bp b(1) k(2) by (simp_all add: reconstructed_row_def Let_def basic_point_def)
  have fin: "all_finite (structural_coefs ?tab)" "all_finite (logical_coefs ?tab)"
    using w(1,2) tab(4,5) by (auto simp: all_finite_def in_set_conv_nth)
  let ?f = "frac (x b)" and ?s0 = "\<lparr>gm_gamma = replicate (num_cols m) 0, gm_beta = 1, gm_dropped = 0, gm_useful = False\<rparr> :: xnum gmi_sum"
  obtain s s' where f0: "0 < ?f" and int: "col_type m ! b = kInteger"
    and s: "gmi_columns ?sc ct (exact_row ?f) m (bs_col_status sol) (structural_coefs ?tab) (Some ?s0) = Some s"
    and s': "gmi_logicals ?sc ct (exact_row ?f) m (bs_row_status sol) (logical_coefs ?tab) (Some (s\<lparr>gm_gamma := replicate (num_rows m) 0\<rparr>)) = Some s'"
    and emit: "emit_cut ?sc ct m (without_logicals m (gm_gamma s) (gm_gamma s')) (gm_beta s' - gm_dropped s') = Some c"
    by (rule tableau_row_runs[OF ct(1-3) tab(1,3) fin run]) (simp only: tab(2))
  have f1: "?f < 1" by (simp add: frac_lt_1)
  have sits: "\<And>j. j < num_cols m \<Longrightarrow> sits (?cs j) (col_lower m ! j) (col_upper m ! j)"
    "\<And>i. i < num_rows m \<Longrightarrow> sits (?rs i) (row_lower m ! i) (row_upper m ! i)"
    using bp by (auto simp: basic_point_def nonbasic_at_def sits_def)
  have ok0: "sum_ok (num_cols m) 0 ?s0" by (simp add: sum_ok_def X_consts) (simp add: all_finite_def)
  note A = scan_sound[OF f0 f1 ct(4) order_refl sits(1) w(1) ok0 s[unfolded gmi_columns_def]]
  have ok1: "sum_ok (num_rows m) 0 (s\<lparr>gm_gamma := replicate (num_rows m) 0\<rparr>)"
    using A by (simp add: sum_ok_def X_consts) (simp add: all_finite_def)
  note B = scan_sound[OF f0 f1 ct(4) order_refl sits(2) w(2) ok1 s'[unfolded gmi_logicals_def]]
  have nofree: "a = 0" if "\<bar>a\<bar> \<le> z" "?cs j = kNonbasicFree \<and> j < length (bs_col_status sol) \<or> ?rs j = kNonbasicFree \<and> j < length (bs_row_status sol)" for a j
    using free that by (auto dest: nth_mem)
  have len: "length (bs_col_status sol) = num_cols m" "length (bs_row_status sol) = num_rows m"
    using ctx by (auto simp: root_gmi_context_def split: if_splits)
  let ?al = "\<lambda>j. terms_at (column (matrix m) j) w"
  have known: "?cs j \<noteq> kUnknown \<and> (?cs j = kNonbasicFree \<longrightarrow> ?al j = 0)" if "j < num_cols m" for j
    using A nofree[of "?al j" j] len that by auto
  have known': "?rs i \<noteq> kUnknown \<and> (?rs i = kNonbasicFree \<longrightarrow> w i = 0)" if "i < num_rows m" for i
    using B nofree[of "w i" i] len that by auto
  let ?cg = "\<lambda>p j. gap_of (?cs j) (col_lower m ! j) (col_upper m ! j) (p j)"
  let ?rg = "\<lambda>p i. gap_of (?rs i) (row_lower m ! i) (row_upper m ! i) (row_value m p i)"
  let ?cw = "\<lambda>j. whole_at ct (col_type m ! j = kInteger) (?cs j) (col_lower m ! j) (col_upper m ! j)"
  let ?rw = "\<lambda>i. whole_at ct False (?rs i) (row_lower m ! i) (row_upper m ! i)"
  have one: "1 \<le> (\<Sum>j < num_cols m. gmi_coef ?f (?cw j) (signed_coef (?cs j) (?al j)) * ?cg p j) +
      (\<Sum>i < num_rows m. gmi_coef ?f (?rw i) (signed_coef (?rs i) (- w i)) * ?rg p i)" if p: "solves m (col_lower m) (col_upper m) p" for p
  proof -
    let ?ts = "map (\<lambda>j. (signed_coef (?cs j) (?al j), ?cw j, ?cg p j)) [0..<num_cols m] @
      map (\<lambda>i. (signed_coef (?rs i) (- w i), ?rw i, ?rg p i)) [0..<num_rows m]"
    have sums: "(\<Sum>(a, whole, y)\<leftarrow>?ts. F a whole * y) = (\<Sum>j < num_cols m. F (signed_coef (?cs j) (?al j)) (?cw j) * ?cg p j) +
        (\<Sum>i < num_rows m. F (signed_coef (?rs i) (- w i)) (?rw i) * ?rg p i)" for F :: "rat \<Rightarrow> bool \<Rightarrow> rat"
      by (simp add: o_def interv_sum_list_conv_sum_set_nat atLeast0LessThan)
    have "x b - (\<Sum>(a, whole, y)\<leftarrow>?ts. a * y) = p b"
      unfolding sums[of "\<lambda>a whole. a"] by (rule tableau_identity[OF sep bp b w(3,4) known known' p])
    then have at_b: "x b - (\<Sum>(a, whole, y)\<leftarrow>?ts. a * y) \<in> \<int>" using solves_col(3)[OF p b(1) int] by simp
    have gc: "0 \<le> ?cg p j \<and> (?cw j \<longrightarrow> ?cg p j \<in> \<int>)" if j: "j < num_cols m" for j
    proof -
      have "col_type m ! j = kInteger \<Longrightarrow> xval (col_lower m ! j) \<in> \<int> \<and> xval (col_upper m ! j) \<in> \<int>"
        using whole j by (cases "col_lower m ! j"; cases "col_upper m ! j") (force simp: whole_bounds_def)+
      then show ?thesis using frac_gap_whole[of ct "col_type m ! j = kInteger"] solves_col[OF p j] gap_range(1)[OF sits(1)[OF j]] by blast
    qed
    have gr: "0 \<le> ?rg p i \<and> \<not> ?rw i" if i: "i < num_rows m" for i
      using gap_range(1)[OF sits(2)[OF i]] solves_row[OF p i] by (simp add: whole_at_def)
    have "\<forall>(a, whole, y) \<in> set ?ts. 0 \<le> y \<and> (whole \<longrightarrow> y \<in> \<int>)" using gc gr by auto
    from gmi_valid[OF f0 this at_b] show ?thesis unfolding sums[of "\<lambda>a whole. gmi_coef ?f whole a"] .
  qed
  obtain \<beta> d where \<beta>: "gm_beta s' = X \<beta>" "gm_dropped s' = X d"
    using B by (cases "gm_beta s'"; cases "gm_dropped s'") (auto simp: sum_ok_def)
  define g where "g j = xval (gm_gamma s ! j) + terms_at (column (matrix m) j) (\<lambda>i. xval (gm_gamma s' ! i))" for j
  have gam: "gm_gamma s ! j = X (xval (gm_gamma s ! j))" if "j < num_cols m" for j
    using A that all_finite_nth[of "gm_gamma s" j] by (auto simp: sum_ok_def)
  have gam': "gm_gamma s' ! i = X (xval (gm_gamma s' ! i))" if "i < num_rows m" for i
    using B that all_finite_nth[of "gm_gamma s'" i] by (auto simp: sum_ok_def)
  have total: "without_logicals m (gm_gamma s) (gm_gamma s') ! j = X (g j)" if j: "j < num_cols m" for j
  proof -
    have "\<forall>e \<in> set (column (matrix m) j). xfinite (snd e)"
      "\<And>r. r \<in> fst ` set (column (matrix m) j) \<Longrightarrow> gm_gamma s' ! r = X (xval (gm_gamma s' ! r))"
      using sep j csc_row_bound[of "matrix m" j] gam' by (auto simp: separable_def)
    from fold_terms[OF this, of "xval (gm_gamma s ! j)"] show ?thesis
      using j gam[OF j] by (simp add: without_logicals_def g_def fold_terms_swap)
  qed
  have e: "emitted m g (\<beta> - d) (num_cols m) c"
    by (rule emit_sound[OF ct(3) _ total]) (use emit in \<open>simp_all add: without_logicals_def \<beta>\<close>)
  have "lhs_at (cut_coeff c) p \<le> xval (cut_rhs c)" if p: "solves m (col_lower m) (col_upper m) p" for p
  proof -
    have a: "worth ?s0 p + (\<Sum>j < num_cols m. gmi_coef ?f (?cw j) (signed_coef (?cs j) (?al j)) * ?cg p j) \<le> worth s p"
      using A solves_col(1,2)[OF p] by auto
    have b: "worth (s\<lparr>gm_gamma := replicate (num_rows m) 0\<rparr>) (row_value m p) +
        (\<Sum>i < num_rows m. gmi_coef ?f (?rw i) (signed_coef (?rs i) (- w i)) * ?rg p i) \<le> worth s' (row_value m p)"
      using B solves_row[OF p] by auto
    have "(\<Sum>j < num_cols m. g j * p j) = lhs_at (gm_gamma s) p + lhs_at (gm_gamma s') (row_value m p)"
      using A B combine_rows[OF sep, of "\<lambda>i. xval (gm_gamma s' ! i)" p]
      by (simp add: g_def lhs_at_def sum_ok_def sum.distrib distrib_right)
    moreover have "lhs_at (cut_coeff c) p - xval (cut_rhs c) \<le> \<beta> - d - (\<Sum>j < num_cols m. g j * p j)"
      using e solves_col(1,2)[OF p] by (simp add: emitted_def)
    moreover have "xval 0 = 0" "xval 1 = 1" by (simp_all add: X_consts)
    ultimately show ?thesis using a b one[OF p] by (simp add: worth_def \<beta>)
  qed
  then show ?thesis using e by (cases "cut_rhs c") (auto simp: valid_cut_def cut_holds_def emitted_def)
qed

text \<open>C18. C. Every Gomory cut of the generator holds at every point of the model: the row it is derived from is a
  combination of the rows that the factorization makes one on its basic column and zero on the others, and
  whatever the cut drops on the way (small terms of the row, small coefficients of the cut) is paid for in its
  right-hand side. Only a free nonbasic variable with a small coefficient is dropped without a charge, so
  either no coefficient is below the drop tolerance or no variable is nonbasic free.\<close>

theorem gmi_cuts_valid:
  assumes "separable m" "whole_bounds m (col_lower m) (col_upper m)"
    and "ct_integrality ct = X t" "0 \<le> t" "ct_noise ct = X 0" "ct_zero ct = X z"
    and "transpose_solves factorize" "basic_point m sol x"
    and "z = 0 \<or> kNonbasicFree \<notin> set (bs_col_status sol) \<union> set (bs_row_status sol)"
    and "c \<in> set (generate_gmi_cuts factorize (exact_scalar ft mt) ct m sol)"
  shows "valid_cut m (col_lower m) (col_upper m) c"
proof -
  obtain slots solve where ctx: "root_gmi_context factorize m sol = Some (slots, solve)"
    using assms(10) by (cases "root_gmi_context factorize m sol") (auto simp: generate_gmi_cuts_def)
  obtain k b where k: "k < num_rows m" "slots ! k = (True, b)"
    "compute_gmi_from_tableau (exact_scalar ft mt) ct m sol (reconstructed_row m sol (slots, solve) k) = Some c"
    using assms(10) by (auto simp: generate_gmi_cuts_def ctx Let_def split: prod.splits option.splits if_splits) metis
  show ?thesis by (rule gmi_row_valid[OF assms(1-9) ctx k])
qed

text \<open>The cut of a single row is one of them.\<close>

lemma single_row_cut:
  assumes "generate_gmi_cut factorize sc ct m sol k = Some c" "k < num_rows m"
  shows "c \<in> set (generate_gmi_cuts factorize sc ct m sol)"
proof -
  obtain slots solve where ctx: "root_gmi_context factorize m sol = Some (slots, solve)"
    and c: "compute_gmi_from_tableau sc ct m sol (reconstructed_row m sol (slots, solve) k) = Some c"
    using assms(1) by (cases "root_gmi_context factorize m sol") (auto simp: generate_gmi_cut_def get_tableau_for_testing_def)
  obtain b where b: "slots ! k = (True, b)" "basic_index (reconstructed_row m sol (slots, solve) k) = b"
    "tab_rhs (reconstructed_row m sol (slots, solve) k) = bs_x sol ! b"
    using c by (cases "slots ! k") (auto simp: reconstructed_row_def compute_gmi_from_tableau_def Let_def split: if_splits)
  have cond: "col_type m ! b = kInteger" "\<not> bs_x sol ! b - sc_floor sc (bs_x sol ! b) \<le> ct_integrality ct"
    "\<not> 1 - ct_integrality ct \<le> bs_x sol ! b - sc_floor sc (bs_x sol ! b)"
    using c by (auto simp: compute_gmi_from_tableau_def Let_def b(2,3) split: if_splits)
  show ?thesis unfolding generate_gmi_cuts_def ctx option.case set_concat set_map image_image
    by (rule UN_I[of k]) (use assms(2) c cond in \<open>simp_all add: b(1) Let_def\<close>)
qed

section \<open>A small model\<close>

text \<open>A solver for bases of one column, and the vertex \<open>x = 9/4\<close> of \<open>2 x \<le> 9/2\<close>.\<close>

fun factorize_one :: "(nat \<times> xnum) list list \<Rightarrow> nat \<Rightarrow> (xnum list \<Rightarrow> xnum list) option" where
  "factorize_one [[(0, X v)]] n = (if n = 1 \<and> v \<noteq> 0 then Some (\<lambda>b. [hd b div X v]) else None)"
| "factorize_one cols n = None"

lemma factorize_one_solves: "transpose_solves factorize_one"
  unfolding transpose_solves_def
proof (intro allI impI)
  fix cols n solve and k :: nat
  assume run: "factorize_one cols n = Some solve" and k: "k < n"
  obtain v where v: "cols = [[(0, X v)]]" "n = 1" "v \<noteq> 0" "solve = (\<lambda>b. [hd b div X v])"
    using run by (cases "(cols, n)" rule: factorize_one.cases) (auto split: if_splits)
  then show "let z = solve ((replicate n 0)[k := 1]) in length z = n \<and> all_finite z \<and>
      (\<forall>s < n. terms_at (cols ! s) (\<lambda>r. xval (z ! r)) = (if s = k then 1 else 0))"
    using k by (simp add: X_consts) (simp add: all_finite_def)
qed

definition demo_vertex :: "xnum basic_solution" where
  "demo_vertex = \<lparr>bs_x = [X (9 / 4)], bs_activity = [X (9 / 2)], bs_col_status = [kBasic], bs_row_status = [kAtUpper]\<rparr>"

lemma demo_gmi:
  "generate_gmi_cuts factorize_one (exact_scalar 0 0) (exact_cut_tolerances (1 / 10)) demo_cut_model demo_vertex =
     [\<lparr>cut_coeff = [X 4], cut_rhs = X 8\<rparr>]"
proof -
  let ?sc = "exact_scalar 0 0" and ?ct = "exact_cut_tolerances (1 / 10)" and ?m = demo_cut_model
  have ctx: "root_gmi_context factorize_one ?m demo_vertex = Some ([(True, 0)], \<lambda>b. [hd b div X 2])"
    by (simp add: root_gmi_context_def demo_cut_fields demo_vertex_def basis_slots_def slot_column_def)
  have row: "reconstructed_row ?m demo_vertex ([(True, 0)], \<lambda>b. [hd b div X 2]) 0 =
      \<lparr>basic_is_structural = True, basic_index = 0, tab_rhs = X (9 / 4), structural_coefs = [X 1], logical_coefs = [X (- 1 / 2)]\<rparr>"
    by (simp add: reconstructed_row_def demo_cut_fields demo_vertex_def X_consts)
  have fl: "\<lfloor>9 / 4 :: rat\<rfloor> = 2" "\<lfloor>9 / 2 :: rat\<rfloor> = 4" by (rule floor_unique; simp)+
  have "compute_gmi_from_tableau ?sc ?ct ?m demo_vertex
      \<lparr>basic_is_structural = True, basic_index = 0, tab_rhs = X (9 / 4), structural_coefs = [X 1], logical_coefs = [X (- 1 / 2)]\<rparr> =
    Some \<lparr>cut_coeff = [X 4], cut_rhs = X 8\<rparr>"
    by (simp add: compute_gmi_from_tableau_def demo_cut_fields exact_scalar_fields fl X_consts gmi_columns_def gmi_logicals_def
        gmi_entry_def gmi_at_def gmi_pi_def demo_vertex_def largest_abs_def cmax_def cmin_def emit_cut_def emit_entry_def without_logicals_def Let_def)
  moreover have "bs_x demo_vertex = [X (9 / 4)]" by (simp add: demo_vertex_def)
  ultimately show ?thesis unfolding generate_gmi_cuts_def ctx option.case
    by (simp add: demo_cut_fields row Let_def exact_scalar_fields fl X_consts)
qed

theorem gmi_cuts_valid_witness:
  "valid_cut demo_cut_model (col_lower demo_cut_model) (col_upper demo_cut_model) \<lparr>cut_coeff = [X 4], cut_rhs = X 8\<rparr>"
proof (rule gmi_cuts_valid[OF demo_cut_separable _ _ _ _ _ factorize_one_solves, where ft = 0 and mt = 0 and
      ct = "exact_cut_tolerances (1 / 10)" and x = "\<lambda>_. 9 / 4" and sol = demo_vertex and t = "1 / 10" and z = 0])
  show "whole_bounds demo_cut_model (col_lower demo_cut_model) (col_upper demo_cut_model)"
    by (simp add: whole_bounds_def demo_cut_model_def num_cols_def empty_model_def)
  have "row_entries (matrix demo_cut_model) 0 = [(0, X 2)]"
    using demo_cut_fields(1,6) demo_cut_separable by (simp add: row_entries_def walk_columns_def separable_def)
  then show "basic_point demo_cut_model demo_vertex (\<lambda>_. 9 / 4)"
    using row_value_terms[OF demo_cut_separable, of 0 "\<lambda>_. 9 / 4"]
    by (simp add: basic_point_def demo_cut_fields demo_vertex_def nonbasic_at_def)
qed (simp_all add: demo_gmi)

text \<open>
  The term dropped without a charge: with a free column whose coefficient in the tableau row is at most the drop
  tolerance, the cut of \<open>2 x + y / 10 \<le> 9 / 2\<close> is \<open>4 x + y / 5 \<le> 8\<close>, which the point \<open>(0, 45)\<close> of the model
  violates.
\<close>

definition demo_free_model :: "xnum model" where
  "demo_free_model = empty_model\<lparr>col_cost := [X 1, X 0], col_lower := [X 0, XMInf], col_upper := [XPInf, XPInf],
     col_type := [kInteger, kContinuous], row_lower := [XMInf], row_upper := [X (9 / 2)],
     matrix := empty_sparse\<lparr>nrows := 1, ncols := 2, frozen := True, column_starts := [0, 1, 2], row_indices := [0, 0],
       vals := [X 2, X (1 / 10)]\<rparr>\<rparr>"

definition demo_free_vertex :: "xnum basic_solution" where
  "demo_free_vertex = \<lparr>bs_x = [X (9 / 4), X 0], bs_activity = [X (9 / 2)], bs_col_status = [kBasic, kNonbasicFree],
     bs_row_status = [kAtUpper]\<rparr>"

lemma demo_free_fields:
  "num_cols demo_free_model = 2" "num_rows demo_free_model = 1" "col_type demo_free_model = [kInteger, kContinuous]"
  "row_lower demo_free_model = [XMInf]" "row_upper demo_free_model = [X (9 / 2)]"
  "col_lower demo_free_model = [X 0, XMInf]" "col_upper demo_free_model = [XPInf, XPInf]"
  "column (matrix demo_free_model) 0 = [(0, X 2)]" "column (matrix demo_free_model) (Suc 0) = [(0, X (1 / 10))]"
  by (simp_all add: demo_free_model_def num_cols_def num_rows_def empty_model_def empty_sparse_def column_def segment_def)

lemma demo_free_separable: "separable demo_free_model"
  using demo_free_fields
  by (simp add: separable_def csc_ok_def demo_free_model_def empty_model_def empty_sparse_def stores_def column_def segment_def
      num_cols_def num_rows_def numeral_2_eq_2 less_Suc_eq)

lemma demo_free_cut:
  "generate_gmi_cuts factorize_one (exact_scalar 0 0) ((exact_cut_tolerances (1 / 10))\<lparr>ct_zero := X (1 / 10)\<rparr>) demo_free_model demo_free_vertex =
     [\<lparr>cut_coeff = [X 4, X (1 / 5)], cut_rhs = X 8\<rparr>]"
proof -
  let ?sc = "exact_scalar 0 0" and ?ct = "(exact_cut_tolerances (1 / 10))\<lparr>ct_zero := X (1 / 10)\<rparr>" and ?m = demo_free_model
  let ?row = "\<lparr>basic_is_structural = True, basic_index = 0, tab_rhs = X (9 / 4), structural_coefs = [X 1, X (1 / 20)],
      logical_coefs = [X (- 1 / 2)]\<rparr>"
  have ct: "ct_integrality ?ct = X (1 / 10)" "ct_noise ?ct = X 0" "ct_zero ?ct = X (1 / 10)" by simp_all
  have sol: "bs_x demo_free_vertex = [X (9 / 4), X 0]" "bs_col_status demo_free_vertex = [kBasic, kNonbasicFree]"
    "bs_row_status demo_free_vertex = [kAtUpper]" by (simp_all add: demo_free_vertex_def)
  have ctx: "root_gmi_context factorize_one ?m demo_free_vertex = Some ([(True, 0)], \<lambda>b. [hd b div X 2])"
    by (simp add: root_gmi_context_def demo_free_fields sol basis_slots_def slot_column_def)
  have row: "reconstructed_row ?m demo_free_vertex ([(True, 0)], \<lambda>b. [hd b div X 2]) 0 = ?row"
    by (simp add: reconstructed_row_def demo_free_fields sol X_consts numeral_2_eq_2)
  have fl: "\<lfloor>9 / 4 :: rat\<rfloor> = 2" "\<lfloor>9 / 2 :: rat\<rfloor> = 4" by (rule floor_unique; simp)+
  have "compute_gmi_from_tableau ?sc ?ct ?m demo_free_vertex ?row = Some \<lparr>cut_coeff = [X 4, X (1 / 5)], cut_rhs = X 8\<rparr>"
    by (simp add: compute_gmi_from_tableau_def demo_free_fields exact_scalar_fields fl X_consts gmi_columns_def gmi_logicals_def numeral_2_eq_2
        gmi_entry_def gmi_at_def gmi_pi_def sol ct largest_abs_def cmax_def cmin_def emit_cut_def emit_entry_def without_logicals_def Let_def)
  then show ?thesis unfolding generate_gmi_cuts_def ctx option.case
    by (simp add: demo_free_fields row Let_def exact_scalar_fields fl X_consts sol ct)
qed

theorem free_column_dropped_unpaid:
  "\<exists>c \<in> set (generate_gmi_cuts factorize_one (exact_scalar 0 0) ((exact_cut_tolerances (1 / 10))\<lparr>ct_zero := X (1 / 10)\<rparr>)
      demo_free_model demo_free_vertex).
    \<not> valid_cut demo_free_model (col_lower demo_free_model) (col_upper demo_free_model) c"
proof -
  let ?p = "\<lambda>j :: nat. if j = 0 then 0 else 45 :: rat" and ?m = demo_free_model
  have "row_entries (matrix ?m) 0 = [(0, X 2), (Suc 0, X (1 / 10))]"
    using demo_free_fields demo_free_separable by (simp add: row_entries_def walk_columns_def separable_def numeral_2_eq_2)
  then have "row_value ?m ?p 0 = 9 / 2" using row_value_terms[OF demo_free_separable, of 0 ?p] by (simp add: demo_free_fields)
  then have "solves ?m (col_lower ?m) (col_upper ?m) ?p"
    by (simp add: solves_def rows_hold_def demo_free_fields numeral_2_eq_2 less_Suc_eq)
  moreover have "\<not> cut_holds ?p \<lparr>cut_coeff = [X 4, X (1 / 5)], cut_rhs = X 8\<rparr>" by (simp add: cut_holds_def lhs_at_def numeral_2_eq_2)
  ultimately show ?thesis unfolding demo_free_cut valid_cut_def by auto
qed

end
