(* ===== verification/Spec2Isabelle.thy ===== *)
theory Spec2Isabelle
  imports Prelude Doubles Types Sparse Lexical Tolerances Options Model StopLimits Guard Certificate
    Conflict ConflictStore SolutionPool Extended NodeDomain Propagation Branching Learning TreeSearch TreeCorrect
    CompactionSound MirCuts CliqueCuts CoverCuts GmiCuts
begin

text \<open>
  A verification development for SANKHYA, a C++ solver for linear, mixed-integer and quadratic programs.

  \<^bold>\<open>The program and its parts.\<close> A model (\<open>include/sankhya/model.hpp\<close>, \<open>src/core/model.cpp\<close>) holds a column-compressed
  matrix (\<open>include/sankhya/sparse.hpp\<close>, \<open>src/la/sparse.cpp\<close>), bounds, costs and types. Options
  (\<open>src/util/options.cpp\<close>) are set by name from text. \<open>solve()\<close> (\<open>src/core/solve.cpp\<close>) selects an engine, runs
  presolve, hands the reduced model to the engine under the resource limits, postsolves the answer, measures
  it against the original model, checks the certificates of infeasibility and unboundedness and lowers a
  status the measurement does not support. Integer models go to the branch-and-bound search
  (\<open>src/mip\<close>), which tightens the box of each node by propagation, learns conflicts from infeasible nodes,
  keeps a pool of good points and reports a bound. The linear engines (simplex, interior point, first-order,
  GPU) are iterative floating-point methods; here their answers are inputs, and what is verified is all that
  stands between those answers and the caller.

  \<^bold>\<open>Theories and the code they model\<close> (files under \<open>src/\<close>; records and functions keep the names of the code):

  \<^item> \<open>Prelude\<close>: the C++ comparisons and \<open>std::min\<close>, \<open>std::max\<close>, vector updates, and list lemmas that the
    components share. \<open>Doubles\<close>: IEEE binary64 with rounding, NaN, infinities and signed zero. \<open>Extended\<close>: exact
    numbers with the infinities and NaN of IEEE arithmetic. Numeric code is written once for any scalar and
    runs on both: what the code tests and returns is proved on doubles where rounding does not matter to it,
    and the arguments of optimality, feasibility and infeasibility on the exact numbers.
  \<^item> \<open>Types\<close> (\<open>types.hpp\<close>), \<open>Sparse\<close> (\<open>sparse.hpp\<close>, \<open>sparse.cpp\<close>), \<open>Lexical\<close> (\<open>io/token.hpp\<close>), \<open>Tolerances\<close>
    (\<open>tolerances.hpp\<close>), \<open>Options\<close> (\<open>options.hpp\<close>, \<open>options.cpp\<close>), \<open>Model\<close> (\<open>model.hpp\<close>, \<open>model.cpp\<close>): the containers and
    the data, with their guards against overflow, duplicate triplets, NaN and malformed text.
  \<^item> \<open>StopLimits\<close> (\<open>resource_limits.cpp\<close>, \<open>stop_controller.hpp\<close>, \<open>deterministic_mode.cpp\<close>, \<open>engine_selection.cpp\<close>),
    \<open>Guard\<close> (\<open>solve.cpp\<close>, \<open>status_guard.hpp\<close>), \<open>Certificate\<close> (\<open>certificate.cpp\<close>): when a solve stops, which engine
    runs, and what a returned status and certificate are worth.
  \<^item> \<open>Conflict\<close>, \<open>ConflictStore\<close>, \<open>SolutionPool\<close> (\<open>mip/conflict.cpp\<close>, \<open>mip/solution_pool.cpp\<close>), \<open>NodeDomain\<close>,
    \<open>Propagation\<close>, \<open>Branching\<close>, \<open>Learning\<close> (\<open>mip/branch_and_bound_node.cpp\<close>, \<open>branch_and_bound_conflicts.cpp\<close>,
    \<open>branch_and_bound_internal.hpp\<close>), \<open>TreeSearch\<close>, \<open>TreeCorrect\<close> (\<open>mip/branch_and_bound.cpp\<close>): the tree search.
    \<open>NodeDomain\<close> also holds the record \<open>scalar\<close> with what generic code takes from its number type.
  \<^item> \<open>Presolve\<close>, \<open>Compaction\<close>, \<open>Postsolve\<close> (\<open>presolve/presolve.cpp\<close>, \<open>presolve.hpp\<close>): the workspace, the reductions,
    the passes, the reduced model, and the way back. \<open>Reductions\<close> states the reductions as functions on linear
    problems, apart from any bookkeeping; \<open>PresolveBooks\<close> to \<open>CompactionSound\<close> show that the code implements them.

  \<^item> \<open>Cuts\<close> (\<open>mip/cuts.hpp\<close>, \<open>mip/cuts.cpp\<close>), \<open>MirCuts\<close> (\<open>mip/mir_cuts.cpp\<close>), \<open>CliqueCuts\<close>
    (\<open>mip/combinatorial_cuts.cpp\<close>), \<open>CoverCuts\<close>, \<open>GmiCuts\<close> (\<open>mip/cuts.cpp\<close>): the cutting planes. \<open>Cuts\<close> has the
    cut, what it means for it to be valid, the filter of the candidates and the rounding of integral rows. In
    \<open>GmiCuts\<close> the factorization of the basis is a parameter.

  \<^bold>\<open>What the lemmas show.\<close>

  \<^item> \<open>Presolve\<close>. \<open>Reductions\<close>: each reduction has a step back, is sound and loses nothing. \<open>PresolveBooks\<close>,
    \<open>PresolveSound\<close>, \<open>PresolveSteps\<close>, \<open>PresolveRows\<close>, \<open>PresolveFill\<close>, \<open>PresolveRun\<close>: the invariant \<open>tidy\<close> of the
    workspace (the row entries, the columns with their fill-in and the counts agree) and, for every operation of
    the code with all its guards, that it keeps the invariant and \<open>advances\<close>: it takes the problem the workspace
    stands for to its reduction, or refutes it with reason. \<open>PresolvePromise\<close>: so do the passes.
    \<open>PresolveTrail\<close>: an operation changes the books by exactly what its record says. \<open>PostsolveTables\<close>: the
    tables that postsolve rebuilds from the records (positions, fill-in of rows, rows it added to columns) are those
    presolve had. \<open>PostsolveSound\<close>: so the replay in reverse takes the steps back. \<open>CompactionSound\<close>: the reduced
    model is the problem that was left, renumbered, and the composition: an optimal point of the reduced model
    is postsolved into an optimal point of the original, of the same objective.
  \<^item> The tree search. \<open>NodeDomain\<close>: entering and leaving a node restores the model bit for bit.
    \<open>Propagation\<close>: no integer point is lost. \<open>Conflict\<close>, \<open>Learning\<close>: what is learned cuts off no point,
    whatever multipliers the engine hands over. \<open>Branching\<close>: incumbents are always checked, nodes are taken by
    the policy, both splits partition the points. \<open>TreeCorrect\<close>: the turns of the search keep every point covered, so
    an exhausted tree and a reported bound mean what they say, provided the relaxation answers honestly.
  \<^item> Cutting planes. A separated cut holds at every integer point of the rows and bounds it was derived
    under, whatever LP point, divisor or row the separator chose. \<open>MirCuts\<close>: a base row stays a valid inequality
    under aggregation, substitution of bounds and rounding. \<open>CliqueCuts\<close>: an edge of the conflict graph is a real
    conflict, and what is grown is a clique of it. \<open>CoverCuts\<close>: the dynamic programme is exact
    (\<open>knapsack_exact\<close>), so lifting keeps the cover inequality valid (\<open>cover_cut_valid\<close>). \<open>GmiCuts\<close>: a row of the tableau is an
    identity of the rows, the Gomory inequality holds for it, and what is dropped from it is paid for; a free
    column dropped without a charge is the exception, and \<open>free_column_dropped_unpaid\<close> shows what it costs. \<open>Cuts\<close>: rounding an integral row keeps exactly its points.
  \<^item> The frame. Sparse kernels against sums over triplets, adjointness and the transpose; option assignment
    all or nothing, with printing undone by parsing; a NaN triplet never passes validation; limits and stop reasons; the
    guards let no unsupported claim out; the certificate checks are sound in exact arithmetic, and two theorems
    exhibit models on which the double code accepts too much.

  \<^bold>\<open>Bounds, fuel and idealizations.\<close> Loops that the code bounds keep its bounds: twenty presolve passes
  (\<open>kMaxPasses\<close>), three propagation sweeps, the depth of the dive, the checks of a conflict, the 64-bit and
  \<open>Index\<close> limits of the containers. The walk to the root of a tree recurses on the age of a node and is total
  on trees whose parents are older. A search is a relation of turns of any number, so no fuel is needed. In
  the exact statements of presolve the feasibility and integrality tolerances are zero and the drop tolerance
  \<open>z\<close> is any positive number, as are the entries of the model against it (\<open>model_ok\<close>); a price below \<open>z\<close> that is
  not zero (\<open>clear_price\<close>) and a fill-in below the tolerance of \<open>finalize\<close> (\<open>no_dust\<close>) are excluded by hypothesis,
  since the code takes them for zero. The statements on cuts have the drop tolerance zero, but for the Gomory
  cuts, which have any drop tolerance and the relative noise zero; the
  integrality tolerance is any, with the bounds of integer columns integral (\<open>whole_bounds\<close>) and no coefficient
  mistaken for an integer (\<open>no_near_integers\<close>) where it matters. Only the linear part of the objective is stated there. Strings
  are byte lists; clocks, callbacks, \<open>llround\<close>, \<open>std::sort\<close> and number formatting are parameters with
  their documented behaviour as hypotheses.

  \<^bold>\<open>Not modelled.\<close> The floating-point engines and the factorizations under them (their correctness is a residual in
  rounded arithmetic, for which there is no error analysis here), the zero-half cuts and the rounds that add cuts to the working model, search heuristics
  (points proposed by heuristics are inputs of the search and pass its test), the parallel search,
  checkpoints, readers and writers of files, the dual pass of postsolve (prices and the statuses that depend on
  them; the guards measure its result), nonlinear expressions, reports, logging, and the bindings.
\<close>

end
